(* ===== verification/Prelude.thy ===== *)
theory Prelude
  imports Main "HOL-Library.Word" "HOL-Library.Signed_Division"
begin

text \<open>
  Shared material of the NorthOS kernel and user-space models.

  \<^item> The machine types of the C sources (\<open>include/types.h\<close>): \<open>uint\<close>, \<open>ushort\<close>, \<open>uchar\<close>
    as words of their width, so that arithmetic wraps as it does in C.
  \<^item> The result type of kernel code.  A kernel function returns a value (\<open>Ok v\<close>), calls
    \<open>panic\<close> with a message and never returns (\<open>Panic msg\<close>), or, run without interference in
    the given state, has to wait for another process and gives up the CPU in \<open>sleep\<close>
    (\<open>Blocked chan\<close>).  \<open>kbind\<close> runs one call after another and stops at the first of these.
  \<^item> The scan loop \<open>for (i = lo; i < hi; i++) if (P i) ...\<close>, which the kernel uses for
    every one of its fixed-size tables (processes, files, inodes, descriptors, windows, widgets).
  \<^item> Generic facts on list update, on \<open>mod\<close>-indexed buffers and on small words.
\<close>

unbundle bit_operations_syntax

subsection \<open>Machine types\<close>

type_synonym uint = "32 word"
type_synonym ushort = "16 word"
type_synonym uchar = "8 word"

text \<open>Collections used by the component theories: unfolding rules of result plumbing, and the
  laws of scan loops.\<close>

named_theorems kres_simps \<open>equations that push results through kbind and fold over panics\<close>
named_theorems scan_simps \<open>characterisations of scan loops\<close>

lemma unat_uint_less: "unat (x :: uint) < 4294967296"
proof -
  have "unat x < 2 ^ LENGTH(32)" by (rule unsigned_less)
  then show ?thesis by simp
qed

lemma unat_uchar_less: "unat (x :: uchar) < 256"
proof -
  have "unat x < 2 ^ LENGTH(8)" by (rule unsigned_less)
  then show ?thesis by simp
qed

lemma sint_small: "unat (n :: uint) < 2147483648 \<Longrightarrow> sint n = int (unat n)"
proof -
  assume "unat n < 2147483648"
  moreover have u: "uint n = int (unat n)" by simp
  ultimately have "uint n < 2147483648" "- 2147483648 \<le> uint n" by linarith+
  then have "uint n < 2 ^ 31" "- (2 ^ 31) \<le> uint n" by simp_all
  then have "signed_take_bit 31 (uint n) = uint n" by (intro signed_take_bit_int_eq_self)
  then show ?thesis by (simp add: sint_uint)
qed

lemma sint_large: "2147483648 \<le> unat (n :: uint) \<Longrightarrow> sint n < 0"
proof -
  assume n: "2147483648 \<le> unat n"
  have "sint n = (uint n + 2147483648) mod 4294967296 - 2147483648"
    by (simp add: sint_uint signed_take_bit_eq_take_bit_shift take_bit_eq_mod)
  also have "(uint n + 2147483648) mod 4294967296 = uint n - 2147483648"
  proof -
    have "int (unat n) = uint n" by simp
    then have "2147483648 \<le> uint n" "uint n < 4294967296" using n unat_uint_less [of n] by linarith+
    then have "(uint n - 2147483648 + 4294967296) mod 4294967296 = uint n - 2147483648"
      unfolding mod_add_self2 by (intro mod_pos_pos_trivial) simp_all
    moreover have "uint n - 2147483648 + 4294967296 = uint n + 2147483648" by simp
    ultimately show ?thesis by metis
  qed
  finally have "sint n = uint n - 4294967296" by simp
  moreover have "int (unat n) = uint n" by simp
  ultimately show ?thesis using unat_uint_less [of n] by linarith
qed

subsection \<open>Results of kernel code\<close>

datatype 'a kres = Ok 'a | Panic string | Blocked string

primrec kbind :: "'a kres \<Rightarrow> ('a \<Rightarrow> 'b kres) \<Rightarrow> 'b kres" where
  "kbind (Ok x) f = f x"
| "kbind (Panic m) f = Panic m"
| "kbind (Blocked c) f = Blocked c"

definition kguard :: "bool \<Rightarrow> string \<Rightarrow> unit kres" where
  "kguard ok msg = (if ok then Ok () else Panic msg)"

lemma kbind_eq_Ok [kres_simps]: "kbind m f = Ok y \<longleftrightarrow> (\<exists>x. m = Ok x \<and> f x = Ok y)"
  by (cases m) auto

lemma kbind_eq_Panic [kres_simps]:
  "kbind m f = Panic e \<longleftrightarrow> m = Panic e \<or> (\<exists>x. m = Ok x \<and> f x = Panic e)"
  by (cases m) auto

lemma kbind_eq_Blocked [kres_simps]:
  "kbind m f = Blocked e \<longleftrightarrow> m = Blocked e \<or> (\<exists>x. m = Ok x \<and> f x = Blocked e)"
  by (cases m) auto

lemma kguard_eq_Ok [kres_simps]: "kguard b msg = Ok u \<longleftrightarrow> b"
  by (simp add: kguard_def)

lemma kguard_True [simp]: "kguard True msg = Ok ()"
  by (simp add: kguard_def)

lemma kguard_False [simp]: "kguard False msg = Panic msg"
  by (simp add: kguard_def)

lemma kbind_assoc: "kbind (kbind m f) g = kbind m (\<lambda>x. kbind (f x) g)"
  by (cases m) auto

text \<open>Code with loops that may not end returns an optional result, \<open>None\<close> when it never returns.\<close>

fun okbind :: "'a kres option \<Rightarrow> ('a \<Rightarrow> 'b kres option) \<Rightarrow> 'b kres option" where
  "okbind None f = None"
| "okbind (Some (Ok x)) f = f x"
| "okbind (Some (Panic m)) f = Some (Panic m)"
| "okbind (Some (Blocked c)) f = Some (Blocked c)"

text \<open>\<open>kloop f i k s\<close> runs \<open>f\<close> for the counters \<open>i, i+1, ..., i+k-1\<close>.\<close>

fun kloop :: "(nat \<Rightarrow> 's \<Rightarrow> 's kres) \<Rightarrow> nat \<Rightarrow> nat \<Rightarrow> 's \<Rightarrow> 's kres" where
  "kloop f i 0 s = Ok s"
| "kloop f i (Suc k) s = kbind (f i s) (kloop f (Suc i) k)"

lemma kloop_inv:
  "kloop f i k s = Ok s' \<Longrightarrow> I s \<Longrightarrow> (\<And>j s s'. I s \<Longrightarrow> f j s = Ok s' \<Longrightarrow> I s') \<Longrightarrow> I s'"
proof (induction k arbitrary: i s)
  case (Suc k)
  then obtain t where "f i s = Ok t" "kloop f (Suc i) k t = Ok s'" by (auto simp: kres_simps)
  with Suc show ?case by blast
qed simp

subsection \<open>Scan loops over a fixed table\<close>

text \<open>\<open>scan P lo k\<close> is the loop over \<open>lo, lo+1, ..., lo+k-1\<close> that stops at the first index
  satisfying \<open>P\<close>.\<close>

fun scan :: "(nat \<Rightarrow> bool) \<Rightarrow> nat \<Rightarrow> nat \<Rightarrow> nat option" where
  "scan P i 0 = None"
| "scan P i (Suc k) = (if P i then Some i else scan P (Suc i) k)"

lemma scan_eq_Some [scan_simps]:
  "scan P i k = Some j \<longleftrightarrow> i \<le> j \<and> j < i + k \<and> P j \<and> (\<forall>l. i \<le> l \<and> l < j \<longrightarrow> \<not> P l)"
proof (induction k arbitrary: i)
  case 0
  then show ?case by auto
next
  case (Suc k)
  show ?case
  proof (cases "P i")
    case True
    then show ?thesis by (auto dest: spec [of _ i] simp: not_less le_less)
  next
    case False
    have split: "(\<forall>l. i \<le> l \<and> l < j \<longrightarrow> \<not> P l) \<longleftrightarrow> (\<forall>l. Suc i \<le> l \<and> l < j \<longrightarrow> \<not> P l)"
      using False by (metis Suc_le_eq le_neq_implies_less Suc_leD)
    have "i \<le> j \<and> P j \<longleftrightarrow> Suc i \<le> j \<and> P j"
      using False by (metis Suc_leD le_antisym not_less_eq_eq)
    with False Suc.IH [of "Suc i"] split show ?thesis by auto
  qed
qed

lemma scan_eq_None [scan_simps]: "scan P i k = None \<longleftrightarrow> (\<forall>j. i \<le> j \<and> j < i + k \<longrightarrow> \<not> P j)"
proof (induction k arbitrary: i)
  case 0
  then show ?case by auto
next
  case (Suc k)
  have "(\<forall>j. i \<le> j \<and> j < i + Suc k \<longrightarrow> \<not> P j) \<longleftrightarrow> \<not> P i \<and> (\<forall>j. Suc i \<le> j \<and> j < Suc i + k \<longrightarrow> \<not> P j)"
    by (metis Suc_le_eq add_Suc_shift le_add1 le_neq_implies_less less_add_Suc1 less_or_eq_imp_le order_refl)
  with Suc.IH [of "Suc i"] show ?case by simp
qed

lemma scan_SomeD: "scan P i k = Some j \<Longrightarrow> P j \<and> i \<le> j \<and> j < i + k"
  by (simp add: scan_eq_Some)

lemma scan_first: "scan P i k = Some j \<Longrightarrow> i \<le> l \<Longrightarrow> l < j \<Longrightarrow> \<not> P l"
  by (simp add: scan_eq_Some)

lemma scan_complete: "i \<le> j \<Longrightarrow> j < i + k \<Longrightarrow> P j \<Longrightarrow> \<exists>j'. scan P i k = Some j'"
  by (cases "scan P i k") (auto simp: scan_eq_None)

lemma scan_cong_on:
  "(\<And>j. i \<le> j \<Longrightarrow> j < i + k \<Longrightarrow> P j = Q j) \<Longrightarrow> scan P i k = scan Q i k"
proof (induction k arbitrary: i)
  case (Suc k)
  then show ?case by (simp)
qed simp

subsection \<open>Lists and circular buffers\<close>

lemma find_SomeD: "find P xs = Some x \<Longrightarrow> x \<in> set xs \<and> P x"
  by (auto simp: find_Some_iff)

lemma nth_update_eq: "i < length xs \<Longrightarrow> (xs[i := x]) ! j = (if i = j then x else xs ! j)"
  by (simp add: nth_list_update)

lemma mod_add_neq:
  fixes a b n :: nat
  assumes "a < b" and "b < n"
  shows "(f + a) mod n \<noteq> (f + b) mod n"
proof
  assume eq: "(f + a) mod n = (f + b) mod n"
  have "(f + b) - (f + a) = b - a" by simp
  with eq have "n dvd b - a"
    by (metis assms(1) less_imp_le_nat mod_eq_dvd_iff_nat nat_add_left_cancel_le)
  with assms show False
    by (auto dest: dvd_imp_le)
qed

lemma mod_add_inj:
  fixes a b n :: nat
  assumes "a < n" "b < n" "(f + a) mod n = (f + b) mod n"
  shows "a = b"
  using assms mod_add_neq by (metis linorder_neqE_nat)

end
