(* ===== verification/Block.thy ===== *)
theory Block
  imports Prelude
begin

text \<open>
  Disk blocks as the kernel sees them: \<open>BSIZE\<close> bytes, read and written through pointers to
  \<open>ushort\<close>, \<open>uint\<close> and to the structures of \<open>include/fs.h\<close>.  A block is a function from byte
  offsets; the accessors below are the little-endian loads and stores of the machine.
\<close>

abbreviation BSIZE :: nat where "BSIZE \<equiv> 2048"

type_synonym block = "nat \<Rightarrow> uchar"

definition zero_block :: block where
  "zero_block = (\<lambda>_. 0)"

definition get16 :: "block \<Rightarrow> nat \<Rightarrow> ushort" where
  "get16 b off = (ucast (b off) :: ushort) OR push_bit 8 (ucast (b (off + 1)))"

definition put16 :: "block \<Rightarrow> nat \<Rightarrow> ushort \<Rightarrow> block" where
  "put16 b off v = b(off := ucast v, off + 1 := ucast (drop_bit 8 v))"

definition get32 :: "block \<Rightarrow> nat \<Rightarrow> uint" where
  "get32 b off = (ucast (b off) :: uint) OR push_bit 8 (ucast (b (off + 1)))
     OR push_bit 16 (ucast (b (off + 2))) OR push_bit 24 (ucast (b (off + 3)))"

definition put32 :: "block \<Rightarrow> nat \<Rightarrow> uint \<Rightarrow> block" where
  "put32 b off v = b(off := ucast v, off + 1 := ucast (drop_bit 8 v),
     off + 2 := ucast (drop_bit 16 v), off + 3 := ucast (drop_bit 24 v))"

text \<open>\<open>memmove\<close> and \<open>memset\<close> inside blocks.\<close>

definition put_bytes :: "block \<Rightarrow> nat \<Rightarrow> nat \<Rightarrow> (nat \<Rightarrow> uchar) \<Rightarrow> block" where
  "put_bytes b off n src = (\<lambda>i. if off \<le> i \<and> i < off + n then src (i - off) else b i)"

lemma get16_put16 [simp]: "get16 (put16 b off v) off = v"
proof (rule bit_word_eqI)
  fix i assume "i < LENGTH(16)"
  then have "i < 16" by simp
  then show "bit (get16 (put16 b off v) off) i = bit v i"
    by (cases "i < 8") (auto simp: get16_def put16_def bit_simps)
qed

lemma get32_put32 [simp]: "get32 (put32 b off v) off = v"
proof (rule bit_word_eqI)
  fix i assume "i < LENGTH(32)"
  then have "i < 8 \<or> 8 \<le> i \<and> i < 16 \<or> 16 \<le> i \<and> i < 24 \<or> 24 \<le> i \<and> i < 32" by auto
  then show "bit (get32 (put32 b off v) off) i = bit v i"
    by (elim disjE) (auto simp: get32_def put32_def bit_simps)
qed

lemma put32_other:
  "i < off \<or> off + 4 \<le> i \<Longrightarrow> put32 b off v i = b i"
  by (auto simp: put32_def)

lemma put16_other:
  "i < off \<or> off + 2 \<le> i \<Longrightarrow> put16 b off v i = b i"
  by (auto simp: put16_def)

lemma get32_cong:
  "(\<And>i. off \<le> i \<Longrightarrow> i < off + 4 \<Longrightarrow> b i = c i) \<Longrightarrow> get32 b off = get32 c off"
  by (simp add: get32_def)

lemma get16_cong:
  "(\<And>i. off \<le> i \<Longrightarrow> i < off + 2 \<Longrightarrow> b i = c i) \<Longrightarrow> get16 b off = get16 c off"
  by (simp add: get16_def)

lemma get32_put32_other:
  "off + 4 \<le> off' \<or> off' + 4 \<le> off \<Longrightarrow> get32 (put32 b off v) off' = get32 b off'"
  by (rule get32_cong) (auto simp: put32_other)

lemma put_bytes_in: "off \<le> i \<Longrightarrow> i < off + n \<Longrightarrow> put_bytes b off n src i = src (i - off)"
  by (simp add: put_bytes_def)

lemma put_bytes_out: "i < off \<or> off + n \<le> i \<Longrightarrow> put_bytes b off n src i = b i"
  by (auto simp: put_bytes_def)

end
