(* ===== verification/Boot.thy ===== *)
theory Boot
  imports Block
begin

text \<open>
  The boot loader, \<open>kernel/bootmain.c\<close>: it reads the kernel's ELF image from the disk, sector by sector, to the
  physical addresses of its segments, and jumps to the entry point.

  Physical memory is a function from 32-bit addresses; pointers are words, so that \<open>pa < epa\<close> and \<open>pa += SECTSIZE\<close>
  are those of the code.  The program headers are read from memory while the segments are loaded, as in the code.  The
  controller is a parameter: what it delivers for the four bytes of a sector address written to its ports; waiting until it is
  ready is left out.  Loops that depend on words read from the disk are partial functions.
\<close>

type_synonym pmem = "uint \<Rightarrow> uchar"

abbreviation (input) BOOT_MAGIC :: uint where "BOOT_MAGIC \<equiv> 0x464C457F"
abbreviation (input) SECTSIZE :: nat where "SECTSIZE \<equiv> 512"
abbreviation (input) ELF_AT :: uint where "ELF_AT \<equiv> 0x10000"

definition mword :: "pmem \<Rightarrow> uint \<Rightarrow> uint" where
  "mword m a = get32 (\<lambda>i. m (a + of_nat i)) 0"

definition mhalf :: "pmem \<Rightarrow> uint \<Rightarrow> ushort" where
  "mhalf m a = get16 (\<lambda>i. m (a + of_nat i)) 0"

text \<open>The string instructions: \<open>insl\<close> stores what the controller delivers, \<open>stosb\<close> a byte \<open>n\<close> times.\<close>

definition boot_insl :: "uint \<Rightarrow> uchar list \<Rightarrow> pmem \<Rightarrow> pmem" where
  "boot_insl dst bs m = (\<lambda>a. if unat (a - dst) < length bs then bs ! unat (a - dst) else m a)"

definition boot_stosb :: "uint \<Rightarrow> uchar \<Rightarrow> uint \<Rightarrow> pmem \<Rightarrow> pmem" where
  "boot_stosb dst c n m = (\<lambda>a. if a - dst < n then c else m a)"

text \<open>The bytes written to the ports \<open>0x1F3\<close> to \<open>0x1F6\<close>.\<close>

definition sector_ports :: "uint \<Rightarrow> uchar list" where
  "sector_ports offset = [ucast offset, ucast (drop_bit 8 offset), ucast (drop_bit 16 offset), ucast (drop_bit 24 offset OR 0xE0)]"

definition readsect :: "(uchar list \<Rightarrow> uchar list) \<Rightarrow> uint \<Rightarrow> uint \<Rightarrow> pmem \<Rightarrow> pmem" where
  "readsect disk dst offset m = boot_insl dst (take SECTSIZE (disk (sector_ports offset))) m"

partial_function (option) readseg_loop :: "(uchar list \<Rightarrow> uchar list) \<Rightarrow> uint \<Rightarrow> uint \<Rightarrow> uint \<Rightarrow> pmem \<Rightarrow> pmem option" where
  "readseg_loop disk pa epa offset m =
     (if pa < epa then readseg_loop disk (pa + 512) epa (offset + 1) (readsect disk pa offset m) else Some m)"

definition readseg :: "(uchar list \<Rightarrow> uchar list) \<Rightarrow> uint \<Rightarrow> uint \<Rightarrow> uint \<Rightarrow> pmem \<Rightarrow> pmem option" where
  "readseg disk pa count offset m = readseg_loop disk (pa - offset mod 512) (pa + count) (offset div 512 + 1) m"

text \<open>The body of the loop over the program headers, at the header \<open>ph\<close>, and the loop.\<close>

definition boot_segment :: "(uchar list \<Rightarrow> uchar list) \<Rightarrow> uint \<Rightarrow> pmem \<Rightarrow> pmem option" where
  "boot_segment disk ph m =
     (let pa = mword m (ph + 12) in
      map_option (\<lambda>m. if mword m (ph + 16) < mword m (ph + 20)
                      then boot_stosb (pa + mword m (ph + 16)) 0 (mword m (ph + 20) - mword m (ph + 16)) m else m)
        (readseg disk pa (mword m (ph + 16)) (mword m (ph + 4)) m))"

partial_function (option) boot_segments :: "(uchar list \<Rightarrow> uchar list) \<Rightarrow> uint \<Rightarrow> uint \<Rightarrow> pmem \<Rightarrow> pmem option" where
  "boot_segments disk ph eph m =
     (if ph < eph then Option.bind (boot_segment disk ph m) (boot_segments disk (ph + 32) eph) else Some m)"

text \<open>The memory and the address that is called, none when the image is not an ELF image.\<close>

definition bootmain :: "(uchar list \<Rightarrow> uchar list) \<Rightarrow> pmem \<Rightarrow> (pmem \<times> uint option) option" where
  "bootmain disk m =
     Option.bind (readseg disk ELF_AT 4096 0 m) (\<lambda>m.
       if mword m ELF_AT \<noteq> BOOT_MAGIC then Some (m, None)
       else let ph = ELF_AT + mword m (ELF_AT + 28); eph = ph + 32 * ucast (mhalf m (ELF_AT + 44))
         in map_option (\<lambda>m. (m, Some (mword m (ELF_AT + 24)))) (boot_segments disk ph eph m))"

section \<open>The disk\<close>

text \<open>A controller answers with the sector whose number is in the 28 low bits of the four bytes.  \<open>holds\<close>: from sector 1 on the
  disk holds the kernel file \<open>f\<close>.\<close>

definition sector_of_ports :: "uchar list \<Rightarrow> nat" where
  "sector_of_ports b = unat (b ! 0) + 256 * unat (b ! 1) + 65536 * unat (b ! 2) + 16777216 * (unat (b ! 3) mod 16)"

definition holds :: "(uchar list \<Rightarrow> uchar list) \<Rightarrow> (nat \<Rightarrow> uchar) \<Rightarrow> bool" where
  "holds disk f \<longleftrightarrow> (\<forall>b. length b = 4 \<longrightarrow> 1 \<le> sector_of_ports b \<longrightarrow>
     disk b = map (\<lambda>i. f (512 * (sector_of_ports b - 1) + i)) [0..<512])"

lemma sector_ports_number:
  assumes "unat n < 2 ^ 28"
  shows "sector_of_ports (sector_ports n) = unat n"
proof -
  have b: "unat (ucast (w :: uint) :: uchar) = unat w mod 256" for w by (simp add: unsigned_ucast_eq take_bit_eq_mod)
  have d: "unat (drop_bit 8 n) = unat n div 256" "unat (drop_bit 16 n) = unat n div 65536" "unat (drop_bit 24 n) = unat n div 16777216"
    by (simp_all add: drop_bit_eq_div unat_div_distrib)
  have o: "unat (ucast (w OR 0xE0 :: uint) :: uchar) mod 16 = unat w mod 16" for w :: uint
  proof -
    have t: "take_bit 4 (ucast (w OR 0xE0) :: uchar) = take_bit 4 (ucast w)"
    proof (rule bit_word_eqI)
      fix k assume "k < LENGTH(8)"
      have "\<not> bit (0xE0 :: uint) k" if "k < 4" using that by (auto simp: less_Suc_eq numeral_eq_Suc)
      then show "bit (take_bit 4 (ucast (w OR 0xE0) :: uchar)) k = bit (take_bit 4 (ucast w :: uchar)) k" by (auto simp: bit_simps)
    qed
    have u: "unat (take_bit 4 x) = unat x mod 16" for x :: uchar by (simp add: take_bit_eq_mod unat_mod_distrib)
    show ?thesis using t [THEN arg_cong [where f = unat]] unfolding u b by (simp add: mod_mod_cancel)
  qed
  have "sector_of_ports (sector_ports n) = unat n mod 256 + 256 * (unat n div 256 mod 256) + 65536 * (unat n div 65536 mod 256) +
      16777216 * (unat n div 16777216 mod 16)"
    using o [of "drop_bit 24 n"] by (simp add: sector_of_ports_def sector_ports_def b d)
  also have "\<dots> = unat n" using assms 
  proof -
    let ?a = "unat n div 256" let ?b = "?a div 256" let ?c = "?b div 256"
    have "unat n = 256 * ?a + unat n mod 256" "?a = 256 * ?b + ?a mod 256" "?b = 256 * ?c + ?b mod 256" by simp_all
    moreover have "?c < 16" using assms by (simp add: div_less_iff_less_mult)
    moreover have "unat n div 65536 = ?b" "unat n div 16777216 = ?c" by (simp_all flip: div_mult2_eq)
    moreover have "unat n mod 256 + 256 * (?a mod 256) + 65536 * (?b mod 256) + 16777216 * ?c = unat n" if
        "unat n = 256 * ?a + unat n mod 256" "?a = 256 * ?b + ?a mod 256" "?b = 256 * ?c + ?b mod 256"
      using that by linarith
    ultimately show ?thesis by simp
  qed
  finally show ?thesis .
qed

section \<open>One segment\<close>

lemma unat_small: "n < 4294967296 \<Longrightarrow> unat (of_nat n :: uint) = n"
  by (simp add: unsigned_of_nat take_bit_nat_eq_self_iff)

lemma unat_scratch: "k \<le> 4096 \<Longrightarrow> unat (ELF_AT + of_nat k :: uint) = 65536 + k"
  using unat_small [of "65536 + k"] by simp

text \<open>An interval of addresses that does not wrap.\<close>

lemma in_window:
  fixes a pa :: uint
  assumes "unat pa + L \<le> 4294967296"
  shows "unat (a - pa) < L \<longleftrightarrow> unat pa \<le> unat a \<and> unat a < unat pa + L"
    and "unat pa \<le> unat a \<Longrightarrow> unat (a - pa) = unat a - unat pa"
proof -
  have d: "unat (a - pa) = (if unat pa \<le> unat a then unat a - unat pa else 4294967296 + unat a - unat pa)"
    by (auto simp: unat_sub_if_size word_size)
  then show "unat (a - pa) < L \<longleftrightarrow> unat pa \<le> unat a \<and> unat a < unat pa + L"
    using assms unat_uint_less [of pa] by auto
  show "unat pa \<le> unat a \<Longrightarrow> unat (a - pa) = unat a - unat pa" using d by simp
qed

lemma readsect_at:
  assumes "holds disk f" and "unat n < 2 ^ 28" and "1 \<le> unat n"
  shows "readsect disk pa n m = (\<lambda>a. if unat (a - pa) < 512 then f (512 * (unat n - 1) + unat (a - pa)) else m a)"
proof -
  have "length (sector_ports n) = 4" by (simp add: sector_ports_def)
  then have "disk (sector_ports n) = map (\<lambda>i. f (512 * (unat n - 1) + i)) [0..<512]"
    using assms sector_ports_number [OF assms(2)] by (simp add: holds_def)
  then show ?thesis by (auto simp: readsect_def boot_insl_def fun_eq_iff)
qed

lemma readseg_loop_at:
  assumes "holds disk f"
  shows "unat pa + 512 * k < 4294967296 \<Longrightarrow> unat epa \<le> unat pa + 512 * k \<Longrightarrow> (\<forall>j < k. unat pa + 512 * j < unat epa) \<Longrightarrow>
    unat n + k \<le> 2 ^ 28 \<Longrightarrow> 1 \<le> unat n \<Longrightarrow>
    readseg_loop disk pa epa n m = Some (\<lambda>a. if unat pa \<le> unat a \<and> unat a < unat pa + 512 * k
      then f (512 * (unat n - 1) + (unat a - unat pa)) else m a)"
proof (induction k arbitrary: pa n m)
  case 0
  then have "\<not> pa < epa" by (simp add: word_less_nat_alt)
  then show ?case by (auto simp: readseg_loop.simps fun_eq_iff)
next
  case (Suc k)
  have lt: "pa < epa" using Suc.prems(3) by (auto simp: word_less_nat_alt dest: spec [of _ 0])
  have p: "unat (pa + 512) = unat pa + 512" using Suc.prems(1) by (simp add: unat_word_ariths)
  have n: "unat (n + 1) = unat n + 1" using Suc.prems(4) by (simp add: unat_word_ariths)
  have j: "\<forall>j < k. unat (pa + 512) + 512 * j < unat epa" using Suc.prems(3) p by (auto dest: spec [of _ "Suc _"])
  have w: "unat (a - pa) < 512 \<longleftrightarrow> unat pa \<le> unat a \<and> unat a < unat pa + 512" for a
    by (rule in_window) (use Suc.prems(1) in simp)
  have v: "unat (a - pa) = unat a - unat pa" if "unat pa \<le> unat a" for a
    by (rule in_window(2) [where L = 0]) (use that Suc.prems(1) in simp_all)
  have "readseg_loop disk pa epa n m = readseg_loop disk (pa + 512) epa (n + 1) (readsect disk pa n m)"
    using lt by (simp add: readseg_loop.simps [of disk pa])
  also have "\<dots> = Some (\<lambda>a. if unat (pa + 512) \<le> unat a \<and> unat a < unat (pa + 512) + 512 * k
      then f (512 * (unat (n + 1) - 1) + (unat a - unat (pa + 512))) else readsect disk pa n m a)"
    by (rule Suc.IH [OF _ _ j]) (use Suc.prems p n in simp_all)
  also have "\<dots> = Some (\<lambda>a. if unat pa \<le> unat a \<and> unat a < unat pa + 512 * Suc k
      then f (512 * (unat n - 1) + (unat a - unat pa)) else m a)"
  proof -
    have "1 \<le> unat n" "unat n < 2 ^ 28" using Suc.prems by simp_all
    note s = readsect_at [OF assms this(2,1)]
    obtain n' where n': "unat n = Suc n'" using Suc.prems(5) by (cases "unat n") auto
    show ?thesis by (auto simp: s w v p n n' fun_eq_iff)
  qed
  finally show ?case .
qed

lemma boot_sectors_below:
  fixes N :: nat
  assumes "j < (N + 511) div 512"
  shows "512 * j < N"
proof (rule ccontr)
  assume "\<not> 512 * j < N"
  then have "N + 511 < Suc j * 512" by simp
  then have "(N + 511) div 512 < Suc j" by (rule less_mult_imp_div_less)
  with assms show False by simp
qed

lemma readseg_at:
  assumes d: "holds disk f" and lo: "unat off mod 512 \<le> unat pa" and hi: "unat pa + unat count + 512 < 4294967296"
  shows "\<exists>E. unat pa + unat count \<le> E \<and> readseg disk pa count off m = Some (\<lambda>a.
    if unat pa - unat off mod 512 \<le> unat a \<and> unat a < E then f (unat off + unat a - unat pa) else m a)"
proof -
  let ?n = "off div 512 + 1"
  define L where "L = unat pa - unat off mod 512"
  define K where "K = (unat pa + unat count - L + 511) div 512"
  have p: "unat (pa - off mod 512) = L" using lo by (simp add: L_def unat_sub word_le_nat_alt unat_mod_distrib)
  have e: "unat (pa + count) = unat pa + unat count" using hi by (simp add: unat_word_ariths)
  have n: "unat ?n = unat off div 512 + 1"
    using unat_uint_less [of off] unat_div_distrib [of off 512] by (simp add: unat_word_ariths)
  have r: "L + unat off mod 512 = unat pa" "unat off mod 512 < 512" using lo by (simp_all add: L_def)
  have "x \<le> 512 * ((x + 511) div 512)" "512 * ((x + 511) div 512) < x + 512" for x :: nat
    using div_mult_mod_eq [of "x + 511" 512] mod_less_divisor [of 512 "x + 511"] by simp_all
  from this [of "unat pa + unat count - L"] have k: "unat pa + unat count \<le> L + 512 * K" "L + 512 * K < unat pa + unat count + 512"
    unfolding K_def [symmetric] using r by linarith+
  have j: "\<forall>j < K. unat (pa - off mod 512) + 512 * j < unat (pa + count)"
    unfolding p e K_def using boot_sectors_below [of _ "unat pa + unat count - L"] by fastforce
  have "K \<le> (unat count + 1022) div 512" unfolding K_def using r by (intro div_le_mono) linarith
  moreover have "(unat count + 1022) div 512 < 8388612" "unat off div 512 < 8388608"
    using unat_uint_less [of count] unat_uint_less [of off] by (simp_all add: less_mult_imp_div_less)
  ultimately have big: "unat ?n + K \<le> 2 ^ 28" unfolding n by simp
  have le: "unat (pa - off mod 512) + 512 * K < 4294967296" "unat (pa + count) \<le> unat (pa - off mod 512) + 512 * K" "1 \<le> unat ?n"
    unfolding p e n using k hi by linarith+
  have o: "512 * (unat off div 512) + unat off mod 512 = unat off" by simp
  have x: "512 * (unat ?n - 1) + (x - L) = unat off + x - unat pa" if "L \<le> x" for x
    using that r o unfolding n by linarith
  have "readseg disk pa count off m = Some (\<lambda>a. if L \<le> unat a \<and> unat a < L + 512 * K then f (512 * (unat ?n - 1) + (unat a - L)) else m a)"
    using readseg_loop_at [OF d le(1,2) j big le(3), of m] unfolding p readseg_def .
  also have "\<dots> = Some (\<lambda>a. if L \<le> unat a \<and> unat a < L + 512 * K then f (unat off + unat a - unat pa) else m a)"
    by (rule arg_cong [where f = Some], rule ext) (simp only: x cong: if_cong conj_cong)
  finally show ?thesis using k(1) unfolding L_def by blast
qed

section \<open>The kernel image\<close>

text \<open>The program headers in the file.\<close>

definition phdr :: "(nat \<Rightarrow> uchar) \<Rightarrow> nat \<Rightarrow> nat" where "phdr f i = unat (get32 f 28) + 32 * i"
definition seg_off :: "(nat \<Rightarrow> uchar) \<Rightarrow> nat \<Rightarrow> nat" where "seg_off f i = unat (get32 f (phdr f i + 4))"
definition seg_pa :: "(nat \<Rightarrow> uchar) \<Rightarrow> nat \<Rightarrow> nat" where "seg_pa f i = unat (get32 f (phdr f i + 12))"
definition seg_filesz :: "(nat \<Rightarrow> uchar) \<Rightarrow> nat \<Rightarrow> nat" where "seg_filesz f i = unat (get32 f (phdr f i + 16))"
definition seg_memsz :: "(nat \<Rightarrow> uchar) \<Rightarrow> nat \<Rightarrow> nat" where "seg_memsz f i = unat (get32 f (phdr f i + 20))"
definition seg_count :: "(nat \<Rightarrow> uchar) \<Rightarrow> nat" where "seg_count f = unat (get16 f 44)"

text \<open>Where loading a segment may begin to write, and where the segment ends.\<close>

definition seg_lo :: "(nat \<Rightarrow> uchar) \<Rightarrow> nat \<Rightarrow> nat" where "seg_lo f i = seg_pa f i - seg_off f i mod 512"
definition seg_hi :: "(nat \<Rightarrow> uchar) \<Rightarrow> nat \<Rightarrow> nat" where "seg_hi f i = seg_pa f i + max (seg_filesz f i) (seg_memsz f i)"

text \<open>What the loader relies on: headers in the first page of the file, segments above the scratch page and in increasing order,
  each beginning after the end of the one before, counted from the sector boundary.\<close>

definition bootable :: "(nat \<Rightarrow> uchar) \<Rightarrow> bool" where
  "bootable f \<longleftrightarrow> get32 f 0 = BOOT_MAGIC \<and> phdr f (seg_count f) \<le> 4096 \<and>
     (\<forall>i < seg_count f. seg_off f i mod 512 + 0x11000 \<le> seg_pa f i \<and> seg_hi f i + 512 < 4294967296) \<and>
     (\<forall>j < seg_count f. \<forall>i < j. seg_hi f i \<le> seg_lo f j)"

definition segment_loaded :: "(nat \<Rightarrow> uchar) \<Rightarrow> nat \<Rightarrow> pmem \<Rightarrow> bool" where
  "segment_loaded f i m \<longleftrightarrow> (\<forall>k < seg_filesz f i. m (of_nat (seg_pa f i + k)) = f (seg_off f i + k)) \<and>
     (\<forall>k. seg_filesz f i \<le> k \<and> k < seg_memsz f i \<longrightarrow> m (of_nat (seg_pa f i + k)) = 0)"

definition header_loaded :: "(nat \<Rightarrow> uchar) \<Rightarrow> pmem \<Rightarrow> bool" where
  "header_loaded f m \<longleftrightarrow> (\<forall>k < 4096. m (ELF_AT + of_nat k) = f k)"

lemma header_words:
  assumes "header_loaded f m"
  shows "k + 4 \<le> 4096 \<Longrightarrow> mword m (ELF_AT + of_nat k) = get32 f k"
    and "k + 2 \<le> 4096 \<Longrightarrow> mhalf m (ELF_AT + of_nat k) = get16 f k"
proof -
  have b: "m (ELF_AT + of_nat k + of_nat i) = f (k + i)" if "k + i < 4096" for k i
    using assms that by (auto simp: header_loaded_def add.assoc dest!: spec [of _ "k + i"])
  show "k + 4 \<le> 4096 \<Longrightarrow> mword m (ELF_AT + of_nat k) = get32 f k"
    using b [of k 0] b [of k 1] b [of k 2] b [of k 3] by (simp add: mword_def get32_def)
  show "k + 2 \<le> 4096 \<Longrightarrow> mhalf m (ELF_AT + of_nat k) = get16 f k"
    using b [of k 0] b [of k 1] by (simp add: mhalf_def get16_def)
qed

lemma boot_segment_at:
  assumes d: "holds disk f" and b: "bootable f" and i: "i < seg_count f" and h: "header_loaded f m"
  shows "\<exists>m'. boot_segment disk (ELF_AT + of_nat (phdr f i)) m = Some m' \<and> header_loaded f m' \<and>
    segment_loaded f i m' \<and> (\<forall>a. unat a < seg_lo f i \<longrightarrow> m' a = m a)"
proof -
  let ?ph = "ELF_AT + of_nat (phdr f i)"
  have lim: "seg_off f i mod 512 + 0x11000 \<le> seg_pa f i" "seg_hi f i + 512 < 4294967296" "phdr f i + 32 \<le> 4096"
    using b i by (auto simp: bootable_def phdr_def)
  have w: "mword m (?ph + of_nat k) = get32 f (phdr f i + k)" if "header_loaded f m" "k \<le> 20" for m k
    using header_words(1) [OF that(1), of "phdr f i + k"] that(2) lim(3) by (simp add: add.assoc)
  define pa count off where "pa = get32 f (phdr f i + 12)" and "count = get32 f (phdr f i + 16)" and "off = get32 f (phdr f i + 4)"
  have u: "unat pa = seg_pa f i" "unat count = seg_filesz f i" "unat off = seg_off f i"
    by (simp_all add: pa_def count_def off_def seg_pa_def seg_filesz_def seg_off_def)
  have lim': "seg_pa f i + seg_filesz f i + 512 < 4294967296" "seg_pa f i + seg_memsz f i + 512 < 4294967296"
    using lim(2) by (simp_all add: seg_hi_def)
  obtain E where E: "seg_pa f i + seg_filesz f i \<le> E" and r: "readseg disk pa count off m = Some (\<lambda>a.
      if seg_lo f i \<le> unat a \<and> unat a < E then f (seg_off f i + unat a - seg_pa f i) else m a)"
    using readseg_at [OF d, of off pa count m, unfolded u seg_lo_def [symmetric]] lim lim'(1) by auto
  define m1 where "m1 = (\<lambda>a. if seg_lo f i \<le> unat a \<and> unat a < E then f (seg_off f i + unat a - seg_pa f i) else m a)"
  define m2 where "m2 = (if count < get32 f (phdr f i + 20) then boot_stosb (pa + count) 0 (get32 f (phdr f i + 20) - count) m1 else m1)"
  have z: "unat (get32 f (phdr f i + 20)) = seg_memsz f i" by (simp add: seg_memsz_def)
  have m2: "m2 a = (if seg_pa f i + seg_filesz f i \<le> unat a \<and> unat a < seg_pa f i + seg_memsz f i then 0 else m1 a)" for a
  proof (cases "count < get32 f (phdr f i + 20)")
    case True
    then have c: "seg_filesz f i < seg_memsz f i" using u(2) z by (simp add: word_less_nat_alt)
    have dst: "unat (pa + count) = seg_pa f i + seg_filesz f i" using lim'(1) u(1,2) by (simp add: unat_word_ariths)
    have len: "unat (get32 f (phdr f i + 20) - count) = seg_memsz f i - seg_filesz f i"
      using True u(2) z by (simp add: unat_sub)
    have "unat (pa + count) + (seg_memsz f i - seg_filesz f i) \<le> 4294967296" using dst lim'(2) c by linarith
    note iw = in_window(1) [OF this, of a]
    have "a - (pa + count) < get32 f (phdr f i + 20) - count \<longleftrightarrow>
        seg_pa f i + seg_filesz f i \<le> unat a \<and> unat a < seg_pa f i + seg_memsz f i"
      unfolding word_less_nat_alt len iw dst using c by auto
    then show ?thesis using True by (simp add: m2_def boot_stosb_def)
  next
    case False
    then have "seg_memsz f i \<le> seg_filesz f i" using u(2) z by (simp add: word_less_nat_alt)
    then show ?thesis using False by (auto simp: m2_def)
  qed
  have lo: "seg_lo f i \<le> seg_pa f i" by (simp add: seg_lo_def)
  have low: "m1 a = m a" "m2 a = m a" if "unat a < seg_lo f i" for a
    using that lo by (simp_all add: m2 m1_def)
  have hl: "header_loaded f m'" if keep: "\<And>a. unat a < seg_lo f i \<Longrightarrow> m' a = m a" for m'
    unfolding header_loaded_def
  proof (intro allI impI)
    fix k :: nat assume k: "k < 4096"
    then have "unat (ELF_AT + of_nat k :: uint) = 65536 + k" by (intro unat_scratch) simp
    then have "unat (ELF_AT + of_nat k :: uint) < seg_lo f i" using k lim(1) by (simp add: seg_lo_def)
    then show "m' (ELF_AT + of_nat k) = f k" using keep h k by (simp add: header_loaded_def)
  qed
  have "boot_segment disk ?ph m = Some m2"
    using w [OF h, of 4] w [OF h, of 12] w [OF h, of 16] w [OF hl [OF low(1)], of 16] w [OF hl [OF low(1)], of 20]
    by (simp add: boot_segment_def Let_def r m2_def flip: pa_def count_def off_def m1_def)
  moreover have "segment_loaded f i m2"
  proof -
    have a: "unat (of_nat (seg_pa f i + k) :: uint) = seg_pa f i + k" if "k < seg_filesz f i \<or> k < seg_memsz f i" for k
      using that lim' by (auto simp: unsigned_of_nat take_bit_nat_eq_self_iff simp del: of_nat_add)
    show ?thesis
      unfolding segment_loaded_def
    proof (intro conjI allI impI)
      fix k assume k: "k < seg_filesz f i"
      then show "m2 (of_nat (seg_pa f i + k)) = f (seg_off f i + k)"
        unfolding m2 m1_def a [OF disjI1 [OF k]] using lo E by simp
    next
      fix k assume k: "seg_filesz f i \<le> k \<and> k < seg_memsz f i"
      then show "m2 (of_nat (seg_pa f i + k)) = 0" unfolding m2 a [OF disjI2 [OF conjunct2 [OF k]]] by simp
    qed
  qed
  ultimately show ?thesis using low(2) hl [OF low(2)] by blast
qed

text \<open>Loading a segment leaves alone what lies below it.\<close>

lemma segment_loaded_keep:
  assumes "segment_loaded f i m" and "\<And>a. unat a < seg_hi f i \<Longrightarrow> m' a = m a" and "seg_hi f i < 4294967296"
  shows "segment_loaded f i m'"
proof -
  have "m' (of_nat (seg_pa f i + k)) = m (of_nat (seg_pa f i + k))" if "k < max (seg_filesz f i) (seg_memsz f i)" for k
  proof (rule assms(2))
    have "seg_pa f i + k < seg_hi f i" using that unfolding seg_hi_def by linarith
    then show "unat (of_nat (seg_pa f i + k) :: uint) < seg_hi f i"
      using assms(3) by (subst unat_small) (rule less_trans)
  qed
  then show ?thesis using assms(1) by (simp add: segment_loaded_def del: of_nat_add)
qed

lemma boot_segments_at:
  assumes d: "holds disk f" and b: "bootable f"
  shows "i \<le> seg_count f \<Longrightarrow> header_loaded f m \<Longrightarrow> (\<forall>j < i. segment_loaded f j m) \<Longrightarrow>
    \<exists>m'. boot_segments disk (ELF_AT + of_nat (phdr f i)) (ELF_AT + of_nat (phdr f (seg_count f))) m = Some m' \<and>
      header_loaded f m' \<and> (\<forall>j < seg_count f. segment_loaded f j m')"
proof (induction "seg_count f - i" arbitrary: i m)
  case 0
  then show ?case by (simp add: boot_segments.simps)
next
  case (Suc n)
  then have i: "i < seg_count f" and n: "n = seg_count f - Suc i" by simp_all
  have u: "unat (ELF_AT + of_nat (phdr f k) :: uint) = 65536 + phdr f k" if "phdr f k \<le> 4096" for k
    using that by (rule unat_scratch)
  have lim: "phdr f (seg_count f) \<le> 4096" "phdr f i < phdr f (seg_count f)" using b i by (simp_all add: bootable_def phdr_def)
  have less: "ELF_AT + of_nat (phdr f i) < (ELF_AT + of_nat (phdr f (seg_count f)) :: uint)"
    unfolding word_less_nat_alt using u lim by simp
  have next_: "ELF_AT + of_nat (phdr f i) + 32 = (ELF_AT + of_nat (phdr f (Suc i)) :: uint)" by (simp add: phdr_def)
  obtain m1 where m1: "boot_segment disk (ELF_AT + of_nat (phdr f i)) m = Some m1" "header_loaded f m1" "segment_loaded f i m1"
    "\<forall>a. unat a < seg_lo f i \<longrightarrow> m1 a = m a" using boot_segment_at [OF d b i Suc.prems(2)] by blast
  have "segment_loaded f j m1" if "j < Suc i" for j
  proof (cases "j = i")
    case False
    then have j: "j < i" using that by simp
    then have "seg_hi f j \<le> seg_lo f i" "seg_hi f j < 4294967296" using b i unfolding bootable_def by (auto dest: less_trans)
    then show ?thesis using segment_loaded_keep [of f j m m1] Suc.prems(3) j m1(4) by auto
  qed (simp add: m1(3))
  with Suc.hyps(1) [OF n _ m1(2)] i obtain m' where
    "boot_segments disk (ELF_AT + of_nat (phdr f (Suc i))) (ELF_AT + of_nat (phdr f (seg_count f))) m1 = Some m'"
    "header_loaded f m'" "\<forall>j < seg_count f. segment_loaded f j m'" by auto
  moreover have "boot_segments disk (ELF_AT + of_nat (phdr f i)) (ELF_AT + of_nat (phdr f (seg_count f))) m =
      boot_segments disk (ELF_AT + of_nat (phdr f (Suc i))) (ELF_AT + of_nat (phdr f (seg_count f))) m1"
    using less m1(1) by (simp add: boot_segments.simps [of disk "ELF_AT + of_nat (phdr f i)"] next_)
  ultimately show ?case by simp
qed

text \<open>C14: The boot loader loads the kernel.  If the disk holds an ELF image from sector 1 on whose program headers are in the first
  page and whose segments lie above the scratch page in increasing order, then \<open>bootmain\<close> returns from every read and
  jumps to the entry point of the image, with every segment complete in memory: its bytes from the file, and zeros up to its size
  in memory.  Reading whole sectors writes beyond both ends of a segment; what it writes there is overwritten by the following segment or belongs to none.\<close>

theorem boot_loads_kernel:
  assumes "holds disk f" and "bootable f"
  shows "\<exists>m'. bootmain disk m = Some (m', Some (get32 f 24)) \<and> (\<forall>i < seg_count f. segment_loaded f i m')"
proof -
  have off: "unat (0 :: uint) = 0" "unat (65536 :: uint) = 65536" "unat (4096 :: uint) = 4096" by simp_all
  obtain E where E: "69632 \<le> E" and r: "readseg disk ELF_AT 4096 0 m = Some (\<lambda>a. if 65536 \<le> unat a \<and> unat a < E then f (unat a - 65536) else m a)"
    using readseg_at [OF assms(1), of 0 ELF_AT 4096 m, unfolded off add_0] by auto
  define m1 where "m1 = (\<lambda>a :: uint. if 65536 \<le> unat a \<and> unat a < E then f (unat a - 65536) else m a)"
  have h: "header_loaded f m1" using E unat_scratch by (simp add: header_loaded_def m1_def)
  have w: "mword m1 ELF_AT = BOOT_MAGIC" "mword m1 (ELF_AT + 28) = get32 f 28" "mhalf m1 (ELF_AT + 44) = get16 f 44"
    using header_words [OF h, of 0] header_words [OF h, of 28] header_words [OF h, of 44] assms(2) by (simp_all add: bootable_def)
  have p: "ELF_AT + get32 f 28 = ELF_AT + of_nat (phdr f 0)" by (simp add: phdr_def)
  have q: "ELF_AT + get32 f 28 + 32 * ucast (get16 f 44) = ELF_AT + of_nat (phdr f (seg_count f))"
    by (simp add: phdr_def seg_count_def)
  obtain m' where m': "boot_segments disk (ELF_AT + of_nat (phdr f 0)) (ELF_AT + of_nat (phdr f (seg_count f))) m1 = Some m'"
    "header_loaded f m'" "\<forall>j < seg_count f. segment_loaded f j m'" using boot_segments_at [OF assms, of 0 m1] h by auto
  have "mword m' (ELF_AT + 24) = get32 f 24" using header_words(1) [OF m'(2), of 24] by simp
  moreover have "bootmain disk m = map_option (\<lambda>m. (m, Some (mword m (ELF_AT + 24))))
      (boot_segments disk (ELF_AT + get32 f 28) (ELF_AT + get32 f 28 + 32 * ucast (get16 f 44)) m1)"
    unfolding bootmain_def r m1_def [symmetric] Let_def using w by simp
  ultimately have "bootmain disk m = Some (m', Some (get32 f 24))"
    unfolding q unfolding p m'(1) by simp
  then show ?thesis using m'(3) by blast
qed

section \<open>Limits\<close>

text \<open>Another image is not started.\<close>

lemma boot_refuses:
  assumes "readseg disk ELF_AT 4096 0 m = Some m1" and "mword m1 ELF_AT \<noteq> BOOT_MAGIC"
  shows "bootmain disk m = Some (m1, None)"
  using assms by (simp add: bootmain_def)

text \<open>The comment at \<open>readseg\<close> says that writing more than asked does not matter because the segments are loaded in increasing
  order.  That is so beyond the end; below \<open>pa\<close>, reading from the sector boundary overwrites what has been loaded before.\<close>

lemma readseg_overwrites_below:
  assumes "holds disk f" and "unat off mod 512 \<le> unat pa" and "unat pa + unat count + 512 < 4294967296"
    and "unat pa - unat off mod 512 \<le> unat a" and "unat a < unat pa"
  shows "\<exists>m'. readseg disk pa count off m = Some m' \<and> m' a = f (unat off + unat a - unat pa)"
  using readseg_at [OF assms(1-3), of m] assms(4,5) by (auto intro: less_le_trans)

section \<open>Witness\<close>

definition demo_image :: "uchar list" where
  "demo_image = [0x7F, 0x45, 0x4C, 0x46] @ replicate 20 0 @ [0x0C, 0, 0x10, 0, 52, 0, 0, 0] @ replicate 12 0 @ [2, 0] @ replicate 6 0
     @ [1, 0, 0, 0, 0, 0x10, 0, 0, 0, 0, 0x10, 0x80, 0, 0, 0x10, 0, 0x10, 0, 0, 0, 0x10, 0, 0, 0, 5, 0, 0, 0, 0, 0, 0, 0]
     @ [1, 0, 0, 0, 0x10, 0x10, 0, 0, 0x10, 0x10, 0x10, 0x80, 0x10, 0x10, 0x10, 0, 0x20, 0, 0, 0, 0, 1, 0, 0, 6, 0, 0, 0, 0, 0, 0, 0]"

definition demo_file :: "nat \<Rightarrow> uchar" where
  "demo_file k = (if k < 116 then demo_image ! k else of_nat k)"

definition demo_controller :: "uchar list \<Rightarrow> uchar list" where
  "demo_controller b = map (\<lambda>i. demo_file (512 * (sector_of_ports b - 1) + i)) [0..<512]"

lemma demo_headers:
  "get32 demo_file 0 = BOOT_MAGIC" "get32 demo_file 24 = 0x10000C" "get32 demo_file 28 = 52" "get16 demo_file 44 = 2"
  "get32 demo_file 56 = 0x1000" "get32 demo_file 64 = 0x100000" "get32 demo_file 68 = 16" "get32 demo_file 72 = 16"
  "get32 demo_file 88 = 0x1010" "get32 demo_file 96 = 0x101010" "get32 demo_file 100 = 32" "get32 demo_file 104 = 256"
  by (simp_all add: get32_def get16_def demo_file_def demo_image_def nth_append)

theorem boot_loads_kernel_witness:
  "\<exists>m'. bootmain demo_controller (\<lambda>_. 0xFF) = Some (m', Some 0x10000C) \<and> segment_loaded demo_file 0 m' \<and> segment_loaded demo_file 1 m'"
proof -
  have h: "holds demo_controller demo_file" by (simp add: holds_def demo_controller_def)
  have c: "seg_count demo_file = 2" by (simp add: seg_count_def demo_headers)
  have s: "phdr demo_file 0 = 52" "phdr demo_file (Suc 0) = 84" "phdr demo_file 2 = 116" by (simp_all add: phdr_def demo_headers)
  have "bootable demo_file"
    by (simp add: bootable_def c s demo_headers less_2_cases_iff all_conj_distrib seg_off_def seg_pa_def seg_lo_def seg_hi_def seg_filesz_def seg_memsz_def)
  from boot_loads_kernel [OF h this, of "\<lambda>_. 0xFF"] show ?thesis by (auto simp: c demo_headers)
qed

end
