(* ===== verification/Layout.thy ===== *)
theory Layout
  imports Prelude
begin

text \<open>
  Memory layout and page arithmetic (\<open>include/memlayout.h\<close>, \<open>include/mmu.h\<close>): the constants
  as abbreviations, the macros as functions on 32-bit words, and what they compute on the
  numbers the words stand for.
\<close>

abbreviation PGSIZE :: uint where "PGSIZE \<equiv> 4096"
abbreviation KERNBASE :: uint where "KERNBASE \<equiv> 0x80000000"
abbreviation PHYSTOP :: uint where "PHYSTOP \<equiv> 0x8000000"
abbreviation EXTMEM :: uint where "EXTMEM \<equiv> 0x100000"
abbreviation DEVSPACE :: uint where "DEVSPACE \<equiv> 0xFC000000"

abbreviation PTE_P :: uint where "PTE_P \<equiv> 1"
abbreviation PTE_W :: uint where "PTE_W \<equiv> 2"
abbreviation PTE_U :: uint where "PTE_U \<equiv> 4"

definition V2P :: "uint \<Rightarrow> uint" where
  "V2P a = a - KERNBASE"

definition P2V :: "uint \<Rightarrow> uint" where
  "P2V a = a + KERNBASE"

definition PDX :: "uint \<Rightarrow> uint" where
  "PDX va = drop_bit 22 va AND 0x3FF"

definition PTX :: "uint \<Rightarrow> uint" where
  "PTX va = drop_bit 12 va AND 0x3FF"

definition PGADDR :: "uint \<Rightarrow> uint \<Rightarrow> uint \<Rightarrow> uint" where
  "PGADDR d t off = push_bit 22 d OR push_bit 12 t OR off"

definition PGROUNDUP :: "uint \<Rightarrow> uint" where
  "PGROUNDUP sz = (sz + PGSIZE - 1) AND NOT (PGSIZE - 1)"

definition PGROUNDDOWN :: "uint \<Rightarrow> uint" where
  "PGROUNDDOWN a = a AND NOT (PGSIZE - 1)"

definition PTE_ADDR :: "uint \<Rightarrow> uint" where
  "PTE_ADDR pte = pte AND NOT 0xFFF"

definition PTE_FLAGS :: "uint \<Rightarrow> uint" where
  "PTE_FLAGS pte = pte AND 0xFFF"

subsection \<open>What the macros compute\<close>

lemma P2V_V2P [simp]: "P2V (V2P a) = a" and V2P_P2V [simp]: "V2P (P2V a) = a"
  by (simp_all add: P2V_def V2P_def)

lemma low12_mask: "(0xFFF :: uint) = mask 12"
  by (simp add: mask_eq_exp_minus_1)

lemma unat_and_low12: "unat (x AND 0xFFF :: uint) = unat x mod 4096"
proof -
  have "x AND 0xFFF = take_bit 12 x" by (simp only: low12_mask take_bit_eq_mask)
  then have "unat (x AND 0xFFF) = take_bit 12 (unat x)" by (simp only: unsigned_take_bit_eq)
  then show ?thesis by (simp add: take_bit_eq_mod)
qed

lemma and_not_low12: "x AND NOT 0xFFF = x - (x AND 0xFFF)" for x :: uint
proof -
  have "x - (x AND 0xFFF) = x AND NOT (x AND 0xFFF)"
    by (rule disjunctive_diff_eq_and_not) (rule bit_word_eqI, auto simp: bit_simps)
  also have "\<dots> = x AND NOT 0xFFF"
    by (rule bit_word_eqI, simp only: bit_simps, blast)
  finally show ?thesis ..
qed

lemma unat_and_page_mask: "unat (x AND - 4096 :: uint) = unat x - unat x mod 4096"
proof -
  have "unat (x AND 0xFFF) \<le> unat x" by (simp add: unat_and_low12)
  then have "(x AND 0xFFF) \<le> x" by (simp add: word_le_nat_alt)
  then have "unat (x AND NOT 0xFFF) = unat x - unat x mod 4096"
    unfolding and_not_low12 by (simp only: unat_sub unat_and_low12)
  then show ?thesis by simp
qed

lemma unat_PGROUNDDOWN: "unat (PGROUNDDOWN a) = unat a - unat a mod 4096"
  by (simp add: PGROUNDDOWN_def unat_and_page_mask)

lemma unat_PGROUNDUP:
  assumes "unat a + 4095 < 2 ^ 32"
  shows "unat (PGROUNDUP a) = (unat a + 4095) div 4096 * 4096"
proof -
  have "unat (a + 4095) = unat a + 4095" using assms by (simp add: unat_word_ariths)
  then show ?thesis
    by (simp add: PGROUNDUP_def unat_and_page_mask minus_mod_eq_div_mult add.commute)
qed

lemma PTE_ADDR_FLAGS: "PTE_ADDR pte OR PTE_FLAGS pte = pte"
  by (rule bit_word_eqI) (auto simp: PTE_ADDR_def PTE_FLAGS_def bit_simps)

end
