(* ===== verification/Rtc.thy ===== *)
theory Rtc
  imports Prelude
begin

text \<open>
  The real-time clock, \<open>kernel/rtc.c\<close>.

  The chip is a function \<open>clk\<close> from moments to the contents of its registers; every access to the
  data port happens at a moment of its own, the next one.  The wait loop may run forever on a chip
  that never finishes its update, so that the reads are partial.
\<close>

abbreviation (input) RTC_SECONDS :: nat where "RTC_SECONDS \<equiv> 0x00"
abbreviation (input) RTC_MINUTES :: nat where "RTC_MINUTES \<equiv> 0x02"
abbreviation (input) RTC_HOURS :: nat where "RTC_HOURS \<equiv> 0x04"
abbreviation (input) RTC_DAY :: nat where "RTC_DAY \<equiv> 0x07"
abbreviation (input) RTC_MONTH :: nat where "RTC_MONTH \<equiv> 0x08"
abbreviation (input) RTC_YEAR :: nat where "RTC_YEAR \<equiv> 0x09"
abbreviation (input) RTC_STATUS_A :: nat where "RTC_STATUS_A \<equiv> 0x0A"

type_synonym chip = "nat \<Rightarrow> nat \<Rightarrow> uchar"

definition bcd_to_bin :: "uchar \<Rightarrow> nat" where
  "bcd_to_bin bcd = unat (drop_bit 4 bcd) * 10 + unat (bcd AND 0x0F)"

definition is_update_in_progress :: "chip \<Rightarrow> nat \<Rightarrow> bool" where
  "is_update_in_progress clk t \<longleftrightarrow> clk t RTC_STATUS_A AND 0x80 \<noteq> 0"

text \<open>The moment after the loop \<open>while (is_update_in_progress())\<close>.\<close>

partial_function (option) wait_update :: "chip \<Rightarrow> nat \<Rightarrow> nat option" where
  "wait_update clk t = (if is_update_in_progress clk t then wait_update clk (Suc t) else Some (Suc t))"

definition rtc_read_time :: "chip \<Rightarrow> nat \<Rightarrow> (nat \<times> nat \<times> nat) option" where
  "rtc_read_time clk t0 = map_option (\<lambda>t.
     (bcd_to_bin (clk t RTC_HOURS), bcd_to_bin (clk (t + 1) RTC_MINUTES), bcd_to_bin (clk (t + 2) RTC_SECONDS)))
     (wait_update clk t0)"

definition rtc_read_date :: "chip \<Rightarrow> nat \<Rightarrow> (nat \<times> nat \<times> nat) option" where
  "rtc_read_date clk t0 = map_option (\<lambda>t.
     (bcd_to_bin (clk t RTC_DAY), bcd_to_bin (clk (t + 1) RTC_MONTH), bcd_to_bin (clk (t + 2) RTC_YEAR) + 2000))
     (wait_update clk t0)"

section \<open>What is read\<close>

text \<open>The two decimal digits of a number in one byte.\<close>

definition bcd :: "nat \<Rightarrow> uchar" where
  "bcd n = of_nat (n div 10 * 16 + n mod 10)"

lemma bcd_roundtrip: "n < 100 \<Longrightarrow> bcd_to_bin (bcd n) = n"
proof -
  assume "n < 100"
  then have d: "n div 10 < 10" "n mod 10 < 10" by auto
  let ?v = "n div 10 * 16 + n mod 10"
  have v: "unat (bcd n) = ?v"
    using d by (simp add: bcd_def unsigned_of_nat take_bit_eq_mod del: of_nat_add of_nat_mult)
  have tb: "take_bit 8 ?v = ?v" using d by (simp add: take_bit_nat_eq_self_iff)
  have "unat (drop_bit 4 (bcd n)) = ?v div 16"
    by (simp only: unsigned_drop_bit_eq v) (simp add: drop_bit_eq_div tb)
  moreover have "unat (bcd n AND 0x0F) = ?v mod 16"
  proof -
    have e: "bcd n AND 0x0F = take_bit 4 (bcd n)" by (simp add: take_bit_eq_mask mask_eq_exp_minus_1)
    have "unat (bcd n AND 0x0F) = take_bit 4 ?v" unfolding e unsigned_take_bit_eq v ..
    also have "\<dots> = ?v mod 16" by (simp add: take_bit_eq_mod)
    finally show ?thesis .
  qed
  ultimately show ?thesis using d by (simp add: bcd_to_bin_def)
qed

text \<open>A chip that finishes its update and keeps the same time from then on is read right.\<close>

lemma wait_update_returns:
  assumes "\<not> is_update_in_progress clk (t + k)" "\<And>j. j < k \<Longrightarrow> is_update_in_progress clk (t + j)"
  shows "wait_update clk t = Some (Suc (t + k))"
  using assms
proof (induction k arbitrary: t)
  case 0
  then show ?case by (subst wait_update.simps) simp
next
  case (Suc k)
  have "is_update_in_progress clk t" using Suc.prems(2) [of 0] by simp
  moreover have "wait_update clk (Suc t) = Some (Suc (Suc t + k))"
    by (rule Suc.IH) (use Suc.prems(1) Suc.prems(2) [of "Suc _"] in simp_all)
  ultimately show ?case by (subst wait_update.simps) simp
qed

text \<open>When the update of the chip ends and its time stands still afterwards, \<open>rtc_read_time\<close> returns that
  time, whatever it is.\<close>

theorem rtc_reads_stable_time:
  assumes "\<not> is_update_in_progress clk (t + k)" "\<And>j. j < k \<Longrightarrow> is_update_in_progress clk (t + j)"
    and "\<And>u. t + k < u \<Longrightarrow> clk u RTC_HOURS = bcd h \<and> clk u RTC_MINUTES = bcd m \<and> clk u RTC_SECONDS = bcd s"
    and "h < 24" "m < 60" "s < 60"
  shows "rtc_read_time clk t = Some (h, m, s)"
  using assms(3-) by (simp add: rtc_read_time_def wait_update_returns [OF assms(1,2)] bcd_roundtrip)

text \<open>The flag is looked at once, before the first of three reads, so that the chip may turn to the next hour
  between them: one second after 0:59:59 the time read is 0:00:00, an hour early.\<close>

definition torn :: chip where
  "torn t r = (if r = RTC_STATUS_A then 0
     else if t < 2 then (if r = RTC_HOURS then bcd 0 else bcd 59)
     else (if r = RTC_HOURS then bcd 1 else bcd 0))"

lemma rtc_read_torn: "rtc_read_time torn 0 = Some (0, 0, 0)"
  using wait_update_returns [of torn 0 0]
  by (simp add: rtc_read_time_def is_update_in_progress_def torn_def bcd_roundtrip)

end
