(* ===== verification/Multi.thy ===== *)
theory Multi
  imports Boot Layout Rtc
begin

text \<open>
  Finding the processors and the interrupt controllers: \<open>kernel/mp.c\<close>, \<open>kernel/ioapic.c\<close>, the CMOS clock of
  \<open>kernel/lapic.c\<close> and the output of \<open>kernel/uart.c\<close>.

  Memory is a function from addresses as in the boot loader; pointers are words.  The search for the tables and the loop over their
  entries are partial functions: the second one does not return for some tables.  The registers of the I/O controller are a function
  of their number.  The CMOS chip is that of the real-time clock, a function of the moment of an access.
\<close>

abbreviation (input) NCPUS :: nat where "NCPUS \<equiv> 8"
abbreviation (input) MPPROC :: uchar where "MPPROC \<equiv> 0"
abbreviation (input) MPBUS :: uchar where "MPBUS \<equiv> 1"
abbreviation (input) MPIOAPIC :: uchar where "MPIOAPIC \<equiv> 2"
abbreviation (input) MPIOINTR :: uchar where "MPIOINTR \<equiv> 3"
abbreviation (input) MPLINTR :: uchar where "MPLINTR \<equiv> 4"

section \<open>Searching for the tables\<close>

text \<open>The sum is taken in an \<open>int\<close> and returned as a byte.\<close>

definition mp_sum :: "pmem \<Rightarrow> uint \<Rightarrow> nat \<Rightarrow> uchar" where
  "mp_sum m addr len = of_int (\<Sum>i\<leftarrow>[0..<len]. uint (m (addr + of_nat i)))"

definition signed :: "pmem \<Rightarrow> uint \<Rightarrow> uchar list \<Rightarrow> bool" where
  "signed m p sig \<longleftrightarrow> map (\<lambda>i. m (p + of_nat i)) [0..<length sig] = sig"

abbreviation (input) sig_MP :: "uchar list" where "sig_MP \<equiv> [0x5F, 0x4D, 0x50, 0x5F]"
abbreviation (input) sig_PCMP :: "uchar list" where "sig_PCMP \<equiv> [0x50, 0x43, 0x4D, 0x50]"

definition mp_at :: "pmem \<Rightarrow> uint \<Rightarrow> bool" where
  "mp_at m p \<longleftrightarrow> signed m p sig_MP \<and> mp_sum m p 16 = 0"

text \<open>The inner option is the pointer that is returned, null when nothing is found.\<close>

partial_function (option) mpsearch_loop :: "pmem \<Rightarrow> uint \<Rightarrow> uint \<Rightarrow> uint option option" where
  "mpsearch_loop m p e = (if p < e then if mp_at m p then Some (Some p) else mpsearch_loop m (p + 16) e else Some None)"

definition mpsearch1 :: "pmem \<Rightarrow> uint \<Rightarrow> uint \<Rightarrow> uint option option" where
  "mpsearch1 m a len = mpsearch_loop m (P2V a) (P2V a + len)"

definition mpsearch :: "pmem \<Rightarrow> uint option option" where
  "mpsearch m =
     (let bda = P2V 0x400;
          p = push_bit 4 (push_bit 8 (ucast (m (bda + 0x0F))) OR ucast (m (bda + 0x0E)) :: uint);
          q = (push_bit 8 (ucast (m (bda + 0x14))) OR ucast (m (bda + 0x13)) :: uint) * 1024
      in Option.bind (if p \<noteq> 0 then mpsearch1 m p 1024 else mpsearch1 m (q - 1024) 1024) (\<lambda>r.
           case r of Some mp \<Rightarrow> Some (Some mp) | None \<Rightarrow> mpsearch1 m 0xF0000 0x10000))"

text \<open>The two pointers of \<open>mpconfig\<close>: the floating structure and the table.\<close>

definition mpconfig :: "pmem \<Rightarrow> (uint \<times> uint) option option" where
  "mpconfig m =
     Option.bind (mpsearch m) (\<lambda>r. Some (case r of
         None \<Rightarrow> None
       | Some mp \<Rightarrow>
           if mword m (mp + 4) = 0 then None
           else let conf = P2V (mword m (mp + 4)) in
             if \<not> signed m conf sig_PCMP then None
             else if m (conf + 6) \<noteq> 1 \<and> m (conf + 6) \<noteq> 4 then None
             else if mp_sum m conf (unat (mhalf m (conf + 4))) \<noteq> 0 then None
             else Some (mp, conf)))"

section \<open>The entries\<close>

text \<open>\<open>apic_ids\<close> are the fields \<open>apicid\<close> of \<open>cpus[0..ncpu]\<close>, so that \<open>ncpu\<close> is its length.\<close>

record mpst =
  apic_ids :: "uchar list"
  ioapicid :: uchar
  ismp :: bool
  lapic_at :: uint
  imcr :: bool

partial_function (option) mp_entries :: "pmem \<Rightarrow> uint \<Rightarrow> uint \<Rightarrow> mpst \<Rightarrow> mpst option" where
  "mp_entries m p e s =
     (if p < e then
        if m p = MPPROC then
          mp_entries m (p + 20) e (if length (apic_ids s) < NCPUS then s\<lparr>apic_ids := apic_ids s @ [m (p + 1)]\<rparr> else s)
        else if m p = MPIOAPIC then mp_entries m (p + 8) e (s\<lparr>ioapicid := m (p + 1)\<rparr>)
        else if m p = MPBUS \<or> m p = MPIOINTR \<or> m p = MPLINTR then mp_entries m (p + 8) e s
        else mp_entries m p e (s\<lparr>ismp := False\<rparr>)
      else Some s)"

definition mpinit :: "pmem \<Rightarrow> mpst \<Rightarrow> mpst kres option" where
  "mpinit m s =
     Option.bind (mpconfig m) (\<lambda>r. case r of
         None \<Rightarrow> Some (Panic ''Expect to run on an SMP'')
       | Some (mp, conf) \<Rightarrow>
           map_option (\<lambda>s. if \<not> ismp s then Panic ''Didn't find a suitable machine''
                           else Ok (s\<lparr>imcr := m (mp + 12) \<noteq> 0\<rparr>))
             (mp_entries m (conf + 44) (conf + ucast (mhalf m (conf + 4))) (s\<lparr>ismp := True, lapic_at := mword m (conf + 36)\<rparr>)))"

section \<open>The search finds the first structure\<close>

lemma mpsearch_loop_finds:
  assumes "\<And>i. i < k \<Longrightarrow> \<not> mp_at m (p + 16 * of_nat i)"
  shows "unat p + 16 * k + 16 < 4294967296 \<Longrightarrow> unat p + 16 * k < unat e \<Longrightarrow> mp_at m (p + 16 * of_nat k) \<Longrightarrow>
    mpsearch_loop m p e = Some (Some (p + 16 * of_nat k))"
  using assms
proof (induction k arbitrary: p)
  case 0
  then show ?case by (simp add: mpsearch_loop.simps word_less_nat_alt)
next
  case (Suc k)
  have n: "unat (p + 16) = unat p + 16" using Suc.prems(1) by (simp add: unat_word_ariths)
  have "mpsearch_loop m (p + 16) e = Some (Some (p + 16 + 16 * of_nat k))"
  proof (rule Suc.IH)
    show "\<not> mp_at m (p + 16 + 16 * of_nat i)" if "i < k" for i
      using Suc.prems(4) [of "Suc i"] that by (simp add: algebra_simps)
  qed (use Suc.prems n in \<open>simp_all add: algebra_simps\<close>)
  moreover have "p < e" using Suc.prems(2) by (simp add: word_less_nat_alt)
  moreover have "\<not> mp_at m p" using Suc.prems(4) [of 0] by simp
  ultimately show ?case by (simp add: mpsearch_loop.simps [of m p] algebra_simps)
qed

lemma mpsearch_loop_none:
  assumes "\<And>i. i < k \<Longrightarrow> \<not> mp_at m (p + 16 * of_nat i)"
  shows "unat p + 16 * k < 4294967296 \<Longrightarrow> unat e = unat p + 16 * k \<Longrightarrow> mpsearch_loop m p e = Some None"
  using assms
proof (induction k arbitrary: p)
  case 0
  then show ?case by (simp add: mpsearch_loop.simps word_less_nat_alt)
next
  case (Suc k)
  have n: "unat (p + 16) = unat p + 16" using Suc.prems(1) by (simp add: unat_word_ariths)
  have "mpsearch_loop m (p + 16) e = Some None"
  proof (rule Suc.IH)
    show "\<not> mp_at m (p + 16 + 16 * of_nat i)" if "i < k" for i
      using Suc.prems(3) [of "Suc i"] that by (simp add: algebra_simps)
  qed (use Suc.prems n in simp_all)
  moreover have "p < e" using Suc.prems(2) by (simp add: word_less_nat_alt)
  moreover have "\<not> mp_at m p" using Suc.prems(3) [of 0] by simp
  ultimately show ?case by (simp add: mpsearch_loop.simps [of m p])
qed

text \<open>\<open>mpsearch1\<close> returns the first structure in the area, and null if there is none.\<close>

lemma mpsearch1_first:
  assumes "unat (P2V a) + 16 * n < 4294967296"
  shows "(\<exists>k < n. mp_at m (P2V a + 16 * of_nat k) \<and> (\<forall>i < k. \<not> mp_at m (P2V a + 16 * of_nat i)) \<and>
      mpsearch1 m a (16 * of_nat n) = Some (Some (P2V a + 16 * of_nat k))) \<or>
    (\<forall>k < n. \<not> mp_at m (P2V a + 16 * of_nat k)) \<and> mpsearch1 m a (16 * of_nat n) = Some None"
proof -
  have e: "unat (P2V a + 16 * of_nat n) = unat (P2V a) + 16 * n"
  proof -
    have "unat (P2V a + 16 * of_nat n) = unat (of_nat (unat (P2V a) + 16 * n) :: uint)" by simp
    also have "\<dots> = unat (P2V a) + 16 * n" by (rule unat_small [OF assms])
    finally show ?thesis .
  qed
  show ?thesis
  proof (cases "\<exists>k < n. mp_at m (P2V a + 16 * of_nat k)")
    case True
    then obtain k where k: "k < n" "mp_at m (P2V a + 16 * of_nat k)" "\<forall>i < k. \<not> (i < n \<and> mp_at m (P2V a + 16 * of_nat i))"
      using exists_least_iff [of "\<lambda>k. k < n \<and> mp_at m (P2V a + 16 * of_nat k)"] by auto
    then have "mpsearch_loop m (P2V a) (P2V a + 16 * of_nat n) = Some (Some (P2V a + 16 * of_nat k))"
      using assms e by (intro mpsearch_loop_finds) auto
    then show ?thesis using k by (auto simp: mpsearch1_def)
  next
    case False
    then have "mpsearch_loop m (P2V a) (P2V a + 16 * of_nat n) = Some None"
      using assms e by (intro mpsearch_loop_none [where k = n]) auto
    then show ?thesis using False by (simp add: mpsearch1_def)
  qed
qed

section \<open>The table\<close>

text \<open>The entries as the specification of the BIOS has them, and their bytes.\<close>

datatype mp_entry = Processor uchar "uchar list" | Bus "uchar list" | IOApic uchar "uchar list" | IOIntr "uchar list" | LIntr "uchar list"

fun entry_bytes :: "mp_entry \<Rightarrow> uchar list" where
  "entry_bytes (Processor i r) = MPPROC # i # r"
| "entry_bytes (Bus r) = MPBUS # r"
| "entry_bytes (IOApic i r) = MPIOAPIC # i # r"
| "entry_bytes (IOIntr r) = MPIOINTR # r"
| "entry_bytes (LIntr r) = MPLINTR # r"

fun entry_ok :: "mp_entry \<Rightarrow> bool" where
  "entry_ok (Processor i r) = (length r = 18)"
| "entry_ok (Bus r) = (length r = 7)"
| "entry_ok (IOApic i r) = (length r = 6)"
| "entry_ok (IOIntr r) = (length r = 7)"
| "entry_ok (LIntr r) = (length r = 7)"

fun processors :: "mp_entry list \<Rightarrow> uchar list" where
  "processors [] = []"
| "processors (e # es) = (case e of Processor i r \<Rightarrow> i # processors es | _ \<Rightarrow> processors es)"

fun last_ioapic :: "uchar \<Rightarrow> mp_entry list \<Rightarrow> uchar" where
  "last_ioapic a [] = a"
| "last_ioapic a (e # es) = (case e of IOApic i r \<Rightarrow> last_ioapic i es | _ \<Rightarrow> last_ioapic a es)"

definition bytes_at :: "pmem \<Rightarrow> uint \<Rightarrow> uchar list \<Rightarrow> bool" where
  "bytes_at m p bs \<longleftrightarrow> (\<forall>i < length bs. m (p + of_nat i) = bs ! i)"

lemma bytes_at_append: "bytes_at m p (xs @ ys) \<longleftrightarrow> bytes_at m p xs \<and> bytes_at m (p + of_nat (length xs)) ys"
proof -
  have "(\<forall>i < length xs + length ys. m (p + of_nat i) = (xs @ ys) ! i) \<longleftrightarrow>
      (\<forall>i < length xs. m (p + of_nat i) = xs ! i) \<and> (\<forall>i < length ys. m (p + of_nat (length xs + i)) = ys ! i)"
    (is "?l \<longleftrightarrow> ?r")
  proof
    assume l: ?l
    show ?r
    proof (intro conjI allI impI)
      show "m (p + of_nat i) = xs ! i" if "i < length xs" for i using l [rule_format, of i] that by (simp add: nth_append)
      show "m (p + of_nat (length xs + i)) = ys ! i" if "i < length ys" for i
        using l [rule_format, of "length xs + i"] that by (simp add: nth_append)
    qed
  next
    assume r: ?r
    show ?l
    proof (intro allI impI)
      fix i assume i: "i < length xs + length ys"
      show "m (p + of_nat i) = (xs @ ys) ! i"
        using i r [THEN conjunct1, rule_format, of i] r [THEN conjunct2, rule_format, of "i - length xs"]
        by (cases "i < length xs") (simp_all add: nth_append del: of_nat_add)
    qed
  qed
  then show ?thesis by (simp add: bytes_at_def add.assoc)
qed

lemma bytes_at_Cons: "bytes_at m p (b # bs) \<longleftrightarrow> m p = b \<and> bytes_at m (p + 1) bs"
  using bytes_at_append [of m p "[b]" bs] by (simp add: bytes_at_def)

lemma entry_step:
  assumes "entry_ok e" and "bytes_at m p (entry_bytes e)" and "p < z"
  shows "mp_entries m p z s = mp_entries m (p + of_nat (length (entry_bytes e))) z
    (s\<lparr>apic_ids := (case e of Processor i r \<Rightarrow> if length (apic_ids s) < NCPUS then apic_ids s @ [i] else apic_ids s | _ \<Rightarrow> apic_ids s),
       ioapicid := (case e of IOApic i r \<Rightarrow> i | _ \<Rightarrow> ioapicid s)\<rparr>)"
  using assms by (cases e) (auto simp: bytes_at_Cons mp_entries.simps [of m p])

lemma mp_entries_read:
  assumes "\<forall>e \<in> set es. entry_ok e"
  shows "bytes_at m p (concat (map entry_bytes es)) \<Longrightarrow> unat p + length (concat (map entry_bytes es)) < 4294967296 \<Longrightarrow>
    length (apic_ids s) \<le> NCPUS \<Longrightarrow>
    mp_entries m p (p + of_nat (length (concat (map entry_bytes es)))) s =
      Some (s\<lparr>apic_ids := take NCPUS (apic_ids s @ processors es), ioapicid := last_ioapic (ioapicid s) es\<rparr>)"
  using assms
proof (induction es arbitrary: p s)
  case Nil
  then show ?case by (simp add: mp_entries.simps)
next
  case (Cons e es)
  let ?n = "length (entry_bytes e)" and ?l = "length (concat (map entry_bytes es))"
  let ?s = "s\<lparr>apic_ids := (case e of Processor i r \<Rightarrow> if length (apic_ids s) < NCPUS then apic_ids s @ [i] else apic_ids s | _ \<Rightarrow> apic_ids s),
       ioapicid := (case e of IOApic i r \<Rightarrow> i | _ \<Rightarrow> ioapicid s)\<rparr>"
  have b: "bytes_at m p (entry_bytes e)" "bytes_at m (p + of_nat ?n) (concat (map entry_bytes es))"
    using Cons.prems(1) by (simp_all add: bytes_at_append)
  have lim: "unat p + (?n + ?l) < 4294967296" "0 < ?n" using Cons.prems(2) by (simp, cases e) simp_all
  have u: "unat (p + of_nat k) = unat p + k" if "unat p + k < 4294967296" for k
    using unat_small [OF that] by simp
  have z: "p < p + of_nat (?n + ?l)" unfolding word_less_nat_alt u [OF lim(1)] using lim(2) by simp
  have "mp_entries m p (p + of_nat (?n + ?l)) s = mp_entries m (p + of_nat ?n) (p + of_nat ?n + of_nat ?l) ?s"
    using entry_step [OF _ b(1) z, of s] Cons.prems(4) by (simp add: add.assoc)
  also have "\<dots> = Some (?s\<lparr>apic_ids := take NCPUS (apic_ids ?s @ processors es), ioapicid := last_ioapic (ioapicid ?s) es\<rparr>)"
  proof (rule Cons.IH [OF b(2)])
    show "unat (p + of_nat ?n) + ?l < 4294967296" using lim u [of ?n] by simp
    show "length (apic_ids ?s) \<le> NCPUS" using Cons.prems(3) by (cases e) simp_all
  qed (use Cons.prems(4) in simp)
  also have "\<dots> = Some (s\<lparr>apic_ids := take NCPUS (apic_ids s @ processors (e # es)), ioapicid := last_ioapic (ioapicid s) (e # es)\<rparr>)"
    using Cons.prems(3) by (cases e) (simp_all add: take_Cons')
  finally show ?case by simp
qed

text \<open>C15: \<open>mpinit\<close> reads the table of the machine.  If the search finds a floating structure that points to a table with the right
  signature, version and checksum, followed by entries \<open>es\<close> in the layout of the specification, then \<open>mpinit\<close> returns and has registered
  the interrupt ids of the first eight processors in their order, the id of the last interrupt controller, the address of
  the local controllers and whether the mode register has to be switched.\<close>

theorem mpinit_registers:
  assumes "mpsearch m = Some (Some mp)" and "mword m (mp + 4) \<noteq> 0" and "conf = P2V (mword m (mp + 4))"
    and "signed m conf sig_PCMP" and "m (conf + 6) = 1 \<or> m (conf + 6) = 4"
    and "\<forall>e \<in> set es. entry_ok e" and "bytes_at m (conf + 44) (concat (map entry_bytes es))"
    and "unat (mhalf m (conf + 4)) = 44 + length (concat (map entry_bytes es))"
    and "mp_sum m conf (unat (mhalf m (conf + 4))) = 0" and "unat conf + unat (mhalf m (conf + 4)) < 4294967296" and "apic_ids s = []"
  shows "mpinit m s = Some (Ok \<lparr>apic_ids = take NCPUS (processors es), ioapicid = last_ioapic (ioapicid s) es, ismp = True,
    lapic_at = mword m (conf + 36), imcr = m (mp + 12) \<noteq> 0\<rparr>)"
proof -
  let ?l = "length (concat (map entry_bytes es))"
  have c: "mpconfig m = Some (Some (mp, conf))"
    using assms(1,2,4,5,9) by (auto simp: mpconfig_def Let_def simp flip: assms(3))
  have "(ucast (mhalf m (conf + 4)) :: uint) = of_nat (44 + ?l)" unfolding assms(8) [symmetric] by simp
  then have e: "conf + ucast (mhalf m (conf + 4)) = conf + 44 + of_nat ?l" by simp
  have "unat (conf + 44) = unat conf + 44" using assms(8,10) unat_small [of "unat conf + 44"] by simp
  then have u: "unat (conf + 44) + ?l < 4294967296" using assms(8,10) by linarith
  have "mp_entries m (conf + 44) (conf + 44 + of_nat ?l) (s\<lparr>ismp := True, lapic_at := mword m (conf + 36)\<rparr>) =
      Some (s\<lparr>ismp := True, lapic_at := mword m (conf + 36), apic_ids := take NCPUS (processors es), ioapicid := last_ioapic (ioapicid s) es\<rparr>)"
    using mp_entries_read [OF assms(6,7) u, of "s\<lparr>ismp := True, lapic_at := mword m (conf + 36)\<rparr>"] assms(11) by simp
  then show ?thesis by (simp add: mpinit_def c e)
qed

text \<open>An entry of another type is not skipped: \<open>break\<close> leaves the \<open>switch\<close> only, and the loop goes on at the same entry
  for ever.  The panic after the loop is never reached.\<close>

lemma mp_entries_result:
  assumes "mp_entries m p e s = Some s'"
  shows "(p < e \<longrightarrow> m p \<in> {MPPROC, MPIOAPIC, MPBUS, MPIOINTR, MPLINTR}) \<and> (ismp s \<longrightarrow> ismp s')"
proof (rule mp_entries.raw_induct [OF _ assms,
    where P = "\<lambda>m p e s s'. (p < e \<longrightarrow> m p \<in> {MPPROC, MPIOAPIC, MPBUS, MPIOINTR, MPLINTR}) \<and> (ismp s \<longrightarrow> ismp s')"], goal_cases)
  case (1 g m p e s s')
  note ih = 1(1)
  have "p < e \<longrightarrow> m p \<in> {MPPROC, MPIOAPIC, MPBUS, MPIOINTR, MPLINTR}"
  proof (intro impI, rule ccontr)
    assume "p < e" and n: "m p \<notin> {MPPROC, MPIOAPIC, MPBUS, MPIOINTR, MPLINTR}"
    then have "g m p e (s\<lparr>ismp := False\<rparr>) = Some s'" using 1(2) by simp
    from ih [OF this] \<open>p < e\<close> n show False by blast
  qed
  then show ?case using 1(2) by (auto split: if_splits dest!: ih)
qed

lemma unknown_entry_hangs:
  assumes "p < e" and "m p \<notin> {MPPROC, MPIOAPIC, MPBUS, MPIOINTR, MPLINTR}"
  shows "mp_entries m p e s = None"
  using mp_entries_result [of m p e s] assms by (cases "mp_entries m p e s") blast+


lemma second_panic_dead: "mpinit m s \<noteq> Some (Panic ''Didn't find a suitable machine'')"
  using mp_entries_result by (fastforce simp: mpinit_def bind_eq_Some_conv split: option.splits)

section \<open>The I/O controller\<close>

text \<open>Selecting a register and writing the data port; the register of the version has the number of the last input in bits 16 to 23.\<close>

type_synonym ioregs = "nat \<Rightarrow> uint"

abbreviation (input) INT_DISABLED :: uint where "INT_DISABLED \<equiv> 0x10000"

definition ioapicwrite :: "nat \<Rightarrow> uint \<Rightarrow> ioregs \<Rightarrow> ioregs" where
  "ioapicwrite reg data r = r(reg := data)"

definition ioapicinit :: "ioregs \<Rightarrow> ioregs" where
  "ioapicinit r =
     (let maxintr = unat (drop_bit 16 (r 1) AND 0xFF)
      in fold (\<lambda>i r. ioapicwrite (0x10 + 2 * i + 1) 0 (ioapicwrite (0x10 + 2 * i) (INT_DISABLED OR (32 + of_nat i)) r)) [0..<Suc maxintr] r)"

definition ioapicenable :: "nat \<Rightarrow> uint \<Rightarrow> ioregs \<Rightarrow> ioregs" where
  "ioapicenable irq cpunum r = ioapicwrite (0x10 + 2 * irq + 1) (push_bit 24 cpunum) (ioapicwrite (0x10 + 2 * irq) (32 + of_nat irq) r)"

definition masked :: "ioregs \<Rightarrow> nat \<Rightarrow> bool" where
  "masked r i \<longleftrightarrow> r (0x10 + 2 * i) AND INT_DISABLED \<noteq> 0"

definition routed :: "ioregs \<Rightarrow> nat \<Rightarrow> uint \<Rightarrow> bool" where
  "routed r i cpu \<longleftrightarrow> \<not> masked r i \<and> r (0x10 + 2 * i) AND 0xFF = 32 + of_nat i \<and> drop_bit 24 (r (0x10 + 2 * i + 1)) = cpu"

lemma ioapicinit_loop:
  "fold (\<lambda>i r. ioapicwrite (0x10 + 2 * i + 1) 0 (ioapicwrite (0x10 + 2 * i) (INT_DISABLED OR (32 + of_nat i)) r)) [0..<n] r k =
    (if 0x10 \<le> k \<and> k < 0x10 + 2 * n then if even k then INT_DISABLED OR (32 + of_nat ((k - 0x10) div 2)) else 0 else r k)"
proof (induction n)
  case (Suc n)
  then show ?case by (auto simp: ioapicwrite_def)
qed auto

lemma small_word_bits:
  assumes "unat (x :: uint) < 256" and "8 \<le> k"
  shows "\<not> bit x k"
proof -
  have "take_bit 8 x = x" using assms(1) by (simp add: take_bit_eq_mod word_unat_eq_iff unat_mod_distrib)
  then have "bit x k = bit (take_bit 8 x) k" by simp
  then show ?thesis using assms(2) by (simp add: bit_simps)
qed

lemma bit_INT_DISABLED: "bit INT_DISABLED k \<longleftrightarrow> k = 16"
proof -
  have "INT_DISABLED = 2 ^ 16" by simp
  then have "bit INT_DISABLED k = bit (2 ^ 16 :: uint) k" by (rule arg_cong)
  also have "\<dots> \<longleftrightarrow> k = 16" unfolding bit_exp_iff by auto
  finally show ?thesis .
qed

lemma small_word_unmasked:
  assumes "unat (x :: uint) < 256"
  shows "x AND INT_DISABLED = 0" "x AND 0xFF = x" "drop_bit 24 (push_bit 24 x) = x"
proof -
  show "x AND INT_DISABLED = 0"
    by (rule bit_word_eqI) (use small_word_bits [OF assms, of 16] in \<open>simp only: bit_and_iff bit_INT_DISABLED bit_0_eq, auto\<close>)
  have "x AND mask 8 = x" using assms by (simp add: take_bit_eq_mod word_unat_eq_iff unat_mod_distrib flip: take_bit_eq_mask)
  then show "x AND 0xFF = x" by (simp add: mask_numeral)
  show "drop_bit 24 (push_bit 24 x) = x"
    by (rule bit_word_eqI) (use small_word_bits [OF assms] in \<open>auto simp: bit_simps simp flip: not_le\<close>)
qed

text \<open>After \<open>ioapicinit\<close> and any sequence of \<open>ioapicenable\<close>, an input of the controller is routed to the processor
  that the last call for it names, and an input that was not enabled is masked.\<close>

theorem ioapic_routes:
  assumes "\<forall>(irq, cpu) \<in> set calls. irq < 24 \<and> cpu < 256" and "i \<le> unat (drop_bit 16 (r 1) AND 0xFF)"
  shows "case map_of (rev calls) i of
      None \<Rightarrow> masked (fold (\<lambda>(irq, cpu). ioapicenable irq cpu) calls (ioapicinit r)) i
    | Some cpu \<Rightarrow> routed (fold (\<lambda>(irq, cpu). ioapicenable irq cpu) calls (ioapicinit r)) i cpu"
  using assms(1)
proof (induction calls rule: rev_induct)
  case Nil
  have "(INT_DISABLED OR x) AND INT_DISABLED \<noteq> 0" for x :: uint
  proof
    assume "(INT_DISABLED OR x) AND INT_DISABLED = 0"
    then have "bit ((INT_DISABLED OR x) AND INT_DISABLED) 16 = bit (0 :: uint) 16" by (rule arg_cong)
    then show False by (simp add: bit_or_iff bit_and_iff bit_INT_DISABLED)
  qed
  then show ?case using assms(2) unfolding masked_def ioapicinit_def Let_def fold.simps rev.simps map_of.simps id_apply ioapicinit_loop by simp
next
  case (snoc c cs)
  obtain irq cpu where c: "c = (irq, cpu)" by (cases c)
  let ?r = "fold (\<lambda>(irq, cpu). ioapicenable irq cpu) cs (ioapicinit r)"
  have lim: "irq < 24" "cpu < 256" using snoc.prems by (simp_all add: c)
  show ?case
  proof (cases "i = irq")
    case True
    have u: "unat (32 + of_nat irq :: uint) = 32 + irq" using unat_small [of "32 + irq"] lim(1) by simp
    have "unat cpu < 256" using lim(2) by (simp add: word_less_nat_alt)
    then have "routed (ioapicenable irq cpu ?r) irq cpu"
      using small_word_unmasked [of "32 + of_nat irq"] small_word_unmasked [of cpu] lim(1) by (simp add: u routed_def masked_def ioapicenable_def ioapicwrite_def)
    then show ?thesis using True by (simp add: c)
  next
    case False
    have "masked (ioapicenable irq cpu ?r) i = masked ?r i" "routed (ioapicenable irq cpu ?r) i x = routed ?r i x" for x
      using False by (auto simp: routed_def masked_def ioapicenable_def ioapicwrite_def)
    then show ?thesis using snoc False by (simp add: c split: option.splits)
  qed
qed

section \<open>The CMOS clock\<close>

text \<open>Every read of a register is a moment of its own.  The date as bytes, as \<open>fill_rtcdate\<close> reads them, and the next moment.\<close>

definition fill_rtcdate :: "chip \<Rightarrow> nat \<Rightarrow> uchar list \<times> nat" where
  "fill_rtcdate clk t =
     ([clk t RTC_SECONDS, clk (t + 1) RTC_MINUTES, clk (t + 2) RTC_HOURS, clk (t + 3) RTC_DAY, clk (t + 4) RTC_MONTH, clk (t + 5) RTC_YEAR], t + 6)"

partial_function (option) cmos_loop :: "chip \<Rightarrow> nat \<Rightarrow> (uchar list \<times> nat) option" where
  "cmos_loop clk t =
     (if clk (t + 6) RTC_STATUS_A AND 0x80 \<noteq> 0 then cmos_loop clk (t + 7)
      else if fst (fill_rtcdate clk t) = fst (fill_rtcdate clk (t + 7)) then Some (fst (fill_rtcdate clk t), t + 13)
      else cmos_loop clk (t + 13))"

text \<open>Second, minute, hour, day, month and year.\<close>

definition cmostime :: "chip \<Rightarrow> nat \<Rightarrow> nat list option" where
  "cmostime clk t0 =
     (let sb = clk t0 0x0B;
          conv = (if sb AND 4 = 0 then bcd_to_bin else unat)
      in map_option (\<lambda>(d, t). (map conv d)[5 := conv (d ! 5) + 2000]) (cmos_loop clk (t0 + 1)))"

text \<open>What is returned has been read twice in the same way, with no update in progress in between.\<close>

lemma cmos_loop_result:
  assumes "cmos_loop clk t = Some (d, t')"
  shows "t + 13 \<le> t' \<and> fst (fill_rtcdate clk (t' - 13)) = d \<and> fst (fill_rtcdate clk (t' - 6)) = d \<and> clk (t' - 7) RTC_STATUS_A AND 0x80 = 0"
proof -
  have "case r of (d, t') \<Rightarrow> t + 13 \<le> t' \<and> fst (fill_rtcdate clk (t' - 13)) = d \<and> fst (fill_rtcdate clk (t' - 6)) = d \<and>
      clk (t' - 7) RTC_STATUS_A AND 0x80 = 0" if "cmos_loop clk t = Some r" for r
  proof (rule cmos_loop.raw_induct [OF _ that, where P = "\<lambda>clk t r. case r of (d, t') \<Rightarrow> t + 13 \<le> t' \<and>
      fst (fill_rtcdate clk (t' - 13)) = d \<and> fst (fill_rtcdate clk (t' - 6)) = d \<and> clk (t' - 7) RTC_STATUS_A AND 0x80 = 0"], goal_cases)
    case (1 g clk t r)
    note ih = 1(1)
    show ?case using 1(2) ih [of clk "t + 7" r] ih [of clk "t + 13" r] by (auto simp: add.commute split: if_splits)
  qed
  from this [OF assms] show ?thesis by simp
qed

text \<open>A clock that shows one date from some moment on is read.\<close>

lemma cmos_loop_returns:
  assumes "\<forall>t \<ge> T. clk t = regs" and "regs RTC_STATUS_A AND 0x80 = 0"
  shows "\<exists>r. cmos_loop clk t = Some r"
proof (induction "T - t" arbitrary: t rule: less_induct)
  case less
  show ?case
  proof (cases "T \<le> t")
    case True
    then show ?thesis using assms by (simp add: cmos_loop.simps [of clk t] fill_rtcdate_def)
  next
    case False
    then have "\<exists>r. cmos_loop clk (t + 7) = Some r" "\<exists>r. cmos_loop clk (t + 13) = Some r" by (intro less; simp)+
    then show ?thesis by (subst cmos_loop.simps) (simp del: cmos_loop.simps)
  qed
qed

text \<open>The date in the CMOS clock.  If the clock shows the same date during the reading, in two decimal digits per byte, \<open>cmostime\<close>
  returns that date, with the year of this century.\<close>

theorem cmostime_reads_date:
  assumes "\<forall>t \<in> {t0..t0 + 13}. clk t RTC_SECONDS = bcd s \<and> clk t RTC_MINUTES = bcd mi \<and> clk t RTC_HOURS = bcd h \<and>
      clk t RTC_DAY = bcd d \<and> clk t RTC_MONTH = bcd mo \<and> clk t RTC_YEAR = bcd y \<and> clk t RTC_STATUS_A AND 0x80 = 0 \<and> clk t 0x0B AND 4 = 0"
    and "s < 60" and "mi < 60" and "h < 24" and "d \<le> 31" and "mo \<le> 12" and "y < 100"
  shows "cmostime clk t0 = Some [s, mi, h, d, mo, 2000 + y]"
proof -
  have f: "fill_rtcdate clk t = ([bcd s, bcd mi, bcd h, bcd d, bcd mo, bcd y], t + 6)" if "t \<in> {t0 + 1, t0 + 8}" for t
    using that assms(1) by (auto simp: fill_rtcdate_def)
  have "cmos_loop clk (t0 + 1) = Some ([bcd s, bcd mi, bcd h, bcd d, bcd mo, bcd y], t0 + 14)"
    using f [of "t0 + 1"] f [of "t0 + 8"] assms(1) by (subst cmos_loop.simps) (simp add: add.commute)
  then show ?thesis using assms by (simp add: cmostime_def Let_def bcd_roundtrip)
qed

section \<open>The serial port\<close>

text \<open>\<open>st\<close> gives the line status at every poll.  Waiting ends after 128 polls; the byte is then written in any case.\<close>

fun uart_wait :: "(nat \<Rightarrow> uchar) \<Rightarrow> nat \<Rightarrow> nat \<Rightarrow> nat" where
  "uart_wait st t 0 = t"
| "uart_wait st t (Suc n) = (if st t AND 0x20 = 0 then uart_wait st (Suc t) n else Suc t)"

definition uartputc :: "bool \<Rightarrow> (nat \<Rightarrow> uchar) \<Rightarrow> uchar \<Rightarrow> nat \<times> uchar list \<Rightarrow> nat \<times> uchar list" where
  "uartputc uart st c s = (if uart then (uart_wait st (fst s) 128, snd s @ [c]) else s)"

lemma uart_wait_ends: "t \<le> uart_wait st t n \<and> uart_wait st t n \<le> t + n"
proof (induction n arbitrary: t)
  case (Suc n)
  from Suc.IH [of "Suc t"] show ?case by auto
qed simp

lemma uart_wait_ready: "uart_wait st t n < t + n \<Longrightarrow> st (uart_wait st t n - 1) AND 0x20 \<noteq> 0"
  by (induction n arbitrary: t) (auto split: if_splits)

section \<open>Witnesses\<close>

definition demo_table :: "uchar list" where
  "demo_table = [0x5F, 0x4D, 0x50, 0x5F, 0x10, 0xFC, 0x09, 0, 1, 4, 0x8B, 0, 0, 0, 0, 0] @
     [0x50, 0x43, 0x4D, 0x50, 100, 0, 4, 0x70] @ replicate 28 0 @ [0, 0, 0xE0, 0xFE, 0, 0, 0, 0] @
     [0, 5] @ replicate 18 0 @ [2, 7] @ replicate 6 0 @ [0, 9] @ replicate 18 0 @ [3] @ replicate 7 0"

definition demo_bios :: pmem where
  "demo_bios a = (if a - 0x8009FC00 < 116 then demo_table ! unat (a - 0x8009FC00)
     else if a = 0x8000040F then 0x9F else if a = 0x8000040E then 0xC0 else 0)"

lemma mp_sum_bytes:
  assumes "bytes_at m p bs"
  shows "mp_sum m p (length bs) = of_int (sum_list (map uint bs))"
proof -
  have "map (\<lambda>i. uint (m (p + of_nat i))) [0..<length bs] = map uint bs"
    using assms by (intro nth_equalityI) (simp_all add: bytes_at_def)
  then show ?thesis by (simp only: mp_sum_def)
qed

theorem mpinit_registers_witness:
  "mpinit demo_bios \<lparr>apic_ids = [], ioapicid = 0, ismp = False, lapic_at = 0, imcr = False\<rparr> =
     Some (Ok \<lparr>apic_ids = [5, 9], ioapicid = 7, ismp = True, lapic_at = 0xFEE00000, imcr = False\<rparr>)"
proof -
  let ?es = "[Processor 5 (replicate 18 0), IOApic 7 (replicate 6 0), Processor 9 (replicate 18 0), IOIntr (replicate 7 0)]"
  have "demo_bios (0x8009FC00 + of_nat i) = demo_table ! i" if "i < 116" for i
    using unat_small [of i] that by (simp add: demo_bios_def word_less_nat_alt)
  then have t: "bytes_at demo_bios 0x8009FC00 demo_table" by (simp add: bytes_at_def demo_table_def)
  then have b16: "bytes_at demo_bios 0x8009FC00 (take 16 demo_table)" and b100: "bytes_at demo_bios 0x8009FC10 (drop 16 demo_table)"
    using bytes_at_append [of demo_bios "0x8009FC00" "take 16 demo_table" "drop 16 demo_table"] by (simp_all add: demo_table_def)
  have len: "length (take 16 demo_table) = 16" "length (drop 16 demo_table) = 100" by (simp_all add: demo_table_def)
  have "sum_list (map uint (take 16 demo_table)) = 768" "sum_list (map uint (drop 16 demo_table)) = 1024"
    by (simp_all add: demo_table_def sum_list_replicate)
  then have sums: "(of_int (sum_list (map uint (take 16 demo_table))) :: uchar) = 0" "(of_int (sum_list (map uint (drop 16 demo_table))) :: uchar) = 0"
    by simp_all
  have "mp_sum demo_bios 0x8009FC00 16 = 0" using mp_sum_bytes [OF b16] unfolding len sums .
  moreover have "signed demo_bios 0x8009FC00 sig_MP" by (simp add: signed_def demo_bios_def demo_table_def)
  ultimately have "mp_at demo_bios 0x8009FC00" by (simp add: mp_at_def)
  then have "mpsearch1 demo_bios 0x9FC00 1024 = Some (Some 0x8009FC00)"
    by (simp add: mpsearch1_def P2V_def mpsearch_loop.simps [of demo_bios "0x8009FC00"])
  then have s: "mpsearch demo_bios = Some (Some 0x8009FC00)"
    by (simp add: mpsearch_def Let_def P2V_def demo_bios_def)
  have w: "mword demo_bios (0x8009FC00 + 4) = 0x9FC10" "mword demo_bios (0x8009FC10 + 36) = 0xFEE00000"
    "mhalf demo_bios (0x8009FC10 + 4) = 100" "demo_bios (0x8009FC10 + 6) = 4" "demo_bios (0x8009FC00 + 12) = 0"
    "signed demo_bios 0x8009FC10 sig_PCMP"
    by (simp_all add: mword_def mhalf_def get32_def get16_def signed_def demo_bios_def demo_table_def nth_append)
  have "drop 16 demo_table = take 44 (drop 16 demo_table) @ concat (map entry_bytes ?es)" by (simp add: demo_table_def)
  then have b: "bytes_at demo_bios (0x8009FC10 + 44) (concat (map entry_bytes ?es))"
    using b100 bytes_at_append [of demo_bios "0x8009FC10" "take 44 (drop 16 demo_table)" "concat (map entry_bytes ?es)"]
    by (simp add: demo_table_def)
  have "mp_sum demo_bios 0x8009FC10 100 = 0" using mp_sum_bytes [OF b100] unfolding len sums .
  then show ?thesis
    using mpinit_registers [of demo_bios "0x8009FC00" "0x8009FC10" ?es, OF s _ _ _ _ _ b] w by (simp add: P2V_def)
qed

theorem ioapic_routes_witness:
  "routed (ioapicenable 12 0 (ioapicenable 14 3 (ioapicinit (\<lambda>r. if r = 1 then 0x170011 else 0)))) 14 3 \<and>
   masked (ioapicenable 12 0 (ioapicenable 14 3 (ioapicinit (\<lambda>r. if r = 1 then 0x170011 else 0)))) 4"
  using ioapic_routes [of "[(14, 3), (12, 0)]" 14 "\<lambda>r. if r = 1 then 0x170011 else 0"]
    ioapic_routes [of "[(14, 3), (12, 0)]" 4 "\<lambda>r. if r = 1 then 0x170011 else 0"] by simp

theorem cmostime_reads_date_witness:
  "cmostime (\<lambda>t r. if r = 0 then bcd 59 else if r = 2 then bcd 30 else if r = 4 then bcd 23 else if r = 7 then bcd 31
     else if r = 8 then bcd 12 else if r = 9 then bcd 25 else 0) 5 = Some [59, 30, 23, 31, 12, 2025]"
  using cmostime_reads_date [of 5 "\<lambda>t r. if r = 0 then bcd 59 else if r = 2 then bcd 30 else if r = 4 then bcd 23 else if r = 7 then bcd 31
     else if r = 8 then bcd 12 else if r = 9 then bcd 25 else 0" 59 30 23 31 12 25] by simp

end
