(* ===== verification/KString.thy ===== *)
theory KString
  imports Prelude
begin

text \<open>
  The kernel's string and memory routines (\<open>kernel/string.c\<close>, with the \<open>rep stos\<close>
  primitives of \<open>include/x86.h\<close>).  Memory is a byte store indexed by addresses; addresses are
  natural numbers, so pointer arithmetic does not wrap.  Each C loop is a recursion on the count
  that the C code decrements.
\<close>

type_synonym mem = "nat \<Rightarrow> uchar"

subsection \<open>Filling memory\<close>

fun stosb :: "mem \<Rightarrow> nat \<Rightarrow> uchar \<Rightarrow> nat \<Rightarrow> mem" where
  "stosb m d b 0 = m"
| "stosb m d b (Suc n) = stosb (m(d := b)) (Suc d) b n"

definition store_le :: "mem \<Rightarrow> nat \<Rightarrow> uint \<Rightarrow> mem" where
  "store_le m d w = m(d := ucast w, d + 1 := ucast (drop_bit 8 w),
     d + 2 := ucast (drop_bit 16 w), d + 3 := ucast (drop_bit 24 w))"

fun stosl :: "mem \<Rightarrow> nat \<Rightarrow> uint \<Rightarrow> nat \<Rightarrow> mem" where
  "stosl m d w 0 = m"
| "stosl m d w (Suc n) = stosl (store_le m d w) (d + 4) w n"

definition memset :: "mem \<Rightarrow> nat \<Rightarrow> uint \<Rightarrow> nat \<Rightarrow> mem" where
  "memset m dst c n =
     (if dst mod 4 = 0 \<and> n mod 4 = 0
      then (let c = c AND 0xFF
            in stosl m dst (push_bit 24 c OR push_bit 16 c OR push_bit 8 c OR c) (n div 4))
      else stosb m dst (ucast c) n)"

subsection \<open>Comparing and copying memory\<close>

fun memcmp :: "mem \<Rightarrow> nat \<Rightarrow> nat \<Rightarrow> nat \<Rightarrow> int" where
  "memcmp m s1 s2 0 = 0"
| "memcmp m s1 s2 (Suc n) =
     (if m s1 \<noteq> m s2 then uint (m s1) - uint (m s2) else memcmp m (Suc s1) (Suc s2) n)"

fun copy_up :: "mem \<Rightarrow> nat \<Rightarrow> nat \<Rightarrow> nat \<Rightarrow> mem" where
  "copy_up m s d 0 = m"
| "copy_up m s d (Suc n) = copy_up (m(d := m s)) (Suc s) (Suc d) n"

fun copy_down :: "mem \<Rightarrow> nat \<Rightarrow> nat \<Rightarrow> nat \<Rightarrow> mem" where
  "copy_down m s d 0 = m"
| "copy_down m s d (Suc n) = copy_down (m(d - 1 := m (s - 1))) (s - 1) (d - 1) n"

definition memmove :: "mem \<Rightarrow> nat \<Rightarrow> nat \<Rightarrow> nat \<Rightarrow> mem" where
  "memmove m d s n =
     (if s < d \<and> s + n > d then copy_down m (s + n) (d + n) n else copy_up m s d n)"

definition memcpy :: "mem \<Rightarrow> nat \<Rightarrow> nat \<Rightarrow> nat \<Rightarrow> mem" where
  "memcpy m dst src n = memmove m dst src n"

subsection \<open>Strings\<close>

fun strncmp :: "mem \<Rightarrow> nat \<Rightarrow> nat \<Rightarrow> nat \<Rightarrow> int" where
  "strncmp m p q 0 = 0"
| "strncmp m p q (Suc n) =
     (if m p \<noteq> 0 \<and> m p = m q then strncmp m (Suc p) (Suc q) n
      else uint (m p) - uint (m q))"

fun strncpy_loop :: "mem \<Rightarrow> nat \<Rightarrow> nat \<Rightarrow> nat \<Rightarrow> mem" where
  "strncpy_loop m s t 0 = m"
| "strncpy_loop m s t (Suc n) =
     (let m' = m(s := m t)
      in if m' s \<noteq> 0 then strncpy_loop m' (Suc s) (Suc t) n else stosb m' (Suc s) 0 n)"

definition strncpy :: "mem \<Rightarrow> nat \<Rightarrow> nat \<Rightarrow> int \<Rightarrow> mem" where
  "strncpy m s t n = strncpy_loop m s t (nat n)"

text \<open>\<open>k\<close> is what is left of \<open>n\<close> after the pre-decrement of \<open>while (--n > 0 && ...)\<close>.\<close>

fun safestrcpy_loop :: "mem \<Rightarrow> nat \<Rightarrow> nat \<Rightarrow> nat \<Rightarrow> mem" where
  "safestrcpy_loop m s t 0 = m(s := 0)"
| "safestrcpy_loop m s t (Suc k) =
     (let m' = m(s := m t)
      in if m' s \<noteq> 0 then safestrcpy_loop m' (Suc s) (Suc t) k else m'(Suc s := 0))"

definition safestrcpy :: "mem \<Rightarrow> nat \<Rightarrow> nat \<Rightarrow> int \<Rightarrow> mem" where
  "safestrcpy m s t n = (if n \<le> 0 then m else safestrcpy_loop m s t (nat n - 1))"

text \<open>\<open>strlen\<close> runs until it meets a NUL; \<open>None\<close> is a string without one.\<close>

partial_function (option) strlen_from :: "mem \<Rightarrow> nat \<Rightarrow> nat \<Rightarrow> nat option" where
  "strlen_from m s n = (if m (s + n) = 0 then Some n else strlen_from m s (Suc n))"

definition strlen :: "mem \<Rightarrow> nat \<Rightarrow> nat option" where
  "strlen m s = strlen_from m s 0"

subsection \<open>Laws of the primitives\<close>

lemma stosb_at: "stosb m d b n a = (if d \<le> a \<and> a < d + n then b else m a)"
  by (induction n arbitrary: m d) auto

lemma byte_mask: "(0xFF :: uint) = mask 8"
  by (simp add: mask_eq_exp_minus_1)

lemma ucast_splat:
  fixes c :: uint
  defines "w \<equiv> push_bit 24 (c AND 0xFF) OR push_bit 16 (c AND 0xFF) OR push_bit 8 (c AND 0xFF) OR (c AND 0xFF)"
  shows "(ucast w :: uchar) = ucast c" "(ucast (drop_bit 8 w) :: uchar) = ucast c"
    "(ucast (drop_bit 16 w) :: uchar) = ucast c" "(ucast (drop_bit 24 w) :: uchar) = ucast c"
  unfolding w_def byte_mask
  by (rule bit_word_eqI, auto simp: bit_simps)+

lemma stosl_at:
  assumes "(ucast w :: uchar) = b" "(ucast (drop_bit 8 w) :: uchar) = b"
    "(ucast (drop_bit 16 w) :: uchar) = b" "(ucast (drop_bit 24 w) :: uchar) = b"
  shows "stosl m d w n a = (if d \<le> a \<and> a < d + 4 * n then b else m a)"
proof (induction n arbitrary: m d)
  case 0
  then show ?case by auto
next
  case (Suc n)
  have "store_le m d w a = (if d \<le> a \<and> a < d + 4 then b else m a)"
    using assms by (auto simp: store_le_def)
  then show ?case by (auto simp: Suc.IH)
qed

lemma copy_up_at:
  "\<not> (s < d \<and> d < s + n) \<Longrightarrow>
   copy_up m s d n a = (if d \<le> a \<and> a < d + n then m (s + (a - d)) else m a)"
proof (induction n arbitrary: m s d)
  case 0
  then show ?case by auto
next
  case (Suc n)
  from Suc.prems have "\<not> (Suc s < Suc d \<and> Suc d < Suc s + n)" by auto
  note IH = Suc.IH [OF this, of "m(d := m s)"]
  consider "d = a" | k where "a = Suc d + k" "k < n" | "a < d \<or> d + Suc n \<le> a"
    by (metis add_Suc add_Suc_right le_Suc_ex less_or_eq_imp_le linorder_neqE_nat nat_add_left_cancel_less not_less Suc_leI)
  then show ?case
    using Suc.prems IH by cases (auto simp: fun_upd_def)
qed

lemma copy_down_at:
  "s < d \<Longrightarrow>
   copy_down m (s + n) (d + n) n a = (if d \<le> a \<and> a < d + n then m (s + (a - d)) else m a)"
  by (induction n arbitrary: m) (auto simp: less_Suc_eq)

subsection \<open>C strings in memory\<close>

definition cstr_at :: "mem \<Rightarrow> nat \<Rightarrow> uchar list \<Rightarrow> bool" where
  "cstr_at m p xs \<longleftrightarrow> (\<forall>i<length xs. m (p + i) = xs ! i \<and> xs ! i \<noteq> 0) \<and> m (p + length xs) = 0"

lemma cstr_at_Nil [simp]: "cstr_at m p [] \<longleftrightarrow> m p = 0"
  by (simp add: cstr_at_def)

lemma cstr_at_Cons [simp]: "cstr_at m p (x # xs) \<longleftrightarrow> m p = x \<and> x \<noteq> 0 \<and> cstr_at m (Suc p) xs"
  by (auto simp: cstr_at_def All_less_Suc2)

lemma cstr_at_cong:
  "(\<And>a. p \<le> a \<Longrightarrow> a \<le> p + length xs \<Longrightarrow> m a = m' a) \<Longrightarrow> cstr_at m p xs = cstr_at m' p xs"
  by (auto simp: cstr_at_def)

lemma strlen_from_cstr:
  "cstr_at m (p + n) xs \<Longrightarrow> strlen_from m p n = Some (n + length xs)"
proof (induction xs arbitrary: n)
  case Nil
  then show ?case by (simp add: strlen_from.simps)
next
  case (Cons x xs)
  from Cons.IH [of "Suc n"] Cons.prems show ?case by (auto simp: strlen_from.simps [of m p n])
qed

lemma safestrcpy_loop_frame:
  "a < s \<or> s + k < a \<Longrightarrow> safestrcpy_loop m s t k a = m a"
  by (induction m s t k rule: safestrcpy_loop.induct) (auto simp: Let_def)

lemma safestrcpy_loop_cstr:
  "cstr_at m t xs \<Longrightarrow> s + k < t \<or> t + length xs < s \<Longrightarrow>
   cstr_at (safestrcpy_loop m s t k) s (take k xs)"
proof (induction k arbitrary: m s t xs)
  case 0
  then show ?case by simp
next
  case (Suc k)
  show ?case
  proof (cases xs)
    case Nil
    with Suc.prems show ?thesis by (auto simp: Let_def)
  next
    case (Cons x ys)
    let ?m = "m(s := m t)"
    have "cstr_at ?m (Suc t) ys"
      using Suc.prems Cons by (auto simp: cstr_at_def)
    from Suc.IH [OF this, of "Suc s"] Suc.prems Cons
    have "cstr_at (safestrcpy_loop ?m (Suc s) (Suc t) k) (Suc s) (take k ys)"
      by (auto simp: fun_upd_def)
    with Suc.prems Cons show ?thesis by (auto simp: Let_def safestrcpy_loop_frame fun_upd_def)
  qed
qed

lemma strncmp_zero:
  "strncmp m p q n = 0 \<longleftrightarrow>
   (\<forall>i<n. (\<forall>j<i. m (p + j) \<noteq> 0) \<longrightarrow> m (p + i) = m (q + i))"
proof (induction n arbitrary: p q)
  case 0
  then show ?case by simp
next
  case (Suc n)
  show ?case
  proof (cases "m p \<noteq> 0 \<and> m p = m q")
    case True
    then show ?thesis by (simp add: Suc.IH All_less_Suc2)
  next
    case False
    then have "strncmp m p q (Suc n) = 0 \<longleftrightarrow> m p = m q"
      by (auto simp: word_uint_eq_iff)
    with False show ?thesis by (auto simp: All_less_Suc2)
  qed
qed

subsection \<open>Properties\<close>

text \<open>\<open>memmove\<close> is correct for every pair of regions, overlapping or not: afterwards the
  destination holds the bytes the source held before the call, and nothing else has changed.\<close>

theorem memmove_correct:
  "memmove m d s n = (\<lambda>a. if d \<le> a \<and> a < d + n then m (s + (a - d)) else m a)"
  by (rule ext) (auto simp: memmove_def copy_down_at copy_up_at)

text \<open>\<open>memset\<close> fills exactly the requested bytes with the low byte of \<open>c\<close>; the word-at-a-time
  path taken for aligned regions computes the same memory as the byte path.\<close>

theorem memset_fills:
  "memset m dst c n = (\<lambda>a. if dst \<le> a \<and> a < dst + n then ucast c else m a)"
proof (rule ext)
  fix a
  show "memset m dst c n a = (if dst \<le> a \<and> a < dst + n then ucast c else m a)"
  proof (cases "dst mod 4 = 0 \<and> n mod 4 = 0")
    case True
    then have "4 * (n div 4) = n" by auto
    with True show ?thesis
      unfolding memset_def Let_def if_P [OF True] stosl_at [OF ucast_splat] by simp
  next
    case False
    then show ?thesis unfolding memset_def if_not_P [OF False] stosb_at by simp
  qed
qed

text \<open>\<open>safestrcpy\<close> always leaves a NUL-terminated string in the destination, the longest
  prefix of the source that fits, and writes nothing outside the \<open>n\<close> bytes it was given.\<close>

theorem safestrcpy_correct:
  assumes "cstr_at m t xs" and "0 < n" and "s + nat n \<le> t \<or> t + length xs < s"
  shows "cstr_at (safestrcpy m s t n) s (take (nat n - 1) xs) \<and>
    (\<forall>a. a < s \<or> s + nat n \<le> a \<longrightarrow> safestrcpy m s t n a = m a)"
  using assms by (auto simp: safestrcpy_def intro!: safestrcpy_loop_cstr safestrcpy_loop_frame)

lemma strlen_cstr: "cstr_at m p xs \<Longrightarrow> strlen m p = Some (length xs)"
  using strlen_from_cstr [of m p 0 xs] by (simp add: strlen_def)

theorem safestrcpy_correct_witness:
  "let m = (\<lambda>a. if a = 10 then 65 else if a = 11 then 66 else if a = 12 then 67 else 0)
   in cstr_at (safestrcpy m 0 10 3) 0 [65, 66]"
  using safestrcpy_correct [of "\<lambda>a. if a = 10 then 65 else if a = 11 then 66 else if a = 12 then 67 else 0"
      10 "[65, 66, 67]" 3 0]
  by simp

end
