(* ===== verification/Interfaces.thy ===== *)
theory Interfaces
  imports Prelude
begin

text \<open>
  The interfaces on which several components agree, each a locale whose assumptions are the
  laws a provider promises and whose lemmas are what a client may rely on.

  \<^item> \<open>bounded_fifo\<close>: a queue of bounded capacity.  Provided by the pipe buffer
    (\<open>kernel/pipe.c\<close>) and by the window message queue (\<open>kernel/window_manager.c\<close>).
  \<^item> \<open>slot_table\<close>: a fixed table in which the first free slot is claimed.  Provided by the
    open-file table (\<open>kernel/file.c\<close>), the process table (\<open>kernel/proc.c\<close>) and the window and
    widget tables.
  \<^item> \<open>page_pool\<close>: an allocator of indistinguishable resources.  Provided by the physical page
    allocator (\<open>kernel/kalloc.c\<close>).

  The model's own definitions stay outside the locales; each provider interprets its locale in
  its own theory.
\<close>

section \<open>Bounded queues\<close>

datatype 'a qop = Put 'a | Get

text \<open>A history of queue operations: the final state, what was accepted and what was delivered.
  An operation that is refused leaves the state alone.\<close>

fun qrun :: "('a \<Rightarrow> 's \<Rightarrow> 's option) \<Rightarrow> ('s \<Rightarrow> ('a \<times> 's) option) \<Rightarrow> 's \<Rightarrow> 'a qop list
    \<Rightarrow> 's \<times> 'a list \<times> 'a list" where
  "qrun put get s [] = (s, [], [])"
| "qrun put get s (Put a # ops) =
     (case put a s of
        None \<Rightarrow> qrun put get s ops
      | Some s' \<Rightarrow> (case qrun put get s' ops of (t, ins, outs) \<Rightarrow> (t, a # ins, outs)))"
| "qrun put get s (Get # ops) =
     (case get s of
        None \<Rightarrow> qrun put get s ops
      | Some (a, s') \<Rightarrow> (case qrun put get s' ops of (t, ins, outs) \<Rightarrow> (t, ins, a # outs)))"

locale bounded_fifo =
  fixes contents :: "'s \<Rightarrow> 'a list"
    and inv :: "'s \<Rightarrow> bool"
    and cap :: nat
    and put :: "'a \<Rightarrow> 's \<Rightarrow> 's option"
    and get :: "'s \<Rightarrow> ('a \<times> 's) option"
  assumes bounded: "inv s \<Longrightarrow> length (contents s) \<le> cap"
    and put_full: "inv s \<Longrightarrow> length (contents s) = cap \<Longrightarrow> put a s = None"
    and put_room: "inv s \<Longrightarrow> length (contents s) < cap \<Longrightarrow>
      \<exists>s'. put a s = Some s' \<and> inv s' \<and> contents s' = contents s @ [a]"
    and get_empty: "inv s \<Longrightarrow> contents s = [] \<Longrightarrow> get s = None"
    and get_item: "inv s \<Longrightarrow> contents s = a # as \<Longrightarrow>
      \<exists>s'. get s = Some (a, s') \<and> inv s' \<and> contents s' = as"
begin

lemma put_SomeD:
  assumes "inv s" "put a s = Some s'"
  shows "inv s'" "contents s' = contents s @ [a]"
proof -
  have "length (contents s) < cap"
    using assms bounded [of s] put_full [of s a] by (cases "length (contents s) = cap") auto
  with put_room [of s a] assms show "inv s'" "contents s' = contents s @ [a]" by auto
qed

lemma get_SomeD:
  assumes "inv s" "get s = Some (a, s')"
  shows "inv s'" "contents s = a # contents s'"
proof -
  obtain b bs where c: "contents s = b # bs"
    using assms get_empty [of s] by (cases "contents s") auto
  with get_item [of s b bs] assms show "inv s'" "contents s = a # contents s'" by auto
qed

text \<open>Nothing is lost, duplicated or reordered, whatever the interleaving of the two sides:
  what was there at the start followed by what was accepted is what was delivered followed by
  what is left.\<close>

lemma run_fifo:
  "inv s \<Longrightarrow> qrun put get s ops = (t, ins, outs) \<Longrightarrow>
   inv t \<and> contents s @ ins = outs @ contents t"
proof (induction ops arbitrary: s t ins outs)
  case Nil
  then show ?case by simp
next
  case (Cons op ops)
  show ?case
  proof (cases op)
    case (Put a)
    show ?thesis
    proof (cases "put a s")
      case None
      with Cons Put show ?thesis by simp
    next
      case (Some s')
      obtain t' ins' outs' where r: "qrun put get s' ops = (t', ins', outs')"
        by (metis prod_cases3)
      with Cons.prems Put Some have eq: "t = t'" "ins = a # ins'" "outs = outs'" by auto
      from put_SomeD [OF Cons.prems(1) Some] Cons.IH [OF _ r] eq show ?thesis by simp
    qed
  next
    case Get
    show ?thesis
    proof (cases "get s")
      case None
      with Cons Get show ?thesis by simp
    next
      case (Some p)
      then obtain a s' where p: "get s = Some (a, s')" by (cases p) auto
      obtain t' ins' outs' where r: "qrun put get s' ops = (t', ins', outs')"
        by (metis prod_cases3)
      with Cons.prems Get p have eq: "t = t'" "ins = ins'" "outs = a # outs'" by auto
      from get_SomeD [OF Cons.prems(1) p] Cons.IH [OF _ r] eq show ?thesis by simp
    qed
  qed
qed

lemma put_accepted_iff: "inv s \<Longrightarrow> put a s \<noteq> None \<longleftrightarrow> length (contents s) < cap"
  using bounded [of s] put_full [of s a] put_room [of s a]
  by (cases "length (contents s) = cap") auto

lemma get_served_iff: "inv s \<Longrightarrow> get s \<noteq> None \<longleftrightarrow> contents s \<noteq> []"
  using get_empty [of s] get_item [of s] by (cases "contents s") auto

end

section \<open>Tables of slots\<close>

locale slot_table =
  fixes slot_free :: "'s \<Rightarrow> nat \<Rightarrow> bool"
    and slots :: nat
    and claim :: "'s \<Rightarrow> (nat \<times> 's) option"
  assumes claim_from: "claim s = Some (i, s') \<Longrightarrow> i < slots \<and> slot_free s i"
    and claim_takes: "claim s = Some (i, s') \<Longrightarrow> \<not> slot_free s' i"
    and claim_frame: "claim s = Some (i, s') \<Longrightarrow> j \<noteq> i \<Longrightarrow> slot_free s' j = slot_free s j"
    and claim_full: "claim s = None \<Longrightarrow> i < slots \<Longrightarrow> \<not> slot_free s i"
begin

lemma free_count_less:
  assumes "claim s = Some (i, s')"
  shows "card {j. j < slots \<and> slot_free s j} = Suc (card {j. j < slots \<and> slot_free s' j})"
proof -
  let ?A = "{j. j < slots \<and> slot_free s j}" and ?B = "{j. j < slots \<and> slot_free s' j}"
  have i: "i < slots" "slot_free s i" "\<not> slot_free s' i"
    using assms claim_from claim_takes by blast+
  have "?A = insert i ?B"
    using i claim_frame [OF assms] by (auto simp: set_eq_iff) metis+
  moreover have "i \<notin> ?B" using i by simp
  ultimately show ?thesis by simp
qed

lemma claim_succeeds_iff: "claim s \<noteq> None \<longleftrightarrow> (\<exists>i. i < slots \<and> slot_free s i)"
  using claim_full [of s] claim_from [of s] by (cases "claim s") auto

lemma claims_distinct:
  assumes "claim s = Some (i, s')" "claim s' = Some (j, s'')"
  shows "i \<noteq> j"
  using assms claim_takes claim_from by blast

end

section \<open>Pools of resources\<close>

datatype pool_op = Take | Give nat

text \<open>A client that keeps what it takes and gives back the n-th thing it holds.\<close>

fun pool_run :: "('s \<Rightarrow> ('p \<times> 's) option) \<Rightarrow> ('p \<Rightarrow> 's \<Rightarrow> 's) \<Rightarrow> 's \<Rightarrow> 'p list \<Rightarrow> pool_op list
    \<Rightarrow> 's \<times> 'p list" where
  "pool_run tk gv s held [] = (s, held)"
| "pool_run tk gv s held (Take # ops) =
     (case tk s of None \<Rightarrow> pool_run tk gv s held ops
      | Some (p, s') \<Rightarrow> pool_run tk gv s' (p # held) ops)"
| "pool_run tk gv s held (Give n # ops) =
     (if n < length held
      then pool_run tk gv (gv (held ! n) s) (take n held @ drop (Suc n) held) ops
      else pool_run tk gv s held ops)"

locale page_pool =
  fixes avail :: "'s \<Rightarrow> 'p set"
    and inv :: "'s \<Rightarrow> bool"
    and legal :: "'p \<Rightarrow> bool"
    and tk :: "'s \<Rightarrow> ('p \<times> 's) option"
    and gv :: "'p \<Rightarrow> 's \<Rightarrow> 's"
  assumes legal_avail: "inv s \<Longrightarrow> p \<in> avail s \<Longrightarrow> legal p"
    and tk_none: "inv s \<Longrightarrow> tk s = None \<longleftrightarrow> avail s = {}"
    and tk_some: "inv s \<Longrightarrow> tk s = Some (p, s') \<Longrightarrow>
      inv s' \<and> p \<in> avail s \<and> avail s' = avail s - {p}"
    and gv_back: "inv s \<Longrightarrow> legal p \<Longrightarrow> p \<notin> avail s \<Longrightarrow>
      inv (gv p s) \<and> avail (gv p s) = insert p (avail s)"
begin

text \<open>No resource is ever held twice or both held and available, and none is lost.\<close>

lemma run_exclusive:
  "\<lbrakk>inv s; distinct held; set held \<inter> avail s = {}; \<forall>p\<in>set held. legal p;
    pool_run tk gv s held ops = (s', held')\<rbrakk> \<Longrightarrow>
   inv s' \<and> distinct held' \<and> set held' \<inter> avail s' = {} \<and>
   set held' \<union> avail s' = set held \<union> avail s"
proof (induction ops arbitrary: s held)
  case Nil
  then show ?case by simp
next
  case (Cons op ops)
  show ?case
  proof (cases op)
    case Take
    show ?thesis
    proof (cases "tk s")
      case None
      with Cons.prems Take have r: "pool_run tk gv s held ops = (s', held')" by simp
      show ?thesis by (rule Cons.IH [OF Cons.prems(1-4) r])
    next
      case (Some q)
      then obtain p t where q: "tk s = Some (p, t)" by (cases q) auto
      note t = tk_some [OF Cons.prems(1) q]
      have lp: "legal p" using t legal_avail Cons.prems(1) by blast
      have r: "pool_run tk gv t (p # held) ops = (s', held')" using Cons.prems(5) Take q by simp
      have "inv s' \<and> distinct held' \<and> set held' \<inter> avail s' = {} \<and>
          set held' \<union> avail s' = set (p # held) \<union> avail t"
        using t Cons.prems lp by (intro Cons.IH [OF _ _ _ _ r]) auto
      with t show ?thesis by auto
    qed
  next
    case (Give n)
    show ?thesis
    proof (cases "n < length held")
      case False
      with Cons.prems Give have r: "pool_run tk gv s held ops = (s', held')" by simp
      show ?thesis by (rule Cons.IH [OF Cons.prems(1-4) r])
    next
      case True
      let ?p = "held ! n" and ?h = "take n held @ drop (Suc n) held"
      have held: "held = take n held @ ?p # drop (Suc n) held"
        by (rule id_take_nth_drop [OF True])
      have "set held = set (take n held @ ?p # drop (Suc n) held)"
        using held by (rule arg_cong)
      then have setp: "set held = insert ?p (set ?h)" by simp
      have "distinct (take n held @ ?p # drop (Suc n) held)"
        using Cons.prems(2) held by metis
      then have dist: "distinct ?h" "?p \<notin> set ?h" by auto
      have p: "legal ?p" "?p \<notin> avail s"
        using Cons.prems(3,4) nth_mem [OF True] by (blast, blast)
      note g = gv_back [OF Cons.prems(1) p]
      have r: "pool_run tk gv (gv ?p s) ?h ops = (s', held')"
        using Cons.prems(5) Give True by simp
      have "inv s' \<and> distinct held' \<and> set held' \<inter> avail s' = {} \<and>
          set held' \<union> avail s' = set ?h \<union> avail (gv ?p s)"
        using g dist Cons.prems setp by (intro Cons.IH [OF _ _ _ _ r]) auto
      with g setp show ?thesis by auto
    qed
  qed
qed

end

end
