(* ===== verification/Kalloc.thy ===== *)
theory Kalloc
  imports Layout Interfaces
begin

text \<open>
  The physical page allocator (\<open>kernel/kalloc.c\<close>).  Free pages are chained through their own
  first word, as in the code: \<open>store\<close> is the kernel's memory, read and written by 32-bit words
  at kernel virtual addresses, and \<open>freelist\<close> is the head pointer (0 for none).  The symbol
  \<open>end\<close> of the linker script is the parameter \<open>kend\<close>.  The critical sections under
  \<open>kmem.lock\<close> are single transitions.
\<close>

record kmem =
  use_lock :: bool
  freelist :: uint
  store :: "uint \<Rightarrow> uint"

definition junk_fill :: "(uint \<Rightarrow> uint) \<Rightarrow> uint \<Rightarrow> (uint \<Rightarrow> uint)" where
  "junk_fill st v = (\<lambda>a. if a - v < PGSIZE then 0x01010101 else st a)"

definition kfree :: "uint \<Rightarrow> uint \<Rightarrow> kmem \<Rightarrow> kmem kres" where
  "kfree kend v k =
     (if v mod PGSIZE \<noteq> 0 \<or> v < kend \<or> V2P v \<ge> PHYSTOP then Panic ''kfree''
      else Ok (k\<lparr>store := (junk_fill (store k) v)(v := freelist k), freelist := v\<rparr>))"

definition kalloc :: "kmem \<Rightarrow> uint \<times> kmem" where
  "kalloc k =
     (let r = freelist k
      in (r, if r \<noteq> 0 then k\<lparr>freelist := store k r\<rparr> else k))"

function freerange_loop :: "uint \<Rightarrow> nat \<Rightarrow> nat \<Rightarrow> kmem \<Rightarrow> kmem kres" where
  "freerange_loop kend p vend k =
     (if p + 4096 \<le> vend
      then (case kfree kend (word_of_nat p) k of
              Ok k' \<Rightarrow> freerange_loop kend (p + 4096) vend k'
            | Panic m \<Rightarrow> Panic m
            | Blocked c \<Rightarrow> Blocked c)
      else Ok k)"
  by pat_completeness auto
termination
  by (relation "measure (\<lambda>(kend, p, vend, k). vend - p)") auto

declare freerange_loop.simps [simp del]

definition freerange :: "uint \<Rightarrow> uint \<Rightarrow> uint \<Rightarrow> kmem \<Rightarrow> kmem kres" where
  "freerange kend vstart vend k =
     freerange_loop kend (unat (PGROUNDUP vstart)) (unat vend) k"

definition kinit1 :: "uint \<Rightarrow> uint \<Rightarrow> uint \<Rightarrow> kmem \<Rightarrow> kmem kres" where
  "kinit1 kend vstart vend k = freerange kend vstart vend (k\<lparr>use_lock := False\<rparr>)"

definition kinit2 :: "uint \<Rightarrow> uint \<Rightarrow> uint \<Rightarrow> kmem \<Rightarrow> kmem kres" where
  "kinit2 kend vstart vend k =
     kbind (freerange kend vstart vend k) (\<lambda>k'. Ok (k'\<lparr>use_lock := True\<rparr>))"

subsection \<open>The free list as a set of pages\<close>

inductive on_freelist :: "(uint \<Rightarrow> uint) \<Rightarrow> uint \<Rightarrow> uint \<Rightarrow> bool" for st where
  at_head: "h \<noteq> 0 \<Longrightarrow> on_freelist st h h"
| further: "h \<noteq> 0 \<Longrightarrow> on_freelist st (st h) p \<Longrightarrow> on_freelist st h p"

inductive_simps on_freelist_unfold: "on_freelist st h p"

fun chain :: "(uint \<Rightarrow> uint) \<Rightarrow> uint \<Rightarrow> uint list \<Rightarrow> bool" where
  "chain st h [] \<longleftrightarrow> h = 0"
| "chain st h (x # xs) \<longleftrightarrow> h = x \<and> x \<noteq> 0 \<and> chain st (st x) xs"

definition free_pages :: "kmem \<Rightarrow> uint set" where
  "free_pages k = {p. on_freelist (store k) (freelist k) p}"

definition legal_page :: "uint \<Rightarrow> uint \<Rightarrow> bool" where
  "legal_page kend p \<longleftrightarrow> p mod PGSIZE = 0 \<and> kend \<le> p \<and> V2P p < PHYSTOP"

definition kmem_inv :: "uint \<Rightarrow> kmem \<Rightarrow> bool" where
  "kmem_inv kend k \<longleftrightarrow>
     (\<exists>xs. chain (store k) (freelist k) xs \<and> distinct xs \<and> (\<forall>x\<in>set xs. legal_page kend x))"

lemma on_freelist_null: "\<not> on_freelist st 0 p"
  by (subst on_freelist_unfold) simp

lemma on_freelist_chain: "chain st h xs \<Longrightarrow> on_freelist st h p \<longleftrightarrow> p \<in> set xs"
proof (induction xs arbitrary: h)
  case Nil
  then show ?case by (simp add: on_freelist_null)
next
  case (Cons x xs)
  then show ?case by (subst on_freelist_unfold) auto
qed

lemma free_pages_chain: "chain (store k) (freelist k) xs \<Longrightarrow> free_pages k = set xs"
  by (auto simp: free_pages_def on_freelist_chain)

lemma chain_cong: "(\<And>x. x \<in> set xs \<Longrightarrow> st x = st' x) \<Longrightarrow> chain st h xs = chain st' h xs"
  by (induction xs arbitrary: h) auto

lemma legal_page_nonzero: "legal_page kend p \<Longrightarrow> p \<noteq> 0"
  by (auto simp: legal_page_def V2P_def)

lemma page_aligned_unat: "v mod PGSIZE = 0 \<Longrightarrow> unat v mod 4096 = 0"
  by (drule arg_cong [where f = unat]) (simp add: unat_mod)

lemma unat_page_aligned: "unat v mod 4096 = 0 \<Longrightarrow> v mod PGSIZE = 0"
  by (simp add: word_unat_eq_iff unat_mod)

lemma pages_apart:
  assumes "a mod PGSIZE = 0" "v mod PGSIZE = 0" "a \<noteq> v"
  shows "\<not> a - v < PGSIZE"
proof
  assume lt: "a - v < PGSIZE"
  have al: "unat a mod 4096 = 0" "unat v mod 4096 = 0"
    using assms(1,2) by (simp_all add: page_aligned_unat)
  have "unat (a - v) < 4096" using lt by (simp add: word_less_nat_alt)
  moreover have "unat (a - v) = (if unat v \<le> unat a then unat a - unat v else unat a + 2 ^ 32 - unat v)"
    by (simp add: unat_sub_if_size word_size)
  moreover have "(unat a + 2 ^ 32 - unat v) mod 4096 = 0"
    using al unat_uint_less [of v] by (auto simp: mod_eq_0_iff_dvd intro!: dvd_diff_nat dvd_add)
  moreover have "(unat a - unat v) mod 4096 = 0"
    using al by (auto simp: mod_eq_0_iff_dvd intro!: dvd_diff_nat)
  ultimately have "unat (a - v) = 0" by (metis mod_less)
  then have "a = v" by (simp add: unat_eq_0)
  with assms(3) show False ..
qed

lemma kfree_legal:
  "kfree kend v k =
     (if legal_page kend v
      then Ok (k\<lparr>store := (junk_fill (store k) v)(v := freelist k), freelist := v\<rparr>)
      else Panic ''kfree'')"
  by (auto simp: kfree_def legal_page_def)

lemma kfree_inv:
  assumes "kmem_inv kend k" "legal_page kend v" "v \<notin> free_pages k"
  obtains k' where "kfree kend v k = Ok k'" "kmem_inv kend k'"
    "free_pages k' = insert v (free_pages k)" "use_lock k' = use_lock k"
proof -
  from assms(1) obtain xs where xs: "chain (store k) (freelist k) xs" "distinct xs"
    "\<forall>x\<in>set xs. legal_page kend x" by (auto simp: kmem_inv_def)
  with assms(3) have v: "v \<notin> set xs" by (simp add: free_pages_chain)
  let ?st = "(junk_fill (store k) v)(v := freelist k)"
  let ?k = "k\<lparr>store := ?st, freelist := v\<rparr>"
  have "?st x = store k x" if "x \<in> set xs" for x
  proof -
    have "x \<noteq> v" using that v by auto
    moreover have "\<not> x - v < PGSIZE"
      using that v xs(3) assms(2) by (intro pages_apart) (auto simp: legal_page_def)
    ultimately show ?thesis by (simp add: junk_fill_def)
  qed
  then have c: "chain ?st v (v # xs)"
    using xs(1) legal_page_nonzero [OF assms(2)] chain_cong [of xs "store k" ?st "freelist k"] by auto
  then have c: "chain (store ?k) (freelist ?k) (v # xs)" by simp
  have "free_pages ?k = insert v (free_pages k)"
    by (simp only: free_pages_chain [OF c] free_pages_chain [OF xs(1)]) simp
  moreover have "kmem_inv kend ?k"
    unfolding kmem_inv_def using xs v assms(2) c by (intro exI [of _ "v # xs"]) auto
  ultimately have "kmem_inv kend ?k" "free_pages ?k = insert v (free_pages k)" by auto
  with assms(2) that [of ?k] show thesis by (simp add: kfree_legal)
qed

lemma kalloc_some:
  assumes "kmem_inv kend k" "kalloc k = (p, k')" "p \<noteq> 0"
  shows "kmem_inv kend k'" "p \<in> free_pages k" "free_pages k' = free_pages k - {p}"
    "legal_page kend p"
proof -
  from assms(1) obtain xs where xs: "chain (store k) (freelist k) xs" "distinct xs"
    "\<forall>x\<in>set xs. legal_page kend x" by (auto simp: kmem_inv_def)
  from assms(2,3) have p: "p = freelist k" "k' = k\<lparr>freelist := store k p\<rparr>"
    by (auto simp: kalloc_def Let_def split: if_splits)
  with xs(1) assms(3) obtain ys where ys: "xs = p # ys" "chain (store k) (store k p) ys"
    by (cases xs) auto
  then have c: "chain (store k') (freelist k') ys" using p by simp
  show "kmem_inv kend k'" "legal_page kend p"
    using xs ys c by (auto simp: kmem_inv_def)
  show "p \<in> free_pages k" "free_pages k' = free_pages k - {p}"
    using xs(2) ys(1) by (simp_all only: free_pages_chain [OF c] free_pages_chain [OF xs(1)]) auto
qed

lemma kalloc_none:
  assumes "kmem_inv kend k" "kalloc k = (0, k')"
  shows "free_pages k = {}" "k' = k"
  using assms by (auto simp: kalloc_def Let_def free_pages_def on_freelist_null split: if_splits)

lemma free_pages_legal: "kmem_inv kend k \<Longrightarrow> p \<in> free_pages k \<Longrightarrow> legal_page kend p"
  by (auto simp: kmem_inv_def free_pages_chain)

subsection \<open>The allocator as a page pool\<close>

definition take_page :: "kmem \<Rightarrow> (uint \<times> kmem) option" where
  "take_page k = (case kalloc k of (p, k') \<Rightarrow> if p = 0 then None else Some (p, k'))"

definition give_page :: "uint \<Rightarrow> uint \<Rightarrow> kmem \<Rightarrow> kmem" where
  "give_page kend p k = (case kfree kend p k of Ok k' \<Rightarrow> k' | _ \<Rightarrow> k)"

interpretation pages: page_pool free_pages "kmem_inv kend" "legal_page kend" take_page "give_page kend"
  for kend
proof unfold_locales
  fix k p k'
  assume inv: "kmem_inv kend k"
  show "legal_page kend p" if "p \<in> free_pages k" using inv that by (rule free_pages_legal)
  show "take_page k = None \<longleftrightarrow> free_pages k = {}"
  proof (cases "kalloc k")
    case (Pair q k')
    show ?thesis
    proof (cases "q = 0")
      case True
      with Pair kalloc_none [OF inv] show ?thesis by (simp add: take_page_def)
    next
      case False
      with kalloc_some(2) [OF inv Pair False] Pair show ?thesis by (auto simp: take_page_def)
    qed
  qed
  show "kmem_inv kend k' \<and> p \<in> free_pages k \<and> free_pages k' = free_pages k - {p}"
    if "take_page k = Some (p, k')"
    using that kalloc_some [OF inv, of p k'] by (auto simp: take_page_def split: prod.splits if_splits)
  show "kmem_inv kend (give_page kend p k) \<and> free_pages (give_page kend p k) = insert p (free_pages k)"
    if legal: "legal_page kend p" "p \<notin> free_pages k"
  proof -
    obtain k' where "kfree kend p k = Ok k'" "kmem_inv kend k'"
      "free_pages k' = insert p (free_pages k)"
      by (rule kfree_inv [OF inv legal])
    then show ?thesis by (simp add: give_page_def)
  qed
qed

subsection \<open>Handing a range of memory to the allocator\<close>

definition pages_between :: "nat \<Rightarrow> nat \<Rightarrow> uint set" where
  "pages_between p vend = {q. q mod PGSIZE = 0 \<and> p \<le> unat q \<and> unat q + 4096 \<le> vend}"

lemma pages_between_step:
  assumes "p mod 4096 = 0" "p + 4096 \<le> vend" "vend < 2 ^ 32"
  shows "pages_between p vend = insert (word_of_nat p) (pages_between (p + 4096) vend)"
    and "unat (word_of_nat p :: uint) = p"
proof -
  show u: "unat (word_of_nat p :: uint) = p"
    using assms by (simp add: unat_of_nat take_bit_eq_mod)
  have "q = word_of_nat p \<or> p + 4096 \<le> unat q"
    if "q mod PGSIZE = 0" "p \<le> unat q" for q :: uint
  proof -
    have "unat q mod 4096 = 0" using that(1) by (rule page_aligned_unat)
    with that(2) assms(1) have "unat q = p \<or> p + 4096 \<le> unat q"
      by (auto elim!: dvdE simp: mod_eq_0_iff_dvd)
    then show ?thesis using u by (simp add: word_unat_eq_iff)
  qed
  moreover have "(word_of_nat p :: uint) mod PGSIZE = 0"
    using assms(1) u by (intro unat_page_aligned) simp
  ultimately show "pages_between p vend = insert (word_of_nat p) (pages_between (p + 4096) vend)"
    unfolding pages_between_def set_eq_iff insert_iff mem_Collect_eq
    using assms(2) u by (intro allI) (metis add_leD1 order_refl)
qed

lemma freerange_loop_pages:
  "\<lbrakk>kmem_inv kend k; p mod 4096 = 0; vend < 2 ^ 32;
    \<forall>q\<in>pages_between p vend. legal_page kend q \<and> q \<notin> free_pages k\<rbrakk> \<Longrightarrow>
   \<exists>k'. freerange_loop kend p vend k = Ok k' \<and> kmem_inv kend k' \<and>
     free_pages k' = free_pages k \<union> pages_between p vend"
proof (induction kend p vend k rule: freerange_loop.induct)
  case (1 kend p vend k)
  show ?case
  proof (cases "p + 4096 \<le> vend")
    case False
    then have "pages_between p vend = {}" by (auto simp: pages_between_def)
    with False 1(2) show ?thesis by (simp add: freerange_loop.simps [of kend p])
  next
    case True
    note step = pages_between_step [OF 1(3) True 1(4)]
    let ?q = "word_of_nat p :: uint"
    have "legal_page kend ?q" "?q \<notin> free_pages k" using 1(5) step by auto
    then obtain k1 where k1: "kfree kend ?q k = Ok k1" "kmem_inv kend k1"
      "free_pages k1 = insert ?q (free_pages k)"
      using kfree_inv [OF 1(2)] by metis
    have "?q \<notin> pages_between (p + 4096) vend"
      using step(2) by (simp add: pages_between_def)
    then have "\<forall>q\<in>pages_between (p + 4096) vend. legal_page kend q \<and> q \<notin> free_pages k1"
      using 1(5) step(1) k1(3) by auto
    with 1(1) [OF True k1(1) k1(2) _ 1(4)] 1(3) obtain k2 where
      "freerange_loop kend (p + 4096) vend k1 = Ok k2" "kmem_inv kend k2"
      "free_pages k2 = free_pages k1 \<union> pages_between (p + 4096) vend" by auto
    with True k1 step(1) show ?thesis by (simp add: freerange_loop.simps [of kend p])
  qed
qed

subsection \<open>Properties\<close>

text \<open>C2: Page ownership is exclusive.  Starting from a well-formed free list, whatever sequence
  of \<open>kalloc\<close> and \<open>kfree\<close> calls runs, as long as only held pages are freed, no page is handed
  out twice, no page is both held and free, and no page is lost.\<close>

theorem page_ownership_exclusive:
  assumes "kmem_inv kend k" "distinct held" "set held \<inter> free_pages k = {}"
    and "\<forall>p\<in>set held. legal_page kend p"
    and "pool_run take_page (give_page kend) k held ops = (k', held')"
  shows "kmem_inv kend k' \<and> distinct held' \<and> set held' \<inter> free_pages k' = {} \<and>
    set held' \<union> free_pages k' = set held \<union> free_pages k"
  using assms by (rule pages.run_exclusive)

text \<open>\<open>freerange\<close> (and so \<open>kinit1\<close> and \<open>kinit2\<close>) makes available exactly the page-aligned
  addresses whose whole page lies between \<open>vstart\<close>, rounded up, and \<open>vend\<close>, and never panics when
  these pages are above the kernel image and below the end of physical memory.\<close>

theorem freerange_exact:
  assumes "kmem_inv kend k" and "unat vstart + 4095 < 2 ^ 32"
    and "\<forall>q. q mod PGSIZE = 0 \<and> vstart \<le> q \<and> unat q + 4096 \<le> unat vend \<longrightarrow>
      legal_page kend q \<and> q \<notin> free_pages k"
  shows "\<exists>k'. freerange kend vstart vend k = Ok k' \<and> kmem_inv kend k' \<and>
    free_pages k' = free_pages k \<union>
      {q. q mod PGSIZE = 0 \<and> vstart \<le> q \<and> unat q + 4096 \<le> unat vend}"
proof -
  have up: "unat (PGROUNDUP vstart) = (unat vstart + 4095) div 4096 * 4096"
    using assms(2) by (rule unat_PGROUNDUP)
  have "(unat vstart + 4095) div 4096 * 4096 \<le> unat q \<longleftrightarrow> unat vstart \<le> unat q"
    if "q mod PGSIZE = 0" for q
  proof -
    have "unat q mod 4096 = 0" using that by (rule page_aligned_unat)
    then obtain k where k: "unat q = 4096 * k" by (metis dvd_def mod_eq_0_iff_dvd)
    have "(unat vstart + 4095) div 4096 \<le> k \<longleftrightarrow> (unat vstart + 4095) div 4096 < k + 1" by linarith
    also have "\<dots> \<longleftrightarrow> unat vstart + 4095 < (k + 1) * 4096" by (simp only: div_less_iff_less_mult)
    finally show ?thesis by (auto simp: k)
  qed
  then have eq: "pages_between (unat (PGROUNDUP vstart)) (unat vend) =
      {q. q mod PGSIZE = 0 \<and> vstart \<le> q \<and> unat q + 4096 \<le> unat vend}"
    unfolding pages_between_def up word_le_nat_alt set_eq_iff mem_Collect_eq by metis
  have al: "unat (PGROUNDUP vstart) mod 4096 = 0" by (simp add: up)
  have lt: "unat vend < 2 ^ 32" using unat_uint_less [of vend] by simp
  have "\<forall>q\<in>pages_between (unat (PGROUNDUP vstart)) (unat vend). legal_page kend q \<and> q \<notin> free_pages k"
    unfolding eq by (rule ballI, drule CollectD, rule assms(3) [rule_format])
  from freerange_loop_pages [OF assms(1) al lt this] show ?thesis
    unfolding freerange_def eq [symmetric] .
qed

lemma empty_kmem_inv: "kmem_inv kend \<lparr>use_lock = b, freelist = 0, store = st\<rparr>"
  by (auto simp: kmem_inv_def intro: exI [of _ "[]"])

lemma empty_free_pages: "free_pages \<lparr>use_lock = b, freelist = 0, store = st\<rparr> = {}"
  by (simp add: free_pages_def on_freelist_null)

theorem page_ownership_exclusive_witness:
  "\<exists>k'. pool_run take_page (give_page 0x80110000)
      \<lparr>use_lock = True, freelist = 0, store = (\<lambda>_. 0)\<rparr> [0x80400000] [Give 0, Take, Take] =
      (k', [0x80400000]) \<and> kmem_inv 0x80110000 k' \<and> free_pages k' = {}"
proof -
  let ?k = "\<lparr>use_lock = True, freelist = 0, store = (\<lambda>_. 0)\<rparr> :: kmem"
  let ?r = "pool_run take_page (give_page 0x80110000) ?k [0x80400000] [Give 0, Take, Take]"
  obtain k' where r: "?r = (k', [0x80400000])"
    by (simp add: give_page_def take_page_def kalloc_def kfree_def V2P_def)
  have "legal_page 0x80110000 0x80400000" by (simp add: legal_page_def V2P_def)
  with page_ownership_exclusive [OF empty_kmem_inv _ _ _ r]
  have "kmem_inv 0x80110000 k'" "set [0x80400000] \<inter> free_pages k' = {}"
    "set [0x80400000] \<union> free_pages k' = {0x80400000}"
    by (simp_all add: empty_free_pages)
  with r show ?thesis by auto
qed

theorem freerange_exact_witness:
  "\<exists>k'. freerange 0x80110000 0x80400001 0x80402fff \<lparr>use_lock = True, freelist = 0, store = (\<lambda>_. 0)\<rparr> = Ok k'
    \<and> 0x80401000 \<in> free_pages k'"
proof -
  have "legal_page 0x80110000 q" if "0x80400001 \<le> q" "unat q + 4096 \<le> unat (0x80402fff :: uint)" "q mod PGSIZE = 0"
    for q :: uint
    using that by (auto simp: legal_page_def V2P_def word_le_nat_alt word_less_nat_alt unat_sub_if_size word_size)
  with freerange_exact [OF empty_kmem_inv [of "0x80110000" True "\<lambda>_. 0"],
      of "0x80400001" "0x80402fff"]
  show ?thesis by (auto simp: empty_free_pages)
qed

end
