(* ===== verification/Spinlock.thy ===== *)
theory Spinlock
  imports Prelude
begin

text \<open>
  Spin locks (\<open>kernel/spinlock.c\<close>) and sleep locks (\<open>kernel/sleeplock.c\<close>).

  The first part models the C functions on one CPU's state and one lock.  The second part
  interleaves any number of CPUs at the granularity of the individual memory operations of
  \<open>acquire\<close> and \<open>release\<close> (the atomic \<open>xchg\<close>, the store of the owner, the store of 0), each
  step using the functions of the first part, and shows mutual exclusion.  It is what justifies
  treating a critical section as one transition everywhere else in the development.
\<close>

subsection \<open>Interrupt nesting and lock ownership\<close>

text \<open>The fields of \<open>struct cpu\<close> the locks use, with the CPU's interrupt-enable flag.\<close>

record cpu =
  ncli :: int
  intena :: bool
  if_flag :: bool

record spinlock =
  lk_locked :: bool
  lk_cpu :: "nat option"

definition initlock :: "spinlock" where
  "initlock = \<lparr>lk_locked = False, lk_cpu = None\<rparr>"

definition pushcli :: "cpu \<Rightarrow> cpu" where
  "pushcli c =
     (let eflags = if_flag c;
          c = c\<lparr>if_flag := False\<rparr>;
          c = (if ncli c = 0 then c\<lparr>intena := eflags\<rparr> else c)
      in c\<lparr>ncli := ncli c + 1\<rparr>)"

definition popcli :: "cpu \<Rightarrow> cpu kres" where
  "popcli c =
     (if if_flag c then Panic ''popcli - interruptible''
      else let c = c\<lparr>ncli := ncli c - 1\<rparr>
           in if ncli c < 0 then Panic ''popcli''
              else if ncli c = 0 \<and> intena c then Ok (c\<lparr>if_flag := True\<rparr>)
              else Ok c)"

definition holding :: "nat \<Rightarrow> cpu \<Rightarrow> spinlock \<Rightarrow> (bool \<times> cpu) kres" where
  "holding i c lk =
     (let c = pushcli c; r = (lk_locked lk \<and> lk_cpu lk = Some i)
      in kbind (popcli c) (\<lambda>c. Ok (r, c)))"

text \<open>One execution of \<open>xchg(&lk->locked, 1)\<close>: the old value and the new lock.\<close>

definition xchg_locked :: "spinlock \<Rightarrow> bool \<times> spinlock" where
  "xchg_locked lk = (lk_locked lk, lk\<lparr>lk_locked := True\<rparr>)"

definition acquire_begin :: "nat \<Rightarrow> cpu \<Rightarrow> spinlock \<Rightarrow> cpu kres" where
  "acquire_begin i c lk =
     (let c = pushcli c
      in kbind (holding i c lk) (\<lambda>(r, c). if r then Panic ''acquire'' else Ok c))"

text \<open>\<open>acquire\<close> run without interference: it spins for ever when another CPU owns the lock.\<close>

definition acquire :: "nat \<Rightarrow> cpu \<Rightarrow> spinlock \<Rightarrow> (cpu \<times> spinlock) kres" where
  "acquire i c lk =
     kbind (acquire_begin i c lk) (\<lambda>c.
       case xchg_locked lk of
         (old, lk) \<Rightarrow> if old then Blocked ''spin'' else Ok (c, lk\<lparr>lk_cpu := Some i\<rparr>))"

definition release_begin :: "nat \<Rightarrow> cpu \<Rightarrow> spinlock \<Rightarrow> (cpu \<times> spinlock) kres" where
  "release_begin i c lk =
     kbind (holding i c lk) (\<lambda>(r, c).
       if \<not> r then Panic ''release'' else Ok (c, lk\<lparr>lk_cpu := None\<rparr>))"

definition release_end :: "cpu \<Rightarrow> spinlock \<Rightarrow> (cpu \<times> spinlock) kres" where
  "release_end c lk =
     (let lk = lk\<lparr>lk_locked := False\<rparr> in kbind (popcli c) (\<lambda>c. Ok (c, lk)))"

definition release :: "nat \<Rightarrow> cpu \<Rightarrow> spinlock \<Rightarrow> (cpu \<times> spinlock) kres" where
  "release i c lk = kbind (release_begin i c lk) (\<lambda>(c, lk). release_end c lk)"

subsection \<open>Sleep locks\<close>

record sleeplock =
  sl_locked :: bool
  sl_pid :: int

definition initsleeplock :: sleeplock where
  "initsleeplock = \<lparr>sl_locked = False, sl_pid = 0\<rparr>"

definition acquiresleep :: "int \<Rightarrow> sleeplock \<Rightarrow> sleeplock kres" where
  "acquiresleep pid lk =
     (if sl_locked lk then Blocked ''sleeplock''
      else Ok (lk\<lparr>sl_locked := True, sl_pid := pid\<rparr>))"

definition releasesleep :: "sleeplock \<Rightarrow> sleeplock" where
  "releasesleep lk = lk\<lparr>sl_locked := False, sl_pid := 0\<rparr>"

definition holdingsleep :: "int \<Rightarrow> sleeplock \<Rightarrow> bool" where
  "holdingsleep pid lk \<longleftrightarrow> sl_locked lk \<and> sl_pid lk = pid"

lemma acquiresleep_holding: "acquiresleep pid lk = Ok lk' \<Longrightarrow> holdingsleep pid lk'"
  by (auto simp: acquiresleep_def holdingsleep_def split: if_splits)

lemma releasesleep_free: "\<not> sl_locked (releasesleep lk)"
  by (simp add: releasesleep_def)

subsection \<open>Laws of the single-CPU functions\<close>

lemma pushcli_simps [simp]:
  "ncli (pushcli c) = ncli c + 1" "if_flag (pushcli c) = False"
  "intena (pushcli c) = (if ncli c = 0 then if_flag c else intena c)"
  by (simp_all add: pushcli_def Let_def)

lemma holding_nested:
  assumes "0 < ncli c" "\<not> if_flag c"
  shows "holding i c lk = Ok (lk_locked lk \<and> lk_cpu lk = Some i, c)"
  using assms by (cases c) (auto simp: holding_def popcli_def pushcli_def Let_def)

lemma acquire_begin_eq:
  assumes "0 \<le> ncli c" "\<not> (lk_locked lk \<and> lk_cpu lk = Some i)"
  shows "acquire_begin i c lk = Ok (pushcli c)"
  using assms by (auto simp: acquire_begin_def Let_def holding_nested)

subsection \<open>Interleaving CPUs\<close>

text \<open>Where a CPU is: running, spinning on a lock, having won the \<open>xchg\<close> but not yet recorded
  itself as owner, or having cleared the owner but not yet stored 0.  \<open>crit\<close> is a ghost: the
  locks whose \<open>acquire\<close> has returned and whose \<open>release\<close> has not been called.\<close>

datatype lock_pc = Running | Spinning nat | Won nat | Releasing nat

record machine =
  cpus :: "nat \<Rightarrow> cpu"
  locks :: "nat \<Rightarrow> spinlock"
  pc :: "nat \<Rightarrow> lock_pc"
  crit :: "nat \<Rightarrow> nat set"

definition boot_machine :: machine where
  "boot_machine = \<lparr>cpus = (\<lambda>_. \<lparr>ncli = 0, intena = False, if_flag = False\<rparr>),
     locks = (\<lambda>_. initlock), pc = (\<lambda>_. Running), crit = (\<lambda>_. {})\<rparr>"

inductive lock_step :: "machine \<Rightarrow> machine \<Rightarrow> bool" where
  call_acquire:
    "\<lbrakk>pc s i = Running; acquire_begin i (cpus s i) (locks s l) = Ok c\<rbrakk> \<Longrightarrow>
     lock_step s (s\<lparr>cpus := (cpus s)(i := c), pc := (pc s)(i := Spinning l)\<rparr>)"
| spin:
    "\<lbrakk>pc s i = Spinning l; xchg_locked (locks s l) = (True, lk)\<rbrakk> \<Longrightarrow>
     lock_step s (s\<lparr>locks := (locks s)(l := lk)\<rparr>)"
| win:
    "\<lbrakk>pc s i = Spinning l; xchg_locked (locks s l) = (False, lk)\<rbrakk> \<Longrightarrow>
     lock_step s (s\<lparr>locks := (locks s)(l := lk), pc := (pc s)(i := Won l)\<rparr>)"
| record_owner:
    "pc s i = Won l \<Longrightarrow>
     lock_step s (s\<lparr>locks := (locks s)(l := (locks s l)\<lparr>lk_cpu := Some i\<rparr>),
       pc := (pc s)(i := Running), crit := (crit s)(i := insert l (crit s i))\<rparr>)"
| call_release:
    "\<lbrakk>pc s i = Running; release_begin i (cpus s i) (locks s l) = Ok (c, lk)\<rbrakk> \<Longrightarrow>
     lock_step s (s\<lparr>cpus := (cpus s)(i := c), locks := (locks s)(l := lk),
       pc := (pc s)(i := Releasing l), crit := (crit s)(i := crit s i - {l})\<rparr>)"
| store_zero:
    "\<lbrakk>pc s i = Releasing l; release_end (cpus s i) (locks s l) = Ok (c, lk)\<rbrakk> \<Longrightarrow>
     lock_step s (s\<lparr>cpus := (cpus s)(i := c), locks := (locks s)(l := lk),
       pc := (pc s)(i := Running)\<rparr>)"
| interrupts:
    "\<lbrakk>pc s i = Running; ncli (cpus s i) = 0\<rbrakk> \<Longrightarrow>
     lock_step s (s\<lparr>cpus := (cpus s)(i := (cpus s i)\<lparr>if_flag := b\<rparr>)\<rparr>)"

inductive lock_reachable :: "machine \<Rightarrow> bool" where
  boot: "lock_reachable boot_machine"
| more: "lock_reachable s \<Longrightarrow> lock_step s t \<Longrightarrow> lock_reachable t"

subsection \<open>The invariant\<close>

definition owns :: "machine \<Rightarrow> nat \<Rightarrow> nat \<Rightarrow> bool" where
  "owns s l i \<longleftrightarrow> l \<in> crit s i \<or> pc s i = Won l \<or> pc s i = Releasing l"

definition busy :: "lock_pc \<Rightarrow> int" where
  "busy p = (if p = Running then 0 else 1)"

definition cpu_inv :: "machine \<Rightarrow> nat \<Rightarrow> bool" where
  "cpu_inv s i \<longleftrightarrow> finite (crit s i) \<and>
     ncli (cpus s i) = int (card (crit s i)) + busy (pc s i) \<and>
     (0 < ncli (cpus s i) \<longrightarrow> \<not> if_flag (cpus s i)) \<and>
     (\<forall>l. pc s i = Spinning l \<or> pc s i = Won l \<or> pc s i = Releasing l \<longrightarrow> l \<notin> crit s i)"

definition lock_inv :: "machine \<Rightarrow> nat \<Rightarrow> bool" where
  "lock_inv s l \<longleftrightarrow> (lk_locked (locks s l) \<longleftrightarrow> (\<exists>i. owns s l i)) \<and>
     (\<forall>i j. owns s l i \<longrightarrow> owns s l j \<longrightarrow> i = j) \<and>
     (\<forall>i. lk_cpu (locks s l) = Some i \<longleftrightarrow> l \<in> crit s i)"

definition machine_inv :: "machine \<Rightarrow> bool" where
  "machine_inv s \<longleftrightarrow> (\<forall>i. cpu_inv s i) \<and> (\<forall>l. lock_inv s l)"

lemma acquire_begin_OkD:
  assumes "acquire_begin i c lk = Ok c'" "0 \<le> ncli c"
  shows "c' = pushcli c" "\<not> (lk_locked lk \<and> lk_cpu lk = Some i)"
  using assms holding_nested [of "pushcli c" i lk]
  by (auto simp: acquire_begin_def Let_def split: if_splits)

lemma release_begin_OkD:
  assumes "release_begin i c lk = Ok (c', lk')" "0 < ncli c \<longrightarrow> \<not> if_flag c"
    "lk_cpu lk = Some i \<Longrightarrow> 0 < ncli c"
  shows "lk_locked lk" "lk_cpu lk = Some i" "lk' = lk\<lparr>lk_cpu := None\<rparr>" "c' = c"
proof -
  from assms(1) obtain cc where h: "holding i c lk = Ok (True, cc)" "lk' = lk\<lparr>lk_cpu := None\<rparr>" "c' = cc"
    by (auto simp: release_begin_def kres_simps split: if_splits)
  then show own: "lk_locked lk" "lk_cpu lk = Some i" "lk' = lk\<lparr>lk_cpu := None\<rparr>"
    by (auto simp: holding_def Let_def kres_simps)
  show "c' = c"
    using h assms(2,3) own holding_nested [of c i lk] by auto
qed

lemma release_end_OkD:
  assumes "release_end c lk = Ok (c', lk')"
  shows "lk' = lk\<lparr>lk_locked := False\<rparr>" "ncli c' = ncli c - 1"
    "0 < ncli c' \<Longrightarrow> \<not> if_flag c'"
  using assms by (auto simp: release_end_def popcli_def Let_def split: if_splits)

lemma release_end_ok:
  "0 < ncli c \<Longrightarrow> \<not> if_flag c \<Longrightarrow> \<exists>r. release_end c lk = Ok r"
  by (auto simp: release_end_def popcli_def Let_def)

lemma boot_inv: "machine_inv boot_machine"
  by (auto simp: machine_inv_def cpu_inv_def lock_inv_def owns_def boot_machine_def
      initlock_def busy_def)

lemma cpu_inv_nonneg: "cpu_inv s i \<Longrightarrow> 0 \<le> ncli (cpus s i)"
  by (auto simp: cpu_inv_def busy_def)

lemma crit_ncli: "cpu_inv s i \<Longrightarrow> l \<in> crit s i \<Longrightarrow> 0 < ncli (cpus s i)"
  using card_gt_0_iff [of "crit s i"] by (auto simp: cpu_inv_def busy_def)

text \<open>A step moves one CPU \<open>i\<close> and touches one lock \<open>l\<close>; everything else is framed.\<close>

lemma machine_inv_local:
  assumes inv: "machine_inv s"
    and cpus: "\<And>j. j \<noteq> i \<Longrightarrow> cpus t j = cpus s j \<and> crit t j = crit s j \<and> pc t j = pc s j"
    and locks: "\<And>m. m \<noteq> l \<Longrightarrow> locks t m = locks s m \<and> owns t m i = owns s m i \<and>
      (m \<in> crit t i \<longleftrightarrow> m \<in> crit s i)"
    and ci: "cpu_inv t i" and li: "lock_inv t l"
  shows "machine_inv t"
proof -
  have "cpu_inv t j" for j
    using inv ci cpus [of j] by (cases "j = i") (auto simp: machine_inv_def cpu_inv_def)
  moreover have "lock_inv t m" for m
  proof (cases "m = l")
    case True
    with li show ?thesis by simp
  next
    case False
    have "owns t m j = owns s m j" "(m \<in> crit t j) = (m \<in> crit s j)" for j
      using cpus [of j] locks [OF False] by (cases "j = i"; auto simp: owns_def)+
    with inv locks [OF False] show ?thesis by (simp add: machine_inv_def lock_inv_def)
  qed
  ultimately show ?thesis by (simp add: machine_inv_def)
qed

lemma lock_inv_cong:
  assumes "lock_inv s l" "locks t l = locks s l" "\<And>j. owns t l j = owns s l j"
    "\<And>j. (l \<in> crit t j) = (l \<in> crit s j)"
  shows "lock_inv t l"
  using assms by (simp add: lock_inv_def)

lemma lock_inv_owner: "lock_inv s l \<Longrightarrow> owns s l i \<Longrightarrow> owns s l j \<longleftrightarrow> j = i"
  by (auto simp: lock_inv_def)

lemma owns_crit: "l \<in> crit s i \<Longrightarrow> owns s l i"
  by (simp add: owns_def)

lemma lock_step_inv: "lock_step s t \<Longrightarrow> machine_inv s \<Longrightarrow> machine_inv t"
proof (induction rule: lock_step.induct)
  case (call_acquire s i l c)
  then have ci: "cpu_inv s i" and li: "lock_inv s l" by (auto simp: machine_inv_def)
  note c = acquire_begin_OkD [OF call_acquire(2) cpu_inv_nonneg [OF ci]]
  have nc: "l \<notin> crit s i" using c(2) li owns_crit [of l s i] by (auto simp: lock_inv_def)
  show ?case
  proof (rule machine_inv_local [OF call_acquire(3), of i _ l])
    show "lock_inv (s\<lparr>cpus := (cpus s)(i := c), pc := (pc s)(i := Spinning l)\<rparr>) l"
      by (rule lock_inv_cong [OF li]) (use call_acquire(1) in \<open>auto simp: owns_def\<close>)
    show "cpu_inv (s\<lparr>cpus := (cpus s)(i := c), pc := (pc s)(i := Spinning l)\<rparr>) i"
      using ci c(1) call_acquire(1) nc by (auto simp: cpu_inv_def busy_def)
  qed (use call_acquire(1) in \<open>auto simp: owns_def\<close>)
next
  case (spin s i l lk)
  then have "lk = locks s l" by (cases "locks s l") (auto simp: xchg_locked_def)
  then have "s\<lparr>locks := (locks s)(l := lk)\<rparr> = s" by simp
  with spin(3) show ?case by simp
next
  case (win s i l lk)
  then have ci: "cpu_inv s i" and li: "lock_inv s l" by (auto simp: machine_inv_def)
  have un: "\<not> owns s l j" for j using li win(2) by (auto simp: lock_inv_def xchg_locked_def)
  show ?case
  proof (rule machine_inv_local [OF win(3), of i _ l])
    show "lock_inv (s\<lparr>locks := (locks s)(l := lk), pc := (pc s)(i := Won l)\<rparr>) l"
      using li win(2) un by (auto simp: lock_inv_def owns_def xchg_locked_def)
    show "cpu_inv (s\<lparr>locks := (locks s)(l := lk), pc := (pc s)(i := Won l)\<rparr>) i"
      using ci win(1) by (auto simp: cpu_inv_def busy_def)
  qed (use win(1) in \<open>auto simp: owns_def\<close>)
next
  case (record_owner s i l)
  let ?t = "s\<lparr>locks := (locks s)(l := (locks s l)\<lparr>lk_cpu := Some i\<rparr>),
       pc := (pc s)(i := Running), crit := (crit s)(i := insert l (crit s i))\<rparr>"
  have ci: "cpu_inv s i" and li: "lock_inv s l" using record_owner by (auto simp: machine_inv_def)
  have oi: "owns s l i" using record_owner(1) by (simp add: owns_def)
  have nc: "l \<notin> crit s i" using ci record_owner(1) by (auto simp: cpu_inv_def)
  have ot: "owns ?t l j \<longleftrightarrow> j = i" for j
    using lock_inv_owner [OF li oi, of j] by (auto simp: owns_def)
  have ct: "l \<in> crit ?t j \<longleftrightarrow> j = i" for j
    using lock_inv_owner [OF li oi, of j] nc by (auto simp: owns_def)
  show ?case
  proof (rule machine_inv_local [OF record_owner(2), of i _ l])
    show "lock_inv ?t l"
      using li oi unfolding lock_inv_def ot ct by (auto simp: lock_inv_def)
    show "cpu_inv ?t i"
      using ci record_owner(1) nc by (auto simp: cpu_inv_def busy_def)
  qed (use record_owner(1) in \<open>auto simp: owns_def\<close>)
next
  case (call_release s i l c lk)
  let ?t = "s\<lparr>cpus := (cpus s)(i := c), locks := (locks s)(l := lk),
       pc := (pc s)(i := Releasing l), crit := (crit s)(i := crit s i - {l})\<rparr>"
  have ci: "cpu_inv s i" and li: "lock_inv s l" using call_release by (auto simp: machine_inv_def)
  have pos: "lk_cpu (locks s l) = Some i \<Longrightarrow> 0 < ncli (cpus s i)"
    using li crit_ncli [OF ci, of l] by (auto simp: lock_inv_def)
  have iff: "0 < ncli (cpus s i) \<longrightarrow> \<not> if_flag (cpus s i)" using ci by (simp add: cpu_inv_def)
  note c = release_begin_OkD [OF call_release(2) iff pos]
  have cr: "l \<in> crit s i" using c(2) li unfolding lock_inv_def by blast
  have oi: "owns s l i" using cr by (rule owns_crit)
  have ot: "owns ?t l j \<longleftrightarrow> j = i" for j
    using lock_inv_owner [OF li oi, of j] by (auto simp: owns_def)
  have ct: "l \<notin> crit s j" if "j \<noteq> i" for j
    using that lock_inv_owner [OF li oi, of j] by (auto simp: owns_def)
  have card: "int (card (crit s i)) = int (card (crit s i - {l})) + 1"
    using ci cr card_Suc_Diff1 [of "crit s i" l] by (simp add: cpu_inv_def)
  show ?case
  proof (rule machine_inv_local [OF call_release(3), of i _ l])
    show "lock_inv ?t l"
      using c(1) unfolding lock_inv_def ot by (auto simp: ct c(3))
    show "cpu_inv ?t i"
      using ci card call_release(1) by (simp add: cpu_inv_def busy_def c(4))
  qed (use call_release(1) in \<open>auto simp: owns_def\<close>)
next
  case (store_zero s i l c lk)
  let ?t = "s\<lparr>cpus := (cpus s)(i := c), locks := (locks s)(l := lk), pc := (pc s)(i := Running)\<rparr>"
  have ci: "cpu_inv s i" and li: "lock_inv s l" using store_zero by (auto simp: machine_inv_def)
  note c = release_end_OkD [OF store_zero(2)]
  have oi: "owns s l i" using store_zero(1) by (simp add: owns_def)
  have nc: "l \<notin> crit s i" using ci store_zero(1) by (auto simp: cpu_inv_def)
  have ct: "l \<notin> crit s j" for j
    using lock_inv_owner [OF li oi, of j] nc by (auto simp: owns_def)
  have "owns ?t l j = False" for j
    using lock_inv_owner [OF li oi, of j] nc by (auto simp: owns_def)
  then have ot: "owns ?t l = (\<lambda>_. False)" by blast
  show ?case
  proof (rule machine_inv_local [OF store_zero(3), of i _ l])
    show "lock_inv ?t l"
      using li ct unfolding lock_inv_def ot by (auto simp: c(1))
    show "cpu_inv ?t i"
      using ci c(2,3) store_zero(1) by (auto simp: cpu_inv_def busy_def)
  qed (use store_zero(1) in \<open>auto simp: owns_def\<close>)
next
  case (interrupts s i b)
  then have ci: "cpu_inv s i" and li: "lock_inv s 0" by (auto simp: machine_inv_def)
  show ?case
  proof (rule machine_inv_local [OF interrupts(3), of i _ 0])
    show "lock_inv (s\<lparr>cpus := (cpus s)(i := (cpus s i)\<lparr>if_flag := b\<rparr>)\<rparr>) 0"
      by (rule lock_inv_cong [OF li]) (auto simp: owns_def)
    show "cpu_inv (s\<lparr>cpus := (cpus s)(i := (cpus s i)\<lparr>if_flag := b\<rparr>)\<rparr>) i"
      using ci interrupts(1,2) by (auto simp: cpu_inv_def)
  qed (auto simp: owns_def)
qed

lemma lock_reachable_inv: "lock_reachable s \<Longrightarrow> machine_inv s"
  by (induction rule: lock_reachable.induct) (auto intro: boot_inv lock_step_inv)

subsection \<open>Properties\<close>

text \<open>C5: Mutual exclusion.  In every state reachable by interleaving the memory operations of
  \<open>acquire\<close> and \<open>release\<close> on any number of CPUs and locks, at most one CPU is between the return
  of \<open>acquire\<close> and the call of \<open>release\<close> on a given lock, and it is the recorded owner.\<close>

theorem spinlock_mutual_exclusion:
  assumes "lock_reachable s" "l \<in> crit s i" "l \<in> crit s j"
  shows "i = j \<and> lk_locked (locks s l) \<and> lk_cpu (locks s l) = Some i"
proof -
  have "lock_inv s l" using lock_reachable_inv [OF assms(1)] by (simp add: machine_inv_def)
  with assms(2,3) show ?thesis by (auto simp: lock_inv_def owns_def)
qed

text \<open>Interrupt nesting is exact.  In every reachable state \<open>ncli\<close> counts the locks a CPU
  holds or is acquiring or releasing; interrupts are off while it is positive; and so the \<open>popcli\<close>
  at the end of \<open>release\<close> never panics.\<close>

theorem spinlock_interrupts_off:
  assumes "lock_reachable s"
  shows "ncli (cpus s i) = int (card (crit s i)) + (if pc s i = Running then 0 else 1) \<and>
    (crit s i \<noteq> {} \<longrightarrow> \<not> if_flag (cpus s i)) \<and>
    (pc s i = Releasing l \<longrightarrow> (\<exists>r. release_end (cpus s i) (locks s l) = Ok r))"
proof (intro conjI impI)
  have inv: "cpu_inv s i" using lock_reachable_inv [OF assms] by (simp add: machine_inv_def)
  then show "ncli (cpus s i) = int (card (crit s i)) + (if pc s i = Running then 0 else 1)"
    by (simp add: cpu_inv_def busy_def)
  show "\<not> if_flag (cpus s i)" if "crit s i \<noteq> {}"
    using that crit_ncli [OF inv] inv by (auto simp: cpu_inv_def)
  show "\<exists>r. release_end (cpus s i) (locks s l) = Ok r" if "pc s i = Releasing l"
    using that inv by (intro release_end_ok) (auto simp: cpu_inv_def busy_def)
qed

text \<open>Runs that reach a critical section.\<close>

definition boot_acquired :: machine where
  "boot_acquired = boot_machine
     \<lparr>cpus := (cpus boot_machine)(0 := pushcli (cpus boot_machine 0)),
      locks := (locks boot_machine)(7 := \<lparr>lk_locked = True, lk_cpu = Some 0\<rparr>),
      pc := (pc boot_machine)(0 := Running),
      crit := (crit boot_machine)(0 := {7})\<rparr>"

lemma boot_acquired_reachable: "lock_reachable boot_acquired"
proof -
  let ?b = boot_machine
  let ?s1 = "?b\<lparr>cpus := (cpus ?b)(0 := pushcli (cpus ?b 0)), pc := (pc ?b)(0 := Spinning 7)\<rparr>"
  let ?s2 = "?s1\<lparr>locks := (locks ?s1)(7 := \<lparr>lk_locked = True, lk_cpu = None\<rparr>),
    pc := (pc ?s1)(0 := Won 7)\<rparr>"
  have "lock_reachable ?s1"
    by (rule lock_reachable.more [OF lock_reachable.boot], rule lock_step.call_acquire)
      (simp_all add: boot_machine_def acquire_begin_eq initlock_def)
  then have "lock_reachable ?s2"
    by (rule lock_reachable.more, intro lock_step.win)
      (simp_all add: boot_machine_def xchg_locked_def initlock_def)
  then have "lock_reachable (?s2\<lparr>locks := (locks ?s2)(7 := (locks ?s2 7)\<lparr>lk_cpu := Some 0\<rparr>),
       pc := (pc ?s2)(0 := Running), crit := (crit ?s2)(0 := insert 7 (crit ?s2 0))\<rparr>)"
    by (rule lock_reachable.more, intro lock_step.record_owner) simp
  moreover have "?s2\<lparr>locks := (locks ?s2)(7 := (locks ?s2 7)\<lparr>lk_cpu := Some 0\<rparr>),
       pc := (pc ?s2)(0 := Running), crit := (crit ?s2)(0 := insert 7 (crit ?s2 0))\<rparr> = boot_acquired"
    by (simp add: boot_acquired_def boot_machine_def)
  ultimately show ?thesis by simp
qed

theorem spinlock_mutual_exclusion_witness:
  "lk_locked (locks boot_acquired 7) \<and> lk_cpu (locks boot_acquired 7) = Some 0"
  using spinlock_mutual_exclusion [OF boot_acquired_reachable, of 7 0 0]
  by (simp add: boot_acquired_def)

theorem spinlock_interrupts_off_witness:
  "ncli (cpus boot_acquired 0) = 1 \<and> \<not> if_flag (cpus boot_acquired 0)"
  using spinlock_interrupts_off [OF boot_acquired_reachable, of 0 7]
  by (simp add: boot_acquired_def)

end
