(* ===== verification/Pipe.thy ===== *)
theory Pipe
  imports Interfaces
begin

text \<open>
  Pipes, \<open>kernel/pipe.c\<close>: the ring buffer with its free-running 32-bit counters, the calls
  \<open>pipewrite\<close>, \<open>piperead\<close> and \<open>pipeclose\<close>, and the system of processes that block in them.

  A call holds \<open>p->lock\<close> except inside \<open>sleep\<close>, so a call is one transition up to the point
  where it returns or sleeps; a sleeping call later resumes at the test of its \<open>while\<close> loop.
  \<open>wakeup\<close> calls are returned as the list of channels they name.
\<close>

section \<open>The ring buffer\<close>

abbreviation PIPESIZE :: nat where "PIPESIZE \<equiv> 512"

record pipe =
  p_data :: "uchar list"
  nread :: uint
  nwrite :: uint
  readopen :: bool
  writeopen :: bool

definition pipe_full :: "pipe \<Rightarrow> bool" where
  "pipe_full p \<longleftrightarrow> nwrite p = nread p + 512"

definition pipe_empty :: "pipe \<Rightarrow> bool" where
  "pipe_empty p \<longleftrightarrow> nread p = nwrite p"

definition pipe_put :: "uchar \<Rightarrow> pipe \<Rightarrow> pipe" where
  "pipe_put c p = p\<lparr>p_data := (p_data p)[unat (nwrite p mod 512) := c], nwrite := nwrite p + 1\<rparr>"

definition pipe_get :: "pipe \<Rightarrow> uchar \<times> pipe" where
  "pipe_get p = (p_data p ! unat (nread p mod 512), p\<lparr>nread := nread p + 1\<rparr>)"

definition pipe_init :: "uchar list \<Rightarrow> pipe" where
  "pipe_init page = \<lparr>p_data = page, nread = 0, nwrite = 0, readopen = True, writeopen = True\<rparr>"

section \<open>The calls\<close>

datatype pipe_chan = ChRead | ChWrite

datatype pipe_ret = Returns int | Sleeps nat

text \<open>\<open>pipewrite_loop killed addr n i k p\<close> is the loop of \<open>pipewrite\<close> at index \<open>i\<close> with \<open>k\<close>
  bytes to go.  It sleeps on \<open>&p->nwrite\<close> at the index it has reached.\<close>

fun pipewrite_loop :: "bool \<Rightarrow> (nat \<Rightarrow> uchar) \<Rightarrow> int \<Rightarrow> nat \<Rightarrow> nat \<Rightarrow> pipe
    \<Rightarrow> pipe \<times> pipe_chan list \<times> pipe_ret" where
  "pipewrite_loop killed addr n i 0 p = (p, [ChRead], Returns n)"
| "pipewrite_loop killed addr n i (Suc k) p =
     (if pipe_full p
      then if \<not> readopen p \<or> killed then (p, [], Returns (-1)) else (p, [ChRead], Sleeps i)
      else pipewrite_loop killed addr n (Suc i) k (pipe_put (addr i) p))"

definition pipewrite_resume :: "bool \<Rightarrow> (nat \<Rightarrow> uchar) \<Rightarrow> int \<Rightarrow> nat \<Rightarrow> pipe
    \<Rightarrow> pipe \<times> pipe_chan list \<times> pipe_ret" where
  "pipewrite_resume killed addr n i p = pipewrite_loop killed addr n i (nat n - i) p"

definition pipewrite :: "bool \<Rightarrow> (nat \<Rightarrow> uchar) \<Rightarrow> int \<Rightarrow> pipe
    \<Rightarrow> pipe \<times> pipe_chan list \<times> pipe_ret" where
  "pipewrite killed addr n p = pipewrite_resume killed addr n 0 p"

text \<open>The copy loop of \<open>piperead\<close> returns the bytes stored at \<open>addr\<close>.\<close>

fun piperead_copy :: "nat \<Rightarrow> pipe \<Rightarrow> uchar list \<times> pipe" where
  "piperead_copy 0 p = ([], p)"
| "piperead_copy (Suc k) p =
     (if pipe_empty p then ([], p)
      else case pipe_get p of (c, p') \<Rightarrow> case piperead_copy k p' of (cs, p'') \<Rightarrow> (c # cs, p''))"

definition piperead :: "bool \<Rightarrow> int \<Rightarrow> pipe \<Rightarrow> pipe \<times> uchar list \<times> pipe_chan list \<times> pipe_ret" where
  "piperead killed n p =
     (if pipe_empty p \<and> writeopen p
      then if killed then (p, [], [], Returns (-1)) else (p, [], [], Sleeps 0)
      else case piperead_copy (nat n) p of
        (cs, p') \<Rightarrow> (p', cs, [ChWrite], Returns (int (length cs))))"

text \<open>\<open>pipeclose\<close> returns \<open>None\<close> for the pipe when it has freed its page.\<close>

definition pipeclose :: "bool \<Rightarrow> pipe \<Rightarrow> pipe option \<times> pipe_chan list" where
  "pipeclose writable p =
     (let (p', wake) = (if writable then (p\<lparr>writeopen := False\<rparr>, ChRead)
                        else (p\<lparr>readopen := False\<rparr>, ChWrite))
      in (if \<not> readopen p' \<and> \<not> writeopen p' then None else Some p', [wake]))"

section \<open>The contents of the buffer\<close>

definition pipe_count :: "pipe \<Rightarrow> nat" where
  "pipe_count p = unat (nwrite p - nread p)"

definition pipe_contents :: "pipe \<Rightarrow> uchar list" where
  "pipe_contents p = map (\<lambda>i. p_data p ! ((unat (nread p) + i) mod PIPESIZE)) [0..<pipe_count p]"

definition pipe_inv :: "pipe \<Rightarrow> bool" where
  "pipe_inv p \<longleftrightarrow> length (p_data p) = PIPESIZE \<and> pipe_count p \<le> PIPESIZE"

lemma length_pipe_contents [simp]: "length (pipe_contents p) = pipe_count p"
  by (simp add: pipe_contents_def)

lemma word_eq_diff_iff: "(x :: uint) = y + d \<longleftrightarrow> x - y = d"
  by (auto simp: algebra_simps)

lemma pipe_full_iff: "pipe_full p \<longleftrightarrow> pipe_count p = PIPESIZE"
  unfolding pipe_full_def pipe_count_def word_eq_diff_iff by (simp add: word_unat_eq_iff)

lemma pipe_empty_iff: "pipe_empty p \<longleftrightarrow> pipe_count p = 0"
  by (auto simp: pipe_empty_def pipe_count_def unat_eq_0)

lemma unat_add_mod512: "unat (x + of_nat i :: uint) mod 512 = (unat x + i) mod 512"
proof -
  have "unat (x + of_nat i :: uint) = (unat x + i) mod 2 ^ 32"
    by (simp add: unat_word_ariths unat_of_nat mod_add_right_eq)
  moreover have "(unat x + i) mod 2 ^ 32 mod 512 = (unat x + i) mod 512"
    by (rule mod_mod_cancel) simp
  ultimately show ?thesis by simp
qed

lemma unat_mod512: "unat (x mod 512 :: uint) = unat x mod 512"
  by (simp add: unat_mod)

lemma nwrite_slot: "unat (nwrite p) mod 512 = (unat (nread p) + pipe_count p) mod 512"
  using unat_add_mod512 [of "nread p" "pipe_count p"] by (simp add: pipe_count_def)

lemma pipe_count_put:
  assumes "pipe_count p < PIPESIZE"
  shows "pipe_count (pipe_put c p) = Suc (pipe_count p)"
proof -
  have e: "nwrite p + 1 - nread p = (nwrite p - nread p) + 1" by simp
  have "unat ((nwrite p - nread p) + 1) = Suc (unat (nwrite p - nread p))"
    using assms by (simp add: pipe_count_def unat_word_ariths)
  then show ?thesis by (simp add: pipe_count_def pipe_put_def e)
qed

lemma pipe_contents_put:
  assumes "pipe_inv p" "pipe_count p < PIPESIZE"
  shows "pipe_contents (pipe_put c p) = pipe_contents p @ [c]"
proof (rule nth_equalityI)
  show "length (pipe_contents (pipe_put c p)) = length (pipe_contents p @ [c])"
    using assms by (simp add: pipe_count_put)
next
  fix i assume "i < length (pipe_contents (pipe_put c p))"
  then have i: "i \<le> pipe_count p" using assms by (simp add: pipe_count_put)
  let ?slot = "(unat (nread p) + pipe_count p) mod 512"
  have len: "?slot < length (p_data p)" using assms by (simp add: pipe_inv_def)
  have dat: "p_data (pipe_put c p) = (p_data p)[?slot := c]"
    by (simp add: pipe_put_def unat_mod512 nwrite_slot)
  have rd: "nread (pipe_put c p) = nread p" by (simp add: pipe_put_def)
  show "pipe_contents (pipe_put c p) ! i = (pipe_contents p @ [c]) ! i"
  proof (cases "i = pipe_count p")
    case True
    then show ?thesis using assms len
      by (simp add: pipe_contents_def pipe_count_put dat rd nth_append)
  next
    case False
    then have "i < pipe_count p" using i by simp
    moreover from this have "(unat (nread p) + i) mod 512 \<noteq> ?slot"
      using assms(2) by (intro mod_add_neq) auto
    ultimately show ?thesis using assms len
      by (simp add: pipe_contents_def pipe_count_put dat rd nth_append)
  qed
qed

lemma pipe_inv_put:
  assumes "pipe_inv p" "pipe_count p < PIPESIZE"
  shows "pipe_inv (pipe_put c p)"
  using assms pipe_count_put [OF assms(2), of c] by (simp add: pipe_inv_def pipe_put_def)

lemma pipe_count_get:
  assumes "0 < pipe_count p"
  shows "Suc (pipe_count (snd (pipe_get p))) = pipe_count p"
proof -
  have "nwrite p - nread p \<noteq> 0"
    using assms by (auto simp: pipe_count_def)
  then have "Suc (unat (nwrite p - nread p - 1)) = unat (nwrite p - nread p)"
    using assms by (simp add: pipe_count_def unat_minus_one)
  then show ?thesis by (simp add: pipe_count_def pipe_get_def diff_diff_eq [symmetric])
qed

lemma pipe_contents_get:
  assumes "0 < pipe_count p"
  shows "pipe_contents p = fst (pipe_get p) # pipe_contents (snd (pipe_get p))"
proof (rule nth_equalityI)
  show "length (pipe_contents p) =
      length (fst (pipe_get p) # pipe_contents (snd (pipe_get p)))"
    using pipe_count_get [OF assms] by simp
next
  fix i assume "i < length (pipe_contents p)"
  then have i: "i < pipe_count p" by simp
  have r1: "unat (nread p + 1) mod 512 = Suc (unat (nread p)) mod 512"
    using unat_add_mod512 [of "nread p" 1] by simp
  have step: "(unat (nread p + 1) + j) mod 512 = (unat (nread p) + Suc j) mod 512" for j
    using r1 by (metis add_Suc_shift mod_add_left_eq)
  show "pipe_contents p ! i = (fst (pipe_get p) # pipe_contents (snd (pipe_get p))) ! i"
  proof (cases i)
    case 0
    with i show ?thesis by (simp add: pipe_contents_def pipe_get_def unat_mod512)
  next
    case (Suc j)
    with i pipe_count_get [OF assms] have j: "j < pipe_count (snd (pipe_get p))" by simp
    have "pipe_contents (snd (pipe_get p)) ! j = p_data p ! ((unat (nread p + 1) + j) mod 512)"
      using j by (simp add: pipe_contents_def) (simp add: pipe_get_def)
    with i Suc step [of j] show ?thesis by (simp add: pipe_contents_def)
  qed
qed

lemma pipe_inv_get:
  assumes "pipe_inv p" "0 < pipe_count p"
  shows "pipe_inv (snd (pipe_get p))"
  using assms pipe_count_get [OF assms(2)] by (simp add: pipe_inv_def pipe_get_def)

lemma pipe_put_flags [simp]:
  "readopen (pipe_put c p) = readopen p" "writeopen (pipe_put c p) = writeopen p"
  by (simp_all add: pipe_put_def)

lemma pipe_get_flags [simp]:
  "readopen (snd (pipe_get p)) = readopen p" "writeopen (snd (pipe_get p)) = writeopen p"
  by (simp_all add: pipe_get_def)

text \<open>The byte-level operations the two loops perform provide a bounded FIFO.\<close>

definition pipe_try_put :: "uchar \<Rightarrow> pipe \<Rightarrow> pipe option" where
  "pipe_try_put c p = (if pipe_full p then None else Some (pipe_put c p))"

definition pipe_try_get :: "pipe \<Rightarrow> (uchar \<times> pipe) option" where
  "pipe_try_get p = (if pipe_empty p then None else Some (pipe_get p))"

interpretation pipeq: bounded_fifo pipe_contents pipe_inv PIPESIZE pipe_try_put pipe_try_get
proof unfold_locales
  fix s a as
  show "pipe_inv s \<Longrightarrow> length (pipe_contents s) \<le> PIPESIZE" by (simp add: pipe_inv_def)
  show "pipe_inv s \<Longrightarrow> length (pipe_contents s) = PIPESIZE \<Longrightarrow> pipe_try_put a s = None"
    by (simp add: pipe_try_put_def pipe_full_iff)
  show "pipe_inv s \<Longrightarrow> length (pipe_contents s) < PIPESIZE \<Longrightarrow>
      \<exists>s'. pipe_try_put a s = Some s' \<and> pipe_inv s' \<and> pipe_contents s' = pipe_contents s @ [a]"
    by (simp add: pipe_try_put_def pipe_full_iff pipe_contents_put pipe_inv_put)
  show "pipe_inv s \<Longrightarrow> pipe_contents s = [] \<Longrightarrow> pipe_try_get s = None"
    by (simp add: pipe_try_get_def pipe_empty_iff flip: length_pipe_contents)
  show "pipe_inv s \<Longrightarrow> pipe_contents s = a # as \<Longrightarrow>
      \<exists>s'. pipe_try_get s = Some (a, s') \<and> pipe_inv s' \<and> pipe_contents s' = as"
  proof -
    assume inv: "pipe_inv s" and c: "pipe_contents s = a # as"
    have "pipe_count s = Suc (length as)"
      using c length_pipe_contents [of s] by simp
    then have pos: "0 < pipe_count s" by simp
    from pipe_contents_get [OF pos] c pipe_inv_get [OF inv pos] pos show ?thesis
      by (cases "pipe_get s") (simp add: pipe_try_get_def pipe_empty_iff)
  qed
qed

section \<open>The calls, functionally\<close>

text \<open>\<open>pipewrite\<close> appends an initial segment of what it was asked to write: all of it when it
  returns \<open>n\<close>, and it sleeps, or fails, only in front of a full buffer.\<close>

lemma pipewrite_loop_spec:
  "pipe_inv p \<Longrightarrow> pipewrite_loop killed addr n i k p = (p', ws, r) \<Longrightarrow>
   \<exists>j\<le>k. pipe_inv p' \<and> pipe_contents p' = pipe_contents p @ map addr [i..<i + j] \<and>
     readopen p' = readopen p \<and> writeopen p' = writeopen p \<and>
     (r = Returns n \<and> j = k \<and> ws = [ChRead] \<or>
      r = Returns (-1) \<and> j < k \<and> ws = [] \<and> pipe_full p' \<and> (\<not> readopen p \<or> killed) \<or>
      r = Sleeps (i + j) \<and> j < k \<and> ws = [ChRead] \<and> pipe_full p' \<and> readopen p \<and> \<not> killed)"
proof (induction k arbitrary: i p)
  case 0
  then show ?case by simp
next
  case (Suc k)
  show ?case
  proof (cases "pipe_full p")
    case True
    with Suc.prems show ?thesis by (intro exI [of _ 0]) (auto split: if_splits)
  next
    case False
    then have room: "pipe_count p < PIPESIZE"
      using Suc.prems(1) by (simp add: pipe_full_iff pipe_inv_def)
    have r: "pipewrite_loop killed addr n (Suc i) k (pipe_put (addr i) p) = (p', ws, r)"
      using Suc.prems(2) False by simp
    obtain j where j: "j \<le> k" "pipe_inv p'"
      "pipe_contents p' = pipe_contents (pipe_put (addr i) p) @ map addr [Suc i..<Suc i + j]"
      "readopen p' = readopen p" "writeopen p' = writeopen p"
      "r = Returns n \<and> j = k \<and> ws = [ChRead] \<or>
       r = Returns (-1) \<and> j < k \<and> ws = [] \<and> pipe_full p' \<and> (\<not> readopen p \<or> killed) \<or>
       r = Sleeps (Suc i + j) \<and> j < k \<and> ws = [ChRead] \<and> pipe_full p' \<and> readopen p \<and> \<not> killed"
      using Suc.IH [OF pipe_inv_put [OF Suc.prems(1) room] r] by auto
    have "pipe_contents p' = pipe_contents p @ map addr [i..<i + Suc j]"
      using j(3) pipe_contents_put [OF Suc.prems(1) room, of "addr i"]
      by (simp add: upt_conv_Cons del: upt_Suc)
    with j show ?thesis by (intro exI [of _ "Suc j"]) auto
  qed
qed

lemma piperead_copy_spec:
  "pipe_inv p \<Longrightarrow> piperead_copy k p = (cs, p') \<Longrightarrow>
   pipe_inv p' \<and> cs = take k (pipe_contents p) \<and> pipe_contents p' = drop k (pipe_contents p) \<and>
   readopen p' = readopen p \<and> writeopen p' = writeopen p"
proof (induction k arbitrary: p cs p')
  case 0
  then show ?case by simp
next
  case (Suc k)
  show ?case
  proof (cases "pipe_empty p")
    case True
    then have "pipe_contents p = []" by (simp add: pipe_empty_iff flip: length_pipe_contents)
    with Suc.prems True show ?thesis by simp
  next
    case False
    then have pos: "0 < pipe_count p" by (simp add: pipe_empty_iff)
    obtain c q where g: "pipe_get p = (c, q)" by fastforce
    obtain cs' q' where r: "piperead_copy k q = (cs', q')" by fastforce
    have inv: "pipe_inv q" and con: "pipe_contents p = c # pipe_contents q"
      and fl: "readopen q = readopen p" "writeopen q = writeopen p"
      using pipe_inv_get [OF Suc.prems(1) pos] pipe_contents_get [OF pos] pipe_get_flags [of p]
      by (simp_all add: g)
    from Suc.prems(2) False g r have "cs = c # cs'" "p' = q'" by auto
    with Suc.IH [OF inv r] con fl show ?thesis by simp
  qed
qed

section \<open>The system of readers and writers\<close>

text \<open>Where each process is: outside, runnable inside a call (at the test of the \<open>while\<close>), or
  asleep in it.\<close>

datatype pipe_pc =
    Outside
  | InWrite "nat \<Rightarrow> uchar" int nat
  | WriteAsleep "nat \<Rightarrow> uchar" int nat
  | InRead int
  | ReadAsleep int

record pipe_sys =
  the_pipe :: pipe
  ppc :: "nat \<Rightarrow> pipe_pc"
  sent :: "uchar list"
  received :: "uchar list"

fun wake_one :: "pipe_chan list \<Rightarrow> pipe_pc \<Rightarrow> pipe_pc" where
  "wake_one ws (WriteAsleep addr n i) =
     (if ChWrite \<in> set ws then InWrite addr n i else WriteAsleep addr n i)"
| "wake_one ws (ReadAsleep n) = (if ChRead \<in> set ws then InRead n else ReadAsleep n)"
| "wake_one ws pc = pc"

definition after_write :: "(nat \<Rightarrow> uchar) \<Rightarrow> int \<Rightarrow> pipe_ret \<Rightarrow> pipe_pc" where
  "after_write addr n r = (case r of Returns _ \<Rightarrow> Outside | Sleeps i \<Rightarrow> WriteAsleep addr n i)"

definition after_read :: "int \<Rightarrow> pipe_ret \<Rightarrow> pipe_pc" where
  "after_read n r = (case r of Returns _ \<Rightarrow> Outside | Sleeps i \<Rightarrow> ReadAsleep n)"

definition writing :: "pipe_pc \<Rightarrow> bool" where
  "writing pc = (case pc of InWrite _ _ _ \<Rightarrow> True | WriteAsleep _ _ _ \<Rightarrow> True | _ \<Rightarrow> False)"

definition reading :: "pipe_pc \<Rightarrow> bool" where
  "reading pc = (case pc of InRead _ \<Rightarrow> True | ReadAsleep _ \<Rightarrow> True | _ \<Rightarrow> False)"

text \<open>The label of a step says whether the process that ran had been killed.  An end is closed
  only when no process is inside a call on it, because a process in a call holds the
  descriptor.  A sleeper may wake at any time (\<open>kill\<close> does that).\<close>

inductive pipe_step :: "bool \<Rightarrow> pipe_sys \<Rightarrow> pipe_sys \<Rightarrow> bool" where
  start_write: "ppc s t = Outside \<Longrightarrow> writeopen (the_pipe s) \<Longrightarrow>
     pipe_step k s (s\<lparr>ppc := (ppc s)(t := InWrite addr n 0)\<rparr>)"
| run_write: "ppc s t = InWrite addr n i \<Longrightarrow>
     pipewrite_resume k addr n i (the_pipe s) = (p', ws, r) \<Longrightarrow>
     pipe_step k s
       \<lparr>the_pipe = p',
        ppc = (\<lambda>u. wake_one ws (((ppc s)(t := after_write addr n r)) u)),
        sent = sent s @ map addr [i..<i + (pipe_count p' - pipe_count (the_pipe s))],
        received = received s\<rparr>"
| start_read: "ppc s t = Outside \<Longrightarrow> readopen (the_pipe s) \<Longrightarrow>
     pipe_step k s (s\<lparr>ppc := (ppc s)(t := InRead n)\<rparr>)"
| run_read: "ppc s t = InRead n \<Longrightarrow> piperead k n (the_pipe s) = (p', cs, ws, r) \<Longrightarrow>
     pipe_step k s
       \<lparr>the_pipe = p',
        ppc = (\<lambda>u. wake_one ws (((ppc s)(t := after_read n r)) u)),
        sent = sent s, received = received s @ cs\<rparr>"
| close_end: "pipeclose w (the_pipe s) = (Some p', ws) \<Longrightarrow>
     (\<And>t. \<not> (if w then writing (ppc s t) else reading (ppc s t))) \<Longrightarrow>
     pipe_step k s (s\<lparr>the_pipe := p', ppc := (\<lambda>u. wake_one ws (ppc s u))\<rparr>)"
| wake_early: "pipe_step k s (s\<lparr>ppc := (ppc s)(t := wake_one [ChRead, ChWrite] (ppc s t))\<rparr>)"

definition pipe_start :: "uchar list \<Rightarrow> pipe_sys" where
  "pipe_start page = \<lparr>the_pipe = pipe_init page, ppc = (\<lambda>_. Outside), sent = [], received = []\<rparr>"

text \<open>\<open>kills\<close> says whether steps of killed processes are allowed.\<close>

inductive pipe_reach :: "bool \<Rightarrow> pipe_sys \<Rightarrow> bool" for kills where
  reach_start: "length page = PIPESIZE \<Longrightarrow> pipe_reach kills (pipe_start page)"
| reach_step: "pipe_reach kills s \<Longrightarrow> pipe_step k s s' \<Longrightarrow> k = False \<or> kills \<Longrightarrow> pipe_reach kills s'"

subsection \<open>Invariants\<close>

definition stream_inv :: "pipe_sys \<Rightarrow> bool" where
  "stream_inv s \<longleftrightarrow> pipe_inv (the_pipe s) \<and>
     received s @ pipe_contents (the_pipe s) = sent s"

text \<open>A sleeping writer faces a full pipe whose read end is open, a sleeping reader an empty pipe
  whose write end is open: nobody sleeps through the event it waits for.\<close>

definition sleep_inv :: "pipe_sys \<Rightarrow> bool" where
  "sleep_inv s \<longleftrightarrow> (\<forall>t.
     (case ppc s t of
        WriteAsleep _ _ _ \<Rightarrow> pipe_full (the_pipe s) \<and> readopen (the_pipe s)
      | ReadAsleep _ \<Rightarrow> pipe_empty (the_pipe s) \<and> writeopen (the_pipe s)
      | InWrite _ _ _ \<Rightarrow> writeopen (the_pipe s)
      | InRead _ \<Rightarrow> readopen (the_pipe s)
      | Outside \<Rightarrow> True)
     \<and> (writing (ppc s t) \<longrightarrow> writeopen (the_pipe s))
     \<and> (reading (ppc s t) \<longrightarrow> readopen (the_pipe s)))"

lemma pipewrite_resume_spec:
  assumes "pipe_inv p" "pipewrite_resume killed addr n i p = (p', ws, r)"
  obtains j where "j \<le> nat n - i" "pipe_inv p'" "pipe_count p' = pipe_count p + j"
    "pipe_contents p' = pipe_contents p @ map addr [i..<i + j]"
    "readopen p' = readopen p" "writeopen p' = writeopen p"
    "r = Returns n \<and> j = nat n - i \<and> ws = [ChRead] \<or>
     r = Returns (-1) \<and> j < nat n - i \<and> ws = [] \<and> pipe_full p' \<and> (\<not> readopen p \<or> killed) \<or>
     r = Sleeps (i + j) \<and> j < nat n - i \<and> ws = [ChRead] \<and> pipe_full p' \<and> readopen p \<and> \<not> killed"
proof -
  obtain j where j: "j \<le> nat n - i" "pipe_inv p'"
    "pipe_contents p' = pipe_contents p @ map addr [i..<i + j]"
    "readopen p' = readopen p" "writeopen p' = writeopen p"
    "r = Returns n \<and> j = nat n - i \<and> ws = [ChRead] \<or>
     r = Returns (-1) \<and> j < nat n - i \<and> ws = [] \<and> pipe_full p' \<and> (\<not> readopen p \<or> killed) \<or>
     r = Sleeps (i + j) \<and> j < nat n - i \<and> ws = [ChRead] \<and> pipe_full p' \<and> readopen p \<and> \<not> killed"
    using pipewrite_loop_spec [OF assms(1) assms(2) [unfolded pipewrite_resume_def]] by blast
  have "pipe_count p' = pipe_count p + j"
    using arg_cong [OF j(3), of length] by simp
  with j that show thesis by blast
qed

lemma piperead_spec:
  assumes "pipe_inv p" "piperead killed n p = (p', cs, ws, r)"
  shows "pipe_inv p' \<and> pipe_contents p = cs @ pipe_contents p' \<and> length cs \<le> nat n \<and>
    readopen p' = readopen p \<and> writeopen p' = writeopen p \<and>
    (r = Returns (int (length cs)) \<and> ws = [ChWrite] \<and>
       length cs = min (nat n) (pipe_count p) \<and> \<not> (pipe_empty p \<and> writeopen p) \<or>
     r = Returns (-1) \<and> ws = [] \<and> p' = p \<and> cs = [] \<and> killed \<or>
     r = Sleeps 0 \<and> ws = [] \<and> p' = p \<and> cs = [] \<and> pipe_empty p \<and> writeopen p \<and> \<not> killed)"
proof (cases "pipe_empty p \<and> writeopen p")
  case True
  with assms show ?thesis by (auto simp: piperead_def split: if_splits)
next
  case False
  obtain q where q: "piperead_copy (nat n) p = (cs, q)" "p' = q" "ws = [ChWrite]"
    "r = Returns (int (length cs))"
    using assms(2) False by (auto simp: piperead_def split: prod.splits)
  have "pipe_contents p = cs @ pipe_contents q" "length cs = min (nat n) (pipe_count p)"
    using piperead_copy_spec [OF assms(1) q(1)] by (simp_all add: min.commute)
  with piperead_copy_spec [OF assms(1) q(1)] q False show ?thesis by auto
qed

lemma stream_inv_start: "length page = PIPESIZE \<Longrightarrow> stream_inv (pipe_start page)"
  by (simp add: stream_inv_def pipe_start_def pipe_init_def pipe_inv_def pipe_count_def
      pipe_contents_def)

lemma pipeclose_contents:
  assumes "pipeclose w p = (Some p', ws)"
  shows "pipe_inv p' = pipe_inv p" "pipe_contents p' = pipe_contents p"
    "pipe_full p' = pipe_full p" "pipe_empty p' = pipe_empty p"
    "readopen p' = (readopen p \<and> w)" "writeopen p' = (writeopen p \<and> \<not> w)"
    "ws = [if w then ChRead else ChWrite]"
  using assms by (auto simp: pipeclose_def Let_def pipe_inv_def pipe_contents_def pipe_count_def
      pipe_full_def pipe_empty_def split: if_splits)

lemma stream_inv_step: "pipe_step k s s' \<Longrightarrow> stream_inv s \<Longrightarrow> stream_inv s'"
proof (induction rule: pipe_step.induct)
  case (run_write s t addr n i k p' ws r)
  then have "pipe_inv (the_pipe s)" by (simp add: stream_inv_def)
  then obtain j where "pipe_inv p'" "pipe_count p' = pipe_count (the_pipe s) + j"
    "pipe_contents p' = pipe_contents (the_pipe s) @ map addr [i..<i + j]"
    using run_write(2) by (rule pipewrite_resume_spec)
  with run_write(3) show ?case by (simp add: stream_inv_def flip: append_assoc)
next
  case (run_read s t n k p' cs ws r)
  then have inv: "pipe_inv (the_pipe s)" by (simp add: stream_inv_def)
  from piperead_spec [OF inv run_read(2)] run_read(3) show ?case
    by (simp add: stream_inv_def)
next
  case (close_end w s p' ws k)
  with pipeclose_contents [OF close_end(1)] show ?case by (simp add: stream_inv_def)
qed (auto simp: stream_inv_def)

lemma pipe_reach_stream: "pipe_reach kills s \<Longrightarrow> stream_inv s"
  by (induction rule: pipe_reach.induct) (auto intro: stream_inv_start stream_inv_step)

lemma sleep_inv_start: "sleep_inv (pipe_start page)"
  by (simp add: sleep_inv_def pipe_start_def writing_def reading_def)

text \<open>What one process must satisfy, so that the invariant is a condition on each of them.\<close>

definition pc_ok :: "pipe \<Rightarrow> pipe_pc \<Rightarrow> bool" where
  "pc_ok p pc \<longleftrightarrow>
     (case pc of
        WriteAsleep _ _ _ \<Rightarrow> pipe_full p \<and> readopen p \<and> writeopen p
      | ReadAsleep _ \<Rightarrow> pipe_empty p \<and> writeopen p \<and> readopen p
      | InWrite _ _ _ \<Rightarrow> writeopen p
      | InRead _ \<Rightarrow> readopen p
      | Outside \<Rightarrow> True)"

lemma sleep_inv_alt: "sleep_inv s \<longleftrightarrow> (\<forall>t. pc_ok (the_pipe s) (ppc s t))"
  unfolding sleep_inv_def pc_ok_def
  by (intro iff_allI) (auto simp: writing_def reading_def split: pipe_pc.splits)

lemma not_full_and_empty: "pipe_full p \<Longrightarrow> pipe_empty p \<Longrightarrow> False"
  by (simp add: pipe_full_iff pipe_empty_iff)

lemma pc_ok_after_run:
  assumes ok: "pc_ok p pc" and fl: "readopen p' = readopen p" "writeopen p' = writeopen p"
    and w: "ChWrite \<in> set ws \<or> (pipe_full p \<longrightarrow> pipe_full p')"
    and r: "ChRead \<in> set ws \<or> (pipe_empty p \<longrightarrow> pipe_empty p')"
  shows "pc_ok p' (wake_one ws pc)"
  using assms by (cases pc) (auto simp: pc_ok_def)

lemma sleep_inv_write:
  assumes inv: "pipe_inv p" and run: "pipewrite_resume False addr n i p = (p', ws, r)"
    and open_end: "writeopen p"
  shows "pc_ok p' (wake_one ws (after_write addr n r))"
    and "pc_ok p pc \<Longrightarrow> pc_ok p' (wake_one ws pc)"
proof -
  obtain j where j: "pipe_inv p'" "pipe_count p' = pipe_count p + j"
    "readopen p' = readopen p" "writeopen p' = writeopen p"
    "r = Returns n \<and> j = nat n - i \<and> ws = [ChRead] \<or>
     r = Returns (-1) \<and> j < nat n - i \<and> ws = [] \<and> pipe_full p' \<and> (\<not> readopen p \<or> False) \<or>
     r = Sleeps (i + j) \<and> j < nat n - i \<and> ws = [ChRead] \<and> pipe_full p' \<and> readopen p \<and> \<not> False"
    using inv run by (rule pipewrite_resume_spec)
  show "pc_ok p' (wake_one ws (after_write addr n r))"
    using j open_end by (auto simp: pc_ok_def after_write_def)
  have full: "pipe_full p \<longrightarrow> pipe_full p'"
    using j(1,2) by (auto simp: pipe_full_iff pipe_inv_def)
  assume ok: "pc_ok p pc"
  show "pc_ok p' (wake_one ws pc)"
  proof (cases "ws = []")
    case False
    then show ?thesis using ok j full by (intro pc_ok_after_run [OF ok]) auto
  next
    case True
    then have "\<not> readopen p" using j by auto
    then show ?thesis using ok j full by (cases pc) (auto simp: pc_ok_def)
  qed
qed

lemma sleep_inv_read:
  assumes inv: "pipe_inv p" and run: "piperead False n p = (p', cs, ws, r)"
    and open_end: "readopen p"
  shows "pc_ok p' (wake_one ws (after_read n r))"
    and "pc_ok p pc \<Longrightarrow> pc_ok p' (wake_one ws pc)"
proof -
  note sp = piperead_spec [OF inv run]
  show "pc_ok p' (wake_one ws (after_read n r))"
    using sp open_end by (auto simp: pc_ok_def after_read_def)
  have e: "pipe_empty p \<longrightarrow> pipe_empty p'"
    using arg_cong [OF conjunct1 [OF conjunct2 [OF sp]], of length] by (auto simp: pipe_empty_iff)
  assume ok: "pc_ok p pc"
  show "pc_ok p' (wake_one ws pc)"
    using sp e by (intro pc_ok_after_run [OF ok]) auto
qed

lemma wake_one_Outside [simp]: "wake_one ws Outside = Outside"
  by simp

lemma sleep_inv_step:
  "pipe_step k s s' \<Longrightarrow> \<not> k \<Longrightarrow> stream_inv s \<Longrightarrow> sleep_inv s \<Longrightarrow> sleep_inv s'"
proof (induction rule: pipe_step.induct)
  case (run_write s t addr n i k p' ws r)
  have inv: "pipe_inv (the_pipe s)" using run_write by (simp add: stream_inv_def)
  have run: "pipewrite_resume False addr n i (the_pipe s) = (p', ws, r)"
    using run_write by simp
  have ok: "pc_ok (the_pipe s) (ppc s u)" for u
    using run_write by (simp add: sleep_inv_alt)
  have op: "writeopen (the_pipe s)" using ok [of t] run_write(1) by (simp add: pc_ok_def)
  show ?case
    using sleep_inv_write(1) [OF inv run op] sleep_inv_write(2) [OF inv run op ok]
    by (simp add: sleep_inv_alt)
next
  case (run_read s t n k p' cs ws r)
  have inv: "pipe_inv (the_pipe s)" using run_read by (simp add: stream_inv_def)
  have run: "piperead False n (the_pipe s) = (p', cs, ws, r)" using run_read by simp
  have ok: "pc_ok (the_pipe s) (ppc s u)" for u
    using run_read by (simp add: sleep_inv_alt)
  have op: "readopen (the_pipe s)" using ok [of t] run_read(1) by (simp add: pc_ok_def)
  show ?case
    using sleep_inv_read(1) [OF inv run op] sleep_inv_read(2) [OF inv run op ok]
    by (simp add: sleep_inv_alt)
next
  case (close_end w s p' ws k)
  have "pc_ok p' (wake_one ws (ppc s u))" for u
  proof -
    have "pc_ok (the_pipe s) (ppc s u)" using close_end by (simp add: sleep_inv_alt)
    then show ?thesis using close_end(2) [of u] pipeclose_contents [OF close_end(1)]
      by (cases "ppc s u") (auto simp: pc_ok_def writing_def reading_def split: if_splits)
  qed
  then show ?case by (simp add: sleep_inv_alt)
next
  case (wake_early k s t)
  have "pc_ok (the_pipe s) (wake_one [ChRead, ChWrite] (ppc s t))"
    using wake_early by (cases "ppc s t") (auto simp: sleep_inv_alt pc_ok_def dest: spec [of _ t])
  with wake_early show ?case by (simp add: sleep_inv_alt)
qed (auto simp: sleep_inv_alt pc_ok_def)

lemma pipe_reach_sleep: "pipe_reach False s \<Longrightarrow> sleep_inv s"
proof (induction rule: pipe_reach.induct)
  case (reach_start page)
  then show ?case by (simp add: sleep_inv_start)
next
  case (reach_step s k s')
  then show ?case using pipe_reach_stream [of False s] by (auto intro: sleep_inv_step)
qed

section \<open>Properties\<close>

text \<open>The pipe buffer is a FIFO of capacity 512 whatever the values of the free-running 32-bit
  counters, also while they wrap around: for every interleaving of byte insertions and
  removals, refused ones included, the old contents followed by what was accepted is what was
  delivered followed by the new contents.\<close>

theorem pipe_fifo:
  assumes "pipe_inv p" and "qrun pipe_try_put pipe_try_get p ops = (q, ins, outs)"
  shows "pipe_inv q \<and> pipe_contents p @ ins = outs @ pipe_contents q"
  using assms by (rule pipeq.run_fifo)

text \<open>C7: Streams arrive intact.  In every state reachable by any number of reading and writing
  processes, with killed processes, early wake-ups and closing of either end, the bytes
  received followed by the bytes in the buffer are exactly the bytes sent, in order, and the
  buffer holds at most 512 of them.\<close>

theorem pipe_stream:
  assumes "pipe_reach kills s"
  shows "received s @ pipe_contents (the_pipe s) = sent s \<and>
    length (pipe_contents (the_pipe s)) \<le> PIPESIZE"
  using pipe_reach_stream [OF assms] by (simp add: stream_inv_def pipe_inv_def)

text \<open>C31: No wake-up is lost, as long as no process using the pipe is killed: in every reachable
  state a process asleep in \<open>pipewrite\<close> faces a full buffer whose read end is open, and a
  process asleep in \<open>piperead\<close> an empty buffer whose write end is open.\<close>

theorem pipe_no_lost_wakeup:
  assumes "pipe_reach False s"
  shows "(ppc s t = WriteAsleep addr n i \<longrightarrow> pipe_full (the_pipe s) \<and> readopen (the_pipe s)) \<and>
    (ppc s t = ReadAsleep n \<longrightarrow> pipe_empty (the_pipe s) \<and> writeopen (the_pipe s))"
  using pipe_reach_sleep [OF assms] by (auto simp: sleep_inv_alt pc_ok_def dest: spec [of _ t])

subsection \<open>A killed writer\<close>

text \<open>\<open>pipewrite\<close> returns \<open>-1\<close> for a killed process without the \<open>wakeup(&p->nread)\<close> it performs
  on its other ways out, although it may just have filled the buffer.\<close>

definition demo_page :: "uchar list" where
  "demo_page = replicate PIPESIZE 0"

lemma length_demo_page [simp]: "length demo_page = PIPESIZE"
  by (simp add: demo_page_def)

text \<open>A reader asleep on a fresh pipe.\<close>

lemma demo_sleeper:
  "\<exists>s. pipe_reach kills s \<and> ppc s 1 = ReadAsleep 1 \<and> ppc s 2 = Outside \<and>
     the_pipe s = pipe_init demo_page"
proof -
  let ?s0 = "pipe_start demo_page"
  define s1 where "s1 = ?s0\<lparr>ppc := (ppc ?s0)(1 := InRead 1)\<rparr>"
  have r0: "pipe_reach kills ?s0" by (rule reach_start) simp
  have "pipe_step False ?s0 s1"
    unfolding s1_def by (rule start_read) (simp_all add: pipe_start_def pipe_init_def)
  with r0 have r1: "pipe_reach kills s1" by (blast intro: reach_step)
  let ?s2 = "\<lparr>the_pipe = the_pipe s1,
      ppc = (\<lambda>u. wake_one [] (((ppc s1)(1 := after_read 1 (Sleeps 0))) u)),
      sent = sent s1, received = received s1 @ []\<rparr>"
  have "pipe_step False s1 ?s2"
    by (rule run_read) (simp_all add: s1_def pipe_start_def pipe_init_def piperead_def pipe_empty_def)
  with r1 have "pipe_reach kills ?s2" by (blast intro: reach_step)
  then show ?thesis
    by (intro exI [of _ ?s2]) (simp add: after_read_def s1_def pipe_start_def)
qed

lemma killed_fill:
  assumes "pipe_inv p" "pipewrite_resume True addr 513 0 p = (p', ws, r)"
  shows "ws = []" "pipe_full p'"
proof -
  obtain j where j: "pipe_inv p'" "pipe_count p' = pipe_count p + j"
    "r = Returns 513 \<and> j = nat 513 - 0 \<and> ws = [ChRead] \<or>
     r = Returns (-1) \<and> j < nat 513 - 0 \<and> ws = [] \<and> pipe_full p' \<and> (\<not> readopen p \<or> True) \<or>
     r = Sleeps (0 + j) \<and> j < nat 513 - 0 \<and> ws = [ChRead] \<and> pipe_full p' \<and> readopen p \<and> \<not> True"
    using assms by (rule pipewrite_resume_spec)
  then show "ws = []" "pipe_full p'" by (auto simp: pipe_inv_def)
qed

text \<open>A killed writer can strand a reader: there is a reachable state in which a reader is
  asleep in \<open>piperead\<close> although the buffer is full, because \<open>pipewrite\<close> returned \<open>-1\<close> for a
  killed process after filling the buffer and before waking the reader.\<close>

theorem pipe_killed_writer_strands_reader:
  "\<exists>s n. pipe_reach True s \<and> ppc s 1 = ReadAsleep n \<and> pipe_full (the_pipe s)"
proof -
  obtain s where s: "pipe_reach True s" "ppc s 1 = ReadAsleep 1" "ppc s 2 = Outside"
    "the_pipe s = pipe_init demo_page"
    using demo_sleeper [of True] by auto
  define s3 where "s3 = s\<lparr>ppc := (ppc s)(2 := InWrite (\<lambda>_. 0) 513 0)\<rparr>"
  have "pipe_step False s s3" unfolding s3_def
    by (rule start_write) (simp_all add: s pipe_init_def)
  with s(1) have r3: "pipe_reach True s3" by (blast intro: reach_step)
  have inv: "pipe_inv (the_pipe s3)" using pipe_reach_stream [OF r3] by (simp add: stream_inv_def)
  obtain p' ws r where run: "pipewrite_resume True (\<lambda>_. 0) 513 0 (the_pipe s3) = (p', ws, r)"
    by (metis prod_cases3)
  have out: "ws = []" "pipe_full p'" by (rule killed_fill [OF inv run])+
  let ?s4 = "\<lparr>the_pipe = p',
    ppc = (\<lambda>u. wake_one ws (((ppc s3)(2 := after_write (\<lambda>_. 0) 513 r)) u)),
    sent = sent s3 @ map (\<lambda>_. 0) [0..<0 + (pipe_count p' - pipe_count (the_pipe s3))],
    received = received s3\<rparr>"
  have "pipe_step True s3 ?s4" by (rule run_write [OF _ run]) (simp add: s3_def)
  with r3 have "pipe_reach True ?s4" by (blast intro: reach_step)
  moreover have "ppc ?s4 1 = ReadAsleep 1" using s(2) by (simp add: out s3_def)
  ultimately show ?thesis using out by (intro exI [of _ ?s4] exI [of _ 1]) simp
qed

section \<open>Witnesses\<close>

text \<open>A pipe whose counters are one step from wrapping.\<close>

definition wrap_pipe :: pipe where
  "wrap_pipe = \<lparr>p_data = demo_page, nread = 0xFFFFFFFF, nwrite = 0xFFFFFFFF,
     readopen = True, writeopen = True\<rparr>"

lemma wrap_pipe_inv: "pipe_inv wrap_pipe"
  by (simp add: pipe_inv_def wrap_pipe_def pipe_count_def)

lemma wrap_pipe_run:
  "snd (qrun pipe_try_put pipe_try_get wrap_pipe [Get, Put 7, Put 8, Get, Get]) = ([7, 8], [7, 8])"
  by (simp add: pipe_try_put_def pipe_try_get_def pipe_full_def pipe_empty_def pipe_put_def
      pipe_get_def wrap_pipe_def unat_mod demo_page_def)

theorem pipe_fifo_witness:
  "\<exists>q. pipe_inv q \<and> pipe_contents wrap_pipe @ [7, 8] = [7, 8] @ pipe_contents q"
  using pipe_fifo [OF wrap_pipe_inv, of "[Get, Put 7, Put 8, Get, Get]"] wrap_pipe_run
  by (cases "qrun pipe_try_put pipe_try_get wrap_pipe [Get, Put 7, Put 8, Get, Get]") auto

theorem pipe_stream_witness:
  "\<exists>s. pipe_reach False s \<and> ppc s 1 = ReadAsleep 1 \<and>
     received s @ pipe_contents (the_pipe s) = sent s"
  using demo_sleeper pipe_stream [of False] by blast

theorem pipe_no_lost_wakeup_witness:
  "\<exists>s. pipe_reach False s \<and> ppc s 1 = ReadAsleep 1 \<and> pipe_empty (the_pipe s)"
  using demo_sleeper pipe_no_lost_wakeup [of _ 1] by blast

end
