(* ===== verification/Bio.thy ===== *)
theory Bio
  imports Block Spinlock "HOL-Library.Multiset"
begin

text \<open>
  The buffer cache, \<open>kernel/bio.c\<close>.  The doubly linked list through \<open>prev\<close>/\<open>next\<close> is the list
  \<open>lru\<close> of buffer indices, from \<open>head.next\<close> (most recently used) to \<open>head.prev\<close>.  \<open>bget_claim\<close>
  is the critical section of \<open>bget\<close>; \<open>bget\<close> then takes the buffer's sleep lock.  \<open>iderw\<close> stands
  for a completed call of the disk driver (\<open>kernel/ide.c\<close> has its own theory): a dirty buffer
  is written, an invalid one is read.
\<close>

abbreviation NBUF :: nat where "NBUF \<equiv> 30"

record buf =
  b_valid :: bool
  b_dirty :: bool
  b_dev :: uint
  b_blockno :: uint
  b_lock :: sleeplock
  b_refcnt :: uint
  b_data :: block

record bcache =
  bufs :: "buf list"
  lru :: "nat list"
  media :: "uint \<Rightarrow> uint \<Rightarrow> block"

definition blank_buf :: buf where
  "blank_buf = \<lparr>b_valid = False, b_dirty = False, b_dev = 0, b_blockno = 0,
     b_lock = initsleeplock, b_refcnt = 0, b_data = zero_block\<rparr>"

text \<open>\<open>binit\<close> inserts every buffer at the head of the list.\<close>

definition binit :: "(uint \<Rightarrow> uint \<Rightarrow> block) \<Rightarrow> bcache" where
  "binit m = \<lparr>bufs = replicate NBUF blank_buf, lru = foldl (\<lambda>l i. i # l) [] [0..<NBUF], media = m\<rparr>"

definition set_buf :: "nat \<Rightarrow> buf \<Rightarrow> bcache \<Rightarrow> bcache" where
  "set_buf i b bc = bc\<lparr>bufs := (bufs bc)[i := b]\<rparr>"

definition names_block :: "uint \<Rightarrow> uint \<Rightarrow> buf \<Rightarrow> bool" where
  "names_block dev bno b \<longleftrightarrow> b_dev b = dev \<and> b_blockno b = bno"

definition recyclable :: "buf \<Rightarrow> bool" where
  "recyclable b \<longleftrightarrow> b_refcnt b = 0 \<and> \<not> b_dirty b"

definition bget_claim :: "uint \<Rightarrow> uint \<Rightarrow> bcache \<Rightarrow> (nat \<times> bcache) kres" where
  "bget_claim dev bno bc =
     (case find (\<lambda>i. names_block dev bno (bufs bc ! i)) (lru bc) of
        Some i \<Rightarrow>
          let b = bufs bc ! i in Ok (i, set_buf i (b\<lparr>b_refcnt := b_refcnt b + 1\<rparr>) bc)
      | None \<Rightarrow>
          (case find (\<lambda>i. recyclable (bufs bc ! i)) (rev (lru bc)) of
             Some i \<Rightarrow>
               Ok (i, set_buf i ((bufs bc ! i)\<lparr>b_dev := dev, b_blockno := bno,
                  b_valid := False, b_dirty := False, b_refcnt := 1\<rparr>) bc)
           | None \<Rightarrow> Panic ''bget: no buffers''))"

definition lock_buf :: "int \<Rightarrow> nat \<Rightarrow> bcache \<Rightarrow> bcache kres" where
  "lock_buf pid i bc = kbind (acquiresleep pid (b_lock (bufs bc ! i)))
     (\<lambda>lk. Ok (set_buf i ((bufs bc ! i)\<lparr>b_lock := lk\<rparr>) bc))"

definition bget :: "int \<Rightarrow> uint \<Rightarrow> uint \<Rightarrow> bcache \<Rightarrow> (nat \<times> bcache) kres" where
  "bget pid dev bno bc =
     kbind (bget_claim dev bno bc) (\<lambda>(i, bc'). kbind (lock_buf pid i bc') (\<lambda>bc''. Ok (i, bc'')))"

definition iderw_done :: "int \<Rightarrow> nat \<Rightarrow> bcache \<Rightarrow> bcache kres" where
  "iderw_done pid i bc =
     (let b = bufs bc ! i in
      if \<not> holdingsleep pid (b_lock b) then Panic ''iderw: buf not locked''
      else if b_valid b \<and> \<not> b_dirty b then Ok bc
      else if b_dirty b
      then Ok (set_buf i (b\<lparr>b_valid := True, b_dirty := False\<rparr>)
             (bc\<lparr>media := (media bc)(b_dev b := (media bc (b_dev b))(b_blockno b := b_data b))\<rparr>))
      else Ok (set_buf i (b\<lparr>b_valid := True, b_data := media bc (b_dev b) (b_blockno b)\<rparr>) bc))"

definition bread :: "int \<Rightarrow> uint \<Rightarrow> uint \<Rightarrow> bcache \<Rightarrow> (nat \<times> bcache) kres" where
  "bread pid dev bno bc =
     kbind (bget pid dev bno bc) (\<lambda>(i, bc').
       if b_valid (bufs bc' ! i) then Ok (i, bc')
       else kbind (iderw_done pid i bc') (\<lambda>bc''. Ok (i, bc'')))"

definition bwrite :: "int \<Rightarrow> nat \<Rightarrow> bcache \<Rightarrow> bcache kres" where
  "bwrite pid i bc =
     (if \<not> holdingsleep pid (b_lock (bufs bc ! i)) then Panic ''bwrite''
      else iderw_done pid i (set_buf i ((bufs bc ! i)\<lparr>b_dirty := True\<rparr>) bc))"

text \<open>\<open>brelse\<close> gives the sleeplock back before it takes \<open>bcache.lock\<close> to count down.  The model does both in one step:
  between them another process can only lock the buffer, and the count, which that process holds too,
  keeps the buffer from being recycled.\<close>

definition brelse :: "int \<Rightarrow> nat \<Rightarrow> bcache \<Rightarrow> bcache kres" where
  "brelse pid i bc =
     (let b = bufs bc ! i in
      if \<not> holdingsleep pid (b_lock b) then Panic ''brelse''
      else let b' = b\<lparr>b_lock := releasesleep (b_lock b), b_refcnt := b_refcnt b - 1\<rparr>;
               bc' = set_buf i b' bc
           in Ok (if b_refcnt b' = 0 then bc'\<lparr>lru := i # remove1 i (lru bc')\<rparr> else bc'))"

section \<open>The cache as a map of blocks\<close>

text \<open>What a block contains, as the rest of the kernel sees it: the cached copy if there is a
  valid one, the medium otherwise.\<close>

definition block_view :: "bcache \<Rightarrow> uint \<Rightarrow> uint \<Rightarrow> block" where
  "block_view bc dev bno =
     (case find (\<lambda>i. names_block dev bno (bufs bc ! i) \<and> b_valid (bufs bc ! i)) [0..<NBUF] of
        Some i \<Rightarrow> b_data (bufs bc ! i) | None \<Rightarrow> media bc dev bno)"

text \<open>Buffers never name the same block twice (buffers that were never used all name block 0 of
  device 0); a valid clean buffer agrees with the medium; a dirty buffer is valid.\<close>

definition bkey :: "buf \<Rightarrow> uint \<times> uint" where
  "bkey b = (b_dev b, b_blockno b)"

definition uniq :: "buf list \<Rightarrow> bool" where
  "uniq bs \<longleftrightarrow> (\<forall>i j. i < length bs \<longrightarrow> j < length bs \<longrightarrow> bkey (bs ! i) = bkey (bs ! j) \<longrightarrow>
     i = j \<or> bkey (bs ! i) = (0, 0))"

definition cache_ok :: "bcache \<Rightarrow> bool" where
  "cache_ok bc \<longleftrightarrow> length (bufs bc) = NBUF \<and> distinct (lru bc) \<and> set (lru bc) = {..<NBUF} \<and>
     uniq (bufs bc)"

lemma set_buf_simps [simp]:
  "lru (set_buf i b bc) = lru bc" "media (set_buf i b bc) = media bc"
  "length (bufs (set_buf i b bc)) = length (bufs bc)"
  "bufs (set_buf i b bc) = (bufs bc)[i := b]"
  by (simp_all add: set_buf_def)

lemma cache_okD:
  assumes "cache_ok bc"
  shows "length (bufs bc) = NBUF" "distinct (lru bc)" "set (lru bc) = {..<NBUF}" "uniq (bufs bc)"
  using assms by (simp_all add: cache_ok_def)

lemma cache_ok_binit: "cache_ok (binit m)"
proof -
  have r: "foldl (\<lambda>l i. i # l) [] [0..<NBUF] = rev [0..<NBUF]"
    by (simp add: upt_rec)
  show ?thesis
    unfolding cache_ok_def binit_def r
    by (auto simp: uniq_def blank_buf_def bkey_def)
qed

lemma names_block_key: "names_block dev bno b \<longleftrightarrow> bkey b = (dev, bno)"
  by (simp add: names_block_def bkey_def)

lemma uniqD:
  "uniq bs \<Longrightarrow> i < length bs \<Longrightarrow> j < length bs \<Longrightarrow> bkey (bs ! i) = bkey (bs ! j) \<Longrightarrow>
   bkey (bs ! i) \<noteq> (0, 0) \<Longrightarrow> i = j"
  by (auto simp: uniq_def)

text \<open>Updates that keep the name of a buffer keep the cache well formed.\<close>

lemma bkey_update: "bkey b = bkey (bs ! i) \<Longrightarrow> bkey (bs[i := b] ! k) = bkey (bs ! k)"
  by (cases "i < length bs") (simp_all add: nth_list_update linorder_not_less list_update_beyond)

lemma uniq_same_name: "uniq bs \<Longrightarrow> bkey b = bkey (bs ! i) \<Longrightarrow> uniq (bs[i := b])"
  by (simp add: uniq_def bkey_update)

lemma cache_ok_same_name:
  "cache_ok bc \<Longrightarrow> bkey b = bkey (bufs bc ! i) \<Longrightarrow> cache_ok (set_buf i b bc)"
  by (simp add: cache_ok_def uniq_same_name)

lemma uniq_new_name:
  assumes "uniq bs" "i < length bs" "\<And>j. j < length bs \<Longrightarrow> bkey (bs ! j) \<noteq> bkey b"
  shows "uniq (bs[i := b])"
  unfolding uniq_def length_list_update
proof (intro allI impI)
  fix p q assume pq: "p < length bs" "q < length bs"
    and eq: "bkey (bs[i := b] ! p) = bkey (bs[i := b] ! q)"
  show "p = q \<or> bkey (bs[i := b] ! p) = (0, 0)"
  proof (cases "p = i \<or> q = i")
    case True
    have "p = q" using eq True pq assms(2) assms(3) [of p] assms(3) [of q]
      by (cases "p = i"; cases "q = i") simp_all
    then show ?thesis ..
  next
    case False
    with eq pq assms(1) show ?thesis by (simp add: uniq_def)
  qed
qed

lemma bget_claim_Ok:
  assumes ok: "cache_ok bc" and r: "bget_claim dev bno bc = Ok (i, bc')"
  shows "i < NBUF \<and> names_block dev bno (bufs bc' ! i) \<and> cache_ok bc' \<and> media bc' = media bc \<and>
    (names_block dev bno (bufs bc ! i) \<and>
       bc' = set_buf i ((bufs bc ! i)\<lparr>b_refcnt := b_refcnt (bufs bc ! i) + 1\<rparr>) bc \<or>
     (\<forall>j<NBUF. \<not> names_block dev bno (bufs bc ! j)) \<and> recyclable (bufs bc ! i) \<and>
       bc' = set_buf i ((bufs bc ! i)\<lparr>b_dev := dev, b_blockno := bno,
                  b_valid := False, b_dirty := False, b_refcnt := 1\<rparr>) bc)"
proof (cases "find (\<lambda>i. names_block dev bno (bufs bc ! i)) (lru bc)")
  case (Some j)
  with r have j: "j = i" "bc' = set_buf i ((bufs bc ! i)\<lparr>b_refcnt := b_refcnt (bufs bc ! i) + 1\<rparr>) bc"
    by (auto simp: bget_claim_def Let_def)
  from find_SomeD [OF Some] j cache_okD [OF ok] have i: "i < NBUF" "names_block dev bno (bufs bc ! i)"
    by auto
  have "cache_ok bc'" unfolding j(2)
    by (rule cache_ok_same_name [OF ok]) (simp add: bkey_def)
  with j i cache_okD [OF ok] show ?thesis by (simp add: names_block_def)
next
  case None
  then have no: "\<forall>j<NBUF. \<not> names_block dev bno (bufs bc ! j)"
    using cache_okD [OF ok] by (auto simp: find_None_iff)
  from None r obtain j where f: "find (\<lambda>i. recyclable (bufs bc ! i)) (rev (lru bc)) = Some j"
    by (auto simp: bget_claim_def split: option.splits)
  let ?b = "(bufs bc ! i)\<lparr>b_dev := dev, b_blockno := bno,
                  b_valid := False, b_dirty := False, b_refcnt := 1\<rparr>"
  from None r f have j: "j = i" "bc' = set_buf i ?b bc" by (auto simp: bget_claim_def)
  from find_SomeD [OF f] j cache_okD [OF ok] have i: "i < NBUF" "recyclable (bufs bc ! i)"
    by auto
  have "uniq ((bufs bc)[i := ?b])"
  proof (rule uniq_new_name)
    show "uniq (bufs bc)" "i < length (bufs bc)" using cache_okD [OF ok] i by simp_all
    fix j assume "j < length (bufs bc)"
    then have "\<not> names_block dev bno (bufs bc ! j)" using cache_okD [OF ok] no by simp
    then show "bkey (bufs bc ! j) \<noteq> bkey ?b" by (simp add: names_block_def bkey_def)
  qed
  then have "cache_ok bc'" using ok j(2) by (simp add: cache_ok_def)
  with i j cache_okD [OF ok] no show ?thesis by (simp add: names_block_def)
qed

section \<open>Processes sharing the cache\<close>

text \<open>A claim is a reference obtained from \<open>bget_claim\<close>: the process, the buffer, the block it
  asked for, and whether it has taken the buffer's sleep lock yet.\<close>

record claim =
  c_pid :: int
  c_idx :: nat
  c_dev :: uint
  c_bno :: uint
  c_locked :: bool

record bsys =
  cache :: bcache
  claims :: "claim multiset"

definition claims_on :: "nat \<Rightarrow> bsys \<Rightarrow> claim multiset" where
  "claims_on i s = filter_mset (\<lambda>c. c_idx c = i) (claims s)"

definition lockers :: "nat \<Rightarrow> bsys \<Rightarrow> claim multiset" where
  "lockers i s = filter_mset (\<lambda>c. c_idx c = i \<and> c_locked c) (claims s)"

text \<open>The steps of the processes: the two halves of \<open>bget\<close>, arbitrary use of the buffer while
  it is locked (disk transfer, changes to the data, \<open>B_DIRTY\<close> set by the log), and \<open>brelse\<close>.
  The bound on the number of claims stands for the bounded number of kernel threads.\<close>

inductive bio_step :: "bsys \<Rightarrow> bsys \<Rightarrow> bool" where
  claim: "bget_claim dev bno (cache s) = Ok (i, bc) \<Longrightarrow> (dev, bno) \<noteq> (0, 0) \<Longrightarrow>
     size (claims s) < 2 ^ 31 \<Longrightarrow>
     bio_step s \<lparr>cache = bc, claims = add_mset \<lparr>c_pid = p, c_idx = i, c_dev = dev, c_bno = bno,
       c_locked = False\<rparr> (claims s)\<rparr>"
| lock: "c \<in># claims s \<Longrightarrow> \<not> c_locked c \<Longrightarrow> lock_buf (c_pid c) (c_idx c) (cache s) = Ok bc \<Longrightarrow>
     bio_step s \<lparr>cache = bc, claims = add_mset (c\<lparr>c_locked := True\<rparr>) (claims s - {#c#})\<rparr>"
| use: "c \<in># claims s \<Longrightarrow> c_locked c \<Longrightarrow> b = bufs (cache s) ! c_idx c \<Longrightarrow>
     bio_step s (s\<lparr>cache := set_buf (c_idx c)
       (b\<lparr>b_valid := v, b_dirty := d, b_data := x\<rparr>) (cache s\<lparr>media := m\<rparr>)\<rparr>)"
| release: "c \<in># claims s \<Longrightarrow> c_locked c \<Longrightarrow> brelse (c_pid c) (c_idx c) (cache s) = Ok bc \<Longrightarrow>
     bio_step s \<lparr>cache = bc, claims = claims s - {#c#}\<rparr>"

inductive bio_reach :: "bsys \<Rightarrow> bool" where
  bio_start: "bio_reach \<lparr>cache = binit m, claims = {#}\<rparr>"
| bio_more: "bio_reach s \<Longrightarrow> bio_step s s' \<Longrightarrow> bio_reach s'"

definition claim_ok :: "bsys \<Rightarrow> claim \<Rightarrow> bool" where
  "claim_ok s c \<longleftrightarrow> c_idx c < NBUF \<and> (c_dev c, c_bno c) \<noteq> (0, 0) \<and>
     bkey (bufs (cache s) ! c_idx c) = (c_dev c, c_bno c) \<and>
     (c_locked c \<longrightarrow> holdingsleep (c_pid c) (b_lock (bufs (cache s) ! c_idx c)))"

definition buf_ok :: "bsys \<Rightarrow> nat \<Rightarrow> bool" where
  "buf_ok s i \<longleftrightarrow> b_refcnt (bufs (cache s) ! i) = of_nat (size (claims_on i s)) \<and>
     size (lockers i s) = (if sl_locked (b_lock (bufs (cache s) ! i)) then 1 else 0)"

definition bio_inv :: "bsys \<Rightarrow> bool" where
  "bio_inv s \<longleftrightarrow> cache_ok (cache s) \<and> size (claims s) \<le> 2 ^ 31 \<and>
     (\<forall>c. c \<in># claims s \<longrightarrow> claim_ok s c) \<and> (\<forall>i<NBUF. buf_ok s i)"

lemma bio_invD:
  assumes "bio_inv s"
  shows "cache_ok (cache s)" "size (claims s) \<le> 2 ^ 31" "c \<in># claims s \<Longrightarrow> claim_ok s c"
    "i < NBUF \<Longrightarrow> buf_ok s i"
  using assms by (simp_all add: bio_inv_def)

lemma of_nat_uint_0: "n \<le> 2 ^ 31 \<Longrightarrow> (of_nat n :: uint) = 0 \<longleftrightarrow> n = 0"
  by (auto simp: word_of_nat_eq_0_iff dest: dvd_imp_le)

lemma filter_none: "filter_mset P M = {#} \<longleftrightarrow> (\<forall>x. x \<in># M \<longrightarrow> \<not> P x)"
  by (induction M) auto

lemma size_filter_mono:
  "(\<And>x. x \<in># M \<Longrightarrow> P x \<Longrightarrow> Q x) \<Longrightarrow> size (filter_mset P M) \<le> size (filter_mset Q M)"
  by (induction M) (auto simp: le_SucI)

lemma unclaimed:
  assumes inv: "bio_inv s" and i: "i < NBUF" and r: "b_refcnt (bufs (cache s) ! i) = 0"
  shows "claims_on i s = {#}" "lockers i s = {#}" "\<not> sl_locked (b_lock (bufs (cache s) ! i))"
    "c \<in># claims s \<Longrightarrow> c_idx c \<noteq> i"
proof -
  have "size (claims_on i s) \<le> 2 ^ 31"
    unfolding claims_on_def
    by (rule order_trans [OF size_filter_mset_lesseq bio_invD(2) [OF inv]])
  with r bio_invD(4) [OF inv i] show e: "claims_on i s = {#}"
    by (simp add: buf_ok_def of_nat_uint_0)
  then show no: "c \<in># claims s \<Longrightarrow> c_idx c \<noteq> i" for c
    by (auto simp: claims_on_def filter_none)
  then show l: "lockers i s = {#}" by (auto simp: lockers_def filter_none)
  with bio_invD(4) [OF inv i] show "\<not> sl_locked (b_lock (bufs (cache s) ! i))"
    by (simp add: buf_ok_def split: if_splits)
qed

lemma claims_on_add: "claims_on j \<lparr>cache = bc, claims = add_mset c M\<rparr> =
    (if c_idx c = j then add_mset c (filter_mset (\<lambda>c. c_idx c = j) M)
     else filter_mset (\<lambda>c. c_idx c = j) M)"
  by (simp add: claims_on_def)

lemma lockers_add: "lockers j \<lparr>cache = bc, claims = add_mset c M\<rparr> =
    (if c_idx c = j \<and> c_locked c then add_mset c (filter_mset (\<lambda>c. c_idx c = j \<and> c_locked c) M)
     else filter_mset (\<lambda>c. c_idx c = j \<and> c_locked c) M)"
  by (simp add: lockers_def)

lemma bio_start_inv: "bio_inv \<lparr>cache = binit m, claims = {#}\<rparr>"
  by (simp add: bio_inv_def cache_ok_binit buf_ok_def claims_on_def lockers_def)
    (auto simp: binit_def blank_buf_def initsleeplock_def)

lemma claim_ok_frame:
  assumes "claim_ok s c"
    "bkey (bufs bc' ! c_idx c) = bkey (bufs (cache s) ! c_idx c)"
    "b_lock (bufs bc' ! c_idx c) = b_lock (bufs (cache s) ! c_idx c)"
  shows "claim_ok \<lparr>cache = bc', claims = M\<rparr> c"
  using assms by (simp add: claim_ok_def)

lemma bio_claim_inv:
  assumes inv: "bio_inv s" and g: "bget_claim dev bno (cache s) = Ok (i, bc)"
    and nz: "(dev, bno) \<noteq> (0, 0)" and room: "size (claims s) < 2 ^ 31"
  shows "bio_inv \<lparr>cache = bc, claims = add_mset \<lparr>c_pid = p, c_idx = i, c_dev = dev, c_bno = bno,
       c_locked = False\<rparr> (claims s)\<rparr>" (is "bio_inv ?s")
proof -
  let ?c = "\<lparr>c_pid = p, c_idx = i, c_dev = dev, c_bno = bno, c_locked = False\<rparr>"
  note ok = cache_okD [OF bio_invD(1) [OF inv]]
  note gc = bget_claim_Ok [OF bio_invD(1) [OF inv] g]
  let ?b = "bufs (cache s) ! i"
  have i: "i < NBUF" and len: "i < length (bufs (cache s))" using gc ok by simp_all
  have other: "bufs bc ! j = bufs (cache s) ! j" if "j \<noteq> i" for j using gc that by auto
  have lk: "b_lock (bufs bc ! i) = b_lock ?b" using gc len by auto
  have rc: "b_refcnt (bufs bc ! i) = b_refcnt ?b + 1"
    using gc len by (auto simp: recyclable_def)
  have key: "bkey (bufs bc ! c_idx c) = bkey (bufs (cache s) ! c_idx c)" if "c \<in># claims s" for c
  proof (cases "c_idx c = i")
    case True
    then have "\<not> recyclable ?b" using unclaimed(4) [OF inv i] that by (auto simp: recyclable_def)
    with gc len True show ?thesis by (auto simp: bkey_def names_block_def)
  qed (simp add: other)
  have lock: "b_lock (bufs bc ! j) = b_lock (bufs (cache s) ! j)" for j
    using other lk by (cases "j = i") auto
  have "claim_ok ?s c" if "c \<in># claims ?s" for c
  proof (cases "c = ?c")
    case True
    with gc nz i show ?thesis by (simp add: claim_ok_def names_block_key)
  next
    case False
    with that have "c \<in># claims s" by simp
    then show ?thesis using key lock bio_invD(3) [OF inv] by (blast intro: claim_ok_frame)
  qed
  moreover have "buf_ok ?s j" if "j < NBUF" for j
    using bio_invD(4) [OF inv that] other [of j] lock [of j] rc
    by (cases "j = i") (simp_all add: buf_ok_def claims_on_add lockers_add claims_on_def lockers_def
        add.commute)
  ultimately show ?thesis using gc room by (simp add: bio_inv_def)
qed

lemma filter_remove:
  "c \<in># M \<Longrightarrow> P c \<Longrightarrow> size (filter_mset P M) = Suc (size (filter_mset P (M - {#c#})))"
  by (metis (mono_tags, lifting) filter_mset_add_mset insert_DiffM size_add_mset)

lemma filter_remove_not: "\<not> P c \<Longrightarrow> filter_mset P (M - {#c#}) = filter_mset P M"
  by (simp add: filter_diff_mset)

lemma size_swap: "c \<in># M \<Longrightarrow> size (add_mset d (M - {#c#})) = size M"
  by (metis insert_DiffM size_add_mset)

lemma bio_lock_inv:
  assumes inv: "bio_inv s" and c: "c \<in># claims s" "\<not> c_locked c"
    and l: "lock_buf (c_pid c) (c_idx c) (cache s) = Ok bc"
  shows "bio_inv \<lparr>cache = bc, claims = add_mset (c\<lparr>c_locked := True\<rparr>) (claims s - {#c#})\<rparr>"
    (is "bio_inv ?s")
proof -
  let ?i = "c_idx c"
  let ?b = "bufs (cache s) ! ?i"
  note ok = cache_okD [OF bio_invD(1) [OF inv]]
  have cok: "claim_ok s c" using bio_invD(3) [OF inv c(1)] .
  then have i: "?i < NBUF" by (simp add: claim_ok_def)
  obtain lk where lk: "acquiresleep (c_pid c) (b_lock ?b) = Ok lk"
    and bc: "bc = set_buf ?i (?b\<lparr>b_lock := lk\<rparr>) (cache s)"
    using l by (auto simp: lock_buf_def kres_simps)
  have free: "\<not> sl_locked (b_lock ?b)" and lk': "sl_locked lk" "holdingsleep (c_pid c) lk"
    using lk acquiresleep_holding [OF lk] by (auto simp: acquiresleep_def split: if_splits)
  have len: "?i < length (bufs (cache s))" using ok i by simp
  have nolock: "lockers ?i s = {#}" using bio_invD(4) [OF inv i] free by (simp add: buf_ok_def)
  have key: "bkey (bufs bc ! j) = bkey (bufs (cache s) ! j)" for j
    unfolding bc set_buf_simps by (rule bkey_update) (simp add: bkey_def)
  have "claim_ok ?s d" if "d \<in># claims ?s" for d
  proof (cases "d = c\<lparr>c_locked := True\<rparr>")
    case True
    have "bkey (bufs bc ! ?i) = (c_dev c, c_bno c)" using key cok by (simp add: claim_ok_def)
    moreover have "b_lock (bufs bc ! ?i) = lk" using len by (simp add: bc)
    ultimately show ?thesis using True cok lk' by (simp add: claim_ok_def)
  next
    case False
    with that have d: "d \<in># claims s" by (auto dest: in_diffD)
    show ?thesis
    proof (cases "c_idx d = ?i")
      case True
      then have "\<not> c_locked d" using nolock d by (auto simp: lockers_def filter_none)
      with bio_invD(3) [OF inv d] key show ?thesis by (simp add: claim_ok_def)
    next
      case False
      with bio_invD(3) [OF inv d] key show ?thesis by (simp add: claim_ok_def bc)
    qed
  qed
  moreover have "buf_ok ?s j" if j: "j < NBUF" for j
  proof (cases "j = ?i")
    case True
    have "size (claims_on ?i s) = Suc (size (filter_mset (\<lambda>c. c_idx c = ?i) (claims s - {#c#})))"
      unfolding claims_on_def by (rule filter_remove [OF c(1)]) simp
    moreover have "filter_mset (\<lambda>d. c_idx d = ?i \<and> c_locked d) (claims s - {#c#}) = {#}"
      using nolock c(2) by (simp add: filter_remove_not lockers_def)
    ultimately show ?thesis using bio_invD(4) [OF inv i] True lk' len
      by (simp add: buf_ok_def claims_on_add lockers_add bc)
  next
    case False
    with bio_invD(4) [OF inv j] c show ?thesis
      by (simp add: buf_ok_def claims_on_add lockers_add bc filter_remove_not)
        (auto simp: claims_on_def lockers_def filter_none split: if_splits)
  qed
  moreover have "cache_ok bc" unfolding bc
    by (rule cache_ok_same_name [OF bio_invD(1) [OF inv]]) (simp add: bkey_def)
  moreover have "size (claims ?s) = size (claims s)" using c(1)
    by (simp add: size_swap del: size_add_mset)
  ultimately show ?thesis using bio_invD(2) [OF inv] by (simp add: bio_inv_def)
qed

lemma bio_use_inv:
  assumes inv: "bio_inv s" and c: "c \<in># claims s" and b: "b = bufs (cache s) ! c_idx c"
  shows "bio_inv (s\<lparr>cache := set_buf (c_idx c)
       (b\<lparr>b_valid := v, b_dirty := d, b_data := x\<rparr>) (cache s\<lparr>media := m\<rparr>)\<rparr>)" (is "bio_inv ?s")
proof -
  let ?i = "c_idx c" and ?b = "b\<lparr>b_valid := v, b_dirty := d, b_data := x\<rparr>"
  note ok = cache_okD [OF bio_invD(1) [OF inv]]
  have "?i < NBUF" using bio_invD(3) [OF inv c] by (simp add: claim_ok_def)
  then have len: "?i < length (bufs (cache s))" using ok by simp
  have key: "bkey (bufs (cache ?s) ! j) = bkey (bufs (cache s) ! j)" for j
    using len by (auto simp: b bkey_def nth_list_update)
  have lock: "b_lock (bufs (cache ?s) ! j) = b_lock (bufs (cache s) ! j)"
    "b_refcnt (bufs (cache ?s) ! j) = b_refcnt (bufs (cache s) ! j)" for j
    using len by (auto simp: b nth_list_update)
  have cl: "claims ?s = claims s" "claims_on j ?s = claims_on j s" "lockers j ?s = lockers j s" for j
    by (simp_all add: claims_on_def lockers_def)
  have "cache_ok (cache ?s)"
    using ok uniq_same_name [of "bufs (cache s)" ?b ?i] by (simp add: cache_ok_def b bkey_def)
  moreover have "claim_ok ?s e" if "e \<in># claims ?s" for e
    using bio_invD(3) [OF inv] that unfolding claim_ok_def key lock cl by blast
  moreover have "buf_ok ?s j" if "j < NBUF" for j
    using bio_invD(4) [OF inv that] unfolding buf_ok_def lock cl .
  ultimately show ?thesis using bio_invD(2) [OF inv] unfolding bio_inv_def cl by blast
qed

lemma brelse_effect:
  assumes "brelse pid i bc = Ok bc'" "i < length (bufs bc)"
  shows "holdingsleep pid (b_lock (bufs bc ! i))"
    "bufs bc' = (bufs bc)[i := (bufs bc ! i)\<lparr>b_lock := releasesleep (b_lock (bufs bc ! i)),
       b_refcnt := b_refcnt (bufs bc ! i) - 1\<rparr>]"
    "lru bc' = (if b_refcnt (bufs bc ! i) = 1 then i # remove1 i (lru bc) else lru bc)"
    "media bc' = media bc"
  using assms by (auto simp: brelse_def Let_def split: if_splits)

lemma cache_ok_brelse:
  assumes "cache_ok bc" "brelse pid i bc = Ok bc'" "i < NBUF"
  shows "cache_ok bc'"
proof -
  note ok = cache_okD [OF assms(1)]
  have len: "i < length (bufs bc)" using assms ok by simp
  note eff = brelse_effect [OF assms(2) len]
  have "uniq (bufs bc')" unfolding eff
    using ok by (intro uniq_same_name) (auto simp: bkey_def)
  moreover have "distinct (lru bc') \<and> set (lru bc') = {..<NBUF}"
    using ok assms(3) by (auto simp: eff(3))
  ultimately show ?thesis using ok by (simp add: cache_ok_def eff)
qed

lemma bio_release_inv:
  assumes inv: "bio_inv s" and c: "c \<in># claims s" "c_locked c"
    and r: "brelse (c_pid c) (c_idx c) (cache s) = Ok bc"
  shows "bio_inv \<lparr>cache = bc, claims = claims s - {#c#}\<rparr>" (is "bio_inv ?s")
proof -
  let ?i = "c_idx c"
  let ?b = "bufs (cache s) ! ?i"
  note ok = cache_okD [OF bio_invD(1) [OF inv]]
  have i: "?i < NBUF" using bio_invD(3) [OF inv c(1)] by (simp add: claim_ok_def)
  then have len: "?i < length (bufs (cache s))" using ok by simp
  note eff = brelse_effect [OF r len]
  have key: "bkey (bufs bc ! j) = bkey (bufs (cache s) ! j)" for j
    unfolding eff by (rule bkey_update) (simp add: bkey_def)
  have held: "sl_locked (b_lock ?b)" using eff(1) by (simp add: holdingsleep_def)
  have "size (lockers ?i s) = Suc (size (filter_mset (\<lambda>c. c_idx c = ?i \<and> c_locked c) (claims s - {#c#})))"
    unfolding lockers_def by (rule filter_remove [OF c(1)]) (simp add: c)
  with bio_invD(4) [OF inv i] held
  have none: "filter_mset (\<lambda>c. c_idx c = ?i \<and> c_locked c) (claims s - {#c#}) = {#}"
    by (simp add: buf_ok_def)
  have one: "size (claims_on ?i s) = Suc (size (filter_mset (\<lambda>c. c_idx c = ?i) (claims s - {#c#})))"
    unfolding claims_on_def by (rule filter_remove [OF c(1)]) simp
  have "claim_ok ?s d" if "d \<in># claims ?s" for d
  proof -
    have d: "d \<in># claims s" using that by (auto dest: in_diffD)
    have "b_lock (bufs bc ! c_idx d) = b_lock (bufs (cache s) ! c_idx d)" if "c_locked d"
    proof -
      have "c_idx d \<noteq> ?i"
        using none that \<open>d \<in># claims ?s\<close> unfolding filter_none by simp blast
      then show ?thesis by (simp add: eff)
    qed
    with bio_invD(3) [OF inv d] key show ?thesis by (simp add: claim_ok_def)
  qed
  moreover have "buf_ok ?s j" if j: "j < NBUF" for j
  proof (cases "j = ?i")
    case True
    then show ?thesis using bio_invD(4) [OF inv i] one none len
      by (simp add: buf_ok_def eff releasesleep_def) (simp add: claims_on_def lockers_def)
  next
    case False
    with bio_invD(4) [OF inv j] show ?thesis
      by (simp add: buf_ok_def eff) (auto simp: claims_on_def lockers_def filter_remove_not filter_none split: if_splits)
  qed
  moreover have "size (claims ?s) \<le> 2 ^ 31"
    using bio_invD(2) [OF inv] size_Diff_submset [of "{#c#}" "claims s"] c(1) by simp
  ultimately show ?thesis using cache_ok_brelse [OF bio_invD(1) [OF inv] r i]
    by (simp add: bio_inv_def)
qed

lemma bio_step_inv: "bio_step s s' \<Longrightarrow> bio_inv s \<Longrightarrow> bio_inv s'"
proof (induction rule: bio_step.induct)
  case (claim dev bno s i bc p)
  then show ?case by (simp add: bio_claim_inv)
next
  case (lock c s bc)
  then show ?case by (simp add: bio_lock_inv)
next
  case (use c s b v d x m)
  then show ?case by (simp add: bio_use_inv)
next
  case (release c s bc)
  then show ?case by (simp add: bio_release_inv)
qed

lemma bio_reach_inv: "bio_reach s \<Longrightarrow> bio_inv s"
  by (induction rule: bio_reach.induct) (auto intro: bio_start_inv bio_step_inv)

section \<open>What \<open>bread\<close> delivers\<close>

lemma block_view_hit:
  assumes ok: "cache_ok bc" and i: "i < NBUF" and nm: "bkey (bufs bc ! i) = (dev, bno)"
    and v: "b_valid (bufs bc ! i)" and nz: "(dev, bno) \<noteq> (0, 0)"
  shows "block_view bc dev bno = b_data (bufs bc ! i)"
proof -
  let ?P = "\<lambda>i. names_block dev bno (bufs bc ! i) \<and> b_valid (bufs bc ! i)"
  have "find ?P [0..<NBUF] \<noteq> None"
    using i nm v by (auto simp: find_None_iff names_block_key)
  then obtain j where j: "find ?P [0..<NBUF] = Some j" by auto
  then have pj: "j < NBUF" "bkey (bufs bc ! j) = (dev, bno)"
    using find_SomeD [OF j] by (auto simp: names_block_key)
  then have "j = i" using uniqD [of "bufs bc" j i] cache_okD [OF ok] i nm nz by simp
  with j show ?thesis by (simp add: block_view_def)
qed

lemma block_view_miss:
  assumes "\<forall>i<NBUF. names_block dev bno (bufs bc ! i) \<longrightarrow> \<not> b_valid (bufs bc ! i)"
  shows "block_view bc dev bno = media bc dev bno"
proof -
  have "find (\<lambda>i. names_block dev bno (bufs bc ! i) \<and> b_valid (bufs bc ! i)) [0..<NBUF] = None"
    using assms by (auto simp: find_None_iff)
  then show ?thesis by (simp add: block_view_def)
qed

text \<open>A buffer that is recycled is clean, so a valid one must agree with the medium for its block
  not to be lost.\<close>

definition clean_ok :: "bcache \<Rightarrow> bool" where
  "clean_ok bc \<longleftrightarrow> (\<forall>i<NBUF. b_valid (bufs bc ! i) \<and> \<not> b_dirty (bufs bc ! i) \<and> b_refcnt (bufs bc ! i) = 0
     \<longrightarrow> b_data (bufs bc ! i) = media bc (b_dev (bufs bc ! i)) (b_blockno (bufs bc ! i)))"

lemma lock_buf_Ok:
  assumes "lock_buf pid i bc = Ok bc'" "i < length (bufs bc)"
  shows "\<exists>lk. bc' = set_buf i ((bufs bc ! i)\<lparr>b_lock := lk\<rparr>) bc \<and> holdingsleep pid lk"
  using assms acquiresleep_holding by (fastforce simp: lock_buf_def kres_simps)

lemma bget_Ok:
  assumes ok: "cache_ok bc" and r: "bget pid dev bno bc = Ok (i, bc')"
  shows "i < NBUF \<and> bkey (bufs bc' ! i) = (dev, bno) \<and> cache_ok bc' \<and> media bc' = media bc \<and>
    holdingsleep pid (b_lock (bufs bc' ! i)) \<and>
    (bkey (bufs bc ! i) = (dev, bno) \<and> b_valid (bufs bc' ! i) = b_valid (bufs bc ! i) \<and>
       b_data (bufs bc' ! i) = b_data (bufs bc ! i) \<or>
     (\<forall>j<NBUF. \<not> names_block dev bno (bufs bc ! j)) \<and> recyclable (bufs bc ! i) \<and>
       \<not> b_valid (bufs bc' ! i)) \<and>
    (\<forall>j<NBUF. j \<noteq> i \<longrightarrow> bufs bc' ! j = bufs bc ! j)"
proof -
  obtain bc1 where c: "bget_claim dev bno bc = Ok (i, bc1)" and l: "lock_buf pid i bc1 = Ok bc'"
    using r by (auto simp: bget_def kres_simps)
  note g = bget_claim_Ok [OF ok c]
  have len: "i < length (bufs bc1)" "length (bufs bc) = NBUF" "length (bufs bc1) = NBUF"
    using g cache_okD(1) ok by auto
  obtain lk where lk: "bc' = set_buf i ((bufs bc1 ! i)\<lparr>b_lock := lk\<rparr>) bc1" "holdingsleep pid lk"
    using lock_buf_Ok [OF l len(1)] by blast
  have ok': "cache_ok bc'" unfolding lk(1)
    using g by (intro cache_ok_same_name) (auto simp: bkey_def)
  have "bkey (bufs bc' ! i) = (dev, bno)" using g len by (simp add: lk names_block_def bkey_def)
  moreover have "\<forall>j<NBUF. j \<noteq> i \<longrightarrow> bufs bc' ! j = bufs bc ! j" using g by (auto simp: lk)
  moreover have "bkey (bufs bc ! i) = (dev, bno) \<and> b_valid (bufs bc' ! i) = b_valid (bufs bc ! i) \<and>
       b_data (bufs bc' ! i) = b_data (bufs bc ! i) \<or>
     (\<forall>j<NBUF. \<not> names_block dev bno (bufs bc ! j)) \<and> recyclable (bufs bc ! i) \<and>
       \<not> b_valid (bufs bc' ! i)"
  proof -
    from g consider
      (hit) "names_block dev bno (bufs bc ! i)"
        "bc1 = set_buf i ((bufs bc ! i)\<lparr>b_refcnt := b_refcnt (bufs bc ! i) + 1\<rparr>) bc"
    | (miss) "\<forall>j<NBUF. \<not> names_block dev bno (bufs bc ! j)" "recyclable (bufs bc ! i)"
        "bc1 = set_buf i ((bufs bc ! i)\<lparr>b_dev := dev, b_blockno := bno,
                  b_valid := False, b_dirty := False, b_refcnt := 1\<rparr>) bc" by blast
    then show ?thesis
    proof cases
      case hit
      with len show ?thesis by (simp add: lk names_block_key)
    next
      case miss
      with len show ?thesis by (simp add: lk)
    qed
  qed
  ultimately show ?thesis using g ok' lk len by simp
qed

lemma bget_view:
  assumes ok: "cache_ok bc" and r: "bget pid dev bno bc = Ok (i, bc')" and nz: "(dev, bno) \<noteq> (0, 0)"
  shows "(if b_valid (bufs bc' ! i) then b_data (bufs bc' ! i) else media bc' dev bno)
     = block_view bc dev bno"
proof -
  note g = bget_Ok [OF ok r]
  show ?thesis
  proof (cases "bkey (bufs bc ! i) = (dev, bno)")
    case True
    then have hit: "b_valid (bufs bc' ! i) = b_valid (bufs bc ! i)"
      "b_data (bufs bc' ! i) = b_data (bufs bc ! i)"
      using g by (auto simp: names_block_key)
    show ?thesis
    proof (cases "b_valid (bufs bc ! i)")
      case v: True
      with hit block_view_hit [OF ok _ True v nz] g show ?thesis by simp
    next
      case False
      have "\<not> b_valid (bufs bc ! j)" if "j < NBUF" "names_block dev bno (bufs bc ! j)" for j
        using uniqD [of "bufs bc" j i] that True False nz g cache_okD [OF ok]
        by (auto simp: names_block_key)
      with hit False g block_view_miss [of dev bno bc] show ?thesis by simp
    qed
  next
    case False
    then have "\<forall>j<NBUF. \<not> names_block dev bno (bufs bc ! j)" "\<not> b_valid (bufs bc' ! i)"
      using g by auto
    with g block_view_miss [of dev bno bc] show ?thesis by simp
  qed
qed

lemma iderw_read:
  assumes "holdingsleep pid (b_lock (bufs bc ! i))" "i < length (bufs bc)" "\<not> b_valid (bufs bc ! i)"
    "\<not> b_dirty (bufs bc ! i)"
  shows "iderw_done pid i bc = Ok (set_buf i ((bufs bc ! i)\<lparr>b_valid := True,
     b_data := media bc (b_dev (bufs bc ! i)) (b_blockno (bufs bc ! i))\<rparr>) bc)"
  using assms by (simp add: iderw_done_def Let_def)

definition dirty_valid :: "bcache \<Rightarrow> bool" where
  "dirty_valid bc \<longleftrightarrow> (\<forall>i<NBUF. b_dirty (bufs bc ! i) \<longrightarrow> b_valid (bufs bc ! i))"

lemma bget_not_dirty:
  assumes ok: "cache_ok bc" "dirty_valid bc" and r: "bget pid dev bno bc = Ok (i, bc')"
    and nv: "\<not> b_valid (bufs bc' ! i)"
  shows "\<not> b_dirty (bufs bc' ! i)"
proof -
  obtain bc1 where c: "bget_claim dev bno bc = Ok (i, bc1)" and l: "lock_buf pid i bc1 = Ok bc'"
    using r by (auto simp: bget_def kres_simps)
  note g = bget_claim_Ok [OF ok(1) c]
  have len: "i < length (bufs bc1)" "i < length (bufs bc)" "i < NBUF"
    using g cache_okD(1) ok by auto
  obtain lk where lk: "bc' = set_buf i ((bufs bc1 ! i)\<lparr>b_lock := lk\<rparr>) bc1"
    using lock_buf_Ok [OF l len(1)] by blast
  from g show ?thesis using ok(2) nv len by (auto simp: lk dirty_valid_def)
qed

lemma bread_view:
  assumes ok: "cache_ok bc" "dirty_valid bc" and nz: "(dev, bno) \<noteq> (0, 0)"
    and r: "bread pid dev bno bc = Ok (i, bc')"
  shows "b_data (bufs bc' ! i) = block_view bc dev bno \<and> b_valid (bufs bc' ! i) \<and>
    bkey (bufs bc' ! i) = (dev, bno) \<and> holdingsleep pid (b_lock (bufs bc' ! i)) \<and> cache_ok bc'"
proof -
  obtain bc1 where g: "bget pid dev bno bc = Ok (i, bc1)"
    and r1: "(if b_valid (bufs bc1 ! i) then Ok (i, bc1)
       else kbind (iderw_done pid i bc1) (\<lambda>bc''. Ok (i, bc''))) = Ok (i, bc')"
    using r by (auto simp: bread_def kres_simps split: if_splits)
  note go = bget_Ok [OF ok(1) g] and gv = bget_view [OF ok(1) g nz]
  have len: "i < length (bufs bc1)" using go cache_okD(1) [of bc1] by simp
  show ?thesis
  proof (cases "b_valid (bufs bc1 ! i)")
    case True
    with r1 go gv show ?thesis by simp
  next
    case False
    have nd: "\<not> b_dirty (bufs bc1 ! i)" by (rule bget_not_dirty [OF ok g False])
    have hs: "holdingsleep pid (b_lock (bufs bc1 ! i))" using go by simp
    let ?b = "(bufs bc1 ! i)\<lparr>b_valid := True,
     b_data := media bc1 (b_dev (bufs bc1 ! i)) (b_blockno (bufs bc1 ! i))\<rparr>"
    have bc': "bc' = set_buf i ?b bc1"
      using r1 False iderw_read [OF hs len False nd] by simp
    have "cache_ok bc'" unfolding bc' using go by (intro cache_ok_same_name) (auto simp: bkey_def)
    with go gv False len show ?thesis by (simp add: bc' bkey_def)
  qed
qed

section \<open>Properties\<close>

text \<open>C9: Buffers are exclusive.  In every state reachable by processes that look up, lock, use and
  release buffers in any interleaving, a reference obtained from \<open>bget\<close> keeps naming the block
  it was asked for (the buffer is not recycled under its holder), and at most one process has a
  given block locked.\<close>

theorem buffer_exclusive:
  assumes "bio_reach s" and "c \<in># claims s"
  shows "bkey (bufs (cache s) ! c_idx c) = (c_dev c, c_bno c) \<and>
    size (filter_mset (\<lambda>d. c_locked d \<and> c_dev d = c_dev c \<and> c_bno d = c_bno c) (claims s)) \<le> 1"
proof -
  note inv = bio_reach_inv [OF assms(1)]
  note ok = cache_okD [OF bio_invD(1) [OF inv]]
  have cok: "claim_ok s c" by (rule bio_invD(3) [OF inv assms(2)])
  have idx: "c_idx d = c_idx c" if "d \<in># claims s" "c_dev d = c_dev c" "c_bno d = c_bno c" for d
    using bio_invD(3) [OF inv that(1)] cok uniqD [OF ok(4), of "c_idx d" "c_idx c"] that ok(1)
    by (simp add: claim_ok_def)
  have "size (filter_mset (\<lambda>d. c_locked d \<and> c_dev d = c_dev c \<and> c_bno d = c_bno c) (claims s))
      \<le> size (lockers (c_idx c) s)"
    unfolding lockers_def by (rule size_filter_mono) (use idx in blast)
  also have "\<dots> \<le> 1" using bio_invD(4) [OF inv, of "c_idx c"] cok
    by (auto simp: claim_ok_def buf_ok_def)
  finally show ?thesis using cok by (simp add: claim_ok_def)
qed

text \<open>\<open>bread\<close> returns the block.  When it returns, the buffer is valid, locked by the caller,
  named for the requested block, and holds the block's current contents: the cached copy if
  there was a valid one, else what is on the medium.\<close>

theorem bread_current:
  assumes "cache_ok bc" "dirty_valid bc" "(dev, bno) \<noteq> (0, 0)"
    and "bread pid dev bno bc = Ok (i, bc')"
  shows "b_data (bufs bc' ! i) = block_view bc dev bno \<and> b_valid (bufs bc' ! i) \<and>
    names_block dev bno (bufs bc' ! i) \<and> holdingsleep pid (b_lock (bufs bc' ! i)) \<and> cache_ok bc'"
  using bread_view [OF assms] by (simp add: names_block_key)

section \<open>Witnesses\<close>

definition demo_media :: "uint \<Rightarrow> uint \<Rightarrow> block" where
  "demo_media d b = (\<lambda>i. of_nat i)"

lemma demo_bget:
  "\<exists>bc. bget_claim 1 5 (binit demo_media) = Ok (0, bc)"
  by (simp add: bget_claim_def binit_def blank_buf_def names_block_def recyclable_def
      upt_rec Let_def)

theorem buffer_exclusive_witness:
  "\<exists>s c. bio_reach s \<and> c \<in># claims s \<and> bkey (bufs (cache s) ! c_idx c) = (1, 5)"
proof -
  obtain bc where bc: "bget_claim 1 5 (cache \<lparr>cache = binit demo_media, claims = {#}\<rparr>) = Ok (0, bc)"
    using demo_bget by auto
  let ?c = "\<lparr>c_pid = 3, c_idx = 0, c_dev = 1, c_bno = 5, c_locked = False\<rparr>"
  have "bio_reach \<lparr>cache = bc, claims = add_mset ?c (claims \<lparr>cache = binit demo_media, claims = {#}\<rparr>)\<rparr>"
    by (rule bio_more [OF bio_start bio_step.claim [OF bc]]) simp_all
  then show ?thesis
    using buffer_exclusive [of "\<lparr>cache = bc, claims = {#?c#}\<rparr>" ?c]
    by (intro exI [of _ "\<lparr>cache = bc, claims = {#?c#}\<rparr>"] exI [of _ ?c]) simp
qed

lemma demo_bread: "\<exists>bc. bread 3 1 5 (binit demo_media) = Ok (0, bc)"
  by (simp add: bread_def bget_def lock_buf_def bget_claim_def binit_def blank_buf_def
      names_block_def recyclable_def initsleeplock_def acquiresleep_def iderw_done_def
      holdingsleep_def upt_rec Let_def)

theorem bread_current_witness:
  "\<exists>bc. bread 3 1 5 (binit demo_media) = Ok (0, bc) \<and>
    b_data (bufs bc ! 0) = block_view (binit demo_media) 1 5"
proof -
  have dv: "dirty_valid (binit demo_media)"
    by (simp add: dirty_valid_def binit_def blank_buf_def)
  obtain bc where bc: "bread 3 1 5 (binit demo_media) = Ok (0, bc)" using demo_bread by auto
  have "((1::uint), (5::uint)) \<noteq> (0, 0)" by simp
  from bread_current [OF cache_ok_binit dv this bc] bc show ?thesis by blast
qed

end
