(* ===== verification/FsLog.thy ===== *)
theory FsLog
  imports Block
begin

text \<open>
  The write-ahead log, \<open>kernel/log.c\<close>, over the blocks of one device.

  The state distinguishes what is on the medium (\<open>disk\<close>) from the current contents of each block
  as the buffer cache presents them (\<open>blk\<close>; the theory of \<open>bio.c\<close> shows that \<open>bread\<close> returns
  them).  \<open>held\<close> are the blocks whose buffer the running process has locked, \<open>pinned\<close> those
  marked \<open>B_DIRTY\<close> by \<open>log_write\<close>, and \<open>writes\<close> records the completed disk writes in order, so
  that a crash can be placed between any two of them.
\<close>

abbreviation LOGSIZE :: nat where "LOGSIZE \<equiv> 30"
abbreviation MAXOPBLOCKS :: nat where "MAXOPBLOCKS \<equiv> 10"

record txn =
  disk :: "nat \<Rightarrow> block"
  blk :: "nat \<Rightarrow> block"
  held :: "nat set"
  pinned :: "nat set"
  writes :: "(nat \<times> block) list"
  log_start :: nat
  log_size :: nat
  outstanding :: int
  committing :: bool
  lh :: "nat list"

section \<open>Buffers, as the log and the file system use them\<close>

definition tx_read :: "nat \<Rightarrow> 'a txn_scheme \<Rightarrow> (block \<times> 'a txn_scheme) kres" where
  "tx_read b s = (if b \<in> held s then Blocked ''buffer''
     else Ok (blk s b, s\<lparr>held := insert b (held s)\<rparr>))"

definition tx_put :: "nat \<Rightarrow> block \<Rightarrow> 'a txn_scheme \<Rightarrow> 'a txn_scheme" where
  "tx_put b x s = s\<lparr>blk := (blk s)(b := x)\<rparr>"

definition tx_bwrite :: "nat \<Rightarrow> 'a txn_scheme \<Rightarrow> 'a txn_scheme kres" where
  "tx_bwrite b s = (if b \<notin> held s then Panic ''bwrite''
     else Ok (s\<lparr>disk := (disk s)(b := blk s b), pinned := pinned s - {b},
                writes := writes s @ [(b, blk s b)]\<rparr>))"

definition tx_release :: "nat \<Rightarrow> 'a txn_scheme \<Rightarrow> 'a txn_scheme kres" where
  "tx_release b s = (if b \<notin> held s then Panic ''brelse'' else Ok (s\<lparr>held := held s - {b}\<rparr>))"

section \<open>The log header\<close>

fun put_header_blocks :: "nat list \<Rightarrow> nat \<Rightarrow> block \<Rightarrow> block" where
  "put_header_blocks [] i b = b"
| "put_header_blocks (x # xs) i b = put_header_blocks xs (Suc i) (put32 b (4 + 4 * i) (of_nat x))"

definition put_header :: "nat list \<Rightarrow> block \<Rightarrow> block" where
  "put_header xs b = put_header_blocks xs 0 (put32 b 0 (of_nat (length xs)))"

text \<open>A negative count reads as an empty log, as the loop of \<open>read_head\<close> does.  A count beyond \<open>LOGSIZE\<close>, which the code
  does not test, is copied past the end of \<open>log.lh.block\<close>: a panic here.\<close>

definition get_header :: "block \<Rightarrow> nat list" where
  "get_header b = map (\<lambda>i. unat (get32 b (4 + 4 * i))) [0..<nat (sint (get32 b 0))]"

definition read_head :: "'a txn_scheme \<Rightarrow> 'a txn_scheme kres" where
  "read_head s = kbind (tx_read (log_start s) s) (\<lambda>(b, s1).
     if LOGSIZE < length (get_header b) then Panic ''log header''
     else tx_release (log_start s) (s1\<lparr>lh := get_header b\<rparr>))"

definition write_head :: "'a txn_scheme \<Rightarrow> 'a txn_scheme kres" where
  "write_head s = kbind (tx_read (log_start s) s) (\<lambda>(b, s1).
     kbind (tx_bwrite (log_start s) (tx_put (log_start s) (put_header (lh s) b) s1))
       (tx_release (log_start s)))"

section \<open>Installing and recovering\<close>

definition install_one :: "nat \<Rightarrow> 'a txn_scheme \<Rightarrow> 'a txn_scheme kres" where
  "install_one tail s =
     (let lbno = log_start s + tail + 1; dbno = lh s ! tail in
      kbind (tx_read lbno s) (\<lambda>(lbuf, s1).
      kbind (tx_read dbno s1) (\<lambda>(_, s2).
      kbind (tx_bwrite dbno (tx_put dbno lbuf s2)) (\<lambda>s3.
      kbind (tx_release lbno s3) (tx_release dbno)))))"

definition install_trans :: "'a txn_scheme \<Rightarrow> 'a txn_scheme kres" where
  "install_trans s = kloop install_one 0 (length (lh s)) s"

definition recover_from_log :: "'a txn_scheme \<Rightarrow> 'a txn_scheme kres" where
  "recover_from_log s = kbind (read_head s) (\<lambda>s1. kbind (install_trans s1) (\<lambda>s2.
     write_head (s2\<lparr>lh := []\<rparr>)))"

section \<open>Transactions\<close>

definition begin_op :: "'a txn_scheme \<Rightarrow> 'a txn_scheme kres" where
  "begin_op s =
     (if committing s then Blocked ''log''
      else if int (length (lh s)) + (outstanding s + 1) * int MAXOPBLOCKS > int LOGSIZE
      then Blocked ''log''
      else Ok (s\<lparr>outstanding := outstanding s + 1\<rparr>))"

definition write_log_one :: "nat \<Rightarrow> 'a txn_scheme \<Rightarrow> 'a txn_scheme kres" where
  "write_log_one tail s =
     (let tobno = log_start s + tail + 1; frombno = lh s ! tail in
      kbind (tx_read tobno s) (\<lambda>(_, s1).
      kbind (tx_read frombno s1) (\<lambda>(from, s2).
      kbind (tx_bwrite tobno (tx_put tobno from s2)) (\<lambda>s3.
      kbind (tx_release frombno s3) (tx_release tobno)))))"

definition write_log :: "'a txn_scheme \<Rightarrow> 'a txn_scheme kres" where
  "write_log s = kloop write_log_one 0 (length (lh s)) s"

definition commit :: "'a txn_scheme \<Rightarrow> 'a txn_scheme kres" where
  "commit s = (if lh s = [] then Ok s
     else kbind (write_log s) (\<lambda>s1. kbind (write_head s1) (\<lambda>s2. kbind (install_trans s2) (\<lambda>s3.
       write_head (s3\<lparr>lh := []\<rparr>)))))"

text \<open>\<open>end_op\<close> has two critical sections with the commit between them.\<close>

definition end_op_enter :: "'a txn_scheme \<Rightarrow> (bool \<times> 'a txn_scheme) kres" where
  "end_op_enter s =
     (let s1 = s\<lparr>outstanding := outstanding s - 1\<rparr> in
      if committing s1 then Panic ''log.committing''
      else if outstanding s1 = 0 then Ok (True, s1\<lparr>committing := True\<rparr>)
      else Ok (False, s1))"

definition end_op_leave :: "'a txn_scheme \<Rightarrow> 'a txn_scheme" where
  "end_op_leave s = s\<lparr>committing := False\<rparr>"

definition end_op :: "'a txn_scheme \<Rightarrow> 'a txn_scheme kres" where
  "end_op s = kbind (end_op_enter s) (\<lambda>(do_commit, s1).
     if do_commit then kbind (commit s1) (\<lambda>s2. Ok (end_op_leave s2)) else Ok s1)"

definition log_write :: "nat \<Rightarrow> 'a txn_scheme \<Rightarrow> 'a txn_scheme kres" where
  "log_write b s =
     (if length (lh s) \<ge> LOGSIZE \<or> int (length (lh s)) \<ge> int (log_size s) - 1
      then Panic ''too big a transaction''
      else if outstanding s < 1 then Panic ''log_write outside of trans''
      else Ok (s\<lparr>lh := (case scan (\<lambda>i. lh s ! i = b) 0 (length (lh s)) of
                         Some i \<Rightarrow> (lh s)[i := b] | None \<Rightarrow> lh s @ [b]),
                 pinned := insert b (pinned s)\<rparr>))"

section \<open>Writes and crashes\<close>

definition apply_writes :: "(nat \<Rightarrow> block) \<Rightarrow> (nat \<times> block) list \<Rightarrow> (nat \<Rightarrow> block)" where
  "apply_writes d ws = foldl (\<lambda>d w. d(fst w := snd w)) d ws"

definition log_area :: "nat \<Rightarrow> nat \<Rightarrow> nat set" where
  "log_area start n = {start..start + n}"

lemma apply_writes_simps [simp]:
  "apply_writes d [] = d"
  "apply_writes d (w # ws) = apply_writes (d(fst w := snd w)) ws"
  "apply_writes d (ws @ vs) = apply_writes (apply_writes d ws) vs"
  by (simp_all add: apply_writes_def)

lemma apply_writes_notin: "b \<notin> fst ` set ws \<Longrightarrow> apply_writes d ws b = d b"
  by (induction ws arbitrary: d) auto

lemma apply_writes_map:
  "distinct (map f [i..<j]) \<Longrightarrow> i \<le> k \<Longrightarrow> k < j \<Longrightarrow>
   apply_writes d (map (\<lambda>k. (f k, g k)) [i..<j]) (f k) = g k"
proof (induction j)
  case (Suc j)
  then have nd: "distinct (map f [i..<j])" by (simp split: if_splits)
  show ?case
  proof (cases "k = j")
    case True
    with Suc.prems show ?thesis by simp
  next
    case False
    with Suc.prems have k: "k < j" by simp
    then have "k \<in> {i..<j}" using Suc.prems(2) by simp
    moreover have "f j \<notin> f ` {i..<j}" using Suc.prems k by simp
    ultimately have "f k \<noteq> f j" by (metis image_eqI)
    with Suc.IH [OF nd Suc.prems(2) k] Suc.prems show ?thesis by simp
  qed
qed simp

subsection \<open>The header round trip\<close>

lemma put_header_blocks_low:
  "k + 4 \<le> 4 + 4 * i \<Longrightarrow> get32 (put_header_blocks xs i b) k = get32 b k"
proof (induction xs arbitrary: i b)
  case (Cons x xs)
  have "get32 (put_header_blocks xs (Suc i) (put32 b (4 + 4 * i) (of_nat x))) k =
      get32 (put32 b (4 + 4 * i) (of_nat x)) k"
    using Cons.prems by (intro Cons.IH) simp
  with Cons.prems show ?case by (simp add: get32_put32_other)
qed simp

lemma put_header_blocks_get:
  "j < length xs \<Longrightarrow> get32 (put_header_blocks xs i b) (4 + 4 * (i + j)) = of_nat (xs ! j)"
proof (induction xs arbitrary: i j b)
  case (Cons x xs)
  show ?case
  proof (cases j)
    case 0
    then show ?thesis by (simp add: put_header_blocks_low)
  next
    case (Suc j')
    with Cons.IH [of j' "Suc i"] Cons.prems show ?thesis by simp
  qed
qed simp

lemma get_put_header:
  assumes "length xs \<le> LOGSIZE" "\<forall>x\<in>set xs. x < 2 ^ 32"
  shows "get_header (put_header xs b) = xs"
proof -
  have n: "get32 (put_header xs b) 0 = of_nat (length xs)"
    by (simp add: put_header_def put_header_blocks_low)
  have "sint (of_nat (length xs) :: uint) = int (length xs)"
    using assms(1) by (simp add: signed_of_nat signed_take_bit_int_eq_self)
  then have len: "nat (sint (get32 (put_header xs b) 0)) = length xs" by (simp add: n)
  have "unat (get32 (put_header xs b) (4 + 4 * i)) = xs ! i" if "i < length xs" for i
  proof -
    have "get32 (put_header xs b) (4 + 4 * i) = of_nat (xs ! i)"
      using put_header_blocks_get [OF that, of 0] by (simp add: put_header_def)
    moreover have "xs ! i < 2 ^ 32" using assms(2) that nth_mem by blast
    ultimately show ?thesis by (simp add: unat_of_nat)
  qed
  then show ?thesis unfolding get_header_def len by (intro nth_equalityI) auto
qed

lemma get_header_empty: "get_header (put_header [] b) = []"
  by (rule get_put_header) simp_all

section \<open>What each operation writes\<close>

definition tx_home :: "nat \<Rightarrow> block \<Rightarrow> 'a txn_scheme \<Rightarrow> 'a txn_scheme" where
  "tx_home b x s = s\<lparr>disk := (disk s)(b := x), blk := (blk s)(b := x), pinned := pinned s - {b},
     writes := writes s @ [(b, x)]\<rparr>"

definition home_all :: "(nat \<times> block) list \<Rightarrow> 'a txn_scheme \<Rightarrow> 'a txn_scheme" where
  "home_all ws s = foldl (\<lambda>s w. tx_home (fst w) (snd w) s) s ws"

lemma tx_home_fields [simp]:
  "disk (tx_home b x s) = (disk s)(b := x)" "blk (tx_home b x s) = (blk s)(b := x)"
  "held (tx_home b x s) = held s" "writes (tx_home b x s) = writes s @ [(b, x)]"
  "lh (tx_home b x s) = lh s" "log_start (tx_home b x s) = log_start s"
  "outstanding (tx_home b x s) = outstanding s" "committing (tx_home b x s) = committing s"
  "log_size (tx_home b x s) = log_size s" "pinned (tx_home b x s) = pinned s - {b}"
  by (simp_all add: tx_home_def)

lemma home_all_simps [simp]:
  "home_all [] s = s"
  "home_all (w # ws) s = home_all ws (tx_home (fst w) (snd w) s)"
  by (simp_all add: home_all_def)

lemma home_all_fields [simp]:
  "disk (home_all ws s) = apply_writes (disk s) ws"
  "blk (home_all ws s) = apply_writes (blk s) ws"
  "held (home_all ws s) = held s" "writes (home_all ws s) = writes s @ ws"
  "lh (home_all ws s) = lh s" "log_start (home_all ws s) = log_start s"
  "outstanding (home_all ws s) = outstanding s" "committing (home_all ws s) = committing s"
  "log_size (home_all ws s) = log_size s"
  by (induction ws arbitrary: s) auto

lemma read_release_same:
  assumes "held s = {}"
  shows "s\<lparr>held := {}\<rparr> = s"
  using assms by (metis (full_types) txn.surjective txn.update_convs(3))

lemma install_one_eq:
  assumes h: "held s = {}" and ne: "lh s ! tail \<noteq> log_start s + tail + 1"
  shows "install_one tail s = Ok (tx_home (lh s ! tail) (blk s (log_start s + tail + 1)) s)"
  using assms by (cases s) (auto simp: install_one_def Let_def tx_read_def tx_bwrite_def tx_put_def
      tx_release_def tx_home_def)

lemma write_log_one_eq:
  assumes h: "held s = {}" and ne: "lh s ! tail \<noteq> log_start s + tail + 1"
  shows "write_log_one tail s = Ok (tx_home (log_start s + tail + 1) (blk s (lh s ! tail)) s)"
  using assms by (cases s) (auto simp: write_log_one_def Let_def tx_read_def tx_bwrite_def tx_put_def
      tx_release_def tx_home_def)

lemma write_head_eq:
  assumes "held s = {}"
  shows "write_head s = Ok (tx_home (log_start s) (put_header (lh s) (blk s (log_start s))) s)"
  using assms by (cases s) (auto simp: write_head_def tx_read_def tx_bwrite_def tx_put_def
      tx_release_def tx_home_def)

lemma read_head_eq:
  assumes "held s = {}" "length (get_header (blk s (log_start s))) \<le> LOGSIZE"
  shows "read_head s = Ok (s\<lparr>lh := get_header (blk s (log_start s))\<rparr>)"
  using assms by (cases s) (auto simp: read_head_def tx_read_def tx_release_def)

lemma kloop_home:
  fixes s :: "'a txn_scheme"
  assumes f: "\<And>j t. i \<le> j \<Longrightarrow> j < i + k \<Longrightarrow> held t = {} \<Longrightarrow> lh t = L \<Longrightarrow> log_start t = st \<Longrightarrow>
      f j t = Ok (tx_home (D j) (blk t (S j)) t)"
    and src: "\<And>j j'. i \<le> j \<Longrightarrow> j < i + k \<Longrightarrow> i \<le> j' \<Longrightarrow> j' < i + k \<Longrightarrow> S j \<noteq> D j'"
    and s: "held s = {}" "lh s = L" "log_start s = st"
  shows "kloop f i k s = Ok (home_all (map (\<lambda>j. (D j, blk s (S j))) [i..<i + k]) s)"
  using assms
proof (induction k arbitrary: i s)
  case (Suc k)
  let ?t = "tx_home (D i) (blk s (S i)) s"
  have first: "f i s = Ok ?t" using Suc.prems by simp
  have rest: "kloop f (Suc i) k ?t = Ok (home_all (map (\<lambda>j. (D j, blk ?t (S j))) [Suc i..<Suc i + k]) ?t)"
  proof (rule Suc.IH)
    fix j and t :: "'a txn_scheme" assume "Suc i \<le> j" "j < Suc i + k" "held t = {}" "lh t = L" "log_start t = st"
    then show "f j t = Ok (tx_home (D j) (blk t (S j)) t)" using Suc.prems(1) by simp
  next
    fix j j' assume "Suc i \<le> j" "j < Suc i + k" "Suc i \<le> j'" "j' < Suc i + k"
    then show "S j \<noteq> D j'" using Suc.prems(2) by simp
  qed (use Suc.prems in simp_all)
  have same: "map (\<lambda>j. (D j, blk ?t (S j))) [Suc i..<Suc i + k] =
      map (\<lambda>j. (D j, blk s (S j))) [Suc i..<Suc i + k]"
    using Suc.prems(2) [of _ i] by (intro map_cong) auto
  show ?case using first rest unfolding same by (simp add: upt_conv_Cons del: upt_Suc)
qed simp

text \<open>The blocks of a transaction lie outside the log area.\<close>

definition outside_log :: "nat \<Rightarrow> nat list \<Rightarrow> bool" where
  "outside_log st bs \<longleftrightarrow> set bs \<inter> log_area st (length bs) = {}"

definition install_writes :: "nat \<Rightarrow> nat list \<Rightarrow> (nat \<Rightarrow> block) \<Rightarrow> (nat \<times> block) list" where
  "install_writes st bs m = map (\<lambda>j. (bs ! j, m (st + j + 1))) [0..<length bs]"

definition log_writes :: "nat \<Rightarrow> nat list \<Rightarrow> (nat \<Rightarrow> block) \<Rightarrow> (nat \<times> block) list" where
  "log_writes st bs m = map (\<lambda>j. (st + j + 1, m (bs ! j))) [0..<length bs]"

lemma outside_log_neq:
  assumes "outside_log st bs" "j < length bs" "j' < length bs"
  shows "bs ! j \<noteq> st + j' + 1" "bs ! j \<noteq> st"
proof -
  have "bs ! j \<in> set bs" using assms by simp
  then have "bs ! j \<notin> log_area st (length bs)" using assms(1) by (auto simp: outside_log_def)
  then show "bs ! j \<noteq> st + j' + 1" "bs ! j \<noteq> st"
    using assms(3) by (auto simp: log_area_def)
qed

lemma outside_log_start: "outside_log st bs \<Longrightarrow> st \<notin> set bs"
  by (auto simp: outside_log_def log_area_def)

lemma install_writes_dests: "fst ` set (install_writes st bs m) \<subseteq> set bs"
  by (auto simp: install_writes_def)

lemma install_trans_eq:
  fixes s :: "'a txn_scheme"
  assumes "held s = {}" "outside_log (log_start s) (lh s)"
  shows "install_trans s = Ok (home_all (install_writes (log_start s) (lh s) (blk s)) s)"
proof -
  have "kloop install_one 0 (length (lh s)) s =
      Ok (home_all (map (\<lambda>j. (lh s ! j, blk s (log_start s + j + 1))) [0..<0 + length (lh s)]) s)"
  proof (rule kloop_home [where L = "lh s" and st = "log_start s"])
    fix j and t :: "'a txn_scheme" assume t: "j < 0 + length (lh s)" "held t = {}" "lh t = lh s" "log_start t = log_start s"
    then show "install_one j t = Ok (tx_home (lh s ! j) (blk t (log_start s + j + 1)) t)"
      using outside_log_neq(1) [OF assms(2), of j j] by (subst install_one_eq) auto
  next
    fix j j' assume "j < 0 + length (lh s)" "j' < 0 + length (lh s)"
    then show "log_start s + j + 1 \<noteq> lh s ! j'" using outside_log_neq(1) [OF assms(2), of j' j] by auto
  qed (use assms in simp_all)
  then show ?thesis by (simp add: install_trans_def install_writes_def)
qed

lemma write_log_eq:
  fixes s :: "'a txn_scheme"
  assumes "held s = {}" "outside_log (log_start s) (lh s)"
  shows "write_log s = Ok (home_all (log_writes (log_start s) (lh s) (blk s)) s)"
proof -
  have "kloop write_log_one 0 (length (lh s)) s =
      Ok (home_all (map (\<lambda>j. (log_start s + j + 1, blk s (lh s ! j))) [0..<0 + length (lh s)]) s)"
  proof (rule kloop_home [where L = "lh s" and st = "log_start s"])
    fix j and t :: "'a txn_scheme" assume t: "j < 0 + length (lh s)" "held t = {}" "lh t = lh s" "log_start t = log_start s"
    then show "write_log_one j t = Ok (tx_home (log_start s + j + 1) (blk t (lh s ! j)) t)"
      using outside_log_neq(1) [OF assms(2), of j j] by (subst write_log_one_eq) auto
  next
    fix j j' assume "j < 0 + length (lh s)" "j' < 0 + length (lh s)"
    then show "lh s ! j \<noteq> log_start s + j' + 1" using outside_log_neq(1) [OF assms(2), of j j'] by auto
  qed (use assms in simp_all)
  then show ?thesis by (simp add: write_log_def log_writes_def)
qed

section \<open>Crashes during commit and during recovery\<close>

text \<open>A transaction ready to commit: every change is recorded in the log header, the blocks lie
  outside the log area and the log on the medium is empty.\<close>

definition commit_ready :: "'a txn_scheme \<Rightarrow> bool" where
  "commit_ready s \<longleftrightarrow> held s = {} \<and> distinct (lh s) \<and> length (lh s) \<le> LOGSIZE \<and>
     (\<forall>b\<in>set (lh s). b < 2 ^ 32) \<and> outside_log (log_start s) (lh s) \<and>
     get_header (disk s (log_start s)) = [] \<and>
     (\<forall>b. b \<notin> set (lh s) \<longrightarrow> blk s b = disk s b)"

text \<open>The machine after a reboot: nothing is cached and no lock is held.\<close>

definition booted :: "nat \<Rightarrow> nat \<Rightarrow> (nat \<Rightarrow> block) \<Rightarrow> txn" where
  "booted st sz d = \<lparr>disk = d, blk = d, held = {}, pinned = {}, writes = [], log_start = st,
     log_size = sz, outstanding = 0, committing = False, lh = []\<rparr>"

definition recovery_writes :: "nat \<Rightarrow> (nat \<Rightarrow> block) \<Rightarrow> (nat \<times> block) list" where
  "recovery_writes st d =
     install_writes st (get_header (d st)) d @ [(st, put_header [] (d st))]"

text \<open>The disks a crash can leave behind: a crash after \<open>k\<close> writes of the commit, then any number
  of crashes during the recoveries that follow.\<close>

inductive crash_disk :: "'a txn_scheme \<Rightarrow> nat \<Rightarrow> (nat \<Rightarrow> block) \<Rightarrow> bool" for s where
  crash_commit: "commit s = Ok s' \<Longrightarrow>
     crash_disk s k (apply_writes (disk s) (take k (drop (length (writes s)) (writes s'))))"
| crash_recovery: "crash_disk s k d \<Longrightarrow> recover_from_log (booted (log_start s) sz d) = Ok r \<Longrightarrow>
     crash_disk s k (apply_writes d (take j (writes r)))"

lemma recover_eq:
  assumes "outside_log st (get_header (d st))" "length (get_header (d st)) \<le> LOGSIZE"
  shows "\<exists>r. recover_from_log (booted st sz d) = Ok r \<and> writes r = recovery_writes st d \<and>
    disk r = apply_writes d (recovery_writes st d)"
proof -
  let ?L = "get_header (d st)"
  let ?s1 = "booted st sz d\<lparr>lh := ?L\<rparr>"
  let ?s2 = "home_all (install_writes st ?L d) ?s1"
  have r: "read_head (booted st sz d) = Ok ?s1"
    using assms(2) by (subst read_head_eq) (simp_all add: booted_def)
  have i: "install_trans ?s1 = Ok ?s2"
    using assms(1) by (subst install_trans_eq) (simp_all add: booted_def)
  have nst: "st \<notin> fst ` set (install_writes st ?L d)"
    using outside_log_start [OF assms(1)] install_writes_dests [of st ?L d] by blast
  have st: "blk (?s2\<lparr>lh := []\<rparr>) st = d st"
    using apply_writes_notin [OF nst] by (simp add: booted_def)
  have w: "write_head (?s2\<lparr>lh := []\<rparr>) = Ok (tx_home st (put_header [] (d st)) (?s2\<lparr>lh := []\<rparr>))"
    using st by (subst write_head_eq) (simp_all add: booted_def)
  show ?thesis
    by (simp add: recover_from_log_def r i w)
      (simp add: booted_def recovery_writes_def)
qed

definition unstarted :: "'a txn_scheme \<Rightarrow> (nat \<Rightarrow> block) \<Rightarrow> bool" where
  "unstarted s d \<longleftrightarrow> get_header (d (log_start s)) = [] \<and>
     (\<forall>b. b \<notin> log_area (log_start s) (length (lh s)) \<longrightarrow> d b = disk s b)"

definition pending :: "'a txn_scheme \<Rightarrow> (nat \<Rightarrow> block) \<Rightarrow> bool" where
  "pending s d \<longleftrightarrow> get_header (d (log_start s)) = lh s \<and>
     (\<forall>j<length (lh s). d (log_start s + j + 1) = blk s (lh s ! j)) \<and>
     (\<forall>b. b \<notin> log_area (log_start s) (length (lh s)) \<longrightarrow> b \<notin> set (lh s) \<longrightarrow> d b = blk s b)"

definition installed :: "'a txn_scheme \<Rightarrow> (nat \<Rightarrow> block) \<Rightarrow> bool" where
  "installed s d \<longleftrightarrow> get_header (d (log_start s)) = [] \<and>
     (\<forall>b. b \<notin> log_area (log_start s) (length (lh s)) \<longrightarrow> d b = blk s b)"

lemma commit_readyD:
  assumes "commit_ready s"
  shows "held s = {}" "distinct (lh s)" "length (lh s) \<le> LOGSIZE" "\<forall>b\<in>set (lh s). b < 2 ^ 32"
    "outside_log (log_start s) (lh s)" "get_header (disk s (log_start s)) = []"
    "b \<notin> set (lh s) \<Longrightarrow> blk s b = disk s b"
  using assms by (simp_all add: commit_ready_def)

lemma in_log_area: "st \<in> log_area st n" "j < n \<Longrightarrow> Suc (st + j) \<in> log_area st n"
  by (simp_all add: log_area_def)

lemma header_write_keeps:
  assumes "get_header (d st) = []" "fst ` set ws \<subseteq> log_area st n" "st \<notin> fst ` set ws"
  shows "get_header (apply_writes d ws st) = []"
    "b \<notin> log_area st n \<Longrightarrow> apply_writes d ws b = d b"
  using assms by (simp add: apply_writes_notin) (use assms in \<open>blast intro: apply_writes_notin\<close>)

lemma empty_header_recovery:
  assumes "get_header (d st) = []"
  shows "get_header (apply_writes d (take j (recovery_writes st d)) st) = []"
    "b \<noteq> st \<Longrightarrow> apply_writes d (take j (recovery_writes st d)) b = d b"
  using assms by (cases j; simp add: recovery_writes_def install_writes_def get_header_empty)+

lemma unstarted_recovery:
  "unstarted s d \<Longrightarrow> unstarted s (apply_writes d (take j (recovery_writes (log_start s) d)))"
  unfolding unstarted_def
  using empty_header_recovery(1) [where d = d and st = "log_start s" and j = j]
    empty_header_recovery(2) [where d = d and st = "log_start s" and j = j]
    in_log_area(1) [of "log_start s"] by metis

lemma installed_recovery:
  "installed s d \<Longrightarrow> installed s (apply_writes d (take j (recovery_writes (log_start s) d)))"
  unfolding installed_def
  using empty_header_recovery(1) [where d = d and st = "log_start s" and j = j]
    empty_header_recovery(2) [where d = d and st = "log_start s" and j = j]
    in_log_area(1) [of "log_start s"] by metis

lemma pending_partial:
  assumes p: "pending s d" and o: "outside_log (log_start s) (lh s)"
    and ws: "fst ` set ws \<subseteq> set (lh s)"
  shows "pending s (apply_writes d ws)"
proof -
  have a: "apply_writes d ws b = d b" if "b \<in> log_area (log_start s) (length (lh s)) \<or> b \<notin> set (lh s)" for b
    using that o ws by (intro apply_writes_notin) (auto simp: outside_log_def)
  have "get_header (apply_writes d ws (log_start s)) = lh s"
    using p a [of "log_start s"] in_log_area(1) by (simp add: pending_def)
  moreover have "apply_writes d ws (log_start s + j + 1) = blk s (lh s ! j)" if "j < length (lh s)" for j
    using p a [of "log_start s + j + 1"] in_log_area(2) [OF that] that by (simp add: pending_def)
  ultimately show ?thesis using p a by (simp add: pending_def)
qed

lemma pending_install_all:
  assumes p: "pending s d" and o: "outside_log (log_start s) (lh s)" and di: "distinct (lh s)"
    and j: "j < length (lh s)"
  shows "apply_writes d (install_writes (log_start s) (lh s) d) (lh s ! j) = blk s (lh s ! j)"
proof -
  have "map (\<lambda>k. lh s ! k) [0..<length (lh s)] = lh s" by (rule map_nth)
  then have "apply_writes d (install_writes (log_start s) (lh s) d) (lh s ! j) = d (log_start s + j + 1)"
    unfolding install_writes_def using di j by (intro apply_writes_map) auto
  with p j show ?thesis by (simp add: pending_def)
qed

lemma pending_recovery_writes:
  "pending s d \<Longrightarrow> recovery_writes (log_start s) d =
     install_writes (log_start s) (lh s) d @ [(log_start s, put_header [] (d (log_start s)))]"
  by (simp add: recovery_writes_def pending_def)

lemma pending_recovery_full:
  assumes p: "pending s d" and o: "outside_log (log_start s) (lh s)" and di: "distinct (lh s)"
  shows "installed s (apply_writes d (recovery_writes (log_start s) d))"
proof -
  let ?st = "log_start s" and ?L = "lh s"
  let ?d1 = "apply_writes d (install_writes ?st ?L d)"
  have p1: "pending s ?d1" by (rule pending_partial [OF p o install_writes_dests])
  have "?d1 b = blk s b" if "b \<notin> log_area ?st (length ?L)" for b
  proof (cases "b \<in> set ?L")
    case True
    then obtain i where "i < length ?L" "b = ?L ! i" by (auto simp: in_set_conv_nth)
    with pending_install_all [OF p o di] show ?thesis by simp
  next
    case False
    with that p1 show ?thesis by (simp add: pending_def)
  qed
  then have "installed s (?d1(?st := put_header [] (d ?st)))"
    using in_log_area(1) by (auto simp: installed_def get_header_empty)
  then show ?thesis by (simp add: pending_recovery_writes [OF p])
qed

lemma pending_recovery:
  assumes p: "pending s d" and o: "outside_log (log_start s) (lh s)" and di: "distinct (lh s)"
  shows "pending s (apply_writes d (take j (recovery_writes (log_start s) d))) \<or>
    installed s (apply_writes d (take j (recovery_writes (log_start s) d)))"
proof (cases "j \<le> length (install_writes (log_start s) (lh s) d)")
  case True
  have "fst ` set (take j (install_writes (log_start s) (lh s) d)) \<subseteq> set (lh s)"
    using install_writes_dests [of "log_start s" "lh s" d]
      set_take_subset [of j "install_writes (log_start s) (lh s) d"] by fast
  with pending_partial [OF p o] True show ?thesis by (simp add: pending_recovery_writes [OF p])
next
  case False
  then have "take j (recovery_writes (log_start s) d) = recovery_writes (log_start s) d"
    by (simp add: pending_recovery_writes [OF p])
  with pending_recovery_full [OF assms] show ?thesis by simp
qed

text \<open>The writes of a commit: the log blocks, the header, and then exactly what recovery from the
  header would write.\<close>

definition logged_disk :: "'a txn_scheme \<Rightarrow> (nat \<Rightarrow> block)" where
  "logged_disk s = (apply_writes (disk s) (log_writes (log_start s) (lh s) (blk s)))
     (log_start s := put_header (lh s) (blk s (log_start s)))"

lemma log_writes_dests:
  "fst ` set (log_writes st bs m) \<subseteq> log_area st (length bs)" "st \<notin> fst ` set (log_writes st bs m)"
  by (auto simp: log_writes_def log_area_def)

lemma log_writes_block:
  assumes "j < length bs"
  shows "apply_writes d (log_writes st bs m) (st + j + 1) = m (bs ! j)"
  unfolding log_writes_def
  using assms by (intro apply_writes_map [where f = "\<lambda>j. st + j + 1"])
    (auto simp: distinct_map inj_on_def)

lemma logged_pending:
  assumes r: "commit_ready s"
  shows "pending s (logged_disk s)"
proof -
  let ?st = "log_start s" and ?L = "lh s"
  have h: "get_header (logged_disk s ?st) = ?L"
    using commit_readyD(3,4) [OF r] by (simp add: logged_disk_def get_put_header)
  have l: "logged_disk s (?st + j + 1) = blk s (?L ! j)" if "j < length ?L" for j
    using log_writes_block [OF that, where st = ?st] by (simp add: logged_disk_def)
  have o: "logged_disk s b = blk s b" if "b \<notin> log_area ?st (length ?L)" "b \<notin> set ?L" for b
  proof -
    have "b \<noteq> ?st" "b \<notin> fst ` set (log_writes ?st ?L (blk s))"
      using that(1) in_log_area(1) log_writes_dests(1) by blast+
    then show ?thesis using commit_readyD(7) [OF r that(2)]
      by (simp add: logged_disk_def apply_writes_notin)
  qed
  show ?thesis using h l o by (simp add: pending_def)
qed

lemma commit_eq:
  assumes r: "commit_ready s" and ne: "lh s \<noteq> []"
  shows "\<exists>s'. commit s = Ok s' \<and> writes s' = writes s @ log_writes (log_start s) (lh s) (blk s) @
    [(log_start s, put_header (lh s) (blk s (log_start s)))] @
    recovery_writes (log_start s) (logged_disk s) \<and>
    lh s' = [] \<and> held s' = {} \<and> outstanding s' = outstanding s \<and> committing s' = committing s"
proof -
  let ?st = "log_start s" and ?L = "lh s"
  let ?lw = "log_writes ?st ?L (blk s)"
  let ?h = "put_header ?L (blk s ?st)"
  let ?s1 = "home_all ?lw s"
  let ?s2 = "tx_home ?st ?h ?s1"
  let ?iw = "install_writes ?st ?L (blk ?s2)"
  let ?s3 = "home_all ?iw ?s2"
  note rd = commit_readyD [OF r]
  have e1: "write_log s = Ok ?s1" by (rule write_log_eq [OF rd(1,5)])
  have b1: "blk ?s1 ?st = blk s ?st" using log_writes_dests(2) by (simp add: apply_writes_notin)
  have e2: "write_head ?s1 = Ok ?s2" using rd(1) b1 by (subst write_head_eq) simp_all
  have e3: "install_trans ?s2 = Ok ?s3" using rd by (subst install_trans_eq) simp_all
  have "?st \<notin> fst ` set ?iw"
    using outside_log_start [OF rd(5)] install_writes_dests [of ?st ?L "blk ?s2"] by blast
  then have "apply_writes (blk ?s2) ?iw ?st = blk ?s2 ?st" by (rule apply_writes_notin)
  also have "\<dots> = ?h" by simp
  finally have st3: "blk ?s3 ?st = ?h" by (simp only: home_all_fields)
  have e4: "write_head (?s3\<lparr>lh := []\<rparr>) = Ok (tx_home ?st (put_header [] ?h) (?s3\<lparr>lh := []\<rparr>))"
    using rd(1) st3 by (subst write_head_eq) simp_all
  have p: "pending s (logged_disk s)" by (rule logged_pending [OF r])
  have "?iw = install_writes ?st ?L (logged_disk s)"
    using p log_writes_block [where bs = ?L and st = ?st and m = "blk s" and d = "blk s"]
    by (auto simp: install_writes_def pending_def logged_disk_def)
  moreover have "recovery_writes ?st (logged_disk s) =
      install_writes ?st ?L (logged_disk s) @ [(?st, put_header [] ?h)]"
    using p by (simp add: recovery_writes_def pending_def) (simp add: logged_disk_def)
  ultimately have rw: "recovery_writes ?st (logged_disk s) = ?iw @ [(?st, put_header [] ?h)]" by simp
  have "commit s = Ok (tx_home ?st (put_header [] ?h) (?s3\<lparr>lh := []\<rparr>))"
    by (simp only: commit_def ne if_False e1 e2 e3 e4 kbind.simps)
  then show ?thesis unfolding rw using rd(1)
    by (intro exI [of _ "tx_home ?st (put_header [] ?h) (?s3\<lparr>lh := []\<rparr>)"]) simp
qed

lemma commit_crash_disk:
  assumes r: "commit_ready s" and c: "commit s = Ok s'"
    and d: "d = apply_writes (disk s) (take k (drop (length (writes s)) (writes s')))"
  shows "if k \<le> length (lh s) then unstarted s d else pending s d \<or> installed s d"
proof (cases "lh s = []")
  case True
  then have "d = disk s" using c d by (simp add: commit_def)
  with True commit_readyD(6,7) [OF r] show ?thesis by (auto simp: unstarted_def installed_def)
next
  case False
  let ?st = "log_start s" and ?L = "lh s"
  let ?lw = "log_writes ?st ?L (blk s)"
  let ?rw = "recovery_writes ?st (logged_disk s)"
  have n: "length ?lw = length ?L" by (simp add: log_writes_def)
  have w: "drop (length (writes s)) (writes s') = ?lw @ [(?st, put_header ?L (blk s ?st))] @ ?rw"
    using commit_eq [OF r False] c by auto
  show ?thesis
  proof (cases "k \<le> length ?L")
    case True
    then have e: "d = apply_writes (disk s) (take k ?lw)" using n by (simp add: d w)
    have sub: "fst ` set (take k ?lw) \<subseteq> log_area ?st (length ?L)" "?st \<notin> fst ` set (take k ?lw)"
      using log_writes_dests [of ?st ?L "blk s"] set_take_subset [of k ?lw] by blast+
    have "unstarted s d" unfolding unstarted_def e
      using header_write_keeps [where d = "disk s" and st = ?st, OF commit_readyD(6) [OF r] sub]
      by blast
    with True show ?thesis by simp
  next
    case False
    then obtain j where k: "k = Suc (length ?L) + j"
      by (metis add_Suc less_iff_Suc_add not_le)
    have "take k (?lw @ [(?st, put_header ?L (blk s ?st))] @ ?rw) =
        ?lw @ (?st, put_header ?L (blk s ?st)) # take j ?rw"
      using n by (simp add: k)
    then have "d = apply_writes (logged_disk s) (take j ?rw)"
      by (simp add: d w logged_disk_def)
    with pending_recovery [OF logged_pending [OF r] commit_readyD(5) [OF r] commit_readyD(2) [OF r]]
      False show ?thesis by simp
  qed
qed

lemma outside_log_nil: "outside_log st []"
  by (simp add: outside_log_def)

lemma crash_disk_inv:
  "crash_disk s k d \<Longrightarrow> commit_ready s \<Longrightarrow>
   if k \<le> length (lh s) then unstarted s d else pending s d \<or> installed s d"
proof (induction rule: crash_disk.induct)
  case (crash_commit s' k)
  then show ?case by (intro commit_crash_disk) simp_all
next
  case (crash_recovery k d sz r j)
  note rd = commit_readyD [OF crash_recovery.prems]
  have ol: "outside_log (log_start s) (get_header (d (log_start s)))" "length (get_header (d (log_start s))) \<le> LOGSIZE"
    using crash_recovery.IH [OF crash_recovery.prems] rd(3,5)
    by (auto simp: unstarted_def pending_def installed_def outside_log_nil split: if_splits)
  have w: "writes r = recovery_writes (log_start s) d"
    using recover_eq [where d = d and st = "log_start s" and sz = sz, OF ol] crash_recovery.hyps(2) by auto
  show ?case
    using crash_recovery.IH [OF crash_recovery.prems] unstarted_recovery [of s d j]
      installed_recovery [of s d j] pending_recovery [OF _ rd(5,2), of d j]
    unfolding w by (cases "k \<le> length (lh s)") auto
qed

lemma full_recovery:
  assumes c: "crash_disk s k d" and r: "commit_ready s"
  shows "\<exists>r. recover_from_log (booted (log_start s) sz d) = Ok r \<and>
    (if k \<le> length (lh s) then unstarted s (disk r) else installed s (disk r))"
proof -
  let ?rw = "recovery_writes (log_start s) d"
  note rd = commit_readyD [OF r] and ph = crash_disk_inv [OF c r]
  have ol: "outside_log (log_start s) (get_header (d (log_start s)))" "length (get_header (d (log_start s))) \<le> LOGSIZE"
    using ph rd(3,5)
    by (auto simp: unstarted_def pending_def installed_def outside_log_nil split: if_splits)
  obtain r where res: "recover_from_log (booted (log_start s) sz d) = Ok r"
    "disk r = apply_writes d ?rw"
    using recover_eq [where d = d and st = "log_start s" and sz = sz, OF ol] by blast
  have "if k \<le> length (lh s) then unstarted s (disk r) else installed s (disk r)"
    using ph unstarted_recovery [of s d "length ?rw"] installed_recovery [of s d "length ?rw"]
      pending_recovery_full [OF _ rd(5,2), of d]
    unfolding res(2) by (cases "k \<le> length (lh s)") auto
  with res show ?thesis by blast
qed

section \<open>Log space: concurrent file-system calls\<close>

text \<open>Any number of processes run file-system calls.  \<open>quota p\<close> is how many more new blocks the
  call of process \<open>p\<close> may log: \<open>MAXOPBLOCKS\<close> after \<open>begin_op\<close>.\<close>

record log_sys =
  the_log :: txn
  quota :: "nat \<Rightarrow> nat option"

inductive log_step :: "log_sys \<Rightarrow> log_sys \<Rightarrow> bool" where
  op_begin: "quota s p = None \<Longrightarrow> begin_op (the_log s) = Ok t \<Longrightarrow>
     log_step s \<lparr>the_log = t, quota = (quota s)(p \<mapsto> MAXOPBLOCKS)\<rparr>"
| op_write: "quota s p = Some q \<Longrightarrow> b \<in> set (lh (the_log s)) \<or> 0 < q \<Longrightarrow>
     log_write b (the_log s) = Ok t \<Longrightarrow>
     log_step s \<lparr>the_log = t,
       quota = (quota s)(p \<mapsto> (if b \<in> set (lh (the_log s)) then q else q - 1))\<rparr>"
| op_end: "quota s p = Some q \<Longrightarrow> end_op_enter (the_log s) = Ok (c, t) \<Longrightarrow>
     log_step s \<lparr>the_log = t, quota = (quota s)(p := None)\<rparr>"
| op_commit: "committing (the_log s) \<Longrightarrow> commit (the_log s) = Ok t \<Longrightarrow>
     log_step s (s\<lparr>the_log := end_op_leave t\<rparr>)"

inductive log_reach :: "nat \<Rightarrow> log_sys \<Rightarrow> bool" for sz where
  log_boot: "log_reach sz \<lparr>the_log = booted st sz d, quota = (\<lambda>_. None)\<rparr>"
| log_more: "log_reach sz s \<Longrightarrow> log_step s s' \<Longrightarrow> log_reach sz s'"

definition reserved :: "(nat \<Rightarrow> nat option) \<Rightarrow> nat" where
  "reserved q = (\<Sum>p\<in>dom q. the (q p))"

definition space_inv :: "nat \<Rightarrow> log_sys \<Rightarrow> bool" where
  "space_inv sz s \<longleftrightarrow> finite (dom (quota s)) \<and> (\<forall>q\<in>ran (quota s). q \<le> MAXOPBLOCKS) \<and>
     outstanding (the_log s) = int (card (dom (quota s))) \<and>
     (committing (the_log s) \<longrightarrow> quota s = (\<lambda>_. None)) \<and> log_size (the_log s) = sz \<and>
     distinct (lh (the_log s)) \<and>
     length (lh (the_log s)) + reserved (quota s) \<le> LOGSIZE"

definition same_accounts :: "'a txn_scheme \<Rightarrow> 'a txn_scheme \<Rightarrow> bool" where
  "same_accounts s t \<longleftrightarrow> outstanding t = outstanding s \<and> committing t = committing s \<and>
     log_size t = log_size s"

lemma tx_ops_accounts:
  "tx_read b s = Ok (x, t) \<Longrightarrow> same_accounts s t"
  "tx_bwrite b s = Ok t \<Longrightarrow> same_accounts s t"
  "tx_release b s = Ok t \<Longrightarrow> same_accounts s t"
  "same_accounts s (tx_put b y s)"
  by (auto simp: tx_read_def tx_bwrite_def tx_release_def tx_put_def same_accounts_def split: if_splits)

lemma same_accounts_trans: "same_accounts s t \<Longrightarrow> same_accounts t u \<Longrightarrow> same_accounts s u"
  by (simp add: same_accounts_def)

lemma same_accounts_lh: "same_accounts s t \<Longrightarrow> same_accounts s (t\<lparr>lh := l\<rparr>)"
  by (simp add: same_accounts_def)

lemma install_one_accounts: "install_one j s = Ok t \<Longrightarrow> same_accounts s t"
  unfolding install_one_def Let_def kbind_eq_Ok
  by (auto simp: kres_simps) (meson same_accounts_trans tx_ops_accounts)

lemma write_log_one_accounts: "write_log_one j s = Ok t \<Longrightarrow> same_accounts s t"
  unfolding write_log_one_def Let_def kbind_eq_Ok
  by (auto simp: kres_simps) (meson same_accounts_trans tx_ops_accounts)

lemma write_head_accounts: "write_head s = Ok t \<Longrightarrow> same_accounts s t"
  unfolding write_head_def kbind_eq_Ok
  by (auto simp: kres_simps) (meson same_accounts_trans tx_ops_accounts)

lemma kloop_accounts:
  assumes "kloop f i k s = Ok t" "\<And>j s t. f j s = Ok t \<Longrightarrow> same_accounts s t"
  shows "same_accounts s t"
  using assms(1)
  by (rule kloop_inv [where I = "same_accounts s"])
    (auto simp: same_accounts_def dest: assms(2))

lemma commit_accounts:
  assumes "commit s = Ok t"
  shows "lh t = [] \<and> same_accounts s t"
proof (cases "lh s = []")
  case True
  with assms show ?thesis by (simp add: commit_def same_accounts_def)
next
  case False
  then obtain s1 s2 s3 where r: "write_log s = Ok s1" "write_head s1 = Ok s2"
    "install_trans s2 = Ok s3" "write_head (s3\<lparr>lh := []\<rparr>) = Ok t"
    using assms by (auto simp: commit_def kres_simps)
  have "same_accounts s s3"
  proof -
    have a: "same_accounts s s1"
      using r(1) unfolding write_log_def by (rule kloop_accounts) (rule write_log_one_accounts)
    have b: "same_accounts s1 s2" by (rule write_head_accounts [OF r(2)])
    have c: "same_accounts s2 s3"
      using r(3) unfolding install_trans_def by (rule kloop_accounts) (rule install_one_accounts)
    show ?thesis by (rule same_accounts_trans [OF same_accounts_trans [OF a b] c])
  qed
  moreover have "lh t = []"
    using r(4) by (auto simp: write_head_def kres_simps tx_read_def tx_bwrite_def tx_put_def
        tx_release_def split: if_splits)
  ultimately show ?thesis using write_head_accounts [OF r(4)]
    by (auto intro: same_accounts_trans same_accounts_lh)
qed

lemma log_write_Ok:
  assumes "log_write b s = Ok t"
  shows "lh t = (if b \<in> set (lh s) then lh s else lh s @ [b]) \<and> same_accounts s t \<and>
    1 \<le> outstanding s \<and> length (lh s) < LOGSIZE"
proof -
  have "(case scan (\<lambda>i. lh s ! i = b) 0 (length (lh s)) of Some i \<Rightarrow> (lh s)[i := b] | None \<Rightarrow> lh s @ [b])
      = (if b \<in> set (lh s) then lh s else lh s @ [b])"
  proof (cases "scan (\<lambda>i. lh s ! i = b) 0 (length (lh s))")
    case None
    then have "b \<notin> set (lh s)" by (auto simp: scan_eq_None in_set_conv_nth)
    with None show ?thesis by simp
  next
    case (Some i)
    then have "i < length (lh s)" "lh s ! i = b" by (auto dest: scan_SomeD)
    moreover from this have "b \<in> set (lh s)" using nth_mem by blast
    ultimately show ?thesis using Some list_update_id [of "lh s" i] by simp
  qed
  with assms show ?thesis by (auto simp: log_write_def same_accounts_def split: if_splits)
qed

lemma reserved_update:
  assumes "finite (dom q)"
  shows "reserved (q(p \<mapsto> n)) = n + reserved (q(p := None))"
proof -
  have "dom (q(p \<mapsto> n)) = insert p (dom (q(p := None)))" by auto
  moreover have "finite (dom (q(p := None)))" "p \<notin> dom (q(p := None))" using assms by auto
  ultimately have "reserved (q(p \<mapsto> n)) = n + (\<Sum>x\<in>dom (q(p := None)). the ((q(p \<mapsto> n)) x))"
    unfolding reserved_def by (simp add: sum.insert_remove)
  also have "(\<Sum>x\<in>dom (q(p := None)). the ((q(p \<mapsto> n)) x)) = reserved (q(p := None))"
    unfolding reserved_def by (rule sum.cong) auto
  finally show ?thesis .
qed

lemma reserved_bound:
  assumes "finite (dom q)" "\<forall>n\<in>ran q. n \<le> MAXOPBLOCKS"
  shows "reserved q \<le> card (dom q) * MAXOPBLOCKS"
proof -
  have "the (q p) \<le> MAXOPBLOCKS" if "p \<in> dom q" for p
    using assms(2) that by (auto simp: ran_def)
  then show ?thesis
    using sum_bounded_above [of "dom q" "\<lambda>p. the (q p)" MAXOPBLOCKS] by (simp add: reserved_def)
qed

lemma quota_split:
  assumes "finite (dom q)" "q p = Some n"
  shows "reserved q = n + reserved (q(p := None))" "card (dom q) = Suc (card (dom (q(p := None))))"
proof -
  have "q = q(p \<mapsto> n)" using assms(2) by auto
  then show "reserved q = n + reserved (q(p := None))"
    using reserved_update [OF assms(1), of p n] by metis
  have "dom (q(p := None)) = dom q - {p}" by auto
  then show "card (dom q) = Suc (card (dom (q(p := None))))"
    using assms by (metis card_Suc_Diff1 domI)
qed

lemma space_inv_boot: "space_inv sz \<lparr>the_log = booted st sz d, quota = (\<lambda>_. None)\<rparr>"
  by (simp add: space_inv_def booted_def reserved_def)

lemma ran_fun_upd_sub: "ran (q(p := x)) \<subseteq> ran q \<union> set_option x"
  by (auto simp: ran_def split: if_splits)

lemma space_inv_step: "log_step s s' \<Longrightarrow> space_inv sz s \<Longrightarrow> space_inv sz s'"
proof (induction rule: log_step.induct)
  case (op_begin s p t)
  have t: "t = (the_log s)\<lparr>outstanding := outstanding (the_log s) + 1\<rparr>"
    and nc: "\<not> committing (the_log s)"
    and room: "int (length (lh (the_log s))) + (outstanding (the_log s) + 1) * 10 \<le> 30"
    using op_begin(2) by (auto simp: begin_op_def split: if_splits)
  have inv: "finite (dom (quota s))" "\<forall>q\<in>ran (quota s). q \<le> MAXOPBLOCKS"
    "outstanding (the_log s) = int (card (dom (quota s)))"
    using op_begin(3) by (simp_all add: space_inv_def)
  have same: "(quota s)(p := None) = quota s" using op_begin(1) by auto
  have "reserved ((quota s)(p \<mapsto> MAXOPBLOCKS)) = MAXOPBLOCKS + reserved (quota s)"
    using reserved_update [OF inv(1), of p MAXOPBLOCKS] unfolding same .
  moreover have "card (insert p (dom (quota s))) = Suc (card (dom (quota s)))"
    using inv(1) op_begin(1) by (simp add: domIff)
  moreover have "\<forall>q\<in>ran ((quota s)(p \<mapsto> MAXOPBLOCKS)). q \<le> MAXOPBLOCKS"
    using inv(2) ran_fun_upd_sub [of "quota s" p "Some MAXOPBLOCKS"] by fastforce
  ultimately show ?case
    using op_begin(3) reserved_bound [OF inv(1,2)] room nc by (simp add: space_inv_def t)
next
  case (op_write s p q b t)
  note lw = log_write_Ok [OF op_write(3)]
  let ?q = "if b \<in> set (lh (the_log s)) then q else q - 1"
  have inv: "finite (dom (quota s))" "\<forall>q\<in>ran (quota s). q \<le> MAXOPBLOCKS"
    "length (lh (the_log s)) + reserved (quota s) \<le> LOGSIZE"
    using op_write(4) by (simp_all add: space_inv_def)
  have sp: "reserved (quota s) = q + reserved ((quota s)(p := None))"
    "reserved ((quota s)(p \<mapsto> ?q)) = ?q + reserved ((quota s)(p := None))"
    using quota_split(1) [OF inv(1) op_write(1)] reserved_update [OF inv(1), of p ?q] by simp_all
  have dom: "dom ((quota s)(p \<mapsto> ?q)) = dom (quota s)" using op_write(1) by auto
  have "q \<le> MAXOPBLOCKS" using inv(2) op_write(1) by (auto simp: ran_def)
  then have rn: "\<forall>q\<in>ran ((quota s)(p \<mapsto> ?q)). q \<le> MAXOPBLOCKS"
    using inv(2) ran_fun_upd_sub [of "quota s" p "Some ?q"] by fastforce
  have nc: "\<not> committing (the_log s)" using op_write(1,4) by (auto simp: space_inv_def)
  have len: "length (lh t) + reserved ((quota s)(p \<mapsto> ?q)) \<le> LOGSIZE"
    using inv(3) lw op_write(2) unfolding sp by auto
  have "distinct (lh t)" using op_write(4) lw by (auto simp: space_inv_def)
  then show ?case unfolding space_inv_def
    using op_write(4) lw nc rn len inv(1) dom
    by (simp add: space_inv_def same_accounts_def del: dom_fun_upd fun_upd_apply)
next
  case (op_end s p q c t)
  have inv: "finite (dom (quota s))" "\<forall>q\<in>ran (quota s). q \<le> MAXOPBLOCKS"
    "outstanding (the_log s) = int (card (dom (quota s)))"
    using op_end(3) by (simp_all add: space_inv_def)
  note sp = quota_split [OF inv(1) op_end(1)]
  have t: "lh t = lh (the_log s)" "log_size t = log_size (the_log s)"
    "outstanding t = outstanding (the_log s) - 1" "committing t \<longrightarrow> outstanding t = 0"
    using op_end(2) by (auto simp: end_op_enter_def Let_def split: if_splits)
  have "outstanding t = int (card (dom ((quota s)(p := None))))" using t(3) inv(3) sp(2) by simp
  moreover from this have "committing t \<longrightarrow> (quota s)(p := None) = (\<lambda>_. None)"
    using t(4) inv(1) by (metis card_0_eq dom_eq_empty_conv finite_Diff dom_fun_upd of_nat_eq_0_iff)
  moreover have "\<forall>q\<in>ran ((quota s)(p := None)). q \<le> MAXOPBLOCKS"
    using inv(2) ran_fun_upd_sub [of "quota s" p None] by fastforce
  ultimately show ?case unfolding space_inv_def
    using op_end(3) sp t inv(1)
    by (simp add: space_inv_def del: fun_upd_apply)
next
  case (op_commit s t)
  note ca = commit_accounts [OF op_commit(2)]
  have q: "quota s = (\<lambda>_. None)" using op_commit(1,3) by (simp add: space_inv_def)
  then show ?case using op_commit(3) ca
    by (simp add: space_inv_def end_op_leave_def same_accounts_def reserved_def)
qed

lemma log_reach_space: "log_reach sz s \<Longrightarrow> space_inv sz s"
  by (induction rule: log_reach.induct) (auto intro: space_inv_boot space_inv_step)

section \<open>Properties\<close>

text \<open>C1: Transactions are atomic across crashes.  A transaction that is ready to commit does
  commit; and if the machine stops after any number \<open>k\<close> of its disk writes, and again any
  number of times in the middle of the recoveries that follow, then recovery succeeds, leaves
  an empty log, and every block outside the log area has its old contents if the header had
  not reached the disk and its new contents if it had.\<close>

theorem log_crash_atomic:
  assumes "commit_ready s" and "crash_disk s k d"
  shows "(\<exists>s'. commit s = Ok s') \<and>
    (\<exists>r. recover_from_log (booted (log_start s) sz d) = Ok r \<and>
       get_header (disk r (log_start s)) = [] \<and>
       (\<forall>b. b \<notin> log_area (log_start s) (length (lh s)) \<longrightarrow>
          disk r b = (if k \<le> length (lh s) then disk s b else blk s b)))"
proof -
  have "\<exists>s'. commit s = Ok s'"
    using commit_eq [OF assms(1)] by (cases "lh s = []") (auto simp: commit_def)
  moreover obtain r where "recover_from_log (booted (log_start s) sz d) = Ok r"
    "if k \<le> length (lh s) then unstarted s (disk r) else installed s (disk r)"
    using full_recovery [OF assms(2,1), of sz] by blast
  ultimately show ?thesis by (auto simp: unstarted_def installed_def split: if_splits)
qed

text \<open>The log never overflows.  With a log of more than \<open>LOGSIZE\<close> blocks, in every state
  reachable by any interleaving of file-system calls that respect \<open>MAXOPBLOCKS\<close>, a call that
  has quota left can log a block: \<open>log_write\<close> does not panic; and ending a call never finds a
  commit in progress.\<close>

theorem log_space_suffices:
  assumes "log_reach sz s" and "LOGSIZE < sz" and "quota s p = Some q"
  shows "(0 < q \<or> length (lh (the_log s)) < LOGSIZE \<longrightarrow> (\<exists>t. log_write b (the_log s) = Ok t)) \<and>
    (\<exists>r. end_op_enter (the_log s) = Ok r)"
proof -
  note inv = log_reach_space [OF assms(1), unfolded space_inv_def]
  have sp: "reserved (quota s) = q + reserved ((quota s)(p := None))"
    "card (dom (quota s)) = Suc (card (dom ((quota s)(p := None))))"
    using quota_split [where q = "quota s" and p = p and n = q] assms(3) inv by simp_all
  have "\<not> committing (the_log s)" using inv assms(3) by auto
  moreover have "length (lh (the_log s)) + q \<le> LOGSIZE" using inv sp(1) by simp
  moreover have "1 \<le> outstanding (the_log s)" using inv sp(2) by simp
  ultimately show ?thesis using inv assms(2)
    by (auto simp: log_write_def end_op_enter_def Let_def)
qed

subsection \<open>The log of a disk made by mkfs\<close>

text \<open>\<open>mkfs\<close> sets \<open>nlog = LOGSIZE\<close>, so \<open>log_write\<close>'s test \<open>log.lh.n >= log.size - 1\<close> allows one
  block less than \<open>begin_op\<close> reserves.\<close>

lemma log_fill:
  "\<lbrakk>log_reach sz s; quota s p = Some q; k \<le> q; \<forall>b\<in>set (lh (the_log s)). b < base;
    length (lh (the_log s)) + k \<le> LOGSIZE; length (lh (the_log s)) + k < sz\<rbrakk> \<Longrightarrow>
   \<exists>s'. log_reach sz s' \<and> lh (the_log s') = lh (the_log s) @ [base..<base + k] \<and>
     quota s' = (quota s)(p \<mapsto> q - k)"
proof (induction k)
  case 0
  then have "quota s = (quota s)(p \<mapsto> q - 0)" by auto
  with 0 show ?case by (intro exI [of _ s]) simp
next
  case (Suc k)
  then obtain s' where s': "log_reach sz s'" "lh (the_log s') = lh (the_log s) @ [base..<base + k]"
    "quota s' = (quota s)(p \<mapsto> q - k)" by (auto simp: fun_upd_def)
  note inv = log_reach_space [OF s'(1), unfolded space_inv_def]
  have q: "quota s' p = Some (q - k)" using s'(3) by simp
  have "1 \<le> outstanding (the_log s')"
    using inv q quota_split(2) [where q = "quota s'" and p = p and n = "q - k"] by simp
  then have "\<exists>t. log_write (base + k) (the_log s') = Ok t"
    using inv Suc.prems s'(2) by (auto simp: log_write_def)
  then obtain t where t: "log_write (base + k) (the_log s') = Ok t" by blast
  have new: "base + k \<notin> set (lh (the_log s'))" using s'(2) Suc.prems(4) by auto
  have "log_step s' \<lparr>the_log = t, quota = (quota s')(p \<mapsto>
      (if base + k \<in> set (lh (the_log s')) then q - k else (q - k) - 1))\<rparr>"
    using q t Suc.prems(3) by (intro op_write) auto
  with s'(1) have "log_reach sz \<lparr>the_log = t, quota = (quota s')(p \<mapsto> q - Suc k)\<rparr>"
    using new by (auto intro: log_more)
  moreover have "(quota s')(p \<mapsto> q - Suc k) = (quota s)(p \<mapsto> q - Suc k)" using s'(3) by auto
  ultimately show ?case using log_write_Ok [OF t] s' new
    by (intro exI [of _ "\<lparr>the_log = t, quota = (quota s)(p \<mapsto> q - Suc k)\<rparr>"])
      (simp add: same_accounts_def)
qed

definition op_started :: "nat \<Rightarrow> log_sys \<Rightarrow> log_sys" where
  "op_started p s = \<lparr>the_log = (the_log s)\<lparr>outstanding := outstanding (the_log s) + 1\<rparr>,
     quota = (quota s)(p \<mapsto> MAXOPBLOCKS)\<rparr>"

definition three_ops :: "nat \<Rightarrow> log_sys" where
  "three_ops sz = op_started 2 (op_started 1 (op_started 0
     \<lparr>the_log = booted 2 sz (\<lambda>_. zero_block), quota = (\<lambda>_. None)\<rparr>))"

lemma op_started_reach:
  assumes "log_reach sz s" "quota s p = None" "\<not> committing (the_log s)"
    "int (length (lh (the_log s))) + (outstanding (the_log s) + 1) * 10 \<le> 30"
  shows "log_reach sz (op_started p s)"
proof -
  have "begin_op (the_log s) = Ok ((the_log s)\<lparr>outstanding := outstanding (the_log s) + 1\<rparr>)"
    using assms by (simp add: begin_op_def)
  with assms(1,2) show ?thesis unfolding op_started_def by (blast intro: log_more op_begin)
qed

lemma three_ops_reach: "log_reach sz (three_ops sz)"
  unfolding three_ops_def
  by (intro op_started_reach log_boot) (simp_all add: op_started_def booted_def)

text \<open>On a disk made by \<open>mkfs\<close> (\<open>nlog = LOGSIZE\<close>) three concurrent file-system calls, each
  within its allowance of \<open>MAXOPBLOCKS\<close> blocks, can bring the kernel down: there is a reachable
  state in which a call with quota left panics in \<open>log_write\<close> with "too big a transaction".\<close>

theorem log_write_panics_within_quota:
  "\<exists>s p q b. log_reach LOGSIZE s \<and> quota s p = Some q \<and> 0 < q \<and>
     log_write b (the_log s) = Panic ''too big a transaction''"
proof -
  let ?s0 = "three_ops LOGSIZE"
  have s0: "lh (the_log ?s0) = []" "quota ?s0 0 = Some 10" "quota ?s0 1 = Some 10"
    "quota ?s0 2 = Some 10"
    by (simp_all add: three_ops_def op_started_def booted_def)
  obtain s1 where s1: "log_reach LOGSIZE s1" "lh (the_log s1) = [0..<10]"
    "quota s1 = (quota ?s0)(0 \<mapsto> 0)"
    using log_fill [OF three_ops_reach s0(2), of 10 0] s0 by auto
  have q1: "quota s1 1 = Some 10" using s1 s0 by simp
  obtain s2 where s2: "log_reach LOGSIZE s2" "lh (the_log s2) = [0..<10] @ [10..<20]"
    "quota s2 = (quota s1)(1 \<mapsto> 0)"
    using log_fill [OF s1(1) q1, of 10 10] s1(2) by auto
  have q2: "quota s2 2 = Some 10" using s2 s1 s0 by simp
  obtain s3 where s3: "log_reach LOGSIZE s3" "lh (the_log s3) = [0..<10] @ [10..<20] @ [20..<29]"
    "quota s3 = (quota s2)(2 \<mapsto> 1)"
    using log_fill [OF s2(1) q2, of 9 20] s2(2) by auto
  have "log_size (the_log s3) = LOGSIZE"
    using log_reach_space [OF s3(1)] by (simp add: space_inv_def)
  then have "log_write 29 (the_log s3) = Panic ''too big a transaction''"
    using s3(2) by (simp add: log_write_def)
  moreover have "quota s3 2 = Some 1" using s3(3) by simp
  ultimately show ?thesis using s3(1) by (intro exI) (rule conjI, assumption, auto)
qed

section \<open>Witnesses\<close>

definition demo_txn :: txn where
  "demo_txn = (booted 2 31 (\<lambda>_. zero_block))\<lparr>lh := [100], blk := (\<lambda>_. zero_block)(100 := (\<lambda>_. 7))\<rparr>"

lemma demo_txn_ready: "commit_ready demo_txn"
  by (simp add: commit_ready_def demo_txn_def booted_def outside_log_def log_area_def
      get_header_def get32_def zero_block_def)

theorem log_crash_atomic_witness:
  "\<exists>d r. crash_disk demo_txn 2 d \<and> recover_from_log (booted 2 31 d) = Ok r \<and>
     disk r 100 = (\<lambda>_. 7) \<and> disk r 99 = zero_block"
proof -
  obtain s' where c: "commit demo_txn = Ok s'"
    using commit_eq [OF demo_txn_ready] by (auto simp: demo_txn_def)
  let ?d = "apply_writes (disk demo_txn) (take 2 (drop (length (writes demo_txn)) (writes s')))"
  have cd: "crash_disk demo_txn 2 ?d" by (rule crash_commit [OF c])
  from log_crash_atomic [OF demo_txn_ready cd, of 31] cd show ?thesis
    by (auto simp: demo_txn_def booted_def log_area_def)
qed

theorem log_space_suffices_witness:
  "log_reach 31 (three_ops 31) \<and> quota (three_ops 31) 1 = Some 10 \<and>
   (\<exists>t. log_write 500 (the_log (three_ops 31)) = Ok t)"
  using log_space_suffices [OF three_ops_reach, of 31 1 10 500] three_ops_reach [of 31]
  by (simp add: three_ops_def op_started_def)

end
