(* ===== verification/DList.thy ===== *)
theory DList
  imports Prelude
begin

text \<open>
  Doubly linked lists threaded through an array by index, as both the window list of
  \<open>kernel/window_manager.c\<close> and the widget list of \<open>user/user_window.c\<close> are: every slot has
  fields \<open>next\<close> and \<open>prev\<close>, \<open>-1\<close> ends the list, and a slot outside the list points to itself.

  \<open>dll nx pv ws\<close> says that the links \<open>nx\<close>, \<open>pv\<close> thread the slots \<open>ws\<close> in order.  \<open>walk\<close> is the
  loop \<open>for (p = head; p != -1; p = next p)\<close>, which does not end on a cyclic list;
  \<open>first_on\<close> is the same loop left at the first slot with a property.
\<close>

section \<open>Traversal loops\<close>

partial_function (option) walk :: "(int \<Rightarrow> int) \<Rightarrow> int \<Rightarrow> int list option" where
  "walk f p = (if p = -1 then Some [] else Option.bind (walk f (f p)) (\<lambda>l. Some (p # l)))"

partial_function (option) first_on :: "(int \<Rightarrow> int) \<Rightarrow> (int \<Rightarrow> bool) \<Rightarrow> int \<Rightarrow> int option" where
  "first_on f P p = (if p = -1 then Some (-1) else if P p then Some p else first_on f P (f p))"

lemma walk_end [simp]: "walk f (-1) = Some []"
  by (subst walk.simps) simp

lemma walk_step: "p \<noteq> -1 \<Longrightarrow> walk f p = Option.bind (walk f (f p)) (\<lambda>l. Some (p # l))"
  by (subst walk.simps) simp

text \<open>A slot that points to itself traps the loop.\<close>

lemma walk_self_loop:
  assumes "p \<noteq> -1" "f p = p"
  shows "walk f p = None"
proof (rule ccontr)
  assume "walk f p \<noteq> None"
  then obtain l where l: "walk f p = Some l" by blast
  have "walk f p = Option.bind (walk f p) (\<lambda>l. Some (p # l))"
    using walk_step [OF assms(1), of f] unfolding assms(2) .
  then show False unfolding l by simp
qed

section \<open>Well-formed lists\<close>

definition head_of :: "nat list \<Rightarrow> int" where
  "head_of ws = (if ws = [] then -1 else int (hd ws))"

definition last_of :: "nat list \<Rightarrow> int" where
  "last_of ws = (if ws = [] then -1 else int (last ws))"

fun seg :: "(nat \<Rightarrow> int) \<Rightarrow> (nat \<Rightarrow> int) \<Rightarrow> int \<Rightarrow> nat list \<Rightarrow> int \<Rightarrow> bool" where
  "seg nx pv p [] e = True"
| "seg nx pv p (w # ws) e =
     (pv w = p \<and> nx w = (if ws = [] then e else int (hd ws)) \<and> seg nx pv (int w) ws e)"

definition dll :: "(nat \<Rightarrow> int) \<Rightarrow> (nat \<Rightarrow> int) \<Rightarrow> nat list \<Rightarrow> bool" where
  "dll nx pv ws \<longleftrightarrow> distinct ws \<and> seg nx pv (-1) ws (-1)"

lemma head_last_of_simps [simp]:
  "head_of [] = -1" "last_of [] = -1" "head_of (w # ws) = int w" "last_of (ws @ [w]) = int w"
  by (simp_all add: head_of_def last_of_def)

lemma last_of_Cons: "last_of (w # ws) = (if ws = [] then int w else last_of ws)"
  by (simp add: last_of_def)

lemma seg_append:
  "seg nx pv p (as @ bs) e \<longleftrightarrow>
     seg nx pv p as (if bs = [] then e else int (hd bs)) \<and>
     seg nx pv (if as = [] then p else int (last as)) bs e"
  by (induction as arbitrary: p) auto

lemma seg_cong:
  "(\<And>w. w \<in> set ws \<Longrightarrow> nx w = nx' w \<and> pv w = pv' w) \<Longrightarrow> seg nx pv p ws e = seg nx' pv' p ws e"
  by (induction ws arbitrary: p) auto

lemma seg_new_end:
  assumes "seg nx pv p ws e" "distinct ws" "ws \<noteq> []"
  shows "seg (nx(last ws := e')) pv p ws e'"
proof -
  obtain us u where ws: "ws = us @ [u]" using assms(3) by (metis rev_exhaust)
  have "seg (nx(u := e')) pv p us (int u)"
    using assms(1,2) by (subst seg_cong [where nx' = nx and pv' = pv]) (auto simp: ws seg_append)
  with assms(1) show ?thesis by (simp add: ws seg_append)
qed

lemma seg_new_start:
  assumes "seg nx pv p ws e" "distinct ws" "ws \<noteq> []"
  shows "seg nx (pv(hd ws := p')) p' ws e"
proof -
  obtain u us where ws: "ws = u # us" using assms(3) by (cases ws) auto
  have "seg nx (pv(u := p')) (int u) us e"
    using assms(1,2) by (subst seg_cong [where nx' = nx and pv' = pv]) (auto simp: ws)
  with assms(1) show ?thesis by (simp add: ws)
qed

lemma dll_append:
  assumes d: "dll nx pv ws" and v: "v \<notin> set ws"
    and nx': "nx' = (if ws = [] then nx(v := -1) else nx(v := -1, last ws := int v))"
    and pv': "pv' = pv(v := last_of ws)"
  shows "dll nx' pv' (ws @ [v])"
proof (cases "ws = []")
  case True
  then show ?thesis by (simp add: dll_def nx' pv')
next
  case False
  have "seg (nx(last ws := int v)) pv (-1) ws (int v)"
    using d False by (intro seg_new_end [where e = "-1"]) (auto simp: dll_def)
  then have "seg nx' pv' (-1) ws (int v)"
    using v by (subst (asm) seg_cong [where nx' = nx' and pv' = pv']) (auto simp: nx' pv' False)
  moreover have "seg nx' pv' (int (last ws)) [v] (-1)"
    using v False last_in_set [OF False] by (auto simp: nx' pv' last_of_def)
  ultimately show ?thesis using d v False by (simp add: dll_def seg_append)
qed

lemma dll_remove:
  assumes d: "dll nx pv (as @ v # bs)"
    and nx': "nx' = (if as = [] then nx else nx(last as := nx v))"
    and pv': "pv' = (if bs = [] then pv else pv(hd bs := pv v))"
  shows "dll nx' pv' (as @ bs)"
proof -
  have s: "seg nx pv (-1) as (int v)" "pv v = (if as = [] then -1 else int (last as))"
    "nx v = (if bs = [] then -1 else int (hd bs))" "seg nx pv (int v) bs (-1)"
    and di: "distinct as" "distinct bs" "set as \<inter> set bs = {}"
    using d by (auto simp: dll_def seg_append split: if_splits)
  have a: "seg nx' pv (-1) as (nx v)"
  proof (cases "as = []")
    case False
    then show ?thesis using seg_new_end [OF s(1) di(1) False] by (simp add: nx')
  qed simp
  have b: "seg nx pv' (pv v) bs (-1)"
  proof (cases "bs = []")
    case False
    then show ?thesis using seg_new_start [OF s(4) di(2) False] by (simp add: pv')
  qed simp
  have "seg nx' pv' (-1) as (nx v)"
    using a di(3) hd_in_set [of bs]
    by (subst seg_cong [where nx' = nx' and pv' = pv]) (auto simp: pv' disjoint_iff)
  moreover have "seg nx' pv' (pv v) bs (-1)"
    using b di(3) last_in_set [of as]
    by (subst seg_cong [where nx' = nx and pv' = pv']) (auto simp: nx' disjoint_iff)
  ultimately show ?thesis using s(2,3) di by (auto simp: dll_def seg_append)
qed

text \<open>Removing the last slot needs only its predecessor to be cut.\<close>

lemma dll_cong:
  "dll nx pv ws \<Longrightarrow> (\<And>w. w \<in> set ws \<Longrightarrow> nx' w = nx w \<and> pv' w = pv w) \<Longrightarrow> dll nx' pv' ws"
  using seg_cong [of ws nx nx' pv pv' "-1" "-1"] by (simp add: dll_def)

lemma dll_links:
  assumes "dll nx pv (as @ v # bs)"
  shows "pv v = last_of as" "nx v = head_of bs"
  using assms by (auto simp: dll_def seg_append last_of_def head_of_def split: if_splits)

lemma dll_not_self:
  assumes "dll nx pv ws" "v \<in> set ws"
  shows "pv v \<noteq> int v" "nx v \<noteq> int v"
proof -
  obtain as bs where ws: "ws = as @ v # bs" using assms(2) by (meson split_list)
  have "distinct ws" using assms(1) by (simp add: dll_def)
  then have "v \<notin> set as" "v \<notin> set bs" by (auto simp: ws)
  then show "pv v \<noteq> int v" "nx v \<noteq> int v"
    using dll_links [OF assms(1) [unfolded ws]] last_in_set [of as] hd_in_set [of bs]
    by (auto simp: last_of_def head_of_def split: if_splits)
qed

subsection \<open>Traversals of a well-formed list end\<close>

lemma walk_seg:
  "seg nx pv p ws (-1) \<Longrightarrow> (\<And>w. w \<in> set ws \<Longrightarrow> f (int w) = nx w) \<Longrightarrow>
   walk f (head_of ws) = Some (map int ws)"
proof (induction ws arbitrary: p)
  case (Cons w ws)
  have "walk f (head_of ws) = Some (map int ws)"
    using Cons.prems by (intro Cons.IH [of "int w"]) auto
  moreover have "f (int w) = head_of ws" using Cons.prems by (simp add: head_of_def)
  ultimately show ?case by (simp add: walk_step)
qed simp

lemma walk_dll:
  "dll nx pv ws \<Longrightarrow> (\<And>w. w \<in> set ws \<Longrightarrow> f (int w) = nx w) \<Longrightarrow>
   walk f (head_of ws) = Some (map int ws)"
  by (auto simp: dll_def intro: walk_seg)

lemma first_on_back:
  "seg nx pv p ws e \<Longrightarrow> (\<And>w. w \<in> set ws \<Longrightarrow> g (int w) = pv w) \<Longrightarrow> p = -1 \<Longrightarrow>
   first_on g P (last_of ws) =
     Some (case find (\<lambda>w. P (int w)) (rev ws) of None \<Rightarrow> -1 | Some w \<Rightarrow> int w)"
proof (induction ws arbitrary: e rule: rev_induct)
  case Nil
  then show ?case by (subst first_on.simps) simp
next
  case (snoc w ws)
  have s: "seg nx pv (-1) ws (int w)" "pv w = last_of ws"
    using snoc.prems by (auto simp: seg_append last_of_def)
  have IH: "first_on g P (last_of ws) =
     Some (case find (\<lambda>w. P (int w)) (rev ws) of None \<Rightarrow> -1 | Some w \<Rightarrow> int w)"
    using s(1) snoc.prems by (intro snoc.IH) auto
  have "g (int w) = last_of ws" using snoc.prems s(2) by simp
  then show ?case using IH by (subst first_on.simps) simp
qed

lemma first_on_dll_back:
  "dll nx pv ws \<Longrightarrow> (\<And>w. w \<in> set ws \<Longrightarrow> g (int w) = pv w) \<Longrightarrow>
   first_on g P (last_of ws) =
     Some (case find (\<lambda>w. P (int w)) (rev ws) of None \<Rightarrow> -1 | Some w \<Rightarrow> int w)"
  by (auto simp: dll_def intro: first_on_back)

end
