(* ===== verification/WindowManager.thy ===== *)
theory WindowManager
  imports DList Interfaces
begin

text \<open>
  The window manager, \<open>kernel/window_manager.c\<close>: the window table with the stacking order as a
  doubly linked list threaded through it (bottom window at \<open>windowlisthead\<close>, focused window at
  \<open>windowlisttail\<close>), the message queue of every window, the popup window, and the handling of
  mouse and keyboard messages.  Every operation runs under \<open>wmlock\<close> and is one transition.

  Coordinates and message parameters are mathematical integers: they stay far from the bounds
  of \<open>int\<close>.  A message carries the parameters that the code sets; the C code leaves the others
  indeterminate.  Access to \<open>windowlist[-1]\<close>, which C leaves undefined, is \<open>Panic\<close>.  A loop over a
  damaged list may not end: the operations that contain one return an option.
\<close>

section \<open>Data\<close>

abbreviation MAX_WINDOW_CNT :: nat where "MAX_WINDOW_CNT \<equiv> 50"
abbreviation MSG_BUF_SIZE :: nat where "MSG_BUF_SIZE \<equiv> 50"
abbreviation MAX_TITLE_LEN :: nat where "MAX_TITLE_LEN \<equiv> 50"
abbreviation TITLE_HEIGHT :: int where "TITLE_HEIGHT \<equiv> 28"
abbreviation DOCK_HEIGHT :: int where "DOCK_HEIGHT \<equiv> 36"

record win_rect =
  xmin :: int
  xmax :: int
  ymin :: int
  ymax :: int

record message =
  msg_type :: int
  msg_params :: "int list"

record msg_buf =
  mdata :: "message list"
  front :: nat
  rear :: nat
  cnt :: nat

record kernel_window =
  position :: win_rect
  window_buf :: nat
  msgs :: msg_buf
  title :: "char list"
  minimized :: bool
  hasTitleBar :: bool

record wslot =
  wproc :: nat
  wnd :: kernel_window
  snext :: int
  sprev :: int

record popup =
  pproc :: nat
  pwnd :: kernel_window
  caller :: int

record wm =
  windowlist :: "wslot list"
  windowlisthead :: int
  windowlisttail :: int
  desktopId :: int
  popupwindow :: popup
  mouse_x :: int
  mouse_y :: int
  last_x :: int
  last_y :: int
  mouseShape :: int
  clickedOnTitle :: bool
  clickedOnContent :: bool
  clickedOnPopup :: bool
  screen_w :: int
  screen_h :: int

text \<open>The part of a program's \<open>struct window\<close> that the kernel reads and writes.\<close>

record window_arg =
  a_initial :: win_rect
  a_titlebar :: bool
  a_buf :: nat
  a_width :: int
  a_height :: int
  a_handler :: int

abbreviation M_MOUSE_MOVE :: int where "M_MOUSE_MOVE \<equiv> 3"
abbreviation M_MOUSE_DOWN :: int where "M_MOUSE_DOWN \<equiv> 4"
abbreviation M_MOUSE_UP :: int where "M_MOUSE_UP \<equiv> 5"
abbreviation M_MOUSE_LEFT_CLICK :: int where "M_MOUSE_LEFT_CLICK \<equiv> 6"
abbreviation WM_WINDOW_CLOSE :: int where "WM_WINDOW_CLOSE \<equiv> 100"
abbreviation WM_WINDOW_MINIMIZE :: int where "WM_WINDOW_MINIMIZE \<equiv> 101"
abbreviation WM_WINDOW_MAXIMIZE :: int where "WM_WINDOW_MAXIMIZE \<equiv> 102"

section \<open>Rectangles\<close>

definition clamp :: "int \<Rightarrow> int \<Rightarrow> int \<Rightarrow> int" where
  "clamp x l r = min r (max l x)"

definition isInRect :: "int \<Rightarrow> int \<Rightarrow> int \<Rightarrow> int \<Rightarrow> int \<Rightarrow> int \<Rightarrow> bool" where
  "isInRect x0 y0 x1 y1 x y \<longleftrightarrow> x0 \<le> x \<and> x \<le> x1 \<and> y0 \<le> y \<and> y \<le> y1"

definition createRectByCoord :: "int \<Rightarrow> int \<Rightarrow> int \<Rightarrow> int \<Rightarrow> win_rect" where
  "createRectByCoord x0 y0 x1 y1 = \<lparr>xmin = x0, xmax = x1, ymin = y0, ymax = y1\<rparr>"

definition createRectBySize :: "int \<Rightarrow> int \<Rightarrow> int \<Rightarrow> int \<Rightarrow> win_rect" where
  "createRectBySize x0 y0 w h = \<lparr>xmin = x0, xmax = x0 + w, ymin = y0, ymax = y0 + h\<rparr>"

definition moveRect :: "int \<Rightarrow> int \<Rightarrow> win_rect \<Rightarrow> win_rect" where
  "moveRect dx dy r = \<lparr>xmin = xmin r + dx, xmax = xmax r + dx, ymin = ymin r + dy, ymax = ymax r + dy\<rparr>"

section \<open>Message queues\<close>

definition initMessageQueue :: "msg_buf \<Rightarrow> msg_buf" where
  "initMessageQueue b = b\<lparr>front := 0, rear := 0, cnt := 0\<rparr>"

definition dispatchMessage :: "message \<Rightarrow> msg_buf \<Rightarrow> int \<times> msg_buf" where
  "dispatchMessage m b =
     (if cnt b \<ge> MSG_BUF_SIZE then (1, b)
      else (0, b\<lparr>cnt := Suc (cnt b), mdata := (mdata b)[rear b := m],
        rear := (if Suc (rear b) \<ge> MSG_BUF_SIZE then 0 else Suc (rear b))\<rparr>))"

definition getMessage :: "msg_buf \<Rightarrow> int \<times> message option \<times> msg_buf" where
  "getMessage b =
     (if cnt b = 0 then (1, None, b)
      else (0, Some (mdata b ! front b),
        b\<lparr>front := (front b + 1) mod MSG_BUF_SIZE, cnt := cnt b - 1\<rparr>))"

section \<open>The window list\<close>

definition upd_slot :: "int \<Rightarrow> (wslot \<Rightarrow> wslot) \<Rightarrow> wm \<Rightarrow> wm" where
  "upd_slot p f s = s\<lparr>windowlist := (windowlist s)[nat p := f (windowlist s ! nat p)]\<rparr>"

definition slot_at :: "wm \<Rightarrow> int \<Rightarrow> wslot" where
  "slot_at s p = windowlist s ! nat p"

definition findNextAvailableWindowId :: "wm \<Rightarrow> int" where
  "findNextAvailableWindowId s =
     (case scan (\<lambda>i. sprev (windowlist s ! i) = int i \<and> snext (windowlist s ! i) = int i) 0 MAX_WINDOW_CNT of
        Some i \<Rightarrow> int i | None \<Rightarrow> -1)"

definition addToWindowList :: "int \<Rightarrow> wm \<Rightarrow> wm" where
  "addToWindowList idx s =
     (let s1 = upd_slot idx (\<lambda>e. e\<lparr>sprev := windowlisttail s, snext := -1\<rparr>) s;
          s2 = (if windowlisttail s1 \<noteq> -1
                then upd_slot (windowlisttail s1) (\<lambda>e. e\<lparr>snext := idx\<rparr>) s1 else s1)
      in s2\<lparr>windowlisttail := idx\<rparr>)"

definition removeFromWindowList :: "int \<Rightarrow> wm \<Rightarrow> wm" where
  "removeFromWindowList idx s =
     (let s1 = (if windowlisttail s = idx
                then s\<lparr>windowlisttail := sprev (slot_at s (windowlisttail s))\<rparr> else s);
          s2 = (if sprev (slot_at s1 idx) \<noteq> -1
                then upd_slot (sprev (slot_at s1 idx)) (\<lambda>e. e\<lparr>snext := snext (slot_at s1 idx)\<rparr>) s1
                else s1)
      in (if snext (slot_at s2 idx) \<noteq> -1
          then upd_slot (snext (slot_at s2 idx)) (\<lambda>e. e\<lparr>sprev := sprev (slot_at s2 idx)\<rparr>) s2
          else s2))"

definition focusWindow :: "int \<Rightarrow> wm \<Rightarrow> wm" where
  "focusWindow winId s =
     (if winId = -1 \<or> winId = windowlisttail s then s
      else if winId = windowlisthead s
      then let newhead = snext (slot_at s winId);
               s1 = (upd_slot newhead (\<lambda>e. e\<lparr>sprev := -1\<rparr>) s)\<lparr>windowlisthead := newhead\<rparr>
           in addToWindowList winId s1
      else let prevWin = sprev (slot_at s winId); nextWin = snext (slot_at s winId);
               s1 = upd_slot prevWin (\<lambda>e. e\<lparr>snext := nextWin\<rparr>) s;
               s2 = upd_slot nextWin (\<lambda>e. e\<lparr>sprev := prevWin\<rparr>) s1
           in addToWindowList winId s2)"

definition next_of :: "wm \<Rightarrow> int \<Rightarrow> int" where
  "next_of s p = snext (slot_at s p)"

definition prev_of :: "wm \<Rightarrow> int \<Rightarrow> int" where
  "prev_of s p = sprev (slot_at s p)"

definition getWindowCount :: "wm \<Rightarrow> nat option" where
  "getWindowCount s =
     Option.bind (walk (next_of s) (windowlisthead s)) (\<lambda>l. Some (length (filter (\<lambda>p. p \<noteq> desktopId s) l)))"

definition wmInit :: "wm \<Rightarrow> wm" where
  "wmInit s =
     (let mx = screen_w s div 2; my = screen_h s div 2 in
      s\<lparr>mouseShape := 0, mouse_x := mx, mouse_y := my, last_x := mx, last_y := my,
        windowlisthead := -1, windowlisttail := -1,
        windowlist := map (\<lambda>i. (windowlist s ! i)\<lparr>snext := int i, sprev := int i\<rparr>) [0..<MAX_WINDOW_CNT],
        popupwindow := (popupwindow s)\<lparr>caller := -1\<rparr>,
        clickedOnTitle := False, clickedOnContent := False, clickedOnPopup := False\<rparr>)"

section \<open>Windows\<close>

text \<open>\<open>dispatchMessage(&windowlist[p].wnd.msg_buf, m)\<close>, whose result the window manager ignores.\<close>

definition dispatch_to :: "int \<Rightarrow> message \<Rightarrow> wm \<Rightarrow> wm kres" where
  "dispatch_to p m s =
     (if p < 0 \<or> int MAX_WINDOW_CNT \<le> p then Panic ''windowlist index''
      else Ok (upd_slot p (\<lambda>e. e\<lparr>wnd := (wnd e)\<lparr>msgs := snd (dispatchMessage m (msgs (wnd e)))\<rparr>\<rparr>) s))"

definition dispatch_popup :: "message \<Rightarrow> wm \<Rightarrow> wm" where
  "dispatch_popup m s =
     s\<lparr>popupwindow := (popupwindow s)\<lparr>pwnd := (pwnd (popupwindow s))\<lparr>msgs :=
        snd (dispatchMessage m (msgs (pwnd (popupwindow s))))\<rparr>\<rparr>\<rparr>"

definition fit_title :: "char list \<Rightarrow> char list" where
  "fit_title t =
     (let len = (if length t \<ge> MAX_TITLE_LEN then MAX_TITLE_LEN - 1 else length t)
      in take len t @ replicate (MAX_TITLE_LEN - len) (CHR 0x00))"

definition fits_screen :: "wm \<Rightarrow> window_arg \<Rightarrow> bool" where
  "fits_screen s w \<longleftrightarrow>
     (let r = a_initial w in
      xmin r \<ge> 0 \<and> xmax r \<le> screen_w s \<and> ymin r \<ge> 0 \<and> ymax r \<le> screen_h s \<and>
      xmax r - xmin r = a_width w \<and> ymax r - ymin r = a_height w)"

definition initial_position :: "wm \<Rightarrow> window_arg \<Rightarrow> win_rect" where
  "initial_position s w =
     (let r = a_initial w in
      if fits_screen s w then createRectByCoord (xmin r) (ymin r) (xmax r) (ymax r)
      else createRectByCoord
        (screen_w s div 2 - a_width w sdiv 2) (screen_h s div 2 - a_height w sdiv 2)
        (screen_w s div 2 + a_width w sdiv 2) (screen_h s div 2 + a_height w sdiv 2))"

definition init_window :: "nat \<Rightarrow> window_arg \<Rightarrow> char list \<Rightarrow> win_rect \<Rightarrow> wslot \<Rightarrow> wslot" where
  "init_window myproc w ttl pos e = e\<lparr>wproc := myproc, wnd := (wnd e)\<lparr>position := pos,
     window_buf := a_buf w, minimized := False, hasTitleBar := a_titlebar w,
     msgs := initMessageQueue (msgs (wnd e)), title := fit_title ttl\<rparr>\<rparr>"

definition createWindow :: "nat \<Rightarrow> window_arg \<Rightarrow> char list \<Rightarrow> wm \<Rightarrow> int \<times> window_arg \<times> wm" where
  "createWindow myproc w ttl s =
     (let winId = findNextAvailableWindowId s in
      if winId = -1 then (1, w, s)
      else
        let s1 = (if windowlisthead s = -1 then s\<lparr>windowlisthead := winId\<rparr> else s);
            s2 = addToWindowList winId s1;
            s3 = (if desktopId s2 = -1 then s2\<lparr>desktopId := winId\<rparr> else s2);
            s4 = upd_slot winId (init_window myproc w ttl (initial_position s3 w)) s3
        in (0, w\<lparr>a_handler := winId\<rparr>, s4))"

definition createPopupWindow :: "nat \<Rightarrow> window_arg \<Rightarrow> int \<Rightarrow> wm \<Rightarrow> int \<times> window_arg \<times> wm" where
  "createPopupWindow myproc w clr s =
     (if caller (popupwindow s) \<noteq> -1 then (1, w, s)
      else
        let r = a_initial w; p = popupwindow s;
            pos = (if fits_screen s w then createRectByCoord (xmin r) (ymin r) (xmax r) (ymax r)
                   else position (pwnd p));
            p' = p\<lparr>caller := clr, pproc := myproc, pwnd := (pwnd p)\<lparr>position := pos,
                   window_buf := a_buf w, minimized := False, hasTitleBar := a_titlebar w,
                   msgs := initMessageQueue (msgs (pwnd p))\<rparr>\<rparr>
        in (0, w\<lparr>a_handler := clr\<rparr>, s\<lparr>popupwindow := p'\<rparr>))"

definition closePopupWindow :: "window_arg \<Rightarrow> wm \<Rightarrow> int \<times> window_arg \<times> wm" where
  "closePopupWindow w s =
     (let p = popupwindow s;
          p' = p\<lparr>caller := -1, pwnd := (pwnd p)\<lparr>msgs := initMessageQueue (msgs (pwnd p)),
                 title := replicate MAX_TITLE_LEN (CHR 0x00)\<rparr>\<rparr>
      in (0, w\<lparr>a_handler := -1\<rparr>, s\<lparr>popupwindow := p'\<rparr>))"

text \<open>The handler comes from the memory of the program and is not checked: outside of the table the code
  reads and writes past \<open>windowlist\<close>.\<close>

definition off_table :: "int \<Rightarrow> bool" where
  "off_table p \<longleftrightarrow> p < 0 \<or> int MAX_WINDOW_CNT \<le> p"

definition closeWindow :: "window_arg \<Rightarrow> wm \<Rightarrow> (int \<times> window_arg \<times> wm) kres" where
  "closeWindow w s =
     (let winId = a_handler w in
      if off_table winId then Panic ''windowlist index''
      else
        let s1 = removeFromWindowList winId s;
            s2 = upd_slot winId (\<lambda>e. e\<lparr>sprev := winId, snext := winId, wnd := (wnd e)\<lparr>
                   msgs := initMessageQueue (msgs (wnd e)), title := replicate MAX_TITLE_LEN (CHR 0x00)\<rparr>\<rparr>) s1;
            s3 = (if winId = windowlisttail s2 then focusWindow (sprev (slot_at s2 winId)) s2 else s2)
        in Ok (0, w\<lparr>a_handler := -1\<rparr>, s3))"

definition minimizeWindow :: "window_arg \<Rightarrow> wm \<Rightarrow> (int \<times> wm) kres" where
  "minimizeWindow w s =
     (let winId = a_handler w in
      if off_table winId then Panic ''windowlist index''
      else
        let s1 = upd_slot winId (\<lambda>e. e\<lparr>wnd := (wnd e)\<lparr>minimized := True\<rparr>\<rparr>) s
        in Ok (0, if winId = windowlisttail s1 then focusWindow (sprev (slot_at s1 winId)) s1 else s1))"

definition maximizeWindow :: "window_arg \<Rightarrow> wm \<Rightarrow> (int \<times> wm) kres" where
  "maximizeWindow w s =
     (let winId = a_handler w in
      if off_table winId then Panic ''windowlist index''
      else Ok (0, focusWindow winId (upd_slot winId (\<lambda>e. e\<lparr>wnd := (wnd e)\<lparr>minimized := False\<rparr>\<rparr>) s)))"

section \<open>Handling messages\<close>

definition simple_msg :: "int \<Rightarrow> message" where
  "simple_msg ty = \<lparr>msg_type = ty, msg_params = []\<rparr>"

definition mouse_msg :: "int \<Rightarrow> int \<Rightarrow> int \<Rightarrow> message" where
  "mouse_msg ty x y = \<lparr>msg_type = ty, msg_params = [x, y]\<rparr>"

text \<open>The loop over the dock buttons: the button under the pointer, or \<open>-1\<close>.\<close>

partial_function (option) dock_hit :: "(int \<Rightarrow> int) \<Rightarrow> int \<Rightarrow> int \<Rightarrow> int \<Rightarrow> int \<Rightarrow> int \<Rightarrow> int option" where
  "dock_hit nxt desk mx barWidth xStart p =
     (if p = -1 then Some (-1)
      else if p \<noteq> desk
      then if mx > xStart + 1 \<and> mx \<le> xStart + barWidth - 1 then Some p
           else dock_hit nxt desk mx barWidth (xStart + barWidth) (nxt p)
      else dock_hit nxt desk mx barWidth xStart (nxt p))"

fun dispatch_list :: "(wm \<Rightarrow> int \<Rightarrow> bool) \<Rightarrow> message \<Rightarrow> int list \<Rightarrow> wm \<Rightarrow> wm kres" where
  "dispatch_list sel m [] s = Ok s"
| "dispatch_list sel m (p # ps) s =
     kbind (if sel s p then dispatch_to p m s else Ok s) (dispatch_list sel m ps)"

definition dock_program_click :: "int \<Rightarrow> wm \<Rightarrow> wm kres option" where
  "dock_program_click mx s =
     Option.bind (getWindowCount s) (\<lambda>windowCount.
       if windowCount > 0
       then let barWidth = min ((screen_w s - 72 - 10) sdiv (int windowCount + 1)) 160 in
         Option.bind (dock_hit (next_of s) (desktopId s) mx barWidth (72 + 5) (windowlisthead s)) (\<lambda>p.
           Some (if p = -1 then Ok s
                 else if minimized (wnd (slot_at s p)) then dispatch_to p (simple_msg WM_WINDOW_MAXIMIZE) s
                 else Ok (focusWindow p s)))
       else Some (Ok s))"

definition dock_show_desktop :: "int \<Rightarrow> wm \<Rightarrow> wm kres option" where
  "dock_show_desktop mx s =
     (if mx \<ge> screen_w s - 10
      then Option.bind (walk (next_of s) (windowlisthead s)) (\<lambda>ps.
        Some (dispatch_list (\<lambda>s p. p \<noteq> desktopId s \<and> \<not> minimized (wnd (slot_at s p)))
          (simple_msg WM_WINDOW_MINIMIZE) ps s))
      else Some (Ok s))"

definition handleDesktopDockClick :: "int \<Rightarrow> message \<Rightarrow> wm \<Rightarrow> wm kres option" where
  "handleDesktopDockClick mx m s =
     okbind (dock_program_click mx s) (\<lambda>s1.
     okbind (dock_show_desktop mx s1) (\<lambda>s2.
       Some (if mx \<le> 72 \<and> msg_type m = M_MOUSE_LEFT_CLICK \<and> caller (popupwindow s2) \<noteq> desktopId s2
             then dispatch_to (desktopId s2) (mouse_msg (msg_type m) (mouse_x s2) (mouse_y s2)) s2
             else Ok s2)))"

text \<open>The position of the focused window, for code that does not check that there is one.\<close>

definition tail_pos :: "wm \<Rightarrow> win_rect kres" where
  "tail_pos s = (if windowlisttail s = -1 then Panic ''windowlist index''
     else Ok (position (wnd (slot_at s (windowlisttail s)))))"

definition moveFocusWindow :: "int \<Rightarrow> int \<Rightarrow> wm \<Rightarrow> wm kres" where
  "moveFocusWindow dx dy s =
     (let t = windowlisttail s in
      if t = -1 then Panic ''windowlist index''
      else Ok (if hasTitleBar (wnd (slot_at s t))
               then upd_slot t (\<lambda>e. e\<lparr>wnd := (wnd e)\<lparr>position := moveRect dx dy (position (wnd e))\<rparr>\<rparr>) s
               else s))"

definition to_focused :: "int \<Rightarrow> wm \<Rightarrow> wm kres" where
  "to_focused ty s = kbind (tail_pos s) (\<lambda>r.
     dispatch_to (windowlisttail s) (mouse_msg ty (mouse_x s - xmin r) (mouse_y s - ymin r)) s)"

definition param :: "message \<Rightarrow> nat \<Rightarrow> int" where
  "param m i = msg_params m ! i"

definition move_pointer :: "message \<Rightarrow> wm \<Rightarrow> wm" where
  "move_pointer m s =
     (let s1 = s\<lparr>last_x := mouse_x s, last_y := mouse_y s\<rparr>;
          moved = param m 0 > - screen_w s \<and> param m 0 < screen_w s \<and>
                  param m 1 > - screen_h s \<and> param m 0 < screen_h s;
          x = (if moved then mouse_x s + param m 0 else mouse_x s);
          y = (if moved then mouse_y s - param m 1 else mouse_y s);
          x1 = (if x > screen_w s then screen_w s else x);
          y1 = (if y > screen_h s then screen_h s else y)
      in s1\<lparr>mouse_x := (if x1 < 0 then 0 else x1), mouse_y := (if y1 < 0 then 0 else y1)\<rparr>)"

definition wm_mouse_move :: "message \<Rightarrow> wm \<Rightarrow> wm kres" where
  "wm_mouse_move m s =
     (let s1 = move_pointer m s in
      if clickedOnTitle s1
      then moveFocusWindow (mouse_x s1 - last_x s1) (mouse_y s1 - last_y s1) (s1\<lparr>mouseShape := 1\<rparr>)
      else if clickedOnContent s1 then to_focused (msg_type m) s1
      else Ok s1)"

text \<open>The test of the loop that looks for the window under the pointer.\<close>

definition hit :: "wm \<Rightarrow> int \<Rightarrow> bool" where
  "hit s p \<longleftrightarrow>
     (let w = wnd (slot_at s p); r = position w in
      p \<noteq> desktopId s \<and> \<not> minimized w \<and>
      isInRect (xmin r) (ymin r - TITLE_HEIGHT) (xmax r) (ymax r) (mouse_x s) (mouse_y s))"

definition press_title :: "win_rect \<Rightarrow> wm \<Rightarrow> wm kres" where
  "press_title r s =
     (if isInRect (xmin r) (ymin r - TITLE_HEIGHT) (xmax r) (ymin r) (mouse_x s) (mouse_y s)
      then if mouse_x s + 30 > xmax r
           then dispatch_to (windowlisttail s) (simple_msg WM_WINDOW_CLOSE) s
           else if mouse_x s + 60 > xmax r \<and> mouse_x s + 30 \<le> xmax r
           then dispatch_to (windowlisttail s) (simple_msg WM_WINDOW_MINIMIZE) s
           else Ok (s\<lparr>clickedOnTitle := True\<rparr>)
      else Ok s)"

definition press_content :: "int \<Rightarrow> win_rect \<Rightarrow> wm \<Rightarrow> wm kres" where
  "press_content ty r s =
     (if isInRect (xmin r) (ymin r) (xmax r) (ymax r) (mouse_x s) (mouse_y s)
      then let pp = position (pwnd (popupwindow s)) in
        dispatch_to (windowlisttail s) (mouse_msg ty (mouse_x s - xmin pp) (mouse_y s - ymin pp))
          (s\<lparr>clickedOnContent := True\<rparr>)
      else Ok s)"

definition in_popup :: "wm \<Rightarrow> bool" where
  "in_popup s \<longleftrightarrow>
     (let r = position (pwnd (popupwindow s)) in
      caller (popupwindow s) \<noteq> -1 \<and>
      isInRect (xmin r) (ymin r) (xmax r) (ymax r) (mouse_x s) (mouse_y s))"

definition wm_mouse_down :: "message \<Rightarrow> wm \<Rightarrow> wm kres option" where
  "wm_mouse_down m s =
     (if in_popup s then Some (Ok (s\<lparr>clickedOnPopup := True\<rparr>))
      else
        let s1 = dispatch_popup (simple_msg WM_WINDOW_CLOSE) s in
        Option.bind (first_on (prev_of s1) (hit s1) (windowlisttail s1)) (\<lambda>p.
          let s2 = (if p = -1 then focusWindow (desktopId s1) s1 else focusWindow p s1) in
          Some (kbind (tail_pos s2) (\<lambda>r. kbind (press_title r s2) (press_content (msg_type m) r)))))"

definition wm_mouse_up :: "message \<Rightarrow> wm \<Rightarrow> wm kres" where
  "wm_mouse_up m s =
     (let s1 = s\<lparr>clickedOnPopup := False\<rparr> in
      kbind (if clickedOnContent s1
             then to_focused (msg_type m) (s1\<lparr>clickedOnContent := False\<rparr>)
             else Ok s1)
        (\<lambda>s2. Ok (s2\<lparr>clickedOnTitle := False, mouseShape := 0\<rparr>)))"

definition wm_mouse_click :: "message \<Rightarrow> wm \<Rightarrow> wm kres option" where
  "wm_mouse_click m s =
     (if clickedOnPopup s
      then let r = position (pwnd (popupwindow s));
               s1 = dispatch_popup (mouse_msg (msg_type m) (mouse_x s - xmin r) (mouse_y s - ymin r))
                      (s\<lparr>clickedOnPopup := False\<rparr>)
           in Some (wm_mouse_up m s1)
      else if clickedOnContent s
      then let s1 = s\<lparr>clickedOnContent := False\<rparr> in
           if windowlisttail s1 = desktopId s1 \<and> mouse_y s1 \<ge> screen_h s1 - DOCK_HEIGHT \<and>
              mouse_y s1 \<le> screen_h s1
           then okbind (handleDesktopDockClick (mouse_x s1) m s1) (\<lambda>s2. Some (wm_mouse_up m s2))
           else Some (to_focused (msg_type m) s1)
      else Some (wm_mouse_up m s))"

definition wmHandleMessage :: "message \<Rightarrow> wm \<Rightarrow> wm kres option" where
  "wmHandleMessage m s =
     (if msg_type m = M_MOUSE_MOVE then Some (wm_mouse_move m s)
      else if msg_type m = M_MOUSE_DOWN then wm_mouse_down m s
      else if msg_type m = 6 \<or> msg_type m = 7 \<or> msg_type m = 8 then wm_mouse_click m s
      else if msg_type m = M_MOUSE_UP then Some (wm_mouse_up m s)
      else if msg_type m = 1 \<or> msg_type m = 2 then Some (dispatch_to (windowlisttail s) m s)
      else Some (Ok s))"

definition turnoffScreen :: "wm \<Rightarrow> wm kres option" where
  "turnoffScreen s =
     Option.bind (walk (next_of s) (windowlisthead s)) (\<lambda>ps.
       Some (dispatch_list (\<lambda>_ _. True) (simple_msg WM_WINDOW_CLOSE) ps s))"

definition sys_GUI_getMessage :: "nat \<Rightarrow> int \<Rightarrow> wm \<Rightarrow> (int \<times> message option \<times> wm) kres" where
  "sys_GUI_getMessage myproc h s =
     (if h < 0 \<or> int MAX_WINDOW_CNT \<le> h then Panic ''windowlist index''
      else if myproc \<noteq> wproc (slot_at s h) then Ok (1, None, s)
      else case getMessage (msgs (wnd (slot_at s h))) of (r, m, b) \<Rightarrow>
        Ok (r, m, upd_slot h (\<lambda>e. e\<lparr>wnd := (wnd e)\<lparr>msgs := b\<rparr>\<rparr>) s))"

definition sys_GUI_getPopupMessage :: "wm \<Rightarrow> int \<times> message option \<times> wm" where
  "sys_GUI_getPopupMessage s =
     (let p = popupwindow s in
      if caller p = -1 then (1, None, s)
      else case getMessage (msgs (pwnd p)) of (r, m, b) \<Rightarrow>
        (r, m, s\<lparr>popupwindow := p\<lparr>pwnd := (pwnd p)\<lparr>msgs := b\<rparr>\<rparr>\<rparr>))"

section \<open>The queue of messages is a bounded FIFO\<close>

definition queued :: "msg_buf \<Rightarrow> message list" where
  "queued b = map (\<lambda>i. mdata b ! ((front b + i) mod MSG_BUF_SIZE)) [0..<cnt b]"

definition queue_ok :: "msg_buf \<Rightarrow> bool" where
  "queue_ok b \<longleftrightarrow> length (mdata b) = MSG_BUF_SIZE \<and> front b < MSG_BUF_SIZE \<and>
     cnt b \<le> MSG_BUF_SIZE \<and> rear b = (front b + cnt b) mod MSG_BUF_SIZE"

definition queue_put :: "message \<Rightarrow> msg_buf \<Rightarrow> msg_buf option" where
  "queue_put m b = (case dispatchMessage m b of (r, b') \<Rightarrow> if r = 0 then Some b' else None)"

definition queue_get :: "msg_buf \<Rightarrow> (message \<times> msg_buf) option" where
  "queue_get b = (case getMessage b of (r, Some m, b') \<Rightarrow> Some (m, b') | _ \<Rightarrow> None)"

lemma length_queued [simp]: "length (queued b) = cnt b"
  by (simp add: queued_def)

lemma suc_wrap: "r < MSG_BUF_SIZE \<Longrightarrow> (if Suc r \<ge> MSG_BUF_SIZE then 0 else Suc r) = Suc r mod MSG_BUF_SIZE"
  by (cases "r = 49") auto

lemma queue_put_room:
  assumes ok: "queue_ok b" and room: "cnt b < MSG_BUF_SIZE"
  shows "\<exists>b'. queue_put m b = Some b' \<and> queue_ok b' \<and> queued b' = queued b @ [m]"
proof -
  have r: "rear b < MSG_BUF_SIZE" "rear b < length (mdata b)" using ok by (simp_all add: queue_ok_def)
  define b' where "b' = b\<lparr>cnt := Suc (cnt b), mdata := (mdata b)[rear b := m],
    rear := Suc (rear b) mod MSG_BUF_SIZE\<rparr>"
  have p: "queue_put m b = Some b'"
    using room suc_wrap [OF r(1)] by (simp add: queue_put_def dispatchMessage_def b'_def)
  have "queue_ok b'" using ok room by (simp add: queue_ok_def b'_def mod_Suc_eq)
  moreover have "queued b' = queued b @ [m]"
  proof -
    have "mdata b' ! ((front b + i) mod MSG_BUF_SIZE) = mdata b ! ((front b + i) mod MSG_BUF_SIZE)"
      if "i < cnt b" for i
      using that ok room mod_add_neq [of i "cnt b" MSG_BUF_SIZE "front b"]
      by (simp add: b'_def queue_ok_def)
    moreover have "mdata b' ! ((front b + cnt b) mod MSG_BUF_SIZE) = m"
      using ok r by (simp add: b'_def queue_ok_def)
    ultimately show ?thesis by (simp add: queued_def) (simp add: b'_def)
  qed
  ultimately show ?thesis using p by blast
qed

lemma queue_get_item:
  assumes ok: "queue_ok b" and q: "queued b = a # as"
  shows "\<exists>b'. queue_get b = Some (a, b') \<and> queue_ok b' \<and> queued b' = as"
proof -
  have n: "cnt b = Suc (length as)" using q length_queued [of b] by simp
  define b' where "b' = b\<lparr>front := (front b + 1) mod MSG_BUF_SIZE, cnt := cnt b - 1\<rparr>"
  have "queued b = mdata b ! (front b mod MSG_BUF_SIZE) #
      map (\<lambda>i. mdata b ! ((front b + Suc i) mod MSG_BUF_SIZE)) [0..<length as]"
    unfolding queued_def n by (simp add: upt_conv_Cons map_Suc_upt [symmetric] del: upt_Suc)
  moreover have "queued b' = map (\<lambda>i. mdata b ! ((front b + Suc i) mod MSG_BUF_SIZE)) [0..<length as]"
    by (simp add: queued_def b'_def n) (simp add: mod_add_left_eq)
  ultimately have "a = mdata b ! front b" "queued b' = as"
    using q ok by (simp_all add: queue_ok_def)
  moreover have "((front b + 1) mod MSG_BUF_SIZE + length as) mod MSG_BUF_SIZE =
      (front b + 1 + length as) mod MSG_BUF_SIZE" by (rule mod_add_left_eq)
  then have "queue_ok b'" using ok n by (simp add: queue_ok_def b'_def)
  ultimately show ?thesis using n
    by (auto simp: queue_get_def getMessage_def b'_def)
qed

interpretation msgq: bounded_fifo queued queue_ok MSG_BUF_SIZE queue_put queue_get
proof unfold_locales
  fix s :: msg_buf and a :: message and as
  show "queue_ok s \<Longrightarrow> length (queued s) \<le> MSG_BUF_SIZE" by (simp add: queue_ok_def)
  show "queue_ok s \<Longrightarrow> length (queued s) = MSG_BUF_SIZE \<Longrightarrow> queue_put a s = None"
    by (simp add: queue_put_def dispatchMessage_def)
  show "queue_ok s \<Longrightarrow> length (queued s) < MSG_BUF_SIZE \<Longrightarrow>
      \<exists>s'. queue_put a s = Some s' \<and> queue_ok s' \<and> queued s' = queued s @ [a]"
    by (simp add: queue_put_room)
  show "queue_ok s \<Longrightarrow> queued s = [] \<Longrightarrow> queue_get s = None"
    by (simp add: queue_get_def getMessage_def flip: length_queued)
  show "queue_ok s \<Longrightarrow> queued s = a # as \<Longrightarrow>
      \<exists>s'. queue_get s = Some (a, s') \<and> queue_ok s' \<and> queued s' = as"
    by (rule queue_get_item)
qed

section \<open>The window list refines a stacking order\<close>

definition nx :: "wm \<Rightarrow> nat \<Rightarrow> int" where
  "nx s i = snext (windowlist s ! i)"

definition pv :: "wm \<Rightarrow> nat \<Rightarrow> int" where
  "pv s i = sprev (windowlist s ! i)"

definition free_slot :: "wm \<Rightarrow> nat \<Rightarrow> bool" where
  "free_slot s i \<longleftrightarrow> pv s i = int i \<and> nx s i = int i"

text \<open>\<open>stack s ws\<close>: the windows are \<open>ws\<close>, bottom first.\<close>

definition stack :: "wm \<Rightarrow> nat list \<Rightarrow> bool" where
  "stack s ws \<longleftrightarrow> length (windowlist s) = MAX_WINDOW_CNT \<and> set ws \<subseteq> {..<MAX_WINDOW_CNT} \<and>
     dll (nx s) (pv s) ws \<and> windowlisthead s = head_of ws \<and> windowlisttail s = last_of ws \<and>
     (\<forall>i<MAX_WINDOW_CNT. i \<notin> set ws \<longrightarrow> free_slot s i)"

text \<open>The same with slot \<open>v\<close> taken out of the list and not yet put back.\<close>

definition stack_but :: "nat \<Rightarrow> wm \<Rightarrow> nat list \<Rightarrow> bool" where
  "stack_but v s ws \<longleftrightarrow> length (windowlist s) = MAX_WINDOW_CNT \<and> set ws \<subseteq> {..<MAX_WINDOW_CNT} \<and>
     dll (nx s) (pv s) ws \<and> windowlisttail s = last_of ws \<and> v \<notin> set ws \<and> v < MAX_WINDOW_CNT \<and>
     (\<forall>i<MAX_WINDOW_CNT. i \<notin> set ws \<longrightarrow> i \<noteq> v \<longrightarrow> free_slot s i)"

lemma stackD:
  assumes "stack s ws"
  shows "length (windowlist s) = MAX_WINDOW_CNT" "w \<in> set ws \<Longrightarrow> w < MAX_WINDOW_CNT"
    "dll (nx s) (pv s) ws" "windowlisthead s = head_of ws" "windowlisttail s = last_of ws"
    "distinct ws" "i < MAX_WINDOW_CNT \<Longrightarrow> i \<notin> set ws \<Longrightarrow> free_slot s i"
  using assms by (auto simp: stack_def dll_def)

lemma upd_slot_simps [simp]:
  "windowlisthead (upd_slot p f s) = windowlisthead s"
  "windowlisttail (upd_slot p f s) = windowlisttail s"
  "desktopId (upd_slot p f s) = desktopId s"
  "popupwindow (upd_slot p f s) = popupwindow s"
  "length (windowlist (upd_slot p f s)) = length (windowlist s)"
  "mouse_x (upd_slot p f s) = mouse_x s" "mouse_y (upd_slot p f s) = mouse_y s"
  "screen_w (upd_slot p f s) = screen_w s" "screen_h (upd_slot p f s) = screen_h s"
  by (simp_all add: upd_slot_def)

lemma nx_upd:
  "nat p < length (windowlist s) \<Longrightarrow>
   nx (upd_slot p f s) = (nx s)(nat p := snext (f (windowlist s ! nat p)))"
  by (auto simp: nx_def upd_slot_def fun_eq_iff nth_list_update)

lemma pv_upd:
  "nat p < length (windowlist s) \<Longrightarrow>
   pv (upd_slot p f s) = (pv s)(nat p := sprev (f (windowlist s ! nat p)))"
  by (auto simp: pv_def upd_slot_def fun_eq_iff nth_list_update)

lemma links_unchanged:
  assumes "\<And>e. snext (f e) = snext e \<and> sprev (f e) = sprev e"
  shows "nx (upd_slot p f s) = nx s" "pv (upd_slot p f s) = pv s"
  using assms by (cases "nat p < length (windowlist s)";
    auto simp: nx_def pv_def upd_slot_def fun_eq_iff nth_list_update list_update_beyond)+

lemma pv_keep: "(\<And>e. sprev (f e) = sprev e) \<Longrightarrow> pv (upd_slot p f s) = pv s"
  by (cases "nat p < length (windowlist s)";
    auto simp: pv_def upd_slot_def fun_eq_iff nth_list_update list_update_beyond)

lemma nx_keep: "(\<And>e. snext (f e) = snext e) \<Longrightarrow> nx (upd_slot p f s) = nx s"
  by (cases "nat p < length (windowlist s)";
    auto simp: nx_def upd_slot_def fun_eq_iff nth_list_update list_update_beyond)

lemma nx_only_list: "windowlist s' = windowlist s \<Longrightarrow> nx s' = nx s"
  by (simp add: nx_def fun_eq_iff)

lemma pv_only_list: "windowlist s' = windowlist s \<Longrightarrow> pv s' = pv s"
  by (simp add: pv_def fun_eq_iff)

lemma links_other_fields [simp]:
  "nx (s\<lparr>windowlisttail := p\<rparr>) = nx s" "pv (s\<lparr>windowlisttail := p\<rparr>) = pv s"
  "nx (s\<lparr>windowlisthead := p\<rparr>) = nx s" "pv (s\<lparr>windowlisthead := p\<rparr>) = pv s"
  "nx (s\<lparr>desktopId := p\<rparr>) = nx s" "pv (s\<lparr>desktopId := p\<rparr>) = pv s"
  by (simp_all add: nx_def pv_def fun_eq_iff)

lemma stack_cong:
  assumes "nx s' = nx s" "pv s' = pv s" "windowlisthead s' = windowlisthead s"
    "windowlisttail s' = windowlisttail s" "length (windowlist s') = length (windowlist s)"
  shows "stack s' ws = stack s ws"
  using assms by (simp add: stack_def free_slot_def)

lemma stack_upd_content:
  "(\<And>e. snext (f e) = snext e \<and> sprev (f e) = sprev e) \<Longrightarrow> stack (upd_slot p f s) ws = stack s ws"
  by (rule stack_cong) (auto simp: links_unchanged)

lemma stack_cong_fields:
  "windowlist s' = windowlist s \<Longrightarrow> windowlisthead s' = windowlisthead s \<Longrightarrow>
   windowlisttail s' = windowlisttail s \<Longrightarrow> stack s' ws = stack s ws"
  by (rule stack_cong) (auto simp: nx_def pv_def)

text \<open>Appending a slot that is outside the list.\<close>

lemma addToWindowList_stack:
  assumes "stack_but v s ws"
  shows "dll (nx (addToWindowList (int v) s)) (pv (addToWindowList (int v) s)) (ws @ [v])"
    "windowlisttail (addToWindowList (int v) s) = int v"
    "windowlisthead (addToWindowList (int v) s) = windowlisthead s"
    "length (windowlist (addToWindowList (int v) s)) = MAX_WINDOW_CNT"
    "i < MAX_WINDOW_CNT \<Longrightarrow> i \<notin> set (ws @ [v]) \<Longrightarrow> free_slot (addToWindowList (int v) s) i"
proof -
  let ?s1 = "upd_slot (int v) (\<lambda>e. e\<lparr>sprev := windowlisttail s, snext := -1\<rparr>) s"
  let ?t = "addToWindowList (int v) s"
  note a = assms [unfolded stack_but_def]
  have len: "length (windowlist s) = MAX_WINDOW_CNT" "v < length (windowlist s)" using a by auto
  have l: "nat (windowlisttail s) = last ws" "windowlisttail s \<noteq> -1" "last ws < MAX_WINDOW_CNT" if "ws \<noteq> []"
  proof -
    have "last ws < MAX_WINDOW_CNT" using a last_in_set [OF that] by blast
    then show "nat (windowlisttail s) = last ws" "windowlisttail s \<noteq> -1" "last ws < MAX_WINDOW_CNT"
      using a that by (simp_all add: last_of_def)
  qed
  have tail: "windowlisttail s = last_of ws" using a by simp
  have n1: "nx ?s1 = (nx s)(v := -1)" "pv ?s1 = (pv s)(v := last_of ws)"
    using nx_upd [of "int v" s] pv_upd [of "int v" s] len(2) by (simp_all add: tail)
  have nx': "nx ?t = (if ws = [] then (nx s)(v := -1) else (nx s)(v := -1, last ws := int v))"
  proof (cases "ws = []")
    case True
    then have "windowlisttail s = -1" by (simp add: tail)
    then show ?thesis using n1(1) True by (simp add: addToWindowList_def Let_def)
  next
    case False
    have "nx (upd_slot (windowlisttail s) (\<lambda>e. e\<lparr>snext := int v\<rparr>) ?s1) = (nx ?s1)(last ws := int v)"
      using l(1,3) [OF False] len(1) by (subst nx_upd) simp_all
    then have "nx ?t = (nx ?s1)(last ws := int v)"
      using l(2) [OF False] by (simp add: addToWindowList_def Let_def)
    then show ?thesis using False n1(1) by simp
  qed
  have "pv ?t = pv ?s1"
    by (simp add: addToWindowList_def Let_def pv_keep)
  then have pv': "pv ?t = (pv s)(v := last_of ws)" using n1(2) by simp
  show d: "dll (nx ?t) (pv ?t) (ws @ [v])"
    by (rule dll_append [OF _ _ nx' pv']) (use a in auto)
  show "windowlisttail ?t = int v" "windowlisthead ?t = windowlisthead s"
    "length (windowlist ?t) = MAX_WINDOW_CNT"
    using len by (auto simp: addToWindowList_def Let_def)
  show "free_slot ?t i" if "i < MAX_WINDOW_CNT" "i \<notin> set (ws @ [v])"
  proof -
    have "i \<noteq> last ws" if "ws \<noteq> []" using that \<open>i \<notin> set (ws @ [v])\<close> by auto
    then show ?thesis using that a by (auto simp: free_slot_def nx' pv')
  qed
qed

lemma slot_link: "snext (slot_at s (int v)) = nx s v" "sprev (slot_at s (int v)) = pv s v"
  by (simp_all add: slot_at_def nx_def pv_def)

lemma stack_add:
  assumes "stack_but v s ws" "windowlisthead s = (if ws = [] then int v else head_of ws)"
  shows "stack (addToWindowList (int v) s) (ws @ [v])"
proof -
  note a = addToWindowList_stack [OF assms(1)]
  have "head_of (ws @ [v]) = (if ws = [] then int v else head_of ws)"
    by (cases ws) simp_all
  moreover have "set (ws @ [v]) \<subseteq> {..<MAX_WINDOW_CNT}" using assms(1) by (auto simp: stack_but_def)
  ultimately show ?thesis using a assms(2) by (simp add: stack_def)
qed

text \<open>Taking a slot out of the list: what \<open>focusWindow\<close> and \<open>removeFromWindowList\<close> do to the
  links of its neighbours.\<close>

lemma stack_butI:
  assumes s: "stack s (as @ v # bs)"
    and nx': "nx s' = (if as = [] then nx s else (nx s)(last as := nx s v))"
    and pv': "pv s' = (if bs = [] then pv s else (pv s)(hd bs := pv s v))"
    and t: "windowlisttail s' = last_of (as @ bs)"
    and len: "length (windowlist s') = length (windowlist s)"
  shows "stack_but v s' (as @ bs)"
proof -
  note d = stackD [OF s]
  have "dll (nx s') (pv s') (as @ bs)" by (rule dll_remove [OF d(3) nx' pv'])
  moreover have "free_slot s' i" if "i < MAX_WINDOW_CNT" "i \<notin> set (as @ bs)" "i \<noteq> v" for i
  proof -
    have "as \<noteq> [] \<longrightarrow> i \<noteq> last as" "bs \<noteq> [] \<longrightarrow> i \<noteq> hd bs" using that(2) by auto
    moreover have "free_slot s i" using d(7) [of i] that by auto
    ultimately show ?thesis by (auto simp: free_slot_def nx' pv')
  qed
  ultimately show ?thesis using d t len by (auto simp: stack_but_def)
qed

lemma focusWindow_stack:
  assumes s: "stack s (as @ v # bs)" and ne: "bs \<noteq> []"
  shows "stack (focusWindow (int v) s) (as @ bs @ [v])"
proof -
  note d = stackD [OF s]
  have lt: "hd bs < length (windowlist s)" "v < length (windowlist s)"
    using d(1) d(2) [of "hd bs"] d(2) [of v] ne by auto
  have lk: "pv s v = last_of as" "nx s v = int (hd bs)"
    using dll_links [OF d(3)] ne by (simp_all add: head_of_def)
  have di: "v \<notin> set as" "v \<notin> set bs" "distinct as" "distinct bs" "set as \<inter> set bs = {}"
    using d(6) by auto
  have tl: "windowlisttail s = int (last bs)" using d(5) ne by (simp add: last_of_def)
  have nt: "int v \<noteq> windowlisttail s" using tl di(2) ne by auto
  have lastab: "last_of (as @ bs) = int (last bs)" using ne by (simp add: last_of_def)
  show ?thesis
  proof (cases "as = []")
    case True
    let ?s1 = "(upd_slot (int (hd bs)) (\<lambda>e. e\<lparr>sprev := -1\<rparr>) s)\<lparr>windowlisthead := int (hd bs)\<rparr>"
    have "pv ?s1 = (pv s)(hd bs := pv s v)"
      using pv_upd [of "int (hd bs)" s] lt lk(1) True by simp
    moreover have "nx ?s1 = nx s" by (simp add: nx_keep)
    ultimately have "stack_but v ?s1 (as @ bs)"
      by (intro stack_butI [OF s]) (use ne True tl lastab in auto)
    then have "stack (addToWindowList (int v) ?s1) (bs @ [v])"
      using True ne by (intro stack_add) (auto simp: head_of_def)
    moreover have "focusWindow (int v) s = addToWindowList (int v) ?s1"
      using nt d(4) True lk(2) by (simp add: focusWindow_def Let_def slot_link)
    ultimately show ?thesis using True by simp
  next
    case False
    have la: "last as < length (windowlist s)" "last as \<in> set as"
      using d(1) d(2) [of "last as"] False by auto
    have nh: "int v \<noteq> windowlisthead s" using d(4) di(1) False by (cases as) auto
    let ?s1 = "upd_slot (int (last as)) (\<lambda>e. e\<lparr>snext := int (hd bs)\<rparr>) s"
    let ?s2 = "upd_slot (int (hd bs)) (\<lambda>e. e\<lparr>sprev := int (last as)\<rparr>) ?s1"
    have "pv ?s2 = (pv s)(hd bs := pv s v)"
      using pv_upd [of "int (hd bs)" ?s1] lt lk(1) False by (simp add: pv_keep last_of_def)
    moreover have "nx ?s2 = (nx s)(last as := nx s v)"
      using nx_upd [of "int (last as)" s] la lk(2) by (simp add: nx_keep)
    ultimately have b: "stack_but v ?s2 (as @ bs)"
      by (intro stack_butI [OF s]) (use ne False tl lastab in auto)
    have "stack (addToWindowList (int v) ?s2) ((as @ bs) @ [v])"
      by (rule stack_add [OF b]) (use d(4) False in \<open>simp add: head_of_def\<close>)
    moreover have "focusWindow (int v) s = addToWindowList (int v) ?s2"
      using nt nh lk False by (simp add: focusWindow_def Let_def slot_link last_of_def)
    ultimately show ?thesis by simp
  qed
qed

lemma focusWindow_last: "windowlisttail s = p \<Longrightarrow> focusWindow p s = s"
  by (simp add: focusWindow_def)

text \<open>The code does not check that the window is open: a free slot is appended.\<close>

lemma focus_free:
  assumes s: "stack s ws" and ne: "ws \<noteq> []" and v: "v < MAX_WINDOW_CNT" "v \<notin> set ws"
  shows "stack (focusWindow (int v) s) (ws @ [v])"
proof -
  note d = stackD [OF s]
  have f: "pv s v = int v" "nx s v = int v" using d(7) [OF v] by (simp_all add: free_slot_def)
  have nt: "windowlisttail s \<noteq> int v" "windowlisthead s \<noteq> int v"
    using d(4,5) ne v(2) hd_in_set [OF ne] last_in_set [OF ne] by (auto simp: head_of_def last_of_def)
  let ?s1 = "upd_slot (int v) (\<lambda>e. e\<lparr>snext := int v\<rparr>) s"
  let ?s2 = "upd_slot (int v) (\<lambda>e. e\<lparr>sprev := int v\<rparr>) ?s1"
  have l: "v < length (windowlist s)" using d(1) v(1) by simp
  have "nx ?s2 = nx s" "pv ?s2 = pv s"
    using nx_upd [of "int v" s] pv_upd [of "int v" ?s1] l f by (simp_all add: nx_keep pv_keep fun_eq_iff)
  then have st: "stack ?s2 ws" using s by (subst stack_cong [of _ s]) simp_all
  then have "stack_but v ?s2 ws" using v by (auto simp: stack_def stack_but_def)
  moreover have "windowlisthead ?s2 = (if ws = [] then int v else head_of ws)" using ne d(4) by simp
  ultimately have "stack (addToWindowList (int v) ?s2) (ws @ [v])" by (rule stack_add)
  moreover have "focusWindow (int v) s = addToWindowList (int v) ?s2"
    using nt f by (simp add: focusWindow_def Let_def slot_link)
  ultimately show ?thesis by simp
qed

lemma focus_stack:
  assumes s: "stack s ws" and ne: "ws \<noteq> []" and lt: "v < MAX_WINDOW_CNT"
  shows "stack (focusWindow (int v) s) (remove1 v ws @ [v])"
proof (cases "v \<in> set ws")
  case False
  then show ?thesis using focus_free [OF s ne lt] by (simp add: remove1_idem)
next
  case True
  then obtain as bs where ws: "ws = as @ v # bs" and na: "v \<notin> set as" by (meson split_list_first)
  have r: "remove1 v ws = as @ bs" using na by (simp add: ws remove1_append)
  show ?thesis
  proof (cases "bs = []")
    case True
    then have "windowlisttail s = int v" using stackD(5) [OF s] ws by simp
    then show ?thesis using s r True by (simp add: focusWindow_last ws)
  next
    case False
    then show ?thesis using focusWindow_stack [OF s [unfolded ws] False] r by simp
  qed
qed

lemma find_id:
  assumes s: "stack s ws"
  shows "findNextAvailableWindowId s = -1 \<and> length ws = MAX_WINDOW_CNT \<or>
    (\<exists>v. findNextAvailableWindowId s = int v \<and> v < MAX_WINDOW_CNT \<and> v \<notin> set ws)"
proof -
  note d = stackD [OF s]
  let ?P = "\<lambda>i. sprev (windowlist s ! i) = int i \<and> snext (windowlist s ! i) = int i"
  have P: "?P i \<longleftrightarrow> free_slot s i" for i by (simp add: free_slot_def nx_def pv_def)
  show ?thesis
  proof (cases "scan ?P 0 MAX_WINDOW_CNT")
    case None
    then have "i \<in> set ws" if "i < MAX_WINDOW_CNT" for i
      using d(7) [of i] that P by (auto simp: scan_eq_None)
    then have "set ws = {..<MAX_WINDOW_CNT}" using d(2) by auto
    then have "length ws = MAX_WINDOW_CNT"
      using distinct_card [OF d(6)] by simp
    with None show ?thesis by (simp add: findNextAvailableWindowId_def)
  next
    case (Some v)
    then have v: "v < MAX_WINDOW_CNT" "free_slot s v"
      using scan_SomeD [OF Some] by (auto simp: P)
    then have "v \<notin> set ws" using dll_not_self [OF d(3)] by (auto simp: free_slot_def)
    with Some v show ?thesis by (simp add: findNextAvailableWindowId_def)
  qed
qed

lemma stack_full: "stack s ws \<Longrightarrow> length ws = MAX_WINDOW_CNT \<Longrightarrow> v < MAX_WINDOW_CNT \<Longrightarrow> v \<in> set ws"
  using stackD [of s ws] card_subset_eq [of "{..<MAX_WINDOW_CNT}" "set ws"] distinct_card [of ws]
  by (metis card_lessThan finite_lessThan lessThan_iff stack_def)

lemma create_stack:
  assumes s: "stack s ws"
  shows "case createWindow pid w t s of (r, w', s') \<Rightarrow>
    (r = 1 \<and> length ws = MAX_WINDOW_CNT \<and> w' = w \<and> s' = s) \<or>
    (\<exists>v. r = 0 \<and> v \<notin> set ws \<and> v < MAX_WINDOW_CNT \<and> a_handler w' = int v \<and> stack s' (ws @ [v]) \<and>
       desktopId s' = (if desktopId s = -1 then int v else desktopId s) \<and>
       wproc (slot_at s' (int v)) = pid \<and> title (wnd (slot_at s' (int v))) = fit_title t \<and>
       cnt (msgs (wnd (slot_at s' (int v)))) = 0)"
proof -
  note d = stackD [OF s]
  from find_id [OF s] show ?thesis
  proof
    assume "findNextAvailableWindowId s = -1 \<and> length ws = MAX_WINDOW_CNT"
    then show ?thesis by (simp add: createWindow_def)
  next
    assume "\<exists>v. findNextAvailableWindowId s = int v \<and> v < MAX_WINDOW_CNT \<and> v \<notin> set ws"
    then obtain v where v: "findNextAvailableWindowId s = int v" "v < MAX_WINDOW_CNT" "v \<notin> set ws"
      by blast
    define s1 where "s1 = (if windowlisthead s = -1 then s\<lparr>windowlisthead := int v\<rparr> else s)"
    define s2 where "s2 = addToWindowList (int v) s1"
    define s3 where "s3 = (if desktopId s2 = -1 then s2\<lparr>desktopId := int v\<rparr> else s2)"
    have "stack_but v s ws" using s v by (auto simp: stack_def stack_but_def)
    then have "stack_but v s1 ws" by (simp add: s1_def stack_but_def free_slot_def)
    moreover have "windowlisthead s1 = (if ws = [] then int v else head_of ws)"
      using d(4) by (simp add: s1_def head_of_def)
    ultimately have st2: "stack s2 (ws @ [v])" unfolding s2_def by (rule stack_add)
    have st3: "stack s3 (ws @ [v])" using st2 stack_cong_fields [of s3 s2] by (simp add: s3_def)
    have de: "desktopId s2 = desktopId s"
      by (simp add: s2_def s1_def addToWindowList_def Let_def)
    let ?f = "init_window pid w t (initial_position s3 w)"
    have cw: "createWindow pid w t s = (0, w\<lparr>a_handler := int v\<rparr>, upd_slot (int v) ?f s3)"
      unfolding createWindow_def v(1) by (simp add: Let_def s3_def s2_def s1_def)
    have "stack (upd_slot (int v) ?f s3) (ws @ [v])"
      using st3 by (subst stack_upd_content) (simp_all add: init_window_def)
    moreover have "slot_at (upd_slot (int v) ?f s3) (int v) = ?f (slot_at s3 (int v))"
      using stackD(1) [OF st3] v(2) by (simp add: slot_at_def upd_slot_def)
    moreover have "desktopId s3 = (if desktopId s = -1 then int v else desktopId s)"
      by (simp add: s3_def de)
    ultimately show ?thesis using v unfolding cw
      by (simp add: init_window_def initMessageQueue_def)
  qed
qed

lemma close_stack:
  assumes s: "stack s ws" and h: "a_handler w = int v" and v: "v \<in> set ws" and nh: "v \<noteq> hd ws"
  shows "\<exists>w' s'. closeWindow w s = Ok (0, w', s') \<and> a_handler w' = -1 \<and> stack s' (remove1 v ws)"
proof -
  obtain as bs where ws: "ws = as @ v # bs" and na: "v \<notin> set as" using v by (meson split_list_first)
  have ane: "as \<noteq> []" using nh ws by auto
  have r: "remove1 v ws = as @ bs" using na by (simp add: ws remove1_append)
  note st = s [unfolded ws]
  note d = stackD [OF st]
  have nb: "v \<notin> set bs" "set as \<inter> set bs = {}" using d(6) by auto
  have lt: "v < length (windowlist s)" "last as < length (windowlist s)"
    using d(1) d(2) [of v] d(2) [of "last as"] ane by auto
  have lk: "pv s v = int (last as)" "nx s v = head_of bs"
    using dll_links [OF d(3)] ane by (simp_all add: last_of_def)
  define s1 where "s1 = (if windowlisttail s = int v then s\<lparr>windowlisttail := int (last as)\<rparr> else s)"
  define s2 where "s2 = upd_slot (int (last as)) (\<lambda>e. e\<lparr>snext := head_of bs\<rparr>) s1"
  define s3 where "s3 = (if bs = [] then s2
     else upd_slot (int (hd bs)) (\<lambda>e. e\<lparr>sprev := int (last as)\<rparr>) s2)"
  have l1: "nx s1 = nx s" "pv s1 = pv s" "windowlist s1 = windowlist s" by (simp_all add: s1_def)
  have nv: "last as \<noteq> v" using na ane last_in_set [OF ane] by metis
  have l2: "nx s2 = (nx s)(last as := nx s v)" "pv s2 = pv s"
    using nx_upd [of "int (last as)" s1] lt l1 lk(2) by (simp_all add: s2_def pv_keep)
  have l3: "nx s3 = (nx s)(last as := nx s v)"
    "pv s3 = (if bs = [] then pv s else (pv s)(hd bs := pv s v))"
  proof -
    show "nx s3 = (nx s)(last as := nx s v)" by (simp add: s3_def nx_keep l2)
    have "hd bs < length (windowlist s2)" if "bs \<noteq> []"
      using d(1) d(2) [of "hd bs"] that l1 by (simp add: s2_def)
    then show "pv s3 = (if bs = [] then pv s else (pv s)(hd bs := pv s v))"
      using pv_upd [of "int (hd bs)" s2] l2 lk(1) by (simp add: s3_def)
  qed
  have rm: "removeFromWindowList (int v) s = s3"
  proof -
    have a: "sprev (slot_at s1 (int v)) = int (last as)" "snext (slot_at s1 (int v)) = head_of bs"
      by (simp_all add: slot_link l1 lk)
    have b: "sprev (slot_at s2 (int v)) = int (last as)" "snext (slot_at s2 (int v)) = head_of bs"
      using nv by (simp_all add: slot_link l2 lk)
    have t: "(if windowlisttail s = int v
        then s\<lparr>windowlisttail := sprev (slot_at s (windowlisttail s))\<rparr> else s) = s1"
      using lk(1) by (simp add: s1_def slot_link)
    have c: "(if int (last as) \<noteq> -1
        then upd_slot (int (last as)) (\<lambda>e. e\<lparr>snext := head_of bs\<rparr>) s1 else s1) = s2"
      by (simp add: s2_def)
    show ?thesis
      unfolding removeFromWindowList_def Let_def t a c b by (simp add: s3_def head_of_def)
  qed
  have tail3: "windowlisttail s3 = last_of (as @ bs)"
    using d(5) nb(1) ane last_in_set [of bs]
    by (auto simp: s3_def s2_def s1_def last_of_def)
  have len3: "length (windowlist s3) = length (windowlist s)"
    by (simp add: s3_def s2_def l1)
  have sb: "stack_but v s3 (as @ bs)"
    by (rule stack_butI [OF st _ _ tail3 len3]) (simp_all add: l3 ane)
  have head3: "windowlisthead s3 = head_of (as @ bs)"
    using d(4) ane by (simp add: s3_def s2_def s1_def head_of_def)
  define f where "f = (\<lambda>e :: wslot. e\<lparr>sprev := int v, snext := int v, wnd := (wnd e)\<lparr>
     msgs := initMessageQueue (msgs (wnd e)), title := replicate MAX_TITLE_LEN (CHR 0x00)\<rparr>\<rparr>)"
  let ?s4 = "upd_slot (int v) f s3"
  have l4: "nx ?s4 = (nx s3)(v := int v)" "pv ?s4 = (pv s3)(v := int v)"
    using nx_upd [of "int v" s3] pv_upd [of "int v" s3] lt(1) len3 by (simp_all add: f_def)
  have st4: "stack ?s4 (as @ bs)"
  proof -
    have "dll (nx ?s4) (pv ?s4) (as @ bs)"
      unfolding l4 by (rule dll_cong [of "nx s3" "pv s3"]) (use sb in \<open>auto simp: stack_but_def\<close>)
    moreover have "free_slot ?s4 i" if "i < MAX_WINDOW_CNT" "i \<notin> set (as @ bs)" for i
      using sb that by (cases "i = v") (auto simp: stack_but_def free_slot_def l4)
    ultimately show ?thesis using sb head3 by (simp add: stack_def stack_but_def)
  qed
  have "last (as @ bs) \<in> set (as @ bs)" using ane by (intro last_in_set) simp
  then have "last (as @ bs) \<noteq> v" using na nb(1) by auto
  then have "int v \<noteq> windowlisttail ?s4" using tail3 ane by (simp add: last_of_def)
  moreover have "closeWindow w s = Ok (0, w\<lparr>a_handler := -1\<rparr>,
      if int v = windowlisttail ?s4 then focusWindow (sprev (slot_at ?s4 (int v))) ?s4 else ?s4)"
    using d(2) [of v] by (simp only: closeWindow_def Let_def h rm f_def) (simp add: off_table_def)
  ultimately have "closeWindow w s = Ok (0, w\<lparr>a_handler := -1\<rparr>, ?s4)" by (simp only: if_False)
  with st4 r show ?thesis by simp
qed

text \<open>Closing a slot that is not in use has no effect on the list.\<close>

lemma close_free:
  assumes s: "stack s ws" and h: "a_handler w = int v" and v: "v < MAX_WINDOW_CNT" "v \<notin> set ws"
  shows "\<exists>w' s'. closeWindow w s = Ok (0, w', s') \<and> a_handler w' = -1 \<and> stack s' ws"
proof -
  note d = stackD [OF s]
  have f: "pv s v = int v" "nx s v = int v" using d(7) [OF v] by (simp_all add: free_slot_def)
  have nt: "windowlisttail s \<noteq> int v" using d(5) v(2) last_in_set [of ws] by (auto simp: last_of_def)
  have l: "v < length (windowlist s)" using d(1) v(1) by simp
  define s1 where "s1 = upd_slot (int v) (\<lambda>e. e\<lparr>snext := int v\<rparr>) s"
  define s2 where "s2 = upd_slot (int v) (\<lambda>e. e\<lparr>sprev := int v\<rparr>) s1"
  have e1: "nx s1 = nx s" "pv s1 = pv s" "windowlisttail s1 = windowlisttail s" "length (windowlist s1) = length (windowlist s)"
    using nx_upd [of "int v" s] l f by (simp_all add: s1_def pv_keep fun_eq_iff)
  have e2: "nx s2 = nx s" "pv s2 = pv s" "windowlisttail s2 = windowlisttail s" "windowlisthead s2 = windowlisthead s"
    "length (windowlist s2) = length (windowlist s)"
    using pv_upd [of "int v" s1] l f e1 by (simp_all add: s2_def s1_def nx_keep fun_eq_iff)
  have rm: "removeFromWindowList (int v) s = s2"
    using nt f e1 by (simp add: removeFromWindowList_def Let_def slot_link s2_def s1_def [symmetric])
  define g where "g = (\<lambda>e :: wslot. e\<lparr>sprev := int v, snext := int v, wnd := (wnd e)\<lparr>
     msgs := initMessageQueue (msgs (wnd e)), title := replicate MAX_TITLE_LEN (CHR 0x00)\<rparr>\<rparr>)"
  let ?s3 = "upd_slot (int v) g s2"
  have "nx ?s3 = nx s" "pv ?s3 = pv s"
    using nx_upd [of "int v" s2] pv_upd [of "int v" s2] l f e2 by (simp_all add: g_def fun_eq_iff)
  then have "stack ?s3 ws" using s e2 by (subst stack_cong [of _ s]) simp_all
  moreover have "closeWindow w s = Ok (0, w\<lparr>a_handler := -1\<rparr>,
      if int v = windowlisttail ?s3 then focusWindow (sprev (slot_at ?s3 (int v))) ?s3 else ?s3)"
    using v(1) by (simp only: closeWindow_def Let_def h rm g_def) (simp add: off_table_def)
  moreover have "int v \<noteq> windowlisttail ?s3" using nt e2 by simp
  ultimately show ?thesis by simp
qed

text \<open>Closing the window at the bottom leaves the head of the list on a slot that points to itself.\<close>

lemma close_bottom:
  assumes s: "stack s (v # ws)" and h: "a_handler w = int v"
  shows "\<exists>w' s'. closeWindow w s = Ok (0, w', s') \<and> getWindowCount s' = None"
proof -
  note d = stackD [OF s]
  have lk: "pv s v = -1" "nx s v = head_of ws" using dll_links [of "nx s" "pv s" "[]" v ws] d(3) by simp_all
  have v: "v < length (windowlist s)" "v < MAX_WINDOW_CNT" "v \<notin> set ws" using d(1) d(2) [of v] d(6) by auto
  define s1 where "s1 = (if windowlisttail s = int v then s\<lparr>windowlisttail := -1\<rparr> else s)"
  define s2 where "s2 = (if ws = [] then s1 else upd_slot (int (hd ws)) (\<lambda>e. e\<lparr>sprev := -1\<rparr>) s1)"
  have l1: "windowlist s1 = windowlist s" "nx s1 = nx s" "pv s1 = pv s" by (simp_all add: s1_def)
  have rm: "removeFromWindowList (int v) s = s2"
    using lk by (simp add: removeFromWindowList_def Let_def slot_link s1_def s2_def head_of_def)
  have "windowlisttail s2 \<noteq> int v"
    using d(5) v(3) last_in_set [of ws] by (auto simp: s2_def s1_def last_of_def)
  define g where "g = (\<lambda>e :: wslot. e\<lparr>sprev := int v, snext := int v, wnd := (wnd e)\<lparr>
     msgs := initMessageQueue (msgs (wnd e)), title := replicate MAX_TITLE_LEN (CHR 0x00)\<rparr>\<rparr>)"
  let ?s3 = "upd_slot (int v) g s2"
  have "closeWindow w s = Ok (0, w\<lparr>a_handler := -1\<rparr>,
      if int v = windowlisttail ?s3 then focusWindow (sprev (slot_at ?s3 (int v))) ?s3 else ?s3)"
    using v(2) by (simp only: closeWindow_def Let_def h rm g_def) (simp add: off_table_def)
  moreover have "int v \<noteq> windowlisttail ?s3" using \<open>windowlisttail s2 \<noteq> int v\<close> by simp
  moreover have "next_of ?s3 (int v) = int v"
    using v(1) l1 by (simp add: next_of_def slot_at_def upd_slot_def g_def s2_def)
  moreover have "windowlisthead ?s3 = int v" using d(4) by (simp add: s2_def s1_def)
  ultimately show ?thesis by (simp add: getWindowCount_def walk_self_loop)
qed

section \<open>Messages keep the list and always return\<close>

text \<open>\<open>desk A W H s\<close>: the open windows are the set \<open>A\<close>, which is not empty, \<open>desktopId\<close> is a slot of the
  table (it stays when the desktop closes its window), and the pointer is on the screen of size \<open>W\<close> by \<open>H\<close>.\<close>

definition desk :: "nat set \<Rightarrow> int \<Rightarrow> int \<Rightarrow> wm \<Rightarrow> bool" where
  "desk A W H s \<longleftrightarrow> (\<exists>ws. stack s ws \<and> set ws = A) \<and> A \<noteq> {} \<and>
     (\<exists>d<MAX_WINDOW_CNT. desktopId s = int d) \<and>
     screen_w s = W \<and> screen_h s = H \<and> 0 \<le> mouse_x s \<and> mouse_x s \<le> W \<and> 0 \<le> mouse_y s \<and> mouse_y s \<le> H"

lemma desk_cong:
  assumes "windowlist s' = windowlist s" "windowlisthead s' = windowlisthead s"
    "windowlisttail s' = windowlisttail s" "desktopId s' = desktopId s"
    "screen_w s' = screen_w s" "screen_h s' = screen_h s" "mouse_x s' = mouse_x s" "mouse_y s' = mouse_y s"
  shows "desk A W H s' = desk A W H s"
  using assms stack_cong_fields [of s' s] by (simp add: desk_def)

lemma desk_flags [simp]:
  "desk A W H (s\<lparr>clickedOnPopup := b\<rparr>) = desk A W H s"
  "desk A W H (s\<lparr>clickedOnTitle := b\<rparr>) = desk A W H s"
  "desk A W H (s\<lparr>clickedOnContent := b\<rparr>) = desk A W H s"
  "desk A W H (s\<lparr>mouseShape := n\<rparr>) = desk A W H s"
  "desk A W H (dispatch_popup m s) = desk A W H s"
  by (rule desk_cong; simp add: dispatch_popup_def)+

lemma desk_upd:
  assumes "\<And>e. snext (f e) = snext e \<and> sprev (f e) = sprev e"
  shows "desk A W H (upd_slot p f s) = desk A W H s"
  using stack_upd_content [OF assms] by (simp add: desk_def)

lemma desk_tail:
  assumes "desk A W H s"
  shows "\<exists>v\<in>A. windowlisttail s = int v \<and> v < MAX_WINDOW_CNT"
proof -
  obtain ws where ws: "stack s ws" "set ws = A" using assms by (auto simp: desk_def)
  moreover have "A \<noteq> {}" using assms by (auto simp: desk_def)
  ultimately have "ws \<noteq> []" by auto
  then have "last ws \<in> set ws" "windowlisttail s = int (last ws)"
    using stackD(5) [OF ws(1)] by (auto simp: last_of_def)
  with ws stackD(2) [OF ws(1)] show ?thesis by auto
qed

lemma desk_slots: "desk A W H s \<Longrightarrow> v \<in> A \<Longrightarrow> v < MAX_WINDOW_CNT"
  by (auto simp: desk_def dest: stackD(2))

lemma dispatch_to_ok:
  assumes "desk A W H s" "v < MAX_WINDOW_CNT"
  shows "\<exists>s'. dispatch_to (int v) m s = Ok s' \<and> desk A W H s'"
  using assms by (simp add: dispatch_to_def desk_upd)

lemma to_focused_ok:
  assumes "desk A W H s"
  shows "\<exists>s'. to_focused ty s = Ok s' \<and> desk A W H s'"
proof -
  obtain v where v: "v < MAX_WINDOW_CNT" "windowlisttail s = int v" using desk_tail [OF assms] by blast
  then show ?thesis using dispatch_to_ok [OF assms v(1)] by (simp add: to_focused_def tail_pos_def)
qed

lemma focusWindow_frame:
  "desktopId (focusWindow p s) = desktopId s" "screen_w (focusWindow p s) = screen_w s"
  "screen_h (focusWindow p s) = screen_h s" "mouse_x (focusWindow p s) = mouse_x s"
  "mouse_y (focusWindow p s) = mouse_y s"
  by (simp_all add: focusWindow_def addToWindowList_def Let_def)

lemma focus_desk:
  assumes "desk A W H s" "v < MAX_WINDOW_CNT"
  shows "desk (insert v A) W H (focusWindow (int v) s)"
proof -
  obtain ws where ws: "stack s ws" "set ws = A" "ws \<noteq> []" using assms(1) by (auto simp: desk_def)
  then have "stack (focusWindow (int v) s) (remove1 v ws @ [v])" using assms(2) by (auto intro: focus_stack)
  moreover have "set (remove1 v ws @ [v]) = insert v A"
    using ws stackD(6) [OF ws(1)] by (auto simp: set_remove1_eq)
  ultimately show ?thesis using assms(1) unfolding desk_def focusWindow_frame by blast
qed

lemma focus_desk_open: "desk A W H s \<Longrightarrow> v \<in> A \<Longrightarrow> desk A W H (focusWindow (int v) s)"
  using focus_desk [of A W H s v] desk_slots by (simp add: insert_absorb)

lemma moveFocusWindow_ok:
  assumes "desk A W H s"
  shows "\<exists>s'. moveFocusWindow dx dy s = Ok s' \<and> desk A W H s'"
proof -
  obtain v where v: "v \<in> A" "windowlisttail s = int v" using desk_tail [OF assms] by blast
  then show ?thesis using assms by (simp add: moveFocusWindow_def Let_def desk_upd)
qed

lemma move_pointer_desk:
  assumes "desk A W H s"
  shows "desk A W H (move_pointer m s)"
  using assms stack_cong_fields [of "move_pointer m s" s]
  by (auto simp: desk_def move_pointer_def Let_def)

lemma wm_mouse_move_ok:
  assumes "desk A W H s"
  shows "\<exists>s'. wm_mouse_move m s = Ok s' \<and> desk A W H s'"
  using move_pointer_desk [OF assms, of m]
  by (auto simp: wm_mouse_move_def Let_def intro: moveFocusWindow_ok to_focused_ok)

lemma wm_mouse_up_ok:
  assumes "desk A W H s"
  shows "\<exists>s'. wm_mouse_up m s = Ok s' \<and> desk A W H s'"
proof -
  let ?s1 = "s\<lparr>clickedOnPopup := False\<rparr>"
  have "\<exists>s2. (if clickedOnContent ?s1 then to_focused (msg_type m) (?s1\<lparr>clickedOnContent := False\<rparr>)
             else Ok ?s1) = Ok s2 \<and> desk A W H s2"
    using assms to_focused_ok [of A W H "?s1\<lparr>clickedOnContent := False\<rparr>"] by simp
  then obtain s2 where s2: "(if clickedOnContent ?s1 then to_focused (msg_type m) (?s1\<lparr>clickedOnContent := False\<rparr>)
             else Ok ?s1) = Ok s2" "desk A W H s2" by blast
  then show ?thesis unfolding wm_mouse_up_def Let_def s2(1) by simp
qed

lemma dispatch_list_ok:
  "desk A W H s \<Longrightarrow> set ps \<subseteq> int ` A \<Longrightarrow> \<exists>s'. dispatch_list sel m ps s = Ok s' \<and> desk A W H s'"
proof (induction ps arbitrary: s)
  case (Cons p ps)
  then obtain v where v: "v \<in> A" "p = int v" by auto
  have "\<exists>s1. (if sel s p then dispatch_to p m s else Ok s) = Ok s1 \<and> desk A W H s1"
    using Cons.prems(1) dispatch_to_ok [OF Cons.prems(1) desk_slots [OF Cons.prems(1) v(1)], of m] v(2) by auto
  then obtain s1 where s1: "(if sel s p then dispatch_to p m s else Ok s) = Ok s1" "desk A W H s1"
    by blast
  show ?case using Cons.IH [OF s1(2)] Cons.prems(2) by (simp add: s1(1))
qed simp

lemma walk_windows:
  assumes "stack s ws"
  shows "walk (next_of s) (windowlisthead s) = Some (map int ws)"
  unfolding stackD(4) [OF assms]
  by (rule walk_dll [OF stackD(3) [OF assms]]) (simp add: next_of_def slot_at_def nx_def)

lemma dock_hit_seg:
  "seg n q p ws (-1) \<Longrightarrow> (\<And>w. w \<in> set ws \<Longrightarrow> f (int w) = n w) \<Longrightarrow>
   \<exists>r. dock_hit f dk mx bw xs (head_of ws) = Some r \<and> (r = -1 \<or> r \<in> int ` set ws)"
proof (induction ws arbitrary: p xs)
  case Nil
  then show ?case by (subst dock_hit.simps) simp
next
  case (Cons w ws)
  have n: "f (int w) = head_of ws" using Cons.prems by (simp add: head_of_def)
  have IH: "\<exists>r. dock_hit f dk mx bw x (head_of ws) = Some r \<and> (r = -1 \<or> r \<in> int ` set ws)" for x
    using Cons.prems by (intro Cons.IH) auto
  show ?case using IH [of xs] IH [of "xs + bw"] n by (subst dock_hit.simps) auto
qed

lemma dock_program_click_ok:
  assumes "desk A W H s"
  shows "\<exists>s'. dock_program_click mx s = Some (Ok s') \<and> desk A W H s'"
proof -
  obtain ws where ws: "stack s ws" "set ws = A" using assms by (auto simp: desk_def)
  obtain n where cnt: "getWindowCount s = Some n"
    by (simp add: getWindowCount_def walk_windows [OF ws(1)])
  show ?thesis
  proof (cases "n > 0")
    case False
    with assms cnt show ?thesis by (simp add: dock_program_click_def)
  next
    case True
    let ?bw = "min ((screen_w s - 82) sdiv (int n + 1)) 160"
    obtain r where r: "dock_hit (next_of s) (desktopId s) mx ?bw 77 (windowlisthead s) = Some r"
      "r = -1 \<or> r \<in> int ` A"
      using dock_hit_seg [of "nx s" "pv s" "-1" ws "next_of s" "desktopId s" mx ?bw 77]
        stackD(3,4) [OF ws(1)] ws(2)
      by (auto simp: dll_def next_of_def slot_at_def nx_def)
    have "\<exists>s'. (if r = -1 then Ok s
        else if minimized (wnd (slot_at s r)) then dispatch_to r (simple_msg WM_WINDOW_MAXIMIZE) s
        else Ok (focusWindow r s)) = Ok s' \<and> desk A W H s'"
      using r(2) assms by (auto intro: dispatch_to_ok focus_desk_open dest: desk_slots)
    then show ?thesis using True by (simp add: dock_program_click_def cnt Let_def r(1))
  qed
qed

lemma dock_show_desktop_ok:
  assumes "desk A W H s"
  shows "\<exists>s'. dock_show_desktop mx s = Some (Ok s') \<and> desk A W H s'"
proof -
  obtain ws where ws: "stack s ws" "set ws = A" using assms by (auto simp: desk_def)
  show ?thesis
    using assms dispatch_list_ok [OF assms, of "map int ws"] ws(2)
    by (simp add: dock_show_desktop_def walk_windows [OF ws(1)])
qed

lemma handleDesktopDockClick_ok:
  assumes "desk A W H s"
  shows "\<exists>s'. handleDesktopDockClick mx m s = Some (Ok s') \<and> desk A W H s'"
proof -
  obtain s1 where s1: "dock_program_click mx s = Some (Ok s1)" "desk A W H s1"
    using dock_program_click_ok [OF assms] by blast
  obtain s2 where s2: "dock_show_desktop mx s1 = Some (Ok s2)" "desk A W H s2"
    using dock_show_desktop_ok [OF s1(2)] by blast
  obtain d where "d < MAX_WINDOW_CNT" "desktopId s2 = int d" using s2(2) by (auto simp: desk_def)
  then have "\<exists>s'. dispatch_to (desktopId s2) x s2 = Ok s' \<and> desk A W H s'" for x
    using dispatch_to_ok [OF s2(2)] by simp
  then show ?thesis using s2(2) by (simp add: handleDesktopDockClick_def s1 s2)
qed

lemma wm_mouse_click_ok:
  assumes d: "desk A W H s"
  shows "\<exists>s'. wm_mouse_click m s = Some (Ok s') \<and> desk A W H s'"
proof -
  let ?s1 = "s\<lparr>clickedOnContent := False\<rparr>"
  obtain s2 where s2: "handleDesktopDockClick (mouse_x ?s1) m ?s1 = Some (Ok s2)" "desk A W H s2"
    using handleDesktopDockClick_ok [of A W H ?s1] d by auto
  obtain s3 where s3: "wm_mouse_up m s2 = Ok s3" "desk A W H s3" using wm_mouse_up_ok [OF s2(2)] by blast
  obtain s4 where s4: "to_focused (msg_type m) ?s1 = Ok s4" "desk A W H s4"
    using to_focused_ok [of A W H ?s1] d by auto
  have up: "\<exists>s'. wm_mouse_up m t = Ok s' \<and> desk A W H s'" if "desk A W H t" for t
    using wm_mouse_up_ok [OF that] .
  show ?thesis
    using d s2 s3 s4 by (auto simp: wm_mouse_click_def Let_def intro!: up)
qed

lemma press_title_ok:
  assumes "desk A W H s"
  shows "\<exists>s'. press_title r s = Ok s' \<and> desk A W H s' \<and> nx s' = nx s \<and> pv s' = pv s \<and>
    windowlisthead s' = windowlisthead s \<and> windowlisttail s' = windowlisttail s \<and>
    length (windowlist s') = length (windowlist s)"
proof -
  obtain v where v: "v \<in> A" "windowlisttail s = int v" "v < MAX_WINDOW_CNT" using desk_tail [OF assms] by blast
  have "nx (s\<lparr>clickedOnTitle := b\<rparr>) = nx s" "pv (s\<lparr>clickedOnTitle := b\<rparr>) = pv s" for b
    by (simp_all add: nx_def pv_def fun_eq_iff)
  then show ?thesis using assms v
    by (auto simp: press_title_def dispatch_to_def desk_upd links_unchanged)
qed

lemma press_content_ok:
  assumes "desk A W H s"
  shows "\<exists>s'. press_content ty r s = Ok s' \<and> desk A W H s' \<and> nx s' = nx s \<and> pv s' = pv s \<and>
    windowlisthead s' = windowlisthead s \<and> windowlisttail s' = windowlisttail s \<and>
    length (windowlist s') = length (windowlist s)"
proof -
  obtain v where v: "v \<in> A" "windowlisttail s = int v" "v < MAX_WINDOW_CNT" using desk_tail [OF assms] by blast
  have "nx (s\<lparr>clickedOnContent := b\<rparr>) = nx s" "pv (s\<lparr>clickedOnContent := b\<rparr>) = pv s" for b
    by (simp_all add: nx_def pv_def fun_eq_iff)
  then show ?thesis using assms v
    by (auto simp: press_content_def dispatch_to_def desk_upd links_unchanged Let_def)
qed

text \<open>The window a press outside the popup goes to: the topmost one under the pointer, or the
  desktop.\<close>

definition press_target :: "wm \<Rightarrow> nat list \<Rightarrow> nat" where
  "press_target s ws =
     (case find (\<lambda>w. hit s (int w)) (rev ws) of Some w \<Rightarrow> w | None \<Rightarrow> nat (desktopId s))"

lemma hit_popup: "hit (dispatch_popup m s) p = hit s p"
  by (simp add: hit_def dispatch_popup_def slot_at_def)

lemma wm_mouse_down_stack:
  assumes s: "stack s ws" and d: "desk (set ws) W H s" and np: "\<not> in_popup s"
  shows "\<exists>s'. wm_mouse_down m s = Some (Ok s') \<and> desk (insert (press_target s ws) (set ws)) W H s' \<and>
    stack s' (remove1 (press_target s ws) ws @ [press_target s ws])"
proof -
  let ?s1 = "dispatch_popup (simple_msg WM_WINDOW_CLOSE) s"
  let ?t = "press_target s ws"
  obtain k where k: "k < MAX_WINDOW_CNT" "desktopId s = int k" and ne: "ws \<noteq> []" using d by (auto simp: desk_def)
  have st1: "stack ?s1 ws" using s stack_cong_fields [of ?s1 s] by (simp add: dispatch_popup_def)
  have d1: "desk (set ws) W H ?s1" using d by simp
  have t: "?t < MAX_WINDOW_CNT"
    using k stackD(2) [OF s] by (auto simp: press_target_def split: option.splits dest: find_SomeD)
  have walk: "first_on (prev_of ?s1) (hit ?s1) (windowlisttail ?s1) =
      Some (case find (\<lambda>w. hit s (int w)) (rev ws) of None \<Rightarrow> -1 | Some w \<Rightarrow> int w)"
    unfolding stackD(5) [OF st1] hit_popup [symmetric, of s _ "simple_msg WM_WINDOW_CLOSE"]
    by (rule first_on_dll_back [OF stackD(3) [OF st1]]) (simp add: prev_of_def slot_at_def pv_def)
  define s2 where "s2 = focusWindow (int ?t) ?s1"
  have eq: "(let p = (case find (\<lambda>w. hit s (int w)) (rev ws) of None \<Rightarrow> -1 | Some w \<Rightarrow> int w) in
      if p = -1 then focusWindow (desktopId ?s1) ?s1 else focusWindow p ?s1) = s2"
    using k(2) by (auto simp: s2_def press_target_def Let_def dispatch_popup_def split: option.splits)
  have st2: "stack s2 (remove1 ?t ws @ [?t])" unfolding s2_def by (rule focus_stack [OF st1 ne t])
  have d2: "desk (insert ?t (set ws)) W H s2" unfolding s2_def by (rule focus_desk [OF d1 t])
  obtain v where v: "windowlisttail s2 = int v" using desk_tail [OF d2] by blast
  let ?r = "position (wnd (slot_at s2 (windowlisttail s2)))"
  obtain s3 where s3: "press_title ?r s2 = Ok s3" "desk (insert ?t (set ws)) W H s3" "nx s3 = nx s2" "pv s3 = pv s2"
    "windowlisthead s3 = windowlisthead s2" "windowlisttail s3 = windowlisttail s2"
    "length (windowlist s3) = length (windowlist s2)"
    using press_title_ok [OF d2] by blast
  obtain s4 where s4: "press_content (msg_type m) ?r s3 = Ok s4" "desk (insert ?t (set ws)) W H s4" "nx s4 = nx s3"
    "pv s4 = pv s3" "windowlisthead s4 = windowlisthead s3" "windowlisttail s4 = windowlisttail s3"
    "length (windowlist s4) = length (windowlist s3)"
    using press_content_ok [OF s3(2)] by blast
  have "stack s4 (remove1 ?t ws @ [?t])"
    using st2 stack_cong [of s4 s2] s3 s4 by simp
  moreover have "wm_mouse_down m s = Some (Ok s4)"
    using np eq v s3(1) s4(1) by (simp add: wm_mouse_down_def walk Let_def tail_pos_def)
  ultimately show ?thesis using s4(2) by blast
qed

lemma wmHandleMessage_desk:
  assumes d: "desk A W H s"
  shows "\<exists>B s'. wmHandleMessage m s = Some (Ok s') \<and> desk B W H s'"
proof -
  obtain ws where ws: "stack s ws" "set ws = A" using d by (auto simp: desk_def)
  obtain v where v: "v < MAX_WINDOW_CNT" "windowlisttail s = int v" using desk_tail [OF d] by blast
  have down: "\<exists>B s'. wm_mouse_down m s = Some (Ok s') \<and> desk B W H s'"
  proof (cases "in_popup s")
    case True
    with d show ?thesis by (auto simp: wm_mouse_down_def)
  next
    case False
    with wm_mouse_down_stack [OF ws(1), of W H m] d ws(2) show ?thesis by blast
  qed
  have key: "\<exists>s'. dispatch_to (windowlisttail s) m s = Ok s' \<and> desk A W H s'"
    using dispatch_to_ok [OF d v(1)] v(2) by simp
  show ?thesis
    using d down key wm_mouse_move_ok [OF d, of m] wm_mouse_up_ok [OF d, of m] wm_mouse_click_ok [OF d, of m]
    by (fastforce simp: wmHandleMessage_def)
qed

section \<open>Everything that can happen to the window table\<close>

text \<open>The operations of the message thread and of the programs, with any handler and any parameters.  The
  one exception is a program that closes the window at the bottom of the stack, \<open>windowlisthead\<close>:
  theorem \<open>wm_always_handles\<close> says what happens then.  A handler outside of the table has no step,
  the code's access is undefined.\<close>

inductive wm_step :: "wm \<Rightarrow> wm \<Rightarrow> bool" where
  on_message: "wmHandleMessage m s = Some (Ok s') \<Longrightarrow> wm_step s s'"
| on_create: "createWindow pid w t s = (r, w', s') \<Longrightarrow> wm_step s s'"
| on_close: "closeWindow w s = Ok (r, w', s') \<Longrightarrow> a_handler w \<noteq> windowlisthead s \<Longrightarrow> wm_step s s'"
| on_minimize: "minimizeWindow w s = Ok (r, s') \<Longrightarrow> wm_step s s'"
| on_maximize: "maximizeWindow w s = Ok (r, s') \<Longrightarrow> wm_step s s'"
| on_popup: "createPopupWindow pid w c s = (r, w', s') \<Longrightarrow> wm_step s s'"
| on_popup_close: "closePopupWindow w s = (r, w', s') \<Longrightarrow> wm_step s s'"
| on_get: "sys_GUI_getMessage pid h s = Ok (r, m, s') \<Longrightarrow> wm_step s s'"
| on_get_popup: "sys_GUI_getPopupMessage s = (r, m, s') \<Longrightarrow> wm_step s s'"

text \<open>The system starts when the desktop has created its window.\<close>

inductive wm_reach :: "wm \<Rightarrow> bool" where
  wm_start: "length (windowlist s0) = MAX_WINDOW_CNT \<Longrightarrow> desktopId s0 = -1 \<Longrightarrow>
     0 \<le> screen_w s0 \<Longrightarrow> 0 \<le> screen_h s0 \<Longrightarrow>
     createWindow pid w t (wmInit s0) = (r, w', s) \<Longrightarrow> wm_reach s"
| wm_more: "wm_reach s \<Longrightarrow> wm_step s s' \<Longrightarrow> wm_reach s'"

lemma wmInit_stack:
  assumes "length (windowlist s) = MAX_WINDOW_CNT"
  shows "stack (wmInit s) []"
  by (simp add: stack_def wmInit_def Let_def dll_def free_slot_def nx_def pv_def)

lemma createWindow_frame:
  "createWindow pid w t s = (r, w', s') \<Longrightarrow>
   screen_w s' = screen_w s \<and> screen_h s' = screen_h s \<and> mouse_x s' = mouse_x s \<and> mouse_y s' = mouse_y s"
  by (auto simp: createWindow_def addToWindowList_def Let_def split: if_splits)

lemma closeWindow_frame:
  "closeWindow w s = Ok (r, w', s') \<Longrightarrow>
   screen_w s' = screen_w s \<and> screen_h s' = screen_h s \<and> mouse_x s' = mouse_x s \<and>
   mouse_y s' = mouse_y s \<and> desktopId s' = desktopId s"
  by (auto simp: closeWindow_def removeFromWindowList_def focusWindow_frame Let_def split: if_splits)

lemma focusWindow_none: "focusWindow (-1) s = s"
  by (simp add: focusWindow_def)

lemma prev_in_stack:
  assumes "stack s ws" "v \<in> set ws"
  shows "pv s v = -1 \<or> (\<exists>u\<in>set ws. pv s v = int u)"
proof -
  obtain as bs where ws: "ws = as @ v # bs" using assms(2) by (meson split_list)
  then have "pv s v = last_of as" using dll_links stackD(3) [OF assms(1)] by blast
  then show ?thesis using last_in_set [of as] ws by (auto simp: last_of_def)
qed

lemma minimize_desk:
  assumes d: "desk A W H s" and m: "minimizeWindow w s = Ok (r, s')"
  shows "desk A W H s'"
proof -
  obtain v where h: "a_handler w = int v" and v: "v < MAX_WINDOW_CNT"
    using m by (cases "a_handler w") (auto simp: minimizeWindow_def off_table_def Let_def split: if_splits)
  let ?s1 = "upd_slot (int v) (\<lambda>e. e\<lparr>wnd := (wnd e)\<lparr>minimized := True\<rparr>\<rparr>) s"
  have d1: "desk A W H ?s1" using d by (simp add: desk_upd)
  have "s' = (if int v = windowlisttail ?s1 then focusWindow (sprev (slot_at ?s1 (int v))) ?s1 else ?s1)"
    using m v by (auto simp: minimizeWindow_def Let_def h off_table_def)
  note s' = this [unfolded slot_link]
  show ?thesis
  proof (cases "int v = windowlisttail ?s1")
    case True
    obtain ws where ws: "stack ?s1 ws" "set ws = A" using d1 by (auto simp: desk_def)
    obtain u where "u \<in> A" "windowlisttail ?s1 = int u" using desk_tail [OF d1] by blast
    with True ws(2) have "v \<in> set ws" by simp
    from prev_in_stack [OF ws(1) this] ws(2) d1 True show ?thesis
      unfolding s' by (auto simp: focusWindow_none intro: focus_desk_open)
  qed (use d1 s' in simp)
qed

lemma table_index: "\<not> off_table h \<Longrightarrow> \<exists>v. h = int v \<and> v < MAX_WINDOW_CNT"
  by (cases h) (auto simp: off_table_def)

lemma close_desk:
  assumes d: "desk A W H s" and c: "closeWindow w s = Ok (r, w', s')" and h: "a_handler w \<noteq> windowlisthead s"
  shows "\<exists>B. desk B W H s'"
proof -
  obtain ws where ws: "stack s ws" "set ws = A" "ws \<noteq> []" using d by (auto simp: desk_def)
  obtain v where v: "a_handler w = int v" "v < MAX_WINDOW_CNT"
    using c table_index [of "a_handler w"] by (auto simp: closeWindow_def Let_def split: if_splits)
  have "\<exists>vs. stack s' vs \<and> vs \<noteq> []"
  proof (cases "v \<in> set ws")
    case False
    then show ?thesis using close_free [OF ws(1) v] c ws(3) by auto
  next
    case True
    have nh: "v \<noteq> hd ws" using h v(1) stackD(4) [OF ws(1)] ws(3) by (auto simp: head_of_def)
    then have "remove1 v ws \<noteq> []" using True ws(3) by (cases ws) auto
    then show ?thesis using close_stack [OF ws(1) v(1) True nh] c by auto
  qed
  then show ?thesis using closeWindow_frame [OF c] d unfolding desk_def by (metis set_empty)
qed

lemma desk_stack_unique: "desk A W H s \<Longrightarrow> stack s ws \<Longrightarrow> set ws = A"
proof -
  assume "desk A W H s" and ws: "stack s ws"
  then obtain us where us: "stack s us" "set us = A" by (auto simp: desk_def)
  have free: "set vs = {i. i < MAX_WINDOW_CNT \<and> \<not> free_slot s i}" if "stack s vs" for vs
    using stackD(2,7) [OF that] dll_not_self [OF stackD(3) [OF that]]
    by (auto simp: free_slot_def)
  show "set ws = A" using free [OF ws] free [OF us(1)] us(2) by simp
qed

lemma wm_step_desk: "wm_step s s' \<Longrightarrow> desk A W H s \<Longrightarrow> \<exists>B. desk B W H s'"
proof (induction rule: wm_step.induct)
  case (on_message m s s')
  then show ?case using wmHandleMessage_desk [of A W H s m] by auto
next
  case (on_create pid w t s r w' s')
  obtain ws where ws: "stack s ws" "set ws = A" using on_create.prems by (auto simp: desk_def)
  obtain d where d: "d < MAX_WINDOW_CNT" "desktopId s = int d" using on_create.prems by (auto simp: desk_def)
  have fr: "screen_w s' = W" "screen_h s' = H" "mouse_x s' = mouse_x s" "mouse_y s' = mouse_y s"
    using createWindow_frame [OF on_create.hyps] on_create.prems by (auto simp: desk_def)
  have "s' = s \<or> (\<exists>v. stack s' (ws @ [v]) \<and> desktopId s' = desktopId s)"
    using create_stack [OF ws(1), where pid = pid and w = w and t = t] on_create.hyps d by auto
  then show ?case
  proof
    assume "s' = s" then show ?thesis using on_create.prems by blast
  next
    assume "\<exists>v. stack s' (ws @ [v]) \<and> desktopId s' = desktopId s"
    then obtain v where "stack s' (ws @ [v])" "desktopId s' = desktopId s" by blast
    then have "desk (set (ws @ [v])) W H s'"
      using fr d on_create.prems ws(2) unfolding desk_def by (intro conjI exI [of _ "ws @ [v]"]) auto
    then show ?thesis by blast
  qed
next
  case (on_close w s r w' s')
  then show ?case by (blast intro: close_desk)
next
  case (on_minimize w s r s')
  then show ?case by (blast intro: minimize_desk)
next
  case (on_maximize w s r s')
  let ?t = "upd_slot (a_handler w) (\<lambda>e. e\<lparr>wnd := (wnd e)\<lparr>minimized := False\<rparr>\<rparr>) s"
  obtain v where v: "a_handler w = int v" "v < MAX_WINDOW_CNT" and s': "s' = focusWindow (a_handler w) ?t"
    using on_maximize.hyps table_index [of "a_handler w"] by (auto simp: maximizeWindow_def Let_def split: if_splits)
  have "desk A W H ?t" using on_maximize.prems by (simp add: desk_upd)
  then show ?case using focus_desk [of A W H ?t v] v s' by auto
next
  case (on_popup pid w c s r w' s')
  then have "desk A W H s' = desk A W H s"
    by (intro desk_cong) (auto simp: createPopupWindow_def Let_def split: if_splits)
  then show ?case using on_popup.prems by blast
next
  case (on_popup_close w s r w' s')
  then have "desk A W H s' = desk A W H s"
    by (intro desk_cong) (auto simp: closePopupWindow_def Let_def)
  then show ?case using on_popup_close.prems by blast
next
  case (on_get pid h s r m s')
  then have "desk A W H s'"
    by (auto simp: sys_GUI_getMessage_def desk_upd split: if_splits prod.splits)
  then show ?case by blast
next
  case (on_get_popup s r m s')
  then have "desk A W H s' = desk A W H s"
    by (intro desk_cong) (auto simp: sys_GUI_getPopupMessage_def Let_def split: if_splits prod.splits)
  then show ?case using on_get_popup.prems by blast
qed

lemma wm_reach_desk: "wm_reach s \<Longrightarrow> \<exists>A. desk A (screen_w s) (screen_h s) s"
proof (induction rule: wm_reach.induct)
  case (wm_start s0 pid w t r w' s)
  have st: "stack (wmInit s0) []" by (rule wmInit_stack [OF wm_start(1)])
  have dk: "desktopId (wmInit s0) = -1" using wm_start(2) by (simp add: wmInit_def Let_def)
  obtain v where "stack s [v]" "desktopId s = int v"
    using create_stack [OF st, where pid = pid and w = w and t = t] wm_start(5) dk by auto
  moreover have "screen_w s = screen_w s0" "screen_h s = screen_h s0"
    "mouse_x s = screen_w s0 div 2" "mouse_y s = screen_h s0 div 2"
    using createWindow_frame [OF wm_start(5)] by (simp_all add: wmInit_def Let_def)
  ultimately have "desk {v} (screen_w s) (screen_h s) s"
    unfolding desk_def using wm_start(3,4) stackD(2) [OF \<open>stack s [v]\<close>, of v] by (auto intro: exI [of _ "[v]"])
  then show ?case by blast
next
  case (wm_more s s')
  then obtain A where "desk A (screen_w s) (screen_h s) s" by blast
  then obtain B where "desk B (screen_w s) (screen_h s) s'" using wm_step_desk wm_more.hyps(2) by blast
  then show ?case by (auto simp: desk_def)
qed

section \<open>Properties\<close>

lemma counts_windows: "stack s ws \<Longrightarrow> getWindowCount s \<noteq> None"
  by (simp add: getWindowCount_def walk_windows)

lemma close_hangs_iff:
  assumes r: "wm_reach s" and c: "closeWindow w s = Ok (r, w', s')"
  shows "getWindowCount s' = None \<longleftrightarrow> a_handler w = windowlisthead s"
proof (cases "a_handler w = windowlisthead s")
  case False
  then have "wm_reach s'" using r c by (blast intro: wm_more on_close)
  then obtain vs where "stack s' vs" using wm_reach_desk by (auto simp: desk_def)
  then show ?thesis using False counts_windows by blast
next
  case True
  obtain ws where ws: "stack s ws" "ws \<noteq> []" using wm_reach_desk [OF r] by (auto simp: desk_def)
  obtain v vs where v: "ws = v # vs" using ws(2) by (cases ws) auto
  have "a_handler w = int v" using True stackD(4) [OF ws(1)] v by simp
  from close_bottom [OF ws(1) [unfolded v] this] c True show ?thesis by auto
qed

text \<open>C20: The window list stays sound and input is always handled, until a program closes the window at the
  bottom of the stack.  In every state reached by mouse and keyboard messages with any parameters and by
  window creation, closing, minimizing, maximizing, popups and message retrieval with any handler of the
  table, except for closing the bottom window, the table holds a proper doubly linked list of the open windows
  with every other slot free, the pointer is on the screen, and every further message is handled: no
  loop runs forever and no index is out of range.  In such a state \<open>closeWindow\<close> leaves a list whose
  traversal never returns exactly when the window it closes is the one at the bottom.\<close>

theorem wm_always_handles:
  assumes "wm_reach s"
  shows "(\<exists>ws. stack s ws \<and> ws \<noteq> []) \<and>
    0 \<le> mouse_x s \<and> mouse_x s \<le> screen_w s \<and> 0 \<le> mouse_y s \<and> mouse_y s \<le> screen_h s \<and>
    (\<exists>s'. wmHandleMessage m s = Some (Ok s')) \<and>
    (closeWindow w s = Ok (r, w', s') \<longrightarrow> (getWindowCount s' = None \<longleftrightarrow> a_handler w = windowlisthead s))"
proof -
  obtain A where A: "desk A (screen_w s) (screen_h s) s" using wm_reach_desk [OF assms] by blast
  from wmHandleMessage_desk [OF A, of m] A close_hangs_iff [OF assms] show ?thesis
    by (fastforce simp: desk_def)
qed

text \<open>A mouse press goes to the right window.  When the pointer is not in the popup, the press
  raises the topmost window, in stacking order, that is not minimized and contains the pointer
  (title bar included), or the desktop if there is none, and leaves the order of the others.\<close>

theorem press_raises_topmost:
  assumes "stack s ws" and "desk (set ws) W H s" and "\<not> in_popup s" and "msg_type m = M_MOUSE_DOWN"
  shows "\<exists>s'. wmHandleMessage m s = Some (Ok s') \<and>
    stack s' (remove1 (press_target s ws) ws @ [press_target s ws])"
  using wm_mouse_down_stack [OF assms(1-3), of m] assms(4) by (auto simp: wmHandleMessage_def)

text \<open>C19: The linked list implements the stacking order.  \<open>focusWindow\<close> moves an open window to the top;
  \<open>createWindow\<close> puts a window in a free slot on top and fails only when all 50 slots are in use;
  \<open>closeWindow\<close> takes any window but the bottom one out and frees its slot.  Closing the bottom window does not
  implement it: the head of the list stays on the closed slot and a traversal never returns.\<close>

theorem window_list_refines_stack:
  assumes "stack s ws"
  shows "(v \<in> set ws \<longrightarrow> stack (focusWindow (int v) s) (remove1 v ws @ [v])) \<and>
    (case createWindow pid w t s of (r, w', s') \<Rightarrow>
      r = 1 \<and> length ws = MAX_WINDOW_CNT \<and> s' = s \<or>
      (\<exists>u. r = 0 \<and> u \<notin> set ws \<and> a_handler w' = int u \<and> stack s' (ws @ [u]))) \<and>
    (v \<in> set ws \<and> a_handler w = int v \<longrightarrow>
      (\<exists>w' s'. closeWindow w s = Ok (0, w', s') \<and>
        (if v = hd ws then getWindowCount s' = None else stack s' (remove1 v ws))))"
proof (intro conjI impI)
  show "v \<in> set ws \<Longrightarrow> stack (focusWindow (int v) s) (remove1 v ws @ [v])"
    using focus_stack [OF assms] stackD(2) [OF assms] by fastforce
  show "case createWindow pid w t s of (r, w', s') \<Rightarrow>
      r = 1 \<and> length ws = MAX_WINDOW_CNT \<and> s' = s \<or>
      (\<exists>u. r = 0 \<and> u \<notin> set ws \<and> a_handler w' = int u \<and> stack s' (ws @ [u]))"
    using create_stack [OF assms, where pid = pid and w = w and t = t] by (auto split: prod.splits)
  assume v: "v \<in> set ws \<and> a_handler w = int v"
  then obtain b bs where ws: "ws = b # bs" by (cases ws) auto
  show "\<exists>w' s'. closeWindow w s = Ok (0, w', s') \<and>
        (if v = hd ws then getWindowCount s' = None else stack s' (remove1 v ws))"
    using close_stack [OF assms, of w v] close_bottom [OF assms [unfolded ws], of w] v ws
    by (cases "v = b") auto
qed

text \<open>A window's message queue is a FIFO of 50 messages: for every interleaving of
  \<open>dispatchMessage\<close> and \<open>getMessage\<close>, messages are delivered in the order in which they were
  accepted, and one is dropped only when 50 are waiting.\<close>

theorem message_queue_fifo:
  assumes "queue_ok b" and "qrun queue_put queue_get b ops = (b', ins, outs)"
  shows "queue_ok b' \<and> queued b @ ins = outs @ queued b' \<and>
    (fst (dispatchMessage m b) = 1 \<longleftrightarrow> length (queued b) = MSG_BUF_SIZE)"
  using msgq.run_fifo [OF assms] assms(1)
  by (simp add: dispatchMessage_def queue_ok_def)

section \<open>Witnesses\<close>

definition blank_queue :: msg_buf where
  "blank_queue = \<lparr>mdata = replicate MSG_BUF_SIZE (simple_msg 0), front = 0, rear = 0, cnt = 0\<rparr>"

definition blank_window :: kernel_window where
  "blank_window = \<lparr>position = createRectByCoord 0 0 0 0, window_buf = 0, msgs = blank_queue,
     title = [], minimized = False, hasTitleBar = False\<rparr>"

definition blank_wm :: wm where
  "blank_wm = \<lparr>windowlist = replicate MAX_WINDOW_CNT
       \<lparr>wproc = 0, wnd = blank_window, snext = 0, sprev = 0\<rparr>,
     windowlisthead = 0, windowlisttail = 0, desktopId = -1,
     popupwindow = \<lparr>pproc = 0, pwnd = blank_window, caller = 0\<rparr>,
     mouse_x = 0, mouse_y = 0, last_x = 0, last_y = 0, mouseShape = 0,
     clickedOnTitle = False, clickedOnContent = False, clickedOnPopup = False,
     screen_w = 800, screen_h = 600\<rparr>"

definition demo_arg :: window_arg where
  "demo_arg = \<lparr>a_initial = createRectByCoord 100 100 300 200, a_titlebar = True, a_buf = 0,
     a_width = 200, a_height = 100, a_handler = -1\<rparr>"

lemma createWindow_popup:
  "createWindow pid w t s = (r, w', s') \<Longrightarrow> popupwindow s' = popupwindow s"
  by (auto simp: createWindow_def addToWindowList_def Let_def split: if_splits)

lemma demo_two:
  "\<exists>s v u. wm_reach s \<and> stack s [v, u] \<and> caller (popupwindow s) = -1"
proof -
  have st0: "stack (wmInit blank_wm) []" by (rule wmInit_stack) (simp add: blank_wm_def)
  have p0: "caller (popupwindow (wmInit blank_wm)) = -1" by (simp add: wmInit_def Let_def)
  obtain r1 w1 s1 where c1: "createWindow 1 demo_arg ''desktop'' (wmInit blank_wm) = (r1, w1, s1)"
    by (metis prod_cases3)
  obtain v where v: "stack s1 [v]"
    using create_stack [OF st0, where pid = 1 and w = demo_arg and t = "''desktop''"] c1 by auto
  have r1: "wm_reach s1"
    by (rule wm_start [OF _ _ _ _ c1]) (simp_all add: blank_wm_def)
  obtain r2 w2 s2 where c2: "createWindow 2 demo_arg ''editor'' s1 = (r2, w2, s2)"
    by (metis prod_cases3)
  obtain u where u: "stack s2 [v, u]"
    using create_stack [OF v, where pid = 2 and w = demo_arg and t = "''editor''"] c2 by auto
  have "wm_reach s2" by (rule wm_more [OF r1 on_create [OF c2]])
  moreover have "caller (popupwindow s2) = -1"
    using createWindow_popup [OF c1] createWindow_popup [OF c2] p0 by simp
  ultimately show ?thesis using u by blast
qed

theorem wm_always_handles_witness:
  "\<exists>s. wm_reach s \<and> (\<exists>s'. wmHandleMessage (mouse_msg M_MOUSE_MOVE 5 (-7)) s = Some (Ok s'))"
  using demo_two wm_always_handles by blast

theorem press_raises_topmost_witness:
  "\<exists>s v u s'. stack s [v, u] \<and> wmHandleMessage (simple_msg M_MOUSE_DOWN) s = Some (Ok s') \<and>
     stack s' (remove1 (press_target s [v, u]) [v, u] @ [press_target s [v, u]])"
proof -
  obtain s v u where s: "wm_reach s" "stack s [v, u]" "caller (popupwindow s) = -1"
    using demo_two by blast
  obtain A where A: "desk A (screen_w s) (screen_h s) s" using wm_reach_desk [OF s(1)] by blast
  have "set [v, u] = A" by (rule desk_stack_unique [OF A s(2)])
  with A have "desk (set [v, u]) (screen_w s) (screen_h s) s" by simp
  moreover have "\<not> in_popup s" using s(3) by (simp add: in_popup_def Let_def)
  moreover have "msg_type (simple_msg M_MOUSE_DOWN) = M_MOUSE_DOWN" by (simp add: simple_msg_def)
  ultimately show ?thesis using press_raises_topmost [OF s(2)] s(2) by blast
qed

theorem window_list_refines_stack_witness:
  "\<exists>s v u. stack s [v, u] \<and> stack (focusWindow (int v) s) [u, v] \<and>
     (\<exists>w' s'. closeWindow (demo_arg\<lparr>a_handler := int u\<rparr>) s = Ok (0, w', s') \<and> stack s' [v]) \<and>
     (\<exists>w' s'. closeWindow (demo_arg\<lparr>a_handler := int v\<rparr>) s = Ok (0, w', s') \<and> getWindowCount s' = None)"
proof -
  obtain s v u where s: "stack s [v, u]" using demo_two by blast
  have "v \<noteq> u" using stackD(6) [OF s] by simp
  then show ?thesis
    using window_list_refines_stack [OF s, where v = v and w = "demo_arg\<lparr>a_handler := int v\<rparr>"]
      window_list_refines_stack [OF s, where v = u and w = "demo_arg\<lparr>a_handler := int u\<rparr>"] s
    by (intro exI [of _ s] exI [of _ v] exI [of _ u]) simp
qed

theorem message_queue_fifo_witness:
  "fst (dispatchMessage (simple_msg 1) blank_queue) = 0 \<and>
   (\<exists>b'. queue_ok b' \<and> queued b' = [simple_msg 2])"
proof -
  have ok: "queue_ok blank_queue" by (simp add: queue_ok_def blank_queue_def)
  let ?ops = "[Put (simple_msg 1), Put (simple_msg 2), Get]"
  have "snd (qrun queue_put queue_get blank_queue ?ops) = ([simple_msg 1, simple_msg 2], [simple_msg 1])"
    by (simp add: queue_put_def queue_get_def dispatchMessage_def getMessage_def blank_queue_def)
  then obtain b' where r: "qrun queue_put queue_get blank_queue ?ops =
      (b', [simple_msg 1, simple_msg 2], [simple_msg 1])"
    by (cases "qrun queue_put queue_get blank_queue ?ops") auto
  from message_queue_fifo [OF ok r, of "simple_msg 1"] show ?thesis
    by (auto simp: queued_def blank_queue_def dispatchMessage_def)
qed

end
