(* ===== verification/Vm.thy ===== *)
theory Vm
  imports Kalloc
begin

text \<open>
  Page tables, \<open>kernel/vm.c\<close>, over the memory of the page allocator: a page directory and its
  page tables are pages of \<open>store\<close>, read and written word by word at \<open>pgdir + 4 * PDX va\<close> and
  \<open>pgtab + 4 * PTX va\<close>.  A null pointer is the address 0.  Address loops of the code run over
  addresses below \<open>KERNBASE\<close> and are written over natural numbers, where they do not wrap.
\<close>

section \<open>Words and pages of memory\<close>

definition load :: "uint \<Rightarrow> kmem \<Rightarrow> uint" where
  "load a k = store k a"

definition save :: "uint \<Rightarrow> uint \<Rightarrow> kmem \<Rightarrow> kmem" where
  "save a v k = k\<lparr>store := (store k)(a := v)\<rparr>"

text \<open>\<open>memset(v, 0, PGSIZE)\<close> and \<open>memmove(dst, src, PGSIZE)\<close> on whole pages.\<close>

definition zero_page :: "uint \<Rightarrow> kmem \<Rightarrow> kmem" where
  "zero_page v k = k\<lparr>store := (\<lambda>a. if a - v < PGSIZE then 0 else store k a)\<rparr>"

definition copy_page :: "uint \<Rightarrow> uint \<Rightarrow> kmem \<Rightarrow> kmem" where
  "copy_page dst src k =
     k\<lparr>store := (\<lambda>a. if a - dst < PGSIZE then store k (src + (a - dst)) else store k a)\<rparr>"

definition present :: "uint \<Rightarrow> bool" where
  "present e \<longleftrightarrow> e AND PTE_P \<noteq> 0"

section \<open>Walking and mapping\<close>

definition walkpgdir :: "uint \<Rightarrow> uint \<Rightarrow> bool \<Rightarrow> kmem \<Rightarrow> uint \<times> kmem" where
  "walkpgdir pgdir va alloc k =
     (let pde = pgdir + 4 * PDX va in
      if present (load pde k)
      then (P2V (PTE_ADDR (load pde k)) + 4 * PTX va, k)
      else if \<not> alloc then (0, k)
      else case kalloc k of (pgtab, k1) \<Rightarrow>
        if pgtab = 0 then (0, k1)
        else let k2 = zero_page pgtab k1;
                 k3 = save pde (V2P pgtab OR PTE_P OR PTE_W OR PTE_U) k2
             in (pgtab + 4 * PTX va, k3))"

fun map_loop :: "nat \<Rightarrow> uint \<Rightarrow> uint \<Rightarrow> uint \<Rightarrow> uint \<Rightarrow> kmem \<Rightarrow> (int \<times> kmem) kres" where
  "map_loop n pgdir a pa perm k =
     (case walkpgdir pgdir a True k of (pte, k1) \<Rightarrow>
        if pte = 0 then Ok (-1, k1)
        else if present (load pte k1) then Panic ''remap''
        else let k2 = save pte (pa OR perm OR PTE_P) k1 in
          (case n of 0 \<Rightarrow> Ok (0, k2)
           | Suc n' \<Rightarrow> map_loop n' pgdir (a + PGSIZE) (pa + PGSIZE) perm k2))"

declare map_loop.simps [simp del]

text \<open>The loop runs from the page of \<open>va\<close> to the page of \<open>va + size - 1\<close>, both included.\<close>

definition mappages :: "uint \<Rightarrow> uint \<Rightarrow> uint \<Rightarrow> uint \<Rightarrow> uint \<Rightarrow> kmem \<Rightarrow> (int \<times> kmem) kres" where
  "mappages pgdir va sz pa perm k =
     (let a = PGROUNDDOWN va; lst = PGROUNDDOWN (va + sz - 1)
      in map_loop (unat (lst - a) div 4096) pgdir a pa perm k)"

section \<open>Freeing user memory\<close>

lemma next_table_later: "a < (a div 4194304 + 1) * 4194304" for a :: nat
proof -
  have "a mod 4194304 < 4194304" by simp
  then show ?thesis using div_mult_mod_eq [of a 4194304] by (simp add: algebra_simps)
qed

function dealloc_loop :: "uint \<Rightarrow> uint \<Rightarrow> nat \<Rightarrow> nat \<Rightarrow> kmem \<Rightarrow> kmem kres" where
  "dealloc_loop kend pgdir a oldsz k =
     (if oldsz \<le> a then Ok k
      else case walkpgdir pgdir (word_of_nat a) False k of (pte, _) \<Rightarrow>
        if pte = 0 then dealloc_loop kend pgdir ((a div 4194304 + 1) * 4194304) oldsz k
        else if present (load pte k)
        then if PTE_ADDR (load pte k) = 0 then Panic ''kfree''
             else (case kfree kend (P2V (PTE_ADDR (load pte k))) k of
                     Ok k1 \<Rightarrow> dealloc_loop kend pgdir (a + 4096) oldsz (save pte 0 k1)
                   | Panic m \<Rightarrow> Panic m | Blocked c \<Rightarrow> Blocked c)
        else dealloc_loop kend pgdir (a + 4096) oldsz k)"
  by pat_completeness auto

termination
  by (relation "measure (\<lambda>(kend, pgdir, a, oldsz, k). oldsz - a)")
    (auto intro: diff_less_mono2 next_table_later)

declare dealloc_loop.simps [simp del]

definition deallocuvm :: "uint \<Rightarrow> uint \<Rightarrow> uint \<Rightarrow> uint \<Rightarrow> kmem \<Rightarrow> (uint \<times> kmem) kres" where
  "deallocuvm kend pgdir oldsz newsz k =
     (if newsz \<ge> oldsz then Ok (oldsz, k)
      else kbind (dealloc_loop kend pgdir (unat (PGROUNDUP newsz)) (unat oldsz) k)
             (\<lambda>k1. Ok (newsz, k1)))"

definition free_table :: "uint \<Rightarrow> uint \<Rightarrow> nat \<Rightarrow> kmem \<Rightarrow> kmem kres" where
  "free_table kend pgdir i k =
     (let e = load (pgdir + 4 * word_of_nat i) k in
      if present e then kfree kend (P2V (PTE_ADDR e)) k else Ok k)"

definition freevm :: "uint \<Rightarrow> uint \<Rightarrow> kmem \<Rightarrow> kmem kres" where
  "freevm kend pgdir k =
     (if pgdir = 0 then Panic ''freevm: no pgdir''
      else kbind (deallocuvm kend pgdir KERNBASE 0 k) (\<lambda>(_, k1).
        kbind (kloop (free_table kend pgdir) 0 1024 k1) (kfree kend pgdir)))"

section \<open>Growing, copying, kernel mappings\<close>

text \<open>The kernel's mappings, with \<open>data\<close> a symbol of the linker script.\<close>

definition kmap :: "uint \<Rightarrow> (uint \<times> uint \<times> uint \<times> uint) list" where
  "kmap data =
     [(KERNBASE, 0, EXTMEM, PTE_W),
      (KERNBASE + EXTMEM, V2P (KERNBASE + EXTMEM), V2P data, 0),
      (data, V2P data, PHYSTOP, PTE_W),
      (DEVSPACE, DEVSPACE, 0, PTE_W)]"

fun map_kernel :: "uint \<Rightarrow> (uint \<times> uint \<times> uint \<times> uint) list \<Rightarrow> kmem \<Rightarrow> (int \<times> kmem) kres" where
  "map_kernel pgdir [] k = Ok (0, k)"
| "map_kernel pgdir ((virt, p0, p1, perm) # ms) k =
     kbind (mappages pgdir virt (p1 - p0) p0 perm k) (\<lambda>(r, k1).
       if r < 0 then Ok (-1, k1) else map_kernel pgdir ms k1)"

definition setupkvm :: "uint \<Rightarrow> uint \<Rightarrow> kmem \<Rightarrow> (uint \<times> kmem) kres" where
  "setupkvm kend data k =
     (case kalloc k of (pgdir, k1) \<Rightarrow>
        if pgdir = 0 then Ok (0, k1)
        else if P2V PHYSTOP > DEVSPACE then Panic ''PHYSTOP too high''
        else kbind (map_kernel pgdir (kmap data) (zero_page pgdir k1)) (\<lambda>(r, k2).
          if r < 0 then kbind (freevm kend pgdir k2) (\<lambda>k3. Ok (0, k3))
          else Ok (pgdir, k2)))"

function alloc_loop :: "uint \<Rightarrow> uint \<Rightarrow> nat \<Rightarrow> uint \<Rightarrow> uint \<Rightarrow> kmem \<Rightarrow> (uint \<times> kmem) kres" where
  "alloc_loop kend pgdir a oldsz newsz k =
     (if unat newsz \<le> a then Ok (newsz, k)
      else case kalloc k of (mem, k1) \<Rightarrow>
        if mem = 0 then kbind (deallocuvm kend pgdir newsz oldsz k1) (\<lambda>(_, k2). Ok (0, k2))
        else case mappages pgdir (word_of_nat a) PGSIZE (V2P mem) (PTE_W OR PTE_U) (zero_page mem k1) of
            Ok (r, k2) \<Rightarrow>
              if r < 0
              then kbind (deallocuvm kend pgdir newsz oldsz k2) (\<lambda>(_, k3).
                     kbind (kfree kend mem k3) (\<lambda>k4. Ok (0, k4)))
              else alloc_loop kend pgdir (a + 4096) oldsz newsz k2
          | Panic m \<Rightarrow> Panic m
          | Blocked c \<Rightarrow> Blocked c)"
  by pat_completeness auto
termination
  by (relation "measure (\<lambda>(kend, pgdir, a, oldsz, newsz, k). unat newsz - a)") auto

declare alloc_loop.simps [simp del]

definition allocuvm :: "uint \<Rightarrow> uint \<Rightarrow> uint \<Rightarrow> uint \<Rightarrow> kmem \<Rightarrow> (uint \<times> kmem) kres" where
  "allocuvm kend pgdir oldsz newsz k =
     (if newsz \<ge> KERNBASE then Ok (0, k)
      else if newsz < oldsz then Ok (oldsz, k)
      else alloc_loop kend pgdir (unat (PGROUNDUP oldsz)) oldsz newsz k)"

text \<open>\<open>memmove\<close> of the initial code into a fresh page: \<open>init\<close> gives the words of the page.\<close>

definition inituvm :: "uint \<Rightarrow> (uint \<Rightarrow> uint) \<Rightarrow> uint \<Rightarrow> kmem \<Rightarrow> kmem kres" where
  "inituvm pgdir init sz k =
     (if sz \<ge> PGSIZE then Panic ''inituvm: more than a page''
      else case kalloc k of (mem, k1) \<Rightarrow>
        kbind (mappages pgdir 0 PGSIZE (V2P mem) (PTE_W OR PTE_U) (zero_page mem k1)) (\<lambda>(_, k2).
          Ok (k2\<lparr>store := (\<lambda>a. if a - mem < sz then init (a - mem) else store k2 a)\<rparr>)))"

definition clearpteu :: "uint \<Rightarrow> uint \<Rightarrow> kmem \<Rightarrow> kmem kres" where
  "clearpteu pgdir uva k =
     (case walkpgdir pgdir uva False k of (pte, _) \<Rightarrow>
        if pte = 0 then Panic ''clearpteu'' else Ok (save pte (load pte k AND NOT PTE_U) k))"

function copy_loop :: "uint \<Rightarrow> uint \<Rightarrow> uint \<Rightarrow> nat \<Rightarrow> nat \<Rightarrow> kmem \<Rightarrow> (uint \<times> kmem) kres" where
  "copy_loop kend pgdir d i sz k =
     (if sz \<le> i then Ok (d, k)
      else case walkpgdir pgdir (word_of_nat i) False k of (pte, _) \<Rightarrow>
        if pte = 0 then Panic ''copyuvm: pte should exist''
        else if \<not> present (load pte k) then Panic ''copyuvm: page not present''
        else let pa = PTE_ADDR (load pte k); flags = PTE_FLAGS (load pte k) in
          (case kalloc k of (mem, k1) \<Rightarrow>
             if mem = 0 then kbind (freevm kend d k1) (\<lambda>k2. Ok (0, k2))
             else case mappages d (word_of_nat i) PGSIZE (V2P mem) flags (copy_page mem (P2V pa) k1) of
                 Ok (r, k2) \<Rightarrow>
                   if r < 0
                   then kbind (kfree kend mem k2) (\<lambda>k3. kbind (freevm kend d k3) (\<lambda>k4. Ok (0, k4)))
                   else copy_loop kend pgdir d (i + 4096) sz k2
               | Panic m \<Rightarrow> Panic m
               | Blocked c \<Rightarrow> Blocked c))"
  by pat_completeness auto
termination
  by (relation "measure (\<lambda>(kend, pgdir, d, i, sz, k). sz - i)") auto

declare copy_loop.simps [simp del]

definition copyuvm :: "uint \<Rightarrow> uint \<Rightarrow> uint \<Rightarrow> uint \<Rightarrow> kmem \<Rightarrow> (uint \<times> kmem) kres" where
  "copyuvm kend data pgdir sz k =
     kbind (setupkvm kend data k) (\<lambda>(d, k1).
       if d = 0 then Ok (0, k1) else copy_loop kend pgdir d 0 (unat sz) k1)"

section \<open>Access to user memory\<close>

text \<open>\<open>uva2ka\<close> dereferences the result of \<open>walkpgdir\<close> without testing it: a missing page table
  makes it read the word at address 0.\<close>

definition uva2ka :: "uint \<Rightarrow> uint \<Rightarrow> kmem \<Rightarrow> uint" where
  "uva2ka pgdir uva k =
     (let pte = load (fst (walkpgdir pgdir uva False k)) k in
      if pte AND PTE_P = 0 then 0
      else if pte AND PTE_U = 0 then 0
      else P2V (PTE_ADDR pte))"

text \<open>Bytes within the words of \<open>store\<close>.\<close>

definition put_byte :: "uint \<Rightarrow> 8 word \<Rightarrow> kmem \<Rightarrow> kmem" where
  "put_byte a b k =
     (let w = a AND NOT 3; sh = 8 * unat (a AND 3)
      in save w ((load w k AND NOT (push_bit sh 0xFF)) OR push_bit sh (ucast b)) k)"

fun put_bytes_at :: "uint \<Rightarrow> 8 word list \<Rightarrow> kmem \<Rightarrow> kmem" where
  "put_bytes_at a [] k = k"
| "put_bytes_at a (b # bs) k = put_bytes_at (a + 1) bs (put_byte a b k)"

lemma page_offset_less: "unat (va - PGROUNDDOWN va) < 4096"
proof -
  have "unat (PGROUNDDOWN va) \<le> unat va" by (simp add: unat_PGROUNDDOWN)
  then have "unat (va - PGROUNDDOWN va) = unat va - unat (PGROUNDDOWN va)"
    by (simp add: unat_sub word_le_nat_alt)
  also have "\<dots> = unat va mod 4096"
    using mod_less_eq_dividend [of "unat va" 4096] by (simp add: unat_PGROUNDDOWN)
  finally show ?thesis by simp
qed

function copyout :: "uint \<Rightarrow> uint \<Rightarrow> 8 word list \<Rightarrow> kmem \<Rightarrow> int \<times> kmem" where
  "copyout pgdir va bs k =
     (if bs = [] then (0, k)
      else
        let va0 = PGROUNDDOWN va; pa0 = uva2ka pgdir va0 k in
        if pa0 = 0 then (-1, k)
        else let n = min (4096 - unat (va - va0)) (length bs)
             in copyout pgdir (va0 + PGSIZE) (drop n bs) (put_bytes_at (pa0 + (va - va0)) (take n bs) k))"
  by pat_completeness auto

termination
  by (relation "measure (\<lambda>(pgdir, va, bs, k). length bs)")
    (auto simp: page_offset_less diff_less)

declare copyout.simps [simp del]

section \<open>Page arithmetic\<close>

lemma unat_and_low10: "unat (x AND 0x3FF :: uint) = unat x mod 1024"
proof -
  have "(0x3FF :: uint) = mask 10" by (simp add: mask_eq_exp_minus_1)
  then have "x AND 0x3FF = take_bit 10 x" by (simp only: take_bit_eq_mask)
  then have "unat (x AND 0x3FF) = take_bit 10 (unat x)" by (simp only: unsigned_take_bit_eq)
  then show ?thesis by (simp add: take_bit_eq_mod)
qed

lemma unat_PDX: "unat (PDX va) = unat va div 4194304"
proof -
  have "unat (drop_bit 22 va) = unat va div 2 ^ 22" by (simp add: drop_bit_eq_div unat_div)
  moreover have "unat va div 2 ^ 22 < 1024" using unat_uint_less [of va] by (simp add: less_mult_imp_div_less)
  ultimately show ?thesis by (simp add: PDX_def unat_and_low10)
qed

lemma unat_PTX: "unat (PTX va) = unat va div 4096 mod 1024"
  by (simp add: PTX_def unat_and_low10 drop_bit_eq_div unat_div)

lemma PDX_less [simp]: "PDX va < 1024" and PTX_less [simp]: "PTX va < 1024"
  using unat_uint_less [of va]
  by (simp_all add: word_less_nat_alt unat_PDX unat_PTX less_mult_imp_div_less)

lemma page_eq_iff: "PDX a = PDX b \<and> PTX a = PTX b \<longleftrightarrow> PGROUNDDOWN a = PGROUNDDOWN b"
proof -
  have r: "unat (PGROUNDDOWN x) = unat x div 4096 * 4096" for x
    by (simp add: unat_PGROUNDDOWN minus_mod_eq_div_mult)
  have d: "n div 4194304 = n div 4096 div 1024" for n :: nat by (simp add: div_mult2_eq [symmetric])
  have "PDX a = PDX b \<and> PTX a = PTX b \<longleftrightarrow>
      unat a div 4096 div 1024 = unat b div 4096 div 1024 \<and>
      unat a div 4096 mod 1024 = unat b div 4096 mod 1024"
    by (simp add: word_unat_eq_iff unat_PDX unat_PTX d)
  also have "\<dots> \<longleftrightarrow> unat a div 4096 = unat b div 4096"
    by (metis div_mult_mod_eq)
  also have "\<dots> \<longleftrightarrow> PGROUNDDOWN a = PGROUNDDOWN b"
    by (simp add: word_unat_eq_iff r)
  finally show ?thesis .
qed

lemma aligned_bound:
  assumes "p mod PGSIZE = 0"
  shows "unat p \<le> 4294963200"
proof -
  have "unat p mod 4096 = 0" by (rule page_aligned_unat [OF assms])
  then obtain q where q: "unat p = 4096 * q" by auto
  have "4096 * q < 4294967296" using unat_uint_less [of p] q by simp
  then have "q \<le> 1048575" by simp
  then show ?thesis using q by simp
qed

lemma unat_slot:
  assumes "p mod PGSIZE = 0" "i < 1024"
  shows "unat (p + 4 * i) = unat p + 4 * unat i"
proof -
  have i: "unat i < 1024" using assms(2) by (simp add: word_less_nat_alt)
  then have "unat (4 * i) = 4 * unat i" by (simp add: unat_word_ariths)
  then show ?thesis using i aligned_bound [OF assms(1)] by (simp add: unat_word_ariths)
qed

lemma PGROUNDDOWN_slot:
  assumes "p mod PGSIZE = 0" "i < 1024"
  shows "PGROUNDDOWN (p + 4 * i) = p"
proof -
  have i: "unat i < 1024" using assms(2) by (simp add: word_less_nat_alt)
  have "unat p mod 4096 = 0" by (rule page_aligned_unat [OF assms(1)])
  then have "(unat p + 4 * unat i) mod 4096 = 4 * unat i" using i by (simp add: mod_add_eq [symmetric])
  then show ?thesis using unat_slot [OF assms] by (simp add: word_unat_eq_iff unat_PGROUNDDOWN)
qed

lemma slot_inj:
  assumes "p mod PGSIZE = 0" "q mod PGSIZE = 0" "i < 1024" "j < 1024" "p + 4 * i = q + 4 * j"
  shows "p = q \<and> i = j"
proof -
  have pq: "p = q"
    using PGROUNDDOWN_slot [OF assms(1,3)] PGROUNDDOWN_slot [OF assms(2,4)] assms(5) by simp
  have "unat p + 4 * unat i = unat q + 4 * unat j"
    using unat_slot [OF assms(1,3)] unat_slot [OF assms(2,4)] assms(5) by metis
  with pq show ?thesis by (simp add: word_unat_eq_iff)
qed

lemma in_page_iff:
  assumes "v mod PGSIZE = 0"
  shows "a - v < PGSIZE \<longleftrightarrow> PGROUNDDOWN a = v"
proof
  have al: "unat v mod 4096 = 0" by (rule page_aligned_unat [OF assms])
  have bd: "unat v \<le> 4294963200" by (rule aligned_bound [OF assms])
  show "PGROUNDDOWN a = v" if "a - v < PGSIZE"
  proof -
    have lt: "unat (a - v) < 4096" using that by (simp add: word_less_nat_alt)
    have le: "unat v \<le> unat a"
    proof (rule ccontr)
      assume "\<not> unat v \<le> unat a"
      then have "unat (a - v) = unat a + 2 ^ 32 - unat v" by (simp add: unat_sub_if_size word_size)
      with lt bd show False by simp
    qed
    then have "unat (a - v) = unat a - unat v" by (simp add: unat_sub word_le_nat_alt)
    with lt le have d: "unat a = unat v + unat (a - v)" "unat (a - v) < 4096" by simp_all
    have "(unat v + unat (a - v)) mod 4096 = unat (a - v)" using al d(2) by (simp add: mod_add_eq [symmetric])
    with d(1) have "unat a mod 4096 = unat (a - v)" by metis
    then show ?thesis using d(1) by (simp add: word_unat_eq_iff unat_PGROUNDDOWN)
  qed
  show "a - v < PGSIZE" if "PGROUNDDOWN a = v"
    using page_offset_less [of a] that by (simp add: word_less_nat_alt)
qed

lemma aligned_low12:
  assumes "x mod PGSIZE = 0"
  shows "x AND 0xFFF = 0" "x AND NOT 0xFFF = x"
proof -
  have "unat (x AND 0xFFF) = 0" using page_aligned_unat [OF assms] by (simp add: unat_and_low12)
  then show z: "x AND 0xFFF = 0" by (simp add: unat_eq_0)
  show "x AND NOT 0xFFF = x" unfolding and_not_low12 z by simp
qed

lemma PTE_ADDR_or:
  assumes "x mod PGSIZE = 0" "f AND NOT 0xFFF = 0"
  shows "PTE_ADDR (x OR f) = x"
proof -
  have "(x OR f) AND NOT 0xFFF = (x AND NOT 0xFFF) OR (f AND NOT 0xFFF)" by (rule word_ao_dist)
  then show ?thesis unfolding PTE_ADDR_def aligned_low12 [OF assms(1)] assms(2) by simp
qed

lemma PTE_ADDR_entry:
  assumes "x mod PGSIZE = 0"
  shows "PTE_ADDR (x OR PTE_P OR PTE_W OR PTE_U) = x"
  using PTE_ADDR_or [OF assms, of "PTE_P OR PTE_W OR PTE_U"] by simp

lemma present_entry: "present (x OR PTE_P OR f)" "present (x OR f OR PTE_P)"
proof -
  have "bit (x OR PTE_P OR f) 0" "bit (x OR f OR PTE_P) 0" by (simp_all add: bit_simps)
  moreover have "bit (PTE_P :: uint) 0" by simp
  ultimately have "bit ((x OR PTE_P OR f) AND PTE_P) 0" "bit ((x OR f OR PTE_P) AND PTE_P) 0"
    by (simp_all add: bit_and_iff)
  then show "present (x OR PTE_P OR f)" "present (x OR f OR PTE_P)"
    unfolding present_def by (metis bit_0_eq bot_apply bot_bool_def)+
qed

section \<open>Page directories\<close>

definition pde_at :: "uint \<Rightarrow> uint \<Rightarrow> kmem \<Rightarrow> uint" where
  "pde_at pgdir i k = load (pgdir + 4 * i) k"

definition table_at :: "uint \<Rightarrow> uint \<Rightarrow> kmem \<Rightarrow> uint" where
  "table_at pgdir i k = P2V (PTE_ADDR (pde_at pgdir i k))"

text \<open>What the hardware reads: the page table entry of \<open>va\<close>, 0 when there is no table.\<close>

definition mapping :: "uint \<Rightarrow> kmem \<Rightarrow> uint \<Rightarrow> uint" where
  "mapping pgdir k va =
     (if present (pde_at pgdir (PDX va) k)
      then load (table_at pgdir (PDX va) k + 4 * PTX va) k else 0)"

text \<open>The directory and its tables are distinct legal pages that are not free.\<close>

definition vm_ok :: "uint \<Rightarrow> uint \<Rightarrow> kmem \<Rightarrow> bool" where
  "vm_ok kend pgdir k \<longleftrightarrow>
     kmem_inv kend k \<and> legal_page kend pgdir \<and> pgdir \<notin> free_pages k \<and>
     (\<forall>i<1024. present (pde_at pgdir i k) \<longrightarrow>
        legal_page kend (table_at pgdir i k) \<and> table_at pgdir i k \<notin> free_pages k \<and>
        table_at pgdir i k \<noteq> pgdir) \<and>
     (\<forall>i<1024. \<forall>j<1024. present (pde_at pgdir i k) \<longrightarrow> present (pde_at pgdir j k) \<longrightarrow>
        table_at pgdir i k = table_at pgdir j k \<longrightarrow> i = j)"

lemma vm_okD:
  assumes "vm_ok kend pgdir k"
  shows "kmem_inv kend k" "legal_page kend pgdir" "pgdir \<notin> free_pages k"
    "i < 1024 \<Longrightarrow> present (pde_at pgdir i k) \<Longrightarrow> legal_page kend (table_at pgdir i k)"
    "i < 1024 \<Longrightarrow> present (pde_at pgdir i k) \<Longrightarrow> table_at pgdir i k \<notin> free_pages k"
    "i < 1024 \<Longrightarrow> present (pde_at pgdir i k) \<Longrightarrow> table_at pgdir i k \<noteq> pgdir"
    "i < 1024 \<Longrightarrow> j < 1024 \<Longrightarrow> present (pde_at pgdir i k) \<Longrightarrow> present (pde_at pgdir j k) \<Longrightarrow>
       table_at pgdir i k = table_at pgdir j k \<Longrightarrow> i = j"
  using assms by (auto simp: vm_ok_def)

lemma legal_aligned: "legal_page kend p \<Longrightarrow> p mod PGSIZE = 0"
  by (simp add: legal_page_def)

lemma freelist_same_store:
  assumes inv: "kmem_inv kend k" and fl: "freelist k' = freelist k"
    and st: "\<And>x. x \<in> free_pages k \<Longrightarrow> store k' x = store k x"
  shows "kmem_inv kend k' \<and> free_pages k' = free_pages k"
proof -
  obtain xs where xs: "chain (store k) (freelist k) xs" "distinct xs" "\<forall>x\<in>set xs. legal_page kend x"
    using inv by (auto simp: kmem_inv_def)
  have fp: "free_pages k = set xs" by (rule free_pages_chain [OF xs(1)])
  have "chain (store k') (freelist k') xs"
    using xs(1) chain_cong [of xs "store k" "store k'" "freelist k"] st by (simp add: fp fl)
  then show ?thesis using xs fp free_pages_chain [of k' xs] by (auto simp: kmem_inv_def)
qed

text \<open>A write to a slot of a page that is not free.\<close>

lemma save_slot_free:
  assumes inv: "kmem_inv kend k" and p: "p mod PGSIZE = 0" "p \<notin> free_pages k" "i < 1024"
  shows "kmem_inv kend (save (p + 4 * i) v k) \<and> free_pages (save (p + 4 * i) v k) = free_pages k"
proof (rule freelist_same_store [OF inv])
  show "freelist (save (p + 4 * i) v k) = freelist k" by (simp add: save_def)
  fix x assume x: "x \<in> free_pages k"
  then have xa: "x mod PGSIZE = 0" using free_pages_legal [OF inv] by (blast intro: legal_aligned)
  have "x \<noteq> p + 4 * i"
  proof
    assume "x = p + 4 * i"
    then have "PGROUNDDOWN (x + 4 * 0) = p" using PGROUNDDOWN_slot [OF p(1,3)] by simp
    then have "x = p" using PGROUNDDOWN_slot [OF xa, of 0] by simp
    with x p(2) show False by simp
  qed
  then show "store (save (p + 4 * i) v k) x = store k x" by (simp add: save_def)
qed

lemma load_save_slot:
  assumes "p mod PGSIZE = 0" "q mod PGSIZE = 0" "i < 1024" "j < 1024"
  shows "load (q + 4 * j) (save (p + 4 * i) v k) = (if q = p \<and> j = i then v else load (q + 4 * j) k)"
  using slot_inj [OF assms(2,1,4,3)] by (auto simp: load_def save_def)

lemma load_zero_page_slot:
  assumes "p mod PGSIZE = 0" "q mod PGSIZE = 0" "j < 1024"
  shows "load (q + 4 * j) (zero_page p k) = (if q = p then 0 else load (q + 4 * j) k)"
  using in_page_iff [OF assms(1), of "q + 4 * j"] PGROUNDDOWN_slot [OF assms(2,3)]
  by (auto simp: load_def zero_page_def)

lemma zero_page_free:
  assumes inv: "kmem_inv kend k" and p: "p mod PGSIZE = 0" "p \<notin> free_pages k"
  shows "kmem_inv kend (zero_page p k) \<and> free_pages (zero_page p k) = free_pages k"
proof (rule freelist_same_store [OF inv])
  show "freelist (zero_page p k) = freelist k" by (simp add: zero_page_def)
  fix x assume x: "x \<in> free_pages k"
  then have "x mod PGSIZE = 0" using free_pages_legal [OF inv] by (blast intro: legal_aligned)
  moreover have "x \<noteq> p" using x p(2) by auto
  ultimately show "store (zero_page p k) x = store k x"
    using pages_apart [OF _ p(1)] by (simp add: zero_page_def)
qed

lemma kalloc_store: "kalloc k = (p, k') \<Longrightarrow> store k' = store k"
  by (auto simp: kalloc_def Let_def split: if_splits)

lemma V2P_aligned: "p mod PGSIZE = 0 \<Longrightarrow> V2P p mod PGSIZE = 0"
proof -
  assume "p mod PGSIZE = 0"
  then have p: "unat p mod 4096 = 0" by (rule page_aligned_unat)
  have "unat (p - KERNBASE) = (if unat (KERNBASE :: uint) \<le> unat p then unat p - unat (KERNBASE :: uint)
      else unat p + 2 ^ 32 - unat (KERNBASE :: uint))"
    by (simp add: unat_sub_if_size word_size)
  then have "unat (V2P p) mod 4096 = 0"
    using p by (auto simp: V2P_def mod_eq_0_iff_dvd intro!: dvd_diff_nat dvd_add)
  then show ?thesis by (rule unat_page_aligned)
qed

text \<open>The new table that \<open>walkpgdir\<close> installs.\<close>

lemma new_table:
  assumes ok: "vm_ok kend pgdir k" and al: "kalloc k = (p, k1)" "p \<noteq> 0" and i: "i < 1024"
    and np: "\<not> present (pde_at pgdir i k)"
  defines "k3 \<equiv> save (pgdir + 4 * i) (V2P p OR PTE_P OR PTE_W OR PTE_U) (zero_page p k1)"
  shows "vm_ok kend pgdir k3" "free_pages k3 = free_pages k - {p}"
    "j < 1024 \<Longrightarrow> pde_at pgdir j k3 = (if j = i then V2P p OR PTE_P OR PTE_W OR PTE_U else pde_at pgdir j k)"
    "table_at pgdir i k3 = p"
    "q mod PGSIZE = 0 \<Longrightarrow> q \<noteq> pgdir \<Longrightarrow> j < 1024 \<Longrightarrow>
       load (q + 4 * j) k3 = (if q = p then 0 else load (q + 4 * j) k)"
proof -
  note d = vm_okD [OF ok]
  note ks = kalloc_some [OF d(1) al(1,2)]
  have pa: "pgdir mod PGSIZE = 0" "p mod PGSIZE = 0" using d(2) ks(4) by (blast intro: legal_aligned)+
  have pp: "p \<noteq> pgdir" using d(3) ks(2) by auto
  have pf: "p \<notin> free_pages k1" "pgdir \<notin> free_pages k1" using ks(3) d(3) by auto
  have l1: "load a k1 = load a k" for a using kalloc_store [OF al(1)] by (simp add: load_def)
  note z = zero_page_free [OF ks(1) pa(2) pf(1)]
  have fz: "pgdir \<notin> free_pages (zero_page p k1)" using z pf(2) by simp
  have f3: "kmem_inv kend k3" "free_pages k3 = free_pages k - {p}"
    using save_slot_free [OF _ pa(1) fz i] z ks(3) by (auto simp: k3_def)
  show "free_pages k3 = free_pages k - {p}" by (rule f3(2))
  show ld: "load (q + 4 * j) k3 = (if q = p then 0 else load (q + 4 * j) k)"
    if "q mod PGSIZE = 0" "q \<noteq> pgdir" "j < 1024" for q j
    using that pa i by (simp add: k3_def load_save_slot load_zero_page_slot l1)
  show pd: "pde_at pgdir j k3 = (if j = i then V2P p OR PTE_P OR PTE_W OR PTE_U else pde_at pgdir j k)"
    if "j < 1024" for j
    using that pa i pp by (simp add: k3_def pde_at_def load_save_slot load_zero_page_slot l1)
  show ti: "table_at pgdir i k3 = p"
    using pd [OF i] PTE_ADDR_entry [OF V2P_aligned [OF pa(2)]] by (simp add: table_at_def)
  have tj: "table_at pgdir j k3 = table_at pgdir j k" if "j < 1024" "j \<noteq> i" for j
    using pd [OF that(1)] that(2) by (simp add: table_at_def)
  have old: "present (pde_at pgdir j k)" if "j < 1024" "j \<noteq> i" "present (pde_at pgdir j k3)" for j
    using pd [OF that(1)] that by simp
  have "legal_page kend (table_at pgdir j k3) \<and> table_at pgdir j k3 \<notin> free_pages k3 \<and>
      table_at pgdir j k3 \<noteq> pgdir" if "j < 1024" "present (pde_at pgdir j k3)" for j
    using that ti tj old d(4,5,6) ks(4) pp f3(2) by (cases "j = i") auto
  moreover have "j = j'" if "j < 1024" "j' < 1024" "present (pde_at pgdir j k3)"
    "present (pde_at pgdir j' k3)" "table_at pgdir j k3 = table_at pgdir j' k3" for j j'
  proof -
    have p': "table_at pgdir m k \<noteq> p" if "m < 1024" "m \<noteq> i" "present (pde_at pgdir m k3)" for m
      using d(5) [OF that(1) old [OF that]] ks(2) by auto
    show ?thesis using that ti tj old p' d(7) by (cases "j = i"; cases "j' = i") metis+
  qed
  ultimately show "vm_ok kend pgdir k3"
    unfolding vm_ok_def using f3 d(2,3) by blast
qed

lemma walkpgdir_present:
  "present (pde_at pgdir (PDX va) k) \<Longrightarrow>
   walkpgdir pgdir va alloc k = (table_at pgdir (PDX va) k + 4 * PTX va, k)"
  by (simp add: walkpgdir_def Let_def table_at_def pde_at_def)

lemma walkpgdir_alloc:
  assumes ok: "vm_ok kend pgdir k" and w: "walkpgdir pgdir va True k = (pte, k')" and nz: "pte \<noteq> 0"
  shows "vm_ok kend pgdir k'" "present (pde_at pgdir (PDX va) k')"
    "pte = table_at pgdir (PDX va) k' + 4 * PTX va"
    "mapping pgdir k' = mapping pgdir k" "free_pages k' \<subseteq> free_pages k"
proof -
  have "vm_ok kend pgdir k' \<and> present (pde_at pgdir (PDX va) k') \<and>
    pte = table_at pgdir (PDX va) k' + 4 * PTX va \<and>
    mapping pgdir k' = mapping pgdir k \<and> free_pages k' \<subseteq> free_pages k"
  proof (cases "present (pde_at pgdir (PDX va) k)")
    case True
    with w ok show ?thesis by (auto simp: walkpgdir_present)
  next
    case False
    obtain p k1 where al: "kalloc k = (p, k1)" by fastforce
    let ?k3 = "save (pgdir + 4 * PDX va) (V2P p OR PTE_P OR PTE_W OR PTE_U) (zero_page p k1)"
    have p0: "p \<noteq> 0" and e: "pte = p + 4 * PTX va" "k' = ?k3"
      using w False al nz by (auto simp: walkpgdir_def Let_def pde_at_def split: if_splits)
    define k3 where "k3 = ?k3"
    note nt = new_table [OF ok al p0 PDX_less False, folded k3_def]
    note d = vm_okD [OF ok]
    have "mapping pgdir k3 u = mapping pgdir k u" for u
    proof (cases "PDX u = PDX va")
      case True
      have "legal_page kend p" by (rule kalloc_some(4) [OF d(1) al p0])
      then have "p mod PGSIZE = 0" "p \<noteq> pgdir"
        using d(3) kalloc_some(2) [OF d(1) al p0] by (auto intro: legal_aligned)
      with True False nt(4) nt(5) [of p "PTX u"] show ?thesis by (simp add: mapping_def)
    next
      case F: False
      have pd: "pde_at pgdir (PDX u) k3 = pde_at pgdir (PDX u) k" using nt(3) [of "PDX u"] F by simp
      then have tb: "table_at pgdir (PDX u) k3 = table_at pgdir (PDX u) k" by (simp add: table_at_def)
      show ?thesis
      proof (cases "present (pde_at pgdir (PDX u) k)")
        case True
        have "table_at pgdir (PDX u) k \<noteq> p"
          using d(5) [OF PDX_less True] kalloc_some(2) [OF d(1) al p0] by auto
        moreover have "table_at pgdir (PDX u) k mod PGSIZE = 0" "table_at pgdir (PDX u) k \<noteq> pgdir"
          using d(4,6) [OF PDX_less True] by (auto intro: legal_aligned)
        ultimately show ?thesis using nt(5) [of "table_at pgdir (PDX u) k" "PTX u"] True
          by (simp add: mapping_def pd tb)
      qed (simp add: mapping_def pd)
    qed
    then have "mapping pgdir k3 = mapping pgdir k" by blast
    moreover have "present (pde_at pgdir (PDX va) k3)"
      using nt(3) [OF PDX_less, of va] present_entry(1) [of "V2P p" "PTE_W OR PTE_U"]
      by (simp add: or.assoc)
    ultimately show ?thesis using nt(1,2,4) e k3_def by auto
  qed
  then show "vm_ok kend pgdir k'" "present (pde_at pgdir (PDX va) k')"
    "pte = table_at pgdir (PDX va) k' + 4 * PTX va"
    "mapping pgdir k' = mapping pgdir k" "free_pages k' \<subseteq> free_pages k" by blast+
qed

lemma set_pte:
  fixes e :: uint
  assumes ok: "vm_ok kend pgdir k" and p: "present (pde_at pgdir (PDX va) k)"
  defines "k' \<equiv> save (table_at pgdir (PDX va) k + 4 * PTX va) e k"
  shows "vm_ok kend pgdir k'" "free_pages k' = free_pages k"
    "mapping pgdir k' u = (if PGROUNDDOWN u = PGROUNDDOWN va then e else mapping pgdir k u)"
proof -
  let ?t = "table_at pgdir (PDX va) k"
  note d = vm_okD [OF ok]
  have t: "?t mod PGSIZE = 0" "?t \<notin> free_pages k" "?t \<noteq> pgdir"
    using d(4-6) [OF PDX_less p] by (auto intro: legal_aligned)
  have pa: "pgdir mod PGSIZE = 0" using d(2) by (rule legal_aligned)
  have f: "kmem_inv kend k'" "free_pages k' = free_pages k"
    using save_slot_free [OF d(1) t(1,2) PTX_less] by (auto simp: k'_def)
  show "free_pages k' = free_pages k" by (rule f(2))
  have pd: "pde_at pgdir j k' = pde_at pgdir j k" if "j < 1024" for j
    using that t pa by (simp add: pde_at_def k'_def load_save_slot)
  have tb: "table_at pgdir j k' = table_at pgdir j k" if "j < 1024" for j
    using pd [OF that] by (simp add: table_at_def)
  show "vm_ok kend pgdir k'"
    using ok f unfolding vm_ok_def by (simp add: pd tb)
  show "mapping pgdir k' u = (if PGROUNDDOWN u = PGROUNDDOWN va then e else mapping pgdir k u)"
  proof (cases "present (pde_at pgdir (PDX u) k)")
    case True
    have tu: "table_at pgdir (PDX u) k mod PGSIZE = 0"
      using d(4) [OF PDX_less True] by (rule legal_aligned)
    have "table_at pgdir (PDX u) k = ?t \<longleftrightarrow> PDX u = PDX va"
      using d(7) [OF PDX_less PDX_less True p] by auto
    moreover have "load (table_at pgdir (PDX u) k + 4 * PTX u) k' =
        (if table_at pgdir (PDX u) k = ?t \<and> PTX u = PTX va then e
         else load (table_at pgdir (PDX u) k + 4 * PTX u) k)"
      unfolding k'_def by (rule load_save_slot [OF t(1) tu PTX_less PTX_less])
    ultimately show ?thesis
      using True page_eq_iff [of u va] by (simp add: mapping_def pd tb)
  next
    case False
    then have "PGROUNDDOWN u \<noteq> PGROUNDDOWN va" using p page_eq_iff [of u va] by auto
    with False show ?thesis by (simp add: mapping_def pd)
  qed
qed

lemma slot_nonzero: "legal_page kend p \<Longrightarrow> i < 1024 \<Longrightarrow> p + 4 * i \<noteq> 0"
proof
  assume p: "legal_page kend p" "i < 1024" and z: "p + 4 * i = 0"
  have "PGROUNDDOWN (p + 4 * i) = p" using p by (intro PGROUNDDOWN_slot) (auto intro: legal_aligned)
  then have "p = 0" by (simp add: z PGROUNDDOWN_def)
  with legal_page_nonzero [OF p(1)] show False by simp
qed

lemma walkpgdir_fails:
  assumes ok: "vm_ok kend pgdir k" and w: "walkpgdir pgdir va True k = (0, k')"
  shows "k' = k \<and> free_pages k = {}"
proof (cases "present (pde_at pgdir (PDX va) k)")
  case True
  then show ?thesis
    using w slot_nonzero [OF vm_okD(4) [OF ok PDX_less True] PTX_less, of va]
    by (simp add: walkpgdir_present)
next
  case False
  obtain p k1 where al: "kalloc k = (p, k1)" by fastforce
  show ?thesis
  proof (cases "p = 0")
    case True
    with w False al have "k' = k1" by (simp add: walkpgdir_def Let_def pde_at_def)
    then show ?thesis using kalloc_none [OF vm_okD(1) [OF ok]] al True by auto
  next
    case p: False
    with w False al have "p + 4 * PTX va = 0" by (simp add: walkpgdir_def Let_def pde_at_def)
    then show ?thesis
      using slot_nonzero [OF kalloc_some(4) [OF vm_okD(1) [OF ok] al p] PTX_less, of va] by simp
  qed
qed

text \<open>The pages of a range and what \<open>mappages\<close> makes of them.\<close>

definition mapped :: "uint \<Rightarrow> uint \<Rightarrow> nat \<Rightarrow> uint \<Rightarrow> uint \<Rightarrow> kmem \<Rightarrow> kmem \<Rightarrow> bool" where
  "mapped pgdir a n pa perm k k' \<longleftrightarrow>
     (\<forall>j u. j \<le> n \<longrightarrow> PGROUNDDOWN u = a + of_nat j * PGSIZE \<longrightarrow>
        mapping pgdir k' u = (pa + of_nat j * PGSIZE) OR perm OR PTE_P) \<and>
     (\<forall>u. (\<forall>j\<le>n. PGROUNDDOWN u \<noteq> a + of_nat j * PGSIZE) \<longrightarrow> mapping pgdir k' u = mapping pgdir k u)"

lemma page_steps_distinct:
  assumes "0 < j" "j < 1048576"
  shows "(of_nat j :: uint) * PGSIZE \<noteq> 0"
proof
  assume "(of_nat j :: uint) * PGSIZE = 0"
  then have "(of_nat (j * 4096) :: uint) = 0" by simp
  then have "2 ^ 32 dvd j * 4096" by (simp only: word_of_nat_eq_0_iff) simp
  moreover have "0 < j * 4096" "j * 4096 < 2 ^ 32" using assms by simp_all
  ultimately show False by (auto dest: dvd_imp_le)
qed

lemma aligned_add_page: "a mod PGSIZE = 0 \<Longrightarrow> (a + PGSIZE) mod PGSIZE = (0 :: uint)"
proof -
  assume "a mod PGSIZE = 0"
  then have a: "unat a mod 4096 = 0" by (rule page_aligned_unat)
  have "unat (a + PGSIZE) = (unat a + 4096) mod 2 ^ 32" by (simp add: unat_word_ariths)
  then have "unat (a + PGSIZE) mod 4096 = (unat a + 4096) mod 2 ^ 32 mod 4096" by simp
  also have "\<dots> = (unat a + 4096) mod 4096" by (rule mod_mod_cancel) simp
  also have "\<dots> = 0" using a by simp
  finally show ?thesis by (rule unat_page_aligned)
qed

lemma PGROUNDDOWN_aligned: "a mod PGSIZE = 0 \<Longrightarrow> PGROUNDDOWN a = a"
  using PGROUNDDOWN_slot [of a 0] by simp

lemma mapped_step:
  assumes n: "Suc n < 1048576" and m: "mapped pgdir (a + PGSIZE) n (pa + PGSIZE) perm k2 k'"
    and k2: "\<And>u. mapping pgdir k2 u = (if PGROUNDDOWN u = a then pa OR perm OR PTE_P else mapping pgdir k u)"
  shows "mapped pgdir a (Suc n) pa perm k k'"
  unfolding mapped_def
proof (intro conjI allI impI)
  have shift: "a + PGSIZE + of_nat j * PGSIZE = a + of_nat (Suc j) * PGSIZE" for j
    by (simp add: algebra_simps)
  have shift': "pa + PGSIZE + of_nat j * PGSIZE = pa + of_nat (Suc j) * PGSIZE" for j
    by (simp add: algebra_simps)
  fix j u assume j: "j \<le> Suc n" and u: "PGROUNDDOWN u = a + of_nat j * PGSIZE"
  show "mapping pgdir k' u = (pa + of_nat j * PGSIZE) OR perm OR PTE_P"
  proof (cases j)
    case 0
    have "PGROUNDDOWN u \<noteq> a + PGSIZE + of_nat i * PGSIZE" if "i \<le> n" for i
    proof -
      have "(of_nat (Suc i) :: uint) * PGSIZE \<noteq> 0" using that n by (intro page_steps_distinct) auto
      then show ?thesis using u 0 unfolding shift by simp
    qed
    then have "mapping pgdir k' u = mapping pgdir k2 u" using m by (simp add: mapped_def)
    then show ?thesis using u 0 k2 [of u] by simp
  next
    case (Suc i)
    then have "i \<le> n" "PGROUNDDOWN u = a + PGSIZE + of_nat i * PGSIZE"
      using j u unfolding shift by simp_all
    then have "mapping pgdir k' u = (pa + PGSIZE + of_nat i * PGSIZE) OR perm OR PTE_P"
      using m unfolding mapped_def by blast
    then show ?thesis unfolding shift' Suc .
  qed
next
  have shift: "a + PGSIZE + of_nat j * PGSIZE = a + of_nat (Suc j) * PGSIZE" for j
    by (simp add: algebra_simps)
  fix u assume out: "\<forall>j\<le>Suc n. PGROUNDDOWN u \<noteq> a + of_nat j * PGSIZE"
  then have "PGROUNDDOWN u \<noteq> a" by (auto dest: spec [of _ 0])
  moreover have "PGROUNDDOWN u \<noteq> a + PGSIZE + of_nat j * PGSIZE" if "j \<le> n" for j
    unfolding shift using out that by blast
  ultimately show "mapping pgdir k' u = mapping pgdir k u"
    using m k2 [of u] by (simp add: mapped_def)
qed

lemma map_loop_ok:
  "\<lbrakk>vm_ok kend pgdir k; a mod PGSIZE = 0; n < 1048576; map_loop n pgdir a pa perm k = Ok (r, k')\<rbrakk> \<Longrightarrow>
   vm_ok kend pgdir k' \<and> free_pages k' \<subseteq> free_pages k \<and>
   (r = 0 \<and> mapped pgdir a n pa perm k k' \<or> r = -1 \<and> free_pages k' = {})"
proof (induction n arbitrary: a pa k)
  case 0
  obtain pte k1 where w: "walkpgdir pgdir a True k = (pte, k1)" by fastforce
  show ?case
  proof (cases "pte = 0")
    case True
    with 0 w walkpgdir_fails [of kend pgdir k a k1] show ?thesis
      by (subst (asm) map_loop.simps) auto
  next
    case False
    note wa = walkpgdir_alloc [OF 0(1) w False]
    let ?k2 = "save pte (pa OR perm OR PTE_P) k1"
    have r: "r = 0" "k' = ?k2" using 0(4) w False by (subst (asm) map_loop.simps; auto split: if_splits)+
    note sp = set_pte [OF wa(1,2), of "pa OR perm OR PTE_P", folded wa(3)]
    have al: "PGROUNDDOWN a = a" by (rule PGROUNDDOWN_aligned [OF 0(2)])
    have "mapped pgdir a 0 pa perm k ?k2" using sp(3) wa(4) by (simp add: mapped_def al)
    then show ?thesis using r sp(1,2) wa(5) by simp
  qed
next
  case (Suc n)
  obtain pte k1 where w: "walkpgdir pgdir a True k = (pte, k1)" by fastforce
  show ?case
  proof (cases "pte = 0")
    case True
    with Suc.prems w walkpgdir_fails [of kend pgdir k a k1] show ?thesis
      by (subst (asm) map_loop.simps) auto
  next
    case False
    note wa = walkpgdir_alloc [OF Suc.prems(1) w False]
    let ?k2 = "save pte (pa OR perm OR PTE_P) k1"
    have r: "map_loop n pgdir (a + PGSIZE) (pa + PGSIZE) perm ?k2 = Ok (r, k')"
      using Suc.prems(4) w False by (subst (asm) map_loop.simps) (auto simp: Let_def split: if_splits)
    note sp = set_pte [OF wa(1,2), of "pa OR perm OR PTE_P", folded wa(3)]
    have al: "PGROUNDDOWN a = a" by (rule PGROUNDDOWN_aligned [OF Suc.prems(2)])
    have ih: "vm_ok kend pgdir k' \<and> free_pages k' \<subseteq> free_pages ?k2 \<and>
      (r = 0 \<and> mapped pgdir (a + PGSIZE) n (pa + PGSIZE) perm ?k2 k' \<or> r = -1 \<and> free_pages k' = {})"
      using Suc.prems(3) by (intro Suc.IH [OF sp(1) aligned_add_page [OF Suc.prems(2)] _ r]) simp
    have k2: "mapping pgdir ?k2 u = (if PGROUNDDOWN u = a then pa OR perm OR PTE_P else mapping pgdir k u)" for u
      using sp(3) [of u] wa(4) by (simp add: al)
    have "free_pages k' \<subseteq> free_pages k" using ih sp(2) wa(5) by auto
    moreover have "mapped pgdir a (Suc n) pa perm k k'"
      if "mapped pgdir (a + PGSIZE) n (pa + PGSIZE) perm ?k2 k'"
      by (rule mapped_step [OF Suc.prems(3) that k2])
    ultimately show ?thesis using ih by auto
  qed
qed

section \<open>Properties\<close>

text \<open>C10: \<open>mappages\<close> maps exactly the requested range.  On a directory whose tables are proper pages,
  a call that returns 0 makes the \<open>j\<close>-th page of the range refer to the \<open>j\<close>-th page from \<open>pa\<close>
  with the given permissions, changes the translation of no other address, whichever tables it
  had to allocate, and keeps the directory and the allocator well formed; it returns -1 only
  when memory is exhausted.\<close>

theorem mappages_correct:
  assumes "vm_ok kend pgdir k" and "mappages pgdir va sz pa perm k = Ok (r, k')"
  shows "vm_ok kend pgdir k' \<and>
    (r = 0 \<and> mapped pgdir (PGROUNDDOWN va)
       (unat (PGROUNDDOWN (va + sz - 1) - PGROUNDDOWN va) div 4096) pa perm k k' \<or>
     r = -1 \<and> free_pages k' = {})"
proof -
  let ?n = "unat (PGROUNDDOWN (va + sz - 1) - PGROUNDDOWN va) div 4096"
  have n: "?n < 1048576"
    using unat_uint_less [of "PGROUNDDOWN (va + sz - 1) - PGROUNDDOWN va"]
    by (simp add: less_mult_imp_div_less)
  have "unat (PGROUNDDOWN va) mod 4096 = 0" by (simp add: unat_PGROUNDDOWN minus_mod_eq_div_mult)
  then have al: "PGROUNDDOWN va mod PGSIZE = 0" by (rule unat_page_aligned)
  show ?thesis
    using map_loop_ok [OF assms(1) al n assms(2) [unfolded mappages_def Let_def]] by blast
qed

section \<open>Witnesses\<close>

definition demo_kmem :: kmem where
  "demo_kmem = \<lparr>use_lock = False, freelist = 0x80300000, store = (\<lambda>_. 0)\<rparr>"

lemma demo_vm_ok: "vm_ok 0x80100000 0x80200000 demo_kmem"
proof -
  have c: "chain (store demo_kmem) (freelist demo_kmem) [0x80300000]" by (simp add: demo_kmem_def)
  have l: "legal_page 0x80100000 0x80300000" "legal_page 0x80100000 0x80200000"
    by (simp_all add: legal_page_def V2P_def)
  have "kmem_inv 0x80100000 demo_kmem"
    unfolding kmem_inv_def using c l by (intro exI [of _ "[0x80300000]"]) simp
  moreover have "free_pages demo_kmem = {0x80300000}" using free_pages_chain [OF c] by simp
  ultimately show ?thesis using l
    by (simp add: vm_ok_def pde_at_def load_def present_def) (simp add: demo_kmem_def)
qed

lemma demo_mappages: "\<exists>k'. mappages 0x80200000 0x1000 4096 0x400000 6 demo_kmem = Ok (0, k')"
  by (simp add: mappages_def Let_def PGROUNDDOWN_def map_loop.simps walkpgdir_def load_def save_def
      present_def demo_kmem_def kalloc_def zero_page_def PDX_def PTX_def)

theorem mappages_correct_witness:
  "\<exists>k'. mappages 0x80200000 0x1000 4096 0x400000 6 demo_kmem = Ok (0, k') \<and>
     vm_ok 0x80100000 0x80200000 k' \<and> mapping 0x80200000 k' 0x1234 = 0x400007"
proof -
  obtain k' where k': "mappages 0x80200000 0x1000 4096 0x400000 6 demo_kmem = Ok (0, k')"
    using demo_mappages by blast
  from mappages_correct [OF demo_vm_ok k']
  have "vm_ok 0x80100000 0x80200000 k'" "mapped 0x80200000 0x1000 0 0x400000 6 demo_kmem k'"
    by (auto simp: PGROUNDDOWN_def)
  moreover have "PGROUNDDOWN 0x1234 = 0x1000" by (simp add: PGROUNDDOWN_def)
  ultimately show ?thesis using k' by (auto simp: mapped_def)
qed

end
