(* ===== verification/Fs.thy ===== *)
theory Fs
  imports FsLog Spinlock
begin

text \<open>
  The file system, \<open>kernel/fs.c\<close>: superblock, block bitmap, inodes on disk and in the cache,
  block maps, file contents, directories and path names.

  The state extends that of the log.  A block is read with \<open>fs_bread\<close>, which locks its buffer, and
  released with \<open>fs_brelse\<close>; \<open>log_write\<close> records a change.  The in-memory inode \<open>ip\<close> is the index
  of its slot in the inode cache.  \<open>struct inode\<close> of \<open>include/file.h\<close> has \<open>NDIRECT + 1\<close> block
  addresses but the code also uses index \<open>NDIRECT + 1\<close>: the model follows the memory layout,
  in which that word is the field \<open>dev\<close> of the next slot, and panics behind the last slot.
  Reading and writing a device goes through the function pointers of the device table.
\<close>

section \<open>Data\<close>

abbreviation FSSIZE :: nat where "FSSIZE \<equiv> 25600"
abbreviation BPB :: nat where "BPB \<equiv> 16384"
abbreviation IPB :: nat where "IPB \<equiv> 16"
abbreviation NDIRECT :: nat where "NDIRECT \<equiv> 10"
abbreviation NINDIRECT :: nat where "NINDIRECT \<equiv> 512"
abbreviation NDINDIRECT :: nat where "NDINDIRECT \<equiv> 262144"
abbreviation MAXFILE :: nat where "MAXFILE \<equiv> 262666"
abbreviation NINODE :: nat where "NINODE \<equiv> 100"
abbreviation DIRSIZ :: nat where "DIRSIZ \<equiv> 14"
abbreviation NDEV :: nat where "NDEV \<equiv> 10"
abbreviation ROOTDEV :: nat where "ROOTDEV \<equiv> 1"
abbreviation ROOTINO :: nat where "ROOTINO \<equiv> 1"
abbreviation T_DIR :: ushort where "T_DIR \<equiv> 1"
abbreviation T_FILE :: ushort where "T_FILE \<equiv> 2"
abbreviation T_DEV :: ushort where "T_DEV \<equiv> 3"

record superblock =
  sb_size :: nat
  nblocks :: nat
  ninodes :: nat
  nlog :: nat
  logstart :: nat
  inodestart :: nat
  bmapstart :: nat
  checksum :: nat

record inode =
  i_dev :: nat
  i_inum :: nat
  i_ref :: int
  i_lock :: sleeplock
  i_valid :: bool
  i_type :: ushort
  i_major :: ushort
  i_minor :: ushort
  i_nlink :: ushort
  i_size :: uint
  i_addrs :: "uint list"

text \<open>An entry of the device table: what a read of \<open>n\<close> bytes and a write of some bytes return.\<close>

record device =
  d_read :: "(nat \<Rightarrow> int \<times> uchar list) option"
  d_write :: "(uchar list \<Rightarrow> int) option"

record fsys = txn +
  devsw :: "nat \<Rightarrow> device"
  sb :: superblock
  last_alloc_hint :: nat
  icache :: "inode list"

section \<open>Checksum\<close>

fun fletcher_words :: "ushort list \<Rightarrow> uint \<times> uint \<Rightarrow> uint \<times> uint" where
  "fletcher_words [] (s1, s2) = (s1, s2)"
| "fletcher_words (d # ds) (s1, s2) =
     (let s1' = s1 + ucast d in fletcher_words ds (s1', s2 + s1'))"

definition fold16 :: "uint \<Rightarrow> uint" where
  "fold16 s = (s AND 0xFFFF) + drop_bit 16 s"

function fletcher_loop :: "ushort list \<Rightarrow> uint \<times> uint \<Rightarrow> uint \<times> uint" where
  "fletcher_loop ds (s1, s2) =
     (if ds = [] then (s1, s2)
      else case fletcher_words (take 360 ds) (s1, s2) of (t1, t2) \<Rightarrow>
        fletcher_loop (drop 360 ds) (fold16 t1, fold16 t2))"
  by pat_completeness auto
termination
  by (relation "measure (\<lambda>(ds, s). length ds)") (auto simp: diff_less)

declare fletcher_loop.simps [simp del]

definition fletcher32 :: "ushort list \<Rightarrow> uint" where
  "fletcher32 ds =
     (case fletcher_loop ds (0xFFFF, 0xFFFF) of (s1, s2) \<Rightarrow> push_bit 16 s2 OR s1)"

section \<open>Blocks\<close>

text \<open>The check of the block number is the driver's; a cached block has passed it when it was read, so that it may be made
  at every access.\<close>

definition fs_bread :: "nat \<Rightarrow> 'a fsys_scheme \<Rightarrow> (block \<times> 'a fsys_scheme) kres" where
  "fs_bread bno s = (if FSSIZE \<le> bno then Panic ''idestart: block out of range'' else tx_read bno s)"

definition fs_brelse :: "nat \<Rightarrow> 'a fsys_scheme \<Rightarrow> 'a fsys_scheme kres" where
  "fs_brelse bno s = tx_release bno s"

definition sb_of_block :: "block \<Rightarrow> superblock" where
  "sb_of_block b = \<lparr>sb_size = unat (get32 b 0), nblocks = unat (get32 b 4),
     ninodes = unat (get32 b 8), nlog = unat (get32 b 12), logstart = unat (get32 b 16),
     inodestart = unat (get32 b 20), bmapstart = unat (get32 b 24), checksum = unat (get32 b 28)\<rparr>"

definition readsb :: "'a fsys_scheme \<Rightarrow> 'a fsys_scheme kres" where
  "readsb s = kbind (fs_bread 1 s) (\<lambda>(b, s1). kbind (fs_brelse 1 s1) (\<lambda>s2.
     Ok (s2\<lparr>sb := sb_of_block b\<rparr>)))"

definition iinit :: "'a fsys_scheme \<Rightarrow> 'a fsys_scheme kres" where
  "iinit s =
     kbind (readsb (s\<lparr>icache := map (\<lambda>ip. ip\<lparr>i_lock := initsleeplock\<rparr>) (icache s)\<rparr>)) (\<lambda>s1.
       if sb_size (sb s1) < nblocks (sb s1) \<or> ninodes (sb s1) < 1 \<or> nblocks (sb s1) < 1
       then Panic ''iinit: invalid superblock parameters'' else Ok s1)"

definition bzero :: "nat \<Rightarrow> 'a fsys_scheme \<Rightarrow> 'a fsys_scheme kres" where
  "bzero bno s =
     (if sb_size (sb s) \<le> bno then Panic ''bzero: invalid block number''
      else kbind (fs_bread bno s) (\<lambda>(_, s1). kbind (log_write bno (tx_put bno zero_block s1)) (fs_brelse bno)))"

definition set_bit_in :: "block \<Rightarrow> nat \<Rightarrow> block" where
  "set_bit_in b bi = b(bi div 8 := b (bi div 8) OR push_bit (bi mod 8) 1)"

definition clear_bit_in :: "block \<Rightarrow> nat \<Rightarrow> block" where
  "clear_bit_in b bi = b(bi div 8 := b (bi div 8) AND NOT (push_bit (bi mod 8) 1))"

definition bit_is_set :: "block \<Rightarrow> nat \<Rightarrow> bool" where
  "bit_is_set b bi \<longleftrightarrow> b (bi div 8) AND push_bit (bi mod 8) 1 \<noteq> 0"

text \<open>The three nested scans of \<open>balloc\<close>.  A block number at or beyond \<open>nblocks\<close> makes the code
  \<open>continue\<close> after it has marked the block and released the bitmap buffer.\<close>

fun balloc_bits :: "nat \<Rightarrow> nat \<Rightarrow> nat \<Rightarrow> nat \<Rightarrow> 'a fsys_scheme \<Rightarrow> (nat option \<times> 'a fsys_scheme) kres" where
  "balloc_bits bm i bt 0 s = Ok (None, s)"
| "balloc_bits bm i bt (Suc k) s =
     (let bi = i * 8 + bt in
      if bit_is_set (blk s bm) bi then balloc_bits bm i (Suc bt) k s
      else kbind (log_write bm (tx_put bm (set_bit_in (blk s bm) bi) s)) (\<lambda>s1.
           kbind (fs_brelse bm s1) (\<lambda>s2.
             let bno = (bm - bmapstart (sb s)) * BPB + bi in
             if nblocks (sb s) \<le> bno then balloc_bits bm i (Suc bt) k s2
             else kbind (bzero bno s2) (\<lambda>s3. Ok (Some bno, s3\<lparr>last_alloc_hint := bno\<rparr>)))))"

fun balloc_words :: "nat \<Rightarrow> nat \<Rightarrow> nat \<Rightarrow> 'a fsys_scheme \<Rightarrow> (nat option \<times> 'a fsys_scheme) kres" where
  "balloc_words bm i 0 s = Ok (None, s)"
| "balloc_words bm i (Suc k) s =
     (if get32 (blk s bm) i \<noteq> 0xFFFFFFFF
      then kbind (balloc_bits bm i 0 32 s) (\<lambda>(r, s1).
        case r of Some bno \<Rightarrow> Ok (Some bno, s1) | None \<Rightarrow> balloc_words bm (i + 4) k s1)
      else balloc_words bm (i + 4) k s)"

fun balloc_blocks :: "nat \<Rightarrow> nat \<Rightarrow> 'a fsys_scheme \<Rightarrow> (nat option \<times> 'a fsys_scheme) kres" where
  "balloc_blocks bm 0 s = Ok (None, s)"
| "balloc_blocks bm (Suc k) s =
     kbind (fs_bread bm s) (\<lambda>(_, s1). kbind (balloc_words bm 0 512 s1) (\<lambda>(r, s2).
       case r of Some bno \<Rightarrow> Ok (Some bno, s2)
       | None \<Rightarrow> kbind (fs_brelse bm s2) (balloc_blocks (Suc bm) k)))"

definition balloc :: "'a fsys_scheme \<Rightarrow> (nat \<times> 'a fsys_scheme) kres" where
  "balloc s =
     (let start = last_alloc_hint s; b0 = bmapstart (sb s);
          first = b0 + start div BPB;
          end0 = min (b0 + nblocks (sb s) div BPB + 1) (b0 + sb_size (sb s) div BPB + 1)
      in kbind (balloc_blocks first (end0 - first) s) (\<lambda>(r, s1).
           case r of Some bno \<Rightarrow> Ok (bno, s1)
           | None \<Rightarrow> kbind (balloc_blocks b0 (start div BPB) s1) (\<lambda>(r, s2).
               case r of Some bno \<Rightarrow> Ok (bno, s2)
               | None \<Rightarrow> Panic ''balloc: out of blocks'')))"

definition bfree :: "nat \<Rightarrow> 'a fsys_scheme \<Rightarrow> 'a fsys_scheme kres" where
  "bfree b s =
     (if nblocks (sb s) \<le> b then Panic ''bfree: block number out of range''
      else let bm = b div BPB + bmapstart (sb s); bi = b mod BPB in
        kbind (fs_bread bm s) (\<lambda>(x, s1).
          if \<not> bit_is_set x bi then Panic ''bfree: freeing free block''
          else kbind (log_write bm (tx_put bm (clear_bit_in x bi) s1)) (fs_brelse bm)))"

section \<open>Inodes\<close>

definition IBLOCK :: "nat \<Rightarrow> superblock \<Rightarrow> nat" where
  "IBLOCK i b = i div IPB + inodestart b"

definition ioff :: "nat \<Rightarrow> nat" where
  "ioff i = i mod IPB * 128"

definition inode_at :: "'a fsys_scheme \<Rightarrow> nat \<Rightarrow> inode" where
  "inode_at s ip = icache s ! ip"

definition set_inode :: "nat \<Rightarrow> inode \<Rightarrow> 'a fsys_scheme \<Rightarrow> 'a fsys_scheme" where
  "set_inode ip x s = s\<lparr>icache := (icache s)[ip := x]\<rparr>"

definition iget :: "nat \<Rightarrow> nat \<Rightarrow> 'a fsys_scheme \<Rightarrow> (nat \<times> 'a fsys_scheme) kres" where
  "iget dev inum s =
     (case scan (\<lambda>i. i_ref (inode_at s i) > 0 \<and> i_dev (inode_at s i) = dev \<and>
                     i_inum (inode_at s i) = inum) 0 NINODE of
        Some i \<Rightarrow> Ok (i, set_inode i ((inode_at s i)\<lparr>i_ref := i_ref (inode_at s i) + 1\<rparr>) s)
      | None \<Rightarrow>
          (case scan (\<lambda>i. i_ref (inode_at s i) = 0) 0 NINODE of
             None \<Rightarrow> Panic ''iget: no free inodes in cache''
           | Some i \<Rightarrow> Ok (i, set_inode i ((inode_at s i)\<lparr>i_dev := dev, i_inum := inum,
                               i_ref := 1, i_valid := False\<rparr>) s)))"

definition idup :: "nat \<Rightarrow> 'a fsys_scheme \<Rightarrow> 'a fsys_scheme" where
  "idup ip s = set_inode ip ((inode_at s ip)\<lparr>i_ref := i_ref (inode_at s ip) + 1\<rparr>) s"

fun ialloc_loop :: "nat \<Rightarrow> ushort \<Rightarrow> nat \<Rightarrow> nat \<Rightarrow> 'a fsys_scheme \<Rightarrow> (nat \<times> 'a fsys_scheme) kres" where
  "ialloc_loop dev ty inum 0 s = Panic ''ialloc: no inodes''"
| "ialloc_loop dev ty inum (Suc k) s =
     (let bno = IBLOCK inum (sb s); o' = ioff inum in
      kbind (fs_bread bno s) (\<lambda>(b, s1).
        if get16 b o' = 0
        then let b1 = put16 (put_bytes b o' 128 (\<lambda>_. 0)) o' ty in
          kbind (log_write bno (tx_put bno b1 s1)) (\<lambda>s2. kbind (fs_brelse bno s2) (iget dev inum))
        else kbind (fs_brelse bno s1) (ialloc_loop dev ty (Suc inum) k)))"

definition ialloc :: "nat \<Rightarrow> ushort \<Rightarrow> 'a fsys_scheme \<Rightarrow> (nat \<times> 'a fsys_scheme) kres" where
  "ialloc dev ty s = ialloc_loop dev ty 1 (ninodes (sb s) - 1) s"

fun put_addrs :: "uint list \<Rightarrow> nat \<Rightarrow> block \<Rightarrow> block" where
  "put_addrs [] off b = b"
| "put_addrs (a # as) off b = put_addrs as (off + 4) (put32 b off a)"

definition put_dinode :: "inode \<Rightarrow> nat \<Rightarrow> block \<Rightarrow> block" where
  "put_dinode ip o' b =
     put_addrs (take 11 (i_addrs ip)) (o' + 12)
       (put32 (put16 (put16 (put16 (put16 b o' (i_type ip)) (o' + 2) (i_major ip)) (o' + 4) (i_minor ip))
         (o' + 6) (i_nlink ip)) (o' + 8) (i_size ip))"

definition get_dinode :: "block \<Rightarrow> nat \<Rightarrow> inode \<Rightarrow> inode" where
  "get_dinode b o' ip = ip\<lparr>i_type := get16 b o', i_major := get16 b (o' + 2),
     i_minor := get16 b (o' + 4), i_nlink := get16 b (o' + 6), i_size := get32 b (o' + 8),
     i_addrs := map (\<lambda>i. get32 b (o' + 12 + 4 * i)) [0..<11]\<rparr>"

definition iupdate :: "int \<Rightarrow> nat \<Rightarrow> 'a fsys_scheme \<Rightarrow> 'a fsys_scheme kres" where
  "iupdate pid ip s =
     (let x = inode_at s ip in
      if \<not> holdingsleep pid (i_lock x) then Panic ''iupdate: invalid inode or not holding lock''
      else let bno = IBLOCK (i_inum x) (sb s) in
        kbind (fs_bread bno s) (\<lambda>(b, s1).
          kbind (log_write bno (tx_put bno (put_dinode x (ioff (i_inum x)) b) s1)) (fs_brelse bno)))"

definition ilock :: "int \<Rightarrow> nat \<Rightarrow> 'a fsys_scheme \<Rightarrow> 'a fsys_scheme kres" where
  "ilock pid ip s =
     (let x = inode_at s ip in
      if i_ref x < 1 then Panic ''ilock: invalid inode''
      else kbind (acquiresleep pid (i_lock x)) (\<lambda>lk.
        let x1 = x\<lparr>i_lock := lk\<rparr>; s1 = set_inode ip x1 s in
        if i_valid x then Ok s1
        else let bno = IBLOCK (i_inum x) (sb s) in
          kbind (fs_bread bno s1) (\<lambda>(b, s2). kbind (fs_brelse bno s2) (\<lambda>s3.
            let x2 = (get_dinode b (ioff (i_inum x)) x1)\<lparr>i_valid := True\<rparr> in
            if i_type x2 = 0 then Panic ''ilock: inode has no type'' else Ok (set_inode ip x2 s3)))))"

definition iunlock :: "int \<Rightarrow> nat \<Rightarrow> 'a fsys_scheme \<Rightarrow> 'a fsys_scheme kres" where
  "iunlock pid ip s =
     (let x = inode_at s ip in
      if \<not> holdingsleep pid (i_lock x) \<or> i_ref x < 1 then Panic ''iunlock: invalid unlock attempt''
      else Ok (set_inode ip (x\<lparr>i_lock := releasesleep (i_lock x)\<rparr>) s))"

subsection \<open>Block maps\<close>

text \<open>\<open>ip->addrs[i]\<close>.  Index \<open>NDIRECT + 1\<close> lies behind the array: see above.\<close>

definition read_addr :: "nat \<Rightarrow> nat \<Rightarrow> 'a fsys_scheme \<Rightarrow> uint kres" where
  "read_addr ip i s =
     (if i \<le> NDIRECT then Ok (i_addrs (inode_at s ip) ! i)
      else if Suc ip < NINODE then Ok (of_nat (i_dev (inode_at s (Suc ip))))
      else Panic ''addrs index out of bounds'')"

definition write_addr :: "nat \<Rightarrow> nat \<Rightarrow> uint \<Rightarrow> 'a fsys_scheme \<Rightarrow> 'a fsys_scheme kres" where
  "write_addr ip i v s =
     (if i \<le> NDIRECT
      then Ok (set_inode ip ((inode_at s ip)\<lparr>i_addrs := (i_addrs (inode_at s ip))[i := v]\<rparr>) s)
      else if Suc ip < NINODE
      then Ok (set_inode (Suc ip) ((inode_at s (Suc ip))\<lparr>i_dev := unat v\<rparr>) s)
      else Panic ''addrs index out of bounds'')"

text \<open>\<open>if ((addr = ip->addrs[i]) == 0) ip->addrs[i] = addr = balloc(ip->dev)\<close>\<close>

definition addr_or_alloc :: "nat \<Rightarrow> nat \<Rightarrow> 'a fsys_scheme \<Rightarrow> (nat \<times> 'a fsys_scheme) kres" where
  "addr_or_alloc ip i s = kbind (read_addr ip i s) (\<lambda>a.
     if a = 0
     then kbind (balloc s) (\<lambda>(b, s1). kbind (write_addr ip i (of_nat b) s1) (\<lambda>s2. Ok (b, s2)))
     else Ok (unat a, s))"

text \<open>The entry \<open>j\<close> of the indirect block \<open>addr\<close>, allocated when it is 0.\<close>

definition indirect_or_alloc :: "nat \<Rightarrow> nat \<Rightarrow> 'a fsys_scheme \<Rightarrow> (nat \<times> 'a fsys_scheme) kres" where
  "indirect_or_alloc addr j s = kbind (fs_bread addr s) (\<lambda>(b, s1).
     let a = get32 b (4 * j) in
     if a = 0
     then kbind (balloc s1) (\<lambda>(nb, s2).
            kbind (log_write addr (tx_put addr (put32 (blk s2 addr) (4 * j) (of_nat nb)) s2)) (\<lambda>s3.
              kbind (fs_brelse addr s3) (\<lambda>s4. Ok (nb, s4))))
     else kbind (fs_brelse addr s1) (\<lambda>s2. Ok (unat a, s2)))"

definition bmap :: "nat \<Rightarrow> nat \<Rightarrow> 'a fsys_scheme \<Rightarrow> (nat \<times> 'a fsys_scheme) kres" where
  "bmap ip bn s =
     (if bn < NDIRECT then addr_or_alloc ip bn s
      else if bn - NDIRECT < NINDIRECT
      then kbind (addr_or_alloc ip NDIRECT s) (\<lambda>(addr, s1). indirect_or_alloc addr (bn - NDIRECT) s1)
      else if bn - NDIRECT - NINDIRECT < NDINDIRECT
      then let bn2 = bn - NDIRECT - NINDIRECT in
        kbind (addr_or_alloc ip (NDIRECT + 1) s) (\<lambda>(addr, s1).
        kbind (indirect_or_alloc addr (bn2 div NINDIRECT) s1) (\<lambda>(addr2, s2).
          indirect_or_alloc addr2 (bn2 mod NINDIRECT) s2))
      else Panic ''bmap: block number out of range'')"

definition free_direct :: "nat \<Rightarrow> nat \<Rightarrow> 'a fsys_scheme \<Rightarrow> 'a fsys_scheme kres" where
  "free_direct ip i s = kbind (read_addr ip i s) (\<lambda>a.
     if a \<noteq> 0 then kbind (bfree (unat a) s) (write_addr ip i 0) else Ok s)"

definition free_entry :: "block \<Rightarrow> nat \<Rightarrow> 'a fsys_scheme \<Rightarrow> 'a fsys_scheme kres" where
  "free_entry b j s = (if get32 b (4 * j) \<noteq> 0 then bfree (unat (get32 b (4 * j))) s else Ok s)"

definition free_table_entry :: "block \<Rightarrow> nat \<Rightarrow> 'a fsys_scheme \<Rightarrow> 'a fsys_scheme kres" where
  "free_table_entry b j s =
     (let a = get32 b (4 * j) in
      if a \<noteq> 0
      then kbind (fs_bread (unat a) s) (\<lambda>(b2, s1). kbind (kloop (free_entry b2) 0 NINDIRECT s1) (\<lambda>s2.
             kbind (fs_brelse (unat a) s2) (bfree (unat a))))
      else Ok s)"

definition free_indirect :: "nat \<Rightarrow> nat \<Rightarrow> (block \<Rightarrow> nat \<Rightarrow> 'a fsys_scheme \<Rightarrow> 'a fsys_scheme kres)
    \<Rightarrow> 'a fsys_scheme \<Rightarrow> 'a fsys_scheme kres" where
  "free_indirect ip i f s = kbind (read_addr ip i s) (\<lambda>a.
     if a \<noteq> 0
     then kbind (fs_bread (unat a) s) (\<lambda>(b, s1). kbind (kloop (f b) 0 NINDIRECT s1) (\<lambda>s2.
            kbind (fs_brelse (unat a) s2) (\<lambda>s3. kbind (bfree (unat a) s3) (write_addr ip i 0))))
     else Ok s)"

definition itrunc :: "int \<Rightarrow> nat \<Rightarrow> 'a fsys_scheme \<Rightarrow> 'a fsys_scheme kres" where
  "itrunc pid ip s =
     kbind (kloop (free_direct ip) 0 NDIRECT s) (\<lambda>s1.
     kbind (free_indirect ip NDIRECT free_entry s1) (\<lambda>s2.
     kbind (free_indirect ip (NDIRECT + 1) free_table_entry s2) (\<lambda>s3.
       iupdate pid ip (set_inode ip ((inode_at s3 ip)\<lparr>i_size := 0\<rparr>) s3))))"

definition iput :: "int \<Rightarrow> nat \<Rightarrow> 'a fsys_scheme \<Rightarrow> 'a fsys_scheme kres" where
  "iput pid ip s =
     kbind (acquiresleep pid (i_lock (inode_at s ip))) (\<lambda>lk.
     let s1 = set_inode ip ((inode_at s ip)\<lparr>i_lock := lk\<rparr>) s; x = inode_at s1 ip in
     kbind (if i_valid x \<and> i_nlink x = 0 \<and> i_ref x = 1
            then kbind (itrunc pid ip s1) (\<lambda>s2.
                 kbind (iupdate pid ip (set_inode ip ((inode_at s2 ip)\<lparr>i_type := 0\<rparr>) s2)) (\<lambda>s3.
                   Ok (set_inode ip ((inode_at s3 ip)\<lparr>i_valid := False\<rparr>) s3)))
            else Ok s1)
       (\<lambda>s4. let y = inode_at s4 ip in
          Ok (set_inode ip (y\<lparr>i_lock := releasesleep (i_lock y), i_ref := i_ref y - 1\<rparr>) s4)))"

definition iunlockput :: "int \<Rightarrow> nat \<Rightarrow> 'a fsys_scheme \<Rightarrow> 'a fsys_scheme kres" where
  "iunlockput pid ip s = kbind (iunlock pid ip s) (iput pid ip)"

record stat =
  st_dev :: nat
  st_ino :: nat
  st_type :: ushort
  st_nlink :: ushort
  st_size :: uint

definition stati :: "nat \<Rightarrow> 'a fsys_scheme \<Rightarrow> stat" where
  "stati ip s = (let x = inode_at s ip in \<lparr>st_dev = i_dev x, st_ino = i_inum x, st_type = i_type x,
     st_nlink = i_nlink x, st_size = i_size x\<rparr>)"

section \<open>File contents\<close>

fun bytes_of :: "block \<Rightarrow> nat \<Rightarrow> nat \<Rightarrow> uchar list" where
  "bytes_of b off 0 = []"
| "bytes_of b off (Suc n) = b off # bytes_of b (Suc off) n"

fun put_list :: "uchar list \<Rightarrow> nat \<Rightarrow> block \<Rightarrow> block" where
  "put_list [] off b = b"
| "put_list (x # xs) off b = put_list xs (Suc off) (b(off := x))"

function readi_loop :: "nat \<Rightarrow> nat \<Rightarrow> nat \<Rightarrow> 'a fsys_scheme \<Rightarrow> (uchar list \<times> 'a fsys_scheme) kres" where
  "readi_loop ip off n s =
     (if n = 0 then Ok ([], s)
      else let m = min n (BSIZE - off mod BSIZE) in
        kbind (bmap ip (off div BSIZE) s) (\<lambda>(addr, s1).
        kbind (fs_bread addr s1) (\<lambda>(b, s2).
        kbind (fs_brelse addr s2) (\<lambda>s3.
        kbind (readi_loop ip (off + m) (n - m) s3) (\<lambda>(bs, s4).
          Ok (bytes_of b (off mod BSIZE) m @ bs, s4))))))"
  by pat_completeness auto
termination
  by (relation "measure (\<lambda>(ip, off, n, s). n)") auto

declare readi_loop.simps [simp del]

text \<open>The return value, the bytes stored at \<open>dst\<close> and the new state.\<close>

definition readi :: "nat \<Rightarrow> uint \<Rightarrow> uint \<Rightarrow> 'a fsys_scheme \<Rightarrow> (int \<times> uchar list \<times> 'a fsys_scheme) kres" where
  "readi ip off n s =
     (let x = inode_at s ip in
      if i_type x = T_DEV
      then if sint (i_major x) < 0 \<or> int NDEV \<le> sint (i_major x) then Ok (-1, [], s)
           else case d_read (devsw s (unat (i_major x))) of
                  None \<Rightarrow> Ok (-1, [], s)
                | Some rd \<Rightarrow> (case rd (unat n) of (r, bs) \<Rightarrow> Ok (r, bs, s))
      else if i_size x < off \<or> off + n < off then Ok (-1, [], s)
      else let n' = (if i_size x < off + n then i_size x - off else n) in
        kbind (readi_loop ip (unat off) (unat n') s) (\<lambda>(bs, s1). Ok (sint n', bs, s1)))"

function writei_loop :: "nat \<Rightarrow> nat \<Rightarrow> uchar list \<Rightarrow> 'a fsys_scheme \<Rightarrow> 'a fsys_scheme kres" where
  "writei_loop ip off src s =
     (if src = [] then Ok s
      else let m = min (length src) (BSIZE - off mod BSIZE) in
        kbind (bmap ip (off div BSIZE) s) (\<lambda>(addr, s1).
        kbind (fs_bread addr s1) (\<lambda>(b, s2).
        kbind (log_write addr (tx_put addr (put_list (take m src) (off mod BSIZE) b) s2)) (\<lambda>s3.
        kbind (fs_brelse addr s3) (writei_loop ip (off + m) (drop m src))))))"
  by pat_completeness auto
termination
  by (relation "measure (\<lambda>(ip, off, src, s). length src)") auto

declare writei_loop.simps [simp del]

text \<open>\<open>src\<close> are the \<open>n\<close> bytes at the source address, \<open>off\<close> has advanced by \<open>n\<close> after the loop.\<close>

definition writei :: "int \<Rightarrow> nat \<Rightarrow> uchar list \<Rightarrow> uint \<Rightarrow> 'a fsys_scheme \<Rightarrow> (int \<times> 'a fsys_scheme) kres" where
  "writei pid ip src off s =
     (let x = inode_at s ip; n = of_nat (length src) :: uint in
      if i_type x = T_DEV
      then if sint (i_major x) < 0 \<or> int NDEV \<le> sint (i_major x) then Ok (-1, s)
           else case d_write (devsw s (unat (i_major x))) of
                  None \<Rightarrow> Ok (-1, s)
                | Some wr \<Rightarrow> Ok (wr src, s)
      else if i_size x < off \<or> off + n < off then Ok (-1, s)
      else if of_nat (MAXFILE * BSIZE) < off + n then Ok (-1, s)
      else kbind (writei_loop ip (unat off) src s) (\<lambda>s1.
        if 0 < n \<and> i_size (inode_at s1 ip) < off + n
        then kbind (iupdate pid ip (set_inode ip ((inode_at s1 ip)\<lparr>i_size := off + n\<rparr>) s1)) (\<lambda>s2.
               Ok (sint n, s2))
        else Ok (sint n, s1)))"

section \<open>Directories\<close>

text \<open>\<open>strncmp\<close> on two name buffers of \<open>DIRSIZ\<close> bytes, and the \<open>strncpy\<close> into one.\<close>

fun namecmp_loop :: "uchar list \<Rightarrow> uchar list \<Rightarrow> int" where
  "namecmp_loop (x # xs) (y # ys) =
     (if x \<noteq> 0 \<and> x = y then namecmp_loop xs ys else uint x - uint y)"
| "namecmp_loop xs ys = 0"

definition namecmp :: "uchar list \<Rightarrow> uchar list \<Rightarrow> int" where
  "namecmp s t = namecmp_loop (take DIRSIZ s) (take DIRSIZ t)"

definition copy_name :: "uchar list \<Rightarrow> uchar list" where
  "copy_name name = (let s = takeWhile (\<lambda>c. c \<noteq> 0) (take DIRSIZ name)
     in s @ replicate (DIRSIZ - length s) 0)"

text \<open>\<open>struct dirent\<close> as the 16 bytes it is read from: the inode number, then the name.\<close>

definition de_inum :: "uchar list \<Rightarrow> nat" where
  "de_inum bs = unat (bs ! 0) + 256 * unat (bs ! 1)"

definition de_name :: "uchar list \<Rightarrow> uchar list" where
  "de_name bs = drop 2 bs"

definition dirent_bytes :: "nat \<Rightarrow> uchar list \<Rightarrow> uchar list" where
  "dirent_bytes inum name = of_nat inum # of_nat (inum div 256) # copy_name name"

fun dirlookup_loop :: "nat \<Rightarrow> uchar list \<Rightarrow> nat \<Rightarrow> nat \<Rightarrow> 'a fsys_scheme
    \<Rightarrow> ((nat \<times> nat) option \<times> 'a fsys_scheme) kres" where
  "dirlookup_loop dp name off 0 s = Ok (None, s)"
| "dirlookup_loop dp name off (Suc k) s =
     kbind (readi dp (of_nat off) 16 s) (\<lambda>(r, de, s1).
       if r \<noteq> 16 then Panic ''dirlookup: read error''
       else if de_inum de \<noteq> 0 \<and> namecmp name (de_name de) = 0
       then kbind (iget (i_dev (inode_at s1 dp)) (de_inum de) s1) (\<lambda>(ip, s2). Ok (Some (ip, off), s2))
       else dirlookup_loop dp name (off + 16) k s1)"

text \<open>The number of offsets \<open>0, 16, 32, ...\<close> below the size of the directory.\<close>

definition dir_slots :: "nat \<Rightarrow> 'a fsys_scheme \<Rightarrow> nat" where
  "dir_slots dp s = (unat (i_size (inode_at s dp)) + 15) div 16"

definition dirlookup :: "nat \<Rightarrow> uchar list \<Rightarrow> 'a fsys_scheme \<Rightarrow> ((nat \<times> nat) option \<times> 'a fsys_scheme) kres" where
  "dirlookup dp name s =
     (if i_type (inode_at s dp) \<noteq> T_DIR then Panic ''dirlookup: not a directory''
      else dirlookup_loop dp name 0 (dir_slots dp s) s)"

fun free_slot_loop :: "nat \<Rightarrow> nat \<Rightarrow> nat \<Rightarrow> 'a fsys_scheme \<Rightarrow> (nat \<times> 'a fsys_scheme) kres" where
  "free_slot_loop dp off 0 s = Ok (off, s)"
| "free_slot_loop dp off (Suc k) s =
     kbind (readi dp (of_nat off) 16 s) (\<lambda>(r, de, s1).
       if r \<noteq> 16 then Panic ''dirlink: read error''
       else if de_inum de = 0 then Ok (off, s1)
       else free_slot_loop dp (off + 16) k s1)"

definition dirlink :: "int \<Rightarrow> nat \<Rightarrow> uchar list \<Rightarrow> nat \<Rightarrow> 'a fsys_scheme \<Rightarrow> (int \<times> 'a fsys_scheme) kres" where
  "dirlink pid dp name inum s =
     kbind (dirlookup dp name s) (\<lambda>(r, s1).
       case r of
         Some (ip, _) \<Rightarrow> kbind (iput pid ip s1) (\<lambda>s2. Ok (-1, s2))
       | None \<Rightarrow>
           kbind (free_slot_loop dp 0 (dir_slots dp s1) s1) (\<lambda>(off, s2).
           kbind (writei pid dp (dirent_bytes inum name) (of_nat off) s2) (\<lambda>(w, s3).
             if w \<noteq> 16 then Panic ''dirlink: write error'' else Ok (0, s3))))"

section \<open>Paths\<close>

text \<open>A path is the string up to its NUL; \<open>name\<close> is the buffer of the last element parsed.\<close>

abbreviation SLASH :: uchar where "SLASH \<equiv> 47"

definition store_elem :: "uchar list \<Rightarrow> uchar list \<Rightarrow> uchar list" where
  "store_elem e name =
     (if DIRSIZ \<le> length e then take DIRSIZ e @ drop DIRSIZ name
      else e @ [0] @ drop (Suc (length e)) name)"

definition skipelem :: "uchar list \<Rightarrow> uchar list \<Rightarrow> (uchar list \<times> uchar list) option" where
  "skipelem path name =
     (let s = dropWhile (\<lambda>c. c = SLASH) path in
      if s = [] then None
      else let e = takeWhile (\<lambda>c. c \<noteq> SLASH) s; p = dropWhile (\<lambda>c. c \<noteq> SLASH) s in
        Some (dropWhile (\<lambda>c. c = SLASH) p, store_elem e name))"

lemma skipelem_shorter: "skipelem path name = Some (rest, name') \<Longrightarrow> length rest < length path"
proof -
  define s where "s = dropWhile (\<lambda>c. c = SLASH) path"
  assume sk: "skipelem path name = Some (rest, name')"
  have s: "s = dropWhile (\<lambda>c. c = SLASH) path" by (rule s_def)
  have "skipelem path name = (if s = [] then None
      else Some (dropWhile (\<lambda>c. c = SLASH) (dropWhile (\<lambda>c. c \<noteq> SLASH) s),
        store_elem (takeWhile (\<lambda>c. c \<noteq> SLASH) s) name))"
    by (simp only: skipelem_def Let_def s_def)
  from sk [unfolded this] have "(if s = [] then None
      else Some (dropWhile (\<lambda>c. c = SLASH) (dropWhile (\<lambda>c. c \<noteq> SLASH) s),
        store_elem (takeWhile (\<lambda>c. c \<noteq> SLASH) s) name)) = Some (rest, name')" .
  then have ne: "s \<noteq> []"
    and r: "rest = dropWhile (\<lambda>c. c = SLASH) (dropWhile (\<lambda>c. c \<noteq> SLASH) s)"
    by (simp_all only: option.simps prod.inject not_False_eq_True split: if_split_asm)
  have "hd s \<noteq> SLASH" using hd_dropWhile [of "\<lambda>c. c = SLASH" path] ne unfolding s_def by blast
  then have "length (dropWhile (\<lambda>c. c \<noteq> SLASH) s) < length s"
    using ne by (cases s) (auto intro: le_imp_less_Suc length_dropWhile_le)
  moreover have "length s \<le> length path" by (simp add: s length_dropWhile_le)
  moreover have "length rest \<le> length (dropWhile (\<lambda>c. c \<noteq> SLASH) s)"
    by (simp add: r length_dropWhile_le)
  ultimately show ?thesis by linarith
qed

function namex_loop :: "int \<Rightarrow> bool \<Rightarrow> uchar list \<Rightarrow> uchar list \<Rightarrow> nat \<Rightarrow> 'a fsys_scheme
    \<Rightarrow> ((nat \<times> uchar list) option \<times> 'a fsys_scheme) kres" where
  "namex_loop pid par path name ip s =
     (case skipelem path name of
        None \<Rightarrow> if par then kbind (iput pid ip s) (\<lambda>s1. Ok (None, s1)) else Ok (Some (ip, name), s)
      | Some (rest, name1) \<Rightarrow>
          kbind (ilock pid ip s) (\<lambda>s1.
            if i_type (inode_at s1 ip) \<noteq> T_DIR
            then kbind (iunlockput pid ip s1) (\<lambda>s2. Ok (None, s2))
            else if par \<and> rest = []
            then kbind (iunlock pid ip s1) (\<lambda>s2. Ok (Some (ip, name1), s2))
            else kbind (dirlookup ip name1 s1) (\<lambda>(r, s2).
              case r of
                None \<Rightarrow> kbind (iunlockput pid ip s2) (\<lambda>s3. Ok (None, s3))
              | Some (nxt, _) \<Rightarrow> kbind (iunlockput pid ip s2) (namex_loop pid par rest name1 nxt))))"
  by pat_completeness auto
termination
  by (relation "measure (\<lambda>(pid, par, path, name, ip, s). length path)") (auto dest: skipelem_shorter)

declare namex_loop.simps [simp del]

definition namex :: "int \<Rightarrow> nat \<Rightarrow> uchar list \<Rightarrow> bool \<Rightarrow> uchar list \<Rightarrow> 'a fsys_scheme
    \<Rightarrow> ((nat \<times> uchar list) option \<times> 'a fsys_scheme) kres" where
  "namex pid cwd path par name s =
     (if path \<noteq> [] \<and> hd path = SLASH
      then kbind (iget ROOTDEV ROOTINO s) (\<lambda>(ip, s1). namex_loop pid par path name ip s1)
      else namex_loop pid par path name cwd (idup cwd s))"

definition namei :: "int \<Rightarrow> nat \<Rightarrow> uchar list \<Rightarrow> 'a fsys_scheme \<Rightarrow> (nat option \<times> 'a fsys_scheme) kres" where
  "namei pid cwd path s =
     kbind (namex pid cwd path False (replicate DIRSIZ 0) s) (\<lambda>(r, s1). Ok (map_option fst r, s1))"

definition nameiparent :: "int \<Rightarrow> nat \<Rightarrow> uchar list \<Rightarrow> 'a fsys_scheme
    \<Rightarrow> ((nat \<times> uchar list) option \<times> 'a fsys_scheme) kres" where
  "nameiparent pid cwd path s = namex pid cwd path True (replicate DIRSIZ 0) s"

section \<open>Path names\<close>

text \<open>The components of a path: split at every slash, empty ones dropped.  \<open>copy_name\<close> cuts each
  to the length of a directory entry and pads it.\<close>

fun split_path :: "uchar list \<Rightarrow> uchar list list" where
  "split_path [] = [[]]"
| "split_path (c # cs) =
     (if c = SLASH then [] # split_path cs
      else case split_path cs of e # es \<Rightarrow> (c # e) # es | [] \<Rightarrow> [[c]])"

definition components :: "uchar list \<Rightarrow> uchar list list" where
  "components path = [e \<leftarrow> split_path path. e \<noteq> []]"

fun walk_dirs :: "int \<Rightarrow> uchar list list \<Rightarrow> nat \<Rightarrow> 'a fsys_scheme \<Rightarrow> (nat option \<times> 'a fsys_scheme) kres" where
  "walk_dirs pid [] ip s = Ok (Some ip, s)"
| "walk_dirs pid (e # es) ip s =
     kbind (ilock pid ip s) (\<lambda>s1.
       if i_type (inode_at s1 ip) \<noteq> T_DIR
       then kbind (iunlockput pid ip s1) (\<lambda>s2. Ok (None, s2))
       else kbind (dirlookup ip (copy_name e) s1) (\<lambda>(r, s2).
         case r of
           None \<Rightarrow> kbind (iunlockput pid ip s2) (\<lambda>s3. Ok (None, s3))
         | Some (nxt, _) \<Rightarrow> kbind (iunlockput pid ip s2) (walk_dirs pid es nxt)))"

lemma split_path_not_Nil [simp]: "split_path p \<noteq> []"
  by (induction p) (auto split: list.splits)

lemma split_path_word:
  "split_path p = takeWhile (\<lambda>c. c \<noteq> SLASH) p #
     (case dropWhile (\<lambda>c. c \<noteq> SLASH) p of [] \<Rightarrow> [] | c # cs \<Rightarrow> split_path cs)"
  by (induction p) (auto split: list.splits)

lemma components_slash [simp]: "components (SLASH # p) = components p"
  by (simp add: components_def)

lemma components_skip: "components (dropWhile (\<lambda>c. c = SLASH) p) = components p"
  by (induction p) auto

lemma components_Nil [simp]: "components [] = []"
  by (simp add: components_def)

lemma components_word:
  assumes "p \<noteq> []" "hd p \<noteq> SLASH"
  shows "components p = takeWhile (\<lambda>c. c \<noteq> SLASH) p # components (dropWhile (\<lambda>c. c \<noteq> SLASH) p)"
proof -
  have t: "takeWhile (\<lambda>c. c \<noteq> SLASH) p \<noteq> []" using assms by (cases p) auto
  have "components (dropWhile (\<lambda>c. c \<noteq> SLASH) p) =
      [e \<leftarrow> (case dropWhile (\<lambda>c. c \<noteq> SLASH) p of [] \<Rightarrow> [] | c # cs \<Rightarrow> split_path cs). e \<noteq> []]"
  proof (cases "dropWhile (\<lambda>c. c \<noteq> SLASH) p")
    case (Cons c cs)
    then have "c = SLASH" using hd_dropWhile [of "\<lambda>c. c \<noteq> SLASH" p] by simp
    with Cons show ?thesis by (simp add: components_def)
  next
    case Nil
    show ?thesis by (simp only: Nil list.case filter.simps components_Nil)
  qed
  with t show ?thesis
    by (simp only: components_def split_path_word [of p]) simp
qed

lemma skipelem_cases:
  fixes path :: "uchar list"
  defines "s \<equiv> dropWhile (\<lambda>c. c = SLASH) path"
  shows "s = [] \<Longrightarrow> skipelem path name = None \<and> components path = []"
    and "s \<noteq> [] \<Longrightarrow> skipelem path name =
      Some (dropWhile (\<lambda>c. c = SLASH) (dropWhile (\<lambda>c. c \<noteq> SLASH) s),
            store_elem (takeWhile (\<lambda>c. c \<noteq> SLASH) s) name)"
    and "s \<noteq> [] \<Longrightarrow> components path = takeWhile (\<lambda>c. c \<noteq> SLASH) s #
        components (dropWhile (\<lambda>c. c = SLASH) (dropWhile (\<lambda>c. c \<noteq> SLASH) s))"
proof -
  show "s = [] \<Longrightarrow> skipelem path name = None \<and> components path = []"
    using components_skip [of path] by (simp add: skipelem_def s_def [symmetric])
  show "s \<noteq> [] \<Longrightarrow> skipelem path name =
      Some (dropWhile (\<lambda>c. c = SLASH) (dropWhile (\<lambda>c. c \<noteq> SLASH) s),
            store_elem (takeWhile (\<lambda>c. c \<noteq> SLASH) s) name)"
    by (simp only: skipelem_def Let_def s_def [symmetric] if_False)
  assume ne: "s \<noteq> []"
  have "hd s \<noteq> SLASH"
    using hd_dropWhile [of "\<lambda>c. c = SLASH" path] ne unfolding s_def by blast
  from components_word [OF ne this] components_skip [of path, folded s_def]
  show "components path = takeWhile (\<lambda>c. c \<noteq> SLASH) s #
        components (dropWhile (\<lambda>c. c = SLASH) (dropWhile (\<lambda>c. c \<noteq> SLASH) s))"
    by (simp only: components_skip)
qed

lemma namecmp_loop_end:
  "0 \<notin> set e \<Longrightarrow> namecmp_loop (e @ 0 # r) t = namecmp_loop (e @ 0 # r') t"
proof (induction e arbitrary: t)
  case Nil
  show ?case by (cases t) auto
next
  case (Cons x e)
  then show ?case by (cases t) auto
qed

lemma takeWhile_nonzero: "0 \<notin> set e \<Longrightarrow> takeWhile (\<lambda>c. c \<noteq> (0 :: uchar)) (take n e) = take n e"
  by (auto simp: takeWhile_eq_all_conv dest: in_set_takeD)

lemma namecmp_store:
  assumes "0 \<notin> set e"
  shows "namecmp (store_elem e name) t = namecmp (copy_name e) t"
proof (cases "DIRSIZ \<le> length e")
  case True
  then show ?thesis by (simp add: namecmp_def store_elem_def copy_name_def takeWhile_nonzero [OF assms])
next
  case False
  define j where "j = DIRSIZ - Suc (length e)"
  have tw: "takeWhile (\<lambda>c. c \<noteq> 0) e = e"
    using takeWhile_nonzero [OF assms, of "length e"] by (simp only: take_all order_refl)
  have j: "DIRSIZ - length e = Suc j" "DIRSIZ = length e + Suc j" using False by (auto simp: j_def)
  have "take DIRSIZ (store_elem e name) = e @ 0 # take j (drop (Suc (length e)) name)"
    using False by (simp only: store_elem_def if_False j(2) take_append) simp
  moreover have "take DIRSIZ (copy_name e) = e @ 0 # replicate j 0"
    using False by (simp add: copy_name_def Let_def tw j(1) del: takeWhile_eq_all_conv)
  ultimately show ?thesis
    using namecmp_loop_end [OF assms] unfolding namecmp_def by metis
qed

lemma dirlookup_cong:
  assumes "\<And>t. namecmp n1 t = namecmp n2 t"
  shows "dirlookup dp n1 s = dirlookup dp n2 s"
proof -
  have "dirlookup_loop dp n1 off k s = dirlookup_loop dp n2 off k s" for off k and s :: "'a fsys_scheme"
    by (induction k arbitrary: off s) (simp_all add: assms split_def cong: if_cong)
  then show ?thesis by (simp add: dirlookup_def)
qed

lemma set_dropWhileD: "x \<in> set (dropWhile P xs) \<Longrightarrow> x \<in> set xs"
  by (induction xs) (auto split: if_splits)

lemma namex_loop_walks:
  "0 \<notin> set path \<Longrightarrow>
   kbind (namex_loop pid False path name ip s) (\<lambda>(r, s1). Ok (map_option fst r, s1)) =
   walk_dirs pid (components path) ip s"
proof (induction pid "False" path name ip s rule: namex_loop.induct)
  case (1 pid path name ip s)
  show ?case
  proof (cases "dropWhile (\<lambda>c. c = SLASH) path = []")
    case True
    then show ?thesis
      using skipelem_cases(1) [OF True, of name] by (simp add: namex_loop.simps [of pid False path])
  next
    case False
    define e where "e = takeWhile (\<lambda>c. c \<noteq> SLASH) (dropWhile (\<lambda>c. c = SLASH) path)"
    define rest where "rest = dropWhile (\<lambda>c. c = SLASH) (dropWhile (\<lambda>c. c \<noteq> SLASH)
      (dropWhile (\<lambda>c. c = SLASH) path))"
    have sk: "skipelem path name = Some (rest, store_elem e name)"
      using skipelem_cases(2) [OF False] by (simp only: e_def rest_def)
    have comp: "components path = e # components rest"
      using skipelem_cases(3) [OF False] by (simp only: e_def rest_def)
    have e0: "0 \<notin> set e"
      using 1(2) unfolding e_def by (blast dest: set_takeWhileD set_dropWhileD)
    have r0: "0 \<notin> set rest"
      using 1(2) unfolding rest_def by (blast dest: set_dropWhileD)
    have look: "dirlookup ip (store_elem e name) t = dirlookup ip (copy_name e) t" for t :: "'a fsys_scheme"
      by (rule dirlookup_cong, rule namecmp_store [OF e0])
    show ?thesis
    proof (cases "ilock pid ip s")
      case (Ok s1)
      show ?thesis
      proof (cases "i_type (inode_at s1 ip) \<noteq> T_DIR")
        case True
        with Ok sk comp show ?thesis
          by (cases "iunlockput pid ip s1") (simp_all add: namex_loop.simps [of pid False path])
      next
        case dir: False
        show ?thesis
        proof (cases "dirlookup ip (copy_name e) s1")
          case look1: (Ok a)
          obtain r s2 where a: "a = (r, s2)" by (cases a)
          show ?thesis
          proof (cases r)
            case None
            with Ok sk comp dir look look1 a show ?thesis
              by (cases "iunlockput pid ip s2") (simp_all add: namex_loop.simps [of pid False path])
          next
            case (Some q)
            obtain nxt o1 where q: "q = (nxt, o1)" by (cases q)
            show ?thesis
            proof (cases "iunlockput pid ip s2")
              case un: (Ok s3)
              have "kbind (namex_loop pid False rest (store_elem e name) nxt s3)
                  (\<lambda>(r, s1). Ok (map_option fst r, s1)) = walk_dirs pid (components rest) nxt s3"
                by (rule 1(1) [OF sk refl dir _ Some q [symmetric] r0]) simp_all
              with Ok sk comp dir look look1 a Some q un show ?thesis
                by (simp add: namex_loop.simps [of pid False path])
            qed (use Ok sk comp dir look look1 a Some q in
                 \<open>simp_all add: namex_loop.simps [of pid False path]\<close>)
          qed
        qed (use Ok sk comp dir look in \<open>simp_all add: namex_loop.simps [of pid False path]\<close>)
      qed
    qed (use sk comp in \<open>simp_all add: namex_loop.simps [of pid False path]\<close>)
  qed
qed

text \<open>C11: \<open>namei\<close> resolves a path by walking its components: the maximal runs of characters
  other than the slash, in order, each cut to \<open>DIRSIZ\<close> bytes, starting at the root directory when
  the path begins with a slash and at the current directory otherwise.  Repeated, leading and
  trailing slashes do not matter.\<close>

theorem namei_walks_components:
  assumes "0 \<notin> set path"
  shows "namei pid cwd path s =
    (if path \<noteq> [] \<and> hd path = SLASH
     then kbind (iget ROOTDEV ROOTINO s) (\<lambda>(ip, s1). walk_dirs pid (components path) ip s1)
     else walk_dirs pid (components path) cwd (idup cwd s))"
proof (cases "path \<noteq> [] \<and> hd path = SLASH")
  case True
  show ?thesis
    unfolding namei_def namex_def if_P [OF True] kbind_assoc
    by (intro arg_cong2 [where f = kbind] refl) (auto simp: namex_loop_walks [OF assms])
next
  case False
  show ?thesis
    unfolding namei_def namex_def if_not_P [OF False] by (rule namex_loop_walks [OF assms])
qed

theorem namei_walks_components_witness:
  "(\<lambda>s :: fsys. namei 7 0 [47, 97, 47, 47, 98, 47] s) =
   (\<lambda>s. kbind (iget ROOTDEV ROOTINO s) (\<lambda>(ip, s1). walk_dirs 7 [[97], [98]] ip s1))"
  by (rule ext, subst namei_walks_components) (simp_all add: components_def)

section \<open>Reading and writing mapped files\<close>

text \<open>The block of a file's \<open>bn\<close>-th part, for the part of the map that fits \<open>addrs\<close>.\<close>

definition block_of :: "'a fsys_scheme \<Rightarrow> nat \<Rightarrow> nat \<Rightarrow> nat" where
  "block_of s ip bn =
     (if bn < NDIRECT then unat (i_addrs (inode_at s ip) ! bn)
      else unat (get32 (blk s (unat (i_addrs (inode_at s ip) ! NDIRECT))) (4 * (bn - NDIRECT))))"

definition valid_block :: "nat \<Rightarrow> bool" where
  "valid_block b \<longleftrightarrow> 0 < b \<and> b < FSSIZE"

text \<open>The blocks \<open>0 .. n-1\<close> of the file are there.\<close>

definition file_mapped :: "'a fsys_scheme \<Rightarrow> nat \<Rightarrow> nat \<Rightarrow> bool" where
  "file_mapped s ip n \<longleftrightarrow> n \<le> NDIRECT + NINDIRECT \<and> (\<forall>bn<n. valid_block (block_of s ip bn)) \<and>
     (NDIRECT < n \<longrightarrow> valid_block (unat (i_addrs (inode_at s ip) ! NDIRECT)))"

definition file_byte :: "'a fsys_scheme \<Rightarrow> nat \<Rightarrow> nat \<Rightarrow> uchar" where
  "file_byte s ip k = blk s (block_of s ip (k div BSIZE)) (k mod BSIZE)"

lemma held_same [simp]: "s\<lparr>held := held s\<rparr> = s"
  by simp

lemma bread_ok:
  "b < FSSIZE \<Longrightarrow> held s = {} \<Longrightarrow> fs_bread b s = Ok (blk s b, s\<lparr>held := {b}\<rparr>)"
  by (simp add: fs_bread_def tx_read_def)

lemma brelse_ok: "held s = {b} \<Longrightarrow> fs_brelse b s = Ok (s\<lparr>held := {}\<rparr>)"
  by (simp add: fs_brelse_def tx_release_def)

lemma unheld: "held s = {} \<Longrightarrow> s\<lparr>held := {}\<rparr> = s"
  by (metis held_same)

lemma bread_brelse:
  "b < FSSIZE \<Longrightarrow> held s = {} \<Longrightarrow> kbind (fs_bread b s) (\<lambda>(x, s1). kbind (fs_brelse b s1) (f x)) = f (blk s b) s"
  by (simp add: bread_ok brelse_ok unheld)

lemma bmap_mapped:
  assumes "file_mapped s ip n" "bn < n" "held s = {}"
  shows "bmap ip bn s = Ok (block_of s ip bn, s)"
proof (cases "bn < NDIRECT")
  case True
  with assms have "i_addrs (inode_at s ip) ! bn \<noteq> 0"
    by (auto simp: file_mapped_def valid_block_def block_of_def dest!: spec [of _ bn])
  with True show ?thesis by (simp add: bmap_def addr_or_alloc_def read_addr_def block_of_def)
next
  case False
  let ?a = "i_addrs (inode_at s ip) ! NDIRECT"
  have bn: "bn - NDIRECT < NINDIRECT" using assms(1,2) False unfolding file_mapped_def by linarith
  have a: "0 < unat ?a" "unat ?a < FSSIZE" using assms False
    by (auto simp: file_mapped_def valid_block_def)
  then have a0: "?a \<noteq> 0" by auto
  let ?e = "get32 (blk s (unat ?a)) (4 * (bn - NDIRECT))"
  have "0 < unat ?e" using assms False
    by (auto simp: file_mapped_def valid_block_def block_of_def dest!: spec [of _ bn])
  then have e0: "?e \<noteq> 0" by auto
  have "indirect_or_alloc (unat ?a) (bn - NDIRECT) s = Ok (unat ?e, s)"
    unfolding indirect_or_alloc_def bread_ok [OF a(2) assms(3)]
    using e0 by (simp add: brelse_ok unheld [OF assms(3)])
  then show ?thesis
    using False bn a0
    by (simp only: bmap_def addr_or_alloc_def read_addr_def block_of_def if_False if_True kbind.simps
        order_refl prod.case)
qed

lemma bytes_of_map: "bytes_of b off n = map (\<lambda>i. b (off + i)) [0..<n]"
  by (induction n arbitrary: off) (auto simp: upt_conv_Cons map_Suc_upt [symmetric] simp del: upt_Suc)

lemma put_list_at:
  "put_list xs off b = (\<lambda>i. if off \<le> i \<and> i < off + length xs then xs ! (i - off) else b i)"
proof (induction xs arbitrary: off b)
  case (Cons x xs)
  show ?case
  proof (rule ext)
    fix i
    show "put_list (x # xs) off b i =
        (if off \<le> i \<and> i < off + length (x # xs) then (x # xs) ! (i - off) else b i)"
      by (cases "i = off") (auto simp: Cons.IH Suc_diff_le nth_Cons')
  qed
qed (auto simp: fun_eq_iff)

lemma div_mod_split: "r < (b :: nat) \<Longrightarrow> (q * b + r) div b = q \<and> (q * b + r) mod b = r"
  by simp

lemma same_block:
  assumes "i < BSIZE - off mod BSIZE"
  shows "(off + i) div BSIZE = off div BSIZE \<and> (off + i) mod BSIZE = off mod BSIZE + i"
proof -
  have "off mod BSIZE + i < BSIZE" using assms by linarith
  from div_mod_split [OF this, of "off div BSIZE"] show ?thesis
    by (simp only: add.assoc [symmetric] div_mult_mod_eq)
qed

lemma chunk_bytes:
  assumes "m \<le> BSIZE - off mod BSIZE"
  shows "bytes_of (blk s (block_of s ip (off div BSIZE))) (off mod BSIZE) m =
    map (file_byte s ip) [off..<off + m]"
proof -
  have "(off + i) div BSIZE = off div BSIZE \<and> (off + i) mod BSIZE = off mod BSIZE + i" if "i < m" for i
    using that assms by (intro same_block) simp
  then show ?thesis
    by (auto simp: bytes_of_map file_byte_def intro!: nth_equalityI)
qed

text \<open>The blocks covering the bytes before \<open>e\<close>.\<close>

abbreviation blocks_to :: "nat \<Rightarrow> nat" where
  "blocks_to e \<equiv> (e + (BSIZE - 1)) div BSIZE"

lemma block_below: "off < e \<Longrightarrow> off div BSIZE < blocks_to e"
proof -
  assume "off < e"
  moreover have "(e + (BSIZE - 1)) mod BSIZE < BSIZE" by simp
  moreover have "(e + (BSIZE - 1)) div BSIZE * BSIZE + (e + (BSIZE - 1)) mod BSIZE = e + (BSIZE - 1)"
    by (rule div_mult_mod_eq)
  ultimately have "off < blocks_to e * BSIZE" by linarith
  then show ?thesis by (subst div_less_iff_less_mult) simp_all
qed

lemma readi_loop_mapped:
  assumes "file_mapped s ip k" "held s = {}" "blocks_to (off + n) \<le> k"
  shows "readi_loop ip off n s = Ok (map (file_byte s ip) [off..<off + n], s)"
  using assms
proof (induction ip off n s rule: readi_loop.induct)
  case (1 ip off n s)
  show ?case
  proof (cases "n = 0")
    case True
    then show ?thesis by (simp add: readi_loop.simps [of ip off 0 s])
  next
    case False
    define m where "m = min n (BSIZE - off mod BSIZE)"
    have "off mod BSIZE < BSIZE" by simp
    with False have m: "0 < m" "m \<le> n" "m \<le> BSIZE - off mod BSIZE" by (auto simp: m_def)
    have lt: "off div BSIZE < k" using block_below [of off "off + n"] False 1(4) by simp
    have vb: "block_of s ip (off div BSIZE) < FSSIZE"
      using 1(2) lt by (auto simp: file_mapped_def valid_block_def)
    have IH: "readi_loop ip (off + m) (n - m) s = Ok (map (file_byte s ip) [off + m..<off + n], s)"
      using 1(1) [OF False m_def 1(2,3)] 1(4) m by simp
    have "readi_loop ip off n s = Ok (bytes_of (blk s (block_of s ip (off div BSIZE))) (off mod BSIZE) m @
        map (file_byte s ip) [off + m..<off + n], s)"
      using False by (simp add: readi_loop.simps [of ip off n s] m_def [symmetric] Let_def
          bmap_mapped [OF 1(2) lt 1(3)] bread_ok [OF vb 1(3)] brelse_ok unheld [OF 1(3)] IH)
    moreover have app: "[off..<off + n] = [off..<off + m] @ [off + m..<off + n]"
      using m upt_add_eq_append [of off "off + m" "n - m"] by simp
    have "bytes_of (blk s (block_of s ip (off div BSIZE))) (off mod BSIZE) m @
        map (file_byte s ip) [off + m..<off + n] = map (file_byte s ip) [off..<off + n]"
      by (simp only: chunk_bytes [OF m(3)] app map_append)
    ultimately show ?thesis by simp
  qed
qed

text \<open>No two parts of the file share a block, and the indirect block is none of them.\<close>

definition file_private :: "'a fsys_scheme \<Rightarrow> nat \<Rightarrow> nat \<Rightarrow> bool" where
  "file_private s ip n \<longleftrightarrow> inj_on (block_of s ip) {..<n} \<and>
     (NDIRECT < n \<longrightarrow> unat (i_addrs (inode_at s ip) ! NDIRECT) \<notin> block_of s ip ` {..<n})"

text \<open>Room for \<open>n\<close> more blocks in the running transaction.\<close>

definition log_room :: "'a fsys_scheme \<Rightarrow> nat \<Rightarrow> bool" where
  "log_room s n \<longleftrightarrow> length (lh s) + n \<le> LOGSIZE \<and> int (length (lh s) + n) \<le> int (log_size s) - 1 \<and>
     1 \<le> outstanding s"

lemma log_room_step:
  "log_room s (Suc j) \<Longrightarrow> length (lh s1) \<le> Suc (length (lh s)) \<Longrightarrow> log_size s1 = log_size s \<Longrightarrow>
   outstanding s1 = outstanding s \<Longrightarrow> log_room s1 j"
  by (auto simp: log_room_def)

lemma log_write_room:
  assumes "log_room s (Suc n)"
  obtains l where "log_write b s = Ok (s\<lparr>lh := l, pinned := insert b (pinned s)\<rparr>)"
    "length l \<le> Suc (length (lh s))" "set l = insert b (set (lh s))"
proof -
  define l where "l = (case scan (\<lambda>i. lh s ! i = b) 0 (length (lh s)) of
      Some i \<Rightarrow> (lh s)[i := b] | None \<Rightarrow> lh s @ [b])"
  have "log_write b s = Ok (s\<lparr>lh := l, pinned := insert b (pinned s)\<rparr>)"
    using assms by (simp add: log_write_def log_room_def l_def)
  moreover have "length l \<le> Suc (length (lh s)) \<and> set l = insert b (set (lh s))"
  proof (cases "scan (\<lambda>i. lh s ! i = b) 0 (length (lh s))")
    case None
    then show ?thesis by (simp add: l_def)
  next
    case (Some i)
    then have i: "lh s ! i = b" "i < length (lh s)" using scan_SomeD by fastforce+
    then have "l = lh s" using Some list_update_id [of "lh s" i] by (simp add: l_def)
    moreover have "b \<in> set (lh s)" using i nth_mem by metis
    ultimately show ?thesis by auto
  qed
  ultimately show ?thesis using that by blast
qed

lemma block_of_frame:
  assumes "icache s1 = icache s" "bn < n" "n \<le> k" "file_mapped s ip k" "file_private s ip k"
    "\<And>b. b \<notin> block_of s ip ` {..<k} \<Longrightarrow> blk s1 b = blk s b"
  shows "block_of s1 ip bn = block_of s ip bn"
  using assms by (auto simp: block_of_def inode_at_def file_private_def)

lemma chunk_write:
  assumes m: "file_mapped s ip k" "file_private s ip k" and lt: "off div BSIZE < k"
    and c: "length bs \<le> BSIZE - off mod BSIZE"
    and s1: "icache s1 = icache s"
      "blk s1 = (blk s)(block_of s ip (off div BSIZE) :=
        put_list bs (off mod BSIZE) (blk s (block_of s ip (off div BSIZE))))"
    and j: "j div BSIZE < k"
  shows "file_byte s1 ip j =
    (if off \<le> j \<and> j < off + length bs then bs ! (j - off) else file_byte s ip j)"
proof -
  have b: "block_of s1 ip (j div BSIZE) = block_of s ip (j div BSIZE)"
    by (rule block_of_frame [OF s1(1) j order_refl m]) (use lt s1(2) in auto)
  show ?thesis
  proof (cases "j div BSIZE = off div BSIZE")
    case True
    have j: "off div BSIZE * BSIZE + j mod BSIZE = j" using div_mult_mod_eq [of j BSIZE] True by simp
    have o: "off div BSIZE * BSIZE + off mod BSIZE = off" by (rule div_mult_mod_eq)
    have "off mod BSIZE \<le> j mod BSIZE \<longleftrightarrow> off \<le> j" "j mod BSIZE - off mod BSIZE = j - off"
      "j mod BSIZE < off mod BSIZE + length bs \<longleftrightarrow> j < off + length bs"
      using j o by linarith+
    then show ?thesis by (simp add: file_byte_def b [unfolded True] True s1(2) put_list_at)
  next
    case False
    have "\<not> (off \<le> j \<and> j < off + length bs)"
    proof
      assume a: "off \<le> j \<and> j < off + length bs"
      then have "j - off < BSIZE - off mod BSIZE" using c by linarith
      from same_block [OF this] a False show False by simp
    qed
    moreover have "block_of s ip (j div BSIZE) \<noteq> block_of s ip (off div BSIZE)"
      using m(2) j lt False by (auto simp: file_private_def dest: inj_onD)
    ultimately show ?thesis by (auto simp: file_byte_def b s1(2))
  qed
qed

lemma writei_loop_mapped:
  assumes "file_mapped s ip k" "file_private s ip k" "held s = {}"
    "blocks_to (off + length src) \<le> k" "log_room s (blocks_to (off + length src) - off div BSIZE)"
  shows "\<exists>b' l p. writei_loop ip off src s = Ok (s\<lparr>blk := b', lh := l, pinned := p\<rparr>) \<and>
    length l \<le> length (lh s) + (blocks_to (off + length src) - off div BSIZE) \<and> set (lh s) \<subseteq> set l \<and>
    (\<forall>b. b' b \<noteq> blk s b \<longrightarrow> b \<in> set l \<and> b \<in> block_of s ip ` {..<k}) \<and>
    (\<forall>j. j div BSIZE < k \<longrightarrow> file_byte (s\<lparr>blk := b'\<rparr>) ip j =
       (if off \<le> j \<and> j < off + length src then src ! (j - off) else file_byte s ip j))"
  using assms
proof (induction ip off src s rule: writei_loop.induct)
  case (1 ip off src s)
  let ?n = "blocks_to (off + length src) - off div BSIZE"
  show ?case
  proof (cases "src = []")
    case True
    then have "writei_loop ip off src s = Ok (s\<lparr>blk := blk s, lh := lh s, pinned := pinned s\<rparr>)"
      by (simp add: writei_loop.simps [of ip off "[]" s])
    with True show ?thesis by (intro exI [of _ "blk s"] exI [of _ "lh s"] exI [of _ "pinned s"]) auto
  next
    case False
    define m where "m = min (length src) (BSIZE - off mod BSIZE)"
    define a where "a = block_of s ip (off div BSIZE)"
    define b1 where "b1 = (blk s)(a := put_list (take m src) (off mod BSIZE) (blk s a))"
    have "off mod BSIZE < BSIZE" by simp
    with False have m: "0 < m" "m \<le> length src" "m \<le> BSIZE - off mod BSIZE" by (auto simp: m_def)
    have lt0: "off div BSIZE < blocks_to (off + length src)"
      using block_below [of off "off + length src"] False by simp
    then have lt: "off div BSIZE < k" using 1(5) by simp
    have n0: "?n = Suc (?n - 1)" using lt0 by simp
    have vb: "a < FSSIZE" using 1(2) lt by (auto simp: a_def file_mapped_def valid_block_def)
    have room: "log_room (s\<lparr>held := {a}, blk := b1\<rparr>) (Suc (?n - 1))"
      using 1(6) n0 by (simp add: log_room_def)
    from log_write_room [OF room, of a] obtain l where
      l: "log_write a (s\<lparr>held := {a}, blk := b1\<rparr>) =
        Ok (s\<lparr>held := {a}, blk := b1, lh := l, pinned := insert a (pinned s)\<rparr>)"
      "length l \<le> Suc (length (lh s))" "set l = insert a (set (lh s))" by auto
    let ?s1 = "s\<lparr>blk := b1, lh := l, pinned := insert a (pinned s)\<rparr>"
    have h1: "held ?s1 = {}" using 1(4) by simp
    have step: "writei_loop ip off src s = writei_loop ip (off + m) (drop m src) ?s1"
      using False by (simp add: writei_loop.simps [of ip off src s] m_def [symmetric] Let_def
          bmap_mapped [OF 1(2) lt 1(4)] a_def [symmetric] bread_ok [OF vb 1(4)] tx_put_def
          b1_def [symmetric] l(1) brelse_ok unheld [OF h1])
    have lenb: "length (take m src) = m" using m by simp
    have fb1: "file_byte ?s1 ip j =
        (if off \<le> j \<and> j < off + m then src ! (j - off) else file_byte s ip j)" if "j div BSIZE < k" for j
    proof -
      have "length (take m src) \<le> BSIZE - off mod BSIZE" using m lenb by simp
      from chunk_write [OF 1(2,3) lt this, of ?s1, OF _ _ that]
      have "file_byte ?s1 ip j = (if off \<le> j \<and> j < off + length (take m src)
          then take m src ! (j - off) else file_byte s ip j)"
        by (simp add: b1_def a_def)
      then show ?thesis unfolding lenb by auto
    qed
    have fr1: "b1 b \<noteq> blk s b \<Longrightarrow> b \<in> set l \<and> b \<in> block_of s ip ` {..<k}" for b
      using lt l(3) by (auto simp: b1_def a_def split: if_splits)
    show ?thesis
    proof (cases "m = length src")
      case True
      have "writei_loop ip off src s = Ok ?s1"
        unfolding step using True by (simp add: writei_loop.simps [of ip _ "[]"])
      moreover have "file_byte (s\<lparr>blk := b1\<rparr>) ip j = file_byte ?s1 ip j" for j
        by (simp add: file_byte_def block_of_def inode_at_def)
      ultimately show ?thesis
        using fb1 fr1 True l(2,3) n0
        by (intro exI [of _ b1] exI [of _ l] exI [of _ "insert a (pinned s)"]) auto
    next
      case mB: False
      then have mB: "m = BSIZE - off mod BSIZE" "m < length src" using m by (auto simp: m_def)
      have "off + m = Suc (off div BSIZE) * BSIZE"
        using div_mult_mod_eq [of off BSIZE] \<open>off mod BSIZE < BSIZE\<close> unfolding mB(1) mult_Suc by linarith
      then have dv: "(off + m) div BSIZE = Suc (off div BSIZE)" by (simp del: mult_Suc)
      have ends: "off + m + length (drop m src) = off + length src" using m by simp
      have bo: "block_of ?s1 ip bn = block_of s ip bn" if "bn < k" for bn
        by (rule block_of_frame [OF _ that order_refl 1(2,3)]) (use fr1 in auto)
      have ia: "inode_at ?s1 ip = inode_at s ip" by (simp add: inode_at_def)
      have fm: "file_mapped ?s1 ip k" using 1(2) bo by (simp add: file_mapped_def ia)
      have im: "block_of ?s1 ip ` {..<k} = block_of s ip ` {..<k}" using bo by (auto simp: image_iff)
      have fp: "file_private ?s1 ip k" using 1(3) bo im inj_on_cong [of "{..<k}" "block_of ?s1 ip" "block_of s ip"]
        by (simp add: file_private_def ia)
      have rm: "log_room ?s1 (blocks_to (off + m + length (drop m src)) - (off + m) div BSIZE)"
      proof -
        have r: "log_room s (Suc (?n - 1))" using 1(6) n0 by simp
        have "log_room ?s1 (?n - 1)" by (rule log_room_step [OF r]) (use l(2) in auto)
        moreover have "?n - 1 = blocks_to (off + length src) - Suc (off div BSIZE)" by linarith
        ultimately show ?thesis unfolding ends dv by simp
      qed
      have bt: "blocks_to (off + m + length (drop m src)) \<le> k" unfolding ends by (rule 1(5))
      from 1(1) [OF False m_def fm fp h1 bt rm] obtain b' l' p where
        r: "writei_loop ip (off + m) (drop m src) ?s1 = Ok (?s1\<lparr>blk := b', lh := l', pinned := p\<rparr>)"
        "length l' \<le> length l + (blocks_to (off + length src) - Suc (off div BSIZE))" "set l \<subseteq> set l'"
        "\<And>b. b' b \<noteq> b1 b \<Longrightarrow> b \<in> set l' \<and> b \<in> block_of s ip ` {..<k}"
        "\<And>j. j div BSIZE < k \<Longrightarrow> file_byte (?s1\<lparr>blk := b'\<rparr>) ip j =
           (if off + m \<le> j \<and> j < off + length src then drop m src ! (j - (off + m)) else file_byte ?s1 ip j)"
        unfolding ends dv im by auto
      have "writei_loop ip off src s = Ok (s\<lparr>blk := b', lh := l', pinned := p\<rparr>)"
        unfolding step r(1) by simp
      moreover have "length l' \<le> length (lh s) + ?n" using r(2) l(2) lt0 by linarith
      moreover have "set (lh s) \<subseteq> set l'" using r(3) l(3) by auto
      moreover have "b \<in> set l' \<and> b \<in> block_of s ip ` {..<k}" if "b' b \<noteq> blk s b" for b
        using that r(3) r(4) [of b] fr1 [of b] by (cases "b' b = b1 b") auto
      moreover have "file_byte (s\<lparr>blk := b'\<rparr>) ip j =
          (if off \<le> j \<and> j < off + length src then src ! (j - off) else file_byte s ip j)"
        if j: "j div BSIZE < k" for j
      proof -
        have "file_byte (s\<lparr>blk := b'\<rparr>) ip j = file_byte (?s1\<lparr>blk := b'\<rparr>) ip j"
          by (simp add: file_byte_def block_of_def inode_at_def)
        then show ?thesis using r(5) [OF j] fb1 [OF j] mB(2) by auto
      qed
      ultimately show ?thesis by blast
    qed
  qed
qed

subsection \<open>Reading and writing whole files\<close>

abbreviation file_size :: "'a fsys_scheme \<Rightarrow> nat \<Rightarrow> nat" where
  "file_size s ip \<equiv> unat (i_size (inode_at s ip))"

lemma mapped_small: "file_mapped s ip k \<Longrightarrow> blocks_to e \<le> k \<Longrightarrow> e \<le> 1069056"
proof -
  assume "file_mapped s ip k" "blocks_to e \<le> k"
  then have "blocks_to e \<le> 522" by (simp add: file_mapped_def)
  moreover have "(e + (BSIZE - 1)) mod BSIZE < BSIZE" by simp
  moreover have "blocks_to e * BSIZE + (e + (BSIZE - 1)) mod BSIZE = e + (BSIZE - 1)"
    by (rule div_mult_mod_eq)
  ultimately show ?thesis by linarith
qed

lemma unat_plus_small:
  "unat (a :: uint) + unat b < 4294967296 \<Longrightarrow> unat (a + b) = unat a + unat b"
  by (simp add: unat_word_ariths)

text \<open>\<open>readi\<close> on a file whose blocks are mapped returns exactly the bytes of the file from
  \<open>off\<close> on, cut at the end of the file, and changes nothing.\<close>

theorem readi_reads_file:
  assumes "i_type (inode_at s ip) \<noteq> T_DEV" and "held s = {}"
    and "file_mapped s ip (blocks_to (file_size s ip))"
    and "unat off \<le> file_size s ip" and "unat off + unat n < 4294967296"
  shows "readi ip off n s =
    Ok (int (min (unat n) (file_size s ip - unat off)),
        map (file_byte s ip) [unat off..<min (unat off + unat n) (file_size s ip)], s)"
proof -
  let ?x = "inode_at s ip"
  let ?n = "if i_size ?x < off + n then i_size ?x - off else n"
  have sum: "unat (off + n) = unat off + unat n" by (rule unat_plus_small [OF assms(5)])
  have c1: "\<not> (i_size ?x < off \<or> off + n < off)"
    using assms(4) sum by (simp add: word_less_nat_alt)
  have n': "unat ?n = min (unat n) (file_size s ip - unat off)"
    using assms(4) sum by (auto simp: word_less_nat_alt unat_sub word_le_nat_alt)
  have small: "file_size s ip \<le> 1069056" using mapped_small [OF assms(3)] by simp
  have "unat off + unat ?n \<le> file_size s ip" using n' assms(4) by simp
  then have bt: "blocks_to (unat off + unat ?n) \<le> blocks_to (file_size s ip)"
    by (intro div_le_mono) simp
  have "sint ?n = int (unat ?n)" using n' small by (intro sint_small) simp
  moreover have "unat off + unat ?n = min (unat off + unat n) (file_size s ip)"
    using n' assms(4) by simp
  ultimately show ?thesis
    using readi_loop_mapped [OF assms(3,2) bt] assms(1) c1 n' by (simp add: readi_def Let_def)
qed

lemma put_addrs_low: "i < off \<Longrightarrow> put_addrs as off b i = b i"
  by (induction as arbitrary: off b) (auto simp: put32_other)

lemma put_addrs_high: "off + 4 * length as \<le> i \<Longrightarrow> put_addrs as off b i = b i"
  by (induction as arbitrary: off b) (auto simp: put32_other)

lemma put_addrs_get:
  "j < length as \<Longrightarrow> get32 (put_addrs as off b) (off + 4 * j) = as ! j"
proof (induction as arbitrary: off b j)
  case (Cons a as)
  show ?case
  proof (cases j)
    case 0
    have "get32 (put_addrs as (off + 4) (put32 b off a)) off = get32 (put32 b off a) off"
      by (rule get32_cong) (simp add: put_addrs_low)
    with 0 show ?thesis by simp
  next
    case (Suc i)
    with Cons.IH [of i "off + 4" "put32 b off a"] Cons.prems show ?thesis by (simp add: add.assoc)
  qed
qed simp

text \<open>The fields of an inode that are stored on disk.\<close>

definition same_dinode :: "inode \<Rightarrow> inode \<Rightarrow> bool" where
  "same_dinode x y \<longleftrightarrow> i_type x = i_type y \<and> i_major x = i_major y \<and> i_minor x = i_minor y \<and>
     i_nlink x = i_nlink y \<and> i_size x = i_size y \<and> i_addrs x = i_addrs y"

lemma get16_put16_other: "off + 2 \<le> off' \<or> off' + 2 \<le> off \<Longrightarrow> get16 (put16 b off v) off' = get16 b off'"
  by (rule get16_cong) (auto simp: put16_other)

lemma get16_put32_other: "off + 4 \<le> off' \<or> off' + 2 \<le> off \<Longrightarrow> get16 (put32 b off v) off' = get16 b off'"
  by (rule get16_cong) (auto simp: put32_other)

lemma get16_put_addrs_low: "off' + 2 \<le> off \<Longrightarrow> get16 (put_addrs as off b) off' = get16 b off'"
  by (rule get16_cong) (auto simp: put_addrs_low)

lemma get32_put_addrs_low: "off' + 4 \<le> off \<Longrightarrow> get32 (put_addrs as off b) off' = get32 b off'"
  by (rule get32_cong) (auto simp: put_addrs_low)

text \<open>an inode survives the disk: what \<open>iupdate\<close> stores in an inode block is what \<open>ilock\<close>
  loads from it, and the other inodes of the block are untouched.\<close>

theorem dinode_roundtrip:
  assumes "length (i_addrs x) = 11"
  shows "same_dinode (get_dinode (put_dinode x (ioff i) b) (ioff i) y) x \<and>
    (\<forall>j. j mod IPB \<noteq> i mod IPB \<longrightarrow>
       same_dinode (get_dinode (put_dinode x (ioff i) b) (ioff j) y) (get_dinode b (ioff j) y))"
proof -
  let ?o = "ioff i" and ?b = "put_dinode x (ioff i) b"
  have a: "map (\<lambda>k. get32 ?b (?o + 12 + 4 * k)) [0..<11] = i_addrs x"
  proof (rule nth_equalityI)
    fix k assume "k < length (map (\<lambda>k. get32 ?b (?o + 12 + 4 * k)) [0..<11])"
    then have k: "k < 11" by simp
    then show "map (\<lambda>k. get32 ?b (?o + 12 + 4 * k)) [0..<11] ! k = i_addrs x ! k"
      using assms by (simp add: put_dinode_def put_addrs_get del: upt_Suc)
  qed (simp add: assms)
  have same: "same_dinode (get_dinode ?b ?o y) x"
    using a by (simp add: same_dinode_def get_dinode_def put_dinode_def get16_put_addrs_low get32_put_addrs_low
        get16_put16_other get16_put32_other)
  have outside: "?b p = b p" if "p < ?o \<or> ?o + 56 \<le> p" for p
    using that by (auto simp: put_dinode_def put_addrs_low put_addrs_high put32_other put16_other)
  have "same_dinode (get_dinode ?b (ioff j) y) (get_dinode b (ioff j) y)" if "j mod IPB \<noteq> i mod IPB" for j
  proof -
    have "ioff j + 128 \<le> ioff i \<or> ioff i + 128 \<le> ioff j"
      using that unfolding ioff_def by linarith
    then have "?b p = b p" if "ioff j \<le> p" "p < ioff j + 128" for p
      using that by (intro outside) auto
    then show ?thesis
      unfolding same_dinode_def get_dinode_def
      by (auto intro!: get16_cong get32_cong)
  qed
  with same show ?thesis by blast
qed

lemma iupdate_ok:
  assumes "holdingsleep pid (i_lock (inode_at s ip))" "held s = {}" "log_room s (Suc n)"
    "IBLOCK (i_inum (inode_at s ip)) (sb s) < FSSIZE"
  obtains l p where "iupdate pid ip s = Ok (s\<lparr>blk := (blk s)(IBLOCK (i_inum (inode_at s ip)) (sb s) :=
        put_dinode (inode_at s ip) (ioff (i_inum (inode_at s ip)))
          (blk s (IBLOCK (i_inum (inode_at s ip)) (sb s)))), lh := l, pinned := p\<rparr>)"
    "set l = insert (IBLOCK (i_inum (inode_at s ip)) (sb s)) (set (lh s))"
proof -
  define a where "a = IBLOCK (i_inum (inode_at s ip)) (sb s)"
  define b1 where "b1 = (blk s)(a := put_dinode (inode_at s ip) (ioff (i_inum (inode_at s ip))) (blk s a))"
  have room: "log_room (s\<lparr>held := {a}, blk := b1\<rparr>) (Suc n)"
    using assms(3) by (simp add: log_room_def)
  from log_write_room [OF room, of a] obtain l where
    l: "log_write a (s\<lparr>held := {a}, blk := b1\<rparr>) =
      Ok (s\<lparr>held := {a}, blk := b1, lh := l, pinned := insert a (pinned s)\<rparr>)"
    "set l = insert a (set (lh s))" by auto
  let ?s1 = "s\<lparr>blk := b1, lh := l, pinned := insert a (pinned s)\<rparr>"
  have h1: "held ?s1 = {}" using assms(2) by simp
  have "iupdate pid ip s = Ok ?s1"
    using assms(1) by (simp add: iupdate_def a_def [symmetric] bread_ok [OF assms(4) [folded a_def] assms(2)]
        tx_put_def b1_def [symmetric] l(1) brelse_ok unheld [OF h1])
  with l(2) show ?thesis using that unfolding b1_def a_def by blast
qed

lemma file_byte_update:
  assumes "icache s1 = (icache s)[ip := (inode_at s ip)\<lparr>i_size := sz\<rparr>]" "ip < length (icache s)"
    and "j div BSIZE < k" "file_mapped s ip k"
    and "\<And>b. b \<in> block_of s ip ` {..<k} \<union>
           (if NDIRECT < k then {unat (i_addrs (inode_at s ip) ! NDIRECT)} else {}) \<Longrightarrow> blk s1 b = blk s b"
  shows "file_byte s1 ip j = file_byte s ip j"
proof -
  have ia: "i_addrs (inode_at s1 ip) = i_addrs (inode_at s ip)"
    using assms(1,2) by (simp add: inode_at_def)
  have "block_of s1 ip (j div BSIZE) = block_of s ip (j div BSIZE)"
    using assms(3,5) by (auto simp: block_of_def ia)
  moreover have "block_of s ip (j div BSIZE) \<in> block_of s ip ` {..<k}" using assms(3) by simp
  ultimately show ?thesis using assms(5) by (simp add: file_byte_def)
qed

lemma div_below_blocks: "j < e \<Longrightarrow> blocks_to e \<le> k \<Longrightarrow> j div BSIZE < k"
  using block_below [of j e] by simp

text \<open>What \<open>writei\<close> needs: the blocks up to the end of the write are mapped and belong to this file
  alone, the caller holds the inode's lock, the inode block is none of the file's blocks, and
  the transaction has room for the blocks written and the inode.\<close>

definition write_ready :: "'a fsys_scheme \<Rightarrow> int \<Rightarrow> nat \<Rightarrow> nat \<Rightarrow> nat \<Rightarrow> nat \<Rightarrow> bool" where
  "write_ready s pid ip k off n \<longleftrightarrow>
     i_type (inode_at s ip) \<noteq> T_DEV \<and> ip < length (icache s) \<and> held s = {} \<and>
     off \<le> file_size s ip \<and> blocks_to (max (off + n) (file_size s ip)) \<le> k \<and>
     file_mapped s ip k \<and> file_private s ip k \<and>
     holdingsleep pid (i_lock (inode_at s ip)) \<and>
     (let ib = IBLOCK (i_inum (inode_at s ip)) (sb s) in ib < FSSIZE \<and> ib \<notin> block_of s ip ` {..<k} \<and>
        (NDIRECT < k \<longrightarrow> ib \<noteq> unat (i_addrs (inode_at s ip) ! NDIRECT))) \<and>
     log_room s (Suc (blocks_to (off + n) - off div BSIZE))"

lemma writei_ok:
  assumes ready: "write_ready s pid ip k (unat off) (length src)"
  obtains s' where "writei pid ip src off s = Ok (int (length src), s')"
    "file_size s' ip = max (unat off + length src) (file_size s ip)"
    "i_addrs (inode_at s' ip) = i_addrs (inode_at s ip)" "i_type (inode_at s' ip) = i_type (inode_at s ip)"
    "held s' = {}" "file_mapped s' ip k"
    "\<And>j. j div BSIZE < k \<Longrightarrow> file_byte s' ip j =
       (if unat off \<le> j \<and> j < unat off + length src then src ! (j - unat off) else file_byte s ip j)"
    "\<And>b. blk s' b \<noteq> blk s b \<Longrightarrow> b \<in> set (lh s')"
proof -
  let ?x = "inode_at s ip" and ?n = "of_nat (length src) :: uint" and ?e = "unat off + length src"
  note r = ready [unfolded write_ready_def Let_def]
  have fm: "file_mapped s ip k" and fp: "file_private s ip k" and ipl: "ip < length (icache s)"
    and h: "held s = {}" using r by simp_all
  have bt: "blocks_to (max ?e (file_size s ip)) \<le> k" using r by simp
  have small: "max ?e (file_size s ip) \<le> 1069056" by (rule mapped_small [OF fm bt])
  have n: "unat ?n = length src" using small by (simp add: unat_of_nat take_bit_nat_eq_self)
  have sum: "unat (off + ?n) = ?e" using unat_plus_small [of off ?n] n small by simp
  have sn: "sint ?n = int (length src)" using sint_small [of ?n] n small by simp
  have c1: "\<not> (i_size ?x < off \<or> off + ?n < off)"
    using r sum by (simp add: word_less_nat_alt)
  have c2: "\<not> (of_nat (MAXFILE * BSIZE) < off + ?n)"
    using sum small by (simp add: word_less_nat_alt)
  have bt1: "blocks_to ?e \<le> k"
  proof -
    have "blocks_to ?e \<le> blocks_to (max ?e (file_size s ip))" by (intro div_le_mono) simp
    with bt show ?thesis by linarith
  qed
  have room: "log_room s (blocks_to ?e - unat off div BSIZE)" using r by (simp add: log_room_def)
  obtain b' l p where w: "writei_loop ip (unat off) src s = Ok (s\<lparr>blk := b', lh := l, pinned := p\<rparr>)"
    "length l \<le> length (lh s) + (blocks_to ?e - unat off div BSIZE)" "set (lh s) \<subseteq> set l"
    "\<And>b. b' b \<noteq> blk s b \<Longrightarrow> b \<in> set l \<and> b \<in> block_of s ip ` {..<k}"
    "\<And>j. j div BSIZE < k \<Longrightarrow> file_byte (s\<lparr>blk := b'\<rparr>) ip j =
       (if unat off \<le> j \<and> j < ?e then src ! (j - unat off) else file_byte s ip j)"
    using writei_loop_mapped [OF fm fp h bt1 room] by blast
  let ?s1 = "s\<lparr>blk := b', lh := l, pinned := p\<rparr>"
  have ia: "inode_at ?s1 ip = ?x" by (simp add: inode_at_def)
  have fb1: "file_byte ?s1 ip j = file_byte (s\<lparr>blk := b'\<rparr>) ip j" for j
    by (simp add: file_byte_def block_of_def inode_at_def)
  have bo: "block_of ?s1 ip bn = block_of s ip bn" if "bn < k" for bn
    by (rule block_of_frame [OF _ that order_refl fm fp]) (use w(4) in auto)
  have fm1: "file_mapped ?s1 ip k" using fm bo by (simp add: file_mapped_def ia)
  have unf: "writei pid ip src off s =
      (if 0 < ?n \<and> i_size ?x < off + ?n
       then kbind (iupdate pid ip (set_inode ip (?x\<lparr>i_size := off + ?n\<rparr>) ?s1)) (\<lambda>s2. Ok (sint ?n, s2))
       else Ok (sint ?n, ?s1))"
    using r c1 c2 w(1) by (simp add: writei_def Let_def ia)
  have pos: "(0 < ?n \<and> i_size ?x < off + ?n) \<longleftrightarrow> file_size s ip < ?e"
  proof -
    have "0 < ?n \<longleftrightarrow> 0 < length src" using n by (simp add: word_less_nat_alt)
    moreover have "i_size ?x < off + ?n \<longleftrightarrow> file_size s ip < ?e" using sum by (simp add: word_less_nat_alt)
    ultimately show ?thesis using r by auto
  qed
  show ?thesis
  proof (cases "file_size s ip < ?e")
    case False
    have "writei pid ip src off s = Ok (int (length src), ?s1)"
      unfolding unf pos using False sn by simp
    then show ?thesis
    proof (rule that)
      show "file_size ?s1 ip = max ?e (file_size s ip)" using False ia by simp
      show "held ?s1 = {}" using h by simp
      show "file_mapped ?s1 ip k" by (rule fm1)
      show "i_addrs (inode_at ?s1 ip) = i_addrs ?x" "i_type (inode_at ?s1 ip) = i_type ?x"
        by (simp_all add: ia)
      show "file_byte ?s1 ip j = (if unat off \<le> j \<and> j < ?e then src ! (j - unat off) else file_byte s ip j)"
        if "j div BSIZE < k" for j using w(5) [OF that] fb1 by simp
      show "b \<in> set (lh ?s1)" if "blk ?s1 b \<noteq> blk s b" for b using w(4) that by simp
    qed
  next
    case True
    let ?x2 = "?x\<lparr>i_size := off + ?n\<rparr>"
    let ?s2 = "set_inode ip ?x2 ?s1"
    have at2: "inode_at ?s2 ip = ?x2" using ipl by (simp add: set_inode_def inode_at_def)
    have rm2: "log_room ?s2 (Suc 0)"
      using r w(2) by (auto simp: log_room_def set_inode_def)
    have hs: "holdingsleep pid (i_lock (inode_at ?s2 ip))" using r by (simp add: at2)
    have h2: "held ?s2 = {}" using h by (simp add: set_inode_def)
    define ib where "ib = IBLOCK (i_inum ?x) (sb s)"
    have ib: "IBLOCK (i_inum (inode_at ?s2 ip)) (sb ?s2) = ib" unfolding at2 by (simp add: ib_def set_inode_def)
    have ibs: "ib < FSSIZE" "ib \<notin> block_of s ip ` {..<k}"
      "NDIRECT < k \<Longrightarrow> ib \<noteq> unat (i_addrs ?x ! NDIRECT)"
      using r by (simp_all add: ib_def)
    obtain l2 p2 where u: "iupdate pid ip ?s2 = Ok (?s2\<lparr>blk := (blk ?s2)(ib :=
        put_dinode (inode_at ?s2 ip) (ioff (i_inum (inode_at ?s2 ip))) (blk ?s2 ib)), lh := l2, pinned := p2\<rparr>)"
      "set l2 = insert ib (set (lh ?s2))"
      using iupdate_ok [OF hs h2 rm2] ibs(1) ib by metis
    define s3 where "s3 = ?s2\<lparr>blk := (blk ?s2)(ib :=
        put_dinode (inode_at ?s2 ip) (ioff (i_inum (inode_at ?s2 ip))) (blk ?s2 ib)), lh := l2, pinned := p2\<rparr>"
    have s3: "icache s3 = (icache ?s1)[ip := ?x2]" "blk s3 b = (if b = ib then blk s3 ib else b' b)"
      "lh s3 = l2" "held s3 = {}" for b
      using h by (simp_all add: s3_def set_inode_def)
    have at3: "inode_at s3 ip = ?x2" using ipl s3(1) by (simp add: inode_at_def)
    have keep: "blk s3 b = blk ?s1 b"
      if "b \<in> block_of ?s1 ip ` {..<k} \<union>
        (if NDIRECT < k then {unat (i_addrs (inode_at ?s1 ip) ! NDIRECT)} else {})" for b
      using that ibs(2,3) bo by (subst s3(2)) (auto simp: ia split: if_splits)
    have bo3: "block_of s3 ip bn = block_of s ip bn" if "bn < k" for bn
    proof -
      have "block_of s3 ip bn = block_of ?s1 ip bn"
        using keep that by (auto simp: block_of_def at3 ia)
      with bo [OF that] show ?thesis by simp
    qed
    have "writei pid ip src off s = Ok (int (length src), s3)"
      unfolding unf pos using True sn u(1) by (simp add: s3_def)
    then show ?thesis
    proof (rule that)
      show "file_size s3 ip = max ?e (file_size s ip)" using True sum by (simp add: at3)
      show "held s3 = {}" by (rule s3(4))
      show "file_mapped s3 ip k" using fm bo3 by (simp add: file_mapped_def at3)
      show "i_addrs (inode_at s3 ip) = i_addrs ?x" "i_type (inode_at s3 ip) = i_type ?x"
        by (simp_all add: at3)
      show "file_byte s3 ip j = (if unat off \<le> j \<and> j < ?e then src ! (j - unat off) else file_byte s ip j)"
        if j: "j div BSIZE < k" for j
      proof -
        have "file_byte s3 ip j = file_byte ?s1 ip j"
          by (rule file_byte_update [OF _ _ j fm1 keep]) (use s3(1) ipl ia in simp_all)
        then show ?thesis using w(5) [OF j] fb1 by simp
      qed
      show "b \<in> set (lh s3)" if "blk s3 b \<noteq> blk s b" for b
        using that w(4) [of b] u(2) s3(2) [of b] by (cases "b = ib") (auto simp: s3(3) set_inode_def)
    qed
  qed
qed

text \<open>C6: a write to a mapped file succeeds, a read of the same range then returns the bytes
  written, every other byte of the file keeps its value, the size is the larger of the old size
  and the end of the write, and every block that changed is in the running transaction.\<close>

theorem write_then_read:
  assumes ready: "write_ready s pid ip k (unat off) (length src)"
  shows "\<exists>s'. writei pid ip src off s = Ok (int (length src), s') \<and>
    readi ip off (of_nat (length src)) s' = Ok (int (length src), src, s') \<and>
    file_size s' ip = max (unat off + length src) (file_size s ip) \<and>
    (\<forall>j<file_size s ip. j < unat off \<or> unat off + length src \<le> j \<longrightarrow> file_byte s' ip j = file_byte s ip j) \<and>
    (\<forall>b. blk s' b \<noteq> blk s b \<longrightarrow> b \<in> set (lh s'))"
proof -
  let ?e = "unat off + length src" and ?n = "of_nat (length src) :: uint"
  note r = ready [unfolded write_ready_def Let_def]
  obtain s' where s': "writei pid ip src off s = Ok (int (length src), s')"
    "file_size s' ip = max ?e (file_size s ip)"
    "i_type (inode_at s' ip) = i_type (inode_at s ip)" "held s' = {}" "file_mapped s' ip k"
    "\<And>j. j div BSIZE < k \<Longrightarrow> file_byte s' ip j =
       (if unat off \<le> j \<and> j < ?e then src ! (j - unat off) else file_byte s ip j)"
    "\<And>b. blk s' b \<noteq> blk s b \<Longrightarrow> b \<in> set (lh s')"
    using writei_ok [OF ready] by metis
  have bt: "blocks_to (max ?e (file_size s ip)) \<le> k" using r by simp
  have fms: "file_mapped s ip k" using r by simp
  have small: "max ?e (file_size s ip) \<le> 1069056" by (rule mapped_small [OF fms bt])
  have n: "unat ?n = length src" using small by (simp add: unat_of_nat take_bit_nat_eq_self)
  have below: "j div BSIZE < k" if "j < max ?e (file_size s ip)" for j
    by (rule div_below_blocks [OF that bt])
  have fm: "file_mapped s' ip (blocks_to (file_size s' ip))"
    using s'(2,5) bt by (auto simp: file_mapped_def)
  have "readi ip off ?n s' =
      Ok (int (min (unat ?n) (file_size s' ip - unat off)),
          map (file_byte s' ip) [unat off..<min (unat off + unat ?n) (file_size s' ip)], s')"
    by (rule readi_reads_file) (use r s' fm n small in simp_all)
  moreover have "map (file_byte s' ip) [unat off..<?e] = src"
    using s'(6) below by (auto intro!: nth_equalityI)
  ultimately have "readi ip off ?n s' = Ok (int (length src), src, s')" using n s'(2) by simp
  with s' below show ?thesis by auto
qed

section \<open>The block allocator\<close>

definition bit_at :: "'a fsys_scheme \<Rightarrow> nat \<Rightarrow> bool" where
  "bit_at s b = bit_is_set (blk s (bmapstart (sb s) + b div BPB)) (b mod BPB)"

lemma bit_is_set_iff: "bit_is_set x bi \<longleftrightarrow> bit (x (bi div 8)) (bi mod 8)"
  by (simp add: bit_is_set_def push_bit_of_1 and_exp_eq_0_iff_not_bit)

lemma same_bit: "(bi :: nat) div 8 = bj div 8 \<Longrightarrow> bi mod 8 = bj mod 8 \<Longrightarrow> bi = bj"
  by (metis div_mult_mod_eq)

lemma bit_or_exp: "n < 8 \<Longrightarrow> bit ((x :: uchar) OR 2 ^ m) n \<longleftrightarrow> m = n \<or> bit x n"
  by (auto simp: bit_simps)

lemma bit_and_not_exp: "n < 8 \<Longrightarrow> bit ((x :: uchar) AND NOT (2 ^ m)) n \<longleftrightarrow> m \<noteq> n \<and> bit x n"
  by (auto simp: bit_simps)

lemma bit_set_bit_in: "bit_is_set (set_bit_in x bi) bj \<longleftrightarrow> bi = bj \<or> bit_is_set x bj"
proof (cases "bi div 8 = bj div 8")
  case True
  have "bi = bj \<longleftrightarrow> bi mod 8 = bj mod 8" using same_bit [OF True] by blast
  with True show ?thesis
    by (simp only: bit_is_set_iff set_bit_in_def fun_upd_apply if_True refl) (simp add: bit_or_exp)
next
  case False
  then have "bi \<noteq> bj" by auto
  with False show ?thesis by (simp add: bit_is_set_iff set_bit_in_def)
qed

lemma bit_clear_bit_in: "bit_is_set (clear_bit_in x bi) bj \<longleftrightarrow> bi \<noteq> bj \<and> bit_is_set x bj"
proof (cases "bi div 8 = bj div 8")
  case True
  have "bi = bj \<longleftrightarrow> bi mod 8 = bj mod 8" using same_bit [OF True] by blast
  with True show ?thesis
    by (simp only: bit_is_set_iff clear_bit_in_def fun_upd_apply if_True refl) (simp add: bit_and_not_exp)
next
  case False
  then have "bi \<noteq> bj" by auto
  with False show ?thesis by (simp add: bit_is_set_iff clear_bit_in_def)
qed

lemma log_write_OkD: "log_write b s = Ok s' \<Longrightarrow> \<exists>l. s' = s\<lparr>lh := l, pinned := insert b (pinned s)\<rparr>"
  by (auto simp: log_write_def split: if_splits)

lemma brelse_OkD: "fs_brelse b s = Ok s' \<Longrightarrow> b \<in> held s \<and> s' = s\<lparr>held := held s - {b}\<rparr>"
  by (auto simp: fs_brelse_def tx_release_def split: if_splits)

lemma bread_OkD: "fs_bread b s = Ok (x, s') \<Longrightarrow> b < FSSIZE \<and> b \<notin> held s \<and> x = blk s b \<and>
    s' = s\<lparr>held := insert b (held s)\<rparr>"
  by (auto simp: fs_bread_def tx_read_def split: if_splits)

lemma bzero_OkD:
  assumes "bzero b s = Ok s'" "held s = {}"
  shows "\<exists>l p. s' = s\<lparr>blk := (blk s)(b := zero_block), lh := l, pinned := p, held := {}\<rparr>"
proof -
  obtain x s1 s2 where r: "fs_bread b s = Ok (x, s1)" "log_write b (tx_put b zero_block s1) = Ok s2"
    "fs_brelse b s2 = Ok s'"
    using assms(1) by (auto simp: bzero_def kres_simps split: if_splits)
  from bread_OkD [OF r(1)] have s1: "s1 = s\<lparr>held := {b}\<rparr>" using assms(2) by simp
  from log_write_OkD [OF r(2)] obtain l where
    s2: "s2 = (tx_put b zero_block s1)\<lparr>lh := l, pinned := insert b (pinned (tx_put b zero_block s1))\<rparr>"
    by blast
  have "s' = s\<lparr>blk := (blk s)(b := zero_block), lh := l, pinned := insert b (pinned s), held := {}\<rparr>"
    using brelse_OkD [OF r(3)] by (simp add: s2 s1 tx_put_def)
  then show ?thesis by blast
qed

text \<open>The block \<open>b\<close> of bit \<open>bi\<close> of the bitmap block \<open>bm\<close> has been taken.\<close>

definition took :: "'a fsys_scheme \<Rightarrow> nat \<Rightarrow> nat \<Rightarrow> nat \<Rightarrow> 'a fsys_scheme \<Rightarrow> bool" where
  "took s bm bi b s' \<longleftrightarrow> \<not> bit_is_set (blk s bm) bi \<and> b = (bm - bmapstart (sb s)) * BPB + bi \<and>
     b < nblocks (sb s) \<and>
     (\<exists>l p. s' = s\<lparr>blk := (blk s)(bm := set_bit_in (blk s bm) bi, b := zero_block),
        lh := l, pinned := p, held := {}, last_alloc_hint := b\<rparr>)"

lemma balloc_bits_released:
  "balloc_bits bm i bt k s = Ok (r, s') \<Longrightarrow> bm \<notin> held s \<Longrightarrow> r = None \<and> s' = s"
proof (induction k arbitrary: bt)
  case (Suc k)
  show ?case
  proof (cases "bit_is_set (blk s bm) (i * 8 + bt)")
    case True
    with Suc show ?thesis by (simp add: Let_def)
  next
    case False
    then obtain s1 s2 where "log_write bm (tx_put bm (set_bit_in (blk s bm) (i * 8 + bt)) s) = Ok s1"
      "fs_brelse bm s1 = Ok s2"
      using Suc.prems(1) by (auto simp: Let_def kres_simps)
    from log_write_OkD [OF this(1)] brelse_OkD [OF this(2)] Suc.prems(2) show ?thesis
      by (auto simp: tx_put_def)
  qed
qed simp

lemma balloc_bits_result:
  "balloc_bits bm i bt k s = Ok (r, s') \<Longrightarrow> held s = {bm} \<Longrightarrow>
   case r of None \<Rightarrow> s' = s \<or> held s' = {}
   | Some b \<Rightarrow> \<exists>bi. i * 8 + bt \<le> bi \<and> bi < i * 8 + bt + k \<and> took s bm bi b s'"
proof (induction k arbitrary: bt)
  case (Suc k)
  let ?bi = "i * 8 + bt"
  show ?case
  proof (cases "bit_is_set (blk s bm) ?bi")
    case True
    with Suc.prems have "balloc_bits bm i (Suc bt) k s = Ok (r, s')" by (simp add: Let_def)
    from Suc.IH [OF this Suc.prems(2)] show ?thesis
      by (cases r) (auto, metis add_Suc Suc_leD add_Suc_right)
  next
    case False
    let ?b = "(bm - bmapstart (sb s)) * BPB + ?bi"
    from False obtain s1 s2 where
      lw: "log_write bm (tx_put bm (set_bit_in (blk s bm) ?bi) s) = Ok s1" and br: "fs_brelse bm s1 = Ok s2"
      and rest: "(if nblocks (sb s) \<le> ?b then balloc_bits bm i (Suc bt) k s2
        else kbind (bzero ?b s2) (\<lambda>s3. Ok (Some ?b, s3\<lparr>last_alloc_hint := ?b\<rparr>))) = Ok (r, s')"
      using Suc.prems(1) by (auto simp: Let_def kres_simps)
    obtain l where s2: "s2 = s\<lparr>blk := (blk s)(bm := set_bit_in (blk s bm) ?bi), lh := l,
        pinned := insert bm (pinned s), held := {}\<rparr>"
      using log_write_OkD [OF lw] brelse_OkD [OF br] Suc.prems(2) by (auto simp: tx_put_def)
    show ?thesis
    proof (cases "nblocks (sb s) \<le> ?b")
      case True
      with rest balloc_bits_released [of bm i "Suc bt" k s2 r s'] show ?thesis by (simp add: s2)
    next
      case lt: False
      then obtain s3 where z: "bzero ?b s2 = Ok s3" and rs: "r = Some ?b" "s' = s3\<lparr>last_alloc_hint := ?b\<rparr>"
        using rest by (auto simp: kres_simps)
      have h2: "held s2 = {}" by (simp add: s2)
      from bzero_OkD [OF z h2] have "took s bm ?bi ?b s'"
        using False lt by (auto simp: took_def rs s2)
      then have "\<exists>bi. i * 8 + bt \<le> bi \<and> bi < i * 8 + bt + Suc k \<and> took s bm bi ?b s'"
        by (intro exI [of _ ?bi]) simp
      then show ?thesis by (simp add: rs)
    qed
  qed
qed simp

lemma balloc_words_released:
  "balloc_words bm i k s = Ok (r, s') \<Longrightarrow> bm \<notin> held s \<Longrightarrow> r = None \<and> s' = s"
proof (induction k arbitrary: i)
  case (Suc k)
  show ?case
  proof (cases "get32 (blk s bm) i \<noteq> 0xFFFFFFFF")
    case True
    then obtain r1 s1 where b: "balloc_bits bm i 0 32 s = Ok (r1, s1)"
      and rest: "(case r1 of Some bno \<Rightarrow> Ok (Some bno, s1) | None \<Rightarrow> balloc_words bm (i + 4) k s1) = Ok (r, s')"
      using Suc.prems(1) by (auto simp: kres_simps)
    from balloc_bits_released [OF b Suc.prems(2)] rest Suc show ?thesis by simp
  qed (use Suc in simp)
qed simp

lemma balloc_words_result:
  "balloc_words bm i k s = Ok (r, s') \<Longrightarrow> held s = {bm} \<Longrightarrow>
   case r of None \<Rightarrow> s' = s \<or> held s' = {}
   | Some b \<Rightarrow> \<exists>bi. bi < (i + 4 * k) * 8 \<and> took s bm bi b s'"
proof (induction k arbitrary: i)
  case (Suc k)
  show ?case
  proof (cases "get32 (blk s bm) i \<noteq> 0xFFFFFFFF")
    case True
    then obtain r1 s1 where b: "balloc_bits bm i 0 32 s = Ok (r1, s1)"
      and rest: "(case r1 of Some bno \<Rightarrow> Ok (Some bno, s1) | None \<Rightarrow> balloc_words bm (i + 4) k s1) = Ok (r, s')"
      using Suc.prems(1) by (auto simp: kres_simps)
    show ?thesis
    proof (cases r1)
      case None
      with balloc_bits_result [OF b Suc.prems(2)] consider "s1 = s" | "held s1 = {}" by auto
      then show ?thesis
      proof cases
        case 1
        with rest None have "balloc_words bm (i + 4) k s = Ok (r, s')" by simp
        from Suc.IH [OF this Suc.prems(2)] show ?thesis by (simp add: algebra_simps split: option.splits)
      next
        case 2
        with rest None balloc_words_released [of bm "i + 4" k s1 r s'] show ?thesis by simp
      qed
    next
      case (Some bno)
      with balloc_bits_result [OF b Suc.prems(2)] rest obtain bi where
        "bi < i * 8 + 32" "took s bm bi bno s'" "r = Some bno" by auto
      then have "bi < (i + 4 * Suc k) * 8 \<and> took s bm bi bno s'" by simp
      with \<open>r = Some bno\<close> show ?thesis by auto
    qed
  next
    case False
    with Suc.prems have "balloc_words bm (i + 4) k s = Ok (r, s')" by simp
    from Suc.IH [OF this Suc.prems(2)] show ?thesis by (simp add: algebra_simps split: option.splits)
  qed
qed simp

lemma balloc_blocks_result:
  "balloc_blocks bm k s = Ok (r, s') \<Longrightarrow> held s = {} \<Longrightarrow>
   case r of None \<Rightarrow> s' = s
   | Some b \<Rightarrow> \<exists>bm' bi. bm \<le> bm' \<and> bi < BPB \<and> took s bm' bi b s'"
proof (induction k arbitrary: bm)
  case (Suc k)
  obtain x s1 r2 s2 where br: "fs_bread bm s = Ok (x, s1)" and w: "balloc_words bm 0 512 s1 = Ok (r2, s2)"
    and rest: "(case r2 of Some bno \<Rightarrow> Ok (Some bno, s2)
       | None \<Rightarrow> kbind (fs_brelse bm s2) (balloc_blocks (Suc bm) k)) = Ok (r, s')"
    using Suc.prems(1) by (auto simp: kres_simps)
  from bread_OkD [OF br] Suc.prems(2) have s1: "s1 = s\<lparr>held := {bm}\<rparr>" by simp
  then have h1: "held s1 = {bm}" by simp
  show ?case
  proof (cases r2)
    case (Some b)
    with balloc_words_result [OF w h1] obtain bi where bi: "bi < BPB" "took s1 bm bi b s2" by auto
    have "took s bm bi b s'" using bi(2) rest Some by (auto simp: took_def s1)
    with bi(1) have "\<exists>bm' bi. bm \<le> bm' \<and> bi < BPB \<and> took s bm' bi b s'" by blast
    moreover have "r = Some b" using rest Some by simp
    ultimately show ?thesis by simp
  next
    case None
    with rest obtain s3 where s3: "fs_brelse bm s2 = Ok s3" "balloc_blocks (Suc bm) k s3 = Ok (r, s')"
      by (auto simp: kres_simps)
    from brelse_OkD [OF s3(1)] have "bm \<in> held s2" "s3 = s2\<lparr>held := held s2 - {bm}\<rparr>" by auto
    moreover from this balloc_words_result [OF w h1] None have "s2 = s1" by auto
    ultimately have "s3 = s" using s1 unheld [OF Suc.prems(2)] by simp
    with s3(2) have "balloc_blocks (Suc bm) k s = Ok (r, s')" by simp
    from Suc.IH [OF this Suc.prems(2)] show ?thesis
      by (auto split: option.splits dest: Suc_leD)
  qed
qed simp

lemma balloc_took:
  assumes "balloc s = Ok (b, s')" "held s = {}"
  obtains bm bi where "bmapstart (sb s) \<le> bm" "bi < BPB" "took s bm bi b s'"
proof -
  let ?b0 = "bmapstart (sb s)" and ?f = "bmapstart (sb s) + last_alloc_hint s div BPB"
  obtain k r s1 where r1: "balloc_blocks ?f k s = Ok (r, s1)"
    and rest: "(case r of Some bno \<Rightarrow> Ok (bno, s1)
       | None \<Rightarrow> kbind (balloc_blocks ?b0 (last_alloc_hint s div BPB) s1) (\<lambda>(r, s2).
           case r of Some bno \<Rightarrow> Ok (bno, s2) | None \<Rightarrow> Panic ''balloc: out of blocks'')) = Ok (b, s')"
    using assms(1) by (auto simp: balloc_def Let_def kres_simps)
  show ?thesis
  proof (cases r)
    case (Some bno)
    with balloc_blocks_result [OF r1 assms(2)] rest obtain bm bi where
      "?f \<le> bm" "bi < BPB" "took s bm bi b s'" by auto
    moreover from this(1) have "?b0 \<le> bm" by (rule add_leD1)
    ultimately show ?thesis using that by blast
  next
    case None
    with balloc_blocks_result [OF r1 assms(2)] have "s1 = s" by simp
    with None rest obtain r2 where "balloc_blocks ?b0 (last_alloc_hint s div BPB) s = Ok (r2, s')" "r2 = Some b"
      by (auto simp: kres_simps split: option.splits)
    with balloc_blocks_result [of ?b0 "last_alloc_hint s div BPB" s r2 s'] assms(2) that show ?thesis by auto
  qed
qed

text \<open>a block that \<open>balloc\<close> returns was free, lies inside the file system, is marked in the bitmap
  and holds zeros; no other bit and no other block has changed.  The bitmap blocks themselves have
  to be marked as used, as \<open>mkfs\<close> leaves them.\<close>

theorem balloc_fresh:
  assumes "balloc s = Ok (b, s')" and "held s = {}"
    and "\<And>c. c < nblocks (sb s) \<Longrightarrow> bit_at s (bmapstart (sb s) + c div BPB)"
  shows "b < nblocks (sb s) \<and> \<not> bit_at s b \<and> blk s' b = zero_block \<and>
    (\<forall>c<nblocks (sb s). bit_at s' c \<longleftrightarrow> c = b \<or> bit_at s c) \<and>
    (\<forall>x. x \<noteq> b \<and> x \<noteq> bmapstart (sb s) + b div BPB \<longrightarrow> blk s' x = blk s x) \<and>
    icache s' = icache s \<and> held s' = {}"
proof -
  obtain bm bi where bm: "bmapstart (sb s) \<le> bm" "bi < BPB" "took s bm bi b s'"
    using balloc_took [OF assms(1,2)] by blast
  note t = bm(3) [unfolded took_def]
  have b: "b div BPB = bm - bmapstart (sb s)" "b mod BPB = bi"
    using t div_mod_split [OF bm(2)] by auto
  have bmb: "bmapstart (sb s) + b div BPB = bm" using b bm(1) by simp
  have nb: "\<not> bit_at s b" using t unfolding bit_at_def bmb b(2) by simp
  have lt: "b < nblocks (sb s)" using t by simp
  have ne: "bmapstart (sb s) + c div BPB \<noteq> b" if "c < nblocks (sb s)" for c
    using assms(3) [OF that] nb by auto
  from t obtain l p where s': "s' = s\<lparr>blk := (blk s)(bm := set_bit_in (blk s bm) bi,
      b := zero_block), lh := l, pinned := p, held := {}, last_alloc_hint := b\<rparr>" by blast
  have "bit_at s' c \<longleftrightarrow> c = b \<or> bit_at s c" if c: "c < nblocks (sb s)" for c
  proof (cases "bmapstart (sb s) + c div BPB = bm")
    case True
    then have "c div BPB = b div BPB" using bmb by simp
    then have "c = b \<longleftrightarrow> bi = c mod BPB" using b(2) by (metis div_mult_mod_eq)
    moreover have "bm \<noteq> b" using ne [OF lt] bmb by simp
    ultimately show ?thesis using True by (simp add: bit_at_def s' bit_set_bit_in)
  next
    case False
    then have "c \<noteq> b" using bmb by auto
    with False ne [OF c] show ?thesis by (simp add: bit_at_def s')
  qed
  then show ?thesis using nb lt bmb by (simp add: s')
qed

text \<open>freeing a block clears its bit and changes no other, and the bitmap guards against freeing a
  block twice: a second \<open>bfree\<close> of the block panics, whatever the log holds.\<close>

theorem double_free_caught:
  assumes "bfree b s = Ok s'" and "held s = {}"
  shows "bit_at s b \<and> \<not> bit_at s' b \<and> (\<forall>c. c \<noteq> b \<longrightarrow> bit_at s' c = bit_at s c) \<and>
    (\<forall>x. x \<noteq> bmapstart (sb s) + b div BPB \<longrightarrow> blk s' x = blk s x) \<and>
    bfree b s' = Panic ''bfree: freeing free block''"
proof -
  let ?bm = "b div BPB + bmapstart (sb s)" and ?bi = "b mod BPB"
  obtain x s1 s2 where r: "fs_bread ?bm s = Ok (x, s1)" "bit_is_set x ?bi" "\<not> nblocks (sb s) \<le> b"
    "log_write ?bm (tx_put ?bm (clear_bit_in x ?bi) s1) = Ok s2" "fs_brelse ?bm s2 = Ok s'"
    using assms(1) by (auto simp: bfree_def Let_def kres_simps split: if_splits)
  from bread_OkD [OF r(1)] assms(2) have s1: "x = blk s ?bm" "s1 = s\<lparr>held := {?bm}\<rparr>" "?bm < FSSIZE"
    by simp_all
  from log_write_OkD [OF r(4)] brelse_OkD [OF r(5)] obtain l p where
    s': "s' = s\<lparr>blk := (blk s)(?bm := clear_bit_in x ?bi), lh := l, pinned := p, held := {}\<rparr>"
    by (auto simp: s1(2) tx_put_def)
  have bit: "bit_at s' c \<longleftrightarrow> c \<noteq> b \<and> bit_at s c" for c
  proof (cases "c div BPB = b div BPB")
    case True
    then have "c = b \<longleftrightarrow> ?bi = c mod BPB" by (metis div_mult_mod_eq)
    with True show ?thesis
      by (simp add: bit_at_def s' s1(1) bit_clear_bit_in add.commute)
  next
    case False
    then have "c \<noteq> b" by auto
    with False show ?thesis by (simp add: bit_at_def s' add.commute)
  qed
  have "bit_at s b" using r(2) by (simp add: bit_at_def s1(1) add.commute)
  moreover have "bfree b s' = Panic ''bfree: freeing free block''"
  proof -
    have h: "held s' = {}" by (simp add: s')
    have "\<not> bit_is_set (blk s' ?bm) ?bi" using bit [of b] by (simp add: bit_at_def s' add.commute)
    moreover have "sb s' = sb s" by (simp add: s')
    ultimately show ?thesis using r(3)
      by (simp add: bfree_def Let_def bread_ok [OF s1(3) h])
  qed
  moreover have "blk s' y = blk s y" if "y \<noteq> bmapstart (sb s) + b div BPB" for y
    using that by (simp add: s' add.commute)
  ultimately show ?thesis using bit by auto
qed

section \<open>A small file system\<close>

text \<open>Block 4 is the bitmap, with blocks 0 to 5 in use; the inode cache has one entry, a file of five
  bytes in block 5, whose lock process 7 holds; a transaction is running.\<close>

definition free_inode :: inode where
  "free_inode = \<lparr>i_dev = 0, i_inum = 0, i_ref = 0, i_lock = initsleeplock, i_valid = False, i_type = 0,
     i_major = 0, i_minor = 0, i_nlink = 0, i_size = 0, i_addrs = replicate 11 0\<rparr>"

definition demo_inode :: inode where
  "demo_inode = \<lparr>i_dev = 1, i_inum = 2, i_ref = 1, i_lock = \<lparr>sl_locked = True, sl_pid = 7\<rparr>, i_valid = True,
     i_type = T_FILE, i_major = 0, i_minor = 0, i_nlink = 1, i_size = 5, i_addrs = 5 # replicate 10 0\<rparr>"

definition demo_fs :: fsys where
  "demo_fs = \<lparr>disk = (\<lambda>_. zero_block),
     blk = (\<lambda>b i. if b = 4 \<and> i = 0 then 63 else if b = 5 then of_nat (65 + i) else 0),
     held = {}, pinned = {}, writes = [], log_start = 20, log_size = 30, outstanding = 1,
     committing = False, lh = [], devsw = (\<lambda>_. \<lparr>d_read = None, d_write = None\<rparr>),
     sb = \<lparr>sb_size = 120, nblocks = 100, ninodes = 16, nlog = 30, logstart = 20, inodestart = 2,
           bmapstart = 4, checksum = 0\<rparr>,
     last_alloc_hint = 0, icache = demo_inode # replicate 99 free_inode\<rparr>"

lemmas demo_defs = demo_fs_def demo_inode_def inode_at_def block_of_def

lemma demo_mapped: "file_mapped demo_fs 0 1" "file_private demo_fs 0 1"
  by (simp_all add: file_mapped_def file_private_def valid_block_def demo_defs lessThan_Suc inj_on_def)

lemma demo_ready: "write_ready demo_fs 7 0 1 (unat (3 :: uint)) (length [97, 98, 99 :: uchar])"
  using demo_mapped
  by (simp add: write_ready_def log_room_def holdingsleep_def IBLOCK_def demo_defs lessThan_Suc)

theorem readi_reads_file_witness:
  "readi 0 2 10 demo_fs = Ok (3, [67, 68, 69], demo_fs)"
proof -
  have "readi 0 2 10 demo_fs = Ok (int (min (unat (10 :: uint)) (file_size demo_fs 0 - unat (2 :: uint))),
      map (file_byte demo_fs 0) [unat (2 :: uint)..<min (unat (2 :: uint) + unat (10 :: uint)) (file_size demo_fs 0)], demo_fs)"
    by (rule readi_reads_file) (use demo_mapped in \<open>simp_all add: demo_defs\<close>)
  then show ?thesis by (simp add: file_byte_def demo_defs upt_conv_Cons)
qed

theorem write_then_read_witness:
  "\<exists>s'. writei 7 0 [97, 98, 99] 3 demo_fs = Ok (3, s') \<and> readi 0 3 3 s' = Ok (3, [97, 98, 99], s') \<and>
     file_size s' 0 = 6"
  using write_then_read [OF demo_ready] by (auto simp: demo_defs)

theorem dinode_roundtrip_witness:
  "same_dinode (get_dinode (put_dinode demo_inode (ioff 18) zero_block) (ioff 18) free_inode) demo_inode"
  using dinode_roundtrip [of demo_inode 18 zero_block free_inode] by (simp add: demo_inode_def)

lemmas scan_numeral =
  balloc_words.simps(2) [where k = 511, unfolded Suc_numeral Num.arith_simps]
  balloc_bits.simps(2) [where k = 31, unfolded Suc_numeral Num.arith_simps]
  balloc_bits.simps(2) [where k = 30, unfolded Suc_numeral Num.arith_simps]
  balloc_bits.simps(2) [where k = 29, unfolded Suc_numeral Num.arith_simps]
  balloc_bits.simps(2) [where k = 28, unfolded Suc_numeral Num.arith_simps]
  balloc_bits.simps(2) [where k = 27, unfolded Suc_numeral Num.arith_simps]
  balloc_bits.simps(2) [where k = 26, unfolded Suc_numeral Num.arith_simps]
  balloc_bits.simps(2) [where k = 25, unfolded Suc_numeral Num.arith_simps]

lemmas demo_run = fs_bread_def tx_read_def fs_brelse_def tx_release_def tx_put_def log_write_def bzero_def
  bit_is_set_iff demo_defs bit_numeral_rec

lemma balloc_demo: "case balloc demo_fs of Ok (b, s') \<Rightarrow> b = 6 | _ \<Rightarrow> False"
  by (simp add: balloc_def scan_numeral get32_def demo_run)

lemma demo_bitmap_marked: "c < nblocks (sb demo_fs) \<Longrightarrow> bit_at demo_fs (bmapstart (sb demo_fs) + c div BPB)"
  by (simp add: bit_at_def bit_is_set_iff demo_defs bit_numeral_rec)

theorem balloc_fresh_witness:
  "case balloc demo_fs of Ok (b, s') \<Rightarrow> b = 6 \<and> \<not> bit_at demo_fs 6 \<and> bit_at s' 6 \<and> bit_at s' 5 | _ \<Rightarrow> False"
proof -
  obtain s' where b: "balloc demo_fs = Ok (6, s')"
    using balloc_demo by (auto split: kres.splits)
  have "held demo_fs = {}" by (simp add: demo_fs_def)
  moreover have "nblocks (sb demo_fs) = 100" by (simp add: demo_fs_def)
  moreover have "bit_at demo_fs 5"
    by (simp add: bit_at_def bit_is_set_iff demo_defs bit_numeral_rec)
  ultimately show ?thesis using balloc_fresh [OF b _ demo_bitmap_marked] b by auto
qed

lemma bfree_demo: "case bfree 5 demo_fs of Ok s' \<Rightarrow> True | _ \<Rightarrow> False"
  by (simp add: bfree_def demo_run)

theorem double_free_caught_witness:
  "case bfree 5 demo_fs of Ok s' \<Rightarrow> bfree 5 s' = Panic ''bfree: freeing free block'' | _ \<Rightarrow> False"
proof -
  obtain s' where b: "bfree 5 demo_fs = Ok s'" using bfree_demo by (auto split: kres.splits)
  have "held demo_fs = {}" by (simp add: demo_fs_def)
  from double_free_caught [OF b this] b show ?thesis by simp
qed

section \<open>The inode cache\<close>

definition icache_ok :: "'a fsys_scheme \<Rightarrow> bool" where
  "icache_ok s \<longleftrightarrow> length (icache s) = NINODE \<and> (\<forall>i<NINODE. 0 \<le> i_ref (inode_at s i)) \<and>
     (\<forall>i<NINODE. \<forall>j<NINODE. 0 < i_ref (inode_at s i) \<longrightarrow> 0 < i_ref (inode_at s j) \<longrightarrow>
        i_dev (inode_at s i) = i_dev (inode_at s j) \<longrightarrow> i_inum (inode_at s i) = i_inum (inode_at s j) \<longrightarrow> i = j)"

lemma inode_at_set: "ip < length (icache s) \<Longrightarrow>
    inode_at (set_inode ip x s) j = (if j = ip then x else inode_at s j)"
  by (simp add: inode_at_def set_inode_def)

lemma length_set_inode [simp]: "length (icache (set_inode ip x s)) = length (icache s)"
  by (simp add: set_inode_def)

lemma icache_ok_set:
  assumes ok: "icache_ok s" and i: "i < NINODE" and r: "0 \<le> i_ref x"
    and u: "\<And>j. j < NINODE \<Longrightarrow> j \<noteq> i \<Longrightarrow> 0 < i_ref x \<Longrightarrow> 0 < i_ref (inode_at s j) \<Longrightarrow>
      \<not> (i_dev (inode_at s j) = i_dev x \<and> i_inum (inode_at s j) = i_inum x)"
  shows "icache_ok (set_inode i x s)"
proof -
  have len: "i < length (icache s)" using ok i by (simp add: icache_ok_def)
  show ?thesis
    using ok r u unfolding icache_ok_def by (simp add: inode_at_set [OF len]) metis
qed

text \<open>the inode cache never holds two live entries for one inode: \<open>iget\<close> returns the entry of the
  inode it is asked for, whose reference count it has raised by one, or a fresh entry with one
  reference, not yet read from disk; no other entry changes, and it panics exactly when the inode is not
  cached and all \<open>NINODE\<close> entries are in use.\<close>

theorem iget_unique:
  assumes ok: "icache_ok s"
  shows "case iget dev inum s of
      Ok (i, s') \<Rightarrow> icache_ok s' \<and> i < NINODE \<and> i_dev (inode_at s' i) = dev \<and> i_inum (inode_at s' i) = inum \<and>
        i_ref (inode_at s' i) = i_ref (inode_at s i) + 1 \<and>
        (i_ref (inode_at s i) = 0 \<longrightarrow> \<not> i_valid (inode_at s' i)) \<and>
        (\<forall>j. j \<noteq> i \<longrightarrow> inode_at s' j = inode_at s j)
    | Panic m \<Rightarrow> (\<forall>i<NINODE. 0 < i_ref (inode_at s i) \<and> (i_dev (inode_at s i) \<noteq> dev \<or> i_inum (inode_at s i) \<noteq> inum))
    | Blocked c \<Rightarrow> False"
proof -
  let ?P = "\<lambda>i. i_ref (inode_at s i) > 0 \<and> i_dev (inode_at s i) = dev \<and> i_inum (inode_at s i) = inum"
  let ?Q = "\<lambda>i. i_ref (inode_at s i) = 0"
  have len: "length (icache s) = NINODE" and nn: "\<And>i. i < NINODE \<Longrightarrow> 0 \<le> i_ref (inode_at s i)"
    using ok by (auto simp: icache_ok_def)
  show ?thesis
  proof (cases "scan ?P 0 NINODE")
    case (Some i)
    with scan_SomeD [OF Some] have i: "i < NINODE" "?P i" by auto
    let ?x = "(inode_at s i)\<lparr>i_ref := i_ref (inode_at s i) + 1\<rparr>"
    have "icache_ok (set_inode i ?x s)"
    proof (rule icache_ok_set [OF ok i(1)])
      fix j assume "j < NINODE" "j \<noteq> i" "0 < i_ref (inode_at s j)"
      with ok i show "\<not> (i_dev (inode_at s j) = i_dev ?x \<and> i_inum (inode_at s j) = i_inum ?x)"
        unfolding icache_ok_def by auto
    qed (use i in simp)
    moreover have "iget dev inum s = Ok (i, set_inode i ?x s)" by (simp only: iget_def Some option.case)
    ultimately show ?thesis using i by (simp add: inode_at_set len)
  next
    case None
    then have no: "\<And>i. i < NINODE \<Longrightarrow> \<not> ?P i" by (simp add: scan_eq_None)
    show ?thesis
    proof (cases "scan ?Q 0 NINODE")
      case (Some i)
      with scan_SomeD [OF Some] have i: "i < NINODE" "?Q i" by auto
      let ?x = "(inode_at s i)\<lparr>i_dev := dev, i_inum := inum, i_ref := 1, i_valid := False\<rparr>"
      have "icache_ok (set_inode i ?x s)"
        by (rule icache_ok_set [OF ok i(1)]) (use no in auto)
      moreover have "iget dev inum s = Ok (i, set_inode i ?x s)"
        by (simp only: iget_def None Some option.case)
      ultimately show ?thesis using i by (simp add: inode_at_set len)
    next
      case none: None
      then have all: "\<And>i. i < NINODE \<Longrightarrow> \<not> ?Q i" by (simp add: scan_eq_None)
      have "iget dev inum s = Panic ''iget: no free inodes in cache''"
        by (simp only: iget_def None none option.case)
      moreover have "0 < i_ref (inode_at s i)" if "i < NINODE" for i using nn [OF that] all [OF that] by simp
      ultimately show ?thesis using no by auto
    qed
  qed
qed

lemma demo_cache_nth: "i < NINODE \<Longrightarrow> inode_at demo_fs i = (if i = 0 then demo_inode else free_inode)"
  by (cases i) (simp_all add: inode_at_def demo_fs_def)

lemma demo_icache_ok: "icache_ok demo_fs"
  unfolding icache_ok_def
  by (auto simp: demo_cache_nth split: if_splits) (simp_all add: demo_fs_def demo_inode_def free_inode_def)

theorem iget_unique_witness:
  "case iget 1 2 demo_fs of Ok (i, s') \<Rightarrow> icache_ok s' \<and> i_inum (inode_at s' i) = 2 | _ \<Rightarrow> False"
proof -
  have "\<exists>i. scan (\<lambda>i. i_ref (inode_at demo_fs i) > 0 \<and> i_dev (inode_at demo_fs i) = 1 \<and>
      i_inum (inode_at demo_fs i) = 2) 0 NINODE = Some i"
    by (rule scan_complete [of 0 0]) (simp_all add: demo_cache_nth demo_inode_def)
  then have "\<exists>q. iget 1 2 demo_fs = Ok q" by (auto simp only: iget_def option.case)
  with iget_unique [OF demo_icache_ok, of 1 2] show ?thesis by auto
qed

section \<open>The thirteenth block address\<close>

text \<open>\<open>struct inode\<close> keeps \<open>NDIRECT + 1\<close> block addresses, but \<open>itrunc\<close> also looks at
  \<open>addrs[NDIRECT + 1]\<close>, which is the \<open>dev\<close> field of the next entry of the inode cache.  When
  that entry has been used for the root device, \<open>itrunc\<close> of a file, even of an empty one, takes
  block 1, the superblock, for a doubly indirect block, and its first word, the size of the file
  system, for the number of an indirect block, and the kernel panics.\<close>

theorem itrunc_takes_superblock_for_indirect:
  assumes "ip + 1 < NINODE" and "length (icache s) = NINODE" and "i_addrs (inode_at s ip) = replicate 11 0"
    and "i_dev (inode_at s (ip + 1)) = ROOTDEV" and "held s = {}" and "get32 (blk s 1) 0 = of_nat FSSIZE"
  shows "itrunc pid ip s = Panic ''idestart: block out of range''"
proof -
  have a: "read_addr ip i s = Ok 0" if "i < 11" for i
    using assms(3) that by (auto simp: read_addr_def)
  have "kloop (free_direct ip) i k s = Ok s" if "i + k \<le> NDIRECT" for i k
    using that
  proof (induction k arbitrary: i)
    case (Suc k)
    have "free_direct ip i s = Ok s" using a [of i] Suc.prems by (simp add: free_direct_def)
    with Suc show ?case by simp
  qed simp
  then have 1: "kloop (free_direct ip) 0 NDIRECT s = Ok s" by simp
  have 2: "free_indirect ip NDIRECT free_entry s = Ok s" by (simp add: free_indirect_def a)
  have r: "read_addr ip (NDIRECT + 1) s = Ok 1" using assms(1,4) by (simp add: read_addr_def)
  have b: "fs_bread 1 s = Ok (blk s 1, s\<lparr>held := {1}\<rparr>)" using assms(5) by (intro bread_ok) simp_all
  have "free_table_entry (blk s 1) 0 (s\<lparr>held := {1}\<rparr>) = Panic ''idestart: block out of range''"
    using assms(6) by (simp add: free_table_entry_def fs_bread_def)
  then have k: "kloop (free_table_entry (blk s 1)) 0 (Suc 511) (s\<lparr>held := {1}\<rparr>) =
      Panic ''idestart: block out of range''" by (simp only: kloop.simps kbind.simps)
  have n: "NINDIRECT = Suc 511" by simp
  have "free_indirect ip (NDIRECT + 1) free_table_entry s = Panic ''idestart: block out of range''"
    unfolding free_indirect_def r n by (simp only: kbind.simps b k prod.case if_True not_False_eq_True
        one_neq_zero unsigned_1)
  with 1 2 show ?thesis by (simp add: itrunc_def)
qed

theorem itrunc_takes_superblock_for_indirect_witness:
  "itrunc 7 5 (demo_fs\<lparr>blk := (\<lambda>b i. if b = 1 \<and> i = 1 then 100 else 0),
     icache := replicate 100 (free_inode\<lparr>i_dev := 1\<rparr>)\<rparr>) = Panic ''idestart: block out of range''"
  by (rule itrunc_takes_superblock_for_indirect)
    (simp_all add: inode_at_def free_inode_def demo_fs_def get32_def)

end
