(* ===== verification/Frame.thy ===== *)
theory Frame
  imports Fs
begin

text \<open>
  What the file system leaves alone.  Later layers extend the state of the file system by fields
  of their own (open files, pipes, the running process); none of the operations of \<open>log.c\<close> and
  \<open>fs.c\<close> touches them.  The predicates \<open>keep1 I c\<close> and \<open>keep I c\<close> say that a computation, when
  it returns, ends in a state satisfying \<open>I\<close>; their rules follow the structure of the code, so
  that invariants of the later layers are carried through whole system calls.
\<close>

section \<open>Computations that keep an invariant\<close>

definition keep1 :: "('s \<Rightarrow> bool) \<Rightarrow> 's kres \<Rightarrow> bool" where
  "keep1 I c \<longleftrightarrow> (\<forall>s'. c = Ok s' \<longrightarrow> I s')"

definition keep :: "('s \<Rightarrow> bool) \<Rightarrow> ('v \<times> 's) kres \<Rightarrow> bool" where
  "keep I c \<longleftrightarrow> (\<forall>v s'. c = Ok (v, s') \<longrightarrow> I s')"

named_theorems keep_rules \<open>rules that follow the structure of the code\<close>

lemma keep1_Ok [keep_rules]: "I s \<Longrightarrow> keep1 I (Ok s)"
  and keep1_Panic [keep_rules]: "keep1 I (Panic m)"
  and keep1_Blocked [keep_rules]: "keep1 I (Blocked chan)"
  and keep1_bind1: "keep1 I c \<Longrightarrow> (\<And>s'. I s' \<Longrightarrow> keep1 I (f s')) \<Longrightarrow> keep1 I (kbind c f)"
  and keep1_bind: "keep I d \<Longrightarrow> (\<And>x s'. I s' \<Longrightarrow> keep1 I (g x s')) \<Longrightarrow>
    keep1 I (kbind d (\<lambda>(x, s'). g x s'))"
  and keep1_if [keep_rules]: "(b \<Longrightarrow> keep1 I c1) \<Longrightarrow> (\<not> b \<Longrightarrow> keep1 I c2) \<Longrightarrow> keep1 I (if b then c1 else c2)"
  and keep1_option [keep_rules]: "(q = None \<Longrightarrow> keep1 I c1) \<Longrightarrow> (\<And>x. q = Some x \<Longrightarrow> keep1 I (h x)) \<Longrightarrow>
    keep1 I (case q of None \<Rightarrow> c1 | Some x \<Rightarrow> h x)"
  and keep1_prod [keep_rules]: "(\<And>x y. p = (x, y) \<Longrightarrow> keep1 I (k x y)) \<Longrightarrow>
    keep1 I (case p of (x, y) \<Rightarrow> k x y)"
  by (auto simp: keep1_def keep_def kres_simps split: option.splits prod.splits)

lemma keep_Ok [keep_rules]: "I s \<Longrightarrow> keep I (Ok (v, s))"
  and keep_Panic [keep_rules]: "keep I (Panic m)"
  and keep_Blocked [keep_rules]: "keep I (Blocked chan)"
  and keep_bind1: "keep1 I c \<Longrightarrow> (\<And>s'. I s' \<Longrightarrow> keep I (f s')) \<Longrightarrow> keep I (kbind c f)"
  and keep_bind: "keep I d \<Longrightarrow> (\<And>x s'. I s' \<Longrightarrow> keep I (g x s')) \<Longrightarrow>
    keep I (kbind d (\<lambda>(x, s'). g x s'))"
  and keep_if [keep_rules]: "(b \<Longrightarrow> keep I d1) \<Longrightarrow> (\<not> b \<Longrightarrow> keep I d2) \<Longrightarrow> keep I (if b then d1 else d2)"
  and keep_option [keep_rules]: "(q = None \<Longrightarrow> keep I d1) \<Longrightarrow> (\<And>x. q = Some x \<Longrightarrow> keep I (h x)) \<Longrightarrow>
    keep I (case q of None \<Rightarrow> d1 | Some x \<Rightarrow> h x)"
  and keep_prod [keep_rules]: "(\<And>x y. p = (x, y) \<Longrightarrow> keep I (k x y)) \<Longrightarrow>
    keep I (case p of (x, y) \<Rightarrow> k x y)"
  by (auto simp: keep1_def keep_def kres_simps split: option.splits prod.splits)

text \<open>Results with two values beside the state.\<close>

definition keep3 :: "('s \<Rightarrow> bool) \<Rightarrow> ('v \<times> 'w \<times> 's) kres \<Rightarrow> bool" where
  "keep3 I c \<longleftrightarrow> (\<forall>v w s'. c = Ok (v, w, s') \<longrightarrow> I s')"

lemma keep3_Ok [keep_rules]: "I s \<Longrightarrow> keep3 I (Ok (v, w, s))"
  and keep3_if [keep_rules]: "(b \<Longrightarrow> keep3 I e1) \<Longrightarrow> (\<not> b \<Longrightarrow> keep3 I e2) \<Longrightarrow> keep3 I (if b then e1 else e2)"
  and keep3_option [keep_rules]: "(q = None \<Longrightarrow> keep3 I e1) \<Longrightarrow> (\<And>x. q = Some x \<Longrightarrow> keep3 I (h x)) \<Longrightarrow>
    keep3 I (case q of None \<Rightarrow> e1 | Some x \<Rightarrow> h x)"
  and keep3_prod [keep_rules]: "(\<And>x y. p = (x, y) \<Longrightarrow> keep3 I (k x y)) \<Longrightarrow>
    keep3 I (case p of (x, y) \<Rightarrow> k x y)"
  and keep3_bind: "keep I d \<Longrightarrow> (\<And>x s'. I s' \<Longrightarrow> keep3 I (g x s')) \<Longrightarrow>
    keep3 I (kbind d (\<lambda>(x, s'). g x s'))"
  and keep_bind3: "keep3 I e \<Longrightarrow> (\<And>x y s'. I s' \<Longrightarrow> keep I (m x y s')) \<Longrightarrow>
    keep I (kbind e (\<lambda>(x, y, s'). m x y s'))"
  by (auto simp: keep3_def keep_def kres_simps split: option.splits prod.splits)

lemmas keep_binds = keep1_bind1 keep1_bind keep_bind1 keep_bind keep3_bind keep_bind3

text \<open>Binding a computation whose result is no state.\<close>

lemma keep_bind_val: "(\<And>x. c = Ok x \<Longrightarrow> keep I (f x)) \<Longrightarrow> keep I (kbind c f)"
  and keep1_bind_val: "(\<And>x. c = Ok x \<Longrightarrow> keep1 I (g x)) \<Longrightarrow> keep1 I (kbind c g)"
  by (cases c; simp add: keep1_def keep_def)+

lemma keep1_kloop:
  assumes "\<And>j t. I t \<Longrightarrow> keep1 I (f j t)"
  shows "I s \<Longrightarrow> keep1 I (kloop f i k s)"
proof (induction k arbitrary: i s)
  case 0
  then show ?case by (simp add: keep1_def)
next
  case (Suc k)
  show ?case unfolding kloop.simps by (rule keep1_bind1 [OF assms [OF Suc.prems] Suc.IH])
qed

lemma keepD: "keep I c \<Longrightarrow> c = Ok (v, s') \<Longrightarrow> I s'"
  and keep1D: "keep1 I d \<Longrightarrow> d = Ok s' \<Longrightarrow> I s'"
  by (auto simp: keep_def keep1_def)

section \<open>The log\<close>

lemma txn_more:
  "tx_read b s = Ok (x, s') \<Longrightarrow> txn.more s' = txn.more s"
  "txn.more (tx_put b y s) = txn.more s"
  "tx_bwrite b s = Ok s1 \<Longrightarrow> txn.more s1 = txn.more s"
  "tx_release b s = Ok s1 \<Longrightarrow> txn.more s1 = txn.more s"
  "log_write b s = Ok s1 \<Longrightarrow> txn.more s1 = txn.more s"
  "begin_op s = Ok s1 \<Longrightarrow> txn.more s1 = txn.more s"
  by (auto simp: tx_read_def tx_put_def tx_bwrite_def tx_release_def log_write_def begin_op_def
      split: if_splits)

lemma write_head_more: "write_head s = Ok s' \<Longrightarrow> txn.more s' = txn.more s"
  unfolding write_head_def by (auto simp: kres_simps) (metis txn_more)

lemma install_trans_more: "install_trans s = Ok s' \<Longrightarrow> txn.more s' = txn.more s"
proof -
  have one: "install_one j t = Ok t' \<Longrightarrow> txn.more t' = txn.more t" for j and t t' :: "'a txn_scheme"
    unfolding install_one_def Let_def by (auto simp: kres_simps) (metis txn_more)
  assume "install_trans s = Ok s'"
  then show ?thesis
    unfolding install_trans_def
    by (rule kloop_inv [where I = "\<lambda>t. txn.more t = txn.more s"]) (auto dest: one)
qed

lemma write_log_more: "write_log s = Ok s' \<Longrightarrow> txn.more s' = txn.more s"
proof -
  have one: "write_log_one j t = Ok t' \<Longrightarrow> txn.more t' = txn.more t" for j and t t' :: "'a txn_scheme"
    unfolding write_log_one_def Let_def by (auto simp: kres_simps) (metis txn_more)
  assume "write_log s = Ok s'"
  then show ?thesis
    unfolding write_log_def
    by (rule kloop_inv [where I = "\<lambda>t. txn.more t = txn.more s"]) (auto dest: one)
qed

lemma end_op_more: "end_op s = Ok s' \<Longrightarrow> txn.more s' = txn.more s"
proof -
  have c: "commit t = Ok t' \<Longrightarrow> txn.more t' = txn.more t" for t t' :: "'a txn_scheme"
    unfolding commit_def
    by (auto simp: kres_simps split: if_splits dest!: write_log_more write_head_more install_trans_more)
  assume "end_op s = Ok s'"
  then show ?thesis
    unfolding end_op_def end_op_enter_def end_op_leave_def Let_def
    by (auto simp: kres_simps split: if_splits dest!: c)
qed

lemma fsys_more_of_txn: "txn.more s' = txn.more (s :: 'a fsys_scheme) \<Longrightarrow> fsys.more s' = fsys.more s"
  by (cases s; cases s') simp

section \<open>The file system\<close>

text \<open>An invariant \<open>I\<close> of the fields beyond those of the file system.\<close>

locale fs_frame =
  fixes I :: "'a fsys_scheme \<Rightarrow> bool"
  assumes stable: "I s \<Longrightarrow> fsys.more s' = fsys.more s \<Longrightarrow> I s'"
begin

lemma keep_blocks:
  assumes "I s"
  shows "keep I (fs_bread b s)" "keep1 I (fs_brelse b s)" "keep1 I (log_write b s)"
    "keep1 I (begin_op s)" "keep1 I (end_op s)"
  by (auto simp: keep_def keep1_def fs_bread_def fs_brelse_def dest: txn_more(1,3-6) end_op_more
      intro!: stable [OF assms] fsys_more_of_txn split: if_splits)

lemma keep_updates:
  assumes "I s"
  shows "I (tx_put b y s)" "I (set_inode i ip s)" "I (s\<lparr>last_alloc_hint := n\<rparr>)" "I (idup i s)"
  by (rule stable [OF assms]; simp add: tx_put_def set_inode_def idup_def)+

lemma keep_write_addr: "I s \<Longrightarrow> keep1 I (write_addr i j a s)"
  by (auto simp: write_addr_def keep1_def keep_updates split: if_splits)

lemmas block_rules = keep_rules keep_binds keep_blocks keep_updates keep_write_addr

lemma keep_bzero: "I s \<Longrightarrow> keep1 I (bzero b s)"
  unfolding bzero_def by (rule block_rules | assumption)+

lemma keep_balloc_bits: "I s \<Longrightarrow> keep I (balloc_bits bm i bt k s)"
proof (induction k arbitrary: bt s)
  case (Suc k)
  then show ?case
    unfolding balloc_bits.simps Let_def by - (rule block_rules keep_bzero Suc | assumption)+
qed (simp add: keep_def)

lemma keep_balloc_words: "I s \<Longrightarrow> keep I (balloc_words bm i k s)"
proof (induction k arbitrary: i s)
  case (Suc k)
  then show ?case
    unfolding balloc_words.simps by - (rule block_rules keep_balloc_bits Suc | assumption)+
qed (simp add: keep_def)

lemma keep_balloc_blocks: "I s \<Longrightarrow> keep I (balloc_blocks bm k s)"
proof (induction k arbitrary: bm s)
  case (Suc k)
  then show ?case
    unfolding balloc_blocks.simps by - (rule block_rules keep_balloc_words Suc | assumption)+
qed (simp add: keep_def)

lemma keep_balloc: "I s \<Longrightarrow> keep I (balloc s)"
  unfolding balloc_def Let_def by (rule block_rules keep_balloc_blocks | assumption)+

lemma keep_bfree: "I s \<Longrightarrow> keep1 I (bfree b s)"
  unfolding bfree_def Let_def by (rule block_rules | assumption)+

lemma keep_iget: "I s \<Longrightarrow> keep I (iget dev inum s)"
  unfolding iget_def by (rule block_rules | assumption)+

lemma keep_ialloc: "I s \<Longrightarrow> keep I (ialloc dev ty s)"
proof -
  have "I s \<Longrightarrow> keep I (ialloc_loop dev ty inum k s)" for inum k s
  proof (induction k arbitrary: inum s)
    case (Suc k)
    then show ?case
      unfolding ialloc_loop.simps Let_def by - (rule block_rules keep_iget Suc | assumption)+
  qed (simp add: keep_def)
  then show "I s \<Longrightarrow> keep I (ialloc dev ty s)" by (simp add: ialloc_def)
qed

lemma keep_iupdate: "I s \<Longrightarrow> keep1 I (iupdate pid ip s)"
  unfolding iupdate_def Let_def by (rule block_rules | assumption)+

lemma keep_ilock: "I s \<Longrightarrow> keep1 I (ilock pid ip s)"
  unfolding ilock_def Let_def by (rule block_rules keep1_bind_val | assumption)+

lemma keep_iunlock: "I s \<Longrightarrow> keep1 I (iunlock pid ip s)"
  unfolding iunlock_def Let_def by (rule block_rules | assumption)+

lemma keep_bmap:
  assumes "I s"
  shows "keep I (bmap ip bn s)"
proof -
  have a: "I s \<Longrightarrow> keep I (addr_or_alloc ip i s)" for i s
    unfolding addr_or_alloc_def by (rule block_rules keep_balloc keep_bind_val | assumption)+
  have b: "I s \<Longrightarrow> keep I (indirect_or_alloc a j s)" for a j s
    unfolding indirect_or_alloc_def Let_def by (rule block_rules keep_balloc | assumption)+
  show ?thesis using assms
    unfolding bmap_def Let_def by - (rule block_rules a b | assumption)+
qed

lemma keep_free_direct: "I s \<Longrightarrow> keep1 I (free_direct ip i s)"
  unfolding free_direct_def by (rule block_rules keep_bfree keep1_bind_val | assumption)+

lemma keep_free_indirect:
  assumes "\<And>b j t. I t \<Longrightarrow> keep1 I (f b j t)"
  shows "I s \<Longrightarrow> keep1 I (free_indirect ip i f s)"
  unfolding free_indirect_def
  by (rule block_rules keep_bfree keep1_kloop assms keep1_bind_val | assumption)+

lemma keep_free_entry: "I s \<Longrightarrow> keep1 I (free_entry b j s)"
  unfolding free_entry_def by (rule block_rules keep_bfree | assumption)+

lemma keep_free_table_entry: "I s \<Longrightarrow> keep1 I (free_table_entry b j s)"
  unfolding free_table_entry_def Let_def
  by (rule block_rules keep_bfree keep1_kloop keep_free_entry | assumption)+

lemma keep_itrunc: "I s \<Longrightarrow> keep1 I (itrunc pid ip s)"
  unfolding itrunc_def
  by (rule block_rules keep1_kloop keep_free_direct keep_free_indirect keep_free_entry
      keep_free_table_entry keep_iupdate | assumption)+

lemma keep_iput: "I s \<Longrightarrow> keep1 I (iput pid ip s)"
  unfolding iput_def Let_def
  by (rule block_rules keep_itrunc keep_iupdate keep1_bind_val | assumption)+

lemma keep_iunlockput: "I s \<Longrightarrow> keep1 I (iunlockput pid ip s)"
  unfolding iunlockput_def by (rule block_rules keep_iunlock keep_iput | assumption)+

lemmas inode_rules = block_rules keep_iget keep_ialloc keep_iupdate keep_ilock keep_iunlock keep_iput
  keep_iunlockput

lemma keep_readi_loop: "I s \<Longrightarrow> keep I (readi_loop ip off n s)"
proof (induction ip off n s rule: readi_loop.induct)
  case (1 ip off n s)
  show ?case
  proof (cases "n = 0")
    case True
    with 1 show ?thesis by (simp add: readi_loop.simps [of ip off 0] keep_def)
  next
    case False
    with 1(2) show ?thesis
      by (subst readi_loop.simps, unfold Let_def)
        (rule block_rules keep_bmap 1(1) [OF False refl] | assumption)+
  qed
qed

lemma keep_readi: "I s \<Longrightarrow> keep3 I (readi ip off n s)"
  unfolding readi_def Let_def by (rule block_rules keep_readi_loop | assumption)+

lemma keep_writei_loop: "I s \<Longrightarrow> keep1 I (writei_loop ip off src s)"
proof (induction ip off src s rule: writei_loop.induct)
  case (1 ip off src s)
  show ?case
  proof (cases "src = []")
    case True
    with 1 show ?thesis by (simp add: writei_loop.simps [of ip off "[]"] keep1_def)
  next
    case False
    with 1(2) show ?thesis
      by (subst writei_loop.simps, unfold Let_def)
        (rule block_rules keep_bmap 1(1) [OF False refl] | assumption)+
  qed
qed

lemma keep_writei: "I s \<Longrightarrow> keep I (writei pid ip src off s)"
  unfolding writei_def Let_def by (rule block_rules keep_writei_loop keep_iupdate | assumption)+

lemma keep_dirlookup: "I s \<Longrightarrow> keep I (dirlookup dp name s)"
proof -
  have "I s \<Longrightarrow> keep I (dirlookup_loop dp name off k s)" for off k s
  proof (induction k arbitrary: off s)
    case (Suc k)
    then show ?case
      unfolding dirlookup_loop.simps by - (rule block_rules keep_readi keep_iget Suc | assumption)+
  qed (simp add: keep_def)
  then show "I s \<Longrightarrow> keep I (dirlookup dp name s)" by (simp add: dirlookup_def keep_Panic)
qed

lemma keep_dirlink: "I s \<Longrightarrow> keep I (dirlink pid dp name inum s)"
proof -
  have loop: "I s \<Longrightarrow> keep I (free_slot_loop dp off k s)" for off k s
  proof (induction k arbitrary: off s)
    case (Suc k)
    then show ?case
      unfolding free_slot_loop.simps by - (rule block_rules keep_readi Suc | assumption)+
  qed (simp add: keep_def)
  show "I s \<Longrightarrow> keep I (dirlink pid dp name inum s)"
    unfolding dirlink_def
    by (rule block_rules keep_dirlookup keep_iput keep_writei loop | assumption)+
qed

lemma keep_namex_loop: "I s \<Longrightarrow> keep I (namex_loop pid par path name ip s)"
proof (induction pid par path name ip s rule: namex_loop.induct)
  case (1 pid par path name ip s)
  show ?case
  proof (cases "skipelem path name")
    case None
    with 1(2) show ?thesis
      by (subst namex_loop.simps, simp) (rule inode_rules impI conjI | assumption)+
  next
    case (Some q)
    obtain rest name1 where q: "q = (rest, name1)" by (cases q)
    have IH: "I t \<Longrightarrow> r = Some (nxt, o1) \<Longrightarrow> i_type (inode_at s1 ip) = T_DIR \<Longrightarrow> \<not> (par \<and> rest = []) \<Longrightarrow>
        keep I (namex_loop pid par rest name1 nxt t)" for s1 t :: "'a fsys_scheme" and r :: "(nat \<times> nat) option" and nxt o1
      using 1(1) [OF Some q [symmetric], of s1 r "(nxt, o1)" nxt o1 t] by simp
    show ?thesis
      using 1(2) Some q
      by (subst namex_loop.simps, simp)
        (rule inode_rules keep_dirlookup | assumption | rule IH | simp)+
  qed
qed

lemma keep_namex: "I s \<Longrightarrow> keep I (namex pid cwd path par name s)"
  unfolding namex_def by (rule inode_rules keep_namex_loop | assumption)+

lemma keep_names:
  assumes "I s"
  shows "keep I (namei pid cwd path s)" "keep I (nameiparent pid cwd path s)"
  using assms unfolding namei_def nameiparent_def
  by - (rule inode_rules keep_namex | assumption)+

lemmas fs_rules = inode_rules keep_readi keep_writei keep_dirlookup keep_dirlink keep_names

end

end
