(* ===== verification/File.thy ===== *)
theory File
  imports Frame Pipe Kalloc
begin

text \<open>
  Open files, \<open>kernel/file.c\<close>, and \<open>pipealloc\<close> of \<open>kernel/pipe.c\<close>.

  The state adds to the file system the kernel memory of the page allocator, the pipes at the
  kernel addresses of their pages, the table of open files and the wake-ups that have been sent.
  A pointer to an open file is the index of its slot.  The fields of a closed slot keep their
  old values except the two that \<open>fileclose\<close> resets, as in the code.
\<close>

abbreviation NFILE :: nat where "NFILE \<equiv> 100"

datatype ftype = FD_NONE | FD_PIPE | FD_INODE

record kfile =
  f_type :: ftype
  f_ref :: int
  f_readable :: bool
  f_writable :: bool
  f_pipe :: uint
  f_ip :: nat
  f_off :: uint

record ksys = fsys +
  kmm :: kmem
  pipes :: "uint \<Rightarrow> pipe"
  ftable :: "nat \<Rightarrow> kfile"
  woken :: "(uint \<times> pipe_chan) list"

definition set_file :: "nat \<Rightarrow> kfile \<Rightarrow> 'a ksys_scheme \<Rightarrow> 'a ksys_scheme" where
  "set_file f x s = s\<lparr>ftable := (ftable s)(f := x)\<rparr>"

section \<open>The table of open files\<close>

definition filealloc :: "'a ksys_scheme \<Rightarrow> (nat \<times> 'a ksys_scheme) option" where
  "filealloc s =
     (case scan (\<lambda>i. f_ref (ftable s i) = 0) 0 NFILE of
        None \<Rightarrow> None
      | Some f \<Rightarrow> Some (f, set_file f ((ftable s f)\<lparr>f_ref := 1\<rparr>) s))"

definition filedup :: "nat \<Rightarrow> 'a ksys_scheme \<Rightarrow> 'a ksys_scheme kres" where
  "filedup f s =
     (if f_ref (ftable s f) < 1 then Panic ''filedup''
      else Ok (set_file f ((ftable s f)\<lparr>f_ref := f_ref (ftable s f) + 1\<rparr>) s))"

text \<open>\<open>pipeclose\<close> of \<open>pipe.c\<close> on the pipe at address \<open>p\<close>: it frees the page when both ends are
  closed.\<close>

definition close_pipe :: "uint \<Rightarrow> uint \<Rightarrow> bool \<Rightarrow> 'a ksys_scheme \<Rightarrow> 'a ksys_scheme kres" where
  "close_pipe kend p writable s =
     (case pipeclose writable (pipes s p) of
        (Some q, w) \<Rightarrow> Ok (s\<lparr>pipes := (pipes s)(p := q), woken := woken s @ map (Pair p) w\<rparr>)
      | (None, w) \<Rightarrow> kbind (kfree kend p (kmm s)) (\<lambda>k.
          Ok (s\<lparr>kmm := k, woken := woken s @ map (Pair p) w\<rparr>)))"

definition fileclose :: "uint \<Rightarrow> int \<Rightarrow> nat \<Rightarrow> 'a ksys_scheme \<Rightarrow> 'a ksys_scheme kres" where
  "fileclose kend pid f s =
     (let x = ftable s f in
      if f_ref x < 1 then Panic ''fileclose''
      else if 0 < f_ref x - 1 then Ok (set_file f (x\<lparr>f_ref := f_ref x - 1\<rparr>) s)
      else let s1 = set_file f (x\<lparr>f_ref := 0, f_type := FD_NONE\<rparr>) s in
        case f_type x of
          FD_PIPE \<Rightarrow> close_pipe kend (f_pipe x) (f_writable x) s1
        | FD_INODE \<Rightarrow> kbind (begin_op s1) (\<lambda>s2. kbind (iput pid (f_ip x) s2) end_op)
        | FD_NONE \<Rightarrow> Ok s1)"

definition filestat :: "int \<Rightarrow> nat \<Rightarrow> 'a ksys_scheme \<Rightarrow> ((int \<times> stat option) \<times> 'a ksys_scheme) kres" where
  "filestat pid f s =
     (let x = ftable s f in
      if f_type x = FD_INODE
      then kbind (ilock pid (f_ip x) s) (\<lambda>s1.
           let st = stati (f_ip x) s1 in
           kbind (iunlock pid (f_ip x) s1) (\<lambda>s2. Ok ((0, Some st), s2)))
      else Ok ((-1, None), s))"

text \<open>A read returns the result of the call and the bytes stored at \<open>addr\<close>.  A read of a pipe sleeps only before it has taken
  anything from it, so that \<open>Blocked\<close> leaves the state as it was.\<close>

definition fileread :: "int \<Rightarrow> bool \<Rightarrow> nat \<Rightarrow> int \<Rightarrow> 'a ksys_scheme
    \<Rightarrow> ((int \<times> uchar list) \<times> 'a ksys_scheme) kres" where
  "fileread pid killed f n s =
     (let x = ftable s f in
      if \<not> f_readable x then Ok ((-1, []), s)
      else case f_type x of
        FD_PIPE \<Rightarrow>
          (case piperead killed n (pipes s (f_pipe x)) of
             (p, bs, w, Returns r) \<Rightarrow>
               Ok ((r, bs), s\<lparr>pipes := (pipes s)(f_pipe x := p), woken := woken s @ map (Pair (f_pipe x)) w\<rparr>)
           | (p, bs, w, Sleeps i) \<Rightarrow> Blocked ''pipe'')
      | FD_INODE \<Rightarrow>
          kbind (ilock pid (f_ip x) s) (\<lambda>s1.
          kbind (readi (f_ip x) (f_off x) (of_int n) s1) (\<lambda>(r, bs, s2).
            let s3 = (if 0 < r then set_file f ((ftable s2 f)\<lparr>f_off := f_off (ftable s2 f) + of_int r\<rparr>) s2
                      else s2) in
            kbind (iunlock pid (f_ip x) s3) (\<lambda>s4. Ok ((r, bs), s4))))
      | FD_NONE \<Rightarrow> Panic ''fileread'')"

abbreviation max_chunk :: nat where
  "max_chunk \<equiv> (MAXOPBLOCKS - 1 - 1 - 2) div 2 * 512"

function filewrite_loop :: "int \<Rightarrow> nat \<Rightarrow> uchar list \<Rightarrow> 'a ksys_scheme \<Rightarrow> (bool \<times> 'a ksys_scheme) kres" where
  "filewrite_loop pid f src s =
     (if src = [] then Ok (True, s)
      else let x = ftable s f; chunk = take max_chunk src in
        kbind (begin_op s) (\<lambda>s1.
        kbind (ilock pid (f_ip x) s1) (\<lambda>s2.
        kbind (writei pid (f_ip x) chunk (f_off x) s2) (\<lambda>(r, s3).
          let s4 = (if 0 < r then set_file f ((ftable s3 f)\<lparr>f_off := f_off (ftable s3 f) + of_int r\<rparr>) s3
                    else s3) in
          kbind (iunlock pid (f_ip x) s4) (\<lambda>s5.
          kbind (end_op s5) (\<lambda>s6.
            if r < 0 then Ok (False, s6)
            else if r \<noteq> int (length chunk) then Panic ''short filewrite''
            else filewrite_loop pid f (drop max_chunk src) s6))))))"
  by pat_completeness auto
termination
  by (relation "measure (\<lambda>(pid, f, src, s). length src)") auto

declare filewrite_loop.simps [simp del]

definition filewrite :: "int \<Rightarrow> bool \<Rightarrow> nat \<Rightarrow> (nat \<Rightarrow> uchar) \<Rightarrow> int \<Rightarrow> 'a ksys_scheme
    \<Rightarrow> (int \<times> 'a ksys_scheme) kres" where
  "filewrite pid killed f addr n s =
     (let x = ftable s f in
      if \<not> f_writable x then Ok (-1, s)
      else case f_type x of
        FD_PIPE \<Rightarrow>
          (case pipewrite killed addr n (pipes s (f_pipe x)) of
             (p, w, Returns r) \<Rightarrow>
               Ok (r, s\<lparr>pipes := (pipes s)(f_pipe x := p), woken := woken s @ map (Pair (f_pipe x)) w\<rparr>)
           | (p, w, Sleeps i) \<Rightarrow> Blocked ''pipe'')
      | FD_INODE \<Rightarrow>
          kbind (filewrite_loop pid f (map addr [0..<nat n]) s) (\<lambda>(done_all, s1).
            Ok (if done_all \<and> 0 \<le> n then n else -1, s1))
      | FD_NONE \<Rightarrow> Panic ''filewrite'')"

section \<open>Creating a pipe\<close>

definition close_opt :: "uint \<Rightarrow> int \<Rightarrow> nat option \<Rightarrow> 'a ksys_scheme \<Rightarrow> 'a ksys_scheme kres" where
  "close_opt kend pid fo s = (case fo of None \<Rightarrow> Ok s | Some f \<Rightarrow> fileclose kend pid f s)"

text \<open>The code's \<open>bad:\<close> label; no page has been allocated when it is reached.\<close>

definition pipe_bad :: "uint \<Rightarrow> int \<Rightarrow> nat option \<Rightarrow> nat option \<Rightarrow> 'a ksys_scheme
    \<Rightarrow> ((nat \<times> nat) option \<times> 'a ksys_scheme) kres" where
  "pipe_bad kend pid f0 f1 s =
     kbind (close_opt kend pid f0 s) (\<lambda>s1. kbind (close_opt kend pid f1 s1) (\<lambda>s2. Ok (None, s2)))"

definition pipealloc :: "uint \<Rightarrow> int \<Rightarrow> 'a ksys_scheme \<Rightarrow> ((nat \<times> nat) option \<times> 'a ksys_scheme) kres" where
  "pipealloc kend pid s =
     (case filealloc s of
        None \<Rightarrow> pipe_bad kend pid None None s
      | Some (f0, s1) \<Rightarrow>
          (case filealloc s1 of
             None \<Rightarrow> pipe_bad kend pid (Some f0) None s1
           | Some (f1, s2) \<Rightarrow>
               (case kalloc (kmm s2) of
                  (p, k) \<Rightarrow>
                    let s3 = s2\<lparr>kmm := k\<rparr> in
                    if p = 0 then pipe_bad kend pid (Some f0) (Some f1) s3
                    else
                      let s4 = s3\<lparr>pipes := (pipes s3)(p := (pipes s3 p)\<lparr>readopen := True, writeopen := True,
                                 nwrite := 0, nread := 0\<rparr>)\<rparr>;
                          s5 = set_file f0 ((ftable s4 f0)\<lparr>f_type := FD_PIPE, f_readable := True,
                                 f_writable := False, f_pipe := p\<rparr>) s4;
                          s6 = set_file f1 ((ftable s5 f1)\<lparr>f_type := FD_PIPE, f_readable := False,
                                 f_writable := True, f_pipe := p\<rparr>) s5
                      in Ok (Some (f0, f1), s6))))"

section \<open>Operations that leave the table of open files alone\<close>

lemma ksys_of_more:
  assumes "fsys.more s' = fsys.more (s :: 'a ksys_scheme)"
  shows "ftable s' = ftable s" "pipes s' = pipes s" "kmm s' = kmm s" "woken s' = woken s"
  using assms by (cases s; cases s'; simp)+

interpretation ftab_frame: fs_frame "\<lambda>s :: 'a ksys_scheme. ftable s = t" for t
  by unfold_locales (metis ksys_of_more(1))

section \<open>The table as a slot table\<close>

lemma filealloc_SomeD:
  assumes "filealloc s = Some (f, s')"
  shows "f < NFILE" "f_ref (ftable s f) = 0" "s' = set_file f ((ftable s f)\<lparr>f_ref := 1\<rparr>) s"
  using assms by (auto simp: filealloc_def split: option.splits dest: scan_SomeD)

interpretation filetab: slot_table "\<lambda>s i. f_ref (ftable s i) = 0" NFILE "filealloc :: ksys \<Rightarrow> _"
proof (unfold_locales, goal_cases)
  case 1
  then show ?case using filealloc_SomeD by blast
next
  case 2
  then show ?case using filealloc_SomeD(3) by (fastforce simp: set_file_def)
next
  case 3
  then show ?case using filealloc_SomeD(3) by (fastforce simp: set_file_def)
next
  case 4
  then show ?case by (auto simp: filealloc_def scan_eq_None split: option.splits)
qed

section \<open>References\<close>

text \<open>Clients of the table: \<open>refs\<close> lists the references they hold, one entry for each.\<close>

inductive fref_reach :: "uint \<Rightarrow> ksys \<Rightarrow> nat list \<Rightarrow> bool" for kend where
  fref_start: "(\<And>i. f_ref (ftable s i) = 0) \<Longrightarrow> fref_reach kend s []"
| fref_alloc: "fref_reach kend s refs \<Longrightarrow> filealloc s = Some (f, s') \<Longrightarrow> fref_reach kend s' (f # refs)"
| fref_setup: "fref_reach kend s refs \<Longrightarrow> f \<in> set refs \<Longrightarrow> f_ref x = f_ref (ftable s f) \<Longrightarrow>
    fref_reach kend (set_file f x s) refs"
| fref_dup: "fref_reach kend s refs \<Longrightarrow> f \<in> set refs \<Longrightarrow> filedup f s = Ok s' \<Longrightarrow> fref_reach kend s' (f # refs)"
| fref_close: "fref_reach kend s refs \<Longrightarrow> f \<in> set refs \<Longrightarrow> fileclose kend pid f s = Ok s' \<Longrightarrow>
    fref_reach kend s' (remove1 f refs)"

lemma close_pipe_ftable: "close_pipe kend p w s = Ok s' \<Longrightarrow> ftable s' = ftable s"
  by (auto simp: close_pipe_def kres_simps split: prod.splits option.splits)

lemma fileclose_ref:
  fixes s :: "'a ksys_scheme"
  assumes "fileclose kend pid f s = Ok s'"
  shows "1 \<le> f_ref (ftable s f) \<and>
    (\<forall>i. f_ref (ftable s' i) = (if i = f then f_ref (ftable s i) - 1 else f_ref (ftable s i)))"
proof -
  let ?x = "ftable s f"
  have r: "1 \<le> f_ref ?x" using assms by (auto simp: fileclose_def Let_def split: if_splits)
  show ?thesis
  proof (cases "0 < f_ref ?x - 1")
    case True
    with assms r show ?thesis by (auto simp: fileclose_def Let_def set_file_def)
  next
    case False
    let ?s1 = "set_file f (?x\<lparr>f_ref := 0, f_type := FD_NONE\<rparr>) s"
    have "ftable s' = ftable ?s1"
    proof (cases "f_type ?x")
      case FD_NONE
      with False assms r show ?thesis by (auto simp: fileclose_def Let_def)
    next
      case FD_PIPE
      with False assms r show ?thesis by (auto simp: fileclose_def Let_def dest: close_pipe_ftable)
    next
      case FD_INODE
      have "keep1 (\<lambda>s. ftable s = ftable ?s1)
          (kbind (begin_op ?s1) (\<lambda>s2. kbind (iput pid (f_ip ?x) s2) end_op))"
        by (rule ftab_frame.inode_rules refl | assumption)+
      moreover have "kbind (begin_op ?s1) (\<lambda>s2. kbind (iput pid (f_ip ?x) s2) end_op) = Ok s'"
        using FD_INODE False assms r by (simp add: fileclose_def Let_def)
      ultimately show ?thesis by (rule keep1D)
    qed
    with r False show ?thesis by (auto simp: set_file_def)
  qed
qed

lemma fref_count: "fref_reach kend s refs \<Longrightarrow> f_ref (ftable s i) = int (count_list refs i)"
proof (induction arbitrary: i rule: fref_reach.induct)
  case (fref_start s)
  then show ?case by simp
next
  case (fref_alloc s refs f s')
  then show ?case using filealloc_SomeD [OF fref_alloc.hyps(2)] by (auto simp: set_file_def)
next
  case (fref_setup s refs f x)
  then show ?case by (simp add: set_file_def)
next
  case (fref_dup s refs f s')
  then show ?case by (auto simp: filedup_def set_file_def split: if_splits)
next
  case (fref_close s refs f pid s')
  have "count_list (remove1 f refs) i = (if i = f then count_list refs i - 1 else count_list refs i)" for i
    by (induction refs) auto
  moreover have "0 < count_list refs f" using fref_close.hyps(2) count_list_0_iff [of refs f] by auto
  ultimately show ?case
    using fileclose_ref [OF fref_close.hyps(3)] fref_close.IH by (auto simp: of_nat_diff)
qed

text \<open>C32: reference counts of open files are exact: in every state that allocating, sharing, setting up
  and closing files can reach, the count of each slot is the number of references held, so \<open>filedup\<close>
  and \<open>fileclose\<close> never panic for a reference that is held, a held file is never handed out by
  \<open>filealloc\<close>, and a slot becomes free exactly when its last reference is closed.\<close>

theorem file_refs_exact:
  assumes "fref_reach kend s refs"
  shows "(\<forall>i. f_ref (ftable s i) = int (count_list refs i)) \<and>
    (\<forall>f\<in>set refs. (\<exists>s'. filedup f s = Ok s') \<and>
       (1 < count_list refs f \<longrightarrow> (\<exists>s'. fileclose kend pid f s = Ok s')) \<and>
       (\<forall>s'. fileclose kend pid f s = Ok s' \<longrightarrow>
          (f_ref (ftable s' f) = 0 \<longleftrightarrow> count_list refs f = 1))) \<and>
    (\<forall>f s'. filealloc s = Some (f, s') \<longrightarrow> f \<notin> set refs) \<and>
    (filealloc s = None \<longleftrightarrow> (\<forall>i<NFILE. i \<in> set refs))"
proof -
  note c = fref_count [OF assms]
  have in_iff: "f \<in> set refs \<longleftrightarrow> 0 < count_list refs f" for f
    using count_list_0_iff [of refs f] by auto
  have dup: "\<exists>s'. filedup f s = Ok s'" if "f \<in> set refs" for f
    using that c [of f] in_iff [of f] by (simp add: filedup_def)
  have shared: "\<exists>s'. fileclose kend pid f s = Ok s'" if "1 < count_list refs f" for f
    using that c [of f] by (simp add: fileclose_def Let_def)
  have last: "f_ref (ftable s' f) = 0 \<longleftrightarrow> count_list refs f = 1"
    if "fileclose kend pid f s = Ok s'" for f s'
    using fileclose_ref [OF that] c [of f] by auto
  have fresh: "f \<notin> set refs" if "filealloc s = Some (f, s')" for f s'
    using filetab.claim_from [OF that] c [of f] in_iff [of f] by simp
  have full: "filealloc s = None \<longleftrightarrow> (\<forall>i<NFILE. i \<in> set refs)"
    using filetab.claim_succeeds_iff [of s] c in_iff by auto
  show ?thesis using c dup shared last fresh full by blast
qed

definition demo_ksys :: ksys where
  "demo_ksys = fsys.extend demo_fs (ksys.fields \<lparr>use_lock = False, freelist = 0x80300000, store = (\<lambda>_. 0)\<rparr>
     (\<lambda>_. pipe_init (replicate 512 0))
     (\<lambda>_. \<lparr>f_type = FD_NONE, f_ref = 0, f_readable = False, f_writable = False, f_pipe = 0, f_ip = 0, f_off = 0\<rparr>) [])"

lemma demo_ftable: "f_ref (ftable demo_ksys i) = 0"
  by (simp add: demo_ksys_def fsys.defs ksys.defs)

theorem file_refs_exact_witness:
  "\<exists>s1 s2. filealloc demo_ksys = Some (0, s1) \<and> filedup 0 s1 = Ok s2 \<and> f_ref (ftable s2 0) = 2 \<and>
     (\<exists>s3. fileclose 0 7 0 s2 = Ok s3)"
proof -
  have "scan (\<lambda>i. f_ref (ftable demo_ksys i) = 0) 0 NFILE = Some 0"
    by (simp add: scan_eq_Some demo_ftable)
  then obtain s1 where a: "filealloc demo_ksys = Some (0, s1)" by (simp add: filealloc_def)
  have r1: "fref_reach 0 s1 [0]" by (rule fref_alloc [OF fref_start a]) (rule demo_ftable)
  then obtain s2 where d: "filedup 0 s1 = Ok s2" using file_refs_exact [OF r1, of 7] by auto
  have r2: "fref_reach 0 s2 [0, 0]" by (rule fref_dup [OF r1 _ d]) simp
  from file_refs_exact [OF r2, of 7] a d show ?thesis by auto
qed

text \<open>\<open>pipealloc\<close> either returns two distinct files that were free, the reading and the writing end of
  one fresh pipe whose page came from \<open>kalloc\<close>, or fails and leaves every reference count as it was.\<close>

lemma fileclose_fresh:
  assumes "f_ref (ftable s f) = 1" "f_type (ftable s f) = FD_NONE"
  shows "fileclose kend pid f s = Ok (set_file f ((ftable s f)\<lparr>f_ref := 0, f_type := FD_NONE\<rparr>) s)"
  using assms by (simp add: fileclose_def Let_def)

theorem pipealloc_all_or_nothing:
  assumes none: "\<And>i. f_ref (ftable s i) = 0 \<Longrightarrow> f_type (ftable s i) = FD_NONE"
  shows "\<exists>r s'. pipealloc kend pid s = Ok (r, s') \<and>
    (case r of
       None \<Rightarrow> (\<forall>i. f_ref (ftable s' i) = f_ref (ftable s i)) \<and> pipes s' = pipes s \<and> kmm s' = kmm s
     | Some (f0, f1) \<Rightarrow> f0 \<noteq> f1 \<and> f_ref (ftable s f0) = 0 \<and> f_ref (ftable s f1) = 0 \<and>
         fst (kalloc (kmm s)) \<noteq> 0 \<and> kmm s' = snd (kalloc (kmm s)) \<and>
         f_pipe (ftable s' f0) = fst (kalloc (kmm s)) \<and> f_pipe (ftable s' f1) = fst (kalloc (kmm s)) \<and>
         f_readable (ftable s' f0) \<and> \<not> f_writable (ftable s' f0) \<and>
         \<not> f_readable (ftable s' f1) \<and> f_writable (ftable s' f1) \<and>
         pipe_empty (pipes s' (fst (kalloc (kmm s)))))"
proof (cases "filealloc s")
  case None
  then show ?thesis by (simp add: pipealloc_def pipe_bad_def close_opt_def)
next
  case (Some q)
  obtain f0 s1 where q: "q = (f0, s1)" by (cases q)
  note a0 = filealloc_SomeD [OF Some [unfolded q]]
  have t0: "f_type (ftable s1 f0) = FD_NONE" "f_ref (ftable s1 f0) = 1"
    using a0 none by (auto simp: set_file_def)
  show ?thesis
  proof (cases "filealloc s1")
    case None
    with Some q a0 t0 show ?thesis
      by (auto simp: pipealloc_def pipe_bad_def close_opt_def fileclose_fresh set_file_def)
  next
    case s1: (Some r)
    obtain f1 s2 where r: "r = (f1, s2)" by (cases r)
    note a1 = filealloc_SomeD [OF s1 [unfolded r]]
    have ne: "f0 \<noteq> f1" using a1(2) t0(2) by auto
    have f1: "f_ref (ftable s f1) = 0" using a1(2) a0(3) ne by (simp add: set_file_def)
    obtain p k where p: "kalloc (kmm s) = (p, k)" by (cases "kalloc (kmm s)")
    have km: "kmm s2 = kmm s" using a0(3) a1(3) by (simp add: set_file_def)
    have t1: "f_type (ftable s2 f1) = FD_NONE" "f_ref (ftable s2 f1) = 1"
      "f_type (ftable s2 f0) = FD_NONE" "f_ref (ftable s2 f0) = 1"
      using a1 a0 ne f1 none t0 by (auto simp: set_file_def)
    show ?thesis
    proof (cases "p = 0")
      case True
      have k: "k = kmm s" using p True by (auto simp: kalloc_def Let_def split: if_splits)
      let ?s3 = "s2\<lparr>kmm := k\<rparr>"
      let ?s4 = "set_file f0 ((ftable ?s3 f0)\<lparr>f_ref := 0, f_type := FD_NONE\<rparr>) ?s3"
      let ?s5 = "set_file f1 ((ftable ?s4 f1)\<lparr>f_ref := 0, f_type := FD_NONE\<rparr>) ?s4"
      have "fileclose kend pid f0 ?s3 = Ok ?s4" by (rule fileclose_fresh) (use t1 in simp_all)
      moreover have "fileclose kend pid f1 ?s4 = Ok ?s5"
        by (rule fileclose_fresh) (use t1 ne in \<open>simp_all add: set_file_def\<close>)
      ultimately have "pipealloc kend pid s = Ok (None, ?s5)"
        using Some q s1 r km p True by (simp add: pipealloc_def pipe_bad_def close_opt_def)
      moreover have "f_ref (ftable ?s5 i) = f_ref (ftable s i)" for i
        using a0 a1 ne f1 by (auto simp: set_file_def)
      ultimately show ?thesis using a0(3) a1(3) k by (auto simp: set_file_def)
    next
      case False
      with Some q s1 r km p a0 a1 ne f1 show ?thesis
        by (simp add: pipealloc_def Let_def set_file_def pipe_empty_def)
    qed
  qed
qed

theorem pipealloc_all_or_nothing_witness:
  "\<exists>r s'. pipealloc 0x80100000 7 demo_ksys = Ok (r, s')"
  using pipealloc_all_or_nothing [of demo_ksys "0x80100000" 7]
  by (auto simp: demo_ksys_def fsys.defs ksys.defs)

end
