(* ===== verification/Sysfile.thy ===== *)
theory Sysfile
  imports File
begin

text \<open>
  The file system calls, \<open>kernel/sysfile.c\<close>, with the fetching of their arguments from user
  memory, \<open>kernel/syscall.c\<close>.

  The state adds the running process to that of the open files: its memory below \<open>sz\<close>, the user
  stack pointer of its trap frame, its current directory and its descriptors.  A system call
  returns the value of \<open>eax\<close> and the new state.
\<close>

abbreviation NOFILE :: nat where "NOFILE \<equiv> 64"

record uproc =
  u_pid :: int
  u_killed :: bool
  u_sz :: uint
  u_esp :: uint
  u_mem :: "uint \<Rightarrow> uchar"
  u_cwd :: nat
  u_ofile :: "nat \<Rightarrow> nat option"

record sysst = ksys +
  cur :: uproc

abbreviation pid_of :: "'a sysst_scheme \<Rightarrow> int" where "pid_of s \<equiv> u_pid (cur s)"
abbreviation cwd_of :: "'a sysst_scheme \<Rightarrow> nat" where "cwd_of s \<equiv> u_cwd (cur s)"

section \<open>Arguments\<close>

definition fetchint :: "uint \<Rightarrow> uproc \<Rightarrow> uint option" where
  "fetchint addr p =
     (if u_sz p \<le> addr \<or> u_sz p < addr + 4 then None
      else Some (get32 (\<lambda>i. u_mem p (addr + of_nat i)) 0))"

text \<open>The length of the string at \<open>addr\<close>, when it ends before the end of the process memory.\<close>

definition fetchstr :: "uint \<Rightarrow> uproc \<Rightarrow> nat option" where
  "fetchstr addr p =
     (if u_sz p \<le> addr then None
      else scan (\<lambda>i. u_mem p (addr + of_nat i) = 0) 0 (unat (u_sz p) - unat addr))"

definition argint :: "nat \<Rightarrow> uproc \<Rightarrow> uint option" where
  "argint n p = fetchint (u_esp p + 4 + 4 * of_nat n) p"

definition argptr :: "nat \<Rightarrow> int \<Rightarrow> uproc \<Rightarrow> uint option" where
  "argptr n sz p =
     (case argint n p of
        None \<Rightarrow> None
      | Some i \<Rightarrow> if sz < 0 \<or> u_sz p \<le> i \<or> u_sz p < i + of_int sz then None else Some i)"

definition user_bytes :: "uint \<Rightarrow> nat \<Rightarrow> uproc \<Rightarrow> uchar list" where
  "user_bytes addr n p = map (\<lambda>i. u_mem p (addr + of_nat i)) [0..<n]"

definition argstr :: "nat \<Rightarrow> uproc \<Rightarrow> uchar list option" where
  "argstr n p =
     (case argint n p of
        None \<Rightarrow> None
      | Some addr \<Rightarrow> map_option (\<lambda>len. user_bytes addr len p) (fetchstr addr p))"

text \<open>Storing to user memory.\<close>

fun store_user :: "uint \<Rightarrow> uchar list \<Rightarrow> (uint \<Rightarrow> uchar) \<Rightarrow> (uint \<Rightarrow> uchar)" where
  "store_user a [] m = m"
| "store_user a (x # xs) m = store_user (a + 1) xs (m(a := x))"

definition set_user :: "uint \<Rightarrow> uchar list \<Rightarrow> 'a sysst_scheme \<Rightarrow> 'a sysst_scheme" where
  "set_user a xs s = s\<lparr>cur := (cur s)\<lparr>u_mem := store_user a xs (u_mem (cur s))\<rparr>\<rparr>"

definition le32 :: "uint \<Rightarrow> uchar list" where
  "le32 v = bytes_of (put32 zero_block 0 v) 0 4"

section \<open>Descriptors\<close>

definition argfd :: "nat \<Rightarrow> uproc \<Rightarrow> (nat \<times> nat) option" where
  "argfd n p =
     (case argint n p of
        None \<Rightarrow> None
      | Some v \<Rightarrow>
          let fd = sint v in
          if fd < 0 \<or> int NOFILE \<le> fd then None
          else map_option (Pair (nat fd)) (u_ofile p (nat fd)))"

definition set_ofile :: "nat \<Rightarrow> nat option \<Rightarrow> 'a sysst_scheme \<Rightarrow> 'a sysst_scheme" where
  "set_ofile fd fo s = s\<lparr>cur := (cur s)\<lparr>u_ofile := (u_ofile (cur s))(fd := fo)\<rparr>\<rparr>"

definition fdalloc :: "nat \<Rightarrow> 'a sysst_scheme \<Rightarrow> (nat \<times> 'a sysst_scheme) option" where
  "fdalloc f s =
     (case scan (\<lambda>fd. u_ofile (cur s) fd = None) 0 NOFILE of
        None \<Rightarrow> None
      | Some fd \<Rightarrow> Some (fd, set_ofile fd (Some f) s))"

section \<open>Calls on descriptors\<close>

definition sys_dup :: "'a sysst_scheme \<Rightarrow> (int \<times> 'a sysst_scheme) kres" where
  "sys_dup s =
     (case argfd 0 (cur s) of
        None \<Rightarrow> Ok (-1, s)
      | Some (_, f) \<Rightarrow>
          (case fdalloc f s of
             None \<Rightarrow> Ok (-1, s)
           | Some (fd, s1) \<Rightarrow> kbind (filedup f s1) (\<lambda>s2. Ok (int fd, s2))))"

text \<open>The file, the count and the buffer of \<open>read\<close> and \<open>write\<close>.\<close>

definition rw_args :: "uproc \<Rightarrow> (nat \<times> int \<times> uint) option" where
  "rw_args p =
     (case argfd 0 p of
        None \<Rightarrow> None
      | Some (_, f) \<Rightarrow>
          (case argint 2 p of
             None \<Rightarrow> None
           | Some n \<Rightarrow> map_option (\<lambda>a. (f, sint n, a)) (argptr 1 (sint n) p)))"

definition sys_read :: "'a sysst_scheme \<Rightarrow> (int \<times> 'a sysst_scheme) kres" where
  "sys_read s =
     (case rw_args (cur s) of
        None \<Rightarrow> Ok (-1, s)
      | Some (f, n, a) \<Rightarrow>
          kbind (fileread (pid_of s) (u_killed (cur s)) f n s) (\<lambda>((r, bs), s1). Ok (r, set_user a bs s1)))"

definition sys_write :: "'a sysst_scheme \<Rightarrow> (int \<times> 'a sysst_scheme) kres" where
  "sys_write s =
     (case rw_args (cur s) of
        None \<Rightarrow> Ok (-1, s)
      | Some (f, n, a) \<Rightarrow>
          filewrite (pid_of s) (u_killed (cur s)) f (\<lambda>i. u_mem (cur s) (a + of_nat i)) n s)"

definition sys_close :: "uint \<Rightarrow> 'a sysst_scheme \<Rightarrow> (int \<times> 'a sysst_scheme) kres" where
  "sys_close kend s =
     (case argfd 0 (cur s) of
        None \<Rightarrow> Ok (-1, s)
      | Some (fd, f) \<Rightarrow>
          kbind (fileclose kend (pid_of s) f (set_ofile fd None s)) (\<lambda>s1. Ok (0, s1)))"

text \<open>\<open>struct stat\<close> in memory; the two bytes behind each \<open>short\<close> are padding.\<close>

definition set_stat :: "uint \<Rightarrow> stat \<Rightarrow> 'a sysst_scheme \<Rightarrow> 'a sysst_scheme" where
  "set_stat a st s =
     set_user a (take 2 (le32 (ucast (st_type st))))
       (set_user (a + 4) (le32 (of_nat (st_dev st)) @ le32 (of_nat (st_ino st)))
         (set_user (a + 12) (take 2 (le32 (ucast (st_nlink st))))
           (set_user (a + 16) (le32 (st_size st)) s)))"

definition sys_fstat :: "'a sysst_scheme \<Rightarrow> (int \<times> 'a sysst_scheme) kres" where
  "sys_fstat s =
     (case argfd 0 (cur s) of
        None \<Rightarrow> Ok (-1, s)
      | Some (_, f) \<Rightarrow>
          (case argptr 1 20 (cur s) of
             None \<Rightarrow> Ok (-1, s)
           | Some a \<Rightarrow> kbind (filestat (pid_of s) f s) (\<lambda>((r, st), s1).
               Ok (r, case st of None \<Rightarrow> s1 | Some st \<Rightarrow> set_stat a st s1))))"

definition sys_pipe :: "uint \<Rightarrow> 'a sysst_scheme \<Rightarrow> (int \<times> 'a sysst_scheme) kres" where
  "sys_pipe kend s =
     (case argptr 0 8 (cur s) of
        None \<Rightarrow> Ok (-1, s)
      | Some a \<Rightarrow>
          kbind (pipealloc kend (pid_of s) s) (\<lambda>(r, s1).
            case r of
              None \<Rightarrow> Ok (-1, s1)
            | Some (rf, wr) \<Rightarrow>
                (case fdalloc rf s1 of
                   None \<Rightarrow> kbind (fileclose kend (pid_of s) rf s1) (\<lambda>s2.
                     kbind (fileclose kend (pid_of s) wr s2) (\<lambda>s3. Ok (-1, s3)))
                 | Some (fd0, s2) \<Rightarrow>
                     (case fdalloc wr s2 of
                        None \<Rightarrow> kbind (fileclose kend (pid_of s) rf (set_ofile fd0 None s2)) (\<lambda>s3.
                          kbind (fileclose kend (pid_of s) wr s3) (\<lambda>s4. Ok (-1, s4)))
                      | Some (fd1, s3) \<Rightarrow>
                          Ok (0, set_user a (le32 (of_nat fd0) @ le32 (of_nat fd1)) s3)))))"

section \<open>Calls on names\<close>

definition leave_op :: "int \<Rightarrow> 'a sysst_scheme \<Rightarrow> (int \<times> 'a sysst_scheme) kres" where
  "leave_op r s = kbind (end_op s) (\<lambda>s1. Ok (r, s1))"

definition put_and_leave :: "nat \<Rightarrow> int \<Rightarrow> 'a sysst_scheme \<Rightarrow> (int \<times> 'a sysst_scheme) kres" where
  "put_and_leave ip r s = kbind (iunlockput (pid_of s) ip s) (leave_op r)"

definition add_nlink :: "nat \<Rightarrow> ushort \<Rightarrow> 'a sysst_scheme \<Rightarrow> 'a sysst_scheme kres" where
  "add_nlink ip d s =
     iupdate (pid_of s) ip (set_inode ip ((inode_at s ip)\<lparr>i_nlink := i_nlink (inode_at s ip) + d\<rparr>) s)"

definition link_bad :: "nat \<Rightarrow> 'a sysst_scheme \<Rightarrow> (int \<times> 'a sysst_scheme) kres" where
  "link_bad ip s =
     kbind (ilock (pid_of s) ip s) (\<lambda>s1. kbind (add_nlink ip (-1) s1) (put_and_leave ip (-1)))"

definition link_to :: "nat \<Rightarrow> uchar list \<Rightarrow> 'a sysst_scheme \<Rightarrow> (int \<times> 'a sysst_scheme) kres" where
  "link_to ip new s =
     kbind (nameiparent (pid_of s) (cwd_of s) new s) (\<lambda>(r, s1).
       case r of
         None \<Rightarrow> link_bad ip s1
       | Some (dp, name) \<Rightarrow>
           kbind (ilock (pid_of s) dp s1) (\<lambda>s2.
             if i_dev (inode_at s2 dp) \<noteq> i_dev (inode_at s2 ip)
             then kbind (iunlockput (pid_of s) dp s2) (link_bad ip)
             else kbind (dirlink (pid_of s) dp name (i_inum (inode_at s2 ip)) s2) (\<lambda>(q, s3).
               if q < 0 then kbind (iunlockput (pid_of s) dp s3) (link_bad ip)
               else kbind (iunlockput (pid_of s) dp s3) (\<lambda>s4.
                 kbind (iput (pid_of s) ip s4) (leave_op 0)))))"

definition sys_link :: "'a sysst_scheme \<Rightarrow> (int \<times> 'a sysst_scheme) kres" where
  "sys_link s =
     (case argstr 0 (cur s) of
        None \<Rightarrow> Ok (-1, s)
      | Some old \<Rightarrow>
          (case argstr 1 (cur s) of
             None \<Rightarrow> Ok (-1, s)
           | Some new \<Rightarrow>
               kbind (begin_op s) (\<lambda>s1.
               kbind (namei (pid_of s) (cwd_of s) old s1) (\<lambda>(r, s2).
                 case r of
                   None \<Rightarrow> leave_op (-1) s2
                 | Some ip \<Rightarrow>
                     kbind (ilock (pid_of s) ip s2) (\<lambda>s3.
                       if i_type (inode_at s3 ip) = T_DIR then put_and_leave ip (-1) s3
                       else kbind (add_nlink ip 1 s3) (\<lambda>s4.
                         kbind (iunlock (pid_of s) ip s4) (link_to ip new)))))))"

fun dirempty_loop :: "nat \<Rightarrow> nat \<Rightarrow> nat \<Rightarrow> 'a fsys_scheme \<Rightarrow> (bool \<times> 'a fsys_scheme) kres" where
  "dirempty_loop dp off 0 s = Ok (True, s)"
| "dirempty_loop dp off (Suc k) s =
     kbind (readi dp (of_nat off) 16 s) (\<lambda>(r, de, s1).
       if r \<noteq> 16 then Panic ''isdirempty: readi''
       else if de_inum de \<noteq> 0 then Ok (False, s1)
       else dirempty_loop dp (off + 16) k s1)"

definition isdirempty :: "nat \<Rightarrow> 'a fsys_scheme \<Rightarrow> (bool \<times> 'a fsys_scheme) kres" where
  "isdirempty dp s = dirempty_loop dp 32 (dir_slots dp s - 2) s"

text \<open>The names of the current and the parent directory, as \<open>char[DIRSIZ]\<close>.\<close>

definition dot :: "uchar list" where "dot = [46] @ replicate 13 0"
definition dotdot :: "uchar list" where "dotdot = [46, 46] @ replicate 12 0"

definition unlink_entry :: "nat \<Rightarrow> nat \<Rightarrow> nat \<Rightarrow> 'a sysst_scheme \<Rightarrow> (int \<times> 'a sysst_scheme) kres" where
  "unlink_entry dp ip off s =
     kbind (writei (pid_of s) dp (replicate 16 0) (of_nat off) s) (\<lambda>(w, s1).
       if w \<noteq> 16 then Panic ''unlink: writei''
       else kbind (if i_type (inode_at s1 ip) = T_DIR then add_nlink dp (-1) s1 else Ok s1) (\<lambda>s2.
         kbind (iunlockput (pid_of s) dp s2) (\<lambda>s3.
         kbind (add_nlink ip (-1) s3) (put_and_leave ip 0))))"

definition sys_unlink :: "'a sysst_scheme \<Rightarrow> (int \<times> 'a sysst_scheme) kres" where
  "sys_unlink s =
     (case argstr 0 (cur s) of
        None \<Rightarrow> Ok (-1, s)
      | Some path \<Rightarrow>
          kbind (begin_op s) (\<lambda>s1.
          kbind (nameiparent (pid_of s) (cwd_of s) path s1) (\<lambda>(r, s2).
            case r of
              None \<Rightarrow> leave_op (-1) s2
            | Some (dp, name) \<Rightarrow>
                kbind (ilock (pid_of s) dp s2) (\<lambda>s3.
                  if namecmp name dot = 0 \<or> namecmp name dotdot = 0 then put_and_leave dp (-1) s3
                  else kbind (dirlookup dp name s3) (\<lambda>(q, s4).
                    case q of
                      None \<Rightarrow> put_and_leave dp (-1) s4
                    | Some (ip, off) \<Rightarrow>
                        kbind (ilock (pid_of s) ip s4) (\<lambda>s5.
                          if sint (i_nlink (inode_at s5 ip)) < 1 then Panic ''unlink: nlink < 1''
                          else kbind (if i_type (inode_at s5 ip) = T_DIR then isdirempty ip s5 else Ok (True, s5))
                            (\<lambda>(empty, s6).
                              if \<not> empty
                              then kbind (iunlockput (pid_of s) ip s6) (put_and_leave dp (-1))
                              else unlink_entry dp ip off s6)))))))"

definition create_dots :: "nat \<Rightarrow> nat \<Rightarrow> 'a sysst_scheme \<Rightarrow> 'a sysst_scheme kres" where
  "create_dots dp ip s =
     kbind (add_nlink dp 1 s) (\<lambda>s1.
     kbind (dirlink (pid_of s) ip dot (i_inum (inode_at s1 ip)) s1) (\<lambda>(r, s2).
       if r < 0 then Panic ''create dots''
       else kbind (dirlink (pid_of s) ip dotdot (i_inum (inode_at s2 dp)) s2) (\<lambda>(q, s3).
         if q < 0 then Panic ''create dots'' else Ok s3)))"

definition create :: "uchar list \<Rightarrow> ushort \<Rightarrow> ushort \<Rightarrow> ushort \<Rightarrow> 'a sysst_scheme
    \<Rightarrow> (nat option \<times> 'a sysst_scheme) kres" where
  "create path ty maj mnr s =
     kbind (nameiparent (pid_of s) (cwd_of s) path s) (\<lambda>(r, s1).
       case r of
         None \<Rightarrow> Ok (None, s1)
       | Some (dp, name) \<Rightarrow>
           kbind (ilock (pid_of s) dp s1) (\<lambda>s2.
           kbind (dirlookup dp name s2) (\<lambda>(q, s3).
             case q of
               Some (ip, _) \<Rightarrow>
                 kbind (iunlockput (pid_of s) dp s3) (\<lambda>s4.
                 kbind (ilock (pid_of s) ip s4) (\<lambda>s5.
                   if ty = T_FILE \<and> i_type (inode_at s5 ip) = T_FILE then Ok (Some ip, s5)
                   else kbind (iunlockput (pid_of s) ip s5) (\<lambda>s6. Ok (None, s6))))
             | None \<Rightarrow>
                 kbind (ialloc (i_dev (inode_at s3 dp)) ty s3) (\<lambda>(ip, s4).
                 kbind (ilock (pid_of s) ip s4) (\<lambda>s5.
                 kbind (iupdate (pid_of s) ip
                     (set_inode ip ((inode_at s5 ip)\<lparr>i_major := maj, i_minor := mnr, i_nlink := 1\<rparr>) s5)) (\<lambda>s6.
                 kbind (if ty = T_DIR then create_dots dp ip s6 else Ok s6) (\<lambda>s7.
                 kbind (dirlink (pid_of s) dp name (i_inum (inode_at s7 ip)) s7) (\<lambda>(w, s8).
                   if w < 0 then Panic ''create: dirlink''
                   else kbind (iunlockput (pid_of s) dp s8) (\<lambda>s9. Ok (Some ip, s9))))))))))"

abbreviation O_WRONLY :: uint where "O_WRONLY \<equiv> 1"
abbreviation O_RDWR :: uint where "O_RDWR \<equiv> 2"
abbreviation O_CREATE :: uint where "O_CREATE \<equiv> 0x200"

text \<open>The locked inode that \<open>open\<close> is to open, \<open>None\<close> when there is none.\<close>

definition open_inode :: "uchar list \<Rightarrow> uint \<Rightarrow> 'a sysst_scheme \<Rightarrow> (nat option \<times> 'a sysst_scheme) kres" where
  "open_inode path omode s =
     (if omode AND O_CREATE \<noteq> 0 then create path T_FILE 0 0 s
      else kbind (namei (pid_of s) (cwd_of s) path s) (\<lambda>(r, s1).
        case r of
          None \<Rightarrow> Ok (None, s1)
        | Some ip \<Rightarrow>
            kbind (ilock (pid_of s) ip s1) (\<lambda>s2.
              if i_type (inode_at s2 ip) = T_DIR \<and> omode \<noteq> 0
              then kbind (iunlockput (pid_of s) ip s2) (\<lambda>s3. Ok (None, s3))
              else Ok (Some ip, s2))))"

definition sys_open :: "uint \<Rightarrow> 'a sysst_scheme \<Rightarrow> (int \<times> 'a sysst_scheme) kres" where
  "sys_open kend s =
     (case argstr 0 (cur s) of
        None \<Rightarrow> Ok (-1, s)
      | Some path \<Rightarrow>
          (case argint 1 (cur s) of
             None \<Rightarrow> Ok (-1, s)
           | Some omode \<Rightarrow>
               kbind (begin_op s) (\<lambda>s1.
               kbind (open_inode path omode s1) (\<lambda>(r, s2).
                 case r of
                   None \<Rightarrow> leave_op (-1) s2
                 | Some ip \<Rightarrow>
                     (case filealloc s2 of
                        None \<Rightarrow> put_and_leave ip (-1) s2
                      | Some (f, s3) \<Rightarrow>
                          (case fdalloc f s3 of
                             None \<Rightarrow> kbind (fileclose kend (pid_of s) f s3) (put_and_leave ip (-1))
                           | Some (fd, s4) \<Rightarrow>
                               kbind (iunlock (pid_of s) ip s4) (\<lambda>s5.
                               kbind (end_op s5) (\<lambda>s6.
                                 Ok (int fd, set_file f ((ftable s6 f)\<lparr>f_type := FD_INODE, f_ip := ip, f_off := 0,
                                   f_readable := omode AND O_WRONLY = 0,
                                   f_writable := omode AND O_WRONLY \<noteq> 0 \<or> omode AND O_RDWR \<noteq> 0\<rparr>) s6)))))))))"

text \<open>\<open>mkdir\<close> and \<open>mknod\<close> begin the transaction before they look at their arguments.\<close>

definition make_node :: "uchar list option \<Rightarrow> ushort \<Rightarrow> ushort \<Rightarrow> ushort \<Rightarrow> 'a sysst_scheme
    \<Rightarrow> (int \<times> 'a sysst_scheme) kres" where
  "make_node po ty maj mnr s =
     (case po of
        None \<Rightarrow> leave_op (-1) s
      | Some path \<Rightarrow>
          kbind (create path ty maj mnr s) (\<lambda>(r, s1).
            case r of None \<Rightarrow> leave_op (-1) s1 | Some ip \<Rightarrow> put_and_leave ip 0 s1))"

definition sys_mkdir :: "'a sysst_scheme \<Rightarrow> (int \<times> 'a sysst_scheme) kres" where
  "sys_mkdir s = kbind (begin_op s) (make_node (argstr 0 (cur s)) T_DIR 0 0)"

definition sys_mknod :: "'a sysst_scheme \<Rightarrow> (int \<times> 'a sysst_scheme) kres" where
  "sys_mknod s =
     kbind (begin_op s)
       (case (argstr 0 (cur s), argint 1 (cur s), argint 2 (cur s)) of
          (Some path, Some maj, Some mnr) \<Rightarrow> make_node (Some path) T_DEV (ucast maj) (ucast mnr)
        | _ \<Rightarrow> leave_op (-1))"

definition sys_chdir :: "'a sysst_scheme \<Rightarrow> (int \<times> 'a sysst_scheme) kres" where
  "sys_chdir s =
     kbind (begin_op s) (\<lambda>s1.
       case argstr 0 (cur s) of
         None \<Rightarrow> leave_op (-1) s1
       | Some path \<Rightarrow>
           kbind (namei (pid_of s) (cwd_of s) path s1) (\<lambda>(r, s2).
             case r of
               None \<Rightarrow> leave_op (-1) s2
             | Some ip \<Rightarrow>
                 kbind (ilock (pid_of s) ip s2) (\<lambda>s3.
                   if i_type (inode_at s3 ip) \<noteq> T_DIR then put_and_leave ip (-1) s3
                   else kbind (iunlock (pid_of s) ip s3) (\<lambda>s4.
                     kbind (iput (pid_of s) (cwd_of s) s4) (\<lambda>s5.
                     kbind (end_op s5) (\<lambda>s6.
                       Ok (0, s6\<lparr>cur := (cur s6)\<lparr>u_cwd := ip\<rparr>\<rparr>)))))))"

section \<open>Arguments stay inside the process\<close>

abbreviation KERNBASE :: uint where "KERNBASE \<equiv> 0x80000000"

lemma argint_below: "argint n p = Some v \<Longrightarrow> unat (u_esp p + 4 + 4 * of_nat n) < unat (u_sz p)"
  by (auto simp: argint_def fetchint_def word_less_nat_alt word_le_nat_alt split: if_splits)

text \<open>C30: a process whose memory ends at or below the kernel cannot make the kernel touch memory outside it:
  an accepted integer lies inside the process, an accepted buffer of \<open>n\<close> bytes ends at or before \<open>sz\<close>
  without wrapping around, and an accepted string, with its terminating zero, lies inside and
  contains no other zero.\<close>

theorem args_in_bounds:
  assumes sz: "u_sz p \<le> KERNBASE"
  shows "(\<forall>addr v. fetchint addr p = Some v \<longrightarrow> unat addr + 4 \<le> unat (u_sz p)) \<and>
    (\<forall>k n a. argptr k n p = Some a \<longrightarrow> 0 \<le> n \<longrightarrow> n < 2147483648 \<longrightarrow>
       unat a + nat n \<le> unat (u_sz p)) \<and>
    (\<forall>k n. n < 0 \<longrightarrow> argptr k n p = None) \<and>
    (\<forall>k str. argstr k p = Some str \<longrightarrow> 0 \<notin> set str \<and>
       (\<exists>addr. argint k p = Some addr \<and> unat addr + length str < unat (u_sz p) \<and>
          str = user_bytes addr (length str) p \<and> u_mem p (addr + of_nat (length str)) = 0))"
proof (intro conjI allI impI)
  have szn: "unat (u_sz p) \<le> 2147483648" using sz by (simp add: word_le_nat_alt)
  show "unat addr + 4 \<le> unat (u_sz p)" if "fetchint addr p = Some v" for addr v
  proof -
    from that have "unat addr < unat (u_sz p)" "unat (addr + 4) \<le> unat (u_sz p)"
      by (auto simp: fetchint_def word_less_nat_alt word_le_nat_alt split: if_splits)
    moreover from this szn have "unat (addr + 4) = unat addr + 4"
      using unat_plus_small [of addr 4] by simp
    ultimately show ?thesis by simp
  qed
  show "unat a + nat n \<le> unat (u_sz p)"
    if "argptr k n p = Some a" "0 \<le> n" "n < 2147483648" for k n a
  proof -
    from that(1) have a: "unat a < unat (u_sz p)" "unat (a + of_int n) \<le> unat (u_sz p)"
      by (auto simp: argptr_def word_less_nat_alt word_le_nat_alt split: option.splits if_splits)
    have n: "unat (of_int n :: uint) = nat n"
    proof -
      have "(of_int n :: uint) = of_nat (nat n)" using that(2) by simp
      moreover have "nat n < 4294967296" using that(2,3) by simp
      ultimately show ?thesis by (simp add: unat_of_nat take_bit_nat_eq_self)
    qed
    have "nat n < 2147483648" using that(2,3) by simp
    then have "unat (a + of_int n) = unat a + nat n"
      using unat_plus_small [of a "of_int n"] n a szn by simp
    with a(2) that(2) show ?thesis by simp
  qed
  show "argptr k n p = None" if "n < 0" for k n
    using that by (simp add: argptr_def split: option.splits)
  fix k str assume "argstr k p = Some str"
  then obtain addr len where al: "argint k p = Some addr" "fetchstr addr p = Some len"
    "str = user_bytes addr len p"
    by (auto simp: argstr_def split: option.splits)
  then have sc: "scan (\<lambda>i. u_mem p (addr + of_nat i) = 0) 0 (unat (u_sz p) - unat addr) = Some len"
    by (auto simp: fetchstr_def split: if_splits)
  have len: "length str = len" by (simp add: al(3) user_bytes_def)
  have z: "u_mem p (addr + of_nat len) = 0" "len < unat (u_sz p) - unat addr" using scan_SomeD [OF sc] by auto
  show "0 \<notin> set str" using scan_first [OF sc] by (auto simp: al(3) user_bytes_def)
  show "\<exists>addr. argint k p = Some addr \<and> unat addr + length str < unat (u_sz p) \<and>
      str = user_bytes addr (length str) p \<and> u_mem p (addr + of_nat (length str)) = 0"
    using al z len by (intro exI [of _ addr]) simp
qed

definition demo_proc :: uproc where
  "demo_proc = \<lparr>u_pid = 7, u_killed = False, u_sz = 0x1000, u_esp = 0x100,
     u_mem = (\<lambda>a. if a = 0x105 then 2 else if a = 0x108 then 8 else if a = 0x200 then 47 else if a = 0x201 then 97 else 0),
     u_cwd = 0, u_ofile = (\<lambda>_. None)\<rparr>"

theorem args_in_bounds_witness:
  "argstr 0 demo_proc = Some [47, 97] \<and> 0 \<notin> set [47, 97 :: uchar] \<and>
   argptr 0 8 demo_proc = Some 0x200 \<and> unat (0x200 :: uint) + 8 \<le> unat (u_sz demo_proc)"
proof -
  have sz: "u_sz demo_proc \<le> KERNBASE" by (simp add: demo_proc_def)
  have ai: "argint 0 demo_proc = Some 0x200"
    by (simp add: argint_def fetchint_def demo_proc_def get32_def)
  have "scan (\<lambda>i. u_mem demo_proc (0x200 + of_nat i) = 0) 0 (unat (u_sz demo_proc) - unat (0x200 :: uint)) = Some 2"
    by (auto simp: scan_eq_Some demo_proc_def dest!: less_2_cases)
  then have "argstr 0 demo_proc = Some [47, 97]"
    by (simp add: argstr_def ai fetchstr_def) (simp add: demo_proc_def user_bytes_def upt_conv_Cons)
  moreover have ap: "argptr 0 8 demo_proc = Some 0x200"
    by (simp add: argptr_def ai) (simp add: demo_proc_def)
  moreover have "unat (0x200 :: uint) + nat 8 \<le> unat (u_sz demo_proc)"
    using args_in_bounds [OF sz, THEN conjunct2, THEN conjunct1, rule_format, OF ap] by simp
  ultimately show ?thesis by simp
qed

section \<open>Descriptors and references\<close>

lemma fdalloc_SomeD:
  assumes "fdalloc f s = Some (fd, s')"
  shows "fd < NOFILE" "u_ofile (cur s) fd = None" "s' = set_ofile fd (Some f) s"
    "\<And>k. k < fd \<Longrightarrow> u_ofile (cur s) k \<noteq> None"
  using assms by (auto simp: fdalloc_def split: option.splits dest: scan_SomeD scan_first)

interpretation fdtab: slot_table "\<lambda>s fd. u_ofile (cur s) fd = None" NOFILE "fdalloc f :: sysst \<Rightarrow> _"
proof (unfold_locales, goal_cases)
  case 1
  then show ?case using fdalloc_SomeD by blast
next
  case 2
  then show ?case using fdalloc_SomeD(3) by (fastforce simp: set_ofile_def)
next
  case 3
  then show ?case using fdalloc_SomeD(3) by (fastforce simp: set_ofile_def)
next
  case 4
  then show ?case by (auto simp: fdalloc_def scan_eq_None split: option.splits)
qed

definition fd_count :: "uproc \<Rightarrow> nat \<Rightarrow> nat" where
  "fd_count p f = card {fd. fd < NOFILE \<and> u_ofile p fd = Some f}"

text \<open>\<open>ext f\<close> references to \<open>f\<close> are held outside the running process.\<close>

definition fd_inv :: "(nat \<Rightarrow> nat) \<Rightarrow> 'a sysst_scheme \<Rightarrow> bool" where
  "fd_inv ext s \<longleftrightarrow> (\<forall>f. f_ref (ftable s f) = int (fd_count (cur s) f + ext f)) \<and>
     (\<forall>f. f_ref (ftable s f) = 0 \<longrightarrow> f_type (ftable s f) = FD_NONE)"

lemma cur_of_more: "fsys.more s' = fsys.more (s :: 'a sysst_scheme) \<Longrightarrow> cur s' = cur s"
  by (cases s; cases s'; simp)

interpretation fdi: fs_frame "fd_inv ext :: 'a sysst_scheme \<Rightarrow> bool" for ext
proof unfold_locales
  fix s s' :: "'a sysst_scheme"
  assume "fd_inv ext s" "fsys.more s' = fsys.more s"
  moreover from this(2) have "ftable s' = ftable s" "cur s' = cur s"
    by (rule ksys_of_more, rule cur_of_more)
  ultimately show "fd_inv ext s'" by (simp add: fd_inv_def)
qed

interpretation fdc: fs_frame "\<lambda>s :: 'a sysst_scheme. fd_inv ext s \<and> cur s = c" for ext c
proof unfold_locales
  fix s s' :: "'a sysst_scheme"
  assume "fd_inv ext s \<and> cur s = c" "fsys.more s' = fsys.more s"
  then show "fd_inv ext s' \<and> cur s' = c" using fdi.stable cur_of_more by metis
qed

lemma fd_count_add:
  assumes "fd < NOFILE" "u_ofile p fd = None"
  shows "fd_count (p\<lparr>u_ofile := (u_ofile p)(fd := Some f)\<rparr>) g = (if g = f then Suc (fd_count p g) else fd_count p g)"
proof (cases "g = f")
  case True
  have "{k. k < NOFILE \<and> ((u_ofile p)(fd := Some f)) k = Some g} =
      insert fd {k. k < NOFILE \<and> u_ofile p k = Some g}" using assms True by auto
  then show ?thesis using assms True by (simp add: fd_count_def)
next
  case False
  then have "{k. k < NOFILE \<and> ((u_ofile p)(fd := Some f)) k = Some g} =
      {k. k < NOFILE \<and> u_ofile p k = Some g}" using assms by (auto split: if_splits)
  then show ?thesis using False by (simp add: fd_count_def)
qed

lemma fd_count_remove:
  assumes "fd < NOFILE" "u_ofile p fd = Some f"
  shows "fd_count p g = (if g = f then Suc (fd_count (p\<lparr>u_ofile := (u_ofile p)(fd := None)\<rparr>) g)
    else fd_count (p\<lparr>u_ofile := (u_ofile p)(fd := None)\<rparr>) g)"
proof -
  let ?q = "p\<lparr>u_ofile := (u_ofile p)(fd := None)\<rparr>"
  have "p = ?q\<lparr>u_ofile := (u_ofile ?q)(fd := Some f)\<rparr>" using assms(2) by (cases p) (auto simp: fun_eq_iff)
  moreover have "fd_count (?q\<lparr>u_ofile := (u_ofile ?q)(fd := Some f)\<rparr>) g =
      (if g = f then Suc (fd_count ?q g) else fd_count ?q g)"
    by (rule fd_count_add) (use assms(1) in simp_all)
  ultimately show ?thesis by metis
qed

text \<open>How references move.\<close>

lemma fd_inv_set_user: "fd_inv ext s \<Longrightarrow> fd_inv ext (set_user a xs s)"
  by (simp add: fd_inv_def set_user_def fd_count_def)

lemma fd_inv_filealloc:
  assumes "fd_inv ext s" "filealloc s = Some (f, s')"
  shows "fd_inv (ext(f := Suc (ext f))) s'" "cur s' = cur s"
    "f_ref (ftable s' f) = 1" "f_type (ftable s' f) = FD_NONE"
  using assms(1) filealloc_SomeD [OF assms(2)] by (auto simp: fd_inv_def set_file_def)

lemma fd_inv_fdalloc:
  assumes "fd_inv (ext(f := Suc (ext f))) s" "fdalloc f s = Some (fd, s')"
  shows "fd_inv ext s'"
proof -
  note d = fdalloc_SomeD [OF assms(2)]
  show ?thesis
    using assms(1) unfolding d(3) fd_inv_def set_ofile_def
    by (auto simp: fd_count_add [OF d(1,2)])
qed

lemma fd_inv_close_fd:
  assumes "fd_inv ext s" "u_ofile (cur s) fd = Some f" "fd < NOFILE"
  shows "fd_inv (ext(f := Suc (ext f))) (set_ofile fd None s)"
  using assms(1) fd_count_remove [OF assms(3,2)] unfolding fd_inv_def set_ofile_def by auto

lemma fd_inv_set_file:
  assumes "fd_inv ext s" "f_ref x = f_ref (ftable s f)" "f_ref x \<noteq> 0"
  shows "fd_inv ext (set_file f x s)"
  using assms by (auto simp: fd_inv_def set_file_def)

lemma close_pipe_cur: "close_pipe kend p w (s :: 'a sysst_scheme) = Ok s' \<Longrightarrow> cur s' = cur s"
  by (auto simp: close_pipe_def kres_simps split: prod.splits option.splits)

interpretation ctab_frame: fs_frame "\<lambda>s :: 'a sysst_scheme. cur s = c \<and> ftable s = t" for c t
  by unfold_locales (metis ksys_of_more(1) cur_of_more)

lemma fileclose_cur:
  fixes s :: "'a sysst_scheme"
  assumes "fileclose kend pid f s = Ok s'"
  shows "cur s' = cur s \<and> (\<forall>g. f_type (ftable s' g) =
    (if g = f \<and> f_ref (ftable s f) = 1 then FD_NONE else f_type (ftable s g)))"
proof (cases "f_ref (ftable s f) = 1")
  case False
  with assms show ?thesis by (auto simp: fileclose_def Let_def set_file_def split: if_splits)
next
  case True
  let ?x = "ftable s f"
  let ?s1 = "set_file f (?x\<lparr>f_ref := 0, f_type := FD_NONE\<rparr>) s"
  have "cur s' = cur ?s1 \<and> ftable s' = ftable ?s1"
  proof (cases "f_type ?x")
    case FD_NONE
    with True assms show ?thesis by (auto simp: fileclose_def Let_def)
  next
    case FD_PIPE
    with True assms show ?thesis
      by (auto simp: fileclose_def Let_def dest: close_pipe_ftable close_pipe_cur)
  next
    case FD_INODE
    have r: "kbind (begin_op ?s1) (\<lambda>s2. kbind (iput pid (f_ip ?x) s2) end_op) = Ok s'"
      using FD_INODE True assms by (simp add: fileclose_def Let_def)
    have "keep1 (\<lambda>s. cur s = cur ?s1 \<and> ftable s = ftable ?s1)
        (kbind (begin_op ?s1) (\<lambda>s2. kbind (iput pid (f_ip ?x) s2) end_op))"
      by (assumption | rule ctab_frame.inode_rules | rule conjI, rule refl, rule refl)+
    then show ?thesis using r by (rule keep1D)
  qed
  then show ?thesis using True by (auto simp: set_file_def)
qed

lemma fd_inv_fileclose:
  assumes "fd_inv (ext(f := Suc (ext f))) s"
  shows "keep1 (fd_inv ext) (fileclose kend pid f s)"
  unfolding keep1_def
proof (intro allI impI)
  fix s' assume c: "fileclose kend pid f s = Ok s'"
  note r = fileclose_ref [OF c] and t = fileclose_cur [OF c]
  show "fd_inv ext s'"
    using assms r t unfolding fd_inv_def by (auto split: if_splits)
qed

lemma argfd_SomeD: "argfd n p = Some (fd, f) \<Longrightarrow> fd < NOFILE \<and> u_ofile p fd = Some f"
  by (auto simp: argfd_def Let_def split: option.splits if_splits)

lemma fd_inv_ref_pos:
  assumes "fd_inv ext s" "fd < NOFILE" "u_ofile (cur s) fd = Some f"
  shows "1 \<le> f_ref (ftable s f)"
proof -
  have "finite {k. k < NOFILE \<and> u_ofile (cur s) k = Some f}" by simp
  then have "0 < fd_count (cur s) f" unfolding fd_count_def using assms(2,3) by (subst card_gt_0_iff) auto
  with assms(1) show ?thesis by (simp add: fd_inv_def)
qed

section \<open>Every call keeps descriptors and references consistent\<close>

lemmas sys_rules = fdi.fs_rules

lemma keep_leave_op: "fd_inv ext s \<Longrightarrow> keep (fd_inv ext) (leave_op r s)"
  unfolding leave_op_def by (rule sys_rules | assumption)+

lemma keep_put_and_leave: "fd_inv ext s \<Longrightarrow> keep (fd_inv ext) (put_and_leave ip r s)"
  unfolding put_and_leave_def by (rule sys_rules keep_leave_op | assumption)+

lemma keep_add_nlink: "fd_inv ext s \<Longrightarrow> keep1 (fd_inv ext) (add_nlink ip d s)"
  unfolding add_nlink_def by (rule sys_rules | assumption)+

lemmas call_rules = sys_rules keep_leave_op keep_put_and_leave keep_add_nlink

lemma keep_link_bad: "fd_inv ext s \<Longrightarrow> keep (fd_inv ext) (link_bad ip s)"
  unfolding link_bad_def by (rule call_rules | assumption)+

lemma keep_sys_link: "fd_inv ext s \<Longrightarrow> keep (fd_inv ext) (sys_link s)"
  unfolding sys_link_def link_to_def by (rule call_rules keep_link_bad | assumption)+

lemma keep_isdirempty: "fd_inv ext s \<Longrightarrow> keep (fd_inv ext) (isdirempty dp s)"
proof -
  have "fd_inv ext s \<Longrightarrow> keep (fd_inv ext) (dirempty_loop dp off k s)" for off k and s :: "'a sysst_scheme"
  proof (induction k arbitrary: off s)
    case (Suc k)
    then show ?case unfolding dirempty_loop.simps by - (rule call_rules Suc | assumption)+
  qed (simp add: keep_def)
  then show "fd_inv ext s \<Longrightarrow> keep (fd_inv ext) (isdirempty dp s)" by (simp add: isdirempty_def)
qed

lemma keep_sys_unlink: "fd_inv ext s \<Longrightarrow> keep (fd_inv ext) (sys_unlink s)"
  unfolding sys_unlink_def unlink_entry_def by (rule call_rules keep_isdirempty | assumption)+

lemma keep_create: "fd_inv ext s \<Longrightarrow> keep (fd_inv ext) (create path ty maj mnr s)"
  unfolding create_def create_dots_def by (rule call_rules | assumption)+

lemma keep_make_node: "fd_inv ext s \<Longrightarrow> keep (fd_inv ext) (make_node po ty maj mnr s)"
  unfolding make_node_def by (rule call_rules keep_create | assumption)+

lemma keep_sys_mkdir: "fd_inv ext s \<Longrightarrow> keep (fd_inv ext) (sys_mkdir s)"
  unfolding sys_mkdir_def by (rule call_rules keep_make_node | assumption)+

lemma keep_sys_mknod: "fd_inv ext s \<Longrightarrow> keep (fd_inv ext) (sys_mknod s)"
proof -
  assume a: "fd_inv ext s"
  have "keep (fd_inv ext) ((case (argstr 0 p, argint 1 p, argint 2 p) of
          (Some path, Some maj, Some mnr) \<Rightarrow> make_node (Some path) T_DEV (ucast maj) (ucast mnr)
        | _ \<Rightarrow> leave_op (-1)) t)" if "fd_inv ext t" for p and t :: "'a sysst_scheme"
    using that by (auto split: option.splits intro: keep_make_node keep_leave_op)
  with a show ?thesis
    unfolding sys_mknod_def by - (rule keep_binds fdi.keep_blocks | assumption)+
qed

lemma fd_inv_cur: "fd_inv ext s \<Longrightarrow> fd_inv ext (s\<lparr>cur := (cur s)\<lparr>u_cwd := ip\<rparr>\<rparr>)"
  by (simp add: fd_inv_def fd_count_def)

lemma keep_sys_chdir: "fd_inv ext s \<Longrightarrow> keep (fd_inv ext) (sys_chdir s)"
  unfolding sys_chdir_def by (rule call_rules fd_inv_cur | assumption)+

lemma keep_prod_fun [keep_rules]: "(\<And>x y. p = (x, y) \<Longrightarrow> keep I (k x y s)) \<Longrightarrow>
    keep I ((case p of (x, y) \<Rightarrow> k x y) s)"
  by (cases p) simp

lemma fd_inv_set_off:
  "fd_inv ext s \<Longrightarrow> f_ref x = f_ref (ftable s f) \<Longrightarrow> f_type x = f_type (ftable s f) \<Longrightarrow>
   fd_inv ext (set_file f x s)"
  by (auto simp: fd_inv_def set_file_def)

lemma fd_inv_off_if:
  "fd_inv ext s \<Longrightarrow> fd_inv ext (if b then set_file f ((ftable s f)\<lparr>f_off := w\<rparr>) s else s)"
  by (simp add: fd_inv_set_off)

lemma fd_inv_pipes: "fd_inv ext s \<Longrightarrow> fd_inv ext (s\<lparr>pipes := ps, woken := w\<rparr>)"
  by (simp add: fd_inv_def)

lemma keep_fileread: "fd_inv ext s \<Longrightarrow> keep (fd_inv ext) (fileread pid killed f n s)"
proof -
  assume a: "fd_inv ext s"
  show ?thesis
  proof (cases "f_readable (ftable s f)")
    case True
    show ?thesis
    proof (cases "f_type (ftable s f)")
      case FD_INODE
      have "keep (fd_inv ext) (kbind (ilock pid (f_ip (ftable s f)) s) (\<lambda>s1.
          kbind (readi (f_ip (ftable s f)) (f_off (ftable s f)) (of_int n) s1) (\<lambda>(r, bs, s2).
            kbind (iunlock pid (f_ip (ftable s f)) (if 0 < r
              then set_file f ((ftable s2 f)\<lparr>f_off := f_off (ftable s2 f) + of_int r\<rparr>) s2 else s2))
              (\<lambda>s4. Ok ((r, bs), s4)))))"
        using a by - (rule call_rules fd_inv_off_if | assumption)+
      with True FD_INODE show ?thesis by (simp add: fileread_def Let_def)
    next
      case FD_PIPE
      with True a show ?thesis
        by (auto simp: fileread_def Let_def keep_def fd_inv_pipes split: prod.splits pipe_ret.splits)
    qed (use True in \<open>simp add: fileread_def keep_Panic\<close>)
  qed (use a in \<open>simp add: fileread_def keep_def\<close>)
qed

lemma keep_filewrite_loop: "fd_inv ext s \<Longrightarrow> keep (fd_inv ext) (filewrite_loop pid f src s)"
proof (induction pid f src s rule: filewrite_loop.induct)
  case (1 pid f src s)
  show ?case
  proof (cases "src = []")
    case True
    with 1 show ?thesis by (simp add: filewrite_loop.simps [of pid f "[]"] keep_def)
  next
    case False
    with 1(2) show ?thesis
      by (subst filewrite_loop.simps, unfold Let_def)
        (assumption | rule call_rules fd_inv_off_if | rule 1(1) [OF False refl refl] | rule refl)+
  qed
qed

lemma keep_filewrite: "fd_inv ext s \<Longrightarrow> keep (fd_inv ext) (filewrite pid killed f addr n s)"
proof -
  assume a: "fd_inv ext s"
  show ?thesis
  proof (cases "f_writable (ftable s f)")
    case True
    show ?thesis
    proof (cases "f_type (ftable s f)")
      case FD_INODE
      have "keep (fd_inv ext) (kbind (filewrite_loop pid f (map addr [0..<nat n]) s) (\<lambda>(done_all, s1).
            Ok (if done_all \<and> 0 \<le> n then n else -1, s1)))"
        using a by - (rule call_rules keep_filewrite_loop | assumption)+
      with True FD_INODE show ?thesis by (simp add: filewrite_def Let_def)
    next
      case FD_PIPE
      with True a show ?thesis
        by (auto simp: filewrite_def Let_def keep_def fd_inv_pipes split: prod.splits pipe_ret.splits)
    qed (use True in \<open>simp add: filewrite_def keep_Panic\<close>)
  qed (use a in \<open>simp add: filewrite_def keep_def\<close>)
qed

lemma keep_sys_read: "fd_inv ext s \<Longrightarrow> keep (fd_inv ext) (sys_read s)"
  unfolding sys_read_def by (rule keep_prod_fun call_rules keep_fileread fd_inv_set_user | assumption)+

lemma keep_sys_write: "fd_inv ext s \<Longrightarrow> keep (fd_inv ext) (sys_write s)"
  unfolding sys_write_def by (rule call_rules keep_filewrite | assumption)+

lemma keep_filestat: "fd_inv ext s \<Longrightarrow> keep (fd_inv ext) (filestat pid f s)"
  unfolding filestat_def Let_def by (rule call_rules | assumption)+

lemma fd_inv_stat: "fd_inv ext s \<Longrightarrow> fd_inv ext (case st of None \<Rightarrow> s | Some x \<Rightarrow> set_stat a x s)"
  by (auto simp: set_stat_def fd_inv_set_user split: option.splits)

lemma keep_sys_fstat: "fd_inv ext s \<Longrightarrow> keep (fd_inv ext) (sys_fstat s)"
  unfolding sys_fstat_def by (rule keep_prod_fun call_rules keep_filestat fd_inv_stat | assumption)+

lemma keep_sys_dup: "fd_inv ext s \<Longrightarrow> keep (fd_inv ext) (sys_dup s)"
proof (unfold keep_def, intro allI impI)
  fix r s' assume a: "fd_inv ext s" and r: "sys_dup s = Ok (r, s')"
  show "fd_inv ext s'"
  proof (cases "argfd 0 (cur s)")
    case None
    with r a show ?thesis by (simp add: sys_dup_def)
  next
    case (Some q)
    obtain fd0 f where q: "q = (fd0, f)" by (cases q)
    show ?thesis
    proof (cases "fdalloc f s")
      case None
      with r a Some q show ?thesis by (simp add: sys_dup_def)
    next
      case fd: (Some p)
      obtain fd s1 where p: "p = (fd, s1)" by (cases p)
      note d = fdalloc_SomeD [OF fd [unfolded p]]
      have "filedup f s1 = Ok s'" using r Some q fd p by (auto simp: sys_dup_def kres_simps)
      moreover have "1 \<le> f_ref (ftable s f)"
        using fd_inv_ref_pos [OF a] argfd_SomeD [OF Some [unfolded q]] by blast
      ultimately show ?thesis
        using a unfolding d(3) filedup_def fd_inv_def set_ofile_def set_file_def
        by (auto simp: fd_count_add [OF d(1,2)])
    qed
  qed
qed

lemma keep_sys_close: "fd_inv ext s \<Longrightarrow> keep (fd_inv ext) (sys_close kend s)"
proof -
  assume a: "fd_inv ext s"
  show ?thesis
  proof (cases "argfd 0 (cur s)")
    case None
    with a show ?thesis by (simp add: sys_close_def keep_def)
  next
    case (Some q)
    obtain fd f where q: "q = (fd, f)" by (cases q)
    from argfd_SomeD [OF Some [unfolded q]]
    have "fd_inv (ext(f := Suc (ext f))) (set_ofile fd None s)" by (auto intro: fd_inv_close_fd [OF a])
    then have "keep (fd_inv ext) (kbind (fileclose kend (pid_of s) f (set_ofile fd None s)) (\<lambda>s1. Ok (0 :: int, s1)))"
      by - (rule call_rules fd_inv_fileclose | assumption)+
    then show ?thesis using Some q by (simp add: sys_close_def)
  qed
qed

lemma keep_mono: "keep I c \<Longrightarrow> (\<And>s. I s \<Longrightarrow> J s) \<Longrightarrow> keep J c"
  by (auto simp: keep_def)

lemma keep_sys_open: "fd_inv ext s \<Longrightarrow> keep (fd_inv ext) (sys_open kend s)"
proof -
  have tail: "keep (fd_inv ext)
      (case filealloc s2 of
         None \<Rightarrow> put_and_leave ip (-1) s2
       | Some (f, s3) \<Rightarrow>
           (case fdalloc f s3 of
              None \<Rightarrow> kbind (fileclose kend pid f s3) (put_and_leave ip (-1))
            | Some (fd, s4) \<Rightarrow>
                kbind (iunlock pid ip s4) (\<lambda>s5. kbind (end_op s5) (\<lambda>s6.
                  Ok (int fd, set_file f ((ftable s6 f)\<lparr>f_type := FD_INODE, f_ip := ip, f_off := 0,
                    f_readable := rd, f_writable := wr\<rparr>) s6)))))"
    if s2: "fd_inv ext s2" for s2 :: "'a sysst_scheme" and ip pid rd wr
  proof (cases "filealloc s2")
    case None
    with s2 show ?thesis by (simp add: keep_put_and_leave)
  next
    case (Some q)
    obtain f s3 where q: "q = (f, s3)" by (cases q)
    note a = fd_inv_filealloc [OF s2 Some [unfolded q]]
    show ?thesis
    proof (cases "fdalloc f s3")
      case None
      have "keep (fd_inv ext) (kbind (fileclose kend pid f s3) (put_and_leave ip (-1)))"
        by (rule keep_bind1 [OF fd_inv_fileclose [OF a(1)]], rule keep_put_and_leave)
      with Some q None show ?thesis by simp
    next
      case fd: (Some p)
      obtain fd s4 where p: "p = (fd, s4)" by (cases p)
      note d = fdalloc_SomeD [OF fd [unfolded p]]
      have i4: "fd_inv ext s4" by (rule fd_inv_fdalloc [OF a(1) fd [unfolded p]])
      have o4: "u_ofile (cur s4) fd = Some f" by (simp add: d(3) set_ofile_def)
      have fin: "fd_inv ext (set_file f ((ftable s6 f)\<lparr>f_type := FD_INODE, f_ip := ip, f_off := 0,
              f_readable := rd, f_writable := wr\<rparr>) s6) \<and>
          cur (set_file f ((ftable s6 f)\<lparr>f_type := FD_INODE, f_ip := ip, f_off := 0,
              f_readable := rd, f_writable := wr\<rparr>) s6) = cur s4"
        if "fd_inv ext s6 \<and> cur s6 = cur s4" for s6 :: "'a sysst_scheme"
      proof
        have "1 \<le> f_ref (ftable s6 f)" using that fd_inv_ref_pos [of ext s6 fd f] d(1) o4 by simp
        with that show "fd_inv ext (set_file f ((ftable s6 f)\<lparr>f_type := FD_INODE, f_ip := ip, f_off := 0,
              f_readable := rd, f_writable := wr\<rparr>) s6)" by (intro fd_inv_set_file) simp_all
      qed (use that in \<open>simp add: set_file_def\<close>)
      have "keep (\<lambda>s. fd_inv ext s \<and> cur s = cur s4)
          (kbind (iunlock pid ip s4) (\<lambda>s5. kbind (end_op s5) (\<lambda>s6.
             Ok (int fd, set_file f ((ftable s6 f)\<lparr>f_type := FD_INODE, f_ip := ip, f_off := 0,
               f_readable := rd, f_writable := wr\<rparr>) s6))))"
        using i4 by - (assumption | rule fdc.inode_rules | rule fin | (rule conjI, assumption, rule refl))+
      with Some q fd p show ?thesis by (auto elim: keep_mono)
    qed
  qed
  have ino: "keep (fd_inv ext) (open_inode path omode s)" if "fd_inv ext s" for path omode and s :: "'a sysst_scheme"
    using that unfolding open_inode_def by - (rule call_rules keep_create | assumption)+
  show "fd_inv ext s \<Longrightarrow> keep (fd_inv ext) (sys_open kend s)"
    unfolding sys_open_def
    by (assumption | rule keep_Ok keep_option keep_binds fdi.keep_blocks ino keep_leave_op tail)+
qed

lemma keep_bind1_mid: "keep1 J c \<Longrightarrow> (\<And>s'. J s' \<Longrightarrow> keep I (f s')) \<Longrightarrow> keep I (kbind c f)"
  by (auto simp: keep_def keep1_def kres_simps)

abbreviation more_ref :: "nat \<Rightarrow> (nat \<Rightarrow> nat) \<Rightarrow> (nat \<Rightarrow> nat)" where
  "more_ref f ext \<equiv> ext(f := Suc (ext f))"

lemma more_ref_swap: "more_ref f (more_ref g ext) = more_ref g (more_ref f ext)"
  by (auto simp: fun_eq_iff)

lemma fd_inv_kmm: "fd_inv ext s \<Longrightarrow> fd_inv ext (s\<lparr>kmm := k\<rparr>)"
  by (simp add: fd_inv_def)

lemma fd_inv_pipe_new: "fd_inv ext s \<Longrightarrow> fd_inv ext (s\<lparr>pipes := ps\<rparr>)"
  by (simp add: fd_inv_def)

lemma keep_pipe_bad:
  shows "fd_inv ext s \<Longrightarrow> keep (fd_inv ext) (pipe_bad kend pid None None s)"
    and "fd_inv (more_ref f ext) s \<Longrightarrow> keep (fd_inv ext) (pipe_bad kend pid (Some f) None s)"
    and "fd_inv (more_ref g (more_ref f ext)) s \<Longrightarrow> keep (fd_inv ext) (pipe_bad kend pid (Some f) (Some g) s)"
proof -
  show "fd_inv ext s \<Longrightarrow> keep (fd_inv ext) (pipe_bad kend pid None None s)"
    by (simp add: pipe_bad_def close_opt_def keep_def)
  show "fd_inv (more_ref f ext) s \<Longrightarrow> keep (fd_inv ext) (pipe_bad kend pid (Some f) None s)"
    unfolding pipe_bad_def close_opt_def option.case kbind.simps
    by (rule keep_bind1 fd_inv_fileclose keep_Ok | assumption)+
  assume a: "fd_inv (more_ref g (more_ref f ext)) s"
  have b: "keep1 (fd_inv (more_ref g ext)) (fileclose kend pid f s)"
    using a unfolding more_ref_swap [where f = g and g = f] by (rule fd_inv_fileclose)
  show "keep (fd_inv ext) (pipe_bad kend pid (Some f) (Some g) s)"
    unfolding pipe_bad_def close_opt_def option.case
    by (rule keep_bind1_mid [OF b], rule keep_bind1 [OF fd_inv_fileclose], assumption, rule keep_Ok)
qed

lemma fd_inv_pipealloc:
  assumes a: "fd_inv ext s" and p: "pipealloc kend pid s = Ok (r, s')"
  shows "case r of None \<Rightarrow> fd_inv ext s'
    | Some (f0, f1) \<Rightarrow> fd_inv (more_ref f1 (more_ref f0 ext)) s' \<and>
        f_ref (ftable s' f0) = 1 \<and> f_ref (ftable s' f1) = 1"
proof (cases "filealloc s")
  case None
  with p have "pipe_bad kend pid None None s = Ok (r, s')" by (simp add: pipealloc_def)
  moreover from this have "r = None" by (auto simp: pipe_bad_def kres_simps)
  ultimately show ?thesis using keep_pipe_bad(1) [OF a, of kend pid] by (auto simp: keep_def)
next
  case (Some q)
  obtain f0 s1 where q: "q = (f0, s1)" by (cases q)
  note a1 = fd_inv_filealloc [OF a Some [unfolded q]]
  show ?thesis
  proof (cases "filealloc s1")
    case None
    with p Some q have "pipe_bad kend pid (Some f0) None s1 = Ok (r, s')" by (simp add: pipealloc_def)
    moreover from this have "r = None" by (auto simp: pipe_bad_def kres_simps)
    ultimately show ?thesis using keep_pipe_bad(2) [OF a1(1), of kend pid] by (auto simp: keep_def)
  next
    case s1: (Some t)
    obtain f1 s2 where t: "t = (f1, s2)" by (cases t)
    note a2 = fd_inv_filealloc [OF a1(1) s1 [unfolded t]]
    note d2 = filealloc_SomeD [OF s1 [unfolded t]]
    have ne: "f0 \<noteq> f1" using d2(2) a1(3) by auto
    have r0: "f_ref (ftable s2 f0) = 1" using d2(3) ne a1(3) by (simp add: set_file_def)
    obtain pg k where k: "kalloc (kmm s2) = (pg, k)" by (cases "kalloc (kmm s2)")
    show ?thesis
    proof (cases "pg = 0")
      case True
      with p Some q s1 t k have "pipe_bad kend pid (Some f0) (Some f1) (s2\<lparr>kmm := k\<rparr>) = Ok (r, s')"
        by (simp add: pipealloc_def)
      moreover from this have "r = None" by (auto simp: pipe_bad_def kres_simps)
      ultimately show ?thesis
        using keep_pipe_bad(3) [OF fd_inv_kmm [OF a2(1)], of kend pid] by (auto simp: keep_def)
    next
      case False
      define s4 where "s4 = s2\<lparr>kmm := k, pipes := (pipes s2)(pg := (pipes s2 pg)\<lparr>readopen := True,
        writeopen := True, nwrite := 0, nread := 0\<rparr>)\<rparr>"
      define s5 where "s5 = set_file f0 ((ftable s4 f0)\<lparr>f_type := FD_PIPE, f_readable := True,
        f_writable := False, f_pipe := pg\<rparr>) s4"
      define s6 where "s6 = set_file f1 ((ftable s5 f1)\<lparr>f_type := FD_PIPE, f_readable := False,
        f_writable := True, f_pipe := pg\<rparr>) s5"
      have res: "r = Some (f0, f1)" "s' = s6"
        using p Some q s1 t k False by (simp_all add: pipealloc_def Let_def s6_def s5_def s4_def)
      have t4: "ftable s4 = ftable s2" by (simp add: s4_def)
      have i4: "fd_inv (more_ref f1 (more_ref f0 ext)) s4"
        unfolding s4_def using a2(1) by (simp add: fd_inv_def)
      have i5: "fd_inv (more_ref f1 (more_ref f0 ext)) s5"
        unfolding s5_def by (rule fd_inv_set_file [OF i4]) (simp_all add: t4 r0)
      have f1: "f_ref (ftable s5 f1) = 1" using a2(3) ne by (simp add: s5_def set_file_def t4)
      have i6: "fd_inv (more_ref f1 (more_ref f0 ext)) s6"
        unfolding s6_def by (rule fd_inv_set_file [OF i5]) (simp_all add: f1)
      moreover have "f_ref (ftable s6 f0) = 1" "f_ref (ftable s6 f1) = 1"
        using r0 f1 ne by (simp_all add: s6_def s5_def set_file_def t4)
      ultimately show ?thesis by (simp add: res)
    qed
  qed
qed

lemma keep_sys_pipe: "fd_inv ext s \<Longrightarrow> keep (fd_inv ext) (sys_pipe kend s)"
proof (cases "argptr 0 8 (cur s)")
  case None
  then show "fd_inv ext s \<Longrightarrow> ?thesis" by (simp add: sys_pipe_def keep_def)
next
  case (Some a)
  assume inv: "fd_inv ext s"
  have "keep (fd_inv ext) (case r of None \<Rightarrow> Ok (-1 :: int, s1)
      | Some (rf, wr) \<Rightarrow>
          (case fdalloc rf s1 of
             None \<Rightarrow> kbind (fileclose kend (pid_of s) rf s1) (\<lambda>s2.
               kbind (fileclose kend (pid_of s) wr s2) (\<lambda>s3. Ok (-1, s3)))
           | Some (fd0, s2) \<Rightarrow>
               (case fdalloc wr s2 of
                  None \<Rightarrow> kbind (fileclose kend (pid_of s) rf (set_ofile fd0 None s2)) (\<lambda>s3.
                    kbind (fileclose kend (pid_of s) wr s3) (\<lambda>s4. Ok (-1, s4)))
                | Some (fd1, s3) \<Rightarrow> Ok (0, set_user a (le32 (of_nat fd0) @ le32 (of_nat fd1)) s3))))"
    if pa: "pipealloc kend (pid_of s) s = Ok (r, s1)" for r s1
  proof (cases r)
    case None
    with fd_inv_pipealloc [OF inv pa] show ?thesis by (simp add: keep_Ok)
  next
    case (Some p)
    obtain f0 f1 where p: "p = (f0, f1)" by (cases p)
    from fd_inv_pipealloc [OF inv pa] Some p
    have i0: "fd_inv (more_ref f1 (more_ref f0 ext)) s1" by simp
    have i1: "fd_inv (more_ref f0 (more_ref f1 ext)) s1"
      by (subst more_ref_swap) (rule i0)
    have close2: "keep (fd_inv ext) (kbind (fileclose kend (pid_of s) f0 t) (\<lambda>s2.
        kbind (fileclose kend (pid_of s) f1 s2) (\<lambda>s3. Ok (-1 :: int, s3))))"
      if "fd_inv (more_ref f0 (more_ref f1 ext)) t" for t
      by (rule keep_bind1_mid [OF fd_inv_fileclose [OF that]], rule keep_bind1 [OF fd_inv_fileclose], assumption,
          rule keep_Ok)
    show ?thesis
    proof (cases "fdalloc f0 s1")
      case None
      with Some p close2 [OF i1] show ?thesis by simp
    next
      case fd0: (Some x)
      obtain fd0 s2 where x: "x = (fd0, s2)" by (cases x)
      note d0 = fdalloc_SomeD [OF fd0 [unfolded x]]
      have i2: "fd_inv (more_ref f1 ext) s2" by (rule fd_inv_fdalloc [OF i1 fd0 [unfolded x]])
      show ?thesis
      proof (cases "fdalloc f1 s2")
        case None
        have "fd_inv (more_ref f0 (more_ref f1 ext)) (set_ofile fd0 None s2)"
          by (rule fd_inv_close_fd [OF i2]) (use d0 in \<open>simp_all add: set_ofile_def\<close>)
        from close2 [OF this] Some p fd0 x None show ?thesis by simp
      next
        case fd1: (Some y)
        obtain fd1 s3 where y: "y = (fd1, s3)" by (cases y)
        have "fd_inv ext s3" by (rule fd_inv_fdalloc [OF i2 fd1 [unfolded y]])
        with Some p fd0 x fd1 y show ?thesis by (simp add: keep_Ok fd_inv_set_user)
      qed
    qed
  qed
  then show ?thesis using Some by (auto simp: sys_pipe_def keep_def kres_simps)
qed

text \<open>C4: every file system call keeps descriptors and open files consistent: the reference count of each
  open file is the number of descriptors of the running process that denote it plus the references held
  elsewhere, and closed files are of type \<open>FD_NONE\<close>, after any call that returns, whether it
  succeeds or fails on any of its error paths.\<close>

theorem file_calls_keep_references:
  assumes "fd_inv ext s"
    and "call \<in> {sys_dup, sys_read, sys_write, sys_close kend, sys_fstat, sys_pipe kend, sys_link, sys_unlink,
      sys_open kend, sys_mkdir, sys_mknod, sys_chdir}"
    and "call s = Ok (r, s')"
  shows "fd_inv ext s'"
  using assms keep_sys_dup keep_sys_read keep_sys_write keep_sys_close keep_sys_fstat keep_sys_pipe
    keep_sys_link keep_sys_unlink keep_sys_open keep_sys_mkdir keep_sys_mknod keep_sys_chdir
  by (auto dest!: keepD [rotated])

definition demo_sys :: sysst where
  "demo_sys = ksys.extend (ksys.truncate (demo_ksys\<lparr>ftable := (ftable demo_ksys)(3 :=
       (ftable demo_ksys 3)\<lparr>f_ref := 1, f_type := FD_PIPE\<rparr>)\<rparr>))
     (sysst.fields (demo_proc\<lparr>u_mem := (\<lambda>_. 0), u_ofile := (\<lambda>_. None)(0 := Some 3)\<rparr>))"

lemma demo_sys_sel:
  "cur demo_sys = demo_proc\<lparr>u_mem := (\<lambda>_. 0), u_ofile := (\<lambda>_. None)(0 := Some 3)\<rparr>"
  "ftable demo_sys = (ftable demo_ksys)(3 := (ftable demo_ksys 3)\<lparr>f_ref := 1, f_type := FD_PIPE\<rparr>)"
  by (simp_all add: demo_sys_def demo_ksys_def fsys.defs ksys.defs sysst.defs)

lemma demo_fd_inv: "fd_inv (\<lambda>_. 0) demo_sys"
proof -
  have "{fd. fd < NOFILE \<and> ((\<lambda>_. None)(0 := Some (3 :: nat))) fd = Some f} = (if f = 3 then {0} else {})" for f
    by auto
  moreover have "f_type (ftable demo_ksys f) = FD_NONE" for f
    by (simp add: demo_ksys_def fsys.defs ksys.defs)
  ultimately show ?thesis
    using demo_ftable by (simp add: fd_inv_def demo_sys_sel fd_count_def)
qed

lemma demo_argfd: "argfd 0 (cur demo_sys) = Some (0, 3)"
  by (simp add: argfd_def argint_def fetchint_def demo_sys_sel demo_proc_def get32_def)

lemma demo_fdalloc: "fdalloc 3 demo_sys = Some (1, set_ofile 1 (Some 3) demo_sys)"
proof -
  have "scan (\<lambda>fd. u_ofile (cur demo_sys) fd = None) 0 NOFILE = Some 1"
    by (auto simp: scan_eq_Some demo_sys_sel)
  then show ?thesis by (simp add: fdalloc_def)
qed

theorem file_calls_keep_references_witness:
  "\<exists>s'. sys_dup demo_sys = Ok (1, s') \<and> fd_inv (\<lambda>_. 0) s'"
proof -
  obtain t where "filedup 3 (set_ofile 1 (Some 3) demo_sys) = Ok t"
    by (simp add: filedup_def set_ofile_def demo_sys_sel)
  then have s': "sys_dup demo_sys = Ok (1, t)"
    by (simp only: sys_dup_def demo_argfd demo_fdalloc option.case prod.case kbind.simps of_nat_1)
  have "sys_dup \<in> {sys_dup, sys_read, sys_write, sys_close 0, sys_fstat, sys_pipe 0, sys_link, sys_unlink,
      sys_open 0, sys_mkdir, sys_mknod, sys_chdir}" by simp
  from file_calls_keep_references [OF demo_fd_inv this s'] s' show ?thesis by blast
qed

text \<open>a new descriptor is the lowest one that is free: \<open>dup\<close> returns it, makes it denote the file of its
  argument and changes no other descriptor; it fails exactly when the argument is no open
  descriptor or all \<open>NOFILE\<close> are in use.\<close>

theorem dup_lowest:
  assumes "fd_inv ext s"
  shows "case argfd 0 (cur s) of
      None \<Rightarrow> sys_dup s = Ok (-1, s)
    | Some (fd0, f) \<Rightarrow>
        if \<forall>fd<NOFILE. u_ofile (cur s) fd \<noteq> None then sys_dup s = Ok (-1, s)
        else \<exists>fd s'. sys_dup s = Ok (int fd, s') \<and> fd < NOFILE \<and> u_ofile (cur s) fd = None \<and>
          (\<forall>k<fd. u_ofile (cur s) k \<noteq> None) \<and> u_ofile (cur s') = (u_ofile (cur s))(fd := Some f) \<and>
          u_ofile (cur s') fd0 = Some f \<and> f_ref (ftable s' f) = f_ref (ftable s f) + 1"
proof (cases "argfd 0 (cur s)")
  case None
  then show ?thesis by (simp add: sys_dup_def)
next
  case (Some q)
  obtain fd0 f where q: "q = (fd0, f)" by (cases q)
  note af = argfd_SomeD [OF Some [unfolded q]]
  have pos: "1 \<le> f_ref (ftable s f)" using fd_inv_ref_pos [OF assms] af by blast
  show ?thesis
  proof (cases "fdalloc f s")
    case None
    then have "\<forall>fd<NOFILE. u_ofile (cur s) fd \<noteq> None"
      by (auto simp: fdalloc_def scan_eq_None split: option.splits)
    with None Some q show ?thesis by (simp add: sys_dup_def)
  next
    case fd: (Some p)
    obtain fd s1 where p: "p = (fd, s1)" by (cases p)
    note d = fdalloc_SomeD [OF fd [unfolded p]]
    let ?s' = "set_file f ((ftable s1 f)\<lparr>f_ref := f_ref (ftable s1 f) + 1\<rparr>) s1"
    have "sys_dup s = Ok (int fd, ?s')"
      using Some q fd p pos d(3) by (simp add: sys_dup_def filedup_def set_ofile_def)
    moreover have "\<not> (\<forall>fd<NOFILE. u_ofile (cur s) fd \<noteq> None)" using d by blast
    moreover have "fd0 \<noteq> fd" using af d(2) by auto
    ultimately show ?thesis using Some q d af by (auto simp: set_file_def set_ofile_def)
  qed
qed

theorem dup_lowest_witness:
  "\<exists>fd s'. sys_dup demo_sys = Ok (int fd, s') \<and> u_ofile (cur s') fd = Some 3 \<and> f_ref (ftable s' 3) = 2"
proof -
  have "u_ofile (cur demo_sys) 1 = None" by (simp add: demo_sys_sel)
  then have n: "\<not> (\<forall>fd<NOFILE. u_ofile (cur demo_sys) fd \<noteq> None)" by (metis one_less_numeral_iff semiring_norm(76))
  have "\<exists>fd s'. sys_dup demo_sys = Ok (int fd, s') \<and> u_ofile (cur s') = (u_ofile (cur demo_sys))(fd := Some 3) \<and>
      f_ref (ftable s' 3) = f_ref (ftable demo_sys 3) + 1"
    using dup_lowest [OF demo_fd_inv] n by (simp only: demo_argfd option.case prod.case if_False) blast
  moreover have "f_ref (ftable demo_sys 3) = 1" by (simp add: demo_sys_sel)
  ultimately show ?thesis by (metis fun_upd_same one_add_one)
qed

end
