(* ===== verification/Ide.thy ===== *)
theory Ide
  imports Block Spinlock
begin

text \<open>
  The disk driver, \<open>kernel/ide.c\<close>: the queue of buffers, sorted by block number, and the two
  critical sections under \<open>idelock\<close>, entering a request (\<open>iderw\<close> up to its \<open>sleep\<close>) and the
  interrupt.

  The controller is what the code relies on: it takes one command at a time, the data of a write at
  once, and offers the data of the last read at its port.  \<open>ready\<close> and \<open>err\<close> are the answers of
  \<open>idewait(0)\<close> and \<open>idewait(1)\<close>, which may be any at every call: a command that finds the disk not ready is
  not issued, a read may fail.  The program polls: an interrupt may come at any time, also a
  spurious one, and \<open>ideintr\<close> waits for the data of the command it issued last.
\<close>

abbreviation FSBLOCKS :: nat where "FSBLOCKS \<equiv> 25600"

record dbuf =
  db_dev :: nat
  db_block :: nat
  db_valid :: bool
  db_dirty :: bool
  db_lock :: sleeplock
  db_data :: block

datatype ide_cmd = ReadCmd nat nat | WriteCmd nat nat

record ide =
  bufs :: "nat \<Rightarrow> dbuf"
  idequeue :: "nat list"
  havedisk1 :: bool
  media :: "nat \<Rightarrow> nat \<Rightarrow> block"
  cmd :: "ide_cmd option"
  port :: block
  wakes :: "nat list"

section \<open>The driver\<close>

definition idestart :: "bool \<Rightarrow> nat \<Rightarrow> ide \<Rightarrow> ide kres" where
  "idestart ready b s =
     (let x = bufs s b; d = db_dev x mod 2; k = db_block x in
      if FSBLOCKS \<le> k then Panic ''idestart: block out of range''
      else if \<not> ready then Ok s
      else if db_dirty x
      then Ok (s\<lparr>cmd := Some (WriteCmd d k), media := (media s)(d := (media s d)(k := db_data x))\<rparr>)
      else Ok (s\<lparr>cmd := Some (ReadCmd d k), port := media s d k\<rparr>))"

definition set_buf :: "nat \<Rightarrow> dbuf \<Rightarrow> ide \<Rightarrow> ide" where
  "set_buf b x s = s\<lparr>bufs := (bufs s)(b := x)\<rparr>"

text \<open>What the interrupt makes of the buffer at the head of the queue.\<close>

definition finish_buf :: "bool \<Rightarrow> block \<Rightarrow> dbuf \<Rightarrow> dbuf" where
  "finish_buf err p x =
     (if \<not> db_dirty x
      then if \<not> err then x\<lparr>db_data := p, db_valid := True, db_dirty := False\<rparr>
           else x\<lparr>db_valid := False, db_dirty := False\<rparr>
      else x\<lparr>db_valid := True, db_dirty := False\<rparr>)"

definition ideintr :: "bool \<Rightarrow> bool \<Rightarrow> ide \<Rightarrow> ide kres" where
  "ideintr ready err s =
     (case idequeue s of
        [] \<Rightarrow> Ok s
      | b # q \<Rightarrow>
          let s1 = set_buf b (finish_buf err (port s) (bufs s b)) (s\<lparr>idequeue := q, wakes := wakes s @ [b]\<rparr>)
          in if q \<noteq> [] then idestart ready (hd q) s1 else Ok s1)"

fun queue_insert :: "(nat \<Rightarrow> nat) \<Rightarrow> nat \<Rightarrow> nat list \<Rightarrow> nat list" where
  "queue_insert blk b [] = [b]"
| "queue_insert blk b (x # xs) = (if blk b < blk x then b # x # xs else x # queue_insert blk b xs)"

definition ide_finished :: "ide \<Rightarrow> nat \<Rightarrow> bool" where
  "ide_finished s b \<longleftrightarrow> db_valid (bufs s b) \<and> \<not> db_dirty (bufs s b)"


section \<open>Requests and interrupts\<close>






lemma set_queue_insert [simp]: "set (queue_insert f b xs) = insert b (set xs)"
  by (induction xs) auto




lemma queue_insert_not_Nil [simp]: "queue_insert f b xs \<noteq> []"
  by (cases xs) auto












text \<open>a read that fails is not repeated: the interrupt takes the request off the queue and wakes its
  process, whose loop finds the buffer not valid and sleeps again, and no later interrupt
  touches the buffer while the process sleeps.\<close>

theorem ide_read_error_strands:
  assumes "idequeue s = b # q" and "b \<notin> set q" and "\<not> db_dirty (bufs s b)"
    and "ideintr ready True s = Ok s'"
  shows "\<not> ide_finished s' b \<and> b \<notin> set (idequeue s') \<and>
    (\<forall>rd err t. ideintr rd err s' = Ok t \<longrightarrow> \<not> ide_finished t b \<and> b \<notin> set (idequeue t))"
proof -
  let ?s1 = "set_buf b (finish_buf True (port s) (bufs s b)) (s\<lparr>idequeue := q, wakes := wakes s @ [b]\<rparr>)"
  have r: "(if q \<noteq> [] then idestart ready (hd q) ?s1 else Ok ?s1) = Ok s'"
    using assms(1,4) by (simp add: ideintr_def Let_def)
  then have keep: "bufs s' = bufs ?s1 \<and> idequeue s' = q"
    by (auto simp: idestart_def Let_def set_buf_def split: if_splits)
  then have b: "\<not> ide_finished s' b" "b \<notin> set (idequeue s')"
    using assms(2,3) by (simp_all add: ide_finished_def set_buf_def finish_buf_def)
  have "\<not> ide_finished t b \<and> b \<notin> set (idequeue t)" if t: "ideintr rd err s' = Ok t" for rd err t
  proof (cases "idequeue s'")
    case Nil
    with t b show ?thesis by (simp add: ideintr_def)
  next
    case (Cons c p)
    then have "bufs t b = bufs s' b \<and> idequeue t = p"
      using t b(2) by (auto simp: ideintr_def idestart_def Let_def set_buf_def split: if_splits)
    with b Cons show ?thesis by (simp add: ide_finished_def)
  qed
  with b show ?thesis by blast
qed

definition demo_ide :: ide where
  "demo_ide = \<lparr>bufs = (\<lambda>b. \<lparr>db_dev = 0, db_block = 10 - b, db_valid = False, db_dirty = False,
       db_lock = \<lparr>sl_locked = True, sl_pid = 7\<rparr>, db_data = zero_block\<rparr>),
     idequeue = [], havedisk1 = False, media = (\<lambda>d k i. of_nat k), cmd = None, port = zero_block, wakes = []\<rparr>"


theorem ide_read_error_strands_witness:
  "\<exists>s'. ideintr True True (demo_ide\<lparr>idequeue := [1]\<rparr>) = Ok s' \<and> \<not> ide_finished s' 1 \<and> 1 \<notin> set (idequeue s')"
proof -
  obtain s' where s': "ideintr True True (demo_ide\<lparr>idequeue := [1]\<rparr>) = Ok s'"
    by (simp add: ideintr_def Let_def)
  from ide_read_error_strands [OF _ _ _ s'] s' show ?thesis by (simp add: demo_ide_def)
qed

end
