(* ===== verification/Proc.thy ===== *)
theory Proc
  imports Sysfile Vm
begin

text \<open>
  Processes, \<open>kernel/proc.c\<close>.

  The process table is a function from slots below \<open>NPROC\<close> to processes; a pointer to a process
  is its slot.  The fields that scheduling reads and writes form \<open>pcore\<close>, which \<open>proc\<close> extends by
  memory, registers and files.  The table record also holds the counter of process ids, the
  first process and, for each CPU, the process it runs (\<open>c->proc\<close>).

  The functions on \<open>ptab\<close> are the sections that run under \<open>ptable.lock\<close>; \<open>swtch\<close> to the
  scheduler of CPU \<open>c\<close> clears \<open>running c\<close>, as the scheduler does when it resumes.  The functions
  on \<open>psys\<close> are the whole kernel calls, with the memory and the open files they move.

  Lock and interrupt bookkeeping of \<open>sched\<close> is in \<open>sched_checks\<close>; the locks themselves are the
  subject of \<open>Spinlock\<close>.
\<close>

abbreviation NPROC :: nat where "NPROC \<equiv> 64"

datatype procstate = UNUSED | EMBRYO | SLEEPING | RUNNABLE | RUNNING | ZOMBIE

text \<open>A sleep channel is an address: of a process for \<open>wait\<close>, of another kernel object otherwise.\<close>

datatype chan = AtProc nat | AtAddr uint

record trapframe =
  tf_edi :: uint
  tf_esi :: uint
  tf_ebp :: uint
  tf_oesp :: uint
  tf_ebx :: uint
  tf_edx :: uint
  tf_ecx :: uint
  tf_eax :: uint
  tf_gs :: ushort
  tf_fs :: ushort
  tf_es :: ushort
  tf_ds :: ushort
  tf_trapno :: uint
  tf_err :: uint
  tf_eip :: uint
  tf_cs :: ushort
  tf_eflags :: uint
  tf_esp :: uint
  tf_ss :: ushort

record kcontext =
  ctx_edi :: uint
  ctx_esi :: uint
  ctx_ebx :: uint
  ctx_ebp :: uint
  ctx_eip :: uint

record pcore =
  p_state :: procstate
  p_pid :: int
  p_parent :: "nat option"
  p_chan :: "chan option"
  p_killed :: bool

record proc = pcore +
  p_sz :: uint
  p_pgdir :: uint
  p_kstack :: uint
  p_tf :: trapframe
  p_context :: kcontext
  p_ret :: uint
  p_ofile :: "nat \<Rightarrow> nat option"
  p_cwd :: "nat option"
  p_name :: string

record ptab =
  procs :: "nat \<Rightarrow> proc"
  nextpid :: int
  initproc :: "nat option"
  running :: "nat \<Rightarrow> nat option"

record psys = ksys +
  pt :: ptab

text \<open>Addresses fixed by the linker: the end of the kernel, its data, \<open>forkret\<close> and \<open>trapret\<close>.\<close>

record klink =
  l_end :: uint
  l_data :: uint
  l_forkret :: uint
  l_trapret :: uint

definition upd_proc :: "nat \<Rightarrow> (proc \<Rightarrow> proc) \<Rightarrow> ptab \<Rightarrow> ptab" where
  "upd_proc i g t = t\<lparr>procs := (procs t)(i := g (procs t i))\<rparr>"

abbreviation state_of :: "ptab \<Rightarrow> nat \<Rightarrow> procstate" where
  "state_of t i \<equiv> p_state (procs t i)"

section \<open>Sections under the lock of the table\<close>

text \<open>An \<open>int\<close> has 32 bits; \<open>nextpid++\<close> wraps to the least number.\<close>

definition wrap_int :: "int \<Rightarrow> int" where
  "wrap_int x = (x + 2147483648) mod 4294967296 - 2147483648"

definition alloc_slot :: "ptab \<Rightarrow> (nat \<times> ptab) option" where
  "alloc_slot t =
     (case scan (\<lambda>i. state_of t i = UNUSED) 0 NPROC of
        None \<Rightarrow> None
      | Some i \<Rightarrow>
          Some (i, (upd_proc i (\<lambda>p. p\<lparr>p_state := EMBRYO, p_pid := nextpid t\<rparr>) t)\<lparr>nextpid := wrap_int (nextpid t + 1)\<rparr>))"

definition wakeup1 :: "chan \<Rightarrow> ptab \<Rightarrow> ptab" where
  "wakeup1 ch t =
     t\<lparr>procs := (\<lambda>i. if i < NPROC \<and> state_of t i = SLEEPING \<and> p_chan (procs t i) = Some ch
                     then (procs t i)\<lparr>p_state := RUNNABLE\<rparr> else procs t i)\<rparr>"

definition wakeup :: "chan \<Rightarrow> ptab \<Rightarrow> ptab" where
  "wakeup ch t = wakeup1 ch t"

text \<open>The first process is never null when a process exits.\<close>

definition wake_proc :: "nat option \<Rightarrow> ptab \<Rightarrow> ptab" where
  "wake_proc po t = (case po of None \<Rightarrow> t | Some q \<Rightarrow> wakeup1 (AtProc q) t)"

fun reparent_loop :: "nat \<Rightarrow> nat \<Rightarrow> nat \<Rightarrow> ptab \<Rightarrow> ptab" where
  "reparent_loop me i 0 t = t"
| "reparent_loop me i (Suc k) t =
     reparent_loop me (Suc i) k
       (if p_parent (procs t i) = Some me
        then let t1 = upd_proc i (\<lambda>p. p\<lparr>p_parent := initproc t\<rparr>) t
             in if state_of t1 i = ZOMBIE then wake_proc (initproc t) t1 else t1
        else t)"

text \<open>\<open>sched\<close> saves the context of the process and enters the scheduler of its CPU.\<close>

definition sched_checks :: "bool \<Rightarrow> int \<Rightarrow> procstate \<Rightarrow> bool \<Rightarrow> unit kres" where
  "sched_checks holding_ptable cpu_ncli st intr_on =
     kbind (kguard holding_ptable ''sched ptable.lock'') (\<lambda>_.
     kbind (kguard (cpu_ncli = 1) ''sched locks'') (\<lambda>_.
     kbind (kguard (st \<noteq> RUNNING) ''sched running'') (\<lambda>_.
     kguard (\<not> intr_on) ''sched interruptible'')))"

definition switch_out :: "nat \<Rightarrow> ptab \<Rightarrow> ptab" where
  "switch_out c t = t\<lparr>running := (running t)(c := None)\<rparr>"

definition exit_locked :: "nat \<Rightarrow> nat \<Rightarrow> ptab \<Rightarrow> ptab" where
  "exit_locked c me t =
     (let t1 = wake_proc (p_parent (procs t me)) t;
          t2 = reparent_loop me 0 NPROC t1
      in switch_out c (upd_proc me (\<lambda>p. p\<lparr>p_state := ZOMBIE\<rparr>) t2))"

text \<open>The scan of \<open>wait\<close>: the first exited child, or whether there are children at all.\<close>

datatype scan_result = Exited nat | HaveKids bool

fun wait_scan :: "nat \<Rightarrow> nat \<Rightarrow> nat \<Rightarrow> bool \<Rightarrow> ptab \<Rightarrow> scan_result" where
  "wait_scan me i 0 havekids t = HaveKids havekids"
| "wait_scan me i (Suc k) havekids t =
     (if p_parent (procs t i) \<noteq> Some me then wait_scan me (Suc i) k havekids t
      else if state_of t i = ZOMBIE then Exited i
      else wait_scan me (Suc i) k True t)"

definition clear_slot :: "nat \<Rightarrow> ptab \<Rightarrow> ptab" where
  "clear_slot i t =
     upd_proc i (\<lambda>p. p\<lparr>p_state := UNUSED, p_pid := 0, p_parent := None, p_killed := False, p_kstack := 0,
       p_name := []\<rparr>) t"

definition sleep_locked :: "nat \<Rightarrow> nat \<Rightarrow> chan \<Rightarrow> ptab \<Rightarrow> ptab" where
  "sleep_locked c me ch t =
     switch_out c (upd_proc me (\<lambda>p. p\<lparr>p_state := SLEEPING, p_chan := Some ch\<rparr>) t)"

text \<open>What \<open>sleep\<close> does when the process runs again.\<close>

definition sleep_resume :: "nat \<Rightarrow> ptab \<Rightarrow> ptab" where
  "sleep_resume me t = upd_proc me (\<lambda>p. p\<lparr>p_chan := None\<rparr>) t"

definition yield :: "nat \<Rightarrow> nat \<Rightarrow> ptab \<Rightarrow> ptab" where
  "yield c me t = switch_out c (upd_proc me (\<lambda>p. p\<lparr>p_state := RUNNABLE\<rparr>) t)"

definition kill :: "int \<Rightarrow> ptab \<Rightarrow> int \<times> ptab" where
  "kill pid t =
     (case scan (\<lambda>i. p_pid (procs t i) = pid) 0 NPROC of
        None \<Rightarrow> (-1, t)
      | Some i \<Rightarrow> (0, upd_proc i (\<lambda>p. p\<lparr>p_state := (if p_state p = SLEEPING then RUNNABLE else p_state p),
                                       p_killed := True\<rparr>) t))"

text \<open>The scheduler of CPU \<open>c\<close> at position \<open>i\<close> of its loop, and its search for the next process.\<close>

definition switch_to :: "nat \<Rightarrow> nat \<Rightarrow> ptab \<Rightarrow> ptab" where
  "switch_to c i t =
     (upd_proc i (\<lambda>p. p\<lparr>p_state := RUNNING\<rparr>) t)\<lparr>running := (running t)(c := Some i)\<rparr>"

definition sched_next :: "nat \<Rightarrow> nat \<Rightarrow> ptab \<Rightarrow> (nat \<times> ptab) option" where
  "sched_next c i t = map_option (\<lambda>j. (j, switch_to c j t)) (scan (\<lambda>j. state_of t j = RUNNABLE) i (NPROC - i))"

section \<open>Creating processes\<close>

definition put_proc :: "nat \<Rightarrow> (proc \<Rightarrow> proc) \<Rightarrow> psys \<Rightarrow> psys" where
  "put_proc i g s = s\<lparr>pt := upd_proc i g (pt s)\<rparr>"

definition allocproc :: "klink \<Rightarrow> psys \<Rightarrow> nat option \<times> psys" where
  "allocproc K s =
     (case alloc_slot (pt s) of
        None \<Rightarrow> (None, s)
      | Some (i, t) \<Rightarrow>
          (case kalloc (kmm s) of (stack, k) \<Rightarrow>
             let s1 = s\<lparr>kmm := k, pt := t\<rparr> in
             if stack = 0 then (None, put_proc i (\<lambda>p. p\<lparr>p_state := UNUSED, p_kstack := 0\<rparr>) s1)
             else (Some i, put_proc i (\<lambda>p. p\<lparr>p_kstack := stack,
                     p_context := \<lparr>ctx_edi = 0, ctx_esi = 0, ctx_ebx = 0, ctx_ebp = 0, ctx_eip = l_forkret K\<rparr>,
                     p_ret := l_trapret K\<rparr>) s1)))"

abbreviation FL_IF :: uint where "FL_IF \<equiv> 0x200"

text \<open>\<open>(SEG_UCODE << 3) | DPL_USER\<close> and \<open>(SEG_UDATA << 3) | DPL_USER\<close>.\<close>

definition user_cs :: ushort where "user_cs = push_bit 3 3 OR 3"
definition user_ds :: ushort where "user_ds = push_bit 3 4 OR 3"

definition first_trapframe :: trapframe where
  "first_trapframe =
     \<lparr>tf_edi = 0, tf_esi = 0, tf_ebp = 0, tf_oesp = 0, tf_ebx = 0, tf_edx = 0, tf_ecx = 0, tf_eax = 0,
      tf_gs = 0, tf_fs = 0, tf_es = user_ds, tf_ds = user_ds, tf_trapno = 0, tf_err = 0, tf_eip = 0,
      tf_cs = user_cs, tf_eflags = FL_IF, tf_esp = PGSIZE, tf_ss = user_ds\<rparr>"

text \<open>\<open>userinit\<close> does not test the result of \<open>allocproc\<close>; a null pointer there faults.\<close>

definition userinit :: "klink \<Rightarrow> (uint \<Rightarrow> uint) \<Rightarrow> uint \<Rightarrow> psys \<Rightarrow> psys kres" where
  "userinit K code sz s =
     (case allocproc K s of
        (None, s1) \<Rightarrow> Panic ''trap''
      | (Some p, s1) \<Rightarrow>
          let s2 = s1\<lparr>pt := (pt s1)\<lparr>initproc := Some p\<rparr>\<rparr> in
          kbind (setupkvm (l_end K) (l_data K) (kmm s2)) (\<lambda>(d, k).
            if d = 0 then Panic ''userinit: out of memory?''
            else kbind (inituvm d code sz k) (\<lambda>k1.
              let s3 = put_proc p (\<lambda>q. q\<lparr>p_sz := PGSIZE, p_pgdir := d, p_tf := first_trapframe,
                         p_name := ''initcode''\<rparr>) (s2\<lparr>kmm := k1\<rparr>)
              in kbind (namei (p_pid (procs (pt s3) p)) 0 [0x2F] s3) (\<lambda>(cwd, s4).
                   Ok (put_proc p (\<lambda>q. q\<lparr>p_state := RUNNABLE, p_cwd := cwd\<rparr>) s4)))))"

section \<open>Memory of a process\<close>

definition growproc :: "klink \<Rightarrow> nat \<Rightarrow> int \<Rightarrow> psys \<Rightarrow> (int \<times> psys) kres" where
  "growproc K me n s =
     (let p = procs (pt s) me; sz = p_sz p in
      if n = 0 then Ok (0, s)
      else kbind (if 0 < n then allocuvm (l_end K) (p_pgdir p) sz (sz + of_int n) (kmm s)
                  else deallocuvm (l_end K) (p_pgdir p) sz (sz + of_int n) (kmm s)) (\<lambda>(sz1, k).
        if sz1 = 0 then Ok (-1, s\<lparr>kmm := k\<rparr>)
        else Ok (0, put_proc me (\<lambda>p. p\<lparr>p_sz := sz1\<rparr>) (s\<lparr>kmm := k\<rparr>))))"

section \<open>Fork, exit and wait\<close>

definition dup_fd :: "nat \<Rightarrow> nat \<Rightarrow> nat \<Rightarrow> psys \<Rightarrow> psys kres" where
  "dup_fd me np fd s =
     (case p_ofile (procs (pt s) me) fd of
        None \<Rightarrow> Ok s
      | Some f \<Rightarrow> kbind (filedup f s) (\<lambda>s1.
          Ok (put_proc np (\<lambda>p. p\<lparr>p_ofile := (p_ofile p)(fd := Some f)\<rparr>) s1)))"

text \<open>A process has a current directory until it exits; without one \<open>idup\<close> would fault.\<close>

definition fork :: "klink \<Rightarrow> nat \<Rightarrow> psys \<Rightarrow> (int \<times> psys) kres" where
  "fork K me s =
     (case allocproc K s of
        (None, s1) \<Rightarrow> Ok (-1, s1)
      | (Some np, s1) \<Rightarrow>
          let p = procs (pt s1) me in
          kbind (copyuvm (l_end K) (l_data K) (p_pgdir p) (p_sz p) (kmm s1)) (\<lambda>(d, k).
            if d = 0
            then kbind (kfree (l_end K) (p_kstack (procs (pt s1) np)) k) (\<lambda>k1.
                   Ok (-1, put_proc np (\<lambda>q. q\<lparr>p_state := UNUSED, p_pgdir := 0, p_kstack := 0\<rparr>) (s1\<lparr>kmm := k1\<rparr>)))
            else
              let s2 = put_proc np (\<lambda>q. q\<lparr>p_parent := Some me, p_sz := p_sz p, p_pgdir := d,
                         p_tf := (p_tf p)\<lparr>tf_eax := 0\<rparr>\<rparr>) (s1\<lparr>kmm := k\<rparr>)
              in kbind (kloop (dup_fd me np) 0 NOFILE s2) (\<lambda>s3.
                   case p_cwd p of
                     None \<Rightarrow> Panic ''trap''
                   | Some ip \<Rightarrow>
                       Ok (p_pid (procs (pt s3) np),
                           put_proc np (\<lambda>q. q\<lparr>p_state := RUNNABLE, p_cwd := Some ip, p_name := p_name p\<rparr>)
                             (idup ip s3)))))"

definition close_fd :: "klink \<Rightarrow> nat \<Rightarrow> nat \<Rightarrow> psys \<Rightarrow> psys kres" where
  "close_fd K me fd s =
     (case p_ofile (procs (pt s) me) fd of
        None \<Rightarrow> Ok s
      | Some f \<Rightarrow> kbind (fileclose (l_end K) (p_pid (procs (pt s) me)) f s) (\<lambda>s1.
          Ok (put_proc me (\<lambda>p. p\<lparr>p_ofile := (p_ofile p)(fd := None)\<rparr>) s1)))"

definition proc_exit :: "klink \<Rightarrow> nat \<Rightarrow> nat \<Rightarrow> psys \<Rightarrow> psys kres" where
  "proc_exit K c me s =
     (if initproc (pt s) = Some me then Panic ''init exiting''
      else kbind (kloop (close_fd K me) 0 NOFILE s) (\<lambda>s1.
        case p_cwd (procs (pt s1) me) of
          None \<Rightarrow> Panic ''trap''
        | Some ip \<Rightarrow>
            kbind (begin_op s1) (\<lambda>s2.
            kbind (iput (p_pid (procs (pt s2) me)) ip s2) (\<lambda>s3.
            kbind (end_op s3) (\<lambda>s4.
              let s5 = put_proc me (\<lambda>p. p\<lparr>p_cwd := None\<rparr>) s4
              in Ok (s5\<lparr>pt := exit_locked c me (pt s5)\<rparr>))))))"

text \<open>One round of the loop of \<open>wait\<close>: a result, or \<open>None\<close> when the process has gone to sleep and
  scans again after it wakes up.\<close>

definition wait :: "klink \<Rightarrow> nat \<Rightarrow> nat \<Rightarrow> psys \<Rightarrow> (int option \<times> psys) kres" where
  "wait K c me s =
     (case wait_scan me 0 NPROC False (pt s) of
        Exited i \<Rightarrow>
          let p = procs (pt s) i in
          kbind (kfree (l_end K) (p_kstack p) (kmm s)) (\<lambda>k1.
          kbind (freevm (l_end K) (p_pgdir p) k1) (\<lambda>k2.
            Ok (Some (p_pid p), s\<lparr>kmm := k2, pt := clear_slot i (pt s)\<rparr>)))
      | HaveKids b \<Rightarrow>
          if \<not> b \<or> p_killed (procs (pt s) me) then Ok (Some (-1), s)
          else Ok (None, s\<lparr>pt := sleep_locked c me (AtProc me) (pt s)\<rparr>))"

end
