(* ===== verification/Sched.thy ===== *)
theory Sched
  imports Proc Interfaces
begin

text \<open>
  The process table as a shared state machine.

  \<open>proc_step\<close> has one rule for every section of \<open>proc.c\<close> that runs under \<open>ptable.lock\<close>, executed
  by any process that a CPU is running, by the scheduler of any CPU or by an interrupt; the rule
  \<open>st_private\<close> covers the code that changes only memory, registers and files.  A child of \<open>fork\<close>
  gets its parent and becomes runnable in one step: between the two assignments of the code only
  the parent, which is running \<open>fork\<close>, would notice the difference.  The relation allows any
  running process to finish or give up any slot in state \<open>EMBRYO\<close>, so it has more behaviours than
  the code.
\<close>

interpretation proctab: slot_table "\<lambda>t i. state_of t i = UNUSED" NPROC alloc_slot
proof (unfold_locales, goal_cases)
  case (1 t i t')
  then show ?case by (auto simp: alloc_slot_def split: option.splits dest: scan_SomeD)
next
  case (2 t i t')
  then show ?case by (auto simp: alloc_slot_def upd_proc_def split: option.splits)
next
  case (3 t i t' j)
  then show ?case by (auto simp: alloc_slot_def upd_proc_def split: option.splits)
next
  case (4 t i)
  then show ?case by (auto simp: alloc_slot_def scan_eq_None split: option.splits)
qed

section \<open>Transitions\<close>

definition same_core :: "ptab \<Rightarrow> ptab \<Rightarrow> bool" where
  "same_core t t' \<longleftrightarrow> nextpid t' = nextpid t \<and> initproc t' = initproc t \<and> running t' = running t \<and>
     (\<forall>i. p_state (procs t' i) = p_state (procs t i) \<and> p_pid (procs t' i) = p_pid (procs t i) \<and>
        p_parent (procs t' i) = p_parent (procs t i) \<and> p_chan (procs t' i) = p_chan (procs t i) \<and>
        p_killed (procs t' i) = p_killed (procs t i))"

definition fork_done :: "nat \<Rightarrow> nat \<Rightarrow> ptab \<Rightarrow> ptab" where
  "fork_done me i t = upd_proc i (\<lambda>p. p\<lparr>p_state := RUNNABLE, p_parent := Some me\<rparr>) t"

definition free_slot :: "nat \<Rightarrow> ptab \<Rightarrow> ptab" where
  "free_slot i t = upd_proc i (\<lambda>p. p\<lparr>p_state := UNUSED\<rparr>) t"

definition mark_killed :: "nat \<Rightarrow> ptab \<Rightarrow> ptab" where
  "mark_killed i t = upd_proc i (\<lambda>p. p\<lparr>p_killed := True\<rparr>) t"

inductive proc_step :: "ptab \<Rightarrow> ptab \<Rightarrow> bool" where
  st_private: "same_core t t' \<Longrightarrow> proc_step t t'"
| st_dispatch: "running t c = None \<Longrightarrow> sched_next c i t = Some (j, t') \<Longrightarrow> i \<le> NPROC \<Longrightarrow> proc_step t t'"
| st_yield: "running t c = Some me \<Longrightarrow> proc_step t (yield c me t)"
| st_sleep: "running t c = Some me \<Longrightarrow> proc_step t (sleep_locked c me (AtAddr a) t)"
| st_resume: "running t c = Some me \<Longrightarrow> proc_step t (sleep_resume me t)"
| st_wakeup: "proc_step t (wakeup (AtAddr a) t)"
| st_kill: "proc_step t (snd (kill pid t))"
| st_fault: "running t c = Some me \<Longrightarrow> proc_step t (mark_killed me t)"
| st_alloc: "running t c = Some me \<Longrightarrow> alloc_slot t = Some (i, t') \<Longrightarrow> proc_step t t'"
| st_give_up: "i < NPROC \<Longrightarrow> state_of t i = EMBRYO \<Longrightarrow> proc_step t (free_slot i t)"
| st_fork: "running t c = Some me \<Longrightarrow> i < NPROC \<Longrightarrow> state_of t i = EMBRYO \<Longrightarrow> proc_step t (fork_done me i t)"
| st_exit: "running t c = Some me \<Longrightarrow> initproc t \<noteq> Some me \<Longrightarrow> proc_step t (exit_locked c me t)"
| st_reap: "running t c = Some me \<Longrightarrow> wait_scan me 0 NPROC False t = Exited i \<Longrightarrow> proc_step t (clear_slot i t)"
| st_wait: "running t c = Some me \<Longrightarrow> wait_scan me 0 NPROC False t = HaveKids True \<Longrightarrow>
    \<not> p_killed (procs t me) \<Longrightarrow> proc_step t (sleep_locked c me (AtProc me) t)"

text \<open>The table after \<open>userinit\<close>, and what can follow.\<close>

definition boot_table :: "ptab \<Rightarrow> bool" where
  "boot_table t \<longleftrightarrow> nextpid t = 1 \<and> (\<forall>c. running t c = None) \<and>
     (\<forall>i. state_of t i = UNUSED \<and> p_pid (procs t i) = 0 \<and> p_parent (procs t i) = None \<and>
        p_chan (procs t i) = None \<and> \<not> p_killed (procs t i))"

inductive proc_reach :: "ptab \<Rightarrow> bool" where
  reach_boot: "boot_table t \<Longrightarrow> alloc_slot t = Some (p, t1) \<Longrightarrow>
    proc_reach ((upd_proc p (\<lambda>q. q\<lparr>p_state := RUNNABLE\<rparr>) t1)\<lparr>initproc := Some p\<rparr>)"
| reach_step: "proc_reach t \<Longrightarrow> proc_step t t' \<Longrightarrow> proc_reach t'"

section \<open>Invariants\<close>

definition live :: "ptab \<Rightarrow> nat \<Rightarrow> bool" where
  "live t i \<longleftrightarrow> i < NPROC \<and> state_of t i \<in> {SLEEPING, RUNNABLE, RUNNING}"

text \<open>CPUs and running processes correspond one to one.\<close>

definition cpus_ok :: "ptab \<Rightarrow> bool" where
  "cpus_ok t \<longleftrightarrow> (\<forall>c p. running t c = Some p \<longrightarrow> p < NPROC \<and> state_of t p = RUNNING) \<and>
     (\<forall>c d p. running t c = Some p \<longrightarrow> running t d = Some p \<longrightarrow> c = d) \<and>
     (\<forall>p<NPROC. state_of t p = RUNNING \<longrightarrow> (\<exists>c. running t c = Some p))"

text \<open>Every process but the first has a parent that has not exited.\<close>

definition family_ok :: "ptab \<Rightarrow> bool" where
  "family_ok t \<longleftrightarrow> (\<exists>r. initproc t = Some r \<and> live t r \<and> p_parent (procs t r) = None) \<and>
     (\<forall>i<NPROC. state_of t i \<in> {UNUSED, EMBRYO} \<longrightarrow> p_parent (procs t i) = None) \<and>
     (\<forall>i<NPROC. state_of t i \<notin> {UNUSED, EMBRYO} \<longrightarrow> initproc t \<noteq> Some i \<longrightarrow>
        (\<exists>q. p_parent (procs t i) = Some q \<and> q \<noteq> i \<and> live t q))"

text \<open>A process asleep in \<open>wait\<close> has children, none of them exited, and has not been killed.\<close>

definition waits_ok :: "ptab \<Rightarrow> bool" where
  "waits_ok t \<longleftrightarrow> (\<forall>p<NPROC. \<forall>q. state_of t p = SLEEPING \<longrightarrow> p_chan (procs t p) = Some (AtProc q) \<longrightarrow>
     q = p \<and> \<not> p_killed (procs t p) \<and> (\<exists>i<NPROC. p_parent (procs t i) = Some p) \<and>
     (\<forall>i<NPROC. p_parent (procs t i) = Some p \<longrightarrow> state_of t i \<noteq> ZOMBIE))"

lemmas table_defs = cpus_ok_def family_ok_def waits_ok_def live_def

definition table_ok :: "ptab \<Rightarrow> bool" where
  "table_ok t \<longleftrightarrow> cpus_ok t \<and> family_ok t \<and> waits_ok t"

lemmas proc_ops = upd_proc_def yield_def sleep_locked_def sleep_resume_def switch_out_def switch_to_def
  fork_done_def free_slot_def mark_killed_def clear_slot_def wakeup_def wakeup1_def

section \<open>The sections keep the invariants\<close>

lemma wait_scan_Exited:
  "wait_scan me i k b t = Exited j \<Longrightarrow>
   i \<le> j \<and> j < i + k \<and> p_parent (procs t j) = Some me \<and> state_of t j = ZOMBIE"
  by (induction k arbitrary: i b) (fastforce split: if_splits)+

lemma wait_scan_HaveKids:
  "wait_scan me i k b t = HaveKids b' \<Longrightarrow>
   (b' \<longleftrightarrow> b \<or> (\<exists>j. i \<le> j \<and> j < i + k \<and> p_parent (procs t j) = Some me)) \<and>
   (\<forall>j. i \<le> j \<and> j < i + k \<and> p_parent (procs t j) = Some me \<longrightarrow> state_of t j \<noteq> ZOMBIE)"
proof (induction k arbitrary: i b)
  case (Suc k)
  have r: "(i \<le> j \<and> j < i + Suc k \<and> X) \<longleftrightarrow> (j = i \<and> X) \<or> (Suc i \<le> j \<and> j < Suc i + k \<and> X)" for j X
    by auto
  show ?case
  proof (cases "p_parent (procs t i) = Some me")
    case True
    with Suc.prems have "wait_scan me (Suc i) k True t = HaveKids b'" "state_of t i \<noteq> ZOMBIE"
      by (auto split: if_splits)
    with Suc.IH [OF this(1)] True show ?thesis unfolding r by blast
  next
    case False
    with Suc.prems have "wait_scan me (Suc i) k b t = HaveKids b'" by simp
    from Suc.IH [OF this] False show ?thesis unfolding r by blast
  qed
qed auto

text \<open>The fields other than the state, and how the state may change, under \<open>wakeup1\<close>.\<close>

lemma wakeup1_fields [simp]:
  "p_pid (procs (wakeup1 ch t) i) = p_pid (procs t i)"
  "p_parent (procs (wakeup1 ch t) i) = p_parent (procs t i)"
  "p_chan (procs (wakeup1 ch t) i) = p_chan (procs t i)"
  "p_killed (procs (wakeup1 ch t) i) = p_killed (procs t i)"
  "nextpid (wakeup1 ch t) = nextpid t" "initproc (wakeup1 ch t) = initproc t"
  "running (wakeup1 ch t) = running t"
  "state_of (wakeup1 ch t) i =
     (if i < NPROC \<and> state_of t i = SLEEPING \<and> p_chan (procs t i) = Some ch then RUNNABLE else state_of t i)"
  by (auto simp: wakeup1_def)

text \<open>\<open>woken_from t t'\<close>: \<open>t'\<close> differs from \<open>t\<close> by processes that have been woken up.\<close>

definition woken_from :: "ptab \<Rightarrow> ptab \<Rightarrow> bool" where
  "woken_from t t' \<longleftrightarrow> nextpid t' = nextpid t \<and> initproc t' = initproc t \<and> running t' = running t \<and>
     (\<forall>i. p_pid (procs t' i) = p_pid (procs t i) \<and> p_chan (procs t' i) = p_chan (procs t i) \<and>
        p_killed (procs t' i) = p_killed (procs t i) \<and>
        (state_of t' i = state_of t i \<or> state_of t i = SLEEPING \<and> state_of t' i = RUNNABLE))"

lemma woken_refl: "woken_from t t"
  by (simp add: woken_from_def)

lemma woken_trans: "woken_from t u \<Longrightarrow> woken_from u v \<Longrightarrow> woken_from t v"
  by (simp add: woken_from_def) metis

lemma woken_wakeup1: "woken_from t (wakeup1 ch t)"
  by (simp add: woken_from_def)

lemma woken_wake_proc: "woken_from t (wake_proc q t)"
  by (cases q) (simp_all add: wake_proc_def woken_refl woken_wakeup1)

lemma wake_proc_parent [simp]: "p_parent (procs (wake_proc q t) i) = p_parent (procs t i)"
  by (cases q) (simp_all add: wake_proc_def)

lemma wake_proc_awake:
  "i < NPROC \<Longrightarrow> p_chan (procs t i) = Some (AtProc r) \<Longrightarrow> state_of (wake_proc (Some r) t) i \<noteq> SLEEPING"
  by (auto simp: wake_proc_def)

definition adopt :: "nat \<Rightarrow> nat \<Rightarrow> ptab \<Rightarrow> ptab" where
  "adopt me i t =
     (if p_parent (procs t i) = Some me
      then let t1 = upd_proc i (\<lambda>p. p\<lparr>p_parent := initproc t\<rparr>) t
           in if state_of t1 i = ZOMBIE then wake_proc (initproc t) t1 else t1
      else t)"

lemma reparent_loop_Suc: "reparent_loop me i (Suc k) t = reparent_loop me (Suc i) k (adopt me i t)"
  by (simp add: adopt_def)

lemma adopt_woken: "woken_from t (adopt me i t)"
proof -
  have "woken_from t (upd_proc i (\<lambda>p. p\<lparr>p_parent := q\<rparr>) t)" for q
    by (simp add: woken_from_def upd_proc_def)
  then show ?thesis
    by (auto simp: adopt_def Let_def woken_refl intro: woken_trans [OF _ woken_wake_proc])
qed

lemma adopt_parent:
  "p_parent (procs (adopt me i t) j) =
   (if j = i \<and> p_parent (procs t i) = Some me then initproc t else p_parent (procs t j))"
  by (auto simp: adopt_def upd_proc_def Let_def)

lemma adopt_awake:
  assumes "p_parent (procs t i) = Some me" "state_of t i = ZOMBIE" "initproc t = Some r" "x < NPROC"
    "p_chan (procs t x) = Some (AtProc r)"
  shows "state_of (adopt me i t) x \<noteq> SLEEPING"
proof -
  have "p_chan (procs (upd_proc i (\<lambda>p. p\<lparr>p_parent := Some r\<rparr>) t) x) = Some (AtProc r)"
    using assms(5) by (auto simp: upd_proc_def)
  then show ?thesis
    using assms wake_proc_awake by (simp add: adopt_def Let_def upd_proc_def)
qed

lemma reparent_loop_woken: "woken_from t (reparent_loop me i k t)"
proof (induction k arbitrary: i t)
  case (Suc k)
  then show ?case unfolding reparent_loop_Suc using adopt_woken woken_trans by blast
qed (simp add: woken_refl)

lemma reparent_loop_parent:
  "p_parent (procs (reparent_loop me i k t) j) =
   (if i \<le> j \<and> j < i + k \<and> p_parent (procs t j) = Some me then initproc t else p_parent (procs t j))"
proof (induction k arbitrary: i t)
  case (Suc k)
  have "initproc (adopt me i t) = initproc t" using adopt_woken by (simp add: woken_from_def)
  with Suc [of "Suc i" "adopt me i t"] show ?case
    unfolding reparent_loop_Suc by (cases "j = i") (auto simp: adopt_parent)
qed auto

lemma awake_stays:
  "woken_from t t' \<Longrightarrow> state_of t x \<noteq> SLEEPING \<Longrightarrow> state_of t' x \<noteq> SLEEPING"
  by (auto simp: woken_from_def) (metis procstate.distinct)

lemma reparent_loop_awake:
  assumes "p_parent (procs t j) = Some me" "state_of t j = ZOMBIE" "initproc t = Some r" "x < NPROC"
    "p_chan (procs t x) = Some (AtProc r)" "i \<le> j" "j < i + k"
  shows "state_of (reparent_loop me i k t) x \<noteq> SLEEPING"
  using assms
proof (induction k arbitrary: i t)
  case (Suc k)
  note w = adopt_woken [of t me i]
  show ?case
  proof (cases "j = i")
    case True
    with Suc.prems adopt_awake have "state_of (adopt me i t) x \<noteq> SLEEPING" by blast
    then show ?thesis unfolding reparent_loop_Suc using reparent_loop_woken awake_stays by blast
  next
    case False
    then have "p_parent (procs (adopt me i t) j) = Some me" using Suc.prems by (simp add: adopt_parent)
    moreover have "state_of (adopt me i t) j = ZOMBIE"
      using w Suc.prems(2) by (auto simp: woken_from_def) (metis procstate.distinct(23))
    ultimately show ?thesis
      unfolding reparent_loop_Suc using Suc.prems False w by (intro Suc.IH) (auto simp: woken_from_def)
  qed
qed simp

text \<open>The whole locked section of \<open>exit\<close>.\<close>

lemma exit_locked_view:
  fixes t :: ptab and c me :: nat
  defines "u \<equiv> exit_locked c me t"
  assumes "initproc t \<noteq> Some me"
  shows "nextpid u = nextpid t" "initproc u = initproc t" "running u = (running t)(c := None)"
    "p_pid (procs u i) = p_pid (procs t i)" "p_chan (procs u i) = p_chan (procs t i)"
    "p_killed (procs u i) = p_killed (procs t i)"
    "p_parent (procs u i) = (if i < NPROC \<and> p_parent (procs t i) = Some me then initproc t else p_parent (procs t i))"
    "state_of u me = ZOMBIE"
    "i \<noteq> me \<Longrightarrow> state_of u i = state_of t i \<or> state_of t i = SLEEPING \<and> state_of u i = RUNNABLE"
    "i \<noteq> me \<Longrightarrow> i < NPROC \<Longrightarrow> p_parent (procs t me) = Some q \<Longrightarrow> p_chan (procs t i) = Some (AtProc q) \<Longrightarrow>
       state_of u i \<noteq> SLEEPING"
    "i \<noteq> me \<Longrightarrow> i < NPROC \<Longrightarrow> j < NPROC \<Longrightarrow> p_parent (procs t j) = Some me \<Longrightarrow> state_of t j = ZOMBIE \<Longrightarrow>
       initproc t = Some r \<Longrightarrow> p_chan (procs t i) = Some (AtProc r) \<Longrightarrow> state_of u i \<noteq> SLEEPING"
proof -
  let ?t1 = "wake_proc (p_parent (procs t me)) t"
  let ?t2 = "reparent_loop me 0 NPROC ?t1"
  have u: "u = switch_out c (upd_proc me (\<lambda>p. p\<lparr>p_state := ZOMBIE\<rparr>) ?t2)"
    by (simp add: u_def exit_locked_def Let_def)
  have w1: "woken_from t ?t1" by (rule woken_wake_proc)
  have w2: "woken_from ?t1 ?t2" by (rule reparent_loop_woken)
  have w: "woken_from t ?t2" using w1 w2 woken_trans by blast
  show "nextpid u = nextpid t" "initproc u = initproc t" "running u = (running t)(c := None)"
    "p_pid (procs u i) = p_pid (procs t i)" "p_chan (procs u i) = p_chan (procs t i)"
    "p_killed (procs u i) = p_killed (procs t i)" "state_of u me = ZOMBIE"
    "i \<noteq> me \<Longrightarrow> state_of u i = state_of t i \<or> state_of t i = SLEEPING \<and> state_of u i = RUNNABLE"
    using w by (simp_all add: u switch_out_def upd_proc_def woken_from_def)
  show "p_parent (procs u i) = (if i < NPROC \<and> p_parent (procs t i) = Some me then initproc t else p_parent (procs t i))"
  proof -
    have ip: "initproc ?t1 = initproc t" using w1 by (simp add: woken_from_def)
    have "p_parent (procs u i) = p_parent (procs ?t2 i)" by (simp add: u switch_out_def upd_proc_def)
    then show ?thesis by (simp only: reparent_loop_parent wake_proc_parent ip add_0_left le0 simp_thms)
  qed
  show "state_of u i \<noteq> SLEEPING"
    if "i \<noteq> me" "i < NPROC" "p_parent (procs t me) = Some q" "p_chan (procs t i) = Some (AtProc q)"
  proof -
    have "state_of ?t1 i \<noteq> SLEEPING" using that wake_proc_awake by simp
    with w2 awake_stays have "state_of ?t2 i \<noteq> SLEEPING" by blast
    with that(1) show ?thesis by (simp add: u switch_out_def upd_proc_def)
  qed
  show "state_of u i \<noteq> SLEEPING"
    if "i \<noteq> me" "i < NPROC" "j < NPROC" "p_parent (procs t j) = Some me" "state_of t j = ZOMBIE"
      "initproc t = Some r" "p_chan (procs t i) = Some (AtProc r)"
  proof -
    have "state_of ?t1 j = ZOMBIE" using w1 that(5) by (simp add: woken_from_def) (metis procstate.distinct(23))
    then have "state_of ?t2 i \<noteq> SLEEPING"
      using that w1 by (intro reparent_loop_awake [where j = j and r = r]) (auto simp: woken_from_def)
    with that(1) show ?thesis by (simp add: u switch_out_def upd_proc_def)
  qed
qed

lemma exit_locked_ok:
  assumes ok: "table_ok t" and run: "running t c = Some me" and init: "initproc t \<noteq> Some me"
  shows "table_ok (exit_locked c me t)"
proof -
  let ?u = "exit_locked c me t"
  note v = exit_locked_view [OF init, where c = c]
  note [simp] = v(1-8)
  have cpus: "cpus_ok t" and fam: "family_ok t" and waits: "waits_ok t"
    using ok by (auto simp: table_ok_def)
  have me: "me < NPROC" "state_of t me = RUNNING" using cpus run by (auto simp: cpus_ok_def)
  have run_iff: "i \<noteq> me \<Longrightarrow> state_of ?u i = RUNNING \<longleftrightarrow> state_of t i = RUNNING" for i
    using v(9) [of i] by auto
  have no_self: "p_parent (procs t me) \<noteq> Some me"
    using fam me init unfolding family_ok_def by (metis empty_iff insert_iff option.inject procstate.distinct(7,15))
  have used_iff: "state_of ?u i = UNUSED \<longleftrightarrow> state_of t i = UNUSED" for i
    using v(9) [of i] me by (cases "i = me") auto
  have embryo_iff: "state_of ?u i = EMBRYO \<longleftrightarrow> state_of t i = EMBRYO" for i
    using v(9) [of i] me by (cases "i = me") auto
  have live: "live t i \<Longrightarrow> i \<noteq> me \<Longrightarrow> live ?u i" for i
    using v(9) [of i] by (auto simp: live_def)
  have "cpus_ok ?u"
    unfolding cpus_ok_def
  proof (intro conjI allI impI)
    fix d p assume d: "running ?u d = Some p"
    then have "d \<noteq> c" "running t d = Some p" by (auto split: if_splits)
    with cpus run have "p < NPROC" "state_of t p = RUNNING" "p \<noteq> me"
      unfolding cpus_ok_def by blast+
    then show "p < NPROC" "state_of ?u p = RUNNING" using run_iff by auto
  next
    fix d e p assume "running ?u d = Some p" "running ?u e = Some p"
    then show "d = e" using cpus unfolding cpus_ok_def by (auto split: if_splits)
  next
    fix p assume p: "p < NPROC" "state_of ?u p = RUNNING"
    then have "p \<noteq> me" by auto
    with p run_iff cpus obtain d where "running t d = Some p" unfolding cpus_ok_def by blast
    with \<open>p \<noteq> me\<close> run show "\<exists>d. running ?u d = Some p" by (intro exI [of _ d]) auto
  qed
  moreover have "family_ok ?u"
  proof -
    obtain r where r: "initproc t = Some r" "live t r" "p_parent (procs t r) = None"
      using fam by (auto simp: family_ok_def)
    have r_me: "r \<noteq> me" using init r by auto
    have "\<exists>q. p_parent (procs ?u i) = Some q \<and> q \<noteq> i \<and> live ?u q"
      if used: "i < NPROC" "state_of ?u i \<notin> {UNUSED, EMBRYO}" "initproc t \<noteq> Some i" for i
    proof -
      obtain q where q: "p_parent (procs t i) = Some q" "q \<noteq> i" "live t q"
        using fam used by (auto simp: family_ok_def used_iff embryo_iff)
      show ?thesis
      proof (cases "q = me")
        case True
        with q used r live [OF r(2) r_me] show ?thesis by auto
      next
        case False
        with q live [OF q(3)] show ?thesis by simp
      qed
    qed
    moreover have "p_parent (procs t i) = None" if "i < NPROC" "state_of ?u i \<in> {UNUSED, EMBRYO}" for i
      using fam that by (auto simp: family_ok_def used_iff embryo_iff)
    ultimately show ?thesis using r live [OF r(2) r_me] by (auto simp: family_ok_def)
  qed
  moreover have "waits_ok ?u"
    unfolding waits_ok_def
  proof (intro allI impI)
    fix p q assume p: "p < NPROC" "state_of ?u p = SLEEPING" "p_chan (procs ?u p) = Some (AtProc q)"
    then have pm: "p \<noteq> me" by auto
    with p(2) v(9) [of p] have sl: "state_of t p = SLEEPING" by auto
    with waits p have w: "q = p" "\<not> p_killed (procs t p)" "\<exists>i<NPROC. p_parent (procs t i) = Some p"
      "\<And>i. i < NPROC \<Longrightarrow> p_parent (procs t i) = Some p \<Longrightarrow> state_of t i \<noteq> ZOMBIE"
      unfolding waits_ok_def by auto
    have own: "p_parent (procs ?u i) = Some p" if "p_parent (procs t i) = Some p" for i
      using that pm by simp
    have "state_of ?u i \<noteq> ZOMBIE" if i: "i < NPROC" "p_parent (procs ?u i) = Some p" for i
    proof (cases "i = me")
      case True
      with i init no_self have "p_parent (procs t me) = Some p" by (auto split: if_splits)
      then show ?thesis using v(10) [OF pm p(1)] p w(1) by auto
    next
      case False
      show ?thesis
      proof (cases "p_parent (procs t i) = Some me")
        case True
        with i have "initproc t = Some p" by simp
        with v(11) [OF pm p(1) i(1) True] p w(1) have "state_of t i \<noteq> ZOMBIE" by auto
        with v(9) [OF False] show ?thesis by auto
      next
        case nm: False
        with i have "p_parent (procs t i) = Some p" by simp
        with w(4) i(1) v(9) [OF False] show ?thesis by (metis procstate.distinct(27))
      qed
    qed
    moreover have "\<exists>i<NPROC. p_parent (procs ?u i) = Some p" using w(3) own by blast
    ultimately show "q = p \<and> \<not> p_killed (procs ?u p) \<and> (\<exists>i<NPROC. p_parent (procs ?u i) = Some p) \<and>
       (\<forall>i<NPROC. p_parent (procs ?u i) = Some p \<longrightarrow> state_of ?u i \<noteq> ZOMBIE)"
      using w(1,2) v(6) by blast
  qed
  ultimately show ?thesis by (simp add: table_ok_def)
qed

lemma same_core_ok: "table_ok t \<Longrightarrow> same_core t t' \<Longrightarrow> table_ok t'"
  by (simp add: table_ok_def table_defs same_core_def)

lemma sched_next_SomeD:
  "sched_next c i t = Some (j, t') \<Longrightarrow> i \<le> NPROC \<Longrightarrow>
   i \<le> j \<and> j < NPROC \<and> state_of t j = RUNNABLE \<and> t' = switch_to c j t"
  by (auto simp: sched_next_def dest: scan_SomeD)

lemma table_okD:
  assumes "table_ok t"
  shows "cpus_ok t" "family_ok t" "waits_ok t"
  using assms by (simp_all add: table_ok_def)

lemma runningD:
  assumes "table_ok t" "running t c = Some me"
  shows "me < NPROC" "state_of t me = RUNNING"
  using assms by (auto simp: table_ok_def cpus_ok_def)

text \<open>When a CPU changes what it runs and nothing else starts or stops running.\<close>

lemma cpus_ok_switch:
  assumes "cpus_ok t" "running u = (running t)(c := x)"
    and st: "\<And>i. i < NPROC \<Longrightarrow> state_of u i = RUNNING \<longleftrightarrow> x = Some i \<or> state_of t i = RUNNING \<and> running t c \<noteq> Some i"
    and x: "\<And>p. x = Some p \<Longrightarrow> p < NPROC \<and> state_of t p \<noteq> RUNNING"
  shows "cpus_ok u"
proof -
  have o1: "running t d = Some p \<Longrightarrow> p < NPROC \<and> state_of t p = RUNNING" for d p
    using assms(1) unfolding cpus_ok_def by blast
  have o2: "running t d = Some p \<Longrightarrow> running t e = Some p \<Longrightarrow> d = e" for d e p
    using assms(1) unfolding cpus_ok_def by blast
  have o3: "p < NPROC \<Longrightarrow> state_of t p = RUNNING \<Longrightarrow> \<exists>d. running t d = Some p" for p
    using assms(1) unfolding cpus_ok_def by blast
  have run: "running u d = Some p \<longleftrightarrow> (if d = c then x = Some p else running t d = Some p)" for d p
    by (simp add: assms(2))
  have old: "d \<noteq> c \<Longrightarrow> running t d = Some p \<Longrightarrow> p < NPROC \<and> state_of u p = RUNNING \<and> x \<noteq> Some p" for d p
    using o1 [of d p] o2 [of d p c] st [of p] x [of p] by auto
  show ?thesis
    unfolding cpus_ok_def
  proof (intro conjI allI impI)
    fix d p assume "running u d = Some p"
    then show "p < NPROC" "state_of u p = RUNNING"
      using old [of d p] x [of p] st [of p] by (auto simp: run split: if_splits)
  next
    fix d e p assume "running u d = Some p" "running u e = Some p"
    then show "d = e" using old [of d p] old [of e p] o2 [of d p e] by (auto simp: run split: if_splits)
  next
    fix p assume p: "p < NPROC" "state_of u p = RUNNING"
    show "\<exists>d. running u d = Some p"
    proof (cases "x = Some p")
      case True
      then show ?thesis using run [of c p] by auto
    next
      case False
      with p st [of p] obtain d where "running t d = Some p" "running t c \<noteq> Some p" using o3 by blast
      then show ?thesis using run [of d p] by (cases "d = c") auto
    qed
  qed
qed

lemma cpus_ok_same:
  assumes "cpus_ok t" "running u = running t"
    "\<And>i. i < NPROC \<Longrightarrow> state_of u i = RUNNING \<longleftrightarrow> state_of t i = RUNNING"
  shows "cpus_ok u"
  using assms unfolding cpus_ok_def by simp

lemma family_ok_same:
  assumes "family_ok t" "initproc u = initproc t" "\<And>i. live t i \<Longrightarrow> live u i"
    "\<And>i. i < NPROC \<Longrightarrow> state_of u i \<in> {UNUSED, EMBRYO} \<longleftrightarrow> state_of t i \<in> {UNUSED, EMBRYO}"
    "\<And>i. p_parent (procs u i) = p_parent (procs t i)"
  shows "family_ok u"
  using assms unfolding family_ok_def by metis

text \<open>No process falls asleep in \<open>wait\<close>, and no sleeper loses or gains a child.\<close>

lemma waits_ok_same:
  assumes ok: "waits_ok t"
    and sl: "\<And>p q. p < NPROC \<Longrightarrow> state_of u p = SLEEPING \<Longrightarrow> p_chan (procs u p) = Some (AtProc q) \<Longrightarrow>
      state_of t p = SLEEPING \<and> p_chan (procs t p) = Some (AtProc q) \<and> (p_killed (procs u p) \<longrightarrow> p_killed (procs t p))"
    and par: "\<And>i p. i < NPROC \<Longrightarrow> p < NPROC \<Longrightarrow> state_of t p = SLEEPING \<Longrightarrow>
      p_parent (procs u i) = Some p \<longleftrightarrow> p_parent (procs t i) = Some p"
    and z: "\<And>i. i < NPROC \<Longrightarrow> state_of u i = ZOMBIE \<Longrightarrow> state_of t i = ZOMBIE"
  shows "waits_ok u"
  unfolding waits_ok_def
proof (intro allI impI)
  fix p q assume p: "p < NPROC" "state_of u p = SLEEPING" "p_chan (procs u p) = Some (AtProc q)"
  note s = sl [OF p]
  then have "q = p \<and> \<not> p_killed (procs t p) \<and> (\<exists>i<NPROC. p_parent (procs t i) = Some p) \<and>
      (\<forall>i<NPROC. p_parent (procs t i) = Some p \<longrightarrow> state_of t i \<noteq> ZOMBIE)"
    using ok p(1) unfolding waits_ok_def by blast
  then show "q = p \<and> \<not> p_killed (procs u p) \<and> (\<exists>i<NPROC. p_parent (procs u i) = Some p) \<and>
      (\<forall>i<NPROC. p_parent (procs u i) = Some p \<longrightarrow> state_of u i \<noteq> ZOMBIE)"
    using s z par [OF _ p(1)] by blast
qed

lemma dispatch_ok:
  assumes "table_ok t" "running t c = None" "j < NPROC" "state_of t j = RUNNABLE"
  shows "table_ok (switch_to c j t)"
proof -
  note ok = table_okD [OF assms(1)]
  let ?u = "switch_to c j t"
  have "cpus_ok ?u" by (rule cpus_ok_switch [OF ok(1), where c = c and x = "Some j"]) (use assms in \<open>auto simp: proc_ops\<close>)
  moreover have "family_ok ?u"
    by (rule family_ok_same [OF ok(2)]) (use assms in \<open>auto simp: proc_ops live_def split: if_splits\<close>)
  moreover have "waits_ok ?u" by (rule waits_ok_same [OF ok(3)]) (auto simp: proc_ops split: if_splits)
  ultimately show ?thesis by (simp add: table_ok_def)
qed

text \<open>A running process that gives up its CPU, to sleep or to wait for its next turn.\<close>

lemma leave_ok:
  assumes "table_ok t" "running t c = Some me" "st \<in> {SLEEPING, RUNNABLE}"
    and ch: "\<And>q. st = SLEEPING \<Longrightarrow> ch = Some (AtProc q) \<Longrightarrow> q = me \<and> \<not> p_killed (procs t me) \<and>
      (\<exists>i<NPROC. p_parent (procs t i) = Some me) \<and>
      (\<forall>i<NPROC. p_parent (procs t i) = Some me \<longrightarrow> state_of t i \<noteq> ZOMBIE)"
  shows "table_ok (switch_out c (upd_proc me (\<lambda>p. p\<lparr>p_state := st, p_chan := ch\<rparr>) t))"
proof -
  note ok = table_okD [OF assms(1)] and me = runningD [OF assms(1,2)]
  let ?u = "switch_out c (upd_proc me (\<lambda>p. p\<lparr>p_state := st, p_chan := ch\<rparr>) t)"
  have st: "state_of ?u i = (if i = me then st else state_of t i)"
    "p_chan (procs ?u i) = (if i = me then ch else p_chan (procs t i))" for i
    by (simp_all add: proc_ops)
  have same: "p_pid (procs ?u i) = p_pid (procs t i)" "p_parent (procs ?u i) = p_parent (procs t i)"
    "p_killed (procs ?u i) = p_killed (procs t i)"
    "nextpid ?u = nextpid t" "initproc ?u = initproc t" "running ?u = (running t)(c := None)" for i
    by (simp_all add: proc_ops)
  have "cpus_ok ?u"
    by (rule cpus_ok_switch [OF ok(1), where c = c and x = None]) (use assms(2,3) in \<open>auto simp: st same\<close>)
  moreover have "family_ok ?u"
    by (rule family_ok_same [OF ok(2)]) (use assms(3) me in \<open>auto simp: st same live_def split: if_splits\<close>)
  moreover have "waits_ok ?u"
    unfolding waits_ok_def
  proof (intro allI impI)
    fix p q assume p: "p < NPROC" "state_of ?u p = SLEEPING" "p_chan (procs ?u p) = Some (AtProc q)"
    have "q = p \<and> \<not> p_killed (procs t p) \<and> (\<exists>i<NPROC. p_parent (procs t i) = Some p) \<and>
      (\<forall>i<NPROC. p_parent (procs t i) = Some p \<longrightarrow> state_of t i \<noteq> ZOMBIE)"
    proof (cases "p = me")
      case True
      have "st = SLEEPING" using p(2) True by (simp only: st if_True simp_thms)
      moreover have "ch = Some (AtProc q)" using p(3) True by (simp only: st if_True simp_thms)
      ultimately show ?thesis using ch [of q] True by simp
    next
      case False
      with p ok(3) show ?thesis unfolding waits_ok_def by (simp add: st)
    qed
    moreover have "state_of ?u i = ZOMBIE \<Longrightarrow> state_of t i = ZOMBIE" for i
      using assms(3) by (auto simp: st split: if_splits)
    ultimately show "q = p \<and> \<not> p_killed (procs ?u p) \<and> (\<exists>i<NPROC. p_parent (procs ?u i) = Some p) \<and>
      (\<forall>i<NPROC. p_parent (procs ?u i) = Some p \<longrightarrow> state_of ?u i \<noteq> ZOMBIE)"
      unfolding same by blast
  qed
  ultimately show ?thesis by (simp add: table_ok_def)
qed

lemma own_flags_ok:
  assumes "table_ok t" "running t c = Some me"
  shows "table_ok (sleep_resume me t)" "table_ok (mark_killed me t)"
proof -
  note ok = table_okD [OF assms(1)] and me = runningD [OF assms]
  have "cpus_ok u \<and> family_ok u \<and> waits_ok u" if u: "u = sleep_resume me t \<or> u = mark_killed me t" for u
  proof (intro conjI)
    show "cpus_ok u" by (rule cpus_ok_same [OF ok(1)]) (use u me in \<open>auto simp: proc_ops split: if_splits\<close>)
    show "family_ok u" by (rule family_ok_same [OF ok(2)]) (use u me in \<open>auto simp: proc_ops live_def split: if_splits\<close>)
    show "waits_ok u" by (rule waits_ok_same [OF ok(3)]) (use u me in \<open>auto simp: proc_ops split: if_splits\<close>)
  qed
  then show "table_ok (sleep_resume me t)" "table_ok (mark_killed me t)"
    by (simp_all add: table_ok_def)
qed

lemma wakeup1_ok:
  assumes "table_ok t"
  shows "table_ok (wakeup1 ch t)"
proof -
  note ok = table_okD [OF assms]
  have "cpus_ok (wakeup1 ch t)" by (rule cpus_ok_same [OF ok(1)]) auto
  moreover have "family_ok (wakeup1 ch t)" by (rule family_ok_same [OF ok(2)]) (auto simp: live_def)
  moreover have "waits_ok (wakeup1 ch t)" by (rule waits_ok_same [OF ok(3)]) (auto split: if_splits)
  ultimately show ?thesis by (simp add: table_ok_def)
qed

lemma kill_ok:
  assumes "table_ok t"
  shows "table_ok (snd (kill pid t))"
proof (cases "scan (\<lambda>i. p_pid (procs t i) = pid) 0 NPROC")
  case None
  with assms show ?thesis by (simp add: kill_def)
next
  case (Some i)
  let ?u = "upd_proc i (\<lambda>p. p\<lparr>p_state := (if p_state p = SLEEPING then RUNNABLE else p_state p), p_killed := True\<rparr>) t"
  note ok = table_okD [OF assms]
  have "cpus_ok ?u" by (rule cpus_ok_same [OF ok(1)]) (auto simp: proc_ops)
  moreover have "family_ok ?u" by (rule family_ok_same [OF ok(2)]) (auto simp: proc_ops live_def)
  moreover have "waits_ok ?u" by (rule waits_ok_same [OF ok(3)]) (auto simp: proc_ops split: if_splits)
  ultimately show ?thesis using Some by (simp add: kill_def table_ok_def)
qed

lemma alloc_slot_SomeD:
  assumes "alloc_slot t = Some (i, t')"
  shows "i < NPROC" "state_of t i = UNUSED"
    "t' = (upd_proc i (\<lambda>p. p\<lparr>p_state := EMBRYO, p_pid := nextpid t\<rparr>) t)\<lparr>nextpid := wrap_int (nextpid t + 1)\<rparr>"
  using assms by (auto simp: alloc_slot_def split: option.splits dest: scan_SomeD)

lemma alloc_slot_ok:
  assumes "table_ok t" "alloc_slot t = Some (i, t')"
  shows "table_ok t'"
proof -
  note ok = table_okD [OF assms(1)] and a = alloc_slot_SomeD [OF assms(2)]
  have "cpus_ok t'" by (rule cpus_ok_same [OF ok(1)]) (use a in \<open>auto simp: proc_ops\<close>)
  moreover have "family_ok t'"
    by (rule family_ok_same [OF ok(2)]) (use a in \<open>auto simp: proc_ops live_def split: if_splits\<close>)
  moreover have "waits_ok t'" by (rule waits_ok_same [OF ok(3)]) (use a in \<open>auto simp: proc_ops split: if_splits\<close>)
  ultimately show ?thesis by (simp add: table_ok_def)
qed

lemma free_slot_ok:
  assumes "table_ok t" "i < NPROC" "state_of t i = EMBRYO"
  shows "table_ok (free_slot i t)"
proof -
  note ok = table_okD [OF assms(1)]
  let ?u = "free_slot i t"
  have "cpus_ok ?u" by (rule cpus_ok_same [OF ok(1)]) (use assms in \<open>auto simp: proc_ops\<close>)
  moreover have "family_ok ?u"
    by (rule family_ok_same [OF ok(2)]) (use assms in \<open>auto simp: proc_ops live_def split: if_splits\<close>)
  moreover have "waits_ok ?u" by (rule waits_ok_same [OF ok(3)]) (auto simp: proc_ops split: if_splits)
  ultimately show ?thesis by (simp add: table_ok_def)
qed

lemma family_okD:
  assumes "family_ok t"
  obtains r where "initproc t = Some r" "live t r" "p_parent (procs t r) = None"
    "\<And>i. i < NPROC \<Longrightarrow> state_of t i \<in> {UNUSED, EMBRYO} \<Longrightarrow> p_parent (procs t i) = None"
    "\<And>i. i < NPROC \<Longrightarrow> state_of t i \<notin> {UNUSED, EMBRYO} \<Longrightarrow> r \<noteq> i \<Longrightarrow>
       \<exists>q. p_parent (procs t i) = Some q \<and> q \<noteq> i \<and> live t q"
  using assms unfolding family_ok_def by auto

lemma fork_done_ok:
  assumes "table_ok t" "running t c = Some me" "i < NPROC" "state_of t i = EMBRYO"
  shows "table_ok (fork_done me i t)"
proof -
  note ok = table_okD [OF assms(1)] and me = runningD [OF assms(1,2)]
  let ?u = "fork_done me i t"
  obtain r where r: "initproc t = Some r" "live t r" "p_parent (procs t r) = None"
    "\<And>i. i < NPROC \<Longrightarrow> state_of t i \<in> {UNUSED, EMBRYO} \<Longrightarrow> p_parent (procs t i) = None"
    "\<And>i. i < NPROC \<Longrightarrow> state_of t i \<notin> {UNUSED, EMBRYO} \<Longrightarrow> r \<noteq> i \<Longrightarrow>
       \<exists>q. p_parent (procs t i) = Some q \<and> q \<noteq> i \<and> live t q"
    using family_okD [OF ok(2)] by metis
  have live: "live t j \<Longrightarrow> live ?u j" for j by (auto simp: live_def proc_ops)
  have "cpus_ok ?u" by (rule cpus_ok_same [OF ok(1)]) (use assms in \<open>auto simp: proc_ops\<close>)
  moreover have "family_ok ?u"
  proof -
    have ne: "i \<noteq> me" "r \<noteq> i" using me assms r(2) by (auto simp: live_def)
    have "live ?u me" using me by (intro live) (simp add: live_def)
    then have "\<exists>q. p_parent (procs ?u j) = Some q \<and> q \<noteq> j \<and> live ?u q"
      if "j < NPROC" "state_of ?u j \<notin> {UNUSED, EMBRYO}" "r \<noteq> j" for j
      using that r(5) [of j] live ne by (cases "j = i") (auto simp: proc_ops)
    moreover have "initproc ?u = Some r" "p_parent (procs ?u r) = None" using r ne by (auto simp: proc_ops)
    moreover have "p_parent (procs ?u j) = None" if "j < NPROC" "state_of ?u j \<in> {UNUSED, EMBRYO}" for j
      using that r(4) [of j] by (auto simp: proc_ops split: if_splits)
    ultimately show ?thesis using live [OF r(2)] unfolding family_ok_def by auto
  qed
  moreover have "waits_ok ?u"
    by (rule waits_ok_same [OF ok(3)])
      (use assms me r(4) in \<open>auto simp: proc_ops split: if_splits\<close>)
  ultimately show ?thesis by (simp add: table_ok_def)
qed

lemma clear_slot_ok:
  assumes "table_ok t" "running t c = Some me" "i < NPROC" "state_of t i = ZOMBIE" "p_parent (procs t i) = Some me"
  shows "table_ok (clear_slot i t)"
proof -
  note ok = table_okD [OF assms(1)] and me = runningD [OF assms(1,2)]
  let ?u = "clear_slot i t"
  obtain r where r: "initproc t = Some r" "live t r" "p_parent (procs t r) = None"
    "\<And>i. i < NPROC \<Longrightarrow> state_of t i \<in> {UNUSED, EMBRYO} \<Longrightarrow> p_parent (procs t i) = None"
    "\<And>i. i < NPROC \<Longrightarrow> state_of t i \<notin> {UNUSED, EMBRYO} \<Longrightarrow> r \<noteq> i \<Longrightarrow>
       \<exists>q. p_parent (procs t i) = Some q \<and> q \<noteq> i \<and> live t q"
    using family_okD [OF ok(2)] by metis
  have live: "live t j \<Longrightarrow> live ?u j" for j using assms(4) by (auto simp: live_def proc_ops)
  have "cpus_ok ?u" by (rule cpus_ok_same [OF ok(1)]) (use assms in \<open>auto simp: proc_ops\<close>)
  moreover have "family_ok ?u"
  proof -
    have "\<exists>q. p_parent (procs ?u j) = Some q \<and> q \<noteq> j \<and> live ?u q"
      if "j < NPROC" "state_of ?u j \<notin> {UNUSED, EMBRYO}" "r \<noteq> j" for j
      using that r(5) [of j] live by (cases "j = i") (auto simp: proc_ops)
    moreover have "initproc ?u = Some r" "p_parent (procs ?u r) = None" using r by (auto simp: proc_ops)
    moreover have "p_parent (procs ?u j) = None" if "j < NPROC" "state_of ?u j \<in> {UNUSED, EMBRYO}" for j
      using that r(4) [of j] by (auto simp: proc_ops split: if_splits)
    ultimately show ?thesis using live [OF r(2)] unfolding family_ok_def by auto
  qed
  moreover have "waits_ok ?u"
    by (rule waits_ok_same [OF ok(3)]) (use assms me in \<open>auto simp: proc_ops split: if_splits\<close>)
  ultimately show ?thesis by (simp add: table_ok_def)
qed

lemma table_ok_step:
  assumes "proc_step t t'" "table_ok t"
  shows "table_ok t'"
  using assms
proof (induction rule: proc_step.induct)
  case (st_private t t')
  then show ?case using same_core_ok by blast
next
  case (st_dispatch t c i j t')
  then show ?case using sched_next_SomeD dispatch_ok by metis
next
  case (st_yield t c me)
  have "yield c me t = switch_out c (upd_proc me (\<lambda>p. p\<lparr>p_state := RUNNABLE, p_chan := p_chan (procs t me)\<rparr>) t)"
    by (simp add: yield_def upd_proc_def)
  then show ?case using leave_ok [OF st_yield(2,1), of RUNNABLE "p_chan (procs t me)"] by simp
next
  case (st_sleep t c me a)
  then show ?case unfolding sleep_locked_def by (intro leave_ok) auto
next
  case (st_wait t c me)
  from wait_scan_HaveKids [OF st_wait(2)]
  have "\<exists>i<NPROC. p_parent (procs t i) = Some me" "\<forall>i<NPROC. p_parent (procs t i) = Some me \<longrightarrow> state_of t i \<noteq> ZOMBIE"
    by auto
  with st_wait show ?case unfolding sleep_locked_def by (intro leave_ok) auto
next
  case (st_reap t c me i)
  from wait_scan_Exited [OF st_reap(2)] st_reap show ?case by (intro clear_slot_ok) auto
qed (simp_all add: own_flags_ok wakeup1_ok wakeup_def kill_ok alloc_slot_ok free_slot_ok fork_done_ok exit_locked_ok)

lemma boot_ok:
  assumes "boot_table t" "alloc_slot t = Some (p, t1)"
  shows "table_ok ((upd_proc p (\<lambda>q. q\<lparr>p_state := RUNNABLE\<rparr>) t1)\<lparr>initproc := Some p\<rparr>)"
  using assms(1) alloc_slot_SomeD [OF assms(2)]
  by (auto simp: boot_table_def table_ok_def table_defs upd_proc_def)

lemma proc_reach_ok: "proc_reach t \<Longrightarrow> table_ok t"
  by (induction rule: proc_reach.induct) (simp_all add: boot_ok table_ok_step)

section \<open>Process ids\<close>

text \<open>\<open>proc_run n t\<close>: the table \<open>t\<close> can be reached with \<open>n\<close> allocations of a process id, each of which changes \<open>nextpid\<close>.\<close>

inductive proc_run :: "nat \<Rightarrow> ptab \<Rightarrow> bool" where
  run_boot: "boot_table t \<Longrightarrow> alloc_slot t = Some (p, t1) \<Longrightarrow>
    proc_run 1 ((upd_proc p (\<lambda>q. q\<lparr>p_state := RUNNABLE\<rparr>) t1)\<lparr>initproc := Some p\<rparr>)"
| run_step: "proc_run n t \<Longrightarrow> proc_step t t' \<Longrightarrow> proc_run (if nextpid t' = nextpid t then n else Suc n) t'"

lemma proc_reach_run: "proc_reach t \<longleftrightarrow> (\<exists>n. proc_run n t)"
proof
  show "proc_reach t \<Longrightarrow> \<exists>n. proc_run n t"
    by (induction rule: proc_reach.induct) (blast intro: run_boot run_step)+
  have "proc_run n t \<Longrightarrow> proc_reach t" for n
    by (induction rule: proc_run.induct) (blast intro: reach_boot reach_step)+
  then show "\<exists>n. proc_run n t \<Longrightarrow> proc_reach t" by blast
qed

lemma run_same: "proc_run n t \<Longrightarrow> proc_step t t' \<Longrightarrow> nextpid t' = nextpid t \<Longrightarrow> proc_run n t'"
  using run_step [of n t t'] by simp

lemma run_new: "proc_run n t \<Longrightarrow> proc_step t t' \<Longrightarrow> nextpid t' \<noteq> nextpid t \<Longrightarrow> proc_run (Suc n) t'"
  using run_step [of n t t'] by simp

lemma wrap_int_id: "-2147483648 \<le> x \<Longrightarrow> x < 2147483648 \<Longrightarrow> wrap_int x = x"
  by (simp add: wrap_int_def)

lemma wrap_int_Suc: "wrap_int (wrap_int x + 1) = wrap_int (x + 1)"
proof -
  have "((x + 2147483648) mod 4294967296 + 1) mod 4294967296 = (x + 2147483648 + 1) mod 4294967296" by (rule mod_add_left_eq)
  then show ?thesis by (simp add: wrap_int_def add.commute add.left_commute)
qed

lemma wrap_int_moves: "wrap_int (x + 1) \<noteq> x"
proof
  assume e: "wrap_int (x + 1) = x"
  have "-2147483648 \<le> wrap_int (x + 1)" "wrap_int (x + 1) < 2147483648" by (simp_all add: wrap_int_def)
  then have b: "-2147483648 \<le> x" "x < 2147483648" using e by simp_all
  show False
  proof (cases "x = 2147483647")
    case True
    then show False using e by (simp add: wrap_int_def)
  next
    case False
    then show False using b e wrap_int_id [of "x + 1"] by simp
  qed
qed

definition pids_ok :: "nat \<Rightarrow> ptab \<Rightarrow> bool" where
  "pids_ok n t \<longleftrightarrow> nextpid t = wrap_int (int n + 1) \<and>
     (n < 2147483648 \<longrightarrow>
        (\<forall>i<NPROC. state_of t i \<noteq> UNUSED \<longrightarrow> 0 < p_pid (procs t i) \<and> p_pid (procs t i) \<le> int n) \<and>
        (\<forall>i<NPROC. \<forall>j<NPROC. state_of t i \<noteq> UNUSED \<longrightarrow> state_of t j \<noteq> UNUSED \<longrightarrow>
           p_pid (procs t i) = p_pid (procs t j) \<longrightarrow> i = j))"

text \<open>A step allocates an id or leaves the ids of the processes as they are.\<close>

definition same_pids :: "ptab \<Rightarrow> ptab \<Rightarrow> bool" where
  "same_pids t u \<longleftrightarrow> nextpid u = nextpid t \<and>
     (\<forall>i<NPROC. state_of u i \<noteq> UNUSED \<longrightarrow> state_of t i \<noteq> UNUSED \<and> p_pid (procs u i) = p_pid (procs t i))"

lemma step_pids:
  assumes "proc_step t u" "table_ok t"
  shows "same_pids t u \<or> (\<exists>i. alloc_slot t = Some (i, u))"
  using assms
proof (induction rule: proc_step.induct)
  case (st_dispatch t c i j t')
  then show ?case using sched_next_SomeD [OF st_dispatch(2,3)] by (auto simp: same_pids_def proc_ops)
next
  case (st_kill t pid)
  then show ?case by (auto simp: same_pids_def kill_def upd_proc_def split: option.splits)
next
  case (st_exit t c me)
  have "state_of (exit_locked c me t) i \<noteq> UNUSED \<Longrightarrow> state_of t i \<noteq> UNUSED" for i
    using exit_locked_view(9) [OF st_exit(2), where c = c and i = i] runningD [OF st_exit(3,1)] by (cases "i = me") auto
  then show ?case using exit_locked_view(1,4) [OF st_exit(2), where c = c] by (simp add: same_pids_def)
next
  case (st_reap t c me i)
  then show ?case by (auto simp: same_pids_def proc_ops)
qed (use runningD in \<open>auto simp: same_pids_def same_core_def proc_ops\<close>)

lemma pids_alloc:
  assumes "pids_ok n t" "alloc_slot t = Some (i, u)"
  shows "pids_ok (Suc n) u"
proof -
  note a = alloc_slot_SomeD [OF assms(2)]
  have used: "state_of u j \<noteq> UNUSED \<longleftrightarrow> j = i \<or> state_of t j \<noteq> UNUSED"
    "p_pid (procs u j) = (if j = i then nextpid t else p_pid (procs t j))" for j
    by (simp_all add: a(3) upd_proc_def)
  have n: "nextpid u = wrap_int (int (Suc n) + 1)" "nextpid t = wrap_int (int n + 1)"
    using assms(1) wrap_int_Suc [of "int n + 1"] by (simp_all add: a(3) upd_proc_def pids_ok_def add.commute)
  have "(\<forall>j<NPROC. state_of u j \<noteq> UNUSED \<longrightarrow> 0 < p_pid (procs u j) \<and> p_pid (procs u j) \<le> int (Suc n)) \<and>
      (\<forall>j<NPROC. \<forall>l<NPROC. state_of u j \<noteq> UNUSED \<longrightarrow> state_of u l \<noteq> UNUSED \<longrightarrow> p_pid (procs u j) = p_pid (procs u l) \<longrightarrow> j = l)"
    if lim: "Suc n < 2147483648"
  proof -
    have new: "nextpid t = int n + 1" unfolding n(2) by (rule wrap_int_id) (use lim in simp_all)
    have old: "0 < p_pid (procs t j)" "p_pid (procs t j) \<le> int n" if "j < NPROC" "state_of t j \<noteq> UNUSED" for j
      using assms(1) lim that unfolding pids_ok_def by auto
    have uniq: "j = l" if "j < NPROC" "l < NPROC" "state_of t j \<noteq> UNUSED" "state_of t l \<noteq> UNUSED" "p_pid (procs t j) = p_pid (procs t l)" for j l
      using assms(1) lim that unfolding pids_ok_def by auto
    show ?thesis unfolding used new
    proof (intro conjI allI impI)
      fix j assume j: "j < NPROC" "j = i \<or> state_of t j \<noteq> UNUSED"
      show "0 < (if j = i then int n + 1 else p_pid (procs t j))" "(if j = i then int n + 1 else p_pid (procs t j)) \<le> int (Suc n)"
        using old [of j] j by auto
      fix l assume l: "l < NPROC" "l = i \<or> state_of t l \<noteq> UNUSED"
        "(if j = i then int n + 1 else p_pid (procs t j)) = (if l = i then int n + 1 else p_pid (procs t l))"
      then show "j = l" using j old [of j] old [of l] uniq [of j l] by (cases "j = i"; cases "l = i") auto
    qed
  qed
  with n(1) show ?thesis unfolding pids_ok_def by blast
qed

lemma pids_same:
  assumes "pids_ok n t" "same_pids t u"
  shows "pids_ok n u"
proof -
  have u: "nextpid u = nextpid t" "\<And>i. i < NPROC \<Longrightarrow> state_of u i \<noteq> UNUSED \<Longrightarrow> state_of t i \<noteq> UNUSED \<and> p_pid (procs u i) = p_pid (procs t i)"
    using assms(2) unfolding same_pids_def by blast+
  show ?thesis using assms(1) unfolding pids_ok_def u(1) using u(2) by metis
qed

lemma proc_run_pids: "proc_run n t \<Longrightarrow> pids_ok n t"
proof (induction rule: proc_run.induct)
  case (run_boot t p t1)
  have b: "nextpid t = 1" "\<And>i. state_of t i = UNUSED" using run_boot(1) by (simp_all add: boot_table_def)
  then have "pids_ok 0 t" by (simp add: pids_ok_def wrap_int_id)
  from pids_alloc [OF this run_boot(2)] have "pids_ok 1 t1" by simp
  then show ?case
    by (rule pids_same) (use alloc_slot_SomeD(3) [OF run_boot(2)] in \<open>simp add: same_pids_def upd_proc_def\<close>)
next
  case (run_step n t t')
  have "table_ok t" using run_step(1) proc_reach_ok proc_reach_run by blast
  from step_pids [OF run_step(2) this] show ?case
  proof
    assume "same_pids t t'"
    then show ?thesis using pids_same [OF run_step(3)] by (simp add: same_pids_def)
  next
    assume "\<exists>i. alloc_slot t = Some (i, t')"
    then obtain i where i: "alloc_slot t = Some (i, t')" by blast
    have "nextpid t' = wrap_int (nextpid t + 1)" using alloc_slot_SomeD(3) [OF i] by (simp add: upd_proc_def)
    then have "nextpid t' \<noteq> nextpid t" using wrap_int_moves by simp
    then show ?thesis using pids_alloc [OF run_step(3) i] by simp
  qed
qed

text \<open>After 2147483647 processes the next one gets the largest id and the one behind it a negative id, and the count goes on to ids in use.\<close>

lemma pid_wraps:
  assumes "alloc_slot t = Some (i, u)"
  shows "nextpid t = 2147483647 \<Longrightarrow> nextpid u = -2147483648" and "nextpid t = -1 \<Longrightarrow> nextpid u = 0"
  using alloc_slot_SomeD(3) [OF assms] by (simp_all add: upd_proc_def wrap_int_def)

section \<open>Properties of the process table\<close>

text \<open>C3: the process table stays sound under every interleaving of the sections of \<open>proc.c\<close> on any number
  of CPUs: a process is in state \<open>RUNNING\<close> exactly when one CPU, and only one, runs it; as long as fewer than \<open>2 ^ 31\<close> processes have been created, slots in use
  have different positive process ids (\<open>nextpid\<close> is an \<open>int\<close> that wraps); the first process never dies; and every other process that
  runs, sleeps, is ready or has exited has a parent other than itself that has not exited, so
  somebody can always collect it.\<close>

theorem process_table_sound:
  assumes "proc_run n t"
  shows "(\<forall>p<NPROC. state_of t p = RUNNING \<longleftrightarrow> (\<exists>!c. running t c = Some p)) \<and>
    (n < 2147483648 \<longrightarrow> (\<forall>i<NPROC. \<forall>j<NPROC. i \<noteq> j \<longrightarrow> state_of t i \<noteq> UNUSED \<longrightarrow> state_of t j \<noteq> UNUSED \<longrightarrow>
       0 < p_pid (procs t i) \<and> p_pid (procs t i) \<noteq> p_pid (procs t j))) \<and>
    (\<exists>r<NPROC. initproc t = Some r \<and> state_of t r \<in> {SLEEPING, RUNNABLE, RUNNING} \<and>
       (\<forall>i<NPROC. i \<noteq> r \<longrightarrow> state_of t i \<in> {SLEEPING, RUNNABLE, RUNNING, ZOMBIE} \<longrightarrow>
          (\<exists>q<NPROC. q \<noteq> i \<and> p_parent (procs t i) = Some q \<and> state_of t q \<in> {SLEEPING, RUNNABLE, RUNNING})))"
proof (intro conjI)
  have "proc_reach t" using assms proc_reach_run by blast
  note ok = table_okD [OF proc_reach_ok [OF this]]
  show "\<forall>p<NPROC. state_of t p = RUNNING \<longleftrightarrow> (\<exists>!c. running t c = Some p)"
    using ok(1) unfolding cpus_ok_def by blast
  show "n < 2147483648 \<longrightarrow> (\<forall>i<NPROC. \<forall>j<NPROC. i \<noteq> j \<longrightarrow> state_of t i \<noteq> UNUSED \<longrightarrow> state_of t j \<noteq> UNUSED \<longrightarrow>
       0 < p_pid (procs t i) \<and> p_pid (procs t i) \<noteq> p_pid (procs t j))"
    using proc_run_pids [OF assms] unfolding pids_ok_def by blast
  obtain r where r: "initproc t = Some r" "live t r"
    "\<And>i. i < NPROC \<Longrightarrow> state_of t i \<notin> {UNUSED, EMBRYO} \<Longrightarrow> r \<noteq> i \<Longrightarrow>
       \<exists>q. p_parent (procs t i) = Some q \<and> q \<noteq> i \<and> live t q"
    using family_okD [OF ok(2)] by metis
  have "\<exists>q<NPROC. q \<noteq> i \<and> p_parent (procs t i) = Some q \<and> state_of t q \<in> {SLEEPING, RUNNABLE, RUNNING}"
    if "i < NPROC" "i \<noteq> r" "state_of t i \<in> {SLEEPING, RUNNABLE, RUNNING, ZOMBIE}" for i
    using r(3) [of i] that by (auto simp: live_def)
  with r show "\<exists>r<NPROC. initproc t = Some r \<and> state_of t r \<in> {SLEEPING, RUNNABLE, RUNNING} \<and>
       (\<forall>i<NPROC. i \<noteq> r \<longrightarrow> state_of t i \<in> {SLEEPING, RUNNABLE, RUNNING, ZOMBIE} \<longrightarrow>
          (\<exists>q<NPROC. q \<noteq> i \<and> p_parent (procs t i) = Some q \<and> state_of t q \<in> {SLEEPING, RUNNABLE, RUNNING}))"
    unfolding live_def by blast
qed

text \<open>C8: \<open>wait\<close> never misses an exit.  A process asleep in \<open>wait\<close> has not been killed and has a child that
  is in use and has not exited, none of its children has exited unnoticed, and the exit of any of its
  children makes it runnable.\<close>

theorem wait_never_misses_exit:
  assumes "proc_reach t" "p < NPROC" "state_of t p = SLEEPING" "p_chan (procs t p) = Some (AtProc q)"
  shows "q = p \<and> \<not> p_killed (procs t p) \<and>
    (\<exists>i<NPROC. p_parent (procs t i) = Some p \<and> state_of t i \<notin> {UNUSED, EMBRYO, ZOMBIE}) \<and>
    (\<forall>i<NPROC. p_parent (procs t i) = Some p \<longrightarrow> state_of t i \<noteq> ZOMBIE) \<and>
    (\<forall>c i. running t c = Some i \<longrightarrow> p_parent (procs t i) = Some p \<longrightarrow> initproc t \<noteq> Some i \<longrightarrow>
       state_of (exit_locked c i t) i = ZOMBIE \<and> state_of (exit_locked c i t) p = RUNNABLE)"
proof -
  have t: "table_ok t" using proc_reach_ok [OF assms(1)] .
  note ok = table_okD [OF t]
  have w: "q = p" "\<not> p_killed (procs t p)" "\<exists>i<NPROC. p_parent (procs t i) = Some p"
    "\<forall>i<NPROC. p_parent (procs t i) = Some p \<longrightarrow> state_of t i \<noteq> ZOMBIE"
    using ok(3) assms(2-4) unfolding waits_ok_def by blast+
  have child: "p_parent (procs t i) = Some p \<Longrightarrow> i < NPROC \<Longrightarrow> state_of t i \<notin> {UNUSED, EMBRYO}" for i
    using ok(2) unfolding family_ok_def by (metis option.distinct(1))
  have "state_of (exit_locked c i t) i = ZOMBIE \<and> state_of (exit_locked c i t) p = RUNNABLE"
    if "running t c = Some i" "p_parent (procs t i) = Some p" "initproc t \<noteq> Some i" for c i
  proof -
    have "p \<noteq> i" using runningD [OF t that(1)] assms(3) by auto
    then show ?thesis
      using exit_locked_view(8) [OF that(3)] exit_locked_view(9) [OF that(3), of p c]
        exit_locked_view(10) [OF that(3), of p p c] assms(2-4) that(2) w(1) by auto
  qed
  with w child show ?thesis by blast
qed

section \<open>Fairness of the scheduler\<close>

text \<open>no runnable process is passed over for ever: when the scheduler of a CPU chooses again and again,
  in whatever tables it finds, a process that is runnable each time is chosen within \<open>NPROC + 1\<close>
  searches, wherever the scheduler starts.  Its position is the slot behind the last choice, or 0
  after a search that found nothing.\<close>

fun sched_pos :: "(nat \<Rightarrow> ptab) \<Rightarrow> nat \<Rightarrow> nat \<Rightarrow> nat \<Rightarrow> nat" where
  "sched_pos ts c pos 0 = pos"
| "sched_pos ts c pos (Suc n) =
     (case sched_next c (sched_pos ts c pos n) (ts n) of None \<Rightarrow> 0 | Some (j, t) \<Rightarrow> Suc j)"

lemma sched_next_before:
  assumes "i \<le> p" "p < NPROC" "state_of t p = RUNNABLE"
  shows "\<exists>j t'. sched_next c i t = Some (j, t') \<and> i \<le> j \<and> j \<le> p"
proof -
  obtain j where j: "scan (\<lambda>j. state_of t j = RUNNABLE) i (NPROC - i) = Some j"
    using scan_complete [of i p "NPROC - i" "\<lambda>j. state_of t j = RUNNABLE"] assms by auto
  then have "i \<le> j" "j \<le> p"
    using assms by (auto simp: scan_eq_Some not_less [symmetric])
  with j show ?thesis by (simp add: sched_next_def)
qed

lemma sched_reaches:
  assumes "p < NPROC" "\<And>n. state_of (ts n) p = RUNNABLE"
    and miss: "\<And>n t'. n < m \<Longrightarrow> sched_next c (sched_pos ts c pos n) (ts n) \<noteq> Some (p, t')"
  shows "k \<le> m \<Longrightarrow> n \<le> k \<Longrightarrow> sched_pos ts c pos n \<le> p \<Longrightarrow>
    sched_pos ts c pos n + (k - n) \<le> sched_pos ts c pos k \<and> sched_pos ts c pos k \<le> p"
proof (induction k)
  case (Suc k)
  show ?case
  proof (cases "n = Suc k")
    case False
    with Suc have le: "sched_pos ts c pos n + (k - n) \<le> sched_pos ts c pos k" "sched_pos ts c pos k \<le> p"
      by auto
    obtain j t' where j: "sched_next c (sched_pos ts c pos k) (ts k) = Some (j, t')"
      "sched_pos ts c pos k \<le> j" "j \<le> p"
      using sched_next_before [OF le(2) assms(1,2)] by blast
    have "j \<noteq> p" using miss [of k] j(1) Suc.prems(1) by auto
    with j le False Suc.prems show ?thesis by auto
  qed (use Suc in auto)
qed auto

theorem scheduler_fair:
  assumes "p < NPROC" "\<And>n. state_of (ts n) p = RUNNABLE" "pos \<le> NPROC"
  shows "\<exists>n\<le>NPROC. \<exists>t'. sched_next c (sched_pos ts c pos n) (ts n) = Some (p, t') \<and>
    running t' c = Some p \<and> state_of t' p = RUNNING"
proof -
  have "\<exists>n\<le>NPROC. \<exists>t'. sched_next c (sched_pos ts c pos n) (ts n) = Some (p, t')"
  proof (rule ccontr)
    assume "\<not> ?thesis"
    then have miss: "\<And>n t'. n < Suc NPROC \<Longrightarrow> sched_next c (sched_pos ts c pos n) (ts n) \<noteq> Some (p, t')" by auto
    note reach = sched_reaches [where ts = ts and c = c and pos = pos, OF assms(1,2) miss]
    have up: "(\<exists>m\<le>n. sched_pos ts c pos m \<le> p) \<or> p < sched_pos ts c pos n \<and> pos + n \<le> sched_pos ts c pos n \<and>
        sched_pos ts c pos n \<le> NPROC" if "n \<le> Suc NPROC" for n
      using that
    proof (induction n)
      case 0
      then show ?case using assms(3) by auto
    next
      case (Suc n)
      then consider (low) "\<exists>m\<le>n. sched_pos ts c pos m \<le> p"
        | (high) "p < sched_pos ts c pos n" "pos + n \<le> sched_pos ts c pos n" "sched_pos ts c pos n \<le> NPROC" by auto
      then show ?case
      proof cases
        case low
        then show ?thesis using le_Suc_eq by blast
      next
        case high
        show ?thesis
        proof (cases "sched_next c (sched_pos ts c pos n) (ts n)")
          case None
          then have "sched_pos ts c pos (Suc n) \<le> p" by simp
          then show ?thesis by blast
        next
          case (Some q)
          then obtain j t' where q: "sched_next c (sched_pos ts c pos n) (ts n) = Some (j, t')" by (cases q) auto
          then have "sched_pos ts c pos (Suc n) = Suc j" by simp
          with sched_next_SomeD [OF q high(3)] high show ?thesis by auto
        qed
      qed
    qed
    obtain m where m: "m \<le> Suc NPROC" "sched_pos ts c pos m \<le> p" "m = 0 \<or> p < pos \<and> m \<le> Suc (NPROC - pos)"
    proof (cases "pos \<le> p")
      case True
      then show ?thesis using that [of 0] by simp
    next
      case False
      with up [of "Suc (NPROC - pos)"] assms(3) obtain m where "m \<le> Suc (NPROC - pos)" "sched_pos ts c pos m \<le> p"
        by auto
      then show ?thesis using that [of m] False assms(3) by simp
    qed
    from reach [where k = "Suc NPROC" and n = m] m assms(1) have "sched_pos ts c pos m + (Suc NPROC - m) \<le> p" by (meson le_refl order_trans)
    with m assms show False by linarith
  qed
  then obtain n t' where n: "n \<le> NPROC" "sched_next c (sched_pos ts c pos n) (ts n) = Some (p, t')" by blast
  then have "t' = switch_to c p (ts n)" by (auto simp: sched_next_def)
  with n show ?thesis by (intro exI [of _ n] conjI exI [of _ t']) (simp_all add: proc_ops)
qed

section \<open>A reachable table\<close>

text \<open>The first process has forked a child, which runs on CPU 0, and waits for it.\<close>

definition no_proc :: proc where
  "no_proc = \<lparr>p_state = UNUSED, p_pid = 0, p_parent = None, p_chan = None, p_killed = False, p_sz = 0, p_pgdir = 0,
     p_kstack = 0, p_tf = first_trapframe,
     p_context = \<lparr>ctx_edi = 0, ctx_esi = 0, ctx_ebx = 0, ctx_ebp = 0, ctx_eip = 0\<rparr>, p_ret = 0,
     p_ofile = (\<lambda>_. None), p_cwd = None, p_name = []\<rparr>"

definition demo_boot :: ptab where
  "demo_boot = \<lparr>procs = (\<lambda>_. no_proc), nextpid = 1, initproc = None, running = (\<lambda>_. None)\<rparr>"

definition demo_first :: ptab where
  "demo_first = \<lparr>procs = (\<lambda>_. no_proc)(0 := no_proc\<lparr>p_state := RUNNABLE, p_pid := 1\<rparr>), nextpid = 2,
     initproc = Some 0, running = (\<lambda>_. None)\<rparr>"

definition demo_forked :: ptab where
  "demo_forked = \<lparr>procs = (\<lambda>_. no_proc)(0 := no_proc\<lparr>p_state := RUNNING, p_pid := 1\<rparr>,
       1 := no_proc\<lparr>p_state := RUNNABLE, p_pid := 2, p_parent := Some 0\<rparr>), nextpid = 3,
     initproc = Some 0, running = (\<lambda>_. None)(0 := Some 0)\<rparr>"

definition demo_waiting :: ptab where
  "demo_waiting = switch_to 0 1 (sleep_locked 0 0 (AtProc 0) demo_forked)"

lemma demo_first_run: "proc_run 1 demo_first"
proof -
  have b: "boot_table demo_boot" by (simp add: boot_table_def demo_boot_def no_proc_def)
  have "scan (\<lambda>i. state_of demo_boot i = UNUSED) 0 NPROC = Some 0"
    by (simp add: scan_eq_Some demo_boot_def no_proc_def)
  then have "alloc_slot demo_boot =
      Some (0, (upd_proc 0 (\<lambda>p. p\<lparr>p_state := EMBRYO, p_pid := 1\<rparr>) demo_boot)\<lparr>nextpid := 2\<rparr>)"
    by (simp add: alloc_slot_def demo_boot_def wrap_int_def)
  from run_boot [OF b this] show ?thesis
    by (simp add: demo_boot_def demo_first_def upd_proc_def no_proc_def)
qed

lemma demo_forked_run: "proc_run 2 demo_forked"
proof -
  let ?t1 = "switch_to 0 0 demo_first"
  have "scan (\<lambda>j. state_of demo_first j = RUNNABLE) 0 NPROC = Some 0"
    by (simp add: scan_eq_Some demo_first_def no_proc_def)
  then have "sched_next 0 0 demo_first = Some (0, ?t1)" by (simp add: sched_next_def)
  then have r1: "proc_run 1 ?t1"
    by (intro run_same [OF demo_first_run] st_dispatch [where c = 0 and i = 0 and j = 0])
      (simp_all add: demo_first_def switch_to_def upd_proc_def)
  have t1: "running ?t1 0 = Some 0" by (simp add: switch_to_def)
  let ?t2 = "(upd_proc 1 (\<lambda>p. p\<lparr>p_state := EMBRYO, p_pid := 2\<rparr>) ?t1)\<lparr>nextpid := 3\<rparr>"
  have "scan (\<lambda>i. state_of ?t1 i = UNUSED) 0 NPROC = Some 1"
    by (simp add: scan_eq_Some demo_first_def no_proc_def switch_to_def upd_proc_def)
  then have "alloc_slot ?t1 = Some (1, ?t2)"
    by (simp add: alloc_slot_def demo_first_def switch_to_def upd_proc_def wrap_int_def)
  then have r2: "proc_run 2 ?t2"
    using run_new [OF r1 st_alloc [OF t1]] by (simp add: demo_first_def switch_to_def upd_proc_def numeral_2_eq_2)
  have "proc_run 2 (fork_done 0 1 ?t2)"
    by (intro run_same [OF r2] st_fork [where c = 0]) (simp_all add: switch_to_def upd_proc_def fork_done_def)
  moreover have "fork_done 0 1 ?t2 = demo_forked"
    by (simp add: demo_forked_def demo_first_def proc_ops no_proc_def fun_eq_iff)
  ultimately show ?thesis by simp
qed

lemma demo_forked_reach: "proc_reach demo_forked"
  using demo_forked_run proc_reach_run by blast

lemma demo_forked_scan: "wait_scan 0 0 NPROC False demo_forked = HaveKids True"
proof (cases "wait_scan 0 0 NPROC False demo_forked")
  case (Exited j)
  from wait_scan_Exited [OF this] show ?thesis
    by (auto simp: demo_forked_def no_proc_def split: if_splits)
next
  case (HaveKids b)
  have "p_parent (procs demo_forked 1) = Some 0" by (simp add: demo_forked_def no_proc_def)
  with wait_scan_HaveKids [OF HaveKids] HaveKids show ?thesis
    by (metis add_0 le0 one_less_numeral_iff semiring_norm(76))
qed

lemma demo_waiting_run: "proc_run 2 demo_waiting"
proof -
  let ?t = "sleep_locked 0 0 (AtProc 0) demo_forked"
  have r: "proc_run 2 ?t"
    using demo_forked_scan
    by (intro run_same [OF demo_forked_run] st_wait) (simp_all add: demo_forked_def no_proc_def proc_ops)
  have "scan (\<lambda>j. state_of ?t j = RUNNABLE) 0 NPROC = Some 1"
    by (simp add: scan_eq_Some demo_forked_def no_proc_def proc_ops)
  then have "sched_next 0 0 ?t = Some (1, demo_waiting)" by (simp add: sched_next_def demo_waiting_def)
  then show ?thesis
    by (intro run_same [OF r] st_dispatch [where c = 0 and i = 0 and j = 1])
      (simp_all add: demo_waiting_def proc_ops)
qed

lemma demo_waiting_reach: "proc_reach demo_waiting"
  using demo_waiting_run proc_reach_run by blast

theorem process_table_sound_witness:
  "proc_run 2 demo_waiting \<and> (\<exists>!c. running demo_waiting c = Some 1) \<and> p_parent (procs demo_waiting 1) = Some 0 \<and>
    p_pid (procs demo_waiting 0) \<noteq> p_pid (procs demo_waiting 1)"
proof -
  have "state_of demo_waiting 1 = RUNNING" "p_parent (procs demo_waiting 1) = Some 0"
    by (simp_all add: demo_waiting_def demo_forked_def proc_ops no_proc_def)
  moreover have "state_of demo_waiting 0 \<noteq> UNUSED" by (simp add: demo_waiting_def demo_forked_def proc_ops no_proc_def)
  moreover have "\<exists>!c. running demo_waiting c = Some 1"
    using process_table_sound [OF demo_waiting_run, THEN conjunct1] calculation(1) by simp
  moreover have "p_pid (procs demo_waiting 0) \<noteq> p_pid (procs demo_waiting 1)"
    using process_table_sound [OF demo_waiting_run, THEN conjunct2, THEN conjunct1] calculation(1,3) by simp
  ultimately show ?thesis using demo_waiting_run by blast
qed

theorem wait_never_misses_exit_witness:
  "proc_reach demo_waiting \<and> state_of demo_waiting 0 = SLEEPING \<and> state_of (exit_locked 0 1 demo_waiting) 0 = RUNNABLE"
proof -
  have s: "state_of demo_waiting 0 = SLEEPING" "p_chan (procs demo_waiting 0) = Some (AtProc 0)"
    "running demo_waiting 0 = Some 1" "p_parent (procs demo_waiting 1) = Some 0" "initproc demo_waiting \<noteq> Some 1"
    by (simp_all add: demo_waiting_def demo_forked_def proc_ops no_proc_def)
  with wait_never_misses_exit [OF demo_waiting_reach _ s(1,2)] demo_waiting_reach show ?thesis by auto
qed

theorem scheduler_fair_witness:
  "\<exists>n\<le>NPROC. \<exists>t'. sched_next 0 (sched_pos (\<lambda>_. demo_forked) 0 0 n) demo_forked = Some (1, t') \<and> state_of t' 1 = RUNNING"
  using scheduler_fair [of 1 "\<lambda>_. demo_forked" 0 0] by (auto simp: demo_forked_def no_proc_def)

section \<open>Killing process 0\<close>

text \<open>process id 0 is nobody's, but \<open>kill\<close> compares it with the ids of all slots and \<open>wait\<close> resets the
  id of a free slot to 0: \<open>kill(0)\<close> reports success and marks the first slot never used or collected.
  \<open>allocproc\<close> does not clear the mark, so if that slot is the next to be allocated the next child
  that is forked is already killed.\<close>

theorem kill_zero_dooms_next_child:
  assumes "proc_run n t" "n < 2147483648" "alloc_slot t = Some (i, u)" "p_pid (procs t i) = 0"
  shows "\<exists>v w. kill 0 t = (0, v) \<and> alloc_slot v = Some (i, w) \<and> p_killed (procs (fork_done me i w) i) \<and>
    (\<forall>j. j \<noteq> i \<longrightarrow> procs v j = procs t j)"
proof -
  note a = alloc_slot_SomeD [OF assms(3)]
  have s: "scan (\<lambda>j. state_of t j = UNUSED) 0 NPROC = Some i"
    using assms(3) by (auto simp: alloc_slot_def split: option.splits)
  have used: "state_of t j \<noteq> UNUSED" if "j < i" for j using scan_first [OF s] that by simp
  have "p_pid (procs t j) \<noteq> 0" if "j < i" for j
  proof -
    have "\<forall>i<NPROC. state_of t i \<noteq> UNUSED \<longrightarrow> 0 < p_pid (procs t i)" using proc_run_pids [OF assms(1)] assms(2) by (simp add: pids_ok_def)
    moreover have "j < NPROC" using that a(1) by simp
    ultimately have "0 < p_pid (procs t j)" using used [OF that] by blast
    then show ?thesis by simp
  qed
  then have k0: "scan (\<lambda>j. p_pid (procs t j) = 0) 0 NPROC = Some i"
    using assms(4) a(1) by (auto simp: scan_eq_Some)
  have k: "kill 0 t = (0, upd_proc i (\<lambda>p. p\<lparr>p_killed := True\<rparr>) t)"
  proof -
    have e: "(procs t i)\<lparr>p_state := UNUSED\<rparr> = procs t i" using a(2) by (cases "procs t i") simp
    show ?thesis using k0 a(2) by (simp add: kill_def upd_proc_def e)
  qed
  let ?v = "upd_proc i (\<lambda>p. p\<lparr>p_killed := True\<rparr>) t"
  have "scan (\<lambda>j. state_of ?v j = UNUSED) 0 NPROC = Some i"
    using a(1,2) used by (auto simp: scan_eq_Some upd_proc_def)
  then have "\<exists>w. alloc_slot ?v = Some (i, w) \<and> p_killed (procs (fork_done me i w) i)"
    by (simp add: alloc_slot_def fork_done_def upd_proc_def)
  then show ?thesis using k by (auto simp: upd_proc_def)
qed

theorem kill_zero_dooms_next_child_witness:
  "\<exists>v w. kill 0 demo_forked = (0, v) \<and> alloc_slot v = Some (2, w) \<and> p_killed (procs (fork_done 0 2 w) 2)"
proof -
  have "scan (\<lambda>j. state_of demo_forked j = UNUSED) 0 NPROC = Some 2"
    by (auto simp: scan_eq_Some demo_forked_def no_proc_def)
  then obtain u where u: "alloc_slot demo_forked = Some (2, u)" by (simp add: alloc_slot_def)
  have "p_pid (procs demo_forked 2) = 0" by (simp add: demo_forked_def no_proc_def)
  from kill_zero_dooms_next_child [OF demo_forked_run _ u this, of 0] show ?thesis by auto
qed

end
