(* ===== verification/ProcCalls.thy ===== *)
theory ProcCalls
  imports Sched
begin

text \<open>
  The whole calls of \<open>proc.c\<close>, with memory, open files and directories, against the state machine
  of the process table: what each call does to the table is a sequence of its steps, so the
  invariants of \<open>Sched\<close> hold for a kernel made of these calls; and the reference counts of open
  files stay exact while processes are created, exit and are collected.
\<close>

section \<open>What files and directories leave alone\<close>

lemma psys_of_more: "fsys.more s' = fsys.more (s :: psys) \<Longrightarrow> pt s' = pt s"
  by (cases s; cases s'; simp)

definition pt_same :: "ptab \<Rightarrow> (nat \<Rightarrow> kfile) \<Rightarrow> psys \<Rightarrow> bool" where
  "pt_same t ft s \<longleftrightarrow> pt s = t \<and> ftable s = ft"

lemma pt_same_refl: "pt_same (pt s) (ftable s) s"
  by (simp add: pt_same_def)

interpretation pt_frame: fs_frame "pt_same t ft" for t ft
proof unfold_locales
  fix s s' :: psys
  assume "pt_same t ft s" "fsys.more s' = fsys.more s"
  then show "pt_same t ft s'" using psys_of_more ksys_of_more(1) unfolding pt_same_def by metis
qed

lemma close_pipe_pt: "close_pipe kend p w s = Ok s' \<Longrightarrow> pt s' = pt (s :: psys)"
  by (auto simp: close_pipe_def kres_simps split: prod.splits option.splits)

lemma put_dir_pt:
  fixes s :: psys
  assumes "kbind (begin_op s) (\<lambda>s2. kbind (iput pid ip s2) end_op) = Ok s'"
  shows "pt s' = pt s \<and> ftable s' = ftable s"
proof -
  have "keep1 (pt_same (pt s) (ftable s)) (kbind (begin_op s) (\<lambda>s2. kbind (iput pid ip s2) end_op))"
    by (rule pt_frame.inode_rules pt_same_refl | assumption)+
  from keep1D [OF this assms] show ?thesis by (simp add: pt_same_def)
qed

lemma fileclose_pt:
  fixes s :: psys
  assumes "fileclose kend pid f s = Ok s'"
  shows "pt s' = pt s"
proof -
  let ?x = "ftable s f" and ?s1 = "set_file f ((ftable s f)\<lparr>f_ref := 0, f_type := FD_NONE\<rparr>) s"
  have r: "\<not> f_ref ?x < 1" using assms by (auto simp: fileclose_def Let_def split: if_splits)
  have s1: "pt ?s1 = pt s" by (simp add: set_file_def)
  show ?thesis
  proof (cases "0 < f_ref ?x - 1")
    case True
    with assms r show ?thesis by (auto simp: fileclose_def Let_def set_file_def)
  next
    case last: False
    show ?thesis
    proof (cases "f_type ?x")
      case FD_NONE
      with last assms r s1 show ?thesis by (auto simp: fileclose_def Let_def)
    next
      case FD_PIPE
      with last assms r have "close_pipe kend (f_pipe ?x) (f_writable ?x) ?s1 = Ok s'"
        by (simp add: fileclose_def Let_def)
      from close_pipe_pt [OF this] s1 show ?thesis by simp
    next
      case FD_INODE
      with last assms r have "kbind (begin_op ?s1) (\<lambda>s2. kbind (iput pid (f_ip ?x) s2) end_op) = Ok s'"
        by (simp add: fileclose_def Let_def)
      from put_dir_pt [OF this] s1 show ?thesis by simp
    qed
  qed
qed

lemma filedup_pt: "filedup f s = Ok s' \<Longrightarrow> pt s' = pt (s :: psys)"
  by (auto simp: filedup_def set_file_def split: if_splits)

lemma idup_pt: "pt (idup ip s) = pt (s :: psys)" "ftable (idup ip s) = ftable s"
  using pt_frame.keep_updates(4) [OF pt_same_refl, where i = ip] by (simp_all add: pt_same_def)

lemma namei_pt:
  fixes s :: psys
  assumes "namei pid cwd path s = Ok (r, s')"
  shows "pt s' = pt s"
proof -
  have "keep (pt_same (pt s) (ftable s)) (namei pid cwd path s)"
    by (rule pt_frame.fs_rules pt_same_refl | assumption)+
  from keepD [OF this assms] show ?thesis by (simp add: pt_same_def)
qed

lemma put_proc_sel [simp]:
  "pt (put_proc i g s) = upd_proc i g (pt s)" "ftable (put_proc i g s) = ftable s"
  by (simp_all add: put_proc_def)

section \<open>Calls are sequences of steps\<close>

abbreviation proc_steps :: "ptab \<Rightarrow> ptab \<Rightarrow> bool" where "proc_steps \<equiv> proc_step\<^sup>*\<^sup>*"

lemma same_core_refl: "same_core t t"
  and same_core_trans: "same_core t u \<Longrightarrow> same_core u v \<Longrightarrow> same_core t v"
  by (simp_all add: same_core_def)

lemma proc_steps_reach: "proc_steps t t' \<Longrightarrow> proc_reach t \<Longrightarrow> proc_reach t'"
  by (induction rule: rtranclp_induct) (auto intro: reach_step)

text \<open>Allocation, in the two ways it can fail and the way it succeeds.\<close>

lemma allocproc_cases:
  assumes "allocproc K s = (r, s1)"
  obtains (full) "alloc_slot (pt s) = None" "r = None" "s1 = s"
  | (no_stack) i t where "alloc_slot (pt s) = Some (i, t)" "r = None" "same_core (free_slot i t) (pt s1)"
      "ftable s1 = ftable s" "pt s1 = upd_proc i (\<lambda>p. p\<lparr>p_state := UNUSED, p_kstack := 0\<rparr>) t"
  | (alloc) i t where "alloc_slot (pt s) = Some (i, t)" "r = Some i" "same_core t (pt s1)" "ftable s1 = ftable s"
      "\<And>j. p_ofile (procs (pt s1) j) = p_ofile (procs t j)"
  using assms
  by (auto simp: allocproc_def Let_def same_core_def free_slot_def upd_proc_def put_proc_def
      split: option.splits prod.splits if_splits)

lemma alloc_slot_steps:
  assumes "running t c = Some me" "alloc_slot t = Some (i, t1)"
  shows "proc_step t t1" "i < NPROC" "state_of t1 i = EMBRYO" "running t1 c = Some me"
  using assms st_alloc [OF assms] alloc_slot_SomeD [OF assms(2)] by (simp_all add: upd_proc_def)

lemma give_up_steps:
  assumes "running t c = Some me" "alloc_slot t = Some (i, t1)" "same_core (free_slot i t1) u"
  shows "proc_steps t u"
proof -
  note a = alloc_slot_steps [OF assms(1,2)]
  have "proc_step t1 (free_slot i t1)" by (rule st_give_up [OF a(2,3)])
  with a(1) st_private [OF assms(3)] show ?thesis by (meson converse_rtranclp_into_rtranclp r_into_rtranclp)
qed

lemma dup_fd_core: "dup_fd me np fd s = Ok s' \<Longrightarrow> same_core (pt s) (pt s')"
  by (auto simp: dup_fd_def kres_simps same_core_def upd_proc_def split: option.splits if_splits dest!: filedup_pt)

lemma dup_all_core: "kloop (dup_fd me np) i k s = Ok s' \<Longrightarrow> same_core (pt s) (pt s')"
  by (rule kloop_inv [where I = "\<lambda>u. same_core (pt s) (pt u)"])
    (auto intro: same_core_refl same_core_trans dup_fd_core)

lemma close_fd_core: "close_fd K me fd s = Ok s' \<Longrightarrow> same_core (pt s) (pt s')"
  by (auto simp: close_fd_def kres_simps same_core_def upd_proc_def split: option.splits if_splits dest!: fileclose_pt)

lemma close_all_core: "kloop (close_fd K me) i k s = Ok s' \<Longrightarrow> same_core (pt s) (pt s')"
  by (rule kloop_inv [where I = "\<lambda>u. same_core (pt s) (pt u)"])
    (auto intro: same_core_refl same_core_trans close_fd_core)

lemma calls_are_steps:
  assumes "running (pt s) c = Some me"
  shows "fork K me s = Ok (r, s') \<Longrightarrow> proc_steps (pt s) (pt s')"
    and "proc_exit K c me s = Ok s1 \<Longrightarrow> proc_steps (pt s) (pt s1)"
    and "wait K c me s = Ok (w, s2) \<Longrightarrow> proc_steps (pt s) (pt s2)"
    and "growproc K me n s = Ok (g, s3) \<Longrightarrow> proc_steps (pt s) (pt s3)"
    and "boot_table (pt u) \<Longrightarrow> userinit K code sz u = Ok u' \<Longrightarrow> proc_reach (pt u')"
proof -
  assume f: "fork K me s = Ok (r, s')"
  obtain p s1 where a: "allocproc K s = (p, s1)" by (cases "allocproc K s")
  from a show "proc_steps (pt s) (pt s')"
  proof (cases rule: allocproc_cases)
    case full
    with a f show ?thesis by (simp add: fork_def)
  next
    case (no_stack i t)
    with a f have "s' = s1" by (simp add: fork_def)
    with give_up_steps [OF assms no_stack(1,3)] show ?thesis by simp
  next
    case (alloc i t)
    note st = alloc_slot_steps [OF assms alloc(1)]
    show ?thesis
    proof (cases "same_core (free_slot i t) (pt s')")
      case True
      then show ?thesis by (rule give_up_steps [OF assms alloc(1)])
    next
      case False
      have "same_core (fork_done me i t) (pt s')"
      proof -
        have give_up: "same_core (free_slot i t) (upd_proc i (\<lambda>q. q\<lparr>p_state := UNUSED, p_pgdir := 0, p_kstack := 0\<rparr>) (pt s1))"
          using alloc(3) by (simp add: same_core_def free_slot_def upd_proc_def)
        from f a alloc(2) give_up False
        obtain d k s3 ip where s3: "kloop (dup_fd me i) 0 NOFILE (put_proc i (\<lambda>q. q\<lparr>p_parent := Some me,
              p_sz := p_sz (procs (pt s1) me), p_pgdir := d, p_tf := (p_tf (procs (pt s1) me))\<lparr>tf_eax := 0\<rparr>\<rparr>)
              (s1\<lparr>kmm := k\<rparr>)) = Ok s3"
          "s' = put_proc i (\<lambda>q. q\<lparr>p_state := RUNNABLE, p_cwd := Some ip, p_name := p_name (procs (pt s1) me)\<rparr>) (idup ip s3)"
          by (auto simp: fork_def Let_def kres_simps split: if_splits option.splits)
        from dup_all_core [OF s3(1)] alloc(3) show ?thesis
          by (simp add: s3(2) idup_pt same_core_def fork_done_def upd_proc_def)
      qed
      then have "proc_step (fork_done me i t) (pt s')" by (rule st_private)
      with st(1) st_fork [OF st(4,2,3)] show ?thesis
        by (meson converse_rtranclp_into_rtranclp r_into_rtranclp)
    qed
  qed
next
  assume e: "proc_exit K c me s = Ok s1"
  then obtain t1 ip s2 s3 s4 where p: "initproc (pt s) \<noteq> Some me" "kloop (close_fd K me) 0 NOFILE s = Ok t1"
    "p_cwd (procs (pt t1) me) = Some ip" "begin_op t1 = Ok s2"
    "iput (p_pid (procs (pt s2) me)) ip s2 = Ok s3" "end_op s3 = Ok s4"
    "pt s1 = exit_locked c me (upd_proc me (\<lambda>p. p\<lparr>p_cwd := None\<rparr>) (pt s4))"
    by (auto simp: proc_exit_def Let_def kres_simps split: if_splits option.splits)
  have "pt s4 = pt t1" using put_dir_pt [of t1 "p_pid (procs (pt s2) me)" ip s4] p by simp
  let ?u = "upd_proc me (\<lambda>p. p\<lparr>p_cwd := None\<rparr>) (pt t1)"
  have core: "same_core (pt s) ?u" using close_all_core [OF p(2)] by (simp add: same_core_def upd_proc_def)
  then have "running ?u c = Some me" "initproc ?u \<noteq> Some me"
    using assms p(1) by (simp_all add: same_core_def)
  then have "proc_step ?u (pt s1)" using st_exit p(7) \<open>pt s4 = pt t1\<close> by simp
  with st_private [OF core] show "proc_steps (pt s) (pt s1)"
    by (meson converse_rtranclp_into_rtranclp r_into_rtranclp)
next
  assume w: "wait K c me s = Ok (w, s2)"
  show "proc_steps (pt s) (pt s2)"
  proof (cases "wait_scan me 0 NPROC False (pt s)")
    case (Exited i)
    with w have "pt s2 = clear_slot i (pt s)" by (auto simp: wait_def Let_def kres_simps)
    then show ?thesis using st_reap [OF assms Exited] by simp
  next
    case (HaveKids b)
    with w show ?thesis using st_wait [OF assms] by (cases b) (auto simp: wait_def split: if_splits)
  qed
next
  assume "growproc K me n s = Ok (g, s3)"
  then have "same_core (pt s) (pt s3)"
    by (auto simp: growproc_def Let_def kres_simps same_core_def upd_proc_def split: if_splits)
  then show "proc_steps (pt s) (pt s3)" by (blast intro: st_private)
next
  assume b: "boot_table (pt u)" and i: "userinit K code sz u = Ok u'"
  obtain p s1 where a: "allocproc K u = (p, s1)" by (cases "allocproc K u")
  from a show "proc_reach (pt u')"
  proof (cases rule: allocproc_cases)
    case (alloc i t)
    from i a alloc(2) obtain d k1 cwd s4 where
      s4: "namei (p_pid (procs (pt s1) i)) 0 [0x2F] (put_proc i (\<lambda>q. q\<lparr>p_sz := PGSIZE, p_pgdir := d,
             p_tf := first_trapframe, p_name := ''initcode''\<rparr>) (s1\<lparr>pt := (pt s1)\<lparr>initproc := Some i\<rparr>, kmm := k1\<rparr>)) = Ok (cwd, s4)"
      "u' = put_proc i (\<lambda>q. q\<lparr>p_state := RUNNABLE, p_cwd := cwd\<rparr>) s4"
      by (auto simp: userinit_def Let_def kres_simps upd_proc_def split: if_splits)
    have "same_core ((upd_proc i (\<lambda>q. q\<lparr>p_state := RUNNABLE\<rparr>) t)\<lparr>initproc := Some i\<rparr>) (pt u')"
      using alloc(3) namei_pt [OF s4(1)] by (simp add: s4(2) same_core_def upd_proc_def)
    then show ?thesis by (rule reach_step [OF reach_boot [OF b alloc(1)] st_private])
  qed (use a i in \<open>simp_all add: userinit_def\<close>)
qed

text \<open>C26: the calls are made of steps of the table.  Whatever \<open>fork\<close>, \<open>exit\<close>, \<open>wait\<close> and \<open>growproc\<close> of a
  running process do to the process table, through every failure of allocation on the way, is a
  sequence of steps of \<open>proc_step\<close>; \<open>userinit\<close> leads to a state from which the steps start.  So the
  table stays sound whatever calls are made.\<close>

theorem calls_follow_table:
  assumes "running (pt s) c = Some me"
  shows "(\<forall>r s'. fork K me s = Ok (r, s') \<longrightarrow> proc_steps (pt s) (pt s')) \<and>
    (\<forall>s'. proc_exit K c me s = Ok s' \<longrightarrow> proc_steps (pt s) (pt s')) \<and>
    (\<forall>r s'. wait K c me s = Ok (r, s') \<longrightarrow> proc_steps (pt s) (pt s')) \<and>
    (\<forall>n r s'. growproc K me n s = Ok (r, s') \<longrightarrow> proc_steps (pt s) (pt s')) \<and>
    (\<forall>u code sz u'. boot_table (pt u) \<longrightarrow> userinit K code sz u = Ok u' \<longrightarrow> proc_reach (pt u'))"
  using calls_are_steps [OF assms] by blast

definition demo_psys :: psys where
  "demo_psys = ksys.extend (ksys.truncate demo_ksys) (psys.fields demo_forked)"

definition demo_link :: klink where
  "demo_link = \<lparr>l_end = 0x80100000, l_data = 0x80108000, l_forkret = 0x80103000, l_trapret = 0x80105000\<rparr>"

lemma demo_psys_sel [simp]: "pt demo_psys = demo_forked" "ftable demo_psys = ftable demo_ksys"
  by (simp_all add: demo_psys_def demo_ksys_def fsys.defs ksys.defs psys.defs)

theorem calls_follow_table_witness:
  "\<exists>s'. wait demo_link 0 0 demo_psys = Ok (None, s') \<and> proc_reach (pt s') \<and> state_of (pt s') 0 = SLEEPING"
proof -
  have r: "running (pt demo_psys) 0 = Some 0" by (simp add: demo_forked_def)
  let ?s = "demo_psys\<lparr>pt := sleep_locked 0 0 (AtProc 0) demo_forked\<rparr>"
  have "wait demo_link 0 0 demo_psys = Ok (None, ?s)"
    using demo_forked_scan by (simp add: wait_def demo_forked_def no_proc_def)
  moreover from this calls_follow_table [OF r, of demo_link] have "proc_steps demo_forked (pt ?s)" by auto
  then have "proc_reach (pt ?s)" using demo_forked_reach proc_steps_reach by blast
  ultimately show ?thesis by (auto simp: proc_ops)
qed

section \<open>References to open files\<close>

text \<open>\<open>held_by s f\<close> counts the descriptors of all processes that refer to \<open>f\<close>.  A process that has exited
  and a free slot have none.\<close>

definition descriptors :: "psys \<Rightarrow> nat \<Rightarrow> (nat \<times> nat) set" where
  "descriptors s f = {(p, fd). p < NPROC \<and> fd < NOFILE \<and> p_ofile (procs (pt s) p) fd = Some f}"

definition files_ok :: "psys \<Rightarrow> bool" where
  "files_ok s \<longleftrightarrow> (\<forall>f. f_ref (ftable s f) = int (card (descriptors s f))) \<and>
     (\<forall>p<NPROC. state_of (pt s) p \<in> {UNUSED, ZOMBIE} \<longrightarrow> (\<forall>fd<NOFILE. p_ofile (procs (pt s) p) fd = None))"

lemma finite_descriptors [simp]: "finite (descriptors s f)"
  by (rule finite_subset [of _ "{..<NPROC} \<times> {..<NOFILE}"]) (auto simp: descriptors_def)

lemma kloop_index:
  assumes "kloop f i k s = Ok s'" "I i s"
    and "\<And>j s s'. i \<le> j \<Longrightarrow> j < i + k \<Longrightarrow> I j s \<Longrightarrow> f j s = Ok s' \<Longrightarrow> I (Suc j) s'"
  shows "I (i + k) s'"
  using assms
proof (induction k arbitrary: i s)
  case (Suc k)
  then obtain u where u: "f i s = Ok u" "kloop f (Suc i) k u = Ok s'" by (auto simp: kres_simps)
  have "I (Suc i) u" using Suc.prems u(1) by simp
  from Suc.IH [OF u(2) this] Suc.prems(3) show ?case by simp
qed simp

lemma descriptors_upd:
  assumes "p < NPROC" "fd < NOFILE"
  shows "card (descriptors (put_proc p (\<lambda>q. q\<lparr>p_ofile := (p_ofile q)(fd := fo)\<rparr>) s) f) +
      (if p_ofile (procs (pt s) p) fd = Some f then 1 else 0) =
    card (descriptors s f) + (if fo = Some f then 1 else 0)"
proof -
  let ?u = "put_proc p (\<lambda>q. q\<lparr>p_ofile := (p_ofile q)(fd := fo)\<rparr>) s"
  obtain R where R: "R = descriptors s f - {(p, fd)}" by blast
  have old: "descriptors s f = (if p_ofile (procs (pt s) p) fd = Some f then insert (p, fd) R else R)"
    using assms by (auto simp: descriptors_def R)
  have new: "descriptors ?u f = (if fo = Some f then insert (p, fd) R else R)"
    using assms by (auto simp: descriptors_def upd_proc_def R split: if_splits)
  have "finite R" "(p, fd) \<notin> R" by (simp_all add: R)
  then show ?thesis unfolding old new by simp
qed

text \<open>Only the descriptors, the states and the reference counts matter.\<close>

lemma files_ok_same:
  assumes "files_ok s" "\<And>f. f_ref (ftable u f) = f_ref (ftable s f)"
    "\<And>p. p < NPROC \<Longrightarrow> p_ofile (procs (pt u) p) = p_ofile (procs (pt s) p)"
    "\<And>p. p < NPROC \<Longrightarrow> state_of (pt u) p \<in> {UNUSED, ZOMBIE} \<Longrightarrow>
       state_of (pt s) p \<in> {UNUSED, ZOMBIE} \<or> (\<forall>fd<NOFILE. p_ofile (procs (pt s) p) fd = None)"
  shows "files_ok u"
proof -
  have "descriptors u f = descriptors s f" for f
    using assms(3) by (auto simp: descriptors_def)
  with assms show ?thesis unfolding files_ok_def by metis
qed

text \<open>While the descriptors of the parent are duplicated, those not reached yet are empty in the child.\<close>

definition dup_inv :: "nat \<Rightarrow> nat \<Rightarrow> nat \<Rightarrow> psys \<Rightarrow> bool" where
  "dup_inv me np j s \<longleftrightarrow> files_ok s \<and> np < NPROC \<and> np \<noteq> me \<and> state_of (pt s) np = EMBRYO \<and>
     (\<forall>fd. j \<le> fd \<longrightarrow> fd < NOFILE \<longrightarrow> p_ofile (procs (pt s) np) fd = None) \<and>
     (\<forall>fd<j. p_ofile (procs (pt s) np) fd = p_ofile (procs (pt s) me) fd)"

lemma dup_fd_inv:
  assumes "dup_inv me np j s" "dup_fd me np j s = Ok s'" "j < NOFILE"
  shows "dup_inv me np (Suc j) s'"
proof (cases "p_ofile (procs (pt s) me) j")
  case None
  with assms show ?thesis by (auto simp: dup_fd_def dup_inv_def less_Suc_eq)
next
  case (Some f)
  then obtain s1 where d: "filedup f s = Ok s1" "s' = put_proc np (\<lambda>p. p\<lparr>p_ofile := (p_ofile p)(j := Some f)\<rparr>) s1"
    using assms(2) by (auto simp: dup_fd_def kres_simps)
  have pt: "pt s1 = pt s" using d(1) filedup_pt by blast
  have ref: "f_ref (ftable s1 g) = f_ref (ftable s g) + (if g = f then 1 else 0)" for g
    using d(1) by (auto simp: filedup_def set_file_def split: if_splits)
  have desc: "descriptors s1 g = descriptors s g" for g by (simp add: descriptors_def pt)
  have inv: "files_ok s" "np < NPROC" "np \<noteq> me" "state_of (pt s) np = EMBRYO"
    "\<And>fd. j \<le> fd \<Longrightarrow> fd < NOFILE \<Longrightarrow> p_ofile (procs (pt s) np) fd = None"
    "\<forall>fd<j. p_ofile (procs (pt s) np) fd = p_ofile (procs (pt s) me) fd"
    using assms(1) by (auto simp: dup_inv_def)
  have "card (descriptors s' g) = card (descriptors s g) + (if g = f then 1 else 0)" for g
    using descriptors_upd [OF inv(2) assms(3), of "Some f" s1 g] inv(5) [of j] assms(3)
    by (simp add: d(2) desc pt)
  then have "files_ok s'"
    using inv(1,4) ref by (auto simp: files_ok_def d(2) pt upd_proc_def)
  with inv Some show ?thesis by (simp add: dup_inv_def d(2) pt upd_proc_def less_Suc_eq)
qed

text \<open>While a process that exits closes its descriptors.\<close>

definition closing_inv :: "nat \<Rightarrow> nat \<Rightarrow> psys \<Rightarrow> bool" where
  "closing_inv me j s \<longleftrightarrow> files_ok s \<and> me < NPROC \<and> state_of (pt s) me = RUNNING \<and>
     (\<forall>fd<j. p_ofile (procs (pt s) me) fd = None)"

lemma close_fd_inv:
  assumes "closing_inv me j s" "close_fd K me j s = Ok s'" "j < NOFILE"
  shows "closing_inv me (Suc j) s'"
proof (cases "p_ofile (procs (pt s) me) j")
  case None
  with assms show ?thesis by (auto simp: close_fd_def closing_inv_def less_Suc_eq)
next
  case (Some f)
  then obtain s1 where d: "fileclose (l_end K) (p_pid (procs (pt s) me)) f s = Ok s1"
    "s' = put_proc me (\<lambda>p. p\<lparr>p_ofile := (p_ofile p)(j := None)\<rparr>) s1"
    using assms(2) by (auto simp: close_fd_def kres_simps)
  have pt: "pt s1 = pt s" using d(1) fileclose_pt by blast
  have ref: "f_ref (ftable s1 g) = f_ref (ftable s g) - (if g = f then 1 else 0)" for g
    using fileclose_ref [OF d(1)] by simp
  have desc: "descriptors s1 g = descriptors s g" for g by (simp add: descriptors_def pt)
  have inv: "files_ok s" "me < NPROC" "state_of (pt s) me = RUNNING" "\<forall>fd<j. p_ofile (procs (pt s) me) fd = None"
    using assms(1) by (auto simp: closing_inv_def)
  have one: "card (descriptors s' g) + (if g = f then 1 else 0) = card (descriptors s g)" for g
    using descriptors_upd [OF inv(2) assms(3), of None s1 g] Some by (auto simp: d(2) desc pt split: if_splits)
  have "int (card (descriptors s' g)) = int (card (descriptors s g)) - (if g = f then 1 else 0)" for g
    unfolding one [of g, symmetric] by simp
  then have "files_ok s'"
    using inv(1,3) ref by (auto simp: files_ok_def d(2) pt upd_proc_def)
  with inv show ?thesis by (auto simp: closing_inv_def d(2) pt upd_proc_def less_Suc_eq)
qed

lemma wakeup1_ofile: "p_ofile (procs (wakeup1 ch t) i) = p_ofile (procs t i)"
  by (simp add: wakeup1_def)

lemma adopt_ofile: "p_ofile (procs (adopt me j t) i) = p_ofile (procs t i)"
  by (simp add: adopt_def Let_def wake_proc_def upd_proc_def wakeup1_ofile split: option.split)

lemma reparent_ofile: "p_ofile (procs (reparent_loop me j k t) i) = p_ofile (procs t i)"
proof (induction k arbitrary: j t)
  case (Suc k)
  then show ?case unfolding reparent_loop_Suc by (simp add: adopt_ofile)
qed simp

lemma exit_locked_ofile: "p_ofile (procs (exit_locked c me t) i) = p_ofile (procs t i)"
  by (simp add: exit_locked_def Let_def switch_out_def upd_proc_def reparent_ofile wake_proc_def wakeup1_ofile
      split: option.split)

lemma files_ok_exit_locked:
  assumes "files_ok s" "initproc (pt s) \<noteq> Some me" "\<forall>fd<NOFILE. p_ofile (procs (pt s) me) fd = None"
  shows "files_ok (s\<lparr>pt := exit_locked c me (pt s)\<rparr>)"
proof (rule files_ok_same [OF assms(1)])
  fix p assume "p < NPROC" and p: "state_of (pt (s\<lparr>pt := exit_locked c me (pt s)\<rparr>)) p \<in> {UNUSED, ZOMBIE}"
  show "state_of (pt s) p \<in> {UNUSED, ZOMBIE} \<or> (\<forall>fd<NOFILE. p_ofile (procs (pt s) p) fd = None)"
    using assms(3) exit_locked_view(9) [OF assms(2), of p c] p by (cases "p = me") auto
qed (simp_all add: exit_locked_ofile)

text \<open>The child slot of \<open>fork\<close> before the descriptors are copied.\<close>

lemma allocproc_files:
  assumes "files_ok s" "allocproc K s = (r, s1)"
  shows "files_ok s1 \<and> (\<forall>i. r = Some i \<longrightarrow> i < NPROC \<and> state_of (pt s) i = UNUSED \<and>
    state_of (pt s1) i = EMBRYO \<and> (\<forall>fd<NOFILE. p_ofile (procs (pt s1) i) fd = None))"
  using assms(2)
proof (cases rule: allocproc_cases)
  case full
  then show ?thesis using assms(1) by simp
next
  case (no_stack j t)
  note a = alloc_slot_SomeD [OF no_stack(1)]
  have "files_ok s1"
    by (rule files_ok_same [OF assms(1)]) (use a no_stack in \<open>auto simp: upd_proc_def split: if_splits\<close>)
  then show ?thesis using no_stack by simp
next
  case (alloc j t)
  note a = alloc_slot_SomeD [OF alloc(1)]
  have core: "\<And>p. state_of (pt s1) p = state_of t p" using alloc(3) by (simp add: same_core_def)
  have "files_ok s1"
    by (rule files_ok_same [OF assms(1)]) (use a alloc core in \<open>auto simp: upd_proc_def split: if_splits\<close>)
  moreover have "\<forall>fd<NOFILE. p_ofile (procs (pt s1) j) fd = None"
    using a alloc(5) assms(1) by (auto simp: files_ok_def upd_proc_def)
  ultimately show ?thesis using a alloc(2) core by (simp add: upd_proc_def)
qed

lemma files_ok_put:
  assumes "files_ok s" "\<And>q. p_ofile (g q) = p_ofile q"
    "p_state (g (procs (pt s) i)) \<in> {UNUSED, ZOMBIE} \<Longrightarrow> i < NPROC \<Longrightarrow>
      \<forall>fd<NOFILE. p_ofile (procs (pt s) i) fd = None"
  shows "files_ok (put_proc i g s)"
  by (rule files_ok_same [OF assms(1)]) (use assms in \<open>auto simp: upd_proc_def split: if_splits\<close>)

lemma files_ok_mem: "files_ok s \<Longrightarrow> files_ok (s\<lparr>kmm := k\<rparr>)"
  by (rule files_ok_same) auto

lemma exit_keeps_files:
  assumes "files_ok s" "state_of (pt s) me = RUNNING" "me < NPROC" and e: "proc_exit K c me s = Ok s'"
  shows "files_ok s' \<and> state_of (pt s') me = ZOMBIE \<and> (\<forall>fd<NOFILE. p_ofile (procs (pt s') me) fd = None)"
proof (intro conjI allI impI)
  from e obtain t1 ip s2 s3 s4 where p: "initproc (pt s) \<noteq> Some me" "kloop (close_fd K me) 0 NOFILE s = Ok t1"
    "begin_op t1 = Ok s2" "iput (p_pid (procs (pt s2) me)) ip s2 = Ok s3" "end_op s3 = Ok s4"
    "s' = (put_proc me (\<lambda>p. p\<lparr>p_cwd := None\<rparr>) s4)\<lparr>pt := exit_locked c me (pt (put_proc me (\<lambda>p. p\<lparr>p_cwd := None\<rparr>) s4))\<rparr>"
    by (auto simp: proc_exit_def Let_def kres_simps split: if_splits option.splits)
  have "closing_inv me 0 s" using assms by (simp add: closing_inv_def)
  then have "closing_inv me (0 + NOFILE) t1"
    by (rule kloop_index [OF p(2), where I = "closing_inv me"]) (rule close_fd_inv, assumption, assumption, simp)
  then have t1: "files_ok t1" "\<forall>fd<NOFILE. p_ofile (procs (pt t1) me) fd = None" "state_of (pt t1) me = RUNNING"
    by (auto simp: closing_inv_def)
  have same: "pt s4 = pt t1" "ftable s4 = ftable t1"
    using put_dir_pt [of t1 "p_pid (procs (pt s2) me)" ip s4] p by simp_all
  have s4: "files_ok s4" by (rule files_ok_same [OF t1(1)]) (auto simp: same)
  let ?s5 = "put_proc me (\<lambda>p. p\<lparr>p_cwd := None\<rparr>) s4"
  have s5: "files_ok ?s5" by (rule files_ok_put [OF s4]) (use t1 same in auto)
  have core: "same_core (pt s) (pt ?s5)" using close_all_core [OF p(2)] same by (simp add: same_core_def upd_proc_def)
  have init: "initproc (pt ?s5) \<noteq> Some me" using core p(1) by (simp add: same_core_def)
  have none: "\<forall>fd<NOFILE. p_ofile (procs (pt ?s5) me) fd = None" using t1(2) same by (simp add: upd_proc_def)
  show "files_ok s'" unfolding p(6) by (rule files_ok_exit_locked [OF s5 init none])
  show "state_of (pt s') me = ZOMBIE" using exit_locked_view(8) [OF init] by (simp add: p(6))
  show "p_ofile (procs (pt s') me) fd = None" if "fd < NOFILE" for fd
    using none that by (simp add: p(6) exit_locked_ofile)
qed

lemma wait_keeps_files:
  assumes "files_ok s" and w: "wait K c me s = Ok (r, s')"
  shows "files_ok s'"
proof (cases "wait_scan me 0 NPROC False (pt s)")
  case (Exited i)
  then have z: "state_of (pt s) i = ZOMBIE" using wait_scan_Exited by blast
  from w Exited obtain k where "s' = s\<lparr>kmm := k, pt := clear_slot i (pt s)\<rparr>"
    by (auto simp: wait_def Let_def kres_simps)
  then show ?thesis
    by (intro files_ok_same [OF assms(1)]) (use z in \<open>auto simp: clear_slot_def upd_proc_def split: if_splits\<close>)
next
  case (HaveKids b)
  with w have "s' = s \<or> s' = s\<lparr>pt := sleep_locked c me (AtProc me) (pt s)\<rparr>" by (auto simp: wait_def split: if_splits)
  then show ?thesis
  proof
    assume "s' = s\<lparr>pt := sleep_locked c me (AtProc me) (pt s)\<rparr>"
    then show ?thesis
      by (intro files_ok_same [OF assms(1)])
        (auto simp: sleep_locked_def switch_out_def upd_proc_def split: if_splits)
  qed (use assms in simp)
qed

lemma fork_keeps_files:
  assumes "files_ok s" "state_of (pt s) me = RUNNING" "me < NPROC" and f: "fork K me s = Ok (r, s')"
  shows "files_ok s' \<and> (r \<noteq> -1 \<longrightarrow> (\<exists>np<NPROC. np \<noteq> me \<and> state_of (pt s) np = UNUSED \<and>
      state_of (pt s') np = RUNNABLE \<and> p_pid (procs (pt s') np) = r \<and> p_parent (procs (pt s') np) = Some me \<and>
      p_tf (procs (pt s') np) = (p_tf (procs (pt s') me))\<lparr>tf_eax := 0\<rparr> \<and>
      (\<forall>fd<NOFILE. p_ofile (procs (pt s') np) fd = p_ofile (procs (pt s') me) fd)))"
proof -
  obtain no s1 where a: "allocproc K s = (no, s1)" by (cases "allocproc K s")
  note af = allocproc_files [OF assms(1) a, THEN conjunct1] allocproc_files [OF assms(1) a, THEN conjunct2, rule_format]
  let ?child = "\<lambda>np. np < NPROC \<and> np \<noteq> me \<and> state_of (pt s) np = UNUSED \<and> state_of (pt s') np = RUNNABLE \<and>
    p_pid (procs (pt s') np) = r \<and> p_parent (procs (pt s') np) = Some me \<and>
    p_tf (procs (pt s') np) = (p_tf (procs (pt s') me))\<lparr>tf_eax := 0\<rparr> \<and>
    (\<forall>fd<NOFILE. p_ofile (procs (pt s') np) fd = p_ofile (procs (pt s') me) fd)"
  have "files_ok s' \<and> (r \<noteq> -1 \<longrightarrow> (\<exists>np. ?child np))"
  proof (cases no)
    case None
    with f a af(1) show ?thesis by (auto simp: fork_def)
  next
    case (Some i)
    note n = af(2) [OF Some]
    have ne: "i \<noteq> me" using n assms(2) by auto
    from f a Some consider
      (give_up) k1 where "r = -1"
        "s' = put_proc i (\<lambda>q. q\<lparr>p_state := UNUSED, p_pgdir := 0, p_kstack := 0\<rparr>) (s1\<lparr>kmm := k1\<rparr>)"
      | (child) d k s3 ip where "kloop (dup_fd me i) 0 NOFILE (put_proc i (\<lambda>q. q\<lparr>p_parent := Some me,
            p_sz := p_sz (procs (pt s1) me), p_pgdir := d, p_tf := (p_tf (procs (pt s1) me))\<lparr>tf_eax := 0\<rparr>\<rparr>)
            (s1\<lparr>kmm := k\<rparr>)) = Ok s3" "r = p_pid (procs (pt s3) i)"
          "s' = put_proc i (\<lambda>q. q\<lparr>p_state := RUNNABLE, p_cwd := Some ip, p_name := p_name (procs (pt s1) me)\<rparr>) (idup ip s3)"
      by (auto simp: fork_def Let_def kres_simps split: if_splits option.splits)
    then show ?thesis
    proof cases
      case give_up
      have "files_ok s'" unfolding give_up(2)
        by (rule files_ok_put [OF files_ok_mem [OF af(1)]]) (use n in auto)
      with give_up show ?thesis by simp
    next
      case child
      let ?s2 = "put_proc i (\<lambda>q. q\<lparr>p_parent := Some me, p_sz := p_sz (procs (pt s1) me), p_pgdir := d,
        p_tf := (p_tf (procs (pt s1) me))\<lparr>tf_eax := 0\<rparr>\<rparr>) (s1\<lparr>kmm := k\<rparr>)"
      have s2: "files_ok ?s2" by (rule files_ok_put [OF files_ok_mem [OF af(1)]]) (use n in auto)
      have "dup_inv me i 0 ?s2" using s2 n ne by (simp add: dup_inv_def upd_proc_def)
      then have "dup_inv me i (0 + NOFILE) s3"
        by (rule kloop_index [OF child(1), where I = "dup_inv me i"]) (rule dup_fd_inv, assumption, assumption, simp)
      then have s3: "files_ok s3" "state_of (pt s3) i = EMBRYO"
        "\<forall>fd<NOFILE. p_ofile (procs (pt s3) i) fd = p_ofile (procs (pt s3) me) fd"
        by (auto simp: dup_inv_def)
      have tf: "p_tf (procs (pt s3) j) = p_tf (procs (pt ?s2) j) \<and> p_parent (procs (pt s3) j) = p_parent (procs (pt ?s2) j)" for j
        by (rule kloop_inv [where I = "\<lambda>u. p_tf (procs (pt u) j) = p_tf (procs (pt ?s2) j) \<and>
              p_parent (procs (pt u) j) = p_parent (procs (pt ?s2) j)", OF child(1)])
          (auto simp: dup_fd_def kres_simps upd_proc_def split: option.splits dest!: filedup_pt)
      have id: "files_ok (idup ip s3)" by (rule files_ok_same [OF s3(1)]) (auto simp: idup_pt)
      have "files_ok s'" unfolding child(3) by (rule files_ok_put [OF id]) auto
      moreover have "?child i"
        using n ne s3 tf [of i] tf [of me] by (auto simp: child(2,3) idup_pt upd_proc_def)
      ultimately show ?thesis by blast
    qed
  qed
  then show ?thesis by blast
qed

text \<open>C25: \<open>fork\<close> succeeds completely or changes nothing that matters to files, and the reference counts of
  open files stay equal to the number of descriptors of all processes through \<open>fork\<close>, \<open>exit\<close> and
  \<open>wait\<close>.  A child has the process id returned, its parent's descriptors and registers except that
  its own \<open>fork\<close> returns 0; a process that has exited holds no file.\<close>

theorem processes_keep_file_counts:
  assumes "files_ok s" "state_of (pt s) me = RUNNING" "me < NPROC"
  shows "(\<forall>r s'. fork K me s = Ok (r, s') \<longrightarrow> files_ok s' \<and>
      (r \<noteq> -1 \<longrightarrow> (\<exists>np<NPROC. np \<noteq> me \<and> state_of (pt s) np = UNUSED \<and> state_of (pt s') np = RUNNABLE \<and>
         p_pid (procs (pt s') np) = r \<and> p_parent (procs (pt s') np) = Some me \<and>
         p_tf (procs (pt s') np) = (p_tf (procs (pt s') me))\<lparr>tf_eax := 0\<rparr> \<and>
         (\<forall>fd<NOFILE. p_ofile (procs (pt s') np) fd = p_ofile (procs (pt s') me) fd)))) \<and>
    (\<forall>c s'. proc_exit K c me s = Ok s' \<longrightarrow> files_ok s' \<and> state_of (pt s') me = ZOMBIE \<and>
      (\<forall>fd<NOFILE. p_ofile (procs (pt s') me) fd = None)) \<and>
    (\<forall>c r s'. wait K c me s = Ok (r, s') \<longrightarrow> files_ok s')"
proof (intro conjI)
  show "\<forall>c s'. proc_exit K c me s = Ok s' \<longrightarrow> files_ok s' \<and> state_of (pt s') me = ZOMBIE \<and>
      (\<forall>fd<NOFILE. p_ofile (procs (pt s') me) fd = None)" using exit_keeps_files [OF assms] by blast
  show "\<forall>c r s'. wait K c me s = Ok (r, s') \<longrightarrow> files_ok s'" using wait_keeps_files [OF assms(1)] by blast
qed (use fork_keeps_files [OF assms] in blast)

theorem processes_keep_file_counts_witness:
  "files_ok demo_psys \<and> (\<exists>s'. wait demo_link 0 0 demo_psys = Ok (None, s') \<and> files_ok s')"
proof -
  have "descriptors demo_psys f = {}" for f
    by (auto simp: descriptors_def demo_forked_def no_proc_def split: if_splits)
  then have ok: "files_ok demo_psys"
    using demo_ftable by (auto simp: files_ok_def demo_forked_def no_proc_def)
  have r: "state_of (pt demo_psys) 0 = RUNNING" by (simp add: demo_forked_def no_proc_def)
  have "wait demo_link 0 0 demo_psys = Ok (None, demo_psys\<lparr>pt := sleep_locked 0 0 (AtProc 0) demo_forked\<rparr>)"
    using demo_forked_scan by (simp add: wait_def demo_forked_def no_proc_def)
  with processes_keep_file_counts [OF ok r, of demo_link] ok show ?thesis by auto
qed

end
