(* ===== verification/Trap.thy ===== *)
theory Trap
  imports ProcCalls
begin

text \<open>
  Interrupts, exceptions and system calls: \<open>kernel/trap.c\<close>, the dispatch of
  \<open>kernel/syscall.c\<close> and the calls of \<open>kernel/sysproc.c\<close>.

  \<open>trap\<close> only dispatches; what it calls are the operations of a kernel state \<open>'s\<close>, collected in
  the record \<open>kernel_ops\<close>.  \<open>exit\<close> does not return, so a trap ends in \<open>Left_kernel\<close>, back at the
  interrupted code, or in \<open>Exited\<close>.  The calls of \<open>sysproc.c\<close> are those of \<open>Proc\<close> with arguments
  fetched from user memory.
\<close>

abbreviation T_SYSCALL :: uint where "T_SYSCALL \<equiv> 64"
abbreviation T_IRQ0 :: uint where "T_IRQ0 \<equiv> 32"
abbreviation IRQ_TIMER :: uint where "IRQ_TIMER \<equiv> 0"
abbreviation IRQ_KBD :: uint where "IRQ_KBD \<equiv> 1"
abbreviation IRQ_COM1 :: uint where "IRQ_COM1 \<equiv> 4"
abbreviation IRQ_MOUSE :: uint where "IRQ_MOUSE \<equiv> 12"
abbreviation IRQ_IDE :: uint where "IRQ_IDE \<equiv> 14"
abbreviation IRQ_SPURIOUS :: uint where "IRQ_SPURIOUS \<equiv> 31"
abbreviation DPL_USER :: ushort where "DPL_USER \<equiv> 3"

section \<open>The interrupt table\<close>

text \<open>Interrupt gates switch interrupts off, trap gates do not; user code may raise only the system
  call.\<close>

record gate =
  g_trap :: bool
  g_selector :: ushort
  g_vector :: nat
  g_dpl :: ushort

abbreviation SEG_KCODE :: ushort where "SEG_KCODE \<equiv> 1"

definition set_gate :: "bool \<Rightarrow> ushort \<Rightarrow> nat \<Rightarrow> ushort \<Rightarrow> gate" where
  "set_gate istrap sel off d = \<lparr>g_trap = istrap, g_selector = sel, g_vector = off, g_dpl = d\<rparr>"

fun set_gates :: "nat \<Rightarrow> nat \<Rightarrow> (nat \<Rightarrow> gate) \<Rightarrow> nat \<Rightarrow> gate" where
  "set_gates i 0 idt = idt"
| "set_gates i (Suc k) idt = set_gates (Suc i) k (idt(i := set_gate False (push_bit 3 SEG_KCODE) i 0))"

definition tvinit :: "(nat \<Rightarrow> gate) \<Rightarrow> nat \<Rightarrow> gate" where
  "tvinit idt = (set_gates 0 256 idt)(64 := set_gate True (push_bit 3 SEG_KCODE) 64 DPL_USER)"

section \<open>The trap handler\<close>

text \<open>\<open>k_myproc\<close> gives the killed flag and the state of the process of this CPU, when there is one.\<close>

record 's kernel_ops =
  k_myproc :: "'s \<Rightarrow> (bool \<times> procstate) option"
  k_cpuid :: nat
  k_set_tf :: "trapframe \<Rightarrow> 's \<Rightarrow> 's"
  k_syscall :: "'s \<Rightarrow> 's kres"
  k_exit :: "'s \<Rightarrow> 's kres"
  k_yield :: "'s \<Rightarrow> 's"
  k_tick :: "'s \<Rightarrow> 's"
  k_ideintr :: "'s \<Rightarrow> 's"
  k_mouseintr :: "'s \<Rightarrow> 's"
  k_kbdintr :: "'s \<Rightarrow> 's"
  k_uartintr :: "'s \<Rightarrow> 's"
  k_mark_killed :: "'s \<Rightarrow> 's"

datatype 's trap_out = Left_kernel 's | Exited_proc 's

definition killed_now :: "'s kernel_ops \<Rightarrow> 's \<Rightarrow> bool" where
  "killed_now ops s = (case k_myproc ops s of None \<Rightarrow> False | Some (k, st) \<Rightarrow> k)"

definition running_now :: "'s kernel_ops \<Rightarrow> 's \<Rightarrow> bool" where
  "running_now ops s = (case k_myproc ops s of None \<Rightarrow> False | Some (k, st) \<Rightarrow> st = RUNNING)"

text \<open>\<open>exit\<close> does not return.\<close>

definition exit_now :: "'s kernel_ops \<Rightarrow> 's \<Rightarrow> 's trap_out kres" where
  "exit_now ops s = kbind (k_exit ops s) (\<lambda>s1. Ok (Exited_proc s1))"

definition in_user :: "trapframe \<Rightarrow> bool" where
  "in_user tf \<longleftrightarrow> tf_cs tf AND 3 = DPL_USER"

definition dispatch :: "'s kernel_ops \<Rightarrow> trapframe \<Rightarrow> 's \<Rightarrow> 's kres" where
  "dispatch ops tf s =
     (let n = tf_trapno tf in
      if n = T_IRQ0 + IRQ_TIMER then Ok (if k_cpuid ops = 0 then k_tick ops s else s)
      else if n = T_IRQ0 + IRQ_IDE then Ok (k_ideintr ops s)
      else if n = T_IRQ0 + IRQ_IDE + 1 then Ok s
      else if n = T_IRQ0 + IRQ_MOUSE then Ok (k_mouseintr ops s)
      else if n = T_IRQ0 + IRQ_KBD then Ok (k_kbdintr ops s)
      else if n = T_IRQ0 + IRQ_COM1 then Ok (k_uartintr ops s)
      else if n = T_IRQ0 + 7 \<or> n = T_IRQ0 + IRQ_SPURIOUS then Ok s
      else if k_myproc ops s = None \<or> tf_cs tf AND 3 = 0 then Panic ''trap''
      else Ok (k_mark_killed ops s))"

definition trap :: "'s kernel_ops \<Rightarrow> trapframe \<Rightarrow> 's \<Rightarrow> 's trap_out kres" where
  "trap ops tf s =
     (if tf_trapno tf = T_SYSCALL
      then if killed_now ops s then exit_now ops s
           else kbind (k_syscall ops (k_set_tf ops tf s)) (\<lambda>s1.
             if killed_now ops s1 then exit_now ops s1 else Ok (Left_kernel s1))
      else kbind (dispatch ops tf s) (\<lambda>s1.
        if killed_now ops s1 \<and> in_user tf then exit_now ops s1
        else let s2 = (if running_now ops s1 \<and> tf_trapno tf = T_IRQ0 + IRQ_TIMER then k_yield ops s1 else s1)
             in if killed_now ops s2 \<and> in_user tf then exit_now ops s2
                else Ok (Left_kernel s2)))"

section \<open>System calls\<close>

text \<open>The table of \<open>syscall.c\<close>: the numbers 1 to 35 of \<open>include/syscall.h\<close>, in order.\<close>

datatype call_name = Sys_fork | Sys_exit | Sys_wait | Sys_pipe | Sys_read | Sys_kill | Sys_exec | Sys_fstat
  | Sys_chdir | Sys_dup | Sys_getpid | Sys_sbrk | Sys_sleep | Sys_uptime | Sys_open | Sys_write | Sys_mknod
  | Sys_unlink | Sys_link | Sys_mkdir | Sys_close | Sys_GUI_createWindow | Sys_GUI_closeWindow
  | Sys_GUI_getMessage | Sys_GUI_updateScreen | Sys_GUI_maximizeWindow | Sys_GUI_minimizeWindow
  | Sys_GUI_turnoffScreen | Sys_GUI_createPopupWindow | Sys_GUI_closePopupWindow | Sys_GUI_getPopupMessage
  | Sys_halt | Sys_reboot | Sys_get_rtc_time | Sys_get_rtc_date

definition syscalls :: "call_name option list" where
  "syscalls = None # map Some
     [Sys_fork, Sys_exit, Sys_wait, Sys_pipe, Sys_read, Sys_kill, Sys_exec, Sys_fstat, Sys_chdir, Sys_dup,
      Sys_getpid, Sys_sbrk, Sys_sleep, Sys_uptime, Sys_open, Sys_write, Sys_mknod, Sys_unlink, Sys_link,
      Sys_mkdir, Sys_close, Sys_GUI_createWindow, Sys_GUI_closeWindow, Sys_GUI_getMessage,
      Sys_GUI_updateScreen, Sys_GUI_maximizeWindow, Sys_GUI_minimizeWindow, Sys_GUI_turnoffScreen,
      Sys_GUI_createPopupWindow, Sys_GUI_closePopupWindow, Sys_GUI_getPopupMessage, Sys_halt, Sys_reboot,
      Sys_get_rtc_time, Sys_get_rtc_date]"

text \<open>\<open>run\<close> runs a call and returns its result, \<open>eax\<close> and \<open>set_eax\<close> access the trap frame of the caller.\<close>

definition syscall :: "(call_name \<Rightarrow> 's \<Rightarrow> (int \<times> 's) kres) \<Rightarrow> ('s \<Rightarrow> uint) \<Rightarrow> (uint \<Rightarrow> 's \<Rightarrow> 's) \<Rightarrow> 's
    \<Rightarrow> 's kres" where
  "syscall run eax set_eax s =
     (let num = sint (eax s) in
      if 0 < num \<and> num < int (length syscalls)
      then case syscalls ! nat num of
          Some f \<Rightarrow> kbind (run f s) (\<lambda>(r, s1). Ok (set_eax (of_int r) s1))
        | None \<Rightarrow> Ok (set_eax (- 1) s)
      else Ok (set_eax (- 1) s))"

section \<open>Calls on processes\<close>

text \<open>Arguments come from the memory of the process, as \<open>uproc\<close>.\<close>

definition sys_kill :: "uproc \<Rightarrow> ptab \<Rightarrow> int \<times> ptab" where
  "sys_kill u t = (case argint 0 u of None \<Rightarrow> (-1, t) | Some pid \<Rightarrow> kill (sint pid) t)"

definition sys_getpid :: "nat \<Rightarrow> psys \<Rightarrow> int" where
  "sys_getpid me s = p_pid (procs (pt s) me)"

definition sys_sbrk :: "klink \<Rightarrow> uproc \<Rightarrow> nat \<Rightarrow> psys \<Rightarrow> (int \<times> psys) kres" where
  "sys_sbrk K u me s =
     (case argint 0 u of
        None \<Rightarrow> Ok (-1, s)
      | Some n \<Rightarrow>
          let addr = sint (p_sz (procs (pt s) me)) in
          kbind (growproc K me (sint n) s) (\<lambda>(r, s1). Ok (if r < 0 then -1 else addr, s1)))"

text \<open>One round of the loop of \<open>sys_sleep\<close> that began at \<open>ticks0\<close>: a result, or \<open>None\<close> to sleep on
  \<open>ticks\<close>.  \<open>ticks - ticks0 < n\<close> compares an unsigned with a signed value, as unsigned.\<close>

definition sleep_round :: "uint \<Rightarrow> uint \<Rightarrow> uint \<Rightarrow> bool \<Rightarrow> int option" where
  "sleep_round n ticks0 ticks killed =
     (if ticks - ticks0 < n then if killed then Some (-1) else None else Some 0)"

definition sys_sleep :: "uproc \<Rightarrow> uint \<Rightarrow> uint \<Rightarrow> bool \<Rightarrow> int option" where
  "sys_sleep u ticks0 ticks killed =
     (case argint 0 u of None \<Rightarrow> Some (-1) | Some n \<Rightarrow> sleep_round n ticks0 ticks killed)"

definition sys_uptime :: "uint \<Rightarrow> int" where
  "sys_uptime ticks = sint ticks"

text \<open>The timer interrupt of CPU 0.\<close>

definition trap_tick :: "uint \<Rightarrow> uint \<times> ptab \<Rightarrow> uint \<times> ptab" where
  "trap_tick chan_ticks = (\<lambda>(ticks, t). (ticks + 1, wakeup (AtAddr chan_ticks) t))"

section \<open>Properties\<close>

text \<open>C29: a killed process never returns to user code.  When a trap returns to user mode (which every system
  call does) no process runs on the CPU or the one that runs has not been killed, although it may
  have been killed before the trap, by the call or the interrupt itself, or while it had yielded the
  CPU; and an exception that user code raises ends in the exit of the process, while the same
  exception in the kernel panics.\<close>

theorem killed_never_resumes:
  assumes mark: "\<And>s. k_myproc ops s \<noteq> None \<Longrightarrow> killed_now ops (k_mark_killed ops s)"
  shows "(trap ops tf s = Ok (Left_kernel s') \<longrightarrow> tf_trapno tf = T_SYSCALL \<or> in_user tf \<longrightarrow> \<not> killed_now ops s') \<and>
    (tf_trapno tf < T_IRQ0 \<longrightarrow> in_user tf \<longrightarrow> k_myproc ops s \<noteq> None \<longrightarrow>
       trap ops tf s = exit_now ops (k_mark_killed ops s)) \<and>
    (tf_trapno tf < T_IRQ0 \<longrightarrow> tf_cs tf AND 3 = 0 \<longrightarrow> trap ops tf s = Panic ''trap'')"
proof (intro conjI impI)
  assume "trap ops tf s = Ok (Left_kernel s')" "tf_trapno tf = T_SYSCALL \<or> in_user tf"
  then show "\<not> killed_now ops s'"
    by (auto simp: trap_def exit_now_def Let_def kres_simps split: if_splits)
next
  assume n: "tf_trapno tf < T_IRQ0"
  then have other: "tf_trapno tf \<noteq> T_SYSCALL" "dispatch ops tf s =
      (if k_myproc ops s = None \<or> tf_cs tf AND 3 = 0 then Panic ''trap'' else Ok (k_mark_killed ops s))"
    by (auto simp: dispatch_def Let_def)
  show "trap ops tf s = exit_now ops (k_mark_killed ops s)" if "in_user tf" "k_myproc ops s \<noteq> None"
  proof -
    from that(2) obtain q where "k_myproc ops s = Some q" by blast
    with that(1) other mark [OF that(2)] show ?thesis by (simp add: trap_def in_user_def)
  qed
  show "trap ops tf s = Panic ''trap''" if "tf_cs tf AND 3 = 0"
    using that other by (simp add: trap_def)
qed

text \<open>A CPU that runs process 1 of the demonstration table; processes are killed while they yield.\<close>

definition demo_ops :: "ptab kernel_ops" where
  "demo_ops = \<lparr>k_myproc = (\<lambda>t. case running t 0 of None \<Rightarrow> None
       | Some p \<Rightarrow> Some (p_killed (procs t p), state_of t p)),
     k_cpuid = 0, k_set_tf = (\<lambda>_ t. t), k_syscall = Ok,
     k_exit = (\<lambda>t. case running t 0 of None \<Rightarrow> Panic ''trap'' | Some p \<Rightarrow> Ok (exit_locked 0 p t)),
     k_yield = mark_killed 1, k_tick = wakeup (AtAddr 0), k_ideintr = id, k_mouseintr = id, k_kbdintr = id,
     k_uartintr = id, k_mark_killed = (\<lambda>t. case running t 0 of None \<Rightarrow> t | Some p \<Rightarrow> mark_killed p t)\<rparr>"

theorem killed_never_resumes_witness:
  "\<exists>t. trap demo_ops (first_trapframe\<lparr>tf_trapno := 64\<rparr>) demo_waiting = Ok (Left_kernel t) \<and>
     \<not> killed_now demo_ops t \<and> running t 0 = Some 1"
proof -
  have r: "running demo_waiting 0 = Some 1" "\<not> p_killed (procs demo_waiting 1)"
    by (simp_all add: demo_waiting_def demo_forked_def proc_ops no_proc_def)
  then have "trap demo_ops (first_trapframe\<lparr>tf_trapno := 64\<rparr>) demo_waiting = Ok (Left_kernel demo_waiting)"
    by (simp add: trap_def killed_now_def demo_ops_def)
  moreover have "\<And>s. k_myproc demo_ops s \<noteq> None \<Longrightarrow> killed_now demo_ops (k_mark_killed demo_ops s)"
    by (auto simp: demo_ops_def killed_now_def mark_killed_def upd_proc_def split: option.splits)
  from killed_never_resumes [where ops = demo_ops, OF this] calculation
  have "\<not> killed_now demo_ops demo_waiting" by (auto simp: demo_ops_def)
  ultimately show ?thesis using r by simp
qed

text \<open>\<open>sleep\<close> waits for the number of clock ticks it is given, also when the counter of ticks wraps
  around, until \<open>2^32\<close> ticks have passed; but a negative number, which is compared as unsigned, makes
  it wait for \<open>2^32\<close> ticks less that number, more than 2 billion.\<close>

theorem sleep_counts_ticks:
  assumes "- (2 ^ 31) \<le> n" "n < 2 ^ 31" "k < 2 ^ 32"
  shows "sleep_round (of_int n) ticks0 (ticks0 + of_nat k) False =
    (if int k < (if 0 \<le> n then n else 2 ^ 32 + n) then None else Some 0)"
proof -
  have n: "uint (of_int n :: uint) = (if 0 \<le> n then n else 2 ^ 32 + n)"
  proof (cases "0 \<le> n")
    case True
    then show ?thesis using assms(2) by (simp add: unsigned_of_int take_bit_int_eq_self)
  next
    case False
    have "n mod 2 ^ 32 = (2 ^ 32 + n) mod 2 ^ 32" by simp
    also have "\<dots> = 2 ^ 32 + n" using False assms(1) by (intro mod_pos_pos_trivial) auto
    finally show ?thesis using False by (simp add: unsigned_of_int take_bit_eq_mod)
  qed
  have k: "uint (of_nat k :: uint) = int k"
    using assms(3) by (simp add: uint_nat unat_of_nat)
  have "ticks0 + of_nat k - ticks0 = (of_nat k :: uint)" by simp
  then show ?thesis by (simp only: sleep_round_def word_less_def n k if_False)
qed

theorem sleep_counts_ticks_witness:
  "sleep_round (of_int 3) 0xFFFFFFFF (0xFFFFFFFF + of_nat 3) False = Some 0 \<and>
   sleep_round (of_int (-1)) 0 (0 + of_nat 1000) False = None"
  using sleep_counts_ticks [of 3 3 "0xFFFFFFFF"] sleep_counts_ticks [of "-1" 1000 0] by simp

end
