(* ===== verification/Input.thy ===== *)
theory Input
  imports WindowManager Spinlock
begin

text \<open>
  Keyboard and mouse: \<open>kernel/kbd.c\<close> with the tables of \<open>include/kbd.h\<close>, and \<open>kernel/mouse.c\<close>.

  Both drivers turn the bytes of the PS/2 controller into messages, which \<open>handleMessage\<close> passes to
  the window manager; here they are returned in the order in which they are sent.  An interrupt
  of the mouse consumes all the bytes that the controller has.  Initialisation of the controller
  (\<open>mouseinit\<close> and its helpers) is port output only and is not modelled.
\<close>

section \<open>Keyboard\<close>

abbreviation SHIFT :: uint where "SHIFT \<equiv> 0x01"
abbreviation CTL :: uint where "CTL \<equiv> 0x02"
abbreviation ALT :: uint where "ALT \<equiv> 0x04"
abbreviation CAPSLOCK :: uint where "CAPSLOCK \<equiv> 0x08"
abbreviation NUMLOCK :: uint where "NUMLOCK \<equiv> 0x10"
abbreviation SCROLLLOCK :: uint where "SCROLLLOCK \<equiv> 0x20"
abbreviation E0ESC :: uint where "E0ESC \<equiv> 0x40"

text \<open>A table given by its first entries and by designated entries; the others are 0.\<close>

definition key_table :: "uchar list \<Rightarrow> (uint \<times> uchar) list \<Rightarrow> uint \<Rightarrow> uchar" where
  "key_table xs ys d =
     (case map_of ys d of Some v \<Rightarrow> v | None \<Rightarrow> if unat d < length xs then xs ! unat d else 0)"

definition shiftcode :: "uint \<Rightarrow> uint" where
  "shiftcode d =
     (if d = 0x1D \<or> d = 0x9D then CTL else if d = 0x2A \<or> d = 0x36 then SHIFT
      else if d = 0x38 \<or> d = 0xB8 then ALT else 0)"

definition togglecode :: "uint \<Rightarrow> uint" where
  "togglecode d =
     (if d = 0x3A then CAPSLOCK else if d = 0x45 then NUMLOCK else if d = 0x46 then SCROLLLOCK else 0)"

definition normalmap :: "uint \<Rightarrow> uchar" where
  "normalmap = key_table
    [0x00, 0x1B, 0x31, 0x32, 0x33, 0x34, 0x35, 0x36, 0x37, 0x38, 0x39, 0x30, 0x2D, 0x3D, 0x08, 0x09,
     0x71, 0x77, 0x65, 0x72, 0x74, 0x79, 0x75, 0x69, 0x6F, 0x70, 0x5B, 0x5D, 0x0A, 0x00, 0x61, 0x73,
     0x64, 0x66, 0x67, 0x68, 0x6A, 0x6B, 0x6C, 0x3B, 0x27, 0x60, 0x00, 0x5C, 0x7A, 0x78, 0x63, 0x76,
     0x62, 0x6E, 0x6D, 0x2C, 0x2E, 0x2F, 0x00, 0x2A, 0x00, 0x20, 0x00, 0x00, 0x00, 0x00, 0x00, 0x00,
     0x00, 0x00, 0x00, 0x00, 0x00, 0x00, 0x00, 0x00, 0x37, 0x38, 0x39, 0x2D, 0x34, 0x35, 0x36, 0x2B,
     0x31, 0x32, 0x33, 0x30, 0x2E, 0x00, 0x00, 0x00, 0x00]
    [(0x9C, 0x0A), (0xB5, 0x2F), (0xC8, 0xE2), (0xD0, 0xE3), (0xC9, 0xE6), (0xD1, 0xE7), (0xCB, 0xE4), (0xCD, 0xE5), (0xC7, 0xE0), (0xCF, 0xE1), (0xD2, 0xE8), (0xD3, 0xE9)]"

definition shiftmap :: "uint \<Rightarrow> uchar" where
  "shiftmap = key_table
    [0x00, 0x1B, 0x21, 0x40, 0x23, 0x24, 0x25, 0x5E, 0x26, 0x2A, 0x28, 0x29, 0x5F, 0x2B, 0x08, 0x09,
     0x51, 0x57, 0x45, 0x52, 0x54, 0x59, 0x55, 0x49, 0x4F, 0x50, 0x7B, 0x7D, 0x0A, 0x00, 0x41, 0x53,
     0x44, 0x46, 0x47, 0x48, 0x4A, 0x4B, 0x4C, 0x3A, 0x22, 0x7E, 0x00, 0x7C, 0x5A, 0x58, 0x43, 0x56,
     0x42, 0x4E, 0x4D, 0x3C, 0x3E, 0x3F, 0x00, 0x2A, 0x00, 0x20, 0x00, 0x00, 0x00, 0x00, 0x00, 0x00,
     0x00, 0x00, 0x00, 0x00, 0x00, 0x00, 0x00, 0x00, 0x37, 0x38, 0x39, 0x2D, 0x34, 0x35, 0x36, 0x2B,
     0x31, 0x32, 0x33, 0x30, 0x2E, 0x00, 0x00, 0x00, 0x00]
    [(0x9C, 0x0A), (0xB5, 0x2F), (0xC8, 0xE2), (0xD0, 0xE3), (0xC9, 0xE6), (0xD1, 0xE7), (0xCB, 0xE4), (0xCD, 0xE5), (0xC7, 0xE0), (0xCF, 0xE1), (0xD2, 0xE8), (0xD3, 0xE9)]"

definition ctlmap :: "uint \<Rightarrow> uchar" where
  "ctlmap = key_table
    [0x00, 0x00, 0x00, 0x00, 0x00, 0x00, 0x00, 0x00, 0x00, 0x00, 0x00, 0x00, 0x00, 0x00, 0x00, 0x00,
     0x11, 0x17, 0x05, 0x12, 0x14, 0x19, 0x15, 0x09, 0x0F, 0x10, 0x00, 0x00, 0x0D, 0x00, 0x01, 0x13,
     0x04, 0x06, 0x07, 0x08, 0x0A, 0x0B, 0x0C, 0x00, 0x00, 0x00, 0x00, 0x1C, 0x1A, 0x18, 0x03, 0x16,
     0x02, 0x0E, 0x0D, 0x00, 0x00, 0xEF, 0x00, 0x00]
    [(0x9C, 0x0D), (0xB5, 0xEF), (0xC8, 0xE2), (0xD0, 0xE3), (0xC9, 0xE6), (0xD1, 0xE7), (0xCB, 0xE4), (0xCD, 0xE5), (0x47, 0xE0), (0xCF, 0xE1), (0xD2, 0xE8), (0xD3, 0xE9)]"

text \<open>The number pad as \<open>include/kbd.h\<close> documents it: the codes \<open>KEY_KP_7\<close> to \<open>KEY_KP_DOT\<close> and the characters
  on the keys.\<close>

definition keypad :: "(uint \<times> uchar) list" where
  "keypad = [(0x47, 0x37), (0x48, 0x38), (0x49, 0x39), (0x4A, 0x2D), (0x4B, 0x34), (0x4C, 0x35), (0x4D, 0x36),
     (0x4E, 0x2B), (0x4F, 0x31), (0x50, 0x32), (0x51, 0x33), (0x52, 0x30), (0x53, 0x2E)]"

definition charcode :: "uint \<Rightarrow> uint \<Rightarrow> uchar" where
  "charcode sel = (if sel = 0 then normalmap else if sel = 1 then shiftmap else ctlmap)"

definition key_msg :: "int \<Rightarrow> uint \<Rightarrow> uint \<Rightarrow> message" where
  "key_msg ty code shift = \<lparr>msg_type = ty, msg_params = [sint code, sint shift]\<rparr>"

text \<open>\<open>kbdgetc\<close> with a byte \<open>data\<close> from the controller: the character returned, the messages sent and the
  new modifier state.  Without data the result is -1.\<close>

definition swap_case :: "uint \<Rightarrow> uint" where
  "swap_case c = (if 0x61 \<le> c \<and> c \<le> 0x7A then c - 0x20 else if 0x41 \<le> c \<and> c \<le> 0x5A then c + 0x20 else c)"

definition kbdgetc :: "uchar option \<Rightarrow> uint \<Rightarrow> int \<times> message list \<times> uint" where
  "kbdgetc inp shift =
     (case inp of
        None \<Rightarrow> (-1, [], shift)
      | Some b \<Rightarrow>
          let data = ucast b :: uint in
          if data = 0xE0 then (0, [], shift OR E0ESC)
          else if data AND 0x80 \<noteq> 0
          then let data1 = (if shift AND E0ESC \<noteq> 0 then data else data AND 0x7F);
                   shift1 = shift AND NOT (shiftcode data1 OR E0ESC)
               in (0, [key_msg 1 (ucast (normalmap data1)) shift1], shift1)
          else let data1 = (if shift AND E0ESC \<noteq> 0 then data OR 0x80 else data);
                   shift1 = (if shift AND E0ESC \<noteq> 0 then shift AND NOT E0ESC else shift);
                   shift2 = (shift1 OR shiftcode data1) XOR togglecode data1;
                   c = ucast (charcode (shift2 AND (CTL OR SHIFT)) data1) :: uint
               in (sint (if shift2 AND CAPSLOCK \<noteq> 0 then swap_case c else c),
                   [key_msg 2 (ucast (normalmap data1)) shift2], shift2))"

definition kbdintr :: "uchar option \<Rightarrow> uint \<Rightarrow> message list \<times> uint" where
  "kbdintr inp shift = snd (kbdgetc inp shift)"

section \<open>Mouse\<close>

record packet =
  x_sgn :: uint
  y_sgn :: uint
  x_mov :: uint
  y_mov :: uint
  l_btn :: uint
  r_btn :: uint
  m_btn :: uint
  x_overflow :: uint
  y_overflow :: uint
  tick :: uint

record mouse =
  pkt :: packet
  count :: int
  recovery :: int
  lastbtn :: uint
  lastdowntick :: uint
  lastclicktick :: uint

definition genMouseUpMessage :: "uint \<Rightarrow> message" where
  "genMouseUpMessage btns = \<lparr>msg_type = 5, msg_params = [sint btns]\<rparr>"

definition sign_extend :: "uint \<Rightarrow> uint \<Rightarrow> uint" where
  "sign_extend sg mov = (if sg \<noteq> 0 then 0xFFFFFF00 OR (mov AND 0xFF) else mov AND 0xFF)"

text \<open>The last branch sends the message on the stack without having set it: \<open>junk\<close> is what the stack
  happens to hold.  \<open>-1000\<close> is stored in a signed variable and compared as unsigned.\<close>

definition genMouseMessage :: "message \<Rightarrow> mouse \<Rightarrow> message list \<times> mouse" where
  "genMouseMessage junk m =
     (let p = pkt m in
      if x_overflow p \<noteq> 0 \<or> y_overflow p \<noteq> 0 then ([], m)
      else
        let x = sign_extend (x_sgn p) (x_mov p);
            y = sign_extend (y_sgn p) (y_mov p);
            m1 = m\<lparr>pkt := p\<lparr>x_mov := x, y_mov := y\<rparr>\<rparr>;
            btns = l_btn p OR push_bit 1 (r_btn p) OR push_bit 2 (m_btn p)
        in if x \<noteq> 0 \<or> y \<noteq> 0
           then ((if btns \<noteq> lastbtn m then [genMouseUpMessage btns] else []) @
                   [\<lparr>msg_type = 3, msg_params = [sint x, sint y, sint btns]\<rparr>],
                 m1\<lparr>lastbtn := btns, lastdowntick := - 1000, lastclicktick := - 1000\<rparr>)
           else if btns \<noteq> 0
           then ([\<lparr>msg_type = 4, msg_params = [sint btns]\<rparr>], m1\<lparr>lastbtn := btns, lastdowntick := tick p\<rparr>)
           else if tick p - lastdowntick m < 30
           then if tick p - lastclicktick m < 60
                then ([\<lparr>msg_type = 8, msg_params = []\<rparr>], m1\<lparr>lastbtn := btns, lastclicktick := - 1000\<rparr>)
                else ([\<lparr>msg_type = (if lastbtn m AND 1 \<noteq> 0 then 6 else 7), msg_params = []\<rparr>],
                      m1\<lparr>lastbtn := btns, lastclicktick := tick p\<rparr>)
           else ([genMouseUpMessage btns, junk], m1\<lparr>lastbtn := btns\<rparr>))"

definition next_recovery :: "uchar \<Rightarrow> int \<Rightarrow> int" where
  "next_recovery d r =
     (if r = 0 \<and> d = 0 then 1 else if r = 1 \<and> d = 0 then 2 else if d = 12 then 0 else -1)"

definition bit_of :: "uchar \<Rightarrow> nat \<Rightarrow> uint" where
  "bit_of d k = ucast (drop_bit k d AND 1)"

definition first_byte :: "uchar \<Rightarrow> packet \<Rightarrow> packet" where
  "first_byte d p = p\<lparr>x_sgn := bit_of d 4, y_sgn := bit_of d 5, l_btn := bit_of d 0, r_btn := bit_of d 1,
     m_btn := bit_of d 2, x_overflow := bit_of d 6, y_overflow := bit_of d 7\<rparr>"

text \<open>One byte of the loop of \<open>mouseintr\<close>.\<close>

definition mouse_byte :: "message \<Rightarrow> uint \<Rightarrow> uchar \<Rightarrow> mouse \<Rightarrow> message list \<times> mouse" where
  "mouse_byte junk now d m =
     (let m1 = m\<lparr>count := count m + 1, recovery := next_recovery d (recovery m)\<rparr>;
          m2 = (if count m1 = 1
                then if d AND 8 \<noteq> 0 then m1\<lparr>pkt := first_byte d (pkt m1)\<rparr> else m1\<lparr>count := 0\<rparr>
                else if count m1 = 2 then m1\<lparr>pkt := (pkt m1)\<lparr>x_mov := ucast d\<rparr>\<rparr>
                else if count m1 = 3 then m1\<lparr>pkt := (pkt m1)\<lparr>y_mov := ucast d, tick := now\<rparr>\<rparr>
                else m1\<lparr>count := 0\<rparr>)
      in if recovery m2 = 2 then ([], m2\<lparr>count := 0, recovery := -1\<rparr>)
         else if count m2 = 3 then genMouseMessage junk (m2\<lparr>count := 0\<rparr>)
         else ([], m2))"

fun mouseintr :: "message \<Rightarrow> uint \<Rightarrow> uchar list \<Rightarrow> mouse \<Rightarrow> message list \<times> mouse" where
  "mouseintr junk now [] m = ([], m)"
| "mouseintr junk now (d # ds) m =
     (case mouse_byte junk now d m of (ms, m1) \<Rightarrow>
        case mouseintr junk now ds m1 of (ms', m2) \<Rightarrow> (ms @ ms', m2))"

section \<open>Properties\<close>

text \<open>Three bytes of which the first can start a packet.\<close>

lemma mouse_three:
  assumes "count m = 0" "b0 AND 8 \<noteq> 0" "(b0, b1, b2) \<noteq> (12, 0, 0)"
  shows "mouseintr junk now [b0, b1, b2] m =
    genMouseMessage junk (m\<lparr>pkt := (first_byte b0 (pkt m))\<lparr>x_mov := ucast b1, y_mov := ucast b2, tick := now\<rparr>,
      count := 0, recovery := next_recovery b2 (next_recovery b1 (next_recovery b0 (recovery m)))\<rparr>)"
proof (cases m)
  case (fields p c r lb ld lc)
  have nz: "b0 \<noteq> 0" using assms(2) by auto
  have r0: "next_recovery b0 q = (if b0 = 12 then 0 else -1)" for q using nz by (simp add: next_recovery_def)
  let ?r1 = "next_recovery b1 (next_recovery b0 r)"
  let ?r2 = "next_recovery b2 ?r1"
  have r1: "next_recovery b0 r \<noteq> 2" "?r1 \<noteq> 2" unfolding r0 by (simp_all add: next_recovery_def)
  have r2: "?r2 \<noteq> 2" using assms(3) nz unfolding r0 by (auto simp: next_recovery_def split: if_splits)
  let ?m = "\<lambda>p c r. \<lparr>pkt = p, count = c, recovery = r, lastbtn = lb, lastdowntick = ld, lastclicktick = lc\<rparr>"
  have m: "m = ?m p 0 r" using fields assms(1) by simp
  have s0: "mouse_byte junk now b0 (?m p 0 r) = ([], ?m (first_byte b0 p) 1 (next_recovery b0 r))"
    using assms(2) r1 by (simp add: mouse_byte_def Let_def)
  have s1: "mouse_byte junk now b1 (?m p 1 (next_recovery b0 r)) = ([], ?m (p\<lparr>x_mov := ucast b1\<rparr>) 2 ?r1)" for p
    using r1 by (simp add: mouse_byte_def Let_def)
  have s2: "mouse_byte junk now b2 (?m p 2 ?r1) =
      genMouseMessage junk (?m (p\<lparr>y_mov := ucast b2, tick := now\<rparr>) 0 ?r2)" for p
    using r2 by (simp add: mouse_byte_def Let_def)
  show ?thesis unfolding m by (simp add: s0 s1 s2 split: prod.splits)
qed

definition mouse_bytes :: "int \<Rightarrow> int \<Rightarrow> bool \<Rightarrow> bool \<Rightarrow> bool \<Rightarrow> uchar list" where
  "mouse_bytes dx dy l r m =
     [of_int (8 + (if l then 1 else 0) + (if r then 2 else 0) + (if m then 4 else 0) +
        (if dx < 0 then 16 else 0) + (if dy < 0 then 32 else 0)), of_int dx, of_int dy]"

definition button_bits :: "bool \<Rightarrow> bool \<Rightarrow> bool \<Rightarrow> int" where
  "button_bits l r m = (if l then 1 else 0) + (if r then 2 else 0) + (if m then 4 else 0)"

lemma sign_extend_byte:
  assumes "- 256 \<le> dx" "dx \<le> 255"
  shows "sign_extend (if dx < 0 then 1 else 0) (ucast (of_int dx :: uchar)) = of_int dx"
proof -
  have b: "(ucast (of_int dx :: uchar) :: uint) AND 0xFF = of_int (dx mod 256)"
  proof -
    have "(ucast (of_int dx :: uchar) :: uint) = of_int (dx mod 256)"
      by (rule word_uint_eqI) (simp add: unsigned_ucast_eq unsigned_of_int take_bit_eq_mod)
    moreover have "(0xFF :: uint) = mask 8" by (simp add: mask_eq_exp_minus_1)
    moreover have "take_bit 8 (of_int (dx mod 256) :: uint) = of_int (dx mod 256)"
    proof -
      have "uint (take_bit 8 (of_int (dx mod 256) :: uint)) = take_bit 8 (take_bit 32 (dx mod 256))"
        by (simp only: unsigned_take_bit_eq unsigned_of_int) simp
      also have "\<dots> = take_bit 32 (dx mod 256)" by (simp add: take_bit_eq_mod)
      also have "\<dots> = uint (of_int (dx mod 256) :: uint)" by (simp only: unsigned_of_int) simp
      finally show ?thesis by (rule word_uint_eqI)
    qed
    ultimately show ?thesis by (simp only: take_bit_eq_mask)
  qed
  show ?thesis
  proof (cases "dx < 0")
    case False
    with b assms show ?thesis by (simp add: sign_extend_def)
  next
    case True
    let ?w = "ucast (of_int dx :: uchar) :: uint"
    have "0xFFFFFF00 AND (?w AND 0xFF) = (0xFFFFFF00 AND 0xFF) AND ?w" by (simp only: ac_simps)
    then have "0xFFFFFF00 AND (?w AND 0xFF) = 0" by simp
    then have "0xFFFFFF00 OR (?w AND 0xFF) = 0xFFFFFF00 + (?w AND 0xFF)" by (rule disjunctive_add_eq_or [symmetric])
    also have "0xFFFFFF00 + (?w AND 0xFF) = of_int dx"
    proof -
      have "dx mod 256 = (dx + 256) mod 256" by simp
      also have "\<dots> = dx + 256" by (rule mod_pos_pos_trivial) (use True assms in auto)
      finally show ?thesis by (simp add: b)
    qed
    finally show ?thesis using True by (simp add: sign_extend_def)
  qed
qed


lemma genMouseMessage_moves:
  fixes q :: mouse
  assumes "x_overflow (pkt q) = 0" "y_overflow (pkt q) = 0"
    "sign_extend (x_sgn (pkt q)) (x_mov (pkt q)) = X" "sign_extend (y_sgn (pkt q)) (y_mov (pkt q)) = Y"
    "l_btn (pkt q) OR push_bit 1 (r_btn (pkt q)) OR push_bit 2 (m_btn (pkt q)) = B"
  shows "X \<noteq> 0 \<or> Y \<noteq> 0 \<Longrightarrow> fst (genMouseMessage junk q) =
      (if B \<noteq> lastbtn q then [\<lparr>msg_type = 5, msg_params = [sint B]\<rparr>] else []) @
      [\<lparr>msg_type = 3, msg_params = [sint X, sint Y, sint B]\<rparr>]"
    and "X = 0 \<Longrightarrow> Y = 0 \<Longrightarrow> B \<noteq> 0 \<Longrightarrow>
      fst (genMouseMessage junk q) = [\<lparr>msg_type = 4, msg_params = [sint B]\<rparr>]"
    and "count (snd (genMouseMessage junk q)) = count q"
  using assms by (simp_all add: genMouseMessage_def Let_def genMouseUpMessage_def)

lemma first_byte_bits:
  fixes l r m sx sy :: bool
  defines "b \<equiv> of_int (8 + (if l then 1 else 0) + (if r then 2 else 0) + (if m then 4 else 0) +
        (if sx then 16 else 0) + (if sy then 32 else 0)) :: uchar"
  shows "b AND 8 \<noteq> 0" "bit_of b 0 = (if l then 1 else 0)" "bit_of b 1 = (if r then 1 else 0)"
    "bit_of b 2 = (if m then 1 else 0)" "bit_of b 4 = (if sx then 1 else 0)" "bit_of b 5 = (if sy then 1 else 0)"
    "bit_of b 6 = 0" "bit_of b 7 = 0"
    "b = 12 \<longleftrightarrow> \<not> l \<and> \<not> r \<and> m \<and> \<not> sx \<and> \<not> sy"
  unfolding b_def by (cases l; cases r; cases m; cases sx; cases sy; simp add: bit_of_def)+

lemma sint_of_small: "- 256 \<le> x \<Longrightarrow> x \<le> 255 \<Longrightarrow> sint (of_int x :: uint) = x"
  by (simp add: signed_of_int signed_take_bit_int_eq_self)

lemma of_int_uint_0: "- 256 \<le> x \<Longrightarrow> x \<le> 255 \<Longrightarrow> (of_int x :: uint) = 0 \<longleftrightarrow> x = 0"
  using sint_of_small [of x] by auto

text \<open>a movement of the mouse between -256 and 255 in each direction, reported with any buttons in the
  three bytes of the PS/2 protocol, reaches the window manager as one movement message with exactly
  these values, after a release message when the buttons have changed; without movement, pressed
  buttons become a press message.  The driver mistakes one packet for a reset of the mouse and drops
  it: a press of the middle button alone (\<open>0x0C 0 0\<close>).\<close>

theorem mouse_roundtrip:
  assumes "count s = 0" "- 256 \<le> dx" "dx \<le> 255" "- 256 \<le> dy" "dy \<le> 255"
  shows "case mouseintr junk now (mouse_bytes dx dy l r m) s of (ms, s') \<Rightarrow>
    count s' = 0 \<and>
    (dx \<noteq> 0 \<or> dy \<noteq> 0 \<longrightarrow>
       ms = (if of_int (button_bits l r m) \<noteq> lastbtn s
               then [\<lparr>msg_type = 5, msg_params = [button_bits l r m]\<rparr>] else []) @
         [\<lparr>msg_type = 3, msg_params = [dx, dy, button_bits l r m]\<rparr>]) \<and>
    (dx = 0 \<and> dy = 0 \<longrightarrow> l \<or> r \<longrightarrow> ms = [\<lparr>msg_type = 4, msg_params = [button_bits l r m]\<rparr>]) \<and>
    (dx = 0 \<and> dy = 0 \<longrightarrow> \<not> l \<and> \<not> r \<and> m \<longrightarrow> ms = [])"
proof (cases "dx = 0 \<and> dy = 0 \<and> \<not> l \<and> \<not> r \<and> m")
  case True
  then have "mouseintr junk now (mouse_bytes dx dy l r m) s = ([], snd (mouseintr junk now [12, 0, 0] s)) \<and>
      count (snd (mouseintr junk now [12, 0, 0] s)) = 0"
    using assms(1) by (simp add: mouse_bytes_def mouse_byte_def next_recovery_def Let_def)
  with True show ?thesis by (auto split: prod.splits)
next
  case False
  define b0 :: uchar where "b0 = of_int (8 + (if l then 1 else 0) + (if r then 2 else 0) + (if m then 4 else 0) +
        (if dx < 0 then 16 else 0) + (if dy < 0 then 32 else 0))"
  note bits = first_byte_bits [of l r m "dx < 0" "dy < 0", folded b0_def]
  have zero: "x = 0" if "(of_int x :: uchar) = 0" "\<not> x < 0" "x \<le> 255" for x
  proof -
    have "x mod 256 = 0" using that(1) by (simp add: word_of_int_eq_0_iff dvd_eq_mod_eq_0)
    then show ?thesis using that(2,3) by presburger
  qed
  have "(b0, of_int dx, of_int dy) \<noteq> (12, 0 :: uchar, 0 :: uchar)"
  proof
    assume "(b0, of_int dx, of_int dy) = (12, 0 :: uchar, 0 :: uchar)"
    then have e: "b0 = 12" "(of_int dx :: uchar) = 0" "(of_int dy :: uchar) = 0" by (simp_all only: prod.inject)
    from e(1) bits(9) have f: "\<not> l \<and> \<not> r \<and> m" "\<not> dx < 0" "\<not> dy < 0" by blast+
    from zero [OF e(2) f(2) assms(3)] zero [OF e(3) f(3) assms(5)] f(1) False show False by blast
  qed
  note three = mouse_three [OF assms(1) bits(1) this, of junk now]
  let ?s = "s\<lparr>pkt := (first_byte b0 (pkt s))\<lparr>x_mov := ucast (of_int dx :: uchar), y_mov := ucast (of_int dy :: uchar),
     tick := now\<rparr>, count := 0,
     recovery := next_recovery (of_int dy) (next_recovery (of_int dx) (next_recovery b0 (recovery s)))\<rparr>"
  have run: "mouseintr junk now (mouse_bytes dx dy l r m) s = genMouseMessage junk ?s"
    using three by (simp add: mouse_bytes_def b0_def)
  have fields: "x_overflow (pkt ?s) = 0" "y_overflow (pkt ?s) = 0"
    "sign_extend (x_sgn (pkt ?s)) (x_mov (pkt ?s)) = of_int dx"
    "sign_extend (y_sgn (pkt ?s)) (y_mov (pkt ?s)) = of_int dy"
    "l_btn (pkt ?s) = (if l then 1 else 0)" "r_btn (pkt ?s) = (if r then 1 else 0)" "m_btn (pkt ?s) = (if m then 1 else 0)"
    "lastbtn ?s = lastbtn s" "count ?s = 0"
    using bits sign_extend_byte [OF assms(2,3)] sign_extend_byte [OF assms(4,5)]
    by (simp_all add: first_byte_def)
  have btns: "l_btn (pkt ?s) OR push_bit 1 (r_btn (pkt ?s)) OR push_bit 2 (m_btn (pkt ?s)) = of_int (button_bits l r m)"
    "sint (of_int (button_bits l r m) :: uint) = button_bits l r m"
    "(of_int (button_bits l r m) :: uint) = 0 \<longleftrightarrow> \<not> l \<and> \<not> r \<and> \<not> m"
    unfolding fields by (cases l; cases r; cases m; simp add: button_bits_def)+
  note gen = genMouseMessage_moves [OF fields(1-4) btns(1), of junk, unfolded fields(8,9) btns(2)]
  have "fst (genMouseMessage junk ?s) = (if of_int (button_bits l r m) \<noteq> lastbtn s
        then [\<lparr>msg_type = 5, msg_params = [button_bits l r m]\<rparr>] else []) @
      [\<lparr>msg_type = 3, msg_params = [dx, dy, button_bits l r m]\<rparr>]" if "dx \<noteq> 0 \<or> dy \<noteq> 0"
    using gen(1) that of_int_uint_0 [OF assms(2,3)] of_int_uint_0 [OF assms(4,5)]
      sint_of_small [OF assms(2,3)] sint_of_small [OF assms(4,5)] by metis
  moreover have "fst (genMouseMessage junk ?s) = [\<lparr>msg_type = 4, msg_params = [button_bits l r m]\<rparr>]"
    if "dx = 0 \<and> dy = 0" "l \<or> r"
    using gen(2) that btns(3) by (metis of_int_0)
  ultimately show ?thesis
    unfolding run split_beta using gen(3) False by blast
qed

definition demo_mouse :: mouse where
  "demo_mouse = \<lparr>pkt = \<lparr>x_sgn = 0, y_sgn = 0, x_mov = 0, y_mov = 0, l_btn = 0, r_btn = 0, m_btn = 0,
       x_overflow = 0, y_overflow = 0, tick = 0\<rparr>,
     count = 0, recovery = 0, lastbtn = 0, lastdowntick = 0, lastclicktick = 0\<rparr>"

theorem mouse_roundtrip_witness:
  "fst (mouseintr \<lparr>msg_type = 0, msg_params = []\<rparr> 7 (mouse_bytes (-3) 200 True False False) demo_mouse) =
     [\<lparr>msg_type = 5, msg_params = [1]\<rparr>, \<lparr>msg_type = 3, msg_params = [-3, 200, 1]\<rparr>]"
  using mouse_roundtrip [where s = demo_mouse and dx = "-3" and dy = 200 and l = True and r = False and m = False
      and junk = "\<lparr>msg_type = 0, msg_params = []\<rparr>" and now = 7]
  by (auto simp: button_bits_def demo_mouse_def split: prod.splits)

text \<open>A button that is released without movement 30 ticks or more after the last press makes the driver send,
  behind the release message, whatever the stack holds.\<close>

lemma slow_release_sends_junk:
  assumes "count s = 0" "lastbtn s = 1" "now - lastdowntick s \<ge> 30"
  shows "fst (mouseintr junk now (mouse_bytes 0 0 False False False) s) = [\<lparr>msg_type = 5, msg_params = [0]\<rparr>, junk]"
proof -
  have "(8 :: uchar) AND 8 \<noteq> 0" by simp
  from mouse_three [OF assms(1) this, of 0 0 junk now] assms show ?thesis
    by (simp add: mouse_bytes_def genMouseMessage_def Let_def first_byte_def bit_of_def sign_extend_def
        genMouseUpMessage_def not_less)
qed

fun kbd_run :: "uchar list \<Rightarrow> uint \<Rightarrow> message list \<times> uint" where
  "kbd_run [] shift = ([], shift)"
| "kbd_run (b # bs) shift =
     (case kbdintr (Some b) shift of (ms, s1) \<Rightarrow> case kbd_run bs s1 of (ms', s2) \<Rightarrow> (ms @ ms', s2))"

text \<open>The bytes the keyboard sends for a key, plain or behind the prefix \<open>0xE0\<close>, and its index in the tables.\<close>

definition make_bytes :: "bool \<Rightarrow> uchar \<Rightarrow> uchar list" where
  "make_bytes e0 d = (if e0 then [0xE0, d] else [d])"

definition break_bytes :: "bool \<Rightarrow> uchar \<Rightarrow> uchar list" where
  "break_bytes e0 d = (if e0 then [0xE0, d OR 0x80] else [d OR 0x80])"

definition key_index :: "bool \<Rightarrow> uchar \<Rightarrow> uint" where
  "key_index e0 d = (if e0 then ucast d OR 0x80 else ucast d)"

lemma modifiers_disjoint: "shiftcode i AND togglecode i = 0" "shiftcode i AND 0x40 = 0" "togglecode i AND 0x40 = 0"
  by (simp_all add: shiftcode_def togglecode_def)

lemma low_byte:
  fixes d :: uchar
  assumes "d < 0x80"
  shows "(ucast d :: uint) \<noteq> 0xE0" "(ucast d :: uint) AND 0x80 = 0"
    "(ucast (d OR 0x80) :: uint) = ucast d OR 0x80" "(ucast d OR 0x80 :: uint) AND 0x7F = ucast d"
    "(ucast d OR 0x80 :: uint) AND 0x80 \<noteq> 0"
proof -
  have u: "unat d < 128" using assms by (simp add: word_less_nat_alt)
  have "take_bit 7 d = d"
    by (rule word_uint_eqI) (use assms in \<open>simp add: unsigned_take_bit_eq take_bit_int_eq_self_iff word_less_def\<close>)
  then have bits: "bit (ucast d :: uint) n \<Longrightarrow> n < 7" for n
    by (metis bit_take_bit_iff bit_ucast_iff)
  have b80: "bit (0x80 :: int) n \<longleftrightarrow> n = 7" for n
    using bit_exp_iff [of 7 n, where 'a = int] by auto
  have b7F: "bit (0x7F :: int) n \<longleftrightarrow> n < 7" for n
    using bit_mask_iff [of 7 n, where 'a = int] by (auto simp: mask_eq_exp_minus_1)
  show "(ucast d :: uint) \<noteq> 0xE0"
  proof
    assume "(ucast d :: uint) = 0xE0"
    then have "unat (ucast d :: uint) = 0xE0" by simp
    then show False using u by (simp add: unsigned_ucast_eq take_bit_eq_mod)
  qed
  show "(ucast d :: uint) AND 0x80 = 0"
    by (rule bit_word_eqI) (auto simp: bit_and_iff b80 dest: bits)
  show "(ucast (d OR 0x80) :: uint) = ucast d OR 0x80"
    by (simp add: unsigned_or_eq)
  show "(ucast d OR 0x80 :: uint) AND 0x7F = ucast d"
    by (rule bit_word_eqI) (auto simp: bit_and_iff bit_or_iff b80 b7F dest: bits)
  have "bit ((ucast d OR 0x80 :: uint) AND 0x80) 7" by (simp add: bit_and_iff bit_or_iff b80)
  then show "(ucast d OR 0x80 :: uint) AND 0x80 \<noteq> 0" by auto
qed


text \<open>Modifier words: \<open>c\<close> the key's modifier, \<open>t\<close> its lock, \<open>e\<close> the pending prefix.\<close>

lemma modifier_bits:
  fixes s c t e :: uint
  assumes "s AND e = 0" "c AND t = 0" "c AND e = 0" "t AND e = 0"
  shows "((s OR c) XOR t) AND e = 0" "(s OR e) AND NOT e = s"
    "((s OR c) XOR t) AND NOT (c OR e) = (s XOR t) AND NOT c"
    "(((s OR c) XOR t) OR e) AND NOT (c OR e) = (s XOR t) AND NOT c"
    "((s XOR t) AND NOT c) AND e = 0"
proof -
  have b: "a AND x = 0 \<Longrightarrow> bit a n \<Longrightarrow> \<not> bit x n" for a x :: uint and n
    by (metis bit_0_eq bit_and_iff bot_apply bot_bool_def)
  note bits = b [OF assms(1)] b [OF assms(2)] b [OF assms(3)] b [OF assms(4)]
  show "((s OR c) XOR t) AND e = 0" "(s OR e) AND NOT e = s"
    "((s OR c) XOR t) AND NOT (c OR e) = (s XOR t) AND NOT c"
    "(((s OR c) XOR t) OR e) AND NOT (c OR e) = (s XOR t) AND NOT c"
    "((s XOR t) AND NOT c) AND e = 0"
    by (rule bit_word_eqI; use bits in \<open>auto simp: bit_and_iff bit_or_iff bit_xor_iff bit_not_iff\<close>)+
qed

lemma prefix_set: "(s OR 0x40 :: uint) AND 0x40 \<noteq> 0"
proof -
  have "(s OR 0x40) AND 0x40 = (0x40 :: uint)" by (simp add: bit.conj_disj_distrib2)
  then show ?thesis by simp
qed

text \<open>pressing and releasing a key gives one key-down and one key-up message with the same code of the
  key, for plain keys and those behind the prefix \<open>0xE0\<close>, and every other modifier is left as it was: a
  shift, control or alt key that is released is off, a lock key has been toggled, and no prefix is
  left pending.\<close>

theorem key_press_release:
  fixes e0 :: bool
  assumes "d < 0x80" "d \<noteq> 0x60" "shift AND E0ESC = 0"
  defines "i \<equiv> key_index e0 d"
  shows "kbd_run (make_bytes e0 d @ break_bytes e0 d) shift =
    ([key_msg 2 (ucast (normalmap i)) ((shift OR shiftcode i) XOR togglecode i),
      key_msg 1 (ucast (normalmap i)) ((shift XOR togglecode i) AND NOT (shiftcode i))],
     (shift XOR togglecode i) AND NOT (shiftcode i)) \<and>
    ((shift XOR togglecode i) AND NOT (shiftcode i)) AND E0ESC = 0"
proof -
  note low = low_byte [OF assms(1)]
  let ?c = "shiftcode i" and ?t = "togglecode i"
  note m = modifier_bits [OF assms(3) modifiers_disjoint [of i]]
  have brk: "(ucast d OR 0x80 :: uint) \<noteq> 0xE0"
  proof
    assume "(ucast d OR 0x80 :: uint) = 0xE0"
    then have "(ucast d :: uint) = 0xE0 AND 0x7F" using low(4) by metis
    then have "unat (ucast d :: uint) = 0x60" by simp
    then have "unat d = 0x60" using unat_uchar_less [of d] by (simp add: unsigned_ucast_eq take_bit_eq_mod)
    then have "d = 0x60" by (intro unsigned_word_eqI) simp
    then show False using assms(2) by simp
  qed
  have key_down: "kbdintr (Some d) s = ([key_msg 2 (ucast (normalmap i)) ((shift OR ?c) XOR ?t)], (shift OR ?c) XOR ?t)"
    if "s = (if e0 then shift OR E0ESC else shift)" for s
    using that low assms(3) m(2) prefix_set [of shift]
    by (simp add: kbdintr_def kbdgetc_def Let_def i_def key_index_def)
  have key_up: "kbdintr (Some (d OR 0x80)) s = ([key_msg 1 (ucast (normalmap i)) ((shift XOR ?t) AND NOT ?c)],
      (shift XOR ?t) AND NOT ?c)"
    if "s = (if e0 then ((shift OR ?c) XOR ?t) OR E0ESC else (shift OR ?c) XOR ?t)" for s
    using that low brk m prefix_set [of "(shift OR ?c) XOR ?t"]
    by (cases e0) (simp_all add: kbdintr_def kbdgetc_def Let_def i_def key_index_def)
  have prefix: "kbdintr (Some 0xE0) s = ([], s OR E0ESC)" for s
    by (simp add: kbdintr_def kbdgetc_def)
  show ?thesis
    using m(5) by (cases e0) (simp_all add: make_bytes_def break_bytes_def key_down key_up prefix)
qed

theorem key_press_release_witness:
  "kbd_run (make_bytes False 0x2A @ break_bytes False 0x2A) 0x08 =
     ([key_msg 2 0 0x09, key_msg 1 0 0x08], 0x08)"
proof -
  have "normalmap 0x2A = 0" by (simp add: normalmap_def key_table_def)
  then show ?thesis using key_press_release [of "0x2A" "0x08" False]
    by (simp add: key_index_def shiftcode_def togglecode_def)
qed

text \<open>with num lock or without, every key of the number pad is reported as the key before it: the tables
  have one empty entry too many before the number pad, so that the character of each key documented
  in \<open>include/kbd.h\<close> stands at the next scan code, and key 7 gives no character.\<close>

theorem number_pad_shifted:
  "list_all (\<lambda>(code, ch). normalmap code \<noteq> ch \<and> shiftmap code \<noteq> ch \<and>
     normalmap (code + 1) = ch \<and> shiftmap (code + 1) = ch) keypad"
  by (simp add: keypad_def normalmap_def shiftmap_def key_table_def)

end
