(* ===== verification/Console.thy ===== *)
theory Console
  imports Prelude Interfaces
begin

text \<open>
  The console, \<open>kernel/console.c\<close>: formatted output, the text screen, and the line discipline with
  which typed characters are edited and handed to readers.

  Characters are bytes; \<open>consputc\<close> also takes the code \<open>BACKSPACE\<close>.  The serial line gets the same
  characters as the screen and is not modelled.  The functions that run under \<open>cons.lock\<close> are
  transitions of the input buffer; \<open>consoleread\<close> releases and takes the lock of its inode around
  the transition, which is the subject of \<open>Fs\<close>.
\<close>

section \<open>Formatted output\<close>

abbreviation BACKSPACE :: uint where "BACKSPACE \<equiv> 0x100"

definition digit_char :: "nat \<Rightarrow> uint" where
  "digit_char d = (if d < 10 then 0x30 + of_nat d else 0x61 + of_nat (d - 10))"

text \<open>The digits in the order in which they are stored in \<open>buf\<close>, lowest first.  The two bases that
  \<open>cprintf\<close> uses are 10 and 16.\<close>

function digit_loop :: "bool \<Rightarrow> uint \<Rightarrow> uint list" where
  "digit_loop hex x =
     (let base = (if hex then 16 else 10); rest = x div base
      in digit_char (unat (x mod base)) # (if rest \<noteq> 0 then digit_loop hex rest else []))"
  by pat_completeness auto
termination
proof (relation "measure (\<lambda>(hex, x). unat x)")
  fix hex and x base rest :: uint
  assume "base = (if hex then 16 else 10)" "rest = x div base" "rest \<noteq> 0"
  moreover from this have "0 < unat x" by (auto simp: unat_gt_0)
  ultimately show "((hex, rest), (hex, x)) \<in> measure (\<lambda>(hex, x). unat x)"
    by (auto simp: unat_div)
qed simp

declare digit_loop.simps [simp del]

text \<open>What \<open>printint\<close> prints, first character first; \<open>- xx\<close> wraps for the smallest number.\<close>

definition printint :: "uint \<Rightarrow> bool \<Rightarrow> bool \<Rightarrow> uint list" where
  "printint xx hex sg =
     (let neg = sg \<and> sint xx < 0; x = (if neg then - xx else xx);
          buf = digit_loop hex x @ (if neg then [0x2D] else [])
      in rev buf)"

text \<open>\<open>argp\<close> gives the words behind the format on the stack, \<open>str_at\<close> the string at an address.\<close>

fun cprintf_loop :: "(uint \<Rightarrow> uint list) \<Rightarrow> (nat \<Rightarrow> uint) \<Rightarrow> uint list \<Rightarrow> nat \<Rightarrow> uint list" where
  "cprintf_loop str_at argp [] k = []"
| "cprintf_loop str_at argp [c] k = (if c = 0x25 then [] else [c])"
| "cprintf_loop str_at argp (c # d # fmt) k =
     (if c \<noteq> 0x25 then c # cprintf_loop str_at argp (d # fmt) k
      else if d = 0x64 then printint (argp k) False True @ cprintf_loop str_at argp fmt (Suc k)
      else if d = 0x78 \<or> d = 0x70 then printint (argp k) True False @ cprintf_loop str_at argp fmt (Suc k)
      else if d = 0x73
      then (if argp k = 0 then [0x28, 0x6E, 0x75, 0x6C, 0x6C, 0x29] else str_at (argp k)) @
             cprintf_loop str_at argp fmt (Suc k)
      else if d = 0x25 then 0x25 # cprintf_loop str_at argp fmt k
      else 0x25 # d # cprintf_loop str_at argp fmt k)"

definition cprintf :: "(uint \<Rightarrow> uint list) \<Rightarrow> (nat \<Rightarrow> uint) \<Rightarrow> uint list option \<Rightarrow> uint list kres" where
  "cprintf str_at argp fmt =
     (case fmt of None \<Rightarrow> Panic ''null fmt'' | Some f \<Rightarrow> Ok (cprintf_loop str_at argp f 0))"

section \<open>The text screen\<close>

record cga =
  pos :: nat
  crt :: "nat \<Rightarrow> ushort"

definition cgaputc :: "uint \<Rightarrow> cga \<Rightarrow> cga kres" where
  "cgaputc c s =
     (let p = pos s;
          s1 = (if c = 0x0A then s\<lparr>pos := p + (80 - p mod 80)\<rparr>
                else if c = BACKSPACE then s\<lparr>pos := p - 1\<rparr>
                else s\<lparr>pos := p + 1, crt := (crt s)(p := ucast (c AND 0xFF) OR 0x0700)\<rparr>)
      in if 25 * 80 < pos s1 then Panic ''pos under/overflow''
         else
           let s2 = (if 24 \<le> pos s1 div 80
                     then let q = pos s1 - 80;
                              up = (\<lambda>i. if i < 23 * 80 then crt s1 (i + 80) else crt s1 i)
                          in s1\<lparr>pos := q, crt := (\<lambda>i. if q \<le> i \<and> i < 24 * 80 then 0 else up i)\<rparr>
                     else s1)
           in Ok (s2\<lparr>crt := (crt s2)(pos s2 := 0x20 OR 0x0700)\<rparr>))"

section \<open>The line discipline\<close>

abbreviation INPUT_BUF :: nat where "INPUT_BUF \<equiv> 128"

record input =
  ibuf :: "nat \<Rightarrow> uchar"
  i_r :: uint
  i_w :: uint
  i_e :: uint

definition islot :: "uint \<Rightarrow> nat" where
  "islot i = unat i mod INPUT_BUF"

text \<open>Erasing a line: the number of backspaces and the buffer.\<close>

function kill_line :: "input \<Rightarrow> nat \<times> input" where
  "kill_line s =
     (if i_e s \<noteq> i_w s \<and> ibuf s (islot (i_e s - 1)) \<noteq> 0x0A
      then case kill_line (s\<lparr>i_e := i_e s - 1\<rparr>) of (n, s1) \<Rightarrow> (Suc n, s1)
      else (0, s))"
  by pat_completeness auto
termination
proof (relation "measure (\<lambda>s. unat (i_e s - i_w s))")
  fix s :: input
  assume "i_e s \<noteq> i_w s \<and> ibuf s (islot (i_e s - 1)) \<noteq> 0x0A"
  then have "i_e s - i_w s \<noteq> 0" by simp
  then have "unat (i_e s - i_w s - 1) < unat (i_e s - i_w s)"
    by (simp add: unat_minus_one unat_eq_zero [symmetric] del: unat_eq_zero)
  then show "(s\<lparr>i_e := i_e s - 1\<rparr>, s) \<in> measure (\<lambda>s. unat (i_e s - i_w s))"
    by (simp add: diff_diff_eq add.commute)
qed simp

declare kill_line.simps [simp del]

text \<open>A character from the keyboard: the new buffer, the characters echoed, whether readers are woken up
  and whether a listing of the processes is wanted.\<close>

definition type_char :: "uint \<Rightarrow> input \<Rightarrow> input \<times> uint list \<times> bool \<times> bool" where
  "type_char c s =
     (if c = 0x10 then (s, [], False, True)
      else if c = 0x15 then (case kill_line s of (n, s1) \<Rightarrow> (s1, replicate n BACKSPACE, False, False))
      else if c = 0x08 \<or> c = 0x7F
      then if i_e s \<noteq> i_w s then (s\<lparr>i_e := i_e s - 1\<rparr>, [BACKSPACE], False, False) else (s, [], False, False)
      else if c \<noteq> 0 \<and> i_e s - i_r s < of_nat INPUT_BUF
      then let c1 = (if c = 0x0D then 0x0A else c);
               s1 = s\<lparr>ibuf := (ibuf s)(islot (i_e s) := ucast c1), i_e := i_e s + 1\<rparr>
           in if c1 = 0x0A \<or> c1 = 0x04 \<or> i_e s1 = i_r s1 + of_nat INPUT_BUF
              then (s1\<lparr>i_w := i_e s1\<rparr>, [c1], True, False)
              else (s1, [c1], False, False)
      else (s, [], False, False))"

text \<open>The characters that \<open>getc\<close> delivers until it returns -1.\<close>

fun consoleintr :: "uint list \<Rightarrow> input \<Rightarrow> input \<times> uint list \<times> bool \<times> bool" where
  "consoleintr [] s = (s, [], False, False)"
| "consoleintr (c # cs) s =
     (case type_char c s of (s1, out1, w1, d1) \<Rightarrow>
        case consoleintr cs s1 of (s2, out2, w2, d2) \<Rightarrow> (s2, out1 @ out2, w1 \<or> w2, d1 \<or> d2))"

text \<open>\<open>consoleread\<close> for \<open>n\<close> more bytes of \<open>target\<close>: it returns the number of bytes, -1 when the reader is
  killed while it waits, or sleeps with \<open>n\<close> bytes still to read.\<close>

datatype read_result = Returned int | Asleep nat

fun consoleread_loop :: "bool \<Rightarrow> nat \<Rightarrow> nat \<Rightarrow> input \<Rightarrow> read_result \<times> uchar list \<times> input" where
  "consoleread_loop killed target 0 s = (Returned (int target), [], s)"
| "consoleread_loop killed target (Suc n) s =
     (if i_r s = i_w s then (if killed then Returned (-1) else Asleep (Suc n), [], s)
      else
        let c = ibuf s (islot (i_r s)); s1 = s\<lparr>i_r := i_r s + 1\<rparr> in
        if c = 0x04
        then (Returned (int target - int (Suc n)), [], if Suc n < target then s else s1)
        else if c = 0x0A then (Returned (int target - int n), [c], s1)
        else case consoleread_loop killed target n s1 of (r, bs, s2) \<Rightarrow> (r, c # bs, s2))"

definition consoleread :: "bool \<Rightarrow> int \<Rightarrow> input \<Rightarrow> read_result \<times> uchar list \<times> input" where
  "consoleread killed n s =
     (if n \<le> 0 then (Returned 0, [], s) else consoleread_loop killed (nat n) (nat n) s)"

definition consolewrite :: "uchar list \<Rightarrow> uint list \<times> int" where
  "consolewrite buf = (map ucast buf, int (length buf))"

section \<open>Numbers are printed so that they read back\<close>

definition digit_val :: "uint \<Rightarrow> nat" where
  "digit_val c = (if c < 0x3A then unat c - 0x30 else unat c - 0x61 + 10)"

definition read_num :: "nat \<Rightarrow> uint list \<Rightarrow> nat" where
  "read_num base cs = foldl (\<lambda>a c. a * base + digit_val c) 0 cs"

lemma digit_val_char: "d < 16 \<Longrightarrow> digit_val (digit_char d) = d"
proof -
  assume "d < 16"
  then have "d = 0 \<or> d = 1 \<or> d = 2 \<or> d = 3 \<or> d = 4 \<or> d = 5 \<or> d = 6 \<or> d = 7 \<or> d = 8 \<or> d = 9 \<or> d = 10 \<or>
      d = 11 \<or> d = 12 \<or> d = 13 \<or> d = 14 \<or> d = 15"
    by presburger
  then show ?thesis by (elim disjE) (simp_all add: digit_val_def digit_char_def)
qed

lemma read_num_snoc: "read_num base (cs @ [c]) = read_num base cs * base + digit_val c"
  by (simp add: read_num_def)

lemma unat_base: "unat (if hex then 16 else 10 :: uint) = (if hex then 16 else 10)"
  by simp

lemma read_digit_loop: "read_num (if hex then 16 else 10) (rev (digit_loop hex x)) = unat x"
proof (induction hex x rule: digit_loop.induct)
  case (1 hex x)
  let ?b = "if hex then 16 else 10 :: uint" and ?n = "if hex then 16 else 10 :: nat"
  have d: "digit_val (digit_char (unat (x mod ?b))) = unat x mod ?n"
    by (subst digit_val_char) (auto simp: unat_mod)
  have q: "unat (x div ?b) = unat x div ?n" by (simp add: unat_div)
  show ?case
  proof (cases "x div ?b = 0")
    case True
    then have "unat x div ?n = 0" using q by simp
    then have "unat x < ?n" by (metis div_eq_0_iff zero_neq_numeral)
    then have "unat x mod ?n = unat x" by (rule mod_less)
    with True d show ?thesis by (subst digit_loop.simps) (simp add: Let_def read_num_def)
  next
    case False
    with 1 have "read_num ?n (rev (digit_loop hex (x div ?b))) = unat x div ?n" by (simp add: q)
    with False d show ?thesis by (subst digit_loop.simps) (simp add: Let_def read_num_snoc)
  qed
qed

lemma length_digit_loop: "unat x < (if hex then 16 else 10) ^ Suc k \<Longrightarrow> length (digit_loop hex x) \<le> Suc k"
proof (induction k arbitrary: x)
  case 0
  then have "x div (if hex then 16 else 10) = 0"
    by (simp add: unat_eq_zero [symmetric] unat_div split: if_splits del: unat_eq_zero)
  then show ?case by (subst digit_loop.simps) simp
next
  case (Suc k)
  have "unat (x div (if hex then 16 else 10)) < (if hex then 16 else 10) ^ Suc k"
    using Suc.prems by (simp add: unat_div less_mult_imp_div_less mult.commute split: if_splits)
  from Suc.IH [OF this] show ?case by (subst digit_loop.simps) (simp add: Let_def)
qed

text \<open>\<open>printint\<close> prints every 32-bit number so that it reads back: a signed decimal as a minus sign for a
  negative number, also the smallest one, and the digits of its absolute value, anything else as the
  digits of the unsigned value; and it never needs more than 11 of the 16 bytes of its buffer.\<close>

theorem printint_reads_back:
  "length (printint x hex sg) \<le> 11 \<and>
   (if sg \<and> sint x < 0
    then \<exists>ds. printint x hex sg = 0x2D # ds \<and> int (read_num (if hex then 16 else 10) ds) = - sint x
    else read_num (if hex then 16 else 10) (printint x hex sg) = unat x)"
proof -
  have len: "length (digit_loop hex y) \<le> 10" for y
    using length_digit_loop [of y hex 9] unat_uint_less [of y] by (cases hex) simp_all
  have "int (unat (- x)) = - sint x" if "sint x < 0"
  proof -
    have "- x = word_of_int (- sint x)" by simp
    then have "uint (- x) = (- sint x) mod 2 ^ LENGTH(32)" by (metis uint_word_of_int)
    then have "uint (- x) = take_bit 32 (- sint x)" by (simp add: take_bit_eq_mod)
    moreover have "- sint x \<le> 2 ^ 31" using sint_greater_eq [of x] by simp
    ultimately have "uint (- x) = - sint x" using that by (simp add: take_bit_int_eq_self_iff)
    then show ?thesis by simp
  qed
  then show ?thesis
    using len [of x] len [of "- x"] read_digit_loop [of hex x] read_digit_loop [of hex "- x"]
    by (cases hex) (simp_all add: printint_def Let_def)
qed


section \<open>The line discipline as two queues\<close>

text \<open>What the buffer means: the characters that readers may take and the line being edited.\<close>

definition cell :: "input \<Rightarrow> nat \<Rightarrow> uchar" where
  "cell s j = ibuf s ((unat (i_r s) + j) mod INPUT_BUF)"

definition holds :: "input \<Rightarrow> uchar list \<times> uchar list \<Rightarrow> bool" where
  "holds s q = (case q of (ready, line) \<Rightarrow>
     i_w s = i_r s + of_nat (length ready) \<and> i_e s = i_r s + of_nat (length ready + length line) \<and>
     length ready + length line \<le> INPUT_BUF \<and>
     ready @ line = map (cell s) [0..<length ready + length line] \<and> 0x0A \<notin> set line)"

definition spec_type :: "uchar \<Rightarrow> uchar list \<times> uchar list \<Rightarrow> uchar list \<times> uchar list" where
  "spec_type c q =
     (case q of (ready, line) \<Rightarrow>
        if c = 0x10 then q
        else if c = 0x15 then (ready, [])
        else if c = 0x08 \<or> c = 0x7F then (ready, butlast line)
        else if c = 0 \<or> length ready + length line = INPUT_BUF then q
        else let c1 = (if c = 0x0D then 0x0A else c) in
          if c1 = 0x0A \<or> c1 = 0x04 \<or> length ready + length line = INPUT_BUF - 1
          then (ready @ line @ [c1], []) else (ready, line @ [c1]))"

fun spec_read :: "bool \<Rightarrow> nat \<Rightarrow> nat \<Rightarrow> uchar list \<Rightarrow> read_result \<times> uchar list \<times> uchar list" where
  "spec_read killed target 0 q = (Returned (int target), [], q)"
| "spec_read killed target (Suc n) [] = (if killed then Returned (-1) else Asleep (Suc n), [], [])"
| "spec_read killed target (Suc n) (c # q) =
     (if c = 0x04 then (Returned (int target - int (Suc n)), [], if Suc n < target then c # q else q)
      else if c = 0x0A then (Returned (int target - int n), [c], q)
      else case spec_read killed target n q of (r, bs, q1) \<Rightarrow> (r, c # bs, q1))"

lemma unat_add_mod128: "unat (a + of_nat n :: uint) mod 128 = (unat a + n) mod 128"
proof -
  have "unat (a + of_nat n) = (unat a + n) mod 2 ^ 32" by (simp add: unat_word_ariths unat_of_nat mod_add_right_eq)
  moreover have "x mod 2 ^ 32 mod 128 = x mod 128" for x :: nat by (rule mod_mod_cancel) simp
  ultimately show ?thesis by simp
qed

lemma of_nat_small_inject: "m \<le> 200 \<Longrightarrow> n \<le> 200 \<Longrightarrow> (of_nat m :: uint) = of_nat n \<longleftrightarrow> m = n"
  by (auto simp: word_of_nat_eq_iff take_bit_eq_mod)

lemma holdsD:
  assumes "holds s (ready, line)"
  shows "i_w s = i_r s + of_nat (length ready)" "i_e s = i_r s + of_nat (length ready + length line)"
    "length ready + length line \<le> 128" "ready @ line = map (cell s) [0..<length ready + length line]" "0x0A \<notin> set line"
  using assms by (auto simp: holds_def)

lemma holds_tests:
  assumes "holds s (ready, line)"
  shows "i_r s = i_w s \<longleftrightarrow> ready = []" "i_e s = i_w s \<longleftrightarrow> line = []"
    "i_e s - i_r s < 128 \<longleftrightarrow> length ready + length line < 128"
    "i_e s + 1 = i_r s + 128 \<longleftrightarrow> length ready + length line = 127"
proof -
  note h = holdsD [OF assms]
  have small: "unat (of_nat (length ready + length line) :: uint) = length ready + length line"
  proof -
    have "unat (of_nat n :: uint) = n" if "n \<le> 128" for n using that by (simp add: unat_of_nat)
    from this [OF h(3)] show ?thesis .
  qed
  show "i_r s = i_w s \<longleftrightarrow> ready = []"
    using h(1,3) of_nat_small_inject [of "length ready" 0] by simp
  show "i_e s = i_w s \<longleftrightarrow> line = []"
    using h(1,2,3) of_nat_small_inject [of "length ready + length line" "length ready"] by simp
  show "i_e s - i_r s < 128 \<longleftrightarrow> length ready + length line < 128"
    using h(2) small by (simp add: word_less_nat_alt)
  show "i_e s + 1 = i_r s + 128 \<longleftrightarrow> length ready + length line = 127"
    using h(2,3) of_nat_small_inject [of "Suc (length ready + length line)" 128] by (simp add: ac_simps)
qed


lemma cell_slot: "i_e s = i_r s + of_nat n \<Longrightarrow> islot (i_e s) = (unat (i_r s) + n) mod 128"
  by (simp add: islot_def unat_add_mod128)

text \<open>Storing the next character, taking back the last one, and handing the line over.\<close>

lemma holds_append:
  assumes "holds s (ready, line)" "length ready + length line < 128" "c \<noteq> 0x0A"
  shows "holds (s\<lparr>ibuf := (ibuf s)(islot (i_e s) := c), i_e := i_e s + 1\<rparr>) (ready, line @ [c])"
proof -
  note h = holdsD [OF assms(1)]
  let ?u = "s\<lparr>ibuf := (ibuf s)(islot (i_e s) := c), i_e := i_e s + 1\<rparr>" and ?n = "length ready + length line"
  have "cell ?u j = cell s j" if "j < ?n" for j
    using that assms(2) mod_add_neq [of j ?n 128 "unat (i_r s)"] by (simp add: cell_def cell_slot [OF h(2)])
  moreover have "cell ?u ?n = c" by (simp add: cell_def cell_slot [OF h(2)])
  ultimately have "ready @ line @ [c] = map (cell ?u) [0..<Suc ?n]"
    using h(4) by (simp add: append_assoc [symmetric] del: append_assoc)
  then show ?thesis using h assms(2,3) by (auto simp: holds_def ac_simps)
qed

lemma holds_commit:
  assumes "holds s (ready, line)"
  shows "holds (s\<lparr>i_w := i_e s\<rparr>) (ready @ line, [])"
proof -
  have "cell (s\<lparr>i_w := i_e s\<rparr>) = cell s" by (simp add: fun_eq_iff cell_def)
  with holdsD [OF assms] show ?thesis by (simp add: holds_def)
qed

text \<open>A new line that is committed at once.\<close>

lemma holds_append_commit:
  assumes "holds s (ready, line)" "length ready + length line < 128"
  shows "holds (s\<lparr>ibuf := (ibuf s)(islot (i_e s) := c), i_e := i_e s + 1, i_w := i_e s + 1\<rparr>) (ready @ line @ [c], [])"
proof -
  note h = holdsD [OF assms(1)]
  let ?u = "s\<lparr>ibuf := (ibuf s)(islot (i_e s) := c), i_e := i_e s + 1, i_w := i_e s + 1\<rparr>"
    and ?n = "length ready + length line"
  have "cell ?u j = cell s j" if "j < ?n" for j
    using that assms(2) mod_add_neq [of j ?n 128 "unat (i_r s)"] by (simp add: cell_def cell_slot [OF h(2)])
  moreover have "cell ?u ?n = c" by (simp add: cell_def cell_slot [OF h(2)])
  ultimately have "ready @ line @ [c] = map (cell ?u) [0..<Suc ?n]"
    using h(4) by (simp add: append_assoc [symmetric] del: append_assoc)
  then show ?thesis using h assms(2) by (auto simp: holds_def ac_simps)
qed

lemma holds_drop_last:
  assumes "holds s (ready, line @ [c])"
  shows "holds (s\<lparr>i_e := i_e s - 1\<rparr>) (ready, line)" "ibuf s (islot (i_e s - 1)) = c" "i_e s \<noteq> i_w s"
proof -
  note h = holdsD [OF assms]
  let ?n = "length ready + length line"
  have e: "i_e s - 1 = i_r s + of_nat ?n" using h(2) by simp
  have "cell (s\<lparr>i_e := i_e s - 1\<rparr>) = cell s" by (simp add: fun_eq_iff cell_def)
  moreover have "ready @ line = map (cell s) [0..<?n]" "c = cell s ?n" using h(4) by simp_all
  ultimately show "holds (s\<lparr>i_e := i_e s - 1\<rparr>) (ready, line)" using h e by (simp add: holds_def)
  have "islot (i_e s - 1) = (unat (i_r s) + ?n) mod 128" unfolding e islot_def by (rule unat_add_mod128)
  with \<open>c = cell s ?n\<close> show "ibuf s (islot (i_e s - 1)) = c" by (simp add: cell_def)
  show "i_e s \<noteq> i_w s" using holds_tests(2) [OF assms] by simp
qed

lemma kill_line_holds:
  "holds s (ready, line) \<Longrightarrow> holds (snd (kill_line s)) (ready, []) \<and> fst (kill_line s) = length line"
proof (induction line arbitrary: s rule: rev_induct)
  case Nil
  then have "i_e s = i_w s" using holds_tests(2) by blast
  with Nil show ?case by (subst (1 2) kill_line.simps) simp
next
  case (snoc c line)
  note d = holds_drop_last [OF snoc.prems]
  have "c \<noteq> 0x0A" using holdsD(5) [OF snoc.prems] by auto
  with snoc.IH [OF d(1)] d(2,3) show ?case
    by (subst (1 2) kill_line.simps) (auto split: prod.splits)
qed

lemma ucast_uchar_inject: "(ucast c :: uint) = ucast d \<longleftrightarrow> c = d" for c d :: uchar
proof
  assume "(ucast c :: uint) = ucast d"
  then have "unat (ucast c :: uint) = unat (ucast d :: uint)" by simp
  then show "c = d"
    using unat_uchar_less [of c] unat_uchar_less [of d]
    by (intro unsigned_word_eqI [where ?'a = nat]) (simp add: unsigned_ucast_eq take_bit_eq_mod)
qed simp

lemma ucast_uchar_is:
  fixes c :: uchar
  shows "(ucast c :: uint) = 0x10 \<longleftrightarrow> c = 0x10" "(ucast c :: uint) = 0x15 \<longleftrightarrow> c = 0x15"
    "(ucast c :: uint) = 0x08 \<longleftrightarrow> c = 0x08" "(ucast c :: uint) = 0x7F \<longleftrightarrow> c = 0x7F"
    "(ucast c :: uint) = 0 \<longleftrightarrow> c = 0" "(ucast c :: uint) = 0x0D \<longleftrightarrow> c = 0x0D"
    "(ucast c :: uint) = 0x0A \<longleftrightarrow> c = 0x0A" "(ucast c :: uint) = 0x04 \<longleftrightarrow> c = 0x04"
  using ucast_uchar_inject [of c "0x10"] ucast_uchar_inject [of c "0x15"] ucast_uchar_inject [of c "0x08"]
    ucast_uchar_inject [of c "0x7F"] ucast_uchar_inject [of c 0] ucast_uchar_inject [of c "0x0D"]
    ucast_uchar_inject [of c "0x0A"] ucast_uchar_inject [of c "0x04"]
  by simp_all

lemma type_char_holds:
  assumes "holds s q"
  shows "holds (fst (type_char (ucast c) s)) (spec_type c q)"
proof -
  obtain ready line where q: "q = (ready, line)" by (cases q)
  note h = assms [unfolded q] and t = holds_tests [OF assms [unfolded q]]
  consider (list) "c = 0x10" | (erase) "c = 0x15" | (bksp) "c = 0x08 \<or> c = 0x7F"
    | (plain) "c \<notin> {0x10, 0x15, 0x08, 0x7F}" by blast
  then show ?thesis
  proof cases
    case list
    with assms show ?thesis by (simp add: type_char_def spec_type_def q ucast_uchar_is)
  next
    case erase
    with kill_line_holds [OF h] show ?thesis
      by (auto simp: type_char_def spec_type_def q ucast_uchar_is split: prod.splits)
  next
    case bksp
    then have impl: "fst (type_char (ucast c) s) = (if i_e s \<noteq> i_w s then s\<lparr>i_e := i_e s - 1\<rparr> else s)"
      and spec: "spec_type c q = (ready, butlast line)"
      by (auto simp: type_char_def spec_type_def q ucast_uchar_is)
    show ?thesis
    proof (cases line rule: rev_cases)
      case Nil
      then show ?thesis unfolding impl spec using h t(2) by simp
    next
      case (snoc l b)
      then show ?thesis unfolding impl spec using holds_drop_last [of s ready l b] h by simp
    qed
  next
    case plain
    let ?full = "length ready + length line = 128"
    show ?thesis
    proof (cases "c = 0 \<or> ?full")
      case True
      with plain h t show ?thesis by (auto simp: type_char_def spec_type_def q ucast_uchar_is)
    next
      case False
      then have room: "length ready + length line < 128" using holdsD(3) [OF h] by simp
      define c1 :: uchar where "c1 = (if c = 0x0D then 0x0A else c)"
      have c1: "(if (ucast c :: uint) = 0x0D then 0x0A else ucast c) = (ucast c1 :: uint)"
        by (simp add: c1_def ucast_uchar_is)
      have spec: "spec_type c q = (if c1 = 0x0A \<or> c1 = 0x04 \<or> length ready + length line = 127
          then (ready @ line @ [c1], []) else (ready, line @ [c1]))"
        using plain False by (simp add: spec_type_def q c1_def Let_def)
      let ?s1 = "s\<lparr>ibuf := (ibuf s)(islot (i_e s) := c1), i_e := i_e s + 1\<rparr>"
      have same: "(ucast (ucast c1 :: uint) :: uchar) = c1"
        by (rule bit_word_eqI) (simp add: bit_ucast_iff)
      have impl: "fst (type_char (ucast c) s) =
          (if c1 = 0x0A \<or> c1 = 0x04 \<or> length ready + length line = 127 then ?s1\<lparr>i_w := i_e s + 1\<rparr> else ?s1)"
        using plain False room t(3,4)
        by (simp add: type_char_def ucast_uchar_is(1-5) c1 Let_def) (simp add: ucast_uchar_is same)
      show ?thesis
        unfolding spec impl using holds_append_commit [OF h room, of c1] holds_append [OF h room, of c1]
        by (simp split: if_splits)
    qed
  qed
qed

lemma holds_take:
  assumes "holds s (c # ready, line)"
  shows "ibuf s (islot (i_r s)) = c" "holds (s\<lparr>i_r := i_r s + 1\<rparr>) (ready, line)"
proof -
  note h = holdsD [OF assms]
  let ?n = "length ready + length line"
  have cells: "c # ready @ line = map (cell s) [0..<Suc ?n]" using h(4) by simp
  then show "ibuf s (islot (i_r s)) = c"
    by (simp add: upt_conv_Cons cell_def islot_def del: upt_Suc)
  have "cell (s\<lparr>i_r := i_r s + 1\<rparr>) j = cell s (Suc j)" for j
  proof -
    have "(unat (i_r s + 1) + j) mod 128 = (unat (i_r s + 1) mod 128 + j) mod 128" by (simp add: mod_add_left_eq)
    also have "\<dots> = (unat (i_r s) + 1 + j) mod 128" using unat_add_mod128 [of "i_r s" 1] by (simp add: mod_add_left_eq)
    finally show ?thesis by (simp add: cell_def)
  qed
  then have "ready @ line = map (cell (s\<lparr>i_r := i_r s + 1\<rparr>)) [0..<?n]"
    using cells by (simp add: upt_conv_Cons map_Suc_upt [symmetric] comp_def del: upt_Suc)
  with h show "holds (s\<lparr>i_r := i_r s + 1\<rparr>) (ready, line)" by (simp add: holds_def ac_simps)
qed

lemma read_holds:
  assumes "holds s (ready, line)" "consoleread_loop killed target n s = (r, bs, s')"
  shows "\<exists>ready'. spec_read killed target n ready = (r, bs, ready') \<and> holds s' (ready', line)"
  using assms
proof (induction n arbitrary: s ready r bs s')
  case 0
  then show ?case by auto
next
  case (Suc n)
  show ?case
  proof (cases ready)
    case Nil
    with Suc.prems holds_tests(1) [OF Suc.prems(1)] show ?thesis by auto
  next
    case (Cons c q)
    note tk = holds_take [OF Suc.prems(1) [unfolded Cons]]
    have ne: "i_r s \<noteq> i_w s" using holds_tests(1) [OF Suc.prems(1)] Cons by simp
    obtain r1 bs1 s1 where l: "consoleread_loop killed target n (s\<lparr>i_r := i_r s + 1\<rparr>) = (r1, bs1, s1)"
      by (metis prod_cases3)
    from Suc.IH [OF tk(2) l] show ?thesis
      using Suc.prems ne tk l Cons by (auto simp: Let_def split: if_splits)
  qed
qed


text \<open>Histories of typing and reading, on the buffer and on the two queues; a reader gets its result and
  its bytes.\<close>

datatype con_op = Type uchar | Read bool nat

fun con_run :: "con_op list \<Rightarrow> input \<Rightarrow> (read_result \<times> uchar list) list \<times> input" where
  "con_run [] s = ([], s)"
| "con_run (Type c # ops) s = con_run ops (fst (consoleintr [ucast c] s))"
| "con_run (Read killed n # ops) s =
     (case consoleread killed (int n) s of (r, bs, s1) \<Rightarrow> case con_run ops s1 of (out, s2) \<Rightarrow> ((r, bs) # out, s2))"

fun spec_run :: "con_op list \<Rightarrow> uchar list \<times> uchar list
    \<Rightarrow> (read_result \<times> uchar list) list \<times> uchar list \<times> uchar list" where
  "spec_run [] q = ([], q)"
| "spec_run (Type c # ops) q = spec_run ops (spec_type c q)"
| "spec_run (Read killed n # ops) q =
     (case spec_read killed n n (fst q) of (r, bs, ready) \<Rightarrow>
        case spec_run ops (ready, snd q) of (out, q1) \<Rightarrow> ((r, bs) # out, q1))"

lemma con_run_holds:
  "holds s q \<Longrightarrow> fst (con_run ops s) = fst (spec_run ops q) \<and> holds (snd (con_run ops s)) (snd (spec_run ops q))"
proof (induction ops arbitrary: s q)
  case Nil
  then show ?case by simp
next
  case (Cons op ops)
  obtain ready line where q: "q = (ready, line)" by (cases q)
  show ?case
  proof (cases op)
    case (Type c)
    have "fst (consoleintr [ucast c] s) = fst (type_char (ucast c) s)" by (simp split: prod.splits)
    with Type Cons.IH [OF type_char_holds [OF Cons.prems]] show ?thesis by simp
  next
    case (Read killed n)
    obtain r bs s1 where l: "consoleread_loop killed n n s = (r, bs, s1)" by (metis prod_cases3)
    from read_holds [OF Cons.prems [unfolded q] l] obtain ready1
      where r: "spec_read killed n n ready = (r, bs, ready1)" "holds s1 (ready1, line)" by blast
    have "consoleread killed (int n) s = (r, bs, s1)" using l by (cases "n = 0") (simp_all add: consoleread_def)
    with Read r Cons.IH [OF r(2)] show ?thesis by (auto simp: q split: prod.splits)
  qed
qed

text \<open>C18: the console buffer, a ring of 128 bytes with three counters that wrap around at \<open>2^32\<close>, behaves as
  two queues: characters are added to the line being edited, erased from its end, and handed to the
  readers when the line ends or the buffer is full; readers get them in order, at most one line at a
  time, and an end-of-file character ends a read.  Whatever is typed and read, in any order and from
  any position of the empty buffer, the readers get the same bytes and results from both.\<close>

theorem console_refines_queues:
  "fst (con_run ops \<lparr>ibuf = b, i_r = i, i_w = i, i_e = i\<rparr>) = fst (spec_run ops ([], []))"
proof -
  have "holds \<lparr>ibuf = b, i_r = i, i_w = i, i_e = i\<rparr> ([], [])" by (simp add: holds_def)
  then show ?thesis using con_run_holds by blast
qed

end
