(* ===== verification/Exec.thy ===== *)
theory Exec
  imports ProcCalls
begin

text \<open>
  Running a program: \<open>kernel/exec.c\<close>, \<open>loaduvm\<close> of \<open>kernel/vm.c\<close> and \<open>sys_exec\<close> of
  \<open>kernel/sysfile.c\<close>.

  The new memory is built in page tables of its own and the process is changed last, so that a
  failure at any point leaves it as it was.  Headers are parsed from the bytes that \<open>readi\<close>
  returns, at the offsets of the structures of \<open>include/elf.h\<close>.  \<open>argv\<close> is a list of strings
  without their terminating zero; the fetching of the arguments from user memory precedes the call.
\<close>

abbreviation ELF_MAGIC :: uint where "ELF_MAGIC \<equiv> 0x464C457F"
abbreviation ELF_PROG_LOAD :: uint where "ELF_PROG_LOAD \<equiv> 1"
abbreviation MAXARG :: nat where "MAXARG \<equiv> 32"

section \<open>Headers\<close>

record elfhdr =
  eh_magic :: uint
  eh_entry :: uint
  eh_phoff :: uint
  eh_phnum :: ushort

definition elfhdr_of :: "uchar list \<Rightarrow> elfhdr" where
  "elfhdr_of bs = \<lparr>eh_magic = get32 (nth bs) 0, eh_entry = get32 (nth bs) 24, eh_phoff = get32 (nth bs) 28,
     eh_phnum = get16 (nth bs) 44\<rparr>"

record proghdr =
  ph_type :: uint
  ph_off :: uint
  ph_vaddr :: uint
  ph_filesz :: uint
  ph_memsz :: uint

definition proghdr_of :: "uchar list \<Rightarrow> proghdr" where
  "proghdr_of bs = \<lparr>ph_type = get32 (nth bs) 0, ph_off = get32 (nth bs) 4, ph_vaddr = get32 (nth bs) 8,
     ph_filesz = get32 (nth bs) 16, ph_memsz = get32 (nth bs) 20\<rparr>"

section \<open>Loading\<close>

text \<open>The loop of \<open>loaduvm\<close> from \<open>i\<close>; \<open>False\<close> is the result -1.\<close>

function load_loop :: "uint \<Rightarrow> uint \<Rightarrow> nat \<Rightarrow> uint \<Rightarrow> uint \<Rightarrow> nat \<Rightarrow> psys \<Rightarrow> (bool \<times> psys) kres" where
  "load_loop pgdir addr ip off sz i s =
     (if unat sz \<le> i then Ok (True, s)
      else case walkpgdir pgdir (addr + of_nat i) False (kmm s) of (pte, _) \<Rightarrow>
        if pte = 0 then Panic ''loaduvm: address should exist''
        else
          let pa = PTE_ADDR (load pte (kmm s));
              n = (if sz - of_nat i < PGSIZE then sz - of_nat i else PGSIZE)
          in case readi ip (off + of_nat i) n s of
              Ok (r, bs, s1) \<Rightarrow>
                let s2 = s1\<lparr>kmm := put_bytes_at (P2V pa) bs (kmm s1)\<rparr> in
                if r \<noteq> int (unat n) then Ok (False, s2) else load_loop pgdir addr ip off sz (i + 4096) s2
            | Panic m \<Rightarrow> Panic m
            | Blocked c \<Rightarrow> Blocked c)"
  by pat_completeness auto
termination
  by (relation "measure (\<lambda>(pgdir, addr, ip, off, sz, i, s). unat sz - i)") auto

declare load_loop.simps [simp del]

definition loaduvm :: "uint \<Rightarrow> uint \<Rightarrow> nat \<Rightarrow> uint \<Rightarrow> uint \<Rightarrow> psys \<Rightarrow> (bool \<times> psys) kres" where
  "loaduvm pgdir addr ip off sz s =
     (if addr mod PGSIZE \<noteq> 0 then Panic ''loaduvm: addr must be page aligned''
      else load_loop pgdir addr ip off sz 0 s)"

text \<open>The program headers from \<open>off\<close>, \<open>n\<close> of them: the new size, or \<open>None\<close> for the jump to \<open>bad\<close>.\<close>

fun load_segments :: "klink \<Rightarrow> uint \<Rightarrow> nat \<Rightarrow> nat \<Rightarrow> uint \<Rightarrow> uint \<Rightarrow> psys \<Rightarrow> (uint option \<times> psys) kres" where
  "load_segments K pgdir ip 0 off sz s = Ok (Some sz, s)"
| "load_segments K pgdir ip (Suc n) off sz s =
     kbind (readi ip off 32 s) (\<lambda>(r, bs, s1).
       let ph = proghdr_of bs in
       if r \<noteq> 32 then Ok (None, s1)
       else if ph_type ph \<noteq> ELF_PROG_LOAD then load_segments K pgdir ip n (off + 32) sz s1
       else if ph_memsz ph < ph_filesz ph then Ok (None, s1)
       else if ph_vaddr ph + ph_memsz ph < ph_vaddr ph then Ok (None, s1)
       else kbind (allocuvm (l_end K) pgdir sz (ph_vaddr ph + ph_memsz ph) (kmm s1)) (\<lambda>(sz1, k).
         let s2 = s1\<lparr>kmm := k\<rparr> in
         if sz1 = 0 then Ok (None, s2)
         else if ph_vaddr ph mod PGSIZE \<noteq> 0 then Ok (None, s2)
         else kbind (loaduvm pgdir (ph_vaddr ph) ip (ph_off ph) (ph_filesz ph) s2) (\<lambda>(ok, s3).
           if ok then load_segments K pgdir ip n (off + 32) sz1 s3 else Ok (None, s3))))"

text \<open>Pushing the argument strings: the stack pointer and the addresses, first argument first.\<close>

fun push_args :: "uint \<Rightarrow> uchar list list \<Rightarrow> nat \<Rightarrow> uint \<Rightarrow> uint list \<Rightarrow> kmem \<Rightarrow> (uint \<times> uint list) option \<times> kmem" where
  "push_args pgdir [] argc sp addrs k = (Some (sp, addrs), k)"
| "push_args pgdir (a # as) argc sp addrs k =
     (if MAXARG \<le> argc then (None, k)
      else
        let sp1 = (sp - (of_nat (length a) + 1)) AND NOT 3 in
        case copyout pgdir sp1 (a @ [0]) k of (r, k1) \<Rightarrow>
          if r < 0 then (None, k1) else push_args pgdir as (Suc argc) sp1 (addrs @ [sp1]) k1)"

text \<open>The words above the arguments: fake return address, \<open>argc\<close>, \<open>argv\<close>, the addresses, 0.\<close>

definition ustack_of :: "uint \<Rightarrow> uint list \<Rightarrow> uint list" where
  "ustack_of sp addrs =
     [0xFFFFFFFF, of_nat (length addrs), sp - (of_nat (length addrs) + 1) * 4] @ addrs @ [0]"

fun after_slash :: "uchar list \<Rightarrow> uchar list \<Rightarrow> uchar list" where
  "after_slash lst [] = lst"
| "after_slash lst (c # cs) = after_slash (if c = 0x2F then cs else lst) cs"

definition byte_chars :: "uchar list \<Rightarrow> string" where
  "byte_chars bs = map (\<lambda>b. char_of (unat b)) bs"

section \<open>The call\<close>

definition exec_bad :: "klink \<Rightarrow> int \<Rightarrow> uint \<Rightarrow> nat option \<Rightarrow> psys \<Rightarrow> (int \<times> psys) kres" where
  "exec_bad K pid pgdir ipo s =
     kbind (if pgdir \<noteq> 0 then freevm (l_end K) pgdir (kmm s) else Ok (kmm s)) (\<lambda>k.
       let s1 = s\<lparr>kmm := k\<rparr> in
       case ipo of
         None \<Rightarrow> Ok (-1, s1)
       | Some ip \<Rightarrow> kbind (iunlockput pid ip s1) (\<lambda>s2. kbind (end_op s2) (\<lambda>s3. Ok (-1, s3))))"

text \<open>From the loaded image to the end.\<close>

definition exec_stack :: "klink \<Rightarrow> nat \<Rightarrow> uchar list \<Rightarrow> uchar list list \<Rightarrow> uint \<Rightarrow> uint \<Rightarrow> uint \<Rightarrow> psys
    \<Rightarrow> (int \<times> psys) kres" where
  "exec_stack K me path argv pgdir entry sz0 s =
     (let sz1 = PGROUNDUP sz0; pid = p_pid (procs (pt s) me) in
      kbind (allocuvm (l_end K) pgdir sz1 (sz1 + 2 * PGSIZE) (kmm s)) (\<lambda>(sz, k).
        if sz = 0 then exec_bad K pid pgdir None (s\<lparr>kmm := k\<rparr>)
        else kbind (clearpteu pgdir (sz - 2 * PGSIZE) k) (\<lambda>k1.
          case push_args pgdir argv 0 sz [] k1 of
            (None, k2) \<Rightarrow> exec_bad K pid pgdir None (s\<lparr>kmm := k2\<rparr>)
          | (Some (sp, addrs), k2) \<Rightarrow>
              let sp1 = sp - (3 + of_nat (length addrs) + 1) * 4 in
              (case copyout pgdir sp1 (concat (map le32 (ustack_of sp addrs))) k2 of (r, k3) \<Rightarrow>
                 if r < 0 then exec_bad K pid pgdir None (s\<lparr>kmm := k3\<rparr>)
                 else
                   let old = p_pgdir (procs (pt s) me);
                       s1 = put_proc me (\<lambda>p. p\<lparr>p_sz := sz, p_pgdir := pgdir,
                              p_tf := (p_tf p)\<lparr>tf_eip := entry, tf_esp := sp1\<rparr>,
                              p_name := take 15 (byte_chars (after_slash path path))\<rparr>) (s\<lparr>kmm := k3\<rparr>)
                   in kbind (freevm (l_end K) old (kmm s1)) (\<lambda>k4. Ok (0, s1\<lparr>kmm := k4\<rparr>))))))"

text \<open>From the open file to the end.\<close>

definition exec_file :: "klink \<Rightarrow> nat \<Rightarrow> uchar list \<Rightarrow> uchar list list \<Rightarrow> int \<Rightarrow> nat \<Rightarrow> psys \<Rightarrow> (int \<times> psys) kres" where
  "exec_file K me path argv pid ip s =
     kbind (ilock pid ip s) (\<lambda>s3.
     kbind (readi ip 0 52 s3) (\<lambda>(r, bs, s4).
       let elf = elfhdr_of bs in
       if r \<noteq> 52 \<or> eh_magic elf \<noteq> ELF_MAGIC then exec_bad K pid 0 (Some ip) s4
       else kbind (setupkvm (l_end K) (l_data K) (kmm s4)) (\<lambda>(pgdir, k).
         let s5 = s4\<lparr>kmm := k\<rparr> in
         if pgdir = 0 then exec_bad K pid 0 (Some ip) s5
         else kbind (load_segments K pgdir ip (unat (eh_phnum elf)) (eh_phoff elf) 0 s5) (\<lambda>(szo, s6).
           case szo of
             None \<Rightarrow> exec_bad K pid pgdir (Some ip) s6
           | Some sz \<Rightarrow>
               kbind (iunlockput pid ip s6) (\<lambda>s7.
               kbind (end_op s7) (\<lambda>s8.
                 exec_stack K me path argv pgdir (eh_entry elf) sz s8))))))"

definition exec :: "klink \<Rightarrow> nat \<Rightarrow> uchar list \<Rightarrow> uchar list list \<Rightarrow> psys \<Rightarrow> (int \<times> psys) kres" where
  "exec K me path argv s =
     (let p = procs (pt s) me; pid = p_pid p in
      case p_cwd p of
        None \<Rightarrow> Panic ''trap''
      | Some cwd \<Rightarrow>
          kbind (begin_op s) (\<lambda>s1.
          kbind (namei pid cwd path s1) (\<lambda>(ipo, s2).
            case ipo of
              None \<Rightarrow> kbind (end_op s2) (\<lambda>s3. Ok (-1, s3))
            | Some ip \<Rightarrow> exec_file K me path argv pid ip s2)))"

text \<open>\<open>sys_exec\<close>: the path and the strings at the addresses in the array at \<open>uargv\<close>, which ends with 0 and has
  fewer than \<open>MAXARG\<close> entries.\<close>

fun fetch_argv :: "uint \<Rightarrow> nat \<Rightarrow> nat \<Rightarrow> uproc \<Rightarrow> uchar list list option" where
  "fetch_argv uargv i 0 u = None"
| "fetch_argv uargv i (Suc k) u =
     (case fetchint (uargv + 4 * of_nat i) u of
        None \<Rightarrow> None
      | Some uarg \<Rightarrow>
          if uarg = 0 then Some []
          else case fetchstr uarg u of
              None \<Rightarrow> None
            | Some len \<Rightarrow> map_option (\<lambda>as. user_bytes uarg len u # as) (fetch_argv uargv (Suc i) k u))"

definition sys_exec :: "klink \<Rightarrow> uproc \<Rightarrow> nat \<Rightarrow> psys \<Rightarrow> (int \<times> psys) kres" where
  "sys_exec K u me s =
     (case (argstr 0 u, argint 1 u) of
        (Some path, Some uargv) \<Rightarrow>
          (case fetch_argv uargv 0 MAXARG u of
             None \<Rightarrow> Ok (-1, s)
           | Some argv \<Rightarrow> exec K me path argv s)
      | _ \<Rightarrow> Ok (-1, s))"

section \<open>What a call of exec changes\<close>

text \<open>Loading touches the disk, the inode cache and memory, but no process and no open file.\<close>

lemma pt_same_mem: "pt_same t ft s \<Longrightarrow> pt_same t ft (s\<lparr>kmm := k\<rparr>)"
  by (simp add: pt_same_def)

lemma keep_load_loop: "pt_same t ft s \<Longrightarrow> keep (pt_same t ft) (load_loop pgdir addr ip off sz i s)"
proof (induction pgdir addr ip off sz i s rule: load_loop.induct)
  case (1 pgdir addr ip off sz i s)
  show ?case
  proof (cases "unat sz \<le> i")
    case True
    then show ?thesis using 1(2) by (subst load_loop.simps) (simp add: keep_def)
  next
    case False
    obtain pte k0 where w: "walkpgdir pgdir (addr + of_nat i) False (kmm s) = (pte, k0)" by fastforce
    let ?n = "if sz - of_nat i < PGSIZE then sz - of_nat i else PGSIZE"
    show ?thesis
    proof (cases "readi ip (off + of_nat i) ?n s")
      case (Ok q)
      obtain r bs s1 where q: "q = (r, bs, s1)" by (cases q) auto
      have s1: "pt_same t ft s1"
        using pt_frame.keep_readi [OF 1(2)] Ok q unfolding keep3_def by blast
      show ?thesis
        using False w Ok q s1 1(1) by (subst load_loop.simps) (auto simp: keep_def Let_def pt_same_mem)
    qed (use False w in \<open>subst load_loop.simps; simp add: keep_def Let_def\<close>)+
  qed
qed

lemma keep_loaduvm: "pt_same t ft s \<Longrightarrow> keep (pt_same t ft) (loaduvm pgdir addr ip off sz s)"
  unfolding loaduvm_def by (rule keep_rules keep_load_loop | assumption)+

lemma keep_load_segments:
  "pt_same t ft s \<Longrightarrow> keep (pt_same t ft) (load_segments K pgdir ip n off sz s)"
proof (induction n arbitrary: off sz s)
  case 0
  then show ?case by (simp add: keep_def)
next
  case (Suc n)
  show ?case
    unfolding load_segments.simps Let_def
    by (rule keep_bind3 [OF pt_frame.keep_readi [OF Suc.prems]] keep_rules keep_bind_val keep_loaduvm pt_same_mem Suc.IH
        keep_bind [where d = "loaduvm pgdir vaddr ip poff fsz s2" for vaddr poff fsz s2] | assumption)+
qed

text \<open>\<open>ends Q c\<close>: whenever \<open>c\<close> returns, its result and final state satisfy \<open>Q\<close>.\<close>

definition ends :: "('v \<Rightarrow> 's \<Rightarrow> bool) \<Rightarrow> ('v \<times> 's) kres \<Rightarrow> bool" where
  "ends Q c \<longleftrightarrow> (\<forall>v s'. c = Ok (v, s') \<longrightarrow> Q v s')"

lemma ends_Ok: "Q v s \<Longrightarrow> ends Q (Ok (v, s))"
  and ends_Panic: "ends Q (Panic m)"
  and ends_if: "(b \<Longrightarrow> ends Q c1) \<Longrightarrow> (\<not> b \<Longrightarrow> ends Q c2) \<Longrightarrow> ends Q (if b then c1 else c2)"
  and ends_option: "(q = None \<Longrightarrow> ends Q c1) \<Longrightarrow> (\<And>x. q = Some x \<Longrightarrow> ends Q (h x)) \<Longrightarrow>
    ends Q (case q of None \<Rightarrow> c1 | Some x \<Rightarrow> h x)"
  and ends_prod: "(\<And>x y. p = (x, y) \<Longrightarrow> ends Q (g x y)) \<Longrightarrow> ends Q (case p of (x, y) \<Rightarrow> g x y)"
  and ends_bind1: "keep1 I c \<Longrightarrow> (\<And>s'. I s' \<Longrightarrow> ends Q (f1 s')) \<Longrightarrow> ends Q (kbind c f1)"
  and ends_bind: "keep I d \<Longrightarrow> (\<And>x s'. I s' \<Longrightarrow> ends Q (f2 x s')) \<Longrightarrow> ends Q (kbind d (\<lambda>(x, s'). f2 x s'))"
  and ends_bind3: "keep3 I e \<Longrightarrow> (\<And>x y s'. I s' \<Longrightarrow> ends Q (f3 x y s')) \<Longrightarrow>
    ends Q (kbind e (\<lambda>(x, y, s'). f3 x y s'))"
  by (auto simp: ends_def keep1_def keep_def keep3_def kres_simps split: option.splits prod.splits)

lemma ends_bind_val: "(\<And>x. c = Ok x \<Longrightarrow> ends Q (f x)) \<Longrightarrow> ends Q (kbind c f)"
  by (cases c) (simp_all add: ends_def)

text \<open>What \<open>exec\<close> may do to the table \<open>t\<close>: nothing with result -1, or replace the image of the caller.\<close>

definition new_image :: "nat \<Rightarrow> ptab \<Rightarrow> ptab \<Rightarrow> bool" where
  "new_image me t t' \<longleftrightarrow> (\<exists>pgdir sz entry sp name. pgdir \<noteq> 0 \<and> sz \<noteq> 0 \<and> length name \<le> 15 \<and>
     t' = upd_proc me (\<lambda>p. p\<lparr>p_sz := sz, p_pgdir := pgdir, p_tf := (p_tf p)\<lparr>tf_eip := entry, tf_esp := sp\<rparr>,
       p_name := name\<rparr>) t)"

definition exec_post :: "nat \<Rightarrow> ptab \<Rightarrow> (nat \<Rightarrow> kfile) \<Rightarrow> int \<Rightarrow> psys \<Rightarrow> bool" where
  "exec_post me t ft r s \<longleftrightarrow> ftable s = ft \<and> (r = -1 \<and> pt s = t \<or> r = 0 \<and> new_image me t (pt s))"

lemma exec_post_fail: "pt_same t ft u \<Longrightarrow> exec_post me t ft (-1) u"
  by (simp add: exec_post_def pt_same_def)

lemma exec_post_done:
  assumes "ftable u = ft" "pgdir \<noteq> 0" "sz \<noteq> 0" "length name \<le> 15"
    "pt u = upd_proc me (\<lambda>p. p\<lparr>p_sz := sz, p_pgdir := pgdir, p_tf := (p_tf p)\<lparr>tf_eip := entry, tf_esp := sp\<rparr>,
       p_name := name\<rparr>) t"
  shows "exec_post me t ft 0 u"
  using assms unfolding exec_post_def new_image_def by blast

lemma ends_exec_bad:
  assumes "pt_same t ft s"
  shows "ends (exec_post me t ft) (exec_bad K pid pgdir ipo s)"
  unfolding exec_bad_def Let_def
proof (rule ends_bind_val, rule ends_option)
  fix k
  note s = pt_same_mem [OF assms, of k]
  show "ends (exec_post me t ft) (Ok (-1, s\<lparr>kmm := k\<rparr>))" by (rule ends_Ok, rule exec_post_fail, rule s)
  show "ends (exec_post me t ft) (kbind (iunlockput pid ip (s\<lparr>kmm := k\<rparr>)) (\<lambda>s2. kbind (end_op s2) (\<lambda>s3. Ok (-1, s3))))" for ip
    by (rule ends_bind1 [OF pt_frame.keep_iunlockput [OF s]], rule ends_bind1 [OF pt_frame.keep_blocks(5)], assumption,
        rule ends_Ok, rule exec_post_fail)
qed

lemma ends_exec_stack:
  assumes "pt_same t ft s" "pgdir \<noteq> 0"
  shows "ends (exec_post me t ft) (exec_stack K me path argv pgdir entry sz0 s)"
proof -
  have t: "pt s = t" "ftable s = ft" using assms(1) by (simp_all add: pt_same_def)
  have bad: "ends (exec_post me t ft) (exec_bad K pid pgdir None (s\<lparr>kmm := k\<rparr>))" for pid k
    by (rule ends_exec_bad [OF pt_same_mem [OF assms(1)]])
  note rules = ends_if ends_bind_val ends_prod ends_option ends_Ok bad exec_post_done [where pgdir = pgdir]
  show ?thesis
    unfolding exec_stack_def Let_def
    by (rule rules | assumption | rule assms(2))+ (simp_all add: t assms(2))
qed

lemma ends_exec_file:
  assumes "pt_same t ft s"
  shows "ends (exec_post me t ft) (exec_file K me path argv pid ip s)"
  unfolding exec_file_def Let_def
  by (rule ends_bind1 [OF pt_frame.keep_ilock [OF assms]] ends_bind3 [OF pt_frame.keep_readi] ends_if ends_exec_bad
      ends_bind_val ends_prod pt_same_mem ends_bind [OF keep_load_segments] ends_option
      ends_bind1 [OF pt_frame.keep_iunlockput] ends_bind1 [OF pt_frame.keep_blocks(5)] ends_exec_stack | assumption)+

text \<open>C12: \<open>exec\<close> is all or nothing: if it returns -1, because the file is missing or no program, a header is
  damaged, memory runs out, a segment cannot be loaded or the arguments do not fit, the process table
  and the open files are exactly as before; if it returns 0, the only changes are the size, page
  table, entry point, stack pointer and name of the calling process.  It returns nothing else.\<close>

theorem exec_all_or_nothing:
  assumes "exec K me path argv s = Ok (r, s')"
  shows "ftable s' = ftable s \<and> (r = -1 \<and> pt s' = pt s \<or> r = 0 \<and> new_image me (pt s) (pt s'))"
proof -
  let ?I = "pt_same (pt s) (ftable s)" and ?Q = "exec_post me (pt s) (ftable s)"
  have namei: "keep ?I (namei pid cwd path u)" if "?I u" for pid cwd u
    by (rule pt_frame.fs_rules that | assumption)+
  have "ends ?Q (exec K me path argv s)"
    unfolding exec_def Let_def
    by (rule ends_option ends_Panic ends_bind1 [OF pt_frame.keep_blocks(4) [OF pt_same_refl]] ends_bind [OF namei]
        ends_bind1 [OF pt_frame.keep_blocks(5)] ends_exec_file ends_Ok exec_post_fail | assumption)+
  with assms show ?thesis unfolding ends_def exec_post_def by blast
qed

text \<open>A program that does not exist: the working directory of the caller is a file, so that no path starts there.\<close>

definition demo_caller :: psys where
  "demo_caller = demo_psys\<lparr>icache := demo_inode\<lparr>i_lock := \<lparr>sl_locked = False, sl_pid = 0\<rparr>\<rparr> # replicate 99 free_inode,
     pt := upd_proc 0 (\<lambda>p. p\<lparr>p_cwd := Some 0\<rparr>) demo_forked\<rparr>"

theorem exec_all_or_nothing_witness:
  "\<exists>s'. exec demo_link 0 [97] [] demo_caller = Ok (-1, s') \<and> ftable s' = ftable demo_caller \<and> pt s' = pt demo_caller"
proof -
  have "\<exists>s'. exec demo_link 0 [97] [] demo_caller = Ok (-1, s')"
    by (simp add: exec_def demo_caller_def demo_psys_def demo_ksys_def ksys.defs psys.defs fsys.defs upd_proc_def demo_forked_def
      no_proc_def demo_fs_def begin_op_def namei_def namex_def namex_loop.simps [of _ _ "[97]"] skipelem_def store_elem_def ilock_def iunlockput_def iunlock_def
      iput_def end_op_def end_op_enter_def inode_at_def idup_def demo_inode_def acquiresleep_def releasesleep_def set_inode_def Let_def kres_simps holdingsleep_def)
  then show ?thesis using exec_all_or_nothing [of demo_link 0 "[97]" "[]" demo_caller "-1"] by fastforce
qed

end
