(* ===== verification/Grep.thy ===== *)
theory Grep
  imports Prelude
begin

text \<open>
  The pattern matcher and the line loop of \<open>kernel/grep.c\<close>.  Patterns and texts are the bytes of
  the C strings before their terminating zero, so that a test \<open>*text != 0\<close> is a test for an empty
  rest.
\<close>

abbreviation (input) CARET :: uchar where "CARET \<equiv> 0x5E"
abbreviation (input) DOLLAR :: uchar where "DOLLAR \<equiv> 0x24"
abbreviation (input) DOT :: uchar where "DOT \<equiv> 0x2E"
abbreviation (input) STAR :: uchar where "STAR \<equiv> 0x2A"
abbreviation (input) NEWLINE :: uchar where "NEWLINE \<equiv> 0x0A"

section \<open>The matcher\<close>

text \<open>\<open>matchhere\<close> and \<open>matchstar\<close> call each other.  The pattern gets shorter whenever \<open>matchstar\<close>
  calls back; its own loop shortens the cs.\<close>

function matchhere :: "uchar list \<Rightarrow> uchar list \<Rightarrow> bool"
  and matchstar :: "uchar \<Rightarrow> uchar list \<Rightarrow> uchar list \<Rightarrow> bool" where
  "matchhere re cs =
     (if re = [] then True
      else if tl re \<noteq> [] \<and> hd (tl re) = STAR then matchstar (hd re) (tl (tl re)) cs
      else if hd re = DOLLAR \<and> tl re = [] then cs = []
      else if cs \<noteq> [] \<and> (hd re = DOT \<or> hd re = hd cs) then matchhere (tl re) (tl cs)
      else False)"
| "matchstar c re cs =
     (if matchhere re cs then True
      else if cs \<noteq> [] \<and> (hd cs = c \<or> c = DOT) then matchstar c re (tl cs)
      else False)"
  by pat_completeness auto
termination
  by (relation "measures [\<lambda>x. case x of Inl (re, t) \<Rightarrow> length re | Inr (c, re, t) \<Rightarrow> Suc (length re),
       \<lambda>x. case x of Inl (re, t) \<Rightarrow> length t | Inr (c, re, t) \<Rightarrow> length t]")
     (auto simp: neq_Nil_conv)

declare matchhere.simps [simp del] matchstar.simps [simp del]

text \<open>The loop of \<open>match\<close> also looks at the empty rest.\<close>

fun match_from :: "uchar list \<Rightarrow> uchar list \<Rightarrow> bool" where
  "match_from re cs =
     (if matchhere re cs then True
      else case cs of [] \<Rightarrow> False | _ # t \<Rightarrow> match_from re t)"

definition match :: "uchar list \<Rightarrow> uchar list \<Rightarrow> bool" where
  "match re cs = (if re \<noteq> [] \<and> hd re = CARET then matchhere (tl re) cs else match_from re cs)"

section \<open>What a pattern means\<close>

text \<open>\<open>matches re v w\<close>: \<open>re\<close> describes the text \<open>v\<close> when \<open>w\<close> follows it.  A character class is a
  character or a dot.\<close>

definition in_class :: "uchar \<Rightarrow> uchar \<Rightarrow> bool" where
  "in_class c x \<longleftrightarrow> c = DOT \<or> c = x"

inductive matches :: "uchar list \<Rightarrow> uchar list \<Rightarrow> uchar list \<Rightarrow> bool" where
  nothing: "matches [] [] w"
| many: "(\<forall>x\<in>set u. in_class c x) \<Longrightarrow> matches re v w \<Longrightarrow> matches (c # STAR # re) (u @ v) w"
| ending: "matches [DOLLAR] [] []"
| one: "\<not> (\<exists>re'. re = STAR # re') \<Longrightarrow> \<not> (c = DOLLAR \<and> re = []) \<Longrightarrow> in_class c x \<Longrightarrow> matches re v w \<Longrightarrow>
    matches (c # re) (x # v) w"

inductive_cases matches_NilE: "matches [] v w"
inductive_cases matches_ConsE: "matches (c # re) v w"

lemma matchhere_one:
  assumes "\<not> (\<exists>re'. re = STAR # re')" "\<not> (c = DOLLAR \<and> re = [])"
  shows "matchhere (c # re) cs \<longleftrightarrow> (\<exists>x t. cs = x # t \<and> in_class c x \<and> matchhere re t)"
  by (subst matchhere.simps, cases re; cases cs) (use assms in \<open>auto simp: in_class_def\<close>)

lemma matchhere_star: "matchhere (c # STAR # re) cs = matchstar c re cs"
  by (simp add: matchhere.simps [of "c # STAR # re"])

lemma matchhere_end: "matchhere [DOLLAR] cs \<longleftrightarrow> cs = []"
  by (simp add: matchhere.simps [of "[DOLLAR]"])

lemma matchhere_Nil [simp]: "matchhere [] cs"
  by (simp add: matchhere.simps)

lemma matchstar_iff:
  "matchstar c re cs \<longleftrightarrow> (\<exists>u t. cs = u @ t \<and> (\<forall>x\<in>set u. in_class c x) \<and> matchhere re t)"
proof (induction cs)
  case Nil
  then show ?case by (simp add: matchstar.simps)
next
  case (Cons x cs)
  have step: "matchstar c re (x # cs) \<longleftrightarrow> matchhere re (x # cs) \<or> in_class c x \<and> matchstar c re cs"
    by (auto simp: matchstar.simps [of c re "x # cs"] in_class_def)
  show ?case
  proof
    assume "matchstar c re (x # cs)"
    then consider "matchhere re (x # cs)" | "in_class c x" "matchstar c re cs" using step by blast
    then show "\<exists>u t. x # cs = u @ t \<and> (\<forall>x\<in>set u. in_class c x) \<and> matchhere re t"
    proof cases
      case 1
      then show ?thesis by (intro exI [of _ "[]"] exI [of _ "x # cs"]) simp
    next
      case 2
      then obtain u t where "cs = u @ t" "\<forall>x\<in>set u. in_class c x" "matchhere re t" using Cons.IH by blast
      with 2 show ?thesis by (intro exI [of _ "x # u"] exI [of _ t]) simp
    qed
  next
    assume "\<exists>u t. x # cs = u @ t \<and> (\<forall>x\<in>set u. in_class c x) \<and> matchhere re t"
    then obtain u t where u: "x # cs = u @ t" "\<forall>x\<in>set u. in_class c x" "matchhere re t" by blast
    then show "matchstar c re (x # cs)"
      unfolding step Cons.IH by (cases u) auto
  qed
qed

lemma matches_matchhere: "matches re v w \<Longrightarrow> matchhere re (v @ w)"
proof (induction rule: matches.induct)
  case (many u c re v w)
  then show ?case by (auto simp: matchhere_star matchstar_iff)
next
  case (one re c x v w)
  then show ?case by (subst matchhere_one) auto
qed (simp_all add: matchhere_end)

lemma matchhere_matches: "matchhere re cs \<Longrightarrow> \<exists>v w. cs = v @ w \<and> matches re v w"
proof (induction "length re" arbitrary: re cs rule: less_induct)
  case less
  show ?case
  proof (cases re)
    case Nil
    then show ?thesis using matches.nothing [of cs] by fastforce
  next
    case (Cons c rest)
    consider r where "rest = STAR # r" | "\<not> (\<exists>r. rest = STAR # r)" "c = DOLLAR" "rest = []"
      | "\<not> (\<exists>r. rest = STAR # r)" "\<not> (c = DOLLAR \<and> rest = [])" by blast
    then show ?thesis
    proof cases
      case 1
      with less(2) Cons obtain u t where u: "cs = u @ t" "\<forall>x\<in>set u. in_class c x" "matchhere r t"
        by (auto simp: matchhere_star matchstar_iff)
      have "length r < length re" using 1 Cons by simp
      from less(1) [OF this u(3)] obtain v w where "t = v @ w" "matches r v w" by blast
      with u 1 Cons matches.many [OF u(2)] show ?thesis by (metis append_assoc)
    next
      case 2
      with less(2) Cons show ?thesis using matches.ending matchhere_end by auto
    next
      case 3
      with less(2) Cons obtain x t where x: "cs = x # t" "in_class c x" "matchhere rest t"
        by (auto simp: matchhere_one)
      have "length rest < length re" using Cons by simp
      from less(1) [OF this x(3)] obtain v w where "t = v @ w" "matches rest v w" by blast
      with x Cons matches.one [OF 3 x(2)] show ?thesis by (metis append_Cons)
    qed
  qed
qed

lemma matchhere_iff: "matchhere re cs \<longleftrightarrow> (\<exists>v w. cs = v @ w \<and> matches re v w)"
  using matchhere_matches matches_matchhere by blast

lemma match_from_iff: "match_from re cs \<longleftrightarrow> (\<exists>u t. cs = u @ t \<and> matchhere re t)"
proof (induction cs)
  case (Cons x cs)
  show ?case
  proof
    assume "match_from re (x # cs)"
    then have "matchhere re (x # cs) \<or> match_from re cs" by (auto split: if_splits)
    then show "\<exists>u t. x # cs = u @ t \<and> matchhere re t"
      using Cons.IH by (metis append_Cons append_Nil)
  next
    assume "\<exists>u t. x # cs = u @ t \<and> matchhere re t"
    then obtain u t where "x # cs = u @ t" "matchhere re t" by blast
    then show "match_from re (x # cs)" using Cons.IH by (cases u) auto
  qed
qed auto

declare match_from.simps [simp del]

text \<open>C34: \<open>match\<close> finds exactly what the pattern describes: a pattern that starts with a caret must
  describe a beginning of the text, any other pattern some part of it, where \<open>c*\<close> stands for any
  number of characters \<open>c\<close>, a dot for any character and a dollar at the end of the pattern for the
  end of the text.\<close>

theorem match_is_search:
  "match re cs \<longleftrightarrow> (case re of
     [] \<Rightarrow> True
   | c # re' \<Rightarrow>
       if c = CARET then (\<exists>v w. cs = v @ w \<and> matches re' v w)
       else (\<exists>u v w. cs = u @ v @ w \<and> matches re v w))"
proof (cases re)
  case Nil
  then show ?thesis by (simp add: match_def match_from.simps)
next
  case (Cons c re')
  have "(\<exists>u t. cs = u @ t \<and> (\<exists>v w. t = v @ w \<and> matches re v w)) \<longleftrightarrow>
    (\<exists>u v w. cs = u @ v @ w \<and> matches re v w)" by blast
  then show ?thesis
    using Cons by (simp add: match_def match_from_iff matchhere_iff)
qed

section \<open>The line loop\<close>

text \<open>\<open>strchr(p, '\n')\<close> in a buffer whose contents are followed by a zero: the search ends at the first
  zero byte.\<close>

fun find_newline :: "uchar list \<Rightarrow> nat option" where
  "find_newline [] = None"
| "find_newline (c # cs) =
     (if c = 0 then None else if c = NEWLINE then Some 0 else map_option Suc (find_newline cs))"

text \<open>The inner loop from \<open>p\<close>: what is written, and the new \<open>p\<close>.\<close>

function grep_lines :: "uchar list \<Rightarrow> uchar list \<Rightarrow> uchar list \<times> uchar list" where
  "grep_lines pattern p =
     (case find_newline p of
        None \<Rightarrow> ([], p)
      | Some k \<Rightarrow>
          (case grep_lines pattern (drop (Suc k) p) of (out, p') \<Rightarrow>
             (if match pattern (take k p) then take (Suc k) p @ out else out, p')))"
  by pat_completeness auto
termination
  by (relation "measure (\<lambda>(pattern, p). length p)") (auto elim: find_newline.elims)

declare grep_lines.simps [simp del]

text \<open>The outer loop.  \<open>held\<close> are the first \<open>m\<close> bytes of \<open>buf\<close>; \<open>chunks\<close> is what the descriptor
  delivers: a \<open>read\<close> takes from the first chunk as much as fits, as a pipe hands out what is there; a
  file is a single chunk.  \<open>read\<close> returns 0 at the end and when there is no room.\<close>

function grep_loop :: "uchar list \<Rightarrow> uchar list \<Rightarrow> uchar list list \<Rightarrow> uchar list" where
  "grep_loop pattern held chunks =
     (let room = 1024 - length held - 1 in
      if room = 0 \<or> chunks = [] \<or> hd chunks = [] then []
      else
        let c = hd chunks; buf = held @ take room c;
            rest = (if length c \<le> room then tl chunks else drop room c # tl chunks)
        in (case grep_lines pattern buf of (out, p) \<Rightarrow>
              out @ grep_loop pattern (if length p = length buf then [] else p) rest))"
  by pat_completeness auto
termination
  by (relation "measure (\<lambda>(pattern, held, chunks). length (concat chunks))") (auto simp: neq_Nil_conv)

declare grep_loop.simps [simp del]

definition grep :: "uchar list \<Rightarrow> uchar list list \<Rightarrow> uchar list" where
  "grep pattern chunks = grep_loop pattern [] chunks"

text \<open>The lines of a text that end with a newline, without it, and what follows the last of them.\<close>

function full_lines :: "uchar list \<Rightarrow> uchar list list" where
  "full_lines bs =
     (if NEWLINE \<in> set bs then takeWhile (\<lambda>c. c \<noteq> NEWLINE) bs # full_lines (tl (dropWhile (\<lambda>c. c \<noteq> NEWLINE) bs))
      else [])"
  by pat_completeness auto
termination
proof (relation "measure length")
  fix bs :: "uchar list" assume "NEWLINE \<in> set bs"
  then have "dropWhile (\<lambda>c. c \<noteq> NEWLINE) bs \<noteq> []" by (auto simp: dropWhile_eq_Nil_conv)
  then show "(tl (dropWhile (\<lambda>c. c \<noteq> NEWLINE) bs), bs) \<in> measure length"
    by (metis (no_types, lifting) in_measure length_dropWhile_le length_tl diff_less length_greater_0_conv
      less_numeral_extra(1) order_less_le_trans)
qed simp

declare full_lines.simps [simp del]

definition print_lines :: "uchar list \<Rightarrow> uchar list list \<Rightarrow> uchar list" where
  "print_lines pattern ls = concat (map (\<lambda>l. l @ [NEWLINE]) (filter (match pattern) ls))"

lemma full_lines_none: "NEWLINE \<notin> set bs \<Longrightarrow> full_lines bs = []"
  by (simp add: full_lines.simps)

lemma full_lines_line: "NEWLINE \<notin> set l \<Longrightarrow> full_lines (l @ NEWLINE # bs) = l # full_lines bs"
proof -
  assume l: "NEWLINE \<notin> set l"
  have "takeWhile (\<lambda>c. c \<noteq> NEWLINE) (l @ NEWLINE # bs) = l"
    using l by (subst takeWhile_append2) auto
  moreover have "dropWhile (\<lambda>c. c \<noteq> NEWLINE) (l @ NEWLINE # bs) = NEWLINE # bs"
    using l by (subst dropWhile_append2) auto
  ultimately show ?thesis by (simp add: full_lines.simps [of "l @ NEWLINE # bs"])
qed

lemma find_newline_None: "0 \<notin> set p \<Longrightarrow> find_newline p = None \<longleftrightarrow> NEWLINE \<notin> set p"
  by (induction p) auto

lemma find_newline_Some: "find_newline p = Some k \<Longrightarrow> \<exists>l q. p = l @ NEWLINE # q \<and> length l = k \<and> NEWLINE \<notin> set l"
proof (induction p arbitrary: k)
  case (Cons c p)
  show ?case
  proof (cases "c = NEWLINE")
    case True
    with Cons.prems show ?thesis by (intro exI [of _ "[]"] exI [of _ p]) simp
  next
    case False
    with Cons.prems obtain j where "find_newline p = Some j" "k = Suc j" by (auto split: if_splits)
    with Cons.IH obtain l q where "p = l @ NEWLINE # q" "length l = j" "NEWLINE \<notin> set l" by blast
    with False \<open>k = Suc j\<close> show ?thesis by (intro exI [of _ "c # l"] exI [of _ q]) auto
  qed
qed simp

text \<open>The inner loop prints the matching lines of the buffer; what remains is the tail without newline.\<close>

lemma grep_lines_spec:
  "0 \<notin> set p \<Longrightarrow> \<exists>q. grep_lines pattern p = (print_lines pattern (full_lines p), q) \<and> NEWLINE \<notin> set q \<and>
     (\<exists>u. p = u @ q \<and> (u = [] \<longleftrightarrow> NEWLINE \<notin> set p) \<and> (\<forall>r. full_lines (p @ r) = full_lines p @ full_lines (q @ r)))"
proof (induction "length p" arbitrary: p rule: less_induct)
  case less
  show ?case
  proof (cases "find_newline p")
    case None
    with less(2) have "NEWLINE \<notin> set p" by (simp add: find_newline_None)
    with None show ?thesis
      by (simp add: grep_lines.simps [of pattern p] full_lines_none print_lines_def)
  next
    case (Some k)
    then obtain l q where p: "p = l @ NEWLINE # q" "length l = k" "NEWLINE \<notin> set l"
      using find_newline_Some by blast
    with less(2) have "length q < length p" "0 \<notin> set q" by auto
    from less(1) [OF this] obtain q' u where q': "grep_lines pattern q = (print_lines pattern (full_lines q), q')"
      "NEWLINE \<notin> set q'" "q = u @ q'" "\<And>r. full_lines (q @ r) = full_lines q @ full_lines (q' @ r)" by blast
    have "grep_lines pattern p = (print_lines pattern (full_lines p), q')"
      using Some q'(1) by (subst grep_lines.simps) (use p in \<open>simp add: full_lines_line print_lines_def\<close>)
    moreover have "p = (l @ NEWLINE # u) @ q'" using p q'(3) by simp
    moreover have "full_lines (p @ r) = full_lines p @ full_lines (q' @ r)" for r
      using p q'(4) [of r] full_lines_line [of l "q @ r"] by (simp add: full_lines_line)
    ultimately show ?thesis using q'(2) p by fastforce
  qed
qed

text \<open>Every 1023 consecutive bytes hold a newline.\<close>

definition short_lines :: "uchar list \<Rightarrow> bool" where
  "short_lines bs \<longleftrightarrow> list_all (\<lambda>k. NEWLINE \<in> set (take 1023 (drop k bs))) [0..<length bs - 1022]"

lemma short_lines_take: "short_lines bs \<Longrightarrow> 1023 \<le> length bs \<Longrightarrow> NEWLINE \<in> set (take 1023 bs)"
  by (auto simp: short_lines_def list_all_iff dest: bspec [of _ _ 0])

lemma short_lines_suffix: "short_lines (u @ v) \<Longrightarrow> short_lines v"
  unfolding short_lines_def list_all_iff
proof
  fix k
  assume a: "\<forall>k\<in>set [0..<length (u @ v) - 1022]. NEWLINE \<in> set (take 1023 (drop k (u @ v)))"
    and "k \<in> set [0..<length v - 1022]"
  then have "length u + k \<in> set [0..<length (u @ v) - 1022]" by auto
  with a have "NEWLINE \<in> set (take 1023 (drop (length u + k) (u @ v)))" by blast
  then show "NEWLINE \<in> set (take 1023 (drop k v))" by simp
qed

lemma grep_loop_file:
  "0 \<notin> set (held @ c) \<Longrightarrow> NEWLINE \<notin> set held \<Longrightarrow> length held < 1023 \<Longrightarrow> short_lines (held @ c) \<Longrightarrow>
   grep_loop pattern held [c] = print_lines pattern (full_lines (held @ c))"
proof (induction "length c" arbitrary: held c rule: less_induct)
  case less
  let ?room = "1024 - length held - 1" and ?buf = "held @ take (1024 - length held - 1) c"
  have "0 \<notin> set ?buf" using less(2) by (auto dest: in_set_takeD)
  from grep_lines_spec [OF this, of pattern] obtain q u where q:
    "grep_lines pattern ?buf = (print_lines pattern (full_lines ?buf), q)" "NEWLINE \<notin> set q" "?buf = u @ q"
    "u = [] \<longleftrightarrow> NEWLINE \<notin> set ?buf" "\<And>r. full_lines (?buf @ r) = full_lines ?buf @ full_lines (q @ r)" by blast
  have nil: "print_lines pattern [] = []" "grep_loop pattern h [] = []" for h
    by (simp_all add: print_lines_def grep_loop.simps)
  consider "c = []" | "c \<noteq> []" "length c \<le> ?room" | "length c > ?room" "c \<noteq> []" by linarith
  then show ?case
  proof cases
    case 1
    then show ?thesis using less(3) by (simp add: grep_loop.simps full_lines_none nil)
  next
    case 2
    then show ?thesis using less(4) q(1) by (subst grep_loop.simps) (simp add: nil)
  next
    case 3
    let ?r = "drop ?room c"
    have len: "length ?buf = 1023" using 3 less(4) by simp
    have split: "held @ c = ?buf @ ?r" by simp
    have "take 1023 (held @ c) = ?buf" using len split by (metis append_eq_conv_conj)
    then have "NEWLINE \<in> set ?buf" using short_lines_take [OF less(5)] 3 less(4) by force
    with q(4) have u: "u \<noteq> []" by blast
    have lq: "length q < length ?buf" using u q(3) by (metis length_append length_greater_0_conv less_add_same_cancel2)
    have whole: "held @ c = u @ q @ ?r" using split q(3) by (metis append_assoc)
    have "grep_loop pattern q [?r] = print_lines pattern (full_lines (q @ ?r))"
    proof (rule less(1))
      show "length ?r < length c" using 3 less(4) by auto
      show "0 \<notin> set (q @ ?r)" using less(2) unfolding whole by auto
      show "short_lines (q @ ?r)" using less(5) unfolding whole by (rule short_lines_suffix)
    qed (use q(2) lq len in simp_all)
    moreover have "grep_loop pattern held [c] = print_lines pattern (full_lines ?buf) @ grep_loop pattern q [?r]"
      using 3 less(4) q(1) lq len by (subst grep_loop.simps) (simp add: Let_def)
    moreover have "full_lines (held @ c) = full_lines ?buf @ full_lines (q @ ?r)"
      using q(5) [of ?r] split by metis
    ultimately show ?thesis by (simp add: print_lines_def)
  qed
qed

text \<open>\<open>grep\<close> on a file prints exactly the lines that match, in order, each with its newline, provided the
  file holds no zero byte and no line with its newline exceeds the 1023 bytes the buffer has room for.
  What follows the last newline is not looked at.\<close>

theorem grep_prints_matching_lines:
  assumes "0 \<notin> set bs" "short_lines bs"
  shows "grep pattern [bs] = print_lines pattern (full_lines bs)"
  using grep_loop_file [of "[]" bs pattern] assms by (simp add: grep_def)

theorem grep_prints_matching_lines_witness:
  "grep [0x61, STAR, DOLLAR] [[0x62, NEWLINE, 0x63]] = print_lines [0x61, STAR, DOLLAR] [[0x62]]"
  using grep_prints_matching_lines [of "[0x62, NEWLINE, 0x63]" "[0x61, STAR, DOLLAR]"]
    full_lines_line [of "[0x62]" "[0x63]"] by (simp add: short_lines_def full_lines_none)

text \<open>A reader of a pipe fares worse: what one \<open>read\<close> delivers without a newline is thrown away, because
  \<open>m\<close> is set to 0 when \<open>p == buf\<close>.  A line that is written in two pieces is matched without its
  beginning.\<close>

lemma grep_loses_split_line:
  "grep [0x61] [[0x61], [0x62, NEWLINE]] = [] \<and> grep [0x61] [[0x61, 0x62, NEWLINE]] = [0x61, 0x62, NEWLINE]"
  by (simp add: grep_def grep_loop.simps grep_lines.simps match_def match_from.simps matchhere.simps)

end
