(* ===== verification/Ulib.thy ===== *)
theory Ulib
  imports KString Console
begin

text \<open>
  The library of user programs: \<open>user/ulib.c\<close> and \<open>user/printf.c\<close>.

  String functions work on the byte memory of \<open>KString\<close>.  Their loops run until they meet a zero
  byte, so that without one they do not return: they are partial functions with result \<open>None\<close> in
  that case.  Functions that \<open>kernel/string.c\<close> has too carry the prefix \<open>u_\<close>.  The descriptor that
  \<open>gets\<close> reads from is the list of bytes it delivers one by one.  \<open>printf\<close> is the list of characters
  it writes.
\<close>

section \<open>Strings\<close>

partial_function (option) strcpy_loop :: "mem \<Rightarrow> nat \<Rightarrow> nat \<Rightarrow> mem option" where
  "strcpy_loop m s t =
     (let m' = m(s := m t) in if m' s \<noteq> 0 then strcpy_loop m' (Suc s) (Suc t) else Some m')"

definition strcpy :: "mem \<Rightarrow> nat \<Rightarrow> nat \<Rightarrow> mem option" where
  "strcpy m s t = strcpy_loop m s t"

partial_function (option) strcmp :: "mem \<Rightarrow> nat \<Rightarrow> nat \<Rightarrow> int option" where
  "strcmp m p q =
     (if m p \<noteq> 0 \<and> m p = m q then strcmp m (Suc p) (Suc q) else Some (uint (m p) - uint (m q)))"

partial_function (option) u_strlen_loop :: "mem \<Rightarrow> nat \<Rightarrow> nat \<Rightarrow> nat option" where
  "u_strlen_loop m s n = (if m (s + n) \<noteq> 0 then u_strlen_loop m s (Suc n) else Some n)"

definition u_strlen :: "mem \<Rightarrow> nat \<Rightarrow> nat option" where
  "u_strlen m s = u_strlen_loop m s 0"

definition u_memset :: "mem \<Rightarrow> nat \<Rightarrow> uchar \<Rightarrow> nat \<Rightarrow> mem" where
  "u_memset m dst c n = stosb m dst c n"

text \<open>The address of the character, or \<open>None\<close> for the null pointer.\<close>

partial_function (option) strchr :: "mem \<Rightarrow> nat \<Rightarrow> uchar \<Rightarrow> nat option option" where
  "strchr m s c =
     (if m s = 0 then Some None else if m s = c then Some (Some s) else strchr m (Suc s) c)"

partial_function (option) strcat_end :: "mem \<Rightarrow> nat \<Rightarrow> nat option" where
  "strcat_end m d = (if m d \<noteq> 0 then strcat_end m (Suc d) else Some d)"

definition strcat :: "mem \<Rightarrow> nat \<Rightarrow> nat \<Rightarrow> mem option" where
  "strcat m dest src = (case strcat_end m dest of None \<Rightarrow> None | Some d \<Rightarrow> strcpy_loop m d src)"

fun u_memmove_loop :: "mem \<Rightarrow> nat \<Rightarrow> nat \<Rightarrow> nat \<Rightarrow> mem" where
  "u_memmove_loop m dst src 0 = m"
| "u_memmove_loop m dst src (Suc n) = u_memmove_loop (m(dst := m src)) (Suc dst) (Suc src) n"

definition u_memmove :: "mem \<Rightarrow> nat \<Rightarrow> nat \<Rightarrow> int \<Rightarrow> mem" where
  "u_memmove m dst src n = u_memmove_loop m dst src (nat n)"

text \<open>\<open>gets\<close> stores at most \<open>max - 1\<close> characters; \<open>i\<close> of them are in the buffer already.\<close>

fun gets_loop :: "nat \<Rightarrow> nat \<Rightarrow> uchar list \<Rightarrow> uchar list" where
  "gets_loop i 0 inp = []"
| "gets_loop i (Suc k) inp =
     (case inp of
        [] \<Rightarrow> []
      | c # rest \<Rightarrow> c # (if c = 0x0A \<or> c = 0x0D then [] else gets_loop (Suc i) k rest))"

definition gets :: "int \<Rightarrow> uchar list \<Rightarrow> uchar list" where
  "gets mx inp = gets_loop 0 (nat (mx - 1)) inp @ [0]"

section \<open>Numbers\<close>

partial_function (option) atoi_loop :: "mem \<Rightarrow> nat \<Rightarrow> uint \<Rightarrow> uint option" where
  "atoi_loop m s n =
     (if 0x30 \<le> m s \<and> m s \<le> 0x39 then atoi_loop m (Suc s) (n * 10 + ucast (m s) - 0x30) else Some n)"

definition atoi :: "mem \<Rightarrow> nat \<Rightarrow> uint option" where
  "atoi m s = atoi_loop m s 0"

definition u_digit_char :: "nat \<Rightarrow> uchar" where
  "u_digit_char d = (if d < 10 then 0x30 + of_nat d else 0x41 + of_nat (d - 10))"

function u_digit_loop :: "bool \<Rightarrow> uint \<Rightarrow> uchar list" where
  "u_digit_loop hex x =
     (let base = (if hex then 16 else 10); rest = x div base
      in u_digit_char (unat (x mod base)) # (if rest \<noteq> 0 then u_digit_loop hex rest else []))"
  by pat_completeness auto
termination
proof (relation "measure (\<lambda>(hex, x). unat x)")
  fix hex and x base rest :: uint
  assume "base = (if hex then 16 else 10)" "rest = x div base" "rest \<noteq> 0"
  moreover from this have "0 < unat x" by (auto simp: unat_gt_0)
  ultimately show "((hex, rest), (hex, x)) \<in> measure (\<lambda>(hex, x). unat x)" by (auto simp: unat_div)
qed simp

declare u_digit_loop.simps [simp del]

definition u_printint :: "uint \<Rightarrow> bool \<Rightarrow> bool \<Rightarrow> uchar list" where
  "u_printint xx hex sg =
     (let neg = sg \<and> sint xx < 0; x = (if neg then - xx else xx);
          buf = u_digit_loop hex x @ (if neg then [0x2D] else [])
      in rev buf)"

text \<open>One character of the format in state \<open>state\<close> (after a percent sign or not), with \<open>k\<close> arguments consumed.\<close>

fun printf_loop :: "(uint \<Rightarrow> uchar list) \<Rightarrow> (nat \<Rightarrow> uint) \<Rightarrow> bool \<Rightarrow> uchar list \<Rightarrow> nat \<Rightarrow> uchar list" where
  "printf_loop str_at ap state [] k = []"
| "printf_loop str_at ap False (c # fmt) k =
     (if c = 0x25 then printf_loop str_at ap True fmt k else c # printf_loop str_at ap False fmt k)"
| "printf_loop str_at ap True (c # fmt) k =
     (if c = 0x64 then u_printint (ap k) False True @ printf_loop str_at ap False fmt (Suc k)
      else if c = 0x78 \<or> c = 0x70 then u_printint (ap k) True False @ printf_loop str_at ap False fmt (Suc k)
      else if c = 0x73
      then (if ap k = 0 then [0x28, 0x6E, 0x75, 0x6C, 0x6C, 0x29] else str_at (ap k)) @
             printf_loop str_at ap False fmt (Suc k)
      else if c = 0x63 then ucast (ap k) # printf_loop str_at ap False fmt (Suc k)
      else if c = 0x25 then c # printf_loop str_at ap False fmt k
      else 0x25 # c # printf_loop str_at ap False fmt k)"

definition printf :: "(uint \<Rightarrow> uchar list) \<Rightarrow> (nat \<Rightarrow> uint) \<Rightarrow> uchar list \<Rightarrow> uchar list" where
  "printf str_at ap fmt = printf_loop str_at ap False fmt 0"

section \<open>Random numbers\<close>

text \<open>\<open>seeds\<close> are the two values of the hardware generator, if there is one.  All arithmetic is on 32 bits.\<close>

record rng =
  rng_w :: uint
  rng_z :: uint
  rng_seeded :: bool

definition rand_seed :: "(uint \<times> uint) option \<Rightarrow> rng \<Rightarrow> rng" where
  "rand_seed seeds g =
     (if rng_seeded g then g
      else case seeds of
        Some (r1, r2) \<Rightarrow>
          \<lparr>rng_w = (if r1 \<noteq> 0 then r1 else 362436069), rng_z = (if r2 \<noteq> 0 then r2 else 521288629), rng_seeded = True\<rparr>
      | None \<Rightarrow> \<lparr>rng_w = 362436069, rng_z = 521288629, rng_seeded = True\<rparr>)"

definition mwc_step :: "uint \<Rightarrow> uint" where
  "mwc_step z = 4294967118 * (z AND 0xFFFF) + drop_bit 16 z"

definition rand :: "(uint \<times> uint) option \<Rightarrow> rng \<Rightarrow> uint \<times> rng" where
  "rand seeds g0 =
     (let g = rand_seed seeds g0; z = mwc_step (rng_z g); w = mwc_step (rng_w g)
      in (push_bit 16 z + (w AND 0xFFFF), g\<lparr>rng_w := w, rng_z := z\<rparr>))"

section \<open>Copying and comparing strings\<close>

lemma strcpy_loop_cstr:
  "cstr_at m t xs \<Longrightarrow> s + length xs < t \<or> t + length xs < s \<Longrightarrow>
   \<exists>m'. strcpy_loop m s t = Some m' \<and> cstr_at m' s xs \<and> (\<forall>a. a < s \<or> s + length xs < a \<longrightarrow> m' a = m a)"
proof (induction xs arbitrary: m s t)
  case Nil
  then show ?case by (simp add: strcpy_loop.simps)
next
  case (Cons x xs)
  let ?m = "m(s := x)"
  have "cstr_at ?m (Suc t) xs"
    using Cons.prems by (subst cstr_at_cong [where m' = m]) auto
  moreover have "Suc s + length xs < Suc t \<or> Suc t + length xs < Suc s" using Cons.prems(2) by auto
  ultimately obtain m' where m': "strcpy_loop ?m (Suc s) (Suc t) = Some m'" "cstr_at m' (Suc s) xs"
    "\<forall>a. a < Suc s \<or> Suc s + length xs < a \<longrightarrow> m' a = ?m a" using Cons.IH by blast
  have "strcpy_loop m s t = Some m'" using Cons.prems(1) m'(1) by (subst strcpy_loop.simps) simp
  moreover have "m' s = x" using m'(3) by simp
  ultimately show ?case using m'(2,3) Cons.prems(1) by auto
qed

lemma strcat_end_cstr: "cstr_at m d xs \<Longrightarrow> strcat_end m d = Some (d + length xs)"
  by (induction xs arbitrary: d) (simp_all add: strcat_end.simps)

lemma cstr_at_append: "cstr_at m p (xs @ ys) \<longleftrightarrow>
   (\<forall>i<length xs. m (p + i) = xs ! i \<and> xs ! i \<noteq> 0) \<and> cstr_at m (p + length xs) ys"
  by (induction xs arbitrary: p) (auto simp: All_less_Suc2)

text \<open>\<open>strcat\<close> returns and appends one string to the other, provided the strings do not overlap with
  the result, and changes no byte outside the room of the appended part.\<close>

theorem strcat_appends:
  assumes "cstr_at m d xs" "cstr_at m s ys" "d + length xs + length ys < s \<or> s + length ys < d"
  shows "\<exists>m'. strcat m d s = Some m' \<and> cstr_at m' d (xs @ ys) \<and>
           (\<forall>a. a < d + length xs \<or> d + length xs + length ys < a \<longrightarrow> m' a = m a)"
proof -
  have "d + length xs + length ys < s \<or> s + length ys < d + length xs" using assms(3) by auto
  from strcpy_loop_cstr [OF assms(2) this] obtain m' where m':
    "strcpy_loop m (d + length xs) s = Some m'" "cstr_at m' (d + length xs) ys"
    "\<forall>a. a < d + length xs \<or> d + length xs + length ys < a \<longrightarrow> m' a = m a" by blast
  have "\<forall>i<length xs. m' (d + i) = xs ! i \<and> xs ! i \<noteq> 0" using m'(3) assms(1) by (auto simp: cstr_at_def)
  with m' show ?thesis by (simp add: strcat_def strcat_end_cstr [OF assms(1)] cstr_at_append)
qed

theorem strcat_appends_witness:
  "let m = (\<lambda>_. 0)(0 := 65, 10 := 66) in \<exists>m'. strcat m 0 10 = Some m' \<and> cstr_at m' 0 [65, 66]"
  using strcat_appends [of "(\<lambda>_. 0)(0 := 65, 10 := 66)" 0 "[65]" 10 "[66]"] by auto

lemma strcmp_cstr:
  "cstr_at m p xs \<Longrightarrow> cstr_at m q ys \<Longrightarrow> \<exists>r. strcmp m p q = Some r \<and> (r = 0 \<longleftrightarrow> xs = ys)"
proof (induction xs arbitrary: p q ys)
  case Nil
  then show ?case by (cases ys) (simp_all add: strcmp.simps uint_0_iff)
next
  case (Cons x xs p q ys)
  have x: "m p = x" "x \<noteq> 0" "cstr_at m (Suc p) xs" using Cons.prems(1) by simp_all
  show ?case
  proof (cases "m q = x")
    case True
    then obtain ys' where ys: "ys = x # ys'" "cstr_at m (Suc q) ys'"
      using Cons.prems(2) x(2) by (cases ys) auto
    from Cons.IH [OF x(3) ys(2)] obtain r where "strcmp m (Suc p) (Suc q) = Some r" "r = 0 \<longleftrightarrow> xs = ys'" by blast
    with x ys True show ?thesis by (subst strcmp.simps) simp
  next
    case False
    then have "ys \<noteq> x # xs" using Cons.prems(2) by auto
    moreover have "uint x \<noteq> uint (m q)" using False by (auto simp: word_uint_eq_iff)
    ultimately show ?thesis using x False by (subst strcmp.simps) auto
  qed
qed

lemma u_strlen_cstr: "cstr_at m p xs \<Longrightarrow> u_strlen m p = Some (length xs)"
proof -
  have "cstr_at m (p + n) ys \<Longrightarrow> u_strlen_loop m p n = Some (n + length ys)" for n ys
  proof (induction ys arbitrary: n)
    case (Cons y ys)
    then show ?case by (subst u_strlen_loop.simps) simp
  qed (subst u_strlen_loop.simps, simp)
  from this [of 0 xs] show "cstr_at m p xs \<Longrightarrow> u_strlen m p = Some (length xs)" by (simp add: u_strlen_def)
qed

text \<open>Copying upwards regardless of the direction, the user's \<open>memmove\<close> destroys an overlapping source
  below its destination.\<close>

lemma u_memmove_overlap:
  "let m = (\<lambda>_. 0)(0 := 1, 1 := 2, 2 := 3) in
   map (u_memmove m 1 0 3) [1, 2, 3] = [1, 1, 1] \<and> map (memmove m 1 0 3) [1, 2, 3] = [1, 2, 3]"
  by (simp add: u_memmove_def memmove_def Let_def eval_nat_numeral)

text \<open>Everything that \<open>gets\<close> stores fits into its buffer, if it has room for the terminating zero.\<close>

lemma gets_fits: "0 < mx \<Longrightarrow> int (length (gets mx inp)) \<le> mx"
proof -
  have "length (gets_loop i k inp) \<le> k" for i k
    by (induction k arbitrary: i inp) (auto split: list.splits)
  from this [of 0 "nat (mx - 1)"] show "0 < mx \<Longrightarrow> int (length (gets mx inp)) \<le> mx" by (simp add: gets_def)
qed

section \<open>Numbers are read as they were printed\<close>

lemma u_digit_char_val: "d < 10 \<Longrightarrow> ucast (u_digit_char d) - 0x30 = (of_nat d :: uint) \<and>
   0x30 \<le> u_digit_char d \<and> u_digit_char d \<le> 0x39"
proof -
  assume "d < 10"
  then have "d = 0 \<or> d = 1 \<or> d = 2 \<or> d = 3 \<or> d = 4 \<or> d = 5 \<or> d = 6 \<or> d = 7 \<or> d = 8 \<or> d = 9" by presburger
  then show ?thesis by (elim disjE) (simp_all add: u_digit_char_def)
qed

lemma atoi_loop_digits:
  "cstr_at m s ds \<Longrightarrow> list_all (\<lambda>c. 0x30 \<le> c \<and> c \<le> 0x39) ds \<Longrightarrow>
   atoi_loop m s n = Some (foldl (\<lambda>a c. a * 10 + ucast c - 0x30) n ds)"
proof (induction ds arbitrary: s n)
  case Nil
  then show ?case by (simp add: atoi_loop.simps)
next
  case (Cons c ds)
  then show ?case by (subst atoi_loop.simps) simp
qed

lemma u_digit_loop_reads:
  "list_all (\<lambda>c. 0x30 \<le> c \<and> c \<le> 0x39) (u_digit_loop False x) \<and>
   foldl (\<lambda>a c. a * 10 + ucast c - 0x30) 0 (rev (u_digit_loop False x)) = x"
proof (induction "False" x rule: u_digit_loop.induct)
  case (1 x)
  have "unat (x mod 10) < 10" by (simp add: unat_mod)
  note d = u_digit_char_val [OF this]
  have step: "x div 10 * 10 + x mod 10 = x" by (rule div_mult_mod_eq)
  show ?case
  proof (cases "x div 10 = 0")
    case True
    with step have "x mod 10 = x" by simp
    with True d show ?thesis by (subst (1 2) u_digit_loop.simps) (simp add: Let_def)
  next
    case False
    with 1 have IH: "list_all (\<lambda>c. 0x30 \<le> c \<and> c \<le> 0x39) (u_digit_loop False (x div 10))"
      "foldl (\<lambda>a c. a * 10 + ucast c - 0x30) 0 (rev (u_digit_loop False (x div 10))) = x div 10" by auto
    have "x div 10 * 10 + ucast (u_digit_char (unat (x mod 10))) - 0x30 =
        x div 10 * 10 + (ucast (u_digit_char (unat (x mod 10))) - 0x30)" by simp
    also have "\<dots> = x" using d step by simp
    finally show ?thesis using False d IH by (subst (1 2) u_digit_loop.simps) (simp add: Let_def)
  qed
qed

text \<open>what \<open>printf\<close> prints for \<open>%d\<close>, \<open>atoi\<close> reads back, for every non-negative number; for a negative
  one, the minus sign of which it does not know, \<open>atoi\<close> returns 0.\<close>

theorem atoi_reads_printf:
  assumes "cstr_at m s (printf str_at ap [0x25, 0x64])"
  shows "atoi m s = Some (if 0 \<le> sint (ap 0) then ap 0 else 0)"
proof (cases "0 \<le> sint (ap 0)")
  case True
  then have "cstr_at m s (rev (u_digit_loop False (ap 0)))"
    using assms by (simp add: printf_def u_printint_def)
  from atoi_loop_digits [OF this] show ?thesis using u_digit_loop_reads [of "ap 0"] True by (simp add: atoi_def)
next
  case False
  then have "m s = 0x2D" using assms by (simp add: printf_def u_printint_def)
  then show ?thesis using False by (simp add: atoi_def atoi_loop.simps)
qed

theorem atoi_reads_printf_witness:
  "atoi ((\<lambda>_. 0)(5 := 0x37)) 5 = Some 7"
  using atoi_reads_printf [of "(\<lambda>_. 0)(5 := 0x37)" 5 "\<lambda>_. []" "\<lambda>_. 7"]
  by (simp add: printf_def u_printint_def u_digit_loop.simps u_digit_char_def)

section \<open>The two formatters\<close>

text \<open>The formats that both functions know: \<open>%d\<close>, \<open>%s\<close>, \<open>%%\<close>, and unknown letters.  They differ in the letters of
  hexadecimal digits and \<open>%c\<close>.\<close>

fun shared_format :: "bool \<Rightarrow> uchar list \<Rightarrow> bool" where
  "shared_format st [] = True"
| "shared_format False (c # fmt) = (if c = 0x25 then shared_format True fmt else shared_format False fmt)"
| "shared_format True (c # fmt) = (c \<noteq> 0x78 \<and> c \<noteq> 0x70 \<and> c \<noteq> 0x63 \<and> shared_format False fmt)"

lemma u_digit_char_ucast: "d < 10 \<Longrightarrow> ucast (u_digit_char d) = digit_char d"
  using u_digit_char_val [of d] by (simp add: digit_char_def algebra_simps)

lemma u_digit_loop_ucast: "map ucast (u_digit_loop False x) = digit_loop False x"
proof (induction "False" x rule: u_digit_loop.induct)
  case (1 x)
  have "unat (x mod 10) < 10" by (simp add: unat_mod)
  from u_digit_char_ucast [OF this] 1 show ?case
    by (subst u_digit_loop.simps, subst digit_loop.simps) (auto simp: Let_def)
qed

lemma u_printint_ucast: "map ucast (u_printint x False sg) = printint x False sg"
  by (simp add: u_printint_def printint_def Let_def u_digit_loop_ucast rev_map [symmetric])

lemma byte_ucast_inj: "(ucast (x :: uchar) :: uint) = ucast (y :: uchar) \<longleftrightarrow> x = y"
  by transfer simp

lemma ucast_letters:
  fixes c :: uchar
  shows "(ucast c :: uint) = 0x25 \<longleftrightarrow> c = 0x25" "(ucast c :: uint) = 0x64 \<longleftrightarrow> c = 0x64"
    "(ucast c :: uint) = 0x78 \<longleftrightarrow> c = 0x78" "(ucast c :: uint) = 0x70 \<longleftrightarrow> c = 0x70"
    "(ucast c :: uint) = 0x73 \<longleftrightarrow> c = 0x73"
  using byte_ucast_inj [of c "0x25"] byte_ucast_inj [of c "0x64"] byte_ucast_inj [of c "0x78"]
    byte_ucast_inj [of c "0x70"] byte_ucast_inj [of c "0x73"] by simp_all

lemma printf_loop_cprintf_loop:
  "shared_format False fmt \<Longrightarrow>
   map ucast (printf_loop str_at ap False fmt k) = cprintf_loop (\<lambda>a. map ucast (str_at a)) ap (map ucast fmt) k"
proof (induction fmt arbitrary: k rule: induct_list012)
  case (3 c d fmt)
  show ?case
  proof (cases "c = 0x25")
    case True
    with 3(1,3) show ?thesis by (simp add: ucast_letters u_printint_ucast)
  next
    case False
    with 3(2) [of k] 3(3) show ?thesis by (simp add: ucast_letters)
  qed
qed (simp_all add: ucast_letters)

text \<open>on the formats they share, the \<open>printf\<close> of user programs, a state machine over single characters,
  prints exactly what \<open>cprintf\<close> of the kernel prints, which looks one character ahead: also for a lone
  percent sign at the end, unknown letters and null strings.\<close>

theorem printf_agrees_with_cprintf:
  assumes "shared_format False fmt"
  shows "cprintf (\<lambda>a. map ucast (str_at a)) ap (Some (map ucast fmt)) = Ok (map ucast (printf str_at ap fmt))"
  using printf_loop_cprintf_loop [OF assms] by (simp add: cprintf_def printf_def)

theorem printf_agrees_with_cprintf_witness:
  "cprintf (\<lambda>a. map ucast ((\<lambda>_. [0x41 :: uchar]) a)) (\<lambda>_. 7) (Some (map ucast [0x25, 0x64, 0x25, 0x73, 0x25 :: uchar])) =
     Ok (map ucast [0x37, 0x41 :: uchar])"
  using printf_agrees_with_cprintf [of "[0x25, 0x64, 0x25, 0x73, 0x25]" "\<lambda>_. [0x41]" "\<lambda>_. 7"]
  by (simp add: printf_def u_printint_def u_digit_loop.simps u_digit_char_def)

section \<open>The random numbers are no multiply-with-carry\<close>

text \<open>A multiply-with-carry step keeps the carry of the product in the upper half.  With the multiplier
  \<open>4294967118\<close> the product needs 48 bits and is cut to 32: the step subtracts 178 times the lower half
  instead.\<close>

lemma minus_178: "(4294967118 :: uint) = - 178"
  by simp

lemma mwc_step_wraps: "mwc_step z = drop_bit 16 z - 178 * (z AND 0xFFFF)"
proof -
  have "(4294967118 :: uint) * x = - (178 * x)" for x
    by (simp only: minus_178 mult_minus_left)
  then show ?thesis by (simp only: mwc_step_def) simp
qed

end
