(* ===== verification/Umalloc.thy ===== *)
theory Umalloc
  imports Prelude
begin

text \<open>
  The allocator of user programs, \<open>user/umalloc.c\<close>: a ring of free blocks in the order of their
  addresses, searched first-fit from where the last search ended.

  Addresses are byte addresses; a header takes 8 bytes, \<open>h_ptr\<close> and \<open>h_size\<close> are the fields of the
  header at an address.  \<open>base_at\<close> is the address of the static variable \<open>base\<close>, below the heap.
  \<open>h_brk\<close> is the end of the heap, which \<open>sbrk\<close> moves: the kernel refuses to let it reach
  \<open>KERNBASE\<close>, and may refuse for lack of memory, which is the parameter \<open>room\<close>.  The loops follow
  pointers and may not end; \<open>None\<close> is a call that never returns.
\<close>

record uheap =
  h_ptr :: "nat \<Rightarrow> nat"
  h_size :: "nat \<Rightarrow> uint"
  freep :: "nat option"
  h_brk :: nat

abbreviation HEADER :: nat where "HEADER \<equiv> 8"

section \<open>Operations\<close>

definition block_end :: "nat \<Rightarrow> uheap \<Rightarrow> nat" where
  "block_end p s = p + HEADER * unat (h_size s p)"

text \<open>The search for the place of \<open>bp\<close> in \<open>free\<close>.\<close>

partial_function (option) free_find :: "(nat \<Rightarrow> nat) \<Rightarrow> nat \<Rightarrow> nat \<Rightarrow> nat option" where
  "free_find ptr bp p =
     (if p < bp \<and> bp < ptr p then Some p
      else if ptr p \<le> p \<and> (p < bp \<or> bp < ptr p) then Some p
      else free_find ptr bp (ptr p))"

text \<open>Linking \<open>bp\<close> in behind \<open>p\<close>, joined with its neighbours where they touch.\<close>

definition free_link :: "nat \<Rightarrow> nat \<Rightarrow> uheap \<Rightarrow> uheap" where
  "free_link bp p s =
     (let nxt = h_ptr s p;
          s1 = (if block_end bp s = nxt
                then s\<lparr>h_size := (h_size s)(bp := h_size s bp + h_size s nxt), h_ptr := (h_ptr s)(bp := h_ptr s nxt)\<rparr>
                else s\<lparr>h_ptr := (h_ptr s)(bp := nxt)\<rparr>);
          s2 = (if block_end p s1 = bp
                then s1\<lparr>h_size := (h_size s1)(p := h_size s1 p + h_size s1 bp), h_ptr := (h_ptr s1)(p := h_ptr s1 bp)\<rparr>
                else s1\<lparr>h_ptr := (h_ptr s1)(p := bp)\<rparr>)
      in s2\<lparr>freep := Some p\<rparr>)"

definition free :: "nat \<Rightarrow> uheap \<Rightarrow> uheap kres option" where
  "free ap s =
     (case freep s of
        None \<Rightarrow> Some (Panic ''null freep'')
      | Some f \<Rightarrow> map_option (\<lambda>p. Ok (free_link (ap - HEADER) p s)) (free_find (h_ptr s) (ap - HEADER) f))"

text \<open>\<open>sbrk(n)\<close> for a positive \<open>n\<close>: the old end of the heap, or \<open>None\<close> for -1.\<close>

definition sbrk :: "(nat \<Rightarrow> nat \<Rightarrow> bool) \<Rightarrow> nat \<Rightarrow> uheap \<Rightarrow> (nat \<times> uheap) option" where
  "sbrk room n s =
     (if h_brk s + n < 0x80000000 \<and> room (h_brk s) n then Some (h_brk s, s\<lparr>h_brk := h_brk s + n\<rparr>) else None)"

text \<open>\<open>nu * sizeof(Header)\<close> is an \<open>int\<close> argument of \<open>sbrk\<close>.  When it wraps to a number that is not positive,
  \<open>sbrk\<close> succeeds without growing the heap and the header is written above its end.\<close>

definition morecore :: "(nat \<Rightarrow> nat \<Rightarrow> bool) \<Rightarrow> uint \<Rightarrow> uheap \<Rightarrow> (nat option \<times> uheap) kres option" where
  "morecore room nu0 s =
     (let nu = (if nu0 < 4096 then 4096 else nu0); bytes = nu * 8 in
      if sint bytes \<le> 0 then Some (Panic ''header above the break'')
      else case sbrk room (unat bytes) s of
             None \<Rightarrow> Some (Ok (None, s))
           | Some (hp, s1) \<Rightarrow>
               okbind (free (hp + HEADER) (s1\<lparr>h_size := (h_size s1)(hp := nu)\<rparr>)) (\<lambda>s2. Some (Ok (freep s2, s2))))"

text \<open>Taking \<open>nunits\<close> from the block at \<open>p\<close>, which is large enough.\<close>

definition take_block :: "uint \<Rightarrow> nat \<Rightarrow> nat \<Rightarrow> uheap \<Rightarrow> nat \<times> uheap" where
  "take_block nunits prevp p s =
     (if h_size s p = nunits
      then (p + HEADER, s\<lparr>h_ptr := (h_ptr s)(prevp := h_ptr s p), freep := Some prevp\<rparr>)
      else let s1 = s\<lparr>h_size := (h_size s)(p := h_size s p - nunits)\<rparr>; q = block_end p s1
           in (q + HEADER, s1\<lparr>h_size := (h_size s1)(q := nunits), freep := Some prevp\<rparr>))"

partial_function (option) malloc_loop ::
    "(nat \<Rightarrow> nat \<Rightarrow> bool) \<Rightarrow> uint \<Rightarrow> nat \<Rightarrow> nat \<Rightarrow> uheap \<Rightarrow> (nat option \<times> uheap) kres option" where
  "malloc_loop room nunits prevp p s =
     (if nunits \<le> h_size s p then (case take_block nunits prevp p s of (r, s1) \<Rightarrow> Some (Ok (Some r, s1)))
      else if Some p = freep s then
        (case morecore room nunits s of
           Some (Ok (Some p1, s1)) \<Rightarrow> malloc_loop room nunits p1 (h_ptr s1 p1) s1
         | Some (Ok (None, s1)) \<Rightarrow> Some (Ok (None, s1))
         | Some (Panic m) \<Rightarrow> Some (Panic m)
         | Some (Blocked c) \<Rightarrow> Some (Blocked c)
         | None \<Rightarrow> None)
      else malloc_loop room nunits p (h_ptr s p) s)"

definition units :: "uint \<Rightarrow> uint" where
  "units nbytes = (nbytes + 8 - 1) div 8 + 1"

definition malloc :: "nat \<Rightarrow> (nat \<Rightarrow> nat \<Rightarrow> bool) \<Rightarrow> uint \<Rightarrow> uheap \<Rightarrow> (nat option \<times> uheap) kres option" where
  "malloc base_at room nbytes s =
     (let s1 = (case freep s of
                  None \<Rightarrow> s\<lparr>h_ptr := (h_ptr s)(base_at := base_at), h_size := (h_size s)(base_at := 0), freep := Some base_at\<rparr>
                | Some _ \<Rightarrow> s);
          prevp = the (freep s1)
      in malloc_loop room (units nbytes) prevp (h_ptr s1 prevp) s1)"

section \<open>The ring of free blocks\<close>

text \<open>\<open>fl\<close> lists the ring in the order of addresses; it starts with \<open>base\<close>, which has no units.  Every
  other block has some, ends before the next one starts, and lies below the break.\<close>

definition ring :: "(nat \<Rightarrow> nat) \<Rightarrow> nat list \<Rightarrow> bool" where
  "ring ptr fl \<longleftrightarrow> fl \<noteq> [] \<and> map ptr fl = rotate1 fl"

definition before :: "uheap \<Rightarrow> nat \<Rightarrow> nat \<Rightarrow> bool" where
  "before s a b \<longleftrightarrow> a + HEADER \<le> b \<and> block_end a s \<le> b"

definition heap_list :: "nat \<Rightarrow> nat list \<Rightarrow> uheap \<Rightarrow> bool" where
  "heap_list base_at fl s \<longleftrightarrow> ring (h_ptr s) fl \<and> sorted_wrt (before s) fl \<and> hd fl = base_at \<and> h_size s base_at = 0 \<and>
     (\<forall>a\<in>set (tl fl). 0 < h_size s a \<and> block_end a s \<le> h_brk s) \<and> base_at + HEADER \<le> h_brk s \<and> h_brk s < 0x80000000"

definition heap_ok :: "nat \<Rightarrow> nat list \<Rightarrow> uheap \<Rightarrow> bool" where
  "heap_ok base_at fl s \<longleftrightarrow> heap_list base_at fl s \<and> (\<exists>f\<in>set fl. freep s = Some f)"

text \<open>The bytes of a block and of all free blocks.\<close>

definition span :: "uheap \<Rightarrow> nat \<Rightarrow> nat set" where
  "span s a = {a ..< block_end a s}"

definition free_bytes :: "nat list \<Rightarrow> uheap \<Rightarrow> nat set" where
  "free_bytes fl s = (\<Union>a\<in>set fl. span s a)"

subsection \<open>Rings\<close>

fun path :: "(nat \<Rightarrow> nat) \<Rightarrow> nat \<Rightarrow> nat list \<Rightarrow> bool" where
  "path ptr a [] = True"
| "path ptr a (x # xs) = (ptr a = x \<and> path ptr x xs)"

lemma path_append: "path ptr a (xs @ ys) \<longleftrightarrow> path ptr a xs \<and> path ptr (last (a # xs)) ys"
  by (induction xs arbitrary: a) auto

lemma path_map: "path ptr a xs \<longleftrightarrow> map ptr (butlast (a # xs)) = xs"
  by (induction xs arbitrary: a) auto

lemma ring_split:
  "ring ptr (xs @ a # ys) \<longleftrightarrow> path ptr (hd (xs @ [a])) (tl (xs @ [a]) @ ys) \<and> ptr (last (a # ys)) = hd (xs @ [a])"
proof -
  obtain b bs where l: "xs @ a # ys = b # bs" by (cases xs) auto
  then have hd: "hd (xs @ [a]) = b" "tl (xs @ [a]) @ ys = bs" by (cases xs; auto)+
  have last: "last (a # ys) = last (b # bs)" using l by (metis last_appendR list.distinct(1))
  have "map ptr (b # bs) = map ptr (butlast (b # bs)) @ [ptr (last (b # bs))]"
    by (metis append_butlast_last_id list.distinct(1) list.simps(8) list.simps(9) map_append)
  then show ?thesis unfolding l hd last by (simp add: ring_def path_map)
qed

lemma ring_path:
  assumes "ring ptr (xs @ a # ys)"
  shows "path ptr a (ys @ xs @ [a])"
proof -
  obtain h t where ht: "xs @ [a] = h # t" by (cases "xs @ [a]") auto
  then have "last (h # t) = a" by (metis last_snoc)
  then show ?thesis using assms unfolding ring_split ht path_append [of ptr a ys] by (simp add: path_append)
qed

lemma ring_next: "ring ptr (xs @ a # b # ys) \<Longrightarrow> ptr a = b"
  using ring_path [of ptr xs a "b # ys"] by simp

lemma ring_last: "ring ptr (xs @ [a]) \<Longrightarrow> ptr a = hd (xs @ [a])"
  using ring_split [of ptr xs a "[]"] by simp

lemma ring_inj: "ring ptr fl \<Longrightarrow> distinct fl \<Longrightarrow> a \<in> set fl \<Longrightarrow> b \<in> set fl \<Longrightarrow> ptr a = ptr b \<Longrightarrow> a = b"
  unfolding ring_def by (metis distinct1_rotate distinct_map inj_onD)

lemma ring_closed: "ring ptr fl \<Longrightarrow> a \<in> set fl \<Longrightarrow> ptr a \<in> set fl"
  unfolding ring_def by (metis image_eqI list.set_map set_rotate1)

lemma path_cong: "(\<And>x. x \<in> set (butlast (a # xs)) \<Longrightarrow> ptr' x = ptr x) \<Longrightarrow> path ptr' a xs = path ptr a xs"
  unfolding path_map by (metis map_cong)

text \<open>Linking a new element in, and taking one out.\<close>

lemma rotate1_map_eq: "ring ptr fl \<longleftrightarrow> (\<exists>a as. fl = a # as \<and> map ptr (a # as) = as @ [a])"
  by (cases fl) (auto simp: ring_def)

lemma ring_insert:
  assumes "ring ptr (xs @ p # ys)" "distinct (xs @ p # ys)" "b \<notin> set (xs @ p # ys)"
  shows "ring (ptr(b := ptr p, p := b)) (xs @ p # b # ys)"
proof -
  let ?q = "ptr(b := ptr p, p := b)"
  have r: "path ptr (hd (xs @ [p])) (tl (xs @ [p]))" "path ptr p ys" "ptr (last (p # ys)) = hd (xs @ [p])"
    using assms(1) unfolding ring_split path_append by (cases xs; auto)+
  have "path ?q (hd (xs @ [p])) (tl (xs @ [p]))"
    by (subst path_cong [where ptr = ptr]) (use r(1) assms(2,3) in \<open>cases xs; auto simp: butlast_append\<close>)+
  moreover have "path ?q b ys"
  proof (cases ys)
    case (Cons y zs)
    have "path ?q y zs"
      by (subst path_cong [where ptr = ptr]) (use assms(2,3) Cons in \<open>auto dest: in_set_butlastD split: if_splits\<close>, use r(2) Cons in simp)
    then show ?thesis using r(2) Cons assms(3) by auto
  qed simp
  moreover have "?q (last (b # ys)) = hd (xs @ [p])"
  proof (cases ys rule: rev_cases)
    case Nil
    then show ?thesis using r(3) assms(3) by auto
  next
    case (snoc zs z)
    then show ?thesis using r(3) assms(2,3) by auto
  qed
  ultimately show ?thesis unfolding ring_split path_append by (cases xs) (auto simp: path_append)
qed

lemma ring_remove:
  assumes "ring ptr (xs @ p # b # ys)" "distinct (xs @ p # b # ys)"
  shows "ring (ptr(p := ptr b)) (xs @ p # ys)"
proof -
  let ?q = "ptr(p := ptr b)"
  have r: "path ptr (hd (xs @ [p])) (tl (xs @ [p]))" "path ptr b ys" "ptr (last (b # ys)) = hd (xs @ [p])"
    using assms(1) unfolding ring_split path_append by (cases xs; auto)+
  have "path ?q (hd (xs @ [p])) (tl (xs @ [p]))"
    by (subst path_cong [where ptr = ptr]) (use r(1) assms(2) in \<open>cases xs; auto simp: butlast_append\<close>)+
  moreover have "path ?q p ys"
  proof (cases ys)
    case (Cons y zs)
    have "path ?q y zs"
      by (subst path_cong [where ptr = ptr]) (use assms(2) Cons in \<open>auto dest: in_set_butlastD split: if_splits\<close>, use r(2) Cons in simp)
    then show ?thesis using r(2) Cons by auto
  qed simp
  moreover have "?q (last (p # ys)) = hd (xs @ [p])"
    using r(3) assms(2) by (cases ys rule: rev_cases) auto
  ultimately show ?thesis unfolding ring_split path_append by (cases xs) (auto simp: path_append)
qed

subsection \<open>Linking and joining blocks\<close>

lemma before_less: "before s a b \<Longrightarrow> a < b"
  by (simp add: before_def)

lemma heap_sorted: "heap_list base_at fl s \<Longrightarrow> sorted_wrt (<) fl"
  unfolding heap_list_def by (auto elim: sorted_wrt_mono_rel [rotated] dest: before_less)

lemma heap_distinct: "heap_list base_at fl s \<Longrightarrow> distinct fl"
  using heap_sorted strict_sorted_iff by blast

lemma heap_ring: "heap_list base_at fl s \<Longrightarrow> ring (h_ptr s) fl"
  by (simp add: heap_list_def)

lemma heap_cons: "heap_list base_at fl s \<Longrightarrow> \<exists>as. fl = base_at # as"
  by (cases fl) (auto simp: heap_list_def ring_def)

text \<open>Two views of the code of \<open>free_link\<close>: linking in, then joining a block with the next one of the ring.\<close>

definition link_in :: "nat \<Rightarrow> nat \<Rightarrow> uheap \<Rightarrow> uheap" where
  "link_in bp p s = s\<lparr>h_ptr := (h_ptr s)(bp := h_ptr s p, p := bp)\<rparr>"

definition absorb :: "nat \<Rightarrow> uheap \<Rightarrow> uheap" where
  "absorb a s = s\<lparr>h_size := (h_size s)(a := h_size s a + h_size s (h_ptr s a)), h_ptr := (h_ptr s)(a := h_ptr s (h_ptr s a))\<rparr>"

lemma free_link_steps:
  assumes "p < bp" "h_ptr s p \<noteq> bp"
  shows "free_link bp p s =
    (let s1 = link_in bp p s;
         s2 = (if block_end bp s1 = h_ptr s1 bp then absorb bp s1 else s1);
         s3 = (if block_end p s2 = bp then absorb p s2 else s2)
     in s3\<lparr>freep := Some p\<rparr>)"
proof -
  have "block_end bp s \<noteq> p" using assms(1) by (simp add: block_end_def)
  then show ?thesis
    using assms by (auto simp: free_link_def link_in_def absorb_def Let_def block_end_def fun_upd_twist)
qed

lemma heap_link_in:
  assumes h: "heap_list base_at (xs @ p # ys) s" and bp: "0 < h_size s bp" "block_end bp s \<le> h_brk s"
    and ls: "\<And>x. x \<in> set (xs @ [p]) \<Longrightarrow> before s x bp" and rs: "\<And>y. y \<in> set ys \<Longrightarrow> before s bp y"
  shows "heap_list base_at (xs @ p # bp # ys) (link_in bp p s)"
    "free_bytes (xs @ p # bp # ys) (link_in bp p s) = free_bytes (xs @ p # ys) s \<union> span s bp"
proof -
  have sz: "h_size (link_in bp p s) = h_size s" "h_brk (link_in bp p s) = h_brk s" by (simp_all add: link_in_def)
  have be: "block_end a (link_in bp p s) = block_end a s" "before (link_in bp p s) = before s"
    "span (link_in bp p s) = span s" for a by (auto simp: block_end_def before_def span_def sz fun_eq_iff)
  have "bp \<notin> set (xs @ p # ys)" using ls rs by (auto dest!: before_less)
  then have "ring (h_ptr (link_in bp p s)) (xs @ p # bp # ys)"
    using ring_insert [OF heap_ring [OF h] heap_distinct [OF h]] by (simp add: link_in_def)
  moreover have "sorted_wrt (before s) (xs @ p # bp # ys)"
    using h ls rs unfolding heap_list_def by (auto simp: sorted_wrt_append)
  moreover have "hd (xs @ p # bp # ys) = hd (xs @ p # ys)" "set (tl (xs @ p # bp # ys)) = insert bp (set (tl (xs @ p # ys)))"
    by (cases xs; auto)+
  ultimately show "heap_list base_at (xs @ p # bp # ys) (link_in bp p s)"
    using h bp unfolding heap_list_def be sz by auto
  show "free_bytes (xs @ p # bp # ys) (link_in bp p s) = free_bytes (xs @ p # ys) s \<union> span s bp"
    by (auto simp: free_bytes_def be)
qed

lemma unat_size_add:
  assumes "a + HEADER * (unat x + unat y) < 0x80000000"
  shows "unat (x + y :: uint) = unat x + unat y"
  using assms by (intro unat_add_lem [THEN iffD1]) simp

lemma heap_absorb:
  assumes h: "heap_list base_at (xs @ a # b # ys) s" and e: "block_end a s = b"
  shows "heap_list base_at (xs @ a # ys) (absorb a s)"
    "free_bytes (xs @ a # ys) (absorb a s) = free_bytes (xs @ a # b # ys) s"
    "span (absorb a s) a = span s a \<union> span s b"
proof -
  have nxt: "h_ptr s a = b" by (rule ring_next [OF heap_ring [OF h]])
  have d: "distinct (xs @ a # b # ys)" by (rule heap_distinct [OF h])
  have hd: "hd (xs @ a # b # ys) = base_at" "h_size s base_at = 0" "h_brk s < 0x80000000" using h by (simp_all add: heap_list_def)
  have "before s a b" using h by (simp add: heap_list_def sorted_wrt_append)
  then have ab: "a < b" by (rule before_less)
  have "a \<noteq> base_at" using e ab hd(2) by (auto simp: block_end_def)
  then have xs: "xs \<noteq> []" using hd(1) by auto
  have tl: "set (tl (xs @ zs)) = set (tl xs) \<union> set zs" for zs using xs by (cases xs) auto
  have b: "0 < h_size s b" "block_end b s \<le> h_brk s" "0 < h_size s a"
    using h tl [of "a # b # ys"] by (simp_all add: heap_list_def)
  have e2: "b = a + HEADER * unat (h_size s a)" using e by (simp add: block_end_def)
  have sum: "unat (h_size s a + h_size s b) = unat (h_size s a) + unat (h_size s b)"
    by (rule unat_size_add [of a]) (use b(2) e2 hd(3) in \<open>simp add: block_end_def algebra_simps\<close>)
  have enda: "block_end a (absorb a s) = block_end b s"
    using nxt sum e2 by (simp add: absorb_def block_end_def algebra_simps)
  have pos: "0 < h_size s a + h_size s b"
    using sum b(1) by (metis add_gr_0 unat_gt_0 word_gt_0)
  have other: "block_end x (absorb a s) = block_end x s" "h_size (absorb a s) x = h_size s x" if "x \<noteq> a" for x
    using that by (simp_all add: absorb_def block_end_def)
  have brk: "h_brk (absorb a s) = h_brk s" by (simp add: absorb_def)
  have beb: "b \<le> block_end b s" by (simp add: block_end_def)
  have bef: "before s x y" if "x \<in> set xs" "y \<in> set (a # b # ys)" for x y
    using h that by (auto simp: heap_list_def sorted_wrt_append)
  have bef2: "before s b y" "before s a y" if "y \<in> set ys" for y
    using h that by (auto simp: heap_list_def sorted_wrt_append)
  have srt: "sorted_wrt (before s) xs" "sorted_wrt (before s) ys" using h by (auto simp: heap_list_def sorted_wrt_append)
  have same: "before (absorb a s) x y = before s x y" if "x \<noteq> a" for x y
    using other(1) [OF that] by (simp add: before_def)
  have "sorted_wrt (before (absorb a s)) xs" "sorted_wrt (before (absorb a s)) ys"
    using d by (auto intro!: sorted_wrt_mono_rel [OF _ srt(1)] sorted_wrt_mono_rel [OF _ srt(2)] iffD2 [OF same])
  moreover have "before (absorb a s) x y" if "x \<in> set xs" "y \<in> set (a # ys)" for x y
    using bef [of x y] that d same [of x y] by auto
  moreover have "before (absorb a s) a y" if "y \<in> set ys" for y
    using bef2 [OF that] enda ab by (simp add: before_def)
  ultimately have "sorted_wrt (before (absorb a s)) (xs @ a # ys)" by (auto simp: sorted_wrt_append)
  moreover have "ring (h_ptr (absorb a s)) (xs @ a # ys)"
    using ring_remove [OF heap_ring [OF h] d] nxt by (simp add: absorb_def)
  moreover have "h_size (absorb a s) base_at = 0" using other(2) \<open>a \<noteq> base_at\<close> hd(2) by simp
  moreover have "0 < h_size (absorb a s) x \<and> block_end x (absorb a s) \<le> h_brk s" if "x \<in> set (tl (xs @ a # ys))" for x
  proof (cases "x = a")
    case True
    then show ?thesis using enda b pos nxt by (simp add: absorb_def)
  next
    case False
    then show ?thesis using that h tl other unfolding heap_list_def by auto
  qed
  moreover have "hd (xs @ a # ys) = base_at" using hd(1) xs by (cases xs) auto
  ultimately show "heap_list base_at (xs @ a # ys) (absorb a s)"
    using h by (simp add: heap_list_def brk)
  show sp: "span (absorb a s) a = span s a \<union> span s b"
    using enda e ab beb by (auto simp: span_def)
  have "span (absorb a s) x = span s x" if "x \<in> set xs \<union> set ys" for x
  proof -
    have "x \<noteq> a" using that d by auto
    then show ?thesis by (simp add: span_def other(1))
  qed
  then have "free_bytes xs (absorb a s) = free_bytes xs s" "free_bytes ys (absorb a s) = free_bytes ys s"
    unfolding free_bytes_def by simp_all
  with sp show "free_bytes (xs @ a # ys) (absorb a s) = free_bytes (xs @ a # b # ys) s"
    by (auto simp: free_bytes_def)
qed

subsection \<open>\<open>free\<close>\<close>

lemma heap_list_freep [simp]: "heap_list base_at fl (s\<lparr>freep := f\<rparr>) = heap_list base_at fl s"
  "free_bytes fl (s\<lparr>freep := f\<rparr>) = free_bytes fl s" "span (s\<lparr>freep := f\<rparr>) = span s"
proof -
  have "block_end a (s\<lparr>freep := f\<rparr>) = block_end a s" for a by (simp add: block_end_def)
  then show "heap_list base_at fl (s\<lparr>freep := f\<rparr>) = heap_list base_at fl s"
    "free_bytes fl (s\<lparr>freep := f\<rparr>) = free_bytes fl s" "span (s\<lparr>freep := f\<rparr>) = span s"
    by (simp_all add: heap_list_def before_def [abs_def] free_bytes_def span_def fun_eq_iff)
qed

lemma free_find_path:
  "path ptr f ms \<Longrightarrow> p \<in> set (f # ms) \<Longrightarrow>
   (\<And>x. x \<in> set (f # ms) \<Longrightarrow> (x < bp \<and> bp < ptr x \<or> ptr x \<le> x \<and> (x < bp \<or> bp < ptr x)) \<longleftrightarrow> x = p) \<Longrightarrow>
   free_find ptr bp f = Some p"
proof (induction ms arbitrary: f)
  case Nil
  then show ?case by (subst free_find.simps) auto
next
  case (Cons m ms)
  show ?case
  proof (cases "f = p")
    case True
    with Cons.prems(3) [of f] show ?thesis by (subst free_find.simps) auto
  next
    case False
    have "free_find ptr bp m = Some p"
    proof (rule Cons.IH)
      show "path ptr m ms" "p \<in> set (m # ms)" using Cons.prems(1,2) False by auto
    qed (use Cons.prems(3) in auto)
    with Cons.prems(1) Cons.prems(3) [of f] False show ?thesis by (subst free_find.simps) auto
  qed
qed

text \<open>The search ends at the last block below \<open>bp\<close>, from wherever in the ring it starts.\<close>

lemma free_find_ring:
  assumes r: "ring ptr (xs @ p # ys)" and srt: "sorted_wrt (<) (xs @ p # ys)"
    and ls: "\<forall>x\<in>set (xs @ [p]). x < bp" and rs: "\<forall>y\<in>set ys. bp < y" and f: "f \<in> set (xs @ p # ys)"
  shows "free_find ptr bp f = Some p"
proof -
  have stop: "(x < bp \<and> bp < ptr x \<or> ptr x \<le> x \<and> (x < bp \<or> bp < ptr x)) \<longleftrightarrow> x = p" if x: "x \<in> set (xs @ p # ys)" for x
  proof -
    consider "x \<in> set xs" | "x = p" | "x \<in> set ys" using x by auto
    then show ?thesis
    proof cases
      case 1
      then obtain l1 l2 where l: "xs = l1 @ x # l2" by (meson split_list)
      obtain z zs where z: "l2 @ p # ys = z # zs" "z \<in> set (l2 @ [p])" by (cases l2) auto
      have "ptr x = z" using r l z(1) ring_next [of ptr l1 x z zs] by simp
      moreover have "x < p" "\<forall>y\<in>set (z # zs). x < y" using srt unfolding l by (auto simp: sorted_wrt_append simp flip: z(1))
      moreover have "z < bp" using ls l z(2) by auto
      ultimately show ?thesis by auto
    next
      case 2
      show ?thesis
      proof (cases ys)
        case Nil
        then have "ptr p = hd (xs @ [p])" using r ring_last by simp
        moreover have "hd (xs @ [p]) \<le> p" using srt Nil by (cases xs) auto
        ultimately show ?thesis using 2 ls by auto
      next
        case (Cons y zs)
        then have "ptr p = y" using r ring_next by simp
        then show ?thesis using 2 ls rs Cons by auto
      qed
    next
      case 3
      then obtain l1 l2 where l: "ys = l1 @ x # l2" by (meson split_list)
      have xp: "bp < x" "x \<noteq> p" using 3 rs ls by auto
      have lo: "hd (xs @ p # ys) < bp" using ls by (cases xs) auto
      show ?thesis
      proof (cases l2)
        case Nil
        then have "ptr x = hd (xs @ p # ys)" using r l ring_last [of ptr "xs @ p # l1" x] by (simp add: hd_append)
        then show ?thesis using xp lo by auto
      next
        case (Cons y zs)
        then have "ptr x = y" using r l ring_next [of ptr "xs @ p # l1" x y zs] by simp
        moreover have "x < y" using srt l Cons by (auto simp: sorted_wrt_append)
        ultimately show ?thesis using xp by auto
      qed
    qed
  qed
  from f obtain l1 l2 where l: "xs @ p # ys = l1 @ f # l2" by (meson split_list)
  have "path ptr f (l2 @ l1 @ [f])" using r unfolding l by (rule ring_path)
  moreover have "set (f # l2 @ l1 @ [f]) = set (xs @ p # ys)" unfolding l by auto
  ultimately show ?thesis using stop by (intro free_find_path [where ms = "l2 @ l1 @ [f]"]) auto
qed

lemma span_before:
  assumes "heap_list base_at fl s" "x \<in> set fl" "base_at + HEADER \<le> bp" "0 < h_size s bp"
    and "span s bp \<inter> free_bytes fl s = {}"
  shows "x < bp \<Longrightarrow> before s x bp" "x \<noteq> bp" "bp < x \<Longrightarrow> before s bp x"
proof -
  have in_bp: "bp \<in> span s bp" using assms(4) by (simp add: span_def block_end_def word_gt_0 unat_gt_0)
  have sub: "span s x \<subseteq> free_bytes fl s" using assms(2) by (auto simp: free_bytes_def)
  have x: "x = base_at \<or> 0 < h_size s x" using assms(1,2) heap_cons [OF assms(1)] by (auto simp: heap_list_def)
  have hdr: "x + HEADER \<le> block_end x s" if "0 < h_size s x"
    using that by (simp add: block_end_def) (metis One_nat_def Suc_leI mult.commute mult_le_mono2 mult_1_right unat_gt_0 word_neq_0_conv)
  have hdrb: "bp + HEADER \<le> block_end bp s"
    using assms(4) by (simp add: block_end_def) (metis One_nat_def Suc_leI mult.commute mult_le_mono2 mult_1_right unat_gt_0 word_neq_0_conv)
  have base: "block_end base_at s = base_at" using assms(1) by (simp add: block_end_def heap_list_def)
  show "before s x bp" if "x < bp"
  proof (cases "x = base_at")
    case False
    then have "0 < h_size s x" using x by blast
    moreover have "block_end x s \<le> bp"
    proof (rule ccontr)
      assume "\<not> block_end x s \<le> bp"
      then have "bp \<in> span s x" using that by (simp add: span_def)
      then show False using sub assms(5) in_bp by blast
    qed
    ultimately show ?thesis using hdr by (simp add: before_def)
  qed (use assms(3) base in \<open>simp add: before_def\<close>)
  show "x \<noteq> bp"
    using x sub assms(3,5) in_bp by auto
  show "before s bp x" if "bp < x"
  proof -
    have "0 < h_size s x" using x that assms(3) by auto
    then have "x \<in> span s x" using hdr by (simp add: span_def)
    then have "x \<notin> span s bp" using sub assms(5) by auto
    then show ?thesis using that hdrb by (auto simp: before_def span_def)
  qed
qed

lemma free_block:
  assumes ok: "heap_ok base_at fl s" and bp: "base_at + HEADER \<le> bp" "0 < h_size s bp" "block_end bp s \<le> h_brk s"
    "span s bp \<inter> free_bytes fl s = {}"
  shows "\<exists>fl' s'. free (bp + HEADER) s = Some (Ok s') \<and> heap_ok base_at fl' s' \<and>
    free_bytes fl' s' = free_bytes fl s \<union> span s bp \<and> h_brk s' = h_brk s \<and>
    (\<forall>x. x \<notin> insert bp (set fl) \<longrightarrow> h_size s' x = h_size s x) \<and> (\<exists>b\<in>set fl'. span s bp \<subseteq> span s' b)"
proof -
  have h: "heap_list base_at fl s" using ok by (simp add: heap_ok_def)
  obtain f where f: "f \<in> set fl" "freep s = Some f" using ok by (auto simp: heap_ok_def)
  note sp = span_before [OF h _ bp(1,2,4)]
  have srt: "sorted_wrt (<) fl" by (rule heap_sorted [OF h])
  define L ys where "L = takeWhile (\<lambda>x. x < bp) fl" and "ys = dropWhile (\<lambda>x. x < bp) fl"
  have LY: "fl = L @ ys" by (simp add: L_def ys_def)
  have "L \<noteq> []" using heap_cons [OF h] bp(1) by (auto simp: L_def)
  then obtain xs p where L: "L = xs @ [p]" by (metis rev_exhaust)
  then have fl': "fl = xs @ p # ys" using LY by simp
  have lt: "\<forall>x\<in>set (xs @ [p]). x < bp" using L unfolding L_def by (metis set_takeWhileD)
  have gt': "\<forall>y\<in>set ys. bp < y"
  proof
    fix y assume y: "y \<in> set ys"
    then obtain z zs where z: "ys = z # zs" by (cases ys) auto
    then have "\<not> z < bp" unfolding ys_def by (metis hd_dropWhile list.distinct(1) list.sel(1))
    moreover have "z \<le> y" using srt y z unfolding fl' by (auto simp: sorted_wrt_append)
    moreover have "y \<noteq> bp" using sp(2) [of y] y fl' by auto
    ultimately show "bp < y" by simp
  qed
  have find: "free_find (h_ptr s) bp f = Some p"
    using free_find_ring [of "h_ptr s" xs p ys bp f] heap_ring [OF h] srt f(1) lt gt' fl' by simp
  have pn: "p < bp" "h_ptr s p \<noteq> bp"
    using lt ring_closed [OF heap_ring [OF h], of p] sp(2) fl' by auto
  let ?s1 = "link_in bp p s"
  let ?s2 = "if block_end bp ?s1 = h_ptr ?s1 bp then absorb bp ?s1 else ?s1"
  let ?s3 = "if block_end p ?s2 = bp then absorb p ?s2 else ?s2"
  have free: "free (bp + HEADER) s = Some (Ok (?s3\<lparr>freep := Some p\<rparr>))"
    using f(2) find free_link_steps [OF pn] by (simp add: free_def Let_def)
  have h1: "heap_list base_at (xs @ p # bp # ys) ?s1"
    "free_bytes (xs @ p # bp # ys) ?s1 = free_bytes fl s \<union> span s bp"
  proof -
    have a: "before s x bp" if "x \<in> set (xs @ [p])" for x using sp(1) [of x] that lt fl' by auto
    have b: "before s bp y" if "y \<in> set ys" for y using sp(3) [of y] that gt' fl' by auto
    show "heap_list base_at (xs @ p # bp # ys) ?s1" "free_bytes (xs @ p # bp # ys) ?s1 = free_bytes fl s \<union> span s bp"
      using heap_link_in [OF h [unfolded fl'] bp(2,3) a b] fl' by auto
  qed
  have sp1: "span ?s1 bp = span s bp" "h_brk ?s1 = h_brk s" "h_size ?s1 = h_size s"
    by (simp_all add: span_def block_end_def link_in_def)
  have s2: "\<exists>ys2. heap_list base_at (xs @ p # bp # ys2) ?s2 \<and> set ys2 \<subseteq> set ys \<and>
    free_bytes (xs @ p # bp # ys2) ?s2 = free_bytes fl s \<union> span s bp \<and> span s bp \<subseteq> span ?s2 bp"
  proof (cases "block_end bp ?s1 = h_ptr ?s1 bp")
    case True
    have "ys \<noteq> []"
    proof
      assume "ys = []"
      then have "h_ptr ?s1 bp = hd ((xs @ [p]) @ [bp])"
        using ring_last [of "h_ptr ?s1" "xs @ [p]" bp] heap_ring [OF h1(1)] by simp
      moreover have "hd ((xs @ [p]) @ [bp]) < bp" using lt by (cases xs) auto
      ultimately show False using True by (simp add: block_end_def)
    qed
    then obtain y ys2 where ys: "ys = y # ys2" by (cases ys) auto
    have "h_ptr ?s1 bp = y" using ring_next [of "h_ptr ?s1" "xs @ [p]" bp y ys2] heap_ring [OF h1(1)] ys by simp
    with True heap_absorb [of base_at "xs @ [p]" bp y ys2 ?s1] h1 ys sp1 show ?thesis
      by (intro exI [of _ ys2]) auto
  next
    case False
    with h1 sp1 show ?thesis by (intro exI [of _ ys]) auto
  qed
  then obtain ys2 where ys2: "heap_list base_at (xs @ p # bp # ys2) ?s2" "set ys2 \<subseteq> set ys"
    "free_bytes (xs @ p # bp # ys2) ?s2 = free_bytes fl s \<union> span s bp" "span s bp \<subseteq> span ?s2 bp" by blast
  have s3: "\<exists>fl3. heap_list base_at fl3 ?s3 \<and> p \<in> set fl3 \<and> free_bytes fl3 ?s3 = free_bytes fl s \<union> span s bp \<and>
    (\<exists>b\<in>set fl3. span s bp \<subseteq> span ?s3 b)"
  proof (cases "block_end p ?s2 = bp")
    case True
    from heap_absorb [OF ys2(1) True] True ys2 show ?thesis by (intro exI [of _ "xs @ p # ys2"]) auto
  next
    case False
    with ys2 show ?thesis by (intro exI [of _ "xs @ p # bp # ys2"]) auto
  qed
  then obtain fl3 where fl3: "heap_list base_at fl3 ?s3" "p \<in> set fl3" "free_bytes fl3 ?s3 = free_bytes fl s \<union> span s bp"
    "\<exists>b\<in>set fl3. span s bp \<subseteq> span ?s3 b" by blast
  have "h_brk ?s3 = h_brk s" "\<forall>x. x \<notin> insert bp (set fl) \<longrightarrow> h_size ?s3 x = h_size s x"
    using sp1 fl' by (auto simp: absorb_def)
  with fl3 free show ?thesis
    by (intro exI [of _ fl3] exI [of _ "?s3\<lparr>freep := Some p\<rparr>"]) (simp add: heap_ok_def)
qed

subsection \<open>\<open>malloc\<close>\<close>

lemma block_end_upd [simp]: "block_end a (s\<lparr>h_ptr := f\<rparr>) = block_end a s" "block_end a (s\<lparr>freep := g\<rparr>) = block_end a s"
  "block_end a (s\<lparr>h_brk := b\<rparr>) = block_end a s"
  by (simp_all add: block_end_def)

lemma span_upd [simp]: "span (s\<lparr>h_ptr := f\<rparr>) = span s" "span (s\<lparr>h_brk := b\<rparr>) = span s"
  by (simp_all add: span_def fun_eq_iff)

lemma spans_apart:
  assumes "heap_list base_at fl s" "a \<in> set fl" "b \<in> set fl" "a \<noteq> b"
  shows "span s a \<inter> span s b = {}"
proof -
  obtain i j where ij: "i < length fl" "j < length fl" "fl ! i = a" "fl ! j = b"
    using assms(2,3) by (auto simp: in_set_conv_nth)
  then have "i < j \<or> j < i" using assms(4) by (metis linorder_neqE_nat)
  moreover have "before s (fl ! i) (fl ! j)" if "i < j" "j < length fl" for i j
    using assms(1) that by (simp add: heap_list_def sorted_wrt_iff_nth_less)
  ultimately have "before s a b \<or> before s b a" using ij by blast
  then show ?thesis by (auto simp: span_def before_def)
qed

lemma free_bytes_remove:
  assumes "heap_list base_at (xs @ p # ys) s"
  shows "free_bytes (xs @ ys) s = free_bytes (xs @ p # ys) s - span s p"
proof -
  have "span s x \<inter> span s p = {}" if "x \<in> set (xs @ ys)" for x
    using spans_apart [OF assms, of x p] heap_distinct [OF assms] that by auto
  then show ?thesis unfolding free_bytes_def by fastforce
qed

lemma size_pos_not_base: "heap_list base_at fl s \<Longrightarrow> p \<in> set fl \<Longrightarrow> 0 < h_size s p \<Longrightarrow> \<exists>xs z ys. fl = xs @ z # p # ys"
proof -
  assume h: "heap_list base_at fl s" and p: "p \<in> set fl" "0 < h_size s p"
  obtain as where as: "fl = base_at # as" using heap_cons [OF h] by blast
  have "h_size s base_at = 0" using h by (simp add: heap_list_def)
  then have "p \<in> set as" using p as by auto
  then obtain l ys where l: "as = l @ p # ys" by (meson split_list)
  obtain xs z where "base_at # l = xs @ [z]" by (metis list.distinct(1) rev_exhaust)
  then have "fl = xs @ z # p # ys" using as l by (metis append.assoc append_Cons append_Nil)
  then show ?thesis by blast
qed

lemma take_block_ok:
  assumes ok: "heap_ok base_at fl s" and p: "p \<in> set fl" "prevp \<in> set fl" "h_ptr s prevp = p"
    and n: "0 < nunits" "nunits \<le> h_size s p"
  shows "\<exists>fl' s' q. take_block nunits prevp p s = (q + HEADER, s') \<and> heap_ok base_at fl' s' \<and> h_size s' q = nunits \<and>
    base_at + HEADER \<le> q \<and> span s' q \<subseteq> free_bytes fl s \<and> free_bytes fl' s' = free_bytes fl s - span s' q \<and>
    h_brk s' = h_brk s \<and> (\<forall>x. x \<notin> insert q (set fl) \<longrightarrow> h_size s' x = h_size s x)"
proof -
  have h: "heap_list base_at fl s" using ok by (simp add: heap_ok_def)
  have pos: "0 < h_size s p" using n by (metis order_less_le_trans)
  obtain xs z ys where fl: "fl = xs @ z # p # ys" using size_pos_not_base [OF h p(1) pos] by blast
  have "z = prevp"
    using ring_inj [OF heap_ring [OF h] heap_distinct [OF h], of z prevp] ring_next [of "h_ptr s" xs z p ys] heap_ring [OF h] p fl by auto
  note fl = fl [unfolded this]
  have bp: "before s base_at p"
    using h fl heap_cons [OF h] unfolding heap_list_def by (cases xs) auto
  have srt: "sorted_wrt (before s) fl" using h by (simp add: heap_list_def)
  show ?thesis
  proof (cases "h_size s p = nunits")
    case True
    let ?s = "s\<lparr>h_ptr := (h_ptr s)(prevp := h_ptr s p), freep := Some prevp\<rparr>"
    have be: "block_end a ?s = block_end a s" for a by simp
    have same: "before ?s = before s" "span ?s = span s" by (simp_all add: before_def span_def fun_eq_iff be)
    have "ring (h_ptr ?s) (xs @ prevp # ys)"
      using ring_remove [of "h_ptr s" xs prevp p ys] heap_ring [OF h] heap_distinct [OF h] fl by simp
    moreover have "sorted_wrt (before s) (xs @ prevp # ys)" using srt fl by (auto simp: sorted_wrt_append)
    moreover have "hd (xs @ prevp # ys) = hd fl" "set (tl (xs @ prevp # ys)) \<subseteq> set (tl fl)" using fl by (cases xs; auto)+
    ultimately have "heap_list base_at (xs @ prevp # ys) ?s" using h unfolding heap_list_def same be by auto
    then have "heap_ok base_at (xs @ prevp # ys) ?s" by (simp add: heap_ok_def)
    moreover have "free_bytes (xs @ prevp # ys) ?s = free_bytes fl s - span s p"
      using free_bytes_remove [of base_at "xs @ [prevp]" p ys s] h fl by (simp add: free_bytes_def same)
    moreover have "span s p \<subseteq> free_bytes fl s" using p(1) by (auto simp: free_bytes_def)
    ultimately show ?thesis
      using True bp by (intro exI [of _ "xs @ prevp # ys"] exI [of _ ?s] exI [of _ p]) (simp add: take_block_def same before_def)
  next
    case False
    then have lt: "nunits < h_size s p" using n(2) by simp
    let ?s1 = "s\<lparr>h_size := (h_size s)(p := h_size s p - nunits)\<rparr>"
    define q where "q = block_end p ?s1"
    let ?s = "?s1\<lparr>h_size := (h_size ?s1)(q := nunits), freep := Some prevp\<rparr>"
    have un: "unat (h_size s p - nunits) = unat (h_size s p) - unat nunits" "unat nunits < unat (h_size s p)"
      using lt by (simp_all add: unat_sub word_less_nat_alt word_le_nat_alt)
    have pn: "0 < unat nunits" using n(1) by (simp add: word_less_nat_alt)
    have q: "q = p + HEADER * (unat (h_size s p) - unat nunits)" by (simp add: q_def block_end_def un)
    then have qq: "p + HEADER \<le> q" "q + HEADER * unat nunits = block_end p s" "q < block_end p s"
      using un pn by (auto simp: block_end_def algebra_simps)
    have notin: "x \<noteq> q" if "x \<in> set fl" for x
    proof
      assume "x = q"
      then have "x \<noteq> p" using qq by auto
      then have "before s x p \<or> before s p x" using srt that fl by (auto simp: sorted_wrt_append)
      then show False using qq \<open>x = q\<close> by (auto simp: before_def)
    qed
    have sz: "h_size ?s x = (if x = q then nunits else if x = p then h_size s p - nunits else h_size s x)" for x by simp
    have be: "block_end x ?s = (if x = p then q else block_end x s)" if "x \<in> set fl" for x
      using notin [OF that] q by (simp add: block_end_def un)
    have leq: "block_end x ?s \<le> block_end x s" if "x \<in> set fl" for x
      using be [OF that] qq by simp
    have "sorted_wrt (before ?s) fl"
      by (rule sorted_wrt_mono_rel [OF _ srt]) (use leq in \<open>force simp: before_def\<close>)
    moreover have "h_size ?s base_at = 0" using h notin [of base_at] heap_cons [OF h] bp by (auto simp: heap_list_def before_def)
    moreover have "0 < h_size ?s x \<and> block_end x ?s \<le> h_brk s" if "x \<in> set (tl fl)" for x
    proof -
      have x: "x \<in> set fl" "0 < h_size s x" "block_end x s \<le> h_brk s"
        using that h heap_cons [OF h] by (auto simp: heap_list_def)
      have "0 < h_size s p - nunits" using un by (simp add: word_less_nat_alt)
      then show ?thesis using x leq [OF x(1)] notin [OF x(1)] by auto
    qed
    ultimately have "heap_list base_at fl ?s" using h by (simp add: heap_list_def)
    then have "heap_ok base_at fl ?s" using p(2) by (simp add: heap_ok_def)
    moreover have spq: "span ?s q = {q ..< block_end p s}" using qq by (simp add: span_def block_end_def)
    moreover have "span ?s q \<subseteq> free_bytes fl s"
    proof -
      have "{q ..< block_end p s} \<subseteq> span s p" using qq by (auto simp: span_def)
      also have "\<dots> \<subseteq> free_bytes fl s" using p(1) by (auto simp: free_bytes_def)
      finally show ?thesis using spq by simp
    qed
    moreover have "free_bytes fl ?s = free_bytes fl s - span ?s q"
    proof -
      have "span ?s x = span s x - {q ..< block_end p s}" if "x \<in> set fl" for x
      proof (cases "x = p")
        case True
        then show ?thesis using be [OF that] qq by (auto simp: span_def)
      next
        case False
        have "span s x \<inter> span s p = {}" by (rule spans_apart [OF h that p(1) False])
        then show ?thesis using be [OF that] False qq by (auto simp: span_def)
      qed
      then have "free_bytes fl ?s = (\<Union>x\<in>set fl. span s x - {q ..< block_end p s})"
        unfolding free_bytes_def by (rule SUP_cong [OF refl])
      then show ?thesis unfolding spq by (auto simp: free_bytes_def)
    qed
    moreover have "take_block nunits prevp p s = (q + HEADER, ?s)"
      using False by (simp add: take_block_def q_def Let_def)
    moreover have "base_at + HEADER \<le> q" using bp qq by (simp add: before_def)
    ultimately show ?thesis
      using fl by (intro exI [of _ fl] exI [of _ ?s] exI [of _ q]) simp
  qed
qed

text \<open>The search finds a block that is large enough, if there is one, before it is back at its start.\<close>

lemma malloc_scan:
  "path (h_ptr s) prevp ms \<Longrightarrow> freep s = Some f \<Longrightarrow> ms \<noteq> [] \<Longrightarrow> last ms = f \<Longrightarrow> f \<notin> set (butlast ms) \<Longrightarrow>
   \<exists>p\<in>set ms. nunits \<le> h_size s p \<Longrightarrow>
   \<exists>prev' p'. prev' \<in> set (prevp # ms) \<and> p' \<in> set ms \<and> h_ptr s prev' = p' \<and> nunits \<le> h_size s p' \<and>
     malloc_loop room nunits prevp (hd ms) s = (case take_block nunits prev' p' s of (r, s1) \<Rightarrow> Some (Ok (Some r, s1)))"
proof (induction ms arbitrary: prevp)
  case (Cons m ms)
  show ?case
  proof (cases "nunits \<le> h_size s m")
    case True
    then show ?thesis
      using Cons.prems(1) by (intro exI [of _ prevp] exI [of _ m]) (simp add: malloc_loop.simps)
  next
    case False
    with Cons.prems(6) have ms: "ms \<noteq> []" by auto
    with Cons.prems have "m \<noteq> f" by auto
    then have step: "malloc_loop room nunits prevp m s = malloc_loop room nunits m (hd ms) s"
      using False Cons.prems(1,2) ms by (subst malloc_loop.simps) (cases ms; auto)
    have "\<exists>prev' p'. prev' \<in> set (m # ms) \<and> p' \<in> set ms \<and> h_ptr s prev' = p' \<and> nunits \<le> h_size s p' \<and>
        malloc_loop room nunits m (hd ms) s = (case take_block nunits prev' p' s of (r, s1) \<Rightarrow> Some (Ok (Some r, s1)))"
      by (rule Cons.IH) (use Cons.prems ms False in auto)
    then show ?thesis unfolding list.sel step by auto
  qed
qed simp

lemma malloc_scan_none:
  "path (h_ptr s) prevp ms \<Longrightarrow> freep s = Some f \<Longrightarrow> ms \<noteq> [] \<Longrightarrow> last ms = f \<Longrightarrow> f \<notin> set (butlast ms) \<Longrightarrow>
   \<forall>p\<in>set ms. \<not> nunits \<le> h_size s p \<Longrightarrow>
   malloc_loop room nunits prevp (hd ms) s =
     (case morecore room nunits s of
           Some (Ok (Some p1, s1)) \<Rightarrow> malloc_loop room nunits p1 (h_ptr s1 p1) s1
         | Some (Ok (None, s1)) \<Rightarrow> Some (Ok (None, s1))
         | Some (Panic m) \<Rightarrow> Some (Panic m)
         | Some (Blocked c) \<Rightarrow> Some (Blocked c)
         | None \<Rightarrow> None)"
proof (induction ms arbitrary: prevp)
  case (Cons m ms)
  show ?case
  proof (cases "ms = []")
    case True
    with Cons.prems show ?thesis by (subst malloc_loop.simps) simp
  next
    case False
    with Cons.prems have "m \<noteq> f" by auto
    then have "malloc_loop room nunits prevp m s = malloc_loop room nunits m (hd ms) s"
      using Cons.prems(1,2,6) False by (subst malloc_loop.simps) (cases ms; auto)
    then show ?thesis using Cons.IH [of m] Cons.prems False by simp
  qed
qed simp

subsection \<open>Growing the heap\<close>

lemma heap_members: "heap_list base_at fl s \<Longrightarrow> x \<in> set fl \<Longrightarrow> x = base_at \<or> x \<in> free_bytes fl s \<and> 0 < h_size s x"
proof -
  assume h: "heap_list base_at fl s" and x: "x \<in> set fl"
  show ?thesis
  proof (cases "x = base_at")
    case False
    then have "0 < h_size s x" using h x heap_cons [OF h] by (auto simp: heap_list_def)
    then have "x \<in> span s x" by (simp add: span_def block_end_def word_less_nat_alt)
    with \<open>0 < h_size s x\<close> x show ?thesis by (auto simp: free_bytes_def)
  qed simp
qed

lemma free_below_brk: "heap_list base_at fl s \<Longrightarrow> free_bytes fl s \<subseteq> {base_at + HEADER ..< h_brk s}"
proof
  fix x assume h: "heap_list base_at fl s" and "x \<in> free_bytes fl s"
  then obtain a where a: "a \<in> set fl" "x \<in> span s a" by (auto simp: free_bytes_def)
  obtain as where as: "fl = base_at # as" using heap_cons [OF h] by blast
  have "a \<noteq> base_at" using a(2) h by (auto simp: span_def block_end_def heap_list_def)
  then have "a \<in> set as" using a(1) as by simp
  then have "block_end a s \<le> h_brk s" "before s base_at a" using h as by (auto simp: heap_list_def)
  then show "x \<in> {base_at + HEADER ..< h_brk s}" using a(2) by (auto simp: span_def before_def)
qed

lemma times8: "unat nu < 2 ^ 28 \<Longrightarrow> unat (nu * 8 :: uint) = 8 * unat nu"
  by (subst unat_mult_lem [THEN iffD1]) (simp_all add: mult.commute)

lemma free_heap_frame:
  "(\<And>a. a \<in> set fl \<Longrightarrow> h_size s' a = h_size s a) \<Longrightarrow> (\<And>a. a \<in> set fl \<Longrightarrow> h_ptr s' a = h_ptr s a) \<Longrightarrow> h_brk s \<le> h_brk s' \<Longrightarrow>
   h_brk s' < 0x80000000 \<Longrightarrow> heap_list base_at fl s \<Longrightarrow> heap_list base_at fl s' \<and> free_bytes fl s' = free_bytes fl s"
proof -
  assume sz: "\<And>a. a \<in> set fl \<Longrightarrow> h_size s' a = h_size s a" and p: "\<And>a. a \<in> set fl \<Longrightarrow> h_ptr s' a = h_ptr s a"
    and b: "h_brk s \<le> h_brk s'" "h_brk s' < 0x80000000" and h: "heap_list base_at fl s"
  have be: "block_end a s' = block_end a s" if "a \<in> set fl" for a using sz [OF that] by (simp add: block_end_def)
  have "sorted_wrt (before s') fl"
    by (rule sorted_wrt_mono_rel [of fl "before s"]) (use be h in \<open>auto simp: before_def heap_list_def\<close>)
  moreover have "h_size s' base_at = 0" "base_at \<in> set fl" using sz [of base_at] h heap_cons [OF h] by (auto simp: heap_list_def)
  moreover have "a \<in> set fl" if "a \<in> set (tl fl)" for a using that heap_cons [OF h] by auto
  moreover have "map (h_ptr s') fl = map (h_ptr s) fl" using p by simp
  ultimately have "heap_list base_at fl s'"
    using h b sz be unfolding heap_list_def ring_def by fastforce
  moreover have "span s' a = span s a" if "a \<in> set fl" for a using be [OF that] by (simp add: span_def)
  ultimately show ?thesis by (simp add: free_bytes_def)
qed

lemma morecore_ok:
  assumes ok: "heap_ok base_at fl s" and n: "unat nu0 < 2 ^ 28"
  shows "morecore room nu0 s = Some (Ok (None, s)) \<or>
    (\<exists>f fl' s'. morecore room nu0 s = Some (Ok (Some f, s')) \<and> heap_ok base_at fl' s' \<and> freep s' = Some f \<and>
       h_brk s < h_brk s' \<and> free_bytes fl' s' = free_bytes fl s \<union> {h_brk s ..< h_brk s'} \<and>
       (\<exists>b\<in>set fl'. nu0 \<le> h_size s' b) \<and> (\<forall>x. x \<notin> insert (h_brk s) (set fl) \<longrightarrow> h_size s' x = h_size s x))"
proof -
  define nu where "nu = (if nu0 < 4096 then 4096 else nu0)"
  have nu: "unat nu < 2 ^ 28" "nu0 \<le> nu" "0 < unat nu"
    using n by (auto simp: nu_def word_less_nat_alt word_le_nat_alt)
  have bytes: "unat (nu * 8) = 8 * unat nu" by (rule times8 [OF nu(1)])
  have pos: "\<not> sint (nu * 8) \<le> 0" proof -
    have "8 * unat nu < 2147483648" using nu(1) by simp
    then have "sint (nu * 8) = int (8 * unat nu)" using sint_small [of "nu * 8"] by (simp only: bytes)
    then show ?thesis using nu(3) by linarith
  qed
  have h: "heap_list base_at fl s" using ok by (simp add: heap_ok_def)
  have m: "morecore room nu0 s = (case sbrk room (8 * unat nu) s of
             None \<Rightarrow> Some (Ok (None, s))
           | Some (hp, s1) \<Rightarrow>
               okbind (free (hp + HEADER) (s1\<lparr>h_size := (h_size s1)(hp := nu)\<rparr>)) (\<lambda>s2. Some (Ok (freep s2, s2))))"
    using pos bytes unfolding morecore_def Let_def nu_def [symmetric] by simp
  show ?thesis
  proof (cases "sbrk room (8 * unat nu) s")
    case None
    then show ?thesis by (simp add: m)
  next
    case (Some q)
    let ?hp = "h_brk s" and ?s1 = "s\<lparr>h_brk := h_brk s + 8 * unat nu, h_size := (h_size s)(h_brk s := nu)\<rparr>"
    have b: "h_brk s + 8 * unat nu < 0x80000000" and q: "q = (h_brk s, s\<lparr>h_brk := h_brk s + 8 * unat nu\<rparr>)"
      using Some by (auto simp: sbrk_def split: if_splits)
    have notin: "?hp \<notin> set fl"
      using heap_members [OF h, of ?hp] free_below_brk [OF h] h by (auto simp: heap_list_def)
    have fr: "heap_list base_at fl ?s1 \<and> free_bytes fl ?s1 = free_bytes fl s"
      by (rule free_heap_frame [OF _ _ _ _ h]) (use notin b in auto)
    then have ok1: "heap_ok base_at fl ?s1" using ok by (simp add: heap_ok_def)
    have sp: "span ?s1 ?hp = {h_brk s ..< h_brk ?s1}" by (simp add: span_def block_end_def)
    have base: "base_at + HEADER \<le> ?hp" using h by (simp add: heap_list_def)
    have "span ?s1 ?hp \<inter> free_bytes fl ?s1 = {}" using fr free_below_brk [OF h] sp by auto
    moreover have "0 < h_size ?s1 ?hp" "block_end ?hp ?s1 \<le> h_brk ?s1"
      using nu by (simp_all add: word_less_nat_alt block_end_def)
    ultimately obtain fl' s' where s': "free (?hp + HEADER) ?s1 = Some (Ok s')" "heap_ok base_at fl' s'"
      "free_bytes fl' s' = free_bytes fl ?s1 \<union> span ?s1 ?hp" "h_brk s' = h_brk ?s1"
      "\<forall>x. x \<notin> insert ?hp (set fl) \<longrightarrow> h_size s' x = h_size ?s1 x" "\<exists>b\<in>set fl'. span ?s1 ?hp \<subseteq> span s' b"
      using free_block [OF ok1 base] by blast
    then obtain b f where bf: "b \<in> set fl'" "span ?s1 ?hp \<subseteq> span s' b" "freep s' = Some f" by (auto simp: heap_ok_def)
    have "{?hp ..< ?hp + 8 * unat nu} \<subseteq> {b ..< b + 8 * unat (h_size s' b)}"
      using bf(2) sp by (simp add: span_def block_end_def)
    then have "unat nu \<le> unat (h_size s' b)" using nu(3) by (simp add: atLeastLessThan_subset_iff)
    then have "nu0 \<le> h_size s' b" using nu(2) by (simp add: word_le_nat_alt)
    moreover have "morecore room nu0 s = Some (Ok (Some f, s'))" using s'(1) bf(3) by (simp add: m Some q)
    ultimately show ?thesis using s' bf fr sp nu(3) by auto
  qed
qed

text \<open>Any request below 2 GB is served or refused, and what is handed out was free or new.\<close>

definition served :: "nat \<Rightarrow> nat list \<Rightarrow> uint \<Rightarrow> uheap \<Rightarrow> nat option \<Rightarrow> uheap \<Rightarrow> bool" where
  "served base_at fl nunits s r s' \<longleftrightarrow>
     (case r of
        None \<Rightarrow> s' = s
      | Some p \<Rightarrow> \<exists>fl' q. p = q + HEADER \<and> heap_ok base_at fl' s' \<and> h_size s' q = nunits \<and> base_at + HEADER \<le> q \<and>
          h_brk s \<le> h_brk s' \<and> span s' q \<subseteq> free_bytes fl s \<union> {h_brk s ..< h_brk s'} \<and>
          free_bytes fl' s' = (free_bytes fl s \<union> {h_brk s ..< h_brk s'}) - span s' q \<and>
          (\<forall>x. x \<notin> insert base_at (free_bytes fl s \<union> {h_brk s ..< h_brk s'}) \<longrightarrow> h_size s' x = h_size s x))"

lemma malloc_loop_found:
  assumes ok: "heap_ok base_at fl s" "freep s = Some f" and n: "0 < nunits" "\<exists>p\<in>set fl. nunits \<le> h_size s p"
  shows "\<exists>fl' s' q. malloc_loop room nunits f (h_ptr s f) s = Some (Ok (Some (q + HEADER), s')) \<and>
    heap_ok base_at fl' s' \<and> h_size s' q = nunits \<and> base_at + HEADER \<le> q \<and> h_brk s' = h_brk s \<and>
    span s' q \<subseteq> free_bytes fl s \<and> free_bytes fl' s' = free_bytes fl s - span s' q \<and>
    (\<forall>x. x \<notin> insert base_at (free_bytes fl s) \<longrightarrow> h_size s' x = h_size s x)"
proof -
  have h: "heap_list base_at fl s" and f: "f \<in> set fl" using ok by (auto simp: heap_ok_def)
  obtain l1 l2 where l: "fl = l1 @ f # l2" using f by (meson split_list)
  let ?ms = "l2 @ l1 @ [f]"
  have "path (h_ptr s) f ?ms" using heap_ring [OF h] unfolding l by (rule ring_path)
  moreover have "hd ?ms = h_ptr s f" using calculation by (cases ?ms) auto
  moreover have "f \<notin> set (butlast ?ms)" using heap_distinct [OF h] l by (auto simp: butlast_append)
  moreover have ms: "set ?ms = set fl" using l by auto
  ultimately obtain prev' p' where p: "prev' \<in> set (f # ?ms)" "p' \<in> set ?ms" "h_ptr s prev' = p'" "nunits \<le> h_size s p'"
    and loop: "malloc_loop room nunits f (h_ptr s f) s = (case take_block nunits prev' p' s of (r, s1) \<Rightarrow> Some (Ok (Some r, s1)))"
    using malloc_scan [of s f ?ms f nunits room] ok(2) n(2) by auto
  have "prev' \<in> set fl" "p' \<in> set fl" using p f ms by auto
  from take_block_ok [OF ok(1) this(2,1) p(3) n(1) p(4)] obtain fl' s' q where t:
    "take_block nunits prev' p' s = (q + HEADER, s')" "heap_ok base_at fl' s'" "h_size s' q = nunits"
    "base_at + HEADER \<le> q" "span s' q \<subseteq> free_bytes fl s" "free_bytes fl' s' = free_bytes fl s - span s' q"
    "h_brk s' = h_brk s" "\<forall>x. x \<notin> insert q (set fl) \<longrightarrow> h_size s' x = h_size s x" by blast
  have "q \<in> span s' q" using t(3) n(1) by (simp add: span_def block_end_def word_less_nat_alt)
  then have "q \<in> free_bytes fl s" using t(5) by blast
  moreover have "set fl \<subseteq> insert base_at (free_bytes fl s)" using heap_members [OF h] by auto
  ultimately have "\<forall>x. x \<notin> insert base_at (free_bytes fl s) \<longrightarrow> h_size s' x = h_size s x" using t(8) by auto
  with t loop show ?thesis by auto
qed

lemma malloc_loop_served:
  assumes ok: "heap_ok base_at fl s" "freep s = Some f" and n: "0 < nunits" "unat nunits < 2 ^ 28"
  shows "\<exists>r s'. malloc_loop room nunits f (h_ptr s f) s = Some (Ok (r, s')) \<and> served base_at fl nunits s r s'"
proof (cases "\<exists>p\<in>set fl. nunits \<le> h_size s p")
  case True
  from malloc_loop_found [OF ok n(1) True, of room] show ?thesis by (fastforce simp: served_def)
next
  case False
  have h: "heap_list base_at fl s" and f: "f \<in> set fl" using ok by (auto simp: heap_ok_def)
  obtain l1 l2 where l: "fl = l1 @ f # l2" using f by (meson split_list)
  let ?ms = "l2 @ l1 @ [f]"
  have path: "path (h_ptr s) f ?ms" using heap_ring [OF h] unfolding l by (rule ring_path)
  have hd: "hd ?ms = h_ptr s f" using path by (cases ?ms) auto
  have "f \<notin> set (butlast ?ms)" using heap_distinct [OF h] l by (auto simp: butlast_append)
  moreover have "\<forall>p\<in>set ?ms. \<not> nunits \<le> h_size s p" using False l by auto
  ultimately have loop: "malloc_loop room nunits f (h_ptr s f) s =
     (case morecore room nunits s of
           Some (Ok (Some p1, s1)) \<Rightarrow> malloc_loop room nunits p1 (h_ptr s1 p1) s1
         | Some (Ok (None, s1)) \<Rightarrow> Some (Ok (None, s1))
         | Some (Panic m) \<Rightarrow> Some (Panic m)
         | Some (Blocked c) \<Rightarrow> Some (Blocked c)
         | None \<Rightarrow> None)"
    using malloc_scan_none [OF path ok(2)] hd by simp
  from morecore_ok [OF ok(1) n(2), of room] show ?thesis
  proof (elim disjE exE conjE)
    assume "morecore room nunits s = Some (Ok (None, s))"
    with loop show ?thesis by (simp add: served_def)
  next
    fix f1 fl1 s1
    assume m: "morecore room nunits s = Some (Ok (Some f1, s1))" "heap_ok base_at fl1 s1" "freep s1 = Some f1"
      "h_brk s < h_brk s1" "free_bytes fl1 s1 = free_bytes fl s \<union> {h_brk s ..< h_brk s1}"
      "\<exists>b\<in>set fl1. nunits \<le> h_size s1 b" "\<forall>x. x \<notin> insert (h_brk s) (set fl) \<longrightarrow> h_size s1 x = h_size s x"
    from malloc_loop_found [OF m(2,3) n(1) m(6), of room] obtain fl' s' q where
      q: "malloc_loop room nunits f1 (h_ptr s1 f1) s1 = Some (Ok (Some (q + HEADER), s'))"
      "heap_ok base_at fl' s'" "h_size s' q = nunits" "base_at + HEADER \<le> q" "h_brk s' = h_brk s1"
      "span s' q \<subseteq> free_bytes fl1 s1" "free_bytes fl' s' = free_bytes fl1 s1 - span s' q"
      "\<forall>x. x \<notin> insert base_at (free_bytes fl1 s1) \<longrightarrow> h_size s' x = h_size s1 x" by blast
    have "h_size s' x = h_size s x" if x: "x \<notin> insert base_at (free_bytes fl s \<union> {h_brk s ..< h_brk s1})" for x
    proof -
      have "h_brk s \<noteq> x" using x m(4) by auto
      moreover have "x \<notin> set fl" using heap_members [OF h, of x] x by auto
      ultimately show ?thesis using m(5,7) q(8) x by auto
    qed
    with q m loop show ?thesis by (intro exI [of _ "Some (q + HEADER)"] exI [of _ s']) (auto simp: served_def)
  qed
qed

lemma units_bound: "0 < units n \<and> unat (units n) \<le> 2 ^ 29"
  and units_fit: "unat n < 4294967288 \<Longrightarrow> unat n + HEADER \<le> HEADER * unat (units n)"
  and units_small: "unat n \<le> 2147483632 \<Longrightarrow> unat (units n) < 2 ^ 28"
proof -
  have d: "unat ((n + 8 - 1) div 8) = unat (n + 7) div 8" by (simp add: unat_div, simp add: add.commute)
  have l: "unat (n + 7) div 8 < 2 ^ 29" using unat_uint_less [of "n + 7"] by simp
  have "unat (units n) = unat ((n + 8 - 1) div 8) + 1"
    unfolding units_def by (subst unat_add_lem [THEN iffD1]) (use d l in simp_all)
  then have u: "unat (units n) = unat (n + 7) div 8 + 1" using d by simp
  then show "0 < units n \<and> unat (units n) \<le> 2 ^ 29" using l by (simp add: word_less_nat_alt)
  have s: "unat (n + 7) = unat n + 7" if "unat n < 4294967288"
    by (subst unat_add_lem [THEN iffD1]) (use that in simp_all)
  show "unat n + HEADER \<le> HEADER * unat (units n)" if "unat n < 4294967288"
    using s [OF that] u by simp
  show "unat (units n) < 2 ^ 28" if "unat n \<le> 2147483632"
    using s u that by simp
qed

text \<open>A request of 2 GB or more is larger than any free block; the size in bytes that \<open>morecore\<close> computes is
  then not a positive \<open>int\<close>.\<close>

lemma malloc_loop_huge:
  assumes ok: "heap_ok base_at fl s" "freep s = Some f" and n: "2 ^ 28 \<le> unat nunits" "unat nunits \<le> 2 ^ 29"
  shows "malloc_loop room nunits f (h_ptr s f) s = Some (Panic ''header above the break'')"
proof -
  have h: "heap_list base_at fl s" and f: "f \<in> set fl" using ok by (auto simp: heap_ok_def)
  obtain l1 l2 where l: "fl = l1 @ f # l2" using f by (meson split_list)
  let ?ms = "l2 @ l1 @ [f]"
  have path: "path (h_ptr s) f ?ms" using heap_ring [OF h] unfolding l by (rule ring_path)
  have hd: "hd ?ms = h_ptr s f" using path by (cases ?ms) auto
  have "f \<notin> set (butlast ?ms)" using heap_distinct [OF h] l by (auto simp: butlast_append)
  moreover have "\<not> nunits \<le> h_size s p" if "p \<in> set ?ms" for p
  proof -
    have "p \<in> set fl" using that l by auto
    then have "h_size s p = 0 \<or> block_end p s < 0x80000000"
      using h heap_cons [OF h] by (fastforce simp: heap_list_def)
    then have "unat (h_size s p) < 2 ^ 28" by (auto simp: block_end_def)
    then show ?thesis using n(1) by (simp add: word_le_nat_alt)
  qed
  moreover have "sint (nunits * 8) \<le> 0"
  proof (cases "unat nunits = 2 ^ 29")
    case True
    moreover have "word_of_nat (unat nunits) = nunits" by simp
    ultimately have "nunits = word_of_nat (2 ^ 29)" by (simp only:)
    then show ?thesis by simp
  next
    case False
    then have "8 * unat nunits < 4294967296" using n(2) by simp
    then have "unat (nunits * 8) = 8 * unat nunits"
      by (subst unat_mult_lem [THEN iffD1]) (simp_all add: mult.commute)
    then show ?thesis using sint_large [of "nunits * 8"] n(1) by simp
  qed
  moreover have "\<not> nunits < 4096" using n(1) by (simp add: word_less_nat_alt)
  ultimately show ?thesis
    using malloc_scan_none [OF path ok(2)] hd by (simp add: morecore_def Let_def)
qed

section \<open>Programs that use the allocator\<close>

text \<open>\<open>live\<close> are the headers of the blocks that \<open>malloc\<close> returned and that are not freed yet.  Between the calls
  the program may write anything into the blocks it owns, behind their headers: a header field at \<open>x\<close>
  may change only if its 8 bytes meet such a payload.\<close>

definition payload :: "uheap \<Rightarrow> nat \<Rightarrow> nat set" where
  "payload s q = {q + HEADER ..< block_end q s}"

inductive heap_run :: "nat \<Rightarrow> (nat \<Rightarrow> nat \<Rightarrow> bool) \<Rightarrow> nat \<Rightarrow> uheap \<Rightarrow> nat set \<Rightarrow> bool" for base_at room h0 where
  start: "freep s = None \<Longrightarrow> h_brk s = h0 \<Longrightarrow> base_at + HEADER \<le> h0 \<Longrightarrow> h0 < 0x80000000 \<Longrightarrow> heap_run base_at room h0 s {}"
| allocated: "heap_run base_at room h0 s live \<Longrightarrow> malloc base_at room nbytes s = Some (Ok (Some p, s')) \<Longrightarrow>
    heap_run base_at room h0 s' (insert (p - HEADER) live)"
| refused: "heap_run base_at room h0 s live \<Longrightarrow> malloc base_at room nbytes s = Some (Ok (None, s')) \<Longrightarrow>
    heap_run base_at room h0 s' live"
| freed: "heap_run base_at room h0 s live \<Longrightarrow> q \<in> live \<Longrightarrow> free (q + HEADER) s = Some (Ok s') \<Longrightarrow>
    heap_run base_at room h0 s' (live - {q})"
| wrote: "heap_run base_at room h0 s live \<Longrightarrow> q \<in> live \<Longrightarrow>
    (\<And>x. {x ..< x + HEADER} \<inter> payload s q = {} \<Longrightarrow> ptr' x = h_ptr s x \<and> size' x = h_size s x) \<Longrightarrow>
    heap_run base_at room h0 (s\<lparr>h_ptr := ptr', h_size := size'\<rparr>) live"

text \<open>What holds between the calls: the blocks handed out are disjoint from each other and from the free ones,
  and together they are the heap.\<close>

definition live_bytes :: "uheap \<Rightarrow> nat set \<Rightarrow> nat set" where
  "live_bytes s live = (\<Union>q\<in>live. span s q)"

definition live_ok :: "nat \<Rightarrow> nat \<Rightarrow> nat list \<Rightarrow> uheap \<Rightarrow> nat set \<Rightarrow> bool" where
  "live_ok base_at h0 fl s live \<longleftrightarrow> heap_ok base_at fl s \<and> base_at + HEADER \<le> h0 \<and> h0 \<le> h_brk s \<and>
     (\<forall>q\<in>live. 0 < h_size s q) \<and> (\<forall>q\<in>live. \<forall>q'\<in>live. q \<noteq> q' \<longrightarrow> span s q \<inter> span s q' = {}) \<and>
     free_bytes fl s \<inter> live_bytes s live = {} \<and> free_bytes fl s \<union> live_bytes s live = {h0 ..< h_brk s}"

lemma span_eq: "h_size s' q = h_size s q \<Longrightarrow> span s' q = span s q"
  by (simp add: span_def block_end_def)

lemma live_bytes_eq: "(\<And>q. q \<in> live \<Longrightarrow> h_size s' q = h_size s q) \<Longrightarrow> live_bytes s' live = live_bytes s live"
  unfolding live_bytes_def by (rule SUP_cong [OF refl], rule span_eq)

lemma self_span: "0 < h_size s q \<Longrightarrow> q \<in> span s q \<and> {q ..< q + HEADER} \<subseteq> span s q"
proof -
  assume "0 < h_size s q"
  then have "1 \<le> unat (h_size s q)" by (simp add: word_less_nat_alt)
  then have "q + HEADER \<le> block_end q s" by (simp add: block_end_def)
  then show ?thesis by (auto simp: span_def)
qed

text \<open>The first call sets up the ring of \<open>base\<close> alone.\<close>

definition malloc_init :: "nat \<Rightarrow> uheap \<Rightarrow> uheap" where
  "malloc_init base_at s = (case freep s of
     None \<Rightarrow> s\<lparr>h_ptr := (h_ptr s)(base_at := base_at), h_size := (h_size s)(base_at := 0), freep := Some base_at\<rparr>
   | Some _ \<Rightarrow> s)"

lemma malloc_steps:
  "\<exists>f. freep (malloc_init base_at s) = Some f \<and>
     malloc base_at room nbytes s = malloc_loop room (units nbytes) f (h_ptr (malloc_init base_at s) f) (malloc_init base_at s)"
  by (cases "freep s") (simp_all add: malloc_def malloc_init_def)

lemma live_ok_init:
  assumes "freep s = None" "h_brk s = h0" "base_at + HEADER \<le> h0" "h0 < 0x80000000"
  shows "live_ok base_at h0 [base_at] (malloc_init base_at s) {}"
  using assms by (simp add: live_ok_def malloc_init_def heap_ok_def heap_list_def ring_def free_bytes_def
      live_bytes_def span_def block_end_def)

lemma live_ok_served:
  assumes ok: "live_ok base_at h0 fl s live" and r: "served base_at fl n s (Some p) s'" and n: "0 < n"
  shows "\<exists>fl'. live_ok base_at h0 fl' s' (insert (p - HEADER) live)" "p - HEADER \<notin> live"
    "h_size s' (p - HEADER) = n" "HEADER \<le> p" "x \<in> live \<Longrightarrow> h_size s' x = h_size s x"
proof -
  obtain fl' q where q: "p = q + HEADER" "heap_ok base_at fl' s'" "h_size s' q = n" "base_at + HEADER \<le> q"
      "h_brk s \<le> h_brk s'" "span s' q \<subseteq> free_bytes fl s \<union> {h_brk s ..< h_brk s'}"
      "free_bytes fl' s' = (free_bytes fl s \<union> {h_brk s ..< h_brk s'}) - span s' q"
      "\<And>x. x \<notin> insert base_at (free_bytes fl s \<union> {h_brk s ..< h_brk s'}) \<Longrightarrow> h_size s' x = h_size s x"
    using r by (auto simp: served_def)
  have live: "x \<in> live_bytes s live" "x \<in> span s x" if "x \<in> live" for x
    using self_span [of s x] ok that by (auto simp: live_ok_def live_bytes_def)
  have lb: "live_bytes s live \<subseteq> {h0 ..< h_brk s}" "free_bytes fl s \<inter> live_bytes s live = {}"
    "free_bytes fl s \<union> live_bytes s live = {h0 ..< h_brk s}" using ok by (auto simp: live_ok_def)
  have same: "h_size s' x = h_size s x" if "x \<in> live" for x
    using live [OF that] lb ok by (intro q(8)) (auto simp: live_ok_def)
  have lbs: "live_bytes s' live = live_bytes s live" by (rule live_bytes_eq) (rule same)
  have sp: "span s' x = span s x" if "x \<in> live" for x by (rule span_eq) (rule same [OF that])
  have "{h_brk s ..< h_brk s'} \<inter> live_bytes s live = {}" using lb(1) by fastforce
  then have apart: "span s' q \<inter> live_bytes s live = {}" using q(6) lb(2) by blast
  have "q \<in> span s' q" using q(3) n self_span [of s' q] by simp
  then have new: "q \<notin> live" using live apart by blast
  have ins: "live_bytes s' (insert q live) = span s' q \<union> live_bytes s live" using lbs by (simp add: live_bytes_def)
  have "span s' q \<inter> span s' x = {}" if "x \<in> live" for x
    using apart sp [OF that] that by (auto simp: live_bytes_def)
  moreover have "free_bytes fl' s' \<union> live_bytes s' (insert q live) = {h0 ..< h_brk s'}"
  proof -
    have "{h0 ..< h_brk s'} = {h0 ..< h_brk s} \<union> {h_brk s ..< h_brk s'}"
      using q(5) ok by (auto simp: live_ok_def)
    then show ?thesis using lb(3) q(6,7) unfolding ins by blast
  qed
  moreover have "free_bytes fl' s' \<inter> live_bytes s' (insert q live) = {}"
    using lb q(7) unfolding ins by auto
  ultimately have "live_ok base_at h0 fl' s' (insert q live)"
    using ok q(2,3,5) n sp same unfolding live_ok_def by (auto simp: Int_commute)
  then show "\<exists>fl'. live_ok base_at h0 fl' s' (insert (p - HEADER) live)" "p - HEADER \<notin> live"
    "h_size s' (p - HEADER) = n" "HEADER \<le> p" using q(1,3) new by auto
  show "x \<in> live \<Longrightarrow> h_size s' x = h_size s x" by (rule same)
qed

lemma live_ok_freed:
  assumes ok: "live_ok base_at h0 fl s live" and q: "q \<in> live"
  shows "\<exists>fl' s'. free (q + HEADER) s = Some (Ok s') \<and> live_ok base_at h0 fl' s' (live - {q})"
proof -
  have h: "heap_ok base_at fl s" "0 < h_size s q" "base_at + HEADER \<le> h0" using ok q by (auto simp: live_ok_def)
  have sp: "span s q \<subseteq> live_bytes s live" using q by (auto simp: live_bytes_def)
  have lb: "free_bytes fl s \<inter> live_bytes s live = {}" "free_bytes fl s \<union> live_bytes s live = {h0 ..< h_brk s}"
    using ok by (simp_all add: live_ok_def)
  have "{q ..< block_end q s} \<subseteq> {h0 ..< h_brk s}" using sp lb(2) unfolding span_def by blast
  moreover have "q < block_end q s" using self_span [OF h(2)] by (auto simp: span_def)
  ultimately have "h0 \<le> q" "block_end q s \<le> h_brk s" by (simp_all add: atLeastLessThan_subset_iff)
  then have q0: "base_at + HEADER \<le> q" "block_end q s \<le> h_brk s" using h(3) by auto
  have "span s q \<inter> free_bytes fl s = {}" using lb(1) sp by blast
  from free_block [OF h(1) q0(1) h(2) q0(2) this] obtain fl' s' where f: "free (q + HEADER) s = Some (Ok s')"
    "heap_ok base_at fl' s'" "free_bytes fl' s' = free_bytes fl s \<union> span s q" "h_brk s' = h_brk s"
    "\<And>x. x \<notin> insert q (set fl) \<Longrightarrow> h_size s' x = h_size s x" by blast
  have same: "h_size s' x = h_size s x" if "x \<in> live - {q}" for x
  proof (rule f(5))
    have "x \<in> live_bytes s live" using that self_span [of s x] ok by (auto simp: live_ok_def live_bytes_def)
    moreover have "heap_list base_at fl s" using h(1) by (simp add: heap_ok_def)
    ultimately show "x \<notin> insert q (set fl)" using heap_members lb h(3) that by fastforce
  qed
  have sps: "span s' x = span s x" if "x \<in> live - {q}" for x by (rule span_eq) (rule same [OF that])
  have lbs: "live_bytes s' (live - {q}) = live_bytes s (live - {q})" by (rule live_bytes_eq) (rule same)
  have split: "live_bytes s live = span s q \<union> live_bytes s (live - {q})" using q by (auto simp: live_bytes_def)
  have "span s q \<inter> span s x = {}" if "x \<in> live - {q}" for x using ok q that by (auto simp: live_ok_def)
  then have "span s q \<inter> live_bytes s (live - {q}) = {}" by (auto simp: live_bytes_def)
  then have "live_ok base_at h0 fl' s' (live - {q})"
    using ok f(2,3,4) lb same sps unfolding live_ok_def lbs split by auto
  with f(1) show ?thesis by blast
qed

lemma live_ok_wrote:
  assumes ok: "live_ok base_at h0 fl s live" and q: "q \<in> live"
    and w: "\<And>x. {x ..< x + HEADER} \<inter> payload s q = {} \<Longrightarrow> ptr' x = h_ptr s x \<and> size' x = h_size s x"
  shows "live_ok base_at h0 fl (s\<lparr>h_ptr := ptr', h_size := size'\<rparr>) live"
proof -
  let ?s = "s\<lparr>h_ptr := ptr', h_size := size'\<rparr>"
  have h: "heap_list base_at fl s" using ok by (simp add: live_ok_def heap_ok_def)
  have lb: "free_bytes fl s \<inter> live_bytes s live = {}" "free_bytes fl s \<union> live_bytes s live = {h0 ..< h_brk s}"
    "base_at + HEADER \<le> h0" "\<And>q. q \<in> live \<Longrightarrow> 0 < h_size s q" using ok by (simp_all add: live_ok_def)
  have pl: "payload s q \<subseteq> span s q" "span s q \<subseteq> live_bytes s live"
    using q by (auto simp: payload_def span_def live_bytes_def)
  have "payload s q \<subseteq> {h0 ..< h_brk s}" using pl lb(2) by blast
  then have base: "{base_at ..< base_at + HEADER} \<inter> payload s q = {}" using lb(3) by fastforce
  have fl: "{x ..< x + HEADER} \<inter> payload s q = {}" if "x \<in> set fl" for x
  proof (cases "x = base_at")
    case False
    then have "0 < h_size s x" using heap_members [OF h that] by blast
    then have "{x ..< x + HEADER} \<subseteq> free_bytes fl s" using self_span [of s x] that by (auto simp: free_bytes_def)
    then show ?thesis using pl lb(1) by blast
  qed (use base in simp)
  have live: "{x ..< x + HEADER} \<inter> payload s q = {}" if "x \<in> live" for x
  proof (cases "x = q")
    case False
    then have "span s x \<inter> span s q = {}" using ok q that by (auto simp: live_ok_def)
    then show ?thesis using self_span [OF lb(4) [OF that]] pl by blast
  qed (auto simp: payload_def)
  have sz: "h_size ?s x = h_size s x" "h_ptr ?s x = h_ptr s x" if "x \<in> set fl" for x using w [OF fl [OF that]] by simp_all
  have "heap_list base_at fl ?s \<and> free_bytes fl ?s = free_bytes fl s"
    by (rule free_heap_frame [OF sz _ _ h]) (use h in \<open>simp_all add: heap_list_def\<close>)
  moreover have lz: "h_size ?s x = h_size s x" if "x \<in> live" for x using w [OF live [OF that]] by simp
  moreover have "live_bytes ?s live = live_bytes s live" by (rule live_bytes_eq) (rule lz)
  moreover have "span ?s x = span s x" if "x \<in> live" for x by (rule span_eq) (rule lz [OF that])
  ultimately show ?thesis using ok by (simp add: live_ok_def heap_ok_def)
qed

definition heap_inv :: "nat \<Rightarrow> nat \<Rightarrow> uheap \<Rightarrow> nat set \<Rightarrow> bool" where
  "heap_inv base_at h0 s live \<longleftrightarrow>
     freep s = None \<and> h_brk s = h0 \<and> base_at + HEADER \<le> h0 \<and> h0 < 0x80000000 \<and> live = {} \<or>
     (\<exists>fl. live_ok base_at h0 fl s live)"

lemma heap_inv_ready: "heap_inv base_at h0 s live \<Longrightarrow> \<exists>fl. live_ok base_at h0 fl (malloc_init base_at s) live"
proof -
  assume i: "heap_inv base_at h0 s live"
  show ?thesis
  proof (cases "freep s")
    case None
    with i live_ok_init [of s h0 base_at] show ?thesis by (auto simp: heap_inv_def live_ok_def heap_ok_def)
  next
    case (Some f)
    with i show ?thesis by (auto simp: heap_inv_def malloc_init_def)
  qed
qed

lemma malloc_result:
  assumes "heap_inv base_at h0 s live"
  shows "unat (units n) < 2 ^ 28 \<Longrightarrow> \<exists>fl r s'. live_ok base_at h0 fl (malloc_init base_at s) live \<and>
      malloc base_at room n s = Some (Ok (r, s')) \<and> served base_at fl (units n) (malloc_init base_at s) r s'"
    "2 ^ 28 \<le> unat (units n) \<Longrightarrow> malloc base_at room n s = Some (Panic ''header above the break'')"
proof -
  obtain fl where fl: "live_ok base_at h0 fl (malloc_init base_at s) live" using heap_inv_ready [OF assms] by blast
  then have ok: "heap_ok base_at fl (malloc_init base_at s)" by (simp add: live_ok_def)
  obtain f where f: "freep (malloc_init base_at s) = Some f"
    "malloc base_at room n s = malloc_loop room (units n) f (h_ptr (malloc_init base_at s) f) (malloc_init base_at s)"
    using malloc_steps by blast
  note u = units_bound [of n]
  show "\<exists>fl r s'. live_ok base_at h0 fl (malloc_init base_at s) live \<and> malloc base_at room n s = Some (Ok (r, s')) \<and>
      served base_at fl (units n) (malloc_init base_at s) r s'" if "unat (units n) < 2 ^ 28"
    using malloc_loop_served [OF ok f(1) _ that, of room] u fl f(2) by auto
  show "malloc base_at room n s = Some (Panic ''header above the break'')" if "2 ^ 28 \<le> unat (units n)"
    using malloc_loop_huge [OF ok f(1) that, of room] u f(2) by simp
qed

lemma malloc_keeps:
  assumes i: "heap_inv base_at h0 s live" and m: "malloc base_at room n s = Some (Ok (r, s'))"
  shows "heap_inv base_at h0 s' (case r of None \<Rightarrow> live | Some p \<Rightarrow> insert (p - HEADER) live) \<and>
    (\<forall>p. r = Some p \<longrightarrow> p - HEADER \<notin> live \<and> HEADER \<le> p \<and> h_size s' (p - HEADER) = units n) \<and>
    (\<forall>q\<in>live. h_size s' q = h_size s q)"
proof -
  have "unat (units n) < 2 ^ 28" using malloc_result(2) [OF i, of n room] m by fastforce
  from malloc_result(1) [OF i this, of room] m obtain fl where
    fl: "live_ok base_at h0 fl (malloc_init base_at s) live" "served base_at fl (units n) (malloc_init base_at s) r s'" by auto
  have u: "0 < units n" using units_bound by blast
  have same: "h_size (malloc_init base_at s) q = h_size s q" if "q \<in> live" for q
    using i that by (cases "freep s") (auto simp: heap_inv_def live_ok_def heap_ok_def malloc_init_def)
  show ?thesis
  proof (cases r)
    case None
    with fl same show ?thesis by (auto simp: served_def heap_inv_def)
  next
    case (Some p)
    note l = live_ok_served [OF fl(1) fl(2) [unfolded Some] u]
    from l(1-4) l(5) same Some show ?thesis by (auto simp: heap_inv_def)
  qed
qed

lemma heap_run_inv: "heap_run base_at room h0 s live \<Longrightarrow> heap_inv base_at h0 s live"
proof (induction rule: heap_run.induct)
  case (start s)
  then show ?case by (simp add: heap_inv_def)
next
  case (allocated s live nbytes p s')
  with malloc_keeps [OF allocated.IH allocated.hyps(2)] show ?case by simp
next
  case (refused s live nbytes s')
  with malloc_keeps [OF refused.IH refused.hyps(2)] show ?case by simp
next
  case (freed s live q s')
  then obtain fl where "live_ok base_at h0 fl s live" by (auto simp: heap_inv_def)
  from live_ok_freed [OF this freed.hyps(2)] freed.hyps(3) show ?case by (auto simp: heap_inv_def)
next
  case (wrote s live q ptr' size')
  then obtain fl where "live_ok base_at h0 fl s live" by (auto simp: heap_inv_def)
  from live_ok_wrote [OF this wrote.hyps(2)] wrote.hyps(3) show ?case by (auto simp: heap_inv_def)
qed


lemma units_huge: "2147483632 < unat n \<Longrightarrow> unat n \<le> 4294967288 \<Longrightarrow> 2 ^ 28 \<le> unat (units n)"
proof -
  assume n: "2147483632 < unat n" "unat n \<le> 4294967288"
  show ?thesis
  proof (cases "unat n = 4294967288")
    case True
    moreover have "n = of_nat (unat n)" by simp
    ultimately have "n = 4294967288" by simp
    then show ?thesis by (simp add: units_def)
  qed (use n units_fit [of n] in simp)
qed



text \<open>The largest request wraps to one unit.\<close>

lemma malloc_huge:
  assumes "heap_run base_at room h0 s live" "2147483632 < unat nbytes" "unat nbytes \<le> 4294967288"
  shows "malloc base_at room nbytes s = Some (Panic ''header above the break'')"
  by (rule malloc_result(2) [OF heap_run_inv [OF assms(1)] units_huge [OF assms(2,3)]])

lemma malloc_wraps: "units 0xFFFFFFFF = 1"
  by (simp add: units_def)






end
