(* ===== verification/Sh.thy ===== *)
theory Sh
  imports Prelude "HOL-Library.Sublist"
begin

text \<open>
  The command interpreter, \<open>user/sh.c\<close>: its parser, the termination of the words in the line, and the
  system calls with which a command tree is run.

  The line is the list of its characters before the terminating zero, and a pointer into it is the
  rest of the line that it points at: \<open>*s\<close> is the first element, or zero when the rest is empty, and
  \<open>s == es\<close> holds for the empty rest.  A call of \<open>panic\<close> prints a message and ends the process: it is
  the value \<open>Inl\<close> of the message.  \<open>parseline\<close>, \<open>parsepipe\<close>, \<open>parseexec\<close> and \<open>parseblock\<close> call each
  other; they are one function \<open>parse\<close> of the nonterminal.
\<close>

type_synonym ptr = "uchar list"

abbreviation MAXARGS :: nat where "MAXARGS \<equiv> 10"
abbreviation (input) O_RDONLY :: int where "O_RDONLY \<equiv> 0"
abbreviation (input) O_WRONLY_CREATE :: int where "O_WRONLY_CREATE \<equiv> 0x201"

datatype cmd =
    Execcmd "(ptr \<times> ptr) list"
  | Redircmd cmd ptr ptr int int
  | Pipecmd cmd cmd
  | Listcmd cmd cmd
  | Backcmd cmd

section \<open>Tokens\<close>

definition whitespace :: "uchar list" where
  "whitespace = [0x20, 0x09, 0x0D, 0x0A, 0x0B]"

definition symbols :: "uchar list" where
  "symbols = [0x3C, 0x7C, 0x3E, 0x26, 0x3B, 0x28, 0x29]"

definition is_ws :: "uchar \<Rightarrow> bool" where
  "is_ws c \<longleftrightarrow> c \<in> set whitespace"

definition in_word :: "uchar \<Rightarrow> bool" where
  "in_word c \<longleftrightarrow> \<not> is_ws c \<and> c \<notin> set symbols"

text \<open>The token, the pointers to its start and its end, and the new position.\<close>

definition gettoken :: "ptr \<Rightarrow> uchar \<times> ptr \<times> ptr \<times> ptr" where
  "gettoken ps =
     (let s = dropWhile is_ws ps in
      case s of
        [] \<Rightarrow> (0, s, s, s)
      | c # t \<Rightarrow>
          if c \<in> {0x7C, 0x28, 0x29, 0x3B, 0x26, 0x3C} then (c, s, t, dropWhile is_ws t)
          else if c = 0x3E then
            (if t \<noteq> [] \<and> hd t = 0x3E then (0x2B, s, tl t, dropWhile is_ws (tl t)) else (c, s, t, dropWhile is_ws t))
          else let e = dropWhile in_word s in (0x61, s, e, dropWhile is_ws e))"

definition peek :: "ptr \<Rightarrow> uchar list \<Rightarrow> bool \<times> ptr" where
  "peek ps toks = (let s = dropWhile is_ws ps in (s \<noteq> [] \<and> hd s \<in> set toks, s))"

lemma gettoken_shorter: "gettoken ps = (tok, q, eq, s) \<Longrightarrow> tok \<noteq> 0 \<Longrightarrow> length s < length ps"
  and gettoken_le: "gettoken ps = (tok, q, eq, s) \<Longrightarrow> length s \<le> length ps"
proof -
  have d: "length (dropWhile P xs) \<le> length xs" for P and xs :: ptr by (rule length_dropWhile_le)
  let ?s = "dropWhile is_ws ps"
  have len: "length ?s \<le> length ps" by (rule d)
  show less: "length s < length ps" if g: "gettoken ps = (tok, q, eq, s)" "tok \<noteq> 0"
  proof (cases ?s)
    case Nil
    with g show ?thesis by (simp add: gettoken_def)
  next
    case (Cons c t)
    then have nws: "\<not> is_ws c" by (metis hd_dropWhile list.distinct(1) list.sel(1))
    have t: "length t < length ps" using len Cons by simp
    show ?thesis
    proof (cases "c \<in> {0x7C, 0x28, 0x29, 0x3B, 0x26, 0x3C, 0x3E}")
      case True
      have "length (dropWhile is_ws t) < length ps" "length (dropWhile is_ws (tl t)) < length ps"
        using d [of is_ws t] d [of is_ws "tl t"] t by simp_all
      with g Cons True show ?thesis by (auto simp: gettoken_def Let_def split: if_splits)
    next
      case False
      then have "in_word c" using nws by (auto simp: in_word_def symbols_def)
      then have e: "dropWhile in_word (c # t) = dropWhile in_word t" by simp
      have "length (dropWhile is_ws (dropWhile in_word t)) < length ps"
        using d [of is_ws "dropWhile in_word t"] d [of in_word t] t by linarith
      with g Cons False e show ?thesis by (auto simp: gettoken_def Let_def)
    qed
  qed
  show "length s \<le> length ps" if g: "gettoken ps = (tok, q, eq, s)"
  proof (cases "tok = 0")
    case True
    with g len show ?thesis by (auto simp: gettoken_def Let_def d split: list.splits if_splits)
  next
    case False
    with less [OF g] show ?thesis by simp
  qed
qed

lemma peek_shorter: "peek ps toks = (b, s) \<Longrightarrow> length s \<le> length ps"
  by (auto simp: peek_def Let_def length_dropWhile_le)

section \<open>The parser\<close>

text \<open>The redirections at a position: the file name, the open mode and the descriptor of each.\<close>

function parseredirs :: "ptr \<Rightarrow> string + (ptr \<times> ptr \<times> int \<times> int) list \<times> ptr" where
  "parseredirs ps =
     (case peek ps [0x3C, 0x3E] of (b, s) \<Rightarrow>
        if \<not> b then Inr ([], s)
        else case gettoken s of (tok, _, _, s1) \<Rightarrow>
          case gettoken s1 of (tok2, q, eq, s2) \<Rightarrow>
            if tok2 \<noteq> 0x61 then Inl ''missing file for redirection''
            else case parseredirs s2 of
                Inl e \<Rightarrow> Inl e
              | Inr (rs, s3) \<Rightarrow>
                  Inr ((q, eq, if tok = 0x3C then O_RDONLY else O_WRONLY_CREATE, if tok = 0x3C then 0 else 1) # rs, s3))"
  by pat_completeness auto
termination
proof (relation "measure length")
  fix ps b s tok x2 q1 x y s1 tok2 a q z eq s2
  assume "(b, s) = peek ps [0x3C, 0x3E]" "(tok, x2) = gettoken s" "(q1, x) = x2" "(y, s1) = x"
    "(tok2, a) = gettoken s1" "(q, z) = a" "(eq, s2) = z" "\<not> tok2 \<noteq> (0x61 :: uchar)"
  then have "peek ps [0x3C, 0x3E] = (b, s)" "gettoken s = (tok, q1, y, s1)" "gettoken s1 = (tok2, q, eq, s2)" "tok2 \<noteq> 0"
    by auto
  from peek_shorter [OF this(1)] gettoken_le [OF this(2)] gettoken_shorter [OF this(3,4)]
  show "(s2, ps) \<in> measure length" by simp
qed simp

declare parseredirs.simps [simp del]

text \<open>Every redirection wraps the command built so far.\<close>

definition wrap :: "cmd \<Rightarrow> (ptr \<times> ptr \<times> int \<times> int) list \<Rightarrow> cmd" where
  "wrap c rs = foldl (\<lambda>c (q, eq, mode, fd). Redircmd c q eq mode fd) c rs"

lemma parseredirs_le: "parseredirs ps = Inr (rs, s) \<Longrightarrow> length s \<le> length ps"
proof (induction ps arbitrary: rs s rule: parseredirs.induct)
  case (1 ps)
  obtain b s0 where p: "peek ps [0x3C, 0x3E] = (b, s0)" by fastforce
  show ?case
  proof (cases b)
    case False
    with 1(2) p peek_shorter [OF p] show ?thesis by (simp add: parseredirs.simps [of ps])
  next
    case True
    obtain tok q1 y s1 where g1: "gettoken s0 = (tok, q1, y, s1)" by (metis prod_cases4)
    obtain tok2 q eq s2 where g2: "gettoken s1 = (tok2, q, eq, s2)" by (metis prod_cases4)
    from 1(2) True p g1 g2 obtain rs' where rs: "tok2 = 0x61" "parseredirs s2 = Inr (rs', s)"
      by (subst (asm) parseredirs.simps) (auto split: if_splits sum.splits)
    have "length s \<le> length s2"
      using 1(1) [OF p [symmetric] _ g1 [symmetric] refl refl g2 [symmetric] refl refl] True rs by simp
    then show ?thesis using peek_shorter [OF p] gettoken_le [OF g1] gettoken_le [OF g2] by linarith
  qed
qed

lemma peek_gettoken:
  "peek ps toks = (True, s) \<Longrightarrow> gettoken s = (tok, q, eq, s1) \<Longrightarrow> 0 \<notin> set toks \<Longrightarrow> tok \<noteq> 0"
proof -
  assume p: "peek ps toks = (True, s)" and g: "gettoken s = (tok, q, eq, s1)" and z: "0 \<notin> set toks"
  obtain c t where s: "s = c # t" "c \<in> set toks" using p by (cases s) (auto simp: peek_def Let_def)
  have "s = dropWhile is_ws ps" using p by (simp add: peek_def Let_def)
  then have "\<not> is_ws c" using s by (metis hd_dropWhile list.distinct(1) list.sel(1))
  then have "dropWhile is_ws s = s" using s by simp
  then show "tok \<noteq> 0" using g s z by (auto simp: gettoken_def Let_def split: if_splits)
qed

lemma peek_gettoken_less:
  assumes "peek ps toks = (True, s)" "gettoken s = (tok, q, eq, s1)" "0 \<notin> set toks"
  shows "length s1 < length ps"
  using gettoken_shorter [OF assms(2) peek_gettoken [OF assms]] peek_shorter [OF assms(1)] by simp

text \<open>The arguments of a command from the one with number \<open>argc\<close> on, and the redirections between them.\<close>

function parse_args :: "ptr \<Rightarrow> nat \<Rightarrow> string + (ptr \<times> ptr) list \<times> (ptr \<times> ptr \<times> int \<times> int) list \<times> ptr" where
  "parse_args ps argc =
     (case peek ps [0x7C, 0x29, 0x26, 0x3B] of (b, s) \<Rightarrow>
        if b then Inr ([], [], s)
        else case gettoken s of (tok, q, eq, s1) \<Rightarrow>
          if tok = 0 then Inr ([], [], s1)
          else if tok \<noteq> 0x61 then Inl ''syntax''
          else if MAXARGS \<le> argc + 1 then Inl ''too many args''
          else case parseredirs s1 of
              Inl e \<Rightarrow> Inl e
            | Inr (rs, s2) \<Rightarrow>
                (case parse_args s2 (argc + 1) of
                  Inl e \<Rightarrow> Inl e
                | Inr (args, rs', s3) \<Rightarrow> Inr ((q, eq) # args, rs @ rs', s3)))"
  by pat_completeness auto
termination
proof (relation "measure (\<lambda>(ps, argc). length ps)")
  fix ps argc b s tok x q y eq s1 z rs s2
  assume "(b, s) = peek ps [0x7C, 0x29, 0x26, 0x3B]" "(tok, x) = gettoken s" "(q, y) = x" "(eq, s1) = y"
    "tok \<noteq> (0 :: uchar)" "parseredirs s1 = Inr z" "(rs, s2) = z"
  then have "peek ps [0x7C, 0x29, 0x26, 0x3B] = (b, s)" "gettoken s = (tok, q, eq, s1)" "tok \<noteq> 0" "parseredirs s1 = Inr (rs, s2)"
    by auto
  from peek_shorter [OF this(1)] gettoken_shorter [OF this(2,3)] parseredirs_le [OF this(4)]
  show "((s2, argc + 1), ps, argc) \<in> measure (\<lambda>(ps, argc). length ps)" by simp
qed simp

declare parse_args.simps [simp del]

text \<open>The loop over trailing ampersands.\<close>

function amps :: "cmd \<Rightarrow> ptr \<Rightarrow> cmd \<times> ptr" where
  "amps c ps =
     (case peek ps [0x26] of (b, s) \<Rightarrow>
        if b then (case gettoken s of (_, _, _, s1) \<Rightarrow> amps (Backcmd c) s1) else (c, s))"
  by pat_completeness auto
termination
  by (relation "measure (\<lambda>(c, ps). length ps)") (auto dest!: peek_gettoken_less [OF sym sym])

declare amps.simps [simp del]

datatype nonterm = NLine | NPipe | NExec | NBlock

text \<open>Sequencing of parsers: an error ends the process.\<close>

definition pbind :: "(string + 'c \<times> 's) option \<Rightarrow> ('c \<Rightarrow> 's \<Rightarrow> (string + 'd) option) \<Rightarrow> (string + 'd) option" where
  "pbind m f = Option.bind m (\<lambda>r. case r of Inl e \<Rightarrow> Some (Inl e) | Inr (c, s) \<Rightarrow> f c s)"

lemma pbind_mono [partial_function_mono]:
  assumes "monotone (fun_ord option_ord) option_ord B"
    and "\<And>c s. monotone (fun_ord option_ord) option_ord (C c s)"
  shows "monotone (fun_ord option_ord) option_ord (\<lambda>f. pbind (B f) (\<lambda>c s. C c s f))"
  unfolding pbind_def
proof (rule bind_mono [OF assms(1)])
  fix r
  show "monotone (fun_ord option_ord) option_ord (\<lambda>f. case r of Inl e \<Rightarrow> Some (Inl e) | Inr (c, s) \<Rightarrow> C c s f)"
    by (cases r) (auto split: prod.split intro: assms(2) option.const_mono)
qed

partial_function (option) parse :: "nonterm \<Rightarrow> ptr \<Rightarrow> (string + cmd \<times> ptr) option" where
  "parse nt ps =
     (case nt of
        NLine \<Rightarrow>
          pbind (parse NPipe ps) (\<lambda>c s.
            case amps c s of (c1, s1) \<Rightarrow>
            case peek s1 [0x3B] of (b, s2) \<Rightarrow>
              if b then (case gettoken s2 of (_, _, _, s3) \<Rightarrow>
                pbind (parse NLine s3) (\<lambda>c2 s4. Some (Inr (Listcmd c1 c2, s4))))
              else Some (Inr (c1, s2)))
      | NPipe \<Rightarrow>
          pbind (parse NExec ps) (\<lambda>c s.
            case peek s [0x7C] of (b, s1) \<Rightarrow>
              if b then (case gettoken s1 of (_, _, _, s2) \<Rightarrow>
                pbind (parse NPipe s2) (\<lambda>c2 s3. Some (Inr (Pipecmd c c2, s3))))
              else Some (Inr (c, s1)))
      | NExec \<Rightarrow>
          (case peek ps [0x28] of (b, s) \<Rightarrow>
             if b then parse NBlock s
             else pbind (Some (parseredirs s)) (\<lambda>rs s1.
               case parse_args s1 0 of
                 Inl e \<Rightarrow> Some (Inl e)
               | Inr (args, rs', s2) \<Rightarrow> Some (Inr (wrap (Execcmd args) (rs @ rs'), s2))))
      | NBlock \<Rightarrow>
          (case peek ps [0x28] of (b, s) \<Rightarrow>
             if \<not> b then Some (Inl ''parseblock'')
             else case gettoken s of (_, _, _, s1) \<Rightarrow>
               pbind (parse NLine s1) (\<lambda>c s2.
                 case peek s2 [0x29] of (b, s3) \<Rightarrow>
                   if \<not> b then Some (Inl ''syntax - missing )'')
                   else case gettoken s3 of (_, _, _, s4) \<Rightarrow>
                     pbind (Some (parseredirs s4)) (\<lambda>rs s5. Some (Inr (wrap c rs, s5))))))"

text \<open>The bytes of the line with the ends of all words set to zero.  The end of the line is zero already.\<close>

fun nulterminate :: "nat \<Rightarrow> cmd \<Rightarrow> uchar list \<Rightarrow> uchar list" where
  "nulterminate n (Execcmd args) buf = foldl (\<lambda>b (q, eq). b[n - length eq := 0]) buf args"
| "nulterminate n (Redircmd c q eq mode fd) buf = (nulterminate n c buf)[n - length eq := 0]"
| "nulterminate n (Pipecmd l r) buf = nulterminate n r (nulterminate n l buf)"
| "nulterminate n (Listcmd l r) buf = nulterminate n r (nulterminate n l buf)"
| "nulterminate n (Backcmd c) buf = nulterminate n c buf"

definition parsecmd :: "uchar list \<Rightarrow> (string + cmd \<times> uchar list) option" where
  "parsecmd line =
     pbind (parse NLine line) (\<lambda>c s.
       if snd (peek s []) \<noteq> [] then Some (Inl ''syntax'')
       else Some (Inr (c, nulterminate (length line) c line)))"

section \<open>What the parser returns\<close>

text \<open>A word of the line: a longest run of word characters.\<close>

definition word_ok :: "uchar list \<Rightarrow> ptr \<Rightarrow> ptr \<Rightarrow> bool" where
  "word_ok line q eq \<longleftrightarrow> suffix q line \<and>
     (\<exists>w. q = w @ eq \<and> w \<noteq> [] \<and> list_all in_word w \<and> (eq = [] \<or> \<not> in_word (hd eq)))"

definition redir_ok :: "uchar list \<Rightarrow> ptr \<times> ptr \<times> int \<times> int \<Rightarrow> bool" where
  "redir_ok line r = (case r of (q, eq, mode, fd) \<Rightarrow>
     word_ok line q eq \<and> (mode, fd) \<in> {(O_RDONLY, 0), (O_WRONLY_CREATE, 1)})"

fun wf_cmd :: "uchar list \<Rightarrow> cmd \<Rightarrow> bool" where
  "wf_cmd line (Execcmd args) \<longleftrightarrow> length args < MAXARGS \<and> list_all (\<lambda>(q, eq). word_ok line q eq) args"
| "wf_cmd line (Redircmd c q eq mode fd) \<longleftrightarrow> wf_cmd line c \<and> redir_ok line (q, eq, mode, fd)"
| "wf_cmd line (Pipecmd l r) \<longleftrightarrow> wf_cmd line l \<and> wf_cmd line r"
| "wf_cmd line (Listcmd l r) \<longleftrightarrow> wf_cmd line l \<and> wf_cmd line r"
| "wf_cmd line (Backcmd c) \<longleftrightarrow> wf_cmd line c"

lemma dropWhile_suffix: "suffix (dropWhile P xs) xs"
  by (rule suffix_dropWhile)

lemma peek_suffix: "peek ps toks = (b, s) \<Longrightarrow> suffix s ps"
  by (auto simp: peek_def Let_def suffix_dropWhile)

lemma suffix_tl: "suffix (dropWhile P t) (c # t)"
  by (meson suffix_ConsI suffix_dropWhile)

lemma gettoken_suffix: "gettoken ps = (tok, q, eq, s) \<Longrightarrow> suffix s ps"
proof -
  assume g: "gettoken ps = (tok, q, eq, s)"
  have d: "suffix (dropWhile is_ws ps) ps" by (rule suffix_dropWhile)
  have "suffix s (dropWhile is_ws ps)"
  proof (cases "dropWhile is_ws ps")
    case Nil
    with g show ?thesis by (simp add: gettoken_def)
  next
    case (Cons c t)
    have "suffix (dropWhile is_ws (tl t)) (c # t)"
      by (metis suffix_tl suffix_order.trans suffix_dropWhile list.sel(3) suffix_ConsI tl_Nil suffix_bot.extremum neq_Nil_conv)
    moreover have "suffix (dropWhile is_ws (dropWhile in_word (c # t))) (c # t)"
      using suffix_dropWhile suffix_order.trans by blast
    ultimately show ?thesis
      using g Cons suffix_tl [of is_ws t c] by (auto simp: gettoken_def Let_def split: if_splits)
  qed
  with d show ?thesis by (rule suffix_order.trans [rotated])
qed

lemma gettoken_word:
  assumes g: "gettoken ps = (0x61, q, eq, s)" and p: "suffix ps line"
  shows "word_ok line q eq"
proof (cases "dropWhile is_ws ps")
  case Nil
  with g show ?thesis by (simp add: gettoken_def)
next
  case (Cons c t)
  have nws: "\<not> is_ws c" using Cons by (metis hd_dropWhile list.distinct(1) list.sel(1))
  have c: "c \<notin> {0x7C, 0x28, 0x29, 0x3B, 0x26, 0x3C, 0x3E}"
    using g Cons by (auto simp: gettoken_def Let_def split: if_splits)
  then have "in_word c" using nws by (auto simp: in_word_def symbols_def)
  moreover have q: "q = c # t" "eq = dropWhile in_word (c # t)"
    using g c unfolding gettoken_def Let_def Cons by auto
  moreover have "q = takeWhile in_word q @ eq" using q by simp
  moreover have "list_all in_word (takeWhile in_word q)" by (auto simp: list_all_iff dest: set_takeWhileD)
  moreover have "eq = [] \<or> \<not> in_word (hd eq)" using q(2) by (metis hd_dropWhile)
  moreover have "suffix q line" using p Cons q(1) by (metis suffix_dropWhile suffix_order.trans)
  ultimately show ?thesis unfolding word_ok_def by (intro conjI exI [of _ "takeWhile in_word q"]) auto
qed

lemma parseredirs_post:
  "parseredirs ps = Inr (rs, s) \<Longrightarrow> suffix ps line \<Longrightarrow> suffix s ps \<and> list_all (redir_ok line) rs"
proof (induction ps arbitrary: rs s rule: parseredirs.induct)
  case (1 ps)
  obtain b s0 where p: "peek ps [0x3C, 0x3E] = (b, s0)" by fastforce
  show ?case
  proof (cases b)
    case False
    with 1(2) p peek_suffix [OF p] show ?thesis by (simp add: parseredirs.simps [of ps])
  next
    case True
    obtain tok q1 y s1 where g1: "gettoken s0 = (tok, q1, y, s1)" by (metis prod_cases4)
    obtain tok2 q eq s2 where g2: "gettoken s1 = (tok2, q, eq, s2)" by (metis prod_cases4)
    from 1(2) True p g1 g2 obtain rs' where rs: "tok2 = 0x61" "parseredirs s2 = Inr (rs', s)"
      "rs = (q, eq, if tok = 0x3C then O_RDONLY else O_WRONLY_CREATE, if tok = 0x3C then 0 else 1) # rs'"
      by (subst (asm) parseredirs.simps) (auto split: if_splits sum.splits)
    have sx: "suffix s1 ps" "suffix s2 ps"
      using peek_suffix [OF p] gettoken_suffix [OF g1] gettoken_suffix [OF g2] suffix_order.trans by blast+
    then have ln: "suffix s1 line" "suffix s2 line" using 1(3) suffix_order.trans by blast+
    have "suffix s s2 \<and> list_all (redir_ok line) rs'"
      using 1(1) [OF p [symmetric] _ g1 [symmetric] refl refl g2 [symmetric] refl refl] True rs ln(2) by simp
    moreover have "word_ok line q eq" using gettoken_word g2 rs(1) ln(1) by blast
    then have "redir_ok line (hd rs)" using rs(3) by (simp add: redir_ok_def)
    ultimately show ?thesis using rs(3) sx(2) suffix_order.trans by auto
  qed
qed

lemma parse_args_post:
  "parse_args ps argc = Inr (args, rs, s) \<Longrightarrow> suffix ps line \<Longrightarrow> argc < MAXARGS \<Longrightarrow>
   suffix s ps \<and> list_all (redir_ok line) rs \<and> list_all (\<lambda>(q, eq). word_ok line q eq) args \<and> argc + length args < MAXARGS"
proof (induction ps argc arbitrary: args rs s rule: parse_args.induct)
  case (1 ps argc)
  obtain b s0 where p: "peek ps [0x7C, 0x29, 0x26, 0x3B] = (b, s0)" by fastforce
  obtain tok q eq s1 where g: "gettoken s0 = (tok, q, eq, s1)" by (metis prod_cases4)
  have sx: "suffix s0 ps" "suffix s1 ps"
    using peek_suffix [OF p] gettoken_suffix [OF g] suffix_order.trans by blast+
  show ?case
  proof (cases "b \<or> tok = 0")
    case True
    with 1(2,4) p g sx show ?thesis by (subst (asm) parse_args.simps) (auto split: if_splits)
  next
    case False
    with 1(2) p g obtain r1 s2 where r: "tok = 0x61" "\<not> MAXARGS \<le> argc + 1" "parseredirs s1 = Inr (r1, s2)"
      by (subst (asm) parse_args.simps) (auto split: if_splits sum.splits)
    with 1(2) p g False obtain as r2 where a: "parse_args s2 (argc + 1) = Inr (as, r2, s)" "args = (q, eq) # as" "rs = r1 @ r2"
      by (subst (asm) parse_args.simps) (auto split: sum.splits)
    have ln: "suffix s0 line" "suffix s1 line" using sx 1(3) suffix_order.trans by blast+
    note r1 = parseredirs_post [OF r(3) ln(2)]
    have "suffix s2 line" using r1 ln suffix_order.trans by blast
    then have "suffix s s2 \<and> list_all (redir_ok line) r2 \<and> list_all (\<lambda>(q, eq). word_ok line q eq) as \<and> argc + 1 + length as < MAXARGS"
      using 1(1) [OF p [symmetric] _ g [symmetric] refl refl _ _ _ r(3) refl] False r a(1) by simp
    moreover have "word_ok line q eq" using gettoken_word g r(1) ln(1) by blast
    moreover have "suffix s ps" using calculation r1 sx(2) suffix_order.trans by blast
    ultimately show ?thesis using a r1 by simp
  qed
qed

lemma amps_post: "amps c ps = (c', s) \<Longrightarrow> suffix s ps \<and> (wf_cmd line c \<longrightarrow> wf_cmd line c')"
proof (induction c ps rule: amps.induct)
  case (1 c ps)
  obtain b s0 where p: "peek ps [0x26] = (b, s0)" by fastforce
  obtain tok q eq s1 where g: "gettoken s0 = (tok, q, eq, s1)" by (metis prod_cases4)
  show ?case
  proof (cases b)
    case True
    with 1(2) p g have "amps (Backcmd c) s1 = (c', s)" by (subst (asm) amps.simps) simp
    with 1(1) [OF p [symmetric] True g [symmetric] refl refl]
    have "suffix s s1 \<and> (wf_cmd line c \<longrightarrow> wf_cmd line c')" by simp
    then show ?thesis using peek_suffix [OF p] gettoken_suffix [OF g] suffix_order.trans by blast
  next
    case False
    with 1(2) p peek_suffix [OF p] show ?thesis by (subst (asm) amps.simps) simp
  qed
qed

lemma wrap_wf: "wf_cmd line c \<Longrightarrow> list_all (redir_ok line) rs \<Longrightarrow> wf_cmd line (wrap c rs)"
proof (induction rs arbitrary: c)
  case (Cons r rs)
  obtain q eq mode fd where r: "r = (q, eq, mode, fd)" by (metis prod_cases4)
  have "wf_cmd line (wrap (Redircmd c q eq mode fd) rs)" using Cons r by auto
  then show ?case by (simp add: wrap_def r)
qed (simp add: wrap_def)

text \<open>\<open>returns Q m\<close>: \<open>m\<close> ends, and a result that is no error satisfies \<open>Q\<close>.\<close>

definition returns :: "('c \<Rightarrow> 's \<Rightarrow> bool) \<Rightarrow> (string + 'c \<times> 's) option \<Rightarrow> bool" where
  "returns Q m \<longleftrightarrow> (\<exists>r. m = Some r \<and> (\<forall>c s. r = Inr (c, s) \<longrightarrow> Q c s))"

lemma returns_Ok: "Q c s \<Longrightarrow> returns Q (Some (Inr (c, s)))"
  and returns_error: "returns Q (Some (Inl e))"
  and returns_if: "(b \<Longrightarrow> returns Q m1) \<Longrightarrow> (\<not> b \<Longrightarrow> returns Q m2) \<Longrightarrow> returns Q (if b then m1 else m2)"
  and returns_sum: "(\<And>e. r = Inl e \<Longrightarrow> returns Q (f1 e)) \<Longrightarrow> (\<And>a. r = Inr a \<Longrightarrow> returns Q (f2 a)) \<Longrightarrow>
    returns Q (case r of Inl e \<Rightarrow> f1 e | Inr a \<Rightarrow> f2 a)"
  by (auto simp: returns_def split: sum.splits)

lemma returns_prod: "(\<And>x y. p = (x, y) \<Longrightarrow> returns Q (g x y)) \<Longrightarrow> returns Q (case p of (x, y) \<Rightarrow> g x y)"
  by (cases p) simp

lemma returns_bind: "returns R m \<Longrightarrow> (\<And>c s. R c s \<Longrightarrow> returns Q (f c s)) \<Longrightarrow> returns Q (pbind m f)"
proof -
  assume m: "returns R m" and f: "\<And>c s. R c s \<Longrightarrow> returns Q (f c s)"
  obtain r where r: "m = Some r" "\<And>c s. r = Inr (c, s) \<Longrightarrow> R c s" using m by (auto simp: returns_def)
  show "returns Q (pbind m f)"
  proof (cases r)
    case (Inl e)
    then show ?thesis by (simp add: r pbind_def returns_error)
  next
    case (Inr q)
    obtain c s where q: "q = (c, s)" by fastforce
    have "returns Q (f c s)" using f r(2) Inr q by blast
    then show ?thesis by (simp add: r(1) Inr q pbind_def)
  qed
qed

lemmas returns_rules = returns_Ok returns_error returns_if returns_prod returns_sum

text \<open>A result of the parser at \<open>ps\<close>: a position further on and a command that is well formed.\<close>

definition parsed :: "uchar list \<Rightarrow> ptr \<Rightarrow> cmd \<Rightarrow> ptr \<Rightarrow> bool" where
  "parsed line ps c s \<longleftrightarrow> suffix s ps \<and> suffix s line \<and> wf_cmd line c"

lemma parsed_trans: "suffix ps' ps \<Longrightarrow> parsed line ps' c s \<Longrightarrow> parsed line ps c s"
  unfolding parsed_def by (meson suffix_order.trans)

lemma returns_parsed: "suffix ps' ps \<Longrightarrow> returns (parsed line ps') m \<Longrightarrow> returns (parsed line ps) m"
  unfolding returns_def by (blast intro: parsed_trans)

lemma parsed_amps: "parsed line ps c s \<Longrightarrow> amps c s = (c1, s1) \<Longrightarrow> peek s1 toks = (b, s2) \<Longrightarrow> parsed line ps c1 s2"
  using amps_post [of c s c1 s1 line] peek_suffix [of s1 toks b s2] unfolding parsed_def by (meson suffix_order.trans)

lemma parsed_peek: "parsed line ps c s \<Longrightarrow> peek s toks = (b, s1) \<Longrightarrow> parsed line ps c s1"
  using peek_suffix [of s toks b s1] unfolding parsed_def by (meson suffix_order.trans)

lemma parsed_gettoken: "parsed line ps c s \<Longrightarrow> gettoken s = (tok, q, eq, s1) \<Longrightarrow> parsed line ps c s1"
  using gettoken_suffix [of s tok q eq s1] unfolding parsed_def by (meson suffix_order.trans)

lemma returns_redirs: "suffix ps line \<Longrightarrow>
    returns (\<lambda>rs s. suffix s ps \<and> suffix s line \<and> list_all (redir_ok line) rs) (Some (parseredirs ps))"
  using parseredirs_post [of ps _ _ line] unfolding returns_def by (fastforce intro: suffix_order.trans)

lemma parsed_args:
  assumes "suffix s ps" "suffix s line" "list_all (redir_ok line) rs" "parse_args s 0 = Inr (args, rs', s2)"
  shows "parsed line ps (wrap (Execcmd args) (rs @ rs')) s2"
proof -
  have "suffix s2 s" "list_all (redir_ok line) rs'" "wf_cmd line (Execcmd args)"
    using parse_args_post [OF assms(4,2)] by auto
  moreover from this assms(3) have "wf_cmd line (wrap (Execcmd args) (rs @ rs'))" by (intro wrap_wf) auto
  ultimately show ?thesis using assms(1,2) unfolding parsed_def by (meson suffix_order.trans)
qed

fun rank :: "nonterm \<Rightarrow> nat" where
  "rank NLine = 3"
| "rank NPipe = 2"
| "rank NExec = 1"
| "rank NBlock = 0"

lemma parse_returns: "suffix ps line \<Longrightarrow> returns (parsed line ps) (parse nt ps)"
proof (induction "4 * length ps + rank nt" arbitrary: nt ps rule: less_induct)
  case less
  have same: "returns (parsed line ps) (parse n ps)" if "rank n < rank nt" for n
    by (rule less(1)) (use that less(2) in simp_all)
  have further: "returns (parsed line ps) (parse n s')" if "suffix s' ps" "length s' < length ps" for n s'
  proof (rule returns_parsed [OF that(1) less(1)])
    have "rank n \<le> 3" by (cases n) simp_all
    then show "4 * length s' + rank n < 4 * length ps + rank nt" using that(2) by simp
    show "suffix s' line" using that(1) less(2) by (rule suffix_order.trans)
  qed
  have after: "returns (parsed line ps) (parse n s2)"
    if "suffix s ps" "peek s toks = (True, s1)" "gettoken s1 = (tok, q, eq, s2)" "0 \<notin> set toks" for n s toks s1 tok q eq s2
  proof (rule further)
    show "suffix s2 ps" using that peek_suffix gettoken_suffix by (meson suffix_order.trans)
    show "length s2 < length ps"
      using peek_gettoken_less [OF that(2-4)] suffix_length_le [OF that(1)] by simp
  qed
  show ?case
  proof (cases nt)
    case NLine
    show ?thesis
      unfolding NLine
    proof (subst parse.simps, unfold nonterm.case, rule returns_bind [OF same], simp add: NLine, rule returns_prod, rule returns_prod, rule returns_if)
      fix c s c1 s1 b s2
      assume c: "parsed line ps c s" "amps c s = (c1, s1)" and p: "peek s1 [0x3B] = (b, s2)"
      note p2 = parsed_amps [OF c p]
      have s1: "suffix s1 ps" using c amps_post unfolding parsed_def by (meson suffix_order.trans)
      show "returns (parsed line ps) (Some (Inr (c1, s2)))" by (rule returns_Ok, rule p2)
      show "returns (parsed line ps) (case gettoken s2 of (_, _, _, s3) \<Rightarrow>
          pbind (parse NLine s3) (\<lambda>c2 s4. Some (Inr (Listcmd c1 c2, s4))))" if "b"
        by ((rule returns_prod)+, rule returns_bind, rule after [OF s1, of "[0x3B]" s2])
          (use p that p2 in \<open>auto intro!: returns_Ok simp: parsed_def\<close>)
    qed
  next
    case NPipe
    show ?thesis
      unfolding NPipe
    proof (subst parse.simps, unfold nonterm.case, rule returns_bind [OF same], simp add: NPipe, rule returns_prod, rule returns_if)
      fix c s b s1
      assume c: "parsed line ps c s" and p: "peek s [0x7C] = (b, s1)"
      note p1 = parsed_peek [OF c p]
      have s: "suffix s ps" using c by (simp add: parsed_def)
      show "returns (parsed line ps) (Some (Inr (c, s1)))" by (rule returns_Ok, rule p1)
      show "returns (parsed line ps) (case gettoken s1 of (_, _, _, s2) \<Rightarrow>
          pbind (parse NPipe s2) (\<lambda>c2 s3. Some (Inr (Pipecmd c c2, s3))))" if "b"
        by ((rule returns_prod)+, rule returns_bind, rule after [OF s, of "[0x7C]" s1])
          (use p that p1 in \<open>auto intro!: returns_Ok simp: parsed_def\<close>)
    qed
  next
    case NExec
    show ?thesis
      unfolding NExec
    proof (subst parse.simps, unfold nonterm.case, rule returns_prod, rule returns_if)
      fix b s
      assume p: "peek ps [0x28] = (b, s)"
      have s: "suffix s ps" "suffix s line" using peek_suffix [OF p] less(2) suffix_order.trans by blast+
      have "4 * length s + rank NBlock < 4 * length ps + rank nt" using suffix_length_le [OF s(1)] NExec by simp
      from less(1) [OF this s(2)] show "returns (parsed line ps) (parse NBlock s)" by (rule returns_parsed [OF s(1)])
      show "returns (parsed line ps) (pbind (Some (parseredirs s)) (\<lambda>rs s1.
               case parse_args s1 0 of
                 Inl e \<Rightarrow> Some (Inl e)
               | Inr (args, rs', s2) \<Rightarrow> Some (Inr (wrap (Execcmd args) (rs @ rs'), s2))))"
      proof (rule returns_bind [OF returns_redirs [OF s(2)]])
        fix rs s1
        assume r: "suffix s1 s \<and> suffix s1 line \<and> list_all (redir_ok line) rs"
        then have "suffix s1 ps" using s suffix_order.trans by blast
        with r parsed_args [of s1 ps line rs] show "returns (parsed line ps) (case parse_args s1 0 of
                 Inl e \<Rightarrow> Some (Inl e)
               | Inr (args, rs', s2) \<Rightarrow> Some (Inr (wrap (Execcmd args) (rs @ rs'), s2)))"
          by (auto simp: returns_def split: sum.splits)
      qed
    qed
  next
    case NBlock
    show ?thesis
      unfolding NBlock
    proof (subst parse.simps, unfold nonterm.case, rule returns_prod, rule returns_if [OF returns_error], (rule returns_prod)+, rule returns_bind)
      fix b s tok x q y eq s1
      assume p: "peek ps [0x28] = (b, s)" "\<not> \<not> b" and g: "gettoken s = (tok, x)" "x = (q, y)" "y = (eq, s1)"
      show "returns (parsed line ps) (parse NLine s1)"
        by (rule after [of ps "[0x28]" s tok q eq s1]) (use p g in simp_all)
    next
      fix c s2
      assume c: "parsed line ps c s2"
      show "returns (parsed line ps) (case peek s2 [0x29] of (b, s3) \<Rightarrow>
                   if \<not> b then Some (Inl ''syntax - missing )'')
                   else case gettoken s3 of (_, _, _, s4) \<Rightarrow>
                     pbind (Some (parseredirs s4)) (\<lambda>rs s5. Some (Inr (wrap c rs, s5))))"
      proof (rule returns_prod, rule returns_if [OF returns_error], (rule returns_prod)+)
        fix b s3 tok x q y eq s4
        assume "peek s2 [0x29] = (b, s3)" "gettoken s3 = (tok, x)" "x = (q, y)" "y = (eq, s4)"
        then have c4: "parsed line ps c s4" using parsed_gettoken [OF parsed_peek [OF c]] by blast
        then have "suffix s4 line" by (simp add: parsed_def)
        from returns_redirs [OF this] c4 wrap_wf [of line c]
        show "returns (parsed line ps) (pbind (Some (parseredirs s4)) (\<lambda>rs s5. Some (Inr (wrap c rs, s5))))"
          by (elim returns_bind) (auto simp: returns_def parsed_def intro: suffix_order.trans)
      qed
    qed
  qed
qed

section \<open>The words of the line\<close>

fun words :: "cmd \<Rightarrow> (ptr \<times> ptr) list" where
  "words (Execcmd args) = args"
| "words (Redircmd c q eq mode fd) = words c @ [(q, eq)]"
| "words (Pipecmd l r) = words l @ words r"
| "words (Listcmd l r) = words l @ words r"
| "words (Backcmd c) = words c"

text \<open>The word between two pointers, and the string at a pointer in the line after \<open>nulterminate\<close>.\<close>

definition word :: "ptr \<times> ptr \<Rightarrow> uchar list" where
  "word w = (case w of (q, eq) \<Rightarrow> take (length q - length eq) q)"

definition string_at :: "uchar list \<Rightarrow> ptr \<Rightarrow> uchar list" where
  "string_at buf q = takeWhile (\<lambda>c. c \<noteq> 0) (drop (length buf - length q) buf)"

lemma wf_words: "wf_cmd line c \<Longrightarrow> (q, eq) \<in> set (words c) \<Longrightarrow> word_ok line q eq"
  by (induction c) (auto simp: list_all_iff redir_ok_def)

lemma foldl_zeros:
  "length (foldl (\<lambda>b (q, eq). b[n - length (eq :: ptr) := 0]) buf ws) = length buf"
  "i < length buf \<Longrightarrow> foldl (\<lambda>b (q, eq). b[n - length (eq :: ptr) := 0]) buf ws ! i =
     (if i \<in> (\<lambda>(q, eq). n - length eq) ` set ws then 0 else buf ! i)"
  by (induction ws arbitrary: buf) (auto simp: nth_list_update split: prod.splits)

lemma length_nulterminate [simp]: "length (nulterminate n c buf) = length buf"
  by (induction n c buf rule: nulterminate.induct) (simp_all add: foldl_zeros)

lemma nth_nulterminate:
  "i < length buf \<Longrightarrow> nulterminate n c buf ! i =
     (if i \<in> (\<lambda>(q, eq). n - length eq) ` set (words c) then 0 else buf ! i)"
proof (induction n c buf rule: nulterminate.induct)
  case (2 n c q eq mode fd buf)
  then show ?case by (cases "i = n - length eq") (auto simp: nth_list_update)
qed (auto simp: foldl_zeros)

lemma takeWhile_upto:
  "(\<And>i. i < k \<Longrightarrow> xs ! i = ys ! i \<and> ys ! i \<noteq> 0) \<Longrightarrow> k \<le> length xs \<Longrightarrow> k \<le> length ys \<Longrightarrow>
   k = length xs \<or> xs ! k = 0 \<Longrightarrow> takeWhile (\<lambda>c. c \<noteq> (0 :: uchar)) xs = take k ys"
proof -
  assume a: "\<And>i. i < k \<Longrightarrow> xs ! i = ys ! i \<and> ys ! i \<noteq> 0" and k: "k \<le> length xs" "k \<le> length ys"
    and e: "k = length xs \<or> xs ! k = 0"
  have t: "take k xs = take k ys" using a k by (intro nth_equalityI) auto
  have "list_all (\<lambda>c. c \<noteq> 0) (take k xs)" using a k by (auto simp: list_all_length)
  then have "takeWhile (\<lambda>c. c \<noteq> 0) (take k xs @ drop k xs) = take k xs @ takeWhile (\<lambda>c. c \<noteq> 0) (drop k xs)"
    by (intro takeWhile_append2) (auto simp: list_all_iff)
  moreover have "takeWhile (\<lambda>c. c \<noteq> 0) (drop k xs) = []"
    using e k by (cases "k = length xs") (auto simp: takeWhile_eq_Nil_iff hd_drop_conv_nth)
  ultimately show ?thesis using t by (metis append_Nil2 append_take_drop_id)
qed

text \<open>C22: after \<open>nulterminate\<close> every argument and every file name of the command tree is the string of
  exactly the word that the parser found, no matter which character ended it: the zeros written at
  the ends of the words never fall into another word.\<close>

theorem words_terminated:
  assumes "parsecmd line = Some (Inr (c, buf))" "0 \<notin> set line" "w \<in> set (words c)"
  shows "string_at buf (fst w) = word w \<and> word w \<noteq> [] \<and> list_all in_word (word w)"
proof -
  obtain q eq where w: "w = (q, eq)" by fastforce
  obtain r where r: "parse NLine line = Some r" "\<And>c s. r = Inr (c, s) \<Longrightarrow> wf_cmd line c"
    using parse_returns [of line line NLine] by (auto simp: returns_def parsed_def)
  have buf: "buf = nulterminate (length line) c line" and wf: "wf_cmd line c"
    using assms(1) r by (cases r; auto simp: parsecmd_def pbind_def split: prod.splits if_splits)+
  have ok: "word_ok line q' eq'" if "(q', eq') \<in> set (words c)" for q' eq' using wf_words [OF wf that] .
  from ok [of q eq] assms(3) w obtain u v where u: "line = u @ q" "q = v @ eq" "v \<noteq> []" "list_all in_word v"
    by (auto simp: word_ok_def suffix_def)
  have word: "word w = v" using w u(2) by (simp add: word_def)
  have ends: "in_word (line ! i) \<Longrightarrow> i < length line \<Longrightarrow> i \<notin> (\<lambda>(q, eq). length line - length eq) ` set (words c)" for i
  proof
    assume i: "in_word (line ! i)" "i < length line" and "i \<in> (\<lambda>(q, eq). length line - length eq) ` set (words c)"
    then obtain q' eq' where q': "(q', eq') \<in> set (words c)" "i = length line - length eq'" by auto
    obtain x where x: "line = x @ eq'" "eq' = [] \<or> \<not> in_word (hd eq')"
      using ok [OF q'(1)] by (auto simp: word_ok_def suffix_def)
    then have "eq' \<noteq> []" using i(2) q'(2) by auto
    moreover have "line ! i = hd eq'" using x(1) q'(2) calculation by (simp add: hd_conv_nth nth_append)
    ultimately show False using x(2) i(1) by simp
  qed
  let ?d = "drop (length line - length q) buf"
  have len: "length buf = length line" "length line - length q = length u" by (simp_all add: buf u)
  have at: "?d ! i = buf ! (length u + i)" if "i < length q" for i using len that u(1) by simp
  have "takeWhile (\<lambda>c. c \<noteq> 0) ?d = take (length v) q"
  proof (rule takeWhile_upto)
    show "?d ! i = q ! i \<and> q ! i \<noteq> 0" if "i < length v" for i
    proof -
      have q: "i < length q" "line ! (length u + i) = q ! i" "q ! i = v ! i" using that u by (auto simp: nth_append)
      then have "in_word (line ! (length u + i))" using u(4) that by (simp add: list_all_length)
      then have "buf ! (length u + i) = line ! (length u + i)"
        using ends [of "length u + i"] q(1) u(1) by (simp add: buf nth_nulterminate)
      moreover have "q ! i \<noteq> 0" using nth_mem [OF q(1)] assms(2) u(1) by (metis Un_iff set_append)
      ultimately show ?thesis using q at by simp
    qed
    show "length v \<le> length ?d" "length v \<le> length q" using len u by simp_all
    show "length v = length ?d \<or> ?d ! length v = 0"
    proof (cases "eq = []")
      case False
      then have "length v < length q" "length u + length v = length line - length eq" using u by auto
      moreover have "length u + length v \<in> (\<lambda>(q, eq). length line - length eq) ` set (words c)"
        using assms(3) w calculation(2) by force
      ultimately show ?thesis using at [of "length v"] u(1) by (simp add: buf nth_nulterminate)
    qed (use len u in simp)
  qed
  then have "string_at buf q = v" using u(2) len by (simp add: string_at_def)
  then show ?thesis using word w u(3,4) by simp
qed

text \<open>C23: the parser returns on every line: with a message and the end of the process, or with a command tree in
  which every command has at most nine arguments, every argument and file name is a word of the line,
  input is redirected from descriptor 0 and output from 1.\<close>

theorem parser_total:
  "\<exists>r. parsecmd line = Some r \<and> (case r of Inl e \<Rightarrow> True | Inr (c, buf) \<Rightarrow> wf_cmd line c \<and> length buf = length line)"
proof -
  obtain r where r: "parse NLine line = Some r" "\<And>c s. r = Inr (c, s) \<Longrightarrow> wf_cmd line c"
    using parse_returns [of line line NLine] by (auto simp: returns_def parsed_def)
  then show ?thesis by (cases r) (auto simp: parsecmd_def pbind_def split: prod.splits)
qed

theorem words_terminated_witness:
  "\<exists>c buf. parsecmd [0x61, 0x7C, 0x62] = Some (Inr (c, buf)) \<and> list_all (\<lambda>w. string_at buf (fst w) = word w) (words c) \<and>
     map word (words c) = [[0x61], [0x62]]"
proof -
  have e: "parsecmd [0x61, 0x7C, 0x62] = Some (Inr (Pipecmd (Execcmd [([0x61, 0x7C, 0x62], [0x7C, 0x62])]) (Execcmd [([0x62], [])]),
      [0x61, 0, 0x62]))"
    by (simp add: parsecmd_def pbind_def parse.simps Let_def peek_def gettoken_def is_ws_def whitespace_def in_word_def symbols_def
        parseredirs.simps parse_args.simps amps.simps wrap_def)
  from words_terminated [OF e] have "\<forall>w\<in>set [([0x61, 0x7C, 0x62], [0x7C, 0x62]), ([0x62], [])].
      string_at [0x61, 0, 0x62] (fst w) = word (w :: ptr \<times> ptr)" by simp
  with e show ?thesis by (simp add: word_def)
qed

section \<open>Running a command\<close>

text \<open>\<open>runcmd\<close> is a tree of processes, each with a table of \<open>NOFILE\<close> descriptors in which the kernel hands out the lowest
  free one.  \<open>run\<close> lists the ends of the processes it starts, the caller last: a program that \<open>exec\<close>
  started, with its arguments and descriptors, or an exit.  The outcomes of system calls that may fail
  for reasons outside of the table are parameters: \<open>fork_ok\<close> of the number of the fork, \<open>open_ok\<close>,
  \<open>exec_ok\<close>.  Pipes are named by the number with which they are created.\<close>

datatype obj = File "uchar list" int | PipeR nat | PipeW nat | Other nat

type_synonym fdtab = "nat \<Rightarrow> obj option"

abbreviation SH_NOFILE :: nat where "SH_NOFILE \<equiv> 64"

record outcomes =
  fork_ok :: "nat \<Rightarrow> bool"
  open_ok :: "uchar list \<Rightarrow> int \<Rightarrow> bool"
  exec_ok :: "uchar list list \<Rightarrow> bool"

datatype ending = Runs "uchar list list" fdtab | Exits fdtab | Dies string

definition fd_alloc :: "obj \<Rightarrow> fdtab \<Rightarrow> (nat \<times> fdtab) option" where
  "fd_alloc ob t = map_option (\<lambda>i. (i, t(i \<mapsto> ob))) (scan (\<lambda>i. t i = None) 0 SH_NOFILE)"

definition fd_close :: "nat \<Rightarrow> fdtab \<Rightarrow> fdtab" where
  "fd_close fd t = t(fd := None)"

definition fd_dup :: "nat \<Rightarrow> fdtab \<Rightarrow> fdtab" where
  "fd_dup fd t = (case t fd of None \<Rightarrow> t | Some ob \<Rightarrow> (case fd_alloc ob t of None \<Rightarrow> t | Some (_, t') \<Rightarrow> t'))"

definition fd_open :: "outcomes \<Rightarrow> uchar list \<Rightarrow> int \<Rightarrow> fdtab \<Rightarrow> fdtab option" where
  "fd_open E name mode t = (if open_ok E name mode then map_option snd (fd_alloc (File name mode) t) else None)"

definition fd_pipe :: "nat \<Rightarrow> fdtab \<Rightarrow> (nat \<times> nat \<times> fdtab) option" where
  "fd_pipe k t =
     Option.bind (fd_alloc (PipeR k) t) (\<lambda>(p0, t0). map_option (\<lambda>(p1, t1). (p0, p1, t1)) (fd_alloc (PipeW k) t0))"

text \<open>\<open>k\<close> counts forks and pipes.  The two children of a pipeline connect one end of the pipe and close both.\<close>

fun run :: "outcomes \<Rightarrow> cmd \<Rightarrow> nat \<Rightarrow> fdtab \<Rightarrow> ending list \<times> nat" where
  "run E (Execcmd args) k t =
     (if args = [] then ([Exits t], k)
      else if exec_ok E (map word args) then ([Runs (map word args) t], k) else ([Exits t], k))"
| "run E (Redircmd c q eq mode fd) k t =
     (case fd_open E (word (q, eq)) mode (fd_close (nat fd) t) of
        None \<Rightarrow> ([Exits (fd_close (nat fd) t)], k)
      | Some t1 \<Rightarrow> run E c k t1)"
| "run E (Listcmd l r) k t =
     (if \<not> fork_ok E k then ([Dies ''fork''], Suc k)
      else case run E l (Suc k) t of (es, k1) \<Rightarrow> case run E r k1 t of (es', k2) \<Rightarrow> (es @ es', k2))"
| "run E (Pipecmd l r) k t =
     (case fd_pipe k t of
        None \<Rightarrow> ([Dies ''pipe''], Suc k)
      | Some (p0, p1, t1) \<Rightarrow>
          if \<not> fork_ok E (Suc k) then ([Dies ''fork''], k + 2)
          else case run E l (k + 2) (fd_close p1 (fd_close p0 (fd_dup p1 (fd_close 1 t1)))) of (es, k1) \<Rightarrow>
            if \<not> fork_ok E k1 then (es @ [Dies ''fork''], Suc k1)
            else case run E r (Suc k1) (fd_close p1 (fd_close p0 (fd_dup p0 (fd_close 0 t1)))) of (es', k2) \<Rightarrow>
              (es @ es' @ [Exits (fd_close p1 (fd_close p0 t1))], k2))"
| "run E (Backcmd c) k t =
     (if \<not> fork_ok E k then ([Dies ''fork''], Suc k)
      else case run E c (Suc k) t of (es, k1) \<Rightarrow> (es @ [Exits t], k1))"

text \<open>What the commands mean, without descriptors that are allocated and closed: a redirection replaces an entry
  of the table, a pipe connects the output of one command to the input of the other.\<close>

fun eval :: "outcomes \<Rightarrow> cmd \<Rightarrow> nat \<Rightarrow> fdtab \<Rightarrow> ending list \<times> nat" where
  "eval E (Execcmd args) k t =
     (if args = [] then ([Exits t], k)
      else if exec_ok E (map word args) then ([Runs (map word args) t], k) else ([Exits t], k))"
| "eval E (Redircmd c q eq mode fd) k t =
     (if open_ok E (word (q, eq)) mode then eval E c k (t(nat fd \<mapsto> File (word (q, eq)) mode))
      else ([Exits (t(nat fd := None))], k))"
| "eval E (Listcmd l r) k t =
     (case eval E l (Suc k) t of (es, k1) \<Rightarrow> case eval E r k1 t of (es', k2) \<Rightarrow> (es @ es', k2))"
| "eval E (Pipecmd l r) k t =
     (case eval E l (k + 2) (t(1 \<mapsto> PipeW k)) of (es, k1) \<Rightarrow>
      case eval E r (Suc k1) (t(0 \<mapsto> PipeR k)) of (es', k2) \<Rightarrow> (es @ es' @ [Exits t], k2))"
| "eval E (Backcmd c) k t = (case eval E c (Suc k) t of (es, k1) \<Rightarrow> (es @ [Exits t], k1))"

lemma fd_alloc_eq: "fd_alloc ob t = Some (i, t') \<longleftrightarrow>
    i < SH_NOFILE \<and> t i = None \<and> (\<forall>j<i. t j \<noteq> None) \<and> t' = t(i \<mapsto> ob)"
  by (auto simp: fd_alloc_def scan_eq_Some)

lemma fd_alloc_None: "fd_alloc ob t = None \<longleftrightarrow> (\<forall>i<SH_NOFILE. t i \<noteq> None)"
  by (auto simp: fd_alloc_def scan_eq_None)

text \<open>The table of a shell: input and output are open and two more descriptors are free.\<close>

definition roomy :: "fdtab \<Rightarrow> bool" where
  "roomy t \<longleftrightarrow> t 0 \<noteq> None \<and> t 1 \<noteq> None \<and> (\<exists>i<SH_NOFILE. \<exists>j<SH_NOFILE. i < j \<and> t i = None \<and> t j = None)"

lemma roomy_upd:
  assumes "roomy t" "fd \<le> 1"
  shows "roomy (t(fd \<mapsto> ob))"
proof -
  obtain i j where ij: "i < j" "j < SH_NOFILE" "t i = None" "t j = None" "t 0 \<noteq> None" "t 1 \<noteq> None"
    using assms(1) by (auto simp: roomy_def)
  then have "i \<noteq> 0" "i \<noteq> 1" by (auto intro: ccontr)
  with ij assms(2) show ?thesis unfolding roomy_def
    by (intro conjI exI [of _ i] exI [of _ j]) auto
qed

lemma redirect:
  assumes "roomy t" "fd \<in> {0, 1}"
  shows "fd_alloc ob (fd_close fd t) = Some (fd, t(fd \<mapsto> ob))"
  using assms by (auto simp: fd_alloc_eq fd_close_def roomy_def less_Suc0)

lemma pipe_ends:
  assumes "roomy t"
  shows "\<exists>p0 p1. fd_pipe k t = Some (p0, p1, t(p0 \<mapsto> PipeR k, p1 \<mapsto> PipeW k)) \<and> 1 < p0 \<and> p0 < p1 \<and>
    t p0 = None \<and> t p1 = None"
proof -
  obtain i j where ij: "i < j" "j < SH_NOFILE" "t i = None" "t j = None" using assms by (auto simp: roomy_def)
  obtain p0 t0 where a: "fd_alloc (PipeR k) t = Some (p0, t0)"
    using ij fd_alloc_None [of "PipeR k" t] by (cases "fd_alloc (PipeR k) t") auto
  then have p0: "t p0 = None" "\<forall>l<p0. t l \<noteq> None" "t0 = t(p0 \<mapsto> PipeR k)" by (simp_all add: fd_alloc_eq)
  have "p0 < j" using p0(2) ij by (metis linorder_neqE_nat order_less_trans)
  obtain p1 t1 where b: "fd_alloc (PipeW k) t0 = Some (p1, t1)"
    using ij \<open>p0 < j\<close> p0(3) fd_alloc_None [of "PipeW k" t0] by (cases "fd_alloc (PipeW k) t0") auto
  then have p1: "t0 p1 = None" "t1 = t0(p1 \<mapsto> PipeW k)" by (simp_all add: fd_alloc_eq)
  have "p0 \<noteq> 0" "p0 \<noteq> 1" using p0(1) assms by (auto simp: roomy_def intro: ccontr)
  moreover have "p0 \<noteq> p1" "t p1 = None" using p1(1) p0(3) by (auto split: if_splits)
  moreover have "p0 < p1" using p0(2) calculation by (metis linorder_neqE_nat)
  ultimately show ?thesis using a b p0 p1 by (intro exI [of _ p0] exI [of _ p1]) (simp add: fd_pipe_def)
qed

lemma connect:
  assumes "roomy t" "t p0 = None" "t p1 = None" "1 < p0" "p0 < p1"
  shows "fd_close p1 (fd_close p0 (fd_dup p1 (fd_close 1 (t(p0 \<mapsto> PipeR k, p1 \<mapsto> PipeW k))))) = t(1 \<mapsto> PipeW k)"
    "fd_close p1 (fd_close p0 (fd_dup p0 (fd_close 0 (t(p0 \<mapsto> PipeR k, p1 \<mapsto> PipeW k))))) = t(0 \<mapsto> PipeR k)"
    "fd_close p1 (fd_close p0 (t(p0 \<mapsto> PipeR k, p1 \<mapsto> PipeW k))) = t"
proof -
  let ?t = "t(p0 \<mapsto> PipeR k, p1 \<mapsto> PipeW k)"
  have "fd_alloc (PipeW k) (fd_close 1 ?t) = Some (1, (fd_close 1 ?t)(1 \<mapsto> PipeW k))"
    "fd_alloc (PipeR k) (fd_close 0 ?t) = Some (0, (fd_close 0 ?t)(0 \<mapsto> PipeR k))"
    using assms by (auto simp: fd_alloc_eq fd_close_def roomy_def)
  then have "fd_dup p1 (fd_close 1 ?t) = (fd_close 1 ?t)(1 \<mapsto> PipeW k)" "fd_dup p0 (fd_close 0 ?t) = (fd_close 0 ?t)(0 \<mapsto> PipeR k)"
    using assms(4,5) by (simp_all add: fd_dup_def fd_close_def)
  then show "fd_close p1 (fd_close p0 (fd_dup p1 (fd_close 1 ?t))) = t(1 \<mapsto> PipeW k)"
    "fd_close p1 (fd_close p0 (fd_dup p0 (fd_close 0 ?t))) = t(0 \<mapsto> PipeR k)"
    "fd_close p1 (fd_close p0 ?t) = t"
    using assms by (auto simp: fd_close_def fun_eq_iff)
qed

text \<open>C21: every command tree the parser can return runs as its meaning says: whatever the nesting of pipes, lists,
  background commands, blocks and redirections, each program starts with exactly the descriptors of
  the shell, except for its input or output where it was redirected or connected, and no end of a pipe
  stays open in a process that does not use it.  This takes open descriptors 0 and 1, two free ones and
  forks that succeed.\<close>

theorem run_means:
  assumes "wf_cmd line c" "roomy t" "\<And>i. fork_ok E i"
  shows "run E c k t = eval E c k t"
  using assms(1,2)
proof (induction c arbitrary: k t)
  case (Redircmd c q eq mode fd)
  then have fd: "nat fd \<in> {0, 1}" by (auto simp: redir_ok_def)
  then have "roomy (t(nat fd \<mapsto> ob))" for ob using roomy_upd [OF Redircmd.prems(2), of "nat fd"] by auto
  with Redircmd redirect [OF Redircmd.prems(2) fd] show ?case by (simp add: fd_open_def fd_close_def)
next
  case (Pipecmd l r)
  obtain p0 p1 where p: "fd_pipe k t = Some (p0, p1, t(p0 \<mapsto> PipeR k, p1 \<mapsto> PipeW k))" "1 < p0" "p0 < p1" "t p0 = None" "t p1 = None"
    using pipe_ends [OF Pipecmd.prems(2)] by blast
  note c = connect [OF Pipecmd.prems(2) p(4,5,2,3), of k]
  have "roomy (t(1 \<mapsto> PipeW k))" "roomy (t(0 \<mapsto> PipeR k))" using roomy_upd [OF Pipecmd.prems(2)] by auto
  with Pipecmd p(1) c assms(3) show ?case by (simp split: prod.splits)
qed (use assms(3) in \<open>auto split: prod.splits\<close>)

text \<open>The line \<open>a<b|c>d\<close> and its command.\<close>

definition sample_line :: "uchar list" where
  "sample_line = [0x61, 0x3C, 0x62, 0x7C, 0x63, 0x3E, 0x64]"

definition sample_cmd :: cmd where
  "sample_cmd = (let at = (\<lambda>i. drop i sample_line) in
     Pipecmd (Redircmd (Execcmd [(at 0, at 1)]) (at 2) (at 3) O_RDONLY 0)
       (Redircmd (Execcmd [(at 4, at 5)]) (at 6) (at 7) O_WRONLY_CREATE 1))"

lemma sample_wf: "wf_cmd sample_line sample_cmd"
  by (simp add: sample_cmd_def sample_line_def word_ok_def redir_ok_def in_word_def is_ws_def whitespace_def
      symbols_def suffix_def)

abbreviation sample_tab :: fdtab where
  "sample_tab \<equiv> (\<lambda>_. None)(0 \<mapsto> Other 0, 1 \<mapsto> Other 1, 2 \<mapsto> Other 1)"

abbreviation all_fine :: outcomes where
  "all_fine \<equiv> \<lparr>fork_ok = \<lambda>_. True, open_ok = \<lambda>_ _. True, exec_ok = \<lambda>_. True\<rparr>"

theorem run_means_witness:
  "fst (run all_fine sample_cmd 0 sample_tab) =
    [Runs [[0x61]] (sample_tab(1 \<mapsto> PipeW 0, 0 \<mapsto> File [0x62] O_RDONLY)),
     Runs [[0x63]] (sample_tab(0 \<mapsto> PipeR 0, 1 \<mapsto> File [0x64] O_WRONLY_CREATE)), Exits sample_tab]"
proof -
  have "roomy sample_tab" unfolding roomy_def by (intro conjI exI [of _ 3] exI [of _ 4]) simp_all
  then have "run all_fine sample_cmd 0 sample_tab = eval all_fine sample_cmd 0 sample_tab"
    by (intro run_means [OF sample_wf]) simp_all
  then show ?thesis by (simp add: sample_cmd_def sample_line_def word_def)
qed

section \<open>The command loop leaks descriptors\<close>

text \<open>After every command the loop of \<open>main\<close> duplicates \<open>wfd\<close> once more and closes nothing.\<close>

definition after_command :: "nat \<Rightarrow> fdtab \<Rightarrow> fdtab" where
  "after_command wfd t = fd_dup wfd t"

definition child_table :: "nat \<Rightarrow> fdtab \<Rightarrow> fdtab" where
  "child_table wfd t = fd_dup wfd (fd_close 1 t)"

lemma after_command_keeps: "t wfd = Some ob \<Longrightarrow> after_command wfd t wfd = Some ob"
  by (cases "fd_alloc ob t") (auto simp: after_command_def fd_dup_def fd_alloc_eq)

lemma after_command_fills:
  assumes "t wfd = Some ob" "\<forall>i<n. t i \<noteq> None" "n \<le> SH_NOFILE"
  shows "\<forall>i < min (Suc n) SH_NOFILE. after_command wfd t i \<noteq> None"
proof (cases "fd_alloc ob t")
  case None
  then have "\<forall>i<SH_NOFILE. t i \<noteq> None" by (simp only: fd_alloc_None)
  then show ?thesis using assms(1) None by (simp add: after_command_def fd_dup_def)
next
  case (Some q)
  obtain i u' where q: "q = (i, u')" by fastforce
  then have i: "t i = None" "\<forall>j<i. t j \<noteq> None" "u' = t(i \<mapsto> ob)" using Some by (simp_all add: fd_alloc_eq)
  then have "n \<le> i" using assms(2) by (meson not_le)
  then have "u' j \<noteq> None" if "j < Suc n" for j
    using i that by (cases "j = i") auto
  then show ?thesis using assms(1) Some q by (simp add: after_command_def fd_dup_def)
qed

lemma after_commands:
  assumes "t wfd = Some ob"
  shows "(after_command wfd ^^ n) t wfd = Some ob \<and> (\<forall>i < min n SH_NOFILE. (after_command wfd ^^ n) t i \<noteq> None)"
proof (induction n)
  case (Suc n)
  then have "\<forall>i < min (Suc (min n SH_NOFILE)) SH_NOFILE. after_command wfd ((after_command wfd ^^ n) t) i \<noteq> None"
    by (intro after_command_fills) simp_all
  then show ?case using Suc after_command_keeps by (simp add: min_def split: if_splits)
qed (use assms in simp)

lemma pipelines_fail:
  assumes "t wfd \<noteq> None" "wfd \<noteq> 1" "SH_NOFILE \<le> n"
  shows "run E (Pipecmd l r) k (child_table wfd ((after_command wfd ^^ n) t)) = ([Dies ''pipe''], Suc k)"
proof -
  let ?u = "(after_command wfd ^^ n) t"
  obtain ob where "t wfd = Some ob" using assms(1) by blast
  with after_commands [of t wfd ob n] assms(3) have ob: "?u wfd = Some ob" and full: "\<forall>i<SH_NOFILE. ?u i \<noteq> None"
    by simp_all
  then have "fd_alloc ob (fd_close 1 ?u) = Some (1, (fd_close 1 ?u)(1 \<mapsto> ob))"
    by (simp add: fd_alloc_eq fd_close_def)
  then have "child_table wfd ?u = (fd_close 1 ?u)(1 \<mapsto> ob)"
    using ob assms(2) by (simp add: child_table_def fd_dup_def fd_close_def)
  then have "\<forall>i<SH_NOFILE. child_table wfd ?u i \<noteq> None" using full by (simp add: fd_close_def)
  then have "fd_alloc (PipeR k) (child_table wfd ?u) = None" by (simp only: fd_alloc_None)
  then show ?thesis by (simp add: fd_pipe_def)
qed

end
