(* ===== verification/Pixel.thy ===== *)
theory Pixel
  imports Prelude
begin

text \<open>
  Pixel buffers, as the drawing routines of the kernel (\<open>kernel/gui.c\<close>) and of the programs
  (\<open>user/user_gui.c\<close>) see them: the colour records, blending (\<open>drawPoint\<close> and \<open>drawPointAlpha\<close>, which
  both files contain in the same words), and access to a buffer through pointers.  A buffer is the list of its pixels,
  row by row; an access outside of it, which C leaves undefined, is \<open>None\<close>.  Coordinates are mathematical
  integers, as in the window manager.

  \<open>paints W H S f m\<close> is the contract of a drawing routine: on every buffer of \<open>W\<close> times \<open>H\<close> pixels it stays
  inside, applies \<open>f\<close> to the pixels in \<open>S\<close> and leaves all others alone.  The rules below derive it
  for loops, rectangles and copied rows from the contracts of their parts.
\<close>

section \<open>Colours\<close>

record RGB =
  cB :: uchar
  cG :: uchar
  cR :: uchar

record RGBA =
  aA :: uchar
  aB :: uchar
  aG :: uchar
  aR :: uchar

definition drawPoint :: "RGB \<Rightarrow> RGB \<Rightarrow> RGB" where
  "drawPoint origin color = color\<lparr>cR := cR origin, cG := cG origin, cB := cB origin\<rparr>"

definition mix :: "uchar \<Rightarrow> uchar \<Rightarrow> uchar \<Rightarrow> uchar" where
  "mix A c o' = ucast (drop_bit 8 (ucast c * (255 - ucast A) + ucast o' * ucast A :: uint))"

definition drawPointAlpha :: "RGBA \<Rightarrow> RGB \<Rightarrow> RGB" where
  "drawPointAlpha origin color =
     (if aA origin = 255 then color\<lparr>cR := aR origin, cG := aG origin, cB := aB origin\<rparr>
      else if aA origin = 0 then color
      else color\<lparr>cR := mix (aA origin) (cR color) (aR origin),
                 cG := mix (aA origin) (cG color) (aG origin),
                 cB := mix (aA origin) (cB color) (aB origin)\<rparr>)"

definition solid :: "RGBA \<Rightarrow> RGB" where
  "solid fill = \<lparr>cB = aB fill, cG = aG fill, cR = aR fill\<rparr>"

lemma drawPoint_eq: "drawPoint origin color = origin"
  by (simp add: drawPoint_def)

lemma opaque: "aA fill = 255 \<Longrightarrow> drawPointAlpha fill color = solid fill"
  by (simp add: drawPointAlpha_def solid_def)

lemma transparent: "aA fill = 0 \<Longrightarrow> drawPointAlpha fill color = color"
  by (simp add: drawPointAlpha_def)

text \<open>Blending does not wrap: the weighted mean, rounded down, is at most the larger of the two.  Its divisor
  is 256 while the weights add up to 255, so that a translucent white darkens white.\<close>

lemma unat_high_bytes: "unat (ucast (drop_bit 8 (w :: uint)) :: uchar) = unat w div 256 mod 256"
  by (simp add: unsigned_ucast_eq unsigned_drop_bit_eq drop_bit_eq_div take_bit_eq_mod unat_div_distrib)

lemma unat_mix: "unat (mix A c o') = (unat c * (255 - unat A) + unat o' * unat A) div 256"
proof -
  have small: "unat A < 256" "unat c < 256" "unat o' < 256" by (rule unat_uchar_less)+
  let ?n = "unat c * (255 - unat A) + unat o' * unat A"
  have "unat c * (255 - unat A) \<le> 255 * (255 - unat A)" "unat o' * unat A \<le> 255 * unat A"
    using small by (simp_all add: mult_le_mono1)
  moreover have "255 * (255 - unat A) + 255 * unat A = 255 * (255 :: nat)" using small by (simp add: diff_mult_distrib2)
  ultimately have n: "?n \<le> 255 * 255" by linarith
  have "ucast c * (255 - ucast A) + ucast o' * ucast A = (of_nat ?n :: uint)"
  proof -
    have "ucast x = (of_nat (unat x) :: uint)" for x :: uchar by simp
    moreover have "(of_nat (255 - unat A) :: uint) = 255 - of_nat (unat A)" using small by (simp add: of_nat_diff)
    ultimately show ?thesis by (simp only: of_nat_add of_nat_mult)
  qed
  then have "mix A c o' = ucast (drop_bit 8 (of_nat ?n :: uint))" by (simp only: mix_def)
  then have "unat (mix A c o') = unat (of_nat ?n :: uint) div 256 mod 256"
    by (simp only: unat_high_bytes)
  moreover have "unat (of_nat ?n :: uint) = ?n"
  proof -
    have "take_bit LENGTH(32) ?n = ?n" using n by (intro take_bit_nat_eq_self) simp
    then show ?thesis by (simp only: unsigned_of_nat of_nat_id)
  qed
  ultimately show ?thesis using n by (simp add: div_le_mono [THEN le_less_trans])
qed

lemma mix_le_max: "unat (mix A c o') \<le> max (unat c) (unat o')"
proof -
  let ?m = "max (unat c) (unat o')"
  have "unat A \<le> 255" using unat_uchar_less [of A] by simp
  have "unat c * (255 - unat A) + unat o' * unat A \<le> ?m * (255 - unat A) + ?m * unat A"
    by (intro add_mono mult_le_mono1) simp_all
  also have "\<dots> = ?m * 255" using \<open>unat A \<le> 255\<close> by (simp flip: add_mult_distrib2)
  finally have "(unat c * (255 - unat A) + unat o' * unat A) div 256 \<le> ?m * 255 div 256" by (rule div_le_mono)
  also have "\<dots> \<le> ?m" by simp
  finally show ?thesis by (simp only: unat_mix)
qed

lemma white_darkens: "mix A 255 255 = 254" 
proof -
  have "unat A \<le> 255" using unat_uchar_less [of A] by simp
  then have "unat (mix A 255 255) = 254" by (simp add: unat_mix flip: add_mult_distrib2)
  then show ?thesis by (simp add: word_unat_eq_iff)
qed

section \<open>Buffers and loops\<close>

definition at_pixel :: "int \<Rightarrow> (RGB \<Rightarrow> RGB) \<Rightarrow> RGB list \<Rightarrow> RGB list option" where
  "at_pixel t f b = (if 0 \<le> t \<and> t < int (length b) then Some (b[nat t := f (b ! nat t)]) else None)"

text \<open>\<open>memmove(t, o, n * 3)\<close> from another buffer, for a count that is not negative.\<close>

definition copy_row :: "int \<Rightarrow> RGB list \<Rightarrow> int \<Rightarrow> int \<Rightarrow> RGB list \<Rightarrow> RGB list option" where
  "copy_row t src k n b =
     (if n = 0 then Some b
      else if 0 < n \<and> 0 \<le> t \<and> t + n \<le> int (length b) \<and> 0 \<le> k \<and> k + n \<le> int (length src)
      then Some (take (nat t) b @ take (nat n) (drop (nat k) src) @ drop (nat (t + n)) b)
      else None)"

text \<open>\<open>for\<close> loops over the indices of a list, \<open>[lo..hi - 1]\<close> in most places.  \<open>continue\<close> is \<open>Some\<close>;
  a \<open>break\<close> cuts the list at the first index that meets its condition.\<close>

fun each :: "('a \<Rightarrow> 's \<Rightarrow> 's option) \<Rightarrow> 'a list \<Rightarrow> 's \<Rightarrow> 's option" where
  "each f [] s = Some s"
| "each f (x # xs) s = Option.bind (f x s) (each f xs)"

definition until :: "(int \<Rightarrow> bool) \<Rightarrow> int list \<Rightarrow> int list" where
  "until stop ks = takeWhile (\<lambda>i. \<not> stop i) ks"

section \<open>The contract of drawing routines\<close>

definition pix :: "int \<Rightarrow> RGB list \<Rightarrow> int \<Rightarrow> int \<Rightarrow> RGB" where
  "pix W b x y = b ! nat (y * W + x)"

definition inside :: "int \<Rightarrow> int \<Rightarrow> int \<Rightarrow> int \<Rightarrow> bool" where
  "inside W H x y \<longleftrightarrow> 0 \<le> x \<and> x < W \<and> 0 \<le> y \<and> y < H"

definition canvas :: "int \<Rightarrow> int \<Rightarrow> RGB list \<Rightarrow> bool" where
  "canvas W H b \<longleftrightarrow> 0 \<le> W \<and> 0 \<le> H \<and> int (length b) = W * H"

definition painted :: "int \<Rightarrow> int \<Rightarrow> (int \<times> int) set \<Rightarrow> (int \<Rightarrow> int \<Rightarrow> RGB \<Rightarrow> RGB) \<Rightarrow> RGB list \<Rightarrow> RGB list \<Rightarrow> bool" where
  "painted W H S f b b' \<longleftrightarrow> length b' = length b \<and>
     (\<forall>x y. inside W H x y \<longrightarrow> pix W b' x y = (if (x, y) \<in> S then f x y (pix W b x y) else pix W b x y))"

definition paints :: "int \<Rightarrow> int \<Rightarrow> (int \<times> int) set \<Rightarrow> (int \<Rightarrow> int \<Rightarrow> RGB \<Rightarrow> RGB) \<Rightarrow> (RGB list \<Rightarrow> RGB list option) \<Rightarrow> bool" where
  "paints W H S f m \<longleftrightarrow> (\<forall>b. canvas W H b \<longrightarrow> (\<exists>b'. m b = Some b' \<and> painted W H S f b b'))"

lemma paintsI: "(\<And>b. canvas W H b \<Longrightarrow> \<exists>b'. m b = Some b' \<and> painted W H S f b b') \<Longrightarrow> paints W H S f m"
  by (simp add: paints_def)

lemma painted_canvas: "painted W H S f b b' \<Longrightarrow> canvas W H b' = canvas W H b"
  by (simp add: painted_def canvas_def)

lemma address_bounds: "inside W H x y \<Longrightarrow> 0 \<le> y * W + x \<and> y * W + x < W * H"
proof -
  assume i: "inside W H x y"
  then have "(y + 1) * W \<le> H * W" by (intro mult_right_mono) (auto simp: inside_def)
  moreover have "0 \<le> y * W" using i by (simp add: inside_def)
  ultimately show ?thesis using i by (simp add: inside_def algebra_simps)
qed

lemma address_inj:
  assumes "inside W H x y" "inside W H x' y'" "y * W + x = y' * W + x'"
  shows "x = x' \<and> y = y'"
proof -
  have d: "(y * W + x) div W = y" "(y' * W + x') div W = y'"
    using assms(1,2) by (simp_all add: inside_def div_pos_pos_trivial)
  then have "y = y'" using assms(3) by simp
  with assms(3) show ?thesis by simp
qed

lemma paints_skip: "paints W H {} f Some"
  by (simp add: paints_def painted_def)

lemma paints_pixel:
  assumes "inside W H x y" "t = y * W + x" "g = f x y"
  shows "paints W H {(x, y)} f (at_pixel t g)"
proof (rule paintsI)
  fix b assume c: "canvas W H b"
  note a = address_bounds [OF assms(1)]
  have "at_pixel t g b = Some (b[nat t := g (b ! nat t)])" using a c assms(2) by (simp add: at_pixel_def canvas_def)
  moreover have "painted W H {(x, y)} f b (b[nat t := g (b ! nat t)])"
    unfolding painted_def
  proof (intro conjI allI impI)
    fix x' y' assume i: "inside W H x' y'"
    have "nat (y * W + x) = nat (y' * W + x') \<longleftrightarrow> (x', y') = (x, y)"
    proof
      assume "nat (y * W + x) = nat (y' * W + x')"
      then have "y * W + x = y' * W + x'" using address_bounds [OF i] a by linarith
      then show "(x', y') = (x, y)" using address_inj [OF assms(1) i] by simp
    qed simp
    then show "pix W (b[nat t := g (b ! nat t)]) x' y' = (if (x', y') \<in> {(x, y)} then f x' y' (pix W b x' y') else pix W b x' y')"
      using a c assms(2,3) by (auto simp: pix_def nth_list_update canvas_def)
  qed simp
  ultimately show "\<exists>b'. at_pixel t g b = Some b' \<and> painted W H {(x, y)} f b b'" by blast
qed

text \<open>One routine after the other: on the pixels both touch, applying \<open>f\<close> twice must be the same as once.\<close>

lemma paints_seq:
  assumes "paints W H S f m" "paints W H T f n" "\<And>x y c. (x, y) \<in> S \<inter> T \<Longrightarrow> f x y (f x y c) = f x y c"
  shows "paints W H (S \<union> T) f (\<lambda>b. Option.bind (m b) n)"
proof (rule paintsI)
  fix b assume c: "canvas W H b"
  obtain b1 where 1: "m b = Some b1" "painted W H S f b b1" using assms(1) c by (auto simp: paints_def)
  obtain b2 where 2: "n b1 = Some b2" "painted W H T f b1 b2"
    using assms(2) c painted_canvas [OF 1(2)] by (auto simp: paints_def)
  have "painted W H (S \<union> T) f b b2"
    unfolding painted_def using 1(2) 2(2) assms(3) by (auto simp: painted_def)
  with 1 2 show "\<exists>b'. Option.bind (m b) n = Some b' \<and> painted W H (S \<union> T) f b b'" by auto
qed

lemma paints_cong: "paints W H S f m \<Longrightarrow> (\<And>x y. inside W H x y \<Longrightarrow> (x, y) \<in> S \<longleftrightarrow> (x, y) \<in> T) \<Longrightarrow>
    (\<And>x y c. (x, y) \<in> T \<Longrightarrow> inside W H x y \<Longrightarrow> f x y c = g x y c) \<Longrightarrow> paints W H T g m"
  unfolding paints_def painted_def by (metis (no_types, lifting))

lemma paints_each:
  assumes "\<And>i. i \<in> set ks \<Longrightarrow> paints W H (S i) f (m i)"
    and "distinct ks"
    and "\<And>i j x y c. i \<in> set ks \<Longrightarrow> j \<in> set ks \<Longrightarrow> i \<noteq> j \<Longrightarrow> (x, y) \<in> S i \<inter> S j \<Longrightarrow> f x y (f x y c) = f x y c"
  shows "paints W H (\<Union>i\<in>set ks. S i) f (each m ks)"
  using assms
proof (induction ks)
  case (Cons i ks)
  have "paints W H (S i \<union> (\<Union>j\<in>set ks. S j)) f (\<lambda>b. Option.bind (m i b) (each m ks))"
  proof (rule paints_seq)
    show "paints W H (S i) f (m i)" using Cons.prems(1) by simp
    show "paints W H (\<Union>j\<in>set ks. S j) f (each m ks)"
      using Cons.prems(2) by (intro Cons.IH Cons.prems(1)) (simp_all, metis Cons.prems(3) IntI list.set_intros(2))
    fix x y c assume "(x, y) \<in> S i \<inter> (\<Union>j\<in>set ks. S j)"
    then obtain j where "j \<in> set ks" "(x, y) \<in> S i \<inter> S j" by blast
    with Cons.prems(2) Cons.prems(3) [of i j x y c] show "f x y (f x y c) = f x y c" by force
  qed
  moreover have "each m (i # ks) = (\<lambda>b. Option.bind (m i b) (each m ks))" by (simp add: fun_eq_iff)
  ultimately show ?case by simp
next
  case Nil
  have "each m [] = Some" by (simp add: fun_eq_iff)
  then show ?case by (simp add: paints_skip)
qed

lemma distinct_until: "distinct ks \<Longrightarrow> distinct (until stop ks)"
  by (simp add: until_def distinct_takeWhile)

lemma set_until: "set (until (\<lambda>i. m \<le> a + i) [lo..hi]) = {i. lo \<le> i \<and> i \<le> hi \<and> a + i < m}"
proof (induction lo hi rule: upto.induct)
  case (1 lo hi)
  show ?case
  proof (cases "lo \<le> hi")
    case True
    show ?thesis
    proof (cases "m \<le> a + lo")
      case False
      have "{i. lo \<le> i \<and> i \<le> hi \<and> a + i < m} = insert lo {i. lo + 1 \<le> i \<and> i \<le> hi \<and> a + i < m}"
        using True False by auto
      moreover have "until (\<lambda>i. m \<le> a + i) [lo..hi] = lo # until (\<lambda>i. m \<le> a + i) [lo + 1..hi]"
        using True False by (simp add: until_def upto_rec1 [of lo hi])
      ultimately show ?thesis using 1 [OF True] by simp
    qed (use True in \<open>auto simp: until_def upto_rec1 [of lo hi]\<close>)
  qed (simp add: until_def)
qed

text \<open>Loops that skip some of their rounds.\<close>

lemma each_idle: "each (\<lambda>i b. Some b) ks b = Some b"
  by (induction ks) simp_all

lemma each_cong: "(\<And>i b. i \<in> set ks \<Longrightarrow> m i b = n i b) \<Longrightarrow> each m ks b = each n ks b"
proof (induction ks arbitrary: b)
  case (Cons i ks)
  have "each m ks = each n ks" using Cons by (simp add: fun_eq_iff)
  with Cons.prems show ?case by simp
qed simp

lemma paints_unless: "(\<not> g \<Longrightarrow> paints W H S f m) \<Longrightarrow> paints W H (if g then {} else S) f (\<lambda>b. if g then Some b else m b)"
  using paints_skip by (cases g) simp_all

lemma paints_row:
  assumes "distinct js"
    and "\<And>j. j \<in> set js \<Longrightarrow> \<not> skip j \<Longrightarrow> inside W H (x + j) y \<and> t j = y * W + (x + j) \<and> g j = f (x + j) y"
  shows "paints W H {(x + j, y) | j. j \<in> set js \<and> \<not> skip j} f
    (each (\<lambda>j b. if skip j then Some b else at_pixel (t j) (g j) b) js)"
proof -
  have "paints W H (\<Union>j\<in>set js. if skip j then {} else {(x + j, y)}) f
    (each (\<lambda>j b. if skip j then Some b else at_pixel (t j) (g j) b) js)"
  proof (rule paints_each)
    fix j assume "j \<in> set js"
    then show "paints W H (if skip j then {} else {(x + j, y)}) f (\<lambda>b. if skip j then Some b else at_pixel (t j) (g j) b)"
      using assms(2) by (intro paints_unless paints_pixel) auto
  qed (auto intro: assms(1) split: if_splits)
  then show ?thesis by (rule paints_cong) (auto split: if_splits)
qed

lemma paints_grid:
  assumes "distinct ks" "distinct js"
    and "\<And>i j. i \<in> set ks \<Longrightarrow> j \<in> set js \<Longrightarrow> \<not> rskip i \<Longrightarrow> \<not> skip i j \<Longrightarrow>
      inside W H (x + j) (y + i) \<and> t i j = (y + i) * W + (x + j) \<and> g i j = f (x + j) (y + i)"
  shows "paints W H {(x + j, y + i) | i j. i \<in> set ks \<and> j \<in> set js \<and> \<not> rskip i \<and> \<not> skip i j} f
    (each (\<lambda>i b. if rskip i then Some b else each (\<lambda>j b. if skip i j then Some b else at_pixel (t i j) (g i j) b) js b) ks)"
proof -
  let ?row = "\<lambda>i. {(x + j, y + i) | j. j \<in> set js \<and> \<not> skip i j}"
  have "paints W H (\<Union>i\<in>set ks. if rskip i then {} else ?row i) f
    (each (\<lambda>i b. if rskip i then Some b else each (\<lambda>j b. if skip i j then Some b else at_pixel (t i j) (g i j) b) js b) ks)"
  proof (rule paints_each)
    fix i assume "i \<in> set ks"
    then show "paints W H (if rskip i then {} else ?row i) f
      (\<lambda>b. if rskip i then Some b else each (\<lambda>j b. if skip i j then Some b else at_pixel (t i j) (g i j) b) js b)"
      using assms(2,3) by (intro paints_unless paints_row) auto
  qed (auto intro: assms(1) split: if_splits)
  then show ?thesis by (rule paints_cong) (auto split: if_splits)
qed

text \<open>A copied row.\<close>

lemma nth_copied:
  assumes "0 < n" "0 \<le> t" "t + n \<le> int (length b)" "0 \<le> k" "k + n \<le> int (length src)" "0 \<le> a" "a < int (length b)"
  shows "(take (nat t) b @ take (nat n) (drop (nat k) src) @ drop (nat (t + n)) b) ! nat a =
    (if t \<le> a \<and> a < t + n then src ! nat (k + (a - t)) else b ! nat a)"
proof -
  obtain t' n' k' a' where nat: "t = int t'" "n = int n'" "k = int k'" "a = int a'"
    using assms by (metis nonneg_int_cases order_less_imp_le)
  have i: "nat (int t' + int n') = t' + n'" "nat (int k' + (int a' - int t')) = k' + (a' - t')" if "t' \<le> a'"
    using that by linarith+
  have i0: "nat (int t' + int n') = t' + n'" by linarith
  from assms have b: "0 < n'" "t' + n' \<le> length b" "k' + n' \<le> length src" "a' < length b" by (simp_all add: nat)
  show ?thesis
  proof (cases "t' \<le> a'")
    case True
    have "length (take n' (drop k' src)) = n'" using b by simp
    moreover have "int a' < int t' + int n' \<longleftrightarrow> a' - t' < n'" using True by linarith
    ultimately show ?thesis using True b i [OF True]
      by (cases "a' - t' < n'") (simp_all add: nat nth_append less_diff_conv2 not_less)
  next
    case False
    with b i0 show ?thesis by (auto simp: nat nth_append min_def)
  qed
qed

lemma paints_copy:
  assumes "0 \<le> n" "0 \<le> x" "x + n \<le> W" "0 \<le> y" "y < H" "t = y * W + x" "0 \<le> k" "k + n \<le> int (length src)"
    and "\<And>j c. 0 \<le> j \<Longrightarrow> j < n \<Longrightarrow> f (x + j) y c = src ! nat (k + j)"
  shows "paints W H ({x..<x + n} \<times> {y}) f (copy_row t src k n)"
proof (cases "n = 0")
  case True
  then have "copy_row t src k n = Some" by (simp add: copy_row_def fun_eq_iff)
  then show ?thesis using True by (simp add: paints_skip)
next
  case False
  then have n: "0 < n" using assms(1) by simp
  show ?thesis
  proof (rule paintsI)
    fix b assume c: "canvas W H b"
    have "inside W H x y" "inside W H (x + n - 1) y" using assms n by (auto simp: inside_def)
    from address_bounds [OF this(1)] address_bounds [OF this(2)]
    have t: "0 \<le> t" "t + n \<le> int (length b)" using c assms(6) by (simp_all add: canvas_def)
    let ?b = "take (nat t) b @ take (nat n) (drop (nat k) src) @ drop (nat (t + n)) b"
    have "copy_row t src k n b = Some ?b" using n t assms by (simp add: copy_row_def)
    moreover have "length ?b = length b"
    proof -
      have "nat (t + n) = nat t + nat n" "nat t + nat n \<le> length b" "nat k + nat n \<le> length src"
        using n t assms(7,8) by linarith+
      moreover from this have "length (take (nat n) (drop (nat k) src)) = nat n" unfolding length_take length_drop by linarith
      ultimately show ?thesis by simp
    qed
    moreover have "pix W ?b x' y' = (if (x', y') \<in> {x..<x + n} \<times> {y} then f x' y' (pix W b x' y') else pix W b x' y')"
      if i: "inside W H x' y'" for x' y'
    proof -
      let ?a = "y' * W + x'"
      have a: "0 \<le> ?a" "?a < int (length b)" using address_bounds [OF i] c by (simp_all add: canvas_def)
      have "t \<le> ?a \<and> ?a < t + n \<longleftrightarrow> (x', y') \<in> {x..<x + n} \<times> {y}"
      proof
        assume r: "t \<le> ?a \<and> ?a < t + n"
        have "x' = ?a - y * W \<and> y' = y"
          by (rule address_inj [OF i]) (use r assms in \<open>auto simp: inside_def\<close>)
        then show "(x', y') \<in> {x..<x + n} \<times> {y}" using r assms(6) by auto
      qed (use assms(6) in auto)
      moreover have "src ! nat (k + (?a - t)) = f x' y' (pix W b x' y')" if "(x', y') \<in> {x..<x + n} \<times> {y}"
      proof -
        have "?a - t = x' - x" using that assms(6) by auto
        then show ?thesis using assms(9) [of "x' - x" "pix W b x' y'"] that by (simp only:) auto
      qed
      ultimately show ?thesis
        unfolding pix_def [of W ?b] nth_copied [OF n t assms(7,8) a] by (simp add: pix_def)
    qed
    ultimately show "\<exists>b'. copy_row t src k n b = Some b' \<and> painted W H ({x..<x + n} \<times> {y}) f b b'"
      by (auto simp: painted_def)
  qed
qed

section \<open>Lines, rectangles and blocks of rows\<close>

definition rectangle :: "int \<Rightarrow> int \<Rightarrow> int \<Rightarrow> int \<Rightarrow> (int \<times> int) set" where
  "rectangle x y width height = {(px, py). x \<le> px \<and> px < x + width \<and> y \<le> py \<and> py < y + height}"

lemma each_guard: "(if g then Some b else each m ks b) = each (\<lambda>i b. if g then Some b else m i b) ks b"
  by (simp add: each_idle)

lemma each_append: "each m (xs @ ys) b = Option.bind (each m xs b) (each m ys)"
proof (induction xs arbitrary: b)
  case (Cons x xs)
  then have "each m (xs @ ys) = (\<lambda>b. Option.bind (each m xs b) (each m ys))" by (rule ext)
  then show ?case by (simp add: Option.bind_assoc)
qed simp

lemma bind_each_Nil: "Option.bind m (each f []) = m"
  by (cases m) simp_all

lemma distinct_upto [simp]: "distinct [i..j :: int]"
  by simp

lemma mem_offset: "(px, py) \<in> {(x + j, y + i) | i j. P i j} \<longleftrightarrow> P (py - y) (px - x)" for x y :: int
proof
  assume "P (py - y) (px - x)"
  then show "(px, py) \<in> {(x + j, y + i) | i j. P i j}" by (intro CollectI exI [of _ "py - y"] exI [of _ "px - x"]) simp
qed auto

lemma mem_if: "p \<in> (if g then S else {}) \<longleftrightarrow> g \<and> p \<in> S"
  by simp

lemma mem_hline: "(px, py) \<in> (\<Union>i\<in>set [0..n - 1]. if P i then {(x + i, v)} else {}) \<longleftrightarrow>
    x \<le> px \<and> px < x + n \<and> P (px - x) \<and> py = v" for x n :: int
  by (auto split: if_splits intro!: bexI [of _ "px - x"])

lemma mem_vline: "(px, py) \<in> (\<Union>i\<in>set [0..n - 1]. if P i then {(v, y + i)} else {}) \<longleftrightarrow>
    y \<le> py \<and> py < y + n \<and> P (py - y) \<and> px = v" for y n :: int
  by (auto split: if_splits intro!: bexI [of _ "py - y"])

lemma mem_rows: "(px, py) \<in> (\<Union>i\<in>set ks. if skip i then {} else {x..<x'} \<times> {y + i}) \<longleftrightarrow>
    py - y \<in> set ks \<and> \<not> skip (py - y) \<and> x \<le> px \<and> px < x'" for x y :: int
  by (auto split: if_splits intro!: bexI [of _ "py - y"])

lemma paints_when: "(g \<Longrightarrow> paints W H S f m) \<Longrightarrow> paints W H (if g then S else {}) f (\<lambda>b. if g then m b else Some b)"
  using paints_skip by (cases g) simp_all

lemma paints_when': "(g \<Longrightarrow> paints W H S f m) \<Longrightarrow> paints W H (if g then S else {}) f (if g then m else Some)"
  using paints_skip by (cases g) simp_all

text \<open>A line of one colour.\<close>

lemma paints_line:
  assumes "\<And>i. i \<in> set ks \<Longrightarrow> g i \<Longrightarrow> inside W H (u i) (v i) \<and> t i = v i * W + u i" "distinct ks"
  shows "paints W H (\<Union>i\<in>set ks. if g i then {(u i, v i)} else {}) (\<lambda>_ _ _. color)
    (each (\<lambda>i b. if g i then at_pixel (t i) (\<lambda>_. color) b else Some b) ks)"
  using assms by (intro paints_each paints_when paints_pixel) auto

text \<open>Copies of rows.\<close>

lemma paints_rows:
  assumes "0 \<le> n" "0 \<le> x" "x + n \<le> W" "distinct ks"
    and "\<And>i. i \<in> set ks \<Longrightarrow> \<not> skip i \<Longrightarrow> 0 \<le> v i \<and> v i < H \<and> t i = v i * W + x \<and> 0 \<le> k i \<and> k i + n \<le> int (length src)"
    and "\<And>i j c. i \<in> set ks \<Longrightarrow> \<not> skip i \<Longrightarrow> 0 \<le> j \<Longrightarrow> j < n \<Longrightarrow> f (x + j) (v i) c = src ! nat (k i + j)"
    and "inj_on v (set ks)"
  shows "paints W H (\<Union>i\<in>set ks. if skip i then {} else {x..<x + n} \<times> {v i}) f
    (each (\<lambda>i b. if skip i then Some b else copy_row (t i) src (k i) n b) ks)"
proof (rule paints_each [OF _ assms(4)])
  fix i assume i: "i \<in> set ks"
  show "paints W H (if skip i then {} else {x..<x + n} \<times> {v i}) f (\<lambda>b. if skip i then Some b else copy_row (t i) src (k i) n b)"
    using assms(1-3) assms(5,6) [OF i] by (intro paints_unless paints_copy) auto
next
  fix i j px py c
  assume "i \<in> set ks" "j \<in> set ks" "i \<noteq> j"
    "(px, py) \<in> (if skip i then {} else {x..<x + n} \<times> {v i}) \<inter> (if skip j then {} else {x..<x + n} \<times> {v j})"
  then show "f px py (f px py c) = f px py c" using assms(7) by (auto simp: inj_on_def split: if_splits)
qed

lemma same_pixels:
  assumes "canvas W H b" "canvas W H c" "\<And>x y. inside W H x y \<Longrightarrow> pix W b x y = pix W c x y"
  shows "b = c"
proof (rule nth_equalityI)
  show "length b = length c" using assms(1,2) by (simp add: canvas_def)
  fix n assume n: "n < length b"
  then have WH: "int n < W * H" "0 \<le> W" "0 \<le> H" using assms(1) by (simp_all add: canvas_def)
  then have W: "0 < W" by (cases "W = 0") auto
  have "int n div W < H"
  proof (rule ccontr)
    assume "\<not> int n div W < H"
    then have "H * W \<le> int n div W * W" using W by (intro mult_right_mono) simp_all
    moreover have "int n div W * W \<le> int n"
      using div_mult_mod_eq [of "int n" W] pos_mod_sign [OF W, of "int n"] by linarith
    ultimately show False using WH by (simp add: mult.commute)
  qed
  then have "inside W H (int n mod W) (int n div W)" using W by (simp add: inside_def pos_imp_zdiv_nonneg_iff)
  from assms(3) [OF this] show "b ! n = c ! n" by (simp add: pix_def)
qed

section \<open>Where a routine may draw\<close>

text \<open>\<open>touches W H S m\<close>: \<open>m\<close> stays inside of the buffer and changes no pixel outside of \<open>S\<close>.\<close>

definition touches :: "int \<Rightarrow> int \<Rightarrow> (int \<times> int) set \<Rightarrow> (RGB list \<Rightarrow> RGB list option) \<Rightarrow> bool" where
  "touches W H S m \<longleftrightarrow> (\<forall>b. canvas W H b \<longrightarrow> (\<exists>b'. m b = Some b' \<and> canvas W H b' \<and>
     (\<forall>x y. inside W H x y \<longrightarrow> (x, y) \<notin> S \<longrightarrow> pix W b' x y = pix W b x y)))"

lemma touchesI: "(\<And>b. canvas W H b \<Longrightarrow> \<exists>b'. m b = Some b' \<and> canvas W H b' \<and>
    (\<forall>x y. inside W H x y \<longrightarrow> (x, y) \<notin> S \<longrightarrow> pix W b' x y = pix W b x y)) \<Longrightarrow> touches W H S m"
  by (simp add: touches_def)

lemma touchesD: "touches W H S m \<Longrightarrow> canvas W H b \<Longrightarrow> \<exists>b'. m b = Some b' \<and> canvas W H b' \<and>
    (\<forall>x y. inside W H x y \<longrightarrow> (x, y) \<notin> S \<longrightarrow> pix W b' x y = pix W b x y)"
  by (simp add: touches_def)

lemma paints_touches: "paints W H S f m \<Longrightarrow> touches W H S m"
  unfolding paints_def touches_def using painted_canvas by (metis painted_def)

lemma touches_mono: "touches W H S m \<Longrightarrow> (\<And>x y. inside W H x y \<Longrightarrow> (x, y) \<in> S \<Longrightarrow> (x, y) \<in> T) \<Longrightarrow> touches W H T m"
  unfolding touches_def by meson

lemma touches_all: "touches W H S m \<Longrightarrow> touches W H UNIV m"
  by (rule touches_mono) auto

lemma touches_Some: "touches W H S Some"
  by (simp add: touches_def)

lemma touches_bind:
  assumes "touches W H S m" "touches W H S n"
  shows "touches W H S (\<lambda>b. Option.bind (m b) n)"
proof (rule touchesI)
  fix b assume "canvas W H b"
  from touchesD [OF assms(1) this] obtain b1 where 1: "m b = Some b1" "canvas W H b1"
    "\<forall>x y. inside W H x y \<longrightarrow> (x, y) \<notin> S \<longrightarrow> pix W b1 x y = pix W b x y" by blast
  from touchesD [OF assms(2) this(2)] obtain b2 where "n b1 = Some b2" "canvas W H b2"
    "\<forall>x y. inside W H x y \<longrightarrow> (x, y) \<notin> S \<longrightarrow> pix W b2 x y = pix W b1 x y" by blast
  with 1 show "\<exists>b'. Option.bind (m b) n = Some b' \<and> canvas W H b' \<and>
    (\<forall>x y. inside W H x y \<longrightarrow> (x, y) \<notin> S \<longrightarrow> pix W b' x y = pix W b x y)" by simp
qed

lemma touches_bind': "touches W H S m \<Longrightarrow> touches W H T n \<Longrightarrow> touches W H (S \<union> T) (\<lambda>b. Option.bind (m b) n)"
  by (intro touches_bind) (auto elim: touches_mono)

section \<open>Glyphs and icons\<close>

text \<open>The glyphs and the icons, which \<open>font.py\<close> and \<open>convert.py\<close> generate, are parameters: \<open>font ord i j\<close> is the
  coverage of a pixel of a glyph, \<open>icons n k\<close> a pixel of an icon.\<close>

abbreviation CHARACTER_WIDTH :: int where "CHARACTER_WIDTH \<equiv> 10"
abbreviation CHARACTER_HEIGHT :: int where "CHARACTER_HEIGHT \<equiv> 18"
abbreviation CHARACTER_NUMBER :: int where "CHARACTER_NUMBER \<equiv> 96"
abbreviation ICON_SIZE :: int where "ICON_SIZE \<equiv> 30"
abbreviation ICON_NUMBER :: int where "ICON_NUMBER \<equiv> 5"
type_synonym font = "int \<Rightarrow> int \<Rightarrow> int \<Rightarrow> uchar"
type_synonym icons = "int \<Rightarrow> int \<Rightarrow> uint"

definition smooth :: "RGBA \<Rightarrow> uchar \<Rightarrow> RGBA" where
  "smooth color font_alpha = color\<lparr>aA := ucast (drop_bit 8 (ucast (aA color) * ucast font_alpha :: uint))\<rparr>"

definition char_ord :: "uchar \<Rightarrow> int" where
  "char_ord ch = sint ch - 0x20"

definition unprintable :: "uchar \<Rightarrow> bool" where
  "unprintable ch \<longleftrightarrow> char_ord ch < 0 \<or> CHARACTER_NUMBER - 1 \<le> char_ord ch"

definition icon_color :: "uint \<Rightarrow> RGBA" where
  "icon_color raw = \<lparr>aA = 255, aB = ucast raw, aG = ucast (drop_bit 8 raw), aR = ucast (drop_bit 16 raw)\<rparr>"

definition glyph_pixels :: "font \<Rightarrow> int \<Rightarrow> int \<Rightarrow> uchar \<Rightarrow> (int \<times> int) set" where
  "glyph_pixels font x y ch = {(px, py). x \<le> px \<and> px < x + CHARACTER_WIDTH \<and> y \<le> py \<and> py < y + CHARACTER_HEIGHT \<and>
     0 < font (char_ord ch) (py - y) (px - x)}"

definition line_rows :: "int \<Rightarrow> (int \<times> int) set" where
  "line_rows y = {(px, py). y \<le> py \<and> py < y + CHARACTER_HEIGHT}"

text \<open>An opaque colour is blended as a translucent one in every pixel of a glyph.\<close>

lemma glyph_never_opaque: "aA (smooth color v) \<noteq> 255"
proof -
  have "unat (ucast (aA color) * ucast v :: uint) \<le> 255 * 255"
  proof -
    have "unat (aA color) \<le> 255" "unat v \<le> 255" using unat_uchar_less [of "aA color"] unat_uchar_less [of v] by simp_all
    then have m: "unat (aA color) * unat v \<le> 255 * 255" by (rule mult_le_mono)
    have "unat (ucast (aA color) * ucast v :: uint) = unat (aA color) * unat v mod 2 ^ 32"
      by (simp add: unat_word_ariths unsigned_ucast_eq take_bit_eq_mod mod_mult_eq)
    with m show ?thesis by simp
  qed
  then have "unat (ucast (aA color) * ucast v :: uint) div 256 \<le> 254" using div_le_mono [of _ "255 * 255" 256] by simp
  moreover have "unat (aA (smooth color v)) = unat (ucast (aA color) * ucast v :: uint) div 256 mod 256"
  proof -
    have "aA (smooth color v) = ucast (drop_bit 8 (ucast (aA color) * ucast v :: uint))" by (simp add: smooth_def)
    then show ?thesis by (simp only: unat_high_bytes)
  qed
  ultimately have "unat (aA (smooth color v)) \<le> 254"
    using mod_less_eq_dividend [of "unat (ucast (aA color) * ucast v :: uint) div 256" 256] by linarith
  moreover have "unat (255 :: uchar) = 255" by simp
  ultimately show ?thesis by auto
qed

end
