(* ===== verification/Gui.thy ===== *)
theory Gui
  imports Pixel
begin

text \<open>
  The drawing routines of the kernel, \<open>kernel/gui.c\<close>, on a screen of \<open>W\<close> times \<open>H\<close> pixels
  (\<open>SCREEN_WIDTH\<close>, \<open>SCREEN_HEIGHT\<close>).

  The theorems give the exact set of pixels each routine changes, and how; so none of them writes outside
  of the buffer, whatever the coordinates, apart from those whose lemmas show that it does.
\<close>

section \<open>Shapes\<close>

abbreviation MOUSE_WIDTH :: int where "MOUSE_WIDTH \<equiv> 15"
abbreviation MOUSE_HEIGHT :: int where "MOUSE_HEIGHT \<equiv> 18"

definition mouse_pointer :: "nat list list list" where
  "mouse_pointer =
    [ [[2, 2, 0, 0, 0, 0, 0, 0, 0, 0, 0, 0, 0, 0, 0],
    [2, 1, 2, 0, 0, 0, 0, 0, 0, 0, 0, 0, 0, 0, 0],
    [2, 1, 1, 2, 0, 0, 0, 0, 0, 0, 0, 0, 0, 0, 0],
    [2, 1, 1, 1, 2, 0, 0, 0, 0, 0, 0, 0, 0, 0, 0],
    [2, 1, 1, 1, 1, 2, 0, 0, 0, 0, 0, 0, 0, 0, 0],
    [2, 1, 1, 1, 1, 1, 2, 0, 0, 0, 0, 0, 0, 0, 0],
    [2, 1, 1, 1, 1, 1, 1, 2, 0, 0, 0, 0, 0, 0, 0],
    [2, 1, 1, 1, 1, 1, 1, 1, 2, 0, 0, 0, 0, 0, 0],
    [2, 1, 1, 1, 1, 1, 1, 1, 1, 2, 0, 0, 0, 0, 0],
    [2, 1, 1, 1, 1, 1, 1, 1, 1, 1, 2, 0, 0, 0, 0],
    [2, 1, 1, 1, 1, 1, 1, 1, 1, 1, 1, 2, 0, 0, 0],
    [2, 1, 1, 1, 1, 1, 1, 2, 2, 2, 2, 2, 0, 0, 0],
    [2, 1, 1, 1, 2, 1, 1, 2, 0, 0, 0, 0, 0, 0, 0],
    [2, 1, 1, 2, 0, 2, 1, 1, 2, 0, 0, 0, 0, 0, 0],
    [2, 1, 2, 0, 0, 2, 1, 1, 2, 0, 0, 0, 0, 0, 0],
    [2, 2, 0, 0, 0, 0, 2, 1, 1, 2, 0, 0, 0, 0, 0],
    [0, 0, 0, 0, 0, 0, 2, 1, 1, 2, 0, 0, 0, 0, 0],
    [0, 0, 0, 0, 0, 0, 0, 2, 2, 0, 0, 0, 0, 0, 0]],
    [[0, 0, 0, 0, 0, 0, 0, 0, 0, 0, 0, 0, 0, 0, 0],
    [0, 0, 0, 0, 0, 0, 0, 0, 0, 0, 0, 0, 0, 0, 0],
    [0, 0, 0, 0, 0, 0, 0, 0, 0, 0, 0, 0, 0, 0, 0],
    [0, 0, 0, 0, 0, 1, 1, 1, 0, 0, 0, 0, 0, 0, 0],
    [0, 0, 0, 1, 1, 1, 2, 2, 1, 1, 1, 0, 0, 0, 0],
    [0, 0, 1, 2, 2, 1, 2, 2, 1, 2, 2, 1, 1, 0, 0],
    [0, 1, 1, 2, 2, 1, 2, 2, 1, 2, 2, 1, 2, 1, 0],
    [1, 2, 1, 2, 2, 1, 2, 2, 1, 2, 2, 1, 2, 2, 1],
    [1, 2, 1, 2, 2, 2, 2, 2, 2, 2, 2, 1, 2, 2, 1],
    [1, 2, 2, 2, 2, 2, 2, 2, 2, 2, 2, 2, 2, 2, 1],
    [1, 2, 2, 2, 2, 2, 2, 2, 2, 2, 2, 2, 2, 2, 1],
    [0, 1, 2, 2, 2, 2, 2, 2, 2, 2, 2, 2, 2, 2, 1],
    [0, 1, 2, 2, 2, 2, 2, 2, 2, 2, 2, 2, 2, 2, 1],
    [0, 0, 1, 2, 2, 2, 2, 2, 2, 2, 2, 2, 2, 1, 0],
    [0, 0, 1, 2, 2, 2, 2, 2, 2, 2, 2, 2, 2, 1, 0],
    [0, 0, 0, 1, 2, 2, 2, 2, 2, 2, 2, 2, 2, 1, 0],
    [0, 0, 0, 1, 2, 2, 2, 2, 2, 2, 2, 2, 1, 0, 0],
    [0, 0, 0, 1, 1, 1, 1, 1, 1, 1, 1, 1, 1, 0, 0]]]"

definition mouse_color :: "nat \<Rightarrow> RGB" where
  "mouse_color n = (if n = 0 then \<lparr>cB = 0, cG = 0, cR = 0\<rparr> else \<lparr>cB = 200, cG = 200, cR = 200\<rparr>)"

section \<open>Characters, icons and text\<close>

definition drawCharacter :: "int \<Rightarrow> int \<Rightarrow> font \<Rightarrow> int \<Rightarrow> int \<Rightarrow> uchar \<Rightarrow> RGBA \<Rightarrow> RGB list \<Rightarrow> (int \<times> RGB list) option" where
  "drawCharacter W H font x y ch color b =
     (if unprintable ch then Some (-1, b)
      else map_option (Pair CHARACTER_WIDTH)
        (each (\<lambda>i b.
           if H \<le> y + i \<or> y + i < 0 then Some b
           else each (\<lambda>j b.
             if 0 < font (char_ord ch) i j then
               if W \<le> x + j \<or> x + j < 0 then Some b
               else at_pixel ((y + i) * W + x + j) (drawPointAlpha (smooth color (font (char_ord ch) i j))) b
             else Some b) [0..CHARACTER_WIDTH - 1] b) [0..CHARACTER_HEIGHT - 1] b))"

definition icon_clear :: "uint \<Rightarrow> bool" where
  "icon_clear raw \<longleftrightarrow> raw = 0xFF000000 \<or> raw = 0"

definition drawIcon :: "int \<Rightarrow> int \<Rightarrow> icons \<Rightarrow> int \<Rightarrow> int \<Rightarrow> int \<Rightarrow> RGB list \<Rightarrow> (int \<times> RGB list) option" where
  "drawIcon W H icons x y icon b =
     (if icon < 0 \<or> ICON_NUMBER \<le> icon then Some (-1, b)
      else map_option (Pair ICON_SIZE)
        (each (\<lambda>i b.
           if H \<le> y + i \<or> y + i < 0 then Some b
           else each (\<lambda>j b.
             if W \<le> x + j \<or> x + j < 0 then Some b
             else if icon_clear (icons icon (i * ICON_SIZE + j)) then Some b
             else at_pixel ((y + i) * W + (x + j)) (drawPointAlpha (icon_color (icons icon (i * ICON_SIZE + j)))) b)
             [0..ICON_SIZE - 1] b) [0..ICON_SIZE - 1] b))"

fun drawString_loop :: "int \<Rightarrow> int \<Rightarrow> font \<Rightarrow> int \<Rightarrow> int \<Rightarrow> uchar list \<Rightarrow> RGBA \<Rightarrow> int \<Rightarrow> RGB list \<Rightarrow> RGB list option" where
  "drawString_loop W H font x y [] color offset_x b = Some b"
| "drawString_loop W H font x y (ch # str) color offset_x b =
     (case drawCharacter W H font (x + offset_x) y ch color b of
        None \<Rightarrow> None
      | Some (w, b') \<Rightarrow> drawString_loop W H font x y str color (offset_x + w) b')"

definition drawString :: "int \<Rightarrow> int \<Rightarrow> font \<Rightarrow> int \<Rightarrow> int \<Rightarrow> uchar list \<Rightarrow> RGBA \<Rightarrow> RGB list \<Rightarrow> RGB list option" where
  "drawString W H font x y str color b = drawString_loop W H font x y str color 0 b"

fun drawStringWithMaxWidth_loop ::
    "int \<Rightarrow> int \<Rightarrow> font \<Rightarrow> int \<Rightarrow> int \<Rightarrow> int \<Rightarrow> uchar list \<Rightarrow> RGBA \<Rightarrow> int \<Rightarrow> RGB list \<Rightarrow> RGB list option" where
  "drawStringWithMaxWidth_loop W H font x y width [] color offset_x b = Some b"
| "drawStringWithMaxWidth_loop W H font x y width (ch # str) color offset_x b =
     (if offset_x + CHARACTER_WIDTH \<le> width then
        case drawCharacter W H font (x + offset_x) y ch color b of
          None \<Rightarrow> None
        | Some (w, b') \<Rightarrow> drawStringWithMaxWidth_loop W H font x y width str color (offset_x + w) b'
      else Some b)"

definition drawStringWithMaxWidth ::
    "int \<Rightarrow> int \<Rightarrow> font \<Rightarrow> int \<Rightarrow> int \<Rightarrow> int \<Rightarrow> uchar list \<Rightarrow> RGBA \<Rightarrow> RGB list \<Rightarrow> RGB list option" where
  "drawStringWithMaxWidth W H font x y width str color b = drawStringWithMaxWidth_loop W H font x y width str color 0 b"

section \<open>Images\<close>

text \<open>Reading a pixel of an image.\<close>

definition img_at :: "'a list \<Rightarrow> int \<Rightarrow> 'a option" where
  "img_at img k = (if 0 \<le> k \<and> k < int (length img) then Some (img ! nat k) else None)"

definition drawImage :: "int \<Rightarrow> RGBA list \<Rightarrow> int \<Rightarrow> int \<Rightarrow> int \<Rightarrow> int \<Rightarrow> int \<Rightarrow> int \<Rightarrow> RGB list \<Rightarrow> RGB list option" where
  "drawImage W img x y width height max_x max_y =
     each (\<lambda>i b.
       if y + i < 0 then Some b
       else each (\<lambda>j b.
         if x + j < 0 then Some b
         else case img_at img ((height - i) * width + j) of
                None \<Rightarrow> None
              | Some c \<Rightarrow> at_pixel ((y + i) * W + x + j) (drawPointAlpha c) b)
         (until (\<lambda>j. max_x \<le> x + j) [0..width - 1]) b) (until (\<lambda>i. max_y \<le> y + i) [0..height - 1])"

text \<open>The count of \<open>memmove\<close> is unsigned: a negative number of pixels runs off every buffer.\<close>

definition draw24Image :: "int \<Rightarrow> RGB list \<Rightarrow> int \<Rightarrow> int \<Rightarrow> int \<Rightarrow> int \<Rightarrow> int \<Rightarrow> int \<Rightarrow> RGB list \<Rightarrow> RGB list option" where
  "draw24Image W img x y width height max_x max_y =
     (let max_line = (if max_x - x < width then max_x - x else width) in
      each (\<lambda>i b.
        if y + i < 0 then Some b
        else copy_row ((y + i) * W + x) img ((height - i) * width) max_line b)
        (until (\<lambda>i. max_y \<le> y + i) [0..height - 1]))"

definition draw24ImagePart ::
    "int \<Rightarrow> int \<Rightarrow> RGB list \<Rightarrow> int \<Rightarrow> int \<Rightarrow> int \<Rightarrow> int \<Rightarrow> int \<Rightarrow> int \<Rightarrow> int \<Rightarrow> int \<Rightarrow> RGB list \<Rightarrow> RGB list option" where
  "draw24ImagePart W H img x y width height subx suby subw subh b =
     (if W \<le> x \<or> H \<le> y then Some b
      else
        let minj = (if x < 0 then - x else 0);
            maxj = (if W < x + subw then W - x else subw)
        in if maxj \<le> minj then Some b
           else each (\<lambda>i b.
             if y + i < 0 then Some b
             else copy_row ((y + i) * W + minj + x) img ((i + suby) * width + subx + minj) (maxj - minj) b)
             (until (\<lambda>i. H \<le> y + i) [0..subh - 1]) b)"

section \<open>Rectangles\<close>

definition drawRectBound :: "int \<Rightarrow> int \<Rightarrow> int \<Rightarrow> int \<Rightarrow> int \<Rightarrow> RGBA \<Rightarrow> int \<Rightarrow> int \<Rightarrow> RGB list \<Rightarrow> RGB list option" where
  "drawRectBound W x y width height fill max_x max_y b =
     (if max_x \<le> x \<or> max_y \<le> y \<or> x + width \<le> 0 \<or> y + height \<le> 0 then Some b
      else
        let start_x = (if x < 0 then 0 else x); start_y = (if y < 0 then 0 else y);
            end_x = (if max_x < x + width then max_x else x + width);
            end_y = (if max_y < y + height then max_y else y + height)
        in if aA fill = 255
           then each (\<lambda>i. each (\<lambda>j. at_pixel (i * W + start_x + (j - start_x)) (\<lambda>_. solid fill)) [start_x..end_x - 1])
             [start_y..end_y - 1] b
           else each (\<lambda>i. each (\<lambda>j. at_pixel (i * W + j) (drawPointAlpha fill)) [start_x..end_x - 1])
             [start_y..end_y - 1] b)"

text \<open>\<open>t\<close> points at the corner of the rectangle; only offsets from it are accessed.\<close>

definition drawRectBorder :: "int \<Rightarrow> int \<Rightarrow> RGB \<Rightarrow> int \<Rightarrow> int \<Rightarrow> int \<Rightarrow> int \<Rightarrow> RGB list \<Rightarrow> RGB list option" where
  "drawRectBorder W H color x y width height b =
     (if W \<le> x \<or> x + width < 0 \<or> H \<le> y \<or> y + height < 0 \<or> width < 0 \<or> height < 0 then Some b
      else
        let t = y * W + x;
            top = (if 0 < y then each (\<lambda>i b.
              if 0 < x + i \<and> x + i < W then at_pixel (t + i) (\<lambda>_. color) b else Some b) [0..width - 1] else Some);
            bottom = (if y + height < H then each (\<lambda>i b.
              if 0 < y \<and> 0 < x + i \<and> x + i < W then at_pixel (t + height * W + i) (\<lambda>_. color) b else Some b) [0..width - 1] else Some);
            left = (if 0 < x then each (\<lambda>i b.
              if 0 < y + i \<and> y + i < H then at_pixel (t + i * W) (\<lambda>_. color) b else Some b) [0..height - 1] else Some);
            right = (if x + width < W then each (\<lambda>i b.
              if 0 < y + i \<and> y + i < H then at_pixel (t + width + i * W) (\<lambda>_. color) b else Some b) [0..height - 1] else Some)
        in Option.bind (Option.bind (Option.bind (top b) bottom) left) right)"

definition drawRect :: "int \<Rightarrow> int \<Rightarrow> int \<Rightarrow> int \<Rightarrow> int \<Rightarrow> int \<Rightarrow> RGBA \<Rightarrow> RGB list \<Rightarrow> RGB list option" where
  "drawRect W H x y width height fill = drawRectBound W x y width height fill W H"

definition drawRectByCoord :: "int \<Rightarrow> int \<Rightarrow> int \<Rightarrow> int \<Rightarrow> int \<Rightarrow> int \<Rightarrow> RGBA \<Rightarrow> RGB list \<Rightarrow> RGB list option" where
  "drawRectByCoord W H x0 y0 x1 y1 fill = drawRect W H x0 y0 (x1 - x0) (y1 - y0) fill"

text \<open>The branch on \<open>start_x < 0\<close> is never taken: \<open>start_x\<close> has been set to 0 before.\<close>

definition clearRect :: "int \<Rightarrow> int \<Rightarrow> RGB list \<Rightarrow> int \<Rightarrow> int \<Rightarrow> int \<Rightarrow> int \<Rightarrow> RGB list \<Rightarrow> RGB list option" where
  "clearRect W H temp_buf x y width height b =
     (if W \<le> x \<or> H \<le> y \<or> x + width \<le> 0 \<or> y + height \<le> 0 then Some b
      else
        let start_y = (if y < 0 then 0 else y);
            end_y = (if H < y + height then H else y + height);
            start_x0 = (if x < 0 then 0 else x);
            copy_width0 = (if W < x + width then W - x else width);
            copy_width = (if start_x0 < 0 then copy_width0 + start_x0 else copy_width0);
            start_x = (if start_x0 < 0 then 0 else start_x0)
        in if copy_width \<le> 0 then Some b
           else each (\<lambda>i. copy_row (i * W + start_x) temp_buf (i * W + start_x) copy_width) [start_y..end_y - 1] b)"

definition clearRectByCoord :: "int \<Rightarrow> int \<Rightarrow> RGB list \<Rightarrow> int \<Rightarrow> int \<Rightarrow> int \<Rightarrow> int \<Rightarrow> RGB list \<Rightarrow> RGB list option" where
  "clearRectByCoord W H temp_buf x0 y0 x1 y1 = clearRect W H temp_buf x0 y0 (x1 - x0) (y1 - y0)"

section \<open>The mouse pointer\<close>

definition pointer_at :: "nat \<Rightarrow> int \<Rightarrow> int \<Rightarrow> nat" where
  "pointer_at mode i j = mouse_pointer ! mode ! nat i ! nat j"

definition drawMouse :: "int \<Rightarrow> int \<Rightarrow> nat \<Rightarrow> int \<Rightarrow> int \<Rightarrow> RGB list \<Rightarrow> RGB list option" where
  "drawMouse W H mode x y =
     each (\<lambda>i b.
       if y + i < 0 then Some b
       else each (\<lambda>j b.
         if x + j < 0 then Some b
         else if pointer_at mode i j \<noteq> 0
         then at_pixel ((y + i) * W + x + j) (drawPoint (mouse_color (pointer_at mode i j - 1))) b
         else Some b) (until (\<lambda>j. W \<le> x + j) [0..MOUSE_WIDTH - 1]) b) (until (\<lambda>i. H \<le> y + i) [0..MOUSE_HEIGHT - 1])"

definition clearMouse :: "int \<Rightarrow> int \<Rightarrow> RGB list \<Rightarrow> int \<Rightarrow> int \<Rightarrow> RGB list \<Rightarrow> RGB list option" where
  "clearMouse W H temp_buf x y = clearRect W H temp_buf x y MOUSE_WIDTH MOUSE_HEIGHT"

section \<open>What the routines change\<close>

lemma drawCharacter_paints:
  assumes "\<not> unprintable ch"
  shows "paints W H (glyph_pixels font x y ch)
    (\<lambda>px py. drawPointAlpha (smooth color (font (char_ord ch) (py - y) (px - x))))
    (\<lambda>b. map_option snd (drawCharacter W H font x y ch color b))"
proof -
  let ?f = "\<lambda>px py. drawPointAlpha (smooth color (font (char_ord ch) (py - y) (px - x)))"
  let ?skip = "\<lambda>i j. \<not> (0 < font (char_ord ch) i j) \<or> W \<le> x + j \<or> x + j < 0"
  have eq: "(\<lambda>b. map_option snd (drawCharacter W H font x y ch color b)) =
    each (\<lambda>i b. if H \<le> y + i \<or> y + i < 0 then Some b
      else each (\<lambda>j b. if ?skip i j then Some b
        else at_pixel ((y + i) * W + x + j) (drawPointAlpha (smooth color (font (char_ord ch) i j))) b)
      [0..CHARACTER_WIDTH - 1] b) [0..CHARACTER_HEIGHT - 1]"
    using assms by (auto simp: drawCharacter_def fun_eq_iff option.map_comp comp_def option.map_ident intro!: each_cong)
  have "paints W H {(x + j, y + i) | i j. i \<in> set [0..CHARACTER_HEIGHT - 1] \<and> j \<in> set [0..CHARACTER_WIDTH - 1] \<and>
      \<not> (H \<le> y + i \<or> y + i < 0) \<and> \<not> ?skip i j} ?f
    (each (\<lambda>i b. if H \<le> y + i \<or> y + i < 0 then Some b
      else each (\<lambda>j b. if ?skip i j then Some b
        else at_pixel ((y + i) * W + x + j) (drawPointAlpha (smooth color (font (char_ord ch) i j))) b)
      [0..CHARACTER_WIDTH - 1] b) [0..CHARACTER_HEIGHT - 1])"
    by (rule paints_grid) (auto simp: inside_def not_le)
  then show ?thesis unfolding eq
  proof (rule paints_cong)
    fix px py assume i: "inside W H px py"
    show "(px, py) \<in> {(x + j, y + i) | i j. i \<in> set [0..CHARACTER_HEIGHT - 1] \<and> j \<in> set [0..CHARACTER_WIDTH - 1] \<and>
      \<not> (H \<le> y + i \<or> y + i < 0) \<and> \<not> ?skip i j} \<longleftrightarrow> (px, py) \<in> glyph_pixels font x y ch"
      using i unfolding mem_offset by (auto simp: glyph_pixels_def inside_def)
  qed simp
qed

lemma drawCharacter_returns:
  "drawCharacter W H font x y ch color b = Some (w, b') \<Longrightarrow> w = (if unprintable ch then -1 else CHARACTER_WIDTH)"
  by (auto simp: drawCharacter_def split: if_splits)

theorem drawRectBound_paints:
  assumes "max_x \<le> W" "max_y \<le> H"
  shows "paints W H (rectangle x y width height \<inter> {(px, py). px < max_x \<and> py < max_y}) (\<lambda>_ _. drawPointAlpha fill)
    (drawRectBound W x y width height fill max_x max_y)"
proof (cases "max_x \<le> x \<or> max_y \<le> y \<or> x + width \<le> 0 \<or> y + height \<le> 0")
  case True
  then have "drawRectBound W x y width height fill max_x max_y = Some" by (simp add: drawRectBound_def fun_eq_iff)
  moreover have "paints W H (rectangle x y width height \<inter> {(px, py). px < max_x \<and> py < max_y}) (\<lambda>_ _. drawPointAlpha fill) Some"
    by (rule paints_cong [OF paints_skip]) (use True in \<open>auto simp: rectangle_def inside_def\<close>)
  ultimately show ?thesis by simp
next
  case False
  let ?xs = "[max 0 x..min max_x (x + width) - 1]" and ?ys = "[max 0 y..min max_y (y + height) - 1]"
  have "drawRectBound W x y width height fill max_x max_y b =
      each (\<lambda>i b. if False then Some b else each (\<lambda>j b. if False then Some b else at_pixel (i * W + j) (drawPointAlpha fill) b) ?xs b) ?ys b" for b
  proof -
    have "(if x < 0 then 0 else x) = max 0 x" "(if y < 0 then 0 else y) = max 0 y"
      "(if max_x < x + width then max_x else x + width) = min max_x (x + width)"
      "(if max_y < y + height then max_y else y + height) = min max_y (y + height)" by auto
    moreover have "aA fill = 255 \<Longrightarrow> drawPointAlpha fill = (\<lambda>_. solid fill)" by (simp add: fun_eq_iff opaque)
    ultimately show ?thesis using False by (simp add: drawRectBound_def Let_def)
  qed
  moreover have "paints W H {(0 + j, 0 + i) | i j. i \<in> set ?ys \<and> j \<in> set ?xs \<and> \<not> False \<and> \<not> False} (\<lambda>_ _. drawPointAlpha fill)
    (each (\<lambda>i b. if False then Some b else each (\<lambda>j b. if False then Some b else at_pixel (i * W + j) (drawPointAlpha fill) b) ?xs b) ?ys)"
    by (rule paints_grid) (use assms in \<open>auto simp: inside_def\<close>)
  ultimately have "paints W H {(0 + j, 0 + i) | i j. i \<in> set ?ys \<and> j \<in> set ?xs \<and> \<not> False \<and> \<not> False} (\<lambda>_ _. drawPointAlpha fill)
    (drawRectBound W x y width height fill max_x max_y)" by (simp add: paints_def)
  then show ?thesis by (rule paints_cong) (unfold mem_offset, auto simp: rectangle_def inside_def)
qed

definition icon_pixels :: "icons \<Rightarrow> int \<Rightarrow> int \<Rightarrow> int \<Rightarrow> (int \<times> int) set" where
  "icon_pixels icons x y icon = {(px, py). x \<le> px \<and> px < x + ICON_SIZE \<and> y \<le> py \<and> py < y + ICON_SIZE \<and>
     \<not> icon_clear (icons icon ((py - y) * ICON_SIZE + (px - x)))}"

lemma drawIcon_paints:
  assumes "0 \<le> icon" "icon < ICON_NUMBER"
  shows "paints W H (icon_pixels icons x y icon)
    (\<lambda>px py. drawPointAlpha (icon_color (icons icon ((py - y) * ICON_SIZE + (px - x)))))
    (\<lambda>b. map_option snd (drawIcon W H icons x y icon b))"
proof -
  let ?f = "\<lambda>px py. drawPointAlpha (icon_color (icons icon ((py - y) * ICON_SIZE + (px - x))))"
  let ?skip = "\<lambda>i j. W \<le> x + j \<or> x + j < 0 \<or> icon_clear (icons icon (i * ICON_SIZE + j))"
  let ?m = "each (\<lambda>i b. if H \<le> y + i \<or> y + i < 0 then Some b
      else each (\<lambda>j b. if ?skip i j then Some b
        else at_pixel ((y + i) * W + (x + j)) (drawPointAlpha (icon_color (icons icon (i * ICON_SIZE + j)))) b)
      [0..ICON_SIZE - 1] b) [0..ICON_SIZE - 1]"
  have eq: "(\<lambda>b. map_option snd (drawIcon W H icons x y icon b)) = ?m"
    using assms by (auto simp: drawIcon_def fun_eq_iff option.map_comp comp_def option.map_ident intro!: each_cong)
  have "paints W H {(x + j, y + i) | i j. i \<in> set [0..ICON_SIZE - 1] \<and> j \<in> set [0..ICON_SIZE - 1] \<and>
      \<not> (H \<le> y + i \<or> y + i < 0) \<and> \<not> ?skip i j} ?f ?m"
    by (rule paints_grid) (auto simp: inside_def not_le)
  then show ?thesis unfolding eq
    by (rule paints_cong) (unfold mem_offset, auto simp: icon_pixels_def inside_def)
qed

definition border_pixels :: "int \<Rightarrow> int \<Rightarrow> int \<Rightarrow> int \<Rightarrow> int \<Rightarrow> int \<Rightarrow> (int \<times> int) set" where
  "border_pixels W H x y width height =
     {(px, py). x < W \<and> y < H \<and> 0 \<le> width \<and> 0 \<le> height \<and>
       (x \<le> px \<and> px < x + width \<and> 0 < px \<and> 0 < y \<and> (py = y \<or> py = y + height) \<or>
        y \<le> py \<and> py < y + height \<and> 0 < py \<and> (px = x \<and> 0 < x \<or> px = x + width))}"

theorem drawRectBorder_paints:
  "paints W H (border_pixels W H x y width height) (\<lambda>_ _ _. color) (drawRectBorder W H color x y width height)"
proof (cases "W \<le> x \<or> x + width < 0 \<or> H \<le> y \<or> y + height < 0 \<or> width < 0 \<or> height < 0")
  case True
  then have "drawRectBorder W H color x y width height = Some" by (auto simp: drawRectBorder_def fun_eq_iff)
  moreover have "paints W H (border_pixels W H x y width height) (\<lambda>_ _ _. color) Some"
    by (rule paints_cong [OF paints_skip]) (use True in \<open>auto simp: border_pixels_def inside_def\<close>)
  ultimately show ?thesis by simp
next
  case False
  let ?t = "y * W + x"
  let ?top = "\<lambda>i b. if 0 < x + i \<and> x + i < W then at_pixel (?t + i) (\<lambda>_. color) b else Some b"
  let ?bot = "\<lambda>i b. if 0 < y \<and> 0 < x + i \<and> x + i < W then at_pixel (?t + height * W + i) (\<lambda>_. color) b else Some b"
  let ?left = "\<lambda>i b. if 0 < y + i \<and> y + i < H then at_pixel (?t + i * W) (\<lambda>_. color) b else Some b"
  let ?right = "\<lambda>i b. if 0 < y + i \<and> y + i < H then at_pixel (?t + width + i * W) (\<lambda>_. color) b else Some b"
  let ?ws = "[0..width - 1]" and ?hs = "[0..height - 1]"
  let ?f = "\<lambda>_ _ _. color"
  have eq: "drawRectBorder W H color x y width height = (\<lambda>b.
    Option.bind (Option.bind (Option.bind ((if 0 < y then each ?top ?ws else Some) b)
      (if y + height < H then each ?bot ?ws else Some))
      (if 0 < x then each ?left ?hs else Some))
      (if x + width < W then each ?right ?hs else Some))"
    using False by (simp add: drawRectBorder_def fun_eq_iff Let_def)
  have 1: "paints W H (if 0 < y then \<Union>i\<in>set ?ws. if 0 < x + i \<and> x + i < W then {(x + i, y)} else {} else {}) ?f
      (if 0 < y then each ?top ?ws else Some)"
    using False by (intro paints_when' paints_line) (auto simp: inside_def)
  have 2: "paints W H (if y + height < H then \<Union>i\<in>set ?ws. if 0 < y \<and> 0 < x + i \<and> x + i < W then {(x + i, y + height)} else {} else {}) ?f
      (if y + height < H then each ?bot ?ws else Some)"
    using False by (intro paints_when' paints_line) (auto simp: inside_def algebra_simps)
  have 3: "paints W H (if 0 < x then \<Union>i\<in>set ?hs. if 0 < y + i \<and> y + i < H then {(x, y + i)} else {} else {}) ?f
      (if 0 < x then each ?left ?hs else Some)"
    using False by (intro paints_when' paints_line) (auto simp: inside_def algebra_simps)
  have 4: "paints W H (if x + width < W then \<Union>i\<in>set ?hs. if 0 < y + i \<and> y + i < H then {(x + width, y + i)} else {} else {}) ?f
      (if x + width < W then each ?right ?hs else Some)"
    using False by (intro paints_when' paints_line) (auto simp: inside_def algebra_simps)
  show ?thesis unfolding eq
    by (rule paints_cong [OF paints_seq [OF paints_seq [OF paints_seq [OF 1 2] 3] 4]])
       (use False in \<open>auto simp only: border_pixels_def inside_def mem_hline mem_vline mem_if Un_iff mem_Collect_eq prod.case
         add_diff_cancel_left' diff_add_cancel add_diff_eq not_le not_less de_Morgan_disj simp_thms\<close>)
qed

text \<open>\<open>draw24ImagePart\<close> with a part that lies inside of the image.\<close>

theorem draw24ImagePart_paints:
  assumes "0 \<le> subx" "0 \<le> suby" "subx + subw \<le> width" "(suby + subh) * width \<le> int (length img)"
  shows "paints W H (rectangle x y subw subh)
    (\<lambda>px py _. img ! nat ((py - y + suby) * width + subx + (px - x)))
    (draw24ImagePart W H img x y width height subx suby subw subh)"
proof -
  define minj where "minj = (if x < 0 then - x else 0)"
  define maxj where "maxj = (if W < x + subw then W - x else subw)"
  let ?f = "\<lambda>px py _. img ! nat ((py - y + suby) * width + subx + (px - x))"
  show ?thesis
  proof (cases "W \<le> x \<or> H \<le> y \<or> maxj \<le> minj")
    case True
    then have "draw24ImagePart W H img x y width height subx suby subw subh = Some"
      by (auto simp: draw24ImagePart_def Let_def minj_def maxj_def fun_eq_iff)
    moreover have "paints W H (rectangle x y subw subh) ?f Some"
      by (rule paints_cong [OF paints_skip])
         (use True in \<open>auto simp: rectangle_def inside_def minj_def maxj_def split: if_splits\<close>)
    ultimately show ?thesis by simp
  next
    case False
    let ?ks = "until (\<lambda>i. H \<le> y + i) [0..subh - 1]"
    let ?k = "\<lambda>i. (i + suby) * width + subx + minj"
    let ?m = "each (\<lambda>i b. if y + i < 0 then Some b else copy_row ((y + i) * W + minj + x) img (?k i) (maxj - minj) b) ?ks"
    have eq: "draw24ImagePart W H img x y width height subx suby subw subh = ?m"
      unfolding draw24ImagePart_def Let_def minj_def [symmetric] maxj_def [symmetric] using False by (simp add: fun_eq_iff)
    have lim: "0 \<le> minj" "maxj \<le> subw" "0 \<le> minj + x" "maxj + x \<le> W" "0 < maxj - minj"
      using False by (auto simp: minj_def maxj_def)
    have src: "0 \<le> ?k i \<and> ?k i + (maxj - minj) \<le> int (length img)" if "0 \<le> i" "i < subh" for i
    proof
      have w: "0 < width" using lim assms(1,3) by linarith
      show "0 \<le> ?k i" using that w lim assms(1,2) by simp
      have "(i + suby + 1) * width \<le> (suby + subh) * width" using that w by (intro mult_right_mono) simp_all
      then have "(i + suby) * width + width \<le> int (length img)" using assms(4) by (simp add: algebra_simps)
      then show "?k i + (maxj - minj) \<le> int (length img)" using lim assms(3) by linarith
    qed
    have "paints W H (\<Union>i\<in>set ?ks. if y + i < 0 then {} else {minj + x..<minj + x + (maxj - minj)} \<times> {y + i}) ?f ?m"
    proof (rule paints_rows)
      fix i assume "i \<in> set ?ks" "\<not> y + i < 0"
      then show "0 \<le> y + i \<and> y + i < H \<and> (y + i) * W + minj + x = (y + i) * W + (minj + x) \<and> 0 \<le> ?k i \<and> ?k i + (maxj - minj) \<le> int (length img)"
        using src [of i] by (simp add: set_until)
    qed (use lim in \<open>auto simp: distinct_until inj_on_def algebra_simps\<close>)
    then show ?thesis unfolding eq
      by (rule paints_cong)
         (unfold mem_rows, auto simp: set_until rectangle_def inside_def minj_def maxj_def split: if_splits)
  qed
qed

text \<open>\<open>clearRect\<close> restores its rectangle from the other buffer when it does not start to the left of the screen.\<close>

theorem clearRect_paints:
  assumes "0 \<le> x" "canvas W H temp_buf"
  shows "paints W H (rectangle x y width height) (\<lambda>px py _. pix W temp_buf px py) (clearRect W H temp_buf x y width height)"
proof (cases "W \<le> x \<or> H \<le> y \<or> x + width \<le> 0 \<or> y + height \<le> 0 \<or> width \<le> 0")
  case True
  then have "clearRect W H temp_buf x y width height = Some" using assms(1) by (auto simp: clearRect_def Let_def fun_eq_iff)
  moreover have "paints W H (rectangle x y width height) (\<lambda>px py _. pix W temp_buf px py) Some"
    by (rule paints_cong [OF paints_skip]) (use True in \<open>auto simp: rectangle_def inside_def\<close>)
  ultimately show ?thesis by simp
next
  case False
  let ?n = "min W (x + width) - x"
  let ?ys = "[max 0 y..min H (y + height) - 1]"
  let ?m = "each (\<lambda>i b. if False then Some b else copy_row (i * W + x) temp_buf (i * W + x) ?n b) ?ys"
  have eq: "clearRect W H temp_buf x y width height = ?m"
  proof -
    have "(if x < 0 then 0 else x) = x" "(if y < 0 then 0 else y) = max 0 y"
      "(if W < x + width then W - x else width) = ?n"
      "(if H < y + height then H else y + height) = min H (y + height)" using assms(1) by auto
    moreover have "\<not> ?n \<le> 0" using False by (simp add: min_def)
    ultimately show ?thesis using False assms(1) by (simp add: clearRect_def Let_def fun_eq_iff)
  qed
  have src: "0 \<le> i * W + x \<and> i * W + x + ?n \<le> int (length temp_buf)" if "i \<in> set ?ys" for i
  proof -
    have "inside W H x i" "inside W H (x + ?n - 1) i" using that False assms(1) by (auto simp: inside_def)
    from address_bounds [OF this(1)] address_bounds [OF this(2)] show ?thesis
      using assms(2) unfolding canvas_def by linarith
  qed
  have "paints W H (\<Union>i\<in>set ?ys. if False then {} else {x..<x + ?n} \<times> {0 + i}) (\<lambda>px py _. pix W temp_buf px py) ?m"
    by (rule paints_rows) (use False assms(1) src in \<open>auto simp: pix_def add.assoc\<close>)
  then show ?thesis unfolding eq
    by (rule paints_cong) (unfold mem_rows, auto simp: rectangle_def inside_def)
qed

section \<open>The pointer leaves no trace\<close>

definition pointer_pixels :: "nat \<Rightarrow> int \<Rightarrow> int \<Rightarrow> (int \<times> int) set" where
  "pointer_pixels mode x y = {(px, py). x \<le> px \<and> px < x + MOUSE_WIDTH \<and> y \<le> py \<and> py < y + MOUSE_HEIGHT \<and>
     pointer_at mode (py - y) (px - x) \<noteq> 0}"

lemma drawMouse_paints:
  "paints W H (pointer_pixels mode x y) (\<lambda>px py _. mouse_color (pointer_at mode (py - y) (px - x) - 1)) (drawMouse W H mode x y)"
proof -
  let ?f = "\<lambda>px py _. mouse_color (pointer_at mode (py - y) (px - x) - 1)"
  let ?ks = "until (\<lambda>i. H \<le> y + i) [0..MOUSE_HEIGHT - 1]" and ?js = "until (\<lambda>j. W \<le> x + j) [0..MOUSE_WIDTH - 1]"
  let ?skip = "\<lambda>i j. x + j < 0 \<or> pointer_at mode i j = 0"
  let ?m = "each (\<lambda>i b. if y + i < 0 then Some b
      else each (\<lambda>j b. if ?skip i j then Some b
        else at_pixel ((y + i) * W + x + j) (drawPoint (mouse_color (pointer_at mode i j - 1))) b) ?js b) ?ks"
  have "drawMouse W H mode x y b = ?m b" for b
    unfolding drawMouse_def by (intro each_cong) (simp, intro impI each_cong, simp)
  then have eq: "drawMouse W H mode x y = ?m" by (rule ext)
  have "paints W H {(x + j, y + i) | i j. i \<in> set ?ks \<and> j \<in> set ?js \<and> \<not> y + i < 0 \<and> \<not> ?skip i j} ?f ?m"
    by (rule paints_grid) (auto simp: inside_def not_le set_until distinct_until drawPoint_eq fun_eq_iff)
  then show ?thesis unfolding eq
    by (rule paints_cong) (unfold mem_offset, auto simp: pointer_pixels_def inside_def set_until)
qed

text \<open>The two colours of the pointer cover the values of its shape.\<close>

lemma pointer_values:
  assumes "mode < 2" "0 \<le> i" "i < MOUSE_HEIGHT" "0 \<le> j" "j < MOUSE_WIDTH"
  shows "pointer_at mode i j \<le> 2"
proof -
  have shape: "rows \<in> set mouse_pointer \<Longrightarrow> length rows = 18 \<and> (\<forall>row\<in>set rows. length row = 15 \<and> (\<forall>v\<in>set row. v \<le> 2))" for rows
    by (auto simp: mouse_pointer_def)
  have n: "nat i < 18" "nat j < 15" "length mouse_pointer = 2" using assms by (simp_all add: mouse_pointer_def)
  then have "mouse_pointer ! mode \<in> set mouse_pointer" using assms(1) by (intro nth_mem) simp
  note rows = shape [OF this]
  have row: "mouse_pointer ! mode ! nat i \<in> set (mouse_pointer ! mode)" using rows n assms(1) by (intro nth_mem) simp
  then have "mouse_pointer ! mode ! nat i ! nat j \<in> set (mouse_pointer ! mode ! nat i)"
    using rows n assms(1) by (intro nth_mem) simp
  moreover have "\<forall>v\<in>set (mouse_pointer ! mode ! nat i). v \<le> 2" using rows row n assms(1) by blast
  ultimately have "mouse_pointer ! mode ! nat i ! nat j \<le> 2" by blast
  then show ?thesis by (simp only: pointer_at_def)
qed

text \<open>The pointer leaves no trace: drawing it over a picture and then clearing its rectangle from a copy of the
  picture restores every pixel, at the right and lower edges of the screen too.\<close>

theorem mouse_erased:
  assumes "canvas W H b" "0 \<le> x"
  shows "Option.bind (drawMouse W H mode x y b) (clearMouse W H b x y) = Some b"
proof -
  obtain b1 where 1: "drawMouse W H mode x y b = Some b1"
    "painted W H (pointer_pixels mode x y) (\<lambda>px py _. mouse_color (pointer_at mode (py - y) (px - x) - 1)) b b1"
    using drawMouse_paints assms(1) unfolding paints_def by blast
  then have c1: "canvas W H b1" using assms(1) painted_canvas by blast
  obtain b2 where 2: "clearMouse W H b x y b1 = Some b2"
    "painted W H (rectangle x y MOUSE_WIDTH MOUSE_HEIGHT) (\<lambda>px py _. pix W b px py) b1 b2"
    using clearRect_paints [OF assms(2,1)] c1 unfolding paints_def clearMouse_def by blast
  have "b2 = b"
  proof (rule same_pixels)
    show "canvas W H b2" using c1 painted_canvas [OF 2(2)] by simp
    fix px py assume "inside W H px py"
    then show "pix W b2 px py = pix W b px py"
      using 1(2) 2(2) by (auto simp: painted_def pointer_pixels_def rectangle_def)
  qed (rule assms(1))
  with 1 2 show ?thesis by simp
qed

theorem mouse_erased_witness:
  "Option.bind (drawMouse 2 1 0 1 0 [\<lparr>cB = 1, cG = 2, cR = 3\<rparr>, \<lparr>cB = 4, cG = 5, cR = 6\<rparr>])
     (clearMouse 2 1 [\<lparr>cB = 1, cG = 2, cR = 3\<rparr>, \<lparr>cB = 4, cG = 5, cR = 6\<rparr>] 1 0) =
   Some [\<lparr>cB = 1, cG = 2, cR = 3\<rparr>, \<lparr>cB = 4, cG = 5, cR = 6\<rparr>]"
  by (rule mouse_erased) (simp_all add: canvas_def)

section \<open>Text\<close>

text \<open>Characters and strings change the rows of their line only.\<close>

lemma drawCharacter_touches: "touches W H (line_rows y) (\<lambda>b. map_option snd (drawCharacter W H font x y ch color b))"
proof (cases "unprintable ch")
  case True
  then have "(\<lambda>b. map_option snd (drawCharacter W H font x y ch color b)) = Some" by (simp add: drawCharacter_def fun_eq_iff)
  then show ?thesis by (simp add: touches_Some)
next
  case False
  show ?thesis
    by (rule touches_mono [OF paints_touches [OF drawCharacter_paints [OF False]]]) (simp add: glyph_pixels_def line_rows_def)
qed

lemma drawIcon_touches:
  "touches W H (rectangle x y ICON_SIZE ICON_SIZE) (\<lambda>b. map_option snd (drawIcon W H icons x y icon b))"
proof (cases "icon < 0 \<or> ICON_NUMBER \<le> icon")
  case True
  then have "(\<lambda>b. map_option snd (drawIcon W H icons x y icon b)) = Some" by (auto simp: drawIcon_def)
  then show ?thesis by (simp add: touches_Some)
next
  case False
  show ?thesis
    by (rule touches_mono [OF paints_touches [OF drawIcon_paints]]) (use False in \<open>auto simp: icon_pixels_def rectangle_def\<close>)
qed

lemma after_character:
  assumes "\<And>w. touches W H S (n w)" "line_rows y \<subseteq> S"
  shows "touches W H S (\<lambda>b. case drawCharacter W H font x y ch color b of None \<Rightarrow> None | Some (w, b') \<Rightarrow> n w b')"
proof -
  define w where "w = (if unprintable ch then -1 else CHARACTER_WIDTH)"
  have "(\<lambda>b. case drawCharacter W H font x y ch color b of None \<Rightarrow> None | Some (w, b') \<Rightarrow> n w b') =
    (\<lambda>b. Option.bind (map_option snd (drawCharacter W H font x y ch color b)) (n w))"
    unfolding w_def using drawCharacter_returns [of W H font x y ch color] by (fastforce split: option.split)
  moreover have "touches W H S (\<lambda>b. map_option snd (drawCharacter W H font x y ch color b))"
    by (rule touches_mono [OF drawCharacter_touches]) (use assms(2) in blast)
  ultimately show ?thesis using assms(1) touches_bind by simp
qed

lemma drawString_touches: "touches W H (line_rows y) (drawString W H font x y str color)"
proof -
  have "touches W H (line_rows y) (drawString_loop W H font x y str color offset_x)" for offset_x
  proof (induction str arbitrary: offset_x)
    case (Cons ch str)
    have "touches W H (line_rows y) (\<lambda>b. case drawCharacter W H font (x + offset_x) y ch color b of
        None \<Rightarrow> None | Some (w, b') \<Rightarrow> drawString_loop W H font x y str color (offset_x + w) b')"
      by (rule after_character [OF Cons order_refl])
    then show ?case by (simp add: touches_def)
  qed (simp add: touches_def)
  then show ?thesis by (simp add: drawString_def [abs_def])
qed

lemma drawStringWithMaxWidth_touches:
  "touches W H (line_rows y) (drawStringWithMaxWidth W H font x y width str color)"
proof -
  have "touches W H (line_rows y) (drawStringWithMaxWidth_loop W H font x y width str color offset_x)" for offset_x
  proof (induction str arbitrary: offset_x)
    case (Cons ch str)
    have "touches W H (line_rows y) (\<lambda>b. case drawCharacter W H font (x + offset_x) y ch color b of
        None \<Rightarrow> None | Some (w, b') \<Rightarrow> drawStringWithMaxWidth_loop W H font x y width str color (offset_x + w) b')"
      by (rule after_character [OF Cons order_refl])
    then show ?case by (simp add: touches_def)
  qed (simp add: touches_def)
  then show ?thesis by (simp add: drawStringWithMaxWidth_def [abs_def])
qed

lemma drawRectByCoord_touches:
  "touches W H (rectangle x0 y0 (x1 - x0) (y1 - y0)) (drawRectByCoord W H x0 y0 x1 y1 fill)"
  unfolding drawRectByCoord_def drawRect_def
  by (rule touches_mono [OF paints_touches [OF drawRectBound_paints]]) auto

text \<open>A string of printable characters is the sequence of its glyphs, ten pixels apart.\<close>

definition text_pixels :: "font \<Rightarrow> int \<Rightarrow> int \<Rightarrow> uchar list \<Rightarrow> (int \<times> int) set" where
  "text_pixels font x y str = (\<Union>n<length str. glyph_pixels font (x + CHARACTER_WIDTH * int n) y (str ! n))"

definition text_color :: "font \<Rightarrow> int \<Rightarrow> int \<Rightarrow> uchar list \<Rightarrow> RGBA \<Rightarrow> int \<Rightarrow> int \<Rightarrow> RGB \<Rightarrow> RGB" where
  "text_color font x y str color px py =
     drawPointAlpha (smooth color (font (char_ord (str ! nat ((px - x) div CHARACTER_WIDTH))) (py - y) ((px - x) mod CHARACTER_WIDTH)))"

lemma glyph_column:
  assumes "(px, py) \<in> glyph_pixels font (x + CHARACTER_WIDTH * int n) y ch"
  shows "(px - x) div CHARACTER_WIDTH = int n" "(px - x) mod CHARACTER_WIDTH = px - (x + CHARACTER_WIDTH * int n)"
proof -
  have "0 \<le> px - (x + CHARACTER_WIDTH * int n)" "px - (x + CHARACTER_WIDTH * int n) < CHARACTER_WIDTH"
    using assms by (simp_all add: glyph_pixels_def)
  then show "(px - x) div CHARACTER_WIDTH = int n" "(px - x) mod CHARACTER_WIDTH = px - (x + CHARACTER_WIDTH * int n)"
    by presburger+
qed

lemma drawString_loop_paints:
  assumes "list_all (\<lambda>ch. \<not> unprintable ch) str"
  shows "paints W H (\<Union>n<length str. glyph_pixels font (x + offset_x + CHARACTER_WIDTH * int n) y (str ! n))
    (text_color font (x + offset_x) y str color) (drawString_loop W H font x y str color offset_x)"
  using assms
proof (induction str arbitrary: offset_x)
  case Nil
  have "drawString_loop W H font x y [] color offset_x = Some" by (simp add: fun_eq_iff)
  then show ?case by (simp add: paints_skip)
next
  case (Cons ch str)
  let ?X = "x + offset_x"
  let ?T = "\<Union>n<length str. glyph_pixels font (?X + CHARACTER_WIDTH + CHARACTER_WIDTH * int n) y (str ! n)"
  let ?f = "text_color font ?X y (ch # str) color"
  have "paints W H (glyph_pixels font ?X y ch) ?f (\<lambda>b. map_option snd (drawCharacter W H font ?X y ch color b))"
    by (rule paints_cong [OF drawCharacter_paints])
       (use Cons.prems glyph_column [of _ _ font ?X 0] in \<open>auto simp: text_color_def\<close>)
  moreover have "paints W H ?T ?f (drawString_loop W H font x y str color (offset_x + CHARACTER_WIDTH))"
  proof (rule paints_cong [OF Cons.IH])
    fix px py c assume "(px, py) \<in> ?T"
    then obtain n where n: "(px, py) \<in> glyph_pixels font (?X + CHARACTER_WIDTH + CHARACTER_WIDTH * int n) y (str ! n)" by blast
    have "(px - ?X) div CHARACTER_WIDTH = int (Suc n)" "(px - ?X) mod CHARACTER_WIDTH = px - (?X + CHARACTER_WIDTH * int (Suc n))"
      by (rule glyph_column [of px py font ?X "Suc n" y "str ! n"], use n in \<open>simp add: algebra_simps\<close>)+
    moreover have "(px - (x + (offset_x + CHARACTER_WIDTH))) div CHARACTER_WIDTH = int n"
      "(px - (x + (offset_x + CHARACTER_WIDTH))) mod CHARACTER_WIDTH = px - (?X + CHARACTER_WIDTH * int (Suc n))"
      using glyph_column [OF n] by (simp_all add: algebra_simps)
    ultimately show "text_color font (x + (offset_x + CHARACTER_WIDTH)) y str color px py c = ?f px py c"
      unfolding text_color_def by (simp only: nat_int nth_Cons_Suc)
  qed (use Cons.prems in \<open>simp_all add: algebra_simps\<close>)
  ultimately have "paints W H (glyph_pixels font ?X y ch \<union> ?T) ?f
    (\<lambda>b. Option.bind (map_option snd (drawCharacter W H font ?X y ch color b)) (drawString_loop W H font x y str color (offset_x + CHARACTER_WIDTH)))"
    by (rule paints_seq) (auto simp: glyph_pixels_def)
  moreover have "(\<lambda>b. Option.bind (map_option snd (drawCharacter W H font ?X y ch color b)) (drawString_loop W H font x y str color (offset_x + CHARACTER_WIDTH)))
    = drawString_loop W H font x y (ch # str) color offset_x"
    using Cons.prems by (auto simp: fun_eq_iff split: option.split dest: drawCharacter_returns)
  moreover have "glyph_pixels font ?X y ch \<union> ?T = (\<Union>n<length (ch # str). glyph_pixels font (?X + CHARACTER_WIDTH * int n) y ((ch # str) ! n))"
    by (simp add: lessThan_Suc_eq_insert_0 algebra_simps)
  ultimately show ?case by (simp only:)
qed

theorem drawString_paints:
  assumes "list_all (\<lambda>ch. \<not> unprintable ch) str"
  shows "paints W H (text_pixels font x y str) (text_color font x y str color) (drawString W H font x y str color)"
  using drawString_loop_paints [OF assms, of W H font x 0 y color] by (simp add: drawString_def [abs_def] text_pixels_def)

section \<open>Defects\<close>

text \<open>Images are stored bottom row first; row \<open>i\<close> is read from row \<open>height - i\<close>, which for the top row is one
  beyond the image.\<close>

lemma drawImage_reads_past:
  assumes "int (length img) = width * height" "0 \<le> x" "x < max_x" "0 \<le> y" "y < max_y" "0 < width" "0 < height"
  shows "drawImage W img x y width height max_x max_y b = None"
proof -
  have "until (\<lambda>i. max_y \<le> y + i) [0..height - 1] = 0 # until (\<lambda>i. max_y \<le> y + i) [1..height - 1]"
    "until (\<lambda>j. max_x \<le> x + j) [0..width - 1] = 0 # until (\<lambda>j. max_x \<le> x + j) [1..width - 1]"
    using assms by (simp_all add: until_def upto_rec1 [of 0])
  moreover have "img_at img (height * width) = None" using assms(1) by (simp add: img_at_def mult.commute)
  ultimately show ?thesis using assms(2,4) by (simp add: drawImage_def)
qed

lemma draw24Image_reads_past:
  assumes "int (length img) = width * height" "x < max_x" "0 \<le> y" "y < max_y" "0 < width" "0 < height"
  shows "draw24Image W img x y width height max_x max_y b = None"
proof -
  have "until (\<lambda>i. max_y \<le> y + i) [0..height - 1] = 0 # until (\<lambda>i. max_y \<le> y + i) [1..height - 1]"
    using assms by (simp add: until_def upto_rec1 [of 0])
  moreover have "copy_row t img (height * width) (if max_x - x < width then max_x - x else width) b = None" for t
    using assms(1,2,5) by (auto simp: copy_row_def mult.commute)
  ultimately show ?thesis using assms(3) by (simp add: draw24Image_def Let_def)
qed

text \<open>A rectangle that starts to the left of the screen: \<open>copy_width\<close> is not reduced by the hidden part.\<close>

lemma clearRect_left_edge:
  assumes "x < 0" "0 < x + width" "width \<le> W" "0 \<le> y" "y < H" "canvas W H temp_buf"
  shows "paints W H ({0..<width} \<times> {y}) (\<lambda>px py _. pix W temp_buf px py) (clearRect W H temp_buf x y width 1)"
proof -
  have eq: "clearRect W H temp_buf x y width 1 = copy_row (y * W + 0) temp_buf (y * W) width"
    using assms by (auto simp: clearRect_def Let_def fun_eq_iff bind_each_Nil)
  have "inside W H 0 y" "inside W H (width - 1) y" using assms by (auto simp: inside_def)
  from address_bounds [OF this(1)] address_bounds [OF this(2)] have "0 \<le> y * W" "y * W + width \<le> int (length temp_buf)"
    using assms(6) by (simp_all add: canvas_def)
  then have "paints W H ({0..<0 + width} \<times> {y}) (\<lambda>px py _. pix W temp_buf px py) (copy_row (y * W + 0) temp_buf (y * W) width)"
    using assms by (intro paints_copy) (auto simp: pix_def)
  then show ?thesis by (simp add: eq)
qed

text \<open>Behind a character that is not printable the text moves one pixel to the left.\<close>

lemma unprintable_moves_left:
  "unprintable ch \<Longrightarrow> drawString_loop W H font x y (ch # str) color offset_x b = drawString_loop W H font x y str color (offset_x - 1) b"
  by (simp add: drawCharacter_def)

end
