(* ===== verification/Screen.thy ===== *)
theory Screen
  imports Gui WindowManager Rtc
begin

text \<open>
  The composition of the screen by the window manager (\<open>drawWindowBar\<close> to \<open>updateScreen\<close> of
  \<open>kernel/window_manager.c\<close>): the desktop with its dock, the windows from bottom to top, the popup window and
  the pointer are drawn over each other in \<open>screen_buf\<close>, which is then copied to the screen.

  The pixels of a window lie in the memory of its process: \<open>pixels proc buf\<close> is what \<open>window_buf\<close>
  points to after \<open>switchuvm(proc)\<close>, which panics for a process without kernel stack or page table.  The clock
  is the result of \<open>rtc_read_time\<close>.
\<close>

section \<open>Colours\<close>

definition titleBarColor :: RGBA where "titleBarColor = \<lparr>aA = 255, aB = 64, aG = 52, aR = 45\<rparr>"
definition dockColor :: RGBA where "dockColor = \<lparr>aA = 255, aB = 42, aG = 35, aR = 30\<rparr>"
definition closeColor :: RGBA where "closeColor = \<lparr>aA = 255, aB = 80, aG = 83, aR = 239\<rparr>"
definition minimizeColor :: RGBA where "minimizeColor = \<lparr>aA = 255, aB = 120, aG = 108, aR = 100\<rparr>"
definition whiteColor :: RGBA where "whiteColor = \<lparr>aA = 255, aB = 255, aG = 255, aR = 255\<rparr>"
definition startBtnColor :: RGBA where "startBtnColor = \<lparr>aA = 255, aB = 245, aG = 135, aR = 66\<rparr>"
definition borderColor :: RGB where "borderColor = \<lparr>cB = 82, cG = 68, cR = 60\<rparr>"

section \<open>Windows\<close>

text \<open>The bytes of a title up to its zero.\<close>

definition c_string :: "char list \<Rightarrow> uchar list" where
  "c_string t = map of_char (takeWhile (\<lambda>c. c \<noteq> CHR 0x00) t)"

abbreviation ignore_width :: "(int \<times> RGB list) option \<Rightarrow> RGB list option" where
  "ignore_width \<equiv> map_option snd"

definition drawWindowBar :: "int \<Rightarrow> int \<Rightarrow> font \<Rightarrow> icons \<Rightarrow> kernel_window \<Rightarrow> RGBA \<Rightarrow> RGB list \<Rightarrow> RGB list option" where
  "drawWindowBar W H font icons win barcolor b =
     (let x0 = xmin (position win); x1 = xmax (position win) + 1;
          y0 = ymin (position win) - TITLE_HEIGHT; y1 = ymin (position win)
      in Option.bind (drawRectByCoord W H x0 y0 (x1 - 2 * TITLE_HEIGHT) y1 barcolor b) (\<lambda>b.
         Option.bind (drawRectByCoord W H (x1 - 2 * TITLE_HEIGHT) y0 (x1 - TITLE_HEIGHT) y1 minimizeColor b) (\<lambda>b.
         Option.bind (drawRectByCoord W H (x1 - TITLE_HEIGHT) y0 x1 y1 closeColor b) (\<lambda>b.
         Option.bind (drawString W H font (x0 + 8) (y0 + 6) (c_string (title win)) whiteColor b) (\<lambda>b.
         Option.bind (ignore_width (drawIcon W H icons (x1 - 2 * TITLE_HEIGHT - 1) (y0 - 1) 1 b)) (\<lambda>b.
         ignore_width (drawIcon W H icons (x1 - TITLE_HEIGHT - 1) (y0 - 1) 0 b)))))))"

definition win_width :: "kernel_window \<Rightarrow> int" where
  "win_width win = xmax (position win) - xmin (position win)"

definition win_height :: "kernel_window \<Rightarrow> int" where
  "win_height win = ymax (position win) - ymin (position win)"

definition drawWindow :: "int \<Rightarrow> int \<Rightarrow> font \<Rightarrow> icons \<Rightarrow> RGB list \<Rightarrow> kernel_window \<Rightarrow> RGB list \<Rightarrow> RGB list option" where
  "drawWindow W H font icons img win b =
     (let width = win_width win; height = win_height win; x = xmin (position win); y = ymin (position win)
      in Option.bind (draw24ImagePart W H img x y width height 0 0 width height b) (\<lambda>b.
         Option.bind (drawRectBorder W H borderColor x y width height b) (\<lambda>b.
         if hasTitleBar win then drawWindowBar W H font icons win titleBarColor b else Some b)))"

section \<open>The dock\<close>

definition two_digits :: "nat \<Rightarrow> uchar list" where
  "two_digits n = [0x30 + of_nat (n div 10), 0x30 + of_nat (n mod 10)]"

definition clock_text :: "nat \<times> nat \<times> nat \<Rightarrow> uchar list" where
  "clock_text time = (case time of (hours, minutes, seconds) \<Rightarrow> two_digits hours @ [0x3A] @ two_digits minutes)"

definition drawClock :: "int \<Rightarrow> int \<Rightarrow> font \<Rightarrow> nat \<times> nat \<times> nat \<Rightarrow> RGB list \<Rightarrow> RGB list option" where
  "drawClock W H font time =
     drawString W H font (W - 10 - 5 * 9 - 15) (H - DOCK_HEIGHT + 10) (clock_text time) whiteColor"

text \<open>\<open>SCREEN_HEIGHT - DOCK_HEIGHT * 0.7\<close> is rounded towards zero.\<close>

definition dock_text_y :: "int \<Rightarrow> int" where
  "dock_text_y H = (10 * H - 7 * DOCK_HEIGHT) sdiv 10"

fun dock_bars :: "int \<Rightarrow> int \<Rightarrow> font \<Rightarrow> wm \<Rightarrow> int \<Rightarrow> int list \<Rightarrow> int \<Rightarrow> RGB list \<Rightarrow> RGB list option" where
  "dock_bars W H font s barWidth [] xStart b = Some b"
| "dock_bars W H font s barWidth (p # ps) xStart b =
     (if p \<noteq> desktopId s then
        Option.bind (drawStringWithMaxWidth W H font (xStart + 5) (dock_text_y H) (barWidth - 2)
          (c_string (title (wnd (slot_at s p)))) whiteColor b) (\<lambda>b.
        Option.bind (drawRectByCoord W H (xStart + barWidth - 2) (H - DOCK_HEIGHT) (xStart + barWidth) H whiteColor b)
          (dock_bars W H font s barWidth ps (xStart + barWidth)))
      else dock_bars W H font s barWidth ps xStart b)"

definition drawDesktopDock :: "int \<Rightarrow> int \<Rightarrow> font \<Rightarrow> icons \<Rightarrow> nat \<times> nat \<times> nat \<Rightarrow> wm \<Rightarrow> RGB list \<Rightarrow> RGB list option" where
  "drawDesktopDock W H font icons time s b =
     Option.bind (drawRectByCoord W H 0 (H - DOCK_HEIGHT) W H dockColor b) (\<lambda>b.
     Option.bind (getWindowCount s) (\<lambda>windowCount.
     Option.bind (drawRectByCoord W H 0 (H - DOCK_HEIGHT) 72 H startBtnColor b) (\<lambda>b.
     Option.bind
       (if windowCount > 0
        then Option.bind (walk (next_of s) (windowlisthead s)) (\<lambda>ps.
          dock_bars W H font s (min ((W - 72 - 10 - 90) sdiv (int windowCount + 1)) 160) ps (72 + 5) b)
        else Some b) (\<lambda>b.
     Option.bind (drawClock W H font time b) (\<lambda>b.
     Option.bind (drawRectByCoord W H (W - 10) (H - DOCK_HEIGHT) W H startBtnColor b) (\<lambda>b.
     ignore_width (drawIcon W H icons (72 div 2 - 15) (H - DOCK_HEIGHT + 3) 2 b)))))))"

section \<open>The screen\<close>

definition shown :: "wm \<Rightarrow> int \<Rightarrow> bool" where
  "shown s p \<longleftrightarrow> p \<noteq> desktopId s \<and> \<not> minimized (wnd (slot_at s p))"

definition drawSlot :: "int \<Rightarrow> int \<Rightarrow> font \<Rightarrow> icons \<Rightarrow> (nat \<Rightarrow> nat \<Rightarrow> RGB list) \<Rightarrow> wm \<Rightarrow> int \<Rightarrow> RGB list \<Rightarrow> RGB list option" where
  "drawSlot W H font icons pixels s p =
     (let e = slot_at s p in drawWindow W H font icons (pixels (wproc e) (window_buf (wnd e))) (wnd e))"

text \<open>Which entries of the process table have a kernel stack and a page table.\<close>

record spaces =
  has_kstack :: "nat \<Rightarrow> bool"
  has_pgdir :: "nat \<Rightarrow> bool"

definition switchuvm :: "spaces \<Rightarrow> nat \<Rightarrow> unit kres" where
  "switchuvm sp p =
     kbind (kguard (has_kstack sp p) ''switchuvm: no kstack'') (\<lambda>_.
     kguard (has_pgdir sp p) ''switchuvm: no pgdir'')"

definition in_space :: "spaces \<Rightarrow> nat \<Rightarrow> (RGB list \<Rightarrow> RGB list option) \<Rightarrow> RGB list \<Rightarrow> RGB list kres option" where
  "in_space sp p draw b = okbind (Some (switchuvm sp p)) (\<lambda>_. map_option Ok (draw b))"

fun draw_others :: "int \<Rightarrow> int \<Rightarrow> font \<Rightarrow> icons \<Rightarrow> spaces \<Rightarrow> (nat \<Rightarrow> nat \<Rightarrow> RGB list) \<Rightarrow> wm \<Rightarrow> int list \<Rightarrow>
    RGB list \<Rightarrow> RGB list kres option" where
  "draw_others W H font icons sp pixels s [] b = Some (Ok b)"
| "draw_others W H font icons sp pixels s (p # ps) b =
     okbind (if shown s p then in_space sp (wproc (slot_at s p)) (drawSlot W H font icons pixels s p) b else Some (Ok b))
       (draw_others W H font icons sp pixels s ps)"

definition draw_popup :: "int \<Rightarrow> int \<Rightarrow> font \<Rightarrow> icons \<Rightarrow> spaces \<Rightarrow> (nat \<Rightarrow> nat \<Rightarrow> RGB list) \<Rightarrow> wm \<Rightarrow> RGB list \<Rightarrow>
    RGB list kres option" where
  "draw_popup W H font icons sp pixels s b =
     (let p = popupwindow s in
      if caller p \<noteq> -1
      then in_space sp (pproc p) (drawWindow W H font icons (pixels (pproc p) (window_buf (pwnd p))) (pwnd p)) b
      else Some (Ok b))"

text \<open>\<open>updateScreen\<close> of the process \<open>me\<close>: the contents of \<open>screen_buf\<close> and of the screen afterwards.
  \<open>None\<close> when a loop does not end or an access is outside of a buffer.\<close>

definition updateScreen ::
    "font \<Rightarrow> icons \<Rightarrow> spaces \<Rightarrow> (nat \<Rightarrow> nat \<Rightarrow> RGB list) \<Rightarrow> nat \<times> nat \<times> nat \<Rightarrow> nat \<Rightarrow> wm \<Rightarrow> RGB list kres option" where
  "updateScreen font icons sp pixels time me s =
     (if desktopId s < 0 \<or> me \<noteq> wproc (slot_at s (desktopId s))
      then Some (Panic ''Update screen called by non desktop process'')
      else
        let W = screen_w s; H = screen_h s;
            white = replicate (nat (W * H)) \<lparr>cB = 255, cG = 255, cR = 255\<rparr>
        in
          okbind (map_option Ok
            (Option.bind (drawSlot W H font icons pixels s (desktopId s) white) (drawDesktopDock W H font icons time s))) (\<lambda>b.
          okbind (map_option Ok (walk (next_of s) (windowlisthead s))) (\<lambda>ps.
          okbind (draw_others W H font icons sp pixels s ps b) (\<lambda>b.
          okbind (draw_popup W H font icons sp pixels s b) (\<lambda>b.
          in_space sp me (drawMouse W H (nat (mouseShape s)) (mouse_x s) (mouse_y s)) b)))))"

section \<open>Every screen can be drawn\<close>

definition above :: "int \<Rightarrow> (int \<times> int) set" where
  "above y = {(px, py). py \<le> y}"

lemma drawWindowBar_touches: "touches W H (above (ymin (position win))) (drawWindowBar W H font icons win barcolor)"
  unfolding drawWindowBar_def Let_def
  by (intro touches_bind touches_mono [OF drawRectByCoord_touches] touches_mono [OF drawString_touches]
        touches_mono [OF drawIcon_touches])
     (auto simp: above_def rectangle_def line_rows_def)

definition image_ok :: "RGB list \<Rightarrow> kernel_window \<Rightarrow> bool" where
  "image_ok img win \<longleftrightarrow> win_height win * win_width win \<le> int (length img)"

definition interior :: "kernel_window \<Rightarrow> (int \<times> int) set" where
  "interior win = {(px, py). xmin (position win) < px \<and> px < xmax (position win) \<and>
     ymin (position win) < py \<and> py < ymax (position win)}"

text \<open>The pixel of a window's rectangle at a place of the screen, for rows of the length the kernel uses.\<close>

abbreviation content :: "RGB list \<Rightarrow> kernel_window \<Rightarrow> int \<Rightarrow> int \<Rightarrow> RGB" where
  "content img win px py \<equiv> pix (win_width win) img (px - xmin (position win)) (py - ymin (position win))"

lemma drawWindow_shows:
  assumes "image_ok img win" "canvas W H b"
  shows "\<exists>b'. drawWindow W H font icons img win b = Some b' \<and> canvas W H b' \<and>
    (\<forall>px py. inside W H px py \<longrightarrow> (px, py) \<in> interior win \<longrightarrow> pix W b' px py = content img win px py)"
proof -
  let ?x = "xmin (position win)" and ?y = "ymin (position win)" and ?w = "win_width win" and ?h = "win_height win"
  have "paints W H (rectangle ?x ?y ?w ?h) (\<lambda>px py _. img ! nat ((py - ?y + 0) * ?w + 0 + (px - ?x)))
      (draw24ImagePart W H img ?x ?y ?w ?h 0 0 ?w ?h)"
    by (rule draw24ImagePart_paints) (use assms(1) in \<open>simp_all add: image_ok_def\<close>)
  then obtain b1 where b1: "draw24ImagePart W H img ?x ?y ?w ?h 0 0 ?w ?h b = Some b1" "canvas W H b1"
    "\<And>px py. inside W H px py \<Longrightarrow> (px, py) \<in> interior win \<Longrightarrow> pix W b1 px py = content img win px py"
    using assms(2) painted_canvas unfolding paints_def painted_def
    by (fastforce simp: interior_def rectangle_def pix_def win_width_def win_height_def canvas_def)
  let ?rest = "\<lambda>b. Option.bind (drawRectBorder W H borderColor ?x ?y ?w ?h b) (\<lambda>b.
    if hasTitleBar win then drawWindowBar W H font icons win titleBarColor b else Some b)"
  have "touches W H (- interior win) ?rest"
  proof (rule touches_bind)
    show "touches W H (- interior win) (drawRectBorder W H borderColor ?x ?y ?w ?h)"
      by (rule touches_mono [OF paints_touches [OF drawRectBorder_paints]])
         (auto simp: border_pixels_def interior_def win_width_def win_height_def)
    have "touches W H (- interior win) (drawWindowBar W H font icons win titleBarColor)"
      by (rule touches_mono [OF drawWindowBar_touches]) (auto simp: above_def interior_def)
    then show "touches W H (- interior win) (\<lambda>b. if hasTitleBar win then drawWindowBar W H font icons win titleBarColor b else Some b)"
      by (cases "hasTitleBar win") (simp_all add: touches_Some)
  qed
  from touchesD [OF this b1(2)] obtain b2 where "?rest b1 = Some b2" "canvas W H b2"
    "\<forall>px py. inside W H px py \<longrightarrow> (px, py) \<in> interior win \<longrightarrow> pix W b2 px py = pix W b1 px py" by blast
  with b1 show ?thesis by (simp add: drawWindow_def Let_def)
qed

lemma drawWindow_touches: "image_ok img win \<Longrightarrow> touches W H UNIV (drawWindow W H font icons img win)"
  by (rule touchesI) (use drawWindow_shows in fastforce)

lemma drawClock_touches: "touches W H UNIV (drawClock W H font time)"
  unfolding drawClock_def by (rule touches_all [OF drawString_touches])

lemma dock_bars_touches: "touches W H UNIV (dock_bars W H font s barWidth ps xStart)"
proof (induction ps arbitrary: xStart)
  case Nil
  then show ?case by (simp add: touches_def)
next
  case (Cons p ps)
  have "touches W H UNIV (\<lambda>b. Option.bind (drawStringWithMaxWidth W H font (xStart + 5) (dock_text_y H) (barWidth - 2)
          (c_string (title (wnd (slot_at s p)))) whiteColor b) (\<lambda>b.
        Option.bind (drawRectByCoord W H (xStart + barWidth - 2) (H - DOCK_HEIGHT) (xStart + barWidth) H whiteColor b)
          (dock_bars W H font s barWidth ps (xStart + barWidth))))"
    by (intro touches_bind Cons touches_all [OF drawStringWithMaxWidth_touches] touches_all [OF drawRectByCoord_touches])
  with Cons show ?case by (cases "p = desktopId s") (simp_all add: touches_def)
qed

lemma drawDesktopDock_touches:
  assumes "stack s ws"
  shows "touches W H UNIV (drawDesktopDock W H font icons time s)"
proof -
  note walk = walk_windows [OF assms]
  obtain n where n: "getWindowCount s = Some n" by (simp add: getWindowCount_def walk)
  let ?bars = "\<lambda>b. if n > 0 then dock_bars W H font s (min ((W - 72 - 10 - 90) sdiv (int n + 1)) 160) (map int ws) (72 + 5) b else Some b"
  have "touches W H UNIV ?bars" using dock_bars_touches by (cases "n > 0") (simp_all add: touches_Some)
  then have "touches W H UNIV (\<lambda>b. Option.bind (drawRectByCoord W H 0 (H - DOCK_HEIGHT) W H dockColor b) (\<lambda>b.
     Option.bind (drawRectByCoord W H 0 (H - DOCK_HEIGHT) 72 H startBtnColor b) (\<lambda>b.
     Option.bind (?bars b) (\<lambda>b.
     Option.bind (drawClock W H font time b) (\<lambda>b.
     Option.bind (drawRectByCoord W H (W - 10) (H - DOCK_HEIGHT) W H startBtnColor b) (\<lambda>b.
     ignore_width (drawIcon W H icons (72 div 2 - 15) (H - DOCK_HEIGHT + 3) 2 b)))))))"
    by (intro touches_bind touches_all [OF drawRectByCoord_touches] drawClock_touches touches_all [OF drawIcon_touches])
  then show ?thesis unfolding drawDesktopDock_def [abs_def] n walk Option.bind.simps .
qed

definition slot_image :: "(nat \<Rightarrow> nat \<Rightarrow> RGB list) \<Rightarrow> wslot \<Rightarrow> RGB list" where
  "slot_image pixels e = pixels (wproc e) (window_buf (wnd e))"

text \<open>Every open window, the desktop's and the popup window has a buffer as large as its rectangle.\<close>

definition images_ok :: "(nat \<Rightarrow> nat \<Rightarrow> RGB list) \<Rightarrow> wm \<Rightarrow> nat list \<Rightarrow> bool" where
  "images_ok pixels s ws \<longleftrightarrow>
     (\<forall>p\<in>set ws. image_ok (slot_image pixels (slot_at s (int p))) (wnd (slot_at s (int p)))) \<and>
     image_ok (slot_image pixels (slot_at s (desktopId s))) (wnd (slot_at s (desktopId s))) \<and>
     (caller (popupwindow s) \<noteq> -1 \<longrightarrow>
       image_ok (pixels (pproc (popupwindow s)) (window_buf (pwnd (popupwindow s)))) (pwnd (popupwindow s)))"

text \<open>Every process whose window is drawn can be switched to.\<close>

definition can_switch :: "spaces \<Rightarrow> nat \<Rightarrow> bool" where
  "can_switch sp p \<longleftrightarrow> has_kstack sp p \<and> has_pgdir sp p"

definition owners_alive :: "spaces \<Rightarrow> wm \<Rightarrow> nat list \<Rightarrow> bool" where
  "owners_alive sp s ws \<longleftrightarrow>
     (\<forall>p\<in>set ws. shown s (int p) \<longrightarrow> can_switch sp (wproc (slot_at s (int p)))) \<and>
     (caller (popupwindow s) \<noteq> -1 \<longrightarrow> can_switch sp (pproc (popupwindow s)))"

lemma in_space_alive: "can_switch sp p \<Longrightarrow> in_space sp p draw b = map_option Ok (draw b)"
  by (simp add: can_switch_def in_space_def switchuvm_def kguard_def)

lemma in_space_dead: "\<not> can_switch sp p \<Longrightarrow> \<exists>msg. in_space sp p draw b = Some (Panic msg)"
  by (auto simp: can_switch_def in_space_def switchuvm_def kguard_def)

lemma drawSlot_eq: "drawSlot W H font icons pixels s p =
    drawWindow W H font icons (slot_image pixels (slot_at s p)) (wnd (slot_at s p))"
  by (simp add: drawSlot_def slot_image_def Let_def)

text \<open>\<open>drawn W H ok r\<close>: a screen when \<open>ok\<close>, a panic otherwise.\<close>

definition drawn :: "int \<Rightarrow> int \<Rightarrow> bool \<Rightarrow> RGB list kres option \<Rightarrow> bool" where
  "drawn W H ok r \<longleftrightarrow> (if ok then \<exists>b. r = Some (Ok b) \<and> canvas W H b else \<exists>msg. r = Some (Panic msg))"

lemma drawn_bind:
  assumes "drawn W H p r" "\<And>b. r = Some (Ok b) \<Longrightarrow> canvas W H b \<Longrightarrow> drawn W H q (f b)"
  shows "drawn W H (p \<and> q) (okbind r f)"
  using assms by (auto simp: drawn_def split: if_splits)

lemma drawn_touches: "touches W H S m \<Longrightarrow> canvas W H b \<Longrightarrow> drawn W H True (map_option Ok (m b))"
  using touchesD by (fastforce simp: drawn_def)

lemma drawn_in_space: "touches W H S m \<Longrightarrow> canvas W H b \<Longrightarrow> drawn W H (can_switch sp p) (in_space sp p m b)"
  using drawn_touches [of W H S m b] in_space_dead [of sp p m b]
  by (cases "can_switch sp p") (simp_all add: in_space_alive drawn_def)

lemma draw_others_drawn:
  assumes "\<forall>p\<in>set ps. image_ok (slot_image pixels (slot_at s p)) (wnd (slot_at s p))" "canvas W H b"
  shows "drawn W H (\<forall>p\<in>set ps. shown s p \<longrightarrow> can_switch sp (wproc (slot_at s p)))
    (draw_others W H font icons sp pixels s ps b)"
  using assms
proof (induction ps arbitrary: b)
  case Nil
  then show ?case by (simp add: drawn_def)
next
  case (Cons p ps)
  have "touches W H UNIV (drawSlot W H font icons pixels s p)"
    using Cons.prems(1) drawWindow_touches by (simp add: drawSlot_eq)
  from drawn_in_space [OF this Cons.prems(2)] have "drawn W H (shown s p \<longrightarrow> can_switch sp (wproc (slot_at s p)))
      (if shown s p then in_space sp (wproc (slot_at s p)) (drawSlot W H font icons pixels s p) b else Some (Ok b))"
    using Cons.prems(2) by (auto simp: drawn_def)
  from drawn_bind [OF this, of "\<forall>p\<in>set ps. shown s p \<longrightarrow> can_switch sp (wproc (slot_at s p))"
      "draw_others W H font icons sp pixels s ps"] Cons
  show ?case by simp
qed

lemma okbind_assoc: "okbind (okbind m f) g = okbind m (\<lambda>x. okbind (f x) g)"
  by (cases "(m, f)" rule: okbind.cases) simp_all

lemma draw_others_append:
  "draw_others W H font icons sp pixels s (ps @ qs) =
     (\<lambda>b. okbind (draw_others W H font icons sp pixels s ps b) (draw_others W H font icons sp pixels s qs))"
proof (induction ps)
  case (Cons p ps)
  show ?case by (rule ext) (simp add: okbind_assoc Cons.IH)
qed (simp add: fun_eq_iff)

lemma draw_popup_drawn:
  assumes "images_ok pixels s ws" "canvas W H b"
  shows "drawn W H (caller (popupwindow s) \<noteq> -1 \<longrightarrow> can_switch sp (pproc (popupwindow s)))
    (draw_popup W H font icons sp pixels s b)"
proof (cases "caller (popupwindow s) = -1")
  case True
  then show ?thesis using assms(2) by (simp add: draw_popup_def drawn_def)
next
  case False
  then have "touches W H UNIV (drawWindow W H font icons
      (pixels (pproc (popupwindow s)) (window_buf (pwnd (popupwindow s)))) (pwnd (popupwindow s)))"
    using assms(1) by (intro drawWindow_touches) (simp add: images_ok_def)
  from drawn_in_space [OF this assms(2)] False show ?thesis by (simp add: draw_popup_def Let_def)
qed

lemma drawMouse_touches: "touches W H (pointer_pixels mode x y) (drawMouse W H mode x y)"
  by (rule paints_touches [OF drawMouse_paints])

definition blank_screen :: "int \<Rightarrow> int \<Rightarrow> RGB list" where
  "blank_screen W H = replicate (nat (W * H)) \<lparr>cB = 255, cG = 255, cR = 255\<rparr>"

lemma canvas_blank: "0 \<le> W \<Longrightarrow> 0 \<le> H \<Longrightarrow> canvas W H (blank_screen W H)"
  by (simp add: canvas_def blank_screen_def)

text \<open>The desktop, the dock and the windows \<open>ps\<close>, before the popup window and the pointer.\<close>

definition desktop_drawn ::
    "font \<Rightarrow> icons \<Rightarrow> spaces \<Rightarrow> (nat \<Rightarrow> nat \<Rightarrow> RGB list) \<Rightarrow> nat \<times> nat \<times> nat \<Rightarrow> wm \<Rightarrow> nat list \<Rightarrow> RGB list kres option" where
  "desktop_drawn font icons sp pixels time s ps =
     okbind (map_option Ok
       (Option.bind (drawSlot (screen_w s) (screen_h s) font icons pixels s (desktopId s) (blank_screen (screen_w s) (screen_h s)))
         (drawDesktopDock (screen_w s) (screen_h s) font icons time s)))
       (draw_others (screen_w s) (screen_h s) font icons sp pixels s (map int ps))"

lemma updateScreen_eq:
  assumes "stack s ws" "desktopId s = int d" "me = wproc (slot_at s (desktopId s))"
  shows "updateScreen font icons sp pixels time me s =
    okbind (desktop_drawn font icons sp pixels time s ws) (\<lambda>b.
    okbind (draw_popup (screen_w s) (screen_h s) font icons sp pixels s b)
      (in_space sp me (drawMouse (screen_w s) (screen_h s) (nat (mouseShape s)) (mouse_x s) (mouse_y s))))"
  using assms(2,3)
  by (simp add: updateScreen_def Let_def walk_windows [OF assms(1)] desktop_drawn_def blank_screen_def okbind_assoc)

lemma desktop_drawn_append:
  "desktop_drawn font icons sp pixels time s (ps @ qs) = okbind (desktop_drawn font icons sp pixels time s ps)
     (draw_others (screen_w s) (screen_h s) font icons sp pixels s (map int qs))"
  by (simp add: desktop_drawn_def draw_others_append okbind_assoc)

lemma desktop_drawn_ok:
  assumes "stack s ws" "images_ok pixels s ws" "set ps \<subseteq> set ws" "0 \<le> screen_w s" "0 \<le> screen_h s"
  shows "drawn (screen_w s) (screen_h s) (\<forall>p\<in>set ps. shown s (int p) \<longrightarrow> can_switch sp (wproc (slot_at s (int p))))
    (desktop_drawn font icons sp pixels time s ps)"
proof -
  let ?W = "screen_w s" and ?H = "screen_h s"
  have "touches ?W ?H UNIV (\<lambda>b. Option.bind (drawSlot ?W ?H font icons pixels s (desktopId s) b)
     (drawDesktopDock ?W ?H font icons time s))"
    using assms(2) by (intro touches_bind drawDesktopDock_touches [OF assms(1)])
      (auto simp: drawSlot_eq images_ok_def intro!: drawWindow_touches)
  note 1 = drawn_touches [OF this canvas_blank [OF assms(4,5)]]
  have img: "\<forall>p\<in>set (map int ps). image_ok (slot_image pixels (slot_at s p)) (wnd (slot_at s p))"
    using assms(2,3) by (auto simp: images_ok_def)
  have "drawn ?W ?H (True \<and> (\<forall>p\<in>set (map int ps). shown s p \<longrightarrow> can_switch sp (wproc (slot_at s p))))
      (desktop_drawn font icons sp pixels time s ps)"
    unfolding desktop_drawn_def by (rule drawn_bind [OF 1 draw_others_drawn [OF img]])
  then show ?thesis by simp
qed

lemma updateScreen_result:
  assumes "wm_reach s" "stack s ws" "images_ok pixels s ws" "me = wproc (slot_at s (desktopId s))" "can_switch sp me"
  shows "if owners_alive sp s ws
    then \<exists>b. updateScreen font icons sp pixels time me s = Some (Ok b) \<and> canvas (screen_w s) (screen_h s) b
    else \<exists>msg. updateScreen font icons sp pixels time me s = Some (Panic msg)"
proof -
  let ?W = "screen_w s" and ?H = "screen_h s"
  obtain d where d: "desktopId s = int d" and WH: "0 \<le> ?W" "0 \<le> ?H"
    using wm_reach_desk [OF assms(1)] by (auto simp: desk_def)
  have "drawn ?W ?H (can_switch sp me) (in_space sp me (drawMouse ?W ?H (nat (mouseShape s)) (mouse_x s) (mouse_y s)) b)"
    if "canvas ?W ?H b" for b by (rule drawn_in_space [OF drawMouse_touches that])
  then have "drawn ?W ?H ((\<forall>p\<in>set ws. shown s (int p) \<longrightarrow> can_switch sp (wproc (slot_at s (int p)))) \<and>
      (caller (popupwindow s) \<noteq> -1 \<longrightarrow> can_switch sp (pproc (popupwindow s))) \<and> can_switch sp me)
      (updateScreen font icons sp pixels time me s)"
    unfolding updateScreen_eq [OF assms(2) d assms(4)]
    by (intro drawn_bind [OF desktop_drawn_ok [OF assms(2,3) order_refl WH]] drawn_bind [OF draw_popup_drawn [OF assms(3)]])
  then show ?thesis using assms(5) by (simp add: drawn_def owners_alive_def cong: if_cong)
qed

text \<open>C24: In every state the window manager reaches without closing the window at the bottom (which makes the
  traversal endless, as \<open>wm_always_handles\<close> says), with buffers at least as large as the rectangles of the
  windows, \<open>updateScreen\<close> called by the running desktop ends, whatever the positions of windows, popup and pointer and the
  titles are, without an access outside of a buffer: with a whole screen when the owners of all
  windows it draws still have a kernel stack and a page table, with the panic of \<open>switchuvm\<close> otherwise.\<close>

theorem screen_always_drawn:
  assumes "wm_reach s" "stack s ws" "images_ok pixels s ws" "me = wproc (slot_at s (desktopId s))" "can_switch sp me"
  shows "if owners_alive sp s ws
    then \<exists>b. updateScreen font icons sp pixels time me s = Some (Ok b) \<and> canvas (screen_w s) (screen_h s) b
    else \<exists>msg. updateScreen font icons sp pixels time me s = Some (Panic msg)"
  using assms by (rule updateScreen_result)

text \<open>C36: The focused window is entirely visible: in every state that the window manager reaches without closing the bottom window, with buffers as large as the windows, while no popup window is open and
  the owners of the drawn windows are alive, every pixel inside of the window on top of the stack, when it is neither minimized nor the
  desktop, up to the pointer, shows the pixel its program has drawn at that place of its own buffer, whose rows are
  \<open>BW\<close> pixels long, whatever other windows are open.  The window's rectangle has the width of the buffer; every
  window the window manager places has, except one of odd width that it moves to the middle of the
  screen (\<open>placed_width\<close>, \<open>odd_width_sheared\<close>).\<close>

theorem focused_window_visible:
  assumes "wm_reach s" "stack s (ws @ [v])" "images_ok pixels s (ws @ [v])" "owners_alive sp s (ws @ [v])"
    and "me = wproc (slot_at s (desktopId s))" "can_switch sp me"
    and "shown s (int v)" "caller (popupwindow s) = -1" and "win = wnd (slot_at s (int v))" "win_width win = BW"
    and "inside (screen_w s) (screen_h s) px py" "(px, py) \<in> interior win"
    and "(px, py) \<notin> pointer_pixels (nat (mouseShape s)) (mouse_x s) (mouse_y s)"
  shows "\<exists>b. updateScreen font icons sp pixels time me s = Some (Ok b) \<and>
    pix (screen_w s) b px py =
      pix BW (pixels (wproc (slot_at s (int v))) (window_buf win)) (px - xmin (position win)) (py - ymin (position win))"
proof -
  let ?W = "screen_w s" and ?H = "screen_h s" and ?img = "slot_image pixels (slot_at s (int v))"
  obtain d where d: "desktopId s = int d" and WH: "0 \<le> ?W" "0 \<le> ?H"
    using wm_reach_desk [OF assms(1)] by (auto simp: desk_def)
  have "drawn ?W ?H (\<forall>p\<in>set ws. shown s (int p) \<longrightarrow> can_switch sp (wproc (slot_at s (int p))))
      (desktop_drawn font icons sp pixels time s ws)"
    by (rule desktop_drawn_ok [OF assms(2,3) _ WH]) auto
  then obtain b where b: "desktop_drawn font icons sp pixels time s ws = Some (Ok b)" "canvas ?W ?H b"
    using assms(4) by (auto simp: drawn_def owners_alive_def split: if_splits)
  have "image_ok ?img win" using assms(3,9) by (simp add: images_ok_def)
  from drawWindow_shows [OF this b(2), of font icons] obtain b1 where b1:
    "drawSlot ?W ?H font icons pixels s (int v) b = Some b1" "canvas ?W ?H b1" "pix ?W b1 px py = content ?img win px py"
    using assms(9,11,12) by (auto simp: drawSlot_eq)
  have "can_switch sp (wproc (slot_at s (int v)))" using assms(4,7) by (simp add: owners_alive_def)
  then have "desktop_drawn font icons sp pixels time s (ws @ [v]) = Some (Ok b1)"
    using b(1) b1(1) assms(7) by (simp add: desktop_drawn_append in_space_alive)
  moreover have "draw_popup ?W ?H font icons sp pixels s b1 = Some (Ok b1)" using assms(8) by (simp add: draw_popup_def Let_def)
  moreover from touchesD [OF drawMouse_touches b1(2)] obtain b2 where
    "drawMouse ?W ?H (nat (mouseShape s)) (mouse_x s) (mouse_y s) b1 = Some b2" "pix ?W b2 px py = pix ?W b1 px py"
    using assms(11,13) by blast
  ultimately show ?thesis using assms(6,9,10) b1(3)
    by (simp add: updateScreen_eq [OF assms(2) d assms(5)] in_space_alive slot_image_def)
qed

section \<open>Witnesses\<close>

lemma addToWindowList_frame:
  "length (windowlist (addToWindowList p s)) = length (windowlist s)"
  "screen_w (addToWindowList p s) = screen_w s" "screen_h (addToWindowList p s) = screen_h s"
  by (simp_all add: addToWindowList_def Let_def upd_slot_def)

lemma initial_position_cong:
  "screen_w s' = screen_w s \<Longrightarrow> screen_h s' = screen_h s \<Longrightarrow> initial_position s' w = initial_position s w"
  by (simp add: initial_position_def fits_screen_def Let_def)

lemma createWindow_fresh:
  assumes "createWindow pid w t s = (0, w', s')" "a_handler w' = int u" "u < length (windowlist s)"
  shows "minimized (wnd (slot_at s' (int u))) = False" "position (wnd (slot_at s' (int u))) = initial_position s w"
proof -
  let ?id = "findNextAvailableWindowId s"
  define s2 where "s2 = addToWindowList ?id (if windowlisthead s = -1 then s\<lparr>windowlisthead := ?id\<rparr> else s)"
  define s3 where "s3 = (if desktopId s2 = -1 then s2\<lparr>desktopId := ?id\<rparr> else s2)"
  have "?id \<noteq> -1" using assms(1) by (simp add: createWindow_def Let_def split: if_splits)
  with assms(1) have w: "w' = w\<lparr>a_handler := ?id\<rparr>" "s' = upd_slot ?id (init_window pid w t (initial_position s3 w)) s3"
    unfolding createWindow_def Let_def s2_def [symmetric] s3_def [symmetric] by auto
  then have id: "?id = int u" using assms(2) by simp
  have "length (windowlist s3) = length (windowlist s)" "screen_w s3 = screen_w s" "screen_h s3 = screen_h s"
    by (simp_all add: s3_def s2_def addToWindowList_frame)
  moreover from this have "initial_position s3 w = initial_position s w" by (intro initial_position_cong)
  ultimately have "slot_at s' (int u) = init_window pid w t (initial_position s w) (slot_at s3 (int u))"
    using assms(3) by (simp add: w id slot_at_def upd_slot_def)
  then show "minimized (wnd (slot_at s' (int u))) = False" "position (wnd (slot_at s' (int u))) = initial_position s w"
    by (simp_all add: init_window_def)
qed

text \<open>A desktop and a window over it.\<close>

lemma demo_screen:
  "\<exists>s v u. wm_reach s \<and> stack s [v, u] \<and> caller (popupwindow s) = -1 \<and> shown s (int u) \<and>
     position (wnd (slot_at s (int u))) = createRectByCoord 100 100 300 200 \<and>
     screen_w s = 800 \<and> screen_h s = 600 \<and> mouse_x s = 400 \<and> mouse_y s = 300"
proof -
  have st0: "stack (wmInit blank_wm) []" by (rule wmInit_stack) (simp add: blank_wm_def)
  have init: "caller (popupwindow (wmInit blank_wm)) = -1" "screen_w (wmInit blank_wm) = 800" "screen_h (wmInit blank_wm) = 600"
    "mouse_x (wmInit blank_wm) = 400" "mouse_y (wmInit blank_wm) = 300" "desktopId (wmInit blank_wm) = -1"
    by (simp_all add: wmInit_def Let_def blank_wm_def)
  obtain r1 w1 s1 where c1: "createWindow 1 demo_arg ''desktop'' (wmInit blank_wm) = (r1, w1, s1)"
    by (metis prod_cases3)
  obtain v where v: "stack s1 [v]" "desktopId s1 = int v"
    using create_stack [OF st0, where pid = 1 and w = demo_arg and t = "''desktop''"] c1 init by auto
  have r1: "wm_reach s1"
    by (rule wm_start [OF _ _ _ _ c1]) (simp_all add: blank_wm_def)
  obtain r2 w2 s2 where c2: "createWindow 2 demo_arg ''editor'' s1 = (r2, w2, s2)"
    by (metis prod_cases3)
  obtain u where u: "r2 = 0" "stack s2 [v, u]" "a_handler w2 = int u" "u \<noteq> v" "u < MAX_WINDOW_CNT" "desktopId s2 = int v"
    using create_stack [OF v(1), where pid = 2 and w = demo_arg and t = "''editor''"] c2 v(2) by auto
  note fresh = createWindow_fresh [OF c2 [unfolded u(1)] u(3)]
  have s1: "screen_w s1 = 800" "screen_h s1 = 600" using createWindow_frame [OF c1] init by simp_all
  have "wm_reach s2" by (rule wm_more [OF r1 on_create [OF c2]])
  moreover have "caller (popupwindow s2) = -1"
    using createWindow_popup [OF c1] createWindow_popup [OF c2] init by simp
  moreover have "u < length (windowlist s1)" using u(5) stackD(1) [OF v(1)] by simp
  note f = fresh [OF this]
  moreover have "shown s2 (int u)" using f(1) u(4,6) by (simp add: shown_def)
  moreover have "position (wnd (slot_at s2 (int u))) = createRectByCoord 100 100 300 200"
    using f(2) s1 by (simp add: initial_position_def fits_screen_def demo_arg_def createRectByCoord_def)
  moreover have "screen_w s2 = 800" "screen_h s2 = 600" "mouse_x s2 = 400" "mouse_y s2 = 300"
    using createWindow_frame [OF c1] createWindow_frame [OF c2] init by simp_all
  ultimately show ?thesis using u(2) by blast
qed

lemma enough_pixels: "wm_reach s \<Longrightarrow> caller (popupwindow s) = -1 \<Longrightarrow> \<exists>pixels. images_ok pixels s ws"
proof -
  assume r: "wm_reach s" and c: "caller (popupwindow s) = -1"
  let ?n = "\<lambda>p. win_height (wnd (slot_at s p)) * win_width (wnd (slot_at s p))"
  let ?S = "insert (desktopId s) (int ` set ws)"
  define N where "N = (\<Sum>p\<in>?S. nat (?n p))"
  have "?n p \<le> int N" if "p \<in> ?S" for p
  proof -
    have "nat (?n p) \<le> N" unfolding N_def using that by (intro member_le_sum) simp_all
    then show ?thesis by linarith
  qed
  then have "images_ok (\<lambda>_ _. replicate N \<lparr>cB = 0, cG = 0, cR = 0\<rparr>) s ws"
    using c by (simp add: images_ok_def image_ok_def slot_image_def)
  then show ?thesis by blast
qed

abbreviation all_alive :: spaces where
  "all_alive \<equiv> \<lparr>has_kstack = \<lambda>_. True, has_pgdir = \<lambda>_. True\<rparr>"

theorem screen_always_drawn_witness:
  "\<exists>s pixels me b. wm_reach s \<and> updateScreen (\<lambda>_ _ _. 0) (\<lambda>_ _. 0) all_alive pixels (12, 30, 0) me s = Some (Ok b) \<and> canvas 800 600 b"
proof -
  obtain s v u where s: "wm_reach s" "stack s [v, u]" "caller (popupwindow s) = -1" "screen_w s = 800" "screen_h s = 600"
    using demo_screen by blast
  obtain pixels where "images_ok pixels s [v, u]" using enough_pixels [OF s(1,3)] by blast
  from screen_always_drawn [OF s(1,2) this refl, of all_alive "\<lambda>_ _ _. 0" "\<lambda>_ _. 0" "(12, 30, 0)"] s
  show ?thesis by (auto simp: owners_alive_def can_switch_def)
qed

theorem focused_window_visible_witness:
  "\<exists>s u pixels me b. wm_reach s \<and> updateScreen (\<lambda>_ _ _. 0) (\<lambda>_ _. 0) all_alive pixels (12, 30, 0) me s = Some (Ok b) \<and>
     pix 800 b 150 150 = pix 200 (pixels (wproc (slot_at s u)) (window_buf (wnd (slot_at s u)))) 50 50"
proof -
  obtain s v u where s: "wm_reach s" "stack s ([v] @ [u])" "caller (popupwindow s) = -1" "shown s (int u)"
    "position (wnd (slot_at s (int u))) = createRectByCoord 100 100 300 200"
    "screen_w s = 800" "screen_h s = 600" "mouse_x s = 400" "mouse_y s = 300"
    using demo_screen by auto
  obtain pixels where p: "images_ok pixels s ([v] @ [u])" using enough_pixels [OF s(1,3)] by blast
  let ?win = "wnd (slot_at s (int u))"
  have "\<exists>b. updateScreen (\<lambda>_ _ _. 0) (\<lambda>_ _. 0) all_alive pixels (12, 30, 0) (wproc (slot_at s (desktopId s))) s = Some (Ok b) \<and>
    pix (screen_w s) b 150 150 =
      pix 200 (pixels (wproc (slot_at s (int u))) (window_buf ?win)) (150 - xmin (position ?win)) (150 - ymin (position ?win))"
    by (rule focused_window_visible [OF s(1,2) p _ refl _ s(4,3) refl])
       (use s in \<open>auto simp: inside_def interior_def createRectByCoord_def pointer_pixels_def owners_alive_def
         can_switch_def win_width_def\<close>)
  then obtain b where "updateScreen (\<lambda>_ _ _. 0) (\<lambda>_ _. 0) all_alive pixels (12, 30, 0) (wproc (slot_at s (desktopId s))) s = Some (Ok b)"
    "pix 800 b 150 150 = pix 200 (pixels (wproc (slot_at s (int u))) (window_buf ?win)) 50 50"
    using s(5,6) by (auto simp: createRectByCoord_def)
  then show ?thesis using s(1) by blast
qed

section \<open>Windows of odd width\<close>

text \<open>The rectangle of a window has the width of its buffer when the program's rectangle fits the screen or the
  width is even.\<close>

lemma placed_width:
  assumes "fits_screen s w \<or> (\<exists>n\<ge>0. a_width w = 2 * n)" "position win = initial_position s w"
  shows "win_width win = a_width w"
proof (cases "fits_screen s w")
  case True
  then show ?thesis using assms(2)
    by (simp add: initial_position_def win_width_def createRectByCoord_def fits_screen_def Let_def)
next
  case False
  then obtain n where n: "0 \<le> n" "a_width w = 2 * n" using assms(1) by blast
  then have "a_width w sdiv 2 = n" by (cases "n = 0") (simp_all add: signed_divide_int_def sgn_if)
  then show ?thesis using False assms(2) n(2) by (simp add: initial_position_def win_width_def createRectByCoord_def Let_def)
qed

text \<open>A window that is placed in the middle of the screen gets a rectangle of twice half its width.  For an odd width
  \<open>drawWindow\<close> takes the rows of the buffer to be one pixel shorter than they are: row \<open>i\<close> appears shifted
  by \<open>i\<close> pixels.\<close>

lemma odd_width_sheared:
  assumes "\<not> fits_screen s w" "a_width w = 2 * n + 1" "0 \<le> n" "position win = initial_position s w"
  shows "win_width win = a_width w - 1"
    "content img win (xmin (position win)) (ymin (position win) + i) = img ! nat (i * a_width w - i)"
proof -
  have "a_width w sdiv 2 = n" using assms(2,3) by (simp add: signed_divide_int_def)
  then show w: "win_width win = a_width w - 1"
    using assms by (simp add: initial_position_def win_width_def createRectByCoord_def Let_def)
  show "content img win (xmin (position win)) (ymin (position win) + i) = img ! nat (i * a_width w - i)"
    by (simp add: pix_def w algebra_simps)
qed

text \<open>A program that has died with its window open stops the system at the next redraw: \<open>switchuvm\<close> panics
  for its entry of the process table.\<close>

lemma dead_owner_panics:
  assumes "wm_reach s" "stack s ws" "images_ok pixels s ws" "v \<in> set ws" "shown s (int v)"
    and "\<not> has_kstack sp (wproc (slot_at s (int v)))" "can_switch sp (wproc (slot_at s (desktopId s)))"
  shows "\<exists>msg. updateScreen font icons sp pixels time (wproc (slot_at s (desktopId s))) s = Some (Panic msg)"
proof -
  have "\<not> owners_alive sp s ws" using assms(4-6) by (auto simp: owners_alive_def can_switch_def)
  then show ?thesis
    using updateScreen_result [OF assms(1-3) refl assms(7), of font icons time] by simp
qed

section \<open>The dock\<close>

text \<open>The bars of the dock are drawn with 90 pixels left free for the clock, which \<open>handleDesktopDockClick\<close>
  does not take into account: with four windows on a screen of 800 pixels, a click on the second bar, which is drawn
  from column 202 on, goes to the first window.\<close>

lemma dock_click_misses:
  assumes "p \<noteq> -1" "p \<noteq> d"
  shows "dock_hit nxt d 210 (min ((800 - 72 - 10) sdiv (4 + 1)) 160) 77 p = Some p"
    and "77 + min ((800 - 72 - 10 - 90) sdiv (4 + 1)) 160 < (210 :: int)"
  using assms by (simp_all add: dock_hit.simps [of nxt d 210] signed_divide_int_def)

end
