(* ===== verification/UserGui.thy ===== *)
theory UserGui
  imports Gui
begin

text \<open>
  The drawing routines of the programs, \<open>user/user_gui.c\<close>, on the buffer of a window of \<open>W\<close> times \<open>H\<close>
  pixels.  The library repeats the names of the kernel; here they carry the prefix \<open>u_\<close>.  The theorems give
  the pixels that each routine changes; a routine whose contract needs more than the coordinates allow writes
  outside of the buffer, as the lemmas of the last section show.
\<close>

section \<open>Operations\<close>

definition fillRect :: "int \<Rightarrow> int \<Rightarrow> int \<Rightarrow> int \<Rightarrow> int \<Rightarrow> int \<Rightarrow> RGBA \<Rightarrow> RGB list \<Rightarrow> RGB list option" where
  "fillRect x y width height max_x max_y fill b =
     (if max_x \<le> x \<or> max_y \<le> y \<or> x + width \<le> 0 \<or> y + height \<le> 0 then Some b
      else
        let start_x = (if x < 0 then 0 else x); start_y = (if y < 0 then 0 else y);
            end_x = (if max_x < x + width then max_x else x + width);
            end_y = (if max_y < y + height then max_y else y + height)
        in if aA fill = 255
           then each (\<lambda>i. each (\<lambda>j. at_pixel (i * max_x + start_x + (j - start_x)) (\<lambda>_. solid fill)) [start_x..end_x - 1])
             [start_y..end_y - 1] b
           else each (\<lambda>i. each (\<lambda>j. at_pixel (i * max_x + j) (drawPointAlpha fill)) [start_x..end_x - 1])
             [start_y..end_y - 1] b)"

definition u_drawCharacter :: "font \<Rightarrow> int \<Rightarrow> int \<Rightarrow> uchar \<Rightarrow> RGBA \<Rightarrow> int \<Rightarrow> int \<Rightarrow> RGB list \<Rightarrow> (int \<times> RGB list) option" where
  "u_drawCharacter font x y ch color W H b =
     (if unprintable ch then Some (-1, b)
      else if W \<le> x \<or> H \<le> y \<or> x + CHARACTER_WIDTH \<le> 0 \<or> y + CHARACTER_HEIGHT \<le> 0 then Some (CHARACTER_WIDTH, b)
      else map_option (Pair CHARACTER_WIDTH)
        (each (\<lambda>i b.
           if H \<le> y + i \<or> y + i < 0 then Some b
           else each (\<lambda>j b.
             if W \<le> x + j \<or> x + j < 0 then Some b
             else if 0 < font (char_ord ch) i j then
               at_pixel ((y + i) * W + (x + j)) (drawPointAlpha (smooth color (font (char_ord ch) i j))) b
             else Some b) [0..CHARACTER_WIDTH - 1] b) [0..CHARACTER_HEIGHT - 1] b))"

text \<open>The result of \<open>drawCharacter\<close> is not used.  The text is broken at the right edge of its box.\<close>

fun u_drawString_loop :: "font \<Rightarrow> int \<Rightarrow> int \<Rightarrow> uchar list \<Rightarrow> RGBA \<Rightarrow> int \<Rightarrow> int \<Rightarrow> int \<Rightarrow> int \<Rightarrow> int \<Rightarrow> int \<Rightarrow> RGB list \<Rightarrow> RGB list option" where
  "u_drawString_loop font W H [] color x y width height offset_x offset_y b = Some b"
| "u_drawString_loop font W H (ch # str) color x y width height offset_x offset_y b =
     (if height < offset_y + CHARACTER_HEIGHT then Some b
      else if ch \<noteq> 0x0A then
        Option.bind
          (if offset_x + CHARACTER_WIDTH \<le> width
           then map_option snd (u_drawCharacter font (x + offset_x) (y + offset_y) ch color W H b) else Some b)
          (if width < offset_x + CHARACTER_WIDTH + CHARACTER_WIDTH
           then u_drawString_loop font W H str color x y width height 0 (offset_y + CHARACTER_HEIGHT)
           else u_drawString_loop font W H str color x y width height (offset_x + CHARACTER_WIDTH) offset_y)
      else u_drawString_loop font W H str color x y width height 0 (offset_y + CHARACTER_HEIGHT) b)"

definition u_drawString :: "font \<Rightarrow> int \<Rightarrow> int \<Rightarrow> uchar list \<Rightarrow> RGBA \<Rightarrow> int \<Rightarrow> int \<Rightarrow> int \<Rightarrow> int \<Rightarrow> RGB list \<Rightarrow> RGB list option" where
  "u_drawString font W H str color x y width height = u_drawString_loop font W H str color x y width height 0 0"

definition u_drawImage :: "int \<Rightarrow> int \<Rightarrow> RGBA list \<Rightarrow> int \<Rightarrow> int \<Rightarrow> int \<Rightarrow> int \<Rightarrow> RGB list \<Rightarrow> RGB list option" where
  "u_drawImage W H img x y width height b =
     (if W \<le> x \<or> H \<le> y \<or> x + width \<le> 0 \<or> y + height \<le> 0 then Some b
      else
        let start_y = (if y < 0 then - y else 0); start_x = (if x < 0 then - x else 0);
            end_y = (if H < y + height then H - y else height); end_x = (if W < x + width then W - x else width)
        in each (\<lambda>i. each (\<lambda>j b.
             let k = (height - i - 1) * width + j in
             if 0 \<le> k \<and> k < int (length img)
             then at_pixel ((y + i) * W + (x + j)) (drawPointAlpha (img ! nat k)) b else None)
             [start_x..end_x - 1]) [start_y..end_y - 1] b)"

text \<open>The count of this \<open>memmove\<close> is signed: nothing is copied when it is negative.\<close>

definition u_copy_row :: "int \<Rightarrow> RGB list \<Rightarrow> int \<Rightarrow> int \<Rightarrow> RGB list \<Rightarrow> RGB list option" where
  "u_copy_row t src k n b = (if n \<le> 0 then Some b else copy_row t src k n b)"

definition u_draw24Image :: "int \<Rightarrow> int \<Rightarrow> RGB list \<Rightarrow> int \<Rightarrow> int \<Rightarrow> int \<Rightarrow> int \<Rightarrow> RGB list \<Rightarrow> RGB list option" where
  "u_draw24Image W H img x y width height b =
     (if W \<le> x \<or> H \<le> y \<or> x < 0 \<or> y < 0 then Some b
      else
        let max_line = (if W - x < width then W - x else width)
        in each (\<lambda>i b. if y + i < 0 then Some b
                       else u_copy_row ((y + i) * W + x) img ((height - i - 1) * width) max_line b)
             (until (\<lambda>i. H \<le> y + i) [0..height - 1]) b)"

definition u_drawRect :: "int \<Rightarrow> int \<Rightarrow> RGB \<Rightarrow> int \<Rightarrow> int \<Rightarrow> int \<Rightarrow> int \<Rightarrow> RGB list \<Rightarrow> RGB list option" where
  "u_drawRect W H color x y width height b =
     (if W \<le> x \<or> x + width < 0 \<or> H \<le> y \<or> y + height < 0 \<or> width < 0 \<or> height < 0 then Some b
      else
        let t = y * W + x;
            top = (if 0 \<le> y then each (\<lambda>i b.
              if 0 \<le> x + i \<and> x + i < W then at_pixel (t + i) (\<lambda>_. color) b else Some b) [0..width - 1] else Some);
            bottom = (if y + height \<le> H then each (\<lambda>i b.
              if 0 \<le> y \<and> 0 < x + i \<and> x + i < W then at_pixel (t + height * W + i) (\<lambda>_. color) b else Some b) [0..width - 1] else Some);
            left = (if 0 \<le> x then each (\<lambda>i b.
              if 0 \<le> y + i \<and> y + i < H then at_pixel (t + i * W) (\<lambda>_. color) b else Some b) [0..height - 1] else Some);
            right = (if x + width \<le> W then each (\<lambda>i b.
              if 0 \<le> y + i \<and> y + i < H then at_pixel (t + width + i * W) (\<lambda>_. color) b else Some b) [0..height - 1] else Some)
        in Option.bind (Option.bind (Option.bind (top b) bottom) left) right)"

definition drawFillRect :: "int \<Rightarrow> int \<Rightarrow> RGBA \<Rightarrow> int \<Rightarrow> int \<Rightarrow> int \<Rightarrow> int \<Rightarrow> RGB list \<Rightarrow> RGB list option" where
  "drawFillRect W H color x0 y0 width0 height0 b =
     (if W \<le> x0 \<or> x0 + width0 < 0 \<or> H \<le> y0 \<or> y0 + height0 < 0 \<or> width0 < 0 \<or> height0 < 0 then Some b
      else
        let width1 = (if x0 < 0 then width0 + x0 else width0); x = (if x0 < 0 then 0 else x0);
            height1 = (if y0 < 0 then height0 + y0 else height0); y = (if y0 < 0 then 0 else y0);
            width = (if W < x + width1 then W - x else width1);
            height = (if H < y + height1 then H - y else height1)
        in if aA color = 255
           then each (\<lambda>i. each (\<lambda>j. at_pixel ((y + i) * W + x + j) (\<lambda>_. solid color)) [0..width - 1]) [0..height - 1] b
           else each (\<lambda>i. each (\<lambda>j b.
             if 0 < x + j \<and> x + j < W \<and> 0 < y + i \<and> y + i < H
             then at_pixel ((y + i) * W + (x + j)) (drawPointAlpha color) b else Some b) [0..width - 1]) [0..height - 1] b)"

text \<open>The first row is filled, the others are copies of it.\<close>

definition draw24FillRect :: "int \<Rightarrow> int \<Rightarrow> RGB \<Rightarrow> int \<Rightarrow> int \<Rightarrow> int \<Rightarrow> int \<Rightarrow> RGB list \<Rightarrow> RGB list option" where
  "draw24FillRect W H color x y width height b =
     (if W \<le> x \<or> x + width < 0 \<or> H \<le> y \<or> y + height < 0 \<or> x < 0 \<or> y < 0 \<or> width < 0 \<or> height < 0 then Some b
      else
        let max_line = (if W - x < width then W - x else width); t = y * W + x
        in each (\<lambda>i b.
             if y + i < 0 then Some b
             else if i = 0 then each (\<lambda>j. at_pixel (t + j) (\<lambda>_. color)) [0..max_line - 1] b
             else u_copy_row ((y + i) * W + x) b t max_line b) (until (\<lambda>i. H \<le> y + i) [0..height - 1]) b)"

text \<open>Both loops of \<open>drawIcon\<close> end at the first pixel outside of the window.\<close>

definition u_drawIcon :: "int \<Rightarrow> int \<Rightarrow> icons \<Rightarrow> int \<Rightarrow> int \<Rightarrow> int \<Rightarrow> RGB list \<Rightarrow> RGB list option" where
  "u_drawIcon W H icons icon x y b =
     (if icon < 0 \<or> ICON_NUMBER \<le> icon then Some b
      else each (\<lambda>i. each (\<lambda>j b.
             if icons icon (i * ICON_SIZE + j) = 0 then Some b
             else at_pixel ((y + i) * W + (x + j)) (drawPointAlpha (icon_color (icons icon (i * ICON_SIZE + j)))) b)
             (until (\<lambda>j. W \<le> x + j \<or> x + j < 0) [0..ICON_SIZE - 1])) (until (\<lambda>i. H \<le> y + i \<or> y + i < 0) [0..ICON_SIZE - 1]) b)"

section \<open>The same glyphs and rectangles as the kernel\<close>

lemma each_all_idle: "(\<And>i b. i \<in> set ks \<Longrightarrow> m i b = Some b) \<Longrightarrow> each m ks b = Some b"
  using each_cong [of ks m "\<lambda>_. Some" b] by (simp add: each_idle)

theorem fillRect_agrees: "fillRect x y width height max_x max_y fill = drawRectBound max_x x y width height fill max_x max_y"
  by (rule ext) (simp add: fillRect_def drawRectBound_def)

text \<open>Characters look the same in a window as on the screen: the two routines change a buffer of the same size
  in the same way and return the same width, for every character, position and font.\<close>

theorem characters_agree: "u_drawCharacter font x y ch color W H b = drawCharacter W H font x y ch color b"
proof (cases "unprintable ch \<or> \<not> (W \<le> x \<or> H \<le> y \<or> x + CHARACTER_WIDTH \<le> 0 \<or> y + CHARACTER_HEIGHT \<le> 0)")
  case True
  then show ?thesis
    by (auto simp: u_drawCharacter_def drawCharacter_def add.assoc intro!: arg_cong [where f = "map_option _"] each_cong)
next
  case False
  have "each (\<lambda>i b. if H \<le> y + i \<or> y + i < 0 then Some b
           else each (\<lambda>j b.
             if 0 < font (char_ord ch) i j then
               if W \<le> x + j \<or> x + j < 0 then Some b
               else at_pixel ((y + i) * W + x + j) (drawPointAlpha (smooth color (font (char_ord ch) i j))) b
             else Some b) [0..CHARACTER_WIDTH - 1] b) [0..CHARACTER_HEIGHT - 1] b = Some b"
    using False by (intro each_all_idle) (auto intro!: each_all_idle)
  then show ?thesis using False by (simp add: u_drawCharacter_def drawCharacter_def)
qed

section \<open>Text stays in its box\<close>

lemma glyph_in_cell: "touches W H (rectangle x y CHARACTER_WIDTH CHARACTER_HEIGHT)
    (\<lambda>b. map_option snd (u_drawCharacter font x y ch color W H b))"
proof (cases "unprintable ch")
  case True
  then have "(\<lambda>b. map_option snd (u_drawCharacter font x y ch color W H b)) = Some"
    by (simp add: u_drawCharacter_def fun_eq_iff)
  then show ?thesis by (simp add: touches_Some)
next
  case False
  show ?thesis unfolding characters_agree
    by (rule touches_mono [OF paints_touches [OF drawCharacter_paints [OF False]]]) (simp add: glyph_pixels_def rectangle_def)
qed

lemma u_drawString_loop_touches:
  assumes "0 \<le> offset_x" "0 \<le> offset_y"
  shows "touches W H (rectangle x y width height) (u_drawString_loop font W H str color x y width height offset_x offset_y)"
  using assms
proof (induction str arbitrary: offset_x offset_y)
  case Nil
  then show ?case by (simp add: touches_def)
next
  case (Cons ch str)
  let ?box = "rectangle x y width height"
  let ?rest = "if width < offset_x + CHARACTER_WIDTH + CHARACTER_WIDTH
    then u_drawString_loop font W H str color x y width height 0 (offset_y + CHARACTER_HEIGHT)
    else u_drawString_loop font W H str color x y width height (offset_x + CHARACTER_WIDTH) offset_y"
  let ?char = "\<lambda>b. if offset_x + CHARACTER_WIDTH \<le> width
    then map_option snd (u_drawCharacter font (x + offset_x) (y + offset_y) ch color W H b) else Some b"
  consider "height < offset_y + CHARACTER_HEIGHT" | "ch = 0x0A" "\<not> height < offset_y + CHARACTER_HEIGHT"
    | "ch \<noteq> 0x0A" "\<not> height < offset_y + CHARACTER_HEIGHT" by blast
  then show ?case
  proof cases
    case 1
    then show ?thesis by (simp add: touches_def)
  next
    case 2
    have "touches W H ?box (u_drawString_loop font W H str color x y width height 0 (offset_y + CHARACTER_HEIGHT))"
      using Cons.prems by (intro Cons.IH) simp_all
    with 2 show ?thesis by (simp add: touches_def)
  next
    case 3
    have "touches W H ?box ?char"
    proof (cases "offset_x + CHARACTER_WIDTH \<le> width")
      case True
      have "touches W H ?box (\<lambda>b. map_option snd (u_drawCharacter font (x + offset_x) (y + offset_y) ch color W H b))"
        by (rule touches_mono [OF glyph_in_cell]) (use True 3 Cons.prems in \<open>auto simp: rectangle_def\<close>)
      with True show ?thesis by simp
    qed (simp add: touches_Some)
    moreover have "touches W H ?box ?rest" using Cons.prems by (auto intro: Cons.IH)
    ultimately have "touches W H ?box (\<lambda>b. Option.bind (?char b) ?rest)" by (rule touches_bind)
    with 3 show ?thesis by (simp add: touches_def)
  qed
qed

text \<open>Text stays in its box: whatever the string, line breaks and unprintable characters included, no pixel
  outside of the given rectangle changes, and nothing is written outside of the buffer.\<close>

theorem u_drawString_touches:
  "touches W H (rectangle x y width height) (u_drawString font W H str color x y width height)"
  unfolding u_drawString_def [abs_def] by (rule u_drawString_loop_touches) simp_all

section \<open>Images\<close>

theorem u_drawImage_paints:
  assumes "int (length img) = width * height"
  shows "paints W H (rectangle x y width height)
    (\<lambda>px py. drawPointAlpha (img ! nat ((height - (py - y) - 1) * width + (px - x)))) (u_drawImage W H img x y width height)"
proof (cases "W \<le> x \<or> H \<le> y \<or> x + width \<le> 0 \<or> y + height \<le> 0")
  case True
  then have "u_drawImage W H img x y width height = Some" by (simp add: u_drawImage_def fun_eq_iff)
  moreover have "paints W H (rectangle x y width height)
    (\<lambda>px py. drawPointAlpha (img ! nat ((height - (py - y) - 1) * width + (px - x)))) Some"
    by (rule paints_cong [OF paints_skip]) (use True in \<open>auto simp: rectangle_def inside_def\<close>)
  ultimately show ?thesis by simp
next
  case False
  let ?k = "\<lambda>i j. (height - i - 1) * width + j"
  let ?ys = "[max 0 (- y)..min H (y + height) - y - 1]" and ?xs = "[max 0 (- x)..min W (x + width) - x - 1]"
  let ?f = "\<lambda>px py. drawPointAlpha (img ! nat ((height - (py - y) - 1) * width + (px - x)))"
  let ?m = "each (\<lambda>i b. if False then Some b else each (\<lambda>j b. if False then Some b
    else at_pixel ((y + i) * W + (x + j)) (drawPointAlpha (img ! nat (?k i j))) b) ?xs b) ?ys"
  have src: "0 \<le> ?k i j \<and> ?k i j < int (length img)" if "0 \<le> i" "i < height" "0 \<le> j" "j < width" for i j
  proof -
    have "0 \<le> i * width" "0 \<le> (height - i - 1) * width" using that by simp_all
    moreover have "(height - i - 1) * width = int (length img) - i * width - width" using assms by (simp add: algebra_simps)
    ultimately show ?thesis using that by linarith
  qed
  have "(if y < 0 then - y else 0) = max 0 (- y)" "(if x < 0 then - x else 0) = max 0 (- x)"
    "(if H < y + height then H - y else height) = min H (y + height) - y"
    "(if W < x + width then W - x else width) = min W (x + width) - x" by auto
  then have "u_drawImage W H img x y width height b = ?m b" for b
    using False src by (auto simp: u_drawImage_def Let_def intro!: each_cong)
  then have eq: "u_drawImage W H img x y width height = ?m" by (rule ext)
  have "paints W H {(x + j, y + i) | i j. i \<in> set ?ys \<and> j \<in> set ?xs \<and> \<not> False \<and> \<not> False} ?f ?m"
    by (rule paints_grid) (auto simp: inside_def)
  then show ?thesis unfolding eq
    by (rule paints_cong) (unfold mem_offset, auto simp: rectangle_def inside_def)
qed

theorem u_draw24Image_paints:
  assumes "int (length img) = width * height" "0 \<le> x" "0 \<le> y"
  shows "paints W H (rectangle x y width height)
    (\<lambda>px py _. img ! nat ((height - (py - y) - 1) * width + (px - x))) (u_draw24Image W H img x y width height)"
proof (cases "W \<le> x \<or> H \<le> y \<or> width \<le> 0")
  case True
  then have "u_draw24Image W H img x y width height b = Some b" for b
    using assms(2,3) by (auto simp: u_draw24Image_def Let_def u_copy_row_def intro!: each_all_idle)
  then have "u_draw24Image W H img x y width height = Some" by (rule ext)
  moreover have "paints W H (rectangle x y width height)
    (\<lambda>px py _. img ! nat ((height - (py - y) - 1) * width + (px - x))) Some"
    by (rule paints_cong [OF paints_skip]) (use True in \<open>auto simp: rectangle_def inside_def\<close>)
  ultimately show ?thesis by simp
next
  case False
  let ?n = "min W (x + width) - x" and ?ks = "until (\<lambda>i. H \<le> y + i) [0..height - 1]"
  let ?f = "\<lambda>px py _. img ! nat ((height - (py - y) - 1) * width + (px - x))"
  let ?m = "each (\<lambda>i b. if y + i < 0 then Some b else copy_row ((y + i) * W + x) img ((height - i - 1) * width) ?n b) ?ks"
  have "(if W - x < width then W - x else width) = ?n" by auto
  moreover have "\<not> ?n \<le> 0" using False by (simp add: min_def)
  from this have "u_copy_row t img k ?n b = copy_row t img k ?n b" for t k b by (simp only: u_copy_row_def if_False)
  ultimately have "u_draw24Image W H img x y width height b = ?m b" for b
    using False assms(2,3) by (auto simp: u_draw24Image_def Let_def intro!: each_cong)
  then have eq: "u_draw24Image W H img x y width height = ?m" by (rule ext)
  have src: "0 \<le> (height - i - 1) * width \<and> (height - i - 1) * width + ?n \<le> int (length img)" if "0 \<le> i" "i < height" for i
  proof -
    have "(height - i - 1) * width \<le> (height - 1) * width" "0 \<le> (height - i - 1) * width"
      using that False by (intro mult_right_mono, simp_all)
    then show ?thesis using assms(1) by (simp add: algebra_simps)
  qed
  have "paints W H (\<Union>i\<in>set ?ks. if y + i < 0 then {} else {x..<x + ?n} \<times> {y + i}) ?f ?m"
    by (rule paints_rows) (use False assms(2,3) src in \<open>auto simp: set_until distinct_until\<close>)
  then show ?thesis unfolding eq
    by (rule paints_cong) (unfold mem_rows, use assms(2,3) in \<open>auto simp: set_until rectangle_def inside_def\<close>)
qed

section \<open>Filled rectangles\<close>

theorem drawFillRect_paints:
  assumes "aA color = 255"
  shows "paints W H (rectangle x y width height) (\<lambda>_ _ _. solid color) (drawFillRect W H color x y width height)"
proof (cases "W \<le> x \<or> x + width < 0 \<or> H \<le> y \<or> y + height < 0 \<or> width < 0 \<or> height < 0")
  case True
  then have "drawFillRect W H color x y width height = Some" by (simp add: drawFillRect_def fun_eq_iff)
  moreover have "paints W H (rectangle x y width height) (\<lambda>_ _ _. solid color) Some"
    by (rule paints_cong [OF paints_skip]) (use True in \<open>auto simp: rectangle_def inside_def\<close>)
  ultimately show ?thesis by simp
next
  case False
  let ?x = "max 0 x" and ?y = "max 0 y"
  let ?w = "min W (x + width) - ?x" and ?h = "min H (y + height) - ?y"
  let ?m = "each (\<lambda>i b. if False then Some b else each (\<lambda>j b. if False then Some b
    else at_pixel ((?y + i) * W + (?x + j)) (\<lambda>_. solid color) b) [0..?w - 1] b) [0..?h - 1]"
  have "(if x < 0 then width + x else width) = x + width - ?x" "(if x < 0 then 0 else x) = ?x"
    "(if y < 0 then height + y else height) = y + height - ?y" "(if y < 0 then 0 else y) = ?y"
    "(if W < ?x + (x + width - ?x) then W - ?x else x + width - ?x) = ?w"
    "(if H < ?y + (y + height - ?y) then H - ?y else y + height - ?y) = ?h" by auto
  then have eq: "drawFillRect W H color x y width height = ?m"
    using False assms by (simp add: drawFillRect_def Let_def fun_eq_iff add.assoc)
  have "paints W H {(?x + j, ?y + i) | i j. i \<in> set [0..?h - 1] \<and> j \<in> set [0..?w - 1] \<and> \<not> False \<and> \<not> False} (\<lambda>_ _ _. solid color) ?m"
    by (rule paints_grid) (auto simp: inside_def)
  then show ?thesis unfolding eq
    by (rule paints_cong) (unfold mem_offset, auto simp: rectangle_def inside_def)
qed

lemma if_swap: "(if \<not> c then a else b) = (if c then b else a)"
  by simp

text \<open>A translucent rectangle leaves out the first row and the first column of the window.\<close>

lemma drawFillRect_translucent:
  assumes "aA color \<noteq> 255"
  shows "paints W H (rectangle x y width height \<inter> {(px, py). 0 < px \<and> 0 < py}) (\<lambda>_ _. drawPointAlpha color)
    (drawFillRect W H color x y width height)"
proof (cases "W \<le> x \<or> x + width < 0 \<or> H \<le> y \<or> y + height < 0 \<or> width < 0 \<or> height < 0")
  case True
  then have "drawFillRect W H color x y width height = Some" by (simp add: drawFillRect_def fun_eq_iff)
  moreover have "paints W H (rectangle x y width height \<inter> {(px, py). 0 < px \<and> 0 < py}) (\<lambda>_ _. drawPointAlpha color) Some"
    by (rule paints_cong [OF paints_skip]) (use True in \<open>auto simp: rectangle_def inside_def\<close>)
  ultimately show ?thesis by simp
next
  case False
  let ?x = "max 0 x" and ?y = "max 0 y"
  let ?w = "min W (x + width) - ?x" and ?h = "min H (y + height) - ?y"
  let ?skip = "\<lambda>i j. \<not> (0 < ?x + j \<and> ?x + j < W \<and> 0 < ?y + i \<and> ?y + i < H)"
  let ?m = "each (\<lambda>i b. if False then Some b else each (\<lambda>j b. if ?skip i j then Some b
    else at_pixel ((?y + i) * W + (?x + j)) (drawPointAlpha color) b) [0..?w - 1] b) [0..?h - 1]"
  have "(if x < 0 then width + x else width) = x + width - ?x" "(if x < 0 then 0 else x) = ?x"
    "(if y < 0 then height + y else height) = y + height - ?y" "(if y < 0 then 0 else y) = ?y"
    "(if W < ?x + (x + width - ?x) then W - ?x else x + width - ?x) = ?w"
    "(if H < ?y + (y + height - ?y) then H - ?y else y + height - ?y) = ?h" by auto
  then have "drawFillRect W H color x y width height = each (\<lambda>i. each (\<lambda>j b.
      if 0 < ?x + j \<and> ?x + j < W \<and> 0 < ?y + i \<and> ?y + i < H
      then at_pixel ((?y + i) * W + (?x + j)) (drawPointAlpha color) b else Some b) [0..?w - 1]) [0..?h - 1]"
    using False assms by (simp add: drawFillRect_def Let_def fun_eq_iff)
  also have "\<dots> = ?m" by (simp only: if_False if_swap)
  finally have eq: "drawFillRect W H color x y width height = ?m" .
  have "paints W H {(?x + j, ?y + i) | i j. i \<in> set [0..?h - 1] \<and> j \<in> set [0..?w - 1] \<and> \<not> False \<and> \<not> ?skip i j} (\<lambda>_ _. drawPointAlpha color) ?m"
    by (rule paints_grid) (auto simp: inside_def)
  then show ?thesis unfolding eq
    by (rule paints_cong) (unfold mem_offset, auto simp: rectangle_def inside_def)
qed

text \<open>A row filled by copying the first one: the pixels of the first row have the colour when it is copied.\<close>

definition row_filled :: "int \<Rightarrow> int \<Rightarrow> int \<Rightarrow> int \<Rightarrow> int \<Rightarrow> RGB \<Rightarrow> RGB list \<Rightarrow> bool" where
  "row_filled W H x y n color b \<longleftrightarrow> canvas W H b \<and> (\<forall>j. 0 \<le> j \<and> j < n \<longrightarrow> pix W b (x + j) y = color)"

lemma copy_filled_row:
  assumes "row_filled W H x y n color b" "0 < n" "0 \<le> x" "x + n \<le> W" "0 \<le> y" "y < H" "0 < i" "y + i < H"
  shows "\<exists>b'. u_copy_row ((y + i) * W + x) b (y * W + x) n b = Some b' \<and> row_filled W H x y n color b' \<and>
    painted W H ({x..<x + n} \<times> {y + i}) (\<lambda>_ _ _. color) b b'"
proof -
  have c: "canvas W H b" and f: "\<And>j. 0 \<le> j \<Longrightarrow> j < n \<Longrightarrow> b ! nat (y * W + x + j) = color"
    using assms(1) by (auto simp: row_filled_def pix_def add.assoc)
  have "inside W H x y" "inside W H (x + n - 1) y" using assms by (auto simp: inside_def)
  from address_bounds [OF this(1)] address_bounds [OF this(2)] have "0 \<le> y * W + x" "y * W + x + n \<le> int (length b)"
    using c unfolding canvas_def by linarith+
  then have "paints W H ({x..<x + n} \<times> {y + i}) (\<lambda>_ _ _. color) (copy_row ((y + i) * W + x) b (y * W + x) n)"
    using assms f by (intro paints_copy) simp_all
  then obtain b' where b': "copy_row ((y + i) * W + x) b (y * W + x) n b = Some b'"
    "painted W H ({x..<x + n} \<times> {y + i}) (\<lambda>_ _ _. color) b b'" using c unfolding paints_def by blast
  moreover have "row_filled W H x y n color b'"
    using b'(2) assms painted_canvas [OF b'(2)] c by (auto simp: row_filled_def painted_def inside_def)
  ultimately show ?thesis using assms(2) by (auto simp: u_copy_row_def)
qed

lemma copy_filled_rows:
  assumes "row_filled W H x y n color b" "0 < n" "0 \<le> x" "x + n \<le> W" "0 \<le> y"
    and "\<And>i. i \<in> set ks \<Longrightarrow> 0 < i \<and> y + i < H"
  shows "\<exists>b'. each (\<lambda>i b. u_copy_row ((y + i) * W + x) b (y * W + x) n b) ks b = Some b' \<and>
    painted W H (\<Union>i\<in>set ks. {x..<x + n} \<times> {y + i}) (\<lambda>_ _ _. color) b b'"
  using assms(1,6)
proof (induction ks arbitrary: b)
  case Nil
  then show ?case by (simp add: painted_def)
next
  case (Cons i ks)
  have "0 < i" "y + i < H" using Cons.prems(2) by simp_all
  moreover from this have "y < H" by linarith
  ultimately obtain b1 where b1: "u_copy_row ((y + i) * W + x) b (y * W + x) n b = Some b1" "row_filled W H x y n color b1"
    "painted W H ({x..<x + n} \<times> {y + i}) (\<lambda>_ _ _. color) b b1"
    using copy_filled_row [OF Cons.prems(1) assms(2-5)] by blast
  obtain b2 where b2: "each (\<lambda>i b. u_copy_row ((y + i) * W + x) b (y * W + x) n b) ks b1 = Some b2"
    "painted W H (\<Union>i\<in>set ks. {x..<x + n} \<times> {y + i}) (\<lambda>_ _ _. color) b1 b2"
    using Cons.IH [OF b1(2)] Cons.prems(2) by auto
  have "painted W H (\<Union>i\<in>set (i # ks). {x..<x + n} \<times> {y + i}) (\<lambda>_ _ _. color) b b2"
    using b1(3) b2(2) unfolding painted_def by auto
  with b1 b2 show ?case by simp
qed

theorem draw24FillRect_paints:
  assumes "0 \<le> x" "0 \<le> y" "0 \<le> width" "0 \<le> height"
  shows "paints W H (rectangle x y width height) (\<lambda>_ _ _. color) (draw24FillRect W H color x y width height)"
proof (cases "W \<le> x \<or> H \<le> y \<or> width = 0 \<or> height = 0")
  case True
  then have "draw24FillRect W H color x y width height b = Some b" for b
    using assms by (auto simp: draw24FillRect_def Let_def u_copy_row_def until_def intro!: each_all_idle)
  then have "draw24FillRect W H color x y width height = Some" by (rule ext)
  moreover have "paints W H (rectangle x y width height) (\<lambda>_ _ _. color) Some"
    by (rule paints_cong [OF paints_skip]) (use True in \<open>auto simp: rectangle_def inside_def\<close>)
  ultimately show ?thesis by simp
next
  case False
  let ?n = "min W (x + width) - x" and ?t = "y * W + x"
  have n: "0 < ?n" "0 < height" using False assms by (simp_all add: min_def)
  let ?ks = "until (\<lambda>i. H \<le> y + i) [1..height - 1]"
  let ?rows = "\<lambda>ks b. each (\<lambda>i b. u_copy_row ((y + i) * W + x) b ?t ?n b) ks b"
  have "until (\<lambda>i. H \<le> y + i) [0..height - 1] = 0 # ?ks"
    using False assms by (simp add: until_def upto_rec1 [of 0])
  moreover have "(if W - x < width then W - x else width) = ?n" by auto
  moreover have "each (\<lambda>i b. if y + i < 0 then Some b
             else if i = 0 then each (\<lambda>j. at_pixel (?t + j) (\<lambda>_. color)) [0..?n - 1] b
             else u_copy_row ((y + i) * W + x) b ?t ?n b) ?ks = ?rows ?ks"
    using assms(2) by (intro ext each_cong) (auto simp: set_until)
  ultimately have eq: "draw24FillRect W H color x y width height b =
      Option.bind (each (\<lambda>j. at_pixel (?t + j) (\<lambda>_. color)) [0..?n - 1] b) (?rows ?ks)" for b
    using False assms by (simp add: draw24FillRect_def Let_def)
  have "paints W H (\<Union>j\<in>set [0..?n - 1]. if True then {(x + j, y)} else {}) (\<lambda>_ _ _. color)
      (each (\<lambda>j b. if True then at_pixel (?t + j) (\<lambda>_. color) b else Some b) [0..?n - 1])"
    using False assms by (intro paints_line) (auto simp: inside_def)
  then have first: "paints W H (\<Union>j\<in>set [0..?n - 1]. {(x + j, y)}) (\<lambda>_ _ _. color)
      (each (\<lambda>j. at_pixel (?t + j) (\<lambda>_. color)) [0..?n - 1])" by simp
  show ?thesis
  proof (rule paintsI)
    fix b assume c: "canvas W H b"
    obtain b1 where b1: "each (\<lambda>j. at_pixel (?t + j) (\<lambda>_. color)) [0..?n - 1] b = Some b1"
      "painted W H (\<Union>j\<in>set [0..?n - 1]. {(x + j, y)}) (\<lambda>_ _ _. color) b b1" using first c unfolding paints_def by blast
    have "row_filled W H x y ?n color b1"
    proof -
      have "pix W b1 (x + j) y = color" if j: "0 \<le> j" "j < ?n" for j
      proof -
        have "inside W H (x + j) y" using j False assms by (simp add: inside_def)
        moreover have "(x + j, y) \<in> (\<Union>j\<in>set [0..?n - 1]. {(x + j, y)})" using j by simp
        ultimately show ?thesis using b1(2) by (simp add: painted_def)
      qed
      then show ?thesis using painted_canvas [OF b1(2)] c by (simp add: row_filled_def)
    qed
    then obtain b2 where b2: "?rows ?ks b1 = Some b2" "painted W H (\<Union>i\<in>set ?ks. {x..<x + ?n} \<times> {y + i}) (\<lambda>_ _ _. color) b1 b2"
    proof -
      assume filled: "row_filled W H x y ?n color b1"
      have "x + ?n \<le> W" by simp
      moreover have "0 < i \<and> y + i < H" if "i \<in> set ?ks" for i using that by (simp add: set_until)
      ultimately have "\<exists>b2. ?rows ?ks b1 = Some b2 \<and> painted W H (\<Union>i\<in>set ?ks. {x..<x + ?n} \<times> {y + i}) (\<lambda>_ _ _. color) b1 b2"
        using copy_filled_rows [OF filled n(1) assms(1) _ assms(2)] by blast
      then show ?thesis using that by blast
    qed
    have "painted W H (rectangle x y width height) (\<lambda>_ _ _. color) b b2"
      unfolding painted_def
    proof (intro conjI allI impI)
      show "length b2 = length b" using b1(2) b2(2) by (simp add: painted_def)
      fix px py assume i: "inside W H px py"
      have r: "(px, py) \<in> rectangle x y width height \<longleftrightarrow>
          (px, py) \<in> (\<Union>j\<in>set [0..?n - 1]. {(x + j, y)}) \<or> (px, py) \<in> (\<Union>i\<in>set ?ks. {x..<x + ?n} \<times> {y + i})"
        using i \<open>0 < height\<close> mem_hline [where px = px and py = py and n = ?n and P = "\<lambda>_. True" and x = x and v = y]
          mem_rows [where px = px and py = py and ks = ?ks and skip = "\<lambda>_. False" and x = x and x' = "x + ?n" and y = y]
        by (auto simp: rectangle_def inside_def set_until)
      then show "pix W b2 px py = (if (px, py) \<in> rectangle x y width height then color else pix W b px py)"
        using b1(2) b2(2) i unfolding painted_def by (metis (no_types, lifting))
    qed
    with b1 b2 show "\<exists>b'. draw24FillRect W H color x y width height b = Some b' \<and>
      painted W H (rectangle x y width height) (\<lambda>_ _ _. color) b b'" by (simp add: eq)
  qed
qed

section \<open>Icons\<close>

lemma u_drawIcon_paints:
  assumes "0 \<le> icon" "icon < ICON_NUMBER" "0 \<le> x" "0 \<le> y"
  shows "paints W H {(px, py). x \<le> px \<and> px < x + ICON_SIZE \<and> y \<le> py \<and> py < y + ICON_SIZE \<and>
      icons icon ((py - y) * ICON_SIZE + (px - x)) \<noteq> 0}
    (\<lambda>px py. drawPointAlpha (icon_color (icons icon ((py - y) * ICON_SIZE + (px - x))))) (u_drawIcon W H icons icon x y)"
proof -
  let ?f = "\<lambda>px py. drawPointAlpha (icon_color (icons icon ((py - y) * ICON_SIZE + (px - x))))"
  let ?ks = "until (\<lambda>i. H \<le> y + i) [0..ICON_SIZE - 1]" and ?js = "until (\<lambda>j. W \<le> x + j) [0..ICON_SIZE - 1]"
  let ?m = "each (\<lambda>i b. if False then Some b else each (\<lambda>j b. if icons icon (i * ICON_SIZE + j) = 0 then Some b
    else at_pixel ((y + i) * W + (x + j)) (drawPointAlpha (icon_color (icons icon (i * ICON_SIZE + j)))) b) ?js b) ?ks"
  have "until (\<lambda>i. H \<le> y + i \<or> y + i < 0) [0..ICON_SIZE - 1] = ?ks" "until (\<lambda>j. W \<le> x + j \<or> x + j < 0) [0..ICON_SIZE - 1] = ?js"
    using assms unfolding until_def by (auto intro!: takeWhile_cong)
  then have eq: "u_drawIcon W H icons icon x y = ?m" using assms(1,2) by (simp add: u_drawIcon_def fun_eq_iff)
  have "paints W H {(x + j, y + i) | i j. i \<in> set ?ks \<and> j \<in> set ?js \<and> \<not> False \<and> icons icon (i * ICON_SIZE + j) \<noteq> 0} ?f ?m"
    by (rule paints_grid) (use assms in \<open>auto simp: inside_def set_until distinct_until\<close>)
  then show ?thesis unfolding eq
    by (rule paints_cong) (unfold mem_offset, use assms in \<open>auto simp: inside_def set_until\<close>)
qed

text \<open>An icon that starts outside of the window is not drawn at all, although the kernel draws its visible part.\<close>

lemma u_drawIcon_hidden: "0 \<le> icon \<Longrightarrow> icon < ICON_NUMBER \<Longrightarrow> x < 0 \<Longrightarrow> u_drawIcon W H icons icon x y b = Some b"
  by (auto simp: u_drawIcon_def until_def upto_rec1 [of 0] intro!: each_all_idle)

section \<open>Frames\<close>

definition frame_pixels :: "int \<Rightarrow> int \<Rightarrow> int \<Rightarrow> int \<Rightarrow> (int \<times> int) set" where
  "frame_pixels x y width height =
     {(px, py). x \<le> px \<and> px < x + width \<and> (py = y \<or> py = y + height \<and> 0 < px) \<or>
        y \<le> py \<and> py < y + height \<and> (px = x \<or> px = x + width)}"

text \<open>A frame whose right and lower edges, which lie one pixel beyond its width and height, are in the window too.\<close>

theorem u_drawRect_paints:
  assumes "0 \<le> x" "0 \<le> y" "0 \<le> width" "0 \<le> height" "x + width < W" "y + height < H"
  shows "paints W H (frame_pixels x y width height) (\<lambda>_ _ _. color) (u_drawRect W H color x y width height)"
proof -
  let ?t = "y * W + x" and ?ws = "[0..width - 1]" and ?hs = "[0..height - 1]" and ?f = "\<lambda>_ _ _. color"
  let ?top = "\<lambda>i b. if 0 \<le> x + i \<and> x + i < W then at_pixel (?t + i) (\<lambda>_. color) b else Some b"
  let ?bot = "\<lambda>i b. if 0 \<le> y \<and> 0 < x + i \<and> x + i < W then at_pixel (?t + height * W + i) (\<lambda>_. color) b else Some b"
  let ?left = "\<lambda>i b. if 0 \<le> y + i \<and> y + i < H then at_pixel (?t + i * W) (\<lambda>_. color) b else Some b"
  let ?right = "\<lambda>i b. if 0 \<le> y + i \<and> y + i < H then at_pixel (?t + width + i * W) (\<lambda>_. color) b else Some b"
  have eq: "u_drawRect W H color x y width height = (\<lambda>b.
    Option.bind (Option.bind (Option.bind (each ?top ?ws b) (each ?bot ?ws)) (each ?left ?hs)) (each ?right ?hs))"
    using assms by (simp add: u_drawRect_def fun_eq_iff Let_def)
  have 1: "paints W H (\<Union>i\<in>set ?ws. if 0 \<le> x + i \<and> x + i < W then {(x + i, y)} else {}) ?f (each ?top ?ws)"
    using assms by (intro paints_line) (auto simp: inside_def)
  have 2: "paints W H (\<Union>i\<in>set ?ws. if 0 \<le> y \<and> 0 < x + i \<and> x + i < W then {(x + i, y + height)} else {}) ?f (each ?bot ?ws)"
    using assms by (intro paints_line) (auto simp: inside_def algebra_simps)
  have 3: "paints W H (\<Union>i\<in>set ?hs. if 0 \<le> y + i \<and> y + i < H then {(x, y + i)} else {}) ?f (each ?left ?hs)"
    using assms by (intro paints_line) (auto simp: inside_def algebra_simps)
  have 4: "paints W H (\<Union>i\<in>set ?hs. if 0 \<le> y + i \<and> y + i < H then {(x + width, y + i)} else {}) ?f (each ?right ?hs)"
    using assms by (intro paints_line) (auto simp: inside_def algebra_simps)
  show ?thesis unfolding eq
    by (rule paints_cong [OF paints_seq [OF paints_seq [OF paints_seq [OF 1 2] 3] 4]])
       (use assms in \<open>auto simp only: frame_pixels_def inside_def mem_hline mem_vline Un_iff mem_Collect_eq prod.case
         add_diff_cancel_left' diff_add_cancel add_diff_eq not_le not_less simp_thms\<close>)
qed

text \<open>The guards of the lower edge admit \<open>y + height = H\<close>: a frame around the whole window writes behind its
  buffer.\<close>

lemma u_drawRect_overruns:
  assumes "canvas W H b" "1 < W" "0 < H"
  shows "u_drawRect W H color 0 0 W H b = None"
proof -
  let ?top = "\<lambda>i b. if 0 \<le> 0 + i \<and> 0 + i < W then at_pixel (0 * W + 0 + i) (\<lambda>_. color) b else Some b"
  have "paints W H (\<Union>i\<in>set [0..W - 1]. if 0 \<le> 0 + i \<and> 0 + i < W then {(0 + i, 0)} else {}) (\<lambda>_ _ _. color) (each ?top [0..W - 1])"
    using assms by (intro paints_line) (auto simp: inside_def)
  then obtain b1 where b1: "each ?top [0..W - 1] b = Some b1" "length b1 = length b"
    using assms(1) unfolding paints_def painted_def by blast
  let ?bot = "\<lambda>i b. if 0 \<le> (0 :: int) \<and> 0 < 0 + i \<and> 0 + i < W then at_pixel (0 * W + 0 + H * W + i) (\<lambda>_. color) b else Some b"
  have "[0..W - 1] = 0 # 1 # [2..W - 1]" using assms(2) by (simp add: upto_rec1 [of 0] upto_rec1 [of 1])
  moreover have "at_pixel (H * W + 1) (\<lambda>_. color) b1 = None"
    using b1(2) assms(1) by (simp add: at_pixel_def canvas_def mult.commute)
  ultimately have bot: "each ?bot [0..W - 1] b1 = None" using assms(2) by simp
  let ?left = "\<lambda>i b. if 0 \<le> 0 + i \<and> 0 + i < H then at_pixel (0 * W + 0 + i * W) (\<lambda>_. color) b else Some b"
  let ?right = "\<lambda>i b. if 0 \<le> 0 + i \<and> 0 + i < H then at_pixel (0 * W + 0 + W + i * W) (\<lambda>_. color) b else Some b"
  have "u_drawRect W H color 0 0 W H b =
      Option.bind (Option.bind (Option.bind (each ?top [0..W - 1] b) (each ?bot [0..W - 1])) (each ?left [0..H - 1])) (each ?right [0..H - 1])"
    using assms by (simp add: u_drawRect_def Let_def cong: if_cong)
  also have "\<dots> = None" by (simp only: b1 bot Option.bind.simps)
  finally show ?thesis .
qed

text \<open>A frame that may reach beyond the window: it stays inside unless its right or lower edge meets the edge of the
  window exactly.\<close>

lemma u_drawRect_touches:
  assumes "x + width \<noteq> W" "y + height \<noteq> H"
  shows "touches W H UNIV (u_drawRect W H color x y width height)"
proof (cases "W \<le> x \<or> x + width < 0 \<or> H \<le> y \<or> y + height < 0 \<or> width < 0 \<or> height < 0")
  case True
  then have "u_drawRect W H color x y width height = Some" by (auto simp: u_drawRect_def fun_eq_iff)
  then show ?thesis by (simp add: touches_Some)
next
  case False
  let ?t = "y * W + x" and ?ws = "[0..width - 1]" and ?hs = "[0..height - 1]"
  let ?top = "\<lambda>i b. if 0 \<le> x + i \<and> x + i < W then at_pixel (?t + i) (\<lambda>_. color) b else Some b"
  let ?bot = "\<lambda>i b. if 0 \<le> y \<and> 0 < x + i \<and> x + i < W then at_pixel (?t + height * W + i) (\<lambda>_. color) b else Some b"
  let ?left = "\<lambda>i b. if 0 \<le> y + i \<and> y + i < H then at_pixel (?t + i * W) (\<lambda>_. color) b else Some b"
  let ?right = "\<lambda>i b. if 0 \<le> y + i \<and> y + i < H then at_pixel (?t + width + i * W) (\<lambda>_. color) b else Some b"
  have eq: "u_drawRect W H color x y width height = (\<lambda>b.
    Option.bind (Option.bind (Option.bind ((if 0 \<le> y then each ?top ?ws else Some) b)
      (if y + height \<le> H then each ?bot ?ws else Some))
      (if 0 \<le> x then each ?left ?hs else Some))
      (if x + width \<le> W then each ?right ?hs else Some))"
    using False by (simp add: u_drawRect_def fun_eq_iff Let_def)
  have 1: "touches W H UNIV (if 0 \<le> y then each ?top ?ws else Some)"
    by (rule touches_all [OF paints_touches [OF paints_when' [OF paints_line [where u = "\<lambda>i. x + i" and v = "\<lambda>_. y"]]]]) (use False in \<open>auto simp: inside_def\<close>)
  have 2: "touches W H UNIV (if y + height \<le> H then each ?bot ?ws else Some)"
    by (rule touches_all [OF paints_touches [OF paints_when' [OF paints_line [where u = "\<lambda>i. x + i" and v = "\<lambda>_. y + height"]]]])
       (use False assms in \<open>auto simp: inside_def algebra_simps\<close>)
  have 3: "touches W H UNIV (if 0 \<le> x then each ?left ?hs else Some)"
    by (rule touches_all [OF paints_touches [OF paints_when' [OF paints_line [where u = "\<lambda>_. x" and v = "\<lambda>i. y + i"]]]])
       (use False in \<open>auto simp: inside_def algebra_simps\<close>)
  have 4: "touches W H UNIV (if x + width \<le> W then each ?right ?hs else Some)"
    by (rule touches_all [OF paints_touches [OF paints_when' [OF paints_line [where u = "\<lambda>_. x + width" and v = "\<lambda>i. y + i"]]]])
       (use False assms in \<open>auto simp: inside_def algebra_simps\<close>)
  show ?thesis unfolding eq by (intro touches_bind 1 2 3 4)
qed

lemma drawFillRect_touches: "touches W H UNIV (drawFillRect W H color x y width height)"
  using paints_touches [OF drawFillRect_paints, of color W H x y width height]
    paints_touches [OF drawFillRect_translucent, of color W H x y width height] touches_all
  by (cases "aA color = 255") blast+

end
