(* ===== verification/UserHandler.thy ===== *)
theory UserHandler
  imports Prelude
begin

text \<open>
  The text cursor of input fields, \<open>user/user_handler.c\<close>: the translation between an offset in the
  text and a cell of the field, and the handlers of keys and mouse clicks.

  The text is the bytes before the terminating zero; the array has \<open>MAX_LONG_STRLEN\<close> bytes, and a handler
  that would write behind it is \<open>None\<close>.  Numbers are mathematical integers; quotients are rounded towards zero.
\<close>

abbreviation MAX_LONG_STRLEN :: int where "MAX_LONG_STRLEN \<equiv> 1000"
abbreviation (input) NL :: uchar where "NL \<equiv> 0x0A"
abbreviation (input) KEY_DOWN :: int where "KEY_DOWN \<equiv> 2"
abbreviation (input) LEFT_CLICK :: int where "LEFT_CLICK \<equiv> 6"

record field =
  ftext :: "uchar list"
  current_pos :: int

section \<open>Cells\<close>

text \<open>The cell after the one at \<open>(offset_x, offset_y)\<close> when it holds the character \<open>c\<close>.\<close>

definition advance :: "int \<Rightarrow> uchar \<Rightarrow> int \<times> int \<Rightarrow> int \<times> int" where
  "advance charPerLine c xy = (case xy of (offset_x, offset_y) \<Rightarrow>
     if c \<noteq> NL then (if offset_x + 1 > charPerLine then (0, offset_y + 1) else (offset_x + 1, offset_y))
     else (0, offset_y + 1))"

definition chars_per_line :: "int \<Rightarrow> int" where
  "chars_per_line width = width sdiv 10"

text \<open>The loop over the string: \<open>xy\<close> is the cell of offset \<open>pos\<close>.\<close>

fun offset_loop :: "int \<Rightarrow> int \<Rightarrow> int \<Rightarrow> uchar list \<Rightarrow> int \<times> int \<Rightarrow> int \<Rightarrow> int \<Rightarrow> int" where
  "offset_loop cpl mx my [] xy pos first_y_match = (if first_y_match > 0 then first_y_match else pos)"
| "offset_loop cpl mx my (c # str) xy pos first_y_match =
     (if my = snd xy \<and> mx = fst xy then pos
      else offset_loop cpl mx my str (advance cpl c xy) (pos + 1) (if my = snd xy then pos else first_y_match))"

definition getInputOffsetFromMousePosition :: "uchar list \<Rightarrow> int \<Rightarrow> int \<Rightarrow> int \<Rightarrow> int" where
  "getInputOffsetFromMousePosition str width mx my =
     (if my < 0 then 0 else offset_loop (chars_per_line width) mx my str (0, 0) 0 0)"

definition cell_at :: "uchar list \<Rightarrow> int \<Rightarrow> int \<Rightarrow> int \<times> int" where
  "cell_at str width offset = fold (advance (chars_per_line width)) (take (nat offset) str) (0, 0)"

text \<open>Both functions walk over the first \<open>offset\<close> characters, which lie in the string.\<close>

definition getMouseXFromOffset :: "uchar list \<Rightarrow> int \<Rightarrow> int \<Rightarrow> int" where
  "getMouseXFromOffset str width offset = fst (cell_at str width offset)"

definition getMouseYFromOffset :: "uchar list \<Rightarrow> int \<Rightarrow> int \<Rightarrow> int" where
  "getMouseYFromOffset str width offset = snd (cell_at str width offset)"

section \<open>Handlers\<close>

text \<open>\<open>x\<close>, \<open>y\<close> is the position of the field, \<open>mx\<close>, \<open>my\<close> the position of the click.\<close>

definition inputMouseLeftClickHandler :: "int \<Rightarrow> int \<Rightarrow> int \<Rightarrow> int \<Rightarrow> int \<Rightarrow> int \<Rightarrow> field \<Rightarrow> field" where
  "inputMouseLeftClickHandler x y width ty mx my f =
     (if ty \<noteq> LEFT_CLICK then f
      else f\<lparr>current_pos := getInputOffsetFromMousePosition (ftext f) width ((mx - x) sdiv 10) ((my - y) sdiv 18)\<rparr>)"

definition typed :: "int \<Rightarrow> bool" where
  "typed newChar \<longleftrightarrow> 0x20 \<le> newChar \<and> newChar \<le> 0x7E \<or> newChar = 0x0A"

text \<open>The tail is copied aside, the character stored, and the tail put behind it.\<close>

definition type_at_cursor :: "int \<Rightarrow> field \<Rightarrow> field option" where
  "type_at_cursor newChar f =
     (let p = nat (current_pos f); tail = drop p (ftext f) in
      if int (length (ftext f)) + 2 > MAX_LONG_STRLEN then None
      else Some \<lparr>ftext = take p (ftext f) @ [of_int newChar] @ tail, current_pos = current_pos f + 1\<rparr>)"

definition delete_at_cursor :: "field \<Rightarrow> field" where
  "delete_at_cursor f =
     (let p = nat (current_pos f) in
      \<lparr>ftext = take (p - 1) (ftext f) @ drop p (ftext f), current_pos = current_pos f - 1\<rparr>)"

text \<open>The arrow keys come as key codes, as the codes of the number pad, or as digits.\<close>

definition left_key :: "int \<Rightarrow> bool" where "left_key k \<longleftrightarrow> k = 0xE4 \<or> k = 0x4B \<or> k = 0x34"
definition right_key :: "int \<Rightarrow> bool" where "right_key k \<longleftrightarrow> k = 0xE5 \<or> k = 0x4D \<or> k = 0x36"
definition up_key :: "int \<Rightarrow> bool" where "up_key k \<longleftrightarrow> k = 0xE2 \<or> k = 0x48 \<or> k = 0x38"
definition down_key :: "int \<Rightarrow> bool" where "down_key k \<longleftrightarrow> k = 0xE3 \<or> k = 0x50 \<or> k = 0x32"
definition home_key :: "int \<Rightarrow> bool" where "home_key k \<longleftrightarrow> k = 0xE0 \<or> k = 0x47"
definition end_key :: "int \<Rightarrow> bool" where "end_key k \<longleftrightarrow> k = 0xE1 \<or> k = 0x4F"

definition step_left :: "int \<Rightarrow> field \<Rightarrow> field" where
  "step_left k f = (if left_key k \<and> current_pos f > 0 then f\<lparr>current_pos := current_pos f - 1\<rparr> else f)"

definition step_right :: "int \<Rightarrow> int \<Rightarrow> field \<Rightarrow> field" where
  "step_right charCount k f =
     (if right_key k \<and> current_pos f < charCount then f\<lparr>current_pos := current_pos f + 1\<rparr> else f)"

definition goto_cell :: "bool \<Rightarrow> int \<Rightarrow> int \<Rightarrow> int \<Rightarrow> field \<Rightarrow> field" where
  "goto_cell pressed width mx my f =
     (if pressed then f\<lparr>current_pos := getInputOffsetFromMousePosition (ftext f) width mx my\<rparr> else f)"

definition move_cursor :: "int \<Rightarrow> int \<Rightarrow> int \<Rightarrow> field \<Rightarrow> field" where
  "move_cursor width charCount k f0 =
     (let f = step_right charCount k (step_left k f0);
          X = getMouseXFromOffset (ftext f) width (current_pos f);
          Y = getMouseYFromOffset (ftext f) width (current_pos f)
      in goto_cell (end_key k) width (chars_per_line width) Y
          (goto_cell (home_key k) width 0 Y
          (goto_cell (down_key k) width X (Y + 1)
          (goto_cell (up_key k) width X (Y - 1) f))))"

definition inputFieldKeyHandler :: "int \<Rightarrow> int \<Rightarrow> int \<Rightarrow> field \<Rightarrow> field option" where
  "inputFieldKeyHandler width ty newChar f =
     (if ty \<noteq> KEY_DOWN then Some f
      else map_option (\<lambda>f1.
          let f2 = move_cursor width (int (length (ftext f))) newChar f1
          in if newChar = 8 \<and> current_pos f2 > 0 then delete_at_cursor f2 else f2)
        (if typed newChar then type_at_cursor newChar f else Some f))"

section \<open>The cursor stays in the text\<close>

definition field_ok :: "field \<Rightarrow> bool" where
  "field_ok f \<longleftrightarrow> 0 \<le> current_pos f \<and> current_pos f \<le> int (length (ftext f)) \<and>
     int (length (ftext f)) < MAX_LONG_STRLEN \<and> 0 \<notin> set (ftext f)"

lemma offset_loop_bounds:
  "0 \<le> pos \<Longrightarrow> first \<le> pos \<Longrightarrow> 0 \<le> offset_loop cpl mx my str xy pos first \<and>
    offset_loop cpl mx my str xy pos first \<le> pos + int (length str)"
proof (induction str arbitrary: xy pos first)
  case (Cons c str)
  have "(if my = snd xy then pos else first) \<le> pos + 1" using Cons.prems by simp
  with Cons.IH [of "pos + 1" "if my = snd xy then pos else first" "advance cpl c xy"] Cons.prems show ?case
    by (auto simp: split: if_splits)
qed auto

lemma offset_bounds:
  "0 \<le> getInputOffsetFromMousePosition str width mx my"
  "getInputOffsetFromMousePosition str width mx my \<le> int (length str)"
  using offset_loop_bounds [of 0 0] by (simp_all add: getInputOffsetFromMousePosition_def)

lemma goto_cell_ok: "field_ok f \<Longrightarrow> field_ok (goto_cell b width mx my f)"
  by (simp add: goto_cell_def field_ok_def offset_bounds)

lemma goto_cell_text [simp]: "ftext (goto_cell b width mx my f) = ftext f"
  by (simp add: goto_cell_def)

lemma move_cursor_ok:
  assumes "field_ok f" "charCount \<le> int (length (ftext f))"
  shows "field_ok (move_cursor width charCount k f)"
  using assms unfolding move_cursor_def Let_def
  by (intro goto_cell_ok) (auto simp: field_ok_def step_left_def step_right_def)

lemma move_cursor_text [simp]: "ftext (move_cursor width charCount k f) = ftext f"
  by (simp add: move_cursor_def Let_def step_left_def step_right_def)

lemma of_int_typed:
  assumes "typed c"
  shows "(of_int c :: uchar) \<noteq> 0"
proof
  have "uint (of_int c :: uchar) = c mod 256" by (simp add: uint_word_of_int)
  moreover have "c mod 256 = c" "c \<noteq> 0" using assms by (auto simp: typed_def intro: mod_pos_pos_trivial)
  moreover assume "(of_int c :: uchar) = 0"
  then have "uint (of_int c :: uchar) = 0" by simp
  ultimately show False by linarith
qed

lemma type_at_cursor_ok:
  assumes "field_ok f" "typed c" "type_at_cursor c f = Some f'"
  shows "field_ok f' \<and> length (ftext f') = Suc (length (ftext f))"
proof -
  have "f' = \<lparr>ftext = take (nat (current_pos f)) (ftext f) @ [of_int c] @ drop (nat (current_pos f)) (ftext f),
      current_pos = current_pos f + 1\<rparr>" "int (length (ftext f)) + 2 \<le> MAX_LONG_STRLEN"
    using assms(3) by (auto simp: type_at_cursor_def Let_def split: if_splits)
  moreover have "nat (current_pos f) \<le> length (ftext f)" using assms(1) by (auto simp: field_ok_def)
  ultimately show ?thesis using assms(1) of_int_typed [OF assms(2)]
    by (auto simp: field_ok_def dest: in_set_takeD in_set_dropD)
qed

lemma delete_at_cursor_ok:
  assumes "field_ok f" "0 < current_pos f"
  shows "field_ok (delete_at_cursor f)"
proof -
  have "nat (current_pos f) \<le> length (ftext f)" "0 < nat (current_pos f)" using assms by (auto simp: field_ok_def)
  then have "length (ftext (delete_at_cursor f)) = length (ftext f) - 1"
    unfolding delete_at_cursor_def Let_def field.simps length_append length_take length_drop by linarith
  with assms show ?thesis
    by (auto simp: field_ok_def delete_at_cursor_def Let_def dest: in_set_takeD in_set_dropD)
qed

text \<open>C37: The cursor stays in the text: after any sequence of keys and clicks with any parameters the cursor lies
  between the beginning and the end of the text, which keeps its terminating zero, as long as the text has fewer than
  999 characters; then every key is handled within the array.\<close>

theorem field_keeps_cursor:
  assumes "field_ok f"
  shows "field_ok (inputMouseLeftClickHandler x y width ty mx my f) \<and>
    (\<forall>f'. inputFieldKeyHandler width ty k f = Some f' \<longrightarrow> field_ok f') \<and>
    (length (ftext f) < 999 \<longrightarrow> inputFieldKeyHandler width ty k f \<noteq> None)"
proof (intro conjI allI impI)
  show "field_ok (inputMouseLeftClickHandler x y width ty mx my f)"
    using assms by (simp add: inputMouseLeftClickHandler_def field_ok_def offset_bounds)
  show "length (ftext f) < 999 \<Longrightarrow> inputFieldKeyHandler width ty k f \<noteq> None"
    by (simp add: inputFieldKeyHandler_def type_at_cursor_def Let_def)
  fix f' assume h: "inputFieldKeyHandler width ty k f = Some f'"
  show "field_ok f'"
  proof (cases "ty = KEY_DOWN")
    case True
    let ?move = "move_cursor width (int (length (ftext f))) k"
    obtain f1 where f1: "(if typed k then type_at_cursor k f else Some f) = Some f1"
      "f' = (if k = 8 \<and> current_pos (?move f1) > 0 then delete_at_cursor (?move f1) else ?move f1)"
      using h True by (auto simp: inputFieldKeyHandler_def Let_def split: if_splits)
    have "field_ok f1 \<and> length (ftext f) \<le> length (ftext f1)"
      using f1(1) assms type_at_cursor_ok [OF assms] by (cases "typed k") auto
    then have "field_ok (?move f1)" by (intro move_cursor_ok) simp_all
    then show ?thesis using f1(2) delete_at_cursor_ok [of "?move f1"] by (auto simp only: split: if_splits)
  qed (use h assms in \<open>simp add: inputFieldKeyHandler_def\<close>)
qed

section \<open>Typing and deleting\<close>

definition plain_key :: "int \<Rightarrow> bool" where
  "plain_key k \<longleftrightarrow> \<not> left_key k \<and> \<not> right_key k \<and> \<not> up_key k \<and> \<not> down_key k \<and> \<not> home_key k \<and> \<not> end_key k"

lemma move_plain: "plain_key k \<Longrightarrow> move_cursor width n k f = f"
  by (simp add: plain_key_def move_cursor_def Let_def goto_cell_def step_left_def step_right_def)

text \<open>Typing inserts and backspace deletes: a character that is no cursor key is put at the cursor, which moves
  behind it; backspace then restores text and cursor.\<close>

theorem type_then_backspace:
  assumes "field_ok f" "typed k" "plain_key k" "length (ftext f) < 999"
  shows "\<exists>f'. inputFieldKeyHandler width KEY_DOWN k f = Some f' \<and>
    ftext f' = take (nat (current_pos f)) (ftext f) @ of_int k # drop (nat (current_pos f)) (ftext f) \<and>
    current_pos f' = current_pos f + 1 \<and> inputFieldKeyHandler width KEY_DOWN 8 f' = Some f"
proof -
  let ?p = "nat (current_pos f)"
  let ?f = "\<lparr>ftext = take ?p (ftext f) @ [of_int k] @ drop ?p (ftext f), current_pos = current_pos f + 1\<rparr>"
  have p: "?p \<le> length (ftext f)" "nat (current_pos f + 1) = Suc ?p" "0 \<le> current_pos f"
    using assms(1) by (auto simp: field_ok_def)
  have 8: "plain_key 8" "\<not> typed 8" "k \<noteq> 8"
    using assms(2) by (auto simp: plain_key_def left_key_def right_key_def up_key_def down_key_def home_key_def end_key_def typed_def)
  have "inputFieldKeyHandler width KEY_DOWN k f = Some ?f"
    using assms 8 by (simp add: inputFieldKeyHandler_def type_at_cursor_def Let_def move_plain)
  moreover have "inputFieldKeyHandler width KEY_DOWN 8 ?f = Some f"
    using 8 p by (simp add: inputFieldKeyHandler_def move_plain Let_def delete_at_cursor_def)
  ultimately show ?thesis by (intro exI [of _ ?f]) simp
qed

section \<open>Clicks find the character\<close>

definition later :: "int \<times> int \<Rightarrow> int \<times> int \<Rightarrow> bool" where
  "later p q \<longleftrightarrow> snd p < snd q \<or> snd p = snd q \<and> fst p < fst q"

lemma advance_later: "later p (advance cpl c p)"
  by (auto simp: later_def advance_def split: prod.split)

lemma later_trans: "later p q \<Longrightarrow> later q r \<Longrightarrow> later p r"
  by (auto simp: later_def)

lemma fold_advance_later: "cs \<noteq> [] \<Longrightarrow> later p (fold (advance cpl) cs p)"
proof (induction cs arbitrary: p)
  case (Cons c cs)
  then show ?case using advance_later [of p cpl c] later_trans by (cases "cs = []") auto
qed simp

lemma offset_loop_finds:
  "k < length str \<Longrightarrow> fold (advance cpl) (take k str) xy = (mx, my) \<Longrightarrow>
   offset_loop cpl mx my str xy pos first = pos + int k"
proof (induction str arbitrary: k xy pos first)
  case (Cons c str)
  show ?case
  proof (cases k)
    case 0
    then show ?thesis using Cons.prems(2) by auto
  next
    case (Suc j)
    have "later xy (fold (advance cpl) (take k (c # str)) xy)" by (rule fold_advance_later) (simp add: Suc)
    then have "\<not> (my = snd xy \<and> mx = fst xy)" using Cons.prems(2) by (auto simp: later_def)
    moreover have "offset_loop cpl mx my str (advance cpl c xy) (pos + 1) (if my = snd xy then pos else first) = pos + 1 + int j"
      using Cons.prems Suc by (intro Cons.IH) simp_all
    ultimately show ?thesis using Suc by (simp del: de_Morgan_conj)
  qed
qed simp

lemma cell_row: "0 \<le> snd p \<Longrightarrow> 0 \<le> snd (fold (advance cpl) cs p)"
proof (induction cs arbitrary: p)
  case (Cons c cs)
  have "0 \<le> snd (advance cpl c p)" using Cons.prems by (auto simp: advance_def split: prod.split)
  then show ?case using Cons.IH by simp
qed simp

text \<open>C38: Clicking on a character puts the cursor before it: the cell of an offset in the text is translated back
  to that offset, for every width of the field, broken lines and line ends included.\<close>

theorem cell_roundtrip:
  assumes "0 \<le> pos" "pos < int (length str)"
  shows "getInputOffsetFromMousePosition str width (getMouseXFromOffset str width pos) (getMouseYFromOffset str width pos) = pos"
proof -
  let ?cell = "cell_at str width pos"
  have "0 \<le> snd ?cell" unfolding cell_at_def by (rule cell_row) simp
  moreover have "offset_loop (chars_per_line width) (fst ?cell) (snd ?cell) str (0, 0) 0 0 = 0 + int (nat pos)"
    using assms by (intro offset_loop_finds) (simp_all add: cell_at_def)
  ultimately show ?thesis
    using assms(1) by (simp add: getInputOffsetFromMousePosition_def getMouseXFromOffset_def getMouseYFromOffset_def)
qed

section \<open>Defects\<close>

text \<open>The codes of the number pad are those of capital letters, and the digits of the pad are those of the main
  keyboard: a \<open>K\<close> or a \<open>4\<close> is inserted and the cursor moved back before it.\<close>

lemma letter_moves_left:
  assumes "k = 0x4B \<or> k = 0x34" "field_ok f" "length (ftext f) < 999"
  shows "\<exists>f'. inputFieldKeyHandler width KEY_DOWN k f = Some f' \<and> length (ftext f') = Suc (length (ftext f)) \<and>
    current_pos f' = current_pos f"
proof -
  have k: "typed k" "left_key k" "\<not> right_key k" "\<not> up_key k" "\<not> down_key k" "\<not> home_key k" "\<not> end_key k" "k \<noteq> 8"
    using assms(1) by (auto simp: typed_def left_key_def right_key_def up_key_def down_key_def home_key_def end_key_def)
  obtain f1 where f1: "type_at_cursor k f = Some f1" "current_pos f1 = current_pos f + 1"
    using assms(3) by (simp add: type_at_cursor_def Let_def)
  moreover have "length (ftext f1) = Suc (length (ftext f))" using type_at_cursor_ok [OF assms(2) k(1) f1(1)] by blast
  moreover have "0 \<le> current_pos f" using assms(2) by (simp add: field_ok_def)
  ultimately show ?thesis
    using k by (simp add: inputFieldKeyHandler_def move_cursor_def Let_def goto_cell_def step_left_def step_right_def)
qed

text \<open>In the last line the end key stops before the last character.\<close>

lemma end_key_misses:
  "inputFieldKeyHandler 100 KEY_DOWN 0xE1 \<lparr>ftext = [0x61, 0x62], current_pos = 0\<rparr> =
   Some \<lparr>ftext = [0x61, 0x62], current_pos = 1\<rparr>"
  by code_simp

section \<open>Witnesses\<close>

theorem field_keeps_cursor_witness:
  "field_ok (inputMouseLeftClickHandler 0 0 100 LEFT_CLICK 15 3 \<lparr>ftext = [0x61, 0x62], current_pos = 0\<rparr>)"
proof -
  have "field_ok \<lparr>ftext = [0x61, 0x62], current_pos = 0\<rparr>" by (simp add: field_ok_def)
  from field_keeps_cursor [OF this] show ?thesis by blast
qed

theorem type_then_backspace_witness:
  "\<exists>f'. inputFieldKeyHandler 100 KEY_DOWN 0x61 \<lparr>ftext = [0x62], current_pos = 1\<rparr> = Some f' \<and>
    ftext f' = [0x62, 0x61] \<and> inputFieldKeyHandler 100 KEY_DOWN 8 f' = Some \<lparr>ftext = [0x62], current_pos = 1\<rparr>"
proof -
  have "field_ok \<lparr>ftext = [0x62], current_pos = 1\<rparr>" "typed 0x61" "plain_key 0x61"
    by (simp_all add: field_ok_def typed_def plain_key_def left_key_def right_key_def up_key_def down_key_def home_key_def end_key_def)
  from type_then_backspace [OF this, of 100] show ?thesis by auto
qed

theorem cell_roundtrip_witness:
  "getInputOffsetFromMousePosition [0x61, 0x0A, 0x62] 100 (getMouseXFromOffset [0x61, 0x0A, 0x62] 100 2)
     (getMouseYFromOffset [0x61, 0x0A, 0x62] 100 2) = 2"
  by (rule cell_roundtrip) simp_all

end
