(* ===== verification/UserWindow.thy ===== *)
theory UserWindow
  imports UserGui UserHandler WindowManager
begin

text \<open>
  The widgets of a program's window, \<open>user/user_window.c\<close>, with the scroll bar of
  \<open>user/user_handler.c\<close>: a table of 50 slots with a doubly linked list in the order of drawing threaded through
  it, the creation of widgets, repainting, and the delivery of messages to the handler of a widget.

  A widget carries its context as a tagged union.  Handlers are programs' functions: \<open>call p m\<close> is what the handler of
  widget \<open>p\<close> does with the window on message \<open>m\<close>.  \<open>mem\<close> tells whether \<open>malloc\<close> succeeds; the code uses
  the result without a test, and a copy of a string that does not fit is unchecked, both of which are \<open>None\<close> here.
\<close>

section \<open>Data\<close>

abbreviation MAX_WIDGET_SIZE :: nat where "MAX_WIDGET_SIZE \<equiv> 50"

datatype widget_base =
    ColorFill "RGB list"
  | Button RGBA RGBA "uchar list"
  | TextLabel RGBA "uchar list"
  | InputField RGBA field
  | Shape "int list" bool RGBA RGBA
  | Unset

record widget =
  w_context :: widget_base
  w_position :: win_rect
  scrollable :: bool
  w_next :: int
  w_prev :: int
  w_handler :: nat

record uwindow =
  u_width :: int
  u_height :: int
  u_titlebar :: bool
  u_buf :: "RGB list"
  scrollX :: int
  scrollY :: int
  u_handler :: int
  widgets :: "widget list"
  widgetlisthead :: int
  widgetlisttail :: int
  keyfocus :: int
  needsRepaint :: bool

definition widget_at :: "uwindow \<Rightarrow> int \<Rightarrow> widget" where
  "widget_at win p = widgets win ! nat p"

definition upd_widget :: "int \<Rightarrow> (widget \<Rightarrow> widget) \<Rightarrow> uwindow \<Rightarrow> uwindow" where
  "upd_widget p f win = win\<lparr>widgets := (widgets win)[nat p := f (widgets win ! nat p)]\<rparr>"

section \<open>Windows\<close>

text \<open>\<open>hid\<close> is the handle that the kernel stores in the window.\<close>

definition u_createWindow :: "bool \<Rightarrow> int \<Rightarrow> uwindow \<Rightarrow> uwindow" where
  "u_createWindow mem hid win =
     (if \<not> mem then win
      else win\<lparr>u_buf := replicate (nat (u_width win * u_height win)) \<lparr>cB = 255, cG = 255, cR = 255\<rparr>,
        keyfocus := -1, scrollX := 0, scrollY := 0, widgetlisthead := -1, widgetlisttail := -1,
        widgets := map (\<lambda>i. (widgets win ! i)\<lparr>w_next := int i, w_prev := int i\<rparr>) [0..<MAX_WIDGET_SIZE],
        needsRepaint := True, u_handler := hid\<rparr>)"

text \<open>The popup window keeps the \<open>keyfocus\<close> it had.\<close>

definition u_createPopupWindow :: "bool \<Rightarrow> int \<Rightarrow> uwindow \<Rightarrow> uwindow" where
  "u_createPopupWindow mem hid win =
     (if \<not> mem then win
      else win\<lparr>u_buf := replicate (nat (u_width win * u_height win)) \<lparr>cB = 255, cG = 255, cR = 255\<rparr>,
        scrollX := 0, scrollY := 0, widgetlisthead := -1, widgetlisttail := -1,
        widgets := map (\<lambda>i. (widgets win ! i)\<lparr>w_next := int i, w_prev := int i\<rparr>) [0..<MAX_WIDGET_SIZE],
        needsRepaint := True, u_titlebar := False, u_handler := hid\<rparr>)"

section \<open>The list of widgets\<close>

definition setWidgetSize :: "int \<Rightarrow> int \<Rightarrow> int \<Rightarrow> int \<Rightarrow> widget \<Rightarrow> widget" where
  "setWidgetSize x y w h e = e\<lparr>w_position := \<lparr>xmin = x, xmax = x + w, ymin = y, ymax = y + h\<rparr>\<rparr>"

definition findNextAvailable :: "uwindow \<Rightarrow> int" where
  "findNextAvailable win =
     (case scan (\<lambda>i. w_prev (widgets win ! i) = int i \<and> w_next (widgets win ! i) = int i) 0 MAX_WIDGET_SIZE of
        Some i \<Rightarrow> int i | None \<Rightarrow> -1)"

definition addToWidgetListTail :: "int \<Rightarrow> uwindow \<Rightarrow> uwindow" where
  "addToWidgetListTail idx win =
     (let w1 = upd_widget idx (\<lambda>e. e\<lparr>w_prev := widgetlisttail win, w_next := -1\<rparr>) win;
          w2 = (if widgetlisttail w1 \<noteq> -1 then upd_widget (widgetlisttail w1) (\<lambda>e. e\<lparr>w_next := idx\<rparr>) w1 else w1)
      in w2\<lparr>widgetlisttail := idx\<rparr>)"

text \<open>The new head is read from the slot behind the tail.\<close>

definition removeFromWidgetList :: "int \<Rightarrow> uwindow \<Rightarrow> uwindow" where
  "removeFromWidgetList idx win =
     (let w1 = (if widgetlisthead win = idx then win\<lparr>widgetlisthead := w_next (widget_at win (widgetlisttail win))\<rparr> else win);
          w2 = (if widgetlisttail w1 = idx then w1\<lparr>widgetlisttail := w_prev (widget_at w1 (widgetlisttail w1))\<rparr> else w1);
          prv = w_prev (widget_at w2 idx); nxt = w_next (widget_at w2 idx);
          w3 = (if prv \<noteq> -1 then upd_widget prv (\<lambda>e. e\<lparr>w_next := nxt\<rparr>) w2 else w2);
          w4 = (if nxt \<noteq> -1 then upd_widget nxt (\<lambda>e. e\<lparr>w_prev := prv\<rparr>) w3 else w3)
      in upd_widget idx (\<lambda>e. e\<lparr>w_prev := idx, w_next := idx\<rparr>) w4)"

definition addWidget :: "uwindow \<Rightarrow> int \<times> uwindow" where
  "addWidget win =
     (let widgetId = findNextAvailable win in
      if widgetId = -1 then (-1, win)
      else (widgetId, addToWidgetListTail widgetId
             (if widgetlisthead win = -1 then win\<lparr>widgetlisthead := widgetId\<rparr> else win)))"

text \<open>\<open>freeWidget\<close> gives the memory of the context back and leaves the slot as it is.\<close>

definition removeWidget :: "int \<Rightarrow> uwindow \<Rightarrow> int \<times> uwindow" where
  "removeWidget index win =
     (if w_prev (widget_at win index) = index \<and> w_next (widget_at win index) = index then (-1, win)
      else (0, removeFromWidgetList index win))"

definition setWidgetHandler :: "int \<Rightarrow> nat \<Rightarrow> uwindow \<Rightarrow> uwindow" where
  "setWidgetHandler index h = upd_widget index (\<lambda>e. e\<lparr>w_handler := h\<rparr>)"

text \<open>What the functions that add a widget have in common: a slot, then its fields.\<close>

definition add_with :: "bool \<Rightarrow> widget_base option \<Rightarrow> int \<Rightarrow> int \<Rightarrow> int \<Rightarrow> int \<Rightarrow> bool \<Rightarrow> nat \<Rightarrow> uwindow \<Rightarrow> (int \<times> uwindow) option" where
  "add_with mem ctx x y w h scr hnd win =
     (case addWidget win of (widgetId, win1) \<Rightarrow>
        if widgetId = -1 then Some (-1, win)
        else case ctx of
          None \<Rightarrow> None
        | Some c \<Rightarrow>
            if \<not> mem then None
            else Some (widgetId, upd_widget widgetId
              (\<lambda>e. setWidgetSize x y w h (e\<lparr>w_context := c, w_handler := hnd, scrollable := scr\<rparr>)) win1))"

definition addRectangleWidget :: "bool \<Rightarrow> RGBA \<Rightarrow> RGBA \<Rightarrow> bool \<Rightarrow> int \<Rightarrow> int \<Rightarrow> int \<Rightarrow> int \<Rightarrow> bool \<Rightarrow> nat \<Rightarrow> uwindow \<Rightarrow> (int \<times> uwindow) option" where
  "addRectangleWidget mem c filledColor filled x y w h = add_with mem (Some (Shape [x, y, w, h] filled c filledColor)) x y w h"

text \<open>\<open>fresh\<close> is the memory of the picture as \<open>malloc\<close> returns it, with whatever it holds.\<close>

definition addColorFillWidget :: "RGB list option \<Rightarrow> RGBA \<Rightarrow> int \<Rightarrow> int \<Rightarrow> int \<Rightarrow> int \<Rightarrow> bool \<Rightarrow> nat \<Rightarrow> uwindow \<Rightarrow> (int \<times> uwindow) option" where
  "addColorFillWidget fresh c x y w h =
     add_with (fresh \<noteq> None) (map_option ColorFill (Option.bind fresh (fillRect 0 0 w h w h c))) x y w h"

definition addButtonWidget :: "bool \<Rightarrow> RGBA \<Rightarrow> RGBA \<Rightarrow> uchar list \<Rightarrow> int \<Rightarrow> int \<Rightarrow> int \<Rightarrow> int \<Rightarrow> bool \<Rightarrow> nat \<Rightarrow> uwindow \<Rightarrow> (int \<times> uwindow) option" where
  "addButtonWidget mem c bc txt x y w h =
     add_with mem (if length txt < 50 then Some (Button c bc txt) else None) x y w h"

definition addTextWidget :: "bool \<Rightarrow> RGBA \<Rightarrow> uchar list \<Rightarrow> int \<Rightarrow> int \<Rightarrow> int \<Rightarrow> int \<Rightarrow> bool \<Rightarrow> nat \<Rightarrow> uwindow \<Rightarrow> (int \<times> uwindow) option" where
  "addTextWidget mem c txt x y w h =
     add_with mem (if int (length txt) < MAX_LONG_STRLEN then Some (TextLabel c txt) else None) x y w h"

definition addInputFieldWidget :: "bool \<Rightarrow> RGBA \<Rightarrow> uchar list \<Rightarrow> int \<Rightarrow> int \<Rightarrow> int \<Rightarrow> int \<Rightarrow> bool \<Rightarrow> nat \<Rightarrow> uwindow \<Rightarrow> (int \<times> uwindow) option" where
  "addInputFieldWidget mem c txt x y w h scr hnd win =
     map_option (\<lambda>(widgetId, win1). (widgetId, if widgetId = -1 then win1 else win1\<lparr>keyfocus := widgetId\<rparr>))
       (add_with mem (if int (length txt) < MAX_LONG_STRLEN
           then Some (InputField c \<lparr>ftext = txt, current_pos = int (length txt)\<rparr>) else None) x y w h scr hnd win)"

definition addScrollBarWidget :: "RGB list option \<Rightarrow> RGBA \<Rightarrow> nat \<Rightarrow> uwindow \<Rightarrow> (int \<times> uwindow) option" where
  "addScrollBarWidget fresh color hnd win =
     addColorFillWidget fresh color (u_width win - 20) 0 (u_width win) (u_height win) False hnd win"

definition getScrollableTotalHeight :: "uwindow \<Rightarrow> int option" where
  "getScrollableTotalHeight win =
     map_option (foldl (\<lambda>total p. if scrollable (widget_at win p) \<and> ymax (w_position (widget_at win p)) > total
         then ymax (w_position (widget_at win p)) else total) 0)
       (walk (\<lambda>p. w_next (widget_at win p)) (widgetlisthead win))"

section \<open>Drawing\<close>

definition shown_x :: "uwindow \<Rightarrow> widget \<Rightarrow> int" where
  "shown_x win e = (if scrollable e then xmin (w_position e) - scrollX win else xmin (w_position e))"

definition shown_y :: "uwindow \<Rightarrow> widget \<Rightarrow> int" where
  "shown_y win e = (if scrollable e then ymin (w_position e) - scrollY win else ymin (w_position e))"

definition w_width :: "widget \<Rightarrow> int" where
  "w_width e = xmax (w_position e) - xmin (w_position e)"

definition w_height :: "widget \<Rightarrow> int" where
  "w_height e = ymax (w_position e) - ymin (w_position e)"

definition drawColorFillWidget :: "uwindow \<Rightarrow> widget \<Rightarrow> RGB list \<Rightarrow> RGB list \<Rightarrow> RGB list option" where
  "drawColorFillWidget win e img =
     u_draw24Image (u_width win) (u_height win) img (shown_x win e) (shown_y win e) (w_width e) (w_height e)"

definition black :: RGB where "black = \<lparr>cB = 0, cG = 0, cR = 0\<rparr>"

text \<open>The length of the text is unsigned, so that the width is compared as an unsigned number.\<close>

definition text_x_offset :: "int \<Rightarrow> int \<Rightarrow> int" where
  "text_x_offset width len =
     (if width mod 4294967296 > len * CHARACTER_WIDTH
      then (width mod 4294967296 - len * CHARACTER_WIDTH) div 2 else 2)"

definition drawButtonWidget :: "font \<Rightarrow> uwindow \<Rightarrow> widget \<Rightarrow> RGBA \<Rightarrow> RGBA \<Rightarrow> uchar list \<Rightarrow> RGB list \<Rightarrow> RGB list option" where
  "drawButtonWidget font win e color bg txt b =
     (let W = u_width win; H = u_height win; x = shown_x win e; y = shown_y win e; width = w_width e; height = w_height e
      in Option.bind (drawFillRect W H bg x y width height b) (\<lambda>b.
         Option.bind (u_drawRect W H black x y width height b)
           (u_drawString font W H txt color (x + text_x_offset width (int (length txt)))
             (y + (height - CHARACTER_HEIGHT) sdiv 2) width height)))"

definition drawShapeWidget :: "uwindow \<Rightarrow> int list \<Rightarrow> RGBA \<Rightarrow> RGB list \<Rightarrow> RGB list option" where
  "drawShapeWidget win ps color = u_drawRect (u_width win) (u_height win) (solid color) (ps ! 0) (ps ! 1) (ps ! 2) (ps ! 3)"

definition drawTextWidget :: "font \<Rightarrow> uwindow \<Rightarrow> widget \<Rightarrow> RGBA \<Rightarrow> uchar list \<Rightarrow> RGB list \<Rightarrow> RGB list option" where
  "drawTextWidget font win e color txt =
     u_drawString font (u_width win) (u_height win) txt color (shown_x win e) (shown_y win e) (w_width e) (w_height e)"

text \<open>The cell of the text cursor in pixels; \<open>cs\<close> are the characters before the cursor.\<close>

fun cursor_loop :: "int \<Rightarrow> int \<Rightarrow> uchar list \<Rightarrow> int \<times> int \<Rightarrow> int \<times> int" where
  "cursor_loop width height [] (offset_x, offset_y) = (offset_x, offset_y)"
| "cursor_loop width height (c # cs) (offset_x, offset_y) =
     (if offset_y > height then (offset_x, offset_y)
      else if c \<noteq> 0x0A
      then cursor_loop width height cs
        (if offset_x + CHARACTER_WIDTH > width then (0, offset_y + CHARACTER_HEIGHT) else (offset_x + CHARACTER_WIDTH, offset_y))
      else cursor_loop width height cs (0, offset_y + CHARACTER_HEIGHT))"

definition drawInputFieldWidget :: "font \<Rightarrow> uwindow \<Rightarrow> widget \<Rightarrow> RGBA \<Rightarrow> field \<Rightarrow> RGB list \<Rightarrow> RGB list option" where
  "drawInputFieldWidget font win e color fl b =
     (let W = u_width win; H = u_height win; x = shown_x win e; y = shown_y win e in
      Option.bind (u_drawString font W H (ftext fl) color x y (w_width e) (w_height e) b) (\<lambda>b.
        case cursor_loop (w_width e) (w_height e) (take (nat (current_pos fl)) (ftext fl)) (0, 0) of (ox, oy) \<Rightarrow>
          if oy < w_height e
          then drawFillRect W H \<lparr>aA = 255, aB = 0, aG = 0, aR = 0\<rparr> (x + ox) (y + oy + 1) 1 (CHARACTER_HEIGHT - 4) b
          else Some b))"

definition invisible :: "uwindow \<Rightarrow> widget \<Rightarrow> bool" where
  "invisible win e \<longleftrightarrow>
     (let dx = (if scrollable e then scrollX win else 0); dy = (if scrollable e then scrollY win else 0); r = w_position e in
      xmin r - dx > u_width win \<or> xmax r - dx < 0 \<or> ymin r - dy > u_height win \<or> ymax r - dy < 0)"

definition draw_widget :: "font \<Rightarrow> uwindow \<Rightarrow> widget \<Rightarrow> RGB list \<Rightarrow> RGB list option" where
  "draw_widget font win e =
     (case w_context e of
        ColorFill img \<Rightarrow> drawColorFillWidget win e img
      | Button color bg txt \<Rightarrow> drawButtonWidget font win e color bg txt
      | TextLabel color txt \<Rightarrow> drawTextWidget font win e color txt
      | InputField color fl \<Rightarrow> drawInputFieldWidget font win e color fl
      | Shape ps filled color _ \<Rightarrow> drawShapeWidget win ps color
      | Unset \<Rightarrow> Some)"

definition repaintWindow :: "font \<Rightarrow> uwindow \<Rightarrow> uwindow option" where
  "repaintWindow font win =
     (if \<not> needsRepaint win then Some win
      else Option.bind (walk (\<lambda>p. w_next (widget_at win p)) (widgetlisthead win)) (\<lambda>ps.
        map_option (\<lambda>b. win\<lparr>u_buf := b\<rparr>)
          (each (\<lambda>p b. if invisible win (widget_at win p) then Some b else draw_widget font win (widget_at win p) b) ps (u_buf win))))"

section \<open>Messages\<close>

datatype reaction = Exits | GuiMinimize | GuiMaximize | Called int message | Nothing

definition on_widget :: "uwindow \<Rightarrow> int \<Rightarrow> int \<Rightarrow> int \<Rightarrow> bool" where
  "on_widget win mx my p \<longleftrightarrow>
     (let e = widget_at win p; r = w_position e;
          dx = (if scrollable e then scrollX win else 0); dy = (if scrollable e then scrollY win else 0)
      in isInRect (xmin r - dx) (ymin r - dy) (xmax r - dx) (ymax r - dy) mx my)"

definition is_input :: "widget \<Rightarrow> bool" where
  "is_input e \<longleftrightarrow> (case w_context e of InputField _ _ \<Rightarrow> True | _ \<Rightarrow> False)"

definition is_key :: "message \<Rightarrow> bool" where
  "is_key m \<longleftrightarrow> msg_type m = 2 \<or> msg_type m = 1"

text \<open>The message that a scrolled widget receives is a new one, with the position in the scrolled area.\<close>

definition scrolled_msg :: "uwindow \<Rightarrow> int \<Rightarrow> message \<Rightarrow> message" where
  "scrolled_msg win p m =
     (if \<not> scrollable (widget_at win p) then m
      else \<lparr>msg_type = msg_type m, msg_params = [param m 0 + scrollX win, param m 1 + scrollY win]\<rparr>)"

definition deliver :: "(int \<Rightarrow> message \<Rightarrow> uwindow \<Rightarrow> uwindow) \<Rightarrow> int \<Rightarrow> message \<Rightarrow> uwindow \<Rightarrow> reaction \<times> uwindow" where
  "deliver call p m win =
     (let win1 = call p m win
      in (Called p m, if is_input (widget_at win1 p) then win1\<lparr>keyfocus := p\<rparr> else win1))"

text \<open>\<open>reply\<close> is the result of \<open>GUI_getMessage\<close>.\<close>

definition updateWindow ::
    "font \<Rightarrow> (int \<Rightarrow> message \<Rightarrow> uwindow \<Rightarrow> uwindow) \<Rightarrow> message option \<Rightarrow> uwindow \<Rightarrow> (reaction \<times> uwindow) option" where
  "updateWindow font call reply win0 =
     Option.bind (repaintWindow font win0) (\<lambda>win1.
       case reply of
         None \<Rightarrow> Some (Nothing, win1\<lparr>needsRepaint := False\<rparr>)
       | Some m \<Rightarrow>
           let win = win1\<lparr>needsRepaint := True\<rparr> in
           if msg_type m = WM_WINDOW_CLOSE then Some (Exits, win)
           else if msg_type m = WM_WINDOW_MINIMIZE then Some (GuiMinimize, win)
           else if msg_type m = WM_WINDOW_MAXIMIZE then Some (GuiMaximize, win)
           else if keyfocus win \<noteq> -1 \<and> is_key m then Some (Called (keyfocus win) m, call (keyfocus win) m win)
           else map_option (\<lambda>p. if p = -1 then (Nothing, win) else deliver call p (scrolled_msg win p m) win)
             (first_on (\<lambda>p. w_prev (widget_at win p)) (on_widget win (param m 0) (param m 1)) (widgetlisttail win)))"

text \<open>A popup window does not take scrolling into account, and uses \<open>keyfocus\<close> as an index without a test.\<close>

definition on_popup_widget :: "uwindow \<Rightarrow> int \<Rightarrow> int \<Rightarrow> int \<Rightarrow> bool" where
  "on_popup_widget win mx my p \<longleftrightarrow>
     (let r = w_position (widget_at win p) in isInRect (xmin r) (ymin r) (xmax r) (ymax r) mx my)"

definition updatePopupWindow ::
    "font \<Rightarrow> (int \<Rightarrow> message \<Rightarrow> uwindow \<Rightarrow> uwindow) \<Rightarrow> message option \<Rightarrow> uwindow \<Rightarrow> (reaction \<times> uwindow) option" where
  "updatePopupWindow font call reply win0 =
     Option.bind (repaintWindow font win0) (\<lambda>win1.
       case reply of
         None \<Rightarrow> Some (Nothing, win1\<lparr>needsRepaint := False\<rparr>)
       | Some m \<Rightarrow>
           let win = win1\<lparr>needsRepaint := True\<rparr> in
           if msg_type m = WM_WINDOW_CLOSE then Some (Exits, win)
           else if is_key m
           then (if 0 \<le> keyfocus win \<and> keyfocus win < int (length (widgets win))
                 then Some (Called (keyfocus win) m, call (keyfocus win) m win) else None)
           else map_option (\<lambda>p. if p = -1 then (Nothing, win) else deliver call p m win)
             (first_on (\<lambda>p. w_prev (widget_at win p)) (on_popup_widget win (param m 0) (param m 1)) (widgetlisttail win)))"

section \<open>The list of widgets refines an order of drawing\<close>

definition wnx :: "uwindow \<Rightarrow> nat \<Rightarrow> int" where
  "wnx win i = w_next (widgets win ! i)"

definition wpv :: "uwindow \<Rightarrow> nat \<Rightarrow> int" where
  "wpv win i = w_prev (widgets win ! i)"

definition free_widget :: "uwindow \<Rightarrow> nat \<Rightarrow> bool" where
  "free_widget win i \<longleftrightarrow> wpv win i = int i \<and> wnx win i = int i"

text \<open>\<open>wlist win ws\<close>: the widgets are \<open>ws\<close>, the one drawn first in front.\<close>

definition wlist :: "uwindow \<Rightarrow> nat list \<Rightarrow> bool" where
  "wlist win ws \<longleftrightarrow> length (widgets win) = MAX_WIDGET_SIZE \<and> set ws \<subseteq> {..<MAX_WIDGET_SIZE} \<and>
     dll (wnx win) (wpv win) ws \<and> widgetlisthead win = head_of ws \<and> widgetlisttail win = last_of ws \<and>
     (\<forall>i<MAX_WIDGET_SIZE. i \<notin> set ws \<longrightarrow> free_widget win i)"

lemma wlistD:
  assumes "wlist win ws"
  shows "length (widgets win) = MAX_WIDGET_SIZE" "w \<in> set ws \<Longrightarrow> w < MAX_WIDGET_SIZE"
    "dll (wnx win) (wpv win) ws" "widgetlisthead win = head_of ws" "widgetlisttail win = last_of ws"
    "distinct ws" "i < MAX_WIDGET_SIZE \<Longrightarrow> i \<notin> set ws \<Longrightarrow> free_widget win i"
  using assms by (auto simp: wlist_def dll_def)

lemma upd_widget_simps [simp]:
  "widgetlisthead (upd_widget p f win) = widgetlisthead win"
  "widgetlisttail (upd_widget p f win) = widgetlisttail win"
  "length (widgets (upd_widget p f win)) = length (widgets win)"
  by (simp_all add: upd_widget_def)

lemma wnx_upd:
  "nat p < length (widgets win) \<Longrightarrow> wnx (upd_widget p f win) = (wnx win)(nat p := w_next (f (widgets win ! nat p)))"
  by (auto simp: wnx_def upd_widget_def fun_eq_iff nth_list_update)

lemma wpv_upd:
  "nat p < length (widgets win) \<Longrightarrow> wpv (upd_widget p f win) = (wpv win)(nat p := w_prev (f (widgets win ! nat p)))"
  by (auto simp: wpv_def upd_widget_def fun_eq_iff nth_list_update)

lemma wpv_keep: "(\<And>e. w_prev (f e) = w_prev e) \<Longrightarrow> wpv (upd_widget p f win) = wpv win"
  by (cases "nat p < length (widgets win)";
    auto simp: wpv_def upd_widget_def fun_eq_iff nth_list_update list_update_beyond)

lemma wnx_keep: "(\<And>e. w_next (f e) = w_next e) \<Longrightarrow> wnx (upd_widget p f win) = wnx win"
  by (cases "nat p < length (widgets win)";
    auto simp: wnx_def upd_widget_def fun_eq_iff nth_list_update list_update_beyond)

lemma wlist_links: "widgets win' = widgets win \<Longrightarrow> wnx win' = wnx win \<and> wpv win' = wpv win"
  by (simp add: wnx_def wpv_def fun_eq_iff)

lemma wlist_links_tail [simp]: "wnx (win\<lparr>widgetlisttail := p\<rparr>) = wnx win" "wpv (win\<lparr>widgetlisttail := p\<rparr>) = wpv win"
  by (simp_all add: wnx_def wpv_def fun_eq_iff)

lemma wlist_cong:
  assumes "wnx win' = wnx win" "wpv win' = wpv win" "widgetlisthead win' = widgetlisthead win"
    "widgetlisttail win' = widgetlisttail win" "length (widgets win') = length (widgets win)"
  shows "wlist win' ws = wlist win ws"
  using assms by (simp add: wlist_def free_widget_def)

lemma wlist_cong_fields:
  "widgets win' = widgets win \<Longrightarrow> widgetlisthead win' = widgetlisthead win \<Longrightarrow>
   widgetlisttail win' = widgetlisttail win \<Longrightarrow> wlist win' ws = wlist win ws"
  using wlist_links [of win' win] by (intro wlist_cong) simp_all

lemma wlist_upd_content:
  "(\<And>e. w_next (f e) = w_next e \<and> w_prev (f e) = w_prev e) \<Longrightarrow> wlist (upd_widget p f win) ws = wlist win ws"
  by (rule wlist_cong) (auto simp: wnx_keep wpv_keep)

lemma widget_link: "w_next (widget_at win (int v)) = wnx win v" "w_prev (widget_at win (int v)) = wpv win v"
  by (simp_all add: widget_at_def wnx_def wpv_def)

lemma wlist_fresh:
  assumes "widgets win = map (\<lambda>i. (ws ! i)\<lparr>w_next := int i, w_prev := int i\<rparr>) [0..<MAX_WIDGET_SIZE]"
    "widgetlisthead win = -1" "widgetlisttail win = -1"
  shows "wlist win []"
proof -
  have "length (widgets win) = MAX_WIDGET_SIZE" unfolding assms(1) length_map length_upt by simp
  moreover have "free_widget win i" if "i < MAX_WIDGET_SIZE" for i
    using that nth_map [of i "[0..<MAX_WIDGET_SIZE]" "\<lambda>i. (ws ! i)\<lparr>w_next := int i, w_prev := int i\<rparr>"]
    unfolding free_widget_def wnx_def wpv_def assms(1) length_upt by simp
  ultimately show ?thesis using assms(2,3) by (simp add: wlist_def dll_def)
qed

lemma fresh_wlist: "wlist (u_createWindow True hid win) []" "wlist (u_createPopupWindow True hid win) []"
  unfolding u_createWindow_def u_createPopupWindow_def
  by (rule wlist_fresh [where ws = "widgets win"]; simp del: upt.simps upt_rec_numeral)+

subsection \<open>Adding\<close>

lemma addToWidgetListTail_wlist:
  assumes s: "wlist win ws" and v: "v < MAX_WIDGET_SIZE" "v \<notin> set ws"
    and h: "win1 = (if widgetlisthead win = -1 then win\<lparr>widgetlisthead := int v\<rparr> else win)"
  shows "wlist (addToWidgetListTail (int v) win1) (ws @ [v])"
proof -
  note d = wlistD [OF s]
  let ?w2 = "upd_widget (int v) (\<lambda>e. e\<lparr>w_prev := widgetlisttail win1, w_next := -1\<rparr>) win1"
  let ?t = "addToWidgetListTail (int v) win1"
  have w1: "widgets win1 = widgets win" "widgetlisttail win1 = last_of ws" "widgetlisthead win1 = head_of (ws @ [v])"
    using d(4,5) by (cases ws; simp add: h)+
  have n2: "wnx ?w2 = (wnx win)(v := -1)" "wpv ?w2 = (wpv win)(v := last_of ws)"
    using wnx_upd [of "int v" win1] wpv_upd [of "int v" win1] d(1) v(1) w1 wlist_links [OF w1(1)] by simp_all
  have nx: "wnx ?t = (if ws = [] then (wnx win)(v := -1) else (wnx win)(v := -1, last ws := int v))"
  proof (cases "ws = []")
    case True
    then show ?thesis using n2(1) w1(2) by (simp add: addToWidgetListTail_def Let_def wnx_def fun_eq_iff)
  next
    case False
    have "last ws < MAX_WIDGET_SIZE" using d(2) last_in_set [OF False] by blast
    then have "wnx (upd_widget (int (last ws)) (\<lambda>e. e\<lparr>w_next := int v\<rparr>) ?w2) = (wnx ?w2)(last ws := int v)"
      using d(1) w1(1) by (subst wnx_upd) simp_all
    moreover have "widgetlisttail win1 = int (last ws)" using w1(2) False by (simp add: last_of_def)
    ultimately show ?thesis using False n2(1)
      by (simp add: addToWidgetListTail_def Let_def)
  qed
  have "wpv ?t = wpv ?w2"
    by (simp add: addToWidgetListTail_def Let_def wpv_keep)
  then have pv: "wpv ?t = (wpv win)(v := last_of ws)" using n2(2) by simp
  have "dll (wnx ?t) (wpv ?t) (ws @ [v])" by (rule dll_append [OF d(3) v(2) nx pv])
  moreover have "free_widget ?t i" if "i < MAX_WIDGET_SIZE" "i \<notin> set (ws @ [v])" for i
  proof -
    have "ws \<noteq> [] \<longrightarrow> i \<noteq> last ws" using that(2) by auto
    then show ?thesis using d(7) [of i] that by (auto simp: free_widget_def nx pv)
  qed
  moreover have "widgetlisthead ?t = head_of (ws @ [v])" "widgetlisttail ?t = last_of (ws @ [v])"
    "length (widgets ?t) = MAX_WIDGET_SIZE"
    using w1 d(1) by (auto simp: addToWidgetListTail_def Let_def)
  moreover have "set (ws @ [v]) \<subseteq> {..<MAX_WIDGET_SIZE}" using d(2) v(1) by auto
  ultimately show ?thesis by (simp only: wlist_def) blast
qed

lemma find_widget:
  assumes s: "wlist win ws"
  shows "findNextAvailable win = -1 \<and> length ws = MAX_WIDGET_SIZE \<or>
    (\<exists>v. findNextAvailable win = int v \<and> v < MAX_WIDGET_SIZE \<and> v \<notin> set ws)"
proof -
  note d = wlistD [OF s]
  let ?P = "\<lambda>i. w_prev (widgets win ! i) = int i \<and> w_next (widgets win ! i) = int i"
  have P: "?P i \<longleftrightarrow> free_widget win i" for i by (simp add: free_widget_def wnx_def wpv_def)
  show ?thesis
  proof (cases "scan ?P 0 MAX_WIDGET_SIZE")
    case None
    then have "i \<in> set ws" if "i < MAX_WIDGET_SIZE" for i
      using d(7) [of i] that P by (auto simp: scan_eq_None)
    then have "set ws = {..<MAX_WIDGET_SIZE}" using d(2) by auto
    then have "length ws = MAX_WIDGET_SIZE" using distinct_card [OF d(6)] by simp
    with None show ?thesis by (simp add: findNextAvailable_def)
  next
    case (Some v)
    then have v: "v < MAX_WIDGET_SIZE" "free_widget win v" using scan_SomeD [OF Some] by (auto simp: P)
    then have "v \<notin> set ws" using dll_not_self [OF d(3)] by (auto simp: free_widget_def)
    with Some v show ?thesis by (simp add: findNextAvailable_def)
  qed
qed

lemma addWidget_wlist:
  assumes s: "wlist win ws"
  shows "addWidget win = (-1, win) \<and> length ws = MAX_WIDGET_SIZE \<or>
    (\<exists>v win'. addWidget win = (int v, win') \<and> v < MAX_WIDGET_SIZE \<and> v \<notin> set ws \<and> wlist win' (ws @ [v]))"
  using find_widget [OF s] addToWidgetListTail_wlist [OF s _ _ refl] by (auto simp: addWidget_def Let_def)

text \<open>The functions that add a widget of some kind put it behind the others, with the contents asked for.\<close>

lemma add_with_wlist:
  assumes s: "wlist win ws"
  shows "add_with mem (Some c) x y w h scr hnd win = Some (-1, win) \<and> length ws = MAX_WIDGET_SIZE \<or>
    \<not> mem \<and> add_with mem (Some c) x y w h scr hnd win = None \<or>
    (\<exists>v win'. add_with mem (Some c) x y w h scr hnd win = Some (int v, win') \<and> v \<notin> set ws \<and> wlist win' (ws @ [v]) \<and>
       w_context (widget_at win' (int v)) = c \<and> scrollable (widget_at win' (int v)) = scr \<and>
       w_handler (widget_at win' (int v)) = hnd \<and>
       w_position (widget_at win' (int v)) = \<lparr>xmin = x, xmax = x + w, ymin = y, ymax = y + h\<rparr>)"
proof (cases "addWidget win = (-1, win) \<and> length ws = MAX_WIDGET_SIZE")
  case True
  then show ?thesis by (simp add: add_with_def)
next
  case False
  then obtain v win' where a: "addWidget win = (int v, win')" "v < MAX_WIDGET_SIZE" "v \<notin> set ws" "wlist win' (ws @ [v])"
    using addWidget_wlist [OF s] by blast
  let ?f = "\<lambda>e. setWidgetSize x y w h (e\<lparr>w_context := c, w_handler := hnd, scrollable := scr\<rparr>)"
  have "wlist (upd_widget (int v) ?f win') (ws @ [v])"
    using a(4) by (subst wlist_upd_content) (simp_all add: setWidgetSize_def)
  moreover have "widget_at (upd_widget (int v) ?f win') (int v) = ?f (widget_at win' (int v))"
    using wlistD(1) [OF a(4)] a(2) by (simp add: widget_at_def upd_widget_def)
  ultimately show ?thesis using a(1,3) by (simp add: add_with_def setWidgetSize_def)
qed

subsection \<open>Removing\<close>

lemma remove_inner:
  assumes s: "wlist win (as @ v # bs)" and ane: "as \<noteq> []"
  shows "wlist (removeFromWidgetList (int v) win) (as @ bs)"
proof -
  note d = wlistD [OF s]
  have di: "v \<notin> set as" "v \<notin> set bs" "set as \<inter> set bs = {}" using d(6) by auto
  have lt: "v < length (widgets win)" "last as < length (widgets win)" "bs \<noteq> [] \<Longrightarrow> hd bs < length (widgets win)"
    using d(1) d(2) [of v] d(2) [of "last as"] d(2) [of "hd bs"] ane by auto
  have nv: "last as \<noteq> v" "bs \<noteq> [] \<Longrightarrow> hd bs \<noteq> v" using di ane by auto
  have lk: "wpv win v = int (last as)" "wnx win v = head_of bs"
    using dll_links [OF d(3)] ane by (simp_all add: last_of_def)
  define w2 where "w2 = (if widgetlisttail win = int v then win\<lparr>widgetlisttail := int (last as)\<rparr> else win)"
  define w3 where "w3 = upd_widget (int (last as)) (\<lambda>e. e\<lparr>w_next := head_of bs\<rparr>) w2"
  define w4 where "w4 = (if bs = [] then w3 else upd_widget (int (hd bs)) (\<lambda>e. e\<lparr>w_prev := int (last as)\<rparr>) w3)"
  define w5 where "w5 = upd_widget (int v) (\<lambda>e. e\<lparr>w_prev := int v, w_next := int v\<rparr>) w4"
  have l2: "wnx w2 = wnx win" "wpv w2 = wpv win" "length (widgets w2) = length (widgets win)" by (simp_all add: w2_def)
  have l3: "wnx w3 = (wnx win)(last as := wnx win v)" "wpv w3 = wpv win" "length (widgets w3) = length (widgets win)"
    using wnx_upd [of "int (last as)" w2] lt l2 lk(2) by (simp_all add: w3_def wpv_keep)
  have l4: "wnx w4 = (wnx win)(last as := wnx win v)" "length (widgets w4) = length (widgets win)"
    "wpv w4 = (if bs = [] then wpv win else (wpv win)(hd bs := wpv win v))"
    using wpv_upd [of "int (hd bs)" w3] lt(3) l3 lk(1) by (simp_all add: w4_def wnx_keep)
  have l5: "wnx w5 = (wnx w4)(v := int v)" "wpv w5 = (wpv w4)(v := int v)"
    using wnx_upd [of "int v" w4] wpv_upd [of "int v" w4] lt(1) l4(2) by (simp_all add: w5_def)
  have "dll (wnx w4) (wpv w4) (as @ bs)" by (rule dll_remove [OF d(3)]) (simp_all add: l4 ane)
  then have "dll (wnx w5) (wpv w5) (as @ bs)"
    unfolding l5 by (rule dll_cong) (use di in auto)
  moreover have "free_widget w5 i" if "i < MAX_WIDGET_SIZE" "i \<notin> set (as @ bs)" for i
  proof -
    have "i \<noteq> last as" "bs \<noteq> [] \<longrightarrow> i \<noteq> hd bs" using that(2) ane by auto
    then show ?thesis using d(7) [of i] that by (cases "i = v") (auto simp: free_widget_def l5 l4)
  qed
  moreover have "widgetlisthead w5 = head_of (as @ bs)" "widgetlisttail w5 = last_of (as @ bs)"
    using d(4,5) ane di(2) last_in_set [of bs] by (auto simp: w5_def w4_def w3_def w2_def head_of_def last_of_def)
  moreover have "removeFromWidgetList (int v) win = w5"
  proof -
    have h: "widgetlisthead win \<noteq> int v" using d(4) di(1) ane by (cases as) auto
    have a: "w_prev (widget_at w2 (int v)) = int (last as)" "w_next (widget_at w2 (int v)) = head_of bs"
      by (simp_all add: widget_link l2 lk)
    have t: "(if widgetlisttail win = int v then win\<lparr>widgetlisttail := w_prev (widget_at win (widgetlisttail win))\<rparr> else win) = w2"
      using lk(1) by (simp add: w2_def widget_link)
    show ?thesis unfolding removeFromWidgetList_def Let_def if_not_P [OF h] t a
      by (simp add: w5_def w4_def w3_def head_of_def)
  qed
  moreover have "length (widgets w5) = MAX_WIDGET_SIZE" "set (as @ bs) \<subseteq> {..<MAX_WIDGET_SIZE}"
    using d(1,2) l4(2) by (auto simp: w5_def)
  ultimately show ?thesis by (simp only: wlist_def) blast
qed

lemma remove_only:
  assumes s: "wlist win [v]"
  shows "wlist (removeFromWidgetList (int v) win) []"
proof -
  note d = wlistD [OF s]
  have lk: "wpv win v = -1" "wnx win v = -1" using dll_links [of "wnx win" "wpv win" "[]" v "[]"] d(3) by simp_all
  let ?w1 = "win\<lparr>widgetlisthead := -1, widgetlisttail := -1\<rparr>"
  let ?w2 = "upd_widget (int v) (\<lambda>e. e\<lparr>w_prev := int v, w_next := int v\<rparr>) ?w1"
  have "w_prev (widget_at ?w1 (int v)) = -1" "w_next (widget_at ?w1 (int v)) = -1"
    using lk by (simp_all add: widget_at_def wnx_def wpv_def)
  moreover have "w_next (widget_at win (int v)) = -1" "w_prev (widget_at (win\<lparr>widgetlisthead := -1\<rparr>) (int v)) = -1"
    using lk by (simp_all add: widget_at_def wnx_def wpv_def)
  ultimately have eq: "removeFromWidgetList (int v) win = ?w2"
    using d(4,5) by (simp add: removeFromWidgetList_def Let_def last_of_def)
  have v: "v < length (widgets win)" using d(1) d(2) [of v] by simp
  have "wnx ?w2 = (wnx win)(v := int v)" "wpv ?w2 = (wpv win)(v := int v)"
    using wnx_upd [of "int v" ?w1] wpv_upd [of "int v" ?w1] v wlist_links [of ?w1 win] by simp_all
  then have "free_widget ?w2 i" if "i < MAX_WIDGET_SIZE" for i
    using d(7) [of i] that by (cases "i = v") (auto simp: free_widget_def)
  then show ?thesis using d(1) by (simp add: eq wlist_def dll_def)
qed

lemma removeWidget_wlist:
  assumes s: "wlist win ws" and v: "v \<in> set ws" and h: "v \<noteq> hd ws \<or> ws = [v]"
  shows "\<exists>win'. removeWidget (int v) win = (0, win') \<and> wlist win' (remove1 v ws)"
proof -
  obtain as bs where ws: "ws = as @ v # bs" and na: "v \<notin> set as" using v by (meson split_list_first)
  have r: "remove1 v ws = as @ bs" using na by (simp add: ws remove1_append)
  have "wlist (removeFromWidgetList (int v) win) (as @ bs)"
  proof (cases "as = []")
    case True
    then have "bs = []" using h ws by auto
    then show ?thesis using remove_only s True ws by simp
  next
    case False
    then show ?thesis using remove_inner s ws by simp
  qed
  moreover have "\<not> (wpv win v = int v \<and> wnx win v = int v)" using dll_not_self [OF wlistD(3) [OF s] v] by simp
  ultimately show ?thesis by (simp add: removeWidget_def widget_link r)
qed

text \<open>Taking out the first of several widgets reads the new head from the slot behind the tail, which is none: no
  widget is drawn from then on, although the others still get their clicks.\<close>

lemma remove_first_hides_all:
  assumes s: "wlist win (v # bs)" "bs \<noteq> []"
  shows "\<exists>win'. removeWidget (int v) win = (0, win') \<and> widgetlisthead win' = -1 \<and> widgetlisttail win' = last_of bs"
proof -
  note d = wlistD [OF s(1)]
  have "v \<notin> set bs" using d(6) by simp
  then have t: "widgetlisttail win = int (last bs)" "int (last bs) \<noteq> int v" using d(5) s(2) by (auto simp: last_of_Cons last_of_def)
  have "dll (wnx win) (wpv win) ((v # butlast bs) @ last bs # [])" using d(3) s(2) by simp
  then have "wnx win (last bs) = -1" using dll_links(2) by fastforce
  then have "w_next (widget_at win (widgetlisttail win)) = -1" by (simp add: t(1) widget_link)
  moreover have "\<not> (wpv win v = int v \<and> wnx win v = int v)" using dll_not_self [OF d(3), of v] by simp
  ultimately show ?thesis using d(4) t s(2)
    by (simp add: removeWidget_def removeFromWidgetList_def Let_def widget_link last_of_def)
qed

lemma repaint_without_head: "widgetlisthead win = -1 \<Longrightarrow> repaintWindow font win = Some win"
  by (simp add: repaintWindow_def)

section \<open>What programs rely on\<close>

text \<open>The order of drawing under the operations on widgets: a new widget goes behind the others, or none is free; taking one out
  that is not the first of several closes the gap and frees its slot, taking out the first of several empties the list for drawing.\<close>

lemma addButtonWidget_wlist:
  assumes "wlist win ws" "length txt < 50"
  shows "case addButtonWidget True c bg txt x y w h scr hnd win of None \<Rightarrow> False | Some (r, win') \<Rightarrow>
      r = -1 \<and> length ws = MAX_WIDGET_SIZE \<and> win' = win \<or>
      (\<exists>u. r = int u \<and> u \<notin> set ws \<and> wlist win' (ws @ [u]) \<and> w_context (widget_at win' r) = Button c bg txt \<and>
         w_handler (widget_at win' r) = hnd \<and>
         w_position (widget_at win' r) = \<lparr>xmin = x, xmax = x + w, ymin = y, ymax = y + h\<rparr>)"
  using add_with_wlist [OF assms(1), of True "Button c bg txt" x y w h scr hnd] assms(2)
  by (auto simp: addButtonWidget_def)

text \<open>C28: The doubly linked widget list implements the order of drawing, up to one case.  A new window has no
  widgets; adding a button (as any other widget) whose text has less than 50 characters, the room in its structure, puts it,
  with its text, its place and its handler, behind all the others, and fails only when all 50 slots are in use; removing a widget that is not there fails and changes
  nothing; removing one that is there succeeds and takes exactly that one out, unless it is the first of
  several: then the head of the list is lost, and the window draws none of the others any more,
  which still stand behind the tail for the pointer.\<close>

theorem widgets_refine_order:
  assumes "wlist win ws" and "v < MAX_WIDGET_SIZE" and "length txt < 50"
  shows "(case addButtonWidget True c bg txt x y w h scr hnd win of None \<Rightarrow> False | Some (r, win') \<Rightarrow>
      r = -1 \<and> length ws = MAX_WIDGET_SIZE \<and> win' = win \<or>
      (\<exists>u. r = int u \<and> u \<notin> set ws \<and> wlist win' (ws @ [u]) \<and> w_context (widget_at win' r) = Button c bg txt \<and>
         w_handler (widget_at win' r) = hnd \<and>
         w_position (widget_at win' r) = \<lparr>xmin = x, xmax = x + w, ymin = y, ymax = y + h\<rparr>)) \<and>
    (v \<notin> set ws \<longrightarrow> removeWidget (int v) win = (-1, win)) \<and>
    (v \<in> set ws \<longrightarrow> (\<exists>win'. removeWidget (int v) win = (0, win') \<and>
      (if v = hd ws \<and> ws \<noteq> [v]
       then widgetlisttail win' = last_of ws \<and> (\<forall>font. repaintWindow font win' = Some win')
       else wlist win' (remove1 v ws)))) \<and>
    wlist (u_createWindow True hid win) []"
proof (intro conjI impI)
  show "v \<notin> set ws \<Longrightarrow> removeWidget (int v) win = (-1, win)"
    using wlistD(7) [OF assms(1,2)] by (simp add: removeWidget_def widget_link free_widget_def)
  assume v: "v \<in> set ws"
  show "\<exists>win'. removeWidget (int v) win = (0, win') \<and>
      (if v = hd ws \<and> ws \<noteq> [v]
       then widgetlisttail win' = last_of ws \<and> (\<forall>font. repaintWindow font win' = Some win')
       else wlist win' (remove1 v ws))"
  proof (cases "v = hd ws \<and> ws \<noteq> [v]")
    case True
    then obtain bs where ws: "ws = v # bs" "bs \<noteq> []" using v by (cases ws) auto
    obtain win' where w: "removeWidget (int v) win = (0, win')" "widgetlisthead win' = -1" "widgetlisttail win' = last_of bs"
      using remove_first_hides_all [OF assms(1) [unfolded ws(1)] ws(2)] by blast
    then have "widgetlisttail win' = last_of ws" using ws by (simp add: last_of_Cons)
    moreover have "\<forall>font. repaintWindow font win' = Some win'" using repaint_without_head [OF w(2)] by blast
    ultimately show ?thesis unfolding if_P [OF True] using w(1) by blast
  next
    case False
    then have "v \<noteq> hd ws \<or> ws = [v]" by blast
    from removeWidget_wlist [OF assms(1) v this] show ?thesis unfolding if_not_P [OF False] .
  qed
qed (rule addButtonWidget_wlist [OF assms(1,3)] fresh_wlist(1))+

subsection \<open>Drawing stays in the buffer\<close>

text \<open>A picture must have the size of its widget, and a frame must not end exactly at the right or lower edge of the window.\<close>

definition drawable :: "uwindow \<Rightarrow> widget \<Rightarrow> bool" where
  "drawable win e \<longleftrightarrow> (case w_context e of
     ColorFill img \<Rightarrow> int (length img) = w_width e * w_height e
   | Button _ _ _ \<Rightarrow> shown_x win e + w_width e \<noteq> u_width win \<and> shown_y win e + w_height e \<noteq> u_height win
   | Shape ps _ _ _ \<Rightarrow> ps ! 0 + ps ! 2 \<noteq> u_width win \<and> ps ! 1 + ps ! 3 \<noteq> u_height win
   | _ \<Rightarrow> True)"

lemma u_draw24Image_touches:
  assumes "int (length img) = width * height"
  shows "touches W H UNIV (u_draw24Image W H img x y width height)"
proof (cases "x < 0 \<or> y < 0")
  case True
  then have "u_draw24Image W H img x y width height = Some" by (auto simp: u_draw24Image_def fun_eq_iff)
  then show ?thesis by (simp add: touches_Some)
next
  case False
  then show ?thesis using touches_all [OF paints_touches [OF u_draw24Image_paints [OF assms]]] by simp
qed

lemma drawButtonWidget_touches:
  assumes "shown_x win e + w_width e \<noteq> u_width win" "shown_y win e + w_height e \<noteq> u_height win"
  shows "touches (u_width win) (u_height win) UNIV (drawButtonWidget font win e color bg txt)"
  unfolding drawButtonWidget_def [abs_def] Let_def
  by (rule touches_bind [OF drawFillRect_touches touches_bind [OF u_drawRect_touches [OF assms] touches_all [OF u_drawString_touches]]])

lemma drawInputFieldWidget_touches:
  "touches (u_width win) (u_height win) UNIV (drawInputFieldWidget font win e color fl)"
proof -
  obtain ox oy where c: "cursor_loop (w_width e) (w_height e) (take (nat (current_pos fl)) (ftext fl)) (0, 0) = (ox, oy)"
    by (cases "cursor_loop (w_width e) (w_height e) (take (nat (current_pos fl)) (ftext fl)) (0, 0)")
  have "touches (u_width win) (u_height win) UNIV (\<lambda>b. if oy < w_height e
      then drawFillRect (u_width win) (u_height win) \<lparr>aA = 255, aB = 0, aG = 0, aR = 0\<rparr> (shown_x win e + ox) (shown_y win e + oy + 1) 1
        (CHARACTER_HEIGHT - 4) b else Some b)"
    by (cases "oy < w_height e") (simp_all add: drawFillRect_touches touches_Some [unfolded id_def])
  then show ?thesis unfolding drawInputFieldWidget_def [abs_def] Let_def c prod.case
    by (rule touches_bind [OF touches_all [OF u_drawString_touches]])
qed

lemma draw_widget_touches:
  assumes "drawable win e"
  shows "touches (u_width win) (u_height win) UNIV (draw_widget font win e)"
proof (cases "w_context e")
  case (ColorFill img)
  then show ?thesis using assms u_draw24Image_touches [of img]
    by (simp add: drawable_def draw_widget_def drawColorFillWidget_def [abs_def])
next
  case (Button color bg str)
  then show ?thesis using assms drawButtonWidget_touches by (simp add: drawable_def draw_widget_def)
next
  case (TextLabel color str)
  then show ?thesis using touches_all [OF u_drawString_touches] by (simp add: draw_widget_def drawTextWidget_def [abs_def])
next
  case (InputField color fl)
  then show ?thesis using drawInputFieldWidget_touches by (simp add: draw_widget_def)
next
  case (Shape ps filled color fc)
  then show ?thesis using assms u_drawRect_touches by (simp add: drawable_def draw_widget_def drawShapeWidget_def [abs_def])
next
  case Unset
  then show ?thesis by (simp add: draw_widget_def touches_Some)
qed

lemma touches_each: "(\<And>x. x \<in> set xs \<Longrightarrow> touches W H S (f x)) \<Longrightarrow> touches W H S (each f xs)"
proof (induction xs)
  case Nil
  then show ?case by (simp add: touches_def)
next
  case (Cons x xs)
  have "each f (x # xs) = (\<lambda>b. Option.bind (f x b) (each f xs))" by (simp add: fun_eq_iff)
  then show ?case using Cons by (simp add: touches_bind)
qed

lemma repaintWindow_ok:
  assumes s: "wlist win ws" and c: "canvas (u_width win) (u_height win) (u_buf win)"
    and d: "\<And>w. w \<in> set ws \<Longrightarrow> drawable win (widgets win ! w)"
  shows "\<exists>b. repaintWindow font win = Some (win\<lparr>u_buf := b\<rparr>) \<and> canvas (u_width win) (u_height win) b"
proof (cases "needsRepaint win")
  case False
  then show ?thesis using c by (intro exI [of _ "u_buf win"]) (simp add: repaintWindow_def)
next
  case True
  have w: "walk (\<lambda>p. w_next (widget_at win p)) (widgetlisthead win) = Some (map int ws)"
    unfolding wlistD(4) [OF s] by (rule walk_dll [OF wlistD(3) [OF s]]) (simp add: widget_link)
  let ?f = "\<lambda>p b. if invisible win (widget_at win p) then Some b else draw_widget font win (widget_at win p) b"
  have "touches (u_width win) (u_height win) UNIV (each ?f (map int ws))"
  proof (rule touches_each)
    fix p assume "p \<in> set (map int ws)"
    then have "drawable win (widget_at win p)" using d by (auto simp: widget_at_def)
    then show "touches (u_width win) (u_height win) UNIV (?f p)"
      by (cases "invisible win (widget_at win p)") (simp_all add: draw_widget_touches touches_Some)
  qed
  from touchesD [OF this c] obtain b where "each ?f (map int ws) (u_buf win) = Some b" "canvas (u_width win) (u_height win) b" by blast
  then show ?thesis using True by (intro exI [of _ b]) (simp add: repaintWindow_def w)
qed

text \<open>The answer to a message, given the order of drawing: what \<open>updateWindow\<close> promises.\<close>

definition answer :: "(int \<Rightarrow> message \<Rightarrow> uwindow \<Rightarrow> uwindow) \<Rightarrow> message \<Rightarrow> nat list \<Rightarrow> uwindow \<Rightarrow> reaction \<times> uwindow" where
  "answer call m ws win =
     (if msg_type m = WM_WINDOW_CLOSE then (Exits, win)
      else if msg_type m = WM_WINDOW_MINIMIZE then (GuiMinimize, win)
      else if msg_type m = WM_WINDOW_MAXIMIZE then (GuiMaximize, win)
      else if keyfocus win \<noteq> -1 \<and> is_key m then (Called (keyfocus win) m, call (keyfocus win) m win)
      else case find (\<lambda>w. on_widget win (param m 0) (param m 1) (int w)) (rev ws) of
          None \<Rightarrow> (Nothing, win)
        | Some w \<Rightarrow> deliver call (int w) (scrolled_msg win (int w) m) win)"

text \<open>C27: Whatever message arrives to a window whose widget list is sound and whose buffer has its size, \<open>updateWindow\<close> returns
  after drawing inside the buffer, provided that every widget is drawable: a picture has the size of its widget, and the frame of a button or
  a shape does not end exactly at the right or the lower edge of the window, where \<open>u_drawRect\<close> writes outside of the buffer
  (\<open>u_drawRect_overruns\<close>).  It answers the message as follows: a close request ends the program, minimizing and maximizing are passed to
  the window manager, a key goes to the widget with the focus when there is one, and anything else (a key without
  focus too, whose code is then taken for a position) to the handler of the widget drawn last among those under
  the position, in the coordinates of the scrolled area when the widget scrolls, or to nobody.  Without a message only
  the request to repaint is dropped.\<close>

theorem updateWindow_answers:
  assumes "wlist win ws" and "canvas (u_width win) (u_height win) (u_buf win)"
    and "\<forall>w\<in>set ws. drawable win (widgets win ! w)"
  shows "\<exists>b. canvas (u_width win) (u_height win) b \<and>
    updateWindow font call reply win = Some (case reply of
      None \<Rightarrow> (Nothing, win\<lparr>u_buf := b, needsRepaint := False\<rparr>)
    | Some m \<Rightarrow> answer call m ws (win\<lparr>u_buf := b, needsRepaint := True\<rparr>))"
proof -
  obtain b where b: "repaintWindow font win = Some (win\<lparr>u_buf := b\<rparr>)" "canvas (u_width win) (u_height win) b"
    using repaintWindow_ok [OF assms(1,2)] assms(3) by blast
  let ?w = "win\<lparr>u_buf := b, needsRepaint := True\<rparr>"
  have "wlist ?w ws" using assms(1) by (subst wlist_cong_fields [of _ win]) simp_all
  note d = wlistD [OF this]
  have "first_on (\<lambda>p. w_prev (widget_at ?w p)) P (widgetlisttail ?w) =
      Some (case find (\<lambda>w. P (int w)) (rev ws) of None \<Rightarrow> -1 | Some w \<Rightarrow> int w)" for P
    unfolding d(5) by (rule first_on_dll_back [OF d(3)]) (simp add: widget_link)
  then show ?thesis using b
    by (intro exI [of _ b]) (auto simp: updateWindow_def answer_def Let_def split: option.split)
qed

text \<open>A key that comes while no field has the focus is delivered like a click, at the position (code of the key, second parameter).\<close>

lemma key_without_focus:
  "keyfocus win = -1 \<Longrightarrow> is_key m \<Longrightarrow>
   answer call m ws win = (case find (\<lambda>w. on_widget win (param m 0) (param m 1) (int w)) (rev ws) of
     None \<Rightarrow> (Nothing, win) | Some w \<Rightarrow> deliver call (int w) (scrolled_msg win (int w) m) win)"
  by (auto simp: answer_def is_key_def)

text \<open>A key that comes to a popup window while no field has the focus is looked up behind the array of widgets.\<close>

lemma popup_key_without_focus:
  assumes "repaintWindow font win = Some win1" "keyfocus win1 = -1" "is_key m"
  shows "updatePopupWindow font call (Some m) win = None"
  using assms by (auto simp: updatePopupWindow_def Let_def is_key_def)

subsection \<open>Concrete windows\<close>

definition no_widget :: widget where
  "no_widget = \<lparr>w_context = Unset, w_position = \<lparr>xmin = 0, xmax = 0, ymin = 0, ymax = 0\<rparr>, scrollable = False,
     w_next = 0, w_prev = 0, w_handler = 0\<rparr>"

definition blank_uwindow :: uwindow where
  "blank_uwindow = \<lparr>u_width = 4, u_height = 3, u_titlebar = True, u_buf = [], scrollX = 0, scrollY = 0, u_handler = 0,
     widgets = replicate 50 no_widget, widgetlisthead = 0, widgetlisttail = 0, keyfocus = 0, needsRepaint = False\<rparr>"

definition plain :: RGBA where "plain = \<lparr>aA = 255, aB = 0, aG = 0, aR = 0\<rparr>"

definition demo_window :: "uwindow" where
  "demo_window = snd (the (addTextWidget True plain [] 0 0 2 2 False 7 (u_createWindow True 3 blank_uwindow)))"

lemma demo_wlist: "wlist demo_window [0]"
proof -
  have "findNextAvailable (u_createWindow True 3 blank_uwindow) = 0" by code_simp
  then have f: "addWidget (u_createWindow True 3 blank_uwindow) =
      (0, addToWidgetListTail 0 ((u_createWindow True 3 blank_uwindow)\<lparr>widgetlisthead := 0\<rparr>))"
    by (simp add: addWidget_def u_createWindow_def)
  have "wlist (snd (addWidget (u_createWindow True 3 blank_uwindow))) ([] @ [0])"
    using addToWidgetListTail_wlist [OF fresh_wlist(1), of 0 _ 3 blank_uwindow] f by (simp add: u_createWindow_def)
  then have "wlist (snd (addWidget (u_createWindow True 3 blank_uwindow))) [0]" by simp
  then have "wlist (upd_widget 0 (\<lambda>e. setWidgetSize 0 0 2 2 (e\<lparr>w_context := TextLabel plain [], w_handler := 7, scrollable := False\<rparr>))
      (snd (addWidget (u_createWindow True 3 blank_uwindow)))) [0]"
    by (subst wlist_upd_content) (simp_all add: setWidgetSize_def)
  then show ?thesis by (simp add: demo_window_def addTextWidget_def add_with_def f)
qed

theorem widgets_refine_order_witness:
  "removeWidget 5 demo_window = (-1, demo_window) \<and> (\<exists>win'. removeWidget 0 demo_window = (0, win') \<and> wlist win' [])"
  using widgets_refine_order [OF demo_wlist, of 5 "[]"]
    widgets_refine_order [OF demo_wlist, of 0 "[]"] by simp

theorem updateWindow_answers_witness:
  "\<exists>b. updateWindow (\<lambda>_ _ _. 0) (\<lambda>_ _ w. w) (Some \<lparr>msg_type = M_MOUSE_DOWN, msg_params = [1, 1]\<rparr>) demo_window =
     Some (Called 0 \<lparr>msg_type = M_MOUSE_DOWN, msg_params = [1, 1]\<rparr>, demo_window\<lparr>u_buf := b, needsRepaint := True\<rparr>)"
proof -
  let ?m = "\<lparr>msg_type = M_MOUSE_DOWN, msg_params = [1, 1]\<rparr>"
  have "canvas (u_width demo_window) (u_height demo_window) (u_buf demo_window)" by code_simp
  moreover have "\<forall>w\<in>set [0]. drawable demo_window (widgets demo_window ! w)" by code_simp
  ultimately obtain b where b: "updateWindow (\<lambda>_ _ _. 0) (\<lambda>_ _ w. w) (Some ?m) demo_window =
      Some (answer (\<lambda>_ _ w. w) ?m [0] (demo_window\<lparr>u_buf := b, needsRepaint := True\<rparr>))"
    using updateWindow_answers [OF demo_wlist, where reply = "Some ?m" and font = "\<lambda>_ _ _. 0" and call = "\<lambda>_ _ w. w"] by auto
  have "widgets demo_window ! 0 = \<lparr>w_context = TextLabel plain [], w_position = \<lparr>xmin = 0, xmax = 2, ymin = 0, ymax = 2\<rparr>,
      scrollable = False, w_next = -1, w_prev = -1, w_handler = 7\<rparr>" by code_simp
  then have "answer (\<lambda>_ _ w. w) ?m [0] (demo_window\<lparr>u_buf := b, needsRepaint := True\<rparr>) =
      (Called 0 ?m, demo_window\<lparr>u_buf := b, needsRepaint := True\<rparr>)"
    by (simp add: answer_def on_widget_def widget_at_def isInRect_def param_def is_key_def scrolled_msg_def deliver_def is_input_def)
  with b show ?thesis by auto
qed

end
