(* ===== verification/Mkfs.thy ===== *)
theory Mkfs
  imports Fs
begin

text \<open>
  The program that writes the initial file system, \<open>kernel/mkfs.c\<close>, which runs on the host.

  The image is a function from sectors to blocks, zero at first.  An inode in memory (\<open>struct dinode\<close>) is its 128 bytes.
  An exit with an error is a value of \<open>mkfs_error\<close>; errors of the host's own file operations are left out.  A file of the
  host is its name without directories, the size that \<open>fstat\<close> reports, and the pieces in which \<open>read\<close> delivers
  its contents.  The functions \<open>ialloc\<close>, \<open>balloc\<close> and \<open>main\<close> of the source are
  \<open>mk_ialloc\<close>, \<open>mk_balloc\<close> and \<open>mkfs\<close> here.

  The theorems say what the kernel finds: the superblock, contents and sizes of all files, block addresses that are
  never shared, and a bitmap that marks exactly the blocks handed out.
\<close>

section \<open>Data\<close>

datatype mkfs_error = OutOfBlocks | FileTooLarge | IndexOutOfRange | AssertionFailed

record image =
  sectors :: "nat \<Rightarrow> block"
  freeinode :: nat
  freeblock :: nat

record host_file =
  h_name :: "uchar list"
  h_size :: nat
  h_chunks :: "uchar list list"

fun hbind :: "mkfs_error + 'a \<Rightarrow> ('a \<Rightarrow> mkfs_error + 'b) \<Rightarrow> mkfs_error + 'b" where
  "hbind (Inl e) f = Inl e"
| "hbind (Inr x) f = f x"

fun hfold :: "('x \<Rightarrow> 's \<Rightarrow> mkfs_error + 's) \<Rightarrow> 'x list \<Rightarrow> 's \<Rightarrow> mkfs_error + 's" where
  "hfold f [] s = Inr s"
| "hfold f (x # xs) s = hbind (f x s) (hfold f xs)"

lemma hbind_eq_Inr: "hbind m f = Inr y \<longleftrightarrow> (\<exists>x. m = Inr x \<and> f x = Inr y)"
  by (cases m) auto

section \<open>The image\<close>

definition xshort :: "ushort \<Rightarrow> ushort" where
  "xshort x = get16 (zero_block(0 := ucast x, 1 := ucast (drop_bit 8 x))) 0"

definition xint :: "uint \<Rightarrow> uint" where
  "xint x = get32 (zero_block(0 := ucast x, 1 := ucast (drop_bit 8 x), 2 := ucast (drop_bit 16 x), 3 := ucast (drop_bit 24 x))) 0"

definition nbitmap :: nat where "nbitmap = FSSIZE div (BSIZE * 8) + 1"
definition ninodeblocks :: nat where "ninodeblocks = 200 div IPB + 1"
definition mk_nlog :: nat where "mk_nlog = 30"
definition nmeta :: nat where "nmeta = 2 + mk_nlog + ninodeblocks + nbitmap"
definition mk_nblocks :: nat where "mk_nblocks = FSSIZE - nmeta"

definition mk_sb :: superblock where
  "mk_sb = \<lparr>sb_size = FSSIZE, nblocks = mk_nblocks, ninodes = 200, nlog = mk_nlog, logstart = 2, inodestart = 2 + mk_nlog,
     bmapstart = 2 + mk_nlog + ninodeblocks, checksum = 0\<rparr>"

text \<open>The superblock as the bytes that \<open>memmove\<close> copies into the block.\<close>

definition sb_block :: block where
  "sb_block = put_addrs (map (\<lambda>n. xint (of_nat n)) [FSSIZE, mk_nblocks, 200, mk_nlog, 2, 2 + mk_nlog, 2 + mk_nlog + ninodeblocks] @ [0]) 0 zero_block"

definition rsect :: "nat \<Rightarrow> image \<Rightarrow> block" where
  "rsect sec im = sectors im sec"

definition wsect :: "nat \<Rightarrow> block \<Rightarrow> image \<Rightarrow> image" where
  "wsect sec b im = im\<lparr>sectors := (sectors im)(sec := b)\<rparr>"

definition winode :: "nat \<Rightarrow> block \<Rightarrow> image \<Rightarrow> image" where
  "winode inum din im =
     (let bn = IBLOCK inum mk_sb in wsect bn (put_bytes (rsect bn im) (ioff inum) 128 din) im)"

definition rinode :: "nat \<Rightarrow> image \<Rightarrow> block" where
  "rinode inum im = (\<lambda>i. if i < 128 then rsect (IBLOCK inum mk_sb) im (ioff inum + i) else 0)"

definition mk_ialloc :: "ushort \<Rightarrow> image \<Rightarrow> nat \<times> image" where
  "mk_ialloc ty im =
     (let inum = freeinode im; din = put32 (put16 (put16 zero_block 0 (xshort ty)) 6 (xshort 1)) 8 (xint 0)
      in (inum, winode inum din (im\<lparr>freeinode := inum + 1\<rparr>)))"

definition mk_balloc :: "nat \<Rightarrow> image \<Rightarrow> mkfs_error + image" where
  "mk_balloc used im =
     (if \<not> used < BSIZE * 8 then Inl AssertionFailed
      else Inr (wsect (bmapstart mk_sb) (fold (\<lambda>i b. set_bit_in b i) [0..<used] zero_block) im))"

section \<open>Appending to a file\<close>

definition fresh_block :: "image \<Rightarrow> mkfs_error + nat \<times> image" where
  "fresh_block im =
     (if nmeta + mk_nblocks \<le> freeblock im then Inl OutOfBlocks
      else Inr (freeblock im, im\<lparr>freeblock := freeblock im + 1\<rparr>))"

text \<open>Address \<open>k\<close> of the inode, and entry \<open>j\<close> of the table in block \<open>a\<close>: taken from the free blocks when it is 0.\<close>

definition inode_word :: "nat \<Rightarrow> block \<times> image \<Rightarrow> mkfs_error + nat \<times> block \<times> image" where
  "inode_word k s = (case s of (din, im) \<Rightarrow>
     if xint (get32 din (12 + 4 * k)) = 0
     then hbind (fresh_block im) (\<lambda>(b, im1). Inr (b, put32 din (12 + 4 * k) (xint (of_nat b)), im1))
     else Inr (unat (xint (get32 din (12 + 4 * k))), din, im))"

definition table_entry :: "nat \<Rightarrow> nat \<Rightarrow> image \<Rightarrow> mkfs_error + nat \<times> image" where
  "table_entry a j im =
     (let t = rsect a im in
      if get32 t (4 * j) = 0
      then hbind (fresh_block im) (\<lambda>(b, im1). Inr (b, wsect a (put32 t (4 * j) (xint (of_nat b))) im1))
      else Inr (unat (xint (get32 t (4 * j))), im))"

definition place :: "nat \<Rightarrow> block \<times> image \<Rightarrow> mkfs_error + nat \<times> block \<times> image" where
  "place fbn s =
     (if fbn < NDIRECT then inode_word fbn s
      else if fbn < NDIRECT + NINDIRECT
      then hbind (inode_word NDIRECT s) (\<lambda>(a, din, im).
           hbind (table_entry a (fbn - NDIRECT) im) (\<lambda>(x, im1). Inr (x, din, im1)))
      else let idx1 = (fbn - NDIRECT - NINDIRECT) div NINDIRECT; idx2 = (fbn - NDIRECT - NINDIRECT) mod NINDIRECT in
        if NINDIRECT \<le> idx1 then Inl IndexOutOfRange
        else hbind (inode_word (NDIRECT + 1) s) (\<lambda>(a, din, im).
             hbind (table_entry a idx1 im) (\<lambda>(a2, im1).
             hbind (table_entry a2 idx2 im1) (\<lambda>(x, im2). Inr (x, din, im2)))))"

function iappend_loop :: "uchar list \<Rightarrow> nat \<Rightarrow> block \<Rightarrow> image \<Rightarrow> mkfs_error + nat \<times> block \<times> image" where
  "iappend_loop p off din im =
     (if p = [] then Inr (off, din, im)
      else let fbn = off div BSIZE in
        if MAXFILE \<le> fbn then Inl FileTooLarge
        else hbind (place fbn (din, im)) (\<lambda>(x, din1, im1).
          let n1 = min (length p) ((fbn + 1) * BSIZE - off)
          in iappend_loop (drop n1 p) (off + n1) din1
               (wsect x (put_bytes (rsect x im1) (off - fbn * BSIZE) n1 (\<lambda>i. p ! i)) im1)))"
  by pat_completeness auto
termination
proof (relation "measure (\<lambda>(p, off, din, im). length p)")
  fix p off din im fbn x xa y xb ya n1
  assume "p \<noteq> []" "fbn = off div BSIZE" "n1 = min (length (p :: uchar list)) ((fbn + 1) * BSIZE - off)"
  moreover have "off < (off div BSIZE + 1) * BSIZE" using dividend_less_div_times [of BSIZE off] by simp
  ultimately show "((drop n1 p, off + n1, y :: block, xb :: image), p, off, din :: block, im :: image)
      \<in> measure (\<lambda>(p, off, din, im). length p)" by simp
qed simp

declare iappend_loop.simps [simp del]

definition iappend :: "nat \<Rightarrow> uchar list \<Rightarrow> image \<Rightarrow> mkfs_error + image" where
  "iappend inum p im =
     (let din = rinode inum im in
      hbind (iappend_loop p (unat (xint (get32 din 8))) din im) (\<lambda>(off, din1, im1).
        Inr (winode inum (put32 din1 8 (xint (of_nat off))) im1)))"

section \<open>The whole program\<close>

text \<open>The underscore in front of the name of a program is dropped.\<close>

definition image_name :: "uchar list \<Rightarrow> uchar list" where
  "image_name name = (case name of [] \<Rightarrow> [] | c # cs \<Rightarrow> if c = 0x5F then cs else name)"

definition too_large :: "host_file \<Rightarrow> bool" where
  "too_large f \<longleftrightarrow> h_size f > MAXFILE * BSIZE"

definition add_file :: "host_file \<Rightarrow> image \<Rightarrow> mkfs_error + image" where
  "add_file f im =
     (if too_large f then Inr im
      else case mk_ialloc T_FILE im of (inum, im1) \<Rightarrow>
        hbind (iappend ROOTINO (dirent_bytes inum (image_name (h_name f))) im1) (hfold (iappend inum) (h_chunks f)))"

definition fix_root :: "image \<Rightarrow> image" where
  "fix_root im =
     (let din = rinode ROOTINO im; off = unat (xint (get32 din 8))
      in winode ROOTINO (put32 din 8 (xint (of_nat ((off div BSIZE + 1) * BSIZE)))) im)"

definition blank_image :: image where
  "blank_image = \<lparr>sectors = (\<lambda>_. zero_block)(1 := sb_block), freeinode = 1, freeblock = nmeta\<rparr>"

definition mkfs :: "host_file list \<Rightarrow> mkfs_error + image" where
  "mkfs files =
     (case mk_ialloc T_DIR blank_image of (rootino, im) \<Rightarrow>
      if rootino \<noteq> ROOTINO then Inl AssertionFailed
      else hbind (iappend rootino (dirent_bytes rootino [0x2E]) im) (\<lambda>im1.
           hbind (iappend rootino (dirent_bytes rootino [0x2E, 0x2E]) im1) (\<lambda>im2.
           hbind (hfold add_file files im2) (\<lambda>im3.
             let im4 = fix_root im3 in mk_balloc (freeblock im4) im4))))"

section \<open>The tree of a file\<close>

lemma xint_id [simp]: "xint x = x"
  using get32_put32 [of zero_block 0 x] by (simp only: xint_def put32_def add_0)

lemma xshort_id [simp]: "xshort x = x"
  using get16_put16 [of zero_block 0 x] by (simp only: xshort_def put16_def add_0)

lemma meta_numbers: "nmeta = 47" "mk_nblocks = 25553" "IBLOCK n mk_sb = n div 16 + 32" "bmapstart mk_sb = 45"
  by (simp_all add: nmeta_def mk_nblocks_def mk_nlog_def ninodeblocks_def nbitmap_def mk_sb_def IBLOCK_def)

text \<open>Where the address of a block is stored: in a word of the inode, or in an entry of a table, whose address is stored in
  turn.\<close>

datatype role = InWord nat | Ent role nat

fun table :: "role \<Rightarrow> bool" where
  "table (InWord k) \<longleftrightarrow> k = 10 \<or> k = 11"
| "table (Ent q j) \<longleftrightarrow> q = InWord 11 \<and> j < 512"

fun leaf :: "role \<Rightarrow> bool" where
  "leaf (InWord k) \<longleftrightarrow> k < 10"
| "leaf (Ent q j) \<longleftrightarrow> j < 512 \<and> table q \<and> q \<noteq> InWord 11"

definition block_role :: "nat \<Rightarrow> role" where
  "block_role n = (if n < 10 then InWord n
     else if n < 522 then Ent (InWord 10) (n - 10) else Ent (Ent (InWord 11) ((n - 522) div 512)) ((n - 522) mod 512))"

fun raddr :: "(nat \<Rightarrow> nat \<Rightarrow> nat) \<Rightarrow> (nat \<Rightarrow> block) \<Rightarrow> nat \<Rightarrow> role \<Rightarrow> nat" where
  "raddr W B n (InWord k) = W n k"
| "raddr W B n (Ent q j) = (if raddr W B n q = 0 then 0 else unat (get32 (B (raddr W B n q)) (4 * j)))"

lemma leaf_not_table: "leaf r \<Longrightarrow> \<not> table r"
  by (cases r) auto

lemma leaf_parent: "leaf (Ent q j) \<or> table (Ent q j) \<Longrightarrow> table q \<and> j < 512"
  by auto

lemma block_role_leaf: "n < MAXFILE \<Longrightarrow> leaf (block_role n)"
proof -
  assume "n < MAXFILE"
  then have "(n - 522) div 512 < 512" by (intro less_mult_imp_div_less) simp
  then show ?thesis by (auto simp: block_role_def)
qed

lemma block_role_inj:
  assumes "block_role m = block_role n"
  shows "m = n"
proof (cases "m < 522 \<or> n < 522")
  case True
  with assms show ?thesis by (auto simp: block_role_def split: if_splits)
next
  case False
  then have "(m - 522) div 512 = (n - 522) div 512" "(m - 522) mod 512 = (n - 522) mod 512"
    using assms by (simp_all add: block_role_def)
  then have "m - 522 = n - 522" by (metis div_mult_mod_eq)
  with False show ?thesis by linarith
qed

text \<open>No block has two uses, the blocks in use lie between the metadata and the first free block, and the free blocks are zero.\<close>

definition owned :: "(nat \<Rightarrow> nat \<Rightarrow> nat) \<Rightarrow> (nat \<Rightarrow> block) \<Rightarrow> nat \<Rightarrow> bool" where
  "owned W B fb \<longleftrightarrow> nmeta \<le> fb \<and> fb \<le> FSSIZE \<and> (\<forall>b\<ge>fb. B b = zero_block) \<and>
     (\<forall>n r. leaf r \<or> table r \<longrightarrow> raddr W B n r \<noteq> 0 \<longrightarrow> nmeta \<le> raddr W B n r \<and> raddr W B n r < fb) \<and>
     (\<forall>n r n' r'. leaf r \<or> table r \<longrightarrow> leaf r' \<or> table r' \<longrightarrow> raddr W B n r \<noteq> 0 \<longrightarrow>
        raddr W B n r = raddr W B n' r' \<longrightarrow> n = n' \<and> r = r')"

lemma ownedD:
  assumes "owned W B fb"
  shows "nmeta \<le> fb" "fb \<le> FSSIZE" "fb \<le> b \<Longrightarrow> B b = zero_block"
    "leaf r \<or> table r \<Longrightarrow> raddr W B n r \<noteq> 0 \<Longrightarrow> nmeta \<le> raddr W B n r"
    "leaf r \<or> table r \<Longrightarrow> raddr W B n r \<noteq> 0 \<Longrightarrow> raddr W B n r < fb"
    "leaf r \<or> table r \<Longrightarrow> leaf r' \<or> table r' \<Longrightarrow> raddr W B n r \<noteq> 0 \<Longrightarrow> raddr W B n r = raddr W B n' r' \<Longrightarrow> n = n' \<and> r = r'"
  using assms unfolding owned_def by blast+

lemma get32_zero [simp]: "get32 zero_block k = 0"
  by (simp add: get32_def zero_block_def)

lemma raddr_cong: "W' n = W n \<Longrightarrow> raddr W' B n r = raddr W B n r"
  by (induction r) auto

text \<open>The three changes: a word of an inode gets a free block, an entry of a table gets one, a block of data is
  written.\<close>

lemma raddr_set_word:
  assumes "W n k = 0" "B fb = zero_block" "fb \<noteq> 0"
  shows "raddr (W(n := (W n)(k := fb))) B m r = (if m = n \<and> r = InWord k then fb else raddr W B m r)"
proof (induction r)
  case (Ent q j)
  then show ?case using assms by (cases "m = n \<and> q = InWord k") auto
qed simp

lemma raddr_set_entry:
  assumes o': "owned W B fb" and t: "table p" "raddr W B n p \<noteq> 0" "raddr W B n (Ent p j) = 0" "j < 512"
    and B': "B' = B(raddr W B n p := put32 (B (raddr W B n p)) (4 * j) (of_nat fb))"
    and v: "leaf r \<or> table r"
  shows "raddr W B' m r = (if m = n \<and> r = Ent p j then fb else raddr W B m r)"
  using v
proof (induction r)
  case (Ent q i)
  define a where "a = raddr W B n p"
  define c where "c = raddr W B m q"
  note d = ownedD [OF o']
  have q: "table q" "i < 512" using leaf_parent Ent.prems by auto
  have fb: "unat (of_nat fb :: uint) = fb" "fb \<noteq> 0" using d(1,2) by (simp_all add: unat_of_nat meta_numbers)
  have a: "a < fb" "a \<noteq> 0" using d(5) t by (simp_all add: a_def)
  have B: "B' = B(a := put32 (B a) (4 * j) (of_nat fb))" using B' by (simp add: a_def)
  have IH: "raddr W B' m q = (if m = n \<and> q = Ent p j then fb else c)" using Ent.IH q(1) by (simp add: c_def)
  show ?case
  proof (cases "m = n \<and> q = Ent p j")
    case True
    then have "raddr W B' m q = fb" "raddr W B m q = 0" using IH t(3) by simp_all
    moreover have "B' fb = zero_block" using a d(3) B by simp
    moreover have "q \<noteq> p" using True by (metis role.size(4) add_cancel_right_right add_is_0 n_not_Suc_n One_nat_def)
    ultimately show ?thesis using fb(2) by auto
  next
    case False
    then have r: "raddr W B' m q = c" using IH by (simp only: if_False)
    show ?thesis
    proof (cases "c = a")
      case True
      then have e: "m = n" "q = p" using d(6) [of q p m n] q(1) t by (simp_all add: a_def c_def)
      show ?thesis
      proof (cases "i = j")
        case True
        have "get32 (B' a) (4 * j) = of_nat fb" by (simp add: B)
        with e r True \<open>c = a\<close> a(2) fb show ?thesis by simp
      next
        case False
        then have "get32 (put32 (B a) (4 * j) (of_nat fb)) (4 * i) = get32 (B a) (4 * i)"
          by (intro get32_put32_other) linarith
        then have "get32 (B' a) (4 * i) = get32 (B a) (4 * i)" by (simp add: B)
        moreover have "raddr W B n p = a" by (simp add: a_def)
        ultimately show ?thesis using e r False \<open>c = a\<close> a(2) by simp
      qed
    next
      case False
      have n: "\<not> (m = n \<and> Ent q i = Ent p j)" using False by (auto simp: a_def c_def)
      have "raddr W B m q = c" by (simp add: c_def)
      moreover have "B' c = B c" using False by (simp add: B)
      ultimately have "raddr W B' m (Ent q i) = raddr W B m (Ent q i)" using r by simp
      then show ?thesis unfolding if_not_P [OF n] .
    qed
  qed
qed simp

lemma raddr_write_leaf:
  assumes o': "owned W B fb" and l: "leaf l" "raddr W B n l \<noteq> 0" and v: "leaf r \<or> table r"
  shows "raddr W (B(raddr W B n l := c)) m r = raddr W B m r"
  using v
proof (induction r)
  case (Ent q i)
  have q: "table q" using leaf_parent Ent.prems by auto
  then have "raddr W B m q \<noteq> raddr W B n l"
    using ownedD(6) [OF o', of l q n m] l leaf_not_table by (metis (no_types, lifting))
  then show ?case using Ent.IH q by simp
qed simp

section \<open>Placing a block\<close>

text \<open>What the search for the place of a block may do to the tree: add addresses of zero blocks to one file.\<close>

definition grows :: "nat \<Rightarrow> (nat \<Rightarrow> nat \<Rightarrow> nat) \<Rightarrow> (nat \<Rightarrow> block) \<Rightarrow> nat \<Rightarrow> (nat \<Rightarrow> nat \<Rightarrow> nat) \<Rightarrow> (nat \<Rightarrow> block) \<Rightarrow> nat \<Rightarrow> bool" where
  "grows n W B fb W' B' fb' \<longleftrightarrow> owned W' B' fb' \<and> fb \<le> fb' \<and> (\<forall>m. m \<noteq> n \<longrightarrow> W' m = W m) \<and> (\<forall>b<nmeta. B' b = B b) \<and>
     (\<forall>m r. leaf r \<or> table r \<longrightarrow> raddr W B m r \<noteq> 0 \<longrightarrow> raddr W' B' m r = raddr W B m r) \<and>
     (\<forall>m l. leaf l \<longrightarrow> raddr W B m l \<noteq> 0 \<longrightarrow> B' (raddr W B m l) = B (raddr W B m l)) \<and>
     (\<forall>m l. leaf l \<longrightarrow> raddr W B m l = 0 \<longrightarrow> raddr W' B' m l \<noteq> 0 \<longrightarrow> m = n \<and> B' (raddr W' B' m l) = zero_block)"

lemma growsD:
  assumes "grows n W B fb W' B' fb'"
  shows "owned W' B' fb'" "fb \<le> fb'" "m \<noteq> n \<Longrightarrow> W' m = W m" "b < nmeta \<Longrightarrow> B' b = B b"
    "leaf r \<or> table r \<Longrightarrow> raddr W B m r \<noteq> 0 \<Longrightarrow> raddr W' B' m r = raddr W B m r"
    "leaf l \<Longrightarrow> raddr W B m l \<noteq> 0 \<Longrightarrow> B' (raddr W B m l) = B (raddr W B m l)"
    "leaf l \<Longrightarrow> raddr W B m l = 0 \<Longrightarrow> raddr W' B' m l \<noteq> 0 \<Longrightarrow> m = n \<and> B' (raddr W' B' m l) = zero_block"
  using assms unfolding grows_def by blast+

lemma grows_refl: "owned W B fb \<Longrightarrow> grows n W B fb W B fb"
  by (simp add: grows_def)

lemma grows_trans:
  assumes 1: "grows n W B fb W1 B1 fb1" and 2: "grows n W1 B1 fb1 W2 B2 fb2"
  shows "grows n W B fb W2 B2 fb2"
  unfolding grows_def
proof (intro conjI allI impI)
  show "owned W2 B2 fb2" "fb \<le> fb2" using growsD(1,2) [OF 1] growsD(1,2) [OF 2] by simp_all
  show "W2 m = W m" if "m \<noteq> n" for m using growsD(3) [OF 1 that] growsD(3) [OF 2 that] by simp
  show "B2 b = B b" if "b < nmeta" for b using growsD(4) [OF 1 that] growsD(4) [OF 2 that] by simp
  show "raddr W2 B2 m r = raddr W B m r" if "leaf r \<or> table r" "raddr W B m r \<noteq> 0" for m r
    using growsD(5) [OF 1 that] growsD(5) [OF 2 that(1), of m] that(2) by simp
  show "B2 (raddr W B m l) = B (raddr W B m l)" if "leaf l" "raddr W B m l \<noteq> 0" for m l
    using growsD(5) [OF 1, of l m] growsD(6) [OF 1 that] growsD(6) [OF 2 that(1), of m] that by simp
  fix m l assume l: "leaf l" "raddr W B m l = 0" "raddr W2 B2 m l \<noteq> 0"
  have "m = n \<and> B2 (raddr W2 B2 m l) = zero_block"
  proof (cases "raddr W1 B1 m l = 0")
    case True
    then show ?thesis using growsD(7) [OF 2 l(1)] l(3) by blast
  next
    case False
    then have "m = n \<and> B1 (raddr W1 B1 m l) = zero_block" using growsD(7) [OF 1 l(1,2)] by blast
    then show ?thesis using growsD(5) [OF 2, of l m] growsD(6) [OF 2 l(1) False] l(1) False by auto
  qed
  then show "m = n" "B2 (raddr W2 B2 m l) = zero_block" by blast+
qed

text \<open>A role gets the first free block.\<close>

lemma grows_new:
  assumes o': "owned W B fb" "fb < FSSIZE" and r0: "leaf r0 \<or> table r0" "raddr W B n r0 = 0"
    and W': "\<And>m. m \<noteq> n \<Longrightarrow> W' m = W m"
    and B': "\<And>b. B' b = B b \<or> (\<exists>q. table q \<and> b = raddr W B n q \<and> b \<noteq> 0)"
    and r: "\<And>m r. leaf r \<or> table r \<Longrightarrow> raddr W' B' m r = (if m = n \<and> r = r0 then fb else raddr W B m r)"
  shows "grows n W B fb W' B' (fb + 1)"
proof -
  note d = ownedD [OF o'(1)]
  have same: "B' b = B b" if "b < nmeta \<or> fb \<le> b" for b
    using B' [of b] d(4,5) that by (metis leD order.strict_trans2)
  have "raddr W' B' m r \<noteq> 0 \<Longrightarrow> nmeta \<le> raddr W' B' m r \<and> raddr W' B' m r < fb + 1" if "leaf r \<or> table r" for m r
    using r [OF that, of m] d(1) d(4,5) [OF that, of m] by (cases "m = n \<and> r = r0") (auto simp: less_Suc_eq)
  moreover have "m = m' \<and> r1 = r2" if v: "leaf r1 \<or> table r1" "leaf r2 \<or> table r2" and e: "raddr W' B' m r1 \<noteq> 0" "raddr W' B' m r1 = raddr W' B' m' r2"
    for m r1 m' r2
  proof -
    have n: "raddr W B k r' \<noteq> fb" if "leaf r' \<or> table r'" for k r'
      using d(5) [OF that, of k] d(1) meta_numbers(1) by (cases "raddr W B k r' = 0") auto
    show ?thesis
    proof (cases "m = n \<and> r1 = r0")
      case True
      then have "raddr W' B' m' r2 = fb" using r [OF v(1), of m] e(2) by simp
      then have "m' = n \<and> r2 = r0" using r [OF v(2), of m'] n [OF v(2), of m'] by (metis (full_types))
      with True show ?thesis by blast
    next
      case False
      then have 1: "raddr W' B' m r1 = raddr W B m r1" using r [OF v(1), of m] by (simp only: if_False)
      then have "\<not> (m' = n \<and> r2 = r0)" using r [OF v(2), of m'] n [OF v(1), of m] e(2) by metis
      then have "raddr W' B' m' r2 = raddr W B m' r2" using r [OF v(2), of m'] by (simp only: if_False)
      with 1 e have "raddr W B m r1 \<noteq> 0" "raddr W B m r1 = raddr W B m' r2" by metis+
      then show ?thesis by (rule d(6) [OF v])
    qed
  qed
  ultimately have "owned W' B' (fb + 1)"
    unfolding owned_def
  proof (intro conjI allI impI)
    show "nmeta \<le> fb + 1" "fb + 1 \<le> FSSIZE" using d(1) o'(2) by simp_all
    show "B' b = zero_block" if "fb + 1 \<le> b" for b using same [of b] d(3) [of b] that by simp
  qed blast+
  moreover have "B' (raddr W B m l) = B (raddr W B m l)" if "leaf l" "raddr W B m l \<noteq> 0" for m l
    using B' [of "raddr W B m l"] d(6) [of l _ m n] that leaf_not_table by metis
  moreover have "m = n \<and> B' (raddr W' B' m l) = zero_block" if "leaf l" "raddr W B m l = 0" "raddr W' B' m l \<noteq> 0" for m l
    using r [of l m] that same [of fb] d(3) by (auto split: if_splits)
  moreover have "raddr W' B' m r = raddr W B m r" if "leaf r \<or> table r" "raddr W B m r \<noteq> 0" for m r
    using r [OF that(1), of m] that(2) r0(2) by auto
  ultimately show ?thesis using W' same unfolding grows_def by simp
qed

subsection \<open>The words of the inodes in the image\<close>

definition dwords :: "block \<Rightarrow> nat \<Rightarrow> nat" where
  "dwords din k = (if k < 12 then unat (get32 din (12 + 4 * k)) else 0)"

definition words :: "image \<Rightarrow> nat \<Rightarrow> nat \<Rightarrow> nat" where
  "words im n = (if n < 208 then dwords (rinode n im) else (\<lambda>_. 0))"

lemma dwords_put: "k < 12 \<Longrightarrow> b < 4294967296 \<Longrightarrow> dwords (put32 din (12 + 4 * k) (of_nat b)) = (dwords din)(k := b)"
proof
  fix j assume k: "k < 12" "b < 4294967296"
  show "dwords (put32 din (12 + 4 * k) (of_nat b)) j = ((dwords din)(k := b)) j"
  proof (cases "j = k")
    case True
    then show ?thesis using k by (simp add: dwords_def unat_of_nat)
  next
    case False
    then have "get32 (put32 din (12 + 4 * k) (of_nat b)) (12 + 4 * j) = get32 din (12 + 4 * j)"
      by (intro get32_put32_other) linarith
    with False show ?thesis by (simp add: dwords_def)
  qed
qed

definition in_tree :: "nat \<Rightarrow> (nat \<Rightarrow> nat \<Rightarrow> nat) \<Rightarrow> block \<Rightarrow> image \<Rightarrow> bool" where
  "in_tree n W din im \<longleftrightarrow> W n = dwords din \<and> owned W (sectors im) (freeblock im)"

lemma inode_word_grows:
  assumes t: "in_tree n W din im" and k: "k < 12" and r: "inode_word k (din, im) = Inr (a, din', im')"
  shows "grows n W (sectors im) (freeblock im) (W(n := dwords din')) (sectors im') (freeblock im') \<and>
    a = dwords din' k \<and> a \<noteq> 0 \<and> freeinode im' = freeinode im \<and> (\<forall>i<12. din' i = din i)"
proof -
  have o': "owned W (sectors im) (freeblock im)" and W: "W n = dwords din" using t by (simp_all add: in_tree_def)
  note d = ownedD [OF o']
  show ?thesis
  proof (cases "get32 din (12 + 4 * k) = 0")
    case False
    then have "din' = din" "im' = im" "a = unat (get32 din (12 + 4 * k))" using r False by (auto simp: inode_word_def)
    moreover have "W(n := dwords din) = W" using W by (metis fun_upd_triv)
    moreover have "unat (get32 din (12 + 4 * k)) \<noteq> 0" using False by (simp add: unat_gt_0)
    ultimately show ?thesis using o' k by (simp add: grows_refl dwords_def)
  next
    case True
    then have n: "freeblock im < FSSIZE" "a = freeblock im" "din' = put32 din (12 + 4 * k) (of_nat (freeblock im))"
      "im' = im\<lparr>freeblock := freeblock im + 1\<rparr>"
      using r by (auto simp: inode_word_def fresh_block_def meta_numbers split: if_splits)
    have b: "freeblock im < 4294967296" using n(1) by simp
    have dw: "dwords din' = (dwords din)(k := freeblock im)" unfolding n(3) by (rule dwords_put [OF k b])
    have z: "W n k = 0" using True W k by (simp add: dwords_def)
    have v: "leaf (InWord k) \<or> table (InWord k)" using k by auto
    have fz: "freeblock im \<noteq> 0" using d(1) by (simp add: meta_numbers)
    have "grows n W (sectors im) (freeblock im) (W(n := (W n)(k := freeblock im))) (sectors im) (freeblock im + 1)"
      by (rule grows_new [OF o' n(1) v]) (use z raddr_set_word [where W = W and n = n and k = k and B = "sectors im"] d(3) fz in auto)
    moreover have "\<forall>i<12. din' i = din i" by (simp add: n(3) put32_other)
    ultimately show ?thesis using n W dw fz by simp
  qed
qed

lemma table_entry_grows:
  assumes t: "in_tree n W din im" and p: "table p" "a = raddr W (sectors im) n p" "a \<noteq> 0" "j < 512"
    and v: "leaf (Ent p j) \<or> table (Ent p j)"
    and r: "table_entry a j im = Inr (x, im')"
  shows "grows n W (sectors im) (freeblock im) W (sectors im') (freeblock im') \<and>
    x = raddr W (sectors im') n (Ent p j) \<and> x \<noteq> 0 \<and> freeinode im' = freeinode im"
proof -
  have o': "owned W (sectors im) (freeblock im)" using t by (simp add: in_tree_def)
  note d = ownedD [OF o']
  show ?thesis
  proof (cases "get32 (sectors im a) (4 * j) = 0")
    case False
    then have "im' = im" "x = unat (get32 (sectors im a) (4 * j))" using r False by (auto simp: table_entry_def rsect_def Let_def)
    moreover have "unat (get32 (sectors im a) (4 * j)) \<noteq> 0" using False by (simp add: unat_gt_0)
    ultimately show ?thesis using o' p by (simp add: grows_refl)
  next
    case True
    then have n: "freeblock im < FSSIZE" "x = freeblock im" "freeblock im' = freeblock im + 1" "freeinode im' = freeinode im"
      "sectors im' = (sectors im)(a := put32 (sectors im a) (4 * j) (of_nat (freeblock im)))"
      using r by (auto simp: table_entry_def fresh_block_def rsect_def wsect_def meta_numbers Let_def split: if_splits)
    have z: "raddr W (sectors im) n (Ent p j) = 0" using True p(2) by simp
    have e: "raddr W (sectors im') m r = (if m = n \<and> r = Ent p j then freeblock im else raddr W (sectors im) m r)"
      if "leaf r \<or> table r" for m r
      by (rule raddr_set_entry [OF o' p(1) _ z p(4) _ that]) (use p n(5) in simp_all)
    have "grows n W (sectors im) (freeblock im) W (sectors im') (freeblock im + 1)"
    proof (rule grows_new [OF o' n(1) v z _ _ e])
      show "sectors im' b = sectors im b \<or> (\<exists>q. table q \<and> b = raddr W (sectors im) n q \<and> b \<noteq> 0)" for b
        using p n(5) by auto
    qed auto
    moreover have "freeblock im \<noteq> 0" using d(1) by (simp add: meta_numbers)
    ultimately show ?thesis using n(2-4) e [OF v, of n] by simp
  qed
qed

lemma in_tree_step:
  assumes "grows n W B fb (W(n := dwords din')) (sectors im') (freeblock im')"
  shows "in_tree n (W(n := dwords din')) din' im'"
  using growsD(1) [OF assms] by (simp add: in_tree_def)

lemma place_grows:
  assumes t: "in_tree n W din im" and f: "fbn < MAXFILE" and r: "place fbn (din, im) = Inr (x, din', im')"
  shows "grows n W (sectors im) (freeblock im) (W(n := dwords din')) (sectors im') (freeblock im') \<and>
    x = raddr (W(n := dwords din')) (sectors im') n (block_role fbn) \<and> x \<noteq> 0 \<and> freeinode im' = freeinode im \<and>
    (\<forall>i<12. din' i = din i)"
proof -
  consider (direct) "fbn < 10" | (single) "10 \<le> fbn" "fbn < 522" | (double) "522 \<le> fbn" by linarith
  then show ?thesis
  proof cases
    case direct
    then have "inode_word fbn (din, im) = Inr (x, din', im')" using r by (simp add: place_def)
    from inode_word_grows [OF t _ this] direct show ?thesis by (simp add: block_role_def)
  next
    case single
    then obtain a im1 where 1: "inode_word 10 (din, im) = Inr (a, din', im1)" "table_entry a (fbn - 10) im1 = Inr (x, im')"
      using r by (auto simp: place_def hbind_eq_Inr)
    note g1 = inode_word_grows [OF t _ 1(1), simplified]
    let ?W = "W(n := dwords din')"
    have t1: "in_tree n ?W din' im1" using in_tree_step g1 by blast
    have g2: "grows n ?W (sectors im1) (freeblock im1) ?W (sectors im') (freeblock im') \<and>
        x = raddr ?W (sectors im') n (Ent (InWord 10) (fbn - 10)) \<and> x \<noteq> 0 \<and> freeinode im' = freeinode im1"
      by (rule table_entry_grows [OF t1 _ _ _ _ _ 1(2)]) (use g1 single in auto)
    have "block_role fbn = Ent (InWord 10) (fbn - 10)" using single by (simp add: block_role_def)
    moreover have "grows n W (sectors im) (freeblock im) ?W (sectors im') (freeblock im')"
      using g1 g2 grows_trans by blast
    ultimately show ?thesis using g1 g2 by simp
  next
    case double
    let ?i = "(fbn - 522) div 512" and ?j = "(fbn - 522) mod 512"
    have i: "?i < 512" using f double by (intro less_mult_imp_div_less) simp
    have j: "?j < 512" by simp
    obtain a im1 a2 im2 where 1: "inode_word 11 (din, im) = Inr (a, din', im1)" "table_entry a ?i im1 = Inr (a2, im2)"
        "table_entry a2 ?j im2 = Inr (x, im')"
      using r double i by (auto simp: place_def hbind_eq_Inr Let_def split: if_splits)
    note g1 = inode_word_grows [OF t _ 1(1), simplified]
    let ?W = "W(n := dwords din')"
    have t1: "in_tree n ?W din' im1" using in_tree_step g1 by blast
    have g2: "grows n ?W (sectors im1) (freeblock im1) ?W (sectors im2) (freeblock im2) \<and>
        a2 = raddr ?W (sectors im2) n (Ent (InWord 11) ?i) \<and> a2 \<noteq> 0 \<and> freeinode im2 = freeinode im1"
      by (rule table_entry_grows [OF t1 _ _ _ _ _ 1(2)]) (use g1 i in auto)
    have t2: "in_tree n ?W din' im2" using growsD(1) [OF conjunct1 [OF g2]] by (simp add: in_tree_def)
    have g3: "grows n ?W (sectors im2) (freeblock im2) ?W (sectors im') (freeblock im') \<and>
        x = raddr ?W (sectors im') n (Ent (Ent (InWord 11) ?i) ?j) \<and> x \<noteq> 0 \<and> freeinode im' = freeinode im2"
      by (rule table_entry_grows [OF t2 _ _ _ _ _ 1(3)]) (use g2 i j in auto)
    have "block_role fbn = Ent (Ent (InWord 11) ?i) ?j" using double by (simp add: block_role_def)
    moreover have "grows n W (sectors im) (freeblock im) ?W (sectors im') (freeblock im')"
      by (rule grows_trans [OF grows_trans [OF conjunct1 [OF g1] conjunct1 [OF g2]] conjunct1 [OF g3]])
    ultimately show ?thesis using g1 g2 g3 by simp
  qed
qed

section \<open>Contents\<close>

definition byte_at :: "(nat \<Rightarrow> nat \<Rightarrow> nat) \<Rightarrow> (nat \<Rightarrow> block) \<Rightarrow> nat \<Rightarrow> nat \<Rightarrow> uchar" where
  "byte_at W B n i = B (raddr W B n (block_role (i div BSIZE))) (i mod BSIZE)"

text \<open>The file \<open>n\<close> has the contents \<open>bs\<close>, and zeros behind them in its last block.\<close>

definition file_is :: "(nat \<Rightarrow> nat \<Rightarrow> nat) \<Rightarrow> (nat \<Rightarrow> block) \<Rightarrow> nat \<Rightarrow> uchar list \<Rightarrow> bool" where
  "file_is W B n bs \<longleftrightarrow> length bs \<le> MAXFILE * BSIZE \<and>
     (\<forall>i<length bs. raddr W B n (block_role (i div BSIZE)) \<noteq> 0 \<and> byte_at W B n i = bs ! i) \<and>
     (\<forall>i. length bs \<le> i \<longrightarrow> i < MAXFILE * BSIZE \<longrightarrow> raddr W B n (block_role (i div BSIZE)) \<noteq> 0 \<longrightarrow> byte_at W B n i = 0)"

lemma file_isD:
  assumes "file_is W B n bs"
  shows "length bs \<le> MAXFILE * BSIZE" "i < length bs \<Longrightarrow> raddr W B n (block_role (i div BSIZE)) \<noteq> 0"
    "i < length bs \<Longrightarrow> byte_at W B n i = bs ! i"
    "length bs \<le> i \<Longrightarrow> i < MAXFILE * BSIZE \<Longrightarrow> raddr W B n (block_role (i div BSIZE)) \<noteq> 0 \<Longrightarrow> byte_at W B n i = 0"
  using assms unfolding file_is_def by blast+

lemma in_file: "i < MAXFILE * BSIZE \<Longrightarrow> leaf (block_role (i div BSIZE))"
  by (intro block_role_leaf less_mult_imp_div_less) simp

lemma grows_file:
  assumes g: "grows n W B fb W' B' fb'" and f: "file_is W B m bs"
  shows "file_is W' B' m bs"
  unfolding file_is_def
proof (intro conjI allI impI)
  note d = file_isD [OF f]
  show "length bs \<le> MAXFILE * BSIZE" by (rule d(1))
  have keep: "raddr W' B' m (block_role (i div BSIZE)) = raddr W B m (block_role (i div BSIZE)) \<and> byte_at W' B' m i = byte_at W B m i"
    if "i < MAXFILE * BSIZE" "raddr W B m (block_role (i div BSIZE)) \<noteq> 0" for i
    using growsD(5) [OF g, of "block_role (i div BSIZE)" m] growsD(6) [OF g in_file [OF that(1)] that(2)] in_file [OF that(1)] that(2)
    by (simp add: byte_at_def)
  fix i
  { assume i: "i < length bs"
    then have "i < MAXFILE * BSIZE" using d(1) by simp
    from keep [OF this d(2) [OF i]] d(2,3) [OF i]
    show "raddr W' B' m (block_role (i div BSIZE)) \<noteq> 0" "byte_at W' B' m i = bs ! i" by simp_all }
  assume i: "length bs \<le> i" "i < MAXFILE * BSIZE" "raddr W' B' m (block_role (i div BSIZE)) \<noteq> 0"
  show "byte_at W' B' m i = 0"
  proof (cases "raddr W B m (block_role (i div BSIZE)) = 0")
    case True
    then have "B' (raddr W' B' m (block_role (i div BSIZE))) = zero_block"
      using growsD(7) [OF g in_file [OF i(2)] _ i(3)] by blast
    then show ?thesis by (simp add: byte_at_def zero_block_def)
  next
    case False
    with keep [OF i(2)] d(4) [OF i(1,2)] show ?thesis by simp
  qed
qed

text \<open>Writing into a block of data changes the bytes of that block of one file.\<close>

lemma write_file:
  assumes o': "owned W B fb" and k: "k < MAXFILE" and x: "x = raddr W B n (block_role k)" "x \<noteq> 0"
  shows "owned W (B(x := c)) fb"
    and "leaf r \<or> table r \<Longrightarrow> raddr W (B(x := c)) m r = raddr W B m r"
    and "i < MAXFILE * BSIZE \<Longrightarrow> byte_at W (B(x := c)) m i =
      (if m = n \<and> i div BSIZE = k \<and> raddr W B m (block_role (i div BSIZE)) \<noteq> 0 then c (i mod BSIZE)
       else if raddr W B m (block_role (i div BSIZE)) = 0 then B 0 (i mod BSIZE) else byte_at W B m i)"
proof -
  have l: "leaf (block_role k)" by (rule block_role_leaf [OF k])
  show keep: "raddr W (B(x := c)) m r = raddr W B m r" if "leaf r \<or> table r" for m r
    unfolding x(1) by (rule raddr_write_leaf [OF o' l _ that]) (use x in simp)
  note d = ownedD [OF o']
  have "x < fb" using d(5) l x by blast
  then show "owned W (B(x := c)) fb"
    using o' keep unfolding owned_def by (simp add: fun_upd_apply)
  assume i: "i < MAXFILE * BSIZE"
  let ?r = "block_role (i div BSIZE)"
  have v: "leaf ?r" by (rule in_file [OF i])
  have a: "raddr W (B(x := c)) m ?r = raddr W B m ?r" using keep v by blast
  show "byte_at W (B(x := c)) m i =
      (if m = n \<and> i div BSIZE = k \<and> raddr W B m ?r \<noteq> 0 then c (i mod BSIZE)
       else if raddr W B m ?r = 0 then B 0 (i mod BSIZE) else byte_at W B m i)"
  proof (cases "raddr W B m ?r = x")
    case True
    then have "m = n \<and> ?r = block_role k" using d(6) [of ?r "block_role k" m n] v l x by blast
    then have "m = n" "i div BSIZE = k" using block_role_inj by blast+
    with True a x(2) show ?thesis by (simp add: byte_at_def)
  next
    case False
    then have "\<not> (m = n \<and> i div BSIZE = k)" using x(1) by auto
    with False a x(2) show ?thesis by (auto simp: byte_at_def)
  qed
qed

text \<open>One round of the loop of \<open>iappend\<close>: \<open>n1\<close> bytes more, all other files as before.\<close>

lemma iappend_round:
  assumes t: "in_tree n W din im" and f: "file_is W (sectors im) n bs" and p: "p \<noteq> []" "length bs div BSIZE < MAXFILE"
    and r: "place (length bs div BSIZE) (din, im) = Inr (x, din1, im1)"
    and n1: "n1 = min (length p) ((length bs div BSIZE + 1) * BSIZE - length bs)"
    and im2: "im2 = wsect x (put_bytes (rsect x im1) (length bs - length bs div BSIZE * BSIZE) n1 (\<lambda>i. p ! i)) im1"
  shows "in_tree n (W(n := dwords din1)) din1 im2 \<and> file_is (W(n := dwords din1)) (sectors im2) n (bs @ take n1 p) \<and>
    (\<forall>m bs'. m \<noteq> n \<longrightarrow> file_is W (sectors im) m bs' \<longrightarrow> file_is (W(n := dwords din1)) (sectors im2) m bs') \<and>
    (\<forall>b<nmeta. sectors im2 b = sectors im b) \<and> freeinode im2 = freeinode im \<and> (\<forall>i<12. din1 i = din i)"
proof -
  let ?k = "length bs div BSIZE" and ?W = "W(n := dwords din1)" and ?o = "length bs - length bs div BSIZE * BSIZE"
  let ?c = "put_bytes (sectors im1 x) ?o n1 (\<lambda>i. p ! i)"
  note g = place_grows [OF t p(2) r]
  have gr: "grows n W (sectors im) (freeblock im) ?W (sectors im1) (freeblock im1)"
    and x: "x = raddr ?W (sectors im1) n (block_role ?k)" "x \<noteq> 0" using g by blast+
  note o' = growsD(1) [OF gr]
  have s2: "sectors im2 = (sectors im1)(x := ?c)" by (simp add: im2 wsect_def rsect_def)
  have fx: "nmeta \<le> x" using ownedD(4) [OF o', of "block_role ?k" n] x block_role_leaf [OF p(2)] by simp
  note w = write_file [OF o' p(2) x, where c = ?c]
  have tree: "in_tree n ?W din1 im2" using w(1) s2 by (simp add: in_tree_def im2 wsect_def)
  have same: "raddr ?W (sectors im2) m (block_role (i div BSIZE)) = raddr ?W (sectors im1) m (block_role (i div BSIZE))"
    if "i < MAXFILE * BSIZE" for m i
    using w(2) [of "block_role (i div BSIZE)" m] in_file [OF that] by (simp add: s2)
  have f1: "file_is ?W (sectors im1) m bs'" if "file_is W (sectors im) m bs'" for m bs' by (rule grows_file [OF gr that])
  have other: "file_is ?W (sectors im2) m bs'" if m: "m \<noteq> n" "file_is W (sectors im) m bs'" for m bs'
  proof -
    note d = file_isD [OF f1 [OF m(2)]]
    have e: "byte_at ?W (sectors im2) m i = byte_at ?W (sectors im1) m i"
      if "i < MAXFILE * BSIZE" "raddr ?W (sectors im1) m (block_role (i div BSIZE)) \<noteq> 0" for i
      unfolding s2 w(3) [OF that(1)] using that(2) m(1) by simp
    show ?thesis unfolding file_is_def
    proof (intro conjI allI impI)
      fix i
      show "length bs' \<le> MAXFILE * BSIZE" by (rule d(1))
      { assume i: "i < length bs'"
        then have "i < MAXFILE * BSIZE" using d(1) by simp
        from same [OF this, of m] e [OF this] d(2,3) [OF i]
        show "raddr ?W (sectors im2) m (block_role (i div BSIZE)) \<noteq> 0" "byte_at ?W (sectors im2) m i = bs' ! i" by simp_all }
      assume i: "length bs' \<le> i" "i < MAXFILE * BSIZE" "raddr ?W (sectors im2) m (block_role (i div BSIZE)) \<noteq> 0"
      then show "byte_at ?W (sectors im2) m i = 0" using same [OF i(2), of m] e [OF i(2)] d(4) [OF i(1,2)] by simp
    qed
  qed
  note d = file_isD [OF f1 [OF f]]
  have off: "?k * BSIZE \<le> length bs" "length bs < (?k + 1) * BSIZE"
    using div_times_less_eq_dividend [of "length bs" BSIZE] dividend_less_div_times [of BSIZE "length bs"] by simp_all
  have n1b: "length bs + n1 \<le> (?k + 1) * BSIZE" "n1 \<le> length p" using n1 off by linarith+
  have lim: "(?k + 1) * BSIZE \<le> MAXFILE * BSIZE" using p(2) by (intro mult_right_mono) simp_all
  have inblock: "i div BSIZE = ?k \<longleftrightarrow> ?k * BSIZE \<le> i \<and> i < (?k + 1) * BSIZE" for i
    by (metis Suc_eq_plus1 div_nat_eqI dividend_less_div_times div_times_less_eq_dividend mult.commute mult_Suc zero_less_numeral)
  have md: "i mod BSIZE = i - ?k * BSIZE" if "i div BSIZE = ?k" for i
    using that by (metis minus_div_mult_eq_mod)
  have mine: "byte_at ?W (sectors im2) n i =
      (if length bs \<le> i \<and> i < length bs + n1 then p ! (i - length bs) else byte_at ?W (sectors im1) n i)"
    if i: "i < MAXFILE * BSIZE" "raddr ?W (sectors im1) n (block_role (i div BSIZE)) \<noteq> 0" for i
  proof (cases "i div BSIZE = ?k")
    case True
    then have b: "?k * BSIZE \<le> i" using inblock by blast
    have "byte_at ?W (sectors im2) n i = ?c (i mod BSIZE)" unfolding s2 w(3) [OF i(1)] using i(2) True by simp
    also have "i mod BSIZE = i - ?k * BSIZE" by (rule md [OF True])
    also have "?c (i - ?k * BSIZE) = (if length bs \<le> i \<and> i < length bs + n1 then p ! (i - length bs)
        else sectors im1 x (i - ?k * BSIZE))"
      using b off(1) by (auto simp: put_bytes_def)
    also have "sectors im1 x (i - ?k * BSIZE) = byte_at ?W (sectors im1) n i"
      using True md [OF True] x(1) by (simp add: byte_at_def)
    finally show ?thesis .
  next
    case False
    have out: "\<not> (length bs \<le> i \<and> i < length bs + n1)"
    proof
      assume "length bs \<le> i \<and> i < length bs + n1"
      then have "?k * BSIZE \<le> i" "i < (?k + 1) * BSIZE" using n1b(1) off(1) by linarith+
      with inblock [of i] False show False by blast
    qed
    have "byte_at ?W (sectors im2) n i = byte_at ?W (sectors im1) n i"
      unfolding s2 w(3) [OF i(1)] using False i(2) by simp
    then show ?thesis unfolding if_not_P [OF out] .
  qed
  have "file_is ?W (sectors im2) n (bs @ take n1 p)"
    unfolding file_is_def
  proof (intro conjI allI impI)
    have len: "length (bs @ take n1 p) = length bs + n1" using n1b by simp
    then show "length (bs @ take n1 p) \<le> MAXFILE * BSIZE" using n1b lim by linarith
    fix i
    { assume i: "i < length (bs @ take n1 p)"
      then have l: "i < MAXFILE * BSIZE" using len n1b lim by linarith
      have a: "raddr ?W (sectors im1) n (block_role (i div BSIZE)) \<noteq> 0"
      proof (cases "i < length bs")
        case True
        then show ?thesis by (rule d(2))
      next
        case False
        then have "i div BSIZE = ?k" using inblock i len n1b off by simp
        with x show ?thesis by simp
      qed
      then show "raddr ?W (sectors im2) n (block_role (i div BSIZE)) \<noteq> 0" using same [OF l, of n] by simp
      show "byte_at ?W (sectors im2) n i = (bs @ take n1 p) ! i"
        using mine [OF l a] d(3) [of i] i len by (auto simp: nth_append) }
    assume i: "length (bs @ take n1 p) \<le> i" "i < MAXFILE * BSIZE" "raddr ?W (sectors im2) n (block_role (i div BSIZE)) \<noteq> 0"
    then show "byte_at ?W (sectors im2) n i = 0"
      using mine [OF i(2)] same [OF i(2), of n] d(4) [OF _ i(2)] len by simp
  qed
  moreover have "\<forall>b<nmeta. sectors im2 b = sectors im b" using growsD(4) [OF gr] fx s2 by simp
  moreover have "freeinode im2 = freeinode im" using g by (simp add: im2 wsect_def)
  ultimately show ?thesis using tree other g by blast
qed

lemma iappend_loop_Nil [simp]: "iappend_loop [] off din im = Inr (off, din, im)"
  by (subst iappend_loop.simps) simp

lemma iappend_loop_file:
  assumes "in_tree n W din im" "file_is W (sectors im) n bs" "iappend_loop p (length bs) din im = Inr (off, din', im')"
  shows "off = length bs + length p \<and> in_tree n (W(n := dwords din')) din' im' \<and>
    file_is (W(n := dwords din')) (sectors im') n (bs @ p) \<and>
    (\<forall>m bs'. m \<noteq> n \<longrightarrow> file_is W (sectors im) m bs' \<longrightarrow> file_is (W(n := dwords din')) (sectors im') m bs') \<and>
    (\<forall>b<nmeta. sectors im' b = sectors im b) \<and> freeinode im' = freeinode im \<and> (\<forall>i<12. din' i = din i)"
  using assms
proof (induction "length p" arbitrary: p bs W din im rule: less_induct)
  case less
  note t = less.prems(1) and f = less.prems(2) and r = less.prems(3)
  show ?case
  proof (cases "p = []")
    case True
    have "W(n := dwords din) = W" using t by (auto simp: in_tree_def)
    then show ?thesis using t f r True by simp
  next
    case False
    let ?k = "length bs div BSIZE"
    let ?n1 = "min (length p) ((?k + 1) * BSIZE - length bs)"
    have "\<not> MAXFILE \<le> ?k"
    proof
      assume "MAXFILE \<le> ?k"
      with r False show False by (simp add: iappend_loop.simps [of p] Let_def)
    qed
    then obtain x din1 im1 where 1: "place ?k (din, im) = Inr (x, din1, im1)"
      "iappend_loop (drop ?n1 p) (length bs + ?n1) din1
         (wsect x (put_bytes (rsect x im1) (length bs - ?k * BSIZE) ?n1 (\<lambda>i. p ! i)) im1) = Inr (off, din', im')"
      using r False by (subst (asm) iappend_loop.simps) (auto simp: Let_def hbind_eq_Inr)
    let ?im2 = "wsect x (put_bytes (rsect x im1) (length bs - ?k * BSIZE) ?n1 (\<lambda>i. p ! i)) im1"
    let ?W = "W(n := dwords din1)"
    have k: "?k < MAXFILE" using \<open>\<not> MAXFILE \<le> ?k\<close> by simp
    note g = iappend_round [OF t f False k 1(1) refl refl]
    have pos: "0 < ?n1" using False dividend_less_div_times [of BSIZE "length bs"] by simp
    have le: "length (bs @ take ?n1 p) = length bs + ?n1" by simp
    have t2: "in_tree n ?W din1 ?im2" and f2: "file_is ?W (sectors ?im2) n (bs @ take ?n1 p)" using g by blast+
    have "length (drop ?n1 p) < length p" unfolding length_drop using pos False by (intro diff_less) simp_all
    from less.hyps [OF this t2 f2] 1(2) [folded le]
    have h: "off = length (bs @ take ?n1 p) + length (drop ?n1 p) \<and> in_tree n (?W(n := dwords din')) din' im' \<and>
      file_is (?W(n := dwords din')) (sectors im') n ((bs @ take ?n1 p) @ drop ?n1 p) \<and>
      (\<forall>m bs'. m \<noteq> n \<longrightarrow> file_is ?W (sectors ?im2) m bs' \<longrightarrow> file_is (?W(n := dwords din')) (sectors im') m bs') \<and>
      (\<forall>b<nmeta. sectors im' b = sectors ?im2 b) \<and> freeinode im' = freeinode ?im2 \<and> (\<forall>i<12. din' i = din1 i)" by blast
    have W: "?W(n := dwords din') = W(n := dwords din')" by simp
    have ap: "(bs @ take ?n1 p) @ drop ?n1 p = bs @ p" unfolding append_assoc append_take_drop_id ..
    have "length (bs @ take ?n1 p) + length (drop ?n1 p) = length bs + length p" by simp
    then show ?thesis using h g unfolding W ap by auto
  qed
qed

subsection \<open>Inodes in the image\<close>

definition isize :: "image \<Rightarrow> nat \<Rightarrow> nat" where
  "isize im n = unat (get32 (rinode n im) 8)"

definition itype :: "image \<Rightarrow> nat \<Rightarrow> ushort" where
  "itype im n = get16 (rinode n im) 0"

lemma rinode_winode:
  "rinode m (winode n din im) = (if m = n then (\<lambda>i. if i < 128 then din i else 0) else rinode m im)"
proof (cases "m = n")
  case True
  then show ?thesis
    by (auto simp: rinode_def winode_def wsect_def rsect_def put_bytes_def Let_def fun_eq_iff)
next
  case False
  have "ioff m + 128 \<le> ioff n \<or> ioff n + 128 \<le> ioff m" if "m div 16 = n div 16"
  proof -
    have "m mod 16 \<noteq> n mod 16" using that False by (metis div_mult_mod_eq)
    then show ?thesis by (auto simp: ioff_def)
  qed
  then show ?thesis using False
    by (auto simp: rinode_def winode_def wsect_def rsect_def Let_def fun_eq_iff meta_numbers intro!: put_bytes_out)
qed

lemma get_in_inode:
  "off + 4 \<le> 128 \<Longrightarrow> get32 (\<lambda>i. if i < 128 then din i else 0) off = get32 din off"
  "off + 2 \<le> 128 \<Longrightarrow> get16 (\<lambda>i. if i < 128 then din i else 0) off = get16 din off"
  by (auto intro: get32_cong get16_cong)

lemma dwords_cut: "dwords (\<lambda>i. if i < 128 then din i else 0) = dwords din"
  by (auto simp: dwords_def fun_eq_iff get_in_inode)

lemma words_winode: "n < 208 \<Longrightarrow> words (winode n din im) = (words im)(n := dwords din)"
  by (auto simp: words_def rinode_winode dwords_cut fun_eq_iff)

lemma winode_sectors: "n < 208 \<Longrightarrow> b \<notin> {32..<45} \<Longrightarrow> sectors (winode n din im) b = sectors im b"
proof -
  assume "n < 208" "b \<notin> {32..<45}"
  moreover have "n div 16 < 13" using \<open>n < 208\<close> by (intro less_mult_imp_div_less) simp
  ultimately show ?thesis by (auto simp: winode_def wsect_def meta_numbers Let_def)
qed

lemma winode_fields [simp]: "freeblock (winode n din im) = freeblock im" "freeinode (winode n din im) = freeinode im"
  by (simp_all add: winode_def wsect_def Let_def)

lemma sectors_below:
  assumes "\<And>b. b < nmeta \<Longrightarrow> sectors im' b = sectors im b" "n < 208"
  shows "rinode n im' = rinode n im"
proof -
  have "n div 16 < 13" using assms(2) by (intro less_mult_imp_div_less) simp
  then show ?thesis using assms(1) by (auto simp: rinode_def rsect_def meta_numbers fun_eq_iff)
qed

lemma words_below: "(\<And>b. b < nmeta \<Longrightarrow> sectors im' b = sectors im b) \<Longrightarrow> words im' = words im"
  using sectors_below [of im' im] by (intro ext) (simp add: words_def)

text \<open>Only blocks behind the metadata matter for the tree of a file.\<close>

lemma raddr_meta:
  assumes o': "owned W B fb" and s: "\<And>b. nmeta \<le> b \<Longrightarrow> B' b = B b" and v: "leaf r \<or> table r"
  shows "raddr W B' n r = raddr W B n r"
  using v
proof (induction r)
  case (Ent q j)
  have q: "table q" using leaf_parent Ent.prems by auto
  then have "raddr W B' n q = raddr W B n q" using Ent.IH by simp
  then show ?case using ownedD(4) [OF o', of q n] q s by auto
qed simp

lemma owned_meta:
  assumes o': "owned W B fb" and s: "\<And>b. nmeta \<le> b \<Longrightarrow> B' b = B b"
  shows "owned W B' fb"
proof -
  have r: "raddr W B' n r = raddr W B n r" if "leaf r \<or> table r" for n r by (rule raddr_meta [OF o' s that])
  note d = ownedD [OF o']
  show ?thesis unfolding owned_def
  proof (intro conjI allI impI)
    show "nmeta \<le> fb" "fb \<le> FSSIZE" using d by blast+
    show "B' b = zero_block" if "fb \<le> b" for b using s [of b] d(1) d(3) [OF that] that by simp
    fix n r assume v: "leaf r \<or> table r"
    { assume "raddr W B' n r \<noteq> 0"
      then show "nmeta \<le> raddr W B' n r" "raddr W B' n r < fb" using d(4,5) [OF v, of n] r [OF v, of n] by simp_all }
    fix n' r' assume v': "leaf r' \<or> table r'" and e: "raddr W B' n r \<noteq> 0" "raddr W B' n r = raddr W B' n' r'"
    show "n = n'" "r = r'" using d(6) [OF v v', of n n'] e r [OF v, of n] r [OF v', of n'] by simp_all
  qed
qed

lemma file_meta:
  assumes o': "owned W B fb" and s: "\<And>b. nmeta \<le> b \<Longrightarrow> B' b = B b" and f: "file_is W B n bs"
  shows "file_is W B' n bs"
proof -
  have e: "raddr W B' n (block_role (i div BSIZE)) = raddr W B n (block_role (i div BSIZE)) \<and>
      (raddr W B n (block_role (i div BSIZE)) \<noteq> 0 \<longrightarrow> byte_at W B' n i = byte_at W B n i)" if "i < MAXFILE * BSIZE" for i
  proof -
    have l: "leaf (block_role (i div BSIZE))" by (rule in_file [OF that])
    then show ?thesis using raddr_meta [OF o' s, of "block_role (i div BSIZE)" n] ownedD(4) [OF o', of "block_role (i div BSIZE)" n] s
      by (auto simp: byte_at_def)
  qed
  note d = file_isD [OF f]
  show ?thesis unfolding file_is_def
  proof (intro conjI allI impI)
    fix i
    show "length bs \<le> MAXFILE * BSIZE" by (rule d(1))
    { assume i: "i < length bs"
      then have "i < MAXFILE * BSIZE" using d(1) by simp
      from e [OF this] d(2,3) [OF i]
      show "raddr W B' n (block_role (i div BSIZE)) \<noteq> 0" "byte_at W B' n i = bs ! i" by simp_all }
    assume i: "length bs \<le> i" "i < MAXFILE * BSIZE" "raddr W B' n (block_role (i div BSIZE)) \<noteq> 0"
    then show "byte_at W B' n i = 0" using e [OF i(2)] d(4) [OF i(1,2)] by simp
  qed
qed

lemma file_words: "W' n = W n \<Longrightarrow> file_is W B n bs \<Longrightarrow> file_is W' B n bs"
  using raddr_cong [of W' n W B] by (simp add: file_is_def byte_at_def)

section \<open>The image as a whole\<close>

text \<open>\<open>image_ok im cs\<close>: inode \<open>i + 1\<close> has type and contents \<open>cs ! i\<close>.\<close>

definition image_ok :: "image \<Rightarrow> (ushort \<times> uchar list) list \<Rightarrow> bool" where
  "image_ok im cs \<longleftrightarrow> freeinode im = Suc (length cs) \<and> length cs < 208 \<and> owned (words im) (sectors im) (freeblock im) \<and>
     (\<forall>i<length cs. file_is (words im) (sectors im) (Suc i) (snd (cs ! i)) \<and> isize im (Suc i) = length (snd (cs ! i)) \<and>
        itype im (Suc i) = fst (cs ! i)) \<and>
     sectors im 1 = sb_block \<and> sectors im 46 = zero_block"

lemma image_okD:
  assumes "image_ok im cs"
  shows "freeinode im = Suc (length cs)" "length cs < 208" "owned (words im) (sectors im) (freeblock im)"
    "i < length cs \<Longrightarrow> file_is (words im) (sectors im) (Suc i) (snd (cs ! i))"
    "i < length cs \<Longrightarrow> isize im (Suc i) = length (snd (cs ! i))" "i < length cs \<Longrightarrow> itype im (Suc i) = fst (cs ! i)"
    "sectors im 1 = sb_block" "sectors im 46 = zero_block"
  using assms unfolding image_ok_def by blast+

text \<open>Writing an inode back.\<close>

lemma winode_ok:
  assumes o': "owned W (sectors im) (freeblock im)" and W: "W = (words im)(n := dwords din)" and n: "n < 208"
  shows "owned (words (winode n din im)) (sectors (winode n din im)) (freeblock (winode n din im))"
    and "file_is W (sectors im) m bs \<Longrightarrow> file_is (words (winode n din im)) (sectors (winode n din im)) m bs"
proof -
  have s: "sectors (winode n din im) b = sectors im b" if "nmeta \<le> b" for b
    using that n by (intro winode_sectors) (simp_all add: meta_numbers)
  have w: "words (winode n din im) = W" using n W by (simp add: words_winode)
  show "owned (words (winode n din im)) (sectors (winode n din im)) (freeblock (winode n din im))"
    unfolding w winode_fields by (rule owned_meta [OF o' s])
  show "file_is (words (winode n din im)) (sectors (winode n din im)) m bs" if "file_is W (sectors im) m bs"
    unfolding w by (rule file_meta [OF o' s that])
qed

lemma iappend_ok:
  assumes k: "image_ok im cs" and i: "i < length cs" and r: "iappend (Suc i) p im = Inr im'"
  shows "image_ok im' (cs[i := (fst (cs ! i), snd (cs ! i) @ p)])"
proof -
  note d = image_okD [OF k]
  let ?n = "Suc i" and ?bs = "snd (cs ! i)"
  have n: "?n < 208" using i d(2) by simp
  let ?din = "rinode ?n im"
  obtain off din1 im1 where l: "iappend_loop p (length ?bs) ?din im = Inr (off, din1, im1)"
    and im': "im' = winode ?n (put32 din1 8 (of_nat off)) im1"
    using r d(5) [OF i] by (auto simp: iappend_def Let_def hbind_eq_Inr isize_def)
  have t: "in_tree ?n (words im) ?din im" using d(3) n by (simp add: in_tree_def words_def)
  note h = iappend_loop_file [OF t d(4) [OF i] l]
  let ?W = "(words im)(?n := dwords din1)" and ?din2 = "put32 din1 8 (of_nat off)"
  have dw: "dwords ?din2 = dwords din1" by (rule ext) (simp add: dwords_def get32_put32_other)
  have low: "\<And>b. b < nmeta \<Longrightarrow> sectors im1 b = sectors im b" using h by blast
  have W: "?W = (words im1)(?n := dwords ?din2)" by (simp add: dw words_below [OF low])
  have o1: "owned ?W (sectors im1) (freeblock im1)" using h by (simp add: in_tree_def)
  note w = winode_ok [OF o1 W n]
  have off: "off = length (?bs @ p)" "off < 4294967296" using h file_isD(1) [of ?W "sectors im1" ?n "?bs @ p"] by simp_all
  have ri: "rinode m im' = rinode m im" if "m < 208" "m \<noteq> ?n" for m
    unfolding im' rinode_winode using that sectors_below [OF low that(1)] by simp
  have rn: "rinode ?n im' = (\<lambda>i. if i < 128 then ?din2 i else 0)" unfolding im' rinode_winode by simp
  have "isize im' ?n = off" unfolding isize_def rn using off(2) by (simp add: get_in_inode unat_of_nat)
  then have sz: "isize im' ?n = length (?bs @ p)" unfolding off(1) .
  have ty: "itype im' ?n = itype im ?n"
  proof -
    have "get16 ?din2 0 = get16 din1 0" by (rule get16_cong) (simp add: put32_other)
    also have "\<dots> = get16 ?din 0" by (rule get16_cong) (use h in auto)
    finally show ?thesis unfolding itype_def rn by (simp add: get_in_inode)
  qed
  show ?thesis unfolding image_ok_def length_list_update
  proof (intro conjI allI impI)
    show "freeinode im' = Suc (length cs)" using h d(1) by (simp add: im')
    show "length cs < 208" by (rule d(2))
    show "owned (words im') (sectors im') (freeblock im')" unfolding im' by (rule w(1))
    show "sectors im' 1 = sb_block" "sectors im' 46 = zero_block"
      using winode_sectors [OF n, of 1 ?din2 im1] winode_sectors [OF n, of 46 ?din2 im1] low [of 1] low [of 46] d(7,8)
      by (simp_all add: im' meta_numbers)
    fix j assume j: "j < length cs"
    let ?c = "cs[i := (fst (cs ! i), ?bs @ p)] ! j"
    show "file_is (words im') (sectors im') (Suc j) (snd ?c)"
    proof (cases "j = i")
      case True
      then show ?thesis using h i w(2) [of ?n "?bs @ p"] by (simp add: im')
    next
      case False
      then have "file_is ?W (sectors im1) (Suc j) (snd (cs ! j))" using h d(4) [OF j] by auto
      then show ?thesis using False w(2) [of "Suc j"] by (simp add: im')
    qed
    show "isize im' (Suc j) = length (snd ?c)" "itype im' (Suc j) = fst ?c"
      using sz ty d(5,6) [OF j] d(6) [OF i] ri [of "Suc j"] i j d(2)
      by (cases "j = i"; simp add: isize_def itype_def)+
  qed
qed

lemma raddr_clear: "raddr (W(n := (\<lambda>_. 0))) B m r = (if m = n then 0 else raddr W B m r)"
  by (induction r) auto

lemma owned_clear:
  assumes "owned W B fb"
  shows "owned (W(n := (\<lambda>_. 0))) B fb"
  unfolding owned_def raddr_clear
proof (intro conjI allI impI)
  note d = ownedD [OF assms]
  show "nmeta \<le> fb" "fb \<le> FSSIZE" using d by blast+
  show "B b = zero_block" if "fb \<le> b" for b by (rule d(3) [OF that])
  fix m r assume v: "leaf r \<or> table r"
  { assume "(if m = n then 0 else raddr W B m r) \<noteq> 0"
    then show "nmeta \<le> (if m = n then 0 else raddr W B m r)" "(if m = n then 0 else raddr W B m r) < fb"
      using d(4,5) [OF v, of m] by (auto split: if_splits) }
  fix m' r' assume v': "leaf r' \<or> table r'"
    and e: "(if m = n then 0 else raddr W B m r) \<noteq> 0" "(if m = n then 0 else raddr W B m r) = (if m' = n then 0 else raddr W B m' r')"
  then have "raddr W B m r \<noteq> 0" "raddr W B m r = raddr W B m' r'" by (auto split: if_splits)
  then show "m = m'" "r = r'" using d(6) [OF v v'] by blast+
qed

lemma ialloc_ok:
  assumes k: "image_ok im cs" and l: "length cs < 207" and r: "mk_ialloc ty im = (inum, im')"
  shows "inum = Suc (length cs) \<and> image_ok im' (cs @ [(ty, [])])"
proof -
  note d = image_okD [OF k]
  let ?din = "put32 (put16 (put16 zero_block 0 ty) 6 1) 8 0" and ?n = "Suc (length cs)"
  let ?im = "im\<lparr>freeinode := Suc ?n\<rparr>"
  have n: "inum = ?n" "im' = winode ?n ?din ?im" using r d(1) by (auto simp: mk_ialloc_def Let_def)
  have n2: "?n < 208" using l by simp
  have "get32 ?din off = 0" if "12 \<le> off" for off
  proof -
    have "get32 ?din off = get32 zero_block off" by (rule get32_cong) (use that in \<open>simp add: put32_other put16_other\<close>)
    then show ?thesis by simp
  qed
  then have z: "dwords ?din = (\<lambda>_. 0)" by (simp add: dwords_def fun_eq_iff)
  have wim: "words ?im = words im" by (rule words_below) simp
  have o1: "owned ((words im)(?n := (\<lambda>_. 0))) (sectors ?im) (freeblock ?im)" using owned_clear [OF d(3)] by simp
  have W: "(words im)(?n := (\<lambda>_. 0)) = (words ?im)(?n := dwords ?din)" by (simp only: z wim)
  note w = winode_ok [OF o1 W n2]
  have ri: "rinode m im' = rinode m im" if "m \<noteq> ?n" for m
    unfolding n(2) rinode_winode using that by (simp add: rinode_def rsect_def cong: if_cong)
  have rn: "rinode ?n im' = (\<lambda>i. if i < 128 then ?din i else 0)" unfolding n(2) rinode_winode by simp
  have new: "isize im' ?n = 0" "itype im' ?n = ty"
  proof -
    show "isize im' ?n = 0" unfolding isize_def rn by (simp add: get_in_inode)
    have "get16 ?din 0 = get16 (put16 zero_block 0 ty) 0" by (rule get16_cong) (simp add: put32_other put16_other)
    then show "itype im' ?n = ty" unfolding itype_def rn by (simp add: get_in_inode)
  qed
  have "image_ok im' (cs @ [(ty, [])])" unfolding image_ok_def
  proof (intro conjI allI impI)
    show "freeinode im' = Suc (length (cs @ [(ty, [])]))" "length (cs @ [(ty, [])]) < 208" using l by (simp_all add: n(2))
    show "owned (words im') (sectors im') (freeblock im')" unfolding n(2) by (rule w(1))
    show "sectors im' 1 = sb_block" "sectors im' 46 = zero_block"
      using winode_sectors [OF n2, of 1 ?din ?im] winode_sectors [OF n2, of 46 ?din ?im] d(7,8) by (simp_all add: n(2))
    fix j assume j: "j < length (cs @ [(ty, [])])"
    let ?c = "(cs @ [(ty, [])]) ! j"
    show "file_is (words im') (sectors im') (Suc j) (snd ?c)"
    proof (cases "j = length cs")
      case True
      have "file_is ((words im)(?n := (\<lambda>_. 0))) (sectors ?im) ?n []" by (simp add: file_is_def raddr_clear)
      then show ?thesis using True w(2) [of ?n "[]"] by (simp add: n(2))
    next
      case False
      then have "file_is ((words im)(?n := (\<lambda>_. 0))) (sectors ?im) (Suc j) (snd (cs ! j))"
        using d(4) [of j] j by (subst file_words [where W = "words im"]) simp_all
      then show ?thesis using False j w(2) [of "Suc j" "snd (cs ! j)"] by (simp add: n(2) nth_append)
    qed
    show "isize im' (Suc j) = length (snd ?c)" "itype im' (Suc j) = fst ?c"
    proof -
      have "isize im' (Suc j) = length (snd ?c) \<and> itype im' (Suc j) = fst ?c"
      proof (cases "j = length cs")
        case True
        then show ?thesis using new by simp
      next
        case False
        then have "rinode (Suc j) im' = rinode (Suc j) im" by (intro ri) simp
        then show ?thesis using d(5,6) [of j] j False by (simp add: isize_def itype_def nth_append)
      qed
      then show "isize im' (Suc j) = length (snd ?c)" "itype im' (Suc j) = fst ?c" by blast+
    qed
  qed
  with n(1) show ?thesis by blast
qed

subsection \<open>Adding files\<close>

definition accepted :: "host_file list \<Rightarrow> host_file list" where
  "accepted files = filter (\<lambda>f. \<not> too_large f) files"

definition file_data :: "host_file \<Rightarrow> uchar list" where
  "file_data f = concat (h_chunks f)"

text \<open>The entries of the root directory for some files, the first of which gets inode \<open>n\<close>.\<close>

fun entries :: "nat \<Rightarrow> host_file list \<Rightarrow> uchar list" where
  "entries n [] = []"
| "entries n (f # fs) = dirent_bytes n (image_name (h_name f)) @ entries (Suc n) fs"

lemma append_chunks:
  "image_ok im cs \<Longrightarrow> i < length cs \<Longrightarrow> hfold (iappend (Suc i)) ps im = Inr im' \<Longrightarrow>
   image_ok im' (cs[i := (fst (cs ! i), snd (cs ! i) @ concat ps)])"
proof (induction ps arbitrary: im cs)
  case (Cons p ps)
  then obtain im1 where 1: "iappend (Suc i) p im = Inr im1" "hfold (iappend (Suc i)) ps im1 = Inr im'"
    by (auto simp: hbind_eq_Inr)
  have "image_ok im1 (cs[i := (fst (cs ! i), snd (cs ! i) @ p)])" by (rule iappend_ok [OF Cons.prems(1,2) 1(1)])
  from Cons.IH [OF this _ 1(2)] Cons.prems(2) show ?case by simp
qed simp

lemma add_file_ok:
  assumes k: "image_ok im ((t, r) # ents)" and n: "length ents < 206" and f: "\<not> too_large f" and a: "add_file f im = Inr im'"
  shows "image_ok im' ((t, r @ dirent_bytes (length ents + 2) (image_name (h_name f))) # ents @ [(T_FILE, file_data f)])"
proof -
  obtain inum im1 where i: "mk_ialloc T_FILE im = (inum, im1)" by fastforce
  let ?e = "dirent_bytes inum (image_name (h_name f))"
  have 1: "inum = length ents + 2" "image_ok im1 ((t, r) # ents @ [(T_FILE, [])])" using ialloc_ok [OF k _ i] n by simp_all
  obtain im2 where 2: "iappend (Suc 0) ?e im1 = Inr im2" "hfold (iappend inum) (h_chunks f) im2 = Inr im'"
    using a f i by (auto simp: add_file_def hbind_eq_Inr)
  have "image_ok im2 ((t, r @ ?e) # ents @ [(T_FILE, [])])" using iappend_ok [OF 1(2) _ 2(1)] by simp
  from append_chunks [OF this, of "Suc (length ents)" "h_chunks f" im'] 2(2) 1(1)
  show ?thesis by (simp add: nth_append file_data_def list_update_append)
qed

lemma add_files_ok:
  "image_ok im ((t, r) # ents) \<Longrightarrow> length ents + length (accepted fs) \<le> 206 \<Longrightarrow> hfold add_file fs im = Inr im' \<Longrightarrow>
   image_ok im' ((t, r @ entries (length ents + 2) (accepted fs)) # ents @ map (\<lambda>f. (T_FILE, file_data f)) (accepted fs))"
proof (induction fs arbitrary: im r ents)
  case Nil
  then show ?case by (simp add: accepted_def)
next
  case (Cons f fs)
  obtain im1 where 1: "add_file f im = Inr im1" "hfold add_file fs im1 = Inr im'"
    using Cons.prems(3) by (auto simp: hbind_eq_Inr)
  show ?case
  proof (cases "too_large f")
    case True
    then have "im1 = im" using 1(1) by (simp add: add_file_def)
    then show ?thesis using Cons.IH [OF Cons.prems(1) _ ] 1(2) True Cons.prems(2) by (simp add: accepted_def)
  next
    case False
    let ?e = "dirent_bytes (length ents + 2) (image_name (h_name f))"
    have "image_ok im1 ((t, r @ ?e) # ents @ [(T_FILE, file_data f)])"
      by (rule add_file_ok [OF Cons.prems(1) _ False 1(1)]) (use Cons.prems(2) False in \<open>simp add: accepted_def\<close>)
    from Cons.IH [OF this _ 1(2)] show ?thesis using Cons.prems(2) False by (simp add: accepted_def)
  qed
qed

subsection \<open>The finished image\<close>

definition root_entries :: "host_file list \<Rightarrow> uchar list" where
  "root_entries fs = dirent_bytes 1 [0x2E] @ dirent_bytes 1 [0x2E, 0x2E] @ entries 2 fs"

lemma blank_ok: "image_ok blank_image []"
proof -
  have "rinode n blank_image = (\<lambda>_. 0)" if "n < 208" for n
    by (auto simp: rinode_def rsect_def blank_image_def zero_block_def meta_numbers)
  then have "words blank_image = (\<lambda>_ _. 0)" by (auto simp: words_def dwords_def fun_eq_iff get32_def)
  moreover have "raddr (\<lambda>_ _. 0) B n r = 0" for B n r by (induction r) auto
  moreover have "sectors blank_image b = zero_block" if "b \<noteq> 1" for b using that by (simp add: blank_image_def)
  ultimately show ?thesis
    by (simp add: image_ok_def owned_def) (simp add: blank_image_def meta_numbers)
qed

lemma set_bits: "bit_is_set (fold (\<lambda>i b. set_bit_in b i) is b) j \<longleftrightarrow> j \<in> set is \<or> bit_is_set b j"
  by (induction "is" arbitrary: b) (auto simp: bit_set_bit_in)

text \<open>What the last two steps change: the size of the root directory and the first block of the bitmap.\<close>

lemma finish_ok:
  assumes k: "image_ok im cs" and ne: "cs \<noteq> []" and b: "mk_balloc (freeblock (fix_root im)) (fix_root im) = Inr im'"
  shows "owned (words im') (sectors im') (freeblock im') \<and> sectors im' 1 = sb_block \<and>
    (\<forall>i<length cs. file_is (words im') (sectors im') (Suc i) (snd (cs ! i)) \<and> itype im' (Suc i) = fst (cs ! i) \<and>
       isize im' (Suc i) = (if i = 0 then (length (snd (cs ! 0)) div BSIZE + 1) * BSIZE else length (snd (cs ! i)))) \<and>
    (\<forall>b<2 * BPB. bit_is_set (sectors im' (bmapstart mk_sb + b div BPB)) (b mod BPB) \<longleftrightarrow> b < freeblock im')"
proof -
  note d = image_okD [OF k]
  let ?sz = "(length (snd (cs ! 0)) div BSIZE + 1) * BSIZE"
  let ?din = "put32 (rinode 1 im) 8 (of_nat ?sz)"
  let ?im = "winode 1 ?din im"
  let ?bits = "fold (\<lambda>i b. set_bit_in b i) [0..<freeblock im] zero_block"
  have c0: "0 < length cs" using ne by simp
  have fr: "fix_root im = ?im" using d(5) [OF c0] by (simp add: fix_root_def Let_def isize_def)
  then have im': "im' = wsect 45 ?bits ?im" "freeblock im < 16384"
    using b by (auto simp: mk_balloc_def meta_numbers split: if_splits)
  have dw: "dwords ?din = words im 1" by (rule ext) (simp add: words_def dwords_def get32_put32_other)
  have W: "words im = (words im)(1 := dwords ?din)" unfolding dw by simp
  have one: "1 < (208 :: nat)" by simp
  note w = winode_ok [OF d(3) W one, unfolded winode_fields]
  have s': "sectors im' = (sectors ?im)(45 := ?bits)" by (simp add: im'(1) wsect_def)
  have hi: "sectors im' b = sectors ?im b" if "nmeta \<le> b" for b using that by (simp add: s' meta_numbers)
  have ri: "rinode m im' = rinode m ?im" if "m < 208" for m
  proof -
    have "m div 16 < 13" using that by (intro less_mult_imp_div_less) simp
    then show ?thesis by (simp add: rinode_def rsect_def s' meta_numbers cong: if_cong)
  qed
  have wd: "words im' = words ?im" by (intro ext) (simp add: words_def ri)
  have fbs: "freeblock im' = freeblock im" by (simp add: im'(1) wsect_def)
  have own: "owned (words im') (sectors im') (freeblock im')"
    unfolding wd fbs by (rule owned_meta [OF w(1) hi])
  have fls: "file_is (words im') (sectors im') (Suc i) (snd (cs ! i))" if "i < length cs" for i
    unfolding wd by (rule file_meta [OF w(1) hi w(2) [OF d(4) [OF that]]])
  have len: "length (snd (cs ! 0)) \<le> MAXFILE * BSIZE" by (rule file_isD(1) [OF d(4) [OF c0]])
  have r1: "rinode 1 ?im = (\<lambda>i. if i < 128 then ?din i else 0)" unfolding rinode_winode by simp
  have szb: "?sz < 4294967296"
  proof -
    have "length (snd (cs ! 0)) div BSIZE * BSIZE \<le> length (snd (cs ! 0))" by (rule div_times_less_eq_dividend)
    then show ?thesis using len by simp
  qed
  have u: "unat (of_nat x :: uint) = x" if "x < 4294967296" for x using that by (simp add: unat_of_nat)
  have meta: "itype im' (Suc i) = fst (cs ! i) \<and> isize im' (Suc i) = (if i = 0 then ?sz else length (snd (cs ! i)))"
    if i: "i < length cs" for i
  proof (cases "i = 0")
    case True
    have e: "rinode 1 im' = (\<lambda>i. if i < 128 then ?din i else 0)" unfolding ri [OF one] by (rule r1)
    have "get16 ?din 0 = get16 (rinode 1 im) 0" by (rule get16_cong) (simp add: put32_other)
    then have "itype im' 1 = itype im 1" unfolding itype_def e by (subst get_in_inode(2)) simp_all
    moreover have "isize im' 1 = ?sz"
    proof -
      have "isize im' 1 = unat (get32 ?din 8)" unfolding isize_def e by (subst get_in_inode(1)) simp_all
      also have "\<dots> = unat (of_nat ?sz :: uint)" by (simp only: get32_put32)
      also have "\<dots> = ?sz" using u [OF szb] .
      finally show ?thesis .
    qed
    ultimately show ?thesis using True d(6) [OF c0] by simp
  next
    case False
    have "Suc i < 208" using i d(2) by simp
    then have "rinode (Suc i) im' = rinode (Suc i) im" using ri [of "Suc i"] False by (simp add: rinode_winode)
    then show ?thesis using False d(5,6) [OF i] by (simp add: isize_def itype_def)
  qed
  have sb1: "sectors im' 1 = sb_block"
    using winode_sectors [of 1 1 ?din im] d(7) by (simp add: s')
  have bits: "bit_is_set (sectors im' (bmapstart mk_sb + b div BPB)) (b mod BPB) \<longleftrightarrow> b < freeblock im'" if b: "b < 2 * BPB" for b
  proof (cases "b < BPB")
    case True
    then show ?thesis by (simp add: meta_numbers s' set_bits fbs) (simp add: bit_is_set_iff zero_block_def)
  next
    case False
    then have "b div BPB = 1" using b by (intro div_nat_eqI) simp_all
    moreover have "sectors im' 46 = zero_block" using winode_sectors [of 1 46 ?din im] d(8) by (simp add: s')
    ultimately show ?thesis using False im'(2) fbs by (simp add: meta_numbers bit_is_set_iff zero_block_def)
  qed
  show ?thesis using own sb1 fls meta bits by blast
qed

lemma sb_of_sb_block: "sb_of_block sb_block = mk_sb"
proof -
  have e: "sb_block = put32 (put32 (put32 (put32 (put32 (put32 (put32 (put32 zero_block 0 25600) 4 25553) 8 200) 12 30) 16 2) 20 32) 24 45) 28 0"
    by (simp add: sb_block_def meta_numbers mk_nlog_def ninodeblocks_def)
  show ?thesis
    by (simp add: e sb_of_block_def mk_sb_def meta_numbers mk_nlog_def ninodeblocks_def get32_put32_other)
qed

definition contents :: "host_file list \<Rightarrow> (ushort \<times> uchar list) list" where
  "contents files = (T_DIR, root_entries (accepted files)) # map (\<lambda>f. (T_FILE, file_data f)) (accepted files)"

lemma mkfs_contents:
  assumes r: "mkfs files = Inr im" and n: "length (accepted files) \<le> 206"
  shows "\<exists>im1. image_ok im1 (contents files) \<and> mk_balloc (freeblock (fix_root im1)) (fix_root im1) = Inr im"
proof -
  obtain ino im0 where 0: "mk_ialloc T_DIR blank_image = (ino, im0)" by fastforce
  have k0: "ino = 1" "image_ok im0 [(T_DIR, [])]" using ialloc_ok [OF blank_ok _ 0] by simp_all
  obtain im1 im2 im3 where 1: "iappend (Suc 0) (dirent_bytes 1 [0x2E]) im0 = Inr im1"
    "iappend (Suc 0) (dirent_bytes 1 [0x2E, 0x2E]) im1 = Inr im2" "hfold add_file files im2 = Inr im3"
    "mk_balloc (freeblock (fix_root im3)) (fix_root im3) = Inr im"
    using r 0 k0(1) by (auto simp: mkfs_def hbind_eq_Inr Let_def)
  have k1: "image_ok im1 [(T_DIR, dirent_bytes 1 [0x2E])]" using iappend_ok [OF k0(2) _ 1(1)] by simp
  have k2: "image_ok im2 [(T_DIR, dirent_bytes 1 [0x2E] @ dirent_bytes 1 [0x2E, 0x2E])]" using iappend_ok [OF k1 _ 1(2)] by simp
  have "image_ok im3 (contents files)" using add_files_ok [OF k2 _ 1(3)] n by (simp add: contents_def root_entries_def numeral_2_eq_2)
  with 1(4) show ?thesis by blast
qed

lemma image_sound:
  assumes "mkfs files = Inr im" and "length (accepted files) \<le> 206"
  shows "sb_of_block (sectors im 1) = mk_sb \<and> owned (words im) (sectors im) (freeblock im) \<and>
    (\<forall>i<length (contents files).
       file_is (words im) (sectors im) (Suc i) (snd (contents files ! i)) \<and> itype im (Suc i) = fst (contents files ! i) \<and>
       isize im (Suc i) = (if i = 0 then (length (root_entries (accepted files)) div BSIZE + 1) * BSIZE
         else length (snd (contents files ! i)))) \<and>
    (\<forall>b<2 * BPB. bit_is_set (sectors im (bmapstart mk_sb + b div BPB)) (b mod BPB) \<longleftrightarrow> b < freeblock im)"
proof -
  obtain im1 where 1: "image_ok im1 (contents files)" "mk_balloc (freeblock (fix_root im1)) (fix_root im1) = Inr im"
    using mkfs_contents [OF assms] by blast
  have "contents files \<noteq> []" "snd (contents files ! 0) = root_entries (accepted files)" by (simp_all add: contents_def)
  with finish_ok [OF 1(1) _ 1(2)] show ?thesis by (simp add: sb_of_sb_block)
qed

text \<open>C16: The image that \<open>mkfs\<close> writes for at most 206 files is sound (with the root directory these are the inodes 1 to 207 that the
  inode blocks have room for; the code does not count them, and with more it overwrites the bitmap, \<open>inode_in_bitmap\<close>): its superblock says what
  the kernel will read; every file that is not too large is there, with its type, its size and its bytes, in the order of the
  arguments, and the root directory lists them under their names; no block of the image has two uses, and the bitmap marks exactly
  the blocks in use.\<close>

theorem mkfs_image_sound:
  assumes "mkfs files = Inr im" and "length (accepted files) \<le> 206"
  shows "sb_of_block (sectors im 1) = mk_sb \<and> owned (words im) (sectors im) (freeblock im) \<and>
    (\<forall>i<length (contents files).
       file_is (words im) (sectors im) (Suc i) (snd (contents files ! i)) \<and> itype im (Suc i) = fst (contents files ! i) \<and>
       isize im (Suc i) = (if i = 0 then (length (root_entries (accepted files)) div BSIZE + 1) * BSIZE
         else length (snd (contents files ! i)))) \<and>
    (\<forall>b<2 * BPB. bit_is_set (sectors im (bmapstart mk_sb + b div BPB)) (b mod BPB) \<longleftrightarrow> b < freeblock im)"
  by (rule image_sound [OF assms])

subsection \<open>The kernel reads the image\<close>

lemma rinode_get:
  "off + 4 \<le> 128 \<Longrightarrow> get32 (rinode n im) off = get32 (sectors im (IBLOCK n mk_sb)) (ioff n + off)"
  "off + 2 \<le> 128 \<Longrightarrow> get16 (rinode n im) off = get16 (sectors im (IBLOCK n mk_sb)) (ioff n + off)"
  unfolding rinode_def rsect_def by (simp_all add: get_in_inode) (simp_all add: get32_def get16_def add.assoc)

text \<open>The inode that \<open>ilock\<close> of the kernel loads, for a file whose blocks fit the addresses that the kernel keeps.\<close>

lemma kernel_block:
  assumes b: "blk s = sectors im" and n: "n < 208"
    and ip: "inode_at s ip = get_dinode (sectors im (IBLOCK n mk_sb)) (ioff n) x" and k: "k < 522"
  shows "block_of s ip k = unat (get32 (sectors im (raddr (words im) (sectors im) n (InWord 10))) (4 * (k - 10))) \<and> 10 \<le> k \<or>
    block_of s ip k = raddr (words im) (sectors im) n (block_role k) \<and> k < 10"
proof -
  have w: "words im n j = unat (i_addrs (inode_at s ip) ! j)" if "j < 11" for j
  proof -
    have "get32 (rinode n im) (12 + 4 * j) = get32 (sectors im (IBLOCK n mk_sb)) (ioff n + 12 + 4 * j)"
      using that rinode_get(1) [of "12 + 4 * j" n im] by (simp add: add.assoc)
    then show ?thesis using that n by (simp add: words_def dwords_def ip get_dinode_def)
  qed
  show ?thesis using k w [of k] w [of 10] by (auto simp: block_of_def block_role_def b)
qed

lemma kernel_file:
  assumes b: "blk s = sectors im" and n: "n < 208"
    and ip: "inode_at s ip = get_dinode (sectors im (IBLOCK n mk_sb)) (ioff n) x"
    and o': "owned (words im) (sectors im) (freeblock im)" and f: "file_is (words im) (sectors im) n bs"
    and z: "isize im n = length bs" "length bs \<le> 522 * BSIZE"
  shows "file_mapped s ip (blocks_to (file_size s ip)) \<and> file_size s ip = length bs \<and>
    (\<forall>i<length bs. file_byte s ip i = bs ! i)"
proof -
  note d = file_isD [OF f]
  have sz: "file_size s ip = length bs"
  proof -
    have "get32 (rinode n im) 8 = get32 (sectors im (IBLOCK n mk_sb)) (ioff n + 8)"
      by (rule rinode_get) simp
    then show ?thesis using z(1) by (simp add: isize_def ip get_dinode_def)
  qed
  let ?a = "\<lambda>k. raddr (words im) (sectors im) n (block_role k)" and ?t = "raddr (words im) (sectors im) n (InWord 10)"
  have used: "?a k \<noteq> 0 \<and> valid_block (?a k) \<and> block_of s ip k = ?a k \<and> (10 \<le> k \<longrightarrow> ?t \<noteq> 0 \<and> valid_block ?t)"
    if k: "k * BSIZE < length bs" for k
  proof -
    have k2: "k < 522" using k z(2) by simp
    have a: "?a k \<noteq> 0" using d(2) [OF k] by simp
    have l: "leaf (block_role k)" using k2 by (intro block_role_leaf) simp
    have v: "valid_block (raddr (words im) (sectors im) n r)" if "raddr (words im) (sectors im) n r \<noteq> 0" "leaf r \<or> table r" for r
      using ownedD(5) [OF o' that(2,1)] ownedD(2) [OF o'] that(1) by (simp add: valid_block_def)
    have "?t \<noteq> 0" if "10 \<le> k" using a that k2 by (auto simp: block_role_def split: if_splits)
    then show ?thesis using a v [OF a] v [of "InWord 10"] l kernel_block [OF b n ip k2] k2
      by (auto simp: block_role_def)
  qed
  have bt: "k * BSIZE < length bs" if "k < blocks_to (length bs)" for k
  proof -
    have "k + 1 \<le> (length bs + (BSIZE - 1)) div BSIZE" using that by simp
    then have "(k + 1) * BSIZE \<le> length bs + (BSIZE - 1)" by (simp add: less_eq_div_iff_mult_less_eq)
    then show ?thesis by simp
  qed
  have "blocks_to (length bs) \<le> 522"
  proof (rule ccontr)
    assume "\<not> blocks_to (length bs) \<le> 522"
    then have "522 * BSIZE < length bs" by (intro bt) simp
    with z(2) show False by simp
  qed
  moreover have "valid_block (unat (i_addrs (inode_at s ip) ! NDIRECT))" if "NDIRECT < blocks_to (length bs)"
  proof -
    have "words im n 10 = unat (i_addrs (inode_at s ip) ! 10)"
    proof -
      have "get32 (rinode n im) 52 = get32 (sectors im (IBLOCK n mk_sb)) (ioff n + 52)"
        by (rule rinode_get) simp
      then show ?thesis using n by (simp add: words_def dwords_def ip get_dinode_def add.commute)
    qed
    then show ?thesis using used [OF bt [OF that]] by simp
  qed
  ultimately have "file_mapped s ip (blocks_to (length bs))"
    using used bt by (simp add: file_mapped_def)
  moreover have "file_byte s ip i = bs ! i" if "i < length bs" for i
  proof -
    have "i div BSIZE * BSIZE < length bs" using that by (meson div_times_less_eq_dividend order.strict_trans1)
    then show ?thesis using used d(3) [OF that] b by (simp add: file_byte_def byte_at_def)
  qed
  ultimately show ?thesis by (simp add: sz)
qed

text \<open>C17: What \<open>mkfs\<close> writes for at most 206 files the kernel reads: in a kernel state over the finished image, \<open>readi\<close> on the inode loaded
  for an accepted file of at most 522 blocks returns exactly the bytes of that file from the offset on.\<close>

theorem kernel_reads_image:
  assumes "mkfs files = Inr im" and "length (accepted files) \<le> 206" and "i < length (accepted files)"
    and "blk s = sectors im" and "held s = {}"
    and "inode_at s ip = get_dinode (sectors im (IBLOCK (i + 2) mk_sb)) (ioff (i + 2)) x"
    and "length (file_data (accepted files ! i)) \<le> 522 * BSIZE"
    and "unat off \<le> length (file_data (accepted files ! i))" and "unat off + unat n < 4294967296"
  shows "readi ip off n s =
    (let bs = take (unat n) (drop (unat off) (file_data (accepted files ! i))) in Ok (int (length bs), bs, s))"
proof -
  let ?bs = "file_data (accepted files ! i)"
  have i: "Suc i < length (contents files)" "contents files ! Suc i = (T_FILE, ?bs)" using assms(3) by (simp_all add: contents_def)
  have m: "owned (words im) (sectors im) (freeblock im)" "file_is (words im) (sectors im) (i + 2) ?bs"
    "itype im (i + 2) = T_FILE" "isize im (i + 2) = length ?bs"
    using image_sound [OF assms(1,2)] i by auto
  have n: "i + 2 < 208" using assms(2,3) by simp
  have k: "file_mapped s ip (blocks_to (file_size s ip))" "file_size s ip = length ?bs" "\<And>j. j < length ?bs \<Longrightarrow> file_byte s ip j = ?bs ! j"
    using kernel_file [OF assms(4) n assms(6) m(1,2,4) assms(7)] by blast+
  have "i_type (inode_at s ip) = itype im (i + 2)"
    using rinode_get(2) [of 0 "i + 2" im] by (simp add: assms(6) get_dinode_def itype_def)
  then have t: "i_type (inode_at s ip) \<noteq> T_DEV" using m(3) by simp
  have "map (file_byte s ip) [unat off..<min (unat off + unat n) (length ?bs)] = take (unat n) (drop (unat off) ?bs)"
  proof (rule nth_equalityI)
    fix j assume "j < length (map (file_byte s ip) [unat off..<min (unat off + unat n) (length ?bs)])"
    then have "j < min (unat off + unat n) (length ?bs) - unat off" unfolding length_map length_upt .
    then have j: "unat off + j < min (unat off + unat n) (length ?bs)" "j < unat n" "unat off + j < length ?bs" by linarith+
    then have "map (file_byte s ip) [unat off..<min (unat off + unat n) (length ?bs)] ! j = file_byte s ip (unat off + j)" by simp
    also have "\<dots> = take (unat n) (drop (unat off) ?bs) ! j" using j k(3) [of "unat off + j"] by simp
    finally show "map (file_byte s ip) [unat off..<min (unat off + unat n) (length ?bs)] ! j = take (unat n) (drop (unat off) ?bs) ! j" .
  qed simp
  moreover have "min (unat n) (length ?bs - unat off) = length (take (unat n) (drop (unat off) ?bs))" by simp
  ultimately show ?thesis
    using readi_reads_file [OF t assms(5) k(1) _ assms(9)] assms(8) by (simp add: k(2) Let_def min.commute)
qed

section \<open>Enough room\<close>

text \<open>A simple bound: three blocks for every byte, which every round of the loop keeps to.\<close>

lemma fresh_block_runs: "freeblock im < FSSIZE \<Longrightarrow> fresh_block im = Inr (freeblock im, im\<lparr>freeblock := freeblock im + 1\<rparr>)"
  by (simp add: fresh_block_def meta_numbers)

lemma inode_word_runs:
  "freeblock im < FSSIZE \<Longrightarrow> \<exists>a din' im'. inode_word k (din, im) = Inr (a, din', im') \<and> freeblock im' \<le> freeblock im + 1"
  by (cases "get32 din (12 + 4 * k) = 0") (simp_all add: inode_word_def fresh_block_runs)

lemma table_entry_runs:
  "freeblock im < FSSIZE \<Longrightarrow> \<exists>x im'. table_entry a j im = Inr (x, im') \<and> freeblock im' \<le> freeblock im + 1"
  by (cases "get32 (sectors im a) (4 * j) = 0") (simp_all add: table_entry_def rsect_def wsect_def fresh_block_runs)

lemma place_runs:
  assumes "fbn < MAXFILE" "freeblock im + 3 \<le> FSSIZE"
  shows "\<exists>x din' im'. place fbn (din, im) = Inr (x, din', im') \<and> freeblock im' \<le> freeblock im + 3"
proof -
  have w: "\<exists>a din1 im1. inode_word k (din, im) = Inr (a, din1, im1) \<and> freeblock im1 \<le> freeblock im + 1" for k
    using assms(2) by (intro inode_word_runs) simp
  consider (direct) "fbn < 10" | (single) "10 \<le> fbn" "fbn < 522" | (double) "522 \<le> fbn" by linarith
  then show ?thesis
  proof cases
    case direct
    obtain a din1 im1 where "inode_word fbn (din, im) = Inr (a, din1, im1)" "freeblock im1 \<le> freeblock im + 1"
      using w by blast
    with direct show ?thesis by (simp add: place_def)
  next
    case single
    obtain a din1 im1 where 1: "inode_word 10 (din, im) = Inr (a, din1, im1)" "freeblock im1 \<le> freeblock im + 1"
      using w by blast
    obtain x im2 where "table_entry a (fbn - 10) im1 = Inr (x, im2)" "freeblock im2 \<le> freeblock im1 + 1"
      using table_entry_runs [of im1 a "fbn - 10"] 1 assms(2) by auto
    with 1 single show ?thesis by (simp add: place_def)
  next
    case double
    let ?i = "(fbn - 522) div 512"
    have "?i < 512" using assms(1) double by (intro less_mult_imp_div_less) simp
    obtain a din1 im1 where 1: "inode_word 11 (din, im) = Inr (a, din1, im1)" "freeblock im1 \<le> freeblock im + 1"
      using w by blast
    obtain x im2 where 2: "table_entry a ?i im1 = Inr (x, im2)" "freeblock im2 \<le> freeblock im1 + 1"
      using table_entry_runs [of im1 a ?i] 1 assms(2) by auto
    obtain y im3 where "table_entry x ((fbn - 522) mod 512) im2 = Inr (y, im3)" "freeblock im3 \<le> freeblock im2 + 1"
      using table_entry_runs [of im2 x "(fbn - 522) mod 512"] 1 2 assms(2) by auto
    with 1 2 double \<open>?i < 512\<close> show ?thesis by (simp add: place_def Let_def)
  qed
qed

lemma iappend_loop_runs:
  "off + length p \<le> MAXFILE * BSIZE \<Longrightarrow> freeblock im + 3 * length p \<le> FSSIZE \<Longrightarrow>
   \<exists>off' din' im'. iappend_loop p off din im = Inr (off', din', im') \<and> freeblock im' \<le> freeblock im + 3 * length p"
proof (induction "length p" arbitrary: p off din im rule: less_induct)
  case less
  show ?case
  proof (cases "p = []")
    case True
    then show ?thesis by simp
  next
    case False
    let ?k = "off div BSIZE"
    let ?n1 = "min (length p) ((?k + 1) * BSIZE - off)"
    have lp: "1 \<le> length p" using False by (cases p) simp_all
    have k: "?k < MAXFILE" using less.prems(1) lp by (intro less_mult_imp_div_less) simp
    have "freeblock im + 3 \<le> FSSIZE" using less.prems(2) lp by linarith
    then obtain x din1 im1 where 1: "place ?k (din, im) = Inr (x, din1, im1)" "freeblock im1 \<le> freeblock im + 3"
      using place_runs [OF k] by blast
    let ?im2 = "wsect x (put_bytes (rsect x im1) (off - ?k * BSIZE) ?n1 (\<lambda>i. p ! i)) im1"
    have pos: "1 \<le> ?n1" using lp dividend_less_div_times [of BSIZE off] by simp
    have len: "length (drop ?n1 p) + ?n1 = length p" by simp
    have f2: "freeblock ?im2 = freeblock im1" by (simp add: wsect_def)
    have "length (drop ?n1 p) < length p" using pos len by linarith
    moreover have "off + ?n1 + length (drop ?n1 p) \<le> MAXFILE * BSIZE" using less.prems(1) len by linarith
    moreover have b: "freeblock ?im2 + 3 * length (drop ?n1 p) \<le> freeblock im + 3 * length p"
      using 1(2) pos len f2 by linarith
    moreover have "freeblock ?im2 + 3 * length (drop ?n1 p) \<le> FSSIZE" using b less.prems(2) by linarith
    ultimately obtain off' din' im' where 2: "iappend_loop (drop ?n1 p) (off + ?n1) din1 ?im2 = Inr (off', din', im')"
      "freeblock im' \<le> freeblock ?im2 + 3 * length (drop ?n1 p)"
      using less.hyps [of "drop ?n1 p" "off + ?n1" ?im2 din1] by blast
    have "iappend_loop p off din im = Inr (off', din', im')"
      using 1(1) 2(1) False k by (subst iappend_loop.simps) (simp add: Let_def)
    then show ?thesis using 2(2) b by (intro exI conjI) (assumption, linarith)
  qed
qed

lemma iappend_runs:
  assumes k: "image_ok im cs" "i < length cs" and b: "length (snd (cs ! i)) + length p \<le> MAXFILE * BSIZE" "freeblock im + 3 * length p \<le> FSSIZE"
  shows "\<exists>im'. iappend (Suc i) p im = Inr im' \<and> freeblock im' \<le> freeblock im + 3 * length p"
proof -
  have "isize im (Suc i) = length (snd (cs ! i))" by (rule image_okD(5) [OF k])
  then obtain off' din' im' where "iappend_loop p (isize im (Suc i)) (rinode (Suc i) im) im = Inr (off', din', im')"
      "freeblock im' \<le> freeblock im + 3 * length p"
    using iappend_loop_runs [of "length (snd (cs ! i))" p im "rinode (Suc i) im"] b by auto
  then show ?thesis by (simp add: iappend_def Let_def isize_def)
qed

lemma chunks_run:
  "image_ok im cs \<Longrightarrow> i < length cs \<Longrightarrow> length (snd (cs ! i)) + length (concat ps) \<le> MAXFILE * BSIZE \<Longrightarrow>
   freeblock im + 3 * length (concat ps) \<le> FSSIZE \<Longrightarrow>
   \<exists>im'. hfold (iappend (Suc i)) ps im = Inr im' \<and> freeblock im' \<le> freeblock im + 3 * length (concat ps)"
proof (induction ps arbitrary: im cs)
  case (Cons p ps)
  let ?cs = "cs[i := (fst (cs ! i), snd (cs ! i) @ p)]"
  obtain im1 where 1: "iappend (Suc i) p im = Inr im1" "freeblock im1 \<le> freeblock im + 3 * length p"
    using iappend_runs [OF Cons.prems(1,2), of p] Cons.prems(3,4) by auto
  have "image_ok im1 ?cs" by (rule iappend_ok [OF Cons.prems(1,2) 1(1)])
  moreover have "length (snd (?cs ! i)) + length (concat ps) \<le> MAXFILE * BSIZE" using Cons.prems(2,3) by simp
  moreover have "freeblock im1 + 3 * length (concat ps) \<le> FSSIZE" using 1(2) Cons.prems(4) by simp
  ultimately obtain im' where "hfold (iappend (Suc i)) ps im1 = Inr im'" "freeblock im' \<le> freeblock im1 + 3 * length (concat ps)"
    using Cons.IH [of im1 ?cs] Cons.prems(2) by auto
  with 1 show ?case by auto
qed simp

lemma length_dirent [simp]: "length (dirent_bytes n name) = 16"
proof -
  have "length (takeWhile (\<lambda>c. c \<noteq> 0) (take DIRSIZ name)) \<le> DIRSIZ"
    by (rule order.trans [OF length_takeWhile_le]) simp
  then show ?thesis by (simp add: dirent_bytes_def copy_name_def Let_def)
qed

definition cost :: "host_file list \<Rightarrow> nat" where
  "cost fs = 4 * sum_list (map (\<lambda>f. 16 + length (file_data f)) fs)"

lemma add_files_run:
  "image_ok im ((t, r) # ents) \<Longrightarrow> length ents + length (accepted fs) \<le> 206 \<Longrightarrow> length r + freeblock im + cost (accepted fs) < 16384 \<Longrightarrow>
   \<exists>im'. hfold add_file fs im = Inr im' \<and> freeblock im' \<le> freeblock im + cost (accepted fs)"
proof (induction fs arbitrary: im r ents)
  case Nil
  then show ?case by simp
next
  case (Cons f fs)
  show ?case
  proof (cases "too_large f")
    case True
    then show ?thesis using Cons by (simp add: accepted_def add_file_def)
  next
    case False
    let ?n = "length ents + 2"
    let ?e = "dirent_bytes ?n (image_name (h_name f))"
    have c: "cost (accepted (f # fs)) = 64 + 4 * length (file_data f) + cost (accepted fs)" "accepted (f # fs) = f # accepted fs"
      using False by (simp_all add: accepted_def cost_def)
    obtain inum im1 where i: "mk_ialloc T_FILE im = (inum, im1)" by fastforce
    have 1: "inum = ?n" "image_ok im1 ((t, r) # ents @ [(T_FILE, [])])"
      using ialloc_ok [OF Cons.prems(1) _ i] Cons.prems(2) c(2) by simp_all
    have f1: "freeblock im1 = freeblock im" using i by (auto simp: mk_ialloc_def Let_def)
    obtain im2 where 2: "iappend (Suc 0) ?e im1 = Inr im2" "freeblock im2 \<le> freeblock im + 48"
      using iappend_runs [OF 1(2), of 0 ?e] Cons.prems(3) c f1 by auto
    have k2: "image_ok im2 ((t, r @ ?e) # ents @ [(T_FILE, [])])" using iappend_ok [OF 1(2) _ 2(1)] by simp
    obtain im3 where 3: "hfold (iappend ?n) (h_chunks f) im2 = Inr im3" "freeblock im3 \<le> freeblock im2 + 3 * length (file_data f)"
      using chunks_run [OF k2, of "Suc (length ents)" "h_chunks f"] Cons.prems(3) c 2(2) by (auto simp: nth_append file_data_def)
    have a: "add_file f im = Inr im3" using False i 1(1) 2(1) 3(1) by (simp add: add_file_def)
    have "image_ok im3 ((t, r @ ?e) # ents @ [(T_FILE, file_data f)])"
      by (rule add_file_ok [OF Cons.prems(1) _ False a]) (use Cons.prems(2) c in simp)
    moreover have "length (ents @ [(T_FILE, file_data f)]) + length (accepted fs) \<le> 206" using Cons.prems(2) c by simp
    moreover have "length (r @ ?e) + freeblock im3 + cost (accepted fs) < 16384" using Cons.prems(3) c 2(2) 3(2) by simp
    ultimately obtain im' where "hfold add_file fs im3 = Inr im'" "freeblock im' \<le> freeblock im3 + cost (accepted fs)"
      using Cons.IH by blast
    with a c 2(2) 3(2) show ?thesis by auto
  qed
qed

text \<open>With few enough bytes to write \<open>mkfs\<close> finishes.\<close>

theorem mkfs_returns:
  assumes "length (accepted files) \<le> 206" and "cost (accepted files) < 16000"
  shows "\<exists>im. mkfs files = Inr im"
proof -
  obtain ino im0 where 0: "mk_ialloc T_DIR blank_image = (ino, im0)" by fastforce
  have k0: "ino = 1" "image_ok im0 [(T_DIR, [])]" using ialloc_ok [OF blank_ok _ 0] by simp_all
  have f0: "freeblock im0 = 47" using 0 by (auto simp: mk_ialloc_def Let_def blank_image_def meta_numbers)
  obtain im1 where 1: "iappend (Suc 0) (dirent_bytes 1 [0x2E]) im0 = Inr im1" "freeblock im1 \<le> 95"
    using iappend_runs [OF k0(2), of 0 "dirent_bytes 1 [0x2E]"] f0 by auto
  have k1: "image_ok im1 [(T_DIR, dirent_bytes 1 [0x2E])]" using iappend_ok [OF k0(2) _ 1(1)] by simp
  obtain im2 where 2: "iappend (Suc 0) (dirent_bytes 1 [0x2E, 0x2E]) im1 = Inr im2" "freeblock im2 \<le> 143"
    using iappend_runs [OF k1, of 0 "dirent_bytes 1 [0x2E, 0x2E]"] 1(2) by auto
  have k2: "image_ok im2 [(T_DIR, dirent_bytes 1 [0x2E] @ dirent_bytes 1 [0x2E, 0x2E])]" using iappend_ok [OF k1 _ 2(1)] by simp
  obtain im3 where 3: "hfold add_file files im2 = Inr im3" "freeblock im3 \<le> freeblock im2 + cost (accepted files)"
    using add_files_run [OF k2, of files] assms 2(2) by auto
  have "freeblock (fix_root im3) < 16384" using 3(2) 2(2) assms(2) by (simp add: fix_root_def Let_def)
  then have "\<exists>im. mk_balloc (freeblock (fix_root im3)) (fix_root im3) = Inr im" by (simp add: mk_balloc_def)
  then show ?thesis using 0 k0(1) 1(1) 2(1) 3(1) by (simp add: mkfs_def Let_def)
qed

text \<open>The bitmap is written as one block: with more than 16383 blocks in use, 32 of the 50 megabytes, \<open>mkfs\<close> aborts.\<close>

lemma half_full_image_fails: "16384 \<le> freeblock im \<Longrightarrow> mk_balloc (freeblock im) im = Inl AssertionFailed"
  by (simp add: mk_balloc_def)

text \<open>The number of inodes is not checked: the inode behind the last block of inodes is written into the bitmap.\<close>

lemma inode_in_bitmap: "freeinode im = 208 \<Longrightarrow> fst (mk_ialloc ty im) = 208 \<and> IBLOCK 208 mk_sb = bmapstart mk_sb"
  by (simp add: mk_ialloc_def Let_def meta_numbers)

section \<open>A concrete image\<close>

definition demo_file :: host_file where
  "demo_file = \<lparr>h_name = [0x5F, 0x61], h_size = 3, h_chunks = [[7, 8], [9]]\<rparr>"

lemma demo_accepted: "accepted [demo_file] = [demo_file]" "file_data demo_file = [7, 8, 9]" "cost [demo_file] = 76"
  by (simp_all add: accepted_def demo_file_def too_large_def file_data_def cost_def)

theorem mkfs_image_sound_witness:
  "\<exists>im. mkfs [demo_file] = Inr im \<and> isize im 2 = 3 \<and> isize im 1 = 2048 \<and> sb_of_block (sectors im 1) = mk_sb"
proof -
  obtain im where im: "mkfs [demo_file] = Inr im" using mkfs_returns [of "[demo_file]"] demo_accepted by auto
  have "length (accepted [demo_file]) \<le> 206" by (simp add: demo_accepted)
  note s = mkfs_image_sound [OF im this]
  have "contents [demo_file] = [(T_DIR, root_entries [demo_file]), (T_FILE, [7, 8, 9])]" by (simp add: contents_def demo_accepted)
  moreover have "length (root_entries [demo_file]) = 48" by (simp add: root_entries_def)
  ultimately show ?thesis using s im by (intro exI [of _ im]) (auto simp: demo_accepted less_Suc_eq numeral_2_eq_2)
qed

theorem kernel_reads_image_witness:
  "\<exists>im s. mkfs [demo_file] = Inr im \<and> readi 0 1 10 (s :: fsys) = Ok (2, [8, 9], s)"
proof -
  obtain im where im: "mkfs [demo_file] = Inr im" using mkfs_returns [of "[demo_file]"] demo_accepted by auto
  let ?s = "demo_fs\<lparr>blk := sectors im, icache := get_dinode (sectors im (IBLOCK (0 + 2) mk_sb)) (ioff (0 + 2)) free_inode # replicate 99 free_inode\<rparr>"
  have "readi 0 1 10 ?s = (let bs = take (unat (10 :: uint)) (drop (unat (1 :: uint)) (file_data (accepted [demo_file] ! 0))) in Ok (int (length bs), bs, ?s))"
    by (rule kernel_reads_image [OF im, where i = 0 and x = free_inode]) (simp_all add: demo_accepted demo_fs_def inode_at_def)
  then have "readi 0 1 10 ?s = Ok (2, [8, 9], ?s)" by (simp add: demo_accepted)
  with im show ?thesis by blast
qed

end
