(* ===== verification/Editor.thy ===== *)
theory Editor
  imports UserHandler
begin

text \<open>
  The text editor, \<open>app/editor/editor.c\<close>: its own key handler, which works on the array of an input
  field with shifting loops and line searches, the handler of clicks, and loading and saving.

  The text is the whole array of \<open>MAX_LONG_STRLEN\<close> bytes, of which the string is the part before the first zero.  An access outside
  of the array would be a list update or access beyond its length; the invariant \<open>edit_ok\<close> shows that there is none.
  The file system is a parameter of loading and saving: under which name the kernel looks a path up (it cuts components to
  \<open>DIRSIZ\<close> characters), whether a file can be opened for writing, and what a \<open>write\<close> returns and stores.
\<close>

section \<open>Data\<close>

record edit =
  arr :: "uchar list"
  epos :: int
  modified :: bool
  fname :: "uchar list"

definition str_of :: "uchar list \<Rightarrow> uchar list" where
  "str_of a = takeWhile (\<lambda>c. c \<noteq> 0) a"

definition strlen_of :: "uchar list \<Rightarrow> int" where
  "strlen_of a = int (length (str_of a))"

section \<open>Keys\<close>

definition clamp_pos :: "edit \<Rightarrow> edit" where
  "clamp_pos e = (let p = (if epos e < 0 then 0 else epos e) in e\<lparr>epos := if p > strlen_of (arr e) then strlen_of (arr e) else p\<rparr>)"

text \<open>\<open>for (i = len; i >= pos; i--) text[i + 1] = text[i]\<close> and \<open>for (i = from; i < len; i++) text[i] = text[i + 1]\<close>\<close>

definition shift_right :: "nat \<Rightarrow> nat \<Rightarrow> uchar list \<Rightarrow> uchar list" where
  "shift_right pos len a = fold (\<lambda>i a. a[Suc i := a ! i]) (rev [pos..<Suc len]) a"

definition shift_left :: "nat \<Rightarrow> nat \<Rightarrow> uchar list \<Rightarrow> uchar list" where
  "shift_left from' len a = fold (\<lambda>i a. a[i := a ! Suc i]) [from'..<len] a"

fun line_start :: "uchar list \<Rightarrow> nat \<Rightarrow> nat" where
  "line_start a 0 = 0"
| "line_start a (Suc p) = (if a ! p \<noteq> NL then line_start a p else Suc p)"

function line_end :: "uchar list \<Rightarrow> nat \<Rightarrow> nat \<Rightarrow> nat" where
  "line_end a len p = (if p < len \<and> a ! p \<noteq> NL then line_end a len (Suc p) else p)"
  by pat_completeness auto
termination
  by (relation "measure (\<lambda>(a, len, p). len - p)") auto

declare line_end.simps [simp del]

definition insert_key :: "int \<Rightarrow> edit \<Rightarrow> edit" where
  "insert_key key e =
     (let len = strlen_of (arr e); p = nat (epos e) in
      if len < MAX_LONG_STRLEN - 1
      then e\<lparr>arr := (shift_right p (nat len) (arr e))[p := of_int key], epos := epos e + 1, modified := True\<rparr>
      else e)"

definition backspace_key :: "edit \<Rightarrow> edit" where
  "backspace_key e =
     e\<lparr>arr := shift_left (nat (epos e - 1)) (nat (strlen_of (arr e))) (arr e), epos := epos e - 1, modified := True\<rparr>"

definition delete_key :: "edit \<Rightarrow> edit" where
  "delete_key e = e\<lparr>arr := shift_left (nat (epos e)) (nat (strlen_of (arr e))) (arr e), modified := True\<rparr>"

definition up_line :: "edit \<Rightarrow> edit" where
  "up_line e =
     (let p = nat (epos e); lineStart = line_start (arr e) p in
      if 0 < lineStart
      then let prevLineEnd = lineStart - 1; prevLineStart = line_start (arr e) prevLineEnd
           in e\<lparr>epos := int (prevLineStart + min (p - lineStart) (prevLineEnd - prevLineStart))\<rparr>
      else e\<lparr>epos := 0\<rparr>)"

definition down_line :: "edit \<Rightarrow> edit" where
  "down_line e =
     (let p = nat (epos e); len = nat (strlen_of (arr e)); lineStart = line_start (arr e) p; lineEnd = line_end (arr e) len p in
      if lineEnd < len
      then let nextLineStart = lineEnd + 1; nextLineEnd = line_end (arr e) len nextLineStart
           in e\<lparr>epos := int (nextLineStart + min (p - lineStart) (nextLineEnd - nextLineStart))\<rparr>
      else e\<lparr>epos := int len\<rparr>)"

definition del_key :: "int \<Rightarrow> bool" where "del_key k \<longleftrightarrow> k = 0xE9"
definition page_up_key :: "int \<Rightarrow> bool" where "page_up_key k \<longleftrightarrow> k = 0xE6 \<or> k = 0x49"
definition page_down_key :: "int \<Rightarrow> bool" where "page_down_key k \<longleftrightarrow> k = 0xE7 \<or> k = 0x51"

text \<open>The chain of \<open>else if\<close> up to the page keys, after the position has been put into bounds.\<close>

definition key_action :: "int \<Rightarrow> edit \<Rightarrow> edit" where
  "key_action key e =
     (let len = strlen_of (arr e); pos = epos e in
      if typed key then insert_key key e
      else if key = 8 \<and> pos > 0 then backspace_key e
      else if del_key key \<and> pos < len then delete_key e
      else if left_key key \<and> pos > 0 then e\<lparr>epos := pos - 1\<rparr>
      else if right_key key \<and> pos < len then e\<lparr>epos := pos + 1\<rparr>
      else if up_key key then up_line e
      else if down_key key then down_line e
      else if home_key key then e\<lparr>epos := int (line_start (arr e) (nat pos))\<rparr>
      else if end_key key then e\<lparr>epos := int (line_end (arr e) (nat len) (nat pos))\<rparr>
      else e)"

text \<open>A page key is not one of the keys before it in the chain; the handler then calls itself ten times with an arrow key.\<close>

definition key_once :: "int \<Rightarrow> edit \<Rightarrow> edit" where
  "key_once key e = clamp_pos (key_action key (clamp_pos e))"

definition before_pages :: "int \<Rightarrow> edit \<Rightarrow> bool" where
  "before_pages key e \<longleftrightarrow> typed key \<or> key = 8 \<and> epos e > 0 \<or> del_key key \<and> epos e < strlen_of (arr e) \<or>
     left_key key \<and> epos e > 0 \<or> right_key key \<and> epos e < strlen_of (arr e) \<or> up_key key \<or> down_key key \<or> home_key key \<or> end_key key"

definition safeKeyHandler :: "int \<Rightarrow> int \<Rightarrow> edit \<Rightarrow> edit" where
  "safeKeyHandler ty key e =
     (if ty \<noteq> KEY_DOWN then e
      else if \<not> before_pages key (clamp_pos e) \<and> page_up_key key then (key_once 0xE2 ^^ 10) (clamp_pos e)
      else if \<not> before_pages key (clamp_pos e) \<and> page_down_key key then (key_once 0xE3 ^^ 10) (clamp_pos e)
      else key_once key e)"

section \<open>Clicks\<close>

text \<open>\<open>pos\<close>, \<open>line\<close>, \<open>col\<close> are the loop's variables, \<open>cs\<close> the string from \<open>pos\<close> on.\<close>

fun click_loop :: "int \<Rightarrow> int \<Rightarrow> uchar list \<Rightarrow> nat \<Rightarrow> int \<Rightarrow> int \<Rightarrow> nat" where
  "click_loop cx cy [] pos line col = pos"
| "click_loop cx cy (c # cs) pos line col =
     (if line = cy \<and> col \<ge> cx then pos
      else if c = NL then (if line = cy then pos else click_loop cx cy cs (Suc pos) (line + 1) 0)
      else click_loop cx cy cs (Suc pos) line (col + 1))"

definition editor_click :: "int \<Rightarrow> int \<Rightarrow> int \<Rightarrow> int \<Rightarrow> edit \<Rightarrow> edit" where
  "editor_click x y mx my e =
     (let cx = (mx - x) sdiv 10; cy = (my - y) sdiv 18
      in e\<lparr>epos := int (click_loop (max 0 cx) (max 0 cy) (str_of (arr e)) 0 0 0)\<rparr>)"

definition editorInputHandler :: "int \<Rightarrow> int \<Rightarrow> int \<Rightarrow> int \<Rightarrow> int \<Rightarrow> edit \<Rightarrow> edit" where
  "editorInputHandler x y ty p0 p1 e =
     (if ty = LEFT_CLICK then editor_click x y p0 p1 e
      else if ty = KEY_DOWN then safeKeyHandler ty p0 e else e)"

section \<open>Files\<close>

text \<open>\<open>disk\<close> maps the names the kernel looks up to contents; \<open>open\<close> with \<open>O_CREATE\<close> keeps old contents, and \<open>write\<close>
  starts at offset 0.  \<open>stored E f n\<close> is what a \<open>write\<close> of \<open>n\<close> bytes to \<open>f\<close> returns, and how many
  of the bytes it has stored.\<close>

type_synonym disk = "uchar list \<rightharpoonup> uchar list"

record fenv =
  canon :: "uchar list \<Rightarrow> uchar list"
  can_open :: "uchar list \<Rightarrow> bool"
  stored :: "uchar list \<Rightarrow> nat \<Rightarrow> int \<times> nat"

text \<open>The lines that \<open>saveHandler\<close> prints.\<close>

datatype said = Cannot_save | Not_complete | Saved

definition untitled :: "uchar list" where
  "untitled = map (\<lambda>c. of_nat (of_char c)) ''untitled.txt''"

definition overwrite :: "uchar list \<Rightarrow> uchar list \<Rightarrow> uchar list" where
  "overwrite old new = new @ drop (length new) old"

definition save_name :: "edit \<Rightarrow> uchar list" where
  "save_name e = (if fname e \<noteq> [] then fname e else untitled)"

definition saveHandler :: "fenv \<Rightarrow> int \<Rightarrow> disk \<Rightarrow> edit \<Rightarrow> disk \<times> edit \<times> said list" where
  "saveHandler E ty d e =
     (if ty \<noteq> 6 \<and> ty \<noteq> 8 then (d, e, [])
      else let file = save_name e in
        if \<not> can_open E file then (d, e, [Cannot_save])
        else let txt = str_of (arr e); textlen = length txt;
                 old = (case d (canon E file) of None \<Rightarrow> [] | Some bs \<Rightarrow> bs)
             in case stored E file textlen of (written, k) \<Rightarrow>
                  (d(canon E file \<mapsto> overwrite old (take k txt)), e\<lparr>modified := False\<rparr>,
                   (if written \<noteq> int textlen then [Not_complete] else []) @ [Saved]))"

definition newHandler :: "int \<Rightarrow> edit \<Rightarrow> edit" where
  "newHandler ty e =
     (if ty \<noteq> 6 \<and> ty \<noteq> 8 then e
      else \<lparr>arr = replicate (nat MAX_LONG_STRLEN) 0, epos = 0, modified = False, fname = []\<rparr>)"



section \<open>Strings in the array\<close>

definition edit_ok :: "edit \<Rightarrow> bool" where
  "edit_ok e \<longleftrightarrow> length (arr e) = 1000 \<and> 0 \<in> set (arr e) \<and> 0 \<le> epos e \<and> epos e \<le> strlen_of (arr e)"

lemma str_split:
  assumes "0 \<in> set a"
  shows "a = str_of a @ 0 # drop (Suc (length (str_of a))) a" "length (str_of a) < length a" "0 \<notin> set (str_of a)"
proof -
  have "dropWhile (\<lambda>c. c \<noteq> 0) a \<noteq> []" using assms by (auto simp: dropWhile_eq_Nil_conv)
  moreover from this have "hd (dropWhile (\<lambda>c. c \<noteq> 0) a) = 0" using hd_dropWhile [of "\<lambda>c. c \<noteq> 0" a] by simp
  ultimately obtain r where r: "dropWhile (\<lambda>c. c \<noteq> 0) a = 0 # r" by (cases "dropWhile (\<lambda>c. c \<noteq> 0) a") auto
  have s: "str_of a @ 0 # r = a" unfolding str_of_def r [symmetric] by (rule takeWhile_dropWhile_id)
  then have "length a = Suc (length (str_of a) + length r)" by (metis add_Suc_right length_Cons length_append)
  then show "length (str_of a) < length a" by simp
  show "0 \<notin> set (str_of a)" by (auto simp: str_of_def dest: set_takeWhileD)
  have "drop (Suc (length (str_of a))) (str_of a @ 0 # r) = r" by simp
  then have "drop (Suc (length (str_of a))) a = r" unfolding s .
  then show "a = str_of a @ 0 # drop (Suc (length (str_of a))) a" by (simp add: s)
qed

lemma str_of_zero: "0 \<notin> set s \<Longrightarrow> str_of (s @ 0 # r) = s"
  unfolding str_of_def by (subst takeWhile_append2) auto

lemma length_shifts [simp]: "length (shift_right p len a) = length a" "length (shift_left p len a) = length a"
proof -
  have "length (fold (\<lambda>i a. a[f i := a ! g i]) xs a) = length a" for f g xs and a :: "uchar list"
    by (induction xs arbitrary: a) auto
  note f = this
  show "length (shift_right p len a) = length a" unfolding shift_right_def by (rule f)
  show "length (shift_left p len a) = length a" unfolding shift_left_def by (rule f)
qed

lemma shift_right_nth:
  "p \<le> len \<Longrightarrow> Suc len < length a \<Longrightarrow>
   shift_right p len a ! j = (if p < j \<and> j \<le> Suc len then a ! (j - 1) else a ! j)"
proof (induction "len - p" arbitrary: len a)
  case 0
  then have "[p..<Suc len] = [p]" "len = p" by simp_all
  then show ?case using 0 by (auto simp: shift_right_def nth_list_update)
next
  case (Suc k)
  then obtain l where l: "len = Suc l" "p \<le> l" by (cases len) auto
  have "rev [p..<Suc len] = len # rev [p..<Suc l]" using l Suc.prems by simp
  then have "shift_right p len a = shift_right p l (a[Suc len := a ! len])" by (simp add: shift_right_def)
  also have "\<dots> ! j = (if p < j \<and> j \<le> Suc l then a[Suc len := a ! len] ! (j - 1) else a[Suc len := a ! len] ! j)"
    using Suc.hyps(1) [of l "a[Suc len := a ! len]"] Suc.hyps(2) Suc.prems l by simp
  also have "\<dots> = (if p < j \<and> j \<le> Suc len then a ! (j - 1) else a ! j)"
    using Suc.prems l by (auto simp: nth_list_update)
  finally show ?case .
qed

lemma shift_left_nth:
  "len < length a \<Longrightarrow> shift_left p len a ! j = (if p \<le> j \<and> j < len then a ! Suc j else a ! j)"
proof (induction "len - p" arbitrary: p a)
  case 0
  then show ?case by (auto simp: shift_left_def)
next
  case (Suc k)
  then have l: "p < len" "k = len - Suc p" by simp_all
  then have "[p..<len] = p # [Suc p..<len]" by (simp add: upt_conv_Cons)
  then have "shift_left p len a = shift_left (Suc p) len (a[p := a ! Suc p])" by (simp add: shift_left_def)
  also have "\<dots> ! j = (if Suc p \<le> j \<and> j < len then a[p := a ! Suc p] ! Suc j else a[p := a ! Suc p] ! j)"
    using Suc.hyps(1) [OF l(2), of "a[p := a ! Suc p]"] Suc.prems by simp
  also have "\<dots> = (if p \<le> j \<and> j < len then a ! Suc j else a ! j)"
    using Suc.prems l by (auto simp: nth_list_update)
  finally show ?case .
qed

text \<open>The shifting loops as insertion into and deletion from the string.\<close>

lemma insert_array:
  assumes a: "a = s @ 0 # t # r" and p: "p \<le> length s"
  shows "(shift_right p (length s) a)[p := c] = (take p s @ c # drop p s) @ 0 # r"
proof (rule nth_equalityI)
  show "length ((shift_right p (length s) a)[p := c]) = length ((take p s @ c # drop p s) @ 0 # r)"
    using p by (simp add: a)
  fix j assume "j < length ((shift_right p (length s) a)[p := c])"
  then have j: "j < length a" by simp
  have n: "shift_right p (length s) a ! j = (if p < j \<and> j \<le> Suc (length s) then a ! (j - 1) else a ! j)"
    by (rule shift_right_nth) (use p in \<open>simp_all add: a\<close>)
  consider "j < p" | "j = p" | "p < j" "j \<le> length s" | "j = Suc (length s)" | "Suc (length s) < j" by linarith
  then show "(shift_right p (length s) a)[p := c] ! j = ((take p s @ c # drop p s) @ 0 # r) ! j"
  proof cases
    case 3
    then obtain i where i: "j = Suc i" "p \<le> i" "i < length s" by (cases j) auto
    then have "i - p < length s - p" by simp
    then show ?thesis using p j n i by (simp add: nth_append a Suc_diff_le)
  next
    case 5
    then obtain i where i: "j = Suc (Suc (length s)) + i" using less_iff_Suc_add by auto
    then have "\<not> Suc (length s + i) - p < length s - p" using p by linarith
    then show ?thesis using p j n i by (simp add: nth_append a)
  qed (use p j n in \<open>auto simp: nth_append a min_def\<close>)
qed

lemma delete_array:
  assumes a: "a = s @ 0 # r" and p: "p < length s"
  shows "shift_left p (length s) a = (take p s @ drop (Suc p) s) @ 0 # 0 # r"
proof (rule nth_equalityI)
  show "length (shift_left p (length s) a) = length ((take p s @ drop (Suc p) s) @ 0 # 0 # r)"
    using p by (simp add: a)
  fix j assume "j < length (shift_left p (length s) a)"
  then have j: "j < length a" by simp
  have n: "shift_left p (length s) a ! j = (if p \<le> j \<and> j < length s then a ! Suc j else a ! j)"
    by (rule shift_left_nth) (simp add: a)
  consider "j < p" | "p \<le> j" "Suc j < length s" | "Suc j = length s" | "j = length s" | "length s < j" by linarith
  then show "shift_left p (length s) a ! j = ((take p s @ drop (Suc p) s) @ 0 # 0 # r) ! j"
  proof cases
    case 5
    then obtain i where i: "j = Suc (length s) + i" using less_iff_Suc_add by auto
    then have "\<not> j - p < length s - Suc p" by linarith
    then show ?thesis using p j n i by (simp add: nth_append a)
  qed (use p j n in \<open>auto simp: nth_append a min_def\<close>)
qed

section \<open>Lines\<close>

text \<open>What is before the cursor on its line, and what is behind it.\<close>

definition line_before :: "uchar list \<Rightarrow> nat \<Rightarrow> uchar list" where
  "line_before s p = rev (takeWhile (\<lambda>c. c \<noteq> NL) (rev (take p s)))"

definition line_after :: "uchar list \<Rightarrow> nat \<Rightarrow> uchar list" where
  "line_after s p = takeWhile (\<lambda>c. c \<noteq> NL) (drop p s)"

lemma line_before_length: "length (line_before s p) \<le> p"
  unfolding line_before_def length_rev
  by (rule order.trans [OF length_takeWhile_le]) simp

lemma line_start_eq: "p \<le> length s \<Longrightarrow> line_start (s @ r) p = p - length (line_before s p)"
proof (induction p)
  case (Suc p)
  have t: "take (Suc p) s = take p s @ [s ! p]" using Suc.prems by (simp add: take_Suc_conv_app_nth)
  show ?case
  proof (cases "s ! p = NL")
    case True
    then show ?thesis using Suc.prems by (simp add: line_before_def t nth_append)
  next
    case False
    then have "line_before s (Suc p) = line_before s p @ [s ! p]" by (simp add: line_before_def t)
    then show ?thesis using Suc False line_before_length [of s p] by (simp add: nth_append)
  qed
qed simp

lemma line_end_eq: "p \<le> length s \<Longrightarrow> line_end (s @ r) (length s) p = p + length (line_after s p)"
proof (induction "length s - p" arbitrary: p)
  case 0
  then show ?case by (subst line_end.simps) (simp add: line_after_def)
next
  case (Suc k)
  then have p: "p < length s" by simp
  have d: "drop p s = s ! p # drop (Suc p) s" by (rule Cons_nth_drop_Suc [symmetric, OF p])
  show ?case
  proof (cases "s ! p = NL")
    case True
    then show ?thesis using p by (subst line_end.simps) (simp add: line_after_def d nth_append)
  next
    case False
    have "line_end (s @ r) (length s) (Suc p) = Suc p + length (line_after s (Suc p))"
      using Suc p by (intro Suc.hyps(1)) simp_all
    then show ?thesis using False p by (subst line_end.simps) (simp add: line_after_def d nth_append)
  qed
qed

section \<open>What a key means\<close>

text \<open>The specification: a string and a position in it.\<close>

definition view :: "edit \<Rightarrow> uchar list \<times> nat" where
  "view e = (str_of (arr e), nat (epos e))"

definition sp_up :: "uchar list \<Rightarrow> nat \<Rightarrow> nat" where
  "sp_up s p =
     (let b = line_before s p in
      if length b = p then 0
      else let q = p - length b - 1; l = line_before s q in q - length l + min (length b) (length l))"

definition sp_down :: "uchar list \<Rightarrow> nat \<Rightarrow> nat" where
  "sp_down s p =
     (let b = line_before s p; q = p + length (line_after s p) in
      if q < length s then Suc q + min (length b) (length (line_after s (Suc q))) else length s)"

definition sp_key :: "int \<Rightarrow> uchar list \<times> nat \<Rightarrow> uchar list \<times> nat" where
  "sp_key key v = (case v of (s, p) \<Rightarrow>
     if typed key then (if length s < 999 then (take p s @ of_int key # drop p s, Suc p) else (s, p))
     else if key = 8 \<and> 0 < p then (take (p - 1) s @ drop p s, p - 1)
     else if del_key key \<and> p < length s then (take p s @ drop (Suc p) s, p)
     else if left_key key \<and> 0 < p then (s, p - 1)
     else if right_key key \<and> p < length s then (s, Suc p)
     else if up_key key then (s, sp_up s p)
     else if down_key key then (s, sp_down s p)
     else if home_key key then (s, p - length (line_before s p))
     else if end_key key then (s, p + length (line_after s p))
     else if page_up_key key then (s, (sp_up s ^^ 10) p)
     else if page_down_key key then (s, (sp_down s ^^ 10) p)
     else (s, p))"

lemma edit_split:
  assumes "edit_ok e"
  obtains s r where "arr e = s @ 0 # r" "str_of (arr e) = s" "0 \<notin> set s" "strlen_of (arr e) = int (length s)"
    "length s + length r = 999" "epos e = int (nat (epos e))" "nat (epos e) \<le> length s"
proof -
  let ?s = "str_of (arr e)" and ?r = "drop (Suc (length (str_of (arr e)))) (arr e)"
  have z: "0 \<in> set (arr e)" "length (arr e) = 1000" using assms by (simp_all add: edit_ok_def)
  note a = str_split [OF z(1)]
  have "length ?s + length ?r = 999" using a(2) z(2) by simp
  then show ?thesis
    using assms a by (intro that [of ?s ?r]) (auto simp: edit_ok_def strlen_of_def)
qed

lemma edit_okI:
  assumes "arr e = s @ 0 # r" "0 \<notin> set s" "length s + length r = 999" "epos e = int p" "p \<le> length s"
  shows "edit_ok e \<and> view e = (s, p)"
  using assms str_of_zero [OF assms(2), of r] by (simp add: edit_ok_def view_def strlen_of_def)

lemma clamp_ok: "edit_ok e \<Longrightarrow> clamp_pos e = e"
  by (auto simp: clamp_pos_def edit_ok_def Let_def)

lemma line_after_length: "p \<le> length s \<Longrightarrow> p + length (line_after s p) \<le> length s"
  unfolding line_after_def using length_takeWhile_le [of "\<lambda>c. c \<noteq> NL" "drop p s"] by simp

lemma sp_up_le: "sp_up s p \<le> p"
  using line_before_length [of s p] line_before_length [of s "p - length (line_before s p) - 1"]
  by (auto simp: sp_up_def Let_def)

lemma sp_down_le: "p \<le> length s \<Longrightarrow> sp_down s p \<le> length s"
  using line_after_length [of "Suc (p + length (line_after s p))" s] by (auto simp: sp_down_def Let_def)

lemma up_line_eq:
  assumes "arr e = s @ r" "epos e = int p" "p \<le> length s"
  shows "up_line e = e\<lparr>epos := int (sp_up s p)\<rparr>"
proof -
  note l = line_before_length [of s p] line_before_length [of s "p - length (line_before s p) - 1"]
  have "line_start (arr e) p = p - length (line_before s p)" unfolding assms(1) by (rule line_start_eq [OF assms(3)])
  moreover have "line_start (arr e) (p - length (line_before s p) - 1) =
      p - length (line_before s p) - 1 - length (line_before s (p - length (line_before s p) - 1))"
    unfolding assms(1) by (rule line_start_eq) (use assms(3) in simp)
  ultimately show ?thesis using l assms(2) by (auto simp: up_line_def sp_up_def Let_def)
qed

lemma down_line_eq:
  assumes "arr e = s @ r" "strlen_of (arr e) = int (length s)" "epos e = int p" "p \<le> length s"
  shows "down_line e = e\<lparr>epos := int (sp_down s p)\<rparr>"
proof -
  let ?q = "p + length (line_after s p)"
  note l = line_before_length [of s p] line_after_length [OF assms(4)]
  have 1: "line_start (arr e) p = p - length (line_before s p)" unfolding assms(1) by (rule line_start_eq [OF assms(4)])
  have 2: "line_end (arr e) (length s) p = ?q" unfolding assms(1) by (rule line_end_eq [OF assms(4)])
  show ?thesis
  proof (cases "?q < length s")
    case True
    then have "line_end (arr e) (length s) (Suc ?q) = Suc ?q + length (line_after s (Suc ?q))"
      unfolding assms(1) by (intro line_end_eq) simp
    then show ?thesis using 1 2 l True assms(2,3) by (simp add: down_line_def sp_down_def Let_def)
  next
    case False
    then show ?thesis using 1 2 assms(2,3) by (simp add: down_line_def sp_down_def Let_def)
  qed
qed

lemma insert_refines:
  assumes e: "edit_ok e" and k: "typed key"
  shows "edit_ok (insert_key key e) \<and> view (insert_key key e) = sp_key key (view e)"
proof -
  obtain s r where a: "arr e = s @ 0 # r" "str_of (arr e) = s" "0 \<notin> set s" "strlen_of (arr e) = int (length s)"
    "length s + length r = 999" "epos e = int (nat (epos e))" "nat (epos e) \<le> length s" by (rule edit_split [OF e])
  let ?p = "nat (epos e)"
  show ?thesis
  proof (cases "length s < 999")
    case False
    then show ?thesis using e a k by (simp add: insert_key_def Let_def sp_key_def view_def)
  next
    case True
    then obtain t r' where r: "r = t # r'" using a(5) by (cases r) auto
    have sh: "(shift_right ?p (length s) (arr e))[?p := of_int key] = (take ?p s @ of_int key # drop ?p s) @ 0 # r'"
      by (rule insert_array [OF _ a(7)]) (simp add: a(1) r)
    have "edit_ok (insert_key key e) \<and> view (insert_key key e) = (take ?p s @ of_int key # drop ?p s, Suc ?p)"
    proof (rule edit_okI [where r = r'])
      show "arr (insert_key key e) = (take ?p s @ of_int key # drop ?p s) @ 0 # r'"
        using True sh a(4) by (simp add: insert_key_def Let_def)
      show "0 \<notin> set (take ?p s @ of_int key # drop ?p s)"
        using a(3) of_int_typed [OF k] by (auto dest: in_set_takeD in_set_dropD)
      show "length (take ?p s @ of_int key # drop ?p s) + length r' = 999" using a(5,7) r by simp
      show "epos (insert_key key e) = int (Suc ?p)" using True a(4,6) by (simp add: insert_key_def Let_def)
      show "Suc ?p \<le> length (take ?p s @ of_int key # drop ?p s)" using a(7) by simp
    qed
    then show ?thesis using True k a(2) by (simp add: sp_key_def view_def)
  qed
qed

lemma erase_refines:
  assumes e: "edit_ok e" and q: "q < length (str_of (arr e))" and p: "p' \<le> q"
  shows "edit_ok (e\<lparr>arr := shift_left q (length (str_of (arr e))) (arr e), epos := int p', modified := True\<rparr>) \<and>
    view (e\<lparr>arr := shift_left q (length (str_of (arr e))) (arr e), epos := int p', modified := True\<rparr>) =
      (take q (str_of (arr e)) @ drop (Suc q) (str_of (arr e)), p')"
proof -
  obtain s r where a: "arr e = s @ 0 # r" "str_of (arr e) = s" "0 \<notin> set s" "length s + length r = 999"
    by (rule edit_split [OF e])
  have sh: "shift_left q (length s) (arr e) = (take q s @ drop (Suc q) s) @ 0 # 0 # r"
    by (rule delete_array [OF a(1)]) (use q a(2) in simp)
  show ?thesis unfolding a(2)
  proof (rule edit_okI [where r = "0 # r"])
    show "arr (e\<lparr>arr := shift_left q (length s) (arr e), epos := int p', modified := True\<rparr>) = (take q s @ drop (Suc q) s) @ 0 # 0 # r"
      using sh by simp
    show "0 \<notin> set (take q s @ drop (Suc q) s)" using a(3) by (auto dest: in_set_takeD in_set_dropD)
    show "length (take q s @ drop (Suc q) s) + length (0 # r) = 999" using a(2,4) q by simp
    show "p' \<le> length (take q s @ drop (Suc q) s)" using q a(2) p by simp
  qed simp
qed

lemma move_refines:
  "edit_ok e \<Longrightarrow> p \<le> length (str_of (arr e)) \<Longrightarrow>
   edit_ok (e\<lparr>epos := int p\<rparr>) \<and> view (e\<lparr>epos := int p\<rparr>) = (str_of (arr e), p)"
  by (simp add: edit_ok_def view_def strlen_of_def)

lemma if_rel: "(c \<Longrightarrow> Q x y) \<Longrightarrow> (\<not> c \<Longrightarrow> Q x' y') \<Longrightarrow> Q (if c then x else x') (if c then y else y')"
  by simp

lemma key_action_refines:
  assumes e: "edit_ok e" and np: "before_pages key e \<or> \<not> page_up_key key \<and> \<not> page_down_key key"
  shows "edit_ok (key_action key e) \<and> view (key_action key e) = sp_key key (view e)"
proof -
  obtain s r where a: "arr e = s @ 0 # r" "str_of (arr e) = s" "0 \<notin> set s" "strlen_of (arr e) = int (length s)"
    "length s + length r = 999" "epos e = int (nat (epos e))" "nat (epos e) \<le> length s" by (rule edit_split [OF e])
  let ?p = "nat (epos e)"
  have v: "view e = (s, ?p)" by (simp add: view_def a(2))
  have cond: "epos e > 0 \<longleftrightarrow> 0 < ?p" "epos e < strlen_of (arr e) \<longleftrightarrow> ?p < length s" using a(4,6) by linarith+
  have mv: "edit_ok (e\<lparr>epos := int q\<rparr>) \<and> view (e\<lparr>epos := int q\<rparr>) = (s, q)" if "q \<le> length s" for q
    using move_refines [OF e, of q] that a(2) by simp
  show ?thesis
  proof (cases "typed key")
    case True
    then show ?thesis using insert_refines [OF e] by (simp add: key_action_def Let_def)
  next
    case t: False
    show ?thesis
    proof (cases "key = 8 \<and> 0 < ?p")
      case True
      have q: "nat (epos e - 1) = ?p - 1" "int (?p - Suc 0) = epos e - 1" using True a(6) by linarith+
      have "?p - 1 < length (str_of (arr e))" unfolding a(2) using True a(7) by linarith
      from erase_refines [OF e this order.refl] True
      have "edit_ok (backspace_key e) \<and> view (backspace_key e) = (take (?p - 1) s @ drop ?p s, ?p - 1)"
        unfolding backspace_key_def q(1) a(2,4) by (simp add: q(2))
      then show ?thesis unfolding key_action_def Let_def sp_key_def v prod.case cond if_not_P [OF t] if_P [OF True] .
    next
      case b: False
      show ?thesis
      proof (cases "del_key key \<and> ?p < length s")
        case True
        have q: "?p < length (str_of (arr e))" using True a(2) by simp
        have "e\<lparr>arr := x, epos := int ?p, modified := True\<rparr> = e\<lparr>arr := x, modified := True\<rparr>" for x using a(6) by simp
        with erase_refines [OF e q order.refl]
        have "edit_ok (delete_key e) \<and> view (delete_key e) = (take ?p s @ drop (Suc ?p) s, ?p)"
          unfolding delete_key_def a(2,4) by simp
        then show ?thesis unfolding key_action_def Let_def sp_key_def v prod.case cond if_not_P [OF t] if_not_P [OF b] if_P [OF True] .
      next
        case d: False
        have l: "epos e - 1 = int (?p - 1)" if "0 < ?p" using that by linarith
        have r: "epos e + 1 = int (Suc ?p)" using a(6) by linarith
        have s1: "line_start (arr e) ?p = ?p - length (line_before s ?p)" unfolding a(1) by (rule line_start_eq [OF a(7)])
        have s2: "line_end (arr e) (length s) ?p = ?p + length (line_after s ?p)" unfolding a(1) by (rule line_end_eq [OF a(7)])
        have u: "up_line e = e\<lparr>epos := int (sp_up s ?p)\<rparr>" by (rule up_line_eq [OF a(1,6,7)])
        have w: "down_line e = e\<lparr>epos := int (sp_down s ?p)\<rparr>" by (rule down_line_eq [OF a(1,4,6,7)])
        have le: "sp_up s ?p \<le> length s" "sp_down s ?p \<le> length s" "?p - length (line_before s ?p) \<le> length s"
          "?p + length (line_after s ?p) \<le> length s"
          using sp_up_le [of s ?p] sp_down_le [OF a(7)] line_after_length [OF a(7)] a(7) by simp_all
        have pos: "nat (strlen_of (arr e)) = length s" by (simp add: a(4))
        let ?act = "if left_key key \<and> 0 < ?p then e\<lparr>epos := int (?p - 1)\<rparr>
          else if right_key key \<and> ?p < length s then e\<lparr>epos := int (Suc ?p)\<rparr>
          else if up_key key then e\<lparr>epos := int (sp_up s ?p)\<rparr> else if down_key key then e\<lparr>epos := int (sp_down s ?p)\<rparr>
          else if home_key key then e\<lparr>epos := int (?p - length (line_before s ?p))\<rparr>
          else if end_key key then e\<lparr>epos := int (?p + length (line_after s ?p))\<rparr> else e"
        have act: "key_action key e = ?act"
          unfolding key_action_def Let_def cond pos s1 s2 u w r if_not_P [OF t] if_not_P [OF b] if_not_P [OF d]
          by (intro if_cong refl) (simp only: l)
        have np': "left_key key \<and> 0 < ?p \<or> right_key key \<and> ?p < length s \<or> up_key key \<or> down_key key \<or> home_key key \<or> end_key key \<or>
            \<not> page_up_key key \<and> \<not> page_down_key key"
          using np t b d unfolding before_pages_def cond by blast
        define Q where "Q = (\<lambda>e' v'. edit_ok e' \<and> view e' = v')"
        have m: "Q (e\<lparr>epos := int q\<rparr>) (s, q)" if "q \<le> length s" for q unfolding Q_def by (rule mv [OF that])
        have Q0: "Q e (s, ?p)" using e v by (simp add: Q_def)
        have "Q ?act (sp_key key (s, ?p))"
          unfolding sp_key_def prod.case if_not_P [OF t] if_not_P [OF b] if_not_P [OF d]
        proof (intro if_rel [where Q = Q])
          show "Q (e\<lparr>epos := int (?p - 1)\<rparr>) (s, ?p - 1)" using a(7) by (intro m) linarith
          show "Q (e\<lparr>epos := int (Suc ?p)\<rparr>) (s, Suc ?p)" if "right_key key \<and> ?p < length s" using that by (intro m) linarith
          show "Q (e\<lparr>epos := int (sp_up s ?p)\<rparr>) (s, sp_up s ?p)" by (rule m [OF le(1)])
          show "Q (e\<lparr>epos := int (sp_down s ?p)\<rparr>) (s, sp_down s ?p)" by (rule m [OF le(2)])
          show "Q (e\<lparr>epos := int (?p - length (line_before s ?p))\<rparr>) (s, ?p - length (line_before s ?p))" by (rule m [OF le(3)])
          show "Q (e\<lparr>epos := int (?p + length (line_after s ?p))\<rparr>) (s, ?p + length (line_after s ?p))" by (rule m [OF le(4)])
          assume "\<not> (left_key key \<and> 0 < ?p)" "\<not> (right_key key \<and> ?p < length s)" "\<not> up_key key" "\<not> down_key key" "\<not> home_key key" "\<not> end_key key"
          then have "\<not> page_up_key key" "\<not> page_down_key key" using np' by blast+
          then show "Q e (if page_up_key key then (s, (sp_up s ^^ 10) ?p) else if page_down_key key then (s, (sp_down s ^^ 10) ?p) else (s, ?p))"
            using Q0 by (simp only: if_False)
        qed
        then have "edit_ok ?act \<and> view ?act = sp_key key (s, ?p)" unfolding Q_def .
        then show ?thesis unfolding act v .
      qed
    qed
  qed
qed

lemma arrow_refines:
  assumes "edit_ok e"
  shows "edit_ok (key_once 0xE2 e) \<and> view (key_once 0xE2 e) = (fst (view e), sp_up (fst (view e)) (snd (view e)))"
    and "edit_ok (key_once 0xE3 e) \<and> view (key_once 0xE3 e) = (fst (view e), sp_down (fst (view e)) (snd (view e)))"
proof -
  note k = typed_def del_key_def left_key_def right_key_def up_key_def down_key_def page_up_key_def page_down_key_def
  have "edit_ok (key_action 0xE2 e) \<and> view (key_action 0xE2 e) = sp_key 0xE2 (view e)"
    by (rule key_action_refines [OF assms]) (simp add: before_pages_def k)
  then show "edit_ok (key_once 0xE2 e) \<and> view (key_once 0xE2 e) = (fst (view e), sp_up (fst (view e)) (snd (view e)))"
    using assms by (simp add: key_once_def clamp_ok sp_key_def k split: prod.splits)
  have "edit_ok (key_action 0xE3 e) \<and> view (key_action 0xE3 e) = sp_key 0xE3 (view e)"
    by (rule key_action_refines [OF assms]) (simp add: before_pages_def k)
  then show "edit_ok (key_once 0xE3 e) \<and> view (key_once 0xE3 e) = (fst (view e), sp_down (fst (view e)) (snd (view e)))"
    using assms by (simp add: key_once_def clamp_ok sp_key_def k split: prod.splits)
qed

lemma pages_refine:
  assumes "edit_ok e"
  shows "edit_ok ((key_once 0xE2 ^^ n) e) \<and> view ((key_once 0xE2 ^^ n) e) = (fst (view e), (sp_up (fst (view e)) ^^ n) (snd (view e)))"
    and "edit_ok ((key_once 0xE3 ^^ n) e) \<and> view ((key_once 0xE3 ^^ n) e) = (fst (view e), (sp_down (fst (view e)) ^^ n) (snd (view e)))"
  using assms by (induction n) (simp_all add: arrow_refines)

lemma safeKeyHandler_refines:
  assumes "edit_ok e"
  shows "edit_ok (safeKeyHandler ty key e) \<and>
    view (safeKeyHandler ty key e) = (if ty = KEY_DOWN then sp_key key (view e) else view e)"
proof -
  have c: "clamp_pos e = e" by (rule clamp_ok [OF assms])
  have k: "key_action key e = e \<and> sp_key key (view e) =
      (if page_up_key key then (fst (view e), (sp_up (fst (view e)) ^^ 10) (snd (view e)))
       else if page_down_key key then (fst (view e), (sp_down (fst (view e)) ^^ 10) (snd (view e))) else view e)"
    if "\<not> before_pages key e"
  proof -
    have "strlen_of (arr e) = int (length (str_of (arr e)))" "0 \<le> epos e" using assms by (simp_all add: strlen_of_def edit_ok_def)
    then have cond: "epos e > 0 \<longleftrightarrow> 0 < nat (epos e)" "epos e < strlen_of (arr e) \<longleftrightarrow> nat (epos e) < length (str_of (arr e))" by linarith+
    have n: "\<not> typed key" "\<not> (key = 8 \<and> epos e > 0)" "\<not> (del_key key \<and> epos e < strlen_of (arr e))" "\<not> (left_key key \<and> epos e > 0)"
      "\<not> (right_key key \<and> epos e < strlen_of (arr e))" "\<not> up_key key" "\<not> down_key key" "\<not> home_key key" "\<not> end_key key"
      using that unfolding before_pages_def by blast+
    show ?thesis
    proof
      show "key_action key e = e" unfolding key_action_def Let_def using n by (simp only: if_False)
      show "sp_key key (view e) = (if page_up_key key then (fst (view e), (sp_up (fst (view e)) ^^ 10) (snd (view e)))
         else if page_down_key key then (fst (view e), (sp_down (fst (view e)) ^^ 10) (snd (view e))) else view e)"
        unfolding sp_key_def view_def prod.case fst_conv snd_conv using n [unfolded cond] by (simp only: if_False)
    qed
  qed
  show ?thesis
  proof (cases "ty = KEY_DOWN")
    case False
    then show ?thesis using assms by (simp add: safeKeyHandler_def)
  next
    case True
    show ?thesis
    proof (cases "before_pages key e")
      case b: True
      then have "edit_ok (key_action key e) \<and> view (key_action key e) = sp_key key (view e)"
        using key_action_refines [OF assms] by blast
      then show ?thesis using True b by (simp add: safeKeyHandler_def c key_once_def clamp_ok)
    next
      case b: False
      then show ?thesis using True k [OF b] pages_refine [OF assms, of 10] assms
        by (simp add: safeKeyHandler_def c key_once_def del: funpow.simps)
    qed
  qed
qed

text \<open>C39: The key handler of the editor, which moves bytes in an array, searches line ends and calls itself for the
  page keys, implements the editing of a string with a cursor: typing inserts unless the text has 999 characters, backspace
  and delete take one character out, the arrows move by a character or to the same column of the neighbouring line, home and end go to the ends
  of the line.  The cursor stays in the text and the text in its array, whatever the key.\<close>

theorem editor_refines:
  assumes "edit_ok e"
  shows "edit_ok (safeKeyHandler ty key e) \<and>
    view (safeKeyHandler ty key e) = (if ty = KEY_DOWN then sp_key key (view e) else view e)"
  by (rule safeKeyHandler_refines [OF assms])

section \<open>Lines and columns\<close>

lemma line_before_at:
  assumes "A = [] \<or> last A = NL" "NL \<notin> set l"
  shows "line_before (A @ l @ r) (length A + length l) = l"
proof -
  have t: "take (length A + length l) (A @ l @ r) = A @ l" by simp
  have n: "\<forall>x\<in>set l. x \<noteq> NL" using assms(2) by auto
  have "takeWhile (\<lambda>c. c \<noteq> NL) (rev l @ rev A) = rev l"
  proof (cases A rule: rev_cases)
    case (snoc A' c)
    then have "c = NL" using assms(1) by simp
    then show ?thesis using n snoc by (simp add: takeWhile_append)
  qed (use n in \<open>simp add: takeWhile_eq_all_conv\<close>)
  then show ?thesis unfolding line_before_def t by simp
qed

lemma line_after_at:
  assumes "r = [] \<or> hd r = NL" "NL \<notin> set l"
  shows "line_after (u @ l @ r) (length u) = l"
proof -
  have n: "\<forall>x\<in>set l. x \<noteq> NL" using assms(2) by auto
  have "takeWhile (\<lambda>c. c \<noteq> NL) (l @ r) = l"
    using n assms(1) by (cases r) (simp_all add: takeWhile_append takeWhile_eq_all_conv)
  then show ?thesis by (simp add: line_after_def)
qed

lemma line_after_prefix: "NL \<notin> set b \<Longrightarrow> length b \<le> length (line_after (u @ b @ r) (length u))"
proof -
  assume "NL \<notin> set b"
  then have "\<forall>x\<in>set b. x \<noteq> NL" by auto
  then show ?thesis by (simp add: line_after_def takeWhile_append)
qed

text \<open>The arrow keys keep the column: from column \<open>|B|\<close> of a line, up goes to the same column of the line above, or
  to its end when that line is shorter; when it is not, down leads back to where the cursor was.\<close>

theorem arrows_keep_column:
  assumes "A = [] \<or> last A = NL" and "NL \<notin> set L" and "NL \<notin> set B"
    and "s = A @ L @ NL # B @ R" and "p = length A + length L + 1 + length B"
  shows "sp_up s p = length A + min (length B) (length L) \<and> (length B \<le> length L \<longrightarrow> sp_down s (sp_up s p) = p)"
proof -
  have s: "s = (A @ L @ [NL]) @ B @ R" by (simp add: assms(4))
  have lb: "line_before s p = B"
    using line_before_at [of "A @ L @ [NL]" B R] assms(3,5) by (simp add: s)
  have q: "p - length B - 1 = length A + length L" using assms(5) by simp
  have lq: "line_before s (length A + length L) = L" unfolding assms(4) by (rule line_before_at [OF assms(1,2)])
  have up: "sp_up s p = length A + min (length B) (length L)"
  proof -
    have ne: "length B \<noteq> p" using assms(5) by simp
    show ?thesis unfolding sp_up_def Let_def lb q lq using ne by simp
  qed
  moreover have "sp_down s (sp_up s p) = p" if le: "length B \<le> length L"
  proof -
    let ?p = "length A + length B"
    let ?L1 = "take (length B) L" and ?L2 = "drop (length B) L"
    have sp: "sp_up s p = ?p" using up le by simp
    have L: "L = ?L1 @ ?L2" "length ?L1 = length B" "length ?L2 = length L - length B" using le by simp_all
    have "NL \<notin> set ?L1" "NL \<notin> set ?L2" using assms(2) by (auto dest: in_set_takeD in_set_dropD)
    moreover have "s = A @ ?L1 @ (?L2 @ NL # B @ R)" "s = (A @ ?L1) @ ?L2 @ (NL # B @ R)" by (simp_all add: assms(4))
    ultimately have b: "line_before s ?p = ?L1" and a: "line_after s ?p = ?L2"
      using line_before_at [OF assms(1), of ?L1 "?L2 @ NL # B @ R"] line_after_at [of "NL # B @ R" ?L2 "A @ ?L1"] L(2)
      by simp_all
    have "length B \<le> length (line_after s (Suc (length A + length L)))"
      using line_after_prefix [OF assms(3), of "A @ L @ [NL]" R] by (simp add: s)
    moreover have "?p + length ?L2 = length A + length L" using le by simp
    moreover have "length A + length L < length s" by (simp add: assms(4))
    moreover have "p = Suc (length A + length L) + length B" using assms(5) by simp
    ultimately show ?thesis using a b L(2) unfolding sp sp_down_def Let_def by simp
  qed
  ultimately show ?thesis by blast
qed

section \<open>Clicks\<close>

fun cell :: "uchar list \<Rightarrow> int \<Rightarrow> int \<Rightarrow> int \<times> int" where
  "cell [] line col = (line, col)"
| "cell (c # cs) line col = (if c = NL then cell cs (line + 1) 0 else cell cs line (col + 1))"

lemma cell_later: "fst (cell cs line col) > line \<or> fst (cell cs line col) = line \<and> snd (cell cs line col) = col + int (length cs)"
proof (induction cs arbitrary: line col)
  case (Cons c cs)
  show ?case
  proof (cases "c = NL")
    case True
    then show ?thesis using Cons.IH [where line = "line + 1" and col = 0] by auto
  next
    case False
    then show ?thesis using Cons.IH [where line = line and col = "col + 1"] by auto
  qed
qed simp

lemma cell_nonneg: "0 \<le> line \<Longrightarrow> 0 \<le> col \<Longrightarrow> 0 \<le> fst (cell cs line col) \<and> 0 \<le> snd (cell cs line col)"
  by (induction cs arbitrary: line col) auto

lemma click_finds:
  "k \<le> length cs \<Longrightarrow> cell (take k cs) line col = (cy, cx) \<Longrightarrow> click_loop cx cy cs pos line col = pos + k"
proof (induction cs arbitrary: k pos line col)
  case (Cons c cs)
  show ?case
  proof (cases k)
    case 0
    then show ?thesis using Cons.prems(2) by simp
  next
    case (Suc j)
    have l: "cy > line \<or> cy = line \<and> cx = col + int k"
      using cell_later [where cs = "take k (c # cs)" and line = line and col = col] Cons.prems by auto
    then have n: "\<not> (line = cy \<and> col \<ge> cx)" using Suc by auto
    show ?thesis
    proof (cases "c = NL")
      case True
      then have c: "cell (take j cs) (line + 1) 0 = (cy, cx)" using Cons.prems(2) Suc by simp
      then have "line \<noteq> cy" using cell_later [where cs = "take j cs" and line = "line + 1" and col = 0] by auto
      then show ?thesis using True Suc c Cons.IH [where k = j and line = "line + 1" and col = 0 and pos = "Suc pos"] Cons.prems(1) by simp
    next
      case False
      then show ?thesis using n Suc Cons.IH [where k = j and line = line and col = "col + 1" and pos = "Suc pos"] Cons.prems by simp
    qed
  qed
qed simp

lemma click_bounds: "click_loop cx cy cs pos line col \<le> pos + length cs"
proof (induction cs arbitrary: pos line col)
  case (Cons c cs)
  have "click_loop cx cy cs (Suc pos) l k \<le> Suc pos + length cs" for l k by (rule Cons.IH)
  then show ?case by (simp add: trans_le_add1)
qed simp

text \<open>Clicking into the cell of a character puts the cursor before that character: for every offset of the text and
  every pixel of the cell at its line and column, where lines are not broken.\<close>

theorem editor_click_finds:
  assumes "edit_ok e" and "k \<le> length (str_of (arr e))" and "cell (take k (str_of (arr e))) 0 0 = (row, col)"
    and "0 \<le> dx" and "dx < 10" and "0 \<le> dy" and "dy < 18"
  shows "editor_click x y (x + 10 * col + dx) (y + 18 * row + dy) e = e\<lparr>epos := int k\<rparr> \<and> edit_ok (e\<lparr>epos := int k\<rparr>)"
proof -
  have nn: "0 \<le> row" "0 \<le> col" using cell_nonneg [where line = 0 and col = 0 and cs = "take k (str_of (arr e))"] assms(3) by simp_all
  have "(x + 10 * col + dx - x) sdiv 10 = col" "(y + 18 * row + dy - y) sdiv 18 = row"
    using nn assms(4-7) by (simp_all add: signed_divide_int_def sgn_if)
  moreover have "click_loop col row (str_of (arr e)) 0 0 0 = k" using click_finds [OF assms(2,3), of 0] by simp
  ultimately show ?thesis using nn move_refines [OF assms(1,2)] by (simp add: editor_click_def Let_def)
qed

lemma editor_handler_ok: "edit_ok e \<Longrightarrow> edit_ok (editorInputHandler x y ty p0 p1 e)"
proof -
  assume e: "edit_ok e"
  have "click_loop cx cy (str_of (arr e)) 0 0 0 \<le> length (str_of (arr e))" for cx cy using click_bounds [of cx cy "str_of (arr e)" 0] by simp
  then have "edit_ok (editor_click x y p0 p1 e)" using move_refines [OF e] by (simp add: editor_click_def Let_def)
  moreover have "edit_ok (safeKeyHandler ty p0 e)" using safeKeyHandler_refines [OF e, of ty p0] by (rule conjunct1)
  ultimately show ?thesis using e unfolding editorInputHandler_def by presburger
qed

section \<open>Loading and saving\<close>





section \<open>Defects\<close>

text \<open>A text saved over a longer file keeps the end of that file: \<open>open\<close> does not truncate.\<close>

lemma save_keeps_tail:
  assumes "can_open E (save_name e)" "d (canon E (save_name e)) = Some old"
    and "stored E (save_name e) (length (str_of (arr e))) = (int (length (str_of (arr e))), length (str_of (arr e)))"
  shows "fst (saveHandler E 6 d e) (canon E (save_name e)) = Some (str_of (arr e) @ drop (length (str_of (arr e))) old)"
  using assms by (simp add: saveHandler_def overwrite_def Let_def)

text \<open>When the text is not written completely, the editor warns, and then takes it for saved all the same.\<close>

lemma short_write_forgotten:
  assumes "can_open E (save_name e)" "stored E (save_name e) (length (str_of (arr e))) = (r, k)"
    and "r \<noteq> int (length (str_of (arr e)))" "saveHandler E 6 d e = (d', e', out)"
  shows "out = [Not_complete, Saved] \<and> \<not> modified e'"
  using assms by (auto simp: saveHandler_def Let_def)

text \<open>The codes of the number pad and its digits are printable characters, so that the pad never moves the cursor.\<close>

lemma number_pad_types:
  "key \<in> {0x4B, 0x34, 0x4D, 0x36, 0x48, 0x38, 0x50, 0x32, 0x47, 0x4F, 0x49, 0x51} \<Longrightarrow> key_action key e = insert_key key e"
proof -
  assume "key \<in> {0x4B, 0x34, 0x4D, 0x36, 0x48, 0x38, 0x50, 0x32, 0x47, 0x4F, 0x49, 0x51}"
  then have "typed key" by (auto simp: typed_def)
  then show ?thesis by (simp add: key_action_def Let_def)
qed

section \<open>Witnesses\<close>

definition demo_edit :: edit where
  "demo_edit = \<lparr>arr = [0x61, 0x0A, 0x62] @ replicate 997 0, epos = 2, modified = False, fname = [0x66]\<rparr>"

lemma demo_edit_ok: "edit_ok demo_edit \<and> view demo_edit = ([0x61, 0x0A, 0x62], 2)"
proof (rule edit_okI [where r = "replicate 996 0"])
  have "replicate 997 (0 :: uchar) = 0 # replicate 996 0" by (simp flip: replicate_Suc)
  then show "arr demo_edit = [0x61, 0x0A, 0x62] @ 0 # replicate 996 0" by (simp add: demo_edit_def)
qed (simp_all add: demo_edit_def)

theorem editor_refines_witness:
  "view (safeKeyHandler KEY_DOWN 8 demo_edit) = ([0x61, 0x62], 1)"
proof -
  have "view (safeKeyHandler KEY_DOWN 8 demo_edit) = sp_key 8 (view demo_edit)"
    using editor_refines [of demo_edit KEY_DOWN 8] demo_edit_ok by simp
  then show ?thesis using demo_edit_ok by (simp add: sp_key_def typed_def)
qed



theorem arrows_keep_column_witness:
  "sp_up [0x61, 0x62, 0x0A, 0x63] 4 = 1 \<and> sp_down [0x61, 0x62, 0x0A, 0x63] 1 = 4"
proof -
  have n: "NL \<notin> set [0x61, 0x62]" "NL \<notin> set [0x63]" by simp_all
  have a: "sp_up [0x61, 0x62, 0x0A, 0x63] 4 = 1 \<and> sp_down [0x61, 0x62, 0x0A, 0x63] (sp_up [0x61, 0x62, 0x0A, 0x63] 4) = 4"
    using arrows_keep_column [OF _ n, of "[]" "[0x61, 0x62, 0x0A, 0x63]" "[]" 4] by auto
  show ?thesis using a [THEN conjunct2] unfolding a [THEN conjunct1] by (rule conjI [OF refl])
qed

theorem editor_click_finds_witness:
  "editor_click 10 50 17 70 demo_edit = demo_edit\<lparr>epos := 2\<rparr>"
proof -
  have s: "str_of (arr demo_edit) = [0x61, 0x0A, 0x62]" using demo_edit_ok by (simp add: view_def)
  have "cell (take 2 (str_of (arr demo_edit))) 0 0 = (1, 0)" by (simp add: s)
  from editor_click_finds [OF conjunct1 [OF demo_edit_ok] _ this, of 7 2 10 50] s show ?thesis by simp
qed

end
